(* ===== verification/Prelude.thy ===== *)
theory Prelude
  imports Main "HOL-Library.Word" "HOL-Library.Monad_Syntax"
begin

text \<open>
  Shared vocabulary of the development: machine integers and byte strings, the
  operations of \<^verbatim>\<open>std::string\<close> the sources use on binary values, and the lemma
  collections the component theories draw on.
  \<^item> \<open>bytes\<close> is a \<^verbatim>\<open>std::string\<close>, a \<^verbatim>\<open>leveldb::Slice\<close> or the region a
    \<^verbatim>\<open>char*\<close> points to; a C string is kept without its terminating NUL.
  \<^item> \<open>str_resize\<close> and \<open>str_replace\<close> are \<^verbatim>\<open>std::string::resize\<close> and
    \<^verbatim>\<open>std::string::replace\<close>.
  \<^item> \<open>word_nat\<close> moves a goal about words to natural numbers, \<open>bytes_simps\<close> evaluates
    the string operations.
\<close>

unbundle bit_operations_syntax

type_synonym byte = "8 word"
type_synonym bytes = "byte list"
type_synonym u32 = "32 word"
type_synonym u64 = "64 word"

named_theorems word_nat \<open>rules that read word operations as operations on natural numbers\<close>
named_theorems bytes_simps \<open>rules that evaluate operations on byte strings\<close>
named_theorems splits_at \<open>case rules for list positions\<close>

section \<open>Words\<close>

lemma and_127_take_bit: "(v :: 'a :: len word) AND 127 = take_bit 7 v"
  by (simp add: take_bit_eq_mask mask_eq_exp_minus_1)

lemma unat_and_127 [word_nat]: "unat ((v :: 'a :: len word) AND 127) = unat v mod 128"
  if "7 < LENGTH('a)"
proof -
  have "unat (v AND 127) = take_bit 7 (unat v)"
    using that by (simp add: and_127_take_bit unsigned_take_bit_eq)
  then show ?thesis by (simp add: take_bit_eq_mod)
qed

lemma unat_drop [word_nat]: "unat (drop_bit n (v :: 'a :: len word)) = unat v div 2 ^ n"
  by (subst unat_drop_bit_eq) (rule drop_bit_eq_div)

lemma bit_beyond [simp]:
  "8 \<le> n \<Longrightarrow> \<not> bit (b :: byte) n"
  "32 \<le> n \<Longrightarrow> \<not> bit (v :: u32) n"
  "64 \<le> n \<Longrightarrow> \<not> bit (w :: u64) n"
  by (auto dest: bit_imp_le_length)

lemma unat_byte_lt [simp]: "unat (b :: byte) < 256"
  using unsigned_less [of b] by simp

lemma unat_u32_lt: "unat (v :: u32) < 4294967296"
  using unsigned_less [of v, where 'a = nat] by simp

lemma unat_u64_lt: "unat (v :: u64) < 18446744073709551616"
  using unsigned_less [of v, where 'a = nat] by simp

lemma bit_128_iff [simp]: "bit (128 :: int) n \<longleftrightarrow> n = 7"
proof -
  have "bit (128 :: int) n \<longleftrightarrow> bit (2 ^ 7 :: int) n" by simp
  also have "\<dots> \<longleftrightarrow> n = 7"
    by (simp only: bit_exp_iff possible_bit_int) auto
  finally show ?thesis .
qed

lemma odd_div_128: "odd (n div 128) \<longleftrightarrow> 128 \<le> n" if "n < 256" for n :: nat
proof (cases "128 \<le> n")
  case True
  with that have "n div 128 = 1" by (simp add: div_nat_eqI)
  with True show ?thesis by simp
qed simp

lemma bit_7_iff: "bit b 7 \<longleftrightarrow> 128 \<le> unat b" for b :: byte
proof -
  have "bit b 7 \<longleftrightarrow> bit (unat b) 7"
    by (simp add: bit_unsigned_iff)
  also have "\<dots> \<longleftrightarrow> odd (unat b div 128)"
    by (simp add: bit_iff_odd)
  finally show ?thesis by (simp add: odd_div_128)
qed

lemma and_128_eq_0 [word_nat]: "b AND 128 = 0 \<longleftrightarrow> unat b < 128" for b :: byte
proof -
  have "b AND 128 = 0 \<longleftrightarrow> \<not> bit b 7"
  proof
    assume "b AND 128 = 0"
    then have "\<not> bit (b AND 128) 7" by simp
    then show "\<not> bit b 7" by (simp add: bit_and_iff)
  next
    assume "\<not> bit b 7"
    then show "b AND 128 = 0" by (intro bit_word_eqI) (auto simp: bit_and_iff)
  qed
  then show ?thesis by (simp add: bit_7_iff not_le)
qed

section \<open>Lists\<close>

lemma remove_at:
  assumes "distinct xs" "j < length xs"
  shows "set (take j xs @ drop (Suc j) xs) = set xs - {xs ! j}"
    and "distinct (take j xs @ drop (Suc j) xs)"
    and "Suc (length (take j xs @ drop (Suc j) xs)) = length xs"
proof -
  obtain as x bs where xs: "xs = as @ x # bs" "length as = j"
    using assms(2) id_take_nth_drop by (metis length_take min.absorb4)
  show "set (take j xs @ drop (Suc j) xs) = set xs - {xs ! j}"
    "distinct (take j xs @ drop (Suc j) xs)"
    "Suc (length (take j xs @ drop (Suc j) xs)) = length xs"
    using assms xs by auto
qed

lemma option_eqI: "(\<And>x. a = Some x \<longleftrightarrow> b = Some x) \<Longrightarrow> a = b"
  by (cases a; cases b) auto

section \<open>Byte strings\<close>

definition str_resize :: "bytes \<Rightarrow> nat \<Rightarrow> bytes" where
  "str_resize v n = take n v @ replicate (n - length v) 0"

definition str_replace :: "bytes \<Rightarrow> nat \<Rightarrow> nat \<Rightarrow> bytes \<Rightarrow> bytes" where
  "str_replace v pos len s = take pos v @ s @ drop (pos + len) v"

lemma length_str_resize [simp, bytes_simps]: "length (str_resize v n) = n"
  by (simp add: str_resize_def)

lemma str_resize_id [simp, bytes_simps]: "str_resize v (length v) = v"
  by (simp add: str_resize_def)

lemma take_str_resize [bytes_simps]:
  "k \<le> n \<Longrightarrow> k \<le> length v \<Longrightarrow> take k (str_resize v n) = take k v"
  by (simp add: str_resize_def min_def)

lemma str_resize_shrink [bytes_simps]: "n \<le> length v \<Longrightarrow> str_resize v n = take n v"
  by (simp add: str_resize_def)

lemma str_resize_grow [bytes_simps]:
  "length v \<le> n \<Longrightarrow> str_resize v n = v @ replicate (n - length v) 0"
  by (simp add: str_resize_def)

lemma length_str_replace [bytes_simps]:
  "pos \<le> length v \<Longrightarrow>
   length (str_replace v pos len s) = pos + length s + (length v - (pos + len))"
  by (simp add: str_replace_def min_def)

lemma take_str_replace [bytes_simps]:
  "k \<le> pos \<Longrightarrow> pos \<le> length v \<Longrightarrow> take k (str_replace v pos len s) = take k v"
  by (simp add: str_replace_def min_def)

lemma slice_str_replace [bytes_simps]:
  "pos \<le> length v \<Longrightarrow> take (length s) (drop pos (str_replace v pos len s)) = s"
  by (simp add: str_replace_def)

lemma drop_str_replace [bytes_simps]:
  "pos \<le> length v \<Longrightarrow> length s \<le> k \<Longrightarrow>
   drop (pos + k) (str_replace v pos len s) = drop (pos + len + (k - length s)) v"
  by (simp add: str_replace_def ac_simps)

end
