(* ===== verification/Coding.thy ===== *)
theory Coding
  imports Prelude
begin

text \<open>
  The integer and slice encodings of \<^verbatim>\<open>lib/leveldb/util/coding.cc\<close> and
  \<^verbatim>\<open>coding.h\<close>: fixed-width little-endian words, varints and length-prefixed slices.
  A decoder that reads from \<^verbatim>\<open>[p, limit)\<close> takes the bytes of that range and returns the
  value with the bytes from the new position on, or \<open>None\<close> for \<^verbatim>\<open>NULL\<close>.
  The variable-length encoders are related to one specification on natural numbers,
  \<open>varint\<close>, from which the round trips follow.
\<close>

section \<open>Fixed-width words\<close>

definition EncodeFixed32 :: "u32 \<Rightarrow> bytes" where
  "EncodeFixed32 v =
     [ucast v, ucast (drop_bit 8 v), ucast (drop_bit 16 v), ucast (drop_bit 24 v)]"

definition EncodeFixed64 :: "u64 \<Rightarrow> bytes" where
  "EncodeFixed64 v =
     [ucast v, ucast (drop_bit 8 v), ucast (drop_bit 16 v), ucast (drop_bit 24 v),
      ucast (drop_bit 32 v), ucast (drop_bit 40 v), ucast (drop_bit 48 v),
      ucast (drop_bit 56 v)]"

definition PutFixed32 :: "bytes \<Rightarrow> u32 \<Rightarrow> bytes" where
  "PutFixed32 dst v = dst @ EncodeFixed32 v"

definition PutFixed64 :: "bytes \<Rightarrow> u64 \<Rightarrow> bytes" where
  "PutFixed64 dst v = dst @ EncodeFixed64 v"

definition DecodeFixed32 :: "bytes \<Rightarrow> u32" where
  "DecodeFixed32 p =
     ucast (p ! 0) OR push_bit 8 (ucast (p ! 1)) OR
     push_bit 16 (ucast (p ! 2)) OR push_bit 24 (ucast (p ! 3))"

definition DecodeFixed64 :: "bytes \<Rightarrow> u64" where
  "DecodeFixed64 p =
     (let lo = ucast (DecodeFixed32 p); hi = ucast (DecodeFixed32 (drop 4 p))
      in push_bit 32 hi OR lo)"

lemma length_EncodeFixed32 [simp]: "length (EncodeFixed32 v) = 4"
  by (simp add: EncodeFixed32_def)

lemma length_EncodeFixed64 [simp]: "length (EncodeFixed64 v) = 8"
  by (simp add: EncodeFixed64_def)

lemma DecodeFixed32_append [simp]: "DecodeFixed32 (EncodeFixed32 v @ rest) = v"
proof (rule bit_word_eqI)
  fix n assume "n < LENGTH(32)"
  then have n: "n < 32" by simp
  consider "n < 8" | "8 \<le> n" "n < 16" | "16 \<le> n" "n < 24" | "24 \<le> n"
    using n by linarith
  then show "bit (DecodeFixed32 (EncodeFixed32 v @ rest)) n = bit v n"
    using n by cases (auto simp: DecodeFixed32_def EncodeFixed32_def bit_simps)
qed

lemma EncodeFixed64_halves:
  "EncodeFixed64 v = EncodeFixed32 (ucast v) @ EncodeFixed32 (ucast (drop_bit 32 v))"
  by (auto simp: EncodeFixed64_def EncodeFixed32_def bit_simps intro!: bit_word_eqI)

lemma DecodeFixed64_append [simp]: "DecodeFixed64 (EncodeFixed64 v @ rest) = v"
proof (rule bit_word_eqI)
  fix n assume "n < LENGTH(64)"
  then have n: "n < 64" by simp
  consider "n < 32" | "32 \<le> n" by linarith
  then show "bit (DecodeFixed64 (EncodeFixed64 v @ rest)) n = bit v n"
    using n by cases (auto simp: DecodeFixed64_def EncodeFixed64_halves Let_def bit_simps)
qed

lemma DecodeFixed32_EncodeFixed32 [simp]: "DecodeFixed32 (EncodeFixed32 v) = v"
  using DecodeFixed32_append [of v "[]"] by simp

lemma DecodeFixed64_EncodeFixed64 [simp]: "DecodeFixed64 (EncodeFixed64 v) = v"
  using DecodeFixed64_append [of v "[]"] by simp

lemma EncodeFixed32_inject [simp]: "EncodeFixed32 v = EncodeFixed32 w \<longleftrightarrow> v = w"
  by (metis DecodeFixed32_EncodeFixed32)

lemma EncodeFixed64_inject [simp]: "EncodeFixed64 v = EncodeFixed64 w \<longleftrightarrow> v = w"
  by (metis DecodeFixed64_EncodeFixed64)

lemma EncodeFixed32_DecodeFixed32:
  assumes "length p = 4" shows "EncodeFixed32 (DecodeFixed32 p) = p"
proof -
  obtain a b c d where p: "p = [a, b, c, d]"
    using assms by (auto simp: numeral_eq_Suc length_Suc_conv)
  show ?thesis
    by (auto simp: p EncodeFixed32_def DecodeFixed32_def bit_simps intro!: bit_word_eqI)
qed

lemma EncodeFixed64_DecodeFixed64:
  assumes "length p = 8" shows "EncodeFixed64 (DecodeFixed64 p) = p"
proof -
  have lo: "ucast (DecodeFixed64 p) = DecodeFixed32 p"
    by (auto simp: DecodeFixed64_def Let_def bit_simps intro!: bit_word_eqI)
  have hi: "ucast (drop_bit 32 (DecodeFixed64 p)) = DecodeFixed32 (drop 4 p)"
    by (auto simp: DecodeFixed64_def Let_def bit_simps intro!: bit_word_eqI)
  have "DecodeFixed32 p = DecodeFixed32 (take 4 p)"
    using assms by (simp add: DecodeFixed32_def)
  then show ?thesis
    using assms by (simp add: EncodeFixed64_halves lo hi EncodeFixed32_DecodeFixed32)
qed

section \<open>Varints\<close>

definition EncodeVarint32 :: "u32 \<Rightarrow> bytes" where
  "EncodeVarint32 v =
     (if v < 2 ^ 7 then [ucast v]
      else if v < 2 ^ 14 then [ucast (v OR 128), ucast (drop_bit 7 v)]
      else if v < 2 ^ 21 then
        [ucast (v OR 128), ucast (drop_bit 7 v OR 128), ucast (drop_bit 14 v)]
      else if v < 2 ^ 28 then
        [ucast (v OR 128), ucast (drop_bit 7 v OR 128), ucast (drop_bit 14 v OR 128),
         ucast (drop_bit 21 v)]
      else
        [ucast (v OR 128), ucast (drop_bit 7 v OR 128), ucast (drop_bit 14 v OR 128),
         ucast (drop_bit 21 v OR 128), ucast (drop_bit 28 v)])"

lemma unat_drop_bit_7_less:
  "128 \<le> v \<Longrightarrow> unat (drop_bit 7 v) < unat v" for v :: u64
proof -
  assume "128 \<le> v"
  then have "0 < unat v" by (auto simp: word_le_nat_alt)
  then show ?thesis by (simp add: word_nat)
qed

function EncodeVarint64 :: "u64 \<Rightarrow> bytes" where
  "EncodeVarint64 v =
     (if 128 \<le> v then ucast ((v AND 127) OR 128) # EncodeVarint64 (drop_bit 7 v)
      else [ucast v])"
  by pat_completeness auto
termination
  by (relation "measure unat") (auto intro: unat_drop_bit_7_less)

function VarintLength :: "u64 \<Rightarrow> nat" where
  "VarintLength v = (if 128 \<le> v then Suc (VarintLength (drop_bit 7 v)) else 1)"
  by pat_completeness auto
termination
  by (relation "measure unat") (auto intro: unat_drop_bit_7_less)

declare EncodeVarint64.simps [simp del] VarintLength.simps [simp del]

definition PutVarint32 :: "bytes \<Rightarrow> u32 \<Rightarrow> bytes" where
  "PutVarint32 dst v = dst @ EncodeVarint32 v"

definition PutVarint64 :: "bytes \<Rightarrow> u64 \<Rightarrow> bytes" where
  "PutVarint64 dst v = dst @ EncodeVarint64 v"

definition PutLengthPrefixedSlice :: "bytes \<Rightarrow> bytes \<Rightarrow> bytes" where
  "PutLengthPrefixedSlice dst value = PutVarint32 dst (of_nat (length value)) @ value"

text \<open>
  The decoding loops: \<open>shift\<close> and \<open>result\<close> are the loop's variables, the byte list is
  \<^verbatim>\<open>[p, limit)\<close>.
\<close>

fun GetVarint32PtrFallback_loop :: "nat \<Rightarrow> u32 \<Rightarrow> bytes \<Rightarrow> (u32 \<times> bytes) option" where
  "GetVarint32PtrFallback_loop shift result [] = None"
| "GetVarint32PtrFallback_loop shift result (b # p) =
     (if 28 < shift then None
      else if b AND 128 \<noteq> 0
      then GetVarint32PtrFallback_loop (shift + 7)
             (result OR push_bit shift (ucast b AND 127)) p
      else Some (result OR push_bit shift (ucast b), p))"

definition GetVarint32PtrFallback :: "bytes \<Rightarrow> (u32 \<times> bytes) option" where
  "GetVarint32PtrFallback p = GetVarint32PtrFallback_loop 0 0 p"

definition GetVarint32Ptr :: "bytes \<Rightarrow> (u32 \<times> bytes) option" where
  "GetVarint32Ptr p =
     (case p of
        b # p' \<Rightarrow> if (ucast b :: u32) AND 128 = 0 then Some (ucast b, p')
                  else GetVarint32PtrFallback p
      | [] \<Rightarrow> GetVarint32PtrFallback p)"

fun GetVarint64Ptr_loop :: "nat \<Rightarrow> u64 \<Rightarrow> bytes \<Rightarrow> (u64 \<times> bytes) option" where
  "GetVarint64Ptr_loop shift result [] = None"
| "GetVarint64Ptr_loop shift result (b # p) =
     (if 63 < shift then None
      else if b AND 128 \<noteq> 0
      then GetVarint64Ptr_loop (shift + 7)
             (result OR push_bit shift (ucast b AND 127)) p
      else Some (result OR push_bit shift (ucast b), p))"

definition GetVarint64Ptr :: "bytes \<Rightarrow> (u64 \<times> bytes) option" where
  "GetVarint64Ptr p = GetVarint64Ptr_loop 0 0 p"

definition GetVarint32 :: "bytes \<Rightarrow> (u32 \<times> bytes) option" where
  "GetVarint32 input = GetVarint32Ptr input"

definition GetVarint64 :: "bytes \<Rightarrow> (u64 \<times> bytes) option" where
  "GetVarint64 input = GetVarint64Ptr input"

definition GetLengthPrefixedSlice :: "bytes \<Rightarrow> (bytes \<times> bytes) option" where
  "GetLengthPrefixedSlice input =
     (case GetVarint32 input of
        None \<Rightarrow> None
      | Some (len, rest) \<Rightarrow>
          if unat len \<le> length rest then Some (take (unat len) rest, drop (unat len) rest)
          else None)"

section \<open>The specification of varints\<close>

fun varint :: "nat \<Rightarrow> bytes" where
  "varint n = (if n < 128 then [of_nat n] else of_nat (n mod 128 + 128) # varint (n div 128))"

declare varint.simps [simp del]

lemma ucast_of_nat_unat: "(ucast w :: byte) = of_nat (unat w)"
  by simp

lemma cont_byte:
  fixes w :: "'a :: len word"
  assumes "7 < LENGTH('a)"
  shows "(ucast (w OR 128) :: byte) = of_nat (unat w mod 128 + 128)"
proof -
  have c: "(ucast (w OR 128) :: byte) = take_bit 7 (ucast w) OR 128"
    using assms by (intro bit_word_eqI) (auto simp: bit_simps)
  also have "\<dots> = take_bit 7 (ucast w) + (128 :: byte)"
    by (rule disjunctive_add [symmetric]) (auto simp: bit_take_bit_iff)
  also have "take_bit 7 (ucast w) = (of_nat (unat w mod 128) :: byte)"
  proof -
    have "unat w mod 128 = take_bit 7 (unat w)" by (simp add: take_bit_eq_mod)
    then show ?thesis by (auto simp: bit_simps simp del: take_bit_of_nat intro!: bit_word_eqI)
  qed
  finally show ?thesis by simp
qed

lemma of_nat_split_7:
  "(of_nat n :: 'a :: len word) = of_nat (n mod 128) OR push_bit 7 (of_nat (n div 128))"
proof (rule bit_word_eqI)
  fix k assume "k < LENGTH('a)"
  have "n mod 128 = take_bit 7 n" "n div 128 = drop_bit 7 n"
    by (simp_all add: take_bit_eq_mod drop_bit_eq_div)
  then show "bit (of_nat n :: 'a word) k = bit (of_nat (n mod 128) OR push_bit 7 (of_nat (n div 128)) :: 'a word) k"
    using \<open>k < LENGTH('a)\<close> by (auto simp add: bit_or_iff bit_push_bit_iff bit_of_nat_iff bit_take_bit_iff bit_drop_bit_eq comp_def)
qed

lemma EncodeVarint64_varint: "EncodeVarint64 v = varint (unat v)"
proof (induction v rule: EncodeVarint64.induct)
  case (1 v)
  show ?case
  proof (cases "128 \<le> v")
    case True
    then have "\<not> unat v < 128" by (simp add: word_le_nat_alt)
    moreover have "(ucast ((v AND 127) OR 128) :: byte) = ucast (v OR 128)"
      by (intro bit_word_eqI) (auto simp: bit_simps and_127_take_bit)
    ultimately show ?thesis
      using True 1 by (simp add: EncodeVarint64.simps [of v] varint.simps [of "unat v"] cont_byte word_nat)
  next
    case False
    then show ?thesis
      by (simp add: EncodeVarint64.simps [of v] varint.simps [of "unat v"] word_le_nat_alt)
  qed
qed

lemma VarintLength_varint: "VarintLength v = length (varint (unat v))"
proof (induction v rule: VarintLength.induct)
  case (1 v)
  then show ?case
    by (cases "128 \<le> v")
      (simp_all add: VarintLength.simps [of v] varint.simps [of "unat v"] word_le_nat_alt word_nat)
qed

lemma varint_unroll:
  "n < 128 \<Longrightarrow> varint n = [of_nat n]"
  "128 \<le> n \<Longrightarrow> n < 16384 \<Longrightarrow> varint n = [of_nat (n mod 128 + 128), of_nat (n div 128)]"
  "16384 \<le> n \<Longrightarrow> n < 2097152 \<Longrightarrow> varint n =
     [of_nat (n mod 128 + 128), of_nat (n div 128 mod 128 + 128), of_nat (n div 16384)]"
  "2097152 \<le> n \<Longrightarrow> n < 268435456 \<Longrightarrow> varint n =
     [of_nat (n mod 128 + 128), of_nat (n div 128 mod 128 + 128),
      of_nat (n div 16384 mod 128 + 128), of_nat (n div 2097152)]"
  "268435456 \<le> n \<Longrightarrow> n < 4294967296 \<Longrightarrow> varint n =
     [of_nat (n mod 128 + 128), of_nat (n div 128 mod 128 + 128),
      of_nat (n div 16384 mod 128 + 128), of_nat (n div 2097152 mod 128 + 128),
      of_nat (n div 268435456)]"
proof -
  have d: "n div 128 div 128 = n div 16384" "n div 16384 div 128 = n div 2097152"
    "n div 2097152 div 128 = n div 268435456"
    by (simp_all flip: div_mult2_eq)
  have less: "n div 128 < 128 \<longleftrightarrow> n < 16384" "n div 16384 < 128 \<longleftrightarrow> n < 2097152"
    "n div 2097152 < 128 \<longleftrightarrow> n < 268435456" "n div 268435456 < 128 \<longleftrightarrow> n < 34359738368"
    by linarith+
  note unroll = varint.simps [of n] varint.simps [of "n div 128"] varint.simps [of "n div 16384"]
    varint.simps [of "n div 2097152"] varint.simps [of "n div 268435456"] d less
  show "n < 128 \<Longrightarrow> varint n = [of_nat n]" by (simp add: unroll)
  show "128 \<le> n \<Longrightarrow> n < 16384 \<Longrightarrow> varint n = [of_nat (n mod 128 + 128), of_nat (n div 128)]"
    by (simp add: unroll)
  show "16384 \<le> n \<Longrightarrow> n < 2097152 \<Longrightarrow> varint n =
     [of_nat (n mod 128 + 128), of_nat (n div 128 mod 128 + 128), of_nat (n div 16384)]"
    by (simp add: unroll)
  show "2097152 \<le> n \<Longrightarrow> n < 268435456 \<Longrightarrow> varint n =
     [of_nat (n mod 128 + 128), of_nat (n div 128 mod 128 + 128),
      of_nat (n div 16384 mod 128 + 128), of_nat (n div 2097152)]"
    by (simp add: unroll)
  show "268435456 \<le> n \<Longrightarrow> n < 4294967296 \<Longrightarrow> varint n =
     [of_nat (n mod 128 + 128), of_nat (n div 128 mod 128 + 128),
      of_nat (n div 16384 mod 128 + 128), of_nat (n div 2097152 mod 128 + 128),
      of_nat (n div 268435456)]"
    by (simp add: unroll)
qed

lemma EncodeVarint32_varint: "EncodeVarint32 v = varint (unat v)"
proof -
  let ?n = "unat v"
  have last: "(ucast (drop_bit k v) :: byte) = of_nat (?n div 2 ^ k)" for k
    by (subst ucast_of_nat_unat) (simp only: unat_drop)
  have cont: "(ucast (drop_bit k v OR 128) :: byte) = of_nat ((?n div 2 ^ k) mod 128 + 128)" for k
    by (simp add: cont_byte unat_drop)
  have cont0: "(ucast (v OR 128) :: byte) = of_nat (?n mod 128 + 128)"
    by (simp add: cont_byte)
  have "?n < 2 ^ 32" using unat_u32_lt [of v] by simp
  then consider "?n < 128" | "128 \<le> ?n" "?n < 16384" | "16384 \<le> ?n" "?n < 2097152"
    | "2097152 \<le> ?n" "?n < 268435456" | "268435456 \<le> ?n" "?n < 4294967296"
    by force
  then show ?thesis
    by cases
      (simp_all add: EncodeVarint32_def word_less_nat_alt last cont cont0 varint_unroll)
qed

lemma byte_of_nat_small: "n < 128 \<Longrightarrow> (of_nat n :: byte) AND 128 = 0"
  by (simp add: and_128_eq_0 unat_of_nat)

lemma ucast_byte_of_nat: "n < 256 \<Longrightarrow> (ucast (of_nat n :: byte) :: 'a :: len word) = of_nat n"
proof -
  assume "n < 256"
  then have "unat (of_nat n :: byte) = n" by (simp add: unat_of_nat)
  then show ?thesis by (metis of_nat_unat)
qed

lemma byte_cont: "(of_nat (n mod 128 + 128) :: byte) AND 128 \<noteq> 0"
proof -
  have "unat (of_nat (n mod 128 + 128) :: byte) = n mod 128 + 128"
    by (simp add: unat_of_nat del: of_nat_add)
  then show ?thesis by (simp add: and_128_eq_0 del: of_nat_add)
qed

lemma byte_cont_payload:
  "(ucast (of_nat (n mod 128 + 128) :: byte) :: 'a :: len word) AND 127 = of_nat (n mod 128)"
  if "8 \<le> LENGTH('a)"
proof -
  have "unat (of_nat (n mod 128 + 128) :: byte) = n mod 128 + 128"
    by (simp add: unat_of_nat del: of_nat_add)
  then have "(ucast (of_nat (n mod 128 + 128) :: byte) :: 'a word) = of_nat (n mod 128 + 128)"
    by (metis of_nat_unat)
  moreover have "(of_nat (n mod 128 + 128) :: 'a word) AND 127 = of_nat (take_bit 7 (n mod 128 + 128))"
    by (auto simp: and_127_take_bit bit_simps simp del: of_nat_add intro!: bit_word_eqI)
  moreover have "take_bit 7 (n mod 128 + 128) = n mod 128"
    by (simp add: take_bit_eq_mod)
  ultimately show ?thesis by simp
qed

lemma byte_payloads:
  "(ucast (of_nat (n mod 128 + 128) :: byte) :: u32) AND 127 = of_nat (n mod 128)"
  "(ucast (of_nat (n mod 128 + 128) :: byte) :: u64) AND 127 = of_nat (n mod 128)"
  by (rule byte_cont_payload, simp)+

lemma push_varint:
  "push_bit s (of_nat (n mod 128)) OR push_bit (s + 7) (of_nat (n div 128))
     = push_bit s (of_nat n :: 'a :: len word)"
  by (subst of_nat_split_7 [of n]) (simp add: push_bit_or ac_simps)

lemma varint_bits_step:
  fixes n :: nat
  assumes "n < 2 ^ (w - 7 * i)" and "\<not> n < 128"
  shows "7 * i + 7 < w" and "n div 128 < 2 ^ (w - 7 * (i + 1))"
proof -
  show *: "7 * i + 7 < w"
  proof (rule ccontr)
    assume "\<not> 7 * i + 7 < w"
    then have "(2::nat) ^ (w - 7 * i) \<le> 2 ^ 7" by (intro power_increasing) auto
    with assms show False by simp
  qed
  define k where "k = w - 7 * (i + 1)"
  have "w - 7 * i = k + 7" using * by (simp add: k_def)
  with assms(1) have "n < 2 ^ k * 128" by (simp add: power_add)
  then show "n div 128 < 2 ^ (w - 7 * (i + 1))"
    by (simp add: k_def less_mult_imp_div_less)
qed

lemma GetVarint32PtrFallback_loop_cont:
  "s \<le> 28 \<Longrightarrow> GetVarint32PtrFallback_loop s r (of_nat (n mod 128 + 128) # p) =
     GetVarint32PtrFallback_loop (s + 7) (r OR push_bit s (of_nat (n mod 128))) p"
  using byte_cont [of n] by (simp only: GetVarint32PtrFallback_loop.simps byte_payloads) simp

lemma GetVarint32PtrFallback_loop_varint:
  "n < 2 ^ (32 - 7 * i) \<Longrightarrow> i \<le> 4 \<Longrightarrow>
   GetVarint32PtrFallback_loop (7 * i) r (varint n @ rest) = Some (r OR push_bit (7 * i) (of_nat n), rest)"
proof (induction n arbitrary: i r rule: varint.induct)
  case (1 n)
  show ?case
  proof (cases "n < 128")
    case True
    with 1 show ?thesis
      by (simp add: varint.simps [of n] byte_of_nat_small ucast_byte_of_nat)
  next
    case False
    from varint_bits_step [OF "1.prems"(1) False]
    have i: "7 * i + 7 < 32" and "n div 128 < 2 ^ (32 - 7 * (i + 1))" by simp_all
    then have "GetVarint32PtrFallback_loop (7 * (i + 1)) (r OR push_bit (7 * i) (of_nat (n mod 128)))
        (varint (n div 128) @ rest) =
      Some ((r OR push_bit (7 * i) (of_nat (n mod 128))) OR push_bit (7 * (i + 1)) (of_nat (n div 128)), rest)"
      by (intro "1.IH" [OF False]) auto
    moreover have "7 * (i + 1) = 7 * i + 7" by simp
    ultimately show ?thesis
      using False i
      by (simp only: varint.simps [of n] if_False append_Cons GetVarint32PtrFallback_loop_cont or.assoc push_varint)
  qed
qed

lemma GetVarint64Ptr_loop_cont:
  "s \<le> 63 \<Longrightarrow> GetVarint64Ptr_loop s r (of_nat (n mod 128 + 128) # p) =
     GetVarint64Ptr_loop (s + 7) (r OR push_bit s (of_nat (n mod 128))) p"
  using byte_cont [of n] by (simp only: GetVarint64Ptr_loop.simps byte_payloads) simp

lemma GetVarint64Ptr_loop_varint:
  "n < 2 ^ (64 - 7 * i) \<Longrightarrow> i \<le> 9 \<Longrightarrow>
   GetVarint64Ptr_loop (7 * i) r (varint n @ rest) = Some (r OR push_bit (7 * i) (of_nat n), rest)"
proof (induction n arbitrary: i r rule: varint.induct)
  case (1 n)
  show ?case
  proof (cases "n < 128")
    case True
    with 1 show ?thesis
      by (simp add: varint.simps [of n] byte_of_nat_small ucast_byte_of_nat)
  next
    case False
    from varint_bits_step [OF "1.prems"(1) False]
    have i: "7 * i + 7 < 64" and "n div 128 < 2 ^ (64 - 7 * (i + 1))" by simp_all
    then have "GetVarint64Ptr_loop (7 * (i + 1)) (r OR push_bit (7 * i) (of_nat (n mod 128)))
        (varint (n div 128) @ rest) =
      Some ((r OR push_bit (7 * i) (of_nat (n mod 128))) OR push_bit (7 * (i + 1)) (of_nat (n div 128)), rest)"
      by (intro "1.IH" [OF False]) auto
    moreover have "7 * (i + 1) = 7 * i + 7" by simp
    ultimately show ?thesis
      using False i
      by (simp only: varint.simps [of n] if_False append_Cons GetVarint64Ptr_loop_cont or.assoc push_varint)
  qed
qed

lemma ucast_and_128: "(ucast b :: u32) AND 128 = 0 \<longleftrightarrow> b AND 128 = 0" for b :: byte
proof -
  have "(ucast b :: u32) AND 128 = ucast (b AND 128)"
    by (intro bit_word_eqI) (auto simp: bit_simps)
  moreover have "unat (ucast x :: u32) = unat x" for x :: byte
    by (simp add: unsigned_ucast_eq take_bit_nat_eq_self unat_byte_lt [THEN less_trans])
  ultimately show ?thesis by (metis unsigned_0 word_unat_eq_iff)
qed

lemma GetVarint32Ptr_fallback: "GetVarint32Ptr p = GetVarint32PtrFallback p"
  by (cases p) (simp_all add: GetVarint32Ptr_def GetVarint32PtrFallback_def ucast_and_128)

lemma GetVarint32_EncodeVarint32 [simp]: "GetVarint32 (EncodeVarint32 v @ rest) = Some (v, rest)"
  using GetVarint32PtrFallback_loop_varint [of "unat v" 0 0 rest] unat_u32_lt [of v]
  by (simp add: GetVarint32_def GetVarint32Ptr_fallback GetVarint32PtrFallback_def
      EncodeVarint32_varint)

lemma GetVarint64_EncodeVarint64 [simp]: "GetVarint64 (EncodeVarint64 v @ rest) = Some (v, rest)"
proof -
  have "unat v < 2 ^ 64" using unat_u64_lt [of v] by simp
  then show ?thesis
    using GetVarint64Ptr_loop_varint [of "unat v" 0 0 rest]
    by (simp add: GetVarint64_def GetVarint64Ptr_def EncodeVarint64_varint)
qed

lemma length_EncodeVarint32: "length (EncodeVarint32 v) = VarintLength (ucast v)"
proof -
  have "unat (ucast v :: u64) = unat v"
    by (simp add: unsigned_ucast_eq take_bit_nat_eq_self unat_u32_lt [THEN less_trans])
  then show ?thesis by (simp add: EncodeVarint32_varint VarintLength_varint)
qed

lemma length_varint_le: "n < 2 ^ (7 * k) \<Longrightarrow> 0 < k \<Longrightarrow> length (varint n) \<le> k"
proof (induction n arbitrary: k rule: varint.induct)
  case (1 n)
  show ?case
  proof (cases "n < 128")
    case True
    with 1 show ?thesis by (simp add: varint.simps [of n])
  next
    case False
    have k: "1 < k"
    proof (rule ccontr)
      assume "\<not> 1 < k"
      with "1.prems" have "k = 1" by simp
      with "1.prems"(1) False show False by simp
    qed
    have "7 * k = 7 * (k - 1) + 7" using k by simp
    then have "n < 2 ^ (7 * (k - 1)) * 128" using "1.prems"(1) by (simp add: power_add)
    then have "length (varint (n div 128)) \<le> k - 1"
      using "1.IH" [OF False] k by (simp add: less_mult_imp_div_less)
    with False k show ?thesis by (simp add: varint.simps [of n])
  qed
qed

lemma length_EncodeVarint64_le: "length (EncodeVarint64 v) \<le> 10"
  using length_varint_le [of "unat v" 10] unat_u64_lt [of v]
  by (simp add: EncodeVarint64_varint)

lemma length_EncodeVarint32_le: "length (EncodeVarint32 v) \<le> 5"
  using length_varint_le [of "unat v" 5] unat_u32_lt [of v]
  by (simp add: EncodeVarint32_varint)

section \<open>Length-prefixed slices\<close>

lemma GetLengthPrefixedSlice_Put:
  assumes "length v < 2 ^ 32"
  shows "GetLengthPrefixedSlice (PutLengthPrefixedSlice [] v @ rest) = Some (v, rest)"
  using assms
  by (simp add: GetLengthPrefixedSlice_def PutLengthPrefixedSlice_def PutVarint32_def
      unat_of_nat take_bit_nat_eq_self)

lemma GetVarint32PtrFallback_loop_suffix:
  "GetVarint32PtrFallback_loop s r p = Some (v, rest) \<Longrightarrow> \<exists>used. p = used @ rest \<and> used \<noteq> []"
proof (induction s r p rule: GetVarint32PtrFallback_loop.induct)
  case (2 s r b p)
  then show ?case by (force split: if_splits)
qed simp

lemma GetVarint32_suffix:
  assumes "GetVarint32 p = Some (v, rest)"
  shows "\<exists>used. p = used @ rest \<and> used \<noteq> []"
  using assms
  by (auto simp: GetVarint32_def GetVarint32Ptr_def GetVarint32PtrFallback_def
      split: list.splits if_splits dest: GetVarint32PtrFallback_loop_suffix)

lemma GetLengthPrefixedSlice_shorter:
  assumes "GetLengthPrefixedSlice p = Some (v, rest)"
  shows "length rest < length p"
proof -
  from assms obtain len r where g: "GetVarint32 p = Some (len, r)"
    and rest: "rest = drop (unat len) r"
    by (auto simp: GetLengthPrefixedSlice_def split: option.splits if_splits)
  from GetVarint32_suffix [OF g] obtain used where "p = used @ r" "used \<noteq> []" by blast
  then have "length r < length p" by simp
  then show ?thesis using rest by simp
qed

text \<open>Arrays of 32-bit words, as they end blocks.\<close>

lemma length_restarts: "length (concat (map (\<lambda>r. EncodeFixed32 (f r)) rs)) = 4 * length rs"
  by (induction rs) simp_all

lemma drop_restarts:
  "j < length rs \<Longrightarrow> drop (4 * j) (concat (map (\<lambda>r. EncodeFixed32 (f r)) rs) @ z) =
     EncodeFixed32 (f (rs ! j)) @ drop (4 * j + 4) (concat (map (\<lambda>r. EncodeFixed32 (f r)) rs) @ z)"
proof (induction rs arbitrary: j)
  case (Cons r rs)
  then show ?case by (cases j) (simp_all add: drop_append add.commute)
qed simp

section \<open>Properties\<close>

text \<open>C11: Every 32-bit and 64-bit value is read back from its varint encoding, and the bytes
  after the encoding are left alone; \<^verbatim>\<open>VarintLength\<close> is the length of the encoding, and the
  buffers of 5 and 10 bytes in \<^verbatim>\<open>PutVarint32\<close> and \<^verbatim>\<open>PutVarint64\<close> are large enough.\<close>
theorem varint_roundtrip:
  "GetVarint32 (PutVarint32 [] v @ rest) = Some (v, rest) \<and>
   GetVarint64 (PutVarint64 [] w @ rest) = Some (w, rest) \<and>
   length (EncodeVarint32 v) = VarintLength (ucast v) \<and> length (EncodeVarint64 w) = VarintLength w \<and>
   length (EncodeVarint32 v) \<le> 5 \<and> length (EncodeVarint64 w) \<le> 10"
proof -
  have len: "length (EncodeVarint64 w) = VarintLength w"
    by (simp only: EncodeVarint64_varint VarintLength_varint)
  show ?thesis
    using length_EncodeVarint64_le [of w] unfolding len
    by (simp add: PutVarint32_def PutVarint64_def length_EncodeVarint32 [symmetric] length_EncodeVarint32_le)
qed

text \<open>The inline fast path of \<^verbatim>\<open>GetVarint32Ptr\<close> (\<^verbatim>\<open>coding.h\<close>) returns on every input,
  malformed ones included, what the loop of \<^verbatim>\<open>GetVarint32PtrFallback\<close> returns.\<close>
theorem varint_fast_path: "GetVarint32Ptr p = GetVarint32PtrFallback p"
  by (rule GetVarint32Ptr_fallback)

end
