(* ===== verification/Hashing.thy ===== *)
theory Hashing
  imports Coding
begin

text \<open>
  The two hash functions: \<open>murmur64\<close> (\<^verbatim>\<open>src/util/myhash.cpp\<close>), which turns a name into
  the second half of a metadata key, and \<open>Hash\<close> (\<^verbatim>\<open>lib/leveldb/util/hash.cc\<close>), which the
  block cache and the bloom filter use. Both read little-endian words from the key, in
  chunks of eight and of four bytes, and then the remaining bytes through a
  \<^verbatim>\<open>switch\<close> that falls through. \<open>Hash\<close> reads its tail through a signed \<^verbatim>\<open>char\<close>, hence
  the \<open>scast\<close>.
\<close>

section \<open>murmur64\<close>

definition murmur_m :: u64 where
  "murmur_m = 0xc6a4a7935bd1e995"

definition murmur_mix :: "u64 \<Rightarrow> u64 \<Rightarrow> u64" where
  "murmur_mix h k =
     (let k = k * murmur_m;
          k = k XOR drop_bit 47 k;
          k = k * murmur_m;
          h = h XOR k
      in h * murmur_m)"

fun murmur_rounds :: "u64 \<Rightarrow> bytes \<Rightarrow> u64 \<times> bytes" where
  "murmur_rounds h (b0 # b1 # b2 # b3 # b4 # b5 # b6 # b7 # data) =
     murmur_rounds (murmur_mix h (DecodeFixed64 [b0, b1, b2, b3, b4, b5, b6, b7])) data"
| "murmur_rounds h data = (h, data)"

definition murmur_tail :: "u64 \<Rightarrow> bytes \<Rightarrow> u64" where
  "murmur_tail h data2 =
     (let n = length data2;
          h = (if 7 \<le> n then h XOR push_bit 48 (ucast (data2 ! 6)) else h);
          h = (if 6 \<le> n then h XOR push_bit 40 (ucast (data2 ! 5)) else h);
          h = (if 5 \<le> n then h XOR push_bit 32 (ucast (data2 ! 4)) else h);
          h = (if 4 \<le> n then h XOR push_bit 24 (ucast (data2 ! 3)) else h);
          h = (if 3 \<le> n then h XOR push_bit 16 (ucast (data2 ! 2)) else h);
          h = (if 2 \<le> n then h XOR push_bit 8 (ucast (data2 ! 1)) else h)
      in if 1 \<le> n then (h XOR ucast (data2 ! 0)) * murmur_m else h)"

definition murmur64 :: "bytes \<Rightarrow> u64 \<Rightarrow> u64" where
  "murmur64 key seed =
     (let h = seed XOR (of_nat (length key) * murmur_m);
          (h, data2) = murmur_rounds h key;
          h = murmur_tail h data2;
          h = h XOR drop_bit 47 h;
          h = h * murmur_m
      in h XOR drop_bit 47 h)"

lemma length_murmur_rounds: "length (snd (murmur_rounds h key)) = length key mod 8"
  by (induction h key rule: murmur_rounds.induct) simp_all

section \<open>The hash of LevelDB\<close>

definition hash_m :: u32 where
  "hash_m = 0xc6a4a793"

fun hash_rounds :: "u32 \<Rightarrow> bytes \<Rightarrow> u32 \<times> bytes" where
  "hash_rounds h (b0 # b1 # b2 # b3 # data) =
     (let h = h + DecodeFixed32 [b0, b1, b2, b3];
          h = h * hash_m
      in hash_rounds (h XOR drop_bit 16 h) data)"
| "hash_rounds h data = (h, data)"

definition hash_tail :: "u32 \<Rightarrow> bytes \<Rightarrow> u32" where
  "hash_tail h data =
     (let n = length data;
          h = (if 3 \<le> n then h + push_bit 16 (scast (data ! 2)) else h);
          h = (if 2 \<le> n then h + push_bit 8 (scast (data ! 1)) else h)
      in if 1 \<le> n
         then (let h = (h + scast (data ! 0)) * hash_m in h XOR drop_bit 24 h)
         else h)"

definition Hash :: "bytes \<Rightarrow> u32 \<Rightarrow> u32" where
  "Hash data seed =
     (let (h, rest) = hash_rounds (seed XOR (of_nat (length data) * hash_m)) data
      in hash_tail h rest)"

end
