(* ===== verification/Handle_Table.thy ===== *)
theory Handle_Table
  imports Hashing
begin

text \<open>
  The chained hash table of \<^verbatim>\<open>lib/leveldb/util/cache.cc\<close> (class \<^verbatim>\<open>HandleTable\<close>). Handles
  are heap objects, addressed by a number; the table holds addresses, and a bucket is the
  list of the addresses on its \<^verbatim>\<open>next_hash\<close> chain. The slot \<^verbatim>\<open>FindPointer\<close> returns is
  a bucket with a position of its chain, one past the end for the trailing slot.
  The locale \<open>key_table\<close> states what a cache shard relies on; the interpretation at the end
  discharges it for the model of the code.
\<close>

section \<open>Handles and the table\<close>

record 'v LRUHandle =
  lh_value :: 'v
  lh_charge :: nat
  lh_key :: bytes
  lh_refs :: u32
  lh_hash :: u32

type_synonym hid = nat
type_synonym 'v heap = "hid \<rightharpoonup> 'v LRUHandle"

record HandleTable =
  ht_length :: nat
  ht_elems :: nat
  ht_list :: "hid list list"

definition is_entry :: "'v heap \<Rightarrow> bytes \<Rightarrow> u32 \<Rightarrow> hid \<Rightarrow> bool" where
  "is_entry heap key hash e =
     (case heap e of Some h \<Rightarrow> lh_hash h = hash \<and> lh_key h = key | None \<Rightarrow> False)"

definition bucket_of :: "u32 \<Rightarrow> nat \<Rightarrow> nat" where
  "bucket_of hash len = unat (hash AND (of_nat len - 1))"

definition FindPointer :: "'v heap \<Rightarrow> HandleTable \<Rightarrow> bytes \<Rightarrow> u32 \<Rightarrow> nat \<times> nat" where
  "FindPointer heap t key hash =
     (let i = bucket_of hash (ht_length t)
      in (i, length (takeWhile (\<lambda>e. \<not> is_entry heap key hash e) (ht_list t ! i))))"

definition slot_get :: "HandleTable \<Rightarrow> nat \<times> nat \<Rightarrow> hid option" where
  "slot_get t ptr =
     (let chain = ht_list t ! fst ptr
      in if snd ptr < length chain then Some (chain ! snd ptr) else None)"

definition HandleTable_Lookup :: "'v heap \<Rightarrow> HandleTable \<Rightarrow> bytes \<Rightarrow> u32 \<Rightarrow> hid option" where
  "HandleTable_Lookup heap t key hash = slot_get t (FindPointer heap t key hash)"

function grow :: "nat \<Rightarrow> nat \<Rightarrow> nat" where
  "grow new_length elems =
     (if 0 < new_length \<and> new_length < elems then grow (2 * new_length) elems else new_length)"
  by pat_completeness auto
termination
  by (relation "measure (\<lambda>(new_length, elems). elems - new_length)") auto

declare grow.simps [simp del]

definition rehash :: "'v heap \<Rightarrow> nat \<Rightarrow> hid list list \<Rightarrow> hid \<Rightarrow> hid list list" where
  "rehash heap new_length new_list e =
     (case heap e of
        None \<Rightarrow> new_list
      | Some h \<Rightarrow> let i = bucket_of (lh_hash h) new_length in new_list[i := e # new_list ! i])"

definition HandleTable_Resize :: "'v heap \<Rightarrow> HandleTable \<Rightarrow> HandleTable" where
  "HandleTable_Resize heap t =
     (let new_length = grow 4 (ht_elems t);
          new_list = foldl (rehash heap new_length) (replicate new_length []) (concat (ht_list t))
      in t\<lparr>ht_list := new_list, ht_length := new_length\<rparr>)"

definition HandleTable_new :: HandleTable where
  "HandleTable_new =
     HandleTable_Resize (Map.empty :: unit heap) \<lparr>ht_length = 0, ht_elems = 0, ht_list = []\<rparr>"

definition HandleTable_Insert ::
  "'v heap \<Rightarrow> HandleTable \<Rightarrow> hid \<Rightarrow> bytes \<Rightarrow> u32 \<Rightarrow> HandleTable \<times> hid option" where
  "HandleTable_Insert heap t e key hash =
     (let (i, j) = FindPointer heap t key hash;
          chain = ht_list t ! i
      in case slot_get t (i, j) of
           Some old \<Rightarrow> (t\<lparr>ht_list := (ht_list t)[i := chain[j := e]]\<rparr>, Some old)
         | None \<Rightarrow>
             let t = t\<lparr>ht_list := (ht_list t)[i := chain @ [e]], ht_elems := Suc (ht_elems t)\<rparr>
             in (if ht_length t < ht_elems t then HandleTable_Resize heap t else t, None))"

definition HandleTable_Remove ::
  "'v heap \<Rightarrow> HandleTable \<Rightarrow> bytes \<Rightarrow> u32 \<Rightarrow> HandleTable \<times> hid option" where
  "HandleTable_Remove heap t key hash =
     (let (i, j) = FindPointer heap t key hash;
          chain = ht_list t ! i
      in case slot_get t (i, j) of
           None \<Rightarrow> (t, None)
         | Some result \<Rightarrow>
             (t\<lparr>ht_list := (ht_list t)[i := take j chain @ drop (Suc j) chain],
                ht_elems := ht_elems t - 1\<rparr>, Some result))"

section \<open>Invariant\<close>

definition ids :: "HandleTable \<Rightarrow> hid set" where
  "ids t = set (concat (ht_list t))"

definition pow2_length :: "nat \<Rightarrow> bool" where
  "pow2_length n = (\<exists>k<32. n = 2 ^ k)"

definition home :: "'v heap \<Rightarrow> nat \<Rightarrow> hid \<Rightarrow> nat option" where
  "home heap n e = map_option (\<lambda>h. bucket_of (lh_hash h) n) (heap e)"

definition keyed_once :: "'v heap \<Rightarrow> hid set \<Rightarrow> bool" where
  "keyed_once heap E \<longleftrightarrow>
     (\<forall>e\<in>E. \<forall>e'\<in>E. \<forall>key hash. is_entry heap key hash e \<longrightarrow> is_entry heap key hash e' \<longrightarrow> e = e')"

definition ht_ok :: "'v heap \<Rightarrow> HandleTable \<Rightarrow> bool" where
  "ht_ok heap t \<longleftrightarrow>
     length (ht_list t) = ht_length t \<and> pow2_length (ht_length t) \<and>
     ht_elems t = length (concat (ht_list t)) \<and>
     (\<forall>i<ht_length t. distinct (ht_list t ! i) \<and>
        (\<forall>e\<in>set (ht_list t ! i). home heap (ht_length t) e = Some i)) \<and>
     keyed_once heap (ids t)"

lemma bucket_of_less: "pow2_length n \<Longrightarrow> bucket_of hash n < n"
proof -
  assume "pow2_length n"
  then obtain k where k: "k < 32" "n = 2 ^ k" by (auto simp: pow2_length_def)
  have "hash AND (of_nat n - 1) = take_bit k hash"
    using k by (simp add: take_bit_eq_mask mask_eq_exp_minus_1)
  then have "bucket_of hash n = take_bit k (unat hash)"
    using k by (simp add: bucket_of_def unsigned_take_bit_eq)
  then show ?thesis using k by simp
qed

lemma is_entry_home: "is_entry heap key hash e \<Longrightarrow> home heap n e = Some (bucket_of hash n)"
  by (auto simp: is_entry_def home_def split: option.splits)

lemma in_concat_iff: "e \<in> set (concat xss) \<longleftrightarrow> (\<exists>i<length xss. e \<in> set (xss ! i))"
  by (induction xss) (auto simp: nth_Cons' less_Suc_eq_0_disj)

lemma in_ids_iff: "ht_ok heap t \<Longrightarrow> e \<in> ids t \<longleftrightarrow> (\<exists>i<ht_length t. e \<in> set (ht_list t ! i))"
  by (simp add: ids_def ht_ok_def in_concat_iff del: set_concat)

lemma ht_ok_live: "ht_ok heap t \<Longrightarrow> e \<in> ids t \<Longrightarrow> heap e \<noteq> None"
  by (frule in_ids_iff [of heap t e]) (fastforce simp: ht_ok_def home_def)

lemma entry_bucket:
  assumes "ht_ok heap t" "is_entry heap key hash e"
  shows "e \<in> ids t \<longleftrightarrow> e \<in> set (ht_list t ! bucket_of hash (ht_length t))"
proof -
  have "bucket_of hash (ht_length t) < ht_length t"
    using assms by (simp add: ht_ok_def bucket_of_less)
  moreover have "home heap (ht_length t) e = Some i"
    if "i < ht_length t" "e \<in> set (ht_list t ! i)" for i
    using assms that by (auto simp: ht_ok_def)
  ultimately show ?thesis
    using assms is_entry_home [OF assms(2)] by (auto simp: in_ids_iff)
qed

lemma slot_get_find:
  "slot_get t (i, length (takeWhile (\<lambda>e. \<not> P e) (ht_list t ! i))) = find P (ht_list t ! i)"
proof -
  have *: "(if length (takeWhile (\<lambda>e. \<not> P e) xs) < length xs
         then Some (xs ! length (takeWhile (\<lambda>e. \<not> P e) xs)) else None) = find P xs" for xs
    by (induction xs) auto
  show ?thesis unfolding slot_get_def Let_def fst_conv snd_conv by (rule *)
qed

lemma Lookup_find:
  "HandleTable_Lookup heap t key hash =
     find (is_entry heap key hash) (ht_list t ! bucket_of hash (ht_length t))"
  by (simp add: HandleTable_Lookup_def FindPointer_def Let_def slot_get_find)

lemma Lookup_iff:
  assumes "ht_ok heap t"
  shows "HandleTable_Lookup heap t key hash = Some e \<longleftrightarrow> e \<in> ids t \<and> is_entry heap key hash e"
proof
  assume "HandleTable_Lookup heap t key hash = Some e"
  then have "is_entry heap key hash e" "e \<in> set (ht_list t ! bucket_of hash (ht_length t))"
    by (auto simp: Lookup_find find_Some_iff)
  then show "e \<in> ids t \<and> is_entry heap key hash e"
    using entry_bucket [OF assms] by blast
next
  assume *: "e \<in> ids t \<and> is_entry heap key hash e"
  then have "e \<in> set (ht_list t ! bucket_of hash (ht_length t))"
    using entry_bucket [OF assms] by blast
  with * obtain e' where e': "HandleTable_Lookup heap t key hash = Some e'"
    by (cases "HandleTable_Lookup heap t key hash") (auto simp: Lookup_find find_None_iff)
  then have "is_entry heap key hash e'" "e' \<in> ids t"
    using entry_bucket [OF assms] by (auto simp: Lookup_find find_Some_iff)
  then have "e' = e" using * assms by (auto simp: ht_ok_def keyed_once_def)
  with e' show "HandleTable_Lookup heap t key hash = Some e" by simp
qed

section \<open>Resizing\<close>

lemma grow_props:
  "pow2_length n \<Longrightarrow> elems \<le> 2 ^ 31 \<Longrightarrow> pow2_length (grow n elems) \<and> elems \<le> grow n elems"
proof (induction n elems rule: grow.induct)
  case (1 n elems)
  then obtain k where k: "k < 32" "n = 2 ^ k" by (auto simp: pow2_length_def)
  show ?case
  proof (cases "n < elems")
    case True
    then have "(2::nat) ^ k < 2 ^ 31" using "1.prems" k by simp
    then have "k < 31" by (rule power_less_imp_less_exp [rotated]) simp
    then have "pow2_length (2 * n)"
      using k by (auto simp: pow2_length_def intro: exI [of _ "Suc k"])
    moreover have "0 < n" using k by simp
    ultimately have "pow2_length (grow (2 * n) elems) \<and> elems \<le> grow (2 * n) elems"
      using "1.IH" "1.prems" True by blast
    with True \<open>0 < n\<close> show ?thesis by (simp add: grow.simps [of n])
  next
    case False
    then show ?thesis using "1.prems" by (simp add: grow.simps [of n])
  qed
qed

lemma length_concat_update:
  "i < length xss \<Longrightarrow>
   length (concat (xss[i := ys])) + length (xss ! i) = length (concat xss) + length ys"
proof (induction xss arbitrary: i)
  case (Cons xs xss)
  then show ?case by (cases i) auto
qed simp

lemma rehash_fold:
  assumes "pow2_length n"
  shows "length N = n \<Longrightarrow> distinct es \<Longrightarrow> \<forall>e\<in>set es. heap e \<noteq> None \<Longrightarrow>
    \<forall>i<n. distinct (N ! i) \<and> set (N ! i) \<inter> set es = {} \<Longrightarrow>
    (let N' = foldl (rehash heap n) N es
     in length N' = n \<and> length (concat N') = length (concat N) + length es \<and>
        (\<forall>i<n. distinct (N' ! i) \<and>
           set (N' ! i) = set (N ! i) \<union> {e \<in> set es. home heap n e = Some i}))"
proof (induction es arbitrary: N)
  case (Cons e es)
  obtain h where h: "heap e = Some h" using Cons.prems by auto
  define i where "i = bucket_of (lh_hash h) n"
  have i: "i < n" using bucket_of_less [OF assms] by (simp add: i_def)
  define N1 where "N1 = N[i := e # N ! i]"
  have N1: "rehash heap n N e = N1" by (simp add: rehash_def h N1_def i_def Let_def)
  have home: "home heap n e = Some i" by (simp add: home_def h i_def)
  have nth: "N1 ! j = (if j = i then e # N ! i else N ! j)" if "j < n" for j
    using that i Cons.prems(1) by (simp add: N1_def)
  have "length (concat N1) + length (N ! i) = length (concat N) + Suc (length (N ! i))"
    using length_concat_update [of i N "e # N ! i"] i Cons.prems(1) by (simp add: N1_def)
  then have len: "length (concat N1) = Suc (length (concat N))" by simp
  have "length N1 = n" using Cons.prems(1) by (simp add: N1_def)
  moreover have "\<forall>j<n. distinct (N1 ! j) \<and> set (N1 ! j) \<inter> set es = {}"
    using Cons.prems nth i by auto
  ultimately have IH: "let N' = foldl (rehash heap n) N1 es
     in length N' = n \<and> length (concat N') = length (concat N1) + length es \<and>
        (\<forall>j<n. distinct (N' ! j) \<and>
           set (N' ! j) = set (N1 ! j) \<union> {e \<in> set es. home heap n e = Some j})"
    using Cons.prems by (intro Cons.IH) auto
  then show ?case
    by (auto simp: Let_def N1 len nth home)
qed simp

lemma distinct_concat_buckets:
  assumes "ht_ok heap t"
  shows "distinct (concat (ht_list t))"
proof -
  have "distinct (concat (map f [a ..< b]))"
    if "\<forall>i<b. distinct (f i)" "\<forall>i<b. \<forall>j<b. i \<noteq> j \<longrightarrow> set (f i) \<inter> set (f j) = {}"
    for f :: "nat \<Rightarrow> hid list" and a b
    using that by (induction b) (fastforce simp: less_Suc_eq)+
  moreover have "set (ht_list t ! i) \<inter> set (ht_list t ! j) = {}"
    if "i < ht_length t" "j < ht_length t" "i \<noteq> j" for i j
  proof -
    have "home heap (ht_length t) e = Some i" if "e \<in> set (ht_list t ! i)" for e
      using assms that \<open>i < ht_length t\<close> by (auto simp: ht_ok_def)
    moreover have "home heap (ht_length t) e = Some j" if "e \<in> set (ht_list t ! j)" for e
      using assms that \<open>j < ht_length t\<close> by (auto simp: ht_ok_def)
    ultimately show ?thesis using \<open>i \<noteq> j\<close> by fastforce
  qed
  moreover have "ht_list t = map (\<lambda>i. ht_list t ! i) [0 ..< ht_length t]"
    using assms by (metis ht_ok_def map_nth)
  ultimately show ?thesis
    using assms by (metis (no_types, lifting) ht_ok_def)
qed

lemma Resize_ok:
  assumes "distinct (concat (ht_list t))" "\<forall>e\<in>ids t. heap e \<noteq> None" "keyed_once heap (ids t)"
    and "ht_elems t = length (concat (ht_list t))" "ht_elems t \<le> 2 ^ 31"
  shows "ht_ok heap (HandleTable_Resize heap t)"
    and "ids (HandleTable_Resize heap t) = ids t"
    and "ht_elems (HandleTable_Resize heap t) = ht_elems t"
proof -
  define n where "n = grow 4 (ht_elems t)"
  define N where "N = foldl (rehash heap n) (replicate n []) (concat (ht_list t))"
  have R: "HandleTable_Resize heap t = t\<lparr>ht_list := N, ht_length := n\<rparr>"
    by (simp add: HandleTable_Resize_def Let_def n_def N_def)
  have four: "pow2_length 4" by (auto simp: pow2_length_def intro: exI [of _ 2])
  have n: "pow2_length n" using grow_props [OF four assms(5)] by (simp add: n_def)
  have N: "length N = n" "length (concat N) = length (concat (ht_list t))"
      "\<forall>i<n. distinct (N ! i) \<and> set (N ! i) = {e \<in> ids t. home heap n e = Some i}"
    using rehash_fold [OF n, of "replicate n []" "concat (ht_list t)" heap] assms
    by (simp_all add: Let_def ids_def N_def)
  have total: "\<exists>i<n. home heap n e = Some i" if "e \<in> ids t" for e
    using assms(2) that bucket_of_less [OF n] by (auto simp: home_def)
  have "e \<in> set (concat N) \<longleftrightarrow> (\<exists>i<n. e \<in> ids t \<and> home heap n e = Some i)" for e
    using N(1,3) by (auto simp: in_concat_iff simp del: set_concat)
  then have "e \<in> set (concat N) \<longleftrightarrow> e \<in> ids t" for e
    using total by blast
  then have ids: "set (concat N) = ids t" by blast
  show "ht_ok heap (HandleTable_Resize heap t)" "ids (HandleTable_Resize heap t) = ids t"
    "ht_elems (HandleTable_Resize heap t) = ht_elems t"
    using n N ids assms by (simp_all add: R ht_ok_def ids_def del: set_concat)
qed

lemma HandleTable_new_ok: "ht_ok heap HandleTable_new" "ids HandleTable_new = {}"
proof -
  let ?t = "\<lparr>ht_length = 0, ht_elems = 0, ht_list = []\<rparr>"
  have ok: "ht_ok (Map.empty :: unit heap) HandleTable_new" "ids HandleTable_new = {}"
    using Resize_ok [of ?t "Map.empty :: unit heap"] by (simp_all add: HandleTable_new_def ids_def keyed_once_def)
  then show "ids HandleTable_new = {}" by simp
  have "set (ht_list HandleTable_new ! i) = {}" if "i < ht_length HandleTable_new" for i
    using ok(2) that in_ids_iff [OF ok(1)] by (metis all_not_in_conv)
  with ok show "ht_ok heap HandleTable_new"
    by (auto simp: ht_ok_def keyed_once_def)
qed

section \<open>Insertion and removal\<close>

lemma bucket_update:
  assumes "ht_ok heap t" "i < ht_length t" "distinct ys"
    and "\<forall>e\<in>set ys. home heap (ht_length t) e = Some i"
    and "keyed_once heap (ids t - set (ht_list t ! i) \<union> set ys)"
    and "elems + length (ht_list t ! i) = ht_elems t + length ys"
  shows "ht_ok heap (t\<lparr>ht_list := (ht_list t)[i := ys], ht_elems := elems\<rparr>)"
    and "ids (t\<lparr>ht_list := (ht_list t)[i := ys], ht_elems := elems\<rparr>) =
      ids t - set (ht_list t ! i) \<union> set ys"
proof -
  have len: "length (ht_list t) = ht_length t"
    and buckets: "\<forall>j<ht_length t. distinct (ht_list t ! j) \<and>
        (\<forall>e\<in>set (ht_list t ! j). home heap (ht_length t) e = Some j)"
    using assms(1) by (auto simp: ht_ok_def)
  have home: "home heap (ht_length t) e = Some j" if "j < ht_length t" "e \<in> set (ht_list t ! j)" for j e
    using buckets that by blast
  have "e \<in> set (concat ((ht_list t)[i := ys])) \<longleftrightarrow>
      e \<in> ids t - set (ht_list t ! i) \<union> set ys" for e
  proof
    assume "e \<in> set (concat ((ht_list t)[i := ys]))"
    then obtain j where "j < ht_length t" "e \<in> set ((ht_list t)[i := ys] ! j)"
      by (auto simp: in_concat_iff len simp del: set_concat)
    then show "e \<in> ids t - set (ht_list t ! i) \<union> set ys"
      using home [of j e] home [of i e] assms(2) len
      by (auto simp: nth_list_update in_ids_iff [OF assms(1)] split: if_splits)
  next
    assume "e \<in> ids t - set (ht_list t ! i) \<union> set ys"
    then show "e \<in> set (concat ((ht_list t)[i := ys]))"
      using assms(2) len
      by (auto simp: in_concat_iff in_ids_iff [OF assms(1)] nth_list_update simp del: set_concat)
  qed
  then have ids: "set (concat ((ht_list t)[i := ys])) = ids t - set (ht_list t ! i) \<union> set ys"
    by blast
  then show "ids (t\<lparr>ht_list := (ht_list t)[i := ys], ht_elems := elems\<rparr>) =
      ids t - set (ht_list t ! i) \<union> set ys"
    by (simp add: ids_def)
  have "elems = length (concat ((ht_list t)[i := ys]))"
    using length_concat_update [of i "ht_list t" ys] assms by (simp add: len ht_ok_def)
  then show "ht_ok heap (t\<lparr>ht_list := (ht_list t)[i := ys], ht_elems := elems\<rparr>)"
    using assms buckets ids
    by (simp add: ht_ok_def len ids_def nth_list_update del: set_concat)
qed

lemma keyed_once_subset: "keyed_once heap E \<Longrightarrow> F \<subseteq> E \<Longrightarrow> keyed_once heap F"
  by (auto simp: keyed_once_def)

lemma is_entry_unique:
  "is_entry heap key hash e \<Longrightarrow> is_entry heap key' hash' e \<Longrightarrow> key' = key \<and> hash' = hash"
  by (auto simp: is_entry_def split: option.splits)

lemma keyed_once_insert:
  "keyed_once heap E \<Longrightarrow> is_entry heap key hash e \<Longrightarrow>
   \<forall>e'\<in>E. \<not> is_entry heap key hash e' \<Longrightarrow> keyed_once heap (insert e E)"
  unfolding keyed_once_def by (metis insert_iff is_entry_unique)

lemma slot_position:
  assumes "find P xs = Some x"
  defines "j \<equiv> length (takeWhile (\<lambda>e. \<not> P e) xs)"
  shows "j < length xs \<and> xs ! j = x \<and> P x"
  using assms by (induction xs arbitrary: j) (auto split: if_splits)

lemma bucket_facts:
  assumes "ht_ok heap t" and "i = bucket_of hash (ht_length t)"
  shows "i < ht_length t" and "distinct (ht_list t ! i)"
    and "\<forall>x\<in>set (ht_list t ! i). home heap (ht_length t) x = Some i"
    and "set (ht_list t ! i) \<subseteq> ids t"
proof -
  show i: "i < ht_length t" using assms by (simp add: ht_ok_def bucket_of_less)
  then show "distinct (ht_list t ! i)"
    "\<forall>x\<in>set (ht_list t ! i). home heap (ht_length t) x = Some i"
    using assms(1) by (auto simp: ht_ok_def)
  show "set (ht_list t ! i) \<subseteq> ids t" using i in_ids_iff [OF assms(1)] by blast
qed

lemma FindPointer_facts:
  assumes "FindPointer heap t key hash = (i, j)"
  shows "i = bucket_of hash (ht_length t)"
    and "slot_get t (i, j) = HandleTable_Lookup heap t key hash"
    and "HandleTable_Lookup heap t key hash = Some x \<Longrightarrow>
      j < length (ht_list t ! i) \<and> ht_list t ! i ! j = x \<and> is_entry heap key hash x"
  using assms slot_position [of "is_entry heap key hash" "ht_list t ! i" x]
  by (auto simp: FindPointer_def HandleTable_Lookup_def Let_def slot_get_find)

lemma elems_same: "t\<lparr>ht_list := l, ht_elems := ht_elems t\<rparr> = t\<lparr>ht_list := l\<rparr>"
  for t :: HandleTable
  by (cases t) simp

lemma HandleTable_Insert_ok:
  assumes ok: "ht_ok heap t" and e: "is_entry heap key hash e" "e \<notin> ids t"
    and room: "ht_elems t < 2 ^ 31"
    and ins: "HandleTable_Insert heap t e key hash = (t', old)"
  shows "ht_ok heap t'" and "old = HandleTable_Lookup heap t key hash"
    and "ids t' = insert e (ids t - set_option old)"
    and "ht_elems t' \<le> Suc (ht_elems t)"
proof -
  obtain i j where fp: "FindPointer heap t key hash = (i, j)" by fastforce
  note ptr = FindPointer_facts [OF fp]
  note bucket = bucket_facts [OF ok ptr(1)]
  have home_e: "home heap (ht_length t) e = Some i"
    using is_entry_home [OF e(1)] by (simp add: ptr(1))
  have e_new: "e \<notin> set (ht_list t ! i)" using e(2) bucket(4) by blast
  have once: "keyed_once heap (ids t)" using ok by (simp add: ht_ok_def)
  have "ht_ok heap t' \<and> old = HandleTable_Lookup heap t key hash
      \<and> ids t' = insert e (ids t - set_option old) \<and> ht_elems t' \<le> Suc (ht_elems t)"
  proof (cases "HandleTable_Lookup heap t key hash")
    case (Some x)
    note j = ptr(3) [OF Some]
    define ys where "ys = (ht_list t ! i)[j := e]"
    have ys: "set ys = insert e (set (ht_list t ! i) - {x})" "distinct ys"
      using set_update_distinct [OF bucket(2), of j e] j bucket(2) e_new
      by (auto simp: ys_def intro: distinct_list_update)
    have "x \<in> set (ht_list t ! i)" using j by auto
    then have E: "ids t - set (ht_list t ! i) \<union> set ys = insert e (ids t - {x})"
      using ys bucket(4) by auto
    have "keyed_once heap (insert e (ids t - {x}))"
      using once e(1) j \<open>x \<in> _\<close> bucket(4)
      by (intro keyed_once_insert) (auto intro: keyed_once_subset simp: keyed_once_def)
    moreover have "t' = t\<lparr>ht_list := (ht_list t)[i := ys], ht_elems := ht_elems t\<rparr>" "old = Some x"
      using ins Some ptr(2) by (auto simp: fp HandleTable_Insert_def ys_def elems_same Let_def)
    ultimately show ?thesis
      using bucket_update [OF ok bucket(1) ys(2), of "ht_elems t"] bucket(3) home_e ys Some E
      by (simp add: ys_def)
  next
    case None
    define ys where "ys = ht_list t ! i @ [e]"
    let ?t = "t\<lparr>ht_list := (ht_list t)[i := ys], ht_elems := Suc (ht_elems t)\<rparr>"
    have none: "\<forall>x\<in>ids t. \<not> is_entry heap key hash x"
      using None Lookup_iff [OF ok] by force
    have E: "ids t - set (ht_list t ! i) \<union> set ys = insert e (ids t)"
      using bucket(4) by (auto simp: ys_def)
    have "keyed_once heap (insert e (ids t))" by (rule keyed_once_insert [OF once e(1) none])
    then have T: "ht_ok heap ?t" "ids ?t = insert e (ids t)"
      using bucket_update [OF ok bucket(1), of ys "Suc (ht_elems t)"] bucket(2,3) home_e e_new E
      by (simp_all add: ys_def)
    have "\<forall>x\<in>ids ?t. heap x \<noteq> None"
      using ht_ok_live [OF T(1)] by blast
    then have R: "ht_ok heap (HandleTable_Resize heap ?t)" "ids (HandleTable_Resize heap ?t) = ids ?t"
        "ht_elems (HandleTable_Resize heap ?t) = ht_elems ?t"
      using T room distinct_concat_buckets [OF T(1)]
      by (intro Resize_ok; simp add: ht_ok_def)+
    have "t' = (if ht_length t < Suc (ht_elems t) then HandleTable_Resize heap ?t else ?t)" "old = None"
      using ins None ptr(2) by (auto simp: fp HandleTable_Insert_def Let_def ys_def)
    then show ?thesis using T R None by simp
  qed
  then show "ht_ok heap t'" "old = HandleTable_Lookup heap t key hash"
    "ids t' = insert e (ids t - set_option old)" "ht_elems t' \<le> Suc (ht_elems t)"
    by simp_all
qed

lemma Remove_ok:
  assumes ok: "ht_ok heap t" and rem: "HandleTable_Remove heap t key hash = (t', result)"
  shows "ht_ok heap t'" and "result = HandleTable_Lookup heap t key hash"
    and "ids t' = ids t - set_option result" and "ht_elems t' \<le> ht_elems t"
proof -
  obtain i j where fp: "FindPointer heap t key hash = (i, j)" by fastforce
  note ptr = FindPointer_facts [OF fp]
  note bucket = bucket_facts [OF ok ptr(1)]
  have "ht_ok heap t' \<and> result = HandleTable_Lookup heap t key hash
      \<and> ids t' = ids t - set_option result \<and> ht_elems t' \<le> ht_elems t"
  proof (cases "HandleTable_Lookup heap t key hash")
    case (Some x)
    note j = ptr(3) [OF Some]
    define ys where "ys = take j (ht_list t ! i) @ drop (Suc j) (ht_list t ! i)"
    have ys: "set ys = set (ht_list t ! i) - {x}" "distinct ys"
        "Suc (length ys) = length (ht_list t ! i)"
      using remove_at [OF bucket(2), of j] j by (simp_all add: ys_def)
    have "x \<in> set (ht_list t ! i)" using j by auto
    then have E: "ids t - set (ht_list t ! i) \<union> set ys = ids t - {x}"
      using ys bucket(4) by auto
    have "x \<in> set (concat (ht_list t))" using bucket(4) \<open>x \<in> _\<close> by (auto simp: ids_def)
    then have "0 < ht_elems t"
      using ok length_pos_if_in_set [of x "concat (ht_list t)"] by (simp only: ht_ok_def)
    moreover have "keyed_once heap (ids t - {x})"
      using ok by (auto simp: ht_ok_def intro: keyed_once_subset)
    moreover have "t' = t\<lparr>ht_list := (ht_list t)[i := ys], ht_elems := ht_elems t - 1\<rparr>"
        "result = Some x"
      using rem Some ptr(2) by (simp_all add: fp HandleTable_Remove_def ys_def Let_def)
    ultimately show ?thesis
      using bucket_update [OF ok bucket(1) ys(2), of "ht_elems t - 1"] bucket(3) ys Some E
      by (simp)
  next
    case None
    then have "t' = t" "result = None"
      using rem ptr(2) None by (simp_all add: fp HandleTable_Remove_def)
    with None ok show ?thesis by simp
  qed
  then show "ht_ok heap t'" "result = HandleTable_Lookup heap t key hash"
    "ids t' = ids t - set_option result" "ht_elems t' \<le> ht_elems t"
    by simp_all
qed

section \<open>The contract a cache shard relies on\<close>

lemma entry_frame:
  assumes "map_option (\<lambda>h. (lh_key h, lh_hash h)) (heap' e) =
      map_option (\<lambda>h. (lh_key h, lh_hash h)) (heap e)"
  shows "is_entry heap' key hash e = is_entry heap key hash e" "home heap' n e = home heap n e"
proof -
  show "is_entry heap' key hash e = is_entry heap key hash e"
    using assms by (cases "heap e"; cases "heap' e") (auto simp: is_entry_def)
  show "home heap' n e = home heap n e"
    using assms by (cases "heap e"; cases "heap' e") (auto simp: home_def)
qed

lemma ht_ok_frame:
  assumes "ht_ok heap t"
    and frame: "\<And>e. e \<in> ids t \<Longrightarrow> map_option (\<lambda>h. (lh_key h, lh_hash h)) (heap' e) =
        map_option (\<lambda>h. (lh_key h, lh_hash h)) (heap e)"
  shows "ht_ok heap' t"
proof -
  have "home heap' (ht_length t) e = home heap (ht_length t) e"
    if "i < ht_length t" "e \<in> set (ht_list t ! i)" for i e
  proof -
    have "e \<in> ids t" using that in_ids_iff [OF assms(1)] by blast
    then show ?thesis by (rule entry_frame(2) [OF frame])
  qed
  moreover have "keyed_once heap' (ids t) = keyed_once heap (ids t)"
    unfolding keyed_once_def using entry_frame(1) [of heap' _ heap, OF frame] by simp
  ultimately show ?thesis
    using assms(1) by (simp add: ht_ok_def)
qed

locale key_table =
  fixes ok :: "'v heap \<Rightarrow> 't \<Rightarrow> bool"
    and members :: "'t \<Rightarrow> hid set"
    and count :: "'t \<Rightarrow> nat"
    and lookup :: "'v heap \<Rightarrow> 't \<Rightarrow> bytes \<Rightarrow> u32 \<Rightarrow> hid option"
    and ins :: "'v heap \<Rightarrow> 't \<Rightarrow> hid \<Rightarrow> bytes \<Rightarrow> u32 \<Rightarrow> 't \<times> hid option"
    and rem :: "'v heap \<Rightarrow> 't \<Rightarrow> bytes \<Rightarrow> u32 \<Rightarrow> 't \<times> hid option"
  assumes lookup_iff: "ok heap t \<Longrightarrow>
      lookup heap t key hash = Some e \<longleftrightarrow> e \<in> members t \<and> is_entry heap key hash e"
    and ins_ok: "ok heap t \<Longrightarrow> is_entry heap key hash e \<Longrightarrow> e \<notin> members t \<Longrightarrow>
      count t < 2 ^ 31 \<Longrightarrow> ins heap t e key hash = (t', old) \<Longrightarrow>
      ok heap t' \<and> old = lookup heap t key hash \<and>
      members t' = insert e (members t - set_option old) \<and> count t' \<le> Suc (count t)"
    and rem_ok: "ok heap t \<Longrightarrow> rem heap t key hash = (t', result) \<Longrightarrow>
      ok heap t' \<and> result = lookup heap t key hash \<and>
      members t' = members t - set_option result \<and> count t' \<le> count t"
    and live: "ok heap t \<Longrightarrow> e \<in> members t \<Longrightarrow> heap e \<noteq> None"
begin

lemma lookup_None: "ok heap t \<Longrightarrow>
  lookup heap t key hash = None \<longleftrightarrow> (\<forall>e\<in>members t. \<not> is_entry heap key hash e)"
  using lookup_iff [of heap t key hash] by (cases "lookup heap t key hash") auto

lemma lookup_after_ins:
  assumes "ok heap t" "is_entry heap key hash e" "e \<notin> members t" "count t < 2 ^ 31"
    and "ins heap t e key hash = (t', old)"
  shows "lookup heap t' key' hash' =
    (if key' = key \<and> hash' = hash then Some e else lookup heap t key' hash')"
proof -
  have t': "ok heap t'" "old = lookup heap t key hash" "members t' = insert e (members t - set_option old)"
    using ins_ok [OF assms] by auto
  have "x \<in> members t' \<and> is_entry heap key' hash' x \<longleftrightarrow>
      (if key' = key \<and> hash' = hash then x = e
       else x \<in> members t \<and> is_entry heap key' hash' x)" for x
  proof (cases "x = e")
    case True
    have "is_entry heap key' hash' e \<longleftrightarrow> key' = key \<and> hash' = hash"
      using assms(2) is_entry_unique [OF assms(2), of key' hash'] by blast
    then show ?thesis using True t'(3) assms(3) by simp
  next
    case False
    have "old = Some x \<longleftrightarrow> x \<in> members t \<and> is_entry heap key hash x"
      using t'(2) lookup_iff [OF assms(1)] by simp
    then have "x \<in> members t' \<longleftrightarrow> x \<in> members t \<and> \<not> is_entry heap key hash x"
      using False t'(3) by auto
    moreover have "is_entry heap key hash x \<Longrightarrow> is_entry heap key' hash' x \<Longrightarrow>
        key' = key \<and> hash' = hash"
      by (rule is_entry_unique)
    ultimately show ?thesis using False by auto
  qed
  then have "lookup heap t' key' hash' = Some x \<longleftrightarrow>
      (if key' = key \<and> hash' = hash then Some e else lookup heap t key' hash') = Some x" for x
    using lookup_iff [OF t'(1), of key' hash' x] lookup_iff [OF assms(1), of key' hash' x] by (simp add: eq_commute [of e x])
  then show ?thesis by (intro option_eqI)
qed

lemma lookup_after_rem:
  assumes "ok heap t" "rem heap t key hash = (t', result)"
  shows "lookup heap t' key' hash' =
    (if key' = key \<and> hash' = hash then None else lookup heap t key' hash')"
proof -
  have t': "ok heap t'" "result = lookup heap t key hash" "members t' = members t - set_option result"
    using rem_ok [OF assms] by auto
  have "x \<in> members t' \<and> is_entry heap key' hash' x \<longleftrightarrow>
      \<not> (key' = key \<and> hash' = hash) \<and> x \<in> members t \<and> is_entry heap key' hash' x" for x
    using t'(2,3) lookup_iff [OF assms(1), of key hash x] is_entry_unique [of heap key hash x key' hash']
    by (cases "x \<in> members t"; cases "is_entry heap key hash x") auto
  then have "lookup heap t' key' hash' = Some x \<longleftrightarrow>
      (if key' = key \<and> hash' = hash then None else lookup heap t key' hash') = Some x" for x
    using lookup_iff [OF t'(1), of key' hash' x] lookup_iff [OF assms(1), of key' hash' x] by simp
  then show ?thesis by (intro option_eqI)
qed

end

interpretation ht: key_table ht_ok ids ht_elems HandleTable_Lookup HandleTable_Insert HandleTable_Remove
proof (unfold_locales, goal_cases)
  case (1 heap t key hash e)
  then show ?case by (rule Lookup_iff)
next
  case (2 heap t key hash e t' old)
  then show ?case using HandleTable_Insert_ok [of heap t key hash e t' old] by simp
next
  case (3 heap t key hash t' result)
  then show ?case using Remove_ok [of heap t key hash t' result] by simp
next
  case (4 heap t e)
  then show ?case by (rule ht_ok_live)
qed

end
