(* ===== verification/Lru_Cache.thy ===== *)
theory Lru_Cache
  imports Handle_Table
begin

text \<open>
  The sharded LRU cache of \<^verbatim>\<open>lib/leveldb/util/cache.cc\<close> (classes \<^verbatim>\<open>LRUCache\<close> and
  \<^verbatim>\<open>ShardedLRUCache\<close>), which \<^verbatim>\<open>fs/icache.cpp\<close> instantiates.
  \<^item> Handles live in one heap shared by the shards; \<open>sc_brk\<close> is the next address
    \<^verbatim>\<open>malloc\<close> returns. The circular LRU list of a shard is \<open>lc_lru\<close>, oldest first.
  \<^item> An operation returns \<open>None\<close> where the code would touch a freed handle or trip an
    assertion, and otherwise the new state with the arguments of the calls of the
    \<^verbatim>\<open>deleter\<close>, in order.
  \<^item> Reference counts are 32-bit words and wrap around; a charge and the usage are a \<^verbatim>\<open>size_t\<close> in the code and a
    natural number here, as the program charges 1 for every entry.
  \<^item> \<open>lru_inv\<close> is the invariant of a shard under \<open>pin\<close>, the number of references
    clients hold on each handle.
\<close>

section \<open>A shard\<close>

record LRUCache =
  lc_capacity :: nat
  lc_usage :: nat
  lc_lru :: "hid list"
  lc_table :: HandleTable

definition LRUCache_new :: "nat \<Rightarrow> LRUCache" where
  "LRUCache_new capacity =
     \<lparr>lc_capacity = capacity, lc_usage = 0, lc_lru = [], lc_table = HandleTable_new\<rparr>"

definition Unref ::
  "'v heap \<Rightarrow> LRUCache \<Rightarrow> hid \<Rightarrow> ('v heap \<times> LRUCache \<times> (bytes \<times> 'v) list) option" where
  "Unref heap c e =
     (case heap e of
        None \<Rightarrow> None
      | Some h \<Rightarrow>
          if lh_refs h = 0 then None
          else if lh_refs h - 1 = 0 then
            Some (heap(e := None), c\<lparr>lc_usage := lc_usage c - lh_charge h\<rparr>, [(lh_key h, lh_value h)])
          else Some (heap(e \<mapsto> h\<lparr>lh_refs := lh_refs h - 1\<rparr>), c, []))"

definition LRU_Remove :: "LRUCache \<Rightarrow> hid \<Rightarrow> LRUCache" where
  "LRU_Remove c e = c\<lparr>lc_lru := remove1 e (lc_lru c)\<rparr>"

definition LRU_Append :: "LRUCache \<Rightarrow> hid \<Rightarrow> LRUCache" where
  "LRU_Append c e = c\<lparr>lc_lru := lc_lru c @ [e]\<rparr>"

definition LRUCache_Lookup ::
  "'v heap \<Rightarrow> LRUCache \<Rightarrow> bytes \<Rightarrow> u32 \<Rightarrow> ('v heap \<times> LRUCache \<times> hid option) option" where
  "LRUCache_Lookup heap c key hash =
     (case HandleTable_Lookup heap (lc_table c) key hash of
        None \<Rightarrow> Some (heap, c, None)
      | Some e \<Rightarrow>
          (case heap e of
             None \<Rightarrow> None
           | Some h \<Rightarrow> Some (heap(e \<mapsto> h\<lparr>lh_refs := lh_refs h + 1\<rparr>),
                             LRU_Append (LRU_Remove c e) e, Some e)))"

definition LRUCache_Release ::
  "'v heap \<Rightarrow> LRUCache \<Rightarrow> hid \<Rightarrow> ('v heap \<times> LRUCache \<times> (bytes \<times> 'v) list) option" where
  "LRUCache_Release heap c e = Unref heap c e"

lemma Unref_lru: "Unref heap c e = Some (heap', c', d) \<Longrightarrow>
  lc_lru c' = lc_lru c \<and> lc_table c' = lc_table c \<and> lc_capacity c' = lc_capacity c"
  by (auto simp: Unref_def split: option.splits if_splits)

function LRUCache_evict ::
  "'v heap \<Rightarrow> LRUCache \<Rightarrow> ('v heap \<times> LRUCache \<times> (bytes \<times> 'v) list) option" where
  "LRUCache_evict heap c =
     (case lc_lru c of
        [] \<Rightarrow> Some (heap, c, [])
      | old # rest \<Rightarrow>
          if lc_usage c > lc_capacity c then
            (case heap old of
               None \<Rightarrow> None
             | Some h \<Rightarrow>
                 (case Unref heap
                    ((LRU_Remove c old)
                       \<lparr>lc_table := fst (HandleTable_Remove heap (lc_table c) (lh_key h) (lh_hash h))\<rparr>)
                    old of
                    None \<Rightarrow> None
                  | Some (heap', c', d) \<Rightarrow>
                      map_option (\<lambda>(heap'', c'', ds). (heap'', c'', d @ ds)) (LRUCache_evict heap' c')))
          else Some (heap, c, []))"
  by pat_completeness auto
termination
  by (relation "measure (\<lambda>(heap, c). length (lc_lru c))")
    (auto dest!: Unref_lru simp: LRU_Remove_def)

declare LRUCache_evict.simps [simp del]

definition LRUCache_Insert ::
  "'v heap \<Rightarrow> LRUCache \<Rightarrow> hid \<Rightarrow> bytes \<Rightarrow> u32 \<Rightarrow> 'v \<Rightarrow> nat \<Rightarrow>
     ('v heap \<times> LRUCache \<times> (bytes \<times> 'v) list) option" where
  "LRUCache_Insert heap c e key hash value charge =
     (let heap = heap(e \<mapsto> \<lparr>lh_value = value, lh_charge = charge, lh_key = key,
                              lh_refs = 2, lh_hash = hash\<rparr>);
          c = LRU_Append c e;
          c = c\<lparr>lc_usage := lc_usage c + charge\<rparr>;
          (t, old) = HandleTable_Insert heap (lc_table c) e key hash;
          c = c\<lparr>lc_table := t\<rparr>
      in case old of
           None \<Rightarrow> LRUCache_evict heap c
         | Some old \<Rightarrow>
             (case Unref heap (LRU_Remove c old) old of
                None \<Rightarrow> None
              | Some (heap, c, d) \<Rightarrow>
                  map_option (\<lambda>(heap, c, ds). (heap, c, d @ ds)) (LRUCache_evict heap c)))"

definition LRUCache_Erase ::
  "'v heap \<Rightarrow> LRUCache \<Rightarrow> bytes \<Rightarrow> u32 \<Rightarrow> ('v heap \<times> LRUCache \<times> (bytes \<times> 'v) list) option" where
  "LRUCache_Erase heap c key hash =
     (case HandleTable_Remove heap (lc_table c) key hash of
        (t, None) \<Rightarrow> Some (heap, c\<lparr>lc_table := t\<rparr>, [])
      | (t, Some e) \<Rightarrow> Unref heap (LRU_Remove (c\<lparr>lc_table := t\<rparr>) e) e)"

section \<open>The sharded cache\<close>

record 'v ShardedLRUCache =
  sc_shard :: "LRUCache list"
  sc_heap :: "'v heap"
  sc_brk :: hid
  sc_last_id :: u64

definition kNumShards :: nat where
  "kNumShards = 2 ^ 4"

definition HashSlice :: "bytes \<Rightarrow> u32" where
  "HashSlice s = Hash s 0"

definition Shard :: "u32 \<Rightarrow> nat" where
  "Shard hash = unat (drop_bit (32 - 4) hash)"

definition NewLRUCache :: "nat \<Rightarrow> 'v ShardedLRUCache" where
  "NewLRUCache capacity =
     (let per_shard = (capacity + (kNumShards - 1)) div kNumShards
      in \<lparr>sc_shard = replicate kNumShards (LRUCache_new per_shard), sc_heap = Map.empty,
          sc_brk = 0, sc_last_id = 0\<rparr>)"

definition put_shard ::
  "'v ShardedLRUCache \<Rightarrow> nat \<Rightarrow> 'v heap \<Rightarrow> LRUCache \<Rightarrow> 'v ShardedLRUCache" where
  "put_shard c s heap sh = c\<lparr>sc_shard := (sc_shard c)[s := sh], sc_heap := heap\<rparr>"

definition Cache_Insert ::
  "'v ShardedLRUCache \<Rightarrow> bytes \<Rightarrow> 'v \<Rightarrow> nat \<Rightarrow>
     ('v ShardedLRUCache \<times> hid \<times> (bytes \<times> 'v) list) option" where
  "Cache_Insert c key value charge =
     (let hash = HashSlice key; s = Shard hash; e = sc_brk c
      in map_option (\<lambda>(heap, sh, d). ((put_shard c s heap sh)\<lparr>sc_brk := Suc e\<rparr>, e, d))
           (LRUCache_Insert (sc_heap c) (sc_shard c ! s) e key hash value charge))"

definition Cache_Lookup ::
  "'v ShardedLRUCache \<Rightarrow> bytes \<Rightarrow> ('v ShardedLRUCache \<times> hid option) option" where
  "Cache_Lookup c key =
     (let hash = HashSlice key; s = Shard hash
      in map_option (\<lambda>(heap, sh, r). (put_shard c s heap sh, r))
           (LRUCache_Lookup (sc_heap c) (sc_shard c ! s) key hash))"

definition Cache_Release ::
  "'v ShardedLRUCache \<Rightarrow> hid \<Rightarrow> ('v ShardedLRUCache \<times> (bytes \<times> 'v) list) option" where
  "Cache_Release c e =
     (case sc_heap c e of
        None \<Rightarrow> None
      | Some h \<Rightarrow>
          let s = Shard (lh_hash h)
          in map_option (\<lambda>(heap, sh, d). (put_shard c s heap sh, d))
               (LRUCache_Release (sc_heap c) (sc_shard c ! s) e))"

definition Cache_Erase ::
  "'v ShardedLRUCache \<Rightarrow> bytes \<Rightarrow> ('v ShardedLRUCache \<times> (bytes \<times> 'v) list) option" where
  "Cache_Erase c key =
     (let hash = HashSlice key; s = Shard hash
      in map_option (\<lambda>(heap, sh, d). (put_shard c s heap sh, d))
           (LRUCache_Erase (sc_heap c) (sc_shard c ! s) key hash))"

definition Cache_Value :: "'v ShardedLRUCache \<Rightarrow> hid \<Rightarrow> 'v option" where
  "Cache_Value c e = map_option lh_value (sc_heap c e)"

definition Cache_NewId :: "'v ShardedLRUCache \<Rightarrow> 'v ShardedLRUCache \<times> u64" where
  "Cache_NewId c = (let n = sc_last_id c + 1 in (c\<lparr>sc_last_id := n\<rparr>, n))"

fun LRUCache_destroy ::
  "'v heap \<Rightarrow> LRUCache \<Rightarrow> hid list \<Rightarrow> ('v heap \<times> (bytes \<times> 'v) list) option" where
  "LRUCache_destroy heap c [] = Some (heap, [])"
| "LRUCache_destroy heap c (e # next) =
     (if map_option lh_refs (heap e) = Some 1 then
        (case Unref heap c e of
           None \<Rightarrow> None
         | Some (heap', c', d) \<Rightarrow>
             map_option (\<lambda>(heap'', ds). (heap'', d @ ds)) (LRUCache_destroy heap' c' next))
      else None)"

fun Cache_destroy :: "'v heap \<Rightarrow> LRUCache list \<Rightarrow> ('v heap \<times> (bytes \<times> 'v) list) option" where
  "Cache_destroy heap [] = Some (heap, [])"
| "Cache_destroy heap (c # shards) =
     (case LRUCache_destroy heap c (lc_lru c) of
        None \<Rightarrow> None
      | Some (heap', d) \<Rightarrow> map_option (\<lambda>(heap'', ds). (heap'', d @ ds)) (Cache_destroy heap' shards))"

section \<open>The invariant of a shard\<close>

definition in_shard :: "'v heap \<Rightarrow> nat \<Rightarrow> hid set" where
  "in_shard heap s = {e. \<exists>h. heap e = Some h \<and> Shard (lh_hash h) = s}"

definition charge_of :: "'v heap \<Rightarrow> hid \<Rightarrow> nat" where
  "charge_of heap e = (case heap e of Some h \<Rightarrow> lh_charge h | None \<Rightarrow> 0)"

definition refs_of :: "'v heap \<Rightarrow> hid \<Rightarrow> nat" where
  "refs_of heap e = (case heap e of Some h \<Rightarrow> unat (lh_refs h) | None \<Rightarrow> 0)"

definition entry_of :: "'v heap \<Rightarrow> hid \<Rightarrow> (bytes \<times> 'v) option" where
  "entry_of heap e = map_option (\<lambda>h. (lh_key h, lh_value h)) (heap e)"

definition lru_inv :: "'v heap \<Rightarrow> nat \<Rightarrow> LRUCache \<Rightarrow> (hid \<Rightarrow> nat) \<Rightarrow> bool" where
  "lru_inv heap s c pin \<longleftrightarrow>
     ht_ok heap (lc_table c) \<and> distinct (lc_lru c) \<and> set (lc_lru c) = ids (lc_table c) \<and>
     ids (lc_table c) \<subseteq> in_shard heap s \<and> finite (in_shard heap s) \<and>
     lc_usage c = (\<Sum>e\<in>in_shard heap s. charge_of heap e) \<and>
     (\<forall>e\<in>in_shard heap s. 1 \<le> charge_of heap e \<and> 1 \<le> refs_of heap e \<and>
        refs_of heap e = pin e + (if e \<in> ids (lc_table c) then 1 else 0))"

definition within_capacity :: "LRUCache \<Rightarrow> bool" where
  "within_capacity c \<longleftrightarrow> lc_usage c \<le> lc_capacity c \<or> lc_lru c = []"

text \<open>What an operation on shard \<open>s\<close> may do to the heap: handles that stay keep key and
  value, and the deleter runs once for each handle that goes, all of them of the shard.\<close>

definition same_entry :: "'v heap \<Rightarrow> 'v heap \<Rightarrow> hid \<Rightarrow> bool" where
  "same_entry heap heap' e \<longleftrightarrow> entry_of heap' e = entry_of heap e \<and>
     map_option lh_hash (heap' e) = map_option lh_hash (heap e)"

definition deleted_between :: "'v heap \<Rightarrow> 'v heap \<Rightarrow> (bytes \<times> 'v) list \<Rightarrow> bool" where
  "deleted_between heap heap' d \<longleftrightarrow>
     (\<exists>es. distinct es \<and> set es = dom heap - dom heap' \<and> map Some d = map (entry_of heap) es)"

definition heap_step :: "nat \<Rightarrow> 'v heap \<Rightarrow> 'v heap \<Rightarrow> (bytes \<times> 'v) list \<Rightarrow> bool" where
  "heap_step s heap heap' d \<longleftrightarrow>
     dom heap' \<subseteq> dom heap \<and> (\<forall>e. e \<notin> in_shard heap s \<longrightarrow> heap' e = heap e) \<and>
     (\<forall>e\<in>dom heap'. same_entry heap heap' e) \<and> deleted_between heap heap' d"

lemma same_entry_refl: "heap' e = heap e \<Longrightarrow> same_entry heap heap' e"
  by (simp add: same_entry_def entry_of_def)

lemma same_entry_trans:
  "same_entry heap heap' e \<Longrightarrow> same_entry heap' heap'' e \<Longrightarrow> same_entry heap heap'' e"
  by (simp add: same_entry_def)

lemma same_entry_shard: "same_entry heap heap' e \<Longrightarrow> e \<in> in_shard heap' k \<longleftrightarrow> e \<in> in_shard heap k"
  by (cases "heap e"; cases "heap' e") (auto simp: same_entry_def in_shard_def)

lemma heap_step_refl: "heap_step s heap heap []"
  by (simp add: heap_step_def same_entry_refl deleted_between_def)

lemma in_shard_dom: "in_shard heap k \<subseteq> dom heap"
  by (auto simp: in_shard_def)

lemma heap_step_in_shard:
  assumes "heap_step s heap heap' d"
  shows "in_shard heap' k \<subseteq> in_shard heap k"
proof
  fix e assume e: "e \<in> in_shard heap' k"
  then have "same_entry heap heap' e"
    using assms in_shard_dom [of heap' k] by (auto simp: heap_step_def)
  with e show "e \<in> in_shard heap k" by (simp add: same_entry_shard)
qed

lemma heap_step_stay:
  assumes "heap_step s heap heap' d" "e \<in> dom heap'" "e \<in> in_shard heap k"
  shows "e \<in> in_shard heap' k"
proof -
  have "same_entry heap heap' e" using assms(1,2) unfolding heap_step_def by blast
  then show ?thesis using assms(3) by (simp add: same_entry_shard)
qed

lemma deleted_between_trans:
  assumes "deleted_between heap heap' d" "deleted_between heap' heap'' d'"
    and "dom heap' \<subseteq> dom heap" "dom heap'' \<subseteq> dom heap'"
    and same: "\<And>e. e \<in> dom heap' \<Longrightarrow> same_entry heap heap' e"
  shows "deleted_between heap heap'' (d @ d')"
proof -
  obtain es where es: "distinct es" "set es = dom heap - dom heap'" "map Some d = map (entry_of heap) es"
    using assms(1) by (auto simp only: deleted_between_def)
  obtain es' where es': "distinct es'" "set es' = dom heap' - dom heap''"
      "map Some d' = map (entry_of heap') es'"
    using assms(2) by (auto simp only: deleted_between_def)
  have "map (entry_of heap') es' = map (entry_of heap) es'"
    using same es'(2) by (simp add: same_entry_def)
  then have "map Some (d @ d') = map (entry_of heap) (es @ es')"
    using es(3) es'(3) by simp
  moreover have "distinct (es @ es')" "set (es @ es') = dom heap - dom heap''"
    using es(1,2) es'(1,2) assms(3,4) by auto
  ultimately show ?thesis unfolding deleted_between_def by blast
qed

lemma heap_step_trans:
  assumes "heap_step s heap heap' d" "heap_step s heap' heap'' d'"
  shows "heap_step s heap heap'' (d @ d')"
proof -
  have A: "dom heap' \<subseteq> dom heap" "deleted_between heap heap' d"
      "\<And>e. e \<notin> in_shard heap s \<Longrightarrow> heap' e = heap e" "\<And>e. e \<in> dom heap' \<Longrightarrow> same_entry heap heap' e"
    using assms(1) by (simp_all add: heap_step_def)
  have B: "dom heap'' \<subseteq> dom heap'" "deleted_between heap' heap'' d'"
      "\<And>e. e \<notin> in_shard heap' s \<Longrightarrow> heap'' e = heap' e" "\<And>e. e \<in> dom heap'' \<Longrightarrow> same_entry heap' heap'' e"
    using assms(2) by (simp_all add: heap_step_def)
  have "deleted_between heap heap'' (d @ d')"
    by (rule deleted_between_trans [OF A(2) B(2) A(1) B(1) A(4)])
  moreover have "heap'' e = heap e" if "e \<notin> in_shard heap s" for e
    using that A(3) [OF that] B(3) [of e] heap_step_in_shard [OF assms(1), of s] by auto
  moreover have "same_entry heap heap'' e" if "e \<in> dom heap''" for e
    using same_entry_trans [OF A(4) B(4)] that B(1) by blast
  ultimately show ?thesis
    using A(1) B(1) unfolding heap_step_def by blast
qed

lemma heap_step_bump:
  assumes "heap e = Some h" "Shard (lh_hash h) = s"
  shows "heap_step s heap (heap(e \<mapsto> h\<lparr>lh_refs := n\<rparr>)) []"
proof -
  have "dom (heap(e \<mapsto> h\<lparr>lh_refs := n\<rparr>)) = dom heap" using assms(1) by auto
  then show ?thesis
    using assms by (auto simp: heap_step_def deleted_between_def same_entry_def entry_of_def in_shard_def)
qed

lemma heap_step_free:
  assumes "heap e = Some h" "Shard (lh_hash h) = s"
  shows "heap_step s heap (heap(e := None)) [(lh_key h, lh_value h)]"
proof -
  have "deleted_between heap (heap(e := None)) [(lh_key h, lh_value h)]"
    unfolding deleted_between_def
    using assms by (intro exI [of _ "[e]"]) (auto simp: entry_of_def)
  then show ?thesis
    using assms by (auto simp: heap_step_def same_entry_def entry_of_def in_shard_def)
qed

lemma ht_ok_same_entries:
  assumes "ht_ok heap t"
    and "\<And>e. e \<in> ids t \<Longrightarrow> same_entry heap heap' e"
  shows "ht_ok heap' t"
proof (rule ht_ok_frame [OF assms(1)])
  fix e assume "e \<in> ids t"
  from assms(2) [OF this]
  show "map_option (\<lambda>h. (lh_key h, lh_hash h)) (heap' e) = map_option (\<lambda>h. (lh_key h, lh_hash h)) (heap e)"
    by (cases "heap e"; cases "heap' e") (auto simp: entry_of_def same_entry_def)
qed

lemma lru_inv_cell:
  "lru_inv heap s c pin \<Longrightarrow> x \<in> in_shard heap s \<Longrightarrow> 1 \<le> charge_of heap x \<and> 1 \<le> refs_of heap x \<and>
     refs_of heap x = pin x + (if x \<in> ids (lc_table c) then 1 else 0)"
  unfolding lru_inv_def by blast

lemma lru_invI:
  assumes "ht_ok heap (lc_table c)" "distinct (lc_lru c)" "set (lc_lru c) = ids (lc_table c)"
    and "ids (lc_table c) \<subseteq> in_shard heap s" "finite (in_shard heap s)"
    and "lc_usage c = (\<Sum>e\<in>in_shard heap s. charge_of heap e)"
    and "\<And>x. x \<in> in_shard heap s \<Longrightarrow> 1 \<le> charge_of heap x \<and> 1 \<le> refs_of heap x \<and>
      refs_of heap x = pin x + (if x \<in> ids (lc_table c) then 1 else 0)"
  shows "lru_inv heap s c pin"
  using assms unfolding lru_inv_def by blast

lemma Unref_ok:
  assumes inv: "lru_inv heap s c pin" and e: "e \<in> in_shard heap s" "0 < pin e"
  obtains heap' c' d where "Unref heap c e = Some (heap', c', d)"
    "lru_inv heap' s c' (pin(e := pin e - 1))" "heap_step s heap heap' d"
    "lc_table c' = lc_table c" "lc_lru c' = lc_lru c" "lc_capacity c' = lc_capacity c"
    "lc_usage c' \<le> lc_usage c"
    "heap' e = None \<longleftrightarrow> pin e = 1 \<and> e \<notin> ids (lc_table c)" "dom heap - {e} \<subseteq> dom heap'"
proof -
  obtain h where h: "heap e = Some h" "Shard (lh_hash h) = s"
    using e by (auto simp: in_shard_def)
  have I: "ht_ok heap (lc_table c)" "distinct (lc_lru c)" "set (lc_lru c) = ids (lc_table c)"
    "ids (lc_table c) \<subseteq> in_shard heap s" "finite (in_shard heap s)"
    "lc_usage c = (\<Sum>e\<in>in_shard heap s. charge_of heap e)"
    and J: "\<And>x. x \<in> in_shard heap s \<Longrightarrow> 1 \<le> charge_of heap x \<and> 1 \<le> refs_of heap x \<and>
        refs_of heap x = pin x + (if x \<in> ids (lc_table c) then 1 else 0)"
    using inv lru_inv_cell [OF inv] by (simp_all only: lru_inv_def)
  have refs: "unat (lh_refs h) = pin e + (if e \<in> ids (lc_table c) then 1 else 0)"
    using J [OF e(1)] by (simp add: refs_of_def h)
  show ?thesis
  proof (cases "lh_refs h = 1")
    case True
    then have dead: "pin e = 1" "e \<notin> ids (lc_table c)" using refs e(2) by (auto split: if_splits)
    let ?heap = "heap(e := None)" and ?c = "c\<lparr>lc_usage := lc_usage c - lh_charge h\<rparr>"
    have sh: "in_shard ?heap s = in_shard heap s - {e}" by (auto simp: in_shard_def)
    have "(\<Sum>x\<in>in_shard heap s - {e}. charge_of ?heap x) = (\<Sum>x\<in>in_shard heap s - {e}. charge_of heap x)"
      by (rule sum.cong) (auto simp: charge_of_def)
    also have "\<dots> = lc_usage c - lh_charge h"
      using sum_diff1_nat [of "charge_of heap" "in_shard heap s" e] e(1) I(6) h(1)
      by (simp add: charge_of_def)
    finally have sum: "(\<Sum>x\<in>in_shard heap s - {e}. charge_of ?heap x) = lc_usage c - lh_charge h" .
    have "ht_ok ?heap (lc_table c)"
      using dead(2) by (intro ht_ok_same_entries [OF I(1)]) (auto simp: entry_of_def same_entry_def)
    moreover have cell: "1 \<le> charge_of ?heap x \<and> 1 \<le> refs_of ?heap x \<and> refs_of ?heap x =
        (pin(e := pin e - 1)) x + (if x \<in> ids (lc_table ?c) then 1 else 0)"
      if "x \<in> in_shard ?heap s" for x
      using J [of x] that by (simp add: sh charge_of_def refs_of_def)
    ultimately have "lru_inv ?heap s ?c (pin(e := pin e - 1))"
    proof (intro lru_invI, goal_cases)
      case (7 x)
      then show ?case by (intro cell)
    qed (use I sum dead(2) in \<open>auto simp: sh\<close>)
    moreover have "heap_step s heap ?heap [(lh_key h, lh_value h)]"
      using h by (rule heap_step_free)
    moreover have "Unref heap c e = Some (?heap, ?c, [(lh_key h, lh_value h)])"
      using True h by (simp add: Unref_def)
    ultimately show ?thesis
      using dead by (intro that [of ?heap ?c "[(lh_key h, lh_value h)]"]) auto
  next
    case False
    let ?heap = "heap(e \<mapsto> h\<lparr>lh_refs := lh_refs h - 1\<rparr>)"
    have pos: "lh_refs h \<noteq> 0" using refs e(2) by (auto simp: unat_eq_0)
    then have less: "unat (lh_refs h - 1) = unat (lh_refs h) - 1" by (rule unat_minus_one)
    have "lh_refs h - 1 \<noteq> 0" using False by simp
    then have left: "1 \<le> unat (lh_refs h - 1)" by (simp add: Suc_le_eq unat_gt_0)
    have sh: "in_shard ?heap s = in_shard heap s" using h by (auto simp: in_shard_def)
    have ch: "charge_of ?heap = charge_of heap" using h by (auto simp: charge_of_def)
    have "ht_ok ?heap (lc_table c)"
      using h(1) by (intro ht_ok_same_entries [OF I(1)]) (auto simp: entry_of_def same_entry_def)
    moreover have "1 \<le> charge_of heap x \<and> 1 \<le> refs_of ?heap x \<and> refs_of ?heap x =
        (pin(e := pin e - 1)) x + (if x \<in> ids (lc_table c) then 1 else 0)"
      if "x \<in> in_shard heap s" for x
      using J [OF that] refs less left e(2) by (auto simp: refs_of_def)
    ultimately have "lru_inv ?heap s c (pin(e := pin e - 1))"
      using I unfolding lru_inv_def sh ch by blast
    moreover have "heap_step s heap ?heap []"
      using h by (rule heap_step_bump)
    moreover have "Unref heap c e = Some (?heap, c, [])"
      using False pos h by (simp add: Unref_def)
    moreover have "\<not> (pin e = 1 \<and> e \<notin> ids (lc_table c))" using left less refs by (auto split: if_splits)
    ultimately show ?thesis by (intro that [of ?heap c "[]"]) auto
  qed
qed

lemma lru_inv_table:
  "lru_inv heap s c pin \<Longrightarrow> ht_ok heap (lc_table c) \<and> distinct (lc_lru c) \<and>
     set (lc_lru c) = ids (lc_table c) \<and> ids (lc_table c) \<subseteq> in_shard heap s"
  unfolding lru_inv_def by blast

lemma lru_inv_usage:
  "lru_inv heap s c pin \<Longrightarrow> finite (in_shard heap s) \<and>
     lc_usage c = (\<Sum>e\<in>in_shard heap s. charge_of heap e)"
  unfolding lru_inv_def by blast

lemma LRU_Remove_table: "LRU_Remove (c\<lparr>lc_table := t\<rparr>) e = (LRU_Remove c e)\<lparr>lc_table := t\<rparr>"
  by (cases c) (simp add: LRU_Remove_def)

lemma unlink_ok:
  assumes inv: "lru_inv heap s c pin" and e: "e \<in> ids (lc_table c)" "is_entry heap key hash e"
    and rem: "HandleTable_Remove heap (lc_table c) key hash = (t, r)"
  shows "r = Some e" and "ids t = ids (lc_table c) - {e}"
    and "lru_inv heap s ((LRU_Remove c e)\<lparr>lc_table := t\<rparr>) (pin(e := Suc (pin e)))"
proof -
  note I = lru_inv_table [OF inv]
  have T: "ht_ok heap t" "r = HandleTable_Lookup heap (lc_table c) key hash"
    "ids t = ids (lc_table c) - set_option r"
    using ht.rem_ok [OF _ rem] I by blast+
  then show r: "r = Some e" using ht.lookup_iff [of heap "lc_table c" key hash e] I e by simp
  show ids: "ids t = ids (lc_table c) - {e}" unfolding T(3) r by simp
  show "lru_inv heap s ((LRU_Remove c e)\<lparr>lc_table := t\<rparr>) (pin(e := Suc (pin e)))"
  proof (rule lru_invI, goal_cases)
    case (7 x)
    then show ?case
      using lru_inv_cell [OF inv 7] e(1) by (simp add: ids split: if_splits)
  qed (use lru_inv_usage [OF inv] I T ids in \<open>auto simp: LRU_Remove_def\<close>)
qed

lemma Erase_ok:
  assumes inv: "lru_inv heap s c pin"
  obtains heap' c' d where "LRUCache_Erase heap c key hash = Some (heap', c', d)"
    "lru_inv heap' s c' pin" "heap_step s heap heap' d" "lc_capacity c' = lc_capacity c"
    "within_capacity c \<Longrightarrow> within_capacity c'"
    "ids (lc_table c') = ids (lc_table c) - set_option (HandleTable_Lookup heap (lc_table c) key hash)"
    "{x \<in> in_shard heap s. 0 < pin x} \<subseteq> dom heap'"
proof -
  note I = lru_inv_table [OF inv]
  obtain t r where rem: "HandleTable_Remove heap (lc_table c) key hash = (t, r)" by fastforce
  have T: "ht_ok heap t" "r = HandleTable_Lookup heap (lc_table c) key hash"
    "ids t = ids (lc_table c) - set_option r"
    using ht.rem_ok [OF _ rem] I by blast+
  show ?thesis
  proof (cases r)
    case None
    have "lru_inv heap s (c\<lparr>lc_table := t\<rparr>) pin"
    proof (rule lru_invI, goal_cases)
      case (7 x)
      then show ?case using lru_inv_cell [OF inv 7] T None by simp
    qed (use lru_inv_usage [OF inv] I T None in auto)
    with None T show ?thesis
      by (intro that [of heap "c\<lparr>lc_table := t\<rparr>" "[]"])
        (use in_shard_dom [of heap s] in
          \<open>auto simp: LRUCache_Erase_def rem heap_step_refl within_capacity_def\<close>)
  next
    case (Some e)
    have e: "e \<in> ids (lc_table c)" "is_entry heap key hash e"
      using ht.lookup_iff [of heap "lc_table c" key hash e] I T(2) Some by simp_all
    let ?c = "(LRU_Remove c e)\<lparr>lc_table := t\<rparr>"
    have inv1: "lru_inv heap s ?c (pin(e := Suc (pin e)))"
      by (rule unlink_ok [OF inv e rem])
    obtain heap' c' d where U: "Unref heap ?c e = Some (heap', c', d)"
      "lru_inv heap' s c' ((pin(e := Suc (pin e)))(e := (pin(e := Suc (pin e))) e - 1))"
      "heap_step s heap heap' d" "lc_table c' = lc_table ?c" "lc_lru c' = lc_lru ?c"
      "lc_capacity c' = lc_capacity ?c" "lc_usage c' \<le> lc_usage ?c"
      "heap' e = None \<longleftrightarrow> (pin(e := Suc (pin e))) e = 1 \<and> e \<notin> ids (lc_table ?c)"
      "dom heap - {e} \<subseteq> dom heap'"
    proof (rule Unref_ok [OF inv1, of e])
      show "e \<in> in_shard heap s" using e(1) I by blast
    qed (simp, rule that)
    have pinned: "{x \<in> in_shard heap s. 0 < pin x} \<subseteq> dom heap'"
    proof
      fix x assume x: "x \<in> {x \<in> in_shard heap s. 0 < pin x}"
      show "x \<in> dom heap'"
      proof (cases "x = e")
        case True
        then have "heap' e \<noteq> None" using x U(8) by simp
        then show ?thesis using True by blast
      next
        case False
        then show ?thesis using x U(9) in_shard_dom [of heap s] by blast
      qed
    qed
    have "within_capacity c'" if "within_capacity c"
      using that U(5-7) by (auto simp: within_capacity_def LRU_Remove_def)
    moreover have "LRUCache_Erase heap c key hash = Some (heap', c', d)"
      using U(1) by (simp add: LRUCache_Erase_def rem Some LRU_Remove_table)
    ultimately show ?thesis
      using U(2-6) T Some pinned by (intro that [of heap' c' d]) (simp_all add: LRU_Remove_def)
  qed
qed

lemma Lookup_ok:
  assumes inv: "lru_inv heap s c pin"
    and few: "\<And>e. HandleTable_Lookup heap (lc_table c) key hash = Some e \<Longrightarrow> pin e + 2 < 2 ^ 32"
  obtains heap' c' where
    "LRUCache_Lookup heap c key hash = Some (heap', c', HandleTable_Lookup heap (lc_table c) key hash)"
    "lru_inv heap' s c' (case HandleTable_Lookup heap (lc_table c) key hash of
       None \<Rightarrow> pin | Some e \<Rightarrow> pin(e := Suc (pin e)))"
    "heap_step s heap heap' []" "dom heap' = dom heap" "lc_capacity c' = lc_capacity c"
    "within_capacity c \<Longrightarrow> within_capacity c'" "lc_table c' = lc_table c"
proof (cases "HandleTable_Lookup heap (lc_table c) key hash")
  case None
  then show ?thesis
    using inv by (intro that [of heap c]) (simp_all add: LRUCache_Lookup_def heap_step_refl)
next
  case (Some e)
  note I = lru_inv_table [OF inv]
  have e: "e \<in> ids (lc_table c)"
    using ht.lookup_iff [of heap "lc_table c" key hash e] I Some by simp
  then obtain h where h: "heap e = Some h" "Shard (lh_hash h) = s"
    using I by (auto simp: in_shard_def)
  let ?heap = "heap(e \<mapsto> h\<lparr>lh_refs := lh_refs h + 1\<rparr>)" and ?c = "LRU_Append (LRU_Remove c e) e"
  have step: "heap_step s heap ?heap []" using h by (rule heap_step_bump)
  have dom: "dom ?heap = dom heap" using h by auto
  have sh: "in_shard ?heap s = in_shard heap s" using h by (auto simp: in_shard_def)
  have ch: "charge_of ?heap = charge_of heap" using h by (auto simp: charge_of_def)
  have ok: "ht_ok ?heap (lc_table c)"
  proof (rule ht_ok_same_entries [of heap])
    fix x assume "x \<in> ids (lc_table c)"
    then have "x \<in> dom ?heap" using I in_shard_dom [of heap s] dom by blast
    then show "same_entry heap ?heap x" using step unfolding heap_step_def by blast
  qed (use I in blast)
  have "e \<in> in_shard heap s" using h by (simp add: in_shard_def)
  from lru_inv_cell [OF inv this] have refs: "unat (lh_refs h) = Suc (pin e)" using e h by (simp add: refs_of_def)
  then have more: "unat (lh_refs h + 1) = Suc (Suc (pin e))" using few [OF Some] by (simp add: unat_word_ariths)
  have "lru_inv ?heap s ?c (pin(e := Suc (pin e)))"
  proof (rule lru_invI, goal_cases)
    case (7 x)
    then have "x \<in> in_shard heap s" by (simp only: sh)
    from lru_inv_cell [OF inv this] show ?case
      using e h more by (auto simp: ch refs_of_def LRU_Append_def LRU_Remove_def split: if_splits)
  qed (use lru_inv_usage [OF inv] I ok e in \<open>auto simp: LRU_Append_def LRU_Remove_def sh ch\<close>)
  moreover have "within_capacity ?c" if "within_capacity c"
    using that e I by (auto simp: within_capacity_def LRU_Append_def LRU_Remove_def)
  moreover have "LRUCache_Lookup heap c key hash = Some (?heap, ?c, Some e)"
    using Some h by (simp add: LRUCache_Lookup_def)
  moreover have "lc_capacity ?c = lc_capacity c" "lc_table ?c = lc_table c"
    by (simp_all add: LRU_Append_def LRU_Remove_def)
  ultimately show ?thesis
    using that [of ?heap ?c] Some step dom by simp
qed

lemma evict_ok:
  assumes "lru_inv heap s c pin"
  shows "\<exists>heap' c' d. LRUCache_evict heap c = Some (heap', c', d) \<and> lru_inv heap' s c' pin \<and>
    heap_step s heap heap' d \<and> within_capacity c' \<and> lc_capacity c' = lc_capacity c \<and>
    ids (lc_table c') \<subseteq> ids (lc_table c) \<and> {e \<in> in_shard heap s. 0 < pin e} \<subseteq> dom heap'"
  using assms
proof (induction "length (lc_lru c)" arbitrary: heap c rule: less_induct)
  case less
  note I = lru_inv_table [OF less.prems]
  show ?case
  proof (cases "lc_lru c \<noteq> [] \<and> lc_capacity c < lc_usage c")
    case False
    then have "LRUCache_evict heap c = Some (heap, c, [])"
      by (subst LRUCache_evict.simps) (auto split: list.splits)
    moreover have "within_capacity c" using False by (auto simp: within_capacity_def)
    ultimately show ?thesis
      using less.prems in_shard_dom [of heap s] by (auto simp: heap_step_refl)
  next
    case True
    then obtain old rest where lru: "lc_lru c = old # rest" by (cases "lc_lru c") auto
    have old: "old \<in> ids (lc_table c)" using I lru by (metis list.set_intros(1))
    then have old_s: "old \<in> in_shard heap s" using I by blast
    then obtain h where h: "heap old = Some h" by (auto simp: in_shard_def)
    obtain t r where rem: "HandleTable_Remove heap (lc_table c) (lh_key h) (lh_hash h) = (t, r)"
      by fastforce
    have entry: "is_entry heap (lh_key h) (lh_hash h) old" using h by (simp add: is_entry_def)
    let ?c = "(LRU_Remove c old)\<lparr>lc_table := t\<rparr>"
    note u = unlink_ok [OF less.prems old entry rem]
    obtain heap' c' d where U: "Unref heap ?c old = Some (heap', c', d)"
      "lru_inv heap' s c' ((pin(old := Suc (pin old)))(old := (pin(old := Suc (pin old))) old - 1))"
      "heap_step s heap heap' d" "lc_table c' = lc_table ?c" "lc_lru c' = lc_lru ?c"
      "lc_capacity c' = lc_capacity ?c" "lc_usage c' \<le> lc_usage ?c"
      "heap' old = None \<longleftrightarrow> (pin(old := Suc (pin old))) old = 1 \<and> old \<notin> ids (lc_table ?c)"
      "dom heap - {old} \<subseteq> dom heap'"
    proof (rule Unref_ok [OF u(3) old_s])
      show "0 < (pin(old := Suc (pin old))) old" by simp
    qed (rule that)
    have inv': "lru_inv heap' s c' pin" using U(2) by simp
    have "length (lc_lru c') < length (lc_lru c)" using U(5) lru by (simp add: LRU_Remove_def)
    from less.hyps [OF this inv'] obtain heap'' c'' ds where
      IH: "LRUCache_evict heap' c' = Some (heap'', c'', ds)" "lru_inv heap'' s c'' pin"
        "heap_step s heap' heap'' ds" "within_capacity c''" "lc_capacity c'' = lc_capacity c'"
        "ids (lc_table c'') \<subseteq> ids (lc_table c')" "{e \<in> in_shard heap' s. 0 < pin e} \<subseteq> dom heap''"
      by blast
    have "LRUCache_evict heap c = Some (heap'', c'', d @ ds)"
      using True U(1) IH(1) by (subst LRUCache_evict.simps) (simp add: lru h rem)
    moreover have "heap_step s heap heap'' (d @ ds)"
      by (rule heap_step_trans [OF U(3) IH(3)])
    moreover have "ids (lc_table c'') \<subseteq> ids (lc_table c)" using IH(6) U(4) u(2) by auto
    moreover have "e \<in> dom heap''" if e: "e \<in> in_shard heap s" "0 < pin e" for e
    proof -
      have "e \<in> dom heap'"
      proof (cases "e = old")
        case True
        then have "heap' old \<noteq> None" using e(2) U(8) by simp
        then show ?thesis using True by blast
      next
        case False
        then show ?thesis using e(1) U(9) in_shard_dom [of heap s] by blast
      qed
      then have "e \<in> in_shard heap' s"
        using heap_step_stay [OF U(3)] e(1) by blast
      then show ?thesis using IH(7) e(2) by blast
    qed
    ultimately show ?thesis
      using IH(2,4,5) U(6) by (auto simp: LRU_Remove_def)
  qed
qed

lemma Insert_table_ok:
  fixes heap :: "'v heap" and key :: bytes and v :: 'v
  assumes inv: "lru_inv heap s c pin" and e: "heap e = None" and s: "Shard hash = s"
    and charge: "1 \<le> charge" and room: "ht_elems (lc_table c) < 2 ^ 31"
  defines "heap1 \<equiv> heap(e \<mapsto> \<lparr>lh_value = v, lh_charge = charge, lh_key = key, lh_refs = 2, lh_hash = hash\<rparr>)"
  assumes ins: "HandleTable_Insert heap1 (lc_table c) e key hash = (t, old)"
  defines "c1 \<equiv> (LRU_Append c e)\<lparr>lc_usage := lc_usage c + charge, lc_table := t\<rparr>"
  shows "old = HandleTable_Lookup heap (lc_table c) key hash"
    and "ids t = insert e (ids (lc_table c) - set_option old)"
    and "old = None \<Longrightarrow> lru_inv heap1 s c1 (pin(e := 1))"
    and "old = Some x \<Longrightarrow> x \<in> in_shard heap1 s \<and> x \<noteq> e \<and>
      lru_inv heap1 s (LRU_Remove c1 x) (pin(e := 1, x := Suc (pin x)))"
proof -
  note I = lru_inv_table [OF inv] and U = lru_inv_usage [OF inv]
  have fresh: "e \<notin> ids (lc_table c)" "e \<notin> in_shard heap s" using I e by (auto simp: in_shard_def)
  have sh: "in_shard heap1 s = insert e (in_shard heap s)"
    using e s by (auto simp: in_shard_def heap1_def)
  have ent: "is_entry heap1 key hash e" by (simp add: is_entry_def heap1_def)
  have same: "same_entry heap heap1 x" if "x \<in> ids (lc_table c)" for x
    using that fresh by (intro same_entry_refl) (auto simp: heap1_def)
  have ok1: "ht_ok heap1 (lc_table c)" by (rule ht_ok_same_entries) (use I same in auto)
  have iff: "is_entry heap1 key hash x \<longleftrightarrow> is_entry heap key hash x" if "x \<in> ids (lc_table c)" for x
    using that fresh by (auto simp: is_entry_def heap1_def)
  note T = ht.ins_ok [OF ok1 ent fresh(1) room ins]
  have "HandleTable_Lookup heap1 (lc_table c) key hash = Some x \<longleftrightarrow>
      HandleTable_Lookup heap (lc_table c) key hash = Some x" for x
    using ht.lookup_iff [OF ok1, of key hash x] ht.lookup_iff [of heap "lc_table c" key hash x] I iff [of x]
    by blast
  then have look: "HandleTable_Lookup heap1 (lc_table c) key hash = HandleTable_Lookup heap (lc_table c) key hash"
    by (rule option_eqI)
  with T show old: "old = HandleTable_Lookup heap (lc_table c) key hash" by simp
  show idst: "ids t = insert e (ids (lc_table c) - set_option old)" using T by simp
  have ch: "charge_of heap1 x = (if x = e then charge else charge_of heap x)" for x
    by (simp add: charge_of_def heap1_def)
  have rf: "refs_of heap1 x = (if x = e then 2 else refs_of heap x)" for x
    by (simp add: refs_of_def heap1_def)
  have "(\<Sum>x\<in>insert e (in_shard heap s). charge_of heap1 x) =
      charge + (\<Sum>x\<in>in_shard heap s. charge_of heap1 x)"
    using U fresh(2) ch [of e] by simp
  also have "(\<Sum>x\<in>in_shard heap s. charge_of heap1 x) = lc_usage c"
    using U fresh(2) by (auto simp: ch intro!: sum.cong)
  finally have sum: "(\<Sum>x\<in>insert e (in_shard heap s). charge_of heap1 x) = lc_usage c + charge" by simp
  show "lru_inv heap1 s c1 (pin(e := 1))" if none: "old = None"
  proof (rule lru_invI, goal_cases)
    case (7 x)
    then show ?case
      using lru_inv_cell [OF inv, of x] none charge fresh
      by (cases "x = e") (auto simp: sh ch rf c1_def idst split: if_splits)
  qed (use T I U sum none fresh in \<open>auto simp: c1_def LRU_Append_def sh\<close>)
  assume some: "old = Some x"
  have x: "x \<in> ids (lc_table c)" using ht.lookup_iff [of heap "lc_table c" key hash x] I old some by simp
  then have x': "x \<in> in_shard heap1 s" "x \<noteq> e" using I fresh sh by auto
  have "lru_inv heap1 s (LRU_Remove c1 x) (pin(e := 1, x := Suc (pin x)))"
  proof (rule lru_invI, goal_cases)
    case (7 y)
    then show ?case
      using lru_inv_cell [OF inv, of y] some charge fresh x x'
      by (cases "y = e"; cases "y = x") (auto simp: sh ch rf c1_def LRU_Remove_def idst split: if_splits)
  qed (use T I U sum some fresh x x' in \<open>auto simp: c1_def LRU_Append_def LRU_Remove_def sh remove1_append\<close>)
  with x' show "x \<in> in_shard heap1 s \<and> x \<noteq> e \<and>
      lru_inv heap1 s (LRU_Remove c1 x) (pin(e := 1, x := Suc (pin x)))" by simp
qed

lemma LRUCache_Insert_ok:
  fixes heap :: "'v heap" and key :: bytes and v :: 'v
  assumes inv: "lru_inv heap s c pin" and e: "heap e = None" "pin e = 0" and s: "Shard hash = s"
    and charge: "1 \<le> charge" and room: "ht_elems (lc_table c) < 2 ^ 31"
    and pinned: "{x \<in> in_shard heap s. 0 < pin x} \<subseteq> dom heap"
  defines "heap1 \<equiv> heap(e \<mapsto> \<lparr>lh_value = v, lh_charge = charge, lh_key = key, lh_refs = 2, lh_hash = hash\<rparr>)"
  obtains heap' c' d where "LRUCache_Insert heap c e key hash v charge = Some (heap', c', d)"
    "lru_inv heap' s c' (pin(e := 1))" "heap_step s heap1 heap' d" "lc_capacity c' = lc_capacity c"
    "within_capacity c'"
    "ids (lc_table c') \<subseteq> insert e (ids (lc_table c) - set_option (HandleTable_Lookup heap (lc_table c) key hash))"
    "{x \<in> in_shard heap1 s. 0 < (pin(e := 1)) x} \<subseteq> dom heap'"
proof -
  obtain t old where ins: "HandleTable_Insert heap1 (lc_table c) e key hash = (t, old)"
    by fastforce
  let ?c1 = "(LRU_Append c e)\<lparr>lc_usage := lc_usage c + charge, lc_table := t\<rparr>"
  note T = Insert_table_ok [OF inv e(1) s charge room ins [unfolded heap1_def], folded heap1_def]
  have code: "LRUCache_Insert heap c e key hash v charge =
    (case old of None \<Rightarrow> LRUCache_evict heap1 ?c1
     | Some old \<Rightarrow>
         (case Unref heap1 (LRU_Remove ?c1 old) old of
            None \<Rightarrow> None
          | Some (heap, c, d) \<Rightarrow>
              map_option (\<lambda>(heap, c, ds). (heap, c, d @ ds)) (LRUCache_evict heap c)))"
    unfolding LRUCache_Insert_def Let_def heap1_def [symmetric]
    by (cases old) (simp_all add: LRU_Append_def ins)
  show ?thesis
  proof (cases old)
    case None
    obtain heap' c' d where E: "LRUCache_evict heap1 ?c1 = Some (heap', c', d)"
      "lru_inv heap' s c' (pin(e := 1))" "heap_step s heap1 heap' d" "within_capacity c'"
      "lc_capacity c' = lc_capacity ?c1" "ids (lc_table c') \<subseteq> ids (lc_table ?c1)"
      "{x \<in> in_shard heap1 s. 0 < (pin(e := 1)) x} \<subseteq> dom heap'"
      using evict_ok [OF T(3) [OF None]] by blast
    have "LRUCache_Insert heap c e key hash v charge = Some (heap', c', d)"
      using code None E(1) by simp
    then show ?thesis
      using E(2-5,7) E(6) T(1,2) None by (intro that) (simp_all add: LRU_Append_def)
  next
    case (Some x)
    let ?c2 = "LRU_Remove ?c1 x" and ?pin = "pin(e := 1, x := Suc (pin x))"
    have x: "x \<in> in_shard heap1 s" "x \<noteq> e" "lru_inv heap1 s ?c2 ?pin"
      using T(4) [OF Some] by blast+
    obtain heap2 c3 d where U: "Unref heap1 ?c2 x = Some (heap2, c3, d)"
      "lru_inv heap2 s c3 (?pin(x := ?pin x - 1))" "heap_step s heap1 heap2 d"
      "lc_table c3 = lc_table ?c2" "lc_lru c3 = lc_lru ?c2" "lc_capacity c3 = lc_capacity ?c2"
      "lc_usage c3 \<le> lc_usage ?c2" "heap2 x = None \<longleftrightarrow> ?pin x = 1 \<and> x \<notin> ids (lc_table ?c2)"
      "dom heap1 - {x} \<subseteq> dom heap2"
    proof (rule Unref_ok [OF x(3) x(1)])
      show "0 < ?pin x" by simp
    qed (rule that)
    have "?pin(x := ?pin x - 1) = pin(e := 1)" using x(2) by auto
    with U(2) have inv2: "lru_inv heap2 s c3 (pin(e := 1))" by (simp only:)
    obtain heap' c' ds where E: "LRUCache_evict heap2 c3 = Some (heap', c', ds)"
      "lru_inv heap' s c' (pin(e := 1))" "heap_step s heap2 heap' ds" "within_capacity c'"
      "lc_capacity c' = lc_capacity c3" "ids (lc_table c') \<subseteq> ids (lc_table c3)"
      "{y \<in> in_shard heap2 s. 0 < (pin(e := 1)) y} \<subseteq> dom heap'"
      using evict_ok [OF inv2] by blast
    have code: "LRUCache_Insert heap c e key hash v charge = Some (heap', c', d @ ds)"
      using code Some U(1) E(1) by simp
    have step: "heap_step s heap1 heap' (d @ ds)" by (rule heap_step_trans [OF U(3) E(3)])
    have live: "y \<in> dom heap'" if y: "y \<in> in_shard heap1 s" "0 < (pin(e := 1)) y" for y
    proof -
      have "y \<in> dom heap2"
      proof (cases "y = x")
        case True
        then have "heap2 x \<noteq> None" using y(2) x(2) U(8) by simp
        then show ?thesis using True by blast
      next
        case False
        then show ?thesis using y(1) U(9) in_shard_dom [of heap1 s] by blast
      qed
      then have "y \<in> in_shard heap2 s"
        using heap_step_stay [OF U(3)] y(1) by blast
      then show ?thesis using E(7) y(2) by blast
    qed
    then have pinned: "{y \<in> in_shard heap1 s. 0 < (pin(e := 1)) y} \<subseteq> dom heap'" by blast
    have "lc_capacity c' = lc_capacity c" using E(5) U(6) by (simp add: LRU_Append_def LRU_Remove_def)
    moreover have "ids (lc_table c') \<subseteq>
        insert e (ids (lc_table c) - set_option (HandleTable_Lookup heap (lc_table c) key hash))"
      using E(6) U(4) T(1,2) by (simp add: LRU_Remove_def)
    ultimately show ?thesis
      by (intro that [OF code E(2) step _ E(4) _ pinned])
  qed
qed

end
