(* ===== verification/Cache_Contract.thy ===== *)
theory Cache_Contract
  imports Lru_Cache
begin

text \<open>
  The contract of the sharded LRU cache (\<^verbatim>\<open>Insert\<close>, \<^verbatim>\<open>Lookup\<close>, \<^verbatim>\<open>Release\<close> and
  \<^verbatim>\<open>Erase\<close> of \<^verbatim>\<open>lib/leveldb/util/cache.cc\<close>) as a locale, the invariant of the whole
  cache, and the interpretation of the locale on the model of the code.
\<close>

section \<open>The invariant of the whole cache\<close>

definition hashes_ok :: "'v heap \<Rightarrow> bool" where
  "hashes_ok heap \<longleftrightarrow> (\<forall>e h. heap e = Some h \<longrightarrow> lh_hash h = HashSlice (lh_key h))"

definition cache_ok :: "'v ShardedLRUCache \<Rightarrow> (hid \<Rightarrow> nat) \<Rightarrow> bool" where
  "cache_ok c pin \<longleftrightarrow>
     length (sc_shard c) = kNumShards \<and>
     (\<forall>s<kNumShards. lru_inv (sc_heap c) s (sc_shard c ! s) pin \<and>
        within_capacity (sc_shard c ! s) \<and> lc_capacity (sc_shard c ! s) < 2 ^ 31) \<and>
     hashes_ok (sc_heap c) \<and> dom (sc_heap c) \<subseteq> {..<sc_brk c} \<and>
     {e. 0 < pin e} \<subseteq> dom (sc_heap c)"

definition cached_ids :: "'v ShardedLRUCache \<Rightarrow> hid set" where
  "cached_ids c = (\<Union>s<kNumShards. ids (lc_table (sc_shard c ! s)))"

definition cached :: "'v ShardedLRUCache \<Rightarrow> bytes \<Rightarrow> hid option" where
  "cached c key =
     HandleTable_Lookup (sc_heap c) (lc_table (sc_shard c ! Shard (HashSlice key))) key (HashSlice key)"

definition cache_entry :: "'v ShardedLRUCache \<Rightarrow> hid \<Rightarrow> (bytes \<times> 'v) option" where
  "cache_entry c = entry_of (sc_heap c)"

definition drops ::
  "(hid \<Rightarrow> (bytes \<times> 'v) option) \<Rightarrow> (hid \<Rightarrow> (bytes \<times> 'v) option) \<Rightarrow> (bytes \<times> 'v) list \<Rightarrow> bool" where
  "drops ent ent' d \<longleftrightarrow> ent' \<subseteq>\<^sub>m ent \<and>
     (\<exists>es. distinct es \<and> set es = dom ent - dom ent' \<and> map Some d = map ent es)"

lemma Shard_less: "Shard hash < kNumShards"
proof -
  have "unat hash div 2 ^ 28 < 16" using unat_u32_lt [of hash] by (simp add: div_less_iff_less_mult)
  then show ?thesis by (simp add: Shard_def kNumShards_def unat_drop)
qed

lemma cache_ok_shard:
  assumes "cache_ok c pin" "s < kNumShards"
  shows "lru_inv (sc_heap c) s (sc_shard c ! s) pin" "within_capacity (sc_shard c ! s)"
    "lc_capacity (sc_shard c ! s) < 2 ^ 31"
  using assms unfolding cache_ok_def by blast+

lemma dom_entry_of: "dom (entry_of heap) = dom heap"
  by (auto simp: entry_of_def)

lemma heap_step_drops: "heap_step s heap heap' d \<Longrightarrow> drops (entry_of heap) (entry_of heap') d"
  unfolding heap_step_def drops_def deleted_between_def same_entry_def map_le_def dom_entry_of
  by blast

lemma entry_is_entry:
  "hashes_ok heap \<Longrightarrow> is_entry heap key (HashSlice key) e \<longleftrightarrow> (\<exists>v. entry_of heap e = Some (key, v))"
  by (auto simp: hashes_ok_def is_entry_def entry_of_def split: option.splits)

lemma cached_iff:
  assumes ok: "cache_ok c pin"
  shows "cached c key = Some e \<longleftrightarrow> e \<in> cached_ids c \<and> (\<exists>v. cache_entry c e = Some (key, v))"
proof -
  let ?s = "Shard (HashSlice key)"
  have h: "hashes_ok (sc_heap c)" using ok unfolding cache_ok_def by blast
  have "e \<in> ids (lc_table (sc_shard c ! ?s)) \<longleftrightarrow> e \<in> cached_ids c"
    if "cache_entry c e = Some (key, v)" for v
  proof
    assume "e \<in> cached_ids c"
    then obtain k where k: "k < kNumShards" "e \<in> ids (lc_table (sc_shard c ! k))"
      by (auto simp: cached_ids_def)
    then have "e \<in> in_shard (sc_heap c) k"
      using lru_inv_table [OF cache_ok_shard(1) [OF ok k(1)]] by blast
    with that h have "k = ?s"
      by (auto simp: in_shard_def cache_entry_def entry_of_def hashes_ok_def)
    with k show "e \<in> ids (lc_table (sc_shard c ! ?s))" by simp
  qed (auto simp: cached_ids_def intro: Shard_less)
  moreover have "cached c key = Some e \<longleftrightarrow>
      e \<in> ids (lc_table (sc_shard c ! ?s)) \<and> (\<exists>v. cache_entry c e = Some (key, v))"
    using lru_inv_table [OF cache_ok_shard(1) [OF ok Shard_less]] h
    by (simp add: cached_def ht.lookup_iff entry_is_entry cache_entry_def)
  ultimately show ?thesis by blast
qed

lemma cached_ids_entry: "cache_ok c pin \<Longrightarrow> e \<in> cached_ids c \<Longrightarrow> cache_entry c e \<noteq> None"
proof -
  assume ok: "cache_ok c pin" and "e \<in> cached_ids c"
  then obtain k where "k < kNumShards" "e \<in> ids (lc_table (sc_shard c ! k))"
    by (auto simp: cached_ids_def)
  then have "e \<in> in_shard (sc_heap c) k"
    using lru_inv_table [OF cache_ok_shard(1) [OF ok]] by blast
  then show ?thesis by (auto simp: in_shard_def cache_entry_def entry_of_def)
qed

lemma live_iff:
  assumes ok: "cache_ok c pin"
  shows "cache_entry c e \<noteq> None \<longleftrightarrow> 0 < pin e \<or> e \<in> cached_ids c"
proof
  assume "cache_entry c e \<noteq> None"
  then obtain h where h: "sc_heap c e = Some h" by (auto simp: cache_entry_def entry_of_def)
  let ?s = "Shard (lh_hash h)"
  have "e \<in> in_shard (sc_heap c) ?s" using h by (simp add: in_shard_def)
  from lru_inv_cell [OF cache_ok_shard(1) [OF ok Shard_less] this]
  have "0 < pin e \<or> e \<in> ids (lc_table (sc_shard c ! ?s))" by (auto split: if_splits)
  then show "0 < pin e \<or> e \<in> cached_ids c" by (auto simp: cached_ids_def intro: Shard_less)
next
  assume "0 < pin e \<or> e \<in> cached_ids c"
  then show "cache_entry c e \<noteq> None"
  proof
    assume "0 < pin e"
    then have "e \<in> dom (sc_heap c)" using ok unfolding cache_ok_def by blast
    then show ?thesis by (auto simp: cache_entry_def entry_of_def)
  qed (rule cached_ids_entry [OF ok])
qed

lemma lru_inv_frame:
  assumes inv: "lru_inv heap k c pin" and sh: "in_shard heap' k = in_shard heap k"
    and same: "\<And>e. e \<in> in_shard heap k \<Longrightarrow> heap' e = heap e \<and> pin' e = pin e"
  shows "lru_inv heap' k c pin'"
proof (rule lru_invI, goal_cases)
  case 1
  have "same_entry heap heap' e" if "e \<in> ids (lc_table c)" for e
  proof -
    have "e \<in> in_shard heap k" using lru_inv_table [OF inv] that by blast
    then show ?thesis using same by (simp add: same_entry_refl)
  qed
  then show ?case using lru_inv_table [OF inv] ht_ok_same_entries by blast
next
  case 6
  have "charge_of heap' e = charge_of heap e" if "e \<in> in_shard heap k" for e
    using same [OF that] by (simp add: charge_of_def)
  then show ?case using lru_inv_usage [OF inv] by (simp add: sh)
next
  case (7 x)
  then have "x \<in> in_shard heap k" by (simp add: sh)
  then show ?case using lru_inv_cell [OF inv, of x] same [of x] by (simp add: charge_of_def refs_of_def)
qed (use lru_inv_table [OF inv] lru_inv_usage [OF inv] in \<open>simp_all add: sh\<close>)

lemma table_room:
  assumes "lru_inv heap s c pin" "within_capacity c" "lc_capacity c < 2 ^ 31"
  shows "ht_elems (lc_table c) < 2 ^ 31"
proof -
  note I = lru_inv_table [OF assms(1)] and U = lru_inv_usage [OF assms(1)]
  have "card (ids (lc_table c)) = length (concat (ht_list (lc_table c)))"
    using I unfolding ids_def by (intro distinct_card distinct_concat_buckets) blast
  then have elems: "ht_elems (lc_table c) = card (ids (lc_table c))"
    using I by (simp only: ht_ok_def)
  have "card (ids (lc_table c)) \<le> card (in_shard heap s)" using I U by (simp add: card_mono)
  also have "\<dots> \<le> lc_usage c"
    using U lru_inv_cell [OF assms(1)] sum_mono [of "in_shard heap s" "\<lambda>_. 1" "charge_of heap"] by simp
  finally have le: "ht_elems (lc_table c) \<le> lc_usage c" by (simp add: elems)
  show ?thesis
  proof (cases "lc_lru c = []")
    case True
    then have "ids (lc_table c) = {}" using I by simp
    then show ?thesis by (simp add: elems)
  next
    case False
    then show ?thesis using le assms(2,3) by (simp add: within_capacity_def)
  qed
qed

lemma in_shard_disjoint: "k \<noteq> s \<Longrightarrow> in_shard heap k \<inter> in_shard heap s = {}"
  by (auto simp: in_shard_def)

lemma hashes_ok_step: "hashes_ok heap \<Longrightarrow> heap_step s heap heap' d \<Longrightarrow> hashes_ok heap'"
  unfolding hashes_ok_def
proof (intro allI impI)
  fix e h' assume H: "\<forall>e h. heap e = Some h \<longrightarrow> lh_hash h = HashSlice (lh_key h)"
    and step: "heap_step s heap heap' d" and h': "heap' e = Some h'"
  have "same_entry heap heap' e" using step h' unfolding heap_step_def by blast
  then obtain h where "heap e = Some h" "lh_hash h' = lh_hash h" "lh_key h' = lh_key h"
    using h' by (cases "heap e") (auto simp: same_entry_def entry_of_def)
  with H show "lh_hash h' = HashSlice (lh_key h')" by simp
qed

lemma put_shard_ok:
  assumes ok: "cache_ok c pin" and s: "s < kNumShards"
    and heap1: "sc_heap c \<subseteq>\<^sub>m heap1" "dom heap1 \<subseteq> dom (sc_heap c) \<union> in_shard heap1 s"
      "hashes_ok heap1" "dom heap1 \<subseteq> {..<brk}"
    and inv: "lru_inv heap' s sh pin'" "within_capacity sh" "lc_capacity sh = lc_capacity (sc_shard c ! s)"
    and step: "heap_step s heap1 heap' d"
    and pin: "\<And>x. x \<notin> in_shard heap1 s \<Longrightarrow> pin' x = pin x"
      "{x \<in> in_shard heap1 s. 0 < pin' x} \<subseteq> dom heap'"
  defines "c' \<equiv> (put_shard c s heap' sh)\<lparr>sc_brk := brk\<rparr>"
  shows "cache_ok c' pin'"
    and "cached_ids c' = cached_ids c - ids (lc_table (sc_shard c ! s)) \<union> ids (lc_table sh)"
proof -
  have len: "length (sc_shard c) = kNumShards" using ok unfolding cache_ok_def by blast
  have c': "sc_heap c' = heap'" "sc_brk c' = brk" "length (sc_shard c') = kNumShards"
    "\<And>k. k < kNumShards \<Longrightarrow> sc_shard c' ! k = (if k = s then sh else sc_shard c ! k)"
    by (simp_all add: c'_def put_shard_def len)
  have heap1_old: "heap1 e = sc_heap c e" if "sc_heap c e \<noteq> None" for e
    using heap1(1) that by (auto simp: map_le_def dom_def)
  have other: "in_shard heap1 k = in_shard (sc_heap c) k" if "k \<noteq> s" for k
  proof (intro set_eqI iffI)
    fix e assume e: "e \<in> in_shard heap1 k"
    then have "e \<in> dom (sc_heap c)"
      using heap1(2) in_shard_dom [of heap1 k] in_shard_disjoint [OF that, of heap1] by blast
    with e heap1_old [of e] show "e \<in> in_shard (sc_heap c) k" by (auto simp: in_shard_def)
  qed (use heap1_old in \<open>auto simp: in_shard_def\<close>)
  have heap': "heap' e = heap1 e" if "e \<notin> in_shard heap1 s" for e
    using step that unfolding heap_step_def by simp
  have other': "in_shard heap' k = in_shard heap1 k" if "k \<noteq> s" for k
  proof
    show "in_shard heap' k \<subseteq> in_shard heap1 k" by (rule heap_step_in_shard [OF step])
    show "in_shard heap1 k \<subseteq> in_shard heap' k"
    proof
      fix e assume e: "e \<in> in_shard heap1 k"
      then have "heap' e = heap1 e" using in_shard_disjoint [OF that, of heap1] heap' by blast
      with e show "e \<in> in_shard heap' k" by (simp add: in_shard_def)
    qed
  qed
  have "lru_inv heap' k (sc_shard c ! k) pin'" if k: "k < kNumShards" "k \<noteq> s" for k
  proof (rule lru_inv_frame [OF cache_ok_shard(1) [OF ok k(1)]])
    show "in_shard heap' k = in_shard (sc_heap c) k" using other other' k(2) by simp
    fix e assume e: "e \<in> in_shard (sc_heap c) k"
    then have "e \<notin> in_shard heap1 s" using other [OF k(2)] in_shard_disjoint [OF k(2), of heap1] by blast
    moreover have "heap1 e = sc_heap c e" using e by (intro heap1_old) (auto simp: in_shard_def)
    ultimately show "heap' e = sc_heap c e \<and> pin' e = pin e" using heap' pin(1) by simp
  qed
  then have "\<forall>k<kNumShards. lru_inv (sc_heap c') k (sc_shard c' ! k) pin' \<and>
      within_capacity (sc_shard c' ! k) \<and> lc_capacity (sc_shard c' ! k) < 2 ^ 31"
    using c' inv cache_ok_shard [OF ok] s by simp
  moreover have "hashes_ok (sc_heap c')" using hashes_ok_step [OF heap1(3) step] c'(1) by simp
  moreover have "dom (sc_heap c') \<subseteq> {..<sc_brk c'}"
    using heap1(4) step unfolding heap_step_def c'(1,2) by blast
  moreover have "e \<in> dom (sc_heap c')" if "0 < pin' e" for e
  proof (cases "e \<in> in_shard heap1 s")
    case True
    then show ?thesis using pin(2) that c'(1) by blast
  next
    case False
    then have "0 < pin e" using pin(1) that by simp
    then have "e \<in> dom (sc_heap c)" using ok unfolding cache_ok_def by blast
    then show ?thesis using heap' [OF False] heap1_old [of e] c'(1) by auto
  qed
  ultimately show "cache_ok c' pin'" using c'(3) unfolding cache_ok_def by blast
  have disj: "ids (lc_table (sc_shard c ! k)) \<inter> ids (lc_table (sc_shard c ! s)) = {}"
    if k: "k < kNumShards" "k \<noteq> s" for k
    using lru_inv_table [OF cache_ok_shard(1) [OF ok k(1)]] lru_inv_table [OF cache_ok_shard(1) [OF ok s]]
      in_shard_disjoint [OF k(2), of "sc_heap c"] by blast
  show "cached_ids c' = cached_ids c - ids (lc_table (sc_shard c ! s)) \<union> ids (lc_table sh)"
  proof (intro set_eqI iffI)
    fix e assume "e \<in> cached_ids c'"
    then obtain k where "k < kNumShards" "e \<in> ids (lc_table (sc_shard c' ! k))"
      by (auto simp: cached_ids_def)
    then show "e \<in> cached_ids c - ids (lc_table (sc_shard c ! s)) \<union> ids (lc_table sh)"
      using disj [of k] c'(4) [of k] by (cases "k = s") (auto simp: cached_ids_def)
  next
    fix e assume "e \<in> cached_ids c - ids (lc_table (sc_shard c ! s)) \<union> ids (lc_table sh)"
    then consider "e \<in> ids (lc_table sh)"
      | k where "k < kNumShards" "k \<noteq> s" "e \<in> ids (lc_table (sc_shard c ! k))"
      by (auto simp: cached_ids_def)
    then show "e \<in> cached_ids c'"
    proof cases
      case 1
      then show ?thesis using s c'(4) [OF s] by (auto simp: cached_ids_def)
    next
      case 2
      then show ?thesis unfolding cached_ids_def
        using c'(4) [of k] by (intro UN_I [of k]) simp_all
    qed
  qed
qed

lemma cache_ok_heap:
  "cache_ok c pin \<Longrightarrow> hashes_ok (sc_heap c) \<and> dom (sc_heap c) \<subseteq> {..<sc_brk c} \<and>
     {e. 0 < pin e} \<subseteq> dom (sc_heap c)"
  unfolding cache_ok_def by blast

lemma put_shard_same:
  assumes ok: "cache_ok c pin" and s: "s < kNumShards"
    and inv: "lru_inv heap' s sh pin'" "within_capacity sh" "lc_capacity sh = lc_capacity (sc_shard c ! s)"
    and step: "heap_step s (sc_heap c) heap' d"
    and pin: "\<And>x. x \<notin> in_shard (sc_heap c) s \<Longrightarrow> pin' x = pin x"
      "{x \<in> in_shard (sc_heap c) s. 0 < pin' x} \<subseteq> dom heap'"
  shows "cache_ok (put_shard c s heap' sh) pin'"
    and "cached_ids (put_shard c s heap' sh) =
      cached_ids c - ids (lc_table (sc_shard c ! s)) \<union> ids (lc_table sh)"
    and "drops (cache_entry c) (cache_entry (put_shard c s heap' sh)) d"
proof -
  have c: "(put_shard c s heap' sh)\<lparr>sc_brk := sc_brk c\<rparr> = put_shard c s heap' sh"
    by (simp add: put_shard_def)
  have "sc_heap c \<subseteq>\<^sub>m sc_heap c" "dom (sc_heap c) \<subseteq> dom (sc_heap c) \<union> in_shard (sc_heap c) s"
    by auto
  note put_shard_ok [OF ok s this _ _ inv step pin, of "sc_brk c"]
  note P = this [unfolded c]
  show "cache_ok (put_shard c s heap' sh) pin'" using P(1) cache_ok_heap [OF ok] by simp
  show "cached_ids (put_shard c s heap' sh) =
      cached_ids c - ids (lc_table (sc_shard c ! s)) \<union> ids (lc_table sh)"
    using P(2) cache_ok_heap [OF ok] by simp
  show "drops (cache_entry c) (cache_entry (put_shard c s heap' sh)) d"
    using heap_step_drops [OF step] by (simp add: cache_entry_def put_shard_def)
qed

lemma shard_ids_cached: "s < kNumShards \<Longrightarrow> ids (lc_table (sc_shard c ! s)) \<subseteq> cached_ids c"
  by (auto simp: cached_ids_def)

section \<open>The contract of the cache\<close>

text \<open>
  What \<^verbatim>\<open>fs/icache.cpp\<close> relies on. \<open>ok c pin\<close> holds when \<open>c\<close> is well formed and
  clients hold \<open>pin e\<close> references on handle \<open>e\<close>; \<open>entry\<close> gives the key and value of a live
  handle, \<open>look\<close> the handle a key is cached under. A handle goes away, and the deleter runs
  on it, exactly when it is neither pinned nor cached. A lookup adds a reference, and the 32-bit count
  of references must have room for it.
\<close>

locale ref_cache =
  fixes ok :: "'c \<Rightarrow> (hid \<Rightarrow> nat) \<Rightarrow> bool"
    and entry :: "'c \<Rightarrow> hid \<Rightarrow> (bytes \<times> 'v) option"
    and look :: "'c \<Rightarrow> bytes \<Rightarrow> hid option"
    and insert_op :: "'c \<Rightarrow> bytes \<Rightarrow> 'v \<Rightarrow> nat \<Rightarrow> ('c \<times> hid \<times> (bytes \<times> 'v) list) option"
    and lookup_op :: "'c \<Rightarrow> bytes \<Rightarrow> ('c \<times> hid option) option"
    and release_op :: "'c \<Rightarrow> hid \<Rightarrow> ('c \<times> (bytes \<times> 'v) list) option"
    and erase_op :: "'c \<Rightarrow> bytes \<Rightarrow> ('c \<times> (bytes \<times> 'v) list) option"
  assumes look_entry: "ok c pin \<Longrightarrow> look c key = Some e \<Longrightarrow> \<exists>v. entry c e = Some (key, v)"
    and live: "ok c pin \<Longrightarrow> entry c e = Some (key, v) \<Longrightarrow> 0 < pin e \<or> look c key = Some e"
    and pinned_live: "ok c pin \<Longrightarrow> 0 < pin e \<Longrightarrow> entry c e \<noteq> None"
    and insert_ok: "ok c pin \<Longrightarrow> 1 \<le> charge \<Longrightarrow>
      \<exists>c' e d. insert_op c key v charge = Some (c', e, d) \<and> entry c e = None \<and>
        ok c' (pin(e := 1)) \<and> look c' \<subseteq>\<^sub>m (look c)(key \<mapsto> e) \<and>
        drops ((entry c)(e \<mapsto> (key, v))) (entry c') d"
    and lookup_ok: "ok c pin \<Longrightarrow> \<forall>e. look c key = Some e \<longrightarrow> pin e + 2 < 2 ^ 32 \<Longrightarrow>
      \<exists>c'. lookup_op c key = Some (c', look c key) \<and> look c' = look c \<and> entry c' = entry c \<and>
        ok c' (case look c key of None \<Rightarrow> pin | Some e \<Rightarrow> pin(e := Suc (pin e)))"
    and release_ok: "ok c pin \<Longrightarrow> 0 < pin e \<Longrightarrow>
      \<exists>c' d. release_op c e = Some (c', d) \<and> look c' = look c \<and>
        ok c' (pin(e := pin e - 1)) \<and> drops (entry c) (entry c') d"
    and erase_ok: "ok c pin \<Longrightarrow>
      \<exists>c' d. erase_op c key = Some (c', d) \<and> look c' = (look c)(key := None) \<and>
        ok c' pin \<and> drops (entry c) (entry c') d"
begin

lemma dropped:
  assumes "ok c pin" "ok c' pin'" "drops (entry c) (entry c') d" "(key, v) \<in> set d"
  obtains e where "entry c e = Some (key, v)" "entry c' e = None" "pin' e = 0"
proof -
  obtain es where es: "set es = dom (entry c) - dom (entry c')" "map Some d = map (entry c) es"
    using assms(3) by (auto simp: drops_def)
  have "Some (key, v) \<in> set (map (entry c) es)" using assms(4) unfolding es(2) [symmetric] by simp
  then obtain e where "e \<in> set es" "entry c e = Some (key, v)" by (metis imageE list.set_map)
  then have e: "e \<in> dom (entry c) - dom (entry c')" "entry c e = Some (key, v)"
    using es(1) by blast+
  then have "entry c' e = None" by auto
  moreover then have "pin' e = 0" using pinned_live [OF assms(2), of e] by auto
  ultimately show ?thesis using e that by blast
qed

lemma insert_pinned:
  assumes "ok c pin" "insert_op c key v 1 = Some (c', e, d)"
  shows "entry c' e = Some (key, v)" and "ok c' (pin(e := 1))" and "entry c e = None" and "pin e = 0"
    and "look c' \<subseteq>\<^sub>m (look c)(key \<mapsto> e)" and "drops ((entry c)(e \<mapsto> (key, v))) (entry c') d"
proof -
  have I: "entry c e = None \<and> ok c' (pin(e := 1)) \<and> look c' \<subseteq>\<^sub>m (look c)(key \<mapsto> e) \<and>
      drops ((entry c)(e \<mapsto> (key, v))) (entry c') d"
    using insert_ok [OF assms(1), of 1 key v] assms(2) by auto
  then show "ok c' (pin(e := 1))" "entry c e = None" "look c' \<subseteq>\<^sub>m (look c)(key \<mapsto> e)"
    "drops ((entry c)(e \<mapsto> (key, v))) (entry c') d" by blast+
  then show "pin e = 0" using pinned_live [OF assms(1), of e] by auto
  have "entry c' e \<noteq> None" using pinned_live [of c' "pin(e := 1)" e] I by simp
  then have "entry c' e = ((entry c)(e \<mapsto> (key, v))) e"
    using I unfolding drops_def map_le_def by blast
  then show "entry c' e = Some (key, v)" by simp
qed

end

lemma cached_same:
  assumes "cache_ok c pin" "cache_ok c' pin'" "cached_ids c' = cached_ids c"
    and "cache_entry c' \<subseteq>\<^sub>m cache_entry c"
  shows "cached c' = cached c"
proof (rule ext, rule option_eqI)
  fix key e
  have "cache_entry c' e = cache_entry c e" if "e \<in> cached_ids c"
    using cached_ids_entry [OF assms(2), of e] assms(3,4) that by (auto simp: map_le_def dom_def)
  then show "cached c' key = Some e \<longleftrightarrow> cached c key = Some e"
    unfolding cached_iff [OF assms(1), of key e] cached_iff [OF assms(2), of key e] assms(3)
    by (cases "e \<in> cached_ids c") simp_all
qed

lemma Cache_Lookup_ok:
  assumes ok: "cache_ok c pin" and few: "\<forall>e. cached c key = Some e \<longrightarrow> pin e + 2 < 2 ^ 32"
  shows "\<exists>c'. Cache_Lookup c key = Some (c', cached c key) \<and> cached c' = cached c \<and>
    cache_entry c' = cache_entry c \<and>
    cache_ok c' (case cached c key of None \<Rightarrow> pin | Some e \<Rightarrow> pin(e := Suc (pin e)))"
proof -
  let ?s = "Shard (HashSlice key)"
  let ?pin = "case cached c key of None \<Rightarrow> pin | Some e \<Rightarrow> pin(e := Suc (pin e))"
  note s = Shard_less [of "HashSlice key"]
  note sh = cache_ok_shard [OF ok s]
  obtain heap' c1 where L: "LRUCache_Lookup (sc_heap c) (sc_shard c ! ?s) key (HashSlice key) =
      Some (heap', c1, cached c key)" "lru_inv heap' ?s c1 ?pin"
    "heap_step ?s (sc_heap c) heap' []" "dom heap' = dom (sc_heap c)"
    "lc_capacity c1 = lc_capacity (sc_shard c ! ?s)"
    "within_capacity (sc_shard c ! ?s) \<Longrightarrow> within_capacity c1"
    "lc_table c1 = lc_table (sc_shard c ! ?s)"
    using Lookup_ok [OF sh(1), of key "HashSlice key", folded cached_def] few by blast
  have e: "e \<in> ids (lc_table (sc_shard c ! ?s))" "e \<in> in_shard (sc_heap c) ?s" if "cached c key = Some e" for e
    using that lru_inv_table [OF sh(1)] ht.lookup_iff [of "sc_heap c" "lc_table (sc_shard c ! ?s)" key "HashSlice key" e]
    by (auto simp: cached_def)
  have pin: "?pin x = pin x" if "x \<notin> in_shard (sc_heap c) ?s" for x
    using e(2) that by (auto split: option.splits)
  have "{x \<in> in_shard (sc_heap c) ?s. 0 < ?pin x} \<subseteq> dom heap'"
    using L(4) in_shard_dom [of "sc_heap c" ?s] by blast
  note P = put_shard_same [OF ok s L(2) L(6) [OF sh(2)] L(5) L(3) pin this]
  have ids': "cached_ids (put_shard c ?s heap' c1) = cached_ids c"
    using P(2) L(7) shard_ids_cached [OF s, of c] by auto
  have "entry_of heap' e = entry_of (sc_heap c) e" for e
  proof (cases "e \<in> dom (sc_heap c)")
    case True
    then show ?thesis using L(3,4) unfolding heap_step_def same_entry_def by blast
  next
    case False
    then have "heap' e = None" "sc_heap c e = None" using L(4) by blast+
    then show ?thesis by (simp add: entry_of_def)
  qed
  then have ent: "cache_entry (put_shard c ?s heap' c1) = cache_entry c"
    by (auto simp: cache_entry_def put_shard_def)
  have "cached (put_shard c ?s heap' c1) = cached c"
    using cached_same [OF ok P(1) ids'] ent by simp
  then show ?thesis
    using L(1) P(1) ent by (simp add: Cache_Lookup_def Let_def)
qed

lemma drops_le: "drops ent ent' d \<Longrightarrow> ent' \<subseteq>\<^sub>m ent"
  by (simp add: drops_def)

lemma Cache_Release_ok:
  assumes ok: "cache_ok c pin" and e: "0 < pin e"
  shows "\<exists>c' d. Cache_Release c e = Some (c', d) \<and> cached c' = cached c \<and>
    cache_ok c' (pin(e := pin e - 1)) \<and> drops (cache_entry c) (cache_entry c') d"
proof -
  have "e \<in> dom (sc_heap c)" using cache_ok_heap [OF ok] e by blast
  then obtain h where h: "sc_heap c e = Some h" by blast
  let ?s = "Shard (lh_hash h)"
  note s = Shard_less [of "lh_hash h"]
  note sh = cache_ok_shard [OF ok s]
  have in_s: "e \<in> in_shard (sc_heap c) ?s" using h by (simp add: in_shard_def)
  obtain heap' c1 d where U: "Unref (sc_heap c) (sc_shard c ! ?s) e = Some (heap', c1, d)"
    "lru_inv heap' ?s c1 (pin(e := pin e - 1))" "heap_step ?s (sc_heap c) heap' d"
    "lc_table c1 = lc_table (sc_shard c ! ?s)" "lc_lru c1 = lc_lru (sc_shard c ! ?s)"
    "lc_capacity c1 = lc_capacity (sc_shard c ! ?s)" "lc_usage c1 \<le> lc_usage (sc_shard c ! ?s)"
    "heap' e = None \<longleftrightarrow> pin e = 1 \<and> e \<notin> ids (lc_table (sc_shard c ! ?s))"
    "dom (sc_heap c) - {e} \<subseteq> dom heap'"
    by (rule Unref_ok [OF sh(1) in_s e]) (rule that)
  have cap: "within_capacity c1" using sh(2) U(5-7) by (auto simp: within_capacity_def)
  have pin: "(pin(e := pin e - 1)) x = pin x" if "x \<notin> in_shard (sc_heap c) ?s" for x
    using that in_s by auto
  have live: "{x \<in> in_shard (sc_heap c) ?s. 0 < (pin(e := pin e - 1)) x} \<subseteq> dom heap'"
  proof
    fix x assume x: "x \<in> {x \<in> in_shard (sc_heap c) ?s. 0 < (pin(e := pin e - 1)) x}"
    show "x \<in> dom heap'"
    proof (cases "x = e")
      case True
      then have "heap' e \<noteq> None" using x U(8) by simp
      then show ?thesis using True by blast
    next
      case False
      then show ?thesis using x U(9) in_shard_dom [of "sc_heap c" ?s] by blast
    qed
  qed
  note P = put_shard_same [OF ok s U(2) cap U(6) U(3) pin live]
  have "cached_ids (put_shard c ?s heap' c1) = cached_ids c"
    using P(2) U(4) shard_ids_cached [OF s, of c] by auto
  then have "cached (put_shard c ?s heap' c1) = cached c"
    using cached_same [OF ok P(1) _ drops_le [OF P(3)]] by blast
  moreover have "Cache_Release c e = Some (put_shard c ?s heap' c1, d)"
    using U(1) by (simp add: Cache_Release_def h Let_def LRUCache_Release_def)
  ultimately show ?thesis using P(1,3) by blast
qed

lemma Cache_Erase_ok:
  assumes ok: "cache_ok c pin"
  shows "\<exists>c' d. Cache_Erase c key = Some (c', d) \<and> cached c' = (cached c)(key := None) \<and>
    cache_ok c' pin \<and> drops (cache_entry c) (cache_entry c') d"
proof -
  let ?s = "Shard (HashSlice key)"
  note s = Shard_less [of "HashSlice key"]
  note sh = cache_ok_shard [OF ok s]
  obtain heap' c1 d where E:
    "LRUCache_Erase (sc_heap c) (sc_shard c ! ?s) key (HashSlice key) = Some (heap', c1, d)"
    "lru_inv heap' ?s c1 pin" "heap_step ?s (sc_heap c) heap' d"
    "lc_capacity c1 = lc_capacity (sc_shard c ! ?s)"
    "within_capacity (sc_shard c ! ?s) \<Longrightarrow> within_capacity c1"
    "ids (lc_table c1) = ids (lc_table (sc_shard c ! ?s)) - set_option (cached c key)"
    "{x \<in> in_shard (sc_heap c) ?s. 0 < pin x} \<subseteq> dom heap'"
    by (rule Erase_ok [OF sh(1), of key "HashSlice key", folded cached_def]) (rule that)
  note P = put_shard_same [OF ok s E(2) E(5) [OF sh(2)] E(4) E(3) refl E(7)]
  let ?c = "put_shard c ?s heap' c1"
  have ids: "cached_ids ?c = cached_ids c - set_option (cached c key)"
  proof -
    have "x \<in> ids (lc_table (sc_shard c ! ?s))" if "cached c key = Some x" for x
      using that lru_inv_table [OF sh(1)]
        ht.lookup_iff [of "sc_heap c" "lc_table (sc_shard c ! ?s)" key "HashSlice key" x]
      by (auto simp: cached_def)
    then have "set_option (cached c key) \<subseteq> ids (lc_table (sc_shard c ! ?s))"
      by (cases "cached c key") auto
    then show ?thesis using P(2) E(6) shard_ids_cached [OF s, of c] by blast
  qed
  have "cached ?c = (cached c)(key := None)"
  proof (rule ext, rule option_eqI)
    fix k x
    have same: "cache_entry ?c x = cache_entry c x" if "x \<in> cached_ids ?c"
      using cached_ids_entry [OF P(1) that] drops_le [OF P(3)] by (auto simp: map_le_def dom_def)
    have "cached ?c k = Some x \<longleftrightarrow> cached c k = Some x \<and> cached c key \<noteq> Some x"
      unfolding cached_iff [OF ok, of k x] cached_iff [OF P(1), of k x]
      using same ids by (cases "x \<in> cached_ids ?c") auto
    moreover have "cached c k = Some x \<Longrightarrow> cached c key = Some x \<Longrightarrow> k = key"
      unfolding cached_iff [OF ok, of k x] cached_iff [OF ok, of key x] by auto
    ultimately show "cached ?c k = Some x \<longleftrightarrow> ((cached c)(key := None)) k = Some x" by auto
  qed
  then show ?thesis
    using P E(1) by (simp add: Cache_Erase_def Let_def)
qed

lemma Cache_Insert_ok:
  assumes ok: "cache_ok c pin" and charge: "1 \<le> charge"
  shows "\<exists>c' e d. Cache_Insert c key v charge = Some (c', e, d) \<and> cache_entry c e = None \<and>
    cache_ok c' (pin(e := 1)) \<and> cached c' \<subseteq>\<^sub>m (cached c)(key \<mapsto> e) \<and>
    drops ((cache_entry c)(e \<mapsto> (key, v))) (cache_entry c') d"
proof -
  let ?hash = "HashSlice key" and ?e = "sc_brk c"
  let ?s = "Shard ?hash"
  note s = Shard_less [of ?hash]
  note sh = cache_ok_shard [OF ok s] and H = cache_ok_heap [OF ok]
  have fresh: "sc_heap c ?e = None" using H by fastforce
  then have "?e \<notin> dom (sc_heap c)" by blast
  then have pin0: "pin ?e = 0" using H by auto
  have live: "{x \<in> in_shard (sc_heap c) ?s. 0 < pin x} \<subseteq> dom (sc_heap c)"
    using H by blast
  let ?heap = "(sc_heap c)(?e \<mapsto> \<lparr>lh_value = v, lh_charge = charge, lh_key = key, lh_refs = 2, lh_hash = ?hash\<rparr>)"
  obtain heap' c1 d where I:
    "LRUCache_Insert (sc_heap c) (sc_shard c ! ?s) ?e key ?hash v charge = Some (heap', c1, d)"
    "lru_inv heap' ?s c1 (pin(?e := 1))" "heap_step ?s ?heap heap' d"
    "lc_capacity c1 = lc_capacity (sc_shard c ! ?s)" "within_capacity c1"
    "ids (lc_table c1) \<subseteq> insert ?e (ids (lc_table (sc_shard c ! ?s)) - set_option (cached c key))"
    "{x \<in> in_shard ?heap ?s. 0 < (pin(?e := 1)) x} \<subseteq> dom heap'"
    by (rule LRUCache_Insert_ok [OF sh(1) fresh pin0 refl charge table_room [OF sh] live, where v = v and key = key,
          folded cached_def]) (rule that)
  have e_s: "?e \<in> in_shard ?heap ?s" by (simp add: in_shard_def)
  have A: "sc_heap c \<subseteq>\<^sub>m ?heap" using fresh by (auto simp: map_le_def)
  have B: "dom ?heap \<subseteq> dom (sc_heap c) \<union> in_shard ?heap ?s" using e_s by auto
  have C: "hashes_ok ?heap" using H by (simp add: hashes_ok_def)
  have D: "dom ?heap \<subseteq> {..<Suc ?e}" using H by auto
  have pin: "(pin(?e := 1)) x = pin x" if "x \<notin> in_shard ?heap ?s" for x
    using that e_s by auto
  note P = put_shard_ok [OF ok s A B C D I(2,5,4,3) pin I(7)]
  let ?c = "(put_shard c ?s heap' c1)\<lparr>sc_brk := Suc ?e\<rparr>"
  have ids: "cached_ids ?c \<subseteq> insert ?e (cached_ids c - set_option (cached c key))"
  proof -
    have "x \<in> ids (lc_table (sc_shard c ! ?s))" if "cached c key = Some x" for x
      using that lru_inv_table [OF sh(1)]
        ht.lookup_iff [of "sc_heap c" "lc_table (sc_shard c ! ?s)" key ?hash x]
      by (auto simp: cached_def)
    then have "set_option (cached c key) \<subseteq> ids (lc_table (sc_shard c ! ?s))"
      by (cases "cached c key") auto
    then show ?thesis using P(2) I(6) shard_ids_cached [OF s, of c] by blast
  qed
  have entry: "cache_entry ?c = entry_of heap'" by (simp add: cache_entry_def put_shard_def)
  have heap: "entry_of ?heap = (cache_entry c)(?e \<mapsto> (key, v))"
    by (rule ext) (simp add: entry_of_def cache_entry_def)
  have dr: "drops ((cache_entry c)(?e \<mapsto> (key, v))) (cache_entry ?c) d"
    using heap_step_drops [OF I(3)] unfolding entry heap .
  have "cached ?c \<subseteq>\<^sub>m (cached c)(key \<mapsto> ?e)"
  proof -
    have "((cached c)(key \<mapsto> ?e)) k = Some x" if x: "cached ?c k = Some x" for k x
    proof -
      obtain w where w: "x \<in> cached_ids ?c" "cache_entry ?c x = Some (k, w)"
        using cached_iff [OF P(1), of k x] x by blast
      then have ent: "((cache_entry c)(?e \<mapsto> (key, v))) x = Some (k, w)"
        using drops_le [OF dr] by (auto simp: map_le_def dom_def)
      show ?thesis
      proof (cases "x = ?e")
        case True
        with ent show ?thesis by simp
      next
        case False
        then have "cached c k = Some x" "cached c key \<noteq> Some x"
          using ent w(1) ids unfolding cached_iff [OF ok, of k x] by auto
        then show ?thesis by (cases "k = key") auto
      qed
    qed
    then show ?thesis unfolding map_le_def by (metis domD)
  qed
  moreover have "cache_entry c ?e = None" using fresh by (simp add: cache_entry_def entry_of_def)
  moreover have "Cache_Insert c key v charge = Some (?c, ?e, d)"
    using I(1) by (simp add: Cache_Insert_def Let_def)
  ultimately show ?thesis using P(1) dr by blast
qed

lemma cached_entry:
  "cache_ok c pin \<Longrightarrow> cached c key = Some e \<Longrightarrow> \<exists>v. cache_entry c e = Some (key, v)"
  by (simp add: cached_iff)

lemma live_entry:
  "cache_ok c pin \<Longrightarrow> cache_entry c e = Some (key, v) \<Longrightarrow> 0 < pin e \<or> cached c key = Some e"
  using live_iff [of c pin e] cached_iff [of c pin key e] by auto

interpretation lru: ref_cache cache_ok cache_entry cached Cache_Insert Cache_Lookup Cache_Release Cache_Erase
proof (unfold_locales, goal_cases)
  case (1 c pin key e)
  then show ?case by (rule cached_entry)
next
  case (2 c pin e key v)
  then show ?case by (rule live_entry)
next
  case (3 c pin e)
  then show ?case using live_iff [of c pin e] by simp
next
  case (4 c pin charge key v)
  then show ?case by (rule Cache_Insert_ok)
next
  case (5 c pin key)
  then show ?case by (rule Cache_Lookup_ok)
next
  case (6 c pin e)
  then show ?case by (rule Cache_Release_ok)
next
  case (7 c pin key)
  then show ?case by (rule Cache_Erase_ok)
qed

lemma NewLRUCache_ok:
  assumes "capacity < 2 ^ 31"
  shows "cache_ok (NewLRUCache capacity :: 'v ShardedLRUCache) (\<lambda>_. 0)"
    and "cached (NewLRUCache capacity :: 'v ShardedLRUCache) = Map.empty"
    and "cache_entry (NewLRUCache capacity :: 'v ShardedLRUCache) = Map.empty"
proof -
  let ?c = "NewLRUCache capacity :: 'v ShardedLRUCache"
  have "(capacity + 15) div 16 \<le> (2 ^ 31 + 15) div 16" using assms by (intro div_le_mono) simp
  then have cap: "(capacity + (kNumShards - 1)) div kNumShards < 2 ^ 31" by (simp add: kNumShards_def)
  define n where "n = (capacity + (kNumShards - 1)) div kNumShards"
  have "lru_inv (Map.empty :: 'v heap) s (LRUCache_new n) (\<lambda>_. 0)" for s
    using HandleTable_new_ok by (auto simp: lru_inv_def LRUCache_new_def in_shard_def)
  then have ok: "cache_ok ?c (\<lambda>_. 0)"
    using cap unfolding cache_ok_def NewLRUCache_def Let_def n_def [symmetric]
    by (simp add: hashes_ok_def within_capacity_def LRUCache_new_def del: One_nat_def)
  then show "cache_ok ?c (\<lambda>_. 0)" .
  show ent: "cache_entry ?c = Map.empty"
    by (rule ext) (simp add: cache_entry_def NewLRUCache_def Let_def entry_of_def)
  show "cached ?c = Map.empty"
    by (rule ext, rule option_eqI) (simp add: cached_iff [OF ok] ent)
qed

section \<open>Properties\<close>

text \<open>C23: An entry somebody holds is not freed. Whatever \<^verbatim>\<open>Insert\<close>, \<^verbatim>\<open>Release\<close> or \<^verbatim>\<open>Erase\<close>
  of another handle is done on the sharded cache, and whatever is evicted for it, the entry with
  references left (\<open>pin e > 0\<close> afterwards) keeps its key and value and is not passed to the
  deleter; and every entry the deleter gets had none left.\<close>
theorem pinned_entry_survives:
  fixes c :: "'v ShardedLRUCache"
  assumes "cache_ok c pin" "0 < pin e" "cache_entry c e = Some (key, v)" "1 \<le> charge" "0 < pin x"
  shows "(\<exists>c' i d. Cache_Insert c key' w charge = Some (c', i, d) \<and> cache_entry c' e = Some (key, v) \<and>
      cache_ok c' (pin(i := 1)) \<and> i \<noteq> e) \<and>
    (\<exists>c' d. Cache_Erase c key' = Some (c', d) \<and> cache_entry c' e = Some (key, v) \<and> cache_ok c' pin) \<and>
    (\<exists>c' d. Cache_Release c x = Some (c', d) \<and> cache_ok c' (pin(x := pin x - 1)) \<and>
      (x \<noteq> e \<or> 1 < pin e \<longrightarrow> cache_entry c' e = Some (key, v)))"
proof -
  have keep: "cache_entry c' e = Some (key, v)"
    if "cache_ok c' pin'" "0 < pin' e" "drops ent (cache_entry c') d" "ent e = Some (key, v)" for c' pin' ent d
  proof -
    have "cache_entry c' e \<noteq> None" by (rule lru.pinned_live [OF that(1,2)])
    moreover have "cache_entry c' \<subseteq>\<^sub>m ent" using that(3) by (simp add: drops_def)
    ultimately show ?thesis using that(4) unfolding map_le_def by (metis domI not_None_eq)
  qed
  obtain c1 i d1 where I: "Cache_Insert c key' w charge = Some (c1, i, d1)" "cache_entry c i = None"
    "cache_ok c1 (pin(i := 1))" "drops ((cache_entry c)(i \<mapsto> (key', w))) (cache_entry c1) d1"
    using lru.insert_ok [OF assms(1,4), of key' w] by blast
  have i: "i \<noteq> e" using I(2) assms(3) by auto
  have "cache_entry c1 e = Some (key, v)" by (rule keep [OF I(3) _ I(4)]) (use i assms(2,3) in auto)
  moreover obtain c2 d2 where E: "Cache_Erase c key' = Some (c2, d2)" "cache_ok c2 pin"
    "drops (cache_entry c) (cache_entry c2) d2"
    using lru.erase_ok [OF assms(1), of key'] by blast
  moreover have "cache_entry c2 e = Some (key, v)" by (rule keep [OF E(2) assms(2) E(3) assms(3)])
  moreover obtain c3 d3 where R: "Cache_Release c x = Some (c3, d3)" "cache_ok c3 (pin(x := pin x - 1))"
    "drops (cache_entry c) (cache_entry c3) d3"
    using lru.release_ok [OF assms(1,5)] by blast
  moreover have "cache_entry c3 e = Some (key, v)" if "x \<noteq> e \<or> 1 < pin e"
    by (rule keep [OF R(2) _ R(3) assms(3)]) (use that assms(2) in auto)
  ultimately show ?thesis using I(1,3) i by blast
qed

theorem pinned_entry_survives_witness:
  "\<exists>c c' i e d. Cache_Insert (NewLRUCache 16 :: nat ShardedLRUCache) [1] 7 1 = Some (c, e, []) \<and>
     Cache_Insert c [2] 8 1 = Some (c', i, d) \<and> cache_entry c' e = Some ([1], 7)"
proof -
  have ok: "cache_ok (NewLRUCache 16 :: nat ShardedLRUCache) (\<lambda>_. 0)" by (rule NewLRUCache_ok) simp
  obtain c e d where I: "Cache_Insert (NewLRUCache 16 :: nat ShardedLRUCache) [1] 7 1 = Some (c, e, d)"
    using lru.insert_ok [OF ok, of 1 "[1]" 7] by auto
  note P = lru.insert_pinned [OF ok I]
  have "cache_entry (NewLRUCache 16 :: nat ShardedLRUCache) = Map.empty" by (rule NewLRUCache_ok) simp
  then obtain es where es: "set es = {e} - dom (cache_entry c)" "map Some d = map [e \<mapsto> ([1], 7)] es"
    using P(6) by (auto simp: drops_def)
  then have "es = []" using P(1) by (auto simp: dom_def)
  then have "d = []" using es(2) by simp
  moreover have "0 < ((\<lambda>_. 0 :: nat)(e := 1)) e" by simp
  ultimately show ?thesis
    using I pinned_entry_survives [OF P(2) _ P(1), of 1 e "[2]" 8] by auto
qed

text \<open>C22: A lookup in the sharded cache finds the entry last inserted under the key, or nothing: no
  other key's entry and no replaced one, with the reference it hands out counted, if the 32-bit counts of
  references have room for it; and each of the
  shards stays within its capacity, or holds only entries in use.\<close>
theorem cache_lookup_sound:
  fixes c :: "'v ShardedLRUCache"
  assumes "cache_ok c pin" "Cache_Insert c key v 1 = Some (c1, e, d)" "Cache_Lookup c1 key' = Some (c2, r)" "s < kNumShards"
    and "\<forall>x. pin x + 2 < 2 ^ 32"
  shows "(key' = key \<longrightarrow> r = None \<or> r = Some e \<and> cache_entry c2 e = Some (key, v)) \<and>
    (key' \<noteq> key \<longrightarrow> r = None \<or> r = cached c key') \<and>
    cache_ok c2 (case r of None \<Rightarrow> pin(e := 1) | Some x \<Rightarrow> (pin(e := 1))(x := Suc ((pin(e := 1)) x))) \<and>
    (lc_usage (sc_shard c2 ! s) \<le> lc_capacity (sc_shard c2 ! s) \<or> lc_lru (sc_shard c2 ! s) = [])"
proof -
  note I = lru.insert_pinned [OF assms(1,2)]
  have L: "r = cached c1 key'" "cache_entry c2 = cache_entry c1"
    "cache_ok c2 (case r of None \<Rightarrow> pin(e := 1) | Some x \<Rightarrow> (pin(e := 1))(x := Suc ((pin(e := 1)) x)))"
    using lru.lookup_ok [OF I(2), of key'] assms(3,5) by auto
  have "cached c1 key' = None \<or> cached c1 key' = ((cached c)(key \<mapsto> e)) key'"
    using I(5) unfolding map_le_def by (metis domIff)
  moreover have "within_capacity (sc_shard c2 ! s)" using L(3) assms(4) by (simp add: cache_ok_def)
  ultimately show ?thesis using L I(1) by (auto simp: within_capacity_def)
qed

theorem cache_lookup_sound_witness:
  "\<exists>c1 c2 e d r. Cache_Insert (NewLRUCache 16 :: nat ShardedLRUCache) [1] 7 1 = Some (c1, e, d) \<and>
     Cache_Lookup c1 [1] = Some (c2, r) \<and> (r = None \<or> r = Some e \<and> cache_entry c2 e = Some ([1], 7))"
proof -
  have ok: "cache_ok (NewLRUCache 16 :: nat ShardedLRUCache) (\<lambda>_. 0)" by (rule NewLRUCache_ok) simp
  obtain c1 e d where I: "Cache_Insert (NewLRUCache 16 :: nat ShardedLRUCache) [1] 7 1 = Some (c1, e, d)"
    using lru.insert_ok [OF ok, of 1 "[1]" 7] by auto
  have "((\<lambda>_. 0 :: nat)(e := 1)) x + 2 < 2 ^ 32" for x by simp
  then obtain c2 where L: "Cache_Lookup c1 [1] = Some (c2, cached c1 [1])"
    using lru.lookup_ok [OF lru.insert_pinned(2) [OF ok I], of "[1]"] by blast
  show ?thesis using cache_lookup_sound [OF ok I L, of 0] I L by (auto simp: kNumShards_def)
qed

end
