(* ===== verification/Dbformat.thy ===== *)
theory Dbformat
  imports Coding "HOL-Library.List_Lexorder"
begin

text \<open>
  Keys of the metadata database: \<^verbatim>\<open>Slice::compare\<close> (\<^verbatim>\<open>include/leveldb/slice.h\<close>), the
  bytewise comparator (\<^verbatim>\<open>util/comparator.cc\<close>), and the internal keys of
  \<^verbatim>\<open>db/dbformat.h\<close> and \<^verbatim>\<open>db/dbformat.cc\<close>, a user key followed by a 64-bit tag that packs a
  sequence number with a value type. A comparison returns an \<open>int\<close> whose sign counts, as
  in the code. The lemmas show that the comparators are linear orders (that of the library
  on lists, and user key up with tag down), and that separators and successors lie where
  index blocks need them.
\<close>

section \<open>Slices and the bytewise comparator\<close>

fun memcmp :: "bytes \<Rightarrow> bytes \<Rightarrow> nat \<Rightarrow> int" where
  "memcmp (x # xs) (y # ys) (Suc n) =
     (if x = y then memcmp xs ys n else if x < y then -1 else 1)"
| "memcmp _ _ _ = 0"

definition Slice_compare :: "bytes \<Rightarrow> bytes \<Rightarrow> int" where
  "Slice_compare a b =
     (let min_len = (if length a < length b then length a else length b);
          r = memcmp a b min_len
      in if r = 0 then
           (if length a < length b then -1 else if length a > length b then 1 else 0)
         else r)"

fun common_prefix :: "bytes \<Rightarrow> bytes \<Rightarrow> nat" where
  "common_prefix (x # xs) (y # ys) = (if x = y then Suc (common_prefix xs ys) else 0)"
| "common_prefix _ _ = 0"

definition FindShortestSeparator :: "bytes \<Rightarrow> bytes \<Rightarrow> bytes" where
  "FindShortestSeparator start limit =
     (let min_length = min (length start) (length limit);
          diff_index = common_prefix start limit
      in if diff_index \<ge> min_length then start
         else
           let diff_byte = start ! diff_index
           in if diff_byte < 0xff \<and> unat diff_byte + 1 < unat (limit ! diff_index)
              then take (diff_index + 1) (start[diff_index := start ! diff_index + 1])
              else start)"

fun FindShortSuccessor :: "bytes \<Rightarrow> bytes" where
  "FindShortSuccessor [] = []"
| "FindShortSuccessor (b # key) =
     (if b \<noteq> 0xff then [b + 1] else b # FindShortSuccessor key)"

section \<open>Internal keys\<close>

datatype ValueType = kTypeDeletion | kTypeValue

definition type_code :: "ValueType \<Rightarrow> u64" where
  "type_code t = (case t of kTypeDeletion \<Rightarrow> 0 | kTypeValue \<Rightarrow> 1)"

definition kValueTypeForSeek :: ValueType where
  "kValueTypeForSeek = kTypeValue"

definition kMaxSequenceNumber :: u64 where
  "kMaxSequenceNumber = push_bit 56 1 - 1"

record ParsedInternalKey =
  pk_user_key :: bytes
  pk_sequence :: u64
  pk_type :: ValueType

definition PackSequenceAndType :: "u64 \<Rightarrow> ValueType \<Rightarrow> u64" where
  "PackSequenceAndType seq t = push_bit 8 seq OR type_code t"

definition AppendInternalKey :: "bytes \<Rightarrow> ParsedInternalKey \<Rightarrow> bytes" where
  "AppendInternalKey result key =
     PutFixed64 (result @ pk_user_key key) (PackSequenceAndType (pk_sequence key) (pk_type key))"

definition InternalKey :: "bytes \<Rightarrow> u64 \<Rightarrow> ValueType \<Rightarrow> bytes" where
  "InternalKey user_key s t =
     AppendInternalKey [] \<lparr>pk_user_key = user_key, pk_sequence = s, pk_type = t\<rparr>"

definition ExtractUserKey :: "bytes \<Rightarrow> bytes" where
  "ExtractUserKey internal_key = take (length internal_key - 8) internal_key"

definition ExtractTag :: "bytes \<Rightarrow> u64" where
  "ExtractTag internal_key = DecodeFixed64 (drop (length internal_key - 8) internal_key)"

definition ParseInternalKey :: "bytes \<Rightarrow> ParsedInternalKey option" where
  "ParseInternalKey internal_key =
     (if length internal_key < 8 then None
      else
        let num = ExtractTag internal_key; c = num AND 0xff
        in if c = 0 then
             Some \<lparr>pk_user_key = ExtractUserKey internal_key, pk_sequence = drop_bit 8 num,
               pk_type = kTypeDeletion\<rparr>
           else if c = 1 then
             Some \<lparr>pk_user_key = ExtractUserKey internal_key, pk_sequence = drop_bit 8 num,
               pk_type = kTypeValue\<rparr>
           else None)"

definition InternalKey_Compare :: "bytes \<Rightarrow> bytes \<Rightarrow> int" where
  "InternalKey_Compare akey bkey =
     (let r = Slice_compare (ExtractUserKey akey) (ExtractUserKey bkey)
      in if r = 0 then
           (let anum = ExtractTag akey; bnum = ExtractTag bkey
            in if anum > bnum then -1 else if anum < bnum then 1 else 0)
         else r)"

definition Internal_FindShortestSeparator :: "bytes \<Rightarrow> bytes \<Rightarrow> bytes" where
  "Internal_FindShortestSeparator start limit =
     (let user_start = ExtractUserKey start;
          user_limit = ExtractUserKey limit;
          tmp = FindShortestSeparator user_start user_limit
      in if length tmp < length user_start \<and> Slice_compare user_start tmp < 0
         then PutFixed64 tmp (PackSequenceAndType kMaxSequenceNumber kValueTypeForSeek)
         else start)"

definition Internal_FindShortSuccessor :: "bytes \<Rightarrow> bytes" where
  "Internal_FindShortSuccessor key =
     (let user_key = ExtractUserKey key;
          tmp = FindShortSuccessor user_key
      in if length tmp < length user_key \<and> Slice_compare user_key tmp < 0
         then PutFixed64 tmp (PackSequenceAndType kMaxSequenceNumber kValueTypeForSeek)
         else key)"

definition LookupKey_internal :: "bytes \<Rightarrow> u64 \<Rightarrow> bytes" where
  "LookupKey_internal user_key s =
     user_key @ EncodeFixed64 (PackSequenceAndType s kValueTypeForSeek)"

definition LookupKey_memtable :: "bytes \<Rightarrow> u64 \<Rightarrow> bytes" where
  "LookupKey_memtable user_key s =
     EncodeVarint32 (of_nat (length user_key + 8)) @ LookupKey_internal user_key s"

section \<open>The orders\<close>

lemma Slice_compare_Nil [simp]:
  "Slice_compare [] (y # ys) = -1" "Slice_compare (x # xs) [] = 1" "Slice_compare [] [] = 0"
  by (simp_all add: Slice_compare_def)

lemma memcmp_stop: "memcmp a b n = memcmp a b (min n (min (length a) (length b)))"
  by (induction a b n rule: memcmp.induct) auto

lemma Slice_compare_Cons [simp]:
  "Slice_compare (x # xs) (y # ys) = (if x = y then Slice_compare xs ys else if x < y then -1 else 1)"
  by (simp add: Slice_compare_def)

lemma Slice_compare_order:
  "(Slice_compare a b < 0 \<longleftrightarrow> a < b) \<and> (Slice_compare a b = 0 \<longleftrightarrow> a = b) \<and>
   (Slice_compare a b > 0 \<longleftrightarrow> b < a)"
proof (induction a arbitrary: b)
  case Nil
  then show ?case by (cases b) auto
next
  case (Cons x xs)
  show ?case
  proof (cases b)
    case (Cons y ys)
    then show ?thesis using Cons.IH [of ys] by (cases x y rule: linorder_cases) auto
  qed simp
qed

lemma Slice_compare_neg [simp]: "Slice_compare a b < 0 \<longleftrightarrow> a < b"
  and Slice_compare_zero [simp]: "Slice_compare a b = 0 \<longleftrightarrow> a = b"
  and Slice_compare_pos [simp]: "0 < Slice_compare a b \<longleftrightarrow> b < a"
  using Slice_compare_order [of a b] by blast+

lemma common_prefix_split:
  assumes "common_prefix a b < min (length a) (length b)"
  shows "take (common_prefix a b) a = take (common_prefix a b) b"
    and "a ! common_prefix a b \<noteq> b ! common_prefix a b"
  using assms by (induction a b rule: common_prefix.induct) auto

lemma append_less_append: "p @ a < p @ b \<longleftrightarrow> a < (b :: bytes)"
  by (induction p) auto

lemma FindShortestSeparator_between:
  assumes "start < limit"
  shows "start \<le> FindShortestSeparator start limit \<and> FindShortestSeparator start limit < limit"
proof -
  let ?d = "common_prefix start limit"
  show ?thesis
  proof (cases "?d < min (length start) (length limit) \<and>
      unat (start ! ?d) + 1 < unat (limit ! ?d)")
    case True
    then have d: "?d < length start" "?d < length limit" by auto
    let ?b = "start ! ?d" and ?c = "limit ! ?d" and ?p = "take ?d start"
    have small: "unat ?b + 1 < 256" using True unat_byte_lt [of ?c] by linarith
    then have inc: "unat (?b + 1) = unat ?b + 1" by (simp add: unat_word_ariths)
    have "?b < 0xff" using small by (simp add: word_less_nat_alt)
    then have r: "FindShortestSeparator start limit = ?p @ [?b + 1]"
      using True d by (simp add: FindShortestSeparator_def Let_def take_Suc_conv_app_nth)
    obtain u where s: "start = ?p @ ?b # u" using id_take_nth_drop [OF d(1)] by blast
    have "take ?d limit = ?p" using common_prefix_split(1) [of start limit] d by simp
    then obtain w where l: "limit = ?p @ ?c # w" using id_take_nth_drop [OF d(2)] by metis
    have order: "?b < ?b + 1" "?b + 1 < ?c" using True inc by (simp_all add: word_less_nat_alt)
    have "?p @ ?b # u \<le> ?p @ [?b + 1]"
      using order(1) by (intro less_imp_le) (simp add: append_less_append)
    moreover have "?p @ [?b + 1] < ?p @ ?c # w" using order(2) by (simp add: append_less_append)
    ultimately show ?thesis using r s l by metis
  next
    case False
    then have "FindShortestSeparator start limit = start"
      by (auto simp: FindShortestSeparator_def Let_def)
    then show ?thesis using assms by simp
  qed
qed

lemma FindShortSuccessor_ge: "key \<le> FindShortSuccessor key"
proof (induction key)
  case (Cons b key)
  show ?case
  proof (cases "b = 0xff")
    case False
    then have "unat b \<noteq> 255" by (simp add: word_unat_eq_iff)
    then have "unat b + 1 < 256" using unat_byte_lt [of b] by linarith
    then have "unat (b + 1) = unat b + 1" by (simp add: unat_word_ariths)
    then have "b < b + 1" by (simp add: word_less_nat_alt)
    then show ?thesis using False by (simp add: less_imp_le)
  qed (use Cons in auto)
qed simp

lemma InternalKey_simps: "InternalKey k s t = k @ EncodeFixed64 (PackSequenceAndType s t)"
  by (simp add: InternalKey_def AppendInternalKey_def PutFixed64_def)

lemma ExtractUserKey_append [simp]: "ExtractUserKey (k @ EncodeFixed64 tag) = k"
  by (simp add: ExtractUserKey_def)

lemma ExtractTag_append [simp]: "ExtractTag (k @ EncodeFixed64 tag) = tag"
  by (simp add: ExtractTag_def)

lemma unat_PackSequenceAndType:
  assumes "unat s < 2 ^ 56"
  shows "unat (PackSequenceAndType s t) = 256 * unat s + unat (type_code t)"
proof -
  have "PackSequenceAndType s t = push_bit 8 s + type_code t"
  proof (cases t)
    case kTypeValue
    have "push_bit 8 s + 1 = push_bit 8 s OR 1"
      by (rule disjunctive_add) (auto simp: bit_simps)
    then show ?thesis by (simp add: PackSequenceAndType_def type_code_def kTypeValue)
  qed (simp add: PackSequenceAndType_def type_code_def)
  moreover have "unat (push_bit 8 s) = 256 * unat s"
    using assms by (simp add: push_bit_eq_mult unat_word_ariths)
  moreover have "unat (type_code t) \<le> 1" by (cases t) (simp_all add: type_code_def)
  ultimately show ?thesis
    using assms by (simp add: unat_word_ariths)
qed

lemma unat_type_code: "unat (type_code t) = (case t of kTypeDeletion \<Rightarrow> 0 | kTypeValue \<Rightarrow> 1)"
  by (cases t) (simp_all add: type_code_def)

lemma Parse_InternalKey:
  assumes "unat s < 2 ^ 56"
  shows "ParseInternalKey (InternalKey k s t) = Some \<lparr>pk_user_key = k, pk_sequence = s, pk_type = t\<rparr>"
proof -
  let ?tag = "PackSequenceAndType s t"
  have "unat (drop_bit 8 ?tag) = unat s"
    using assms by (simp add: unat_drop unat_PackSequenceAndType unat_type_code split: ValueType.splits)
  then have seq: "drop_bit 8 ?tag = s" by (simp add: word_unat_eq_iff)
  have "?tag AND 0xff = take_bit 8 ?tag"
    by (simp add: take_bit_eq_mask mask_eq_exp_minus_1)
  then have "unat (?tag AND 0xff) = take_bit 8 (unat ?tag)"
    by (simp only: unsigned_take_bit_eq)
  then have "unat (?tag AND 0xff) = unat ?tag mod 256" by (simp add: take_bit_eq_mod)
  then have "unat (?tag AND 0xff) = unat (type_code t)"
    using assms by (simp add: unat_PackSequenceAndType unat_type_code split: ValueType.splits)
  then have "?tag AND 0xff = type_code t" by (simp add: word_unat_eq_iff)
  then show ?thesis
    using seq by (cases t) (simp_all add: ParseInternalKey_def InternalKey_simps Let_def type_code_def)
qed

lemma InternalKey_Compare_neg:
  "InternalKey_Compare a b < 0 \<longleftrightarrow> ExtractUserKey a < ExtractUserKey b \<or>
     ExtractUserKey a = ExtractUserKey b \<and> ExtractTag b < ExtractTag a"
  by (auto simp: InternalKey_Compare_def Let_def)

lemma InternalKey_Compare_zero:
  assumes "8 \<le> length a" "8 \<le> length b"
  shows "InternalKey_Compare a b = 0 \<longleftrightarrow> a = b"
proof
  assume "InternalKey_Compare a b = 0"
  then have eq: "ExtractUserKey a = ExtractUserKey b" "ExtractTag a = ExtractTag b"
    by (auto simp: InternalKey_Compare_def Let_def split: if_splits)
  have split: "c = ExtractUserKey c @ EncodeFixed64 (ExtractTag c)" if "8 \<le> length c" for c
    using that by (simp add: ExtractUserKey_def ExtractTag_def EncodeFixed64_DecodeFixed64)
  show "a = b" using split [OF assms(1)] split [OF assms(2)] eq by simp
qed (simp add: InternalKey_Compare_def)

section \<open>Orders of keys\<close>

text \<open>What the users of a comparator rely on: its sign is that of an order on what \<open>rank\<close> keeps of a
  key.\<close>

locale key_order =
  fixes cmp :: "'k \<Rightarrow> 'k \<Rightarrow> int" and rank :: "'k \<Rightarrow> 'r::linorder"
  assumes less: "cmp a b < 0 \<longleftrightarrow> rank a < rank b"
    and same: "cmp a b = 0 \<longleftrightarrow> rank a = rank b"
begin

lemma cmp_trans: "cmp a b < 0 \<Longrightarrow> cmp b c < 0 \<Longrightarrow> cmp a c < 0"
  by (simp add: less)

lemma cmp_total: "\<not> cmp a b < 0 \<Longrightarrow> cmp a b \<noteq> 0 \<Longrightarrow> cmp b a < 0"
  by (simp add: less same)

end

section \<open>Properties\<close>

text \<open>An internal key is parsed back to its user key, sequence number and type, for every
  sequence number of 56 bits, and the comparator orders internal keys by user key, and among those
  of one user key the higher sequence number first.\<close>
theorem internal_key_roundtrip:
  assumes "unat s < 2 ^ 56" "unat s' < 2 ^ 56"
  shows "ParseInternalKey (InternalKey k s t) = Some \<lparr>pk_user_key = k, pk_sequence = s, pk_type = t\<rparr> \<and>
    ExtractUserKey (InternalKey k s t) = k \<and>
    (InternalKey_Compare (InternalKey k s t) (InternalKey k' s' t') < 0 \<longleftrightarrow>
      k < k' \<or> k = k' \<and> (s' < s \<or> s' = s \<and> t' = kTypeDeletion \<and> t = kTypeValue))"
proof -
  have "unat (PackSequenceAndType s' t') < unat (PackSequenceAndType s t) \<longleftrightarrow>
      unat s' < unat s \<or> unat s' = unat s \<and> t' = kTypeDeletion \<and> t = kTypeValue"
    using assms by (cases t; cases t') (auto simp: unat_PackSequenceAndType unat_type_code)
  then have "PackSequenceAndType s' t' < PackSequenceAndType s t \<longleftrightarrow>
      s' < s \<or> s' = s \<and> t' = kTypeDeletion \<and> t = kTypeValue"
    by (simp add: word_less_nat_alt word_unat_eq_iff)
  then show ?thesis
    using Parse_InternalKey [OF assms(1), of k t] by (simp add: InternalKey_Compare_neg InternalKey_simps)
qed

theorem internal_key_roundtrip_witness:
  "ParseInternalKey (InternalKey [1, 2] 7 kTypeValue) = Some \<lparr>pk_user_key = [1, 2], pk_sequence = 7, pk_type = kTypeValue\<rparr> \<and>
   InternalKey_Compare (InternalKey [1, 2] 7 kTypeValue) (InternalKey [1, 2] 3 kTypeValue) < 0"
  using internal_key_roundtrip [of 7 3 "[1, 2]" kTypeValue "[1, 2]" kTypeValue] by simp

text \<open>C25: The separator the table index stores between two keys is at least the first and below the
  second, and the short successor is at least the key, so an index lookup finds the right block;
  neither is longer than the key it replaces.\<close>
theorem separator_between:
  assumes "start < limit"
  shows "start \<le> FindShortestSeparator start limit \<and> FindShortestSeparator start limit < limit \<and>
    length (FindShortestSeparator start limit) \<le> length start \<and>
    key \<le> FindShortSuccessor key \<and> length (FindShortSuccessor key) \<le> length key"
proof -
  have "length (FindShortSuccessor key) \<le> length key" by (induction key) auto
  moreover have "length (FindShortestSeparator start limit) \<le> length start"
    by (auto simp: FindShortestSeparator_def Let_def)
  ultimately show ?thesis using FindShortestSeparator_between [OF assms] FindShortSuccessor_ge by blast
qed

theorem separator_between_witness:
  "[1, 2, 3] \<le> FindShortestSeparator [1, 2, 3] [1, 9] \<and> FindShortestSeparator [1, 2, 3] [1, 9] < [1, 9] \<and>
   FindShortestSeparator [1, 2, 3] [1, 9] = [1, 3]"
proof -
  have "FindShortestSeparator [1, 2, 3] [1, 9] = [1, 3]" by code_simp
  then show ?thesis using separator_between [of "[1, 2, 3]" "[1, 9]"] by simp
qed

end
