(* ===== verification/Memtable.thy ===== *)
theory Memtable
  imports Dbformat
begin

text \<open>
  The memtable (\<^verbatim>\<open>db/memtable.cc\<close>). An entry is the byte string the code builds in its
  arena: varint length, internal key, varint length, value. The skip list that orders the
  entries is represented by its lowest level, the list of all entries in order
  (\<open>ordered_insert\<close> and \<open>seek\<close> stand for \<^verbatim>\<open>SkipList::Insert\<close> and
  \<^verbatim>\<open>Iterator::Seek\<close>; the theory \<open>Skip_List\<close> shows that the code implements them). The lemmas show that
  a lookup at a snapshot that sees every entry returns the newest entry of the user key.
\<close>

section \<open>Operations\<close>

type_synonym MemTable = "bytes list"

definition mem_slice :: "bytes \<Rightarrow> bytes \<times> bytes" where
  "mem_slice data =
     (case GetVarint32Ptr data of
        None \<Rightarrow> ([], [])
      | Some (len, p) \<Rightarrow> (take (unat len) p, drop (unat len) p))"

definition KeyComparator :: "bytes \<Rightarrow> bytes \<Rightarrow> int" where
  "KeyComparator aptr bptr = InternalKey_Compare (fst (mem_slice aptr)) (fst (mem_slice bptr))"

definition ordered_insert :: "MemTable \<Rightarrow> bytes \<Rightarrow> MemTable" where
  "ordered_insert t e =
     takeWhile (\<lambda>x. KeyComparator x e < 0) t @ e # dropWhile (\<lambda>x. KeyComparator x e < 0) t"

definition seek :: "MemTable \<Rightarrow> bytes \<Rightarrow> MemTable" where
  "seek t target = dropWhile (\<lambda>x. KeyComparator x target < 0) t"

definition mem_entry :: "u64 \<Rightarrow> ValueType \<Rightarrow> bytes \<Rightarrow> bytes \<Rightarrow> bytes" where
  "mem_entry s type key v =
     (let key_size = length key;
          val_size = length v;
          internal_key_size = key_size + 8
      in EncodeVarint32 (of_nat internal_key_size) @ key @
         EncodeFixed64 (push_bit 8 s OR type_code type) @
         EncodeVarint32 (of_nat val_size) @ v)"

definition MemTable_Add :: "MemTable \<Rightarrow> u64 \<Rightarrow> ValueType \<Rightarrow> bytes \<Rightarrow> bytes \<Rightarrow> MemTable" where
  "MemTable_Add t s type key v = ordered_insert t (mem_entry s type key v)"

definition MemTable_Get :: "MemTable \<Rightarrow> bytes \<Rightarrow> u64 \<Rightarrow> bytes option option" where
  "MemTable_Get t user_key s =
     (case seek t (LookupKey_memtable user_key s) of
        [] \<Rightarrow> None
      | entry # _ \<Rightarrow>
          (case GetVarint32Ptr entry of
             None \<Rightarrow> None
           | Some (key_length, key_ptr) \<Rightarrow>
               if Slice_compare (take (unat (key_length - 8)) key_ptr) user_key = 0 then
                 (let tag = DecodeFixed64 (drop (unat (key_length - 8)) key_ptr)
                  in if tag AND 0xff = 1 then
                       Some (Some (fst (mem_slice (drop (unat key_length) key_ptr))))
                     else if tag AND 0xff = 0 then Some None
                     else None)
               else None))"

definition MemTableIterator_key :: "bytes \<Rightarrow> bytes" where
  "MemTableIterator_key entry = fst (mem_slice entry)"

definition MemTableIterator_value :: "bytes \<Rightarrow> bytes" where
  "MemTableIterator_value entry = fst (mem_slice (snd (mem_slice entry)))"

section \<open>Entries\<close>

record entry =
  e_key :: bytes
  e_seq :: u64
  e_type :: ValueType
  e_val :: bytes

definition entry_ok :: "entry \<Rightarrow> bool" where
  "entry_ok e \<longleftrightarrow> length (e_key e) + 8 < 2 ^ 32 \<and> length (e_val e) < 2 ^ 32 \<and> unat (e_seq e) < 2 ^ 56"

definition encode_entry :: "entry \<Rightarrow> bytes" where
  "encode_entry e = mem_entry (e_seq e) (e_type e) (e_key e) (e_val e)"

definition entry_less :: "entry \<Rightarrow> entry \<Rightarrow> bool" where
  "entry_less a b \<longleftrightarrow> e_key a < e_key b \<or> e_key a = e_key b \<and>
     PackSequenceAndType (e_seq b) (e_type b) < PackSequenceAndType (e_seq a) (e_type a)"

definition entry_value :: "entry \<Rightarrow> bytes option" where
  "entry_value e = (case e_type e of kTypeValue \<Rightarrow> Some (e_val e) | kTypeDeletion \<Rightarrow> None)"

definition newest :: "entry list \<Rightarrow> bytes \<Rightarrow> entry option" where
  "newest es key = find (\<lambda>e. e_key e = key) es"

definition mem_rep :: "MemTable \<Rightarrow> entry list \<Rightarrow> bool" where
  "mem_rep t es \<longleftrightarrow> t = map encode_entry es \<and> sorted_wrt entry_less es \<and> (\<forall>e\<in>set es. entry_ok e)"

abbreviation entry_tag :: "entry \<Rightarrow> u64" where
  "entry_tag e \<equiv> PackSequenceAndType (e_seq e) (e_type e)"

lemma GetVarint32Ptr_Encode [simp]: "GetVarint32Ptr (EncodeVarint32 v @ rest) = Some (v, rest)"
  using GetVarint32_EncodeVarint32 [of v rest] by (simp add: GetVarint32_def)

lemma unat_of_nat_u32: "n < 2 ^ 32 \<Longrightarrow> unat (of_nat n :: u32) = n"
  by (simp add: unat_of_nat take_bit_nat_eq_self)

lemma encode_entry_simps:
  "encode_entry e = EncodeVarint32 (of_nat (length (e_key e) + 8)) @ e_key e @
     EncodeFixed64 (entry_tag e) @ EncodeVarint32 (of_nat (length (e_val e))) @ e_val e"
  by (simp add: encode_entry_def mem_entry_def Let_def PackSequenceAndType_def)

lemma mem_slice_entry:
  "entry_ok e \<Longrightarrow> mem_slice (encode_entry e) =
     (e_key e @ EncodeFixed64 (entry_tag e), EncodeVarint32 (of_nat (length (e_val e))) @ e_val e)"
proof -
  assume "entry_ok e"
  then have n: "unat (of_nat (length (e_key e) + 8) :: u32) = length (e_key e) + 8"
    by (intro unat_of_nat_u32) (simp add: entry_ok_def)
  show ?thesis
    unfolding mem_slice_def encode_entry_simps GetVarint32Ptr_Encode option.case prod.case n by simp
qed

lemma Iterator_entry:
  assumes "entry_ok e"
  shows "MemTableIterator_key (encode_entry e) = InternalKey (e_key e) (e_seq e) (e_type e)"
    and "MemTableIterator_value (encode_entry e) = e_val e"
proof -
  show "MemTableIterator_key (encode_entry e) = InternalKey (e_key e) (e_seq e) (e_type e)"
    using assms by (simp add: MemTableIterator_key_def mem_slice_entry InternalKey_simps)
  have n: "unat (of_nat (length (e_val e)) :: u32) = length (e_val e)"
    using assms by (intro unat_of_nat_u32) (simp add: entry_ok_def)
  then show "MemTableIterator_value (encode_entry e) = e_val e"
    using assms unfolding MemTableIterator_value_def mem_slice_entry [OF assms] snd_conv
    unfolding mem_slice_def GetVarint32Ptr_Encode option.case prod.case n by simp
qed

lemma mem_slice_lookup:
  assumes "length key + 8 < 2 ^ 32"
  shows "mem_slice (LookupKey_memtable key s) =
    (key @ EncodeFixed64 (PackSequenceAndType s kValueTypeForSeek), [])"
proof -
  have n: "unat (of_nat (length key + 8) :: u32) = length key + 8"
    by (intro unat_of_nat_u32) (use assms in simp)
  show ?thesis
    unfolding mem_slice_def LookupKey_memtable_def GetVarint32Ptr_Encode option.case prod.case n
    by (simp add: LookupKey_internal_def)
qed

lemma KeyComparator_entries:
  "entry_ok a \<Longrightarrow> entry_ok b \<Longrightarrow> KeyComparator (encode_entry a) (encode_entry b) < 0 \<longleftrightarrow> entry_less a b"
  by (simp add: KeyComparator_def mem_slice_entry InternalKey_Compare_neg entry_less_def)

lemma KeyComparator_lookup:
  "entry_ok a \<Longrightarrow> length key + 8 < 2 ^ 32 \<Longrightarrow>
   KeyComparator (encode_entry a) (LookupKey_memtable key s) < 0 \<longleftrightarrow>
     e_key a < key \<or> e_key a = key \<and> PackSequenceAndType s kValueTypeForSeek < entry_tag a"
  by (simp add: KeyComparator_def mem_slice_entry mem_slice_lookup InternalKey_Compare_neg)

lemma tag_less:
  assumes "unat s < unat s'" "unat s' < 2 ^ 56"
  shows "PackSequenceAndType s t < PackSequenceAndType s' t'"
proof -
  have "unat s < 2 ^ 56" using assms by linarith
  then show ?thesis
    using assms by (cases t; cases t') (simp_all add: word_less_nat_alt unat_PackSequenceAndType unat_type_code)
qed

lemma tag_seek_le:
  assumes "unat (e_seq e) \<le> unat s" "unat s < 2 ^ 56"
  shows "\<not> PackSequenceAndType s kValueTypeForSeek < entry_tag e"
proof -
  have "unat (e_seq e) < 2 ^ 56" using assms by linarith
  then show ?thesis
    using assms by (cases "e_type e")
      (simp_all add: word_less_nat_alt unat_PackSequenceAndType unat_type_code kValueTypeForSeek_def)
qed

lemma find_dropWhile:
  "(\<And>x. x \<in> set xs \<Longrightarrow> Q x \<Longrightarrow> \<not> P x) \<Longrightarrow> find P (dropWhile Q xs) = find P xs"
  by (induction xs) auto

lemma newest_head:
  assumes "sorted_wrt entry_less es" "es \<noteq> []" "\<And>e. e \<in> set es \<Longrightarrow> key \<le> e_key e"
  shows "newest es key = (if e_key (hd es) = key then Some (hd es) else None)"
proof (cases es)
  case (Cons e rest)
  have "e_key x \<noteq> key" if "e_key e \<noteq> key" "x \<in> set rest" for x
  proof -
    have "e_key e \<le> e_key x" using assms(1) that(2) Cons by (auto simp: entry_less_def)
    moreover have "key < e_key e" using assms(3) [of e] that(1) Cons by force
    ultimately show ?thesis by auto
  qed
  then show ?thesis by (auto simp: newest_def Cons find_None_iff)
qed (use assms in simp)

lemma newest_seek:
  assumes sorted: "sorted_wrt entry_less es"
  shows "newest es key = (case dropWhile (\<lambda>e. e_key e < key) es of
      [] \<Rightarrow> None | r # _ \<Rightarrow> if e_key r = key then Some r else None)"
proof -
  define rest where "rest = dropWhile (\<lambda>e. e_key e < key) es"
  have newest: "newest es key = newest rest key"
    unfolding newest_def rest_def by (rule find_dropWhile [symmetric]) auto
  have sorted': "sorted_wrt entry_less rest"
    using sorted unfolding rest_def by (metis dropWhile_eq_drop sorted_wrt_drop)
  have ge: "key \<le> e_key e" if e: "e \<in> set rest" for e
  proof (cases rest)
    case (Cons r rs)
    have "\<not> e_key r < key" using Cons unfolding rest_def by (metis dropWhile_eq_Cons_conv)
    moreover have "e_key r \<le> e_key e"
      using sorted' e Cons by (auto simp: entry_less_def)
    ultimately show ?thesis by auto
  qed (use e in simp)
  show ?thesis
    unfolding newest rest_def [symmetric]
  proof (cases rest)
    case Nil
    then show "newest rest key = (case rest of [] \<Rightarrow> None | r # _ \<Rightarrow> if e_key r = key then Some r else None)"
      by (simp add: newest_def)
  next
    case (Cons r rs)
    then show "newest rest key = (case rest of [] \<Rightarrow> None | r # _ \<Rightarrow> if e_key r = key then Some r else None)"
      using newest_head [OF sorted' _ ge] by simp
  qed
qed

lemma dropWhile_in: "dropWhile P xs = r # rs \<Longrightarrow> r \<in> set xs"
  by (metis list.set_intros(1) set_dropWhileD)

lemma MemTable_Get_newest:
  assumes rep: "mem_rep t es" and key: "length key + 8 < 2 ^ 32"
    and snap: "unat s < 2 ^ 56" "\<And>e. e \<in> set es \<Longrightarrow> unat (e_seq e) \<le> unat s"
  shows "MemTable_Get t key s = map_option entry_value (newest es key)"
proof -
  have ok: "\<And>e. e \<in> set es \<Longrightarrow> entry_ok e" and sorted: "sorted_wrt entry_less es"
    and t: "t = map encode_entry es"
    using rep by (auto simp: mem_rep_def)
  have cmp: "KeyComparator (encode_entry e) (LookupKey_memtable key s) < 0 \<longleftrightarrow> e_key e < key"
    if "e \<in> set es" for e
    using KeyComparator_lookup [OF ok [OF that] key] tag_seek_le [OF snap(2) [OF that] snap(1)] by blast
  have "dropWhile (\<lambda>e. KeyComparator (encode_entry e) (LookupKey_memtable key s) < 0) es =
      dropWhile (\<lambda>e. e_key e < key) es"
    by (rule dropWhile_cong) (simp_all add: cmp)
  then have seek: "seek t (LookupKey_memtable key s) = map encode_entry (dropWhile (\<lambda>e. e_key e < key) es)"
    by (simp add: seek_def t dropWhile_map comp_def)
  show ?thesis
  proof (cases "dropWhile (\<lambda>e. e_key e < key) es")
    case Nil
    then show ?thesis using newest_seek [OF sorted, of key] by (simp only: MemTable_Get_def seek) simp
  next
    case (Cons r rs)
    have okr: "entry_ok r" using ok dropWhile_in [OF Cons] .
    have new: "newest es key = (if e_key r = key then Some r else None)"
      using newest_seek [OF sorted, of key] Cons by simp
    have n: "unat (of_nat (length (e_key r) + 8) :: u32) = length (e_key r) + 8"
      using okr by (intro unat_of_nat_u32) (simp add: entry_ok_def)
    have n8: "unat (of_nat (length (e_key r) + 8) - 8 :: u32) = length (e_key r)"
      using okr by (simp add: entry_ok_def unat_of_nat_u32)
    have val: "fst (mem_slice (EncodeVarint32 (of_nat (length (e_val r))) @ e_val r)) = e_val r"
      using Iterator_entry(2) [OF okr] by (simp add: MemTableIterator_value_def mem_slice_entry okr)
    have tag: "entry_tag r AND 0xff = type_code (e_type r)"
    proof -
      have "ParseInternalKey (InternalKey (e_key r) (e_seq r) (e_type r)) =
          Some \<lparr>pk_user_key = e_key r, pk_sequence = e_seq r, pk_type = e_type r\<rparr>"
        using okr by (intro Parse_InternalKey) (simp add: entry_ok_def)
      then show ?thesis
        by (auto simp: ParseInternalKey_def InternalKey_simps Let_def type_code_def split: if_splits)
    qed
    have head: "seek t (LookupKey_memtable key s) = encode_entry r # map encode_entry rs"
      using seek Cons by simp
    show ?thesis
      unfolding MemTable_Get_def head list.case encode_entry_simps GetVarint32Ptr_Encode option.case prod.case
        n8 n Let_def new
      using val tag by (cases "e_type r") (auto simp: entry_value_def type_code_def)
  qed
qed

lemma Add_rep:
  assumes rep: "mem_rep t es" and ok: "entry_ok e"
    and fresh: "\<And>x. x \<in> set es \<Longrightarrow> unat (e_seq x) < unat (e_seq e)"
  defines "es' \<equiv> takeWhile (\<lambda>x. entry_less x e) es @ e # dropWhile (\<lambda>x. entry_less x e) es"
  shows "mem_rep (MemTable_Add t (e_seq e) (e_type e) (e_key e) (e_val e)) es'"
    and "set es' = insert e (set es)"
    and "newest es' = (newest es)(e_key e \<mapsto> e)"
proof -
  have oks: "\<And>x. x \<in> set es \<Longrightarrow> entry_ok x" and sorted: "sorted_wrt entry_less es"
    and t: "t = map encode_entry es"
    using rep by (auto simp: mem_rep_def)
  have cmp: "KeyComparator (encode_entry x) (encode_entry e) < 0 \<longleftrightarrow> entry_less x e"
    if "x \<in> set es" for x
    using KeyComparator_entries [OF oks [OF that] ok] .
  have split: "takeWhile (\<lambda>x. entry_less x e) es @ dropWhile (\<lambda>x. entry_less x e) es = es" by simp
  have "takeWhile (\<lambda>x. KeyComparator (encode_entry x) (encode_entry e) < 0) es = takeWhile (\<lambda>x. entry_less x e) es"
    "dropWhile (\<lambda>x. KeyComparator (encode_entry x) (encode_entry e) < 0) es = dropWhile (\<lambda>x. entry_less x e) es"
    by (rule takeWhile_cong dropWhile_cong; simp add: cmp)+
  then have add: "MemTable_Add t (e_seq e) (e_type e) (e_key e) (e_val e) = map encode_entry es'"
    by (simp add: MemTable_Add_def ordered_insert_def encode_entry_def [symmetric] t es'_def
        takeWhile_map dropWhile_map comp_def)
  show set': "set es' = insert e (set es)"
  proof -
    have "set (takeWhile (\<lambda>x. entry_less x e) es) \<union> set (dropWhile (\<lambda>x. entry_less x e) es) = set es"
      using arg_cong [OF split, of set] by (simp only: set_append)
    then show ?thesis unfolding es'_def by auto
  qed
  have tag: "entry_tag x < entry_tag e" if "x \<in> set es" for x
    using fresh [OF that] ok by (intro tag_less) (simp_all add: entry_ok_def)
  have total: "entry_less e x" if "x \<in> set es" "\<not> entry_less x e" for x
    using tag [OF that(1)] that(2) by (auto simp: entry_less_def not_less le_less)
  have trans: "entry_less a c" if "entry_less a b" "entry_less b c" for a b c
    using that by (auto simp: entry_less_def)
  have after: "entry_less e x" if x: "x \<in> set (dropWhile (\<lambda>x. entry_less x e) es)" for x
  proof (cases "dropWhile (\<lambda>x. entry_less x e) es")
    case (Cons r rs)
    have r: "\<not> entry_less r e" "r \<in> set es"
      using Cons by (metis dropWhile_eq_Cons_conv, metis Cons list.set_intros(1) set_dropWhileD)
    have "sorted_wrt entry_less (r # rs)"
      using sorted Cons by (metis dropWhile_eq_drop sorted_wrt_drop)
    then show ?thesis using total [OF r(2,1)] x Cons trans by auto
  next
    case Nil
    then show ?thesis using x by (simp only: list.set(1) empty_iff)
  qed
  have "sorted_wrt entry_less es'"
    using sorted after unfolding es'_def
    by (subst (asm) split [symmetric])
      (auto simp: sorted_wrt_append simp del: takeWhile_dropWhile_id dest: set_takeWhileD)
  with add oks ok set' show "mem_rep (MemTable_Add t (e_seq e) (e_type e) (e_key e) (e_val e)) es'"
    by (auto simp: mem_rep_def)
  have before: "e_key x \<noteq> e_key e" if "x \<in> set (takeWhile (\<lambda>x. entry_less x e) es)" for x
    using set_takeWhileD [OF that] tag [of x] by (auto simp: entry_less_def)
  show "newest es' = (newest es)(e_key e \<mapsto> e)"
  proof
    fix k
    have fa: "find P (xs @ ys) = (case find P xs of None \<Rightarrow> find P ys | Some x \<Rightarrow> Some x)" for P and xs ys :: "entry list"
      by (induction xs) auto
    show "newest es' k = ((newest es)(e_key e \<mapsto> e)) k"
    proof (cases "k = e_key e")
      case True
      have "find (\<lambda>x. e_key x = k) (takeWhile (\<lambda>x. entry_less x e) es) = None"
        using before True by (auto simp: find_None_iff)
      then show ?thesis using True by (simp add: newest_def es'_def fa)
    next
      case False
      have "newest es k = find (\<lambda>x. e_key x = k) (takeWhile (\<lambda>x. entry_less x e) es @ dropWhile (\<lambda>x. entry_less x e) es)"
        by (simp add: newest_def)
      then show ?thesis
        using False by (auto simp: newest_def es'_def fa simp del: takeWhile_dropWhile_id split: option.splits)
    qed
  qed
qed

end
