(* ===== verification/Write_Batch.thy ===== *)
theory Write_Batch
  imports Memtable
begin

text \<open>
  Write batches (\<^verbatim>\<open>db/write_batch.cc\<close>): a byte string with an 8-byte sequence number, a
  4-byte count and the records. \<open>Iterate\<close> returns the calls it makes on its handler, in
  order, with its status; \<open>InsertInto\<close> applies them to a memtable. The lemmas show that
  iterating over a batch gives back the operations it was built from.
\<close>

section \<open>The representation\<close>

type_synonym WriteBatch = bytes

definition kHeader :: nat where
  "kHeader = 12"

definition WriteBatch_Clear :: WriteBatch where
  "WriteBatch_Clear = str_resize [] kHeader"

definition Count :: "WriteBatch \<Rightarrow> u32" where
  "Count b = DecodeFixed32 (drop 8 b)"

definition SetCount :: "WriteBatch \<Rightarrow> u32 \<Rightarrow> WriteBatch" where
  "SetCount b n = take 8 b @ EncodeFixed32 n @ drop 12 b"

definition Sequence :: "WriteBatch \<Rightarrow> u64" where
  "Sequence b = DecodeFixed64 b"

definition SetSequence :: "WriteBatch \<Rightarrow> u64 \<Rightarrow> WriteBatch" where
  "SetSequence b s = EncodeFixed64 s @ drop 8 b"

definition WriteBatch_Put :: "WriteBatch \<Rightarrow> bytes \<Rightarrow> bytes \<Rightarrow> WriteBatch" where
  "WriteBatch_Put b key v =
     PutLengthPrefixedSlice (PutLengthPrefixedSlice (SetCount b (Count b + 1) @ [1]) key) v"

definition WriteBatch_Delete :: "WriteBatch \<Rightarrow> bytes \<Rightarrow> WriteBatch" where
  "WriteBatch_Delete b key = PutLengthPrefixedSlice (SetCount b (Count b + 1) @ [0]) key"

definition WriteBatch_Append :: "WriteBatch \<Rightarrow> WriteBatch \<Rightarrow> WriteBatch" where
  "WriteBatch_Append dst src = SetCount dst (Count dst + Count src) @ drop kHeader src"

section \<open>Iteration\<close>

datatype batch_op = Batch_Put bytes bytes | Batch_Delete bytes

datatype batch_status =
    Batch_OK
  | Batch_too_small
  | Batch_bad_Put
  | Batch_bad_Delete
  | Batch_unknown_tag
  | Batch_wrong_count

lemma second_slice_shorter:
  assumes "GetLengthPrefixedSlice p = Some (k, r)" "GetLengthPrefixedSlice r = Some (v, r')"
  shows "length r' < Suc (length p)"
  using GetLengthPrefixedSlice_shorter [OF assms(1)] GetLengthPrefixedSlice_shorter [OF assms(2)] by simp

function Iterate_loop :: "bytes \<Rightarrow> nat \<Rightarrow> batch_op list \<times> (nat + batch_status)" where
  "Iterate_loop input found =
     (case input of
        [] \<Rightarrow> ([], Inl found)
      | tag # input' \<Rightarrow>
          if tag = 1 then
            (case GetLengthPrefixedSlice input' of
               None \<Rightarrow> ([], Inr Batch_bad_Put)
             | Some (key, input'') \<Rightarrow>
                 (case GetLengthPrefixedSlice input'' of
                    None \<Rightarrow> ([], Inr Batch_bad_Put)
                  | Some (v, input''') \<Rightarrow>
                      let (ops, r) = Iterate_loop input''' (Suc found) in (Batch_Put key v # ops, r)))
          else if tag = 0 then
            (case GetLengthPrefixedSlice input' of
               None \<Rightarrow> ([], Inr Batch_bad_Delete)
             | Some (key, input'') \<Rightarrow>
                 let (ops, r) = Iterate_loop input'' (Suc found) in (Batch_Delete key # ops, r))
          else ([], Inr Batch_unknown_tag))"
  by pat_completeness auto
termination
  by (relation "measure (\<lambda>(input, found). length input)")
    (auto dest: GetLengthPrefixedSlice_shorter second_slice_shorter)

declare Iterate_loop.simps [simp del]

definition Iterate :: "WriteBatch \<Rightarrow> batch_op list \<times> batch_status" where
  "Iterate b =
     (if length b < kHeader then ([], Batch_too_small)
      else
        (case Iterate_loop (drop kHeader b) 0 of
           (ops, Inr err) \<Rightarrow> (ops, err)
         | (ops, Inl found) \<Rightarrow>
             (ops, if int found \<noteq> sint (Count b) then Batch_wrong_count else Batch_OK)))"

fun Inserter :: "u64 \<Rightarrow> batch_op list \<Rightarrow> MemTable \<Rightarrow> MemTable" where
  "Inserter s [] mem = mem"
| "Inserter s (Batch_Put key v # ops) mem = Inserter (s + 1) ops (MemTable_Add mem s kTypeValue key v)"
| "Inserter s (Batch_Delete key # ops) mem = Inserter (s + 1) ops (MemTable_Add mem s kTypeDeletion key [])"

definition InsertInto :: "WriteBatch \<Rightarrow> MemTable \<Rightarrow> MemTable \<times> batch_status" where
  "InsertInto b mem = (let (ops, status) = Iterate b in (Inserter (Sequence b) ops mem, status))"

section \<open>Batches and the operations they stand for\<close>

fun encode_op :: "batch_op \<Rightarrow> bytes" where
  "encode_op (Batch_Put key v) =
     1 # PutLengthPrefixedSlice [] key @ PutLengthPrefixedSlice [] v"
| "encode_op (Batch_Delete key) = 0 # PutLengthPrefixedSlice [] key"

fun op_ok :: "batch_op \<Rightarrow> bool" where
  "op_ok (Batch_Put key v) \<longleftrightarrow> length key + 8 < 2 ^ 32 \<and> length v < 2 ^ 32"
| "op_ok (Batch_Delete key) \<longleftrightarrow> length key + 8 < 2 ^ 32"

definition batch_rep :: "WriteBatch \<Rightarrow> u64 \<Rightarrow> batch_op list \<Rightarrow> bool" where
  "batch_rep b s ops \<longleftrightarrow>
     b = EncodeFixed64 s @ EncodeFixed32 (of_nat (length ops)) @ concat (map encode_op ops) \<and>
     (\<forall>op\<in>set ops. op_ok op)"

lemma batch_Clear: "batch_rep WriteBatch_Clear 0 []"
  by (simp add: batch_rep_def WriteBatch_Clear_def kHeader_def str_resize_def EncodeFixed64_def
      EncodeFixed32_def numeral_eq_Suc)

lemma Count_rep: "batch_rep b s ops \<Longrightarrow> Count b = of_nat (length ops)"
  by (simp add: batch_rep_def Count_def)

lemma Sequence_rep: "batch_rep b s ops \<Longrightarrow> Sequence b = s"
  by (simp add: batch_rep_def Sequence_def)

lemma SetSequence_rep: "batch_rep b s ops \<Longrightarrow> batch_rep (SetSequence b s') s' ops"
  by (simp add: batch_rep_def SetSequence_def)

lemma SetCount_rep:
  "batch_rep b s ops \<Longrightarrow>
   SetCount b n = EncodeFixed64 s @ EncodeFixed32 n @ concat (map encode_op ops)"
  by (simp add: batch_rep_def SetCount_def)

lemma extend_rep:
  assumes "batch_rep b s ops" "op_ok op"
  shows "batch_rep (SetCount b (Count b + 1) @ encode_op op) s (ops @ [op])"
proof -
  have "\<forall>x\<in>set ops. op_ok x" using assms(1) by (simp add: batch_rep_def)
  then show ?thesis
    using assms(2) unfolding SetCount_rep [OF assms(1)] Count_rep [OF assms(1)]
    by (auto simp: batch_rep_def add.commute)
qed

lemma Put_rep:
  assumes "batch_rep b s ops" "op_ok (Batch_Put key v)"
  shows "batch_rep (WriteBatch_Put b key v) s (ops @ [Batch_Put key v])"
proof -
  have "WriteBatch_Put b key v = SetCount b (Count b + 1) @ encode_op (Batch_Put key v)"
    by (simp add: WriteBatch_Put_def PutLengthPrefixedSlice_def PutVarint32_def)
  then show ?thesis using extend_rep [OF assms] by (simp only:)
qed

lemma Delete_rep:
  assumes "batch_rep b s ops" "op_ok (Batch_Delete key)"
  shows "batch_rep (WriteBatch_Delete b key) s (ops @ [Batch_Delete key])"
proof -
  have "WriteBatch_Delete b key = SetCount b (Count b + 1) @ encode_op (Batch_Delete key)"
    by (simp add: WriteBatch_Delete_def PutLengthPrefixedSlice_def PutVarint32_def)
  then show ?thesis using extend_rep [OF assms] by (simp only:)
qed

lemma Append_rep:
  assumes "batch_rep b s ops" "batch_rep b' s' ops'"
  shows "batch_rep (WriteBatch_Append b b') s (ops @ ops')"
proof -
  have "Count b + Count b' = of_nat (length (ops @ ops'))"
    using Count_rep [OF assms(1)] Count_rep [OF assms(2)] by simp
  then show ?thesis
    using assms(2) assms(1) unfolding WriteBatch_Append_def
    by (simp only: SetCount_rep [OF assms(1)]) (auto simp: batch_rep_def kHeader_def)
qed

lemma Get_Put_slice:
  "length v < 2 ^ 32 \<Longrightarrow> GetLengthPrefixedSlice (PutLengthPrefixedSlice [] v @ rest) = Some (v, rest)"
  by (rule GetLengthPrefixedSlice_Put)

lemma Iterate_loop_ops:
  "\<forall>op\<in>set ops. op_ok op \<Longrightarrow>
   Iterate_loop (concat (map encode_op ops)) found = (ops, Inl (found + length ops))"
proof (induction ops arbitrary: found)
  case Nil
  then show ?case by (simp add: Iterate_loop.simps)
next
  case (Cons op ops)
  have IH: "Iterate_loop (concat (map encode_op ops)) (Suc found) = (ops, Inl (Suc found + length ops))"
    using Cons by simp
  show ?case
  proof (cases op)
    case (Batch_Put key v)
    then have "length key < 2 ^ 32" "length v < 2 ^ 32" using Cons.prems by auto
    then show ?thesis
      using IH by (simp add: Batch_Put Iterate_loop.simps [of "_ # _"] Get_Put_slice)
  next
    case (Batch_Delete key)
    then have "length key < 2 ^ 32" using Cons.prems by auto
    then show ?thesis
      using IH by (simp add: Batch_Delete Iterate_loop.simps [of "_ # _"] Get_Put_slice)
  qed
qed

lemma Iterate_rep:
  assumes "batch_rep b s ops" "length ops < 2 ^ 31"
  shows "Iterate b = (ops, Batch_OK)"
proof -
  have b: "drop kHeader b = concat (map encode_op ops)" "\<not> length b < kHeader"
    using assms(1) by (simp_all add: batch_rep_def kHeader_def)
  have "sint (of_nat (length ops) :: u32) = int (length ops)"
    using assms(2)
    by (simp add: sint_uint uint_nat unat_of_nat take_bit_nat_eq_self signed_take_bit_int_eq_self)
  then show ?thesis
    using b Count_rep [OF assms(1)] assms(1) Iterate_loop_ops [of ops 0]
    by (simp add: Iterate_def batch_rep_def)
qed

section \<open>Properties\<close>

text \<open>C24: A write batch is iterated back to the operations that were put into it, in order: adding an
  operation to a batch that represents \<open>ops\<close> and appending a second batch give batches on which
  \<^verbatim>\<open>Iterate\<close> reports exactly the operations of both and the status OK.\<close>
theorem batch_iterate_roundtrip:
  assumes "batch_rep b s ops" "batch_rep b' s' ops'" "op_ok (Batch_Put key v)" "length ops + length ops' + 2 < 2 ^ 31"
  shows "Iterate (WriteBatch_Delete (WriteBatch_Append (WriteBatch_Put b key v) b') key) =
      (ops @ [Batch_Put key v] @ ops' @ [Batch_Delete key], Batch_OK) \<and>
    Count (WriteBatch_Put b key v) = Count b + 1 \<and> Sequence (WriteBatch_Put b key v) = Sequence b"
proof -
  have d: "op_ok (Batch_Delete key)" using assms(3) by simp
  note P = Put_rep [OF assms(1,3)]
  have "batch_rep (WriteBatch_Delete (WriteBatch_Append (WriteBatch_Put b key v) b') key) s
      (((ops @ [Batch_Put key v]) @ ops') @ [Batch_Delete key])"
    by (rule Delete_rep [OF Append_rep [OF P assms(2)] d])
  then show ?thesis
    using Iterate_rep assms(4) Count_rep [OF P] Count_rep [OF assms(1)] Sequence_rep [OF P] Sequence_rep [OF assms(1)]
    by fastforce
qed

theorem batch_iterate_roundtrip_witness:
  "Iterate (WriteBatch_Delete (WriteBatch_Append (WriteBatch_Put WriteBatch_Clear [1] [2, 3]) WriteBatch_Clear) [1]) =
     ([Batch_Put [1] [2, 3], Batch_Delete [1]], Batch_OK)"
  using batch_iterate_roundtrip [OF batch_Clear batch_Clear, of "[1]" "[2, 3]"] by simp

end
