(* ===== verification/Db_Impl.thy ===== *)
theory Db_Impl
  imports Write_Batch
begin

text \<open>
  The database engine (\<^verbatim>\<open>db/db_impl.cc\<close>, with \<^verbatim>\<open>BuildTable\<close> of \<^verbatim>\<open>db/builder.cc\<close> and the
  level-0 search of \<^verbatim>\<open>db/version_set.cc\<close>): the active memtable, the immutable one that is
  being flushed, and the tables flushed before, newest first.
  \<^item> A table is the list of (internal key, value) pairs that \<^verbatim>\<open>BuildTable\<close> writes, with its
    smallest and largest key. The bytes of a table file are the matter of \<open>Table_Builder\<close> and
    \<open>Table_Reader\<close>; merging compactions and the deeper levels are not modelled.
  \<^item> The outcome of each file operation, and of each test whether the memtable is full, is
    taken from the lists \<open>db_io\<close> and \<open>db_full\<close>; when they are used up, operations
    succeed and there is room.
  \<^item> A waiting writer waits for the flush of the immutable memtable, so the wait is the
    flush; a failed flush is retried, as the code does. Here the queue of concurrent writers
    is empty when a call of \<^verbatim>\<open>Write\<close> begins; \<open>Write_Queue\<close> has the whole queue.
  \<^item> \<^verbatim>\<open>MakeRoomForWrite\<close> also delays a write for a millisecond when level 0 has many files, and stops it at
    still more until a compaction has run: with no compactions here, both triggers are left out.
  \<^item> \<^verbatim>\<open>Get\<close> gives the value or nothing: a corrupt entry, which the invariant excludes, counts as not found. Which file
    a read charges a seek to is the matter of \<open>Version_Set\<close>.
  The contract \<open>kv_store\<close> is what the adaptor relies on. Its first argument bounds the
  number of operations that may still be written before the 56-bit sequence numbers run
  out.
\<close>

section \<open>State\<close>

record Table =
  tbl_smallest :: bytes
  tbl_largest :: bytes
  tbl_contents :: "(bytes \<times> bytes) list"

record DBImpl =
  db_mem :: MemTable
  db_imm :: "MemTable option"
  db_level0 :: "Table list"
  db_last_sequence :: u64
  db_bg_error :: bool
  db_log :: "bytes list"
  db_io :: "bool list"
  db_full :: "bool list"

definition io :: "DBImpl \<Rightarrow> DBImpl \<times> bool" where
  "io db = (db\<lparr>db_io := tl (db_io db)\<rparr>, db_io db = [] \<or> hd (db_io db))"

section \<open>Flushing a memtable\<close>

definition BuildTable :: "MemTable \<Rightarrow> Table option" where
  "BuildTable mem =
     (case mem of
        [] \<Rightarrow> None
      | first # _ \<Rightarrow>
          Some \<lparr>tbl_smallest = MemTableIterator_key first,
            tbl_largest = MemTableIterator_key (last mem),
            tbl_contents = map (\<lambda>e. (MemTableIterator_key e, MemTableIterator_value e)) mem\<rparr>)"

definition CompactMemTable :: "DBImpl \<Rightarrow> DBImpl \<times> bool" where
  "CompactMemTable db =
     (case db_imm db of
        None \<Rightarrow> (db, True)
      | Some imm \<Rightarrow>
          (case io db of
             (db, False) \<Rightarrow> (db, False)
           | (db, True) \<Rightarrow>
               (db\<lparr>db_level0 := (case BuildTable imm of Some t \<Rightarrow> t # db_level0 db | None \<Rightarrow> db_level0 db),
                   db_imm := None\<rparr>, True)))"

section \<open>Writing\<close>

lemma CompactMemTable_measure:
  "CompactMemTable db = (db', r) \<Longrightarrow> db_imm db = Some m \<Longrightarrow>
   db_full db' = db_full db \<and> (db_imm db' = None \<or> length (db_io db') < length (db_io db) \<and> db_imm db' \<noteq> None)"
  by (cases "db_io db") (auto simp: CompactMemTable_def io_def split: prod.splits bool.splits if_splits)

function MakeRoomForWrite :: "DBImpl \<Rightarrow> bool \<Rightarrow> DBImpl \<times> bool" where
  "MakeRoomForWrite db force =
     (if db_bg_error db then (db, False)
      else if \<not> force \<and> (db_full db = [] \<or> \<not> hd (db_full db)) then
        (db\<lparr>db_full := tl (db_full db)\<rparr>, True)
      else
        (case db_imm db of
           Some _ \<Rightarrow> MakeRoomForWrite (fst (CompactMemTable db)) force
         | None \<Rightarrow>
             if snd (io db) then
               MakeRoomForWrite
                 ((fst (io db))\<lparr>db_log := [], db_imm := Some (db_mem db), db_mem := [],
                    db_full := (if force then db_full db else tl (db_full db))\<rparr>)
                 False
             else (fst (io db), False)))"
  by pat_completeness auto
termination
proof (relation "measures [\<lambda>(db, force). length (db_full db) + (if force then 1 else 0),
    \<lambda>(db, force). if db_imm db = None then 0 else Suc (length (db_io db))]", goal_cases)
  case (2 db force)
  then show ?case by (auto simp: io_def neq_Nil_conv)
next
  case (3 db force m)
  then show ?case
    using CompactMemTable_measure [of db "fst (CompactMemTable db)" "snd (CompactMemTable db)" m]
    by (auto split: if_splits)
qed auto

declare MakeRoomForWrite.simps [simp del]

record WriteOptions =
  wo_sync :: bool
  wo_writeahead :: bool

definition log_batch :: "DBImpl \<Rightarrow> WriteOptions \<Rightarrow> WriteBatch \<Rightarrow> DBImpl \<times> bool" where
  "log_batch db options updates =
     (if wo_writeahead options then
        (case io db of
           (db, False) \<Rightarrow> (db, False)
         | (db, True) \<Rightarrow>
             let db = db\<lparr>db_log := db_log db @ [updates]\<rparr>
             in if wo_sync options then io db else (db, True))
      else (db, True))"

definition DBImpl_Write :: "DBImpl \<Rightarrow> WriteOptions \<Rightarrow> WriteBatch \<Rightarrow> DBImpl \<times> bool" where
  "DBImpl_Write db options my_batch =
     (case MakeRoomForWrite db False of
        (db, False) \<Rightarrow> (db, False)
      | (db, True) \<Rightarrow>
          let last_sequence = db_last_sequence db;
              updates = SetSequence my_batch (last_sequence + 1);
              last_sequence = last_sequence + scast (Count updates);
              (db, status) = log_batch db options updates;
              (db, status) =
                (if status then
                   (let (mem, st) = InsertInto updates (db_mem db)
                    in (db\<lparr>db_mem := mem\<rparr>, st = Batch_OK))
                 else (db, status))
          in (db\<lparr>db_last_sequence := last_sequence\<rparr>, status))"

definition DB_Put :: "DBImpl \<Rightarrow> WriteOptions \<Rightarrow> bytes \<Rightarrow> bytes \<Rightarrow> DBImpl \<times> bool" where
  "DB_Put db opt key v = (let batch = WriteBatch_Put WriteBatch_Clear key v in DBImpl_Write db opt batch)"

definition DB_Delete :: "DBImpl \<Rightarrow> WriteOptions \<Rightarrow> bytes \<Rightarrow> DBImpl \<times> bool" where
  "DB_Delete db opt key = (let batch = WriteBatch_Delete WriteBatch_Clear key in DBImpl_Write db opt batch)"

section \<open>Reading\<close>

datatype SaverState = kNotFound | kFound bytes | kDeleted | kCorrupt

definition SaveValue :: "bytes \<Rightarrow> bytes \<Rightarrow> bytes \<Rightarrow> SaverState" where
  "SaveValue user_key ikey v =
     (case ParseInternalKey ikey of
        None \<Rightarrow> kCorrupt
      | Some parsed_key \<Rightarrow>
          if Slice_compare (pk_user_key parsed_key) user_key = 0 then
            (if pk_type parsed_key = kTypeValue then kFound v else kDeleted)
          else kNotFound)"

definition Table_Get :: "Table \<Rightarrow> bytes \<Rightarrow> bytes \<Rightarrow> SaverState" where
  "Table_Get t ikey user_key =
     (case dropWhile (\<lambda>(k, v). InternalKey_Compare k ikey < 0) (tbl_contents t) of
        [] \<Rightarrow> kNotFound
      | (k, v) # _ \<Rightarrow> SaveValue user_key k v)"

fun Version_Get :: "Table list \<Rightarrow> bytes \<Rightarrow> bytes \<Rightarrow> bytes option" where
  "Version_Get [] ikey user_key = None"
| "Version_Get (f # files) ikey user_key =
     (if Slice_compare user_key (ExtractUserKey (tbl_smallest f)) \<ge> 0 \<and>
         Slice_compare user_key (ExtractUserKey (tbl_largest f)) \<le> 0
      then
        (case Table_Get f ikey user_key of
           kNotFound \<Rightarrow> Version_Get files ikey user_key
         | kFound v \<Rightarrow> Some v
         | kDeleted \<Rightarrow> None
         | kCorrupt \<Rightarrow> None)
      else Version_Get files ikey user_key)"

definition DBImpl_Get :: "DBImpl \<Rightarrow> u64 option \<Rightarrow> bytes \<Rightarrow> bytes option" where
  "DBImpl_Get db snapshot_opt key =
     (let snapshot = (case snapshot_opt of Some s \<Rightarrow> s | None \<Rightarrow> db_last_sequence db)
      in case MemTable_Get (db_mem db) key snapshot of
           Some r \<Rightarrow> r
         | None \<Rightarrow>
             (case (case db_imm db of Some imm \<Rightarrow> MemTable_Get imm key snapshot | None \<Rightarrow> None) of
                Some r \<Rightarrow> r
              | None \<Rightarrow> Version_Get (db_level0 db) (LookupKey_internal key snapshot) key))"

section \<open>The contents of the database\<close>

definition table_rep :: "Table \<Rightarrow> entry list \<Rightarrow> bool" where
  "table_rep t es \<longleftrightarrow>
     es \<noteq> [] \<and> sorted_wrt entry_less es \<and> (\<forall>e\<in>set es. entry_ok e) \<and>
     tbl_contents t = map (\<lambda>e. (InternalKey (e_key e) (e_seq e) (e_type e), e_val e)) es \<and>
     ExtractUserKey (tbl_smallest t) = e_key (hd es) \<and> ExtractUserKey (tbl_largest t) = e_key (last es)"

definition newer :: "entry list \<Rightarrow> entry list \<Rightarrow> bool" where
  "newer as bs \<longleftrightarrow> (\<forall>a\<in>set as. \<forall>b\<in>set bs. unat (e_seq b) < unat (e_seq a))"

definition parts :: "entry list \<Rightarrow> entry list option \<Rightarrow> entry list list \<Rightarrow> entry list list" where
  "parts m i ts = m # (case i of None \<Rightarrow> [] | Some x \<Rightarrow> [x]) @ ts"

definition db_rep :: "DBImpl \<Rightarrow> entry list \<Rightarrow> entry list option \<Rightarrow> entry list list \<Rightarrow> bool" where
  "db_rep db m i ts \<longleftrightarrow>
     mem_rep (db_mem db) m \<and> rel_option mem_rep (db_imm db) i \<and> list_all2 table_rep (db_level0 db) ts \<and>
     (\<forall>es\<in>set (parts m i ts). \<forall>e\<in>set es. unat (e_seq e) \<le> unat (db_last_sequence db)) \<and>
     sorted_wrt newer (parts m i ts)"

fun first_newest :: "entry list list \<Rightarrow> bytes \<Rightarrow> entry option" where
  "first_newest [] key = None"
| "first_newest (es # ess) key =
     (case newest es key of Some e \<Rightarrow> Some e | None \<Rightarrow> first_newest ess key)"

definition db_lookup :: "DBImpl \<Rightarrow> bytes \<Rightarrow> bytes option" where
  "db_lookup db key = (if length key + 8 < 2 ^ 32 then DBImpl_Get db None key else None)"

definition db_ok :: "nat \<Rightarrow> DBImpl \<Rightarrow> bool" where
  "db_ok n db \<longleftrightarrow>
     (\<exists>m i ts. db_rep db m i ts) \<and> unat (db_last_sequence db) + n < 2 ^ 56 \<and>
     \<not> db_bg_error db \<and> set (db_io db) \<subseteq> {True}"

lemma BuildTable_rep:
  assumes "mem_rep t es"
  shows "BuildTable t = None \<longleftrightarrow> es = []" and "BuildTable t = Some tbl \<Longrightarrow> table_rep tbl es"
proof -
  have t: "t = map encode_entry es" and ok: "\<forall>e\<in>set es. entry_ok e" and sorted: "sorted_wrt entry_less es"
    using assms by (auto simp: mem_rep_def)
  show "BuildTable t = None \<longleftrightarrow> es = []" by (cases es) (simp_all add: BuildTable_def t)
  assume tbl: "BuildTable t = Some tbl"
  then have "es \<noteq> []" by (auto simp: BuildTable_def t)
  then show "table_rep tbl es"
    using tbl ok sorted by (cases es)
      (auto simp: BuildTable_def t table_rep_def Iterator_entry last_map InternalKey_simps comp_def)
qed

lemma Table_Get_rep:
  assumes rep: "table_rep t es" and snap: "unat s < 2 ^ 56" "\<And>e. e \<in> set es \<Longrightarrow> unat (e_seq e) \<le> unat s"
  shows "Table_Get t (LookupKey_internal key s) key =
    (case newest es key of None \<Rightarrow> kNotFound
     | Some e \<Rightarrow> (case entry_value e of Some v \<Rightarrow> kFound v | None \<Rightarrow> kDeleted))"
proof -
  have sorted: "sorted_wrt entry_less es" and ok: "\<And>e. e \<in> set es \<Longrightarrow> entry_ok e"
    and t: "tbl_contents t = map (\<lambda>e. (InternalKey (e_key e) (e_seq e) (e_type e), e_val e)) es"
    using rep by (auto simp: table_rep_def)
  have cmp: "InternalKey_Compare (InternalKey (e_key e) (e_seq e) (e_type e)) (LookupKey_internal key s) < 0 \<longleftrightarrow>
      e_key e < key" if "e \<in> set es" for e
    using tag_seek_le [OF snap(2) [OF that] snap(1)]
    by (auto simp: InternalKey_Compare_neg InternalKey_simps LookupKey_internal_def)
  have "dropWhile (\<lambda>(k, v). InternalKey_Compare k (LookupKey_internal key s) < 0) (tbl_contents t) =
      map (\<lambda>e. (InternalKey (e_key e) (e_seq e) (e_type e), e_val e)) (dropWhile (\<lambda>e. e_key e < key) es)"
    unfolding t dropWhile_map comp_def prod.case
    by (rule arg_cong [where f = "map _"], rule dropWhile_cong) (simp_all add: cmp)
  note seek = this
  show ?thesis
  proof (cases "dropWhile (\<lambda>e. e_key e < key) es")
    case Nil
    show ?thesis unfolding Table_Get_def seek newest_seek [OF sorted, of key] Nil by simp
  next
    case (Cons r rs)
    have "unat (e_seq r) < 2 ^ 56" using ok [OF dropWhile_in [OF Cons]] by (simp add: entry_ok_def)
    then show ?thesis
      unfolding Table_Get_def seek newest_seek [OF sorted, of key] Cons
      by (cases "e_type r") (simp_all add: SaveValue_def Parse_InternalKey entry_value_def)
  qed
qed

lemma out_of_range:
  assumes "table_rep t es"
    and "\<not> (Slice_compare key (ExtractUserKey (tbl_smallest t)) \<ge> 0 \<and>
            Slice_compare key (ExtractUserKey (tbl_largest t)) \<le> 0)"
  shows "newest es key = None"
proof -
  have es: "es \<noteq> []" "sorted_wrt entry_less es" and r: "ExtractUserKey (tbl_smallest t) = e_key (hd es)"
      "ExtractUserKey (tbl_largest t) = e_key (last es)"
    using assms(1) by (auto simp: table_rep_def)
  have "e_key (hd es) \<le> e_key e \<and> e_key e \<le> e_key (last es)" if e: "e \<in> set es" for e
  proof -
    have "sorted_wrt (\<lambda>a b. e_key a \<le> e_key b) es"
      by (rule sorted_wrt_mono_rel [OF _ es(2)]) (auto simp: entry_less_def)
    then have s: "sorted (map e_key es)" by (simp add: sorted_wrt_map)
    obtain i where i: "i < length es" "es ! i = e" using e by (auto simp: in_set_conv_nth)
    have "e_key (es ! 0) \<le> e_key e" "e_key e \<le> e_key (es ! (length es - 1))"
      using sorted_nth_mono [OF s, of 0 i] sorted_nth_mono [OF s, of i "length es - 1"] i es(1) by auto
    then show ?thesis using es(1) by (simp add: hd_conv_nth last_conv_nth)
  qed
  moreover have "key < e_key (hd es) \<or> e_key (last es) < key"
    using assms(2) Slice_compare_neg [of key "e_key (hd es)"] Slice_compare_pos [of key "e_key (last es)"]
    unfolding r by linarith
  ultimately show ?thesis by (fastforce simp: newest_def find_None_iff)
qed

lemma Version_Get_rep:
  assumes "list_all2 table_rep files ts" "unat s < 2 ^ 56"
    and "\<And>es e. es \<in> set ts \<Longrightarrow> e \<in> set es \<Longrightarrow> unat (e_seq e) \<le> unat s"
  shows "Version_Get files (LookupKey_internal key s) key = Option.bind (first_newest ts key) entry_value"
  using assms
proof (induction files ts rule: list_all2_induct)
  case (Cons f files es ts)
  have IH: "Version_Get files (LookupKey_internal key s) key = Option.bind (first_newest ts key) entry_value"
    by (rule Cons.IH [OF Cons.prems(1)]) (use Cons.prems(2) in auto)
  show ?case
  proof (cases "Slice_compare key (ExtractUserKey (tbl_smallest f)) \<ge> 0 \<and>
      Slice_compare key (ExtractUserKey (tbl_largest f)) \<le> 0")
    case True
    have "Table_Get f (LookupKey_internal key s) key =
      (case newest es key of None \<Rightarrow> kNotFound
       | Some e \<Rightarrow> (case entry_value e of Some v \<Rightarrow> kFound v | None \<Rightarrow> kDeleted))"
      using Cons by (intro Table_Get_rep) auto
    then show ?thesis using True IH by (auto split: option.splits)
  next
    case False
    then show ?thesis using IH out_of_range [OF Cons.hyps(1) False] by auto
  qed
qed simp

lemma DBImpl_Get_rep:
  assumes rep: "db_rep db m i ts" and key: "length key + 8 < 2 ^ 32"
    and last: "unat (db_last_sequence db) < 2 ^ 56"
  shows "db_lookup db key = Option.bind (first_newest (parts m i ts) key) entry_value"
proof -
  let ?s = "db_last_sequence db"
  have R: "mem_rep (db_mem db) m" "rel_option mem_rep (db_imm db) i" "list_all2 table_rep (db_level0 db) ts"
    "\<And>es e. es \<in> set (parts m i ts) \<Longrightarrow> e \<in> set es \<Longrightarrow> unat (e_seq e) \<le> unat ?s"
    using rep by (auto simp: db_rep_def)
  have in_parts: "m \<in> set (parts m i ts)" "set ts \<subseteq> set (parts m i ts)"
    by (auto simp: parts_def)
  have m: "MemTable_Get (db_mem db) key ?s = map_option entry_value (newest m key)"
    using MemTable_Get_newest [OF R(1) key last] R(4) [OF in_parts(1)] by blast
  have v: "Version_Get (db_level0 db) (LookupKey_internal key ?s) key = Option.bind (first_newest ts key) entry_value"
    using Version_Get_rep [OF R(3) last] R(4) in_parts(2) by blast
  show ?thesis
  proof (cases i)
    case None
    then have "db_imm db = None" using R(2) by (cases "db_imm db") auto
    then show ?thesis
      using m v None key by (auto simp: db_lookup_def DBImpl_Get_def parts_def split: option.splits)
  next
    case (Some x)
    then obtain imm where imm: "db_imm db = Some imm" "mem_rep imm x" using R(2) by (cases "db_imm db") auto
    have "x \<in> set (parts m i ts)" by (simp add: parts_def Some)
    then have "MemTable_Get imm key ?s = map_option entry_value (newest x key)"
      using MemTable_Get_newest [OF imm(2) key last] R(4) by blast
    then show ?thesis
      using m v Some imm key by (auto simp: db_lookup_def DBImpl_Get_def parts_def split: option.splits)
  qed
qed

section \<open>Writes and the contents\<close>

fun apply_op :: "batch_op \<Rightarrow> (bytes \<rightharpoonup> bytes) \<Rightarrow> (bytes \<rightharpoonup> bytes)" where
  "apply_op (Batch_Put key v) m = m(key \<mapsto> v)"
| "apply_op (Batch_Delete key) m = m(key := None)"

definition apply_ops :: "batch_op list \<Rightarrow> (bytes \<rightharpoonup> bytes) \<Rightarrow> (bytes \<rightharpoonup> bytes)" where
  "apply_ops ops m = fold apply_op ops m"

lemma apply_ops_local: "m1 key = m2 key \<Longrightarrow> apply_ops ops m1 key = apply_ops ops m2 key"
proof (induction ops arbitrary: m1 m2)
  case (Cons op ops)
  have "apply_op op m1 key = apply_op op m2 key" using Cons.prems by (cases op) auto
  then show ?case using Cons.IH [of "apply_op op m1" "apply_op op m2"] by (simp add: apply_ops_def)
qed (simp add: apply_ops_def)

lemma apply_ops_outside:
  "(\<And>op. op \<in> set ops \<Longrightarrow> op_ok op) \<Longrightarrow> \<not> length key + 8 < 2 ^ 32 \<Longrightarrow> apply_ops ops m key = m key"
proof (induction ops arbitrary: m)
  case (Cons op ops)
  have "apply_op op m key = m key" using Cons.prems(1) [of op] Cons.prems(2) by (cases op) auto
  then show ?case using Cons.IH [of "apply_op op m"] Cons.prems by (simp add: apply_ops_def)
qed (simp add: apply_ops_def)

definition contents :: "entry list list \<Rightarrow> bytes \<Rightarrow> bytes option" where
  "contents ess key = Option.bind (first_newest ess key) entry_value"

lemma contents_Nil: "contents ([] # ess) = contents ess"
  by (simp add: contents_def newest_def fun_eq_iff)

lemma contents_newest:
  "newest es' = (newest es)(e_key e \<mapsto> e) \<Longrightarrow> contents (es' # rest) = (contents (es # rest))(e_key e := entry_value e)"
  by (auto simp: contents_def fun_eq_iff)

lemma Inserter_rep:
  assumes "mem_rep t es" "\<forall>op\<in>set ops. op_ok op" "unat s + length ops \<le> 2 ^ 56"
    and "\<And>e. e \<in> set es \<Longrightarrow> unat (e_seq e) < unat s"
  shows "\<exists>es'. mem_rep (Inserter s ops t) es' \<and>
    (\<forall>e\<in>set es'. e \<in> set es \<or> unat s \<le> unat (e_seq e) \<and> unat (e_seq e) < unat s + length ops) \<and>
    (\<forall>rest. contents (es' # rest) = apply_ops ops (contents (es # rest)))"
  using assms
proof (induction ops arbitrary: t es s)
  case Nil
  then show ?case by (auto simp: apply_ops_def)
next
  case (Cons op ops)
  have lt: "unat s < 2 ^ 56" using Cons.prems(3) by simp
  then have suc: "unat (s + 1) = unat s + 1" by (simp add: unat_word_ariths)
  define e where "e = (case op of
      Batch_Put key v \<Rightarrow> \<lparr>e_key = key, e_seq = s, e_type = kTypeValue, e_val = v\<rparr>
    | Batch_Delete key \<Rightarrow> \<lparr>e_key = key, e_seq = s, e_type = kTypeDeletion, e_val = []\<rparr>)"
  have ins: "Inserter s (op # ops) t =
      Inserter (s + 1) ops (MemTable_Add t (e_seq e) (e_type e) (e_key e) (e_val e))"
    by (cases op) (simp_all add: e_def)
  have seq: "e_seq e = s" by (cases op) (simp_all add: e_def)
  have ok: "entry_ok e" using Cons.prems(2) lt by (cases op) (auto simp: e_def entry_ok_def)
  have upd: "apply_op op m = m(e_key e := entry_value e)" for m
    by (cases op) (simp_all add: e_def entry_value_def)
  define es1 where "es1 = takeWhile (\<lambda>x. entry_less x e) es @ e # dropWhile (\<lambda>x. entry_less x e) es"
  have fresh: "\<And>x. x \<in> set es \<Longrightarrow> unat (e_seq x) < unat (e_seq e)" using Cons.prems(4) seq by simp
  note A = Add_rep [OF Cons.prems(1) ok fresh, folded es1_def]
  have "\<And>x. x \<in> set es1 \<Longrightarrow> unat (e_seq x) < unat (s + 1)"
    using A(2) seq suc Cons.prems(4) by (auto simp: less_Suc_eq)
  moreover have "\<forall>op\<in>set ops. op_ok op" "unat (s + 1) + length ops \<le> 2 ^ 56"
    using Cons.prems(2,3) suc by auto
  ultimately obtain es' where es': "mem_rep (Inserter (s + 1) ops
        (MemTable_Add t (e_seq e) (e_type e) (e_key e) (e_val e))) es'"
      "\<forall>x\<in>set es'. x \<in> set es1 \<or> unat (s + 1) \<le> unat (e_seq x) \<and> unat (e_seq x) < unat (s + 1) + length ops"
      "\<forall>rest. contents (es' # rest) = apply_ops ops (contents (es1 # rest))"
    using Cons.IH [OF A(1)] by blast
  have "contents (es' # rest) = apply_ops (op # ops) (contents (es # rest))" for rest
    using es'(3) contents_newest [OF A(3), of rest] by (simp add: apply_ops_def upd)
  moreover have "x \<in> set es \<or> unat s \<le> unat (e_seq x) \<and> unat (e_seq x) < unat s + length (op # ops)"
    if "x \<in> set es'" for x
    using es'(2) that A(2) seq suc by fastforce
  ultimately show ?case using es'(1) ins by auto
qed

definition healthy :: "DBImpl \<Rightarrow> bool" where
  "healthy db \<longleftrightarrow> \<not> db_bg_error db \<and> set (db_io db) \<subseteq> {True}"

lemma healthy_io: "healthy db \<Longrightarrow> snd (io db) \<and> healthy (fst (io db))"
  by (cases "db_io db") (auto simp: healthy_def io_def)

lemma db_rep_io: "db_rep (fst (io db)) m i ts = db_rep db m i ts"
  by (simp add: io_def db_rep_def)

lemma CompactMemTable_ok:
  assumes rep: "db_rep db m i ts" and h: "healthy db" and imm: "db_imm db = Some imm"
  shows "\<exists>ts'. db_rep (fst (CompactMemTable db)) m None ts' \<and> healthy (fst (CompactMemTable db)) \<and>
    db_imm (fst (CompactMemTable db)) = None \<and>
    db_last_sequence (fst (CompactMemTable db)) = db_last_sequence db \<and>
    contents (parts m None ts') = contents (parts m i ts)"
proof -
  obtain x where x: "i = Some x" "mem_rep imm x"
    using rep imm by (cases i) (auto simp: db_rep_def)
  let ?db = "fst (io db)"
  let ?l0 = "case BuildTable imm of Some t \<Rightarrow> t # db_level0 ?db | None \<Rightarrow> db_level0 ?db"
  have C: "fst (CompactMemTable db) = ?db\<lparr>db_level0 := ?l0, db_imm := None\<rparr>"
    using healthy_io [OF h] by (cases "BuildTable imm") (simp_all add: CompactMemTable_def imm io_def)
  have R: "db_rep ?db m i ts" using rep by (simp add: db_rep_io)
  have h': "healthy (?db\<lparr>db_level0 := ?l0, db_imm := None\<rparr>)"
    using healthy_io [OF h] by (simp add: healthy_def)
  show ?thesis
  proof (cases "BuildTable imm")
    case None
    then have "x = []" using BuildTable_rep(1) [OF x(2)] by simp
    then have "contents (parts m None ts) = contents (parts m i ts)"
      by (auto simp: parts_def x contents_def fun_eq_iff newest_def split: option.split)
    moreover have "db_rep (fst (CompactMemTable db)) m None ts"
      using R None \<open>x = []\<close> unfolding C by (auto simp: db_rep_def parts_def x)
    ultimately show ?thesis using h' C by (intro exI [of _ ts]) (simp add: io_def)
  next
    case (Some t)
    have "contents (parts m None (x # ts)) = contents (parts m i ts)" by (simp add: parts_def x)
    moreover have "db_rep (fst (CompactMemTable db)) m None (x # ts)"
      using R Some BuildTable_rep(2) [OF x(2) Some] unfolding C
      by (auto simp: db_rep_def parts_def x)
    ultimately show ?thesis using h' C by (intro exI [of _ "x # ts"]) (simp add: io_def)
  qed
qed

lemma MakeRoomForWrite_ok:
  assumes "db_rep db m i ts" "healthy db"
  shows "\<exists>db' m' i' ts'. MakeRoomForWrite db force = (db', True) \<and> db_rep db' m' i' ts' \<and> healthy db' \<and>
    db_last_sequence db' = db_last_sequence db \<and> contents (parts m' i' ts') = contents (parts m i ts)"
  using assms
proof (induction db force arbitrary: m i ts rule: MakeRoomForWrite.induct)
  case (1 db force)
  have bg: "\<not> db_bg_error db" using "1.prems"(2) by (simp add: healthy_def)
  show ?case
  proof (cases "\<not> force \<and> (db_full db = [] \<or> \<not> hd (db_full db))")
    case True
    have "db_rep (db\<lparr>db_full := tl (db_full db)\<rparr>) m i ts" "healthy (db\<lparr>db_full := tl (db_full db)\<rparr>)"
      using "1.prems" by (simp_all add: db_rep_def healthy_def)
    then show ?thesis using True bg by (subst MakeRoomForWrite.simps) force
  next
    case False
    show ?thesis
    proof (cases "db_imm db")
      case (Some imm)
      obtain ts' where C: "db_rep (fst (CompactMemTable db)) m None ts'" "healthy (fst (CompactMemTable db))"
        "db_last_sequence (fst (CompactMemTable db)) = db_last_sequence db"
        "contents (parts m None ts') = contents (parts m i ts)"
        using CompactMemTable_ok [OF "1.prems" Some] by blast
      then show ?thesis
        using "1.IH"(2) [OF bg False Some C(1,2)] bg False Some
        by (subst MakeRoomForWrite.simps) (simp, blast)
    next
      case None
      then have i: "i = None" using "1.prems"(1) by (cases i) (auto simp: db_rep_def)
      let ?db = "(fst (io db))\<lparr>db_log := [], db_imm := Some (db_mem db), db_mem := [],
        db_full := (if force then db_full db else tl (db_full db))\<rparr>"
      have ok: "snd (io db)" "healthy ?db"
        using healthy_io [OF "1.prems"(2)] by (simp_all add: healthy_def)
      have "db_rep ?db [] (Some m) ts"
        using "1.prems"(1) by (auto simp: db_rep_def parts_def i io_def mem_rep_def newer_def)
      moreover have "contents (parts [] (Some m) ts) = contents (parts m i ts)"
        by (simp add: parts_def i contents_Nil)
      moreover have "db_last_sequence ?db = db_last_sequence db" by (simp add: io_def)
      moreover obtain db' m' i' ts' where "MakeRoomForWrite ?db False = (db', True)" "db_rep db' m' i' ts'"
        "healthy db'" "db_last_sequence db' = db_last_sequence ?db"
        "contents (parts m' i' ts') = contents (parts [] (Some m) ts)"
        using "1.IH"(1) [OF bg False None ok(1) calculation(1) ok(2)] by blast
      moreover have "MakeRoomForWrite db force = MakeRoomForWrite ?db False"
        using bg False None ok(1) by (subst MakeRoomForWrite.simps) (auto split: if_splits)
      ultimately show ?thesis by metis
    qed
  qed
qed

lemma log_batch_ok:
  assumes h: "healthy db"
  shows "\<exists>rs log. log_batch db options updates = (db\<lparr>db_io := rs, db_log := log\<rparr>, True) \<and> set rs \<subseteq> {True}"
proof (cases "wo_writeahead options")
  case False
  then have "log_batch db options updates = (db\<lparr>db_io := db_io db, db_log := db_log db\<rparr>, True)"
    by (simp add: log_batch_def)
  then show ?thesis using h unfolding healthy_def by blast
next
  case True
  have 1: "db_io db = [] \<or> hd (db_io db)" "set (tl (db_io db)) \<subseteq> {True}"
    using h by (cases "db_io db"; auto simp: healthy_def)+
  then have 2: "tl (db_io db) = [] \<or> hd (tl (db_io db))" "set (tl (tl (db_io db))) \<subseteq> {True}"
    by (cases "tl (db_io db)"; auto)+
  show ?thesis
  proof (cases "wo_sync options")
    case sync: True
    have "log_batch db options updates =
        (db\<lparr>db_io := tl (tl (db_io db)), db_log := db_log db @ [updates]\<rparr>, True)"
      using True sync 1(1) 2(1) by (simp add: log_batch_def io_def)
    then show ?thesis using 2(2) by blast
  next
    case False
    then have "log_batch db options updates = (db\<lparr>db_io := tl (db_io db), db_log := db_log db @ [updates]\<rparr>, True)"
      using True 1(1) by (simp add: log_batch_def io_def)
    then show ?thesis using 1(2) by blast
  qed
qed

lemma Insert_rep:
  assumes R: "db_rep db m i ts" and keys: "\<forall>op\<in>set ops. op_ok op"
    and room: "unat (db_last_sequence db) + length ops < 2 ^ 56"
  defines "l \<equiv> db_last_sequence db"
  shows "\<exists>m'. db_rep (db\<lparr>db_mem := Inserter (l + 1) ops (db_mem db), db_last_sequence := l + of_nat (length ops)\<rparr>) m' i ts \<and>
    contents (parts m' i ts) = apply_ops ops (contents (parts m i ts)) \<and>
    unat (l + of_nat (length ops)) = unat l + length ops"
proof -
  have "unat l + 1 < 2 ^ 64" using room by (simp add: l_def)
  then have l1: "unat (l + 1) = unat l + 1" by (simp add: unat_word_ariths)
  have seqs: "\<And>es e. es \<in> set (parts m i ts) \<Longrightarrow> e \<in> set es \<Longrightarrow> unat (e_seq e) \<le> unat l"
    using R by (auto simp: db_rep_def l_def)
  have memrep: "mem_rep (db_mem db) m" using R by (simp add: db_rep_def)
  have m_in: "m \<in> set (parts m i ts)" by (simp add: parts_def)
  obtain m' where m': "mem_rep (Inserter (l + 1) ops (db_mem db)) m'"
    "\<forall>e\<in>set m'. e \<in> set m \<or> unat (l + 1) \<le> unat (e_seq e) \<and> unat (e_seq e) < unat (l + 1) + length ops"
    "\<forall>rest. contents (m' # rest) = apply_ops ops (contents (m # rest))"
    using Inserter_rep [OF memrep, of ops "l + 1"] keys seqs [OF m_in] l1 room by (fastforce simp: l_def)
  define l' where "l' = l + of_nat (length ops)"
  have "unat l + length ops < 2 ^ 64" using room by (simp add: l_def)
  then have l': "unat l' = unat l + length ops"
    by (simp add: l'_def unat_word_ariths unat_of_nat take_bit_nat_eq_self)
  define older where "older = (case i of None \<Rightarrow> [] | Some x \<Rightarrow> [x]) @ ts"
  have parts: "parts x i ts = x # older" for x by (simp add: parts_def older_def)
  have bound: "unat (e_seq e) \<le> unat l'" if "es \<in> set (parts m' i ts)" "e \<in> set es" for es e
  proof (cases "es = m'")
    case True
    then have "e \<in> set m \<or> unat (e_seq e) < unat (l + 1) + length ops" using m'(2) that(2) by blast
    then show ?thesis using seqs [OF m_in, of e] l' l1 by linarith
  next
    case False
    then have "es \<in> set (parts m i ts)" using that(1) by (simp add: parts_def)
    then show ?thesis using seqs [OF _ that(2)] l' by fastforce
  qed
  have "newer m' es" if "es \<in> set older" for es
    unfolding newer_def
  proof (intro ballI)
    fix a b assume a: "a \<in> set m'" and b: "b \<in> set es"
    have es: "es \<in> set (parts m i ts)" using that by (simp add: parts)
    have "sorted_wrt newer (parts m i ts)" using R by (simp add: db_rep_def)
    then have "newer m es" using that unfolding parts by simp
    then have "a \<in> set m \<Longrightarrow> unat (e_seq b) < unat (e_seq a)" using b unfolding newer_def by blast
    moreover have "a \<in> set m \<or> unat (l + 1) \<le> unat (e_seq a)" using m'(2) a by blast
    ultimately show "unat (e_seq b) < unat (e_seq a)"
      using seqs [OF es b] l1 by linarith
  qed
  then have "sorted_wrt newer (parts m' i ts)"
    using R unfolding db_rep_def parts by auto
  then have "db_rep (db\<lparr>db_mem := Inserter (l + 1) ops (db_mem db), db_last_sequence := l'\<rparr>) m' i ts"
    using R m'(1) bound unfolding db_rep_def by auto
  moreover have "contents (parts m' i ts) = apply_ops ops (contents (parts m i ts))"
    using m'(3) by (simp add: parts)
  ultimately show ?thesis using l' unfolding l'_def by blast
qed

lemma InsertInto_rep:
  assumes "batch_rep b s ops" "length ops < 2 ^ 31"
  shows "InsertInto b mem = (Inserter s ops mem, Batch_OK)" "(scast (Count b) :: u64) = of_nat (length ops)"
proof -
  have "sint (Count b) = int (length ops)"
    using assms(2) Count_rep [OF assms(1)]
    by (simp add: sint_uint uint_nat unat_of_nat take_bit_nat_eq_self signed_take_bit_int_eq_self)
  then show "(scast (Count b) :: u64) = of_nat (length ops)" by (simp add: scast_eq)
qed (simp add: InsertInto_def Iterate_rep [OF assms] Sequence_rep [OF assms(1)])

lemma DBImpl_Write_ok:
  assumes ok: "db_ok (n + length ops) db" and batch: "batch_rep b s ops" and small: "length ops < 2 ^ 31"
    and keys: "\<And>op. op \<in> set ops \<Longrightarrow> op_ok op"
  shows "\<exists>db'. DBImpl_Write db opt b = (db', True) \<and> db_ok n db' \<and>
    db_lookup db' = apply_ops ops (db_lookup db)"
proof -
  obtain m0 i0 ts0 where R0: "db_rep db m0 i0 ts0" and h0: "healthy db"
    and room: "unat (db_last_sequence db) + (n + length ops) < 2 ^ 56"
    using ok by (auto simp: db_ok_def healthy_def)
  obtain db1 m i ts where M: "MakeRoomForWrite db False = (db1, True)" and R: "db_rep db1 m i ts"
    and h: "healthy db1" and last: "db_last_sequence db1 = db_last_sequence db"
    and same: "contents (parts m i ts) = contents (parts m0 i0 ts0)"
    using MakeRoomForWrite_ok [OF R0 h0, of False] by blast
  let ?l = "db_last_sequence db"
  define updates where "updates = SetSequence b (?l + 1)"
  note ins = InsertInto_rep [OF SetSequence_rep [OF batch] small, of "?l + 1", folded updates_def]
  define l' where "l' = ?l + of_nat (length ops)"
  obtain m' where m': "db_rep (db1\<lparr>db_mem := Inserter (?l + 1) ops (db_mem db1), db_last_sequence := l'\<rparr>) m' i ts"
    "contents (parts m' i ts) = apply_ops ops (contents (parts m i ts))" "unat l' = unat ?l + length ops"
    using Insert_rep [OF R, of ops] keys room unfolding last l'_def by auto
  obtain rs log where L: "log_batch db1 opt updates = (db1\<lparr>db_io := rs, db_log := log\<rparr>, True)"
    and rs: "set rs \<subseteq> {True}" using log_batch_ok [OF h] by blast
  let ?db = "db1\<lparr>db_io := rs, db_log := log, db_mem := Inserter (?l + 1) ops (db_mem db1), db_last_sequence := l'\<rparr>"
  have W: "DBImpl_Write db opt b = (?db, True)"
    unfolding DBImpl_Write_def M
    by (simp add: last updates_def [symmetric] Let_def ins l'_def [symmetric] L)
  have rep': "db_rep ?db m' i ts" using m'(1) by (simp add: db_rep_def)
  have "db_ok n ?db"
    using rep' rs h m'(3) room unfolding db_ok_def healthy_def by auto
  moreover have "db_lookup ?db key = apply_ops ops (db_lookup db) key" for key
  proof (cases "length key + 8 < 2 ^ 32")
    case True
    have "db_lookup ?db key = contents (parts m' i ts) key"
      using DBImpl_Get_rep [OF rep' True] m'(3) room by (simp add: contents_def)
    also have "\<dots> = apply_ops ops (contents (parts m0 i0 ts0)) key" by (simp add: m'(2) same)
    finally have 1: "db_lookup ?db key = apply_ops ops (contents (parts m0 i0 ts0)) key" .
    have 2: "contents (parts m0 i0 ts0) key = db_lookup db key"
      using DBImpl_Get_rep [OF R0 True] room by (simp add: contents_def)
    show ?thesis unfolding 1 using 2 by (intro apply_ops_local)
  next
    case False
    then show ?thesis using apply_ops_outside [OF keys False, of ops] by (simp add: db_lookup_def)
  qed
  ultimately show ?thesis using W by blast
qed

lemma DB_Put_ok:
  assumes "db_ok (Suc n) db" "length key + 8 < 2 ^ 32" "length v < 2 ^ 32"
  shows "\<exists>db'. DB_Put db opt key v = (db', True) \<and> db_ok n db' \<and> db_lookup db' = (db_lookup db)(key \<mapsto> v)"
proof -
  have "batch_rep (WriteBatch_Put WriteBatch_Clear key v) 0 [Batch_Put key v]"
    using Put_rep [OF batch_Clear, of key v] assms(2,3) by simp
  from DBImpl_Write_ok [OF _ this, of n] show ?thesis
    using assms by (simp add: DB_Put_def apply_ops_def)
qed

lemma DB_Delete_ok:
  assumes "db_ok (Suc n) db" "length key + 8 < 2 ^ 32"
  shows "\<exists>db'. DB_Delete db opt key = (db', True) \<and> db_ok n db' \<and> db_lookup db' = (db_lookup db)(key := None)"
proof -
  have "batch_rep (WriteBatch_Delete WriteBatch_Clear key) 0 [Batch_Delete key]"
    using Delete_rep [OF batch_Clear, of key] assms(2) by simp
  from DBImpl_Write_ok [OF _ this, of n] show ?thesis
    using assms by (simp add: DB_Delete_def apply_ops_def)
qed

lemma db_ok_less: "db_ok n db \<Longrightarrow> m \<le> n \<Longrightarrow> db_ok m db"
  by (auto simp: db_ok_def)

section \<open>The contract of a key-value store\<close>

locale kv_store =
  fixes ok :: "nat \<Rightarrow> 'd \<Rightarrow> bool"
    and look :: "'d \<Rightarrow> bytes \<rightharpoonup> bytes"
    and get_op :: "'d \<Rightarrow> bytes \<Rightarrow> bytes option"
    and put_op :: "'d \<Rightarrow> bytes \<Rightarrow> bytes \<Rightarrow> 'd \<times> bool"
    and delete_op :: "'d \<Rightarrow> bytes \<Rightarrow> 'd \<times> bool"
    and write_op :: "'d \<Rightarrow> WriteBatch \<Rightarrow> 'd \<times> bool"
  assumes ok_less: "ok n d \<Longrightarrow> m \<le> n \<Longrightarrow> ok m d"
    and get_ok: "ok n d \<Longrightarrow> length key + 8 < 2 ^ 32 \<Longrightarrow> get_op d key = look d key"
    and put_ok: "ok (Suc n) d \<Longrightarrow> length key + 8 < 2 ^ 32 \<Longrightarrow> length v < 2 ^ 32 \<Longrightarrow>
      \<exists>d'. put_op d key v = (d', True) \<and> ok n d' \<and> look d' = (look d)(key \<mapsto> v)"
    and delete_ok: "ok (Suc n) d \<Longrightarrow> length key + 8 < 2 ^ 32 \<Longrightarrow>
      \<exists>d'. delete_op d key = (d', True) \<and> ok n d' \<and> look d' = (look d)(key := None)"
    and write_ok: "ok (n + length ops) d \<Longrightarrow> batch_rep b s ops \<Longrightarrow> length ops < 2 ^ 31 \<Longrightarrow>
      \<exists>d'. write_op d b = (d', True) \<and> ok n d' \<and> look d' = apply_ops ops (look d)"
begin

lemma get_after_put:
  assumes "ok (Suc n) d" "length key + 8 < 2 ^ 32" "length v < 2 ^ 32" "length key' + 8 < 2 ^ 32"
    and "put_op d key v = (d', r)"
  shows "get_op d' key' = (if key' = key then Some v else get_op d key')"
proof -
  have "ok n d'" "look d' = (look d)(key \<mapsto> v)" using put_ok [OF assms(1-3)] assms(5) by auto
  then show ?thesis using get_ok [of n d' key'] get_ok [OF assms(1,4)] assms(4) by simp
qed

lemma get_after_delete:
  assumes "ok (Suc n) d" "length key + 8 < 2 ^ 32" "length key' + 8 < 2 ^ 32" "delete_op d key = (d', r)"
  shows "get_op d' key' = (if key' = key then None else get_op d key')"
proof -
  have "ok n d'" "look d' = (look d)(key := None)" using delete_ok [OF assms(1,2)] assms(4) by auto
  then show ?thesis using get_ok [of n d' key'] get_ok [OF assms(1,3)] assms(3) by simp
qed

end

lemma batch_rep_ops: "batch_rep b s ops \<Longrightarrow> op \<in> set ops \<Longrightarrow> op_ok op"
  by (simp add: batch_rep_def)

interpretation db: kv_store db_ok db_lookup "\<lambda>db. DBImpl_Get db None" "\<lambda>db. DB_Put db opt"
  "\<lambda>db. DB_Delete db opt" "\<lambda>db. DBImpl_Write db opt" for opt
proof (unfold_locales, goal_cases)
  case (1 n d m)
  then show ?case by (rule db_ok_less)
next
  case (2 n d key)
  then show ?case by (simp add: db_lookup_def)
next
  case (3 n d key v)
  then show ?case by (rule DB_Put_ok)
next
  case (4 n d key)
  then show ?case by (rule DB_Delete_ok)
next
  case (5 n ops d b s)
  then show ?case by (intro DBImpl_Write_ok) (auto dest: batch_rep_ops)
qed

definition DBImpl_new :: DBImpl where
  "DBImpl_new = \<lparr>db_mem = [], db_imm = None, db_level0 = [], db_last_sequence = 0, db_bg_error = False,
     db_log = [], db_io = [], db_full = []\<rparr>"

lemma DBImpl_new_ok: "n < 2 ^ 56 \<Longrightarrow> db_ok n DBImpl_new" "db_lookup DBImpl_new = Map.empty"
proof -
  have rep: "db_rep DBImpl_new [] None []"
    by (simp add: db_rep_def DBImpl_new_def mem_rep_def parts_def)
  then show "n < 2 ^ 56 \<Longrightarrow> db_ok n DBImpl_new"
    unfolding db_ok_def by (auto simp: DBImpl_new_def)
  show "db_lookup DBImpl_new = Map.empty"
    by (auto simp: db_lookup_def DBImpl_Get_def DBImpl_new_def MemTable_Get_def seek_def fun_eq_iff)
qed

section \<open>Properties\<close>

text \<open>C16: A write is atomic and durable across flushes: when the file system under the database does
  not fail, applying a batch returns success, and afterwards \<^verbatim>\<open>Get\<close> returns for every key the
  value of the last operation of the batch on it, not found if that was a deletion, and what it
  returned before if there was none; this holds whether or not the write filled the memtable and
  any number of memtables were turned into tables on the way.\<close>
theorem db_write_read:
  assumes "db_ok (n + length ops) db" "batch_rep b s ops" "length ops < 2 ^ 31" "length key + 8 < 2 ^ 32"
  shows "\<exists>db'. DBImpl_Write db opt b = (db', True) \<and> db_ok n db' \<and>
    DBImpl_Get db' None key = apply_ops ops (db_lookup db) key \<and>
    db_lookup db key = DBImpl_Get db None key"
proof -
  have keys: "\<And>op. op \<in> set ops \<Longrightarrow> op_ok op" using assms(2) by (simp add: batch_rep_def)
  obtain db' where W: "DBImpl_Write db opt b = (db', True)" "db_ok n db'" "db_lookup db' = apply_ops ops (db_lookup db)"
    using DBImpl_Write_ok [OF assms(1-3) keys, of opt] by blast
  have "DBImpl_Get db' None key = db_lookup db' key" using assms(4) by (simp add: db_lookup_def)
  then show ?thesis using W assms(4) by (simp add: db_lookup_def)
qed

theorem db_write_read_witness:
  "\<exists>db. DBImpl_Write (DBImpl_new\<lparr>db_full := [True]\<rparr>) \<lparr>wo_sync = True, wo_writeahead = True\<rparr>
       (WriteBatch_Delete (WriteBatch_Put WriteBatch_Clear [1] [2]) [1]) = (db, True) \<and> DBImpl_Get db None [1] = None"
proof -
  let ?ops = "[Batch_Put [1] [2], Batch_Delete [1]]"
  have ok: "db_ok (0 + length ?ops) (DBImpl_new\<lparr>db_full := [True]\<rparr>)"
    using DBImpl_new_ok(1) [of 2] by (simp add: db_ok_def db_rep_def)
  have b: "batch_rep (WriteBatch_Delete (WriteBatch_Put WriteBatch_Clear [1] [2]) [1]) 0 ?ops"
    using Delete_rep [OF Put_rep [OF batch_Clear, of "[1]" "[2]"], of "[1]"] by simp
  show ?thesis using db_write_read [OF ok b, of "[1]" "\<lparr>wo_sync = True, wo_writeahead = True\<rparr>"] by (auto simp: apply_ops_def)
qed

end
