(* ===== verification/Db_Iter.thy ===== *)
theory Db_Iter
  imports Db_Impl
begin

text \<open>
  Iteration over the database, forwards: the merging iterator (\<^verbatim>\<open>table/merger.cc\<close>) over the
  memtables and tables, and \<^verbatim>\<open>DBIter\<close> (\<^verbatim>\<open>db/db_iter.cc\<close>), which hides deleted and
  overwritten entries. A child iterator is the list of (internal key, value) pairs from its
  position on, and is valid when the list is not empty. Backward iteration is not modelled;
  nothing in \<^verbatim>\<open>src/fs\<close> uses it.
\<close>

section \<open>The merging iterator\<close>

type_synonym child = "(bytes \<times> bytes) list"

fun FindSmallest_loop :: "nat \<Rightarrow> child list \<Rightarrow> (nat \<times> bytes) option \<Rightarrow> (nat \<times> bytes) option" where
  "FindSmallest_loop i [] smallest = smallest"
| "FindSmallest_loop i (child # children) smallest =
     (case child of
        [] \<Rightarrow> FindSmallest_loop (Suc i) children smallest
      | (key, v) # _ \<Rightarrow>
          (case smallest of
             None \<Rightarrow> FindSmallest_loop (Suc i) children (Some (i, key))
           | Some (j, smallest_key) \<Rightarrow>
               if InternalKey_Compare key smallest_key < 0
               then FindSmallest_loop (Suc i) children (Some (i, key))
               else FindSmallest_loop (Suc i) children smallest))"

definition FindSmallest :: "child list \<Rightarrow> nat option" where
  "FindSmallest children = map_option fst (FindSmallest_loop 0 children None)"

definition Merging_Seek :: "child list \<Rightarrow> bytes \<Rightarrow> child list" where
  "Merging_Seek children target =
     map (dropWhile (\<lambda>(k, v). InternalKey_Compare k target < 0)) children"

definition Merging_current :: "child list \<Rightarrow> (bytes \<times> bytes) option" where
  "Merging_current children = map_option (\<lambda>i. hd (children ! i)) (FindSmallest children)"

definition Merging_Next :: "child list \<Rightarrow> child list" where
  "Merging_Next children =
     (case FindSmallest children of
        None \<Rightarrow> children
      | Some i \<Rightarrow> children[i := tl (children ! i)])"

definition total_left :: "child list \<Rightarrow> nat" where
  "total_left children = sum_list (map length children)"

definition key_less :: "bytes \<Rightarrow> bytes \<Rightarrow> bool" where
  "key_less a b \<longleftrightarrow> InternalKey_Compare a b < 0"

lemma key_less_trans: "key_less a b \<Longrightarrow> key_less b c \<Longrightarrow> key_less a c"
  by (auto simp: key_less_def InternalKey_Compare_neg)

lemma FindSmallest_loop_None:
  "FindSmallest_loop i children smallest = None \<longleftrightarrow> smallest = None \<and> (\<forall>c\<in>set children. c = [])"
  by (induction i children smallest rule: FindSmallest_loop.induct) (auto split: list.splits option.splits)

lemma FindSmallest_loop_Some:
  "FindSmallest_loop i children smallest = Some (j, key) \<Longrightarrow>
   (smallest = Some (j, key) \<or>
    (\<exists>c<length children. j = i + c \<and> children ! c \<noteq> [] \<and> fst (hd (children ! c)) = key)) \<and>
   (\<forall>j' key'. smallest = Some (j', key') \<longrightarrow> key = key' \<or> key_less key key') \<and>
   (\<forall>c\<in>set children. c \<noteq> [] \<longrightarrow> \<not> key_less (fst (hd c)) key)"
proof (induction children arbitrary: i smallest)
  case Nil
  then show ?case by simp
next
  case (Cons child children)
  show ?case
  proof (cases "child = []")
    case True
    then have "FindSmallest_loop (Suc i) children smallest = Some (j, key)" using Cons.prems by simp
    note IH = Cons.IH [OF this]
    have "\<exists>c<length (child # children). j = i + c \<and> (child # children) ! c \<noteq> [] \<and>
        fst (hd ((child # children) ! c)) = key"
      if "\<exists>c<length children. j = Suc i + c \<and> children ! c \<noteq> [] \<and> fst (hd (children ! c)) = key"
      using that by (metis Suc_less_eq add_Suc_shift length_Cons nth_Cons_Suc)
    then show ?thesis using IH True by auto
  next
    case False
    define k where "k = fst (hd child)"
    define smallest' where "smallest' =
      (case smallest of None \<Rightarrow> Some (i, k) | Some (j', k') \<Rightarrow> if key_less k k' then Some (i, k) else Some (j', k'))"
    have step: "FindSmallest_loop (Suc i) children smallest' = Some (j, key)"
      using Cons.prems False
      by (cases child; cases smallest)
        (auto simp: smallest'_def k_def key_less_def split: prod.splits if_splits)
    note IH = Cons.IH [OF this]
    have shift: "\<exists>c<length (child # children). j = i + c \<and> (child # children) ! c \<noteq> [] \<and>
        fst (hd ((child # children) ! c)) = key"
      if "\<exists>c<length children. j = Suc i + c \<and> children ! c \<noteq> [] \<and> fst (hd (children ! c)) = key"
      using that by (metis Suc_less_eq add_Suc_shift length_Cons nth_Cons_Suc)
    have here: "\<exists>c<length (child # children). j = i + c \<and> (child # children) ! c \<noteq> [] \<and>
        fst (hd ((child # children) ! c)) = key" if "j = i" "key = k"
      using that False k_def by (intro exI [of _ 0]) simp
    have first: "smallest = Some (j, key) \<or> (\<exists>c<length (child # children). j = i + c \<and>
        (child # children) ! c \<noteq> [] \<and> fst (hd ((child # children) ! c)) = key)"
      using IH shift here by (auto simp: smallest'_def split: option.splits if_splits)
    have second: "\<forall>j' key'. smallest = Some (j', key') \<longrightarrow> key = key' \<or> key_less key key'"
      using IH by (auto simp: smallest'_def split: option.splits if_splits dest: key_less_trans)
    have "key = k \<or> key_less key k \<or> (\<exists>k'. \<not> key_less k k' \<and> (key = k' \<or> key_less key k'))"
      using IH by (cases smallest) (auto simp: smallest'_def split: if_splits)
    moreover have "\<not> key_less a a" for a by (auto simp: key_less_def InternalKey_Compare_neg)
    ultimately have "\<not> key_less k key" using key_less_trans by blast
    then show ?thesis using first second IH by (auto simp: k_def)
  qed
qed

lemma FindSmallest_None: "FindSmallest children = None \<longleftrightarrow> (\<forall>c\<in>set children. c = [])"
  by (simp add: FindSmallest_def FindSmallest_loop_None)

lemma FindSmallest_Some:
  assumes "FindSmallest children = Some i"
  shows "i < length children" and "children ! i \<noteq> []"
    and "c \<in> set children \<Longrightarrow> c \<noteq> [] \<Longrightarrow> \<not> key_less (fst (hd c)) (fst (hd (children ! i)))"
proof -
  obtain key where "FindSmallest_loop 0 children None = Some (i, key)"
    using assms by (auto simp: FindSmallest_def)
  from FindSmallest_loop_Some [OF this]
  show "i < length children" "children ! i \<noteq> []"
    "c \<in> set children \<Longrightarrow> c \<noteq> [] \<Longrightarrow> \<not> key_less (fst (hd c)) (fst (hd (children ! i)))"
    by auto
qed

lemma total_left_Next:
  assumes "FindSmallest children = Some i"
  shows "total_left (Merging_Next children) < total_left children"
proof -
  note i = FindSmallest_Some [OF assms]
  have "total_left (children[i := tl (children ! i)]) + length (children ! i) =
      total_left children + length (tl (children ! i))"
    using i(1) unfolding total_left_def
  proof (induction children arbitrary: i)
    case (Cons c cs)
    then show ?case by (cases i) auto
  qed simp
  then show ?thesis using i(2) assms by (cases "children ! i") (simp_all add: Merging_Next_def)
qed

section \<open>DBIter\<close>

record DBIter =
  it_all :: "child list"
  it_iter :: "child list"
  it_sequence :: u64
  it_valid :: bool

function FindNextUserEntry :: "child list \<Rightarrow> u64 \<Rightarrow> bool \<Rightarrow> bytes \<Rightarrow> child list \<times> bool" where
  "FindNextUserEntry iter s skipping skip =
     (case Merging_current iter of
        None \<Rightarrow> (iter, False)
      | Some (k, v) \<Rightarrow>
          (case ParseInternalKey k of
             None \<Rightarrow> FindNextUserEntry (Merging_Next iter) s skipping skip
           | Some ikey \<Rightarrow>
               if pk_sequence ikey \<le> s then
                 (case pk_type ikey of
                    kTypeDeletion \<Rightarrow> FindNextUserEntry (Merging_Next iter) s True (pk_user_key ikey)
                  | kTypeValue \<Rightarrow>
                      if skipping \<and> Slice_compare (pk_user_key ikey) skip \<le> 0
                      then FindNextUserEntry (Merging_Next iter) s skipping skip
                      else (iter, True))
               else FindNextUserEntry (Merging_Next iter) s skipping skip))"
  by pat_completeness auto
termination
  by (relation "measure (\<lambda>(iter, s, skipping, skip). total_left iter)")
    (auto simp: Merging_current_def intro: total_left_Next)

declare FindNextUserEntry.simps [simp del]

definition DBIter_key :: "DBIter \<Rightarrow> bytes" where
  "DBIter_key it = ExtractUserKey (fst (the (Merging_current (it_iter it))))"

definition DBIter_value :: "DBIter \<Rightarrow> bytes" where
  "DBIter_value it = snd (the (Merging_current (it_iter it)))"

definition DBIter_Next :: "DBIter \<Rightarrow> DBIter" where
  "DBIter_Next it =
     (let skip = DBIter_key it;
          (iter, valid) = FindNextUserEntry (it_iter it) (it_sequence it) True skip
      in it\<lparr>it_iter := iter, it_valid := valid\<rparr>)"

definition DBIter_Seek :: "DBIter \<Rightarrow> bytes \<Rightarrow> DBIter" where
  "DBIter_Seek it target =
     (let saved_key = InternalKey target (it_sequence it) kValueTypeForSeek;
          iter = Merging_Seek (it_all it) saved_key;
          (iter, valid) = FindNextUserEntry iter (it_sequence it) False saved_key
      in it\<lparr>it_iter := iter, it_valid := valid\<rparr>)"

definition mem_child :: "MemTable \<Rightarrow> child" where
  "mem_child mem = map (\<lambda>e. (MemTableIterator_key e, MemTableIterator_value e)) mem"

definition NewInternalIterator :: "DBImpl \<Rightarrow> child list" where
  "NewInternalIterator db =
     mem_child (db_mem db) #
     (case db_imm db of None \<Rightarrow> [] | Some imm \<Rightarrow> [mem_child imm]) @
     map tbl_contents (db_level0 db)"

definition DBImpl_NewIterator :: "DBImpl \<Rightarrow> DBIter" where
  "DBImpl_NewIterator db =
     (let children = NewInternalIterator db
      in \<lparr>it_all = children, it_iter = map (\<lambda>_. []) children, it_sequence = db_last_sequence db,
          it_valid = False\<rparr>)"

section \<open>Iteration ends\<close>

lemma Parse_user_key: "ParseInternalKey k = Some ikey \<Longrightarrow> pk_user_key ikey = ExtractUserKey k"
  by (auto simp: ParseInternalKey_def Let_def split: if_splits)

lemma total_left_Next_le: "total_left (Merging_Next iter) \<le> total_left iter"
  using total_left_Next [of iter] by (cases "FindSmallest iter") (auto simp: Merging_Next_def)

lemma FindNextUserEntry_le:
  "total_left (fst (FindNextUserEntry iter s skipping skip)) \<le> total_left iter"
proof (induction iter s skipping skip rule: FindNextUserEntry.induct)
  case (1 iter s skipping skip)
  show ?case
  proof (cases "Merging_current iter")
    case None
    then show ?thesis by (simp add: FindNextUserEntry.simps [of iter])
  next
    case (Some kv)
    obtain k v where kv: "kv = (k, v)" by fastforce
    note step = total_left_Next_le [of iter]
    show ?thesis
    proof (cases "ParseInternalKey k")
      case None
      then show ?thesis
        using "1.IH"(1) [OF Some kv [symmetric] None] Some kv step
        by (simp add: FindNextUserEntry.simps [of iter])
    next
      case P: (Some ikey)
      show ?thesis
      proof (cases "pk_sequence ikey \<le> s")
        case False
        then show ?thesis
          using "1.IH"(4) [OF Some kv [symmetric] P False] Some kv P step
          by (simp add: FindNextUserEntry.simps [of iter])
      next
        case True
        show ?thesis
          using "1.IH"(2) [OF Some kv [symmetric] P True] "1.IH"(3) [OF Some kv [symmetric] P True]
            Some kv P True step
          by (cases "pk_type ikey") (auto simp: FindNextUserEntry.simps [of iter])
      qed
    qed
  qed
qed

lemma Slice_compare_refl: "Slice_compare k k = 0"
  by (simp only: Slice_compare_zero)

lemma Slice_compare_le: "Slice_compare a b \<le> 0 \<longleftrightarrow> a \<le> b"
  using Slice_compare_pos [of a b] by (simp only: not_less [symmetric])

lemma FindNextUserEntry_advances:
  assumes "FindNextUserEntry iter s True (ExtractUserKey (fst (the (Merging_current iter)))) = (iter', True)"
  shows "total_left iter' < total_left iter"
proof -
  obtain k v where cur: "Merging_current iter = Some (k, v)"
    using assms by (cases "Merging_current iter") (auto simp: FindNextUserEntry.simps [of iter])
  then have less: "total_left (Merging_Next iter) < total_left iter"
    using total_left_Next [of iter] by (auto simp: Merging_current_def)
  have "\<exists>sk skip. FindNextUserEntry iter s True (ExtractUserKey k) =
      FindNextUserEntry (Merging_Next iter) s sk skip"
  proof (cases "ParseInternalKey k")
    case None
    then show ?thesis using cur by (auto simp: FindNextUserEntry.simps [of iter])
  next
    case (Some ikey)
    then have "Slice_compare (pk_user_key ikey) (ExtractUserKey k) \<le> 0"
      by (simp add: Parse_user_key Slice_compare_refl)
    then show ?thesis
      using cur Some by (cases "pk_type ikey"; cases "pk_sequence ikey \<le> s")
        (auto simp: FindNextUserEntry.simps [of iter])
  qed
  then show ?thesis
    using assms cur less FindNextUserEntry_le [of "Merging_Next iter" s] by (metis fst_conv le_less_trans option.sel)
qed

definition DBIter_left :: "DBIter \<Rightarrow> nat" where
  "DBIter_left it = (if it_valid it then Suc (total_left (it_iter it)) else 0)"

lemma DBIter_Next_less: "it_valid it \<Longrightarrow> DBIter_left (DBIter_Next it) < DBIter_left it"
  using FindNextUserEntry_advances [of "it_iter it" "it_sequence it"]
  by (auto simp: DBIter_Next_def DBIter_left_def DBIter_key_def Let_def split: prod.splits)

function DBIter_collect :: "DBIter \<Rightarrow> (bytes \<times> bytes) list" where
  "DBIter_collect it =
     (if it_valid it then (DBIter_key it, DBIter_value it) # DBIter_collect (DBIter_Next it) else [])"
  by pat_completeness auto
termination
  by (relation "measure DBIter_left") (auto intro: DBIter_Next_less)

declare DBIter_collect.simps [simp del]

section \<open>Iteration over entries\<close>

definition kv :: "entry \<Rightarrow> bytes \<times> bytes" where
  "kv e = (InternalKey (e_key e) (e_seq e) (e_type e), e_val e)"

lemma key_less_kv: "key_less (fst (kv a)) (fst (kv b)) \<longleftrightarrow> entry_less a b"
  by (auto simp: key_less_def kv_def InternalKey_Compare_neg InternalKey_simps entry_less_def)

function merged :: "child list \<Rightarrow> child" where
  "merged children =
     (case FindSmallest children of
        None \<Rightarrow> []
      | Some i \<Rightarrow> hd (children ! i) # merged (Merging_Next children))"
  by pat_completeness auto
termination
  by (relation "measure total_left") (auto intro: total_left_Next)

declare merged.simps [simp del]

definition comparable :: "entry set \<Rightarrow> bool" where
  "comparable E \<longleftrightarrow> (\<forall>x\<in>E. \<forall>y\<in>E. x = y \<or> entry_less x y \<or> entry_less y x)"

definition disjoint_lists :: "entry list list \<Rightarrow> bool" where
  "disjoint_lists ess \<longleftrightarrow>
     (\<forall>i<length ess. \<forall>j<length ess. i \<noteq> j \<longrightarrow> set (ess ! i) \<inter> set (ess ! j) = {})"

lemma Union_nth: "\<Union> (set ` set xss) = (\<Union>j<length xss. set (xss ! j))"
proof -
  have "set xss = (\<lambda>j. xss ! j) ` {..<length xss}" by (auto simp: set_conv_nth)
  then show ?thesis by auto
qed

lemma merged_entries:
  assumes "\<forall>es\<in>set ess. sorted_wrt entry_less es" "comparable (\<Union> (set ` set ess))" "disjoint_lists ess"
  shows "\<exists>M. merged (map (map kv) ess) = map kv M \<and> sorted_wrt entry_less M \<and> set M = \<Union> (set ` set ess)"
  using assms
proof (induction "total_left (map (map kv) ess)" arbitrary: ess rule: less_induct)
  case less
  let ?ch = "map (map kv) ess"
  show ?case
  proof (cases "FindSmallest ?ch")
    case None
    then have "\<forall>es\<in>set ess. es = []" by (auto simp: FindSmallest_None)
    then have "\<Union> (set ` set ess) = {}" by auto
    then show ?thesis using None by (intro exI [of _ "[]"]) (simp add: merged.simps)
  next
    case (Some i)
    note S = FindSmallest_Some [OF Some]
    have i: "i < length ess" "ess ! i \<noteq> []" using S(1,2) by auto
    define e where "e = hd (ess ! i)"
    define r where "r = tl (ess ! i)"
    have ei: "ess ! i = e # r" using i(2) by (simp add: e_def r_def)
    define ess' where "ess' = ess[i := r]"
    have next_ch: "Merging_Next ?ch = map (map kv) ess'"
      using Some i by (simp add: Merging_Next_def ess'_def map_update map_tl r_def)
    have sorted_i: "sorted_wrt entry_less (e # r)" using less.prems(1) i ei by (metis nth_mem)
    have e_in: "e \<in> \<Union> (set ` set ess)" using i ei by (metis UN_I list.set_intros(1) nth_mem)
    have nth': "ess' ! j = (if j = i then r else ess ! j)" if "j < length ess" for j
      using that by (simp add: ess'_def)
    have len': "length ess' = length ess" by (simp add: ess'_def)
    have sub: "set (ess' ! j) \<subseteq> set (ess ! j)" if "j < length ess" for j
      using nth' [OF that] ei by auto
    have U': "\<Union> (set ` set ess') = (\<Union>j<length ess. set (ess' ! j))"
      and U: "\<Union> (set ` set ess) = (\<Union>j<length ess. set (ess ! j))"
      using Union_nth [of ess'] Union_nth [of ess] len' by simp_all
    have "e \<notin> set r" using sorted_i by (auto simp: entry_less_def)
    then have e_out: "e \<notin> \<Union> (set ` set ess')"
      using less.prems(3) i ei nth' unfolding U' disjoint_lists_def
      by (auto split: if_splits)
    have Uins: "\<Union> (set ` set ess) = insert e (\<Union> (set ` set ess'))"
    proof (intro set_eqI iffI)
      fix x assume "x \<in> \<Union> (set ` set ess)"
      then obtain j where j: "j < length ess" "x \<in> set (ess ! j)" unfolding U by blast
      then show "x \<in> insert e (\<Union> (set ` set ess'))"
        using nth' [OF j(1)] ei j unfolding U' by (cases "j = i") (auto intro!: bexI [of _ j])
    next
      fix x assume "x \<in> insert e (\<Union> (set ` set ess'))"
      then show "x \<in> \<Union> (set ` set ess)" using e_in sub unfolding U' U by auto
    qed
    have min: "entry_less e x" if x: "x \<in> \<Union> (set ` set ess')" for x
    proof -
      obtain j where j: "j < length ess" "x \<in> set (ess ! j)" using x sub unfolding U' by blast
      define h where "h = hd (ess ! j)"
      have hj: "ess ! j \<noteq> []" "h \<in> set (ess ! j)" using j(2) by (cases "ess ! j"; simp add: h_def)+
      have "map kv (ess ! j) \<in> set ?ch" using j(1) by simp
      then have "\<not> key_less (fst (hd (map kv (ess ! j)))) (fst (hd (?ch ! i)))"
        using S(3) hj(1) by blast
      then have n1: "\<not> entry_less h e"
        using hj(1) i by (simp add: hd_map key_less_kv h_def e_def)
      have "sorted_wrt entry_less (ess ! j)" using less.prems(1) j(1) by simp
      then have "x = h \<or> entry_less h x"
        using j(2) by (cases "ess ! j") (auto simp: h_def)
      moreover have "h = e \<or> entry_less e h"
        using less.prems(2) n1 e_in hj(2) j(1) unfolding comparable_def U by blast
      moreover have "x \<noteq> e" using x e_out by blast
      ultimately show ?thesis by (auto simp: entry_less_def)
    qed
    have "total_left (map (map kv) ess') < total_left ?ch"
      using total_left_Next [OF Some] next_ch by simp
    moreover have "\<forall>es\<in>set ess'. sorted_wrt entry_less es"
    proof
      fix es assume "es \<in> set ess'"
      then have "es \<in> set ess \<or> es = r" unfolding ess'_def using set_update_subset_insert by fastforce
      then show "sorted_wrt entry_less es" using less.prems(1) sorted_i by auto
    qed
    moreover have "comparable (\<Union> (set ` set ess'))"
      using less.prems(2) unfolding Uins comparable_def by blast
    moreover have "disjoint_lists ess'"
      unfolding disjoint_lists_def len'
    proof (intro allI impI)
      fix a b assume ab: "a < length ess" "b < length ess" "a \<noteq> b"
      then have "set (ess ! a) \<inter> set (ess ! b) = {}" using less.prems(3) unfolding disjoint_lists_def by blast
      then show "set (ess' ! a) \<inter> set (ess' ! b) = {}" using sub [OF ab(1)] sub [OF ab(2)] by blast
    qed
    ultimately obtain M where M: "merged (map (map kv) ess') = map kv M" "sorted_wrt entry_less M"
      "set M = \<Union> (set ` set ess')"
      using less.hyps [of ess'] by blast
    have "merged ?ch = map kv (e # M)"
      using Some M(1) next_ch i by (subst merged.simps) (simp add: hd_map e_def)
    moreover have "sorted_wrt entry_less (e # M)" using M(2,3) min by simp
    ultimately show ?thesis using M(3) Uins by (intro exI [of _ "e # M"]) simp
  qed
qed


section \<open>What an iteration yields\<close>

fun scan :: "entry list \<Rightarrow> bool \<Rightarrow> bytes \<Rightarrow> entry list" where
  "scan [] skipping skip = []"
| "scan (e # es) skipping skip =
     (case e_type e of
        kTypeDeletion \<Rightarrow> scan es True (e_key e)
      | kTypeValue \<Rightarrow> if skipping \<and> e_key e \<le> skip then scan es skipping skip else e # es)"

lemma scan_length: "length (scan es skipping skip) \<le> length es"
  by (induction es skipping skip rule: scan.induct) (auto split: ValueType.splits)

lemma scan_set: "set (scan es skipping skip) \<subseteq> set es"
  by (induction es skipping skip rule: scan.induct) (auto split: ValueType.splits)

lemma scan_head: "scan es skipping skip = e # rest \<Longrightarrow> e_type e = kTypeValue"
  by (induction es skipping skip rule: scan.induct) (auto split: ValueType.splits if_splits)

function visible :: "entry list \<Rightarrow> (bytes \<times> bytes) list" where
  "visible [] = []"
| "visible (e # es) = (e_key e, e_val e) # visible (scan es True (e_key e))"
  by pat_completeness auto
termination
  by (relation "measure length") (auto simp: less_Suc_eq_le scan_length)

lemma merged_current:
  "merged iter = [] \<longleftrightarrow> Merging_current iter = None"
  "merged iter = x # xs \<longleftrightarrow> Merging_current iter = Some x \<and> merged (Merging_Next iter) = xs"
  by (subst merged.simps, simp add: Merging_current_def split: option.split)+

lemma FindNextUserEntry_scan:
  assumes "merged iter = map kv M" "\<And>e. e \<in> set M \<Longrightarrow> unat (e_seq e) < 2 ^ 56 \<and> e_seq e \<le> s"
  shows "\<exists>iter'. FindNextUserEntry iter s skipping skip = (iter', scan M skipping skip \<noteq> []) \<and>
    merged iter' = map kv (scan M skipping skip)"
  using assms
proof (induction M arbitrary: iter skipping skip)
  case Nil
  then have "Merging_current iter = None" by (simp add: merged_current)
  then show ?case using Nil.prems by (simp add: FindNextUserEntry.simps [of iter])
next
  case (Cons e M)
  have cur: "Merging_current iter = Some (kv e)" and nxt: "merged (Merging_Next iter) = map kv M"
    using Cons.prems(1) by (simp_all add: merged_current)
  have e: "unat (e_seq e) < 2 ^ 56" "e_seq e \<le> s" using Cons.prems(2) [of e] by auto
  note IH = Cons.IH [OF nxt, of skipping skip] Cons.IH [OF nxt, of True "e_key e"]
  note step = FindNextUserEntry.simps [of iter]
  have P: "ParseInternalKey (InternalKey (e_key e) (e_seq e) (e_type e)) =
      Some \<lparr>pk_user_key = e_key e, pk_sequence = e_seq e, pk_type = e_type e\<rparr>"
    using Parse_InternalKey e(1) by blast
  show ?case
  proof (cases "e_type e")
    case kTypeDeletion
    then have "FindNextUserEntry iter s skipping skip = FindNextUserEntry (Merging_Next iter) s True (e_key e)"
      using cur P e by (simp add: step kv_def)
    then show ?thesis using IH(2) Cons.prems(2) kTypeDeletion by simp
  next
    case kTypeValue
    show ?thesis
    proof (cases "skipping \<and> e_key e \<le> skip")
      case True
      then have "FindNextUserEntry iter s skipping skip = FindNextUserEntry (Merging_Next iter) s skipping skip"
        using cur P e kTypeValue Slice_compare_le [of "e_key e" skip] by (simp add: step kv_def)
      then show ?thesis using IH(1) Cons.prems(2) kTypeValue True by simp
    next
      case False
      then have "FindNextUserEntry iter s skipping skip = (iter, True)"
        using cur P e kTypeValue Slice_compare_le [of "e_key e" skip] by (auto simp: step kv_def)
      moreover have "scan (e # M) skipping skip = e # M" using kTypeValue False by auto
      ultimately show ?thesis using Cons.prems(1) by simp
    qed
  qed
qed

lemma DBIter_collect_visible:
  assumes "merged (it_iter it) = map kv (scan M skipping skip)" "it_valid it \<longleftrightarrow> scan M skipping skip \<noteq> []"
    and "\<And>e. e \<in> set M \<Longrightarrow> unat (e_seq e) < 2 ^ 56 \<and> e_seq e \<le> it_sequence it"
  shows "DBIter_collect it = visible (scan M skipping skip)"
  using assms
proof (induction "length (scan M skipping skip)" arbitrary: it M skipping skip rule: less_induct)
  case less
  show ?case
  proof (cases "scan M skipping skip")
    case Nil
    then show ?thesis using less.prems(2) by (simp add: DBIter_collect.simps)
  next
    case (Cons e es)
    have cur: "Merging_current (it_iter it) = Some (kv e)"
      using less.prems(1) Cons by (simp add: merged_current)
    have key: "DBIter_key it = e_key e" and val: "DBIter_value it = e_val e"
      by (simp_all add: DBIter_key_def DBIter_value_def cur kv_def InternalKey_simps)
    have bound: "unat (e_seq x) < 2 ^ 56 \<and> e_seq x \<le> it_sequence it" if "x \<in> set (e # es)" for x
      using that scan_set [of M skipping skip] less.prems(3) Cons by auto
    have ty: "e_type e = kTypeValue" using scan_head [OF Cons] .
    have "merged (it_iter it) = map kv (e # es)" using less.prems(1) Cons by simp
    from FindNextUserEntry_scan [OF this bound, of True "e_key e"]
    obtain iter' where it': "FindNextUserEntry (it_iter it) (it_sequence it) True (e_key e) =
        (iter', scan es True (e_key e) \<noteq> [])" "merged iter' = map kv (scan es True (e_key e))"
      using ty by auto
    have nxt: "DBIter_Next it = it\<lparr>it_iter := iter', it_valid := scan es True (e_key e) \<noteq> []\<rparr>"
      by (simp add: DBIter_Next_def key it'(1))
    have "DBIter_collect (DBIter_Next it) = visible (scan es True (e_key e))"
      by (rule less.hyps) (use nxt it'(2) bound Cons in
        \<open>auto simp: less_Suc_eq_le scan_length\<close>)
    then show ?thesis using Cons less.prems(2) key val by (simp add: DBIter_collect.simps [of it])
  qed
qed

definition value_of :: "entry list \<Rightarrow> bytes \<Rightarrow> bytes option" where
  "value_of M k = Option.bind (newest M k) entry_value"

lemma value_of_Cons: "value_of (e # M) k = (if k = e_key e then entry_value e else value_of M k)"
  by (simp add: value_of_def newest_def)

lemma value_of_in: "value_of M k = Some v \<Longrightarrow> \<exists>e\<in>set M. e_key e = k"
  by (auto simp: value_of_def newest_def find_Some_iff bind_eq_Some_conv)

lemma visible_scan:
  assumes "sorted_wrt entry_less M" "skipping \<Longrightarrow> \<forall>e\<in>set M. skip \<le> e_key e"
  shows "sorted_wrt (<) (map fst (visible (scan M skipping skip)))"
    and "set (visible (scan M skipping skip)) =
      {(k, v). \<not> (skipping \<and> k \<le> skip) \<and> value_of M k = Some v}"
  using assms
proof (induction M arbitrary: skipping skip)
  case Nil
  { case 1 show ?case by simp next case 2 show ?case by (simp add: value_of_def newest_def) }
next
  case (Cons e M)
  { fix skipping skip
    assume srt: "sorted_wrt entry_less (e # M)" and low: "skipping \<Longrightarrow> \<forall>x\<in>set (e # M). skip \<le> e_key x"
    have M: "sorted_wrt entry_less M" and ge: "\<forall>x\<in>set M. e_key e \<le> e_key x"
      using srt by (auto simp: entry_less_def)
    have ge': "e_key e \<le> k" if "value_of M k = Some v" for k v using value_of_in [OF that] ge by auto
    note IHe = Cons.IH [OF M, of True "e_key e"]
    have "sorted_wrt (<) (map fst (visible (scan (e # M) skipping skip))) \<and>
        set (visible (scan (e # M) skipping skip)) =
        {(k, v). \<not> (skipping \<and> k \<le> skip) \<and> value_of (e # M) k = Some v}"
    proof (cases "e_type e")
      case kTypeDeletion
      have "\<not> (skipping \<and> k \<le> skip) \<and> value_of (e # M) k = Some v \<longleftrightarrow>
          \<not> k \<le> e_key e \<and> value_of M k = Some v" for k v
        using kTypeDeletion ge' [of k v] low by (auto simp: value_of_Cons entry_value_def)
      then show ?thesis using IHe ge kTypeDeletion by simp
    next
      case kTypeValue
      show ?thesis
      proof (cases "skipping \<and> e_key e \<le> skip")
        case True
        then have "e_key e = skip" using low by auto
        then have "\<not> (skipping \<and> k \<le> skip) \<and> value_of (e # M) k = Some v \<longleftrightarrow>
            \<not> (skipping \<and> k \<le> skip) \<and> value_of M k = Some v" for k v
          using True by (auto simp: value_of_Cons)
        then show ?thesis using Cons.IH [OF M, of skipping skip] low True kTypeValue by simp
      next
        case False
        have "\<not> (skipping \<and> k \<le> skip) \<and> value_of (e # M) k = Some v \<longleftrightarrow>
            (k, v) = (e_key e, e_val e) \<or> (\<not> k \<le> e_key e \<and> value_of M k = Some v)" for k v
          using kTypeValue False ge' [of k v] low by (auto simp: value_of_Cons entry_value_def)
        moreover have "\<forall>x\<in>set (visible (scan M True (e_key e))). e_key e < fst x"
          using IHe(2) ge by auto
        ultimately show ?thesis using IHe ge False kTypeValue by auto
      qed
    qed }
  note step = this
  { case 1 then show ?case using step by blast next case 2 then show ?case using step by blast }
qed


section \<open>Iterating over the database\<close>

lemma newest_least:
  assumes "sorted_wrt entry_less es"
  shows "newest es key = Some e \<longleftrightarrow>
    e \<in> set es \<and> e_key e = key \<and> (\<forall>x\<in>set es. e_key x = key \<longrightarrow> x = e \<or> entry_less e x)"
  using assms
proof (induction es)
  case (Cons y es)
  have irr: "\<not> entry_less x x" for x by (simp add: entry_less_def)
  have anti: "entry_less a b \<Longrightarrow> \<not> entry_less b a" for a b by (auto simp: entry_less_def)
  show ?case
  proof (cases "e_key y = key")
    case True
    then show ?thesis using Cons.prems anti by (auto simp: newest_def)
  next
    case False
    then show ?thesis using Cons by (auto simp: newest_def)
  qed
qed (simp add: newest_def)

lemma seq_less: "e_key a = e_key b \<Longrightarrow> unat (e_seq b) < unat (e_seq a) \<Longrightarrow> unat (e_seq a) < 2 ^ 56 \<Longrightarrow> entry_less a b"
  by (cases "e_type a"; cases "e_type b")
    (simp_all add: entry_less_def word_less_nat_alt unat_PackSequenceAndType type_code_def)

lemma first_newest_least:
  assumes "\<And>es. es \<in> set ess \<Longrightarrow> sorted_wrt entry_less es" "sorted_wrt newer ess"
    and "\<And>es e. es \<in> set ess \<Longrightarrow> e \<in> set es \<Longrightarrow> unat (e_seq e) < 2 ^ 56"
    and "first_newest ess key = Some e"
  shows "e \<in> \<Union> (set ` set ess) \<and> e_key e = key \<and>
    (\<forall>x\<in>\<Union> (set ` set ess). e_key x = key \<longrightarrow> x = e \<or> entry_less e x)"
  using assms
proof (induction ess)
  case (Cons es ess)
  have srt: "sorted_wrt entry_less es" using Cons.prems(1) by simp
  show ?case
  proof (cases "newest es key")
    case None
    then have "\<forall>x\<in>set es. e_key x \<noteq> key" by (auto simp: newest_def find_None_iff)
    moreover have "first_newest ess key = Some e" using None Cons.prems(4) by simp
    ultimately show ?thesis using Cons.IH Cons.prems(1-3) by auto
  next
    case (Some e')
    then have e: "newest es key = Some e" using Cons.prems(4) by simp
    note E = e [unfolded newest_least [OF srt]]
    have "entry_less e x" if x: "x \<in> \<Union> (set ` set ess)" "e_key x = key" for x
    proof (rule seq_less)
      obtain xs where "xs \<in> set ess" "x \<in> set xs" using x(1) by blast
      then show "unat (e_seq x) < unat (e_seq e)" using E Cons.prems(2) by (auto simp: newer_def)
      show "unat (e_seq e) < 2 ^ 56" using E Cons.prems(3) [of es e] by simp
    qed (use E x in simp)
    then show ?thesis using E by auto
  qed
qed simp

lemma first_newest_None: "first_newest ess key = None \<longleftrightarrow> (\<forall>x\<in>\<Union> (set ` set ess). e_key x \<noteq> key)"
proof (induction ess)
  case (Cons es ess)
  have "newest es key = None \<longleftrightarrow> (\<forall>x\<in>set es. e_key x \<noteq> key)" by (auto simp: newest_def find_None_iff)
  then show ?case using Cons by (auto split: option.split)
qed simp

lemma newer_disjoint:
  assumes "sorted_wrt newer ess"
  shows "disjoint_lists ess"
proof -
  have *: "set (ess ! i) \<inter> set (ess ! j) = {}" if "i < j" "j < length ess" for i j
  proof -
    have "newer (ess ! i) (ess ! j)" using sorted_wrt_nth_less [OF assms that] .
    then show ?thesis unfolding newer_def by blast
  qed
  show ?thesis
    unfolding disjoint_lists_def
  proof (intro allI impI)
    fix i j assume ij: "i < length ess" "j < length ess" "i \<noteq> j"
    then consider "i < j" | "j < i" by linarith
    then show "set (ess ! i) \<inter> set (ess ! j) = {}"
      using * [of i j] * [of j i] ij by cases blast+
  qed
qed

lemma parts_comparable:
  assumes srt: "\<And>es. es \<in> set ess \<Longrightarrow> sorted_wrt entry_less es" and new: "sorted_wrt newer ess"
    and seqs: "\<And>es e. es \<in> set ess \<Longrightarrow> e \<in> set es \<Longrightarrow> unat (e_seq e) < 2 ^ 56"
  shows "comparable (\<Union> (set ` set ess))"
  unfolding comparable_def
proof (intro ballI)
  fix x y assume "x \<in> \<Union> (set ` set ess)" "y \<in> \<Union> (set ` set ess)"
  then obtain i j where i: "i < length ess" "x \<in> set (ess ! i)" and j: "j < length ess" "y \<in> set (ess ! j)"
    unfolding Union_nth by blast
  have b: "unat (e_seq x) < 2 ^ 56" "unat (e_seq y) < 2 ^ 56" using i j seqs nth_mem by blast+
  consider "i = j" | "i < j" | "j < i" by linarith
  then show "x = y \<or> entry_less x y \<or> entry_less y x"
  proof cases
    case 1
    have "sorted_wrt entry_less (ess ! i)" using srt i(1) by simp
    moreover obtain a c where "a < length (ess ! i)" "ess ! i ! a = x" "c < length (ess ! i)" "ess ! i ! c = y"
      using i j 1 by (metis in_set_conv_nth)
    ultimately show ?thesis using sorted_wrt_nth_less [of entry_less "ess ! i"] by (metis linorder_neqE_nat)
  next
    case 2
    then have "unat (e_seq y) < unat (e_seq x)"
      using sorted_wrt_nth_less [OF new 2 j(1)] i j by (auto simp: newer_def)
    then show ?thesis using seq_less [of x y] b
      by (cases "e_key x = e_key y") (auto simp: entry_less_def neq_iff)
  next
    case 3
    then have "unat (e_seq x) < unat (e_seq y)"
      using sorted_wrt_nth_less [OF new 3 i(1)] i j by (auto simp: newer_def)
    then show ?thesis using seq_less [of y x] b
      by (cases "e_key x = e_key y") (auto simp: entry_less_def neq_iff)
  qed
qed

lemma NewInternalIterator_rep:
  assumes "db_rep db m i ts"
  shows "NewInternalIterator db = map (map kv) (parts m i ts)"
proof -
  have mem: "mem_child t = map kv es" if "mem_rep t es" for t es
    using that by (auto simp: mem_rep_def mem_child_def kv_def Iterator_entry)
  have "map tbl_contents (db_level0 db) = map (map kv) ts"
    using assms unfolding db_rep_def
    by (auto simp: list_all2_conv_all_nth table_rep_def kv_def intro!: nth_equalityI)
  moreover have "(case db_imm db of None \<Rightarrow> [] | Some imm \<Rightarrow> [mem_child imm]) =
      map (map kv) (case i of None \<Rightarrow> [] | Some x \<Rightarrow> [x])"
    using assms mem by (cases i; cases "db_imm db") (auto simp: db_rep_def)
  ultimately show ?thesis using assms mem by (simp add: NewInternalIterator_def parts_def db_rep_def)
qed

lemma Merging_Seek_entries:
  assumes "\<And>es e. es \<in> set ess \<Longrightarrow> e \<in> set es \<Longrightarrow> unat (e_seq e) \<le> unat s" "unat s < 2 ^ 56"
  shows "Merging_Seek (map (map kv) ess) (InternalKey target s kValueTypeForSeek) =
    map (map kv) (map (dropWhile (\<lambda>e. e_key e < target)) ess)"
proof -
  have cmp: "InternalKey_Compare (fst (kv e)) (InternalKey target s kValueTypeForSeek) < 0 \<longleftrightarrow> e_key e < target"
    if "es \<in> set ess" "e \<in> set es" for es e
    using tag_seek_le [OF assms(1) [OF that] assms(2)]
    by (auto simp: InternalKey_Compare_neg InternalKey_simps kv_def)
  have "dropWhile (\<lambda>(k, v). InternalKey_Compare k (InternalKey target s kValueTypeForSeek) < 0) (map kv es) =
      map kv (dropWhile (\<lambda>e. e_key e < target) es)" if "es \<in> set ess" for es
    unfolding dropWhile_map comp_def case_prod_unfold
    by (rule arg_cong [where f = "map _"], rule dropWhile_cong) (simp_all add: cmp [OF that])
  then show ?thesis by (simp add: Merging_Seek_def)
qed

lemma dropWhile_sorted_set:
  assumes "sorted_wrt entry_less es"
  shows "set (dropWhile (\<lambda>e. e_key e < target) es) = {e \<in> set es. target \<le> e_key e}"
  using assms by (induction es) (auto simp: entry_less_def)

text \<open>An iteration from a key yields the live pairs from that key on, each once, in key order.\<close>

lemma DBIter_collect_rep:
  fixes target :: bytes
  assumes ok: "db_ok n db"
  defines "R \<equiv> DBIter_collect (DBIter_Seek (DBImpl_NewIterator db) target)"
  shows "sorted_wrt (<) (map fst R)" and "set R = {(k, v). target \<le> k \<and> db_lookup db k = Some v}"
proof -
  obtain m i ts where rep: "db_rep db m i ts" and room: "unat (db_last_sequence db) < 2 ^ 56"
    using ok by (auto simp: db_ok_def)
  define ess where "ess = parts m i ts"
  let ?s = "db_last_sequence db"
  have seqs: "unat (e_seq e) \<le> unat ?s" if "es \<in> set ess" "e \<in> set es" for es e
    using rep that unfolding db_rep_def ess_def by blast
  have new: "sorted_wrt newer ess" using rep by (simp add: db_rep_def ess_def)
  have one: "sorted_wrt entry_less es \<and> (\<forall>e\<in>set es. entry_ok e)" if "es \<in> set ess" for es
  proof -
    have "es = m \<or> i = Some es \<or> es \<in> set ts" using that by (auto simp: ess_def parts_def split: option.splits)
    then show ?thesis
    proof (elim disjE)
      assume "i = Some es"
      then show ?thesis using rep by (cases "db_imm db") (auto simp: db_rep_def mem_rep_def)
    next
      assume "es \<in> set ts"
      moreover have "list_all2 table_rep (db_level0 db) ts" using rep by (simp add: db_rep_def)
      ultimately obtain t where "table_rep t es" by (auto simp: list_all2_conv_all_nth in_set_conv_nth)
      then show ?thesis by (simp add: table_rep_def)
    qed (use rep in \<open>auto simp: db_rep_def mem_rep_def\<close>)
  qed
  have srt: "\<And>es. es \<in> set ess \<Longrightarrow> sorted_wrt entry_less es" using one by blast
  have b: "\<And>es e. es \<in> set ess \<Longrightarrow> e \<in> set es \<Longrightarrow> unat (e_seq e) < 2 ^ 56"
    using seqs room by fastforce
  define ds where "ds = map (dropWhile (\<lambda>e. e_key e < target)) ess"
  have sub: "set (ds ! j) \<subseteq> set (ess ! j)" if "j < length ess" for j
    using that set_dropWhileD by (fastforce simp: ds_def)
  have ds_srt: "\<forall>es\<in>set ds. sorted_wrt entry_less es"
    using srt by (auto simp: ds_def sorted_wrt_dropWhile)
  have ds_set: "\<Union> (set ` set ds) = {e \<in> \<Union> (set ` set ess). target \<le> e_key e}"
    using dropWhile_sorted_set srt by (auto simp: ds_def)
  have "comparable (\<Union> (set ` set ess))" by (rule parts_comparable [OF srt new b])
  then have "comparable (\<Union> (set ` set ds))" unfolding ds_set comparable_def by blast
  moreover have "disjoint_lists ds"
    unfolding disjoint_lists_def
  proof (intro allI impI)
    fix x y assume xy: "x < length ds" "y < length ds" "x \<noteq> y"
    then have l: "x < length ess" "y < length ess" by (simp_all add: ds_def)
    have "set (ess ! x) \<inter> set (ess ! y) = {}"
      using newer_disjoint [OF new] l xy(3) unfolding disjoint_lists_def by blast
    then show "set (ds ! x) \<inter> set (ds ! y) = {}" using sub [OF l(1)] sub [OF l(2)] by blast
  qed
  ultimately obtain M where M: "merged (map (map kv) ds) = map kv M" "sorted_wrt entry_less M"
    "set M = \<Union> (set ` set ds)"
    using merged_entries [OF ds_srt] by blast
  have M_seq: "unat (e_seq e) < 2 ^ 56 \<and> e_seq e \<le> ?s" if "e \<in> set M" for e
    using that M(3) ds_set b seqs unfolding word_le_nat_alt by blast
  let ?skip = "InternalKey target ?s kValueTypeForSeek"
  have seek: "Merging_Seek (NewInternalIterator db) ?skip = map (map kv) ds"
    using Merging_Seek_entries [of ess ?s target, OF seqs room] NewInternalIterator_rep [OF rep]
    by (simp add: ds_def ess_def)
  obtain iter' where it: "FindNextUserEntry (map (map kv) ds) ?s False ?skip = (iter', scan M False ?skip \<noteq> [])"
    "merged iter' = map kv (scan M False ?skip)"
    using FindNextUserEntry_scan [OF M(1) M_seq, of False ?skip] by auto
  have "DBIter_Seek (DBImpl_NewIterator db) target =
      (DBImpl_NewIterator db)\<lparr>it_iter := iter', it_valid := scan M False ?skip \<noteq> []\<rparr>"
    using seek it(1) by (simp add: DBIter_Seek_def DBImpl_NewIterator_def Let_def)
  then have R: "R = visible (scan M False ?skip)"
    unfolding R_def using M_seq it(2)
    by (simp, intro DBIter_collect_visible) (auto simp: DBImpl_NewIterator_def Let_def)
  show "sorted_wrt (<) (map fst R)" unfolding R by (rule visible_scan(1) [OF M(2)]) simp
  have "value_of M k = Some v \<longleftrightarrow> target \<le> k \<and> db_lookup db k = Some v" for k v
  proof (cases "target \<le> k")
    case False
    then have "newest M k = None" using M(3) ds_set by (auto simp: newest_def find_None_iff)
    then show ?thesis using False by (simp add: value_of_def)
  next
    case True
    have same: "newest M k = first_newest ess k"
    proof (cases "first_newest ess k")
      case None
      then have "\<forall>x\<in>\<Union> (set ` set ess). e_key x \<noteq> k" by (simp only: first_newest_None)
      then have "newest M k = None" using M(3) ds_set by (auto simp: newest_def find_None_iff)
      then show ?thesis using None by simp
    next
      case (Some e)
      note E = first_newest_least [OF srt new b Some]
      then have "newest M k = Some e"
        using E True unfolding newest_least [OF M(2)] M(3) ds_set mem_Collect_eq Ball_def by auto
      then show ?thesis using Some by simp
    qed
    show ?thesis
    proof (cases "length k + 8 < 2 ^ 32")
      case short: True
      then show ?thesis using True DBImpl_Get_rep [OF rep short room] same by (simp add: value_of_def ess_def)
    next
      case long: False
      have "newest M k = None"
      proof (rule ccontr)
        assume "newest M k \<noteq> None"
        then obtain e where "newest M k = Some e" by blast
        then have "e \<in> set M" "e_key e = k" unfolding newest_least [OF M(2)] by blast+
        then have "entry_ok e" using M(3) ds_set one by blast
        then show False using long \<open>e_key e = k\<close> by (simp add: entry_ok_def)
      qed
      then show ?thesis using long by (simp add: value_of_def db_lookup_def)
    qed
  qed
  then show "set R = {(k, v). target \<le> k \<and> db_lookup db k = Some v}"
    unfolding R using visible_scan(2) [OF M(2), of False ?skip] by simp
qed

section \<open>Properties\<close>

text \<open>C17: An iterator positioned with \<^verbatim>\<open>Seek\<close> and advanced with \<^verbatim>\<open>Next\<close> until it is not valid
  visits, in strictly increasing order, exactly the keys from the target on that \<^verbatim>\<open>Get\<close> would
  find, each with the value \<^verbatim>\<open>Get\<close> returns: no overwritten value, no deleted key, no
  duplicate from another memtable or table. The iteration ends.\<close>
theorem iterator_complete:
  fixes target :: bytes
  assumes "db_ok n db"
  defines "visited \<equiv> DBIter_collect (DBIter_Seek (DBImpl_NewIterator db) target)"
  shows "sorted_wrt (<) (map fst visited) \<and>
    (\<forall>k v. (k, v) \<in> set visited \<longleftrightarrow> target \<le> k \<and> length k + 8 < 2 ^ 32 \<and> DBImpl_Get db None k = Some v)"
  using DBIter_collect_rep [OF assms(1), of target] unfolding visited_def by (auto simp: db_lookup_def)

theorem iterator_complete_witness:
  "\<exists>db. DB_Put DBImpl_new \<lparr>wo_sync = False, wo_writeahead = True\<rparr> [5] [6] = (db, True) \<and>
     DBIter_collect (DBIter_Seek (DBImpl_NewIterator db) [1]) = [([5], [6])]"
proof -
  have ok: "db_ok (Suc 0) DBImpl_new" by (rule DBImpl_new_ok) simp
  obtain db where P: "DB_Put DBImpl_new \<lparr>wo_sync = False, wo_writeahead = True\<rparr> [5] [6] = (db, True)" "db_ok 0 db"
    "db_lookup db = (db_lookup DBImpl_new)([5] \<mapsto> [6])"
    using DB_Put_ok [OF ok, of "[5]" "[6]" "\<lparr>wo_sync = False, wo_writeahead = True\<rparr>"] by (auto simp: apply_ops_def)
  let ?V = "DBIter_collect (DBIter_Seek (DBImpl_NewIterator db) [1])"
  have g: "DBImpl_Get db None k = Some v \<longleftrightarrow> k = [5] \<and> v = [6]" if "length k + 8 < 2 ^ 32" for k v
  proof -
    have "DBImpl_Get db None k = db_lookup db k" using that by (simp add: db_lookup_def)
    then show ?thesis using P(3) DBImpl_new_ok(2) by auto
  qed
  have "(k, v) \<in> set ?V \<longleftrightarrow> k = [5] \<and> v = [6]" for k v
    using iterator_complete [OF P(2), of "[1]"] g [of k v] by (cases "length k + 8 < 2 ^ 32") auto
  then have "set ?V = {([5], [6])}" by auto
  moreover have "distinct ?V"
    using iterator_complete [OF P(2), of "[1]"] distinct_map strict_sorted_iff by metis
  ultimately have "?V = [([5], [6])]" by (cases ?V) (auto simp: subset_singleton_iff)
  then show ?thesis using P(1) by blast
qed

end
