(* ===== verification/Properties.thy ===== *)
theory Properties
  imports Prelude "HOL-Library.List_Lexorder" "HOL-Library.Char_ord"
begin

text \<open>
  The configuration table (\<^verbatim>\<open>util/properties.cpp\<close>) and the decimal conversions of the C
  library the sources use (\<^verbatim>\<open>sprintf\<close> with \<^verbatim>\<open>%d\<close> and \<^verbatim>\<open>%u\<close>, \<^verbatim>\<open>atoi\<close>).
  \<^item> The \<^verbatim>\<open>std::map\<close> is an association list sorted by key, which is the order its
    iterators have.
  \<^item> \<open>atoi\<close> is \<^verbatim>\<open>(int) strtol\<close>: \<^verbatim>\<open>strtol\<close> stops at the limits of \<^verbatim>\<open>long\<close>, the cast
    keeps the low 32 bits.
  \<^item> \<open>load\<close> and \<open>store\<close> work on the contents of the file; a file that cannot be opened
    is \<open>None\<close>. A line longer than the buffer of \<^verbatim>\<open>getline\<close> ends the loop, as it does in
    the code.
  \<^item> Values are read back as they were set, integers as integers, and a table that is
    stored and loaded is the same table.
\<close>

section \<open>Decimal numbers\<close>

definition digit :: "nat \<Rightarrow> char" where
  "digit n = char_of (48 + n)"

fun print_nat :: "nat \<Rightarrow> string" where
  "print_nat n = (if n < 10 then [digit n] else print_nat (n div 10) @ [digit (n mod 10)])"

declare print_nat.simps [simp del]

definition print_int :: "int \<Rightarrow> string" where
  "print_int i = (if i < 0 then CHR ''-'' # print_nat (nat (- i)) else print_nat (nat i))"

definition is_digit :: "char \<Rightarrow> bool" where
  "is_digit c \<longleftrightarrow> 48 \<le> (of_char c :: nat) \<and> (of_char c :: nat) \<le> 57"

definition digit_val :: "char \<Rightarrow> int" where
  "digit_val c = int (of_char c) - 48"

definition isspace :: "char \<Rightarrow> bool" where
  "isspace c \<longleftrightarrow> (of_char c :: nat) = 32 \<or> 9 \<le> (of_char c :: nat) \<and> (of_char c :: nat) \<le> 13"

definition parse_digits :: "string \<Rightarrow> int" where
  "parse_digits s = foldl (\<lambda>v c. 10 * v + digit_val c) 0 (takeWhile is_digit s)"

definition strtol :: "string \<Rightarrow> int" where
  "strtol s =
     (let s = dropWhile isspace s;
          v = (case s of
                 [] \<Rightarrow> 0
               | c # cs \<Rightarrow> if c = CHR ''-'' then - parse_digits cs
                           else if c = CHR ''+'' then parse_digits cs
                           else parse_digits (c # cs))
      in max (- (2 ^ 63)) (min (2 ^ 63 - 1) v))"

definition atoi :: "string \<Rightarrow> int" where
  "atoi s = sint (word_of_int (strtol s) :: u32)"

lemma of_char_digit: "n < 10 \<Longrightarrow> (of_char (digit n) :: nat) = 48 + n"
  by (simp add: digit_def)

lemma is_digit_digit: "n < 10 \<Longrightarrow> is_digit (digit n)"
  by (simp add: is_digit_def of_char_digit)

lemma digit_val_digit: "n < 10 \<Longrightarrow> digit_val (digit n) = int n"
  by (simp add: digit_val_def of_char_digit)

lemma digits_print_nat: "list_all is_digit (print_nat n)"
proof (induction n rule: print_nat.induct)
  case (1 n)
  then show ?case by (subst print_nat.simps) (simp add: is_digit_digit)
qed

lemma print_nat_not_Nil: "print_nat n \<noteq> []"
  by (subst print_nat.simps) simp

lemma parse_digits_append:
  "list_all is_digit s \<Longrightarrow> is_digit c \<Longrightarrow> parse_digits (s @ [c]) = 10 * parse_digits s + digit_val c"
  by (simp add: parse_digits_def list_all_iff takeWhile_eq_all_conv [THEN iffD2])

lemma parse_print_nat: "parse_digits (print_nat n) = int n"
proof (induction n rule: print_nat.induct)
  case (1 n)
  show ?case
  proof (cases "n < 10")
    case True
    then show ?thesis
      by (subst print_nat.simps) (simp add: parse_digits_def is_digit_digit digit_val_digit)
  next
    case False
    have "parse_digits (print_nat n) = 10 * int (n div 10) + int (n mod 10)"
      using False "1.IH" parse_digits_append [OF digits_print_nat is_digit_digit, of "n mod 10" "n div 10"]
      by (subst print_nat.simps) (simp add: digit_val_digit)
    then show ?thesis by presburger
  qed
qed

lemma print_nat_inject: "print_nat a = print_nat b \<Longrightarrow> a = b"
  by (metis of_nat_eq_iff parse_print_nat)

lemma is_digit_props:
  assumes "is_digit c"
  shows "\<not> isspace c" and "c \<noteq> CHR ''-''" and "c \<noteq> CHR ''+''" and "c \<noteq> CHR ''/''"
  using assms by (auto simp: is_digit_def isspace_def)

lemma strtol_print_int:
  assumes "- (2 ^ 63) \<le> i" "i < 2 ^ 63"
  shows "strtol (print_int i) = i"
proof -
  show ?thesis
  proof (cases "i < 0")
    case True
    then show ?thesis
      using assms by (simp add: strtol_def print_int_def isspace_def parse_print_nat)
  next
    case False
    obtain c cs where s: "print_nat (nat i) = c # cs" "is_digit c"
      using digits_print_nat [of "nat i"] print_nat_not_Nil [of "nat i"]
      by (cases "print_nat (nat i)") auto
    have "strtol (print_nat (nat i)) = max (- (2 ^ 63)) (min (2 ^ 63 - 1) (parse_digits (print_nat (nat i))))"
      unfolding s(1) using is_digit_props [OF s(2)] by (simp add: strtol_def)
    then show ?thesis
      using False assms by (simp add: print_int_def parse_print_nat)
  qed
qed

lemma atoi_print_int:
  assumes "- (2 ^ 31) \<le> i" "i < 2 ^ 31"
  shows "atoi (print_int i) = i"
proof -
  have "strtol (print_int i) = i" using assms by (intro strtol_print_int) simp_all
  then show ?thesis using assms by (simp add: atoi_def signed_of_int signed_take_bit_int_eq_self)
qed

section \<open>The table\<close>

type_synonym Properties = "(string \<times> string) list"

fun setProperty :: "Properties \<Rightarrow> string \<Rightarrow> string \<Rightarrow> Properties" where
  "setProperty [] key v = [(key, v)]"
| "setProperty ((k, w) # plist) key v =
     (if key < k then (key, v) # (k, w) # plist
      else if key = k then (k, v) # plist
      else (k, w) # setProperty plist key v)"

definition setPropertyInt :: "Properties \<Rightarrow> string \<Rightarrow> int \<Rightarrow> Properties" where
  "setPropertyInt plist key v = setProperty plist key (print_int v)"

definition getProperty :: "Properties \<Rightarrow> string \<Rightarrow> string \<Rightarrow> string" where
  "getProperty plist key defaultVal =
     (case map_of plist key of Some v \<Rightarrow> v | None \<Rightarrow> defaultVal)"

definition getProperty_root :: "Properties \<Rightarrow> string \<Rightarrow> string" where
  "getProperty_root plist key = (case map_of plist key of Some v \<Rightarrow> v | None \<Rightarrow> ''/'')"

definition getPropertyInt :: "Properties \<Rightarrow> string \<Rightarrow> int \<Rightarrow> int" where
  "getPropertyInt plist key defaultVal =
     (case map_of plist key of Some v \<Rightarrow> atoi v | None \<Rightarrow> defaultVal)"

definition getPropertyBool :: "Properties \<Rightarrow> string \<Rightarrow> bool \<Rightarrow> bool" where
  "getPropertyBool plist key defaultVal =
     (case map_of plist key of Some v \<Rightarrow> v = ''true'' | None \<Rightarrow> defaultVal)"

definition getline :: "string \<Rightarrow> string \<times> string \<times> bool" where
  "getline is =
     (let line = takeWhile (\<lambda>c. c \<noteq> CHR 0x0A) is
      in if length line > 1023 then (take 1023 is, drop 1023 is, False)
         else (case dropWhile (\<lambda>c. c \<noteq> CHR 0x0A) is of
                 [] \<Rightarrow> (line, [], False)
               | _ # rest \<Rightarrow> (line, rest, True)))"

definition load_line :: "Properties \<Rightarrow> string \<Rightarrow> Properties" where
  "load_line plist line =
     (let line = takeWhile (\<lambda>c. c \<noteq> CHR 0x00) line
      in case dropWhile (\<lambda>c. c \<noteq> CHR ''='') line of
           [] \<Rightarrow> plist
         | _ # val \<Rightarrow> setProperty plist (takeWhile (\<lambda>c. c \<noteq> CHR ''='') line) val)"

lemma getline_shorter: "getline is = (line, rest, True) \<Longrightarrow> length rest < length is"
proof -
  assume "getline is = (line, rest, True)"
  then obtain c where "dropWhile (\<lambda>c. c \<noteq> CHR 0x0A) is = c # rest"
    by (auto simp: getline_def Let_def split: if_splits list.splits)
  then show ?thesis using length_dropWhile_le [of "\<lambda>c. c \<noteq> CHR 0x0A" "is"] by simp
qed

function load_loop :: "Properties \<Rightarrow> string \<Rightarrow> Properties" where
  "load_loop plist is =
     (case getline is of
        (line, rest, good) \<Rightarrow>
          let plist = load_line plist line
          in if good then load_loop plist rest else plist)"
  by pat_completeness auto
termination
  by (relation "measure (length \<circ> snd)") (auto dest!: sym [of "(_, _, _)"] intro: getline_shorter)

declare load_loop.simps [simp del]

definition load :: "Properties \<Rightarrow> string option \<Rightarrow> Properties" where
  "load plist file = (case file of None \<Rightarrow> plist | Some is \<Rightarrow> load_loop plist is)"

definition store :: "Properties \<Rightarrow> string" where
  "store plist = concat (map (\<lambda>(k, v). k @ [CHR ''=''] @ v @ [CHR 0x0A]) plist)"

fun parseOpts :: "Properties \<Rightarrow> string list \<Rightarrow> Properties option" where
  "parseOpts plist [] = Some plist"
| "parseOpts plist (a # argv) =
     (if a \<noteq> [] \<and> hd a = CHR ''-'' then
        (case argv of
           [] \<Rightarrow> None
         | v # argv \<Rightarrow> parseOpts (setProperty plist (tl a) v) argv)
      else parseOpts plist argv)"

section \<open>Reading back\<close>

definition sorted_keys :: "Properties \<Rightarrow> bool" where
  "sorted_keys plist \<longleftrightarrow> sorted_wrt (<) (map fst plist)"

lemma fst_setProperty: "fst ` set (setProperty plist key v) = insert key (fst ` set plist)"
  by (induction plist key v rule: setProperty.induct) auto

lemma map_of_setProperty: "sorted_keys plist \<Longrightarrow> map_of (setProperty plist key v) = (map_of plist)(key \<mapsto> v)"
proof (induction plist key v rule: setProperty.induct)
  case (2 k w plist key v)
  have "map_of plist key = None" if "key < k"
    using 2(2) that by (auto simp: sorted_keys_def map_of_eq_None_iff)
  then show ?case using 2 by (auto simp: sorted_keys_def fun_eq_iff)
qed simp

lemma sorted_setProperty: "sorted_keys plist \<Longrightarrow> sorted_keys (setProperty plist key v)"
proof (induction plist key v rule: setProperty.induct)
  case (2 k w plist key v)
  then have "sorted_keys (setProperty plist key v)" if "k < key" using that by (auto simp: sorted_keys_def)
  then show ?case
    using "2.prems" fst_setProperty [of plist key v]
    by (auto simp: sorted_keys_def)
qed (simp add: sorted_keys_def)

lemma get_set_Int:
  assumes "sorted_keys plist" "- (2 ^ 31) \<le> i" "i < 2 ^ 31"
  shows "getPropertyInt (setPropertyInt plist key i) key' d =
    (if key' = key then i else getPropertyInt plist key' d)"
  using assms atoi_print_int [OF assms(2,3)]
  by (simp add: getPropertyInt_def setPropertyInt_def map_of_setProperty)

lemma setProperty_last:
  "\<forall>k\<in>fst ` set plist. k < key \<Longrightarrow> setProperty plist key v = plist @ [(key, v)]"
  by (induction plist key v rule: setProperty.induct) auto

section \<open>Storing and loading\<close>

definition clean :: "string \<Rightarrow> bool" where
  "clean s \<longleftrightarrow> CHR 0x0A \<notin> set s \<and> CHR 0x00 \<notin> set s"

definition storable :: "Properties \<Rightarrow> bool" where
  "storable plist \<longleftrightarrow> (\<forall>(k, v)\<in>set plist. clean k \<and> CHR ''='' \<notin> set k \<and> clean v \<and>
     length k + length v < 1023)"

lemma takeWhile_stop: "x \<notin> set s \<Longrightarrow> takeWhile (\<lambda>c. c \<noteq> x) (s @ x # r) = s"
  and dropWhile_stop: "x \<notin> set s \<Longrightarrow> dropWhile (\<lambda>c. c \<noteq> x) (s @ x # r) = x # r"
  by (induction s) auto

lemma takeWhile_none: "x \<notin> set s \<Longrightarrow> takeWhile (\<lambda>c. c \<noteq> x) s = s"
  by (induction s) auto

lemma getline_stored:
  assumes "clean k" "clean v" "length k + length v < 1023"
  shows "getline ((k @ [CHR ''=''] @ v @ [CHR 0x0A]) @ rest) = (k @ [CHR ''=''] @ v, rest, True)"
proof -
  let ?l = "k @ [CHR ''=''] @ v"
  have n: "CHR 0x0A \<notin> set ?l" using assms by (auto simp: clean_def)
  have "(k @ [CHR ''=''] @ v @ [CHR 0x0A]) @ rest = ?l @ CHR 0x0A # rest" by simp
  then show ?thesis
    using assms(3) by (simp only: getline_def Let_def takeWhile_stop [OF n] dropWhile_stop [OF n]) simp
qed

lemma load_line_stored:
  assumes "clean k" "clean v" "CHR ''='' \<notin> set k"
  shows "load_line plist (k @ [CHR ''=''] @ v) = setProperty plist k v"
proof -
  have "takeWhile (\<lambda>c. c \<noteq> CHR 0x00) (k @ [CHR ''=''] @ v) = k @ CHR ''='' # v"
    using assms by (subst takeWhile_none) (auto simp: clean_def)
  then show ?thesis
    by (simp only: load_line_def Let_def takeWhile_stop [OF assms(3)] dropWhile_stop [OF assms(3)] list.case)
qed

lemma load_loop_stored:
  assumes "storable plist" "sorted_keys (done_part @ plist)"
  shows "load_loop done_part (store plist) = done_part @ plist"
  using assms
proof (induction plist arbitrary: done_part)
  case Nil
  then show ?case by (subst load_loop.simps) (simp add: store_def getline_def load_line_def)
next
  case (Cons kv plist)
  obtain k v where kv: "kv = (k, v)" by fastforce
  have ok: "clean k" "clean v" "CHR ''='' \<notin> set k" "length k + length v < 1023"
    using Cons.prems(1) by (auto simp: storable_def kv)
  have st: "store (kv # plist) = (k @ [CHR ''=''] @ v @ [CHR 0x0A]) @ store plist"
    by (simp add: store_def kv)
  have "\<forall>k'\<in>fst ` set done_part. k' < k"
    using Cons.prems(2) by (auto simp: sorted_keys_def sorted_wrt_append kv)
  then have set: "setProperty done_part k v = done_part @ [(k, v)]" by (rule setProperty_last)
  have "load_loop done_part (store (kv # plist)) = load_loop (done_part @ [(k, v)]) (store plist)"
    unfolding st
    by (subst load_loop.simps)
      (simp only: getline_stored [OF ok(1,2,4)] load_line_stored [OF ok(1-3)] set Let_def prod.case if_True)
  also have "\<dots> = done_part @ kv # plist"
    using Cons.IH [of "done_part @ [(k, v)]"] Cons.prems by (simp add: storable_def kv)
  finally show ?case .
qed

section \<open>Properties\<close>

text \<open>C28: A property table that is stored to a file and loaded again is the same table, if no key or
  value has a newline or NUL, no key an equals sign, and every line fits the buffer of
  \<^verbatim>\<open>getline\<close>; and an integer property is read back as it was set, over the whole range of
  \<^verbatim>\<open>int\<close>, without disturbing the other properties.\<close>
theorem properties_roundtrip:
  assumes "storable plist" "sorted_keys plist" "- (2 ^ 31) \<le> i" "i < 2 ^ 31"
  shows "load [] (Some (store plist)) = plist \<and> getPropertyInt (setPropertyInt plist key i) key dflt = i \<and>
    (key' \<noteq> key \<longrightarrow> getProperty (setPropertyInt plist key i) key' s = getProperty plist key' s) \<and>
    sorted_keys (setPropertyInt plist key i)"
proof -
  have "load_loop [] (store plist) = plist" using load_loop_stored [of plist "[]"] assms(1,2) by simp
  moreover have "getPropertyInt (setPropertyInt plist key i) key dflt = i"
    using get_set_Int [OF assms(2-4)] by simp
  moreover have "map_of (setPropertyInt plist key i) = (map_of plist)(key \<mapsto> print_int i)"
    using map_of_setProperty [OF assms(2)] by (simp add: setPropertyInt_def)
  moreover have "sorted_keys (setPropertyInt plist key i)"
    using sorted_setProperty [OF assms(2)] by (simp add: setPropertyInt_def)
  ultimately show ?thesis by (simp add: load_def getProperty_def)
qed

theorem properties_roundtrip_witness:
  "load [] (Some (store [(''a'', ''1''), (''b'', ''x=y'')])) = [(''a'', ''1''), (''b'', ''x=y'')] \<and>
   getPropertyInt (setPropertyInt [(''a'', ''1''), (''b'', ''x=y'')] ''c'' (- 2147483648)) ''c'' 0 = - 2147483648"
  using properties_roundtrip [of "[(''a'', ''1''), (''b'', ''x=y'')]" "- 2147483648" "''c''" 0]
  by (simp add: storable_def sorted_keys_def clean_def)

end
