(* ===== verification/Adaptor.thy ===== *)
theory Adaptor
  imports Db_Iter Properties
begin

text \<open>
  The adaptor between the file system and the database
  (\<^verbatim>\<open>src/adaptor/leveldb_adaptor.cpp\<close>).
  \<^item> Return codes are those of the code: 1 and -1 for \<^verbatim>\<open>Get\<close>, 0 and -1 for the others.
  \<^item> \<open>ad_now\<close> is what \<^verbatim>\<open>time(NULL)\<close> returns; it is the one clock of the model.
  \<^item> \<^verbatim>\<open>async_data_size\<close> is an \<^verbatim>\<open>int\<close>, so it is kept as a 32-bit word that wraps and is
    compared as a signed number.
  \<^item> The logging of \<^verbatim>\<open>logon\<close>, the statistics and \<^verbatim>\<open>Compact\<close> have no effect on the
    contents and are left out.
  The adaptor satisfies the contract \<open>kv_store\<close> of the database, now over its return
  codes; the inode cache uses it only through that interpretation.
\<close>

record LevelDBAdaptor =
  ad_db :: DBImpl
  ad_writeahead :: bool
  ad_sync_time_limit :: int
  ad_sync_size_limit :: int
  ad_last_sync_time :: int
  ad_async_data_size :: u32
  ad_now :: int

definition WriteOptions_new :: WriteOptions where
  "WriteOptions_new = \<lparr>wo_sync = False, wo_writeahead = True\<rparr>"

definition Adaptor_Init :: "Properties \<Rightarrow> int \<Rightarrow> DBImpl option \<Rightarrow> LevelDBAdaptor option \<times> int" where
  "Adaptor_Init p now opened =
     (case opened of
        None \<Rightarrow> (None, -1)
      | Some db \<Rightarrow>
          (Some \<lparr>ad_db = db,
             ad_writeahead = getPropertyBool p ''leveldb.writeahead'' True,
             ad_sync_time_limit = getPropertyInt p ''leveldb.sync.time.limit'' 5,
             ad_sync_size_limit = getPropertyInt p ''leveldb.sync.size.limit'' (-1),
             ad_last_sync_time = now,
             ad_async_data_size = 0,
             ad_now = now\<rparr>, 0))"

definition NotFound_string :: bytes where
  "NotFound_string = [0x4E, 0x6F, 0x74, 0x46, 0x6F, 0x75, 0x6E, 0x64, 0x3A, 0x20]"

definition Adaptor_Get :: "LevelDBAdaptor \<Rightarrow> bytes \<Rightarrow> int \<times> bytes" where
  "Adaptor_Get ad key =
     (case DBImpl_Get (ad_db ad) None key of
        None \<Rightarrow> (-1, NotFound_string)
      | Some result \<Rightarrow> (1, result))"

definition Adaptor_GetNewIterator :: "LevelDBAdaptor \<Rightarrow> DBIter" where
  "Adaptor_GetNewIterator ad = DBImpl_NewIterator (ad_db ad)"

definition sync_key :: bytes where
  "sync_key = [0x73, 0x79, 0x6E, 0x63]"

definition Adaptor_Sync :: "LevelDBAdaptor \<Rightarrow> LevelDBAdaptor \<times> int" where
  "Adaptor_Sync ad =
     (let write_options = WriteOptions_new\<lparr>wo_sync := True\<rparr>;
          (db, ok) = DB_Put (ad_db ad) write_options sync_key []
      in (ad\<lparr>ad_db := db\<rparr>, if ok then 0 else -1))"

definition sync_policy :: "LevelDBAdaptor \<Rightarrow> bytes \<Rightarrow> bytes \<Rightarrow> LevelDBAdaptor \<times> bool" where
  "sync_policy ad key v =
     (if ad_sync_size_limit ad > 0 then
        (let n = ad_async_data_size ad + of_nat (length key + length v)
         in if sint n > ad_sync_size_limit ad then (ad\<lparr>ad_async_data_size := 0\<rparr>, True)
            else (ad\<lparr>ad_async_data_size := n\<rparr>, False))
      else if ad_sync_time_limit ad > 0 then
        (let now = ad_now ad
         in if now - ad_last_sync_time ad > ad_sync_time_limit ad
            then (ad\<lparr>ad_last_sync_time := now\<rparr>, True) else (ad, False))
      else (ad, False))"

definition Adaptor_Put :: "LevelDBAdaptor \<Rightarrow> bytes \<Rightarrow> bytes \<Rightarrow> LevelDBAdaptor \<times> int" where
  "Adaptor_Put ad key v =
     (let (ad, sync) = sync_policy ad key v;
          write_options = WriteOptions_new\<lparr>wo_sync := sync, wo_writeahead := ad_writeahead ad\<rparr>;
          (db, ok) = DB_Put (ad_db ad) write_options key v
      in (ad\<lparr>ad_db := db\<rparr>, if ok then 0 else -1))"

definition Adaptor_Delete :: "LevelDBAdaptor \<Rightarrow> bytes \<Rightarrow> LevelDBAdaptor \<times> int" where
  "Adaptor_Delete ad key =
     (let (db, _) = DB_Delete (ad_db ad) WriteOptions_new key in (ad\<lparr>ad_db := db\<rparr>, 0))"

definition Adaptor_Write :: "LevelDBAdaptor \<Rightarrow> WriteBatch \<Rightarrow> LevelDBAdaptor \<times> int" where
  "Adaptor_Write ad batch =
     (let (db, ok) = DBImpl_Write (ad_db ad) WriteOptions_new batch
      in (ad\<lparr>ad_db := db\<rparr>, if ok then 0 else -1))"

section \<open>The adaptor is a key-value store\<close>

definition ad_ok :: "nat \<Rightarrow> LevelDBAdaptor \<Rightarrow> bool" where
  "ad_ok n ad \<longleftrightarrow> db_ok n (ad_db ad)"

definition ad_lookup :: "LevelDBAdaptor \<Rightarrow> bytes \<Rightarrow> bytes option" where
  "ad_lookup ad = db_lookup (ad_db ad)"

definition get_result :: "int \<times> bytes \<Rightarrow> bytes option" where
  "get_result r = (if fst r > 0 then Some (snd r) else None)"

lemma sync_policy_db: "sync_policy ad key v = (ad', sync) \<Longrightarrow> ad_db ad' = ad_db ad \<and> ad_now ad' = ad_now ad"
  by (auto simp: sync_policy_def Let_def split: if_splits)

lemma get_result_Get: "get_result (Adaptor_Get ad key) = DBImpl_Get (ad_db ad) None key"
  by (auto simp: get_result_def Adaptor_Get_def split: option.splits)

interpretation ad: kv_store ad_ok ad_lookup "\<lambda>ad key. get_result (Adaptor_Get ad key)"
  "\<lambda>ad key v. map_prod id (\<lambda>r. r = 0) (Adaptor_Put ad key v)"
  "\<lambda>ad key. map_prod id (\<lambda>r. r = 0) (Adaptor_Delete ad key)"
  "\<lambda>ad b. map_prod id (\<lambda>r. r = 0) (Adaptor_Write ad b)"
proof (unfold_locales, goal_cases)
  case (1 n d m)
  then show ?case using db.ok_less by (auto simp: ad_ok_def)
next
  case (2 n d key)
  then show ?case using db.get_ok by (simp add: ad_ok_def ad_lookup_def get_result_Get)
next
  case (3 n d key v)
  obtain ad sync where S: "sync_policy d key v = (ad, sync)" by fastforce
  have same: "ad_db ad = ad_db d" using sync_policy_db [OF S] by simp
  let ?opt = "WriteOptions_new\<lparr>wo_sync := sync, wo_writeahead := ad_writeahead ad\<rparr>"
  obtain db' where "DB_Put (ad_db d) ?opt key v = (db', True)" "db_ok n db'"
    "db_lookup db' = (db_lookup (ad_db d))(key \<mapsto> v)"
    using db.put_ok [OF 3(1) [unfolded ad_ok_def] 3(2,3), of ?opt] by blast
  then show ?case by (simp add: Adaptor_Put_def S same ad_ok_def ad_lookup_def)
next
  case (4 n d key)
  obtain db' where "DB_Delete (ad_db d) WriteOptions_new key = (db', True)" "db_ok n db'"
    "db_lookup db' = (db_lookup (ad_db d))(key := None)"
    using db.delete_ok [OF 4(1) [unfolded ad_ok_def] 4(2), of WriteOptions_new] by blast
  then show ?case by (simp add: Adaptor_Delete_def ad_ok_def ad_lookup_def)
next
  case (5 n ops d b s)
  obtain db' where "DBImpl_Write (ad_db d) WriteOptions_new b = (db', True)" "db_ok n db'"
    "db_lookup db' = apply_ops ops (db_lookup (ad_db d))"
    using db.write_ok [OF 5(1) [unfolded ad_ok_def] 5(2,3), of WriteOptions_new] by blast
  then show ?case by (simp add: Adaptor_Write_def ad_ok_def ad_lookup_def)
qed

lemma Adaptor_Get_eq:
  assumes "ad_ok n ad" "length key + 8 < 2 ^ 32"
  shows "Adaptor_Get ad key = (case ad_lookup ad key of None \<Rightarrow> (-1, NotFound_string) | Some v \<Rightarrow> (1, v))"
  using ad.get_ok [OF assms, unfolded get_result_Get] by (simp only: Adaptor_Get_def)

lemma Adaptor_Put_ok:
  assumes "ad_ok (Suc n) ad" "length key + 8 < 2 ^ 32" "length v < 2 ^ 32"
  shows "\<exists>ad'. Adaptor_Put ad key v = (ad', 0) \<and> ad_ok n ad' \<and> ad_lookup ad' = (ad_lookup ad)(key \<mapsto> v) \<and>
    ad_now ad' = ad_now ad"
proof -
  obtain ad' r where P: "Adaptor_Put ad key v = (ad', r)" by fastforce
  then have "ad_now ad' = ad_now ad"
    using sync_policy_db [of ad key v] by (auto simp: Adaptor_Put_def Let_def split: prod.splits)
  then show ?thesis using ad.put_ok [OF assms] P by auto
qed

lemma Adaptor_Delete_ok:
  assumes "ad_ok (Suc n) ad" "length key + 8 < 2 ^ 32"
  shows "\<exists>ad'. Adaptor_Delete ad key = (ad', 0) \<and> ad_ok n ad' \<and> ad_lookup ad' = (ad_lookup ad)(key := None) \<and>
    ad_now ad' = ad_now ad"
proof -
  obtain ad' r where P: "Adaptor_Delete ad key = (ad', r)" by fastforce
  then have "ad_now ad' = ad_now ad" by (auto simp: Adaptor_Delete_def split: prod.splits)
  then show ?thesis using ad.delete_ok [OF assms] P by auto
qed

lemma Adaptor_Write_ok:
  assumes "ad_ok (n + length ops) ad" "batch_rep b s ops" "length ops < 2 ^ 31"
  shows "\<exists>ad'. Adaptor_Write ad b = (ad', 0) \<and> ad_ok n ad' \<and> ad_lookup ad' = apply_ops ops (ad_lookup ad) \<and>
    ad_now ad' = ad_now ad"
proof -
  obtain ad' r where P: "Adaptor_Write ad b = (ad', r)" by fastforce
  then have "ad_now ad' = ad_now ad" by (auto simp: Adaptor_Write_def split: prod.splits)
  then show ?thesis using ad.write_ok [OF assms] P by auto
qed

text \<open>Every value the store returns fits the length field it was written with.\<close>

lemma first_newest_in: "first_newest ess key = Some e \<Longrightarrow> e \<in> \<Union> (set ` set ess)"
proof (induction ess)
  case (Cons es ess)
  have "newest es key = Some x \<Longrightarrow> x \<in> set es" for x by (auto simp: newest_def find_Some_iff)
  then show ?case using Cons by (auto split: option.splits)
qed simp

lemma db_rep_entry_ok:
  assumes "db_rep db m i ts" "es \<in> set (parts m i ts)" "e \<in> set es"
  shows "entry_ok e"
proof -
  have "es = m \<or> i = Some es \<or> es \<in> set ts" using assms(2) by (auto simp: parts_def split: option.splits)
  then show ?thesis
  proof (elim disjE)
    assume "i = Some es"
    then show ?thesis using assms by (cases "db_imm db") (auto simp: db_rep_def mem_rep_def)
  next
    assume "es \<in> set ts"
    moreover have "list_all2 table_rep (db_level0 db) ts" using assms(1) by (simp add: db_rep_def)
    ultimately obtain t where "table_rep t es" by (auto simp: list_all2_conv_all_nth in_set_conv_nth)
    then show ?thesis using assms(3) by (simp add: table_rep_def)
  qed (use assms in \<open>auto simp: db_rep_def mem_rep_def\<close>)
qed

lemma ad_lookup_short:
  assumes "ad_ok n ad" "ad_lookup ad key = Some v"
  shows "length v < 2 ^ 32"
proof -
  obtain m i ts where rep: "db_rep (ad_db ad) m i ts" and last: "unat (db_last_sequence (ad_db ad)) < 2 ^ 56"
    using assms(1) by (auto simp: ad_ok_def db_ok_def)
  have look: "db_lookup (ad_db ad) key = Some v" using assms(2) by (simp add: ad_lookup_def)
  then have key: "length key + 8 < 2 ^ 32" by (auto simp: db_lookup_def split: if_splits)
  have "Option.bind (first_newest (parts m i ts) key) entry_value = Some v"
    using DBImpl_Get_rep [OF rep key last] look by simp
  then obtain e where e: "first_newest (parts m i ts) key = Some e" "entry_value e = Some v"
    by (auto simp: bind_eq_Some_conv)
  then obtain es where "es \<in> set (parts m i ts)" "e \<in> set es" using first_newest_in by blast
  then have "entry_ok e" by (rule db_rep_entry_ok [OF rep])
  moreover have "v = e_val e" using e(2) by (auto simp: entry_value_def split: ValueType.splits)
  ultimately show ?thesis by (simp add: entry_ok_def)
qed

section \<open>Properties\<close>

text \<open>C26: The adaptor is a map from keys to values behind return codes: \<^verbatim>\<open>Put\<close> returns 0, and
  \<^verbatim>\<open>Get\<close> then returns 1 and the value for that key and what it returned before for every other;
  after \<^verbatim>\<open>Delete\<close> it returns -1 and the text of \<^verbatim>\<open>NotFound\<close> for that key and what it returned before
  for every other.\<close>
theorem adaptor_map:
  assumes "ad_ok (Suc n) ad" "length key + 8 < 2 ^ 32" "length key' + 8 < 2 ^ 32" "length v < 2 ^ 32"
  shows "(\<exists>ad'. Adaptor_Put ad key v = (ad', 0) \<and> ad_ok n ad' \<and>
      Adaptor_Get ad' key' = (if key' = key then (1, v) else Adaptor_Get ad key')) \<and>
    (\<exists>ad'. Adaptor_Delete ad key = (ad', 0) \<and> ad_ok n ad' \<and>
      Adaptor_Get ad' key' = (if key' = key then (-1, NotFound_string) else Adaptor_Get ad key'))"
proof -
  obtain ad1 where P: "Adaptor_Put ad key v = (ad1, 0)" "ad_ok n ad1" "ad_lookup ad1 = (ad_lookup ad)(key \<mapsto> v)"
    using Adaptor_Put_ok [OF assms(1,2,4)] by blast
  obtain ad2 where D: "Adaptor_Delete ad key = (ad2, 0)" "ad_ok n ad2" "ad_lookup ad2 = (ad_lookup ad)(key := None)"
    using Adaptor_Delete_ok [OF assms(1,2)] by blast
  show ?thesis
    using P D Adaptor_Get_eq [OF P(2) assms(3)] Adaptor_Get_eq [OF D(2) assms(3)] Adaptor_Get_eq [OF assms(1,3)] by auto
qed

theorem adaptor_map_witness:
  "\<exists>ad'. Adaptor_Put \<lparr>ad_db = DBImpl_new, ad_writeahead = True, ad_sync_time_limit = 5, ad_sync_size_limit = 100,
       ad_last_sync_time = 0, ad_async_data_size = 90, ad_now = 0\<rparr> [1] (replicate 20 7) = (ad', 0) \<and>
     Adaptor_Get ad' [1] = (1, replicate 20 7)"
proof -
  let ?ad = "\<lparr>ad_db = DBImpl_new, ad_writeahead = True, ad_sync_time_limit = 5, ad_sync_size_limit = 100,
       ad_last_sync_time = 0, ad_async_data_size = 90, ad_now = 0\<rparr>"
  have "ad_ok (Suc 0) ?ad" using DBImpl_new_ok(1) [of "Suc 0"] by (simp add: ad_ok_def)
  from adaptor_map [OF this, of "[1]" "[1]" "replicate 20 7"] show ?thesis by auto
qed

text \<open>The bytes handed to \<^verbatim>\<open>Put\<close> since the last synchronous one, over a sequence of calls that starts with
  \<open>n\<close> of them.\<close>

fun put_all :: "LevelDBAdaptor \<Rightarrow> nat \<Rightarrow> (bytes \<times> bytes) list \<Rightarrow> LevelDBAdaptor \<times> nat" where
  "put_all ad n [] = (ad, n)"
| "put_all ad n ((key, v) # kvs) =
     put_all (fst (Adaptor_Put ad key v)) (if snd (sync_policy ad key v) then 0 else n + (length key + length v)) kvs"

lemma Adaptor_Put_sync:
  "fst (Adaptor_Put ad key v) = (fst (sync_policy ad key v))\<lparr>ad_db := fst (DB_Put (ad_db ad)
     \<lparr>wo_sync = snd (sync_policy ad key v), wo_writeahead = ad_writeahead ad\<rparr> key v)\<rparr>"
  by (auto simp: Adaptor_Put_def WriteOptions_new_def sync_policy_def Let_def split: prod.split)

lemma sync_policy_size:
  assumes "0 < ad_sync_size_limit ad" "ad_sync_size_limit ad + int (length key + length v) < 2 ^ 31"
    and "int (unat (ad_async_data_size ad)) \<le> ad_sync_size_limit ad"
  defines "n \<equiv> unat (ad_async_data_size ad) + (length key + length v)"
  shows "snd (sync_policy ad key v) \<longleftrightarrow> ad_sync_size_limit ad < int n"
    and "unat (ad_async_data_size (fst (sync_policy ad key v))) = (if snd (sync_policy ad key v) then 0 else n)"
    and "ad_sync_size_limit (fst (sync_policy ad key v)) = ad_sync_size_limit ad"
proof -
  let ?w = "ad_async_data_size ad + of_nat (length key + length v)"
  have "int (unat (ad_async_data_size ad)) + int (length key + length v) < 2 ^ 31" using assms(2,3) by linarith
  then have "int n < int (2 ^ 31)" by (simp only: n_def of_nat_add of_nat_power of_nat_numeral)
  then have n: "n < 2 ^ 31" by (simp only: of_nat_less_iff)
  have "?w = of_nat n" by (simp add: n_def)
  then have w: "unat ?w = n" using n by (simp add: unat_of_nat take_bit_nat_eq_self)
  then have i: "sint ?w = int n"
    using n sint_uint [of ?w] by (simp add: uint_nat signed_take_bit_int_eq_self)
  show "snd (sync_policy ad key v) \<longleftrightarrow> ad_sync_size_limit ad < int n"
    and "unat (ad_async_data_size (fst (sync_policy ad key v))) = (if snd (sync_policy ad key v) then 0 else n)"
    and "ad_sync_size_limit (fst (sync_policy ad key v)) = ad_sync_size_limit ad"
    using assms(1) w i by (simp_all add: sync_policy_def Let_def)
qed

lemma put_all_size:
  assumes "0 < L" "\<forall>(key, v)\<in>set kvs. L + int (length key + length v) < 2 ^ 31"
    and "ad_sync_size_limit ad = L" "unat (ad_async_data_size ad) = n" "int n \<le> L" "put_all ad n kvs = (ad', n')"
  shows "ad_sync_size_limit ad' = L \<and> unat (ad_async_data_size ad') = n' \<and> int n' \<le> L"
  using assms(2-)
proof (induction kvs arbitrary: ad n)
  case (Cons kv kvs)
  obtain key v where kv: "kv = (key, v)" by (cases kv)
  have a: "0 < ad_sync_size_limit ad" "ad_sync_size_limit ad + int (length key + length v) < 2 ^ 31"
    "int (unat (ad_async_data_size ad)) \<le> ad_sync_size_limit ad"
    using Cons.prems assms(1) by (auto simp: kv)
  note S = sync_policy_size [OF a]
  let ?n = "if snd (sync_policy ad key v) then 0 else n + (length key + length v)"
  show ?case
  proof (rule Cons.IH)
    show "ad_sync_size_limit (fst (Adaptor_Put ad key v)) = L" "unat (ad_async_data_size (fst (Adaptor_Put ad key v))) = ?n"
      "int ?n \<le> L" using S Cons.prems(2-4) assms(1) by (auto simp: Adaptor_Put_sync)
  qed (use Cons.prems in \<open>simp_all add: kv\<close>)
qed simp

text \<open>C13: With a size limit, the data that a crash of the system can lose is bounded. After any sequence of calls of
  \<^verbatim>\<open>Put\<close> on a freshly opened adaptor, the bytes of keys and values put since the last synchronous put are
  at most the limit, and are what \<^verbatim>\<open>async_data_size\<close> holds. The next \<^verbatim>\<open>Put\<close> is made with the option \<^verbatim>\<open>sync\<close> just if they and
  its own bytes would exceed the limit. The 32-bit count does not wrap as long as the limit and the bytes of a single
  put together are below \<open>2 ^ 31\<close>. Deletes and batches are written without \<^verbatim>\<open>sync\<close> and are not counted.\<close>
theorem unsynced_bounded:
  assumes "Adaptor_Init p now (Some db) = (Some ad0, 0)" "0 < ad_sync_size_limit ad0"
    and "\<forall>(key, v)\<in>set ((key', v') # kvs). ad_sync_size_limit ad0 + int (length key + length v) < 2 ^ 31"
  shows "\<exists>ad n. put_all ad0 0 kvs = (ad, n) \<and> int n \<le> ad_sync_size_limit ad0 \<and> unat (ad_async_data_size ad) = n \<and>
    fst (Adaptor_Put ad key' v') = (fst (sync_policy ad key' v'))\<lparr>ad_db := fst (DB_Put (ad_db ad)
      \<lparr>wo_sync = (ad_sync_size_limit ad0 < int (n + length key' + length v')), wo_writeahead = ad_writeahead ad\<rparr> key' v')\<rparr>"
proof -
  obtain ad n where P: "put_all ad0 0 kvs = (ad, n)" by fastforce
  have "unat (ad_async_data_size ad0) = 0" using assms(1) by (auto simp: Adaptor_Init_def)
  then have R: "ad_sync_size_limit ad = ad_sync_size_limit ad0" "unat (ad_async_data_size ad) = n" "int n \<le> ad_sync_size_limit ad0"
    using put_all_size [OF assms(2) _ refl _ _ P] assms(2,3) by auto
  have "snd (sync_policy ad key' v') \<longleftrightarrow> ad_sync_size_limit ad0 < int (n + length key' + length v')"
    using sync_policy_size(1) [of ad key' v'] assms(2,3) R by (simp add: add.assoc)
  then show ?thesis using P R Adaptor_Put_sync [of ad key' v'] by simp
qed

theorem unsynced_bounded_witness:
  "\<exists>ad0 ad n. Adaptor_Init (setPropertyInt [] ''leveldb.sync.size.limit'' 30) 0 (Some DBImpl_new) = (Some ad0, 0) \<and>
     put_all ad0 0 [([1], replicate 20 7), ([2], replicate 20 8)] = (ad, n) \<and> int n \<le> 30"
proof -
  have digits: "getPropertyInt (setPropertyInt [] ''leveldb.sync.size.limit'' 30) ''leveldb.sync.size.limit'' (-1) = 30"
    using get_set_Int [of "[]" 30 "''leveldb.sync.size.limit''" "''leveldb.sync.size.limit''" "-1"] by (simp add: sorted_keys_def)
  obtain ad0 where A: "Adaptor_Init (setPropertyInt [] ''leveldb.sync.size.limit'' 30) 0 (Some DBImpl_new) = (Some ad0, 0)"
    "ad_sync_size_limit ad0 = 30" using digits by (simp add: Adaptor_Init_def)
  from unsynced_bounded [OF A(1), of "[3]" "[]" "[([1], replicate 20 7), ([2], replicate 20 8)]"] A show ?thesis by auto
qed

end
