(* ===== verification/Inode.thy ===== *)
theory Inode
  imports Coding
begin

text \<open>
  The representation of an inode (\<^verbatim>\<open>fs/tfs_inode.h\<close> and the value functions of
  \<^verbatim>\<open>fs/tablefs.cpp\<close>). A value of the metadata database is the struct
  \<^verbatim>\<open>tfs_inode_header\<close>, the file name with its NUL and the inline data.
  \<^item> \<^verbatim>\<open>struct stat\<close> is laid out as on x86-64 Linux (144 bytes, little endian), the layout
    for which \<^verbatim>\<open>padding\<close> makes the header 256 bytes long. The records keep every byte of
    the struct, so a copy of the struct is a copy of the record.
  \<^item> Sizes and offsets are 64-bit words, with the wrap-around of \<^verbatim>\<open>size_t\<close>.
  \<^item> Memory that \<^verbatim>\<open>new char[]\<close> leaves uninitialised is an argument \<open>mem\<close>.
  \<^item> \<open>mk_value\<close> is the intended layout; each operation is shown to act on it as an
    operation on header, name or data.
\<close>

section \<open>struct stat and the inode header\<close>

record tfs_stat_t =
  st_dev :: u64
  st_ino :: u64
  st_nlink :: u64
  st_mode :: u32
  st_uid :: u32
  st_gid :: u32
  st_pad0 :: u32
  st_rdev :: u64
  st_size :: u64
  st_blksize :: u64
  st_blocks :: u64
  st_atim_sec :: u64
  st_atim_nsec :: u64
  st_mtim_sec :: u64
  st_mtim_nsec :: u64
  st_ctim_sec :: u64
  st_ctim_nsec :: u64
  st_reserved :: bytes

record tfs_inode_header =
  fstat :: tfs_stat_t
  h_padding :: bytes
  has_blob :: u32
  namelen :: u32

record tfs_meta_key_t =
  inode_id :: u64
  hash_id :: u64

definition TFS_INODE_ATTR_SIZE :: nat where
  "TFS_INODE_ATTR_SIZE = 144"

definition INODE_PADDING :: nat where
  "INODE_PADDING = 104"

definition TFS_INODE_HEADER_SIZE :: nat where
  "TFS_INODE_HEADER_SIZE = TFS_INODE_ATTR_SIZE + INODE_PADDING + 4 + 4"

definition encode_stat :: "tfs_stat_t \<Rightarrow> bytes" where
  "encode_stat s =
     EncodeFixed64 (st_dev s) @ EncodeFixed64 (st_ino s) @ EncodeFixed64 (st_nlink s) @
     EncodeFixed32 (st_mode s) @ EncodeFixed32 (st_uid s) @ EncodeFixed32 (st_gid s) @
     EncodeFixed32 (st_pad0 s) @ EncodeFixed64 (st_rdev s) @ EncodeFixed64 (st_size s) @
     EncodeFixed64 (st_blksize s) @ EncodeFixed64 (st_blocks s) @
     EncodeFixed64 (st_atim_sec s) @ EncodeFixed64 (st_atim_nsec s) @
     EncodeFixed64 (st_mtim_sec s) @ EncodeFixed64 (st_mtim_nsec s) @
     EncodeFixed64 (st_ctim_sec s) @ EncodeFixed64 (st_ctim_nsec s) @ st_reserved s"

definition decode_stat :: "bytes \<Rightarrow> tfs_stat_t" where
  "decode_stat p =
     \<lparr>st_dev = DecodeFixed64 p, st_ino = DecodeFixed64 (drop 8 p),
      st_nlink = DecodeFixed64 (drop 16 p), st_mode = DecodeFixed32 (drop 24 p),
      st_uid = DecodeFixed32 (drop 28 p), st_gid = DecodeFixed32 (drop 32 p),
      st_pad0 = DecodeFixed32 (drop 36 p), st_rdev = DecodeFixed64 (drop 40 p),
      st_size = DecodeFixed64 (drop 48 p), st_blksize = DecodeFixed64 (drop 56 p),
      st_blocks = DecodeFixed64 (drop 64 p), st_atim_sec = DecodeFixed64 (drop 72 p),
      st_atim_nsec = DecodeFixed64 (drop 80 p), st_mtim_sec = DecodeFixed64 (drop 88 p),
      st_mtim_nsec = DecodeFixed64 (drop 96 p), st_ctim_sec = DecodeFixed64 (drop 104 p),
      st_ctim_nsec = DecodeFixed64 (drop 112 p), st_reserved = take 24 (drop 120 p)\<rparr>"

definition encode_header :: "tfs_inode_header \<Rightarrow> bytes" where
  "encode_header h =
     encode_stat (fstat h) @ h_padding h @ EncodeFixed32 (has_blob h) @ EncodeFixed32 (namelen h)"

definition decode_header :: "bytes \<Rightarrow> tfs_inode_header" where
  "decode_header p =
     \<lparr>fstat = decode_stat p, h_padding = take 104 (drop 144 p),
      has_blob = DecodeFixed32 (drop 248 p), namelen = DecodeFixed32 (drop 252 p)\<rparr>"

definition ToSlice :: "tfs_meta_key_t \<Rightarrow> bytes" where
  "ToSlice key = EncodeFixed64 (inode_id key) @ EncodeFixed64 (hash_id key)"

definition FromSlice :: "bytes \<Rightarrow> tfs_meta_key_t" where
  "FromSlice p = \<lparr>inode_id = DecodeFixed64 p, hash_id = DecodeFixed64 (drop 8 p)\<rparr>"

section \<open>Operations on values\<close>

definition GetInodeHeader :: "bytes \<Rightarrow> tfs_inode_header" where
  "GetInodeHeader v = decode_header v"

definition GetAttribute :: "bytes \<Rightarrow> tfs_stat_t" where
  "GetAttribute v = decode_stat v"

definition data_offset :: "tfs_inode_header \<Rightarrow> u64" where
  "data_offset header = of_nat TFS_INODE_HEADER_SIZE + ucast (namelen header) + 1"

definition GetInlineData :: "bytes \<Rightarrow> u64 \<Rightarrow> u64 \<Rightarrow> bytes" where
  "GetInlineData v offset sz =
     (let header = GetInodeHeader v;
          realoffset = data_offset header + offset
      in if unat realoffset < length v then
           let n = (if unat (realoffset + sz) > length v then length v - unat realoffset
                    else unat sz)
           in take n (drop (unat realoffset) v)
         else [])"

definition UpdateIhandleValue :: "bytes \<Rightarrow> bytes \<Rightarrow> u64 \<Rightarrow> bytes" where
  "UpdateIhandleValue v buf offset =
     (let v = (if unat offset > length v then str_resize v (unat offset) else v)
      in str_replace v (unat offset) (length buf) buf)"

definition UpdateInodeHeader :: "bytes \<Rightarrow> tfs_inode_header \<Rightarrow> bytes" where
  "UpdateInodeHeader v new_header = UpdateIhandleValue v (encode_header new_header) 0"

definition UpdateAttribute :: "bytes \<Rightarrow> tfs_stat_t \<Rightarrow> bytes" where
  "UpdateAttribute v new_fstat = UpdateIhandleValue v (encode_stat new_fstat) 0"

definition UpdateInlineData :: "bytes \<Rightarrow> bytes \<Rightarrow> u64 \<Rightarrow> bytes" where
  "UpdateInlineData v buf offset =
     (let header = GetInodeHeader v;
          realoffset = data_offset header + offset
      in UpdateIhandleValue v buf realoffset)"

definition TruncateInlineData :: "bytes \<Rightarrow> u64 \<Rightarrow> bytes" where
  "TruncateInlineData v new_size =
     (let header = GetInodeHeader v;
          target_size = of_nat TFS_INODE_HEADER_SIZE + ucast (namelen header) + new_size + 1
      in str_resize v (unat (target_size :: u64)))"

definition DropInlineData :: "bytes \<Rightarrow> bytes" where
  "DropInlineData v =
     (let header = GetInodeHeader v; target_size = data_offset header
      in str_resize v (unat target_size))"

definition S_ISREG :: "u32 \<Rightarrow> bool" where
  "S_ISREG m \<longleftrightarrow> m AND 0xF000 = 0x8000"

definition InitStat ::
  "tfs_stat_t \<Rightarrow> u64 \<Rightarrow> u32 \<Rightarrow> u64 \<Rightarrow> u32 \<times> u32 \<Rightarrow> u64 \<Rightarrow> tfs_stat_t" where
  "InitStat statbuf inode mode dev owner now =
     (let statbuf = statbuf\<lparr>st_ino := inode, st_mode := mode, st_dev := dev\<rparr>;
          statbuf = statbuf\<lparr>st_gid := snd owner, st_uid := fst owner\<rparr>;
          statbuf = statbuf\<lparr>st_size := 0, st_blksize := 0, st_blocks := 0\<rparr>;
          statbuf = statbuf\<lparr>st_nlink := (if S_ISREG mode then 1 else 2)\<rparr>
      in statbuf\<lparr>st_atim_sec := now, st_ctim_sec := now, st_mtim_sec := now\<rparr>)"

definition InitInodeValue ::
  "bytes \<Rightarrow> u64 \<Rightarrow> u32 \<Rightarrow> u64 \<Rightarrow> bytes \<Rightarrow> u32 \<times> u32 \<Rightarrow> u64 \<Rightarrow> bytes" where
  "InitInodeValue mem inum mode dev filename owner now =
     (let header = decode_header mem;
          header = header\<lparr>fstat := InitStat (fstat header) inum mode dev owner now\<rparr>;
          header = header\<lparr>has_blob := 0\<rparr>;
          header = header\<lparr>namelen := of_nat (length filename)\<rparr>;
          name_buffer = filename @ [mem ! (TFS_INODE_HEADER_SIZE + length filename)]
      in encode_header header @ name_buffer[unat (namelen header) := 0])"

definition InitInodeValue_rename :: "bytes \<Rightarrow> bytes \<Rightarrow> bytes" where
  "InitInodeValue_rename old_value filename =
     (let header = GetInodeHeader old_value;
          new_value = str_replace old_value TFS_INODE_HEADER_SIZE
            (unat (namelen header + 1)) (filename @ [0]);
          header = header\<lparr>namelen := of_nat (length filename)\<rparr>
      in UpdateInodeHeader new_value header)"

section \<open>Layout\<close>

definition stat_ok :: "tfs_stat_t \<Rightarrow> bool" where
  "stat_ok s \<longleftrightarrow> length (st_reserved s) = 24"

definition header_ok :: "tfs_inode_header \<Rightarrow> bool" where
  "header_ok h \<longleftrightarrow> stat_ok (fstat h) \<and> length (h_padding h) = 104"

definition mk_value :: "tfs_inode_header \<Rightarrow> bytes \<Rightarrow> bytes \<Rightarrow> bytes" where
  "mk_value h name data = encode_header h @ name @ [0] @ data"

definition value_ok :: "tfs_inode_header \<Rightarrow> bytes \<Rightarrow> bool" where
  "value_ok h name \<longleftrightarrow> header_ok h \<and> length name = unat (namelen h)"

lemma header_size [simp]: "TFS_INODE_HEADER_SIZE = 256"
  by (simp add: TFS_INODE_HEADER_SIZE_def TFS_INODE_ATTR_SIZE_def INODE_PADDING_def)

lemma length_encode_stat [simp]: "stat_ok s \<Longrightarrow> length (encode_stat s) = 144"
  by (simp add: encode_stat_def stat_ok_def)

lemma length_encode_header [simp]: "header_ok h \<Longrightarrow> length (encode_header h) = 256"
  by (simp add: encode_header_def header_ok_def)

lemma decode_encode_stat [simp]: "stat_ok s \<Longrightarrow> decode_stat (encode_stat s @ rest) = s"
  by (cases s) (simp add: decode_stat_def encode_stat_def stat_ok_def)

lemma decode_encode_header [simp]: "header_ok h \<Longrightarrow> decode_header (encode_header h @ rest) = h"
  by (cases h) (simp add: decode_header_def encode_header_def header_ok_def)

lemma Encode_Decode64_take: "8 \<le> length p \<Longrightarrow> EncodeFixed64 (DecodeFixed64 p) = take 8 p"
proof -
  assume len: "8 \<le> length p"
  have "DecodeFixed64 p = DecodeFixed64 (take 8 p)"
    using len by (simp add: DecodeFixed64_def DecodeFixed32_def Let_def)
  with len show ?thesis by (simp add: EncodeFixed64_DecodeFixed64)
qed

lemma Encode_Decode32_take: "4 \<le> length p \<Longrightarrow> EncodeFixed32 (DecodeFixed32 p) = take 4 p"
proof -
  assume len: "4 \<le> length p"
  have "DecodeFixed32 p = DecodeFixed32 (take 4 p)"
    using len by (simp add: DecodeFixed32_def)
  with len show ?thesis by (simp add: EncodeFixed32_DecodeFixed32)
qed

lemma take_take_drop: "take a p @ take b (drop a p) = take (a + b) p"
  by (simp add: take_add)

lemma take_take_drop': "take a p @ take b (drop a p) @ rest = take (a + b) p @ rest"
  by (simp add: take_add)

lemma encode_decode_stat: "144 \<le> length p \<Longrightarrow> encode_stat (decode_stat p) = take 144 p"
  by (simp add: encode_stat_def decode_stat_def Encode_Decode64_take Encode_Decode32_take
      take_take_drop [of _ p] take_take_drop' [of _ p])

lemma decode_stat_ok: "144 \<le> length p \<Longrightarrow> stat_ok (decode_stat p)"
  by (simp add: stat_ok_def decode_stat_def)

lemma encode_decode_header: "256 \<le> length p \<Longrightarrow> encode_header (decode_header p) = take 256 p"
  by (simp add: encode_header_def decode_header_def encode_decode_stat Encode_Decode32_take
      take_take_drop [of _ p] take_take_drop' [of _ p])

lemma decode_header_ok: "256 \<le> length p \<Longrightarrow> header_ok (decode_header p)"
  by (simp add: header_ok_def decode_header_def decode_stat_ok)

lemma FromSlice_ToSlice [simp]: "FromSlice (ToSlice key @ rest) = key"
  by (cases key) (simp add: FromSlice_def ToSlice_def)

lemma FromSlice_ToSlice' [simp]: "FromSlice (ToSlice key) = key"
  using FromSlice_ToSlice [of key "[]"] by simp

lemma ToSlice_inject [simp]: "ToSlice k = ToSlice k' \<longleftrightarrow> k = k'"
  by (metis FromSlice_ToSlice')

lemma length_ToSlice [simp]: "length (ToSlice key) = 16"
  by (simp add: ToSlice_def)

lemma every_value:
  assumes "256 \<le> length v" "256 + unat (namelen (decode_header v)) < length v"
    and "v ! (256 + unat (namelen (decode_header v))) = 0"
  defines "k \<equiv> unat (namelen (decode_header v))"
  shows "v = mk_value (decode_header v) (take k (drop 256 v)) (drop (257 + k) v)"
    and "value_ok (decode_header v) (take k (drop 256 v))"
proof -
  have k: "256 + k < length v" using assms(2) by (simp add: k_def)
  have "v = take 256 v @ take k (drop 256 v) @ drop (256 + k) v"
    by (simp add: append_assoc [symmetric] take_take_drop del: append_assoc)
  also have "drop (256 + k) v = v ! (256 + k) # drop (257 + k) v"
    using Cons_nth_drop_Suc [OF k] by simp
  finally show "v = mk_value (decode_header v) (take k (drop 256 v)) (drop (257 + k) v)"
    using assms(1,3) by (simp add: mk_value_def encode_decode_header k_def)
  show "value_ok (decode_header v) (take k (drop 256 v))"
    using assms(1) k by (simp add: value_ok_def decode_header_ok k_def)
qed

section \<open>The operations act on header, name and data\<close>

lemma GetInodeHeader_mk [simp]: "value_ok h name \<Longrightarrow> GetInodeHeader (mk_value h name data) = h"
  by (simp add: GetInodeHeader_def mk_value_def value_ok_def)

lemma GetAttribute_mk [simp]: "value_ok h name \<Longrightarrow> GetAttribute (mk_value h name data) = fstat h"
  by (simp add: GetAttribute_def mk_value_def encode_header_def value_ok_def header_ok_def)

lemma length_mk_value: "value_ok h name \<Longrightarrow> length (mk_value h name data) = 257 + length name + length data"
  by (simp add: mk_value_def value_ok_def)

lemma drop_mk_value:
  "value_ok h name \<Longrightarrow> drop (257 + length name + n) (mk_value h name data) = drop n data"
  by (simp add: mk_value_def value_ok_def)

lemma take_mk_value:
  "value_ok h name \<Longrightarrow> take (257 + length name + n) (mk_value h name data) =
     mk_value h name (take n data)"
  by (simp add: mk_value_def value_ok_def)

lemma unat_ucast_u32: "unat (ucast (n :: u32) :: u64) = unat n"
  using unat_u32_lt [of n] by (simp add: unsigned_ucast_eq take_bit_nat_eq_self)

lemma unat_data_offset:
  assumes "unat off < 2 ^ 63"
  shows "unat (data_offset h + off) = 257 + unat (namelen h) + unat off"
proof -
  have "unat (data_offset h + off) = (257 + unat (namelen h) + unat off) mod 2 ^ 64"
    by (simp add: data_offset_def unat_word_ariths unat_ucast_u32 mod_simps)
  moreover have "257 + unat (namelen h) + unat off < 2 ^ 64"
    using assms unat_u32_lt [of "namelen h"] by simp
  ultimately show ?thesis by (simp only: mod_less)
qed

lemma unat_data_offset_0: "unat (data_offset h) = 257 + unat (namelen h)"
  using unat_data_offset [of 0 h] by simp

definition write_at :: "bytes \<Rightarrow> nat \<Rightarrow> bytes \<Rightarrow> bytes" where
  "write_at data off buf =
     take off data @ replicate (off - length data) 0 @ buf @ drop (off + length buf) data"

lemma UpdateIhandleValue_write_at:
  "UpdateIhandleValue v buf off = write_at v (unat off) buf"
  by (simp add: UpdateIhandleValue_def write_at_def str_resize_def str_replace_def Let_def)

lemma write_at_prefix:
  "length p = k \<Longrightarrow> write_at (p @ data) (k + off) buf = p @ write_at data off buf"
  by (simp add: write_at_def)

lemma write_at_0: "length buf = length p \<Longrightarrow> write_at (p @ data) 0 buf = buf @ data"
  by (simp add: write_at_def)

lemma length_write_at: "length (write_at data off buf) = max (length data) (off + length buf)"
  by (simp add: write_at_def)

lemma read_write_at: "take (length buf) (drop off (write_at data off buf)) = buf"
  by (simp add: write_at_def)

lemma nth_write_at:
  "i < max (length data) (off + length buf) \<Longrightarrow> write_at data off buf ! i =
     (if off \<le> i \<and> i < off + length buf then buf ! (i - off)
      else if i < length data then data ! i else 0)"
proof -
  assume i: "i < max (length data) (off + length buf)"
  define p where "p = take off data @ replicate (off - length data) 0"
  have len: "length p = off" by (simp add: p_def)
  have w: "write_at data off buf = (p @ buf) @ drop (off + length buf) data"
    by (simp add: write_at_def p_def)
  consider "i < off" | "off \<le> i" "i < off + length buf" | "off + length buf \<le> i" by linarith
  then show ?thesis
  proof cases
    case 1
    then have "write_at data off buf ! i = p ! i" unfolding w by (simp add: nth_append len)
    also have "\<dots> = (if i < length data then data ! i else 0)"
      using 1 by (auto simp: nth_append p_def)
    finally show ?thesis using 1 by simp
  next
    case 2
    then show ?thesis unfolding w nth_append length_append len by simp
  next
    case 3
    then have "i < length data" using i by linarith
    then show ?thesis using 3 unfolding w nth_append length_append len by simp
  qed
qed

lemma GetInlineData_mk:
  assumes "value_ok h name" "unat off < 2 ^ 62" "unat sz < 2 ^ 62"
  shows "GetInlineData (mk_value h name data) off sz = take (unat sz) (drop (unat off) data)"
proof -
  have n: "length name = unat (namelen h)" using assms(1) by (simp add: value_ok_def)
  have sum: "unat (off + sz) = unat off + unat sz"
    using assms(2,3) by (simp add: unat_word_ariths)
  have o1: "unat (data_offset h + off) = 257 + length name + unat off"
    using assms(2) n by (simp add: unat_data_offset)
  have o2: "unat (data_offset h + off + sz) = 257 + length name + unat off + unat sz"
    using unat_data_offset [of "off + sz" h] assms(2,3) n sum by (simp add: add.assoc)
  show ?thesis
    using assms(1) drop_mk_value [OF assms(1), of "unat off" data]
    by (auto simp: GetInlineData_def Let_def o1 o2 length_mk_value)
qed

lemma UpdateInodeHeader_mk:
  "value_ok h name \<Longrightarrow> header_ok h' \<Longrightarrow> UpdateInodeHeader (mk_value h name data) h' = mk_value h' name data"
  by (simp add: UpdateInodeHeader_def UpdateIhandleValue_write_at mk_value_def write_at_0 value_ok_def)

lemma UpdateAttribute_mk:
  "value_ok h name \<Longrightarrow> stat_ok st \<Longrightarrow>
     UpdateAttribute (mk_value h name data) st = mk_value (h\<lparr>fstat := st\<rparr>) name data"
  by (simp add: UpdateAttribute_def UpdateIhandleValue_write_at mk_value_def encode_header_def
      write_at_0 value_ok_def header_ok_def)

lemma UpdateInlineData_mk:
  assumes "value_ok h name" "unat off < 2 ^ 63"
  shows "UpdateInlineData (mk_value h name data) buf off = mk_value h name (write_at data (unat off) buf)"
  using assms write_at_prefix [of "encode_header h @ name @ [0]" "257 + length name" data "unat off" buf]
  by (simp add: UpdateInlineData_def UpdateIhandleValue_write_at unat_data_offset Let_def)
    (simp add: mk_value_def value_ok_def)

lemma TruncateInlineData_mk:
  assumes "value_ok h name" "unat n < 2 ^ 63"
  shows "TruncateInlineData (mk_value h name data) n = mk_value h name (str_resize data (unat n))"
proof -
  have "of_nat TFS_INODE_HEADER_SIZE + ucast (namelen h) + n + 1 = data_offset h + n"
    by (simp add: data_offset_def)
  then have *: "unat (of_nat TFS_INODE_HEADER_SIZE + ucast (namelen h) + n + 1) =
      257 + length name + unat n"
    using assms by (simp only: unat_data_offset value_ok_def)
  have "str_resize (mk_value h name data) (257 + length name + unat n) =
      mk_value h name (str_resize data (unat n))"
    using assms(1) by (simp add: str_resize_def take_mk_value length_mk_value)
      (simp add: mk_value_def)
  then show ?thesis using assms(1) * by (simp add: TruncateInlineData_def Let_def)
qed

lemma DropInlineData_mk:
  assumes "value_ok h name"
  shows "DropInlineData (mk_value h name data) = mk_value h name []"
  using assms take_mk_value [OF assms, of 0 data]
  by (simp add: DropInlineData_def Let_def unat_data_offset_0 str_resize_def length_mk_value)
    (simp add: value_ok_def)

definition init_header ::
  "bytes \<Rightarrow> u64 \<Rightarrow> u32 \<Rightarrow> u64 \<Rightarrow> bytes \<Rightarrow> u32 \<times> u32 \<Rightarrow> u64 \<Rightarrow> tfs_inode_header" where
  "init_header mem inum mode dev filename owner now =
     (let h0 = decode_header mem
      in h0\<lparr>fstat := InitStat (fstat h0) inum mode dev owner now, has_blob := 0,
           namelen := of_nat (length filename)\<rparr>)"

lemma InitInodeValue_mk:
  fixes inum :: u64 and mode :: u32 and dev :: u64 and owner :: "u32 \<times> u32" and now :: u64
  assumes "257 + length filename \<le> length mem" "length filename < 2 ^ 32"
  defines "h \<equiv> init_header mem inum mode dev filename owner now"
  shows "InitInodeValue mem inum mode dev filename owner now = mk_value h filename []"
    and "value_ok h filename"
proof -
  define h0 where "h0 = decode_header mem"
  have h: "h = h0\<lparr>fstat := InitStat (fstat h0) inum mode dev owner now, has_blob := 0,
      namelen := of_nat (length filename)\<rparr>"
    by (simp add: h_def init_header_def h0_def Let_def)
  have n: "unat (of_nat (length filename) :: u32) = length filename"
    using assms(2) by (simp add: unat_of_nat take_bit_nat_eq_self)
  then show "InitInodeValue mem inum mode dev filename owner now = mk_value h filename []"
    by (simp add: InitInodeValue_def Let_def mk_value_def h h0_def list_update_append)
  have "header_ok h0" using assms(1) by (simp add: h0_def decode_header_ok)
  then show "value_ok h filename"
    using n by (simp add: value_ok_def header_ok_def stat_ok_def h InitStat_def Let_def)
qed

lemma InitInodeValue_rename_mk:
  assumes "value_ok h name" "length name < 2 ^ 32 - 1" "length filename < 2 ^ 32"
  defines "h' \<equiv> h\<lparr>namelen := of_nat (length filename)\<rparr>"
  shows "InitInodeValue_rename (mk_value h name data) filename = mk_value h' filename data"
    and "value_ok h' filename"
proof -
  have n: "unat (of_nat (length filename) :: u32) = length filename"
    using assms(3) by (simp add: unat_of_nat take_bit_nat_eq_self)
  have m: "unat (namelen h + 1) = length name + 1"
    using assms(1,2) by (simp add: value_ok_def unat_word_ariths)
  show "value_ok h' filename" using assms(1) n by (simp add: value_ok_def header_ok_def h'_def)
  then have "header_ok h'" by (simp add: value_ok_def)
  moreover have "str_replace (mk_value h name data) 256 (length name + 1) (filename @ [0]) =
      encode_header h @ filename @ [0] @ data"
    using assms(1) by (simp add: str_replace_def mk_value_def value_ok_def)
  ultimately show "InitInodeValue_rename (mk_value h name data) filename = mk_value h' filename data"
    using assms(1) m
    by (simp add: InitInodeValue_rename_def Let_def UpdateInodeHeader_def UpdateIhandleValue_write_at
        write_at_0 value_ok_def h'_def)
      (simp add: mk_value_def)
qed

section \<open>Properties\<close>

definition blank_header :: "u32 \<Rightarrow> tfs_inode_header" where
  "blank_header n = \<lparr>fstat = decode_stat (replicate 144 0), h_padding = replicate 104 0, has_blob = 0, namelen = n\<rparr>"

lemma blank_header_ok: "length name < 2 ^ 32 \<Longrightarrow> n = of_nat (length name) \<Longrightarrow> value_ok (blank_header n) name"
  by (simp add: blank_header_def value_ok_def header_ok_def decode_stat_ok unat_of_nat take_bit_nat_eq_self)

text \<open>C12: A data write of \<^verbatim>\<open>UpdateInlineData\<close> at offset \<open>off\<close> into the value of an inode
  gives the value with the same header and the same name and the data changed like a file's: the new
  bytes inside the written range, the old ones outside it, zeros in a hole before it. The header, the
  bytes of the name, and the data at any offset are read back from it so.\<close>
theorem inline_write_read:
  assumes "value_ok h name" "unat off < 2 ^ 62" "unat roff < 2 ^ 62" "unat sz < 2 ^ 62" "length buf < 2 ^ 62"
  shows "UpdateInlineData (mk_value h name data) buf off = mk_value h name (write_at data (unat off) buf) \<and>
    GetInodeHeader (UpdateInlineData (mk_value h name data) buf off) = h \<and>
    take (length name + 1) (drop 256 (UpdateInlineData (mk_value h name data) buf off)) = name @ [0] \<and>
    GetInlineData (UpdateInlineData (mk_value h name data) buf off) roff sz =
      take (unat sz) (drop (unat roff) (write_at data (unat off) buf)) \<and>
    GetInlineData (UpdateInlineData (mk_value h name data) buf off) off (of_nat (length buf)) = buf"
proof -
  have "unat (of_nat (length buf) :: u64) = length buf"
    using assms(5) by (simp add: unat_of_nat take_bit_nat_eq_self)
  moreover have "take (length name + 1) (drop 256 (mk_value h name d)) = name @ [0]" for d
    using assms(1) by (simp add: mk_value_def value_ok_def)
  ultimately show ?thesis
    using assms by (simp add: UpdateInlineData_mk GetInlineData_mk read_write_at)
qed

theorem inline_write_read_witness:
  "GetInlineData (UpdateInlineData (mk_value (blank_header 1) [7] [1, 2, 3]) [9, 8] 4) 0 10 =
     [1, 2, 3, 0, 9, 8]"
proof -
  have v: "value_ok (blank_header 1) [7]" using blank_header_ok [of "[7]" 1] by simp
  from inline_write_read [OF v, of 4 0 10 "[9, 8]" "[1, 2, 3]", THEN conjunct2, THEN conjunct2, THEN conjunct2, THEN conjunct1]
  show ?thesis by (simp add: write_at_def)
qed

text \<open>The header of an inode value survives being written and read as bytes, whatever follows
  it, and every 256-byte string is the encoding of the header read from it: the fields of
  \<^verbatim>\<open>tfs_inode_header\<close>, the padding included, do not overlap and cover the 256 bytes.\<close>
theorem header_roundtrip:
  assumes "header_ok h" "length p = 256"
  shows "GetInodeHeader (encode_header h @ rest) = h \<and> GetAttribute (encode_header h @ rest) = fstat h \<and>
    encode_header (GetInodeHeader p) = p \<and> header_ok (GetInodeHeader p)"
  using assms
  by (simp add: GetInodeHeader_def GetAttribute_def encode_decode_header decode_header_ok)
    (simp add: encode_header_def header_ok_def)

theorem header_roundtrip_witness:
  "GetInodeHeader (encode_header (blank_header 0) @ [1]) = blank_header 0 \<and>
   encode_header (GetInodeHeader (replicate 256 7)) = replicate 256 7"
proof -
  have h: "header_ok (blank_header 0)" using blank_header_ok [of "[]" 0] by (simp add: value_ok_def)
  show ?thesis using header_roundtrip [OF h length_replicate [of 256 7], of "[1]"] by blast
qed

end
