(* ===== verification/Inode_Cache.thy ===== *)
theory Inode_Cache
  imports Cache_Contract Adaptor Inode
begin

text \<open>
  The inode cache (\<^verbatim>\<open>fs/icache.cpp\<close>): handles that hold the value of one inode, kept in
  a sharded LRU cache under their metadata key and written back to the database.
  \<^item> \<open>ic_handles\<close> is the heap of the \<^verbatim>\<open>InodeCacheHandle\<close> objects; the cache stores their
    addresses. The static \<^verbatim>\<open>metadb_\<close> is the field \<open>ic_metadb\<close>.
  \<^item> \<^verbatim>\<open>CleanInodeHandle\<close> is the deleter of the cache: it runs on every handle the cache
    operation dropped, in that order. Use of a freed handle is \<open>None\<close>.
  \<^item> \<open>ic_ok n ic pin X\<close> is the invariant: clients hold \<open>pin h\<close> references on handle \<open>h\<close>,
    and a handle nobody holds is clean, that is, in mode \<^verbatim>\<open>INODE_READ\<close> with the value
    the database has. The handles in \<open>X\<close> are exempt, between the two steps of a
    deletion.
  The lemmas about the cache rest on the interpretation \<open>lru\<close> of its contract, those
  about the database on the interpretation \<open>ad\<close>.
\<close>

section \<open>Handles and operations\<close>

datatype InodeAccessMode = INODE_READ | INODE_DELETE | INODE_WRITE

record InodeCacheHandle =
  ih_key :: tfs_meta_key_t
  ih_value :: bytes
  ih_mode :: InodeAccessMode
  ih_pointer :: "hid option"

record InodeCache =
  ic_cache :: "nat ShardedLRUCache"
  ic_handles :: "nat \<rightharpoonup> InodeCacheHandle"
  ic_brk :: nat
  ic_metadb :: LevelDBAdaptor

definition MAX_OPEN_FILES :: nat where
  "MAX_OPEN_FILES = 512"

definition InodeCache_new :: "LevelDBAdaptor \<Rightarrow> InodeCache" where
  "InodeCache_new metadb =
     \<lparr>ic_cache = NewLRUCache MAX_OPEN_FILES, ic_handles = Map.empty, ic_brk = 0, ic_metadb = metadb\<rparr>"

definition write_handle :: "InodeCacheHandle \<Rightarrow> LevelDBAdaptor \<Rightarrow> LevelDBAdaptor" where
  "write_handle handle metadb =
     (case ih_mode handle of
        INODE_WRITE \<Rightarrow> fst (Adaptor_Put metadb (ToSlice (ih_key handle)) (ih_value handle))
      | INODE_DELETE \<Rightarrow> fst (Adaptor_Delete metadb (ToSlice (ih_key handle)))
      | INODE_READ \<Rightarrow> metadb)"

definition CleanInodeHandle :: "InodeCache \<Rightarrow> bytes \<times> nat \<Rightarrow> InodeCache option" where
  "CleanInodeHandle ic entry =
     (case ic_handles ic (snd entry) of
        None \<Rightarrow> None
      | Some handle \<Rightarrow>
          let metadb = write_handle handle (ic_metadb ic)
          in Some (ic\<lparr>ic_metadb := metadb, ic_handles := (ic_handles ic)(snd entry := None)\<rparr>))"

fun run_deleter :: "InodeCache \<Rightarrow> (bytes \<times> nat) list \<Rightarrow> InodeCache option" where
  "run_deleter ic [] = Some ic"
| "run_deleter ic (entry # d) =
     (case CleanInodeHandle ic entry of None \<Rightarrow> None | Some ic \<Rightarrow> run_deleter ic d)"

definition new_handle :: "InodeCache \<Rightarrow> tfs_meta_key_t \<Rightarrow> bytes \<Rightarrow> InodeAccessMode \<Rightarrow> (InodeCache \<times> nat) option" where
  "new_handle ic key v mode =
     (let handle = ic_brk ic;
          ic = ic\<lparr>ic_brk := Suc handle,
                  ic_handles := (ic_handles ic)(handle \<mapsto>
                    \<lparr>ih_key = key, ih_value = v, ih_mode = mode, ih_pointer = None\<rparr>)\<rparr>
      in case Cache_Insert (ic_cache ic) (ToSlice key) handle 1 of
           None \<Rightarrow> None
         | Some (cache, ch, d) \<Rightarrow>
             (case run_deleter (ic\<lparr>ic_cache := cache\<rparr>) d of
                None \<Rightarrow> None
              | Some ic \<Rightarrow>
                  Some (ic\<lparr>ic_handles := (ic_handles ic)(handle :=
                    map_option (ih_pointer_update (\<lambda>_. Some ch)) (ic_handles ic handle))\<rparr>, handle)))"

definition InodeCache_Insert :: "InodeCache \<Rightarrow> tfs_meta_key_t \<Rightarrow> bytes \<Rightarrow> (InodeCache \<times> nat) option" where
  "InodeCache_Insert ic key v = new_handle ic key v INODE_WRITE"

definition InodeCache_Get ::
  "InodeCache \<Rightarrow> tfs_meta_key_t \<Rightarrow> InodeAccessMode \<Rightarrow> (InodeCache \<times> nat option) option" where
  "InodeCache_Get ic key mode =
     (case Cache_Lookup (ic_cache ic) (ToSlice key) of
        None \<Rightarrow> None
      | Some (cache, ch) \<Rightarrow>
          let ic = ic\<lparr>ic_cache := cache\<rparr>
          in case ch of
               None \<Rightarrow>
                 let (ret, v) = Adaptor_Get (ic_metadb ic) (ToSlice key)
                 in if ret > 0 then map_option (\<lambda>(ic, h). (ic, Some h)) (new_handle ic key v mode)
                    else Some (ic, None)
             | Some e \<Rightarrow>
                 (case Cache_Value (ic_cache ic) e of
                    None \<Rightarrow> None
                  | Some h \<Rightarrow>
                      (case ic_handles ic h of
                         None \<Rightarrow> None
                       | Some handle \<Rightarrow>
                           Some (if mode \<noteq> INODE_READ
                                 then ic\<lparr>ic_handles := (ic_handles ic)(h \<mapsto> handle\<lparr>ih_mode := mode\<rparr>)\<rparr>
                                 else ic, Some h))))"

definition InodeCache_Release :: "InodeCache \<Rightarrow> nat \<Rightarrow> InodeCache option" where
  "InodeCache_Release ic h =
     (case ic_handles ic h of
        None \<Rightarrow> None
      | Some handle \<Rightarrow>
          (case ih_pointer handle of
             None \<Rightarrow> None
           | Some e \<Rightarrow>
               (case Cache_Release (ic_cache ic) e of
                  None \<Rightarrow> None
                | Some (cache, d) \<Rightarrow> run_deleter (ic\<lparr>ic_cache := cache\<rparr>) d)))"

definition InodeCache_Evict :: "InodeCache \<Rightarrow> tfs_meta_key_t \<Rightarrow> InodeCache option" where
  "InodeCache_Evict ic key =
     (case Cache_Erase (ic_cache ic) (ToSlice key) of
        None \<Rightarrow> None
      | Some (cache, d) \<Rightarrow> run_deleter (ic\<lparr>ic_cache := cache\<rparr>) d)"

definition set_mode :: "InodeCache \<Rightarrow> nat \<Rightarrow> InodeAccessMode \<Rightarrow> InodeCache" where
  "set_mode ic h mode =
     ic\<lparr>ic_handles := (ic_handles ic)(h := map_option (ih_mode_update (\<lambda>_. mode)) (ic_handles ic h))\<rparr>"

definition set_value :: "InodeCache \<Rightarrow> nat \<Rightarrow> bytes \<Rightarrow> InodeCache" where
  "set_value ic h v =
     ic\<lparr>ic_handles := (ic_handles ic)(h := map_option (ih_value_update (\<lambda>_. v)) (ic_handles ic h))\<rparr>"

definition InodeCache_WriteBack :: "InodeCache \<Rightarrow> nat \<Rightarrow> InodeCache option" where
  "InodeCache_WriteBack ic h =
     (case ic_handles ic h of
        None \<Rightarrow> None
      | Some handle \<Rightarrow>
          (case ih_mode handle of
             INODE_WRITE \<Rightarrow>
               let metadb = fst (Adaptor_Put (ic_metadb ic) (ToSlice (ih_key handle)) (ih_value handle))
               in Some (set_mode (ic\<lparr>ic_metadb := metadb\<rparr>) h INODE_READ)
           | INODE_DELETE \<Rightarrow>
               let metadb = fst (Adaptor_Delete (ic_metadb ic) (ToSlice (ih_key handle)))
               in InodeCache_Evict (ic\<lparr>ic_metadb := metadb\<rparr>) (ih_key handle)
           | INODE_READ \<Rightarrow> Some ic))"

definition batch_handle :: "InodeCache \<times> WriteBatch \<Rightarrow> nat \<Rightarrow> (InodeCache \<times> WriteBatch) option" where
  "batch_handle = (\<lambda>(ic, batch) h.
     (case ic_handles ic h of
        None \<Rightarrow> None
      | Some handle \<Rightarrow>
          (case ih_mode handle of
             INODE_WRITE \<Rightarrow>
               let batch = WriteBatch_Put batch (ToSlice (ih_key handle)) (ih_value handle)
               in Some (set_mode ic h INODE_READ, batch)
           | INODE_DELETE \<Rightarrow>
               let batch = WriteBatch_Delete batch (ToSlice (ih_key handle))
               in map_option (\<lambda>ic. (ic, batch)) (InodeCache_Evict ic (ih_key handle))
           | INODE_READ \<Rightarrow> Some (ic, batch))))"

definition InodeCache_BatchCommit :: "InodeCache \<Rightarrow> nat \<Rightarrow> nat \<Rightarrow> InodeCache option" where
  "InodeCache_BatchCommit ic handle1 handle2 =
     (case batch_handle (ic, WriteBatch_Clear) handle1 of
        None \<Rightarrow> None
      | Some r \<Rightarrow>
          (case batch_handle r handle2 of
             None \<Rightarrow> None
           | Some (ic, batch) \<Rightarrow> Some (ic\<lparr>ic_metadb := fst (Adaptor_Write (ic_metadb ic) batch)\<rparr>)))"

definition InodeCache_delete :: "InodeCache \<Rightarrow> InodeCache option" where
  "InodeCache_delete ic =
     (case Cache_destroy (sc_heap (ic_cache ic)) (sc_shard (ic_cache ic)) of
        None \<Rightarrow> None
      | Some (heap, d) \<Rightarrow> run_deleter (ic\<lparr>ic_cache := (ic_cache ic)\<lparr>sc_heap := heap\<rparr>\<rparr>) d)"

section \<open>The invariant\<close>

definition cpin :: "InodeCache \<Rightarrow> (nat \<Rightarrow> nat) \<Rightarrow> hid \<Rightarrow> nat" where
  "cpin ic pin e = (case cache_entry (ic_cache ic) e of None \<Rightarrow> 0 | Some (k, h) \<Rightarrow> pin h)"

definition linked :: "(hid \<Rightarrow> (bytes \<times> nat) option) \<Rightarrow> (nat \<rightharpoonup> InodeCacheHandle) \<Rightarrow> bool" where
  "linked ent handles \<longleftrightarrow>
     (\<forall>e k h. ent e = Some (k, h) \<longrightarrow>
        (\<exists>handle. handles h = Some handle \<and> ih_pointer handle = Some e \<and> k = ToSlice (ih_key handle))) \<and>
     (\<forall>h handle. handles h = Some handle \<longrightarrow>
        (\<exists>e. ih_pointer handle = Some e \<and> ent e = Some (ToSlice (ih_key handle), h)))"

definition clean_handle :: "LevelDBAdaptor \<Rightarrow> InodeCacheHandle \<Rightarrow> bool" where
  "clean_handle metadb handle \<longleftrightarrow>
     ih_mode handle = INODE_READ \<and> ad_lookup metadb (ToSlice (ih_key handle)) = Some (ih_value handle)"

definition ic_ok :: "nat \<Rightarrow> InodeCache \<Rightarrow> (nat \<Rightarrow> nat) \<Rightarrow> nat set \<Rightarrow> bool" where
  "ic_ok n ic pin X \<longleftrightarrow>
     cache_ok (ic_cache ic) (cpin ic pin) \<and>
     linked (cache_entry (ic_cache ic)) (ic_handles ic) \<and>
     (\<forall>h. ic_brk ic \<le> h \<longrightarrow> ic_handles ic h = None) \<and>
     (\<forall>h. 0 < pin h \<longrightarrow> ic_handles ic h \<noteq> None) \<and>
     ad_ok n (ic_metadb ic) \<and>
     (\<forall>h handle. ic_handles ic h = Some handle \<longrightarrow> pin h = 0 \<longrightarrow> h \<notin> X \<longrightarrow>
        clean_handle (ic_metadb ic) handle)"

definition cached_handle :: "InodeCache \<Rightarrow> tfs_meta_key_t \<Rightarrow> nat option" where
  "cached_handle ic key =
     (case cached (ic_cache ic) (ToSlice key) of
        None \<Rightarrow> None
      | Some e \<Rightarrow> map_option snd (cache_entry (ic_cache ic) e))"


definition handle_effect :: "InodeCacheHandle \<Rightarrow> (bytes \<rightharpoonup> bytes) \<Rightarrow> (bytes \<rightharpoonup> bytes)" where
  "handle_effect handle m =
     (case ih_mode handle of
        INODE_WRITE \<Rightarrow> m(ToSlice (ih_key handle) \<mapsto> ih_value handle)
      | INODE_DELETE \<Rightarrow> m(ToSlice (ih_key handle) := None)
      | INODE_READ \<Rightarrow> m)"

definition alone :: "InodeCache \<Rightarrow> nat \<Rightarrow> bool" where
  "alone ic h \<longleftrightarrow> (\<forall>a b h'. ic_handles ic h = Some a \<longrightarrow> ic_handles ic h' = Some b \<longrightarrow>
     ih_key b = ih_key a \<longrightarrow> h' = h)"

definition quiet :: "InodeCache \<Rightarrow> (nat \<Rightarrow> nat) \<Rightarrow> tfs_meta_key_t \<Rightarrow> bool" where
  "quiet ic pin key \<longleftrightarrow> (\<forall>h handle. ic_handles ic h = Some handle \<longrightarrow> ih_key handle = key \<longrightarrow> pin h = 0)"

lemma linkedD:
  assumes "linked ent handles"
  shows "ent e = Some (k, h) \<Longrightarrow>
      \<exists>handle. handles h = Some handle \<and> ih_pointer handle = Some e \<and> k = ToSlice (ih_key handle)"
    and "handles h = Some handle \<Longrightarrow>
      \<exists>e. ih_pointer handle = Some e \<and> ent e = Some (ToSlice (ih_key handle), h)"
  using assms unfolding linked_def by blast+

lemma linked_unique: "linked ent handles \<Longrightarrow> ent e = Some (k, h) \<Longrightarrow> ent e' = Some (k', h) \<Longrightarrow> e' = e"
  using linkedD(1) [of ent handles e k h] linkedD(1) [of ent handles e' k' h] by auto

lemma ic_okD:
  assumes "ic_ok n ic pin X"
  shows "cache_ok (ic_cache ic) (cpin ic pin)" "linked (cache_entry (ic_cache ic)) (ic_handles ic)"
    "ic_brk ic \<le> h \<Longrightarrow> ic_handles ic h = None" "0 < pin h \<Longrightarrow> ic_handles ic h \<noteq> None"
    "ad_ok n (ic_metadb ic)"
    "ic_handles ic h = Some handle \<Longrightarrow> pin h = 0 \<Longrightarrow> h \<notin> X \<Longrightarrow> clean_handle (ic_metadb ic) handle"
  using assms unfolding ic_ok_def by blast+

lemma cpin_handle:
  assumes "linked (cache_entry (ic_cache ic)) (ic_handles ic)" "ic_handles ic h = Some handle"
    and "ih_pointer handle = Some e"
  shows "cpin ic pin e = pin h"
  using linkedD(2) [OF assms(1,2)] assms(3) by (auto simp: cpin_def)

lemma cpin_eqI:
  assumes "cache_ok c p" "\<And>e k h. cache_entry c e = Some (k, h) \<Longrightarrow> p e = pin h" "ic_cache ic = c"
  shows "p = cpin ic pin"
proof
  fix e
  show "p e = cpin ic pin e"
  proof (cases "cache_entry c e")
    case None
    then have "p e = 0" using lru.pinned_live [OF assms(1), of e] by (cases "p e") auto
    then show ?thesis using None by (simp add: cpin_def assms(3))
  next
    case (Some kh)
    then show ?thesis using assms(2) by (cases kh) (simp add: cpin_def assms(3))
  qed
qed

section \<open>The deleter\<close>

lemma drops_handles:
  assumes L: "linked ent handles" and D: "drops ent ent' d"
  shows "distinct (map snd d)"
    and "h \<in> snd ` set d \<longleftrightarrow> (\<exists>handle e. handles h = Some handle \<and> ih_pointer handle = Some e \<and> ent' e = None)"
    and "linked ent' (handles |` (- snd ` set d))"
proof -
  obtain es where es: "distinct es" "set es = dom ent - dom ent'" "map Some d = map ent es" and le: "ent' \<subseteq>\<^sub>m ent"
    using D unfolding drops_def by blast
  have d: "d = map (\<lambda>e. the (ent e)) es"
    using arg_cong [OF es(3), of "map the"] by (simp add: comp_def)
  have ent: "ent e = Some (the (ent e))" if "e \<in> set es" for e using es(2) that by auto
  have inj: "inj_on (\<lambda>e. snd (the (ent e))) (set es)"
  proof (rule inj_onI)
    fix x y assume xy: "x \<in> set es" "y \<in> set es" "snd (the (ent x)) = snd (the (ent y))"
    obtain a g where x: "ent x = Some (a, g)" using ent [OF xy(1)] by (cases "the (ent x)") simp
    obtain b g' where y: "ent y = Some (b, g')" using ent [OF xy(2)] by (cases "the (ent y)") simp
    have "g' = g" using xy(3) x y by simp
    then show "x = y" using linked_unique [OF L, of y b g x a] x y by simp
  qed
  then show "distinct (map snd d)" using es(1) by (simp add: d distinct_map comp_def)
  have mem: "h \<in> snd ` set d \<longleftrightarrow> (\<exists>handle e. handles h = Some handle \<and> ih_pointer handle = Some e \<and> ent' e = None)" for h
  proof
    assume "h \<in> snd ` set d"
    then obtain e where e: "e \<in> set es" "h = snd (the (ent e))" by (auto simp: d)
    then have "ent e = Some (fst (the (ent e)), h)" using ent by simp
    moreover have "ent' e = None" using e(1) es(2) by auto
    ultimately show "\<exists>handle e. handles h = Some handle \<and> ih_pointer handle = Some e \<and> ent' e = None"
      using linkedD(1) [OF L, of e _ h] by blast
  next
    assume "\<exists>handle e. handles h = Some handle \<and> ih_pointer handle = Some e \<and> ent' e = None"
    then obtain handle e where e: "handles h = Some handle" "ih_pointer handle = Some e" "ent' e = None" by blast
    then have "ent e = Some (ToSlice (ih_key handle), h)" using linkedD(2) [OF L e(1)] by auto
    moreover then have "e \<in> set es" using e(3) es(2) by auto
    ultimately show "h \<in> snd ` set d" by (force simp: d)
  qed
  then show "h \<in> snd ` set d \<longleftrightarrow> (\<exists>handle e. handles h = Some handle \<and> ih_pointer handle = Some e \<and> ent' e = None)" .
  have keep: "ent e = Some (k, h)" if "ent' e = Some (k, h)" for e k h
    using le that unfolding map_le_def by (metis domI)
  show "linked ent' (handles |` (- snd ` set d))"
    unfolding linked_def
  proof (intro conjI allI impI)
    fix e k h assume e: "ent' e = Some (k, h)"
    from linkedD(1) [OF L keep [OF e]]
    obtain handle where "handles h = Some handle" "ih_pointer handle = Some e" "k = ToSlice (ih_key handle)" by blast
    moreover then have "h \<notin> snd ` set d" using e unfolding mem by auto
    ultimately show "\<exists>handle. (handles |` (- snd ` set d)) h = Some handle \<and> ih_pointer handle = Some e \<and>
        k = ToSlice (ih_key handle)" by simp
  next
    fix h handle assume h: "(handles |` (- snd ` set d)) h = Some handle"
    then have h': "handles h = Some handle" "h \<notin> snd ` set d" by (auto simp: restrict_map_def split: if_splits)
    obtain e where e: "ih_pointer handle = Some e" "ent e = Some (ToSlice (ih_key handle), h)"
      using linkedD(2) [OF L h'(1)] by blast
    have "ent' e \<noteq> None" using h' e(1) mem [of h] by metis
    then have "ent' e = ent e" using le unfolding map_le_def by (metis domIff)
    then show "\<exists>e. ih_pointer handle = Some e \<and> ent' e = Some (ToSlice (ih_key handle), h)" using e by simp
  qed
qed

lemma run_deleter_reads:
  assumes "distinct (map snd d)" "\<And>h. h \<in> snd ` set d \<Longrightarrow> \<exists>handle. ic_handles ic h = Some handle \<and> ih_mode handle = INODE_READ"
  shows "run_deleter ic d = Some (ic\<lparr>ic_handles := ic_handles ic |` (- snd ` set d)\<rparr>)"
  using assms
proof (induction d arbitrary: ic)
  case Nil
  then show ?case by simp
next
  case (Cons x d)
  obtain handle where h: "ic_handles ic (snd x) = Some handle" "ih_mode handle = INODE_READ"
    using Cons.prems(2) [of "snd x"] by auto
  let ?ic = "ic\<lparr>ic_handles := (ic_handles ic)(snd x := None)\<rparr>"
  have C: "CleanInodeHandle ic x = Some ?ic"
    using h by (simp add: CleanInodeHandle_def write_handle_def)
  have "run_deleter ?ic d = Some (?ic\<lparr>ic_handles := ic_handles ?ic |` (- snd ` set d)\<rparr>)"
  proof (rule Cons.IH)
    show "distinct (map snd d)" using Cons.prems(1) by simp
    fix h assume h: "h \<in> snd ` set d"
    moreover have "snd x \<notin> snd ` set d" using Cons.prems(1) by simp
    ultimately have "h \<noteq> snd x" by blast
    then show "\<exists>handle. ic_handles ?ic h = Some handle \<and> ih_mode handle = INODE_READ"
      using Cons.prems(2) [of h] h by simp
  qed
  moreover have "(ic_handles ic)(snd x := None) |` (- snd ` set d) = ic_handles ic |` (- snd ` set (x # d))"
    by (auto simp: restrict_map_def fun_eq_iff)
  ultimately show ?case using C by simp
qed

lemma run_deleter_append:
  "run_deleter ic (d @ d') = (case run_deleter ic d of None \<Rightarrow> None | Some ic \<Rightarrow> run_deleter ic d')"
  by (induction d arbitrary: ic) (auto split: option.splits)

lemma run_deleter_one:
  assumes d: "distinct (map snd d)" and x: "x \<in> snd ` set d" "ic_handles ic x = Some hx"
    and other: "\<And>h. h \<in> snd ` set d \<Longrightarrow> h \<noteq> x \<Longrightarrow> \<exists>handle. ic_handles ic h = Some handle \<and> ih_mode handle = INODE_READ"
  shows "run_deleter ic d = Some (ic\<lparr>ic_handles := ic_handles ic |` (- snd ` set d),
    ic_metadb := write_handle hx (ic_metadb ic)\<rparr>)"
proof -
  obtain k where "(k, x) \<in> set d" using x(1) by auto
  then obtain d1 d2 where d12: "d = d1 @ (k, x) # d2" by (metis split_list)
  have dist: "distinct (map snd d1)" "distinct (map snd d2)" "x \<notin> snd ` set d1" "x \<notin> snd ` set d2"
    "snd ` set d1 \<inter> snd ` set d2 = {}"
    using d unfolding d12 by auto
  let ?ic1 = "ic\<lparr>ic_handles := ic_handles ic |` (- snd ` set d1)\<rparr>"
  let ?ic2 = "?ic1\<lparr>ic_metadb := write_handle hx (ic_metadb ic), ic_handles := (ic_handles ?ic1)(x := None)\<rparr>"
  have 1: "run_deleter ic d1 = Some ?ic1"
  proof (rule run_deleter_reads [OF dist(1)])
    fix h assume h: "h \<in> snd ` set d1"
    then have "h \<in> snd ` set d" by (auto simp: d12)
    moreover have "h \<noteq> x" using h dist(3) by blast
    ultimately show "\<exists>handle. ic_handles ic h = Some handle \<and> ih_mode handle = INODE_READ" by (rule other)
  qed
  have 2: "CleanInodeHandle ?ic1 (k, x) = Some ?ic2"
    using x(2) dist(3) by (simp add: CleanInodeHandle_def restrict_map_def)
  have 3: "run_deleter ?ic2 d2 = Some (?ic2\<lparr>ic_handles := ic_handles ?ic2 |` (- snd ` set d2)\<rparr>)"
  proof (rule run_deleter_reads [OF dist(2)])
    fix h assume h: "h \<in> snd ` set d2"
    then have "h \<noteq> x" "h \<notin> snd ` set d1" using dist by auto
    moreover obtain handle where "ic_handles ic h = Some handle" "ih_mode handle = INODE_READ"
      using other [of h] h \<open>h \<noteq> x\<close> by (auto simp: d12)
    ultimately show "\<exists>handle. ic_handles ?ic2 h = Some handle \<and> ih_mode handle = INODE_READ" by simp
  qed
  have "ic_handles ?ic2 |` (- snd ` set d2) = ic_handles ic |` (- snd ` set d)"
    by (auto simp: restrict_map_def fun_eq_iff d12)
  then show ?thesis unfolding d12 run_deleter_append 1 using 2 3 by (simp add: d12)
qed

lemma write_handle_ok:
  assumes "ad_ok (Suc n) metadb" "length (ih_value handle) < 2 ^ 32"
  shows "ad_ok n (write_handle handle metadb)"
    and "ad_lookup (write_handle handle metadb) = handle_effect handle (ad_lookup metadb)"
    and "ad_now (write_handle handle metadb) = ad_now metadb"
proof -
  have k: "length (ToSlice (ih_key handle)) + 8 < 2 ^ 32" by simp
  note P = Adaptor_Put_ok [OF assms(1) k assms(2)] Adaptor_Delete_ok [OF assms(1) k]
  have "ad_ok n metadb" using ad.ok_less [OF assms(1)] by simp
  then show "ad_ok n (write_handle handle metadb)"
    "ad_lookup (write_handle handle metadb) = handle_effect handle (ad_lookup metadb)"
    "ad_now (write_handle handle metadb) = ad_now metadb"
    using P by (cases "ih_mode handle"; auto simp: write_handle_def handle_effect_def)+
qed


section \<open>New handles\<close>

lemma ic_okI:
  assumes "cache_ok (ic_cache ic) p" "\<And>e k h. cache_entry (ic_cache ic) e = Some (k, h) \<Longrightarrow> p e = pin h"
    and "linked (cache_entry (ic_cache ic)) (ic_handles ic)"
    and "\<And>h. ic_brk ic \<le> h \<Longrightarrow> ic_handles ic h = None" "\<And>h. 0 < pin h \<Longrightarrow> ic_handles ic h \<noteq> None"
    and "ad_ok n (ic_metadb ic)"
    and "\<And>h handle. ic_handles ic h = Some handle \<Longrightarrow> pin h = 0 \<Longrightarrow> h \<notin> X \<Longrightarrow> clean_handle (ic_metadb ic) handle"
  shows "ic_ok n ic pin X"
proof -
  have "p = cpin ic pin" by (rule cpin_eqI [OF assms(1,2) refl])
  then have "cache_ok (ic_cache ic) (cpin ic pin)" using assms(1) by simp
  then show ?thesis unfolding ic_ok_def using assms(3-7) by blast
qed

lemma ic_ok_pin_handle: "ic_ok n ic pin X \<Longrightarrow> ic_handles ic h = None \<Longrightarrow> pin h = 0"
  using ic_okD(4) [of n ic pin X h] by auto

lemma restrict_Some: "(m |` A) x = Some y \<longleftrightarrow> x \<in> A \<and> m x = Some y"
  by (simp add: restrict_map_def)

lemma map_le_Some: "m \<subseteq>\<^sub>m m' \<Longrightarrow> m x = Some y \<Longrightarrow> m' x = Some y"
  unfolding map_le_def by (metis domI)

lemma new_handle_ok:
  assumes ok: "ic_ok n ic pin {}"
  shows "\<exists>ic' h e. new_handle ic key v mode = Some (ic', h) \<and> ic_handles ic h = None \<and>
    ic_handles ic' h = Some \<lparr>ih_key = key, ih_value = v, ih_mode = mode, ih_pointer = Some e\<rparr> \<and>
    ic_metadb ic' = ic_metadb ic \<and> ic_ok n ic' (pin(h := 1)) {} \<and>
    (\<forall>h' handle. h' \<noteq> h \<longrightarrow> ic_handles ic' h' = Some handle \<longrightarrow>
       ic_handles ic h' = Some handle \<and> (ih_key handle = key \<longrightarrow> 0 < pin h')) \<and>
    (\<forall>h'. 0 < pin h' \<longrightarrow> ic_handles ic' h' = ic_handles ic h')"
proof -
  let ?k = "ToSlice key" and ?c = "ic_cache ic"
  note O = ic_okD [OF ok]
  define h where "h = ic_brk ic"
  have h: "ic_handles ic h = None" using O(3) by (simp add: h_def)
  obtain c' e d where I: "Cache_Insert ?c ?k h 1 = Some (c', e, d)"
    using lru.insert_ok [OF O(1), of 1 ?k h] by auto
  note P = lru.insert_pinned [OF O(1) I]
  define full where "full = \<lparr>ih_key = key, ih_value = v, ih_mode = mode, ih_pointer = Some e\<rparr>"
  define part where "part = \<lparr>ih_key = key, ih_value = v, ih_mode = mode, ih_pointer = None\<rparr>"
  define hs where "hs = (ic_handles ic)(h \<mapsto> full)"
  let ?ent = "(cache_entry ?c)(e \<mapsto> (?k, h))"
  have L: "linked ?ent hs"
    unfolding linked_def
  proof (intro conjI allI impI)
    fix e' k h' assume e': "?ent e' = Some (k, h')"
    show "\<exists>handle. hs h' = Some handle \<and> ih_pointer handle = Some e' \<and> k = ToSlice (ih_key handle)"
    proof (cases "e' = e")
      case True
      then show ?thesis using e' by (simp add: hs_def full_def)
    next
      case False
      then obtain handle where x: "ic_handles ic h' = Some handle" "ih_pointer handle = Some e'"
        "k = ToSlice (ih_key handle)" using e' linkedD(1) [OF O(2), of e' k h'] by auto
      then have "h' \<noteq> h" using h by auto
      then show ?thesis using x by (simp add: hs_def)
    qed
  next
    fix h' handle assume h': "hs h' = Some handle"
    show "\<exists>e'. ih_pointer handle = Some e' \<and> ?ent e' = Some (ToSlice (ih_key handle), h')"
    proof (cases "h' = h")
      case True
      then show ?thesis using h' by (auto simp: hs_def full_def)
    next
      case False
      then obtain e' where e': "ih_pointer handle = Some e'" "cache_entry ?c e' = Some (ToSlice (ih_key handle), h')"
        using h' linkedD(2) [OF O(2), of h' handle] by (auto simp: hs_def)
      then have "e' \<noteq> e" using P(3) by auto
      then show ?thesis using e' by simp
    qed
  qed
  note D = drops_handles [OF L P(6)]
  define D where "D = snd ` set d"
  have memD: "h' \<in> D \<longleftrightarrow> (\<exists>handle e'. hs h' = Some handle \<and> ih_pointer handle = Some e' \<and> cache_entry c' e' = None)" for h'
    unfolding D_def by (rule D(2))
  have hD: "h \<notin> D" using P(1) by (auto simp: memD hs_def full_def)
  have inD: "\<exists>handle. ic_handles ic h' = Some handle \<and> ih_mode handle = INODE_READ \<and> pin h' = 0" if "h' \<in> D" for h'
  proof -
    obtain handle e' where x: "hs h' = Some handle" "ih_pointer handle = Some e'" "cache_entry c' e' = None"
      using \<open>h' \<in> D\<close> memD by blast
    have "h' \<noteq> h" using hD that by auto
    then have hh: "ic_handles ic h' = Some handle" using x(1) by (simp add: hs_def)
    have "((cpin ic pin)(e := 1)) e' = 0" using lru.pinned_live [OF P(2), of e'] x(3) by (cases "((cpin ic pin)(e := 1)) e'") auto
    moreover have "e' \<noteq> e" using P(1) x(3) by auto
    ultimately have "pin h' = 0" using cpin_handle [OF O(2) hh x(2)] by simp
    moreover then have "clean_handle (ic_metadb ic) handle" using O(6) [OF hh] by simp
    ultimately show ?thesis using hh by (simp add: clean_handle_def)
  qed
  let ?ic0 = "ic\<lparr>ic_brk := Suc h, ic_handles := (ic_handles ic)(h \<mapsto> part), ic_cache := c'\<rparr>"
  have R: "run_deleter ?ic0 d = Some (?ic0\<lparr>ic_handles := ic_handles ?ic0 |` (- D)\<rparr>)"
    unfolding D_def
  proof (rule run_deleter_reads [OF D(1)])
    fix h' assume "h' \<in> snd ` set d"
    then have "h' \<in> D" by (simp add: D_def)
    then show "\<exists>handle. ic_handles ?ic0 h' = Some handle \<and> ih_mode handle = INODE_READ"
      using inD [of h'] hD by auto
  qed
  define ic' where "ic' = ic\<lparr>ic_brk := Suc h, ic_handles := hs |` (- D), ic_cache := c'\<rparr>"
  have "(((ic_handles ic)(h \<mapsto> part)) |` (- D))(h := map_option (ih_pointer_update (\<lambda>_. Some e))
      ((((ic_handles ic)(h \<mapsto> part)) |` (- D)) h)) = hs |` (- D)"
    using hD by (auto simp: fun_eq_iff restrict_map_def hs_def part_def full_def)
  then have N: "new_handle ic key v mode = Some (ic', h)"
    using I R unfolding new_handle_def h_def [symmetric] Let_def part_def [symmetric]
    by (simp add: ic'_def)
  have "ic_ok n ic' (pin(h := 1)) {}"
  proof (rule ic_okI [of _ "(cpin ic pin)(e := 1)"])
    show "cache_ok (ic_cache ic') ((cpin ic pin)(e := 1))" using P(2) by (simp add: ic'_def)
    show "linked (cache_entry (ic_cache ic')) (ic_handles ic')" using D(3) by (simp add: ic'_def D_def)
    fix e' k h' assume e': "cache_entry (ic_cache ic') e' = Some (k, h')"
    then have "?ent e' = Some (k, h')"
      using map_le_Some [OF drops_le [OF P(6)], of e'] by (simp add: ic'_def)
    then show "((cpin ic pin)(e := 1)) e' = (pin(h := 1)) h'"
    proof (cases "e' = e")
      case False
      then have ent: "cache_entry ?c e' = Some (k, h')" using \<open>?ent e' = Some (k, h')\<close> by simp
      then have "h' \<noteq> h" using linkedD(1) [OF O(2) ent] h by auto
      then show ?thesis using False ent by (simp add: cpin_def)
    qed simp
  next
    fix h' assume "ic_brk ic' \<le> h'"
    then show "ic_handles ic' h' = None" using O(3) [of h'] by (simp add: ic'_def hs_def restrict_map_def h_def)
  next
    fix h' assume "0 < (pin(h := 1)) h'"
    then show "ic_handles ic' h' \<noteq> None"
      using O(4) [of h'] inD [of h'] hD by (cases "h' = h") (auto simp: ic'_def hs_def restrict_map_def)
  next
    show "ad_ok n (ic_metadb ic')" using O(5) by (simp add: ic'_def)
  next
    fix h' handle assume x: "ic_handles ic' h' = Some handle" "(pin(h := 1)) h' = 0" "h' \<notin> {}"
    then have "h' \<noteq> h" by (simp split: if_splits)
    then show "clean_handle (ic_metadb ic') handle"
      using x O(6) [of h' handle] by (simp add: ic'_def hs_def restrict_Some split: if_splits)
  qed
  moreover have "ic_handles ic h' = Some handle \<and> (ih_key handle = key \<longrightarrow> 0 < pin h')"
    if x: "h' \<noteq> h" "ic_handles ic' h' = Some handle" for h' handle
  proof (intro conjI impI)
    show old: "ic_handles ic h' = Some handle"
      using x by (simp add: ic'_def hs_def restrict_Some split: if_splits)
    assume key: "ih_key handle = key"
    have "linked (cache_entry c') (ic_handles ic')" using D(3) by (simp add: ic'_def D_def)
    from linkedD(2) [OF this x(2)] obtain e' where e': "ih_pointer handle = Some e'"
      "cache_entry c' e' = Some (?k, h')" using key by auto
    have "e' \<noteq> e" using P(1) e'(2) x(1) by auto
    have "cached c' ?k \<noteq> Some e'"
    proof
      assume "cached c' ?k = Some e'"
      then have "((cached ?c)(?k \<mapsto> e)) ?k = Some e'" using P(5) unfolding map_le_def by (metis domI)
      then show False using \<open>e' \<noteq> e\<close> by simp
    qed
    then have "0 < ((cpin ic pin)(e := 1)) e'" using lru.live [OF P(2) e'(2)] by blast
    then show "0 < pin h'" using \<open>e' \<noteq> e\<close> cpin_handle [OF O(2) old e'(1)] by simp
  qed
  moreover have "ic_handles ic' h' = ic_handles ic h'" if "0 < pin h'" for h'
  proof -
    have "h' \<noteq> h" using O(4) [OF that] h by auto
    moreover have "h' \<notin> D" using inD [of h'] that by auto
    ultimately show ?thesis by (simp add: ic'_def hs_def restrict_map_def)
  qed
  moreover have "ic_handles ic' h = Some full" using hD by (simp add: ic'_def hs_def)
  moreover have "ic_metadb ic' = ic_metadb ic" by (simp add: ic'_def)
  ultimately show ?thesis using N h unfolding full_def by blast
qed


section \<open>Looking up, changing and releasing a handle\<close>

lemma ic_ok_update:
  assumes ok: "ic_ok n ic pin X" and pin: "0 < pin h"
    and f: "\<And>x. ih_key (f x) = ih_key x" "\<And>x. ih_pointer (f x) = ih_pointer x"
  shows "ic_ok n (ic\<lparr>ic_handles := (ic_handles ic)(h := map_option f (ic_handles ic h))\<rparr>) pin X"
proof -
  note O = ic_okD [OF ok]
  let ?hs = "(ic_handles ic)(h := map_option f (ic_handles ic h))"
  have L: "linked (cache_entry (ic_cache ic)) ?hs"
    unfolding linked_def
  proof (intro conjI allI impI)
    fix e k g assume "cache_entry (ic_cache ic) e = Some (k, g)"
    from linkedD(1) [OF O(2) this]
    show "\<exists>handle. ?hs g = Some handle \<and> ih_pointer handle = Some e \<and> k = ToSlice (ih_key handle)"
      using f by (cases "g = h") auto
  next
    fix g handle assume g: "?hs g = Some handle"
    show "\<exists>e. ih_pointer handle = Some e \<and> cache_entry (ic_cache ic) e = Some (ToSlice (ih_key handle), g)"
    proof (cases "g = h")
      case True
      then obtain x where "ic_handles ic h = Some x" "handle = f x" using g by (auto split: if_splits)
      then show ?thesis using linkedD(2) [OF O(2), of h x] f True by simp
    next
      case False
      then show ?thesis using g linkedD(2) [OF O(2), of g handle] by simp
    qed
  qed
  have cp: "\<And>e k g. cache_entry (ic_cache ic) e = Some (k, g) \<Longrightarrow> cpin ic pin e = pin g"
    by (simp add: cpin_def)
  show ?thesis
  proof (rule ic_okI [where p = "cpin ic pin"], goal_cases)
    case (7 g handle)
    then have "g \<noteq> h" using pin by auto
    then show ?case using 7 O(6) [of g handle] by simp
  qed (use O(1,5) L cp in simp_all, use O(3,4) in \<open>auto split: if_splits\<close>)
qed

lemma set_value_ok: "ic_ok n ic pin X \<Longrightarrow> 0 < pin h \<Longrightarrow> ic_ok n (set_value ic h v) pin X"
  unfolding set_value_def by (rule ic_ok_update) simp_all

lemma set_mode_ok: "ic_ok n ic pin X \<Longrightarrow> 0 < pin h \<Longrightarrow> ic_ok n (set_mode ic h mode) pin X"
  unfolding set_mode_def by (rule ic_ok_update) simp_all

lemma set_value_sel [simp]:
  "ic_handles (set_value ic h v) = (ic_handles ic)(h := map_option (ih_value_update (\<lambda>_. v)) (ic_handles ic h))"
  "ic_cache (set_value ic h v) = ic_cache ic" "ic_metadb (set_value ic h v) = ic_metadb ic"
  "ic_brk (set_value ic h v) = ic_brk ic"
  by (simp_all add: set_value_def)

lemma set_mode_sel [simp]:
  "ic_handles (set_mode ic h m) = (ic_handles ic)(h := map_option (ih_mode_update (\<lambda>_. m)) (ic_handles ic h))"
  "ic_cache (set_mode ic h m) = ic_cache ic" "ic_metadb (set_mode ic h m) = ic_metadb ic"
  "ic_brk (set_mode ic h m) = ic_brk ic"
  by (simp_all add: set_mode_def)

lemma Lookup_pinned:
  assumes ok: "ic_ok n ic pin {}" and few: "\<forall>e. cached (ic_cache ic) (ToSlice key) = Some e \<longrightarrow> cpin ic pin e + 2 < 2 ^ 32"
  shows "\<exists>c'. Cache_Lookup (ic_cache ic) (ToSlice key) = Some (c', cached (ic_cache ic) (ToSlice key)) \<and>
    (case cached (ic_cache ic) (ToSlice key) of
       None \<Rightarrow> ic_ok n (ic\<lparr>ic_cache := c'\<rparr>) pin {}
     | Some e \<Rightarrow> (\<exists>h handle. Cache_Value c' e = Some h \<and> ic_handles ic h = Some handle \<and>
         ih_key handle = key \<and> ih_pointer handle = Some e \<and>
         ic_ok n (ic\<lparr>ic_cache := c'\<rparr>) (pin(h := Suc (pin h))) {}))"
proof -
  note O = ic_okD [OF ok]
  let ?c = "ic_cache ic" and ?k = "ToSlice key"
  obtain c' where c': "Cache_Lookup ?c ?k = Some (c', cached ?c ?k)" "cached c' = cached ?c"
    "cache_entry c' = cache_entry ?c"
    "cache_ok c' (case cached ?c ?k of None \<Rightarrow> cpin ic pin | Some e \<Rightarrow> (cpin ic pin)(e := Suc (cpin ic pin e)))"
    using lru.lookup_ok [OF O(1) few] by blast
  show ?thesis
  proof (cases "cached ?c ?k")
    case None
    have "ic_ok n (ic\<lparr>ic_cache := c'\<rparr>) pin {}"
      by (rule ic_okI [where p = "cpin ic pin"]) (use O c' None in \<open>auto simp: cpin_def\<close>)
    then show ?thesis using c'(1) None by auto
  next
    case (Some e)
    obtain h where ent: "cache_entry ?c e = Some (?k, h)" using lru.look_entry [OF O(1) Some] by blast
    obtain handle where x: "ic_handles ic h = Some handle" "ih_pointer handle = Some e" "ih_key handle = key"
      using linkedD(1) [OF O(2) ent] by auto
    have val: "Cache_Value c' e = Some h"
      using ent c'(3) [THEN fun_cong, of e] by (auto simp: Cache_Value_def cache_entry_def entry_of_def)
    have "ic_ok n (ic\<lparr>ic_cache := c'\<rparr>) (pin(h := Suc (pin h))) {}"
    proof (rule ic_okI [where p = "(cpin ic pin)(e := Suc (cpin ic pin e))"], goal_cases)
      case 1 then show ?case using c'(4) Some by simp
    next
      case (2 e' k g)
      then have g: "cache_entry ?c e' = Some (k, g)" using c'(3) by simp
      then show ?case
        using linked_unique [OF O(2) ent, of e' k] ent by (cases "e' = e") (auto simp: cpin_def)
    next
      case 3 then show ?case using O(2) c'(3) by simp
    next
      case (4 g) then show ?case using O(3) by simp
    next
      case (5 g) then show ?case using O(4) [of g] x(1) by (cases "g = h") auto
    next
      case 6 then show ?case using O(5) by simp
    next
      case (7 g handle) then show ?case using O(6) [of g handle] by (auto split: if_splits)
    qed
    then show ?thesis using c'(1) Some val x by auto
  qed
qed

text \<open>Looking up a key nobody holds gives a handle with the value of the database.\<close>

lemma Get_quiet:
  assumes ok: "ic_ok n ic pin {}" and q: "quiet ic pin key"
  shows "case ad_lookup (ic_metadb ic) (ToSlice key) of
      None \<Rightarrow> \<exists>ic'. InodeCache_Get ic key mode = Some (ic', None) \<and> ic_ok n ic' pin {} \<and>
        ic_metadb ic' = ic_metadb ic \<and> ic_handles ic' = ic_handles ic
    | Some v \<Rightarrow> \<exists>ic' h e. InodeCache_Get ic key mode = Some (ic', Some h) \<and> pin h = 0 \<and>
        ic_handles ic' h = Some \<lparr>ih_key = key, ih_value = v, ih_mode = mode, ih_pointer = Some e\<rparr> \<and>
        ic_ok n ic' (pin(h := 1)) {} \<and> ic_metadb ic' = ic_metadb ic \<and> alone ic' h \<and>
        (\<forall>g handle. g \<noteq> h \<longrightarrow> ic_handles ic' g = Some handle \<longrightarrow> ic_handles ic g = Some handle) \<and>
        (\<forall>g. 0 < pin g \<longrightarrow> ic_handles ic' g = ic_handles ic g)"
proof -
  note O = ic_okD [OF ok]
  let ?c = "ic_cache ic" and ?k = "ToSlice key"
  have "cpin ic pin e = 0" if e: "cached ?c ?k = Some e" for e
  proof -
    obtain h where ent: "cache_entry ?c e = Some (?k, h)" using lru.look_entry [OF O(1) e] by blast
    obtain handle where x: "ic_handles ic h = Some handle" "ih_pointer handle = Some e" "ih_key handle = key"
      using linkedD(1) [OF O(2) ent] by auto
    then show ?thesis using cpin_handle [OF O(2) x(1,2)] q by (auto simp: quiet_def)
  qed
  then have few: "\<forall>e. cached ?c ?k = Some e \<longrightarrow> cpin ic pin e + 2 < 2 ^ 32" by simp
  obtain c' where c': "Cache_Lookup ?c ?k = Some (c', cached ?c ?k)" and
    C: "case cached ?c ?k of
       None \<Rightarrow> ic_ok n (ic\<lparr>ic_cache := c'\<rparr>) pin {}
     | Some e \<Rightarrow> (\<exists>h handle. Cache_Value c' e = Some h \<and> ic_handles ic h = Some handle \<and>
         ih_key handle = key \<and> ih_pointer handle = Some e \<and>
         ic_ok n (ic\<lparr>ic_cache := c'\<rparr>) (pin(h := Suc (pin h))) {})"
    using Lookup_pinned [OF ok few] by blast
  let ?ic = "ic\<lparr>ic_cache := c'\<rparr>"
  show ?thesis
  proof (cases "cached ?c ?k")
    case None
    then have ok': "ic_ok n ?ic pin {}" using C by simp
    have G: "Adaptor_Get (ic_metadb ic) ?k = (case ad_lookup (ic_metadb ic) ?k of
        None \<Rightarrow> (-1, NotFound_string) | Some v \<Rightarrow> (1, v))"
      by (rule Adaptor_Get_eq [OF O(5)]) simp
    show ?thesis
    proof (cases "ad_lookup (ic_metadb ic) ?k")
      case look: None
      then have "InodeCache_Get ic key mode = Some (?ic, None)"
        using c' None G by (simp add: InodeCache_Get_def)
      then show ?thesis using look ok' by auto
    next
      case (Some v)
      obtain ic' h e where N: "new_handle ?ic key v mode = Some (ic', h)" "ic_handles ?ic h = None"
        "ic_handles ic' h = Some \<lparr>ih_key = key, ih_value = v, ih_mode = mode, ih_pointer = Some e\<rparr>"
        "ic_metadb ic' = ic_metadb ?ic" "ic_ok n ic' (pin(h := 1)) {}"
        "\<And>h' handle. h' \<noteq> h \<Longrightarrow> ic_handles ic' h' = Some handle \<Longrightarrow>
           ic_handles ?ic h' = Some handle \<and> (ih_key handle = key \<longrightarrow> 0 < pin h')"
        "\<And>h'. 0 < pin h' \<Longrightarrow> ic_handles ic' h' = ic_handles ?ic h'"
        using new_handle_ok [OF ok', of key v mode] by blast
      have "InodeCache_Get ic key mode = Some (ic', Some h)"
        using c' None G Some N(1) by (simp add: InodeCache_Get_def)
      moreover have "alone ic' h"
        unfolding alone_def
      proof (intro allI impI)
        fix a b h' assume a: "ic_handles ic' h = Some a" "ic_handles ic' h' = Some b" "ih_key b = ih_key a"
        show "h' = h"
        proof (rule ccontr)
          assume "h' \<noteq> h"
          then have "ic_handles ic h' = Some b" "ih_key b = key" "0 < pin h'"
            using N(6) [of h' b] a N(3) by auto
          then show False using q by (auto simp: quiet_def)
        qed
      qed
      moreover have "pin h = 0" using ic_ok_pin_handle [OF ok] N(2) by simp
      ultimately show ?thesis using Some N by auto
    qed
  next
    case (Some e)
    then obtain h handle where x: "Cache_Value c' e = Some h" "ic_handles ic h = Some handle"
      "ih_key handle = key" "ih_pointer handle = Some e" "ic_ok n ?ic (pin(h := Suc (pin h))) {}"
      using C by auto
    have pin: "pin h = 0" using q x by (auto simp: quiet_def)
    then have clean: "clean_handle (ic_metadb ic) handle" using O(6) [OF x(2)] by simp
    define ic' where "ic' = ?ic\<lparr>ic_handles := (ic_handles ic)(h \<mapsto> handle\<lparr>ih_mode := mode\<rparr>)\<rparr>"
    have eq: "ic' = set_mode ?ic h mode" using x(2) by (simp add: ic'_def set_mode_def)
    have "ic_ok n ic' (pin(h := Suc (pin h))) {}"
      unfolding eq by (rule set_mode_ok [OF x(5)]) simp
    moreover have "InodeCache_Get ic key mode = Some (ic', Some h)"
    proof (cases "mode = INODE_READ")
      case True
      then have "handle\<lparr>ih_mode := mode\<rparr> = handle" using clean by (simp add: clean_handle_def)
      then have "ic' = ?ic" using x(2) by (simp add: ic'_def fun_upd_idem)
      then show ?thesis using c' Some x True by (simp add: InodeCache_Get_def)
    next
      case False
      then show ?thesis using c' Some x by (simp add: InodeCache_Get_def ic'_def)
    qed
    moreover have "alone ic' h"
      unfolding alone_def
    proof (intro allI impI)
      fix a b h' assume a: "ic_handles ic' h = Some a" "ic_handles ic' h' = Some b" "ih_key b = ih_key a"
      show "h' = h"
      proof (rule ccontr)
        assume ne: "h' \<noteq> h"
        then have b: "ic_handles ic h' = Some b" "ih_key b = key" using a x(3) by (auto simp: ic'_def)
        then have "pin h' = 0" using q by (auto simp: quiet_def)
        obtain e' where e': "ih_pointer b = Some e'" "cache_entry ?c e' = Some (?k, h')"
          using linkedD(2) [OF O(2) b(1)] b(2) by auto
        then have "cached ?c ?k = Some e'"
          using lru.live [OF O(1) e'(2)] cpin_handle [OF O(2) b(1) e'(1)] \<open>pin h' = 0\<close> by auto
        then have "e' = e" using Some by simp
        then show False using ne e'(2) linkedD(2) [OF O(2) x(2)] x(4) by auto
      qed
    qed
    moreover have "handle\<lparr>ih_mode := mode\<rparr> =
        \<lparr>ih_key = key, ih_value = ih_value handle, ih_mode = mode, ih_pointer = Some e\<rparr>"
      using x by simp
    moreover have "ad_lookup (ic_metadb ic) ?k = Some (ih_value handle)"
      using clean x(3) by (simp add: clean_handle_def)
    ultimately show ?thesis using pin by (auto simp: ic'_def)
  qed
qed


text \<open>One step of the cache that drops handles: at most the handle \<open>x\<close> is written.\<close>

lemma drop_step:
  assumes L: "linked (cache_entry (ic_cache ic)) (ic_handles ic)" and c': "cache_ok c' p'"
    and D: "drops (cache_entry (ic_cache ic)) (cache_entry c') d"
    and p'_all: "\<forall>e k h. cache_entry (ic_cache ic) e = Some (k, h) \<longrightarrow> p' e = pin h"
    and clean_all: "\<forall>h handle. ic_handles ic h = Some handle \<longrightarrow> pin h = 0 \<longrightarrow> h \<noteq> x \<longrightarrow>
      clean_handle (ic_metadb ic) handle"
    and x: "\<And>hx. ic_handles ic x = Some hx \<Longrightarrow> length (ih_value hx) < 2 ^ 32" "alone ic x"
    and brk: "\<And>h. ic_brk ic \<le> h \<Longrightarrow> ic_handles ic h = None"
    and live: "\<And>h. 0 < pin h \<Longrightarrow> ic_handles ic h \<noteq> None"
    and ad: "ad_ok (Suc n) (ic_metadb ic)"
  shows "\<exists>ic'. run_deleter (ic\<lparr>ic_cache := c'\<rparr>) d = Some ic' \<and> ic_cache ic' = c' \<and>
    ic_handles ic' \<subseteq>\<^sub>m ic_handles ic \<and> (\<forall>h. 0 < pin h \<longrightarrow> ic_handles ic' h = ic_handles ic h) \<and>
    (ic_handles ic' x = ic_handles ic x \<and> ic_metadb ic' = ic_metadb ic \<and> ic_ok (Suc n) ic' pin {x} \<or>
     ic_handles ic' x = None \<and> pin x = 0 \<and> (\<exists>hx. ic_handles ic x = Some hx \<and>
       ic_metadb ic' = write_handle hx (ic_metadb ic)) \<and> ic_ok n ic' pin {})"
proof -
  note p' = p'_all [rule_format] and clean = clean_all [rule_format]
  note H = drops_handles [OF L D]
  define Dr where "Dr = snd ` set d"
  have inD: "\<exists>handle. ic_handles ic h = Some handle \<and> pin h = 0" if h: "h \<in> Dr" for h
  proof -
    obtain handle e where e: "ic_handles ic h = Some handle" "ih_pointer handle = Some e" "cache_entry c' e = None"
      using h H(2) [of h] by (auto simp: Dr_def)
    have "p' e = 0" using lru.pinned_live [OF c', of e] e(3) by (cases "p' e") auto
    moreover have "cache_entry (ic_cache ic) e = Some (ToSlice (ih_key handle), h)"
      using linkedD(2) [OF L e(1)] e(2) by auto
    ultimately show ?thesis using p' e(1) by metis
  qed
  have reads: "\<exists>handle. ic_handles ic h = Some handle \<and> ih_mode handle = INODE_READ"
    if "h \<in> Dr" "h \<noteq> x" for h
    using inD [OF that(1)] clean [of h] that(2) by (auto simp: clean_handle_def)
  let ?hs = "ic_handles ic |` (- Dr)"
  have L': "linked (cache_entry c') ?hs" unfolding Dr_def by (rule H(3))
  have p'': "\<And>e k h. cache_entry c' e = Some (k, h) \<Longrightarrow> p' e = pin h"
    using p' map_le_Some [OF drops_le [OF D]] by blast
  have pinned: "?hs h = ic_handles ic h" if "0 < pin h" for h
    using inD [of h] that by (auto simp: restrict_map_def)
  have brk': "\<And>h. ic_brk ic \<le> h \<Longrightarrow> ?hs h = None" using brk by (simp add: restrict_map_def)
  have live': "\<And>h. 0 < pin h \<Longrightarrow> ?hs h \<noteq> None" using pinned live by simp
  have le: "?hs \<subseteq>\<^sub>m ic_handles ic" by (auto simp: map_le_def restrict_map_def)
  show ?thesis
  proof (cases "x \<in> Dr")
    case False
    let ?ic = "ic\<lparr>ic_cache := c', ic_handles := ?hs\<rparr>"
    have dom: "\<exists>handle. ic_handles (ic\<lparr>ic_cache := c'\<rparr>) h = Some handle \<and> ih_mode handle = INODE_READ"
      if "h \<in> snd ` set d" for h
      using reads [of h] that False by (auto simp: Dr_def)
    have R: "run_deleter (ic\<lparr>ic_cache := c'\<rparr>) d = Some ?ic"
      using run_deleter_reads [OF H(1), of "ic\<lparr>ic_cache := c'\<rparr>", OF dom] by (simp add: Dr_def)
    have "ic_ok (Suc n) ?ic pin {x}"
    proof (rule ic_okI [where p = p'])
      fix h handle assume "ic_handles ?ic h = Some handle" "pin h = 0" "h \<notin> {x}"
      then show "clean_handle (ic_metadb ?ic) handle" using clean [of h handle] by (simp add: restrict_Some)
    qed (use c' p'' L' brk' live' ad in simp_all)
    then show ?thesis using R pinned le False
      by (intro exI [of _ ?ic]) (simp add: restrict_map_def)
  next
    case True
    then obtain hx where hx: "ic_handles ic x = Some hx" using inD by blast
    let ?ic = "ic\<lparr>ic_cache := c', ic_handles := ?hs, ic_metadb := write_handle hx (ic_metadb ic)\<rparr>"
    have dom: "\<exists>handle. ic_handles (ic\<lparr>ic_cache := c'\<rparr>) h = Some handle \<and> ih_mode handle = INODE_READ"
      if "h \<in> snd ` set d" "h \<noteq> x" for h
      using reads [of h] that by (auto simp: Dr_def)
    have "x \<in> snd ` set d" "ic_handles (ic\<lparr>ic_cache := c'\<rparr>) x = Some hx"
      using True hx by (simp_all add: Dr_def)
    from run_deleter_one [OF H(1) this dom]
    have R: "run_deleter (ic\<lparr>ic_cache := c'\<rparr>) d = Some ?ic" by (simp add: Dr_def)
    note W = write_handle_ok [OF ad x(1) [OF hx]]
    have "ic_ok n ?ic pin {}"
    proof (rule ic_okI [where p = p'])
      fix h handle assume h: "ic_handles ?ic h = Some handle" "pin h = 0"
      then have h': "ic_handles ic h = Some handle" "h \<noteq> x" using True by (auto simp: restrict_Some)
      then have "ih_key handle \<noteq> ih_key hx" using hx x(2) unfolding alone_def by blast
      then have "handle_effect hx m (ToSlice (ih_key handle)) = m (ToSlice (ih_key handle))" for m
        by (cases "ih_mode hx") (simp_all add: handle_effect_def)
      then show "clean_handle (ic_metadb ?ic) handle"
        using clean [OF h'(1) h(2) h'(2)] W(2) by (simp add: clean_handle_def)
    qed (use c' p'' L' brk' live' W(1) in simp_all)
    moreover have "pin x = 0" using inD [OF True] by blast
    ultimately show ?thesis using R pinned le True hx
      by (intro exI [of _ ?ic]) (simp add: restrict_map_def)
  qed
qed

lemma ic_ok_X:
  "ic_ok n ic pin {x} \<Longrightarrow> (\<And>handle. ic_handles ic x = Some handle \<Longrightarrow> pin x = 0 \<Longrightarrow> clean_handle (ic_metadb ic) handle) \<Longrightarrow>
   ic_ok n ic pin {}"
  unfolding ic_ok_def by blast

lemma ic_ok_less: "ic_ok n ic pin X \<Longrightarrow> m \<le> n \<Longrightarrow> ic_ok m ic pin X"
  unfolding ic_ok_def using ad.ok_less by blast

lemma Release_ok:
  assumes ok: "ic_ok (Suc n) ic pin {}" and pin: "0 < pin x"
    and x: "ic_handles ic x = Some hx" "length (ih_value hx) < 2 ^ 32" "alone ic x"
  shows "\<exists>ic'. InodeCache_Release ic x = Some ic' \<and> ic_handles ic' \<subseteq>\<^sub>m ic_handles ic \<and>
    (\<forall>h. 0 < (pin(x := pin x - 1)) h \<longrightarrow> ic_handles ic' h = ic_handles ic h) \<and>
    (ic_handles ic' x = Some hx \<and> ic_metadb ic' = ic_metadb ic \<and> ic_ok (Suc n) ic' (pin(x := pin x - 1)) {x} \<or>
     ic_handles ic' x = None \<and> pin x = 1 \<and> ic_metadb ic' = write_handle hx (ic_metadb ic) \<and>
       ic_ok n ic' (pin(x := pin x - 1)) {})"
proof -
  note O = ic_okD [OF ok]
  obtain e where e: "ih_pointer hx = Some e" "cache_entry (ic_cache ic) e = Some (ToSlice (ih_key hx), x)"
    using linkedD(2) [OF O(2) x(1)] by blast
  have ce: "cpin ic pin e = pin x" by (rule cpin_handle [OF O(2) x(1) e(1)])
  obtain c' d where R: "Cache_Release (ic_cache ic) e = Some (c', d)"
    "cache_ok c' ((cpin ic pin)(e := cpin ic pin e - 1))" "drops (cache_entry (ic_cache ic)) (cache_entry c') d"
    using lru.release_ok [OF O(1), of e] ce pin by auto
  have p': "\<forall>e' k h. cache_entry (ic_cache ic) e' = Some (k, h) \<longrightarrow>
      ((cpin ic pin)(e := cpin ic pin e - 1)) e' = (pin(x := pin x - 1)) h"
  proof (intro allI impI)
    fix e' k h assume ent: "cache_entry (ic_cache ic) e' = Some (k, h)"
    show "((cpin ic pin)(e := cpin ic pin e - 1)) e' = (pin(x := pin x - 1)) h"
    proof (cases "e' = e")
      case True
      then show ?thesis using ent e(2) ce by simp
    next
      case False
      then have "h \<noteq> x" using linked_unique [OF O(2) e(2), of e' k] ent by auto
      then show ?thesis using False ent by (simp add: cpin_def)
    qed
  qed
  have clean: "\<forall>h handle. ic_handles ic h = Some handle \<longrightarrow> (pin(x := pin x - 1)) h = 0 \<longrightarrow> h \<noteq> x \<longrightarrow>
      clean_handle (ic_metadb ic) handle"
    using O(6) by auto
  have live: "ic_handles ic h \<noteq> None" if "0 < (pin(x := pin x - 1)) h" for h
    using O(4) [of h] x(1) that by (cases "h = x") auto
  have "InodeCache_Release ic x = run_deleter (ic\<lparr>ic_cache := c'\<rparr>) d"
    using x(1) e(1) R(1) by (simp add: InodeCache_Release_def)
  moreover have len: "\<And>h. ic_handles ic x = Some h \<Longrightarrow> length (ih_value h) < 2 ^ 32" using x(1,2) by simp
  moreover have one: "(pin(x := pin x - 1)) x = 0 \<longleftrightarrow> pin x = 1" using pin by auto
  moreover note drop_step [where pin = "pin(x := pin x - 1)" and x = x, OF O(2) R(2,3) p' clean len x(3) O(3) live O(5)]
  ultimately show ?thesis unfolding one x(1) by (metis option.inject)
qed

lemma InodeCache_Evict_ok:
  assumes ok: "ic_ok (Suc n) ic pin {x}"
    and x: "\<And>hx. ic_handles ic x = Some hx \<Longrightarrow> length (ih_value hx) < 2 ^ 32 \<and> ih_key hx = key" "alone ic x"
  shows "\<exists>ic'. InodeCache_Evict ic key = Some ic' \<and> ic_handles ic' \<subseteq>\<^sub>m ic_handles ic \<and>
    (\<forall>h. 0 < pin h \<longrightarrow> ic_handles ic' h = ic_handles ic h) \<and>
    (if 0 < pin x \<or> ic_handles ic x = None then ic_metadb ic' = ic_metadb ic \<and> ic_ok (Suc n) ic' pin {}
     else ic_handles ic' x = None \<and> ic_metadb ic' = write_handle (the (ic_handles ic x)) (ic_metadb ic) \<and>
       ic_ok n ic' pin {})"
proof -
  note O = ic_okD [OF ok]
  obtain c' d where E: "Cache_Erase (ic_cache ic) (ToSlice key) = Some (c', d)"
    "cached c' = (cached (ic_cache ic))(ToSlice key := None)" "cache_ok c' (cpin ic pin)"
    "drops (cache_entry (ic_cache ic)) (cache_entry c') d"
    using lru.erase_ok [OF O(1), of "ToSlice key"] by blast
  have p': "\<forall>e k h. cache_entry (ic_cache ic) e = Some (k, h) \<longrightarrow> cpin ic pin e = pin h"
    by (simp add: cpin_def)
  have clean: "\<forall>h handle. ic_handles ic h = Some handle \<longrightarrow> pin h = 0 \<longrightarrow> h \<noteq> x \<longrightarrow>
      clean_handle (ic_metadb ic) handle"
    using O(6) by blast
  have len: "\<And>h. ic_handles ic x = Some h \<Longrightarrow> length (ih_value h) < 2 ^ 32" using x(1) by blast
  obtain ic' where ic': "run_deleter (ic\<lparr>ic_cache := c'\<rparr>) d = Some ic'" "ic_cache ic' = c'"
    "ic_handles ic' \<subseteq>\<^sub>m ic_handles ic" "\<forall>h. 0 < pin h \<longrightarrow> ic_handles ic' h = ic_handles ic h" and
    alt: "ic_handles ic' x = ic_handles ic x \<and> ic_metadb ic' = ic_metadb ic \<and> ic_ok (Suc n) ic' pin {x} \<or>
     ic_handles ic' x = None \<and> pin x = 0 \<and> (\<exists>hx. ic_handles ic x = Some hx \<and>
       ic_metadb ic' = write_handle hx (ic_metadb ic)) \<and> ic_ok n ic' pin {}"
    using drop_step [where pin = pin and x = x, OF O(2) E(3,4) p' clean len x(2) O(3,4,5)] by metis
  have R: "InodeCache_Evict ic key = Some ic'" using E(1) ic'(1) by (simp add: InodeCache_Evict_def)
  show ?thesis
  proof (cases "0 < pin x \<or> ic_handles ic x = None")
    case True
    then have "ic_metadb ic' = ic_metadb ic" "ic_ok (Suc n) ic' pin {}"
      using alt ic_ok_X [of "Suc n" ic' pin x] by auto
    then show ?thesis using R ic'(3,4) True by auto
  next
    case False
    then obtain hx where hx: "ic_handles ic x = Some hx" by blast
    have "ic_handles ic' x \<noteq> ic_handles ic x"
    proof
      assume h: "ic_handles ic' x = ic_handles ic x"
      then have ok': "ic_ok (Suc n) ic' pin {x}" using alt hx by auto
      note O' = ic_okD [OF ok']
      obtain e where e: "ih_pointer hx = Some e" "cache_entry c' e = Some (ToSlice key, x)"
        using linkedD(2) [OF O'(2), of x hx] h hx x(1) [OF hx] ic'(2) by auto
      have "cached c' (ToSlice key) = Some e"
        using lru.live [OF O'(1), of e "ToSlice key" x] e(2) ic'(2) False by (simp add: cpin_def)
      then show False using E(2) by simp
    qed
    then show ?thesis using R ic'(3,4) alt False hx by auto
  qed
qed

lemma WriteBack_write:
  assumes ok: "ic_ok (Suc n) ic pin {}" and pin: "0 < pin x"
    and x: "ic_handles ic x = Some hx" "ih_mode hx = INODE_WRITE" "length (ih_value hx) < 2 ^ 32" "alone ic x"
  shows "\<exists>ic'. InodeCache_WriteBack ic x = Some ic' \<and> ic_ok n ic' pin {} \<and>
    ic_handles ic' = (ic_handles ic)(x \<mapsto> hx\<lparr>ih_mode := INODE_READ\<rparr>) \<and> ic_cache ic' = ic_cache ic \<and>
    ad_lookup (ic_metadb ic') = (ad_lookup (ic_metadb ic))(ToSlice (ih_key hx) \<mapsto> ih_value hx) \<and>
    ad_now (ic_metadb ic') = ad_now (ic_metadb ic)"
proof -
  note O = ic_okD [OF ok] and W = write_handle_ok [OF ic_okD(5) [OF ok] x(3)]
  have w: "write_handle hx = (\<lambda>m. fst (Adaptor_Put m (ToSlice (ih_key hx)) (ih_value hx)))"
    by (simp add: write_handle_def x(2) fun_eq_iff)
  define ic1 where "ic1 = ic\<lparr>ic_metadb := write_handle hx (ic_metadb ic)\<rparr>"
  have "ic_ok n ic1 pin {}"
  proof (rule ic_okI [where p = "cpin ic pin"])
    fix h handle assume h: "ic_handles ic1 h = Some handle" "pin h = 0"
    then have h': "ic_handles ic h = Some handle" "h \<noteq> x" using pin by (auto simp: ic1_def)
    then have "ih_key handle \<noteq> ih_key hx" using x(1,4) unfolding alone_def by blast
    then show "clean_handle (ic_metadb ic1) handle"
      using O(6) [OF h'(1) h(2)] W(2) x(2) by (simp add: clean_handle_def handle_effect_def ic1_def)
  qed (use O W in \<open>simp_all add: ic1_def cpin_def\<close>)
  then have "ic_ok n (set_mode ic1 x INODE_READ) pin {}" using pin by (rule set_mode_ok)
  moreover have "InodeCache_WriteBack ic x = Some (set_mode ic1 x INODE_READ)"
    using x by (simp add: InodeCache_WriteBack_def ic1_def w)
  ultimately show ?thesis
    using W x by (simp add: ic1_def handle_effect_def)
qed

section \<open>The access patterns of the file system\<close>

definition quieter :: "InodeCache \<Rightarrow> InodeCache \<Rightarrow> (nat \<Rightarrow> nat) \<Rightarrow> bool" where
  "quieter ic ic' pin \<longleftrightarrow> (\<forall>g. 0 < pin g \<longrightarrow> ic_handles ic' g = ic_handles ic g) \<and>
     (\<forall>key. quiet ic pin key \<longrightarrow> quiet ic' pin key)"

lemma quieterI:
  assumes "\<And>g. 0 < pin g \<Longrightarrow> ic_handles ic' g = ic_handles ic g"
    and "\<And>g handle. ic_handles ic' g = Some handle \<Longrightarrow> 0 < pin g \<Longrightarrow> ic_handles ic g = Some handle"
  shows "quieter ic ic' pin"
proof -
  have "quiet ic' pin key" if q: "quiet ic pin key" for key
    unfolding quiet_def
  proof (intro allI impI)
    fix h handle assume h: "ic_handles ic' h = Some handle" "ih_key handle = key"
    show "pin h = 0"
    proof (rule ccontr)
      assume "pin h \<noteq> 0"
      then have "ic_handles ic h = Some handle" using assms(2) h(1) by simp
      then have "pin h = 0" using q h(2) unfolding quiet_def by metis
      then show False using \<open>pin h \<noteq> 0\<close> by simp
    qed
  qed
  then show ?thesis using assms(1) unfolding quieter_def by blast
qed

lemma pin_back: "pin h = 0 \<Longrightarrow> (pin(h := 1))(h := (pin(h := 1)) h - 1) = (pin :: nat \<Rightarrow> nat)"
  by auto

lemma alone_le: "alone ic h \<Longrightarrow> ic_handles ic' \<subseteq>\<^sub>m ic_handles ic \<Longrightarrow> alone ic' h"
  unfolding alone_def using map_le_Some by metis

lemma ic_ok_weaken:
  assumes "ic_ok n ic pin X" "m \<le> n" "X \<subseteq> Y"
  shows "ic_ok m ic pin Y"
proof -
  have "ad_ok m (ic_metadb ic)" using ic_okD(5) [OF assms(1)] assms(2) ad.ok_less by blast
  then show ?thesis using assms(1,3) unfolding ic_ok_def by blast
qed

lemma alone_keys:
  assumes "alone ic h" "\<And>g. map_option ih_key (ic_handles ic' g) = map_option ih_key (ic_handles ic g)"
  shows "alone ic' h"
  unfolding alone_def
proof (intro allI impI)
  fix a b g assume ab: "ic_handles ic' h = Some a" "ic_handles ic' g = Some b" "ih_key b = ih_key a"
  obtain a' b' where "ic_handles ic h = Some a'" "ih_key a' = ih_key a" "ic_handles ic g = Some b'" "ih_key b' = ih_key b"
    using assms(2) [of h] assms(2) [of g] ab(1,2) by (cases "ic_handles ic h"; cases "ic_handles ic g") auto
  then show "g = h" using assms(1) ab(3) unfolding alone_def by metis
qed

lemma ic_ok_ad: "ic_ok n ic pin X \<Longrightarrow> ad_ok m (ic_metadb ic) \<Longrightarrow> ic_ok m ic pin X"
  unfolding ic_ok_def by blast

text \<open>Releasing the only reference to a handle that is clean, or that is to be deleted.\<close>

lemma Release_clean:
  assumes ok: "ic_ok (Suc n) ic (pin(h := 1)) {}" and pin: "pin h = 0"
    and h: "ic_handles ic h = Some handle" "length (ih_value handle) < 2 ^ 32" "alone ic h"
    and clean: "clean_handle (ic_metadb ic) handle"
  obtains ic' where "InodeCache_Release ic h = Some ic'" "ic_ok (Suc n) ic' pin {}"
    "ic_metadb ic' = ic_metadb ic" "ic_handles ic' \<subseteq>\<^sub>m ic_handles ic"
    "\<And>g. 0 < pin g \<Longrightarrow> ic_handles ic' g = ic_handles ic g"
proof -
  have p: "0 < (pin(h := 1)) h" by simp
  have undo: "pin(h := 1, h := (pin(h := 1)) h - 1) = pin" using pin by auto
  obtain ic' where R: "InodeCache_Release ic h = Some ic'" "ic_handles ic' \<subseteq>\<^sub>m ic_handles ic"
    "\<forall>g. 0 < pin g \<longrightarrow> ic_handles ic' g = ic_handles ic g" and
    alt: "ic_handles ic' h = Some handle \<and> ic_metadb ic' = ic_metadb ic \<and> ic_ok (Suc n) ic' pin {h} \<or>
     ic_handles ic' h = None \<and> ic_metadb ic' = write_handle handle (ic_metadb ic) \<and> ic_ok n ic' pin {}"
    using Release_ok [OF ok p h] unfolding undo by blast
  have read: "write_handle handle (ic_metadb ic) = ic_metadb ic"
    using clean by (simp add: clean_handle_def write_handle_def)
  then have m: "ic_metadb ic' = ic_metadb ic" using alt by auto
  have "ic_ok (Suc n) ic' pin {}"
    using alt
  proof
    assume "ic_handles ic' h = Some handle \<and> ic_metadb ic' = ic_metadb ic \<and> ic_ok (Suc n) ic' pin {h}"
    then show ?thesis using clean ic_ok_X [of "Suc n" ic' pin h] m by auto
  next
    assume "ic_handles ic' h = None \<and> ic_metadb ic' = write_handle handle (ic_metadb ic) \<and> ic_ok n ic' pin {}"
    then show ?thesis using ic_ok_ad [of n ic' pin "{}" "Suc n"] ic_okD(5) [OF ok] m by simp
  qed
  then show ?thesis using R m that by blast
qed

lemma Release_Evict_delete:
  assumes ok: "ic_ok (Suc (Suc n)) ic (pin(h := 1)) {}" and pin: "pin h = 0"
    and h: "ic_handles ic h = Some handle" "length (ih_value handle) < 2 ^ 32" "alone ic h"
      "ih_mode handle = INODE_DELETE" "ih_key handle = key"
  obtains ic1 ic2 where "InodeCache_Release ic h = Some ic1" "InodeCache_Evict ic1 key = Some ic2"
    "ic_ok n ic2 pin {}" "ic_handles ic2 \<subseteq>\<^sub>m ic_handles ic" "ic_handles ic2 h = None"
    "\<And>g. 0 < pin g \<Longrightarrow> ic_handles ic2 g = ic_handles ic g"
    "ad_lookup (ic_metadb ic2) = (ad_lookup (ic_metadb ic))(ToSlice key := None)"
    "ad_now (ic_metadb ic2) = ad_now (ic_metadb ic)"
proof -
  have p: "0 < (pin(h := 1)) h" by simp
  have undo: "pin(h := 1, h := (pin(h := 1)) h - 1) = pin" using pin by auto
  obtain ic1 where R: "InodeCache_Release ic h = Some ic1" "ic_handles ic1 \<subseteq>\<^sub>m ic_handles ic"
    "\<forall>g. 0 < pin g \<longrightarrow> ic_handles ic1 g = ic_handles ic g" and
    alt: "ic_handles ic1 h = Some handle \<and> ic_metadb ic1 = ic_metadb ic \<and> ic_ok (Suc (Suc n)) ic1 pin {h} \<or>
     ic_handles ic1 h = None \<and> ic_metadb ic1 = write_handle handle (ic_metadb ic) \<and> ic_ok (Suc n) ic1 pin {}"
    using Release_ok [OF ok p h(1-3)] unfolding undo by blast
  note W = write_handle_ok [OF ic_okD(5) [OF ok] h(2)]
  have eff: "handle_effect handle m = m(ToSlice key := None)" for m
    using h(4,5) by (simp add: handle_effect_def)
  have x: "ic_handles ic1 h = Some hx \<Longrightarrow> length (ih_value hx) < 2 ^ 32 \<and> ih_key hx = key" for hx
    using alt h(2,5) by auto
  have ok1: "ic_ok (Suc n) ic1 pin {h}"
    using alt ic_ok_weaken [of "Suc (Suc n)" ic1 pin "{h}" "Suc n" "{h}"]
      ic_ok_weaken [of "Suc n" ic1 pin "{}" "Suc n" "{h}"] by auto
  obtain ic2 where E: "InodeCache_Evict ic1 key = Some ic2" "ic_handles ic2 \<subseteq>\<^sub>m ic_handles ic1"
      "\<forall>g. 0 < pin g \<longrightarrow> ic_handles ic2 g = ic_handles ic1 g"
      "if ic_handles ic1 h = None then ic_metadb ic2 = ic_metadb ic1 \<and> ic_ok (Suc n) ic2 pin {}
       else ic_handles ic2 h = None \<and> ic_metadb ic2 = write_handle (the (ic_handles ic1 h)) (ic_metadb ic1) \<and>
         ic_ok n ic2 pin {}"
    using InodeCache_Evict_ok [OF ok1 x alone_le [OF h(3) R(2)]] pin by auto
  have m: "ic_metadb ic2 = write_handle handle (ic_metadb ic)" and ok2: "ic_ok n ic2 pin {}"
    using alt E(4) ic_ok_less [of "Suc n" ic2 pin "{}" n] by (auto split: if_splits)
  have gone: "ic_handles ic2 h = None"
  proof (cases "ic_handles ic1 h = None")
    case True
    then show ?thesis using map_le_Some [OF E(2), of h] by (cases "ic_handles ic2 h") auto
  qed (use E(4) in simp)
  have "ic_handles ic2 \<subseteq>\<^sub>m ic_handles ic" using map_le_trans [OF E(2) R(2)] .
  then show ?thesis using that [OF R(1) E(1) ok2] E(3) R(3) W eff m gone by simp
qed

text \<open>Reading a value: \<^verbatim>\<open>Get\<close> in mode \<^verbatim>\<open>INODE_READ\<close>, then \<^verbatim>\<open>Release\<close>.\<close>

lemma read_quiet:
  assumes ok: "ic_ok (Suc n) ic pin {}" and q: "quiet ic pin key"
    and v: "ad_lookup (ic_metadb ic) (ToSlice key) = Some v" "length v < 2 ^ 32"
  obtains ic1 h e ic2 where "InodeCache_Get ic key INODE_READ = Some (ic1, Some h)"
    "ic_handles ic1 h = Some \<lparr>ih_key = key, ih_value = v, ih_mode = INODE_READ, ih_pointer = Some e\<rparr>"
    "InodeCache_Release ic1 h = Some ic2" "ic_ok (Suc n) ic2 pin {}" "ic_metadb ic2 = ic_metadb ic"
    "quieter ic ic2 pin"
proof -
  obtain ic1 h e where G: "InodeCache_Get ic key INODE_READ = Some (ic1, Some h)" "pin h = 0"
    "ic_handles ic1 h = Some \<lparr>ih_key = key, ih_value = v, ih_mode = INODE_READ, ih_pointer = Some e\<rparr>"
    "ic_ok (Suc n) ic1 (pin(h := 1)) {}" "ic_metadb ic1 = ic_metadb ic" "alone ic1 h"
    "\<And>g. 0 < pin g \<Longrightarrow> ic_handles ic1 g = ic_handles ic g"
    using Get_quiet [OF ok q, of INODE_READ] v(1) by auto
  have "clean_handle (ic_metadb ic1) \<lparr>ih_key = key, ih_value = v, ih_mode = INODE_READ, ih_pointer = Some e\<rparr>"
    using v(1) G(5) by (simp add: clean_handle_def)
  then obtain ic2 where R: "InodeCache_Release ic1 h = Some ic2" "ic_ok (Suc n) ic2 pin {}"
    "ic_metadb ic2 = ic_metadb ic1" "\<And>g. 0 < pin g \<Longrightarrow> ic_handles ic2 g = ic_handles ic1 g"
    using Release_clean [OF G(4,2,3) _ G(6)] v(2) by (metis InodeCacheHandle.select_convs(2))
  have "quieter ic ic2 pin" by (rule quieterI) (use R(4) G(7) in simp_all)
  then show ?thesis using that [OF G(1,3) R(1,2)] R(3) G(5) by simp
qed

text \<open>Changing a value: \<^verbatim>\<open>Get\<close> in mode \<^verbatim>\<open>INODE_WRITE\<close>, an update of the value,
  \<^verbatim>\<open>WriteBack\<close> and \<^verbatim>\<open>Release\<close>.\<close>

lemma update_quiet:
  assumes ok: "ic_ok (Suc (Suc n)) ic pin {}" and q: "quiet ic pin key"
    and v: "ad_lookup (ic_metadb ic) (ToSlice key) = Some v" and v': "length v' < 2 ^ 32"
  obtains ic1 h e ic2 ic3 where "InodeCache_Get ic key INODE_WRITE = Some (ic1, Some h)"
    "ic_handles ic1 h = Some \<lparr>ih_key = key, ih_value = v, ih_mode = INODE_WRITE, ih_pointer = Some e\<rparr>"
    "InodeCache_WriteBack (set_value ic1 h v') h = Some ic2"
    "InodeCache_Release ic2 h = Some ic3" "ic_ok (Suc n) ic3 pin {}"
    "ad_lookup (ic_metadb ic3) = (ad_lookup (ic_metadb ic))(ToSlice key \<mapsto> v')"
    "ad_now (ic_metadb ic3) = ad_now (ic_metadb ic)" "quieter ic ic3 pin"
proof -
  obtain ic1 h e where G: "InodeCache_Get ic key INODE_WRITE = Some (ic1, Some h)" "pin h = 0"
    "ic_handles ic1 h = Some \<lparr>ih_key = key, ih_value = v, ih_mode = INODE_WRITE, ih_pointer = Some e\<rparr>"
    "ic_ok (Suc (Suc n)) ic1 (pin(h := 1)) {}" "ic_metadb ic1 = ic_metadb ic" "alone ic1 h"
    "\<And>g. 0 < pin g \<Longrightarrow> ic_handles ic1 g = ic_handles ic g"
    using Get_quiet [OF ok q, of INODE_WRITE] v(1) by auto
  let ?ics = "set_value ic1 h v'"
  have p: "0 < (pin(h := 1)) h" by simp
  have h1: "ic_handles ?ics h = Some \<lparr>ih_key = key, ih_value = v', ih_mode = INODE_WRITE, ih_pointer = Some e\<rparr>"
    using G(3) by simp
  have alone1: "alone ?ics h" by (rule alone_keys [OF G(6)]) (simp add: G(3))
  obtain ic2 where W: "InodeCache_WriteBack ?ics h = Some ic2" "ic_ok (Suc n) ic2 (pin(h := 1)) {}"
    "ic_handles ic2 = (ic_handles ?ics)(h \<mapsto> \<lparr>ih_key = key, ih_value = v', ih_mode = INODE_READ, ih_pointer = Some e\<rparr>)"
    "ad_lookup (ic_metadb ic2) = (ad_lookup (ic_metadb ?ics))(ToSlice key \<mapsto> v')"
    "ad_now (ic_metadb ic2) = ad_now (ic_metadb ?ics)"
    using WriteBack_write [OF set_value_ok [OF G(4) p] p h1 _ _ alone1] v' by (auto simp del: fun_upd_apply)
  have h2: "ic_handles ic2 h = Some \<lparr>ih_key = key, ih_value = v', ih_mode = INODE_READ, ih_pointer = Some e\<rparr>"
    by (simp add: W(3))
  have alone2: "alone ic2 h" by (rule alone_keys [OF alone1]) (simp add: W(3) G(3))
  have "clean_handle (ic_metadb ic2) \<lparr>ih_key = key, ih_value = v', ih_mode = INODE_READ, ih_pointer = Some e\<rparr>"
    using W(4) by (simp add: clean_handle_def)
  then obtain ic3 where R: "InodeCache_Release ic2 h = Some ic3" "ic_ok (Suc n) ic3 pin {}"
    "ic_metadb ic3 = ic_metadb ic2" "\<And>g. 0 < pin g \<Longrightarrow> ic_handles ic3 g = ic_handles ic2 g"
    using Release_clean [OF W(2) G(2) h2 _ alone2] v' by (metis InodeCacheHandle.select_convs(2))
  have "ic_handles ic3 g = ic_handles ic g" if "0 < pin g" for g
    using R(4) [OF that] G(7) [OF that] G(2) that by (cases "g = h") (simp_all add: W(3))
  then have "quieter ic ic3 pin" by (intro quieterI) simp_all
  then show ?thesis using that [OF G(1,3) W(1) R(1,2)] R(3) W(4,5) G(5) by simp
qed

text \<open>Removing an inode: \<^verbatim>\<open>Get\<close> in mode \<^verbatim>\<open>INODE_DELETE\<close>, \<^verbatim>\<open>Release\<close>, \<^verbatim>\<open>Evict\<close>.\<close>

lemma delete_quiet:
  assumes ok: "ic_ok (Suc (Suc n)) ic pin {}" and q: "quiet ic pin key"
    and v: "ad_lookup (ic_metadb ic) (ToSlice key) = Some v" "length v < 2 ^ 32"
  obtains ic1 h e ic2 ic3 where "InodeCache_Get ic key INODE_DELETE = Some (ic1, Some h)"
    "ic_handles ic1 h = Some \<lparr>ih_key = key, ih_value = v, ih_mode = INODE_DELETE, ih_pointer = Some e\<rparr>"
    "InodeCache_Release ic1 h = Some ic2" "InodeCache_Evict ic2 key = Some ic3" "ic_ok n ic3 pin {}"
    "ad_lookup (ic_metadb ic3) = (ad_lookup (ic_metadb ic))(ToSlice key := None)"
    "ad_now (ic_metadb ic3) = ad_now (ic_metadb ic)" "quieter ic ic3 pin"
proof -
  obtain ic1 h e where G: "InodeCache_Get ic key INODE_DELETE = Some (ic1, Some h)" "pin h = 0"
    "ic_handles ic1 h = Some \<lparr>ih_key = key, ih_value = v, ih_mode = INODE_DELETE, ih_pointer = Some e\<rparr>"
    "ic_ok (Suc (Suc n)) ic1 (pin(h := 1)) {}" "ic_metadb ic1 = ic_metadb ic" "alone ic1 h"
    "\<And>g. 0 < pin g \<Longrightarrow> ic_handles ic1 g = ic_handles ic g"
    using Get_quiet [OF ok q, of INODE_DELETE] v(1) by auto
  obtain ic2 ic3 where R: "InodeCache_Release ic1 h = Some ic2" "InodeCache_Evict ic2 key = Some ic3"
    "ic_ok n ic3 pin {}" "\<And>g. 0 < pin g \<Longrightarrow> ic_handles ic3 g = ic_handles ic1 g"
    "ad_lookup (ic_metadb ic3) = (ad_lookup (ic_metadb ic1))(ToSlice key := None)"
    "ad_now (ic_metadb ic3) = ad_now (ic_metadb ic1)"
    by (rule Release_Evict_delete [OF G(4,2,3) _ G(6), of key]) (use v(2) in auto)
  have "quieter ic ic3 pin" by (rule quieterI) (use R(4) G(7) in simp_all)
  then show ?thesis using that [OF G(1,3) R(1-3)] R(5,6) G(5) by simp
qed

lemma missing_quiet:
  assumes "ic_ok n ic pin {}" "quiet ic pin key" "ad_lookup (ic_metadb ic) (ToSlice key) = None"
  obtains ic' where "InodeCache_Get ic key mode = Some (ic', None)" "ic_ok n ic' pin {}"
    "ic_metadb ic' = ic_metadb ic" "quieter ic ic' pin"
proof -
  obtain ic' where G: "InodeCache_Get ic key mode = Some (ic', None)" "ic_ok n ic' pin {}"
    "ic_metadb ic' = ic_metadb ic" "ic_handles ic' = ic_handles ic"
    using Get_quiet [OF assms(1,2), of mode] assms(3) by auto
  then have "quieter ic ic' pin" by (intro quieterI) simp_all
  then show ?thesis using that G by blast
qed


lemma ic_ok_metadb:
  assumes ok: "ic_ok n ic pin {}" and ad: "ad_ok m metadb"
    and same: "\<And>g handle. ic_handles ic g = Some handle \<Longrightarrow> pin g = 0 \<Longrightarrow>
      ad_lookup metadb (ToSlice (ih_key handle)) = ad_lookup (ic_metadb ic) (ToSlice (ih_key handle))"
  shows "ic_ok m (ic\<lparr>ic_metadb := metadb\<rparr>) pin {}"
proof (rule ic_okI [where p = "cpin ic pin"])
  note O = ic_okD [OF ok]
  fix g handle assume "ic_handles (ic\<lparr>ic_metadb := metadb\<rparr>) g = Some handle" "pin g = 0"
  then have g: "ic_handles ic g = Some handle" "pin g = 0" by simp_all
  show "clean_handle (ic_metadb (ic\<lparr>ic_metadb := metadb\<rparr>)) handle"
    using O(6) [OF g] same [OF g] by (simp add: clean_handle_def)
qed (use ic_okD [OF ok] ad in \<open>simp_all add: cpin_def\<close>)

text \<open>Moving an inode to another key: \<^verbatim>\<open>Get\<close> in mode \<^verbatim>\<open>INODE_DELETE\<close>, \<^verbatim>\<open>Insert\<close>,
  \<^verbatim>\<open>BatchCommit\<close>, the two releases and \<^verbatim>\<open>Evict\<close>.\<close>

lemma rename_quiet:
  assumes ok: "ic_ok (n + 4) ic pin {}" and q: "quiet ic pin old" "quiet ic pin new" and ne: "old \<noteq> new"
    and v: "ad_lookup (ic_metadb ic) (ToSlice old) = Some v" "length v < 2 ^ 32" and nv: "length nv < 2 ^ 32"
  obtains ic1 h1 e1 ic2 h2 ic3 ic4 ic5 ic6 where
    "InodeCache_Get ic old INODE_DELETE = Some (ic1, Some h1)"
    "ic_handles ic1 h1 = Some \<lparr>ih_key = old, ih_value = v, ih_mode = INODE_DELETE, ih_pointer = Some e1\<rparr>"
    "InodeCache_Insert ic1 new nv = Some (ic2, h2)" "InodeCache_BatchCommit ic2 h1 h2 = Some ic3"
    "InodeCache_Release ic3 h2 = Some ic4" "InodeCache_Release ic4 h1 = Some ic5"
    "InodeCache_Evict ic5 old = Some ic6" "ic_ok n ic6 pin {}"
    "ad_lookup (ic_metadb ic6) = (ad_lookup (ic_metadb ic))(ToSlice old := None, ToSlice new \<mapsto> nv)"
    "ad_now (ic_metadb ic6) = ad_now (ic_metadb ic)" "quieter ic ic6 pin"
proof -
  obtain ic1 h1 e1 where G: "InodeCache_Get ic old INODE_DELETE = Some (ic1, Some h1)" "pin h1 = 0"
    "ic_handles ic1 h1 = Some \<lparr>ih_key = old, ih_value = v, ih_mode = INODE_DELETE, ih_pointer = Some e1\<rparr>"
    "ic_ok (n + 4) ic1 (pin(h1 := 1)) {}" "ic_metadb ic1 = ic_metadb ic" "alone ic1 h1"
    "\<And>g. 0 < pin g \<Longrightarrow> ic_handles ic1 g = ic_handles ic g"
    using Get_quiet [OF ok q(1), of INODE_DELETE] v(1) by auto
  define pin1 where "pin1 = pin(h1 := 1)"
  note G4 = G(4) [folded pin1_def]
  obtain ic2 h2 e2 where I: "new_handle ic1 new nv INODE_WRITE = Some (ic2, h2)" "ic_handles ic1 h2 = None"
    "ic_handles ic2 h2 = Some \<lparr>ih_key = new, ih_value = nv, ih_mode = INODE_WRITE, ih_pointer = Some e2\<rparr>"
    "ic_metadb ic2 = ic_metadb ic1" "ic_ok (n + 4) ic2 (pin1(h2 := 1)) {}"
    "\<And>g handle. g \<noteq> h2 \<Longrightarrow> ic_handles ic2 g = Some handle \<Longrightarrow>
       ic_handles ic1 g = Some handle \<and> (ih_key handle = new \<longrightarrow> 0 < pin1 g)"
    "\<And>g. 0 < pin1 g \<Longrightarrow> ic_handles ic2 g = ic_handles ic1 g"
    using new_handle_ok [OF G4, of new nv INODE_WRITE] by blast
  define pin2 where "pin2 = pin1(h2 := 1)"
  note I5 = I(5) [folded pin2_def]
  have h12: "h2 \<noteq> h1" using I(2) G(3) by auto
  have pin1: "pin1 h2 = 0" using ic_ok_pin_handle [OF G4 I(2)] .
  have pinned: "0 < pin1 h1" "0 < pin2 h1" "0 < pin2 h2" using h12 by (simp_all add: pin1_def pin2_def)
  have H1: "ic_handles ic2 h1 = Some \<lparr>ih_key = old, ih_value = v, ih_mode = INODE_DELETE, ih_pointer = Some e1\<rparr>"
    using I(7) [OF pinned(1)] G(3) by simp
  have A1: "alone ic2 h1"
    unfolding alone_def
  proof (intro allI impI)
    fix a b g assume ab: "ic_handles ic2 h1 = Some a" "ic_handles ic2 g = Some b" "ih_key b = ih_key a"
    then have key: "ih_key b = old" using H1 by auto
    then have "g \<noteq> h2" using ab(2) I(3) ne by auto
    then have "ic_handles ic1 g = Some b" using I(6) ab(2) by blast
    then show "g = h1" using G(6) G(3) key unfolding alone_def by (metis InodeCacheHandle.select_convs(1))
  qed
  have A2: "alone ic2 h2"
    unfolding alone_def
  proof (intro allI impI)
    fix a b g assume ab: "ic_handles ic2 h2 = Some a" "ic_handles ic2 g = Some b" "ih_key b = ih_key a"
    then have key: "ih_key b = new" using I(3) by auto
    show "g = h2"
    proof (rule ccontr)
      assume "g \<noteq> h2"
      then have b: "ic_handles ic1 g = Some b" "0 < pin1 g" using I(6) ab(2) key by blast+
      then have "g \<noteq> h1" using G(3) key ne by auto
      then have "0 < pin g" using b(2) by (simp add: pin1_def)
      then have "ic_handles ic g = Some b" using G(7) b(1) by simp
      then have "pin g = 0" using q(2) key unfolding quiet_def by metis
      then show False using \<open>0 < pin g\<close> by simp
    qed
  qed
  \<comment> \<open>the batch\<close>
  have ok2: "ic_ok (Suc (n + 3)) ic2 pin2 {h1}" using ic_ok_weaken [OF I5, of "Suc (n + 3)" "{h1}"] by simp
  obtain ic3 where E: "InodeCache_Evict ic2 old = Some ic3" "ic_handles ic3 \<subseteq>\<^sub>m ic_handles ic2"
    "\<And>g. 0 < pin2 g \<Longrightarrow> ic_handles ic3 g = ic_handles ic2 g" "ic_metadb ic3 = ic_metadb ic2"
    "ic_ok (Suc (n + 3)) ic3 pin2 {}"
    using InodeCache_Evict_ok [OF ok2 _ A1, of old] H1 v(2) pinned(2) by auto
  define b1 where "b1 = WriteBatch_Delete WriteBatch_Clear (ToSlice old)"
  define b2 where "b2 = WriteBatch_Put b1 (ToSlice new) nv"
  have rep1: "batch_rep b1 0 [Batch_Delete (ToSlice old)]"
    using Delete_rep [OF batch_Clear, of "ToSlice old"] by (simp add: b1_def)
  have rep2: "batch_rep b2 0 [Batch_Delete (ToSlice old), Batch_Put (ToSlice new) nv]"
    using Put_rep [OF rep1, of "ToSlice new" nv] nv by (simp add: b2_def)
  define ic4 where "ic4 = set_mode ic3 h2 INODE_READ"
  have H13: "ic_handles ic3 h1 = ic_handles ic2 h1" "ic_handles ic3 h2 = ic_handles ic2 h2" using E(3) pinned by simp_all
  have ok4: "ic_ok (Suc (n + 3)) ic4 pin2 {}" unfolding ic4_def by (rule set_mode_ok [OF E(5) pinned(3)])
  have m4: "ic_metadb ic4 = ic_metadb ic" using E(4) I(4) G(5) by (simp add: ic4_def)
  have "ad_ok ((n + 2) + length [Batch_Delete (ToSlice old), Batch_Put (ToSlice new) nv]) (ic_metadb ic4)"
    using ic_okD(5) [OF ok4] by (simp add: eval_nat_numeral)
  then obtain ad' where W: "Adaptor_Write (ic_metadb ic4) b2 = (ad', 0)" "ad_ok (n + 2) ad'"
    "ad_lookup ad' = apply_ops [Batch_Delete (ToSlice old), Batch_Put (ToSlice new) nv] (ad_lookup (ic_metadb ic4))"
    "ad_now ad' = ad_now (ic_metadb ic4)"
    using Adaptor_Write_ok [OF _ rep2, of "n + 2"] by auto
  have look: "ad_lookup ad' = (ad_lookup (ic_metadb ic))(ToSlice old := None, ToSlice new \<mapsto> nv)"
    using W(3) m4 by (simp add: apply_ops_def)
  define ic5 where "ic5 = ic4\<lparr>ic_metadb := ad'\<rparr>"
  have B: "InodeCache_BatchCommit ic2 h1 h2 = Some ic5"
    using H1 E(1) H13(2) I(3) W(1)
    by (simp add: InodeCache_BatchCommit_def batch_handle_def b1_def [symmetric] b2_def [symmetric]
        ic4_def [symmetric] ic5_def)
  have H5: "ic_handles ic5 h1 = Some \<lparr>ih_key = old, ih_value = v, ih_mode = INODE_DELETE, ih_pointer = Some e1\<rparr>"
    "ic_handles ic5 h2 = Some \<lparr>ih_key = new, ih_value = nv, ih_mode = INODE_READ, ih_pointer = Some e2\<rparr>"
    using H13 H1 I(3) h12 by (simp_all add: ic5_def ic4_def)
  have keys5: "map_option ih_key (ic_handles ic5 g) = map_option ih_key (ic_handles ic3 g)" for g
    by (simp add: ic5_def ic4_def option.map_comp comp_def)
  have A5: "alone ic5 h1" "alone ic5 h2"
    using alone_keys [OF alone_le [OF A1 E(2)] keys5] alone_keys [OF alone_le [OF A2 E(2)] keys5] by blast+
  have ok5: "ic_ok (n + 2) ic5 pin2 {}"
    unfolding ic5_def
  proof (rule ic_ok_metadb [OF ok4 W(2)])
    fix g handle assume g: "ic_handles ic4 g = Some handle" "pin2 g = 0"
    then have g5: "ic_handles ic5 g = Some handle" by (simp add: ic5_def)
    have "g \<noteq> h1" "g \<noteq> h2" using g(2) pinned by auto
    then have "ih_key handle \<noteq> old" "ih_key handle \<noteq> new"
      using A5 H5 g5 unfolding alone_def by (metis InodeCacheHandle.select_convs(1))+
    then show "ad_lookup ad' (ToSlice (ih_key handle)) = ad_lookup (ic_metadb ic4) (ToSlice (ih_key handle))"
      using look m4 by simp
  qed
  have ok5': "ic_ok (Suc (Suc n)) ic5 (pin1(h2 := 1)) {}" using ok5 by (simp add: pin2_def)
  have clean: "clean_handle (ic_metadb ic5) \<lparr>ih_key = new, ih_value = nv, ih_mode = INODE_READ, ih_pointer = Some e2\<rparr>"
    using look by (simp add: clean_handle_def ic5_def)
  obtain ic6 where R: "InodeCache_Release ic5 h2 = Some ic6" "ic_ok (Suc (Suc n)) ic6 pin1 {}"
    "ic_metadb ic6 = ic_metadb ic5" "ic_handles ic6 \<subseteq>\<^sub>m ic_handles ic5"
    "\<And>g. 0 < pin1 g \<Longrightarrow> ic_handles ic6 g = ic_handles ic5 g"
    by (rule Release_clean [OF ok5' pin1 H5(2) _ A5(2) clean]) (use nv in auto)
  have H6: "ic_handles ic6 h1 = Some \<lparr>ih_key = old, ih_value = v, ih_mode = INODE_DELETE, ih_pointer = Some e1\<rparr>"
    using R(5) [OF pinned(1)] H5(1) by simp
  obtain ic7 ic8 where D: "InodeCache_Release ic6 h1 = Some ic7" "InodeCache_Evict ic7 old = Some ic8"
    "ic_ok n ic8 pin {}" "\<And>g. 0 < pin g \<Longrightarrow> ic_handles ic8 g = ic_handles ic6 g"
    "ad_lookup (ic_metadb ic8) = (ad_lookup (ic_metadb ic6))(ToSlice old := None)"
    "ad_now (ic_metadb ic8) = ad_now (ic_metadb ic6)"
    by (rule Release_Evict_delete [OF R(2) [unfolded pin1_def] G(2) H6 _ alone_le [OF A5(1) R(4)], of old])
      (use v(2) in auto)
  have "ic_handles ic8 g = ic_handles ic g" if "0 < pin g" for g
  proof -
    have "g \<noteq> h1" using G(2) that by auto
    then have p: "0 < pin1 g" using that by (simp add: pin1_def)
    have "g \<noteq> h2" using p pin1 by auto
    then have "0 < pin2 g" using p by (simp add: pin2_def)
    have "ic_handles ic8 g = ic_handles ic5 g" using D(4) [OF that] R(5) [OF p] by simp
    also have "\<dots> = ic_handles ic3 g" using \<open>g \<noteq> h2\<close> by (simp add: ic5_def ic4_def)
    also have "\<dots> = ic_handles ic1 g" using E(3) [OF \<open>0 < pin2 g\<close>] I(7) [OF p] by simp
    finally show ?thesis using G(7) [OF that] by simp
  qed
  then have "quieter ic ic8 pin" by (intro quieterI) simp_all
  moreover have "ad_lookup (ic_metadb ic8) = (ad_lookup (ic_metadb ic))(ToSlice old := None, ToSlice new \<mapsto> nv)"
    using D(5) R(3) look ne by (auto simp: ic5_def fun_eq_iff)
  moreover have "ad_now (ic_metadb ic8) = ad_now (ic_metadb ic)"
    using D(6) R(3) W(4) m4 by (simp add: ic5_def)
  ultimately show ?thesis
    using that [OF G(1,3) I(1) [folded InodeCache_Insert_def] B R(1) D(1-3)] by blast
qed


lemma InodeCache_new_ok:
  assumes "ad_ok n metadb"
  shows "ic_ok n (InodeCache_new metadb) (\<lambda>_. 0) {}"
proof -
  note N = NewLRUCache_ok [of MAX_OPEN_FILES, where 'v = nat]
  have ent: "cache_entry (ic_cache (InodeCache_new metadb)) = Map.empty"
    using N(3) by (simp add: InodeCache_new_def MAX_OPEN_FILES_def)
  show ?thesis
    by (rule ic_okI [where p = "\<lambda>_. 0"])
      (use N(1) assms ent in \<open>simp_all add: InodeCache_new_def MAX_OPEN_FILES_def linked_def\<close>)
qed

lemma InodeCache_new_quiet: "quiet (InodeCache_new metadb) pin key"
  by (simp add: quiet_def InodeCache_new_def)

section \<open>Properties\<close>

text \<open>C15: The inode cache is transparent. When nobody holds the inode of a key, changing its value
  through the cache (\<^verbatim>\<open>Get\<close> for writing, change, \<^verbatim>\<open>WriteBack\<close>, \<^verbatim>\<open>Release\<close>) puts the new value
  in the database, and the next \<^verbatim>\<open>Get\<close> returns a handle with that value, whether the old handle
  is still cached or not; the handles of other open files are untouched.\<close>
theorem icache_update_visible:
  assumes "ic_ok (Suc (Suc n)) ic pin {}" "quiet ic pin key"
    and "ad_lookup (ic_metadb ic) (ToSlice key) = Some v" "length v' < 2 ^ 32"
  shows "\<exists>ic1 h ic2 ic3 ic4 h4 handle. InodeCache_Get ic key INODE_WRITE = Some (ic1, Some h) \<and>
    InodeCache_WriteBack (set_value ic1 h v') h = Some ic2 \<and> InodeCache_Release ic2 h = Some ic3 \<and>
    ad_lookup (ic_metadb ic3) = (ad_lookup (ic_metadb ic))(ToSlice key \<mapsto> v') \<and>
    InodeCache_Get ic3 key INODE_READ = Some (ic4, Some h4) \<and> ic_handles ic4 h4 = Some handle \<and>
    ih_value handle = v' \<and> ih_mode handle = INODE_READ \<and>
    ic_ok (Suc n) ic3 pin {} \<and> (\<forall>g. 0 < pin g \<longrightarrow> ic_handles ic3 g = ic_handles ic g)"
proof -
  obtain ic1 h e ic2 ic3 where U: "InodeCache_Get ic key INODE_WRITE = Some (ic1, Some h)"
    "ic_handles ic1 h = Some \<lparr>ih_key = key, ih_value = v, ih_mode = INODE_WRITE, ih_pointer = Some e\<rparr>"
    "InodeCache_WriteBack (set_value ic1 h v') h = Some ic2" "InodeCache_Release ic2 h = Some ic3"
    "ic_ok (Suc n) ic3 pin {}" "ad_lookup (ic_metadb ic3) = (ad_lookup (ic_metadb ic))(ToSlice key \<mapsto> v')"
    "ad_now (ic_metadb ic3) = ad_now (ic_metadb ic)" "quieter ic ic3 pin"
    by (rule update_quiet [OF assms]) (rule that)
  have q: "quiet ic3 pin key" using U(8) assms(2) by (simp add: quieter_def)
  have v: "ad_lookup (ic_metadb ic3) (ToSlice key) = Some v'" by (simp add: U(6))
  obtain ic4 h4 e4 ic5 where R: "InodeCache_Get ic3 key INODE_READ = Some (ic4, Some h4)"
    "ic_handles ic4 h4 = Some \<lparr>ih_key = key, ih_value = v', ih_mode = INODE_READ, ih_pointer = Some e4\<rparr>"
    "InodeCache_Release ic4 h4 = Some ic5" "ic_ok (Suc n) ic5 pin {}" "ic_metadb ic5 = ic_metadb ic3"
    "quieter ic3 ic5 pin"
    by (rule read_quiet [OF U(5) q v assms(4)]) (rule that)
  show ?thesis using U(1,3-6,8) R(1,2) unfolding quieter_def by fastforce
qed

theorem icache_update_visible_witness:
  "\<exists>ad ic1 h ic2 ic3 ic4 h4 handle. Adaptor_Put \<lparr>ad_db = DBImpl_new, ad_writeahead = True, ad_sync_time_limit = 5,
       ad_sync_size_limit = -1, ad_last_sync_time = 0, ad_async_data_size = 0, ad_now = 0\<rparr>
       (ToSlice \<lparr>inode_id = 0, hash_id = 9\<rparr>) [1] = (ad, 0) \<and>
     InodeCache_Get (InodeCache_new ad) \<lparr>inode_id = 0, hash_id = 9\<rparr> INODE_WRITE = Some (ic1, Some h) \<and>
     InodeCache_WriteBack (set_value ic1 h [4]) h = Some ic2 \<and> InodeCache_Release ic2 h = Some ic3 \<and>
     InodeCache_Get ic3 \<lparr>inode_id = 0, hash_id = 9\<rparr> INODE_READ = Some (ic4, Some h4) \<and>
     ic_handles ic4 h4 = Some handle \<and> ih_value handle = [4]"
proof -
  let ?ad = "\<lparr>ad_db = DBImpl_new, ad_writeahead = True, ad_sync_time_limit = 5, ad_sync_size_limit = -1,
       ad_last_sync_time = 0, ad_async_data_size = 0, ad_now = 0\<rparr>" and ?k = "\<lparr>inode_id = 0, hash_id = 9\<rparr>"
  have ok: "ad_ok (Suc (Suc (Suc 0))) ?ad" using DBImpl_new_ok(1) [of "Suc (Suc (Suc 0))"] by (simp add: ad_ok_def)
  obtain ad where P: "Adaptor_Put ?ad (ToSlice ?k) [1] = (ad, 0)" "ad_ok (Suc (Suc 0)) ad"
    "ad_lookup ad = (ad_lookup ?ad)(ToSlice ?k \<mapsto> [1])"
    using Adaptor_Put_ok [OF ok, of "ToSlice ?k" "[1]"] by auto
  have v: "ad_lookup (ic_metadb (InodeCache_new ad)) (ToSlice ?k) = Some [1]" by (simp add: InodeCache_new_def P(3))
  show ?thesis
    using icache_update_visible [OF InodeCache_new_ok [OF P(2)] InodeCache_new_quiet v, of "[4]"] P(1) by simp blast
qed

end
