(* ===== verification/Dentry_Cache.thy ===== *)
theory Dentry_Cache
  imports Inode
begin

text \<open>
  The directory entry cache (\<^verbatim>\<open>fs/dcache.cpp\<close>): a \<^verbatim>\<open>std::list\<close> of entries, newest first,
  and a hash map from keys to nodes of the list. A node of the list has an address, and an
  iterator is that address, so that a stale node (one the map no longer points to) and a
  dangling iterator can be told apart. \<open>Find\<close> returns \<open>None\<close> where the code would
  dereference a dangling iterator. The mutex is taken for the whole of every operation and
  is not modelled. The contract \<open>entry_cache\<close> is what path resolution relies on: a hit
  returns what was inserted last, and entries may disappear at any insertion.
\<close>

section \<open>State and operations\<close>

type_synonym dentry = "tfs_meta_key_t \<times> u64"

record DentryCache =
  dc_maxsize :: nat
  dc_cache :: "(nat \<times> dentry) list"
  dc_lookup :: "tfs_meta_key_t \<rightharpoonup> nat"
  dc_brk :: nat

definition DentryCache_new :: "nat \<Rightarrow> DentryCache" where
  "DentryCache_new sz = \<lparr>dc_maxsize = sz, dc_cache = [], dc_lookup = Map.empty, dc_brk = 0\<rparr>"

definition push_front :: "DentryCache \<Rightarrow> dentry \<Rightarrow> DentryCache" where
  "push_front c ent = c\<lparr>dc_cache := (dc_brk c, ent) # dc_cache c, dc_brk := Suc (dc_brk c)\<rparr>"

definition list_erase :: "DentryCache \<Rightarrow> nat \<Rightarrow> DentryCache" where
  "list_erase c it = c\<lparr>dc_cache := filter (\<lambda>node. fst node \<noteq> it) (dc_cache c)\<rparr>"

definition DentryCache_Find ::
  "DentryCache \<Rightarrow> tfs_meta_key_t \<Rightarrow> (DentryCache \<times> u64 option) option" where
  "DentryCache_Find c key =
     (case dc_lookup c key of
        None \<Rightarrow> Some (c, None)
      | Some it \<Rightarrow>
          (case map_of (dc_cache c) it of
             None \<Rightarrow> None
           | Some ent \<Rightarrow>
               let v = snd ent;
                   c = push_front c ent;
                   c = list_erase c it;
                   c = c\<lparr>dc_lookup := (dc_lookup c)(key \<mapsto> fst (hd (dc_cache c)))\<rparr>
               in Some (c, Some v)))"

definition DentryCache_Insert :: "DentryCache \<Rightarrow> tfs_meta_key_t \<Rightarrow> u64 \<Rightarrow> DentryCache" where
  "DentryCache_Insert c key v =
     (let c = push_front c (key, v);
          c = c\<lparr>dc_lookup := (dc_lookup c)(key \<mapsto> fst (hd (dc_cache c)))\<rparr>
      in if length (dc_cache c) > dc_maxsize c then
           c\<lparr>dc_lookup := (dc_lookup c)(fst (snd (last (dc_cache c))) := None),
             dc_cache := butlast (dc_cache c)\<rparr>
         else c)"

definition DentryCache_Evict :: "DentryCache \<Rightarrow> tfs_meta_key_t \<Rightarrow> DentryCache" where
  "DentryCache_Evict c key = c\<lparr>dc_lookup := (dc_lookup c)(key := None)\<rparr>"

section \<open>Invariant and contents\<close>

definition dc_ok :: "DentryCache \<Rightarrow> bool" where
  "dc_ok c \<longleftrightarrow>
     distinct (map fst (dc_cache c)) \<and> (\<forall>node\<in>set (dc_cache c). fst node < dc_brk c) \<and>
     (\<forall>key it. dc_lookup c key = Some it \<longrightarrow> (\<exists>v. (it, key, v) \<in> set (dc_cache c))) \<and>
     length (dc_cache c) \<le> dc_maxsize c"

definition dc_view :: "DentryCache \<Rightarrow> tfs_meta_key_t \<rightharpoonup> u64" where
  "dc_view c key =
     (case dc_lookup c key of None \<Rightarrow> None | Some it \<Rightarrow> map_option snd (map_of (dc_cache c) it))"

lemma dc_lookup_node:
  "dc_ok c \<Longrightarrow> dc_lookup c key = Some it \<Longrightarrow> \<exists>v. (it, key, v) \<in> set (dc_cache c)"
  unfolding dc_ok_def by blast

lemma dc_view_iff:
  assumes "dc_ok c"
  shows "dc_view c key = Some v \<longleftrightarrow> (\<exists>it. dc_lookup c key = Some it \<and> (it, key, v) \<in> set (dc_cache c))"
proof -
  have d: "distinct (map fst (dc_cache c))" using assms by (simp add: dc_ok_def)
  show ?thesis
  proof (cases "dc_lookup c key")
    case (Some it)
    then obtain w where w: "(it, key, w) \<in> set (dc_cache c)"
      using dc_lookup_node [OF assms] by blast
    then have "map_of (dc_cache c) it = Some (key, w)" using d by simp
    moreover have "(it, key, v) \<in> set (dc_cache c) \<longleftrightarrow> v = w"
      using w d by (auto dest: eq_key_imp_eq_value)
    ultimately show ?thesis using Some by (auto simp: dc_view_def)
  qed (simp add: dc_view_def)
qed

lemma DentryCache_new_ok: "dc_ok (DentryCache_new n)" "dc_view (DentryCache_new n) = Map.empty"
  by (auto simp: dc_ok_def DentryCache_new_def dc_view_def fun_eq_iff)

lemma Find_miss: "dc_ok c \<Longrightarrow> dc_lookup c key = None \<Longrightarrow> DentryCache_Find c key = Some (c, dc_view c key)"
  by (simp add: DentryCache_Find_def dc_view_def)

lemma Find_ok:
  assumes ok: "dc_ok c"
  shows "\<exists>c'. DentryCache_Find c key = Some (c', dc_view c key) \<and> dc_ok c' \<and> dc_view c' = dc_view c \<and>
    dc_maxsize c' = dc_maxsize c"
proof (cases "dc_lookup c key")
  case None
  then show ?thesis using ok Find_miss by blast
next
  case (Some it)
  then obtain v where v: "(it, key, v) \<in> set (dc_cache c)" using dc_lookup_node [OF ok] by blast
  have d: "distinct (map fst (dc_cache c))" and lt: "\<And>node. node \<in> set (dc_cache c) \<Longrightarrow> fst node < dc_brk c"
    using ok by (auto simp: dc_ok_def)
  have it: "map_of (dc_cache c) it = Some (key, v)" using v d by simp
  have ne: "dc_brk c \<noteq> it" using lt [OF v] by simp
  let ?c = "c\<lparr>dc_cache := (dc_brk c, key, v) # filter (\<lambda>node. fst node \<noteq> it) (dc_cache c),
    dc_brk := Suc (dc_brk c), dc_lookup := (dc_lookup c)(key \<mapsto> dc_brk c)\<rparr>"
  have F: "DentryCache_Find c key = Some (?c, Some v)"
    using ne by (simp add: DentryCache_Find_def Some it push_front_def list_erase_def Let_def)
  have view: "dc_view c key = Some v" using Some v by (auto simp: dc_view_iff [OF ok])
  have other: "k = key" if "dc_lookup c k = Some it" for k
  proof -
    obtain w where "(it, k, w) \<in> set (dc_cache c)" using dc_lookup_node [OF ok \<open>dc_lookup c k = Some it\<close>] by blast
    then show ?thesis using v d by (auto dest: eq_key_imp_eq_value)
  qed
  have len: "length (filter (\<lambda>node. fst node \<noteq> it) (dc_cache c)) < length (dc_cache c)"
    using v by (intro length_filter_less [of "(it, key, v)"]) auto
  have "distinct (map fst (dc_cache ?c))"
    using d lt by (fastforce simp: distinct_map inj_on_def)
  moreover have "\<exists>w. (n, k, w) \<in> set (dc_cache ?c)" if "dc_lookup ?c k = Some n" for k n
  proof (cases "k = key")
    case True
    then show ?thesis using that by auto
  next
    case False
    then have "dc_lookup c k = Some n" "n \<noteq> it" using that other by auto
    then show ?thesis using dc_lookup_node [OF ok, of k n] by auto
  qed
  moreover have "\<forall>node\<in>set (dc_cache ?c). fst node < dc_brk ?c"
    using lt by (auto intro: less_SucI)
  moreover have "length (dc_cache ?c) \<le> dc_maxsize ?c" using len ok by (simp add: dc_ok_def)
  ultimately have ok': "dc_ok ?c" unfolding dc_ok_def by blast
  have "dc_view ?c = dc_view c"
  proof (rule ext, rule option_eqI)
    fix k w
    show "dc_view ?c k = Some w \<longleftrightarrow> dc_view c k = Some w"
    proof (cases "k = key")
      case True
      then show ?thesis
        unfolding True dc_view_iff [OF ok'] view using lt by (auto dest: lt)
    next
      case False
      then have "dc_lookup c k = Some n \<Longrightarrow> n \<noteq> it" for n using other by blast
      then show ?thesis
        unfolding dc_view_iff [OF ok'] dc_view_iff [OF ok] using False by auto
    qed
  qed
  then show ?thesis using F ok' view by auto
qed

lemma DentryCache_Insert_ok:
  assumes ok: "dc_ok c"
  shows "dc_ok (DentryCache_Insert c key v)"
    and "dc_view (DentryCache_Insert c key v) \<subseteq>\<^sub>m (dc_view c)(key \<mapsto> v)"
    and "dc_maxsize (DentryCache_Insert c key v) = dc_maxsize c"
proof -
  have d: "distinct (map fst (dc_cache c))" and lt: "\<And>node. node \<in> set (dc_cache c) \<Longrightarrow> fst node < dc_brk c"
    using ok by (auto simp: dc_ok_def)
  let ?c1 = "c\<lparr>dc_cache := (dc_brk c, key, v) # dc_cache c, dc_brk := Suc (dc_brk c),
    dc_lookup := (dc_lookup c)(key \<mapsto> dc_brk c)\<rparr>"
  obtain front hindmost where zs: "(dc_brk c, key, v) # dc_cache c = front @ [hindmost]"
    by (metis append_butlast_last_id list.distinct(1))
  let ?c2 = "?c1\<lparr>dc_lookup := (dc_lookup ?c1)(fst (snd hindmost) := None), dc_cache := front\<rparr>"
  define c' where "c' = DentryCache_Insert c key v"
  have "last ((dc_brk c, key, v) # dc_cache c) = hindmost" "butlast ((dc_brk c, key, v) # dc_cache c) = front"
    unfolding zs by simp_all
  then have c': "c' = (if length (dc_cache ?c1) > dc_maxsize c then ?c2 else ?c1)"
    by (simp add: c'_def DentryCache_Insert_def push_front_def Let_def del: last.simps butlast.simps)
  have d1: "distinct (map fst (dc_cache ?c1))" using d lt by (auto dest: lt)
  have look1: "\<exists>w. (n, k, w) \<in> set (dc_cache ?c1)" if "dc_lookup ?c1 k = Some n" for k n
    using that dc_lookup_node [OF ok, of k n] by (cases "k = key") auto
  have len: "length (dc_cache c) \<le> dc_maxsize c" using ok by (simp add: dc_ok_def)
  have "distinct (map fst (front @ [hindmost]))" using d1 zs by simp
  then have d2: "distinct (map fst front)" by simp
  have set_zs: "set (dc_cache ?c1) = insert hindmost (set front)"
    using arg_cong [OF zs, of set] by simp
  have look2: "\<exists>w. (n, k, w) \<in> set front" if n: "dc_lookup ?c2 k = Some n" for k n
  proof -
    have k: "k \<noteq> fst (snd hindmost)" "dc_lookup ?c1 k = Some n" using n by (auto split: if_splits)
    then obtain w where "(n, k, w) \<in> set (dc_cache ?c1)" using look1 by blast
    then have "(n, k, w) \<in> set front" using k(1) unfolding set_zs by auto
    then show ?thesis by blast
  qed
  have ok1: "dc_ok ?c1" if "length (dc_cache ?c1) \<le> dc_maxsize c"
  proof -
    have "\<forall>node\<in>set (dc_cache ?c1). fst node < dc_brk ?c1" using lt by (auto intro: less_SucI)
    then show ?thesis using d1 look1 that unfolding dc_ok_def by (simp del: list.set)
  qed
  have "\<forall>node\<in>set (dc_cache ?c1). fst node < Suc (dc_brk c)"
    using lt by (auto intro: less_SucI)
  then have "\<forall>node\<in>set front. fst node < Suc (dc_brk c)" unfolding set_zs by blast
  moreover have "length front \<le> dc_maxsize c" using arg_cong [OF zs, of length] len by simp
  ultimately have ok2: "dc_ok ?c2"
    using d2 look2 unfolding dc_ok_def by simp
  show ok': "dc_ok (DentryCache_Insert c key v)"
    using ok1 ok2 unfolding c'_def [symmetric] c' by auto
  have "dc_maxsize c' = dc_maxsize c" by (simp add: c')
  then show "dc_maxsize (DentryCache_Insert c key v) = dc_maxsize c" by (simp add: c'_def)
  have "((dc_view c)(key \<mapsto> v)) k = Some w" if view: "dc_view c' k = Some w" for k w
  proof -
    obtain n where n: "dc_lookup c' k = Some n" "(n, k, w) \<in> set (dc_cache c')"
      using view dc_view_iff [OF ok', of k w] unfolding c'_def by blast
    have "dc_lookup ?c1 k = Some n"
      using n(1) unfolding c' by (auto split: if_splits)
    moreover have "(n, k, w) \<in> set (dc_cache ?c1)"
      using n(2) set_zs unfolding c' by (auto split: if_splits)
    ultimately show ?thesis
      using lt by (cases "k = key") (auto simp: dc_view_iff [OF ok] dest: lt)
  qed
  then show "dc_view (DentryCache_Insert c key v) \<subseteq>\<^sub>m (dc_view c)(key \<mapsto> v)"
    unfolding c'_def [symmetric] map_le_def by (metis domD)
qed

lemma DentryCache_Evict_ok:
  assumes ok: "dc_ok c"
  shows "dc_ok (DentryCache_Evict c key)"
    and "dc_view (DentryCache_Evict c key) = (dc_view c)(key := None)"
    and "dc_maxsize (DentryCache_Evict c key) = dc_maxsize c"
proof -
  have "\<exists>v. (it, k, v) \<in> set (dc_cache c)" if "((dc_lookup c)(key := None)) k = Some it" for k it
    using that dc_lookup_node [OF ok, of k it] by (auto split: if_splits)
  then show "dc_ok (DentryCache_Evict c key)"
    using ok unfolding dc_ok_def DentryCache_Evict_def by simp
  show "dc_view (DentryCache_Evict c key) = (dc_view c)(key := None)"
    by (rule ext) (simp add: dc_view_def DentryCache_Evict_def split: option.split)
  show "dc_maxsize (DentryCache_Evict c key) = dc_maxsize c"
    by (simp add: DentryCache_Evict_def)
qed

section \<open>The contract path resolution relies on\<close>

locale entry_cache =
  fixes ok :: "'c \<Rightarrow> bool"
    and view :: "'c \<Rightarrow> 'k \<rightharpoonup> 'a"
    and find_op :: "'c \<Rightarrow> 'k \<Rightarrow> ('c \<times> 'a option) option"
    and insert_op :: "'c \<Rightarrow> 'k \<Rightarrow> 'a \<Rightarrow> 'c"
    and evict_op :: "'c \<Rightarrow> 'k \<Rightarrow> 'c"
  assumes find_ok: "ok c \<Longrightarrow> \<exists>c'. find_op c k = Some (c', view c k) \<and> ok c' \<and> view c' = view c"
    and insert_ok: "ok c \<Longrightarrow> ok (insert_op c k v) \<and> view (insert_op c k v) \<subseteq>\<^sub>m (view c)(k \<mapsto> v)"
    and evict_ok: "ok c \<Longrightarrow> ok (evict_op c k) \<and> view (evict_op c k) = (view c)(k := None)"
begin

text \<open>A cache whose entries agree with a map \<open>truth\<close> keeps agreeing with it.\<close>

definition agrees :: "'c \<Rightarrow> ('k \<rightharpoonup> 'a) \<Rightarrow> bool" where
  "agrees c truth \<longleftrightarrow> ok c \<and> view c \<subseteq>\<^sub>m truth"

lemma find_agrees:
  assumes "agrees c truth" "find_op c k = Some (c', r)"
  shows "agrees c' truth" and "r = Some v \<Longrightarrow> truth k = Some v"
proof -
  have c': "ok c'" "view c' = view c" "r = view c k"
    using find_ok [of c k] assms by (auto simp: agrees_def)
  then show "agrees c' truth" using assms(1) by (simp add: agrees_def)
  show "truth k = Some v" if "r = Some v"
  proof -
    have "view c k = Some v" using c'(3) that by simp
    then show ?thesis using assms(1) unfolding agrees_def map_le_def by (metis domI)
  qed
qed

lemma find_total: "agrees c truth \<Longrightarrow> \<exists>c' r. find_op c k = Some (c', r)"
  using find_ok [of c k] by (auto simp: agrees_def)

lemma insert_agrees:
  assumes "agrees c truth" "truth k = Some v"
  shows "agrees (insert_op c k v) truth"
proof -
  have "(view c)(k \<mapsto> v) \<subseteq>\<^sub>m truth"
    using assms by (auto simp: agrees_def map_le_def)
  then show ?thesis using insert_ok [of c k v] assms(1) map_le_trans by (auto simp: agrees_def)
qed

lemma evict_agrees:
  assumes "agrees c truth" "\<And>k'. k' \<noteq> k \<Longrightarrow> truth' k' = truth k'"
  shows "agrees (evict_op c k) truth'"
  using evict_ok [of c k] assms by (auto simp: agrees_def map_le_def)

lemma agrees_mono: "agrees c truth \<Longrightarrow> truth \<subseteq>\<^sub>m truth' \<Longrightarrow> agrees c truth'"
  using map_le_trans by (auto simp: agrees_def)

end

interpretation dentry: entry_cache dc_ok dc_view DentryCache_Find DentryCache_Insert DentryCache_Evict
proof (unfold_locales, goal_cases)
  case (1 c k)
  then show ?case using Find_ok by blast
next
  case (2 c k v)
  then show ?case using DentryCache_Insert_ok by blast
next
  case (3 c k)
  then show ?case using DentryCache_Evict_ok by blast
qed

section \<open>When an insertion is visible\<close>

lemma Insert_hit:
  assumes ok: "dc_ok c" and room: "0 < dc_maxsize c"
    and stale: "\<forall>node\<in>set (dc_cache c). fst (snd node) \<noteq> key"
  shows "dc_view (DentryCache_Insert c key v) key = Some v"
proof -
  have lookup: "dc_lookup (DentryCache_Insert c key v) key = Some (dc_brk c) \<and>
      (dc_brk c, key, v) \<in> set (dc_cache (DentryCache_Insert c key v))"
  proof (cases "dc_maxsize c < Suc (length (dc_cache c))")
    case True
    then have "dc_cache c \<noteq> []" using room by auto
    moreover then have "fst (snd (last (dc_cache c))) \<noteq> key" using stale by simp
    ultimately show ?thesis
      using True by (simp add: DentryCache_Insert_def push_front_def Let_def)
  next
    case False
    then show ?thesis by (simp add: DentryCache_Insert_def push_front_def Let_def)
  qed
  then show ?thesis using dc_view_iff [OF DentryCache_Insert_ok(1) [OF ok]] by blast
qed

section \<open>Properties\<close>

text \<open>C21: The directory entry cache never answers with anything but the inode last inserted for the
  key since it was evicted, and never holds more than \<^verbatim>\<open>maxsize\<close> nodes; the iterators in
  \<^verbatim>\<open>lookup\<close> always point at nodes of the list, so no step uses a dangling one.\<close>
theorem dentry_cache_correct:
  assumes "dc_ok c"
  shows "(\<exists>c'. DentryCache_Find c key = Some (c', dc_view c key) \<and> dc_ok c' \<and> dc_view c' = dc_view c) \<and>
    dc_ok (DentryCache_Insert c key v) \<and> dc_view (DentryCache_Insert c key v) \<subseteq>\<^sub>m (dc_view c)(key \<mapsto> v) \<and>
    dc_ok (DentryCache_Evict c key) \<and> dc_view (DentryCache_Evict c key) = (dc_view c)(key := None) \<and>
    length (dc_cache (DentryCache_Insert c key v)) \<le> dc_maxsize c"
  using dentry.find_ok [OF assms, of key] dentry.insert_ok [OF assms, of key v] dentry.evict_ok [OF assms, of key]
    DentryCache_Insert_ok(1,3) [OF assms, of key v]
  by (simp add: dc_ok_def)

theorem dentry_cache_correct_witness:
  "dc_view (DentryCache_Evict (DentryCache_Insert (DentryCache_new 2) \<lparr>inode_id = 1, hash_id = 2\<rparr> 5)
     \<lparr>inode_id = 1, hash_id = 2\<rparr>) \<lparr>inode_id = 1, hash_id = 2\<rparr> = None \<and>
   length (dc_cache (DentryCache_Insert (DentryCache_new 2) \<lparr>inode_id = 1, hash_id = 2\<rparr> 5)) \<le> 2"
proof -
  let ?k = "\<lparr>inode_id = 1, hash_id = 2\<rparr>"
  have "dc_ok (DentryCache_Insert (DentryCache_new 2) ?k 5)" "length (dc_cache (DentryCache_Insert (DentryCache_new 2) ?k 5)) \<le> 2"
    using dentry_cache_correct [OF DentryCache_new_ok(1) [of 2], of ?k 5] by (simp_all add: DentryCache_new_def)
  then show ?thesis using dentry_cache_correct [of "DentryCache_Insert (DentryCache_new 2) ?k 5" ?k 5] by simp
qed

end
