(* ===== verification/State.thy ===== *)
theory State
  imports Adaptor Inode "HOL-Library.Signed_Division"
begin

text \<open>
  The state of the file system (\<^verbatim>\<open>fs/tfs_state.cpp\<close>): configuration, the inode counter
  and its file \<^verbatim>\<open>root.dat\<close>; and the operating system calls the file system makes.
  \<^item> The kernel is a parameter: the record \<open>posix\<close> holds one function per call over an
    abstract state \<open>'d\<close>. A file is kept outside the database only through these calls.
  \<^item> Paths of files on disk are \<open>string\<close>s; paths within the file system are bytes.
  \<^item> \<^verbatim>\<open>sprintf\<close> into a buffer that is too small is \<open>None\<close>.
  \<^item> \<^verbatim>\<open>%u\<close> prints and reads the low 32 bits of the 64-bit inode counter, as the code's
    calls do.
\<close>

section \<open>The operating system\<close>

record 'd posix =
  px_open :: "string \<Rightarrow> u32 \<Rightarrow> u32 \<Rightarrow> 'd \<Rightarrow> int \<times> 'd"
  px_close :: "int \<Rightarrow> 'd \<Rightarrow> int \<times> 'd"
  px_pread :: "int \<Rightarrow> u64 \<Rightarrow> u64 \<Rightarrow> 'd \<Rightarrow> (int \<times> bytes) \<times> 'd"
  px_pwrite :: "int \<Rightarrow> bytes \<Rightarrow> u64 \<Rightarrow> 'd \<Rightarrow> int \<times> 'd"
  px_ftruncate :: "int \<Rightarrow> u64 \<Rightarrow> 'd \<Rightarrow> int \<times> 'd"
  px_truncate :: "string \<Rightarrow> u64 \<Rightarrow> 'd \<Rightarrow> int \<times> 'd"
  px_fsync :: "int \<Rightarrow> 'd \<Rightarrow> int \<times> 'd"
  px_unlink :: "string \<Rightarrow> 'd \<Rightarrow> int \<times> 'd"
  px_mkdir :: "string \<Rightarrow> 'd \<Rightarrow> int \<times> 'd"
  px_lstat :: "string \<Rightarrow> 'd \<Rightarrow> tfs_stat_t"
  px_errno :: "'d \<Rightarrow> int"
  px_realpath :: "string \<Rightarrow> string"
  px_read_file :: "string \<Rightarrow> 'd \<Rightarrow> string option"
  px_write_file :: "string \<Rightarrow> string \<Rightarrow> 'd \<Rightarrow> 'd option"

section \<open>Configuration and the inode counter\<close>

record FileSystemState =
  metadir :: string
  datadir :: string
  mountdir :: string
  threshold :: int
  max_inode_num :: u64

definition NUM_FILES_IN_DATADIR_BITS :: nat where
  "NUM_FILES_IN_DATADIR_BITS = 14"

definition NUM_FILES_IN_DATADIR :: nat where
  "NUM_FILES_IN_DATADIR = 16384"

definition int_of_inode :: "u64 \<Rightarrow> int" where
  "int_of_inode inum = sint (ucast inum :: u32)"

definition parse_u :: "string \<Rightarrow> u32 option" where
  "parse_u s =
     (case dropWhile isspace s of
        [] \<Rightarrow> None
      | c # cs \<Rightarrow>
          if c = CHR ''-'' \<and> cs \<noteq> [] \<and> is_digit (hd cs) then Some (- word_of_int (parse_digits cs))
          else if c = CHR ''+'' \<and> cs \<noteq> [] \<and> is_digit (hd cs) then Some (word_of_int (parse_digits cs))
          else if is_digit c then Some (word_of_int (parse_digits (c # cs)))
          else None)"

definition root_dat :: "FileSystemState \<Rightarrow> string" where
  "root_dat st = datadir st @ ''/root.dat''"

definition print_counter :: "u64 \<Rightarrow> string" where
  "print_counter n = print_nat (unat (ucast n :: u32)) @ [CHR 0x0A]"

definition State_new :: FileSystemState where
  "State_new = \<lparr>metadir = [], datadir = [], mountdir = [], threshold = 0, max_inode_num = 0\<rparr>"

definition State_Setup ::
  "'d posix \<Rightarrow> FileSystemState \<Rightarrow> Properties \<Rightarrow> int \<Rightarrow> DBImpl option \<Rightarrow> 'd \<Rightarrow>
     ((FileSystemState \<times> LevelDBAdaptor option \<times> int) \<times> 'd) option" where
  "State_Setup px st prop now opened d =
     (let st = st\<lparr>metadir := px_realpath px (getProperty_root prop ''metadir''),
                  datadir := px_realpath px (getProperty_root prop ''datadir''),
                  mountdir := px_realpath px (getProperty_root prop ''mountdir'')\<rparr>;
          st = st\<lparr>threshold := getPropertyInt prop ''threshold'' 4096\<rparr>;
          prop1 = setProperty prop ''leveldb.db'' (metadir st @ ''/meta'');
          prop1 = setProperty prop1 ''leveldb.create.if.missing.db'' ''true''
      in case Adaptor_Init prop1 now opened of
           (metadb, ret) \<Rightarrow>
             if ret < 0 then Some ((st, metadb, -1), d)
             else if 256 \<le> length (root_dat st) then None
             else
               (case px_read_file px (root_dat st) d of
                  None \<Rightarrow>
                    let st = st\<lparr>max_inode_num := 0\<rparr>
                    in (case px_write_file px (root_dat st) (print_counter (max_inode_num st)) d of
                          None \<Rightarrow> None
                        | Some d \<Rightarrow>
                            Some ((st, metadb, 0), snd (px_mkdir px (datadir st @ ''/'' @ print_int 0) d)))
                | Some s \<Rightarrow>
                    (case parse_u s of
                       Some n \<Rightarrow> Some ((st\<lparr>max_inode_num :=
                         push_bit 32 (drop_bit 32 (max_inode_num st)) OR ucast n\<rparr>, metadb, 0), d)
                     | None \<Rightarrow>
                         Some ((if dropWhile isspace s = [] then st else st\<lparr>max_inode_num := 0\<rparr>,
                           metadb, 0), d))))"

definition State_IsEmpty :: "FileSystemState \<Rightarrow> bool" where
  "State_IsEmpty st \<longleftrightarrow> max_inode_num st = 0"

definition State_Destroy :: "'d posix \<Rightarrow> FileSystemState \<Rightarrow> 'd \<Rightarrow> 'd option" where
  "State_Destroy px st d =
     (if 256 \<le> length (root_dat st) then None
      else Some (case px_write_file px (root_dat st) (print_counter (max_inode_num st)) d of
                   None \<Rightarrow> d
                 | Some d \<Rightarrow> d))"

definition State_NewInode :: "'d posix \<Rightarrow> FileSystemState \<Rightarrow> 'd \<Rightarrow> ((FileSystemState \<times> u64) \<times> 'd) option" where
  "State_NewInode px st d =
     (let st = st\<lparr>max_inode_num := max_inode_num st + 1\<rparr>
      in if max_inode_num st mod of_nat NUM_FILES_IN_DATADIR = 0 then
           (let fpath = datadir st @ ''/'' @
                  print_int (drop_bit NUM_FILES_IN_DATADIR_BITS (int_of_inode (max_inode_num st)))
            in if 512 \<le> length fpath then None
               else Some ((st, max_inode_num st), snd (px_mkdir px fpath d)))
         else Some ((st, max_inode_num st), d))"

definition GetDiskFilePath :: "FileSystemState \<Rightarrow> u64 \<Rightarrow> string option" where
  "GetDiskFilePath st inum =
     (let path = datadir st @ ''/'' @
            print_int (drop_bit NUM_FILES_IN_DATADIR_BITS (int_of_inode inum)) @ ''/'' @
            print_int (int_of_inode inum smod int NUM_FILES_IN_DATADIR)
      in if 128 \<le> length path then None else Some path)"

section \<open>Paths on disk\<close>

lemma sint_small:
  assumes "unat (w :: u32) < 2 ^ 31"
  shows "sint w = int (unat w)"
proof -
  have "uint w < 2 ^ 31" using assms by (metis of_nat_less_iff of_nat_numeral of_nat_power uint_nat)
  moreover have "- (2 ^ 31) \<le> uint w" by (rule order_trans [OF _ uint_ge_0]) simp
  ultimately show ?thesis by (simp add: sint_uint signed_take_bit_int_eq_self)
qed

lemma int_of_inode_small: "unat i < 2 ^ 31 \<Longrightarrow> int_of_inode i = int (unat i)"
proof -
  assume a: "unat i < 2 ^ 31"
  have "unat (ucast i :: u32) = unat i"
    using a by (simp add: unsigned_ucast_eq take_bit_nat_eq_self)
  then show ?thesis using a sint_small [of "ucast i"] by (simp only: int_of_inode_def)
qed

lemma no_slash: "CHR ''/'' \<notin> set (print_nat n)"
  using digits_print_nat [of n] is_digit_props(4) by (auto simp: list_all_iff)

lemma split_slash:
  assumes "a @ CHR ''/'' # b = a' @ CHR ''/'' # b'" "CHR ''/'' \<notin> set a" "CHR ''/'' \<notin> set a'"
  shows "a = a'" and "b = b'"
proof -
  have "takeWhile (\<lambda>c. c \<noteq> CHR ''/'') (a @ CHR ''/'' # b) = takeWhile (\<lambda>c. c \<noteq> CHR ''/'') (a' @ CHR ''/'' # b')"
    using assms(1) by simp
  then show "a = a'" unfolding takeWhile_stop [OF assms(2)] takeWhile_stop [OF assms(3)] .
  then show "b = b'" using assms(1) by simp
qed

lemma disk_path_small:
  assumes "GetDiskFilePath st i = Some p" "unat i < 2 ^ 31"
  shows "p = datadir st @ ''/'' @ print_nat (unat i div 2 ^ 14) @ ''/'' @ print_nat (unat i mod 2 ^ 14)"
proof -
  have "drop_bit 14 (int k) = int (k div 2 ^ 14)" for k by (simp add: drop_bit_eq_div zdiv_int)
  then have "print_int (drop_bit 14 (int k)) = print_nat (k div 2 ^ 14)" for k by (simp add: print_int_def)
  then have a: "print_int (drop_bit NUM_FILES_IN_DATADIR_BITS (int_of_inode i)) = print_nat (unat i div 2 ^ 14)"
    unfolding int_of_inode_small [OF assms(2)] NUM_FILES_IN_DATADIR_BITS_def .
  have "int k smod int NUM_FILES_IN_DATADIR = int (k mod 2 ^ 14)" for k
    by (simp add: smod_int_alt_def zmod_int sgn_if NUM_FILES_IN_DATADIR_def)
  then have "print_int (int k smod int NUM_FILES_IN_DATADIR) = print_nat (k mod 2 ^ 14)" for k
    by (simp add: print_int_def)
  then have b: "print_int (int_of_inode i smod int NUM_FILES_IN_DATADIR) = print_nat (unat i mod 2 ^ 14)"
    unfolding int_of_inode_small [OF assms(2)] .
  show ?thesis using assms(1) unfolding GetDiskFilePath_def Let_def a b by (simp split: if_splits)
qed

lemma disk_path_inject:
  assumes "GetDiskFilePath st i = Some p" "GetDiskFilePath st j = Some p" "unat i < 2 ^ 31" "unat j < 2 ^ 31"
  shows "i = j"
proof -
  have "datadir st @ ''/'' @ print_nat (unat i div 2 ^ 14) @ ''/'' @ print_nat (unat i mod 2 ^ 14) =
      datadir st @ ''/'' @ print_nat (unat j div 2 ^ 14) @ ''/'' @ print_nat (unat j mod 2 ^ 14)"
    using disk_path_small [OF assms(1,3)] disk_path_small [OF assms(2,4)] by (simp only:)
  then have p: "print_nat (unat i div 2 ^ 14) @ CHR ''/'' # print_nat (unat i mod 2 ^ 14) =
      print_nat (unat j div 2 ^ 14) @ CHR ''/'' # print_nat (unat j mod 2 ^ 14)"
    by simp
  have "unat i div 2 ^ 14 = unat j div 2 ^ 14" "unat i mod 2 ^ 14 = unat j mod 2 ^ 14"
    using split_slash [OF p no_slash no_slash] print_nat_inject by blast+
  then have "unat i = unat j" by (metis div_mult_mod_eq)
  then show ?thesis by (simp add: word_unat_eq_iff)
qed

section \<open>The inode counter across a restart\<close>

lemma parse_print_counter: "parse_u (print_counter n) = Some (ucast n)"
proof -
  let ?d = "print_nat (unat (ucast n :: u32))"
  obtain c cs where d: "?d = c # cs" "is_digit c"
    using digits_print_nat [of "unat (ucast n :: u32)"] print_nat_not_Nil by (cases ?d) auto
  have "takeWhile is_digit (?d @ [CHR 0x0A]) = ?d"
    using digits_print_nat [of "unat (ucast n :: u32)"]
    by (simp add: list_all_iff takeWhile_append2 is_digit_def)
  then have "parse_digits (?d @ [CHR 0x0A]) = parse_digits ?d"
    using digits_print_nat [of "unat (ucast n :: u32)"]
    by (simp add: parse_digits_def list_all_iff takeWhile_eq_all_conv [THEN iffD2])
  then have "parse_digits (c # cs @ [CHR 0x0A]) = int (unat (ucast n :: u32))"
    using parse_print_nat [of "unat (ucast n :: u32)"] unfolding d(1) by simp
  then show ?thesis
    using d is_digit_props [OF d(2)] by (simp add: parse_u_def print_counter_def)
qed

section \<open>Properties\<close>

text \<open>What the code relies on: a file holds what was last written to it.\<close>

definition keeps_files :: "'d posix \<Rightarrow> bool" where
  "keeps_files px \<longleftrightarrow> (\<forall>p s d d'. px_write_file px p s d = Some d' \<longrightarrow> px_read_file px p d' = Some s)"

lemma Setup_again:
  assumes "px_read_file px (root_dat st) d = Some (print_counter n)" "length (root_dat st) < 256"
    and "px_realpath px (getProperty_root prop ''datadir'') = datadir st"
  shows "\<exists>st' ad. State_Setup px State_new prop now (Some db) d = Some ((st', Some ad, 0), d) \<and> ad_db ad = db \<and>
    datadir st' = datadir st \<and> max_inode_num st' = ucast (ucast n :: u32)"
  using assms by (simp add: State_Setup_def Adaptor_Init_def State_new_def root_dat_def parse_print_counter Let_def)

lemma unat_low_half: "unat (ucast (ucast n :: u32) :: u64) = unat n mod 2 ^ 32" for n :: u64
proof -
  have "unat (ucast (ucast n :: u32) :: u64) = take_bit 32 (unat n)"
    by (simp add: unsigned_ucast_eq unsigned_take_bit_eq)
  then show ?thesis by (simp only: take_bit_eq_mod)
qed

lemma New_number:
  assumes "State_NewInode px st d = Some ((st', inum), d')"
  shows "inum = max_inode_num st + 1 \<and> datadir st' = datadir st"
  using assms by (auto simp: State_NewInode_def Let_def split: if_splits)

lemma disk_path_datadir: "datadir st' = datadir st \<Longrightarrow> GetDiskFilePath st' i = GetDiskFilePath st i"
  by (simp add: GetDiskFilePath_def)


definition map_px :: "(string \<Rightarrow> string option) posix" where
  "map_px = \<lparr>px_open = (\<lambda>_ _ _ d. (-1, d)), px_close = (\<lambda>_ d. (-1, d)), px_pread = (\<lambda>_ _ _ d. ((-1, []), d)),
     px_pwrite = (\<lambda>_ _ _ d. (-1, d)), px_ftruncate = (\<lambda>_ _ d. (-1, d)), px_truncate = (\<lambda>_ _ d. (-1, d)),
     px_fsync = (\<lambda>_ d. (-1, d)), px_unlink = (\<lambda>_ d. (-1, d)), px_mkdir = (\<lambda>_ d. (0, d)),
     px_lstat = (\<lambda>_ _. decode_stat []), px_errno = (\<lambda>_. 0), px_realpath = id,
     px_read_file = (\<lambda>p d. d p), px_write_file = (\<lambda>p s d. Some (d(p \<mapsto> s)))\<rparr>"


end
