(* ===== verification/Path_Lookup.thy ===== *)
theory Path_Lookup
  imports Inode_Cache Dentry_Cache State Hashing
begin

text \<open>
  The state of the file system and path resolution (\<^verbatim>\<open>fs/tablefs.cpp\<close>).
  \<^item> Every operation returns the new state; undefined behaviour is \<open>None\<close>.
  \<^item> The database is the one of the inode cache: \<^verbatim>\<open>metadb\<close> and the static
    \<^verbatim>\<open>InodeCache::metadb_\<close> are the same pointer. \<^verbatim>\<open>fi->fh\<close> is the address of a file
    handle in \<open>fs_fhs\<close>, or of an inode handle for a directory.
  \<^item> The locks of \<^verbatim>\<open>fstree_lock\<close> do nothing (their bodies are commented out) and are left out, as is
    the debug logging.
  \<^item> Paths are C strings without their NUL, and not empty; a path is shorter than
    \<open>2 ^ 31\<close>, the range of the \<^verbatim>\<open>int\<close> its lengths are passed in.
  \<^item> \<open>resolve\<close> is resolution without the directory entry cache. With a cache that agrees
    with the database, \<^verbatim>\<open>ParentPathLookup\<close> computes the same, so the cache is invisible;
    this rests on the interpretation \<open>dentry\<close>.
\<close>

section \<open>State\<close>

record tfs_file_handle_t =
  fh_handle :: nat
  fh_flags :: u32
  fh_fd :: int

record 'd TableFS =
  fs_state :: FileSystemState
  fs_ic :: InodeCache
  fs_dcache :: DentryCache
  fs_owner :: "u32 \<times> u32"
  fs_fhs :: "nat \<rightharpoonup> tfs_file_handle_t"
  fs_brk :: nat
  fs_errno :: int
  fs_disk :: 'd

definition ROOT_INODE_ID :: u64 where
  "ROOT_INODE_ID = 0"

definition PATH_DELIMITER :: byte where
  "PATH_DELIMITER = 0x2F"

definition ENOENT :: int where
  "ENOENT = 2"

definition BuildMetaKey :: "u64 \<Rightarrow> u64 \<Rightarrow> tfs_meta_key_t" where
  "BuildMetaKey inum hash = \<lparr>inode_id = inum, hash_id = hash\<rparr>"

definition BuildMetaKey_path :: "bytes \<Rightarrow> u64 \<Rightarrow> tfs_meta_key_t" where
  "BuildMetaKey_path path inum = BuildMetaKey inum (murmur64 path 123)"

definition IsKeyInDir :: "bytes \<Rightarrow> tfs_meta_key_t \<Rightarrow> bool option" where
  "IsKeyInDir key dirkey =
     (if length key < 8 then None else Some (DecodeFixed64 key = inode_id dirkey))"

definition FSError :: "'d TableFS \<Rightarrow> int" where
  "FSError fs = - fs_errno fs"

section \<open>Path resolution\<close>

text \<open>\<open>rest\<close> is the path after \<^verbatim>\<open>lpos + 1\<close>; \<open>moved\<close> tells whether \<^verbatim>\<open>lpos\<close> has moved
  from the start of the path.\<close>

function ParentPathLookup_loop ::
  "'d TableFS \<Rightarrow> tfs_meta_key_t \<Rightarrow> u64 \<Rightarrow> bytes \<Rightarrow> bool \<Rightarrow>
     ('d TableFS \<times> (tfs_meta_key_t \<times> u64 \<times> bytes \<times> bool) option) option" where
  "ParentPathLookup_loop fs key inode_in_search rest moved =
     (case dropWhile (\<lambda>c. c \<noteq> PATH_DELIMITER) rest of
        [] \<Rightarrow> Some (fs, Some (key, inode_in_search, rest, moved))
      | _ # rest' \<Rightarrow>
          let key = BuildMetaKey_path (takeWhile (\<lambda>c. c \<noteq> PATH_DELIMITER) rest) inode_in_search
          in case DentryCache_Find (fs_dcache fs) key of
               None \<Rightarrow> None
             | Some (dc, Some inum) \<Rightarrow>
                 ParentPathLookup_loop (fs\<lparr>fs_dcache := dc\<rparr>) key inum rest' True
             | Some (dc, None) \<Rightarrow>
                 (case Adaptor_Get (ic_metadb (fs_ic fs)) (ToSlice key) of
                    (ret, result) \<Rightarrow>
                      if ret = 1 then
                        ParentPathLookup_loop
                          (fs\<lparr>fs_dcache := DentryCache_Insert dc key (st_ino (GetAttribute result))\<rparr>)
                          key (st_ino (GetAttribute result)) rest' True
                      else Some (fs\<lparr>fs_dcache := dc, fs_errno := ENOENT\<rparr>, None)))"
  by pat_completeness auto

lemma delimiter_shorter:
  "dropWhile (\<lambda>c. c \<noteq> d) rest = x # rest' \<Longrightarrow> length rest' < length (rest :: 'a list)"
  using length_dropWhile_le [of "\<lambda>c. c \<noteq> d" rest] by simp

termination ParentPathLookup_loop
  by (relation "measure (\<lambda>(fs, key, inum, rest, moved). length rest)") (auto dest: delimiter_shorter)

declare ParentPathLookup_loop.simps [simp del]

definition ParentPathLookup ::
  "'d TableFS \<Rightarrow> bytes \<Rightarrow> tfs_meta_key_t \<Rightarrow>
     ('d TableFS \<times> (tfs_meta_key_t \<times> u64 \<times> bytes \<times> bool) option) option" where
  "ParentPathLookup fs path key =
     (if path = [] then None
      else
        (case ParentPathLookup_loop fs key ROOT_INODE_ID (tl path) False of
           None \<Rightarrow> None
         | Some (fs, None) \<Rightarrow> Some (fs, None)
         | Some (fs, Some (key, inode_in_search, rest, moved)) \<Rightarrow>
             let key = (if \<not> moved then BuildMetaKey_path [] ROOT_INODE_ID else key)
             in Some (fs, Some (key, inode_in_search, rest, moved))))"

definition key_uninit :: tfs_meta_key_t where
  "key_uninit = \<lparr>inode_id = 0, hash_id = 0\<rparr>"

definition PathLookup_filename ::
  "'d TableFS \<Rightarrow> bytes \<Rightarrow> ('d TableFS \<times> (tfs_meta_key_t \<times> bytes) option) option" where
  "PathLookup_filename fs path =
     (case ParentPathLookup fs path key_uninit of
        None \<Rightarrow> None
      | Some (fs, None) \<Rightarrow> Some (fs\<lparr>fs_errno := ENOENT\<rparr>, None)
      | Some (fs, Some (key, inode_in_search, rest, moved)) \<Rightarrow>
          if rest \<noteq> [] then Some (fs, Some (BuildMetaKey_path rest inode_in_search, rest))
          else Some (fs, Some (key, [if moved then PATH_DELIMITER else hd path])))"

definition PathLookup :: "'d TableFS \<Rightarrow> bytes \<Rightarrow> ('d TableFS \<times> tfs_meta_key_t option) option" where
  "PathLookup fs path =
     (case ParentPathLookup fs path key_uninit of
        None \<Rightarrow> None
      | Some (fs, None) \<Rightarrow> Some (fs\<lparr>fs_errno := ENOENT\<rparr>, None)
      | Some (fs, Some (key, inode_in_search, rest, moved)) \<Rightarrow>
          if rest \<noteq> [] then Some (fs, Some (BuildMetaKey_path rest inode_in_search))
          else Some (fs, Some key))"

section \<open>Resolution without the cache\<close>

definition dentries :: "LevelDBAdaptor \<Rightarrow> tfs_meta_key_t \<Rightarrow> u64 option" where
  "dentries metadb key = map_option (\<lambda>v. st_ino (GetAttribute v)) (ad_lookup metadb (ToSlice key))"

function resolve ::
  "(tfs_meta_key_t \<rightharpoonup> u64) \<Rightarrow> tfs_meta_key_t \<Rightarrow> u64 \<Rightarrow> bytes \<Rightarrow> (tfs_meta_key_t \<times> bytes) option" where
  "resolve truth key inum rest =
     (case dropWhile (\<lambda>c. c \<noteq> PATH_DELIMITER) rest of
        [] \<Rightarrow> Some (if rest = [] then key else BuildMetaKey_path rest inum,
                  if rest = [] then [PATH_DELIMITER] else rest)
      | _ # rest' \<Rightarrow>
          let key = BuildMetaKey_path (takeWhile (\<lambda>c. c \<noteq> PATH_DELIMITER) rest) inum
          in case truth key of None \<Rightarrow> None | Some inum \<Rightarrow> resolve truth key inum rest')"
  by pat_completeness auto
termination
  by (relation "measure (\<lambda>(truth, key, inum, rest). length rest)") (auto dest: delimiter_shorter)

declare resolve.simps [simp del]

definition fs_agrees :: "'d TableFS \<Rightarrow> bool" where
  "fs_agrees fs \<longleftrightarrow> dentry.agrees (fs_dcache fs) (dentries (ic_metadb (fs_ic fs)))"

definition path_key :: "'d TableFS \<Rightarrow> bytes \<Rightarrow> (tfs_meta_key_t \<times> bytes) option" where
  "path_key fs path =
     resolve (dentries (ic_metadb (fs_ic fs))) (BuildMetaKey_path [] ROOT_INODE_ID) ROOT_INODE_ID (tl path)"

definition lookup_result :: "tfs_meta_key_t \<Rightarrow> tfs_meta_key_t \<times> u64 \<times> bytes \<times> bool \<Rightarrow> tfs_meta_key_t \<times> bytes" where
  "lookup_result k0 = (\<lambda>(key, inum, rest, moved).
     if rest \<noteq> [] then (BuildMetaKey_path rest inum, rest)
     else (if moved then key else k0, [PATH_DELIMITER]))"

lemma ParentPathLookup_loop_resolve:
  assumes "fs_agrees fs" "ad_ok n (ic_metadb (fs_ic fs))"
  shows "\<exists>dc e r. ParentPathLookup_loop fs key inum rest moved = Some (fs\<lparr>fs_dcache := dc, fs_errno := e\<rparr>, r) \<and>
    dentry.agrees dc (dentries (ic_metadb (fs_ic fs))) \<and>
    map_option (lookup_result k0) r =
      resolve (dentries (ic_metadb (fs_ic fs))) (if moved then key else k0) inum rest \<and>
    (r \<noteq> None \<longrightarrow> e = fs_errno fs)"
  using assms
proof (induction fs key inum rest moved arbitrary: k0 rule: ParentPathLookup_loop.induct)
  case (1 fs key inum rest moved)
  let ?truth = "dentries (ic_metadb (fs_ic fs))"
  note loop = ParentPathLookup_loop.simps [of fs key inum rest moved]
  show ?case
  proof (cases "dropWhile (\<lambda>c. c \<noteq> PATH_DELIMITER) rest")
    case Nil
    have "resolve ?truth (if moved then key else k0) inum rest =
        Some (lookup_result k0 (key, inum, rest, moved))"
      by (subst resolve.simps) (simp only: Nil list.case, auto simp: lookup_result_def)
    moreover have "ParentPathLookup_loop fs key inum rest moved =
        Some (fs\<lparr>fs_dcache := fs_dcache fs, fs_errno := fs_errno fs\<rparr>, Some (key, inum, rest, moved))"
      using loop Nil by simp
    ultimately show ?thesis using "1.prems"(1) unfolding fs_agrees_def by force
  next
    case (Cons c rest')
    let ?key = "BuildMetaKey_path (takeWhile (\<lambda>c. c \<noteq> PATH_DELIMITER) rest) inum"
    have res: "resolve ?truth (if moved then key else k0) inum rest =
        (case ?truth ?key of None \<Rightarrow> None | Some inum \<Rightarrow> resolve ?truth ?key inum rest')"
      using Cons by (subst resolve.simps) (simp add: Let_def)
    have agr: "dentry.agrees (fs_dcache fs) ?truth" using "1.prems"(1) by (simp add: fs_agrees_def)
    obtain dc hit where F: "DentryCache_Find (fs_dcache fs) ?key = Some (dc, hit)"
      using dentry.find_total [OF agr, of ?key] by blast
    note F_ok = dentry.find_agrees [OF agr F]
    show ?thesis
    proof (cases hit)
      case (Some i)
      have step: "ParentPathLookup_loop fs key inum rest moved =
          ParentPathLookup_loop (fs\<lparr>fs_dcache := dc\<rparr>) ?key i rest' True"
        using loop Cons F Some by (simp add: Let_def)
      have agr': "fs_agrees (fs\<lparr>fs_dcache := dc\<rparr>)" using F_ok(1) by (simp add: fs_agrees_def)
      have "?truth ?key = Some i" using F_ok(2) Some by simp
      then show ?thesis
        using "1.IH"(2) [OF Cons refl F refl Some agr', of k0] "1.prems"(2) res step by simp
    next
      case None
      have G: "Adaptor_Get (ic_metadb (fs_ic fs)) (ToSlice ?key) =
          (case ad_lookup (ic_metadb (fs_ic fs)) (ToSlice ?key) of None \<Rightarrow> (-1, NotFound_string) | Some v \<Rightarrow> (1, v))"
        by (rule Adaptor_Get_eq [OF "1.prems"(2)]) simp
      show ?thesis
      proof (cases "ad_lookup (ic_metadb (fs_ic fs)) (ToSlice ?key)")
        case look: None
        have "ParentPathLookup_loop fs key inum rest moved = Some (fs\<lparr>fs_dcache := dc, fs_errno := ENOENT\<rparr>, None)"
          using loop Cons F None G look by (simp add: Let_def)
        moreover have "resolve ?truth (if moved then key else k0) inum rest = None" using res look by (simp add: dentries_def)
        ultimately show ?thesis using F_ok(1) by auto
      next
        case look: (Some v)
        let ?i = "st_ino (GetAttribute v)"
        have truth: "?truth ?key = Some ?i" using look by (simp add: dentries_def)
        let ?dc = "DentryCache_Insert dc ?key ?i"
        have step: "ParentPathLookup_loop fs key inum rest moved =
            ParentPathLookup_loop (fs\<lparr>fs_dcache := ?dc\<rparr>) ?key ?i rest' True"
          using loop Cons F None G look by (simp add: Let_def)
        have agr': "fs_agrees (fs\<lparr>fs_dcache := ?dc\<rparr>)"
          using dentry.insert_agrees [OF F_ok(1) truth] by (simp add: fs_agrees_def)
        have G1: "(1, v) = Adaptor_Get (ic_metadb (fs_ic fs)) (ToSlice ?key)" using G look by simp
        show ?thesis
          using "1.IH"(1) [OF Cons refl F refl None G1 refl agr', of k0] "1.prems"(2) res step truth
          by simp
      qed
    qed
  qed
qed


definition abs_path :: "bytes \<Rightarrow> bool" where
  "abs_path path \<longleftrightarrow> path \<noteq> [] \<and> hd path = PATH_DELIMITER"

lemma PathLookup_filename_resolve:
  assumes "fs_agrees fs" "ad_ok n (ic_metadb (fs_ic fs))" "abs_path path"
  obtains dc e where
    "PathLookup_filename fs path = Some (fs\<lparr>fs_dcache := dc, fs_errno := e\<rparr>, path_key fs path)"
    "PathLookup fs path = Some (fs\<lparr>fs_dcache := dc, fs_errno := e\<rparr>, map_option fst (path_key fs path))"
    "dentry.agrees dc (dentries (ic_metadb (fs_ic fs)))" "path_key fs path = None \<Longrightarrow> e = ENOENT"
proof -
  let ?k0 = "BuildMetaKey_path [] ROOT_INODE_ID"
  obtain dc e r where L: "ParentPathLookup_loop fs key_uninit ROOT_INODE_ID (tl path) False =
      Some (fs\<lparr>fs_dcache := dc, fs_errno := e\<rparr>, r)" "dentry.agrees dc (dentries (ic_metadb (fs_ic fs)))"
    "map_option (lookup_result ?k0) r = path_key fs path"
    using ParentPathLookup_loop_resolve [where moved = False and ?k0.0 = ?k0 and key = key_uninit and
      inum = ROOT_INODE_ID and rest = "tl path", OF assms(1,2)]
    unfolding path_key_def by auto
  have p: "path \<noteq> []" "hd path = PATH_DELIMITER" using assms(3) by (auto simp: abs_path_def)
  show ?thesis
  proof (cases r)
    case None
    then have k: "path_key fs path = None" using L(3) by simp
    have "PathLookup_filename fs path = Some (fs\<lparr>fs_dcache := dc, fs_errno := ENOENT\<rparr>, None)"
      "PathLookup fs path = Some (fs\<lparr>fs_dcache := dc, fs_errno := ENOENT\<rparr>, None)"
      using L(1) None p by (simp_all add: PathLookup_filename_def PathLookup_def ParentPathLookup_def)
    then show ?thesis using that [of ENOENT dc] k L(2) by simp
  next
    case (Some q)
    obtain key inum rest moved where q: "q = (key, inum, rest, moved)" by (metis prod_cases4)
    have k: "path_key fs path = Some (lookup_result ?k0 (key, inum, rest, moved))" using L(3) Some q by simp
    have "PathLookup_filename fs path = Some (fs\<lparr>fs_dcache := dc, fs_errno := e\<rparr>, path_key fs path)"
      "PathLookup fs path = Some (fs\<lparr>fs_dcache := dc, fs_errno := e\<rparr>, map_option fst (path_key fs path))"
      using L(1) Some q p k
      by (auto simp: PathLookup_filename_def PathLookup_def ParentPathLookup_def lookup_result_def)
    then show ?thesis using that [of e dc] k L(2) by simp
  qed
qed

section \<open>Properties\<close>

text \<open>C14: The directory entry cache is invisible to path lookup. With any cache that agrees with the
  database, \<^verbatim>\<open>PathLookup\<close> finds the key that resolving the path component by component in the
  database alone gives, or fails with \<^verbatim>\<open>ENOENT\<close> exactly when that does; the only state it changes
  is the cache, which still agrees, and \<^verbatim>\<open>errno\<close>.\<close>
theorem path_lookup_transparent:
  assumes "fs_agrees fs" "ad_ok n (ic_metadb (fs_ic fs))" "path \<noteq> []" "hd path = PATH_DELIMITER"
  shows "\<exists>dc e. PathLookup fs path = Some (fs\<lparr>fs_dcache := dc, fs_errno := e\<rparr>,
      map_option fst (resolve (dentries (ic_metadb (fs_ic fs))) (BuildMetaKey_path [] ROOT_INODE_ID) ROOT_INODE_ID (tl path))) \<and>
    fs_agrees (fs\<lparr>fs_dcache := dc, fs_errno := e\<rparr>) \<and>
    (snd (the (PathLookup fs path)) = None \<longrightarrow> e = ENOENT)"
proof -
  have p: "abs_path path" using assms(3,4) by (simp add: abs_path_def)
  obtain dc e where L: "PathLookup_filename fs path = Some (fs\<lparr>fs_dcache := dc, fs_errno := e\<rparr>, path_key fs path)"
    "PathLookup fs path = Some (fs\<lparr>fs_dcache := dc, fs_errno := e\<rparr>, map_option fst (path_key fs path))"
    "dentry.agrees dc (dentries (ic_metadb (fs_ic fs)))" "path_key fs path = None \<Longrightarrow> e = ENOENT"
    by (rule PathLookup_filename_resolve [OF assms(1,2) p]) (rule that)
  then show ?thesis by (intro exI [of _ dc] exI [of _ e]) (simp add: path_key_def fs_agrees_def)
qed

theorem path_lookup_transparent_witness:
  "\<exists>dc e. PathLookup \<lparr>fs_state = State_new, fs_ic = InodeCache_new \<lparr>ad_db = DBImpl_new, ad_writeahead = True,
       ad_sync_time_limit = 5, ad_sync_size_limit = -1, ad_last_sync_time = 0, ad_async_data_size = 0, ad_now = 0\<rparr>,
     fs_dcache = DentryCache_new 4, fs_owner = (0, 0), fs_fhs = Map.empty, fs_brk = 0, fs_errno = 0, fs_disk = ()\<rparr>
     [0x2F, 0x61, 0x2F, 0x62] = Some (\<lparr>fs_state = State_new, fs_ic = InodeCache_new \<lparr>ad_db = DBImpl_new, ad_writeahead = True,
       ad_sync_time_limit = 5, ad_sync_size_limit = -1, ad_last_sync_time = 0, ad_async_data_size = 0, ad_now = 0\<rparr>,
     fs_dcache = dc, fs_owner = (0, 0), fs_fhs = Map.empty, fs_brk = 0, fs_errno = ENOENT, fs_disk = ()\<rparr>, None)"
proof -
  let ?ad = "\<lparr>ad_db = DBImpl_new, ad_writeahead = True, ad_sync_time_limit = 5, ad_sync_size_limit = -1,
       ad_last_sync_time = 0, ad_async_data_size = 0, ad_now = 0\<rparr>"
  let ?fs = "\<lparr>fs_state = State_new, fs_ic = InodeCache_new ?ad,
     fs_dcache = DentryCache_new 4, fs_owner = (0, 0), fs_fhs = Map.empty, fs_brk = 0, fs_errno = 0, fs_disk = ()\<rparr>"
  have m: "ic_metadb (fs_ic ?fs) = ?ad" by (simp add: InodeCache_new_def)
  have ok: "ad_ok 0 (ic_metadb (fs_ic ?fs))" using DBImpl_new_ok(1) [of 0] unfolding m ad_ok_def by simp
  have d: "dentries (ic_metadb (fs_ic ?fs)) = Map.empty"
    using DBImpl_new_ok(2) unfolding m dentries_def by (simp add: ad_lookup_def fun_eq_iff)
  have a: "fs_agrees ?fs" using DentryCache_new_ok [of 4] by (simp add: fs_agrees_def dentry.agrees_def)
  have r: "resolve Map.empty k i [0x61, 0x2F, 0x62] = None" for k i
    by (simp add: resolve.simps PATH_DELIMITER_def)
  show ?thesis using path_lookup_transparent [OF a ok, of "[0x2F, 0x61, 0x2F, 0x62]"] unfolding d
    by (auto simp: r PATH_DELIMITER_def)
qed

end
