(* ===== verification/TableFs.thy ===== *)
theory TableFs
  imports Path_Lookup
begin

text \<open>
  The operations of the file system on metadata and on the files outside the database
  (\<^verbatim>\<open>fs/tablefs.cpp\<close>).
  \<^item> An operation takes the operating system \<open>px\<close> where it calls it, and the state, and
    returns the new state with the code's return value, \<^verbatim>\<open>-errno\<close> on failure.
  \<^item> \<open>Option.bind\<close> passes undefined behaviour on.
  \<^item> The owner of a new inode is the field \<open>fs_owner\<close>: what \<^verbatim>\<open>fuse_get_context\<close> says when \<^verbatim>\<open>flag_fuse_enabled\<close> is
    set, or 0 and 0 as \<^verbatim>\<open>InitStat\<close> has it otherwise; the flag itself is not in the state.
  \<^item> Memory the code leaves uninitialised is an argument (\<open>mem\<close>, \<open>garbage\<close>), as is what the
    pointer \<^verbatim>\<open>iheader\<close> reads after the string it points into may have been
    reallocated (\<open>stale\<close>).
\<close>

section \<open>Access to the parts of the state\<close>

definition metadb :: "'d TableFS \<Rightarrow> LevelDBAdaptor" where
  "metadb fs = ic_metadb (fs_ic fs)"

definition set_metadb :: "'d TableFS \<Rightarrow> LevelDBAdaptor \<Rightarrow> 'd TableFS" where
  "set_metadb fs ad = fs\<lparr>fs_ic := (fs_ic fs)\<lparr>ic_metadb := ad\<rparr>\<rparr>"

definition set_ic :: "'d TableFS \<Rightarrow> InodeCache \<Rightarrow> 'd TableFS" where
  "set_ic fs ic = fs\<lparr>fs_ic := ic\<rparr>"

definition handle_at :: "'d TableFS \<Rightarrow> nat \<Rightarrow> InodeCacheHandle option" where
  "handle_at fs h = ic_handles (fs_ic fs) h"

definition time_now :: "'d TableFS \<Rightarrow> u64" where
  "time_now fs = word_of_int (ad_now (metadb fs))"

definition NewInode :: "'d posix \<Rightarrow> 'd TableFS \<Rightarrow> ('d TableFS \<times> u64) option" where
  "NewInode px fs =
     map_option (\<lambda>((st, inum), d). (fs\<lparr>fs_state := st, fs_disk := d\<rparr>, inum))
       (State_NewInode px (fs_state fs) (fs_disk fs))"

definition dcache_Evict :: "'d TableFS \<Rightarrow> tfs_meta_key_t \<Rightarrow> 'd TableFS" where
  "dcache_Evict fs key = fs\<lparr>fs_dcache := DentryCache_Evict (fs_dcache fs) key\<rparr>"

definition to_int :: "int \<Rightarrow> int" where
  "to_int i = sint (word_of_int i :: u32)"

definition S_IFREG :: u32 where "S_IFREG = 0x8000"
definition S_IFDIR :: u32 where "S_IFDIR = 0x4000"
definition S_IFLNK :: u32 where "S_IFLNK = 0xA000"
definition O_WRONLY :: u32 where "O_WRONLY = 1"
definition O_RDWR :: u32 where "O_RDWR = 2"
definition O_CREAT :: u32 where "O_CREAT = 0x40"
definition O_TRUNC :: u32 where "O_TRUNC = 0x200"
definition EBADF :: int where "EBADF = 9"

section \<open>Start and stop\<close>

definition TableFS_Init :: "'d posix \<Rightarrow> 'd TableFS \<Rightarrow> bytes \<Rightarrow> 'd TableFS" where
  "TableFS_Init px fs mem =
     (let ad = metadb fs;
          ad = (if State_IsEmpty (fs_state fs) then
                  (let key = BuildMetaKey_path [] ROOT_INODE_ID;
                       statbuf = px_lstat px ''/tmp/'' (fs_disk fs);
                       v = InitInodeValue mem ROOT_INODE_ID (st_mode statbuf) (st_dev statbuf) []
                             (fs_owner fs) (time_now fs)
                   in fst (Adaptor_Put ad (ToSlice key) v))
                else ad)
      in fs\<lparr>fs_ic := InodeCache_new ad, fs_dcache := DentryCache_new 16384\<rparr>)"

definition TableFS_Destroy :: "'d posix \<Rightarrow> 'd TableFS \<Rightarrow> (LevelDBAdaptor \<times> 'd) option" where
  "TableFS_Destroy px fs =
     Option.bind (InodeCache_delete (fs_ic fs)) (\<lambda>ic.
     map_option (\<lambda>d. (ic_metadb ic, d)) (State_Destroy px (fs_state fs) (fs_disk fs)))"

section \<open>Metadata\<close>

definition TableFS_GetAttr :: "'d TableFS \<Rightarrow> bytes \<Rightarrow> ('d TableFS \<times> int \<times> tfs_stat_t option) option" where
  "TableFS_GetAttr fs path =
     Option.bind (PathLookup fs path) (\<lambda>(fs, r).
     case r of
       None \<Rightarrow> Some (fs, FSError fs, None)
     | Some key \<Rightarrow>
         Option.bind (InodeCache_Get (fs_ic fs) key INODE_READ) (\<lambda>(ic, h).
         case h of
           None \<Rightarrow> Some (set_ic fs ic, - ENOENT, None)
         | Some h \<Rightarrow>
             Option.bind (ic_handles ic h) (\<lambda>handle.
             Option.bind (InodeCache_Release ic h) (\<lambda>ic.
             Some (set_ic fs ic, 0, Some (GetAttribute (ih_value handle)))))))"

definition OpenDiskFile ::
  "'d posix \<Rightarrow> 'd TableFS \<Rightarrow> tfs_inode_header \<Rightarrow> u32 \<Rightarrow> ('d TableFS \<times> int) option" where
  "OpenDiskFile px fs iheader flags =
     Option.bind (GetDiskFilePath (fs_state fs) (st_ino (fstat iheader))) (\<lambda>fpath.
     case px_open px fpath (flags OR O_CREAT) (st_mode (fstat iheader)) (fs_disk fs) of
       (fd, d) \<Rightarrow> Some (fs\<lparr>fs_disk := d\<rparr>, fd))"

definition TruncateDiskFile ::
  "'d posix \<Rightarrow> 'd TableFS \<Rightarrow> u64 \<Rightarrow> u64 \<Rightarrow> ('d TableFS \<times> int) option" where
  "TruncateDiskFile px fs inum new_size =
     Option.bind (GetDiskFilePath (fs_state fs) inum) (\<lambda>fpath.
     case px_truncate px fpath new_size (fs_disk fs) of
       (ret, d) \<Rightarrow> Some (fs\<lparr>fs_disk := d\<rparr>, ret))"

definition MigrateDiskFileToBuffer ::
  "'d posix \<Rightarrow> 'd TableFS \<Rightarrow> u64 \<Rightarrow> bytes \<Rightarrow> ('d TableFS \<times> bytes) option" where
  "MigrateDiskFileToBuffer px fs inum garbage =
     Option.bind (GetDiskFilePath (fs_state fs) inum) (\<lambda>fpath.
     let (fd, d) = px_open px fpath 0 0 (fs_disk fs);
         ((ret, buf), d) = px_pread px fd (of_nat (length garbage)) 0 d;
         (_, d) = px_close px fd d;
         (_, d) = px_unlink px fpath d
     in Some (fs\<lparr>fs_disk := d\<rparr>, buf @ drop (length buf) garbage))"

definition MigrateToDiskFile ::
  "'d posix \<Rightarrow> 'd TableFS \<Rightarrow> nat \<Rightarrow> int \<Rightarrow> u32 \<Rightarrow> ('d TableFS \<times> int \<times> int) option" where
  "MigrateToDiskFile px fs h fd flags =
     Option.bind (handle_at fs h) (\<lambda>handle.
     let iheader = GetInodeHeader (ih_value handle);
         fs = (if fd \<ge> 0 then fs\<lparr>fs_disk := snd (px_close px fd (fs_disk fs))\<rparr> else fs)
     in Option.bind (OpenDiskFile px fs iheader flags) (\<lambda>(fs, fd).
        if fd < 0 then Some (fs, -1, - px_errno px (fs_disk fs))
        else if sint (st_size (fstat iheader)) > 0 then
          (let buffer = take (unat (st_size (fstat iheader)))
                 (drop (unat (data_offset iheader)) (ih_value handle))
           in if length buffer < unat (st_size (fstat iheader)) then None
              else
                (let (n, d) = px_pwrite px fd buffer 0 (fs_disk fs);
                     fs = fs\<lparr>fs_disk := d\<rparr>;
                     ret = (if n \<noteq> sint (st_size (fstat iheader)) then - px_errno px d else 0)
                 in Some (set_ic fs (set_value (fs_ic fs) h (DropInlineData (ih_value handle))), fd, ret)))
        else Some (fs, fd, 0)))"

definition TableFS_Truncate ::
  "'d posix \<Rightarrow> 'd TableFS \<Rightarrow> bytes \<Rightarrow> u64 \<Rightarrow> int \<Rightarrow> bytes \<Rightarrow> u64 \<Rightarrow> ('d TableFS \<times> int) option" where
  "TableFS_Truncate px fs path new_size fd garbage stale =
     Option.bind (PathLookup fs path) (\<lambda>(fs, r).
     case r of
       None \<Rightarrow> Some (fs, FSError fs)
     | Some key \<Rightarrow>
         Option.bind (InodeCache_Get (fs_ic fs) key INODE_WRITE) (\<lambda>(ic, h).
         let fs = set_ic fs ic
         in case h of
           None \<Rightarrow> Some (fs, - ENOENT)
         | Some h \<Rightarrow>
             Option.bind (handle_at fs h) (\<lambda>handle.
             let iheader = GetInodeHeader (ih_value handle);
                 big = sint new_size > threshold (fs_state fs)
             in Option.bind
               (if has_blob iheader > 0 then
                  (if big then
                     map_option (\<lambda>(fs, _). (fs, 0)) (TruncateDiskFile px fs (st_ino (fstat iheader)) new_size)
                   else
                     map_option (\<lambda>(fs, buffer).
                         (set_ic fs (set_value (fs_ic fs) h (UpdateInlineData (ih_value handle) buffer 0)), 0))
                       (MigrateDiskFileToBuffer px fs (st_ino (fstat iheader))
                         (take (unat new_size) garbage @ replicate (unat new_size - length garbage) 0)))
                else if big then
                  map_option (\<lambda>(fs, fd, r).
                      if r = 0 then
                        (let (ret, d) = px_ftruncate px fd new_size (fs_disk fs);
                             d = (if ret = 0 then snd (px_fsync px fd d) else d);
                             (_, d) = px_close px fd d
                         in (fs\<lparr>fs_disk := d\<rparr>, ret))
                      else (fs, 0))
                    (MigrateToDiskFile px fs h fd (O_TRUNC OR O_WRONLY))
                else
                  Some (set_ic fs (set_value (fs_ic fs) h (TruncateInlineData (ih_value handle) new_size)), 0))
               (\<lambda>(fs, ret).
                Option.bind (handle_at fs h) (\<lambda>handle'.
                let seen = (if length (ih_value handle') \<le> length (ih_value handle)
                            then st_size (fstat (GetInodeHeader (ih_value handle'))) else stale);
                    fs = (if new_size \<noteq> seen then
                            (let new_iheader = GetInodeHeader (ih_value handle');
                                 new_iheader = new_iheader\<lparr>fstat := (fstat new_iheader)\<lparr>st_size := new_size\<rparr>,
                                   has_blob := (if big then 1 else 0)\<rparr>
                             in set_ic fs (set_value (fs_ic fs) h
                                  (UpdateInodeHeader (ih_value handle') new_iheader)))
                          else fs)
                in Option.bind (InodeCache_WriteBack (fs_ic fs) h) (\<lambda>ic.
                   Option.bind (InodeCache_Release ic h) (\<lambda>ic.
                   Some (set_ic fs ic, ret))))))))"

definition TableFS_Readlink :: "'d TableFS \<Rightarrow> bytes \<Rightarrow> u64 \<Rightarrow> ('d TableFS \<times> int \<times> bytes option) option" where
  "TableFS_Readlink fs path sz =
     Option.bind (PathLookup fs path) (\<lambda>(fs, r).
     case r of
       None \<Rightarrow> Some (fs, FSError fs, None)
     | Some key \<Rightarrow>
         (case Adaptor_Get (metadb fs) (ToSlice key) of
            (ret, result) \<Rightarrow>
              if ret > 0 then Some (fs, 0, Some (GetInlineData result 0 (sz - 1) @ [0]))
              else (let fs = fs\<lparr>fs_errno := ENOENT\<rparr> in Some (fs, FSError fs, None))))"

definition TableFS_Symlink ::
  "'d posix \<Rightarrow> 'd TableFS \<Rightarrow> bytes \<Rightarrow> bytes \<Rightarrow> bytes \<Rightarrow> ('d TableFS \<times> int) option" where
  "TableFS_Symlink px fs target path mem =
     Option.bind (PathLookup_filename fs path) (\<lambda>(fs, r).
     case r of
       None \<Rightarrow> Some (fs, FSError fs)
     | Some (key, filename) \<Rightarrow>
         Option.bind (NewInode px fs) (\<lambda>(fs, inum).
         let v = InitInodeValue mem inum S_IFLNK 0 filename (fs_owner fs) (time_now fs) @ target
         in Some (set_metadb fs (fst (Adaptor_Put (metadb fs) (ToSlice key) v)), 0)))"

definition TableFS_Unlink :: "'d posix \<Rightarrow> 'd TableFS \<Rightarrow> bytes \<Rightarrow> ('d TableFS \<times> int) option" where
  "TableFS_Unlink px fs path =
     Option.bind (PathLookup fs path) (\<lambda>(fs, r).
     case r of
       None \<Rightarrow> Some (fs, FSError fs)
     | Some key \<Rightarrow>
         Option.bind (InodeCache_Get (fs_ic fs) key INODE_DELETE) (\<lambda>(ic, h).
         let fs = set_ic fs ic
         in case h of
           None \<Rightarrow> Some (fs, - ENOENT)
         | Some h \<Rightarrow>
             Option.bind (handle_at fs h) (\<lambda>handle.
             let v = fstat (GetInodeHeader (ih_value handle))
             in Option.bind
               (if sint (st_size v) > threshold (fs_state fs) then
                  map_option (\<lambda>fpath. fs\<lparr>fs_disk := snd (px_unlink px fpath (fs_disk fs))\<rparr>)
                    (GetDiskFilePath (fs_state fs) (st_ino v))
                else Some fs)
               (\<lambda>fs.
                let fs = dcache_Evict fs key
                in Option.bind (InodeCache_Release (fs_ic fs) h) (\<lambda>ic.
                   Option.bind (InodeCache_Evict ic key) (\<lambda>ic.
                   Some (set_ic fs ic, 0)))))))"

definition make_inode ::
  "'d posix \<Rightarrow> 'd TableFS \<Rightarrow> bytes \<Rightarrow> u32 \<Rightarrow> u64 \<Rightarrow> bytes \<Rightarrow> ('d TableFS \<times> int) option" where
  "make_inode px fs path mode dev mem =
     Option.bind (PathLookup_filename fs path) (\<lambda>(fs, r).
     case r of
       None \<Rightarrow> Some (fs, FSError fs)
     | Some (key, filename) \<Rightarrow>
         Option.bind (NewInode px fs) (\<lambda>(fs, inum).
         let v = InitInodeValue mem inum mode dev filename (fs_owner fs) (time_now fs);
             (ad, ret) = Adaptor_Put (metadb fs) (ToSlice key) v;
             fs = set_metadb fs ad
         in if ret = 0 then Some (fs, 0)
            else (let fs = fs\<lparr>fs_errno := ENOENT\<rparr> in Some (fs, FSError fs))))"

definition TableFS_MakeNode ::
  "'d posix \<Rightarrow> 'd TableFS \<Rightarrow> bytes \<Rightarrow> u32 \<Rightarrow> u64 \<Rightarrow> bytes \<Rightarrow> ('d TableFS \<times> int) option" where
  "TableFS_MakeNode px fs path mode dev mem = make_inode px fs path (mode OR S_IFREG) dev mem"

definition TableFS_MakeDir ::
  "'d posix \<Rightarrow> 'd TableFS \<Rightarrow> bytes \<Rightarrow> u32 \<Rightarrow> bytes \<Rightarrow> ('d TableFS \<times> int) option" where
  "TableFS_MakeDir px fs path mode mem = make_inode px fs path (mode OR S_IFDIR) 0 mem"

definition TableFS_RemoveDir :: "'d TableFS \<Rightarrow> bytes \<Rightarrow> ('d TableFS \<times> int) option" where
  "TableFS_RemoveDir fs path =
     Option.bind (PathLookup fs path) (\<lambda>(fs, r).
     case r of
       None \<Rightarrow> Some (fs, FSError fs)
     | Some key \<Rightarrow>
         Option.bind (InodeCache_Get (fs_ic fs) key INODE_DELETE) (\<lambda>(ic, h).
         let fs = set_ic fs ic
         in case h of
           None \<Rightarrow> Some (fs, - ENOENT)
         | Some h \<Rightarrow>
             let fs = dcache_Evict fs key
             in Option.bind (InodeCache_Release (fs_ic fs) h) (\<lambda>ic.
                Option.bind (InodeCache_Evict ic key) (\<lambda>ic.
                Some (set_ic fs ic, 0)))))"

definition TableFS_Rename :: "'d TableFS \<Rightarrow> bytes \<Rightarrow> bytes \<Rightarrow> ('d TableFS \<times> int) option" where
  "TableFS_Rename fs old_path new_path =
     Option.bind (PathLookup fs old_path) (\<lambda>(fs, r).
     case r of
       None \<Rightarrow> Some (fs, FSError fs)
     | Some old_key \<Rightarrow>
         Option.bind (PathLookup_filename fs new_path) (\<lambda>(fs, r).
         case r of
           None \<Rightarrow> Some (fs, FSError fs)
         | Some (new_key, filename) \<Rightarrow>
             Option.bind (InodeCache_Get (fs_ic fs) old_key INODE_DELETE) (\<lambda>(ic, h).
             case h of
               None \<Rightarrow> Some (set_ic fs ic, - ENOENT)
             | Some old_handle \<Rightarrow>
                 Option.bind (ic_handles ic old_handle) (\<lambda>handle.
                 let new_value = InitInodeValue_rename (ih_value handle) filename
                 in Option.bind (InodeCache_Insert ic new_key new_value) (\<lambda>(ic, new_handle).
                    Option.bind (InodeCache_BatchCommit ic old_handle new_handle) (\<lambda>ic.
                    Option.bind (InodeCache_Release ic new_handle) (\<lambda>ic.
                    Option.bind (InodeCache_Release ic old_handle) (\<lambda>ic.
                    Option.bind (InodeCache_Evict ic old_key) (\<lambda>ic.
                    Some (dcache_Evict (dcache_Evict (set_ic fs ic) old_key) new_key, 0))))))))))"

definition TableFS_Access :: "'d TableFS \<Rightarrow> bytes \<Rightarrow> u32 \<Rightarrow> 'd TableFS \<times> int" where
  "TableFS_Access fs path amode = (fs, 0)"

definition update_attribute ::
  "'d TableFS \<Rightarrow> bytes \<Rightarrow> (tfs_stat_t \<Rightarrow> tfs_stat_t) \<Rightarrow> ('d TableFS \<times> int) option" where
  "update_attribute fs path f =
     Option.bind (PathLookup fs path) (\<lambda>(fs, r).
     case r of
       None \<Rightarrow> Some (fs, FSError fs)
     | Some key \<Rightarrow>
         Option.bind (InodeCache_Get (fs_ic fs) key INODE_WRITE) (\<lambda>(ic, h).
         case h of
           None \<Rightarrow> Some (set_ic fs ic, - ENOENT)
         | Some h \<Rightarrow>
             Option.bind (ic_handles ic h) (\<lambda>handle.
             let new_value = f (GetAttribute (ih_value handle))
             in Option.bind (InodeCache_WriteBack (set_value ic h (UpdateAttribute (ih_value handle) new_value)) h) (\<lambda>ic.
                Option.bind (InodeCache_Release ic h) (\<lambda>ic.
                Some (set_ic fs ic, 0))))))"

definition TableFS_UpdateTimens :: "'d TableFS \<Rightarrow> bytes \<Rightarrow> u64 \<Rightarrow> u64 \<Rightarrow> ('d TableFS \<times> int) option" where
  "TableFS_UpdateTimens fs path tv0 tv1 =
     update_attribute fs path (\<lambda>v. v\<lparr>st_atim_sec := tv0, st_mtim_sec := tv1\<rparr>)"

definition TableFS_Chmod :: "'d TableFS \<Rightarrow> bytes \<Rightarrow> u32 \<Rightarrow> ('d TableFS \<times> int) option" where
  "TableFS_Chmod fs path mode = update_attribute fs path (\<lambda>v. v\<lparr>st_mode := mode\<rparr>)"

definition TableFS_Chown :: "'d TableFS \<Rightarrow> bytes \<Rightarrow> u32 \<Rightarrow> u32 \<Rightarrow> ('d TableFS \<times> int) option" where
  "TableFS_Chown fs path uid gid = update_attribute fs path (\<lambda>v. v\<lparr>st_uid := uid, st_gid := gid\<rparr>)"

end
