(* ===== verification/Fs_Files.thy ===== *)
theory Fs_Files
  imports TableFs
begin

text \<open>
  The operations on open files and directories (\<^verbatim>\<open>fs/tablefs.cpp\<close>). An open file is a
  \<^verbatim>\<open>tfs_file_handle_t\<close> at the address \<^verbatim>\<open>fi->fh\<close>; it holds a reference to the inode
  handle, and the descriptor of the file on disk once the data has been migrated there.
  \<^item> Sizes and offsets are 64-bit words; \<^verbatim>\<open>offset + size\<close> wraps and is compared unsigned
    with \<^verbatim>\<open>st_size\<close> and with the threshold, as the promotions of C have it.
  \<^item> \<open>filler\<close> is the callback of \<^verbatim>\<open>ReadDir\<close>, over a state \<open>'b\<close>. The loop ends because
    every step of the iterator leaves fewer entries.
\<close>

definition new_fh :: "'d TableFS \<Rightarrow> tfs_file_handle_t \<Rightarrow> 'd TableFS \<times> nat" where
  "new_fh fs fh = (fs\<lparr>fs_fhs := (fs_fhs fs)(fs_brk fs \<mapsto> fh), fs_brk := Suc (fs_brk fs)\<rparr>, fs_brk fs)"

definition set_fd :: "'d TableFS \<Rightarrow> nat \<Rightarrow> int \<Rightarrow> 'd TableFS" where
  "set_fd fs f fd = fs\<lparr>fs_fhs := (fs_fhs fs)(f := map_option (fh_fd_update (\<lambda>_. fd)) (fs_fhs fs f))\<rparr>"

definition TableFS_Open ::
  "'d posix \<Rightarrow> 'd TableFS \<Rightarrow> bytes \<Rightarrow> u32 \<Rightarrow> ('d TableFS \<times> int \<times> nat option) option" where
  "TableFS_Open px fs path flags =
     Option.bind (PathLookup fs path) (\<lambda>(fs, r).
     case r of
       None \<Rightarrow> Some (fs, FSError fs, None)
     | Some key \<Rightarrow>
         let mode = (if flags AND O_RDWR \<noteq> 0 \<or> flags AND O_WRONLY \<noteq> 0 \<or> flags AND O_TRUNC \<noteq> 0
                     then INODE_WRITE else INODE_READ)
         in Option.bind (InodeCache_Get (fs_ic fs) key mode) (\<lambda>(ic, h).
            let fs = set_ic fs ic
            in case h of
              None \<Rightarrow> Some (fs, - ENOENT, None)
            | Some h \<Rightarrow>
                Option.bind (handle_at fs h) (\<lambda>handle.
                let iheader = GetInodeHeader (ih_value handle)
                in if has_blob iheader > 0 then
                     Option.bind (OpenDiskFile px fs iheader flags) (\<lambda>(fs, fd).
                     if fd < 0 then
                       Option.bind (InodeCache_Release (fs_ic fs) h) (\<lambda>ic.
                       let ret = - px_errno px (fs_disk fs);
                           fs = set_ic fs ic
                       in if ret = 0 then
                            (let (fs, f) = new_fh fs \<lparr>fh_handle = h, fh_flags = flags, fh_fd = fd\<rparr>
                             in Some (fs, 0, Some f))
                          else Some (fs, ret, None))
                     else
                       (let (fs, f) = new_fh fs \<lparr>fh_handle = h, fh_flags = flags, fh_fd = fd\<rparr>
                        in Some (fs, 0, Some f)))
                   else
                     (let (fs, f) = new_fh fs \<lparr>fh_handle = h, fh_flags = flags, fh_fd = -1\<rparr>
                      in Some (fs, 0, Some f)))))"

definition open_blob ::
  "'d posix \<Rightarrow> 'd TableFS \<Rightarrow> nat \<Rightarrow> tfs_file_handle_t \<Rightarrow> tfs_inode_header \<Rightarrow> ('d TableFS \<times> int) option" where
  "open_blob px fs f fh iheader =
     (if fh_fd fh < 0 then
        map_option (\<lambda>(fs, fd). (set_fd fs f fd, fd)) (OpenDiskFile px fs iheader (fh_flags fh))
      else Some (fs, fh_fd fh))"

definition TableFS_Read ::
  "'d posix \<Rightarrow> 'd TableFS \<Rightarrow> nat \<Rightarrow> u64 \<Rightarrow> u64 \<Rightarrow> ('d TableFS \<times> int \<times> bytes) option" where
  "TableFS_Read px fs f sz offset =
     Option.bind (fs_fhs fs f) (\<lambda>fh.
     Option.bind (handle_at fs (fh_handle fh)) (\<lambda>handle.
     let iheader = GetInodeHeader (ih_value handle)
     in if has_blob iheader > 0 then
          Option.bind (open_blob px fs f fh iheader) (\<lambda>(fs, fd).
          if fd < 0 then Some (fs, - EBADF, [])
          else
            (let ((ret, buf), d) = px_pread px fd sz offset (fs_disk fs)
             in Some (fs\<lparr>fs_disk := d\<rparr>, to_int ret, buf)))
        else
          (let buf = GetInlineData (ih_value handle) offset sz
           in Some (fs, to_int (int (length buf)), buf))))"

definition update_header ::
  "'d TableFS \<Rightarrow> nat \<Rightarrow> (tfs_inode_header \<Rightarrow> tfs_inode_header) \<Rightarrow> 'd TableFS" where
  "update_header fs h g =
     (case handle_at fs h of
        None \<Rightarrow> fs
      | Some handle \<Rightarrow>
          set_ic fs (set_value (fs_ic fs) h
            (UpdateInodeHeader (ih_value handle) (g (GetInodeHeader (ih_value handle))))))"

definition TableFS_Write ::
  "'d posix \<Rightarrow> 'd TableFS \<Rightarrow> nat \<Rightarrow> bytes \<Rightarrow> u64 \<Rightarrow> u32 \<Rightarrow> ('d TableFS \<times> int) option" where
  "TableFS_Write px fs f buf offset flags =
     Option.bind (fs_fhs fs f) (\<lambda>fh.
     Option.bind (handle_at fs (fh_handle fh)) (\<lambda>handle.
     let h = fh_handle fh;
         fs = set_ic fs (set_mode (fs_ic fs) h INODE_WRITE);
         iheader = GetInodeHeader (ih_value handle);
         sz = of_nat (length buf) :: u64;
         has_larger_size = st_size (fstat iheader) < offset + sz
     in Option.bind
       (if has_blob iheader > 0 then
          Option.bind (open_blob px fs f fh iheader) (\<lambda>(fs, fd).
          if fd < 0 then Some (fs, - EBADF, False)
          else
            (let (ret, d) = px_pwrite px fd buf offset (fs_disk fs)
             in Some (fs\<lparr>fs_disk := d\<rparr>, to_int ret, False)))
        else if offset + sz > word_of_int (threshold (fs_state fs)) then
          Option.bind (MigrateToDiskFile px fs h (fh_fd fh) flags) (\<lambda>(fs, fd, ret).
          let fs = set_fd fs f fd
          in if ret = 0 then
               (let fs = update_header fs h (\<lambda>hd. hd\<lparr>fstat := (fstat hd)\<lparr>st_size := offset + sz\<rparr>, has_blob := 1\<rparr>);
                    (ret, d) = px_pwrite px fd buf offset (fs_disk fs)
                in Some (fs\<lparr>fs_disk := d\<rparr>, to_int ret, True))
             else Some (fs, ret, False))
        else
          Some (set_ic fs (set_value (fs_ic fs) h (UpdateInlineData (ih_value handle) buf offset)),
                to_int (uint sz), False))
       (\<lambda>(fs, ret, has_migrated).
        Some (if ret \<ge> 0 \<and> has_larger_size \<and> \<not> has_migrated
              then update_header fs h (\<lambda>hd. hd\<lparr>fstat := (fstat hd)\<lparr>st_size := offset + sz\<rparr>\<rparr>) else fs,
              ret))))"

definition TableFS_Fsync ::
  "'d posix \<Rightarrow> 'd TableFS \<Rightarrow> nat \<Rightarrow> int \<Rightarrow> ('d TableFS \<times> int) option" where
  "TableFS_Fsync px fs f datasync =
     Option.bind (fs_fhs fs f) (\<lambda>fh.
     Option.bind (handle_at fs (fh_handle fh)) (\<lambda>handle.
     let iheader = GetInodeHeader (ih_value handle)
     in if ih_mode handle = INODE_WRITE then
          (let (ret, fs) = (if has_blob iheader > 0
                            then (case px_fsync px (fh_fd fh) (fs_disk fs) of (r, d) \<Rightarrow> (r, fs\<lparr>fs_disk := d\<rparr>))
                            else (0, fs));
               (ret, fs) = (if datasync = 0
                            then (case Adaptor_Sync (metadb fs) of (ad, r) \<Rightarrow> (r, set_metadb fs ad))
                            else (ret, fs))
           in Some (fs, - ret))
        else Some (fs, 0)))"

definition TableFS_Release :: "'d posix \<Rightarrow> 'd TableFS \<Rightarrow> nat \<Rightarrow> ('d TableFS \<times> int) option" where
  "TableFS_Release px fs f =
     Option.bind (fs_fhs fs f) (\<lambda>fh.
     Option.bind (handle_at fs (fh_handle fh)) (\<lambda>handle.
     let h = fh_handle fh;
         fs = (if ih_mode handle = INODE_WRITE then
                 (let new_value = (GetAttribute (ih_value handle))
                        \<lparr>st_atim_sec := time_now fs, st_mtim_sec := time_now fs\<rparr>
                  in set_ic fs (set_value (fs_ic fs) h (UpdateAttribute (ih_value handle) new_value)))
               else fs);
         (ret, d) = (if fh_fd fh \<noteq> -1 then px_close px (fh_fd fh) (fs_disk fs) else (0, fs_disk fs));
         fs = fs\<lparr>fs_disk := d\<rparr>
     in Option.bind (InodeCache_WriteBack (fs_ic fs) h) (\<lambda>ic.
        Option.bind (InodeCache_Release ic h) (\<lambda>ic.
        Option.bind (InodeCache_Evict ic (ih_key handle)) (\<lambda>ic.
        let fs = (set_ic fs ic)\<lparr>fs_fhs := (fs_fhs fs)(f := None)\<rparr>
        in Some (fs, if ret \<noteq> 0 then - px_errno px (fs_disk fs) else 0))))))"

section \<open>Directories\<close>

definition TableFS_OpenDir :: "'d TableFS \<Rightarrow> bytes \<Rightarrow> ('d TableFS \<times> int \<times> nat option) option" where
  "TableFS_OpenDir fs path =
     Option.bind (PathLookup fs path) (\<lambda>(fs, r).
     case r of
       None \<Rightarrow> Some (fs, FSError fs, None)
     | Some key \<Rightarrow>
         Option.bind (InodeCache_Get (fs_ic fs) key INODE_READ) (\<lambda>(ic, h).
         let fs = set_ic fs ic
         in case h of
           None \<Rightarrow> Some (fs, FSError fs, None)
         | Some h \<Rightarrow> Some (fs, 0, Some h)))"

definition c_string :: "bytes \<Rightarrow> bytes option" where
  "c_string p = (if 0 \<in> set p then Some (takeWhile (\<lambda>c. c \<noteq> 0) p) else None)"

function ReadDir_loop ::
  "('b \<Rightarrow> bytes \<Rightarrow> 'b \<times> int) \<Rightarrow> tfs_meta_key_t \<Rightarrow> DBIter \<Rightarrow> 'b \<Rightarrow> ('b \<times> int) option" where
  "ReadDir_loop filler childkey iter buf =
     (if it_valid iter then
        (case IsKeyInDir (DBIter_key iter) childkey of
           None \<Rightarrow> None
         | Some False \<Rightarrow> Some (buf, 0)
         | Some True \<Rightarrow>
             (case c_string (drop TFS_INODE_HEADER_SIZE (DBIter_value iter)) of
                None \<Rightarrow> None
              | Some name_buffer \<Rightarrow>
                  let (buf, r) = filler buf name_buffer
                  in if r < 0 then Some (buf, -1)
                     else ReadDir_loop filler childkey (DBIter_Next iter) buf))
      else Some (buf, 0))"
  by pat_completeness auto
termination
  by (relation "measure (\<lambda>(filler, childkey, iter, buf). DBIter_left iter)") (auto intro: DBIter_Next_less)

declare ReadDir_loop.simps [simp del]

definition dot :: bytes where "dot = [0x2E]"
definition dotdot :: bytes where "dotdot = [0x2E, 0x2E]"

definition TableFS_ReadDir ::
  "'d TableFS \<Rightarrow> nat \<Rightarrow> ('b \<Rightarrow> bytes \<Rightarrow> 'b \<times> int) \<Rightarrow> 'b \<Rightarrow> ('b \<times> int) option" where
  "TableFS_ReadDir fs phandle filler buf =
     Option.bind (handle_at fs phandle) (\<lambda>handle.
     let child_inumber = st_ino (GetAttribute (ih_value handle));
         childkey = BuildMetaKey child_inumber (if child_inumber = ROOT_INODE_ID then 1 else 0);
         iter = Adaptor_GetNewIterator (metadb fs);
         (buf, r) = filler buf dot
     in if r < 0 then Some (buf, FSError fs)
        else
          (let (buf, r) = filler buf dotdot
           in if r < 0 then Some (buf, FSError fs)
              else ReadDir_loop filler childkey (DBIter_Seek iter (ToSlice childkey)) buf))"

definition TableFS_ReleaseDir :: "'d TableFS \<Rightarrow> nat \<Rightarrow> ('d TableFS \<times> int) option" where
  "TableFS_ReleaseDir fs h =
     Option.bind (handle_at fs h) (\<lambda>handle.
     map_option (\<lambda>ic. (set_ic fs ic, 0)) (InodeCache_Release (fs_ic fs) h))"

end
