(* ===== verification/Fs_Meta.thy ===== *)
theory Fs_Meta
  imports Fs_Files
begin

text \<open>
  What the metadata operations of \<^verbatim>\<open>fs/tablefs.cpp\<close> do to the database.
  \<^item> \<open>fs_view fs\<close> is the contents of the file system: the value of every metadata key. An
    operation is specified by how it changes this map; names are resolved in it by
    \<open>path_key\<close>.
  \<^item> \<open>fs_ok n fs pin\<close> is the invariant: the inode cache is coherent, the directory entry
    cache agrees with the database, every value is a header, a name and data, and at least
    \<open>n\<close> writes fit the sequence numbers of the database. \<open>pin\<close> counts the references open
    files and directories hold.
  \<^item> The hypothesis \<open>quiet_path\<close> says that nobody has the file of the path open; open
    files with other keys are allowed and their handles are left alone (\<open>quieter\<close>).
\<close>

section \<open>The invariant\<close>

definition fs_view :: "'d TableFS \<Rightarrow> tfs_meta_key_t \<Rightarrow> bytes option" where
  "fs_view fs key = ad_lookup (metadb fs) (ToSlice key)"

definition well_formed :: "(tfs_meta_key_t \<rightharpoonup> bytes) \<Rightarrow> bool" where
  "well_formed m \<longleftrightarrow> (\<forall>key v. m key = Some v \<longrightarrow> (\<exists>h name data. value_ok h name \<and> v = mk_value h name data))"

definition fs_ok :: "nat \<Rightarrow> 'd TableFS \<Rightarrow> (nat \<Rightarrow> nat) \<Rightarrow> bool" where
  "fs_ok n fs pin \<longleftrightarrow> ic_ok n (fs_ic fs) pin {} \<and> fs_agrees fs \<and> well_formed (fs_view fs)"

definition fs_lookup :: "'d TableFS \<Rightarrow> bytes \<Rightarrow> bytes option" where
  "fs_lookup fs path = Option.bind (path_key fs path) (\<lambda>(key, filename). fs_view fs key)"

definition quiet_path :: "'d TableFS \<Rightarrow> (nat \<Rightarrow> nat) \<Rightarrow> bytes \<Rightarrow> bool" where
  "quiet_path fs pin path \<longleftrightarrow>
     abs_path path \<and> (case path_key fs path of None \<Rightarrow> True | Some (key, _) \<Rightarrow> quiet (fs_ic fs) pin key)"

lemma view_dentries: "dentries (metadb fs) key = map_option (\<lambda>v. st_ino (GetAttribute v)) (fs_view fs key)"
  by (simp add: dentries_def fs_view_def)

lemma path_key_view:
  assumes "fs_view fs' = fs_view fs"
  shows "path_key fs' = path_key fs"
proof -
  have "dentries (metadb fs') = dentries (metadb fs)"
    by (rule ext) (simp add: view_dentries assms)
  then show ?thesis by (intro ext) (simp add: path_key_def metadb_def)
qed

lemma fs_sel [simp]:
  "fs_view (fs\<lparr>fs_dcache := dc\<rparr>) = fs_view fs" "fs_view (fs\<lparr>fs_errno := e\<rparr>) = fs_view fs"
  "fs_view (fs\<lparr>fs_disk := d\<rparr>) = fs_view fs" "fs_view (fs\<lparr>fs_state := st\<rparr>) = fs_view fs"
  "path_key (fs\<lparr>fs_dcache := dc\<rparr>) = path_key fs" "path_key (fs\<lparr>fs_errno := e\<rparr>) = path_key fs"
  "path_key (fs\<lparr>fs_disk := d\<rparr>) = path_key fs" "path_key (fs\<lparr>fs_state := st\<rparr>) = path_key fs"
  "metadb (fs\<lparr>fs_dcache := dc\<rparr>) = metadb fs" "metadb (fs\<lparr>fs_errno := e\<rparr>) = metadb fs"
  "metadb (fs\<lparr>fs_disk := d\<rparr>) = metadb fs" "metadb (fs\<lparr>fs_state := st\<rparr>) = metadb fs"
  "metadb (set_ic fs ic) = ic_metadb ic" "fs_ic (set_ic fs ic) = ic" "fs_state (set_ic fs ic) = fs_state fs"
  "fs_disk (set_ic fs ic) = fs_disk fs" "fs_fhs (set_ic fs ic) = fs_fhs fs" "fs_owner (set_ic fs ic) = fs_owner fs"
  "fs_errno (set_ic fs ic) = fs_errno fs" "fs_dcache (set_ic fs ic) = fs_dcache fs"
  by (auto simp: fs_view_def metadb_def path_key_def set_ic_def fun_eq_iff)

lemma fs_ok_sel [simp]:
  "fs_ok n (fs\<lparr>fs_errno := e\<rparr>) pin \<longleftrightarrow> fs_ok n fs pin"
  "fs_ok n (fs\<lparr>fs_disk := d\<rparr>) pin \<longleftrightarrow> fs_ok n fs pin"
  "fs_ok n (fs\<lparr>fs_state := st\<rparr>) pin \<longleftrightarrow> fs_ok n fs pin"
  by (simp_all add: fs_ok_def fs_agrees_def)

lemma fs_ok_ic:
  assumes ok: "fs_ok m fs pin" and ic: "ic_ok n ic pin' {}"
    and view: "\<And>key. ad_lookup (ic_metadb ic) (ToSlice key) = view key"
    and wf: "well_formed view"
    and ino: "\<And>key. map_option (\<lambda>v. st_ino (GetAttribute v)) (view key) =
      map_option (\<lambda>v. st_ino (GetAttribute v)) (fs_view fs key)"
  shows "fs_ok n (set_ic fs ic) pin'" and "fs_view (set_ic fs ic) = view"
proof -
  have v: "fs_view (set_ic fs ic) = view"
    by (rule ext) (simp add: fs_view_def metadb_def set_ic_def view)
  have "dentries (ic_metadb ic) = dentries (ic_metadb (fs_ic fs))"
    using ino by (auto simp: fun_eq_iff dentries_def view fs_view_def metadb_def)
  then have "fs_agrees (set_ic fs ic)"
    using ok by (simp add: fs_ok_def fs_agrees_def set_ic_def)
  then show "fs_ok n (set_ic fs ic) pin'" using ic wf v by (simp add: fs_ok_def set_ic_def)
  show "fs_view (set_ic fs ic) = view" by (rule v)
qed

lemma fs_ok_ic_same:
  assumes "fs_ok m fs pin" "ic_ok n ic pin' {}" "ic_metadb ic = ic_metadb (fs_ic fs)"
  shows "fs_ok n (set_ic fs ic) pin'" and "fs_view (set_ic fs ic) = fs_view fs"
  using fs_ok_ic [OF assms(1,2), of "fs_view fs"] assms(1,3)
  by (simp_all add: fs_ok_def fs_view_def metadb_def)

lemma fs_okD:
  assumes "fs_ok n fs pin"
  shows "ic_ok n (fs_ic fs) pin {}" "fs_agrees fs" "ad_ok n (ic_metadb (fs_ic fs))" "ad_ok n (metadb fs)"
  using assms ic_okD(5) unfolding fs_ok_def metadb_def by blast+

lemma fs_value:
  assumes "fs_ok n fs pin" "fs_view fs key = Some v"
  shows "length v < 2 ^ 32" and "\<exists>h name data. value_ok h name \<and> v = mk_value h name data"
  using assms ad_lookup_short [OF fs_okD(4) [OF assms(1)]]
  unfolding fs_ok_def well_formed_def fs_view_def by blast+

lemma fs_ok_less: "fs_ok m fs pin \<Longrightarrow> n \<le> m \<Longrightarrow> fs_ok n fs pin"
  using ic_ok_less by (auto simp: fs_ok_def)

lemma fs_ok_wf: "fs_ok n fs pin \<Longrightarrow> well_formed (fs_view fs)"
  by (simp add: fs_ok_def)

lemma well_formed_update:
  "well_formed m \<Longrightarrow> value_ok h name \<Longrightarrow> v = mk_value h name data \<Longrightarrow> well_formed (m(key \<mapsto> v))"
  by (auto simp: well_formed_def)

lemma well_formed_delete: "well_formed m \<Longrightarrow> well_formed (m(key := None))"
  by (auto simp: well_formed_def)

section \<open>Path lookup\<close>

lemma PathLookup_ok:
  assumes ok: "fs_ok n fs pin" and p: "abs_path path"
  obtains dc e where
    "PathLookup fs path = Some (fs\<lparr>fs_dcache := dc, fs_errno := e\<rparr>, map_option fst (path_key fs path))"
    "PathLookup_filename fs path = Some (fs\<lparr>fs_dcache := dc, fs_errno := e\<rparr>, path_key fs path)"
    "fs_ok n (fs\<lparr>fs_dcache := dc\<rparr>) pin" "path_key fs path = None \<Longrightarrow> e = ENOENT"
proof -
  obtain dc e where L: "PathLookup_filename fs path = Some (fs\<lparr>fs_dcache := dc, fs_errno := e\<rparr>, path_key fs path)"
    "PathLookup fs path = Some (fs\<lparr>fs_dcache := dc, fs_errno := e\<rparr>, map_option fst (path_key fs path))"
    "dentry.agrees dc (dentries (ic_metadb (fs_ic fs)))" "path_key fs path = None \<Longrightarrow> e = ENOENT"
    by (rule PathLookup_filename_resolve [OF fs_okD(2,3) [OF ok] p]) (rule that)
  have "fs_ok n (fs\<lparr>fs_dcache := dc\<rparr>) pin" using ok L(3) by (simp add: fs_ok_def fs_agrees_def)
  from L(2,1) this L(4) show ?thesis by (rule that)
qed

lemma quiet_pathD:
  "quiet_path fs pin path \<Longrightarrow> abs_path path"
  "quiet_path fs pin path \<Longrightarrow> path_key fs path = Some (key, name) \<Longrightarrow> quiet (fs_ic fs) pin key"
  by (auto simp: quiet_path_def)

text \<open>The three outcomes of looking a path up: a component is missing, the entry is missing, or
  there is a value.\<close>

lemma lookup_path:
  assumes ok: "fs_ok n fs pin" and q: "quiet_path fs pin path"
  obtains (unresolved) dc where
    "PathLookup fs path = Some (fs\<lparr>fs_dcache := dc, fs_errno := ENOENT\<rparr>, None)"
    "PathLookup_filename fs path = Some (fs\<lparr>fs_dcache := dc, fs_errno := ENOENT\<rparr>, None)"
    "fs_ok n (fs\<lparr>fs_dcache := dc\<rparr>) pin" "path_key fs path = None"
  | (missing) dc e key name where
    "PathLookup fs path = Some (fs\<lparr>fs_dcache := dc, fs_errno := e\<rparr>, Some key)"
    "PathLookup_filename fs path = Some (fs\<lparr>fs_dcache := dc, fs_errno := e\<rparr>, Some (key, name))"
    "fs_ok n (fs\<lparr>fs_dcache := dc\<rparr>) pin" "path_key fs path = Some (key, name)" "quiet (fs_ic fs) pin key"
    "fs_view fs key = None" "ad_lookup (ic_metadb (fs_ic fs)) (ToSlice key) = None"
  | (found) dc e key name v where
    "PathLookup fs path = Some (fs\<lparr>fs_dcache := dc, fs_errno := e\<rparr>, Some key)"
    "PathLookup_filename fs path = Some (fs\<lparr>fs_dcache := dc, fs_errno := e\<rparr>, Some (key, name))"
    "fs_ok n (fs\<lparr>fs_dcache := dc\<rparr>) pin" "path_key fs path = Some (key, name)" "quiet (fs_ic fs) pin key"
    "fs_view fs key = Some v" "ad_lookup (ic_metadb (fs_ic fs)) (ToSlice key) = Some v" "length v < 2 ^ 32"
proof -
  obtain dc e where P:
    "PathLookup fs path = Some (fs\<lparr>fs_dcache := dc, fs_errno := e\<rparr>, map_option fst (path_key fs path))"
    "PathLookup_filename fs path = Some (fs\<lparr>fs_dcache := dc, fs_errno := e\<rparr>, path_key fs path)"
    "fs_ok n (fs\<lparr>fs_dcache := dc\<rparr>) pin" "path_key fs path = None \<Longrightarrow> e = ENOENT"
    by (rule PathLookup_ok [OF ok quiet_pathD(1) [OF q]]) (rule that)
  show ?thesis
  proof (cases "path_key fs path")
    case None
    then show ?thesis using P unresolved [of dc] by simp
  next
    case (Some kf)
    then obtain key name where k: "path_key fs path = Some (key, name)" by (cases kf) auto
    note qk = quiet_pathD(2) [OF q k]
    have L: "PathLookup fs path = Some (fs\<lparr>fs_dcache := dc, fs_errno := e\<rparr>, Some key)"
      "PathLookup_filename fs path = Some (fs\<lparr>fs_dcache := dc, fs_errno := e\<rparr>, Some (key, name))"
      using P(1,2) k by simp_all
    have view: "ad_lookup (ic_metadb (fs_ic fs)) (ToSlice key) = fs_view fs key"
      by (simp add: fs_view_def metadb_def)
    show ?thesis
    proof (cases "fs_view fs key")
      case None
      show ?thesis by (rule missing [OF L P(3) k qk None]) (simp add: view None)
    next
      case (Some v)
      show ?thesis by (rule found [OF L P(3) k qk Some _ fs_value(1) [OF ok Some]]) (simp add: view Some)
    qed
  qed
qed

section \<open>Reading attributes\<close>

lemma GetAttr_ok:
  assumes ok: "fs_ok (Suc n) fs pin" and q: "quiet_path fs pin path"
  shows "\<exists>fs'. TableFS_GetAttr fs path =
      Some (fs', case fs_lookup fs path of None \<Rightarrow> (- ENOENT, None) | Some v \<Rightarrow> (0, Some (GetAttribute v))) \<and>
    fs_ok (Suc n) fs' pin \<and> fs_view fs' = fs_view fs \<and> quieter (fs_ic fs) (fs_ic fs') pin"
  using ok q
proof (cases rule: lookup_path)
  case (unresolved dc)
  then show ?thesis by (simp add: TableFS_GetAttr_def fs_lookup_def quieter_def FSError_def)
next
  case (missing dc e key name)
  let ?fs = "fs\<lparr>fs_dcache := dc, fs_errno := e\<rparr>"
  have ok1: "fs_ok (Suc n) ?fs pin" using missing(3) by simp
  obtain ic' where M:
    "InodeCache_Get (fs_ic fs) key INODE_READ = Some (ic', None)" "ic_ok (Suc n) ic' pin {}"
    "ic_metadb ic' = ic_metadb (fs_ic fs)" "quieter (fs_ic fs) ic' pin"
    by (rule missing_quiet [OF fs_okD(1) [OF ok] missing(5,7)]) (rule that)
  have "fs_ok (Suc n) (set_ic ?fs ic') pin" "fs_view (set_ic ?fs ic') = fs_view fs"
    using fs_ok_ic_same [OF ok1 M(2)] M(3) by simp_all
  moreover have "TableFS_GetAttr fs path = Some (set_ic ?fs ic', - ENOENT, None)"
    using missing(1) M(1) by (simp add: TableFS_GetAttr_def)
  moreover have "fs_lookup fs path = None" using missing by (simp add: fs_lookup_def)
  ultimately show ?thesis using M(4) by simp
next
  case (found dc e key name v)
  let ?fs = "fs\<lparr>fs_dcache := dc, fs_errno := e\<rparr>"
  have ok1: "fs_ok (Suc n) ?fs pin" using found(3) by simp
  obtain ic1 h p ic2 where R:
    "InodeCache_Get (fs_ic fs) key INODE_READ = Some (ic1, Some h)"
    "ic_handles ic1 h = Some \<lparr>ih_key = key, ih_value = v, ih_mode = INODE_READ, ih_pointer = Some p\<rparr>"
    "InodeCache_Release ic1 h = Some ic2" "ic_ok (Suc n) ic2 pin {}"
    "ic_metadb ic2 = ic_metadb (fs_ic fs)" "quieter (fs_ic fs) ic2 pin"
    by (rule read_quiet [OF fs_okD(1) [OF ok] found(5,7,8)]) (rule that)
  have "fs_ok (Suc n) (set_ic ?fs ic2) pin" "fs_view (set_ic ?fs ic2) = fs_view fs"
    using fs_ok_ic_same [OF ok1 R(4)] R(5) by simp_all
  moreover have "TableFS_GetAttr fs path = Some (set_ic ?fs ic2, 0, Some (GetAttribute v))"
    using found(1) R(1-3) by (simp add: TableFS_GetAttr_def)
  moreover have "fs_lookup fs path = Some v" using found by (simp add: fs_lookup_def)
  ultimately show ?thesis using R(6) by simp
qed

section \<open>Changing attributes\<close>

lemma update_attribute_ok:
  assumes ok: "fs_ok (Suc (Suc n)) fs pin" and q: "quiet_path fs pin path"
    and f: "\<And>s. stat_ok s \<Longrightarrow> stat_ok (f s) \<and> st_ino (f s) = st_ino s"
  shows "\<exists>fs'. update_attribute fs path f = Some (fs', if fs_lookup fs path = None then - ENOENT else 0) \<and>
    fs_ok (Suc n) fs' pin \<and> quieter (fs_ic fs) (fs_ic fs') pin \<and>
    fs_view fs' = (case path_key fs path of
        None \<Rightarrow> fs_view fs
      | Some (key, _) \<Rightarrow> (fs_view fs)(key := map_option (\<lambda>v. UpdateAttribute v (f (GetAttribute v))) (fs_view fs key)))"
  using ok q
proof (cases rule: lookup_path)
  case (unresolved dc)
  have "fs_ok (Suc n) (fs\<lparr>fs_dcache := dc\<rparr>) pin" using unresolved(3) by (rule fs_ok_less) simp
  with unresolved show ?thesis by (simp add: update_attribute_def fs_lookup_def quieter_def FSError_def)
next
  case (missing dc e key name)
  let ?fs = "fs\<lparr>fs_dcache := dc, fs_errno := e\<rparr>"
  have ok1: "fs_ok (Suc (Suc n)) ?fs pin" using missing(3) by simp
  obtain ic' where M:
    "InodeCache_Get (fs_ic fs) key INODE_WRITE = Some (ic', None)" "ic_ok (Suc (Suc n)) ic' pin {}"
    "ic_metadb ic' = ic_metadb (fs_ic fs)" "quieter (fs_ic fs) ic' pin"
    by (rule missing_quiet [OF fs_okD(1) [OF ok] missing(5,7)]) (rule that)
  have "fs_ok (Suc (Suc n)) (set_ic ?fs ic') pin" "fs_view (set_ic ?fs ic') = fs_view fs"
    using fs_ok_ic_same [OF ok1 M(2)] M(3) by simp_all
  moreover have "update_attribute fs path f = Some (set_ic ?fs ic', - ENOENT)"
    using missing(1) M(1) by (simp add: update_attribute_def)
  moreover have "fs_lookup fs path = None" using missing by (simp add: fs_lookup_def)
  moreover have "(fs_view fs)(key := map_option g (fs_view fs key)) = fs_view fs" for g
    using missing(6) by auto
  ultimately show ?thesis using M(4) fs_ok_less [of "Suc (Suc n)" _ pin "Suc n"] missing(4) by simp
next
  case (found dc e key name v)
  let ?fs = "fs\<lparr>fs_dcache := dc, fs_errno := e\<rparr>" and ?v = "UpdateAttribute v (f (GetAttribute v))"
  have ok1: "fs_ok (Suc (Suc n)) ?fs pin" using found(3) by simp
  obtain h name' data where v: "value_ok h name'" "v = mk_value h name' data"
    using fs_value(2) [OF ok found(6)] by blast
  have st: "stat_ok (f (fstat h))" "st_ino (f (fstat h)) = st_ino (fstat h)"
    using f [of "fstat h"] v(1) by (auto simp: value_ok_def header_ok_def)
  have h': "value_ok (h\<lparr>fstat := f (fstat h)\<rparr>) name'" using v(1) st(1) by (simp add: value_ok_def header_ok_def)
  have v': "?v = mk_value (h\<lparr>fstat := f (fstat h)\<rparr>) name' data"
    using v st(1) by (simp add: UpdateAttribute_mk)
  have ga: "GetAttribute ?v = f (fstat h)" "GetAttribute v = fstat h"
    unfolding v' GetAttribute_mk [OF h'] unfolding v(2) GetAttribute_mk [OF v(1)] by simp_all
  have len: "length ?v < 2 ^ 32" using found(8) unfolding v' unfolding v(2) by (simp add: length_mk_value v(1) h')
  obtain ic1 a p ic2 ic3 where U: "InodeCache_Get (fs_ic fs) key INODE_WRITE = Some (ic1, Some a)"
    "ic_handles ic1 a = Some \<lparr>ih_key = key, ih_value = v, ih_mode = INODE_WRITE, ih_pointer = Some p\<rparr>"
    "InodeCache_WriteBack (set_value ic1 a ?v) a = Some ic2"
    "InodeCache_Release ic2 a = Some ic3" "ic_ok (Suc n) ic3 pin {}"
    "ad_lookup (ic_metadb ic3) = (ad_lookup (ic_metadb (fs_ic fs)))(ToSlice key \<mapsto> ?v)"
    "ad_now (ic_metadb ic3) = ad_now (ic_metadb (fs_ic fs))" "quieter (fs_ic fs) ic3 pin"
    by (rule update_quiet [OF fs_okD(1) [OF ok] found(5,7) len]) (rule that)
  have view: "ad_lookup (ic_metadb ic3) (ToSlice k) = ((fs_view fs)(key \<mapsto> ?v)) k" for k
    by (simp add: U(6) fs_view_def metadb_def)
  have wf: "well_formed ((fs_view fs)(key \<mapsto> ?v))"
    by (rule well_formed_update [OF fs_ok_wf [OF ok] h' v'])
  have ino: "map_option (\<lambda>v. st_ino (GetAttribute v)) (((fs_view fs)(key \<mapsto> ?v)) k) =
      map_option (\<lambda>v. st_ino (GetAttribute v)) (fs_view ?fs k)" for k
    using found(6) ga st(2) by simp
  have "fs_ok (Suc n) (set_ic ?fs ic3) pin" "fs_view (set_ic ?fs ic3) = (fs_view fs)(key \<mapsto> ?v)"
    by (rule fs_ok_ic [OF ok1 U(5), where view = "(fs_view fs)(key \<mapsto> ?v)"]; (rule view wf ino))+
  moreover have "update_attribute fs path f = Some (set_ic ?fs ic3, 0)"
    using found(1) U(1-4) by (simp add: update_attribute_def)
  moreover have "fs_lookup fs path = Some v" using found by (simp add: fs_lookup_def)
  ultimately show ?thesis using U(8) found(4,6) by simp
qed

section \<open>Removing an entry\<close>

lemma fs_ok_evict:
  assumes ok: "fs_ok m fs pin" and ic: "ic_ok n ic pin' {}"
    and view: "\<And>k. ad_lookup (ic_metadb ic) (ToSlice k) = view k" and wf: "well_formed view"
    and other: "\<And>k. k \<noteq> key \<Longrightarrow> view k = fs_view fs k"
  shows "fs_ok n (set_ic (dcache_Evict fs key) ic) pin'" "fs_view (set_ic (dcache_Evict fs key) ic) = view"
proof -
  have v: "fs_view (set_ic (dcache_Evict fs key) ic) = view"
    by (rule ext) (simp add: fs_view_def metadb_def set_ic_def view)
  have "dentries (ic_metadb ic) k = dentries (metadb fs) k" if "k \<noteq> key" for k
    using other [OF that] by (simp add: dentries_def view fs_view_def)
  moreover have "dentry.agrees (fs_dcache fs) (dentries (metadb fs))"
    using ok by (simp add: fs_ok_def fs_agrees_def metadb_def)
  ultimately have "dentry.agrees (DentryCache_Evict (fs_dcache fs) key) (dentries (ic_metadb ic))"
    by (intro dentry.evict_agrees)
  then have "fs_agrees (set_ic (dcache_Evict fs key) ic)"
    by (simp add: fs_agrees_def set_ic_def dcache_Evict_def)
  then show "fs_ok n (set_ic (dcache_Evict fs key) ic) pin'" using ic wf v by (simp add: fs_ok_def set_ic_def)
  show "fs_view (set_ic (dcache_Evict fs key) ic) = view" by (rule v)
qed

lemma dcache_Evict_sel [simp]:
  "set_ic (dcache_Evict fs key) ic = dcache_Evict (set_ic fs ic) key"
  "fs_ic (dcache_Evict fs key) = fs_ic fs" "fs_state (dcache_Evict fs key) = fs_state fs"
  "fs_disk (dcache_Evict fs key) = fs_disk fs" "set_ic (set_ic fs ic') ic = set_ic fs ic"
  "(dcache_Evict fs key)\<lparr>fs_disk := d\<rparr> = dcache_Evict (fs\<lparr>fs_disk := d\<rparr>) key"
  "(set_ic fs ic)\<lparr>fs_disk := d\<rparr> = set_ic (fs\<lparr>fs_disk := d\<rparr>) ic"
  by (simp_all add: dcache_Evict_def set_ic_def)

lemma remove_entry:
  fixes fs :: "'d TableFS"
  assumes ok: "fs_ok (Suc (Suc n)) fs pin" and q: "quiet (fs_ic fs) pin key"
    and v: "ad_lookup (ic_metadb (fs_ic fs)) (ToSlice key) = Some v" "length v < 2 ^ 32"
  obtains ic1 h p ic2 ic3 where "InodeCache_Get (fs_ic fs) key INODE_DELETE = Some (ic1, Some h)"
    "ic_handles ic1 h = Some \<lparr>ih_key = key, ih_value = v, ih_mode = INODE_DELETE, ih_pointer = Some p\<rparr>"
    "InodeCache_Release ic1 h = Some ic2" "InodeCache_Evict ic2 key = Some ic3"
    "\<And>fs' :: 'd TableFS. fs_ic fs' = fs_ic fs \<Longrightarrow> fs_dcache fs' = fs_dcache fs \<Longrightarrow> fs_ok n (dcache_Evict (set_ic fs' ic3) key) pin"
    "\<And>fs' :: 'd TableFS. fs_ic fs' = fs_ic fs \<Longrightarrow> fs_view (dcache_Evict (set_ic fs' ic3) key) = (fs_view fs)(key := None)"
    "quieter (fs_ic fs) ic3 pin"
proof -
  obtain ic1 h p ic2 ic3 where D: "InodeCache_Get (fs_ic fs) key INODE_DELETE = Some (ic1, Some h)"
    "ic_handles ic1 h = Some \<lparr>ih_key = key, ih_value = v, ih_mode = INODE_DELETE, ih_pointer = Some p\<rparr>"
    "InodeCache_Release ic1 h = Some ic2" "InodeCache_Evict ic2 key = Some ic3" "ic_ok n ic3 pin {}"
    "ad_lookup (ic_metadb ic3) = (ad_lookup (ic_metadb (fs_ic fs)))(ToSlice key := None)"
    "ad_now (ic_metadb ic3) = ad_now (ic_metadb (fs_ic fs))" "quieter (fs_ic fs) ic3 pin"
    by (rule delete_quiet [OF fs_okD(1) [OF ok] q v]) (rule that)
  have view: "ad_lookup (ic_metadb ic3) (ToSlice k) = ((fs_view fs)(key := None)) k" for k
    by (simp add: D(6) fs_view_def metadb_def)
  have E: "fs_ok n (set_ic (dcache_Evict fs key) ic3) pin"
    by (rule fs_ok_evict [OF ok D(5) view well_formed_delete [OF fs_ok_wf [OF ok]]]) simp
  have "fs_ok n (dcache_Evict (set_ic fs' ic3) key) pin"
    if "fs_ic fs' = fs_ic fs" "fs_dcache fs' = fs_dcache fs" for fs'
    using E that by (simp add: fs_ok_def fs_agrees_def set_ic_def dcache_Evict_def fs_view_def fun_eq_iff metadb_def well_formed_def)
  moreover have "fs_view (dcache_Evict (set_ic fs' ic3) key) = (fs_view fs)(key := None)" for fs'
    using view by (simp add: fun_eq_iff fs_view_def metadb_def dcache_Evict_def set_ic_def)
  ultimately show ?thesis using that [OF D(1-4) _ _ D(8)] by blast
qed

text \<open>The file outside the database that \<^verbatim>\<open>Unlink\<close> removes, if the size says there is one.\<close>

definition disk_file :: "'d TableFS \<Rightarrow> bytes \<Rightarrow> string option option" where
  "disk_file fs v =
     (let st = fstat (GetInodeHeader v)
      in if sint (st_size st) > threshold (fs_state fs) then Some (GetDiskFilePath (fs_state fs) (st_ino st))
         else None)"

definition remove_disk :: "'d posix \<Rightarrow> 'd TableFS \<Rightarrow> bytes \<Rightarrow> 'd" where
  "remove_disk px fs v =
     (case disk_file fs v of Some (Some fpath) \<Rightarrow> snd (px_unlink px fpath (fs_disk fs)) | _ \<Rightarrow> fs_disk fs)"

definition without :: "(tfs_meta_key_t \<rightharpoonup> bytes) \<Rightarrow> (tfs_meta_key_t \<times> bytes) option \<Rightarrow> tfs_meta_key_t \<rightharpoonup> bytes" where
  "without m r = (case r of None \<Rightarrow> m | Some (key, _) \<Rightarrow> m(key := None))"

lemma Unlink_ok:
  fixes fs :: "'d TableFS"
  assumes ok: "fs_ok (Suc (Suc n)) fs pin" and q: "quiet_path fs pin path"
    and path: "\<And>v. fs_lookup fs path = Some v \<Longrightarrow> disk_file fs v \<noteq> Some None"
  shows "\<exists>fs'. TableFS_Unlink px fs path = Some (fs', if fs_lookup fs path = None then - ENOENT else 0) \<and>
    fs_ok n fs' pin \<and> quieter (fs_ic fs) (fs_ic fs') pin \<and>
    fs_view fs' = without (fs_view fs) (path_key fs path) \<and>
    fs_disk fs' = (case fs_lookup fs path of None \<Rightarrow> fs_disk fs | Some v \<Rightarrow> remove_disk px fs v)"
  using ok q
proof (cases rule: lookup_path)
  case (unresolved dc)
  have "fs_ok n (fs\<lparr>fs_dcache := dc\<rparr>) pin" using unresolved(3) by (rule fs_ok_less) simp
  with unresolved show ?thesis by (simp add: TableFS_Unlink_def fs_lookup_def quieter_def FSError_def without_def)
next
  case (missing dc e key name)
  let ?fs = "fs\<lparr>fs_dcache := dc, fs_errno := e\<rparr>"
  have ok1: "fs_ok (Suc (Suc n)) ?fs pin" using missing(3) by simp
  obtain ic' where M:
    "InodeCache_Get (fs_ic fs) key INODE_DELETE = Some (ic', None)" "ic_ok (Suc (Suc n)) ic' pin {}"
    "ic_metadb ic' = ic_metadb (fs_ic fs)" "quieter (fs_ic fs) ic' pin"
    by (rule missing_quiet [OF fs_okD(1) [OF ok] missing(5,7)]) (rule that)
  have "fs_ok (Suc (Suc n)) (set_ic ?fs ic') pin" "fs_view (set_ic ?fs ic') = fs_view fs"
    using fs_ok_ic_same [OF ok1 M(2)] M(3) by simp_all
  moreover have "TableFS_Unlink px fs path = Some (set_ic ?fs ic', - ENOENT)"
    using missing(1) M(1) by (simp add: TableFS_Unlink_def)
  moreover have "fs_lookup fs path = None" using missing by (simp add: fs_lookup_def)
  moreover have "(fs_view fs)(key := None) = fs_view fs" using missing(6) by auto
  ultimately show ?thesis
    using M(4) fs_ok_less [of "Suc (Suc n)" _ pin n] missing(4) by (simp add: without_def)
next
  case (found dc e key name v)
  let ?fs = "fs\<lparr>fs_dcache := dc, fs_errno := e\<rparr>"
  have ok1: "fs_ok (Suc (Suc n)) ?fs pin" using found(3) by simp
  have ic: "fs_ic ?fs = fs_ic fs" "fs_view ?fs = fs_view fs" by simp_all
  have pre: "quiet (fs_ic ?fs) pin key" "ad_lookup (ic_metadb (fs_ic ?fs)) (ToSlice key) = Some v"
    using found(5,7) by simp_all
  obtain ic1 h p ic2 ic3 where D: "InodeCache_Get (fs_ic ?fs) key INODE_DELETE = Some (ic1, Some h)"
    "ic_handles ic1 h = Some \<lparr>ih_key = key, ih_value = v, ih_mode = INODE_DELETE, ih_pointer = Some p\<rparr>"
    "InodeCache_Release ic1 h = Some ic2" "InodeCache_Evict ic2 key = Some ic3"
    "\<And>fs' :: 'd TableFS. fs_ic fs' = fs_ic ?fs \<Longrightarrow> fs_dcache fs' = fs_dcache ?fs \<Longrightarrow> fs_ok n (dcache_Evict (set_ic fs' ic3) key) pin"
    "\<And>fs' :: 'd TableFS. fs_ic fs' = fs_ic ?fs \<Longrightarrow> fs_view (dcache_Evict (set_ic fs' ic3) key) = (fs_view ?fs)(key := None)"
    "quieter (fs_ic ?fs) ic3 pin"
    by (rule remove_entry [OF ok1 pre found(8)]) (rule that)
  have look: "fs_lookup fs path = Some v" using found by (simp add: fs_lookup_def)
  let ?fs' = "?fs\<lparr>fs_disk := remove_disk px fs v\<rparr>"
  have "TableFS_Unlink px fs path = Some (dcache_Evict (set_ic ?fs' ic3) key, 0)"
    using found(1) D(1-4) path [OF look]
    by (auto simp: TableFS_Unlink_def handle_at_def remove_disk_def disk_file_def Let_def split: option.split)
  moreover have "fs_ok n (dcache_Evict (set_ic ?fs' ic3) key) pin" by (rule D(5)) simp_all
  moreover have "fs_view (dcache_Evict (set_ic ?fs' ic3) key) = (fs_view fs)(key := None)"
    unfolding ic(2) [symmetric] by (rule D(6)) simp
  ultimately show ?thesis using look found(4) D(7) by (simp add: without_def)
qed

lemma RemoveDir_ok:
  fixes fs :: "'d TableFS"
  assumes ok: "fs_ok (Suc (Suc n)) fs pin" and q: "quiet_path fs pin path"
  shows "\<exists>fs'. TableFS_RemoveDir fs path = Some (fs', if fs_lookup fs path = None then - ENOENT else 0) \<and>
    fs_ok n fs' pin \<and> quieter (fs_ic fs) (fs_ic fs') pin \<and>
    fs_view fs' = without (fs_view fs) (path_key fs path)"
  using ok q
proof (cases rule: lookup_path)
  case (unresolved dc)
  have "fs_ok n (fs\<lparr>fs_dcache := dc\<rparr>) pin" using unresolved(3) by (rule fs_ok_less) simp
  with unresolved show ?thesis by (simp add: TableFS_RemoveDir_def fs_lookup_def quieter_def FSError_def without_def)
next
  case (missing dc e key name)
  let ?fs = "fs\<lparr>fs_dcache := dc, fs_errno := e\<rparr>"
  have ok1: "fs_ok (Suc (Suc n)) ?fs pin" using missing(3) by simp
  obtain ic' where M:
    "InodeCache_Get (fs_ic fs) key INODE_DELETE = Some (ic', None)" "ic_ok (Suc (Suc n)) ic' pin {}"
    "ic_metadb ic' = ic_metadb (fs_ic fs)" "quieter (fs_ic fs) ic' pin"
    by (rule missing_quiet [OF fs_okD(1) [OF ok] missing(5,7)]) (rule that)
  have "fs_ok (Suc (Suc n)) (set_ic ?fs ic') pin" "fs_view (set_ic ?fs ic') = fs_view fs"
    using fs_ok_ic_same [OF ok1 M(2)] M(3) by simp_all
  moreover have "TableFS_RemoveDir fs path = Some (set_ic ?fs ic', - ENOENT)"
    using missing(1) M(1) by (simp add: TableFS_RemoveDir_def)
  moreover have "fs_lookup fs path = None" using missing by (simp add: fs_lookup_def)
  moreover have "(fs_view fs)(key := None) = fs_view fs" using missing(6) by auto
  ultimately show ?thesis
    using M(4) fs_ok_less [of "Suc (Suc n)" _ pin n] missing(4) by (simp add: without_def)
next
  case (found dc e key name v)
  let ?fs = "fs\<lparr>fs_dcache := dc, fs_errno := e\<rparr>"
  have ok1: "fs_ok (Suc (Suc n)) ?fs pin" using found(3) by simp
  have pre: "quiet (fs_ic ?fs) pin key" "ad_lookup (ic_metadb (fs_ic ?fs)) (ToSlice key) = Some v"
    using found(5,7) by simp_all
  obtain ic1 h p ic2 ic3 where D: "InodeCache_Get (fs_ic ?fs) key INODE_DELETE = Some (ic1, Some h)"
    "ic_handles ic1 h = Some \<lparr>ih_key = key, ih_value = v, ih_mode = INODE_DELETE, ih_pointer = Some p\<rparr>"
    "InodeCache_Release ic1 h = Some ic2" "InodeCache_Evict ic2 key = Some ic3"
    "\<And>fs' :: 'd TableFS. fs_ic fs' = fs_ic ?fs \<Longrightarrow> fs_dcache fs' = fs_dcache ?fs \<Longrightarrow> fs_ok n (dcache_Evict (set_ic fs' ic3) key) pin"
    "\<And>fs' :: 'd TableFS. fs_ic fs' = fs_ic ?fs \<Longrightarrow> fs_view (dcache_Evict (set_ic fs' ic3) key) = (fs_view ?fs)(key := None)"
    "quieter (fs_ic ?fs) ic3 pin"
    by (rule remove_entry [OF ok1 pre found(8)]) (rule that)
  have look: "fs_lookup fs path = Some v" using found by (simp add: fs_lookup_def)
  have "TableFS_RemoveDir fs path = Some (dcache_Evict (set_ic ?fs ic3) key, 0)"
    using found(1) D(1-4) by (simp add: TableFS_RemoveDir_def)
  moreover have "fs_ok n (dcache_Evict (set_ic ?fs ic3) key) pin" by (rule D(5)) simp_all
  moreover have "fs_view (dcache_Evict (set_ic ?fs ic3) key) = (fs_view ?fs)(key := None)"
    by (rule D(6)) simp
  ultimately show ?thesis using look found(4) D(7) by (simp add: without_def)
qed

section \<open>Names after a change\<close>

lemma resolve_mono:
  assumes "resolve m key inum rest = Some r" "m \<subseteq>\<^sub>m m'"
  shows "resolve m' key inum rest = Some r"
  using assms
proof (induction m key inum rest rule: resolve.induct)
  case (1 truth key inum rest)
  show ?case
  proof (cases "dropWhile (\<lambda>c. c \<noteq> PATH_DELIMITER) rest")
    case Nil
    then show ?thesis
      using "1.prems"(1) by (simp add: resolve.simps [of _ _ _ rest] del: dropWhile_eq_Nil_conv)
  next
    case (Cons c rest')
    let ?key = "BuildMetaKey_path (takeWhile (\<lambda>c. c \<noteq> PATH_DELIMITER) rest) inum"
    obtain i where i: "truth ?key = Some i" "resolve truth ?key i rest' = Some r"
      using "1.prems"(1) Cons by (auto simp: resolve.simps [of _ _ _ rest] Let_def split: option.splits)
    have "m' ?key = Some i" using i(1) "1.prems"(2) by (metis domI map_le_def)
    then show ?thesis
      using "1.IH" [OF Cons refl i(1,2) "1.prems"(2)] Cons by (simp add: resolve.simps [of _ _ _ rest] Let_def)
  qed
qed

lemma path_key_mono:
  assumes "path_key fs path = Some r" "fs_view fs \<subseteq>\<^sub>m fs_view fs'"
  shows "path_key fs' path = Some r"
proof -
  have "dentries (metadb fs) \<subseteq>\<^sub>m dentries (metadb fs')"
    using assms(2) by (auto simp: map_le_def view_dentries dom_def)
  then show ?thesis using assms(1) resolve_mono unfolding path_key_def metadb_def by blast
qed

lemma lookup_without:
  assumes "fs_view fs' = without (fs_view fs) (path_key fs path)"
  shows "fs_lookup fs' path = None"
proof (cases "path_key fs' path")
  case (Some r)
  have "fs_view fs' \<subseteq>\<^sub>m fs_view fs"
    unfolding assms by (auto simp: without_def map_le_def split: option.split)
  then have "path_key fs path = Some r" using path_key_mono [OF Some] by blast
  then show ?thesis using Some assms by (cases r) (simp add: fs_lookup_def without_def)
qed (simp add: fs_lookup_def)

end
