(* ===== verification/Fs_Names.thy ===== *)
theory Fs_Names
  imports Fs_Meta
begin

text \<open>
  Creating and renaming entries (\<^verbatim>\<open>MakeNode\<close>, \<^verbatim>\<open>MakeDir\<close>, \<^verbatim>\<open>Symlink\<close>, \<^verbatim>\<open>Readlink\<close> and
  \<^verbatim>\<open>Rename\<close> of \<^verbatim>\<open>fs/tablefs.cpp\<close>), over the invariant and the view of \<open>Fs_Meta\<close>.
  \<^item> The creating operations write to the database directly and do not look whether the name
    exists; their contract is stated for a name that does not. Then no handle of the key is
    in the inode cache, and the new value cannot be shadowed by an old one.
  \<^item> \<^verbatim>\<open>Rename\<close> keeps the header and the data of the value and replaces the name in it.
\<close>

section \<open>A new entry\<close>

lemma set_metadb_sel [simp]:
  "fs_ic (set_metadb fs ad) = (fs_ic fs)\<lparr>ic_metadb := ad\<rparr>" "metadb (set_metadb fs ad) = ad"
  "fs_dcache (set_metadb fs ad) = fs_dcache fs" "fs_state (set_metadb fs ad) = fs_state fs"
  "fs_disk (set_metadb fs ad) = fs_disk fs" "fs_owner (set_metadb fs ad) = fs_owner fs"
  by (simp_all add: set_metadb_def metadb_def)

lemma put_new:
  assumes ok: "fs_ok (Suc n) fs pin" and q: "quiet (fs_ic fs) pin key" and new: "fs_view fs key = None"
    and v: "value_ok h name" "v = mk_value h name data" "length v < 2 ^ 32"
  obtains ad where "Adaptor_Put (metadb fs) (ToSlice key) v = (ad, 0)"
    "fs_ok n (set_metadb fs ad) pin" "fs_view (set_metadb fs ad) = (fs_view fs)(key \<mapsto> v)"
    "quieter (fs_ic fs) (fs_ic (set_metadb fs ad)) pin" "ad_now ad = ad_now (metadb fs)"
proof -
  obtain ad where P: "Adaptor_Put (metadb fs) (ToSlice key) v = (ad, 0)" "ad_ok n ad"
    "ad_lookup ad = (ad_lookup (metadb fs))(ToSlice key \<mapsto> v)" "ad_now ad = ad_now (metadb fs)"
    using Adaptor_Put_ok [OF fs_okD(4) [OF ok], of "ToSlice key" v] v(3) by auto
  have view: "fs_view (set_metadb fs ad) = (fs_view fs)(key \<mapsto> v)"
    by (rule ext) (simp add: fs_view_def P(3))
  have same: "ad_lookup ad (ToSlice (ih_key handle)) = ad_lookup (ic_metadb (fs_ic fs)) (ToSlice (ih_key handle))"
    if g: "ic_handles (fs_ic fs) g = Some handle" "pin g = 0" for g handle
  proof -
    have "clean_handle (ic_metadb (fs_ic fs)) handle"
      using fs_okD(1) [OF ok] g by (auto simp: ic_ok_def)
    then have "ih_key handle \<noteq> key" using new by (auto simp: clean_handle_def fs_view_def metadb_def)
    then show ?thesis by (simp add: P(3) metadb_def)
  qed
  have ic: "ic_ok n ((fs_ic fs)\<lparr>ic_metadb := ad\<rparr>) pin {}"
    by (rule ic_ok_metadb [OF fs_okD(1) [OF ok] P(2) same])
  have le: "dentries (metadb fs) \<subseteq>\<^sub>m dentries ad"
    using new by (auto simp: map_le_def dentries_def P(3) fs_view_def dom_def)
  have "dentry.agrees (fs_dcache fs) (dentries ad)"
    using dentry.agrees_mono [OF _ le] ok by (simp add: fs_ok_def fs_agrees_def metadb_def)
  then have "fs_agrees (set_metadb fs ad)" by (simp add: fs_agrees_def)
  then have "fs_ok n (set_metadb fs ad) pin"
    using ic well_formed_update [OF fs_ok_wf [OF ok] v(1,2)] view by (simp add: fs_ok_def)
  moreover have "quieter (fs_ic fs) (fs_ic (set_metadb fs ad)) pin"
    by (simp add: quieter_def quiet_def)
  ultimately show ?thesis using that [OF P(1) _ view _ P(4)] by blast
qed

lemma view_grows: "m key = None \<Longrightarrow> m \<subseteq>\<^sub>m m(key \<mapsto> v)"
  by (auto simp: map_le_def)

lemma NewInode_sel:
  "State_NewInode px (fs_state fs) (fs_disk fs) = Some ((st, inum), d) \<Longrightarrow>
   NewInode px fs = Some (fs\<lparr>fs_state := st, fs_disk := d\<rparr>, inum)"
  by (simp add: NewInode_def)

text \<open>What is known of the state in which a name is to be created.\<close>

definition free_name :: "'d TableFS \<Rightarrow> (nat \<Rightarrow> nat) \<Rightarrow> bytes \<Rightarrow> tfs_meta_key_t \<Rightarrow> bytes \<Rightarrow> bool" where
  "free_name fs pin path key filename \<longleftrightarrow>
     quiet_path fs pin path \<and> path_key fs path = Some (key, filename) \<and> fs_view fs key = None"

lemma create_entry:
  fixes fs :: "'d TableFS" and mode :: u32 and dev :: u64
  assumes ok: "fs_ok (Suc n) fs pin" and free: "free_name fs pin path key filename"
    and st: "State_NewInode px (fs_state fs) (fs_disk fs) = Some ((st, inum), d)"
    and mem: "257 + length filename \<le> length mem" "257 + length filename + length data < 2 ^ 32"
  defines "h \<equiv> init_header mem inum mode dev filename (fs_owner fs) (time_now fs)"
  obtains dc e ad where
    "PathLookup_filename fs path = Some (fs\<lparr>fs_dcache := dc, fs_errno := e\<rparr>, Some (key, filename))"
    "NewInode px (fs\<lparr>fs_dcache := dc, fs_errno := e\<rparr>) =
       Some (fs\<lparr>fs_dcache := dc, fs_errno := e, fs_state := st, fs_disk := d\<rparr>, inum)"
    "Adaptor_Put (metadb fs) (ToSlice key)
       (InitInodeValue mem inum mode dev filename (fs_owner fs) (time_now fs) @ data) = (ad, 0)"
    "fs_ok n (set_metadb (fs\<lparr>fs_dcache := dc, fs_errno := e, fs_state := st, fs_disk := d\<rparr>) ad) pin"
    "fs_view (set_metadb (fs\<lparr>fs_dcache := dc, fs_errno := e, fs_state := st, fs_disk := d\<rparr>) ad) =
       (fs_view fs)(key \<mapsto> mk_value h filename data)"
    "quieter (fs_ic fs) ((fs_ic fs)\<lparr>ic_metadb := ad\<rparr>) pin"
proof -
  have q: "quiet_path fs pin path" and k: "path_key fs path = Some (key, filename)" and new: "fs_view fs key = None"
    using free by (simp_all add: free_name_def)
  obtain dc e where P:
    "PathLookup fs path = Some (fs\<lparr>fs_dcache := dc, fs_errno := e\<rparr>, map_option fst (path_key fs path))"
    "PathLookup_filename fs path = Some (fs\<lparr>fs_dcache := dc, fs_errno := e\<rparr>, path_key fs path)"
    "fs_ok (Suc n) (fs\<lparr>fs_dcache := dc\<rparr>) pin" "path_key fs path = None \<Longrightarrow> e = ENOENT"
    by (rule PathLookup_ok [OF ok quiet_pathD(1) [OF q]]) (rule that)
  let ?fs = "fs\<lparr>fs_dcache := dc, fs_errno := e, fs_state := st, fs_disk := d\<rparr>"
  let ?v = "InitInodeValue mem inum mode dev filename (fs_owner fs) (time_now fs) @ data"
  have ok1: "fs_ok (Suc n) ?fs pin" using P(3) by simp
  have len: "length filename < 2 ^ 32" using mem(2) by simp
  have v: "value_ok h filename" "?v = mk_value h filename data"
    using InitInodeValue_mk [OF mem(1) len, of inum mode dev "fs_owner fs" "time_now fs"]
    by (simp_all add: h_def mk_value_def)
  have len_v: "length ?v < 2 ^ 32" unfolding v(2) using mem(2) by (simp add: length_mk_value [OF v(1)])
  have pre: "quiet (fs_ic ?fs) pin key" "fs_view ?fs key = None"
    using quiet_pathD(2) [OF q k] new by simp_all
  obtain ad where A: "Adaptor_Put (metadb ?fs) (ToSlice key) ?v = (ad, 0)"
    "fs_ok n (set_metadb ?fs ad) pin" "fs_view (set_metadb ?fs ad) = (fs_view ?fs)(key \<mapsto> ?v)"
    "quieter (fs_ic ?fs) (fs_ic (set_metadb ?fs ad)) pin" "ad_now ad = ad_now (metadb ?fs)"
    by (rule put_new [OF ok1 pre v len_v]) (rule that)
  show ?thesis
  proof (rule that)
    show "PathLookup_filename fs path = Some (fs\<lparr>fs_dcache := dc, fs_errno := e\<rparr>, Some (key, filename))"
      using P(2) k by simp
    show "NewInode px (fs\<lparr>fs_dcache := dc, fs_errno := e\<rparr>) = Some (?fs, inum)"
      using st by (simp add: NewInode_def)
    show "Adaptor_Put (metadb fs) (ToSlice key) ?v = (ad, 0)" using A(1) by simp
    show "fs_view (set_metadb ?fs ad) = (fs_view fs)(key \<mapsto> mk_value h filename data)"
      using A(3) v(2) by simp
    show "quieter (fs_ic fs) ((fs_ic fs)\<lparr>ic_metadb := ad\<rparr>) pin" using A(4) by simp
  qed (rule A(2))
qed

lemma make_inode_ok:
  fixes fs :: "'d TableFS"
  assumes ok: "fs_ok (Suc n) fs pin" and free: "free_name fs pin path key filename"
    and st: "State_NewInode px (fs_state fs) (fs_disk fs) = Some ((st, inum), d)"
    and mem: "257 + length filename \<le> length mem" "257 + length filename < 2 ^ 32"
  shows "\<exists>fs'. make_inode px fs path mode dev mem = Some (fs', 0) \<and> fs_ok n fs' pin \<and>
    quieter (fs_ic fs) (fs_ic fs') pin \<and> fs_state fs' = st \<and> fs_disk fs' = d \<and>
    fs_view fs' = (fs_view fs)(key \<mapsto>
      mk_value (init_header mem inum mode dev filename (fs_owner fs) (time_now fs)) filename [])"
proof -
  have mem2: "257 + length filename + length ([] :: bytes) < 2 ^ 32" using mem(2) by simp
  let ?v = "InitInodeValue mem inum mode dev filename (fs_owner fs) (time_now fs)"
  obtain dc e ad where C:
    "PathLookup_filename fs path = Some (fs\<lparr>fs_dcache := dc, fs_errno := e\<rparr>, Some (key, filename))"
    "NewInode px (fs\<lparr>fs_dcache := dc, fs_errno := e\<rparr>) =
       Some (fs\<lparr>fs_dcache := dc, fs_errno := e, fs_state := st, fs_disk := d\<rparr>, inum)"
    "Adaptor_Put (metadb fs) (ToSlice key) (?v @ []) = (ad, 0)"
    "fs_ok n (set_metadb (fs\<lparr>fs_dcache := dc, fs_errno := e, fs_state := st, fs_disk := d\<rparr>) ad) pin"
    "fs_view (set_metadb (fs\<lparr>fs_dcache := dc, fs_errno := e, fs_state := st, fs_disk := d\<rparr>) ad) =
       (fs_view fs)(key \<mapsto> mk_value (init_header mem inum mode dev filename (fs_owner fs) (time_now fs)) filename [])"
    "quieter (fs_ic fs) ((fs_ic fs)\<lparr>ic_metadb := ad\<rparr>) pin"
    by (rule create_entry [OF ok free st mem(1) mem2]) (rule that)
  have "make_inode px fs path mode dev mem =
      Some (set_metadb (fs\<lparr>fs_dcache := dc, fs_errno := e, fs_state := st, fs_disk := d\<rparr>) ad, 0)"
    using C(1-3) by (simp add: make_inode_def time_now_def)
  then show ?thesis using C(4-6) by simp
qed

lemma Symlink_ok:
  fixes fs :: "'d TableFS"
  assumes ok: "fs_ok (Suc n) fs pin" and free: "free_name fs pin path key filename"
    and st: "State_NewInode px (fs_state fs) (fs_disk fs) = Some ((st, inum), d)"
    and mem: "257 + length filename \<le> length mem" "257 + length filename + length target < 2 ^ 32"
  shows "\<exists>fs'. TableFS_Symlink px fs target path mem = Some (fs', 0) \<and> fs_ok n fs' pin \<and>
    quieter (fs_ic fs) (fs_ic fs') pin \<and> fs_state fs' = st \<and> fs_disk fs' = d \<and>
    fs_view fs' = (fs_view fs)(key \<mapsto>
      mk_value (init_header mem inum S_IFLNK 0 filename (fs_owner fs) (time_now fs)) filename target)"
proof -
  let ?v = "InitInodeValue mem inum S_IFLNK 0 filename (fs_owner fs) (time_now fs)"
  obtain dc e ad where C:
    "PathLookup_filename fs path = Some (fs\<lparr>fs_dcache := dc, fs_errno := e\<rparr>, Some (key, filename))"
    "NewInode px (fs\<lparr>fs_dcache := dc, fs_errno := e\<rparr>) =
       Some (fs\<lparr>fs_dcache := dc, fs_errno := e, fs_state := st, fs_disk := d\<rparr>, inum)"
    "Adaptor_Put (metadb fs) (ToSlice key) (?v @ target) = (ad, 0)"
    "fs_ok n (set_metadb (fs\<lparr>fs_dcache := dc, fs_errno := e, fs_state := st, fs_disk := d\<rparr>) ad) pin"
    "fs_view (set_metadb (fs\<lparr>fs_dcache := dc, fs_errno := e, fs_state := st, fs_disk := d\<rparr>) ad) =
       (fs_view fs)(key \<mapsto> mk_value (init_header mem inum S_IFLNK 0 filename (fs_owner fs) (time_now fs)) filename target)"
    "quieter (fs_ic fs) ((fs_ic fs)\<lparr>ic_metadb := ad\<rparr>) pin"
    by (rule create_entry [OF ok free st mem]) (rule that)
  have "TableFS_Symlink px fs target path mem =
      Some (set_metadb (fs\<lparr>fs_dcache := dc, fs_errno := e, fs_state := st, fs_disk := d\<rparr>) ad, 0)"
    using C(1-3) by (simp add: TableFS_Symlink_def time_now_def)
  then show ?thesis using C(4-6) by simp
qed

lemma created_lookup:
  assumes "free_name fs pin path key filename" "fs_view fs' = (fs_view fs)(key \<mapsto> v)"
  shows "path_key fs' path = Some (key, filename)" "fs_lookup fs' path = Some v"
proof -
  have "fs_view fs \<subseteq>\<^sub>m fs_view fs'"
    using assms view_grows [of "fs_view fs" key v] by (simp add: free_name_def)
  then show k: "path_key fs' path = Some (key, filename)"
    using path_key_mono assms(1) by (auto simp: free_name_def)
  show "fs_lookup fs' path = Some v" using assms(2) by (simp add: fs_lookup_def k)
qed

lemma Readlink_ok:
  assumes ok: "fs_ok n fs pin" and p: "abs_path path" and v: "fs_lookup fs path = Some (mk_value h name data)"
    and h: "value_ok h name" and sz: "0 < unat sz" "unat sz < 2 ^ 62"
  shows "\<exists>fs'. TableFS_Readlink fs path sz = Some (fs', 0, Some (take (unat sz - 1) data @ [0])) \<and>
    fs_ok n fs' pin \<and> fs_view fs' = fs_view fs"
proof -
  obtain dc e where P:
    "PathLookup fs path = Some (fs\<lparr>fs_dcache := dc, fs_errno := e\<rparr>, map_option fst (path_key fs path))"
    "PathLookup_filename fs path = Some (fs\<lparr>fs_dcache := dc, fs_errno := e\<rparr>, path_key fs path)"
    "fs_ok n (fs\<lparr>fs_dcache := dc\<rparr>) pin" "path_key fs path = None \<Longrightarrow> e = ENOENT"
    by (rule PathLookup_ok [OF ok p]) (rule that)
  obtain key name' where k: "path_key fs path = Some (key, name')" "fs_view fs key = Some (mk_value h name data)"
    using v by (auto simp: fs_lookup_def bind_eq_Some_conv)
  have "sz \<noteq> 0" using sz(1) by auto
  then have "unat (sz - 1) = unat sz - 1" by (rule unat_minus_one)
  then have "GetInlineData (mk_value h name data) 0 (sz - 1) = take (unat sz - 1) data"
    using GetInlineData_mk [OF h, of 0 "sz - 1" data] sz by simp
  moreover have "Adaptor_Get (metadb fs) (ToSlice key) = (1, mk_value h name data)"
    using Adaptor_Get_eq [OF fs_okD(4) [OF ok], of "ToSlice key"] k(2) by (simp add: fs_view_def)
  ultimately have "TableFS_Readlink fs path sz =
      Some (fs\<lparr>fs_dcache := dc, fs_errno := e\<rparr>, 0, Some (take (unat sz - 1) data @ [0]))"
    using P(1) k(1) by (simp add: TableFS_Readlink_def)
  then show ?thesis using P(3) by simp
qed

section \<open>Renaming\<close>

lemma rename_view:
  assumes "old \<noteq> new" "value_ok h name" "well_formed m" "value_ok h' name'"
  shows "well_formed (m(old := None, new \<mapsto> mk_value h' name' data))"
  using well_formed_update [OF well_formed_delete [OF assms(3)] assms(4) refl] .

lemma fs_ok_evict2:
  assumes ok: "fs_ok m fs pin" and ic: "ic_ok n ic pin' {}"
    and view: "\<And>k. ad_lookup (ic_metadb ic) (ToSlice k) = view k" and wf: "well_formed view"
    and other: "\<And>k. k \<noteq> old \<Longrightarrow> k \<noteq> new \<Longrightarrow> view k = fs_view fs k"
  shows "fs_ok n (dcache_Evict (dcache_Evict (set_ic fs ic) old) new) pin'"
    and "fs_view (dcache_Evict (dcache_Evict (set_ic fs ic) old) new) = view"
proof -
  let ?fs = "dcache_Evict (dcache_Evict (set_ic fs ic) old) new"
  have v: "fs_view ?fs = view"
    by (rule ext) (simp add: fs_view_def metadb_def set_ic_def dcache_Evict_def view)
  define t where "t = (\<lambda>k. if k = old then dentries (ic_metadb ic) old else dentries (metadb fs) k)"
  have "dentry.agrees (fs_dcache fs) (dentries (metadb fs))"
    using ok by (simp add: fs_ok_def fs_agrees_def metadb_def)
  then have 1: "dentry.agrees (DentryCache_Evict (fs_dcache fs) old) t"
    by (rule dentry.evict_agrees) (simp add: t_def)
  have "dentry.agrees (DentryCache_Evict (DentryCache_Evict (fs_dcache fs) old) new) (dentries (ic_metadb ic))"
    by (rule dentry.evict_agrees [OF 1]) (use other in \<open>auto simp: t_def dentries_def view fs_view_def\<close>)
  then have "fs_agrees ?fs" by (simp add: fs_agrees_def set_ic_def dcache_Evict_def)
  then show "fs_ok n ?fs pin'" using ic wf v by (simp add: fs_ok_def set_ic_def dcache_Evict_def)
  show "fs_view ?fs = view" by (rule v)
qed

lemma Rename_ok:
  fixes fs :: "'d TableFS"
  assumes ok: "fs_ok (n + 4) fs pin" and q: "quiet_path fs pin old_path" "quiet_path fs pin new_path"
    and old: "path_key fs old_path = Some (old, old_name)" "fs_view fs old = Some (mk_value h name data)"
    and new: "path_key fs new_path = Some (new, filename)" "old \<noteq> new"
    and h: "value_ok h name" and len: "258 + length filename + length data < 2 ^ 32" "length name < 2 ^ 32 - 1"
  shows "\<exists>fs'. TableFS_Rename fs old_path new_path = Some (fs', 0) \<and> fs_ok n fs' pin \<and>
    quieter (fs_ic fs) (fs_ic fs') pin \<and> fs_state fs' = fs_state fs \<and> fs_disk fs' = fs_disk fs \<and>
    fs_view fs' = (fs_view fs)(old := None,
      new \<mapsto> mk_value (h\<lparr>namelen := of_nat (length filename)\<rparr>) filename data)"
proof -
  let ?v = "mk_value h name data" and ?h = "h\<lparr>namelen := of_nat (length filename)\<rparr>"
  let ?nv = "mk_value ?h filename data"
  have fl: "length filename < 2 ^ 32" using len(1) by simp
  note R = InitInodeValue_rename_mk [OF h len(2) fl]
  have len_v: "length ?nv < 2 ^ 32" using len(1) by (simp add: length_mk_value [OF R(2)])
  obtain dc e where P:
    "PathLookup fs old_path = Some (fs\<lparr>fs_dcache := dc, fs_errno := e\<rparr>, map_option fst (path_key fs old_path))"
    "PathLookup_filename fs old_path = Some (fs\<lparr>fs_dcache := dc, fs_errno := e\<rparr>, path_key fs old_path)"
    "fs_ok (n + 4) (fs\<lparr>fs_dcache := dc\<rparr>) pin" "path_key fs old_path = None \<Longrightarrow> e = ENOENT"
    by (rule PathLookup_ok [OF ok quiet_pathD(1) [OF q(1)]]) (rule that)
  let ?fs1 = "fs\<lparr>fs_dcache := dc, fs_errno := e\<rparr>"
  have ok1: "fs_ok (n + 4) ?fs1 pin" using P(3) by simp
  obtain dc2 e2 where P2:
    "PathLookup ?fs1 new_path = Some (?fs1\<lparr>fs_dcache := dc2, fs_errno := e2\<rparr>, map_option fst (path_key ?fs1 new_path))"
    "PathLookup_filename ?fs1 new_path = Some (?fs1\<lparr>fs_dcache := dc2, fs_errno := e2\<rparr>, path_key ?fs1 new_path)"
    "fs_ok (n + 4) (?fs1\<lparr>fs_dcache := dc2\<rparr>) pin" "path_key ?fs1 new_path = None \<Longrightarrow> e2 = ENOENT"
    by (rule PathLookup_ok [OF ok1 quiet_pathD(1) [OF q(2)]]) (rule that)
  let ?fs2 = "?fs1\<lparr>fs_dcache := dc2, fs_errno := e2\<rparr>"
  have ok2: "fs_ok (n + 4) ?fs2 pin" by (rule iffD2 [OF fs_ok_sel(1) P2(3)])
  have v: "ad_lookup (ic_metadb (fs_ic fs)) (ToSlice old) = Some ?v"
    using old(2) by (simp add: fs_view_def metadb_def)
  obtain ic1 h1 e1 ic2 h2 ic3 ic4 ic5 ic6 where M:
    "InodeCache_Get (fs_ic fs) old INODE_DELETE = Some (ic1, Some h1)"
    "ic_handles ic1 h1 = Some \<lparr>ih_key = old, ih_value = ?v, ih_mode = INODE_DELETE, ih_pointer = Some e1\<rparr>"
    "InodeCache_Insert ic1 new ?nv = Some (ic2, h2)" "InodeCache_BatchCommit ic2 h1 h2 = Some ic3"
    "InodeCache_Release ic3 h2 = Some ic4" "InodeCache_Release ic4 h1 = Some ic5"
    "InodeCache_Evict ic5 old = Some ic6" "ic_ok n ic6 pin {}"
    "ad_lookup (ic_metadb ic6) = (ad_lookup (ic_metadb (fs_ic fs)))(ToSlice old := None, ToSlice new \<mapsto> ?nv)"
    "ad_now (ic_metadb ic6) = ad_now (ic_metadb (fs_ic fs))" "quieter (fs_ic fs) ic6 pin"
    by (rule rename_quiet [OF fs_okD(1) [OF ok] quiet_pathD(2) [OF q(1) old(1)] quiet_pathD(2) [OF q(2) new(1)]
          new(2) v fs_value(1) [OF ok old(2)] len_v]) (rule that)
  have view: "ad_lookup (ic_metadb ic6) (ToSlice k) = ((fs_view fs)(old := None, new \<mapsto> ?nv)) k" for k
    by (simp add: M(9) fs_view_def metadb_def)
  let ?fs' = "dcache_Evict (dcache_Evict (set_ic ?fs2 ic6) old) new"
  note E = fs_ok_evict2 [OF ok2 M(8), where view = "(fs_view fs)(old := None, new \<mapsto> ?nv)" and old = old and new = new,
      OF view rename_view [OF new(2) h fs_ok_wf [OF ok] R(2)]]
  have "fs_ok n ?fs' pin" by (rule E(1)) simp
  moreover have "fs_view ?fs' = (fs_view fs)(old := None, new \<mapsto> ?nv)" by (rule E(2)) simp
  moreover have "TableFS_Rename fs old_path new_path = Some (?fs', 0)"
    using P(1) P2(2) old(1) new(1) M(1-7) R(1) by (simp add: TableFS_Rename_def)
  ultimately show ?thesis using M(11) by (simp add: dcache_Evict_def set_ic_def)
qed

end
