(* ===== verification/Fs_Open.thy ===== *)
theory Fs_Open
  imports Fs_Names
begin

text \<open>
  Open files whose data is kept in the inode value (\<^verbatim>\<open>Open\<close>, \<^verbatim>\<open>Read\<close>, \<^verbatim>\<open>Write\<close> and
  \<^verbatim>\<open>Release\<close> of \<^verbatim>\<open>fs/tablefs.cpp\<close>).
  \<^item> \<open>open_handle fs pin f fh handle\<close> says that \<open>f\<close> is the file handle \<open>fh\<close> of an open file,
    holding the only reference to the inode handle; \<open>open_file\<close> that it has no descriptor.
  \<^item> A write changes the handle and not the database: the view is the same until
    \<^verbatim>\<open>Release\<close> writes the value back.
\<close>

definition open_handle ::
  "'d TableFS \<Rightarrow> (nat \<Rightarrow> nat) \<Rightarrow> nat \<Rightarrow> tfs_file_handle_t \<Rightarrow> InodeCacheHandle \<Rightarrow> bool" where
  "open_handle fs pin f fh handle \<longleftrightarrow>
     fs_fhs fs f = Some fh \<and> pin (fh_handle fh) = 1 \<and>
     ic_handles (fs_ic fs) (fh_handle fh) = Some handle \<and> alone (fs_ic fs) (fh_handle fh) \<and>
     length (ih_value handle) < 2 ^ 32"

definition open_file ::
  "'d TableFS \<Rightarrow> (nat \<Rightarrow> nat) \<Rightarrow> nat \<Rightarrow> tfs_file_handle_t \<Rightarrow> InodeCacheHandle \<Rightarrow> bool" where
  "open_file fs pin f fh handle \<longleftrightarrow> open_handle fs pin f fh handle \<and> fh_fd fh = -1"

lemma open_handleD:
  assumes "open_handle fs pin f fh handle"
  shows "fs_fhs fs f = Some fh" "pin (fh_handle fh) = 1"
    "ic_handles (fs_ic fs) (fh_handle fh) = Some handle" "handle_at fs (fh_handle fh) = Some handle"
    "alone (fs_ic fs) (fh_handle fh)" "length (ih_value handle) < 2 ^ 32"
  using assms by (auto simp: open_handle_def handle_at_def)

lemma open_fileD:
  assumes "open_file fs pin f fh handle"
  shows "fs_fhs fs f = Some fh" "fh_fd fh = -1" "pin (fh_handle fh) = 1"
    "ic_handles (fs_ic fs) (fh_handle fh) = Some handle" "handle_at fs (fh_handle fh) = Some handle"
    "alone (fs_ic fs) (fh_handle fh)" "length (ih_value handle) < 2 ^ 32"
  using assms by (auto simp: open_file_def open_handle_def handle_at_def)

definition open_mode :: "u32 \<Rightarrow> InodeAccessMode" where
  "open_mode flags = (if flags AND O_RDWR \<noteq> 0 \<or> flags AND O_WRONLY \<noteq> 0 \<or> flags AND O_TRUNC \<noteq> 0
     then INODE_WRITE else INODE_READ)"

section \<open>Opening\<close>

lemma Open_inline:
  fixes fs :: "'d TableFS"
  assumes ok: "fs_ok n fs pin" and q: "quiet_path fs pin path" and k: "path_key fs path = Some (key, filename)"
    and v: "fs_view fs key = Some (mk_value hh name data)" "value_ok hh name" "has_blob hh = 0"
  obtains fs' f fh p where "TableFS_Open px fs path flags = Some (fs', 0, Some f)"
    "pin (fh_handle fh) = 0" "fs_ok n fs' (pin(fh_handle fh := 1))" "fs_view fs' = fs_view fs"
    "open_file fs' (pin(fh_handle fh := 1)) f fh
       \<lparr>ih_key = key, ih_value = mk_value hh name data, ih_mode = open_mode flags, ih_pointer = Some p\<rparr>"
    "fs_state fs' = fs_state fs" "ad_now (metadb fs') = ad_now (metadb fs)"
    "quieter (fs_ic fs) (fs_ic fs') pin" "fs_disk fs' = fs_disk fs"
proof -
  let ?v = "mk_value hh name data"
  obtain dc e where P:
    "PathLookup fs path = Some (fs\<lparr>fs_dcache := dc, fs_errno := e\<rparr>, map_option fst (path_key fs path))"
    "PathLookup_filename fs path = Some (fs\<lparr>fs_dcache := dc, fs_errno := e\<rparr>, path_key fs path)"
    "fs_ok n (fs\<lparr>fs_dcache := dc\<rparr>) pin" "path_key fs path = None \<Longrightarrow> e = ENOENT"
    by (rule PathLookup_ok [OF ok quiet_pathD(1) [OF q]]) (rule that)
  let ?fs1 = "fs\<lparr>fs_dcache := dc, fs_errno := e\<rparr>"
  have ok1: "fs_ok n ?fs1 pin" using P(3) by simp
  have look: "ad_lookup (ic_metadb (fs_ic fs)) (ToSlice key) = Some ?v"
    using v(1) by (simp add: fs_view_def metadb_def)
  obtain ic h p where G: "InodeCache_Get (fs_ic fs) key (open_mode flags) = Some (ic, Some h)" "pin h = 0"
    "ic_handles ic h = Some \<lparr>ih_key = key, ih_value = ?v, ih_mode = open_mode flags, ih_pointer = Some p\<rparr>"
    "ic_ok n ic (pin(h := 1)) {}" "ic_metadb ic = ic_metadb (fs_ic fs)" "alone ic h"
    "\<And>g handle. g \<noteq> h \<Longrightarrow> ic_handles ic g = Some handle \<Longrightarrow> ic_handles (fs_ic fs) g = Some handle"
    "\<And>g. 0 < pin g \<Longrightarrow> ic_handles ic g = ic_handles (fs_ic fs) g"
    using Get_quiet [OF fs_okD(1) [OF ok] quiet_pathD(2) [OF q k], of "open_mode flags"] look by auto
  let ?fh = "\<lparr>fh_handle = h, fh_flags = flags, fh_fd = -1\<rparr>"
  let ?fs2 = "(set_ic ?fs1 ic)\<lparr>fs_fhs := (fs_fhs fs)(fs_brk fs \<mapsto> ?fh), fs_brk := Suc (fs_brk fs)\<rparr>"
  have ok2: "fs_ok n (set_ic ?fs1 ic) (pin(h := 1))" "fs_view (set_ic ?fs1 ic) = fs_view fs"
    using fs_ok_ic_same [OF ok1 G(4)] G(5) by simp_all
  have ok3: "fs_ok n ?fs2 (pin(h := 1))"
    using ok2(1) by (simp add: fs_ok_def fs_agrees_def fs_view_def fun_eq_iff metadb_def well_formed_def)
  have open_res: "TableFS_Open px fs path flags = Some (?fs2, 0, Some (fs_brk fs))"
    using P(1) k G(1,3) v(2,3) unfolding TableFS_Open_def open_mode_def [symmetric]
    by (simp add: handle_at_def new_fh_def set_ic_def)
  have of: "open_file ?fs2 (pin(h := 1)) (fs_brk fs) ?fh
      \<lparr>ih_key = key, ih_value = ?v, ih_mode = open_mode flags, ih_pointer = Some p\<rparr>"
    using G(3,6) fs_value(1) [OF ok v(1)] by (simp add: open_file_def open_handle_def set_ic_def)
  have view3: "fs_view ?fs2 = fs_view fs"
    using ok2(2) by (simp add: fs_view_def fun_eq_iff metadb_def)
  have qr: "quieter (fs_ic fs) (fs_ic ?fs2) pin"
    using G(2,7,8) by (intro quieterI) (auto simp: set_ic_def)
  show ?thesis
  proof (rule that [OF open_res])
    show "pin (fh_handle ?fh) = 0" using G(2) by simp
    show "fs_ok n ?fs2 (pin(fh_handle ?fh := 1))" using ok3 by (simp del: fun_upd_apply)
    show "open_file ?fs2 (pin(fh_handle ?fh := 1)) (fs_brk fs) ?fh
        \<lparr>ih_key = key, ih_value = ?v, ih_mode = open_mode flags, ih_pointer = Some p\<rparr>"
      using of by (simp del: fun_upd_apply)
    show "ad_now (metadb ?fs2) = ad_now (metadb fs)" using G(5) by (simp add: metadb_def set_ic_def)
    show "fs_state ?fs2 = fs_state fs" "fs_disk ?fs2 = fs_disk fs" by (simp_all add: set_ic_def)
  qed (rule view3 qr)+
qed

section \<open>Reading and writing\<close>

lemma to_int_small: "0 \<le> i \<Longrightarrow> i < 2 ^ 31 \<Longrightarrow> to_int i = i"
  by (simp add: to_int_def sint_uint uint_word_of_int take_bit_int_eq_self signed_take_bit_int_eq_self)

lemma Read_inline:
  assumes "open_file fs pin f fh handle" "ih_value handle = mk_value hh name data" "value_ok hh name"
    and "has_blob hh = 0" "unat off < 2 ^ 62" "unat sz < 2 ^ 62" "length data < 2 ^ 31"
  shows "TableFS_Read px fs f sz off =
    Some (fs, int (length (take (unat sz) (drop (unat off) data))), take (unat sz) (drop (unat off) data))"
proof -
  let ?buf = "take (unat sz) (drop (unat off) data)"
  have "to_int (int (length ?buf)) = int (length ?buf)"
    using assms(7) by (intro to_int_small) simp_all
  then show ?thesis
    using open_fileD [OF assms(1)] assms(2-6) by (simp add: TableFS_Read_def GetInlineData_mk Let_def)
qed

text \<open>The header after a write: the size grows, compared unsigned, to the end of the data written.\<close>

definition grown :: "tfs_inode_header \<Rightarrow> u64 \<Rightarrow> tfs_inode_header" where
  "grown h n = (if st_size (fstat h) < n then h\<lparr>fstat := (fstat h)\<lparr>st_size := n\<rparr>\<rparr> else h)"

lemma value_ok_grown: "value_ok h name \<Longrightarrow> value_ok (grown h n) name"
  by (simp add: grown_def value_ok_def header_ok_def stat_ok_def)

lemma fs_ok_handles:
  assumes "fs_ok n fs pin" "ic_ok n ic pin {}" "ic_metadb ic = ic_metadb (fs_ic fs)"
  shows "fs_ok n (set_ic fs ic) pin" and "fs_view (set_ic fs ic) = fs_view fs"
  using fs_ok_ic_same [OF assms] by simp_all

lemma unat_plus_of_nat:
  "unat (w :: u64) + k < 2 ^ 64 \<Longrightarrow> unat (w + of_nat k) = unat w + k"
  by (simp add: unat_word_ariths unat_of_nat mod_add_right_eq)

lemma unat_of_small_int:
  assumes "0 \<le> i" "i < 2 ^ 31"
  shows "unat (word_of_int i :: u64) = nat i"
proof -
  obtain n where n: "i = int n" using assms(1) nonneg_int_cases by blast
  then have "n < 2 ^ 31" using assms(2) by simp
  then show ?thesis by (simp add: n unat_of_nat take_bit_nat_eq_self)
qed

lemma Write_inline:
  fixes fs :: "'d TableFS"
  assumes ok: "fs_ok n fs pin" and of: "open_file fs pin f fh handle"
    and v: "ih_value handle = mk_value hh name data" "value_ok hh name" "has_blob hh = 0"
    and room: "int (unat off + length buf) \<le> threshold (fs_state fs)" "threshold (fs_state fs) < 2 ^ 31"
    and len: "257 + length name + max (length data) (unat off + length buf) < 2 ^ 32"
  obtains fs' where "TableFS_Write px fs f buf off flags = Some (fs', int (length buf))"
    "fs_ok n fs' pin" "fs_view fs' = fs_view fs" "fs_state fs' = fs_state fs"
    "open_file fs' pin f fh (handle\<lparr>ih_mode := INODE_WRITE,
       ih_value := mk_value (grown hh (off + of_nat (length buf))) name (write_at data (unat off) buf)\<rparr>)"
    "metadb fs' = metadb fs" "\<And>g. g \<noteq> fh_handle fh \<Longrightarrow> handle_at fs' g = handle_at fs g"
proof -
  note O = open_fileD [OF of]
  let ?h = "fh_handle fh" and ?n = "off + of_nat (length buf) :: u64"
  have p: "0 < pin ?h" using O(3) by simp
  have "int (unat off + length buf) < int (2 ^ 31)" using order.strict_trans1 [OF room] by simp
  then have small: "unat off + length buf < 2 ^ 31" by (simp only: of_nat_less_iff)
  have off: "unat off < 2 ^ 63" using small by simp
  have n: "unat ?n = unat off + length buf" by (rule unat_plus_of_nat) (use small in simp)
  have thr: "\<not> word_of_int (threshold (fs_state fs)) < ?n"
  proof -
    have "unat (word_of_int (threshold (fs_state fs)) :: u64) = nat (threshold (fs_state fs))"
      by (rule unat_of_small_int) (use room order_trans [OF of_nat_0_le_iff room(1)] in simp_all)
    moreover have "unat off + length buf \<le> nat (threshold (fs_state fs))"
      using room(1) by (simp only: le_nat_iff)
    ultimately show ?thesis by (simp only: word_less_nat_alt n not_less)
  qed
  have ret: "to_int (uint (of_nat (length buf) :: u64)) = int (length buf)"
    using small to_int_small [of "int (length buf)"]
    by (simp add: unsigned_of_nat take_bit_nat_eq_self take_bit_int_eq_self)
  let ?d = "write_at data (unat off) buf"
  let ?v1 = "mk_value hh name ?d" and ?v2 = "mk_value (grown hh ?n) name ?d"
  let ?ic1 = "set_value (set_mode (fs_ic fs) ?h INODE_WRITE) ?h ?v1"
  let ?ic2 = "if st_size (fstat hh) < ?n then set_value ?ic1 ?h ?v2 else ?ic1"
  have upd: "UpdateInlineData (mk_value hh name data) buf off = ?v1"
    by (rule UpdateInlineData_mk [OF v(2) off])
  have upd2: "UpdateInodeHeader ?v1 (hh\<lparr>fstat := (fstat hh)\<lparr>st_size := ?n\<rparr>\<rparr>) = ?v2" if "st_size (fstat hh) < ?n"
    using that v(2) by (simp add: grown_def UpdateInodeHeader_mk value_ok_def header_ok_def stat_ok_def)
  have W: "TableFS_Write px fs f buf off flags = Some (set_ic fs ?ic2, int (length buf))"
    using O(1,4,5) v thr ret upd upd2
    by (simp add: TableFS_Write_def handle_at_def update_header_def Let_def)
  have ic1: "ic_ok n ?ic1 pin {}" by (intro set_value_ok set_mode_ok fs_okD(1) [OF ok] p)
  then have ic2: "ic_ok n ?ic2 pin {}" using set_value_ok [OF ic1 p] by simp
  have eq: "ic_metadb ?ic2 = ic_metadb (fs_ic fs)" by simp
  have len_v: "length ?v2 < 2 ^ 32"
    using len by (simp add: length_mk_value [OF value_ok_grown [OF v(2)]] length_write_at)
  have al: "alone ?ic2 ?h" by (rule alone_keys [OF O(6)]) (simp add: option.map_comp comp_def)
  have of': "open_file (set_ic fs ?ic2) pin f fh (handle\<lparr>ih_mode := INODE_WRITE, ih_value := ?v2\<rparr>)"
    using O(1,2,3,4) al len_v by (simp add: open_file_def open_handle_def grown_def)
  show ?thesis
    by (rule that [OF W fs_ok_handles [OF ok ic2 eq] _ of']) (simp_all add: metadb_def handle_at_def)
qed

section \<open>Closing\<close>

definition touched :: "tfs_inode_header \<Rightarrow> u64 \<Rightarrow> tfs_inode_header" where
  "touched h now = h\<lparr>fstat := (fstat h)\<lparr>st_atim_sec := now, st_mtim_sec := now\<rparr>\<rparr>"

lemma value_ok_touched: "value_ok h name \<Longrightarrow> value_ok (touched h now) name"
  by (simp add: touched_def value_ok_def header_ok_def stat_ok_def)

lemma Release_then_evict:
  assumes ok: "ic_ok (Suc n) ic (pin(h := 1)) {}" and pin: "pin h = 0"
    and h: "ic_handles ic h = Some handle" "length (ih_value handle) < 2 ^ 32" "alone ic h"
    and clean: "clean_handle (ic_metadb ic) handle"
  obtains ic1 ic2 where "InodeCache_Release ic h = Some ic1" "InodeCache_Evict ic1 (ih_key handle) = Some ic2"
    "ic_ok n ic2 pin {}" "ic_metadb ic2 = ic_metadb ic" "ic_handles ic2 \<subseteq>\<^sub>m ic_handles ic"
    "\<And>g. 0 < pin g \<Longrightarrow> ic_handles ic2 g = ic_handles ic g"
proof -
  obtain ic1 where R: "InodeCache_Release ic h = Some ic1" "ic_ok (Suc n) ic1 pin {}"
    "ic_metadb ic1 = ic_metadb ic" "ic_handles ic1 \<subseteq>\<^sub>m ic_handles ic"
    "\<And>g. 0 < pin g \<Longrightarrow> ic_handles ic1 g = ic_handles ic g"
    by (rule Release_clean [OF ok pin h clean]) (rule that)
  have h1: "length (ih_value hx) < 2 ^ 32 \<and> ih_key hx = ih_key handle" if hx: "ic_handles ic1 h = Some hx" for hx
    using map_le_Some [OF R(4) hx] h(1,2) by simp
  have ok1: "ic_ok (Suc n) ic1 pin {h}" by (rule ic_ok_weaken [OF R(2)]) simp_all
  obtain ic2 where E: "InodeCache_Evict ic1 (ih_key handle) = Some ic2" "ic_handles ic2 \<subseteq>\<^sub>m ic_handles ic1"
    "\<forall>g. 0 < pin g \<longrightarrow> ic_handles ic2 g = ic_handles ic1 g" and
    alt: "if 0 < pin h \<or> ic_handles ic1 h = None then ic_metadb ic2 = ic_metadb ic1 \<and> ic_ok (Suc n) ic2 pin {}
     else ic_handles ic2 h = None \<and> ic_metadb ic2 = write_handle (the (ic_handles ic1 h)) (ic_metadb ic1) \<and>
       ic_ok n ic2 pin {}"
    using InodeCache_Evict_ok [OF ok1 h1 alone_le [OF h(3) R(4)]] by blast
  have "write_handle hx (ic_metadb ic1) = ic_metadb ic1" if hx: "ic_handles ic1 h = Some hx" for hx
    using map_le_Some [OF R(4) hx] h(1) clean by (simp add: clean_handle_def write_handle_def)
  then have "ic_metadb ic2 = ic_metadb ic1 \<and> ic_ok n ic2 pin {}"
    using alt ic_ok_less [of "Suc n" ic2 pin "{}" n] by (cases "ic_handles ic1 h") (auto split: if_splits)
  then show ?thesis
    using that [OF R(1) E(1)] E(2,3) R(3-5) map_le_trans [OF E(2) R(4)] by simp
qed

lemma Release_file_ok:
  fixes fs :: "'d TableFS"
  assumes ok: "fs_ok (Suc (Suc n)) fs (pin(fh_handle fh := 1))" and pin: "pin (fh_handle fh) = 0"
    and of: "open_handle fs (pin(fh_handle fh := 1)) f fh handle"
    and cl: "(if fh_fd fh \<noteq> -1 then px_close px (fh_fd fh) (fs_disk fs) else (0, fs_disk fs)) = (0, d)"
    and v: "ih_value handle = mk_value hh name data" "value_ok hh name" "ih_mode handle = INODE_WRITE"
    and old: "fs_view fs (ih_key handle) = Some v0" "st_ino (GetAttribute v0) = st_ino (fstat hh)"
  obtains fs' where "TableFS_Release px fs f = Some (fs', 0)" "fs_ok n fs' pin"
    "fs_view fs' = (fs_view fs)(ih_key handle \<mapsto> mk_value (touched hh (time_now fs)) name data)"
    "fs_fhs fs' f = None" "fs_state fs' = fs_state fs" "fs_disk fs' = d"
    "\<And>g. 0 < pin g \<Longrightarrow> handle_at fs' g = handle_at fs g"
proof -
  note O = open_handleD [OF of]
  let ?h = "fh_handle fh" and ?hd = "touched hh (time_now fs)"
  let ?v = "mk_value ?hd name data" and ?ic = "fs_ic fs" and ?key = "ih_key handle"
  have p: "0 < (pin(?h := 1)) ?h" by simp
  have upd: "UpdateAttribute (ih_value handle) ((GetAttribute (ih_value handle))
      \<lparr>st_atim_sec := time_now fs, st_mtim_sec := time_now fs\<rparr>) = ?v"
    using v(1,2) by (simp add: UpdateAttribute_mk touched_def value_ok_def header_ok_def stat_ok_def)
  have len: "length ?v < 2 ^ 32"
    using O(6) unfolding v(1) by (simp add: length_mk_value [OF v(2)] length_mk_value [OF value_ok_touched [OF v(2)]])
  let ?ic1 = "set_value ?ic ?h ?v"
  have h1: "ic_handles ?ic1 ?h = Some (handle\<lparr>ih_value := ?v\<rparr>)" using O(3) by simp
  have al1: "alone ?ic1 ?h" by (rule alone_keys [OF O(5)]) (simp add: O(3))
  obtain ic2 where W: "InodeCache_WriteBack ?ic1 ?h = Some ic2" "ic_ok (Suc n) ic2 (pin(?h := 1)) {}"
    "ic_handles ic2 = (ic_handles ?ic1)(?h \<mapsto> (handle\<lparr>ih_value := ?v\<rparr>)\<lparr>ih_mode := INODE_READ\<rparr>)"
    "ad_lookup (ic_metadb ic2) = (ad_lookup (ic_metadb ?ic))(ToSlice ?key \<mapsto> ?v)"
    using WriteBack_write [OF set_value_ok [OF fs_okD(1) [OF ok] p] p h1 _ _ al1] v(3) len by (auto simp del: fun_upd_apply)
  let ?hd2 = "(handle\<lparr>ih_value := ?v\<rparr>)\<lparr>ih_mode := INODE_READ\<rparr>"
  have h2: "ic_handles ic2 ?h = Some ?hd2" by (simp add: W(3))
  have al2: "alone ic2 ?h" by (rule alone_keys [OF al1]) (simp add: W(3) O(3))
  have clean: "clean_handle (ic_metadb ic2) ?hd2" using W(4) by (simp add: clean_handle_def)
  have len2: "length (ih_value ?hd2) < 2 ^ 32" using len by simp
  obtain ic3 ic4 where R: "InodeCache_Release ic2 ?h = Some ic3" "InodeCache_Evict ic3 (ih_key ?hd2) = Some ic4"
    "ic_ok n ic4 pin {}" "ic_metadb ic4 = ic_metadb ic2" "ic_handles ic4 \<subseteq>\<^sub>m ic_handles ic2"
    "\<And>g. 0 < pin g \<Longrightarrow> ic_handles ic4 g = ic_handles ic2 g"
    by (rule Release_then_evict [OF W(2) pin h2 len2 al2 clean]) (rule that)
  let ?fs' = "(set_ic fs ic4)\<lparr>fs_fhs := (fs_fhs fs)(f := None), fs_disk := d\<rparr>"
  have view: "ad_lookup (ic_metadb ic4) (ToSlice k) = ((fs_view fs)(?key \<mapsto> ?v)) k" for k
    by (simp add: R(4) W(4) fs_view_def metadb_def)
  have wf: "well_formed ((fs_view fs)(?key \<mapsto> ?v))"
    by (rule well_formed_update [OF fs_ok_wf [OF ok] value_ok_touched [OF v(2)] refl])
  have ino: "map_option (\<lambda>v. st_ino (GetAttribute v)) (((fs_view fs)(?key \<mapsto> ?v)) k) =
      map_option (\<lambda>v. st_ino (GetAttribute v)) (fs_view fs k)" for k
    using old value_ok_touched [OF v(2), of "time_now fs"] by (simp add: touched_def)
  have ok4: "fs_ok n (set_ic fs ic4) pin" "fs_view (set_ic fs ic4) = (fs_view fs)(?key \<mapsto> ?v)"
    by (rule fs_ok_ic [OF ok R(3), where view = "(fs_view fs)(?key \<mapsto> ?v)"]; (rule view wf ino))+
  have ok': "fs_ok n ?fs' pin" "fs_view ?fs' = (fs_view fs)(?key \<mapsto> ?v)"
    using ok4 by (simp_all add: fs_ok_def fs_agrees_def fs_view_def fun_eq_iff metadb_def well_formed_def)
  have "TableFS_Release px fs f = Some (?fs', 0)"
    using O(1,4) v(3) upd W(1) R(1,2) cl by (simp add: TableFS_Release_def Let_def set_ic_def split: if_splits)
  moreover have "handle_at ?fs' g = handle_at fs g" if "0 < pin g" for g
    using R(6) [OF that] that pin by (auto simp: handle_at_def set_ic_def W(3))
  ultimately show ?thesis using that ok' by (simp add: set_ic_def)
qed

lemma Release_inline:
  fixes fs :: "'d TableFS"
  assumes "fs_ok (Suc (Suc n)) fs (pin(fh_handle fh := 1))" "pin (fh_handle fh) = 0"
    and of: "open_file fs (pin(fh_handle fh := 1)) f fh handle"
    and "ih_value handle = mk_value hh name data" "value_ok hh name" "ih_mode handle = INODE_WRITE"
    and "fs_view fs (ih_key handle) = Some v0" "st_ino (GetAttribute v0) = st_ino (fstat hh)"
  obtains fs' where "TableFS_Release px fs f = Some (fs', 0)" "fs_ok n fs' pin"
    "fs_view fs' = (fs_view fs)(ih_key handle \<mapsto> mk_value (touched hh (time_now fs)) name data)"
    "fs_fhs fs' f = None" "fs_state fs' = fs_state fs"
proof -
  have A: "open_handle fs (pin(fh_handle fh := 1)) f fh handle"
    "(if fh_fd fh \<noteq> -1 then px_close px (fh_fd fh) (fs_disk fs) else (0, fs_disk fs)) = (0, fs_disk fs)"
    using of by (simp_all add: open_file_def)
  show ?thesis by (rule Release_file_ok [OF assms(1,2) A assms(4-)]) (rule that)
qed

end
