(* ===== verification/Fs_Dir.thy ===== *)
theory Fs_Dir
  imports Fs_Open
begin

text \<open>
  Reading a directory (\<^verbatim>\<open>ReadDir\<close> of \<^verbatim>\<open>fs/tablefs.cpp\<close>). The keys of a directory start
  with the eight bytes of its inode number, so they are adjacent in the order of the
  database, and the scan from the first possible key to the first key of another directory
  meets all of them. The first possible key is the one with hash 0, except for the root,
  where it is the one with hash 1.
  \<^item> \<open>only_inodes\<close> excludes the key \<^verbatim>\<open>"sync"\<close> that \<^verbatim>\<open>Fsync\<close> stores: it is shorter than the
    eight bytes \<^verbatim>\<open>IsKeyInDir\<close> reads.
  \<^item> \<open>listing\<close> is the filler that collects the names.
\<close>

section \<open>Order of the keys\<close>

lemma take_mono_lex: "a \<le> b \<Longrightarrow> take n a \<le> take n b" for a b :: bytes
proof (induction n arbitrary: a b)
  case (Suc n)
  show ?case
  proof (cases a)
    case (Cons x xs)
    then obtain y ys where b: "b = y # ys" using Suc.prems by (cases b) auto
    show ?thesis using Suc Cons b by (cases "x = y") auto
  qed simp
qed simp

lemma takeWhile_prefix:
  fixes R :: "(bytes \<times> bytes) list"
  assumes sorted: "sorted_wrt (<) (map fst R)" and ge: "\<And>k v. (k, v) \<in> set R \<Longrightarrow> T \<le> k" and T: "take 8 T = p"
  shows "set (takeWhile (\<lambda>(k, v). take 8 k = p) R) = {(k, v). (k, v) \<in> set R \<and> take 8 k = p}"
  using sorted ge
proof (induction R)
  case (Cons r R)
  obtain k v where r: "r = (k, v)" by (cases r)
  show ?case
  proof (cases "take 8 k = p")
    case True
    have "set (takeWhile (\<lambda>(k, v). take 8 k = p) R) = {(k, v). (k, v) \<in> set R \<and> take 8 k = p}"
      by (rule Cons.IH) (use Cons.prems in auto)
    then show ?thesis using True r by auto
  next
    case False
    have "take 8 x \<noteq> p" if x: "(x, w) \<in> set R" for x w
    proof
      assume "take 8 x = p"
      moreover have "k < x" using Cons.prems(1) x r by (auto simp: image_iff)
      moreover have "T \<le> k" using Cons.prems(2) [of k v] r by simp
      ultimately have "take 8 k \<le> p" "p \<le> take 8 k"
        using take_mono_lex [of k x 8] take_mono_lex [of T k 8] T by auto
      then show False using False by simp
    qed
    then show ?thesis using False r by auto
  qed
qed simp

lemma Decode_prefix: "8 \<le> length k \<Longrightarrow> DecodeFixed64 k = i \<longleftrightarrow> take 8 k = EncodeFixed64 i"
  using Encode_Decode64_take [of k] by (metis EncodeFixed64_inject)

section \<open>The loop\<close>

definition listing :: "bytes list \<Rightarrow> bytes \<Rightarrow> bytes list \<times> int" where
  "listing names name = (names @ [name], 0)"

definition entry_name :: "bytes \<Rightarrow> bytes" where
  "entry_name v = takeWhile (\<lambda>c. c \<noteq> 0) (drop TFS_INODE_HEADER_SIZE v)"

definition only_inodes :: "'d TableFS \<Rightarrow> bool" where
  "only_inodes fs \<longleftrightarrow> (\<forall>k. ad_lookup (metadb fs) k \<noteq> None \<longrightarrow> (\<exists>key. k = ToSlice key))"

lemma drop_header: "value_ok h name \<Longrightarrow> drop TFS_INODE_HEADER_SIZE (mk_value h name data) = name @ 0 # data"
  by (simp add: mk_value_def value_ok_def)

lemma entry_name_mk:
  assumes "value_ok h name" "0 \<notin> set name"
  shows "entry_name (mk_value h name data) = name"
proof -
  have "takeWhile (\<lambda>c. c \<noteq> 0) (name @ 0 # data) = name @ takeWhile (\<lambda>c. c \<noteq> 0) (0 # data)"
    by (rule takeWhile_append2) (use assms(2) in auto)
  then show ?thesis unfolding entry_name_def drop_header [OF assms(1)] by simp
qed

lemma c_string_mk: "value_ok h name \<Longrightarrow>
  c_string (drop TFS_INODE_HEADER_SIZE (mk_value h name data)) = Some (entry_name (mk_value h name data))"
  unfolding entry_name_def drop_header by (simp add: c_string_def)

lemma ReadDir_loop_listing:
  assumes "\<And>k v. (k, v) \<in> set (DBIter_collect it) \<Longrightarrow>
    8 \<le> length k \<and> c_string (drop TFS_INODE_HEADER_SIZE v) = Some (entry_name v)"
  shows "ReadDir_loop listing ck it names = Some (names @ map (entry_name \<circ> snd)
    (takeWhile (\<lambda>(k, v). take 8 k = EncodeFixed64 (inode_id ck)) (DBIter_collect it)), 0)"
  using assms
proof (induction it arbitrary: names rule: DBIter_collect.induct)
  case (1 it)
  show ?case
  proof (cases "it_valid it")
    case False
    then show ?thesis by (simp add: ReadDir_loop.simps DBIter_collect.simps [of it])
  next
    case True
    let ?k = "DBIter_key it" and ?v = "DBIter_value it"
    have C: "DBIter_collect it = (?k, ?v) # DBIter_collect (DBIter_Next it)"
      using True by (simp add: DBIter_collect.simps [of it])
    have kv: "8 \<le> length ?k" "c_string (drop TFS_INODE_HEADER_SIZE ?v) = Some (entry_name ?v)"
      using "1.prems" [of ?k ?v] C by auto
    have IH: "ReadDir_loop listing ck (DBIter_Next it) names' = Some (names' @ map (entry_name \<circ> snd)
        (takeWhile (\<lambda>(k, v). take 8 k = EncodeFixed64 (inode_id ck)) (DBIter_collect (DBIter_Next it))), 0)" for names'
      by (rule "1.IH" [OF True]) (use "1.prems" C in auto)
    have in_dir: "IsKeyInDir ?k ck = Some (take 8 ?k = EncodeFixed64 (inode_id ck))"
      using kv(1) by (simp add: IsKeyInDir_def Decode_prefix)
    show ?thesis
    proof (cases "take 8 ?k = EncodeFixed64 (inode_id ck)")
      case True
      then show ?thesis
        using \<open>it_valid it\<close> in_dir kv(2) C IH [of "names @ [entry_name ?v]"]
        by (simp add: ReadDir_loop.simps [of listing ck it] listing_def [of names "entry_name ?v"])
    next
      case False
      then show ?thesis
        using \<open>it_valid it\<close> in_dir C by (simp add: ReadDir_loop.simps [of listing ck it])
    qed
  qed
qed

section \<open>Opening a directory\<close>

lemma OpenDir_ok:
  fixes fs :: "'d TableFS"
  assumes ok: "fs_ok n fs pin" and q: "quiet_path fs pin path" and k: "path_key fs path = Some (key, filename)"
    and v: "fs_view fs key = Some v"
  obtains fs' h p where "TableFS_OpenDir fs path = Some (fs', 0, Some h)" "pin h = 0" "fs_ok n fs' (pin(h := 1))"
    "handle_at fs' h = Some \<lparr>ih_key = key, ih_value = v, ih_mode = INODE_READ, ih_pointer = Some p\<rparr>"
    "fs_view fs' = fs_view fs" "metadb fs' = metadb fs"
proof -
  obtain dc e where P:
    "PathLookup fs path = Some (fs\<lparr>fs_dcache := dc, fs_errno := e\<rparr>, map_option fst (path_key fs path))"
    "PathLookup_filename fs path = Some (fs\<lparr>fs_dcache := dc, fs_errno := e\<rparr>, path_key fs path)"
    "fs_ok n (fs\<lparr>fs_dcache := dc\<rparr>) pin" "path_key fs path = None \<Longrightarrow> e = ENOENT"
    by (rule PathLookup_ok [OF ok quiet_pathD(1) [OF q]]) (rule that)
  let ?fs1 = "fs\<lparr>fs_dcache := dc, fs_errno := e\<rparr>"
  have ok1: "fs_ok n ?fs1 pin" using P(3) by simp
  have look: "ad_lookup (ic_metadb (fs_ic fs)) (ToSlice key) = Some v"
    using v by (simp add: fs_view_def metadb_def)
  obtain ic h p where G: "InodeCache_Get (fs_ic fs) key INODE_READ = Some (ic, Some h)" "pin h = 0"
    "ic_handles ic h = Some \<lparr>ih_key = key, ih_value = v, ih_mode = INODE_READ, ih_pointer = Some p\<rparr>"
    "ic_ok n ic (pin(h := 1)) {}" "ic_metadb ic = ic_metadb (fs_ic fs)"
    using Get_quiet [OF fs_okD(1) [OF ok] quiet_pathD(2) [OF q k], of INODE_READ] look by auto
  have ok2: "fs_ok n (set_ic ?fs1 ic) (pin(h := 1))" "fs_view (set_ic ?fs1 ic) = fs_view fs"
    using fs_ok_ic_same [OF ok1 G(4)] G(5) by simp_all
  have "TableFS_OpenDir fs path = Some (set_ic ?fs1 ic, 0, Some h)"
    using P(1) k G(1) by (simp add: TableFS_OpenDir_def)
  moreover have "handle_at (set_ic ?fs1 ic) h = ic_handles ic h" "metadb (set_ic ?fs1 ic) = metadb fs"
    using G(5) by (simp_all add: handle_at_def metadb_def)
  ultimately show ?thesis using that G(2,3) ok2 by simp
qed

section \<open>What a directory lists\<close>

definition dir_start :: "u64 \<Rightarrow> tfs_meta_key_t" where
  "dir_start d = BuildMetaKey d (if d = ROOT_INODE_ID then 1 else 0)"

definition dir_entries :: "'d TableFS \<Rightarrow> u64 \<Rightarrow> tfs_meta_key_t set" where
  "dir_entries fs d = {key. fs_view fs key \<noteq> None \<and> inode_id key = d \<and> ToSlice (dir_start d) \<le> ToSlice key}"

lemma ReadDir_lists:
  fixes fs :: "'d TableFS"
  assumes ok: "fs_ok n fs pin" and only: "only_inodes fs"
    and h: "handle_at fs ph = Some handle" "st_ino (GetAttribute (ih_value handle)) = d"
  obtains keys where "TableFS_ReadDir fs ph listing [] =
      Some ([dot, dotdot] @ map (\<lambda>key. entry_name (the (fs_view fs key))) keys, 0)"
    "set keys = dir_entries fs d" "sorted_wrt (\<lambda>a b. ToSlice a < ToSlice b) keys"
proof -
  let ?T = "ToSlice (dir_start d)" and ?p = "EncodeFixed64 d"
  define R where "R = DBIter_collect (DBIter_Seek (DBImpl_NewIterator (ad_db (metadb fs))) ?T)"
  have db: "db_ok n (ad_db (metadb fs))" using fs_okD(4) [OF ok] by (simp add: ad_ok_def)
  have sorted: "sorted_wrt (<) (map fst R)" and set_R: "set R = {(k, v). ?T \<le> k \<and> ad_lookup (metadb fs) k = Some v}"
    using DBIter_collect_rep [OF db, of ?T] unfolding R_def ad_lookup_def by auto
  have form: "\<exists>key. k = ToSlice key \<and> fs_view fs key = Some v" if kv: "(k, v) \<in> set R" for k v
  proof -
    have "ad_lookup (metadb fs) k = Some v" using kv set_R by simp
    moreover then obtain key where "k = ToSlice key" using only by (auto simp: only_inodes_def)
    ultimately show ?thesis by (auto simp: fs_view_def)
  qed
  have step: "8 \<le> length k \<and> c_string (drop TFS_INODE_HEADER_SIZE v) = Some (entry_name v)"
    if kv: "(k, v) \<in> set R" for k v
  proof -
    obtain key where key: "k = ToSlice key" "fs_view fs key = Some v" using form [OF kv] by blast
    obtain hh name data where "value_ok hh name" "v = mk_value hh name data"
      using fs_value(2) [OF ok key(2)] by blast
    then show ?thesis using key(1) by (simp only: c_string_mk length_ToSlice) simp
  qed
  define Q where "Q = takeWhile (\<lambda>(k, v). take 8 k = ?p) R"
  have ino: "inode_id (dir_start d) = d" by (simp add: dir_start_def BuildMetaKey_def)
  have L: "ReadDir_loop listing (dir_start d) (DBIter_Seek (DBImpl_NewIterator (ad_db (metadb fs))) ?T) [dot, dotdot] =
      Some ([dot, dotdot] @ map (entry_name \<circ> snd) Q, 0)"
    using ReadDir_loop_listing [where ck = "dir_start d" and names = "[dot, dotdot]",
        OF step [unfolded R_def]] unfolding ino by (simp only: Q_def R_def)
  have take_T: "take 8 ?T = ?p" using ino by (simp add: ToSlice_def)
  have set_Q: "set Q = {(k, v). (k, v) \<in> set R \<and> take 8 k = ?p}"
    unfolding Q_def by (rule takeWhile_prefix [OF sorted _ take_T]) (simp add: set_R)
  have in_Q: "(ToSlice key, v) \<in> set Q \<longleftrightarrow> key \<in> dir_entries fs d \<and> fs_view fs key = Some v" for key v
    unfolding set_Q set_R by (auto simp: dir_entries_def fs_view_def ToSlice_def)
  define keys where "keys = map (FromSlice \<circ> fst) Q"
  have Q_keys: "Q = map (\<lambda>key. (ToSlice key, the (fs_view fs key))) keys"
    unfolding keys_def map_map
  proof (rule sym, rule map_idI)
    fix q assume q: "q \<in> set Q"
    obtain k v where kv: "q = (k, v)" "(k, v) \<in> set R" using q unfolding set_Q by auto
    then show "((\<lambda>key. (ToSlice key, the (fs_view fs key))) \<circ> (FromSlice \<circ> fst)) q = q"
      using form [OF kv(2)] by auto
  qed
  have "TableFS_ReadDir fs ph listing [] =
      Some ([dot, dotdot] @ map (\<lambda>key. entry_name (the (fs_view fs key))) keys, 0)"
    using h L unfolding Q_keys
    by (simp add: TableFS_ReadDir_def listing_def Adaptor_GetNewIterator_def dir_start_def comp_def Let_def)
  moreover have "set keys = dir_entries fs d"
  proof
    show "set keys \<subseteq> dir_entries fs d"
    proof
      fix key assume "key \<in> set keys"
      then have "(ToSlice key, the (fs_view fs key)) \<in> set Q" unfolding Q_keys by force
      then show "key \<in> dir_entries fs d" using in_Q by blast
    qed
    show "dir_entries fs d \<subseteq> set keys"
    proof
      fix key assume key: "key \<in> dir_entries fs d"
      then obtain v where "fs_view fs key = Some v" by (auto simp: dir_entries_def)
      then have "(ToSlice key, v) \<in> set Q" using key in_Q by blast
      then show "key \<in> set keys" unfolding keys_def by force
    qed
  qed
  moreover have "sorted_wrt (\<lambda>a b. ToSlice a < ToSlice b) keys"
  proof -
    obtain i where "Q = take i R" using takeWhile_eq_take unfolding Q_def by metis
    then have "sorted_wrt (<) (map fst Q)" using sorted_wrt_take [OF sorted, of i] by (simp add: take_map)
    then show ?thesis unfolding Q_keys by (simp add: sorted_wrt_map comp_def)
  qed
  ultimately show ?thesis by (rule that)
qed

lemma dir_start_least:
  assumes "inode_id key = d" "d \<noteq> ROOT_INODE_ID"
  shows "ToSlice (dir_start d) \<le> ToSlice key"
proof -
  have "replicate 8 0 \<le> b" if "length b = 8" for b :: bytes
  proof -
    have "replicate n 0 \<le> b" if "length b = n" for n and b :: bytes
      using that by (induction n arbitrary: b) (auto simp: length_Suc_conv word_gt_0)
    then show ?thesis using that by blast
  qed
  moreover have "EncodeFixed64 0 = replicate 8 0"
    by (simp add: EncodeFixed64_def EncodeFixed32_def numeral_eq_Suc)
  ultimately have "EncodeFixed64 0 \<le> EncodeFixed64 (hash_id key)" by simp
  then have "EncodeFixed64 d @ EncodeFixed64 0 \<le> EncodeFixed64 d @ EncodeFixed64 (hash_id key)"
    by (simp add: list_le_def append_less_append)
  then show ?thesis using assms by (simp add: dir_start_def BuildMetaKey_def ToSlice_def)
qed

text \<open>In the root the first key is that of hash 1. The hash is stored with its low byte first, so a key comes before it
  just if the low byte of its hash is 0.\<close>

lemma root_start_iff:
  assumes "inode_id key = ROOT_INODE_ID"
  shows "ToSlice (dir_start ROOT_INODE_ID) \<le> ToSlice key \<longleftrightarrow> (ucast (hash_id key) :: byte) \<noteq> 0"
proof -
  obtain a r where h: "EncodeFixed64 (hash_id key) = a # r" "a = ucast (hash_id key)" "length r = 7"
    by (simp add: EncodeFixed64_def)
  have least: "replicate n 0 \<le> b" if "length b = n" for n and b :: bytes
    using that by (induction n arbitrary: b) (auto simp: length_Suc_conv word_gt_0)
  have one: "EncodeFixed64 1 = 1 # replicate 7 0"
    by (simp add: EncodeFixed64_def numeral_eq_Suc)
  have "1 # replicate 7 0 \<le> a # r \<longleftrightarrow> a \<noteq> 0"
  proof (cases "a = 1")
    case True
    then show ?thesis using least [OF h(3)] by simp
  next
    case False
    have "1 < a \<longleftrightarrow> a \<noteq> 0"
      using False by (metis word_gt_0 word_le_less_eq word_not_simps(1) word_less_1 linorder_neqE)
    then show ?thesis using False by simp
  qed
  then have "EncodeFixed64 1 \<le> EncodeFixed64 (hash_id key) \<longleftrightarrow> a \<noteq> 0" unfolding one h(1) .
  then have "EncodeFixed64 d @ EncodeFixed64 1 \<le> EncodeFixed64 d @ EncodeFixed64 (hash_id key) \<longleftrightarrow> a \<noteq> 0" for d
    by (simp add: list_le_def append_less_append)
  then show ?thesis using assms by (simp add: dir_start_def BuildMetaKey_def ToSlice_def h(2))
qed

end
