(* ===== verification/Fs_Blob.thy ===== *)
theory Fs_Blob
  imports Fs_Open
begin

text \<open>
  Large files. A write that reaches past the threshold moves the data of a file out of its inode
  value into a file on disk of its own (\<^verbatim>\<open>Write\<close>, \<^verbatim>\<open>MigrateToDiskFile\<close> of
  \<^verbatim>\<open>fs/tablefs.cpp\<close>); from then on \<^verbatim>\<open>Read\<close> and \<^verbatim>\<open>Write\<close> go to that file.
  \<^item> \<open>posix_files px files fds\<close> states what the code relies on of the operating system:
    \<open>files d\<close> are the contents of the files of the disk state \<open>d\<close> by path, and \<open>fds d\<close> the paths
    and flags of the open descriptors. The calls succeed and write all they are given.
  \<^item> \<open>mem_px\<close> is an operating system with its files in memory for which the laws hold.
\<close>

section \<open>What the operating system promises\<close>

definition posix_files ::
  "'d posix \<Rightarrow> ('d \<Rightarrow> string \<rightharpoonup> bytes) \<Rightarrow> ('d \<Rightarrow> int \<rightharpoonup> string \<times> u32) \<Rightarrow> bool" where
  "posix_files px files fds \<longleftrightarrow>
     (\<forall>p fl mode d. fl AND O_CREAT \<noteq> 0 \<longrightarrow>
        (\<exists>fd d'. px_open px p fl mode d = (fd, d') \<and> 0 \<le> fd \<and> fds d' = (fds d)(fd \<mapsto> (p, fl)) \<and>
           files d' = (files d)(p \<mapsto>
             (case files d p of None \<Rightarrow> [] | Some c \<Rightarrow> if fl AND O_TRUNC \<noteq> 0 then [] else c)))) \<and>
     (\<forall>fd p fl c buf off d. fds d fd = Some (p, fl) \<longrightarrow> fl AND 3 \<noteq> 0 \<longrightarrow> files d p = Some c \<longrightarrow> buf \<noteq> [] \<longrightarrow>
        (\<exists>d'. px_pwrite px fd buf off d = (int (length buf), d') \<and> fds d' = fds d \<and>
           files d' = (files d)(p \<mapsto> write_at c (unat off) buf))) \<and>
     (\<forall>fd p fl c n off d. fds d fd = Some (p, fl) \<longrightarrow> fl AND 3 \<noteq> O_WRONLY \<longrightarrow> files d p = Some c \<longrightarrow>
        (\<exists>d'. px_pread px fd n off d = ((int (length (take (unat n) (drop (unat off) c))),
             take (unat n) (drop (unat off) c)), d') \<and> fds d' = fds d \<and> files d' = files d)) \<and>
     (\<forall>fd x d. fds d fd = Some x \<longrightarrow>
        (\<exists>d'. px_close px fd d = (0, d') \<and> fds d' = (fds d)(fd := None) \<and> files d' = files d))"

lemma posix_open:
  assumes "posix_files px files fds" "fl AND O_CREAT \<noteq> 0"
  obtains fd d' where "px_open px p fl mode d = (fd, d')" "0 \<le> fd" "fds d' = (fds d)(fd \<mapsto> (p, fl))"
    "files d' = (files d)(p \<mapsto> (case files d p of None \<Rightarrow> [] | Some c \<Rightarrow> if fl AND O_TRUNC \<noteq> 0 then [] else c))"
  using assms(1) [unfolded posix_files_def, THEN conjunct1, rule_format, OF assms(2), of p mode d] by (elim exE conjE) (rule that)

lemma posix_pwrite:
  assumes "posix_files px files fds" "fds d fd = Some (p, fl)" "fl AND 3 \<noteq> 0" "files d p = Some c" "buf \<noteq> []"
  obtains d' where "px_pwrite px fd buf off d = (int (length buf), d')" "fds d' = fds d"
    "files d' = (files d)(p \<mapsto> write_at c (unat off) buf)"
  using assms(1) [unfolded posix_files_def, THEN conjunct2, THEN conjunct1, rule_format, OF assms(2-5)] that by metis

lemma posix_pread:
  assumes "posix_files px files fds" "fds d fd = Some (p, fl)" "fl AND 3 \<noteq> O_WRONLY" "files d p = Some c"
  obtains d' where "px_pread px fd n off d =
      ((int (length (take (unat n) (drop (unat off) c))), take (unat n) (drop (unat off) c)), d')"
    "fds d' = fds d" "files d' = files d"
  using assms(1) [unfolded posix_files_def, THEN conjunct2, THEN conjunct2, THEN conjunct1, rule_format, OF assms(2-4)] that by metis

lemma posix_close:
  assumes "posix_files px files fds" "fds d fd = Some x"
  obtains d' where "px_close px fd d = (0, d')" "fds d' = (fds d)(fd := None)" "files d' = files d"
  using assms(1) [unfolded posix_files_def, THEN conjunct2, THEN conjunct2, THEN conjunct2, rule_format, OF assms(2)] that by metis

section \<open>Moving the data to a file\<close>

lemma set_value_same:
  assumes "ic_handles ic h = Some handle" "ih_value handle = v"
  shows "set_value ic h v = ic"
  using assms by (auto simp: set_value_def fun_eq_iff)

lemma access_mode [simp]:
  "(flags OR O_CREAT) AND 3 = flags AND (3 :: u32)" "(flags OR O_CREAT) AND O_CREAT \<noteq> 0"
  by (simp_all add: O_CREAT_def bit.conj_disj_distrib2)

lemma Migrate_ok:
  fixes fs :: "'d TableFS"
  assumes P: "posix_files px files fds" and h: "handle_at fs h = Some handle"
    and v: "ih_value handle = mk_value hh name data" "value_ok hh name"
    and sz: "st_size (fstat hh) = of_nat (length data)" "length data < 2 ^ 31"
    and p: "GetDiskFilePath (fs_state fs) (st_ino (fstat hh)) = Some p" "files (fs_disk fs) p = None"
    and w: "flags AND 3 \<noteq> 0"
  obtains fd d where "MigrateToDiskFile px fs h (-1) flags =
      Some ((set_ic fs (set_value (fs_ic fs) h (mk_value hh name [])))\<lparr>fs_disk := d\<rparr>, fd, 0)"
    "0 \<le> fd" "fds d fd = Some (p, flags OR O_CREAT)" "files d = (files (fs_disk fs))(p \<mapsto> data)"
proof -
  have hd: "ic_handles (fs_ic fs) h = Some handle" using h by (simp add: handle_at_def)
  obtain fd d1 where O: "px_open px p (flags OR O_CREAT) (st_mode (fstat hh)) (fs_disk fs) = (fd, d1)" "0 \<le> fd"
    "fds d1 = (fds (fs_disk fs))(fd \<mapsto> (p, flags OR O_CREAT))" "files d1 = (files (fs_disk fs))(p \<mapsto> (case files (fs_disk fs) p of
       None \<Rightarrow> [] | Some c \<Rightarrow> if (flags OR O_CREAT) AND O_TRUNC \<noteq> 0 then [] else c))"
    by (rule posix_open [OF P access_mode(2)]) (rule that)
  have new: "files d1 = (files (fs_disk fs))(p \<mapsto> [])" using O(4) p(2) by simp
  have open1: "OpenDiskFile px fs hh flags = Some (fs\<lparr>fs_disk := d1\<rparr>, fd)"
    using p(1) O(1) by (simp add: OpenDiskFile_def)
  have hdr: "GetInodeHeader (ih_value handle) = hh" using v by simp
  show ?thesis
  proof (cases "data = []")
    case True
    then have s0: "st_size (fstat hh) = 0" using sz(1) by simp
    have "MigrateToDiskFile px fs h (-1) flags = Some (fs\<lparr>fs_disk := d1\<rparr>, fd, 0)"
      using h open1 O(2) hdr s0 by (simp add: MigrateToDiskFile_def)
    moreover have "set_value (fs_ic fs) h (mk_value hh name []) = fs_ic fs"
      using set_value_same [OF hd v(1)] True by simp
    ultimately show ?thesis using that [of d1 fd] O(2,3) new True by (simp add: set_ic_def)
  next
    case False
    have szn: "unat (st_size (fstat hh)) = length data"
      using sz by (simp add: unat_of_nat take_bit_nat_eq_self)
    have szi: "sint (st_size (fstat hh)) = int (length data)"
      using sz by (simp add: sint_uint unsigned_of_nat take_bit_nat_eq_self signed_take_bit_int_eq_self)
    have buf: "take (length data) (drop (unat (data_offset hh)) (mk_value hh name data)) = data"
      using drop_mk_value [OF v(2), of 0 data] v(2) by (simp add: unat_data_offset_0 value_ok_def)
    have fd1: "fds d1 fd = Some (p, flags OR O_CREAT)" "files d1 p = Some []" using O(3) new by simp_all
    have fw: "(flags OR O_CREAT) AND 3 \<noteq> 0" using w by simp
    obtain d2 where W: "px_pwrite px fd data 0 d1 = (int (length data), d2)" "fds d2 = fds d1"
      "files d2 = (files d1)(p \<mapsto> write_at [] (unat (0 :: u64)) data)"
      by (rule posix_pwrite [OF P fd1(1) fw fd1(2) False]) (rule that)
    have wa: "write_at [] (unat (0 :: u64)) data = data" by (simp add: write_at_def)
    have "MigrateToDiskFile px fs h (-1) flags =
        Some ((set_ic fs (set_value (fs_ic fs) h (mk_value hh name [])))\<lparr>fs_disk := d2\<rparr>, fd, 0)"
      using h open1 O(2) hdr szn szi buf W(1) False v
      by (simp add: MigrateToDiskFile_def Let_def DropInlineData_mk set_ic_def)
    moreover have "files d2 = (files (fs_disk fs))(p \<mapsto> data)" using W(3) new wa by simp
    ultimately show ?thesis using that [of d2 fd] O(2) fd1(1) W(2) by simp
  qed
qed


section \<open>Writing past the threshold, reading and closing\<close>

definition blob_header :: "tfs_inode_header \<Rightarrow> u64 \<Rightarrow> tfs_inode_header" where
  "blob_header h n = h\<lparr>fstat := (fstat h)\<lparr>st_size := n\<rparr>, has_blob := 1\<rparr>"

lemma value_ok_blob: "value_ok h name \<Longrightarrow> value_ok (blob_header h n) name"
  by (simp add: blob_header_def value_ok_def header_ok_def stat_ok_def)

lemma Write_migrate:
  fixes fs :: "'d TableFS"
  assumes ok: "fs_ok n fs pin" and of: "open_file fs pin f fh handle"
    and v: "ih_value handle = mk_value hh name data" "value_ok hh name" "has_blob hh = 0"
    and P: "posix_files px files fds" and w: "flags AND 3 \<noteq> 0" and buf: "buf \<noteq> []"
    and sz: "st_size (fstat hh) = of_nat (length data)" "length data < 2 ^ 31"
    and p: "GetDiskFilePath (fs_state fs) (st_ino (fstat hh)) = Some p" "files (fs_disk fs) p = None"
    and big: "threshold (fs_state fs) < int (unat off + length buf)" "0 \<le> threshold (fs_state fs)"
    and len: "unat off + length buf < 2 ^ 31"
  obtains fs' fd where "TableFS_Write px fs f buf off flags = Some (fs', int (length buf))"
    "fs_ok n fs' pin" "fs_view fs' = fs_view fs" "fs_state fs' = fs_state fs" "0 \<le> fd"
    "open_handle fs' pin f (fh\<lparr>fh_fd := fd\<rparr>) (handle\<lparr>ih_mode := INODE_WRITE,
       ih_value := mk_value (blob_header hh (off + of_nat (length buf))) name []\<rparr>)"
    "fds (fs_disk fs') fd = Some (p, flags OR O_CREAT)"
    "files (fs_disk fs') = (files (fs_disk fs))(p \<mapsto> write_at data (unat off) buf)"
proof -
  note O = open_fileD [OF of]
  let ?h = "fh_handle fh" and ?n = "off + of_nat (length buf) :: u64"
  have pn: "0 < pin ?h" using O(3) by simp
  have n: "unat ?n = unat off + length buf" by (rule unat_plus_of_nat) (use len in simp)
  have thr: "word_of_int (threshold (fs_state fs)) < ?n"
  proof -
    have "int (unat off + length buf) < int (2 ^ 31)" using len by (simp only: of_nat_less_iff)
    then have "unat (word_of_int (threshold (fs_state fs)) :: u64) = nat (threshold (fs_state fs))"
      using big by (intro unat_of_small_int) simp_all
    moreover have "nat (threshold (fs_state fs)) < unat off + length buf"
      using big by (simp only: nat_less_iff)
    ultimately show ?thesis by (simp only: word_less_nat_alt n)
  qed
  have ret: "to_int (int (length buf)) = int (length buf)" using len by (intro to_int_small) simp_all
  let ?fs1 = "set_ic fs (set_mode (fs_ic fs) ?h INODE_WRITE)" and ?handle1 = "handle\<lparr>ih_mode := INODE_WRITE\<rparr>"
  have h1: "handle_at ?fs1 ?h = Some ?handle1" "ih_value ?handle1 = mk_value hh name data"
    using O(4) v(1) by (simp_all add: handle_at_def)
  have p1: "GetDiskFilePath (fs_state ?fs1) (st_ino (fstat hh)) = Some p" "files (fs_disk ?fs1) p = None"
    using p by simp_all
  obtain fd d where M: "MigrateToDiskFile px ?fs1 ?h (-1) flags =
      Some ((set_ic ?fs1 (set_value (fs_ic ?fs1) ?h (mk_value hh name [])))\<lparr>fs_disk := d\<rparr>, fd, 0)"
    "0 \<le> fd" "fds d fd = Some (p, flags OR O_CREAT)" "files d = (files (fs_disk ?fs1))(p \<mapsto> data)"
    by (rule Migrate_ok [OF P h1 v(2) sz p1 w]) (rule that)
  have wf: "(flags OR O_CREAT) AND 3 \<noteq> 0" and fp: "files d p = Some data" using w M(4) by simp_all
  obtain d' where W: "px_pwrite px fd buf off d = (int (length buf), d')" "fds d' = fds d"
    "files d' = (files d)(p \<mapsto> write_at data (unat off) buf)"
    by (rule posix_pwrite [OF P M(3) wf fp buf]) (rule that)
  let ?v = "mk_value (blob_header hh ?n) name []"
  let ?ic = "set_value (set_value (set_mode (fs_ic fs) ?h INODE_WRITE) ?h (mk_value hh name [])) ?h ?v"
  let ?fs' = "(set_ic fs ?ic)\<lparr>fs_fhs := (fs_fhs fs)(f \<mapsto> fh\<lparr>fh_fd := fd\<rparr>), fs_disk := d'\<rparr>"
  have upd: "UpdateInodeHeader (mk_value hh name []) (blob_header hh ?n) = ?v"
    using value_ok_blob [OF v(2)] v(2) by (simp add: UpdateInodeHeader_mk value_ok_def)
  have res: "TableFS_Write px fs f buf off flags = Some (?fs', int (length buf))"
    using O(1,2,4,5) v M(1) thr W(1) ret upd
    by (simp add: TableFS_Write_def handle_at_def update_header_def set_fd_def set_ic_def blob_header_def Let_def)
  have ic: "ic_ok n ?ic pin {}" by (intro set_value_ok set_mode_ok fs_okD(1) [OF ok] pn)
  have ok1: "fs_ok n (set_ic fs ?ic) pin" "fs_view (set_ic fs ?ic) = fs_view fs"
    by (rule fs_ok_handles [OF ok ic]; simp)+
  have ok': "fs_ok n ?fs' pin" "fs_view ?fs' = fs_view fs"
    using ok1 by (simp_all add: fs_ok_def fs_agrees_def fs_view_def fun_eq_iff metadb_def well_formed_def)
  have al: "alone ?ic ?h" by (rule alone_keys [OF O(6)]) (simp add: option.map_comp comp_def)
  have "length ?v < 2 ^ 32"
    using O(7) v(1) by (simp add: length_mk_value [OF value_ok_blob [OF v(2)]] length_mk_value [OF v(2)])
  then have oh: "open_handle ?fs' pin f (fh\<lparr>fh_fd := fd\<rparr>) (handle\<lparr>ih_mode := INODE_WRITE, ih_value := ?v\<rparr>)"
    using O(3,4) al by (simp add: open_handle_def set_ic_def)
  show ?thesis
    by (rule that [OF res ok' _ M(2) oh]) (use M(3,4) W(2,3) in simp_all)
qed

lemma Read_blob:
  fixes fs :: "'d TableFS"
  assumes "open_handle fs pin f fh handle" and "ih_value handle = mk_value hh name data" "value_ok hh name"
    and "has_blob hh > 0" "0 \<le> fh_fd fh" and P: "posix_files px files fds"
    and d: "fds (fs_disk fs) (fh_fd fh) = Some (p, fl)" "fl AND 3 \<noteq> O_WRONLY" "files (fs_disk fs) p = Some c"
    and "length c < 2 ^ 31"
  obtains d' where "TableFS_Read px fs f sz off =
    Some (fs\<lparr>fs_disk := d'\<rparr>, int (length (take (unat sz) (drop (unat off) c))), take (unat sz) (drop (unat off) c))"
    "fds d' = fds (fs_disk fs)" "files d' = files (fs_disk fs)"
proof -
  let ?r = "take (unat sz) (drop (unat off) c)"
  obtain d' where R: "px_pread px (fh_fd fh) sz off (fs_disk fs) = ((int (length ?r), ?r), d')"
    "fds d' = fds (fs_disk fs)" "files d' = files (fs_disk fs)"
    by (rule posix_pread [OF P d]) (rule that)
  have "to_int (int (length ?r)) = int (length ?r)"
    using assms(10) by (intro to_int_small) simp_all
  then show ?thesis
    using that [of d'] open_handleD [OF assms(1)] assms(2-5) R by (simp add: TableFS_Read_def open_blob_def Let_def)
qed

section \<open>An operating system with its files in memory\<close>

record mem_disk =
  md_files :: "string \<rightharpoonup> bytes"
  md_fds :: "int \<rightharpoonup> string \<times> u32"
  md_next :: nat

definition mem_px :: "mem_disk posix" where
  "mem_px = \<lparr>
     px_open = (\<lambda>p fl mode d. (int (md_next d), d\<lparr>
       md_files := (md_files d)(p \<mapsto> (case md_files d p of None \<Rightarrow> [] | Some c \<Rightarrow> if fl AND O_TRUNC \<noteq> 0 then [] else c)),
       md_fds := (md_fds d)(int (md_next d) \<mapsto> (p, fl)), md_next := Suc (md_next d)\<rparr>)),
     px_close = (\<lambda>fd d. (0, d\<lparr>md_fds := (md_fds d)(fd := None)\<rparr>)),
     px_pread = (\<lambda>fd n off d. (case md_fds d fd of None \<Rightarrow> (-1, []) | Some (p, _) \<Rightarrow>
       (case md_files d p of None \<Rightarrow> (-1, []) | Some c \<Rightarrow>
          (int (length (take (unat n) (drop (unat off) c))), take (unat n) (drop (unat off) c))), d)),
     px_pwrite = (\<lambda>fd buf off d. (case md_fds d fd of None \<Rightarrow> (-1, d) | Some (p, _) \<Rightarrow>
       (case md_files d p of None \<Rightarrow> (-1, d) | Some c \<Rightarrow>
          (int (length buf), d\<lparr>md_files := (md_files d)(p \<mapsto> write_at c (unat off) buf)\<rparr>)))),
     px_ftruncate = (\<lambda>fd n d. (case md_fds d fd of None \<Rightarrow> (-1, d) | Some (p, _) \<Rightarrow>
       (0, d\<lparr>md_files := (md_files d)(p := map_option (\<lambda>c. str_resize c (unat n)) (md_files d p))\<rparr>))),
     px_truncate = (\<lambda>p n d. (case md_files d p of None \<Rightarrow> (-1, d) | Some c \<Rightarrow>
       (0, d\<lparr>md_files := (md_files d)(p \<mapsto> str_resize c (unat n))\<rparr>))),
     px_fsync = (\<lambda>fd d. (0, d)),
     px_unlink = (\<lambda>p d. (if md_files d p = None then -1 else 0, d\<lparr>md_files := (md_files d)(p := None)\<rparr>)),
     px_mkdir = (\<lambda>p d. (0, d)), px_lstat = (\<lambda>p d. decode_stat (replicate 144 0)), px_errno = (\<lambda>d. 2),
     px_realpath = (\<lambda>p. p), px_read_file = (\<lambda>p d. None), px_write_file = (\<lambda>p s d. Some d)\<rparr>"

definition mem_empty :: mem_disk where
  "mem_empty = \<lparr>md_files = Map.empty, md_fds = Map.empty, md_next = 0\<rparr>"

lemma mem_px_files: "posix_files mem_px md_files md_fds"
  by (auto simp: posix_files_def mem_px_def)

section \<open>A large write from open to close\<close>

lemma Write_Read_Release_blob:
  fixes fs :: "'d TableFS"
  assumes P: "posix_files px files fds" and ok: "fs_ok (Suc (Suc n)) fs (pin(fh_handle fh := 1))"
    and pin: "pin (fh_handle fh) = 0" and of: "open_file fs (pin(fh_handle fh := 1)) f fh handle"
    and v: "ih_value handle = mk_value hh name data" "value_ok hh name" "has_blob hh = 0"
    and old: "fs_view fs (ih_key handle) = Some (mk_value hh name data)"
    and sz: "st_size (fstat hh) = of_nat (length data)" "length data < 2 ^ 31"
    and p: "GetDiskFilePath (fs_state fs) (st_ino (fstat hh)) = Some p" "files (fs_disk fs) p = None"
    and big: "threshold (fs_state fs) < int (unat off + length buf)" "0 \<le> threshold (fs_state fs)"
    and buf: "buf \<noteq> []" "unat off + length buf < 2 ^ 31"
  defines "c \<equiv> write_at data (unat off) buf" and "hh' \<equiv> blob_header hh (off + of_nat (length buf))"
  obtains fs2 fs3 fs4 now where "TableFS_Write px fs f buf off O_RDWR = Some (fs2, int (length buf))"
    "TableFS_Read px fs2 f len roff = Some (fs3, int (length (take (unat len) (drop (unat roff) c))),
       take (unat len) (drop (unat roff) c))"
    "TableFS_Release px fs3 f = Some (fs4, 0)" "fs_ok n fs4 pin"
    "fs_view fs4 = (fs_view fs)(ih_key handle \<mapsto> mk_value (touched hh' now) name [])"
    "files (fs_disk fs4) = (files (fs_disk fs))(p \<mapsto> c)"
proof -
  let ?handle2 = "handle\<lparr>ih_mode := INODE_WRITE, ih_value := mk_value hh' name []\<rparr>"
  have fl: "O_RDWR AND 3 \<noteq> 0" "(O_RDWR OR O_CREAT) AND 3 \<noteq> O_WRONLY"
    by (simp_all add: O_RDWR_def O_CREAT_def O_WRONLY_def)
  obtain fs2 fd where W: "TableFS_Write px fs f buf off O_RDWR = Some (fs2, int (length buf))"
    "fs_ok (Suc (Suc n)) fs2 (pin(fh_handle fh := 1))" "fs_view fs2 = fs_view fs" "fs_state fs2 = fs_state fs" "0 \<le> fd"
    "open_handle fs2 (pin(fh_handle fh := 1)) f (fh\<lparr>fh_fd := fd\<rparr>) (handle\<lparr>ih_mode := INODE_WRITE,
       ih_value := mk_value (blob_header hh (off + of_nat (length buf))) name []\<rparr>)"
    "fds (fs_disk fs2) fd = Some (p, O_RDWR OR O_CREAT)"
    "files (fs_disk fs2) = (files (fs_disk fs))(p \<mapsto> write_at data (unat off) buf)"
    by (rule Write_migrate [OF ok of v P fl(1) buf(1) sz p big buf(2)]) (rule that)
  let ?fh = "fh\<lparr>fh_fd := fd\<rparr>"
  have v2: "ih_value ?handle2 = mk_value hh' name []" "ih_mode ?handle2 = INODE_WRITE" by simp_all
  have hh: "value_ok hh' name" "0 < has_blob hh'" "st_ino (fstat hh') = st_ino (fstat hh)" "0 \<le> fh_fd ?fh"
    unfolding hh'_def using W(5) by (simp_all add: value_ok_blob [OF v(2)]) (simp_all add: blob_header_def)
  have d: "fds (fs_disk fs2) (fh_fd ?fh) = Some (p, O_RDWR OR O_CREAT)" "files (fs_disk fs2) p = Some c"
    using W(7,8) by (simp_all add: c_def)
  have lc: "length c < 2 ^ 31" using sz(2) buf(2) by (simp add: c_def length_write_at)
  obtain d3 where R: "TableFS_Read px fs2 f len roff = Some (fs2\<lparr>fs_disk := d3\<rparr>,
      int (length (take (unat len) (drop (unat roff) c))), take (unat len) (drop (unat roff) c))"
    "fds d3 = fds (fs_disk fs2)" "files d3 = files (fs_disk fs2)"
    by (rule Read_blob [OF W(6) [folded hh'_def] v2(1) hh(1,2,4) P d(1) fl(2) d(2) lc]) (rule that)
  let ?fs3 = "fs2\<lparr>fs_disk := d3\<rparr>"
  have d3: "fds d3 fd = Some (p, O_RDWR OR O_CREAT)" using R(2) W(7) by simp
  obtain d4 where C: "px_close px fd d3 = (0, d4)" "fds d4 = (fds d3)(fd := None)" "files d4 = files d3"
    by (rule posix_close [OF P d3]) (rule that)
  have ok3: "fs_ok (Suc (Suc n)) ?fs3 (pin(fh_handle ?fh := 1))" "pin (fh_handle ?fh) = 0"
    and oh3: "open_handle ?fs3 (pin(fh_handle ?fh := 1)) f ?fh ?handle2"
    using W(2) W(6) [folded hh'_def] pin
    by (simp_all add: fs_ok_def fs_agrees_def fs_view_def fun_eq_iff metadb_def well_formed_def open_handle_def
        del: fun_upd_apply)
  have cl: "(if fh_fd ?fh \<noteq> -1 then px_close px (fh_fd ?fh) (fs_disk ?fs3) else (0, fs_disk ?fs3)) = (0, d4)"
    using C(1) W(5) by simp
  have view3: "fs_view ?fs3 = fs_view fs" using W(3) by (simp add: fs_view_def metadb_def fun_eq_iff)
  have old3: "fs_view ?fs3 (ih_key ?handle2) = Some (mk_value hh name data)"
    "st_ino (GetAttribute (mk_value hh name data)) = st_ino (fstat hh')"
    using old hh(3) v(2) W(3) by simp_all
  obtain fs4 where D: "TableFS_Release px ?fs3 f = Some (fs4, 0)" "fs_ok n fs4 pin"
    "fs_view fs4 = (fs_view ?fs3)(ih_key ?handle2 \<mapsto> mk_value (touched hh' (time_now ?fs3)) name [])"
    "fs_fhs fs4 f = None" "fs_state fs4 = fs_state ?fs3" "fs_disk fs4 = d4"
    "\<And>g. 0 < pin g \<Longrightarrow> handle_at fs4 g = handle_at ?fs3 g"
    by (rule Release_file_ok [OF ok3 oh3 cl v2(1) hh(1) v2(2) old3]) (rule that)
  have disk: "files (fs_disk fs4) = (files (fs_disk fs))(p \<mapsto> c)" using D(6) C(3) R(3) W(8) by (simp add: c_def)
  show ?thesis
    by (rule that [OF W(1) R(1) D(1,2) _ disk]) (use D(3) view3 in \<open>simp del: fun_upd_apply\<close>)
qed

end
