(* ===== verification/Fs_Mount.thy ===== *)
theory Fs_Mount
  imports Fs_Dir Fs_Blob
begin

text \<open>
  Mounting (\<^verbatim>\<open>TableFS::Init\<close>): the caches start empty, and a file system whose inode
  counter is 0 gets the entry of its root. The invariant of \<open>Fs_Meta\<close> holds from then on.
  \<open>demo_fs\<close> is a small mounted file system over the operating system \<open>mem_px\<close>; the
  witnesses of the file system properties run on it.
\<close>

section \<open>Init\<close>

definition root_key :: tfs_meta_key_t where
  "root_key = BuildMetaKey_path [] ROOT_INODE_ID"

definition root_value :: "'d posix \<Rightarrow> 'd TableFS \<Rightarrow> bytes \<Rightarrow> bytes" where
  "root_value px fs mem =
     (let statbuf = px_lstat px ''/tmp/'' (fs_disk fs)
      in mk_value (init_header mem ROOT_INODE_ID (st_mode statbuf) (st_dev statbuf) [] (fs_owner fs) (time_now fs)) [] [])"

lemma fresh_caches:
  assumes "ad_ok n ad" "well_formed (\<lambda>key. ad_lookup ad (ToSlice key))"
  shows "fs_ok n (fs\<lparr>fs_ic := InodeCache_new ad, fs_dcache := DentryCache_new m\<rparr>) (\<lambda>_. 0)"
    and "fs_view (fs\<lparr>fs_ic := InodeCache_new ad, fs_dcache := DentryCache_new m\<rparr>) = (\<lambda>key. ad_lookup ad (ToSlice key))"
proof -
  let ?fs = "fs\<lparr>fs_ic := InodeCache_new ad, fs_dcache := DentryCache_new m\<rparr>"
  have m: "ic_metadb (InodeCache_new ad) = ad" by (simp add: InodeCache_new_def)
  show v: "fs_view ?fs = (\<lambda>key. ad_lookup ad (ToSlice key))"
    by (simp add: fs_view_def fun_eq_iff metadb_def m)
  have "dentry.agrees (DentryCache_new m) t" for t
    using DentryCache_new_ok [of m] by (simp add: dentry.agrees_def)
  then show "fs_ok n ?fs (\<lambda>_. 0)"
    using InodeCache_new_ok [OF assms(1)] assms(2) v by (simp add: fs_ok_def fs_agrees_def)
qed

lemma Init_empty:
  assumes ad: "ad_ok (Suc n) (metadb fs)" and empty: "State_IsEmpty (fs_state fs)" "fs_view fs = Map.empty"
    and mem: "257 \<le> length mem"
  shows "fs_ok n (TableFS_Init px fs mem) (\<lambda>_. 0)"
    and "fs_view (TableFS_Init px fs mem) = [root_key \<mapsto> root_value px fs mem]"
    and "only_inodes fs \<Longrightarrow> only_inodes (TableFS_Init px fs mem)"
proof -
  let ?st = "px_lstat px ''/tmp/'' (fs_disk fs)"
  let ?hd = "init_header mem ROOT_INODE_ID (st_mode ?st) (st_dev ?st) [] (fs_owner fs) (time_now fs)"
  have V: "InitInodeValue mem ROOT_INODE_ID (st_mode ?st) (st_dev ?st) [] (fs_owner fs) (time_now fs) = root_value px fs mem"
    "value_ok ?hd []"
    using InitInodeValue_mk [of "[]" mem ROOT_INODE_ID "st_mode ?st" "st_dev ?st" "fs_owner fs" "time_now fs"] mem
    by (simp_all add: root_value_def Let_def)
  have len: "length (root_value px fs mem) < 2 ^ 32"
    using length_mk_value [OF V(2), of "[]"] by (simp add: root_value_def Let_def)
  obtain ad where A: "Adaptor_Put (metadb fs) (ToSlice root_key) (root_value px fs mem) = (ad, 0)" "ad_ok n ad"
    "ad_lookup ad = (ad_lookup (metadb fs))(ToSlice root_key \<mapsto> root_value px fs mem)"
    using Adaptor_Put_ok [OF ad, of "ToSlice root_key" "root_value px fs mem"] len by auto
  have I: "TableFS_Init px fs mem = fs\<lparr>fs_ic := InodeCache_new ad, fs_dcache := DentryCache_new 16384\<rparr>"
    using empty(1) A(1) V(1) by (simp add: TableFS_Init_def root_key_def Let_def)
  have view: "(\<lambda>key. ad_lookup ad (ToSlice key)) = [root_key \<mapsto> root_value px fs mem]"
    using empty(2) by (auto simp: A(3) fs_view_def fun_eq_iff)
  have wf: "well_formed (\<lambda>key. ad_lookup ad (ToSlice key))"
    unfolding view
    by (rule well_formed_update [OF _ V(2)]) (simp_all add: well_formed_def root_value_def Let_def)
  show "fs_ok n (TableFS_Init px fs mem) (\<lambda>_. 0)"
    unfolding I by (rule fresh_caches(1) [OF A(2) wf])
  show "fs_view (TableFS_Init px fs mem) = [root_key \<mapsto> root_value px fs mem]"
    unfolding I fresh_caches(2) [OF A(2) wf] by (rule view)
  show "only_inodes fs \<Longrightarrow> only_inodes (TableFS_Init px fs mem)"
    unfolding I by (auto simp: only_inodes_def metadb_def InodeCache_new_def A(3) [unfolded metadb_def])
qed

lemma Init_again:
  assumes "ad_ok n (metadb fs)" "\<not> State_IsEmpty (fs_state fs)" "well_formed (fs_view fs)"
  shows "fs_ok n (TableFS_Init px fs mem) (\<lambda>_. 0)" and "fs_view (TableFS_Init px fs mem) = fs_view fs"
proof -
  have v: "(\<lambda>key. ad_lookup (metadb fs) (ToSlice key)) = fs_view fs" by (simp add: fs_view_def fun_eq_iff)
  have I: "TableFS_Init px fs mem = fs\<lparr>fs_ic := InodeCache_new (metadb fs), fs_dcache := DentryCache_new 16384\<rparr>"
    using assms(2) by (simp add: TableFS_Init_def)
  show "fs_ok n (TableFS_Init px fs mem) (\<lambda>_. 0)" "fs_view (TableFS_Init px fs mem) = fs_view fs"
    unfolding I using fresh_caches [OF assms(1)] assms(3) by (simp_all add: v)
qed

section \<open>Quiet paths\<close>

lemma Init_quiet: "abs_path path \<Longrightarrow> quiet_path (TableFS_Init px fs mem) pin path"
  by (simp add: quiet_path_def TableFS_Init_def Let_def InodeCache_new_quiet split: option.split)

lemma quiet_path_step:
  assumes "quiet_path fs pin path" "quieter (fs_ic fs) (fs_ic fs') pin" "path_key fs' path = path_key fs path"
  shows "quiet_path fs' pin path"
  using assms by (auto simp: quiet_path_def quieter_def split: option.splits)

lemma path_key_file:
  assumes "PATH_DELIMITER \<notin> set name" "name \<noteq> []"
  shows "path_key fs (PATH_DELIMITER # name) = Some (BuildMetaKey_path name ROOT_INODE_ID, name)"
proof -
  have "dropWhile (\<lambda>c. c \<noteq> PATH_DELIMITER) name = []" using assms(1) by (auto simp: dropWhile_eq_Nil_conv)
  then show ?thesis
    using assms(2) by (simp add: path_key_def resolve.simps [of _ _ _ name] del: dropWhile_eq_Nil_conv)
qed

section \<open>A small file system\<close>

definition demo_ad :: LevelDBAdaptor where
  "demo_ad = \<lparr>ad_db = DBImpl_new, ad_writeahead = True, ad_sync_time_limit = 5, ad_sync_size_limit = -1,
     ad_last_sync_time = 0, ad_async_data_size = 0, ad_now = 1000\<rparr>"

definition demo_new :: "mem_disk TableFS" where
  "demo_new = \<lparr>fs_state = State_new\<lparr>datadir := ''/d'', threshold := 4096\<rparr>, fs_ic = InodeCache_new demo_ad,
     fs_dcache = DentryCache_new 16384, fs_owner = (0, 0), fs_fhs = Map.empty, fs_brk = 0, fs_errno = 0,
     fs_disk = mem_empty\<rparr>"

definition demo_fs :: "mem_disk TableFS" where
  "demo_fs = TableFS_Init mem_px demo_new (replicate 300 0)"

lemma demo_ok: "n < 2 ^ 56 - 1 \<Longrightarrow> fs_ok n demo_fs (\<lambda>_. 0)"
  and demo_view: "fs_view demo_fs = [root_key \<mapsto> root_value mem_px demo_new (replicate 300 0)]"
  and demo_only: "only_inodes demo_fs"
proof -
  have m: "metadb demo_new = demo_ad" by (simp add: demo_new_def metadb_def InodeCache_new_def)
  have ok: "ad_ok k (metadb demo_new)" if "k < 2 ^ 56" for k
    using DBImpl_new_ok(1) [OF that] by (simp add: m demo_ad_def ad_ok_def)
  have e: "State_IsEmpty (fs_state demo_new)" "fs_view demo_new = Map.empty"
    using DBImpl_new_ok(2)
    by (auto simp: demo_new_def State_IsEmpty_def State_new_def fs_view_def metadb_def InodeCache_new_def
        ad_lookup_def demo_ad_def fun_eq_iff)
  show "n < 2 ^ 56 - 1 \<Longrightarrow> fs_ok n demo_fs (\<lambda>_. 0)"
    unfolding demo_fs_def by (rule Init_empty(1) [OF ok e]) simp_all
  show "fs_view demo_fs = [root_key \<mapsto> root_value mem_px demo_new (replicate 300 0)]"
    unfolding demo_fs_def by (rule Init_empty(2) [where n = 0, OF ok e]) simp_all
  have "only_inodes demo_new"
    using DBImpl_new_ok(2) by (simp add: only_inodes_def m demo_ad_def ad_lookup_def)
  then show "only_inodes demo_fs"
    unfolding demo_fs_def by (intro Init_empty(3) [where n = 0, OF ok e]) simp_all
qed

lemma demo_quiet: "abs_path path \<Longrightarrow> quiet_path demo_fs pin path"
  unfolding demo_fs_def by (rule Init_quiet)

definition demo_path :: bytes where
  "demo_path = [0x2F, 0x61]"

definition demo_mem :: bytes where
  "demo_mem = replicate 300 0"

definition demo_key :: tfs_meta_key_t where
  "demo_key = BuildMetaKey_path [0x61] ROOT_INODE_ID"

definition demo_header :: "u32 \<Rightarrow> tfs_inode_header" where
  "demo_header mode = init_header demo_mem 1 mode 0 [0x61] (0, 0) (time_now demo_fs)"

lemma demo_path: "abs_path demo_path" "path_key fs demo_path = Some (demo_key, [0x61])"
  using path_key_file [of "[0x61]" fs]
  by (simp_all add: demo_path_def abs_path_def PATH_DELIMITER_def demo_key_def)

lemma demo_mem: "length demo_mem = 300"
  by (simp add: demo_mem_def)

lemma demo_header_ok: "value_ok (demo_header mode) [0x61]"
  using InitInodeValue_mk(2) [of "[0x61]" demo_mem 1 mode 0 "(0, 0)" "time_now demo_fs"]
  by (simp add: demo_header_def demo_mem)

lemma demo_state: "fs_state demo_fs = State_new\<lparr>datadir := ''/d'', threshold := 4096\<rparr>"
  "fs_owner demo_fs = (0, 0)" "fs_disk demo_fs = mem_empty"
  by (simp_all add: demo_fs_def TableFS_Init_def Let_def demo_new_def)

lemma demo_NewInode: "State_NewInode mem_px (fs_state demo_fs) (fs_disk demo_fs) =
    Some (((fs_state demo_fs)\<lparr>max_inode_num := 1\<rparr>, 1), mem_empty)"
  by (simp add: demo_state State_NewInode_def State_new_def NUM_FILES_IN_DATADIR_def Let_def)

lemma demo_free: "free_name demo_fs (\<lambda>_. 0) demo_path demo_key [0x61]"
proof -
  have "murmur64 [0x61] 123 \<noteq> murmur64 [] 123"
    by (simp add: murmur64_def murmur_m_def murmur_tail_def Let_def)
  then have "demo_key \<noteq> root_key" by (simp add: demo_key_def root_key_def BuildMetaKey_path_def BuildMetaKey_def)
  then show ?thesis using demo_path demo_quiet by (simp add: free_name_def demo_view)
qed

text \<open>\<open>demo_fs\<close> with the empty file \<^verbatim>\<open>/a\<close>.\<close>

lemma demo_file:
  assumes "n < 2 ^ 55"
  obtains fs where "make_inode mem_px demo_fs demo_path mode 0 demo_mem = Some (fs, 0)"
    "fs_ok n fs (\<lambda>_. 0)" "quiet_path fs (\<lambda>_. 0) demo_path"
    "fs_view fs demo_key = Some (mk_value (demo_header mode) [0x61] [])"
    "fs_lookup fs demo_path = Some (mk_value (demo_header mode) [0x61] [])"
    "threshold (fs_state fs) = 4096"
proof -
  have ok: "fs_ok (Suc n) demo_fs (\<lambda>_. 0)" by (rule demo_ok) (use assms in simp)
  obtain fs where F: "make_inode mem_px demo_fs demo_path mode 0 demo_mem = Some (fs, 0)"
    "fs_ok n fs (\<lambda>_. 0)" "quieter (fs_ic demo_fs) (fs_ic fs) (\<lambda>_. 0)"
    "fs_state fs = (fs_state demo_fs)\<lparr>max_inode_num := 1\<rparr>"
    "fs_view fs = (fs_view demo_fs)(demo_key \<mapsto> mk_value (demo_header mode) [0x61] [])"
    using make_inode_ok [OF ok demo_free demo_NewInode, of demo_mem mode 0]
    by (auto simp: demo_mem demo_header_def demo_state)
  have "quiet_path fs (\<lambda>_. 0) demo_path"
    by (rule quiet_path_step [OF demo_quiet F(3)]) (simp_all add: demo_path)
  then show ?thesis
    using that [OF F(1,2)] F(4,5) by (simp add: fs_lookup_def demo_path demo_state)
qed

section \<open>Facts for the properties\<close>

lemma GetAttribute_init:
  fixes inum :: u64 and mode :: u32 and dev :: u64 and owner :: "u32 \<times> u32" and now :: u64
  assumes "257 + length filename \<le> length mem" "length filename < 2 ^ 32"
  shows "GetAttribute (mk_value (init_header mem inum mode dev filename owner now) filename data) =
    InitStat (fstat (decode_header mem)) inum mode dev owner now"
  using InitInodeValue_mk(2) [OF assms, of inum mode dev owner now] by (simp add: init_header_def Let_def)

lemma quiet_pathI:
  assumes "free_name fs pin path key filename" "quieter (fs_ic fs) (fs_ic fs') pin"
    and "path_key fs' path = Some (key, filename)"
  shows "quiet_path fs' pin path"
  by (rule quiet_path_step [OF _ assms(2)]) (use assms(1,3) in \<open>simp_all add: free_name_def\<close>)

lemma quiet_path_without:
  assumes "quiet_path fs pin path" "quieter (fs_ic fs) (fs_ic fs') pin"
    and "fs_view fs' = without (fs_view fs) r"
  shows "quiet_path fs' pin path"
proof (cases "path_key fs' path")
  case (Some kf)
  have "fs_view fs' \<subseteq>\<^sub>m fs_view fs"
    unfolding assms(3) by (auto simp: without_def map_le_def split: option.split)
  then have "path_key fs path = Some kf" using path_key_mono [OF Some] by blast
  then show ?thesis using quiet_path_step [OF assms(1,2)] Some by simp
qed (use assms(1) in \<open>simp add: quiet_path_def\<close>)

lemma demo_other: "path_key fs [0x2F, 0x62] = Some (BuildMetaKey_path [0x62] ROOT_INODE_ID, [0x62])"
  "demo_key \<noteq> BuildMetaKey_path [0x62] ROOT_INODE_ID" "abs_path [0x2F, 0x62]"
proof -
  show "path_key fs [0x2F, 0x62] = Some (BuildMetaKey_path [0x62] ROOT_INODE_ID, [0x62])"
    using path_key_file [of "[0x62]" fs] by (simp add: PATH_DELIMITER_def)
  show "demo_key \<noteq> BuildMetaKey_path [0x62] ROOT_INODE_ID"
    by (simp add: demo_key_def BuildMetaKey_path_def BuildMetaKey_def murmur64_def murmur_m_def murmur_tail_def Let_def)
qed (simp add: abs_path_def PATH_DELIMITER_def)

lemma demo_header_size: "st_size (fstat (demo_header mode)) = 0" "has_blob (demo_header mode) = 0"
  "st_ino (fstat (demo_header mode)) = 1" "st_mode (fstat (demo_header mode)) = mode"
  by (simp_all add: demo_header_def init_header_def InitStat_def Let_def)

lemma root_value_attr: "257 \<le> length mem \<Longrightarrow> GetAttribute (root_value px fs mem) =
    InitStat (fstat (decode_header mem)) ROOT_INODE_ID (st_mode (px_lstat px ''/tmp/'' (fs_disk fs)))
      (st_dev (px_lstat px ''/tmp/'' (fs_disk fs))) (fs_owner fs) (time_now fs)"
  by (simp add: root_value_def Let_def GetAttribute_init)

lemma root_value_name:
  assumes "257 \<le> length mem"
  shows "entry_name (root_value px fs mem) = []"
proof -
  let ?st = "px_lstat px ''/tmp/'' (fs_disk fs)"
  have "value_ok (init_header mem ROOT_INODE_ID (st_mode ?st) (st_dev ?st) [] (fs_owner fs) (time_now fs)) []"
    by (rule InitInodeValue_mk(2)) (use assms in simp_all)
  then show ?thesis using entry_name_mk [of _ "[]" "[]"] by (simp add: root_value_def Let_def)
qed

lemma distinct_singleton: "distinct xs \<Longrightarrow> set xs = {x} \<Longrightarrow> xs = [x]"
  by (cases xs) (auto simp: subset_singleton_iff)

lemma demo_file_view:
  assumes "make_inode mem_px demo_fs demo_path mode 0 demo_mem = Some (fs, 0)"
  shows "fs_view fs = (fs_view demo_fs)(demo_key \<mapsto> mk_value (demo_header mode) [0x61] [])"
  using make_inode_ok [OF demo_ok demo_free demo_NewInode, of 0 demo_mem mode 0] assms
  by (auto simp: demo_mem demo_header_def demo_state)

lemma quiet_path_unpinned: "abs_path path \<Longrightarrow> quiet_path fs (\<lambda>_. 0) path"
  by (simp add: quiet_path_def quiet_def split: option.split)

lemma demo_file_state:
  assumes "make_inode mem_px demo_fs demo_path mode 0 demo_mem = Some (fs, 0)"
  shows "fs_state fs = State_new\<lparr>datadir := ''/d'', threshold := 4096, max_inode_num := 1\<rparr>"
    "fs_disk fs = mem_empty"
  using make_inode_ok [OF demo_ok demo_free demo_NewInode, of 0 demo_mem mode 0] assms
  by (auto simp: demo_mem demo_header_def demo_state)

end
