(* ===== verification/Fs_Wrapper.thy ===== *)
theory Fs_Wrapper
  imports Fs_Mount
begin

text \<open>
  The file descriptor interface over the file system (\<^verbatim>\<open>TableFSWrapper\<close> of
  \<^verbatim>\<open>fs/fswrapper.cpp\<close>): a table of 128 descriptors, each with a path, an offset and what
  \<^verbatim>\<open>fuse_file_info\<close> carries (the flags and the address of the file handle).
  \<^item> An index outside the tables is undefined behaviour (\<open>None\<close>), as is a handle that was never set
    or is already closed.
  \<^item> The filler functions of the listing calls end without a return value; what \<^verbatim>\<open>ReadDir\<close> finds in
    its place is the argument \<open>junk\<close>, one value for each call.
  \<^item> The log messages and the writes to \<^verbatim>\<open>/dev/null\<close> (\<^verbatim>\<open>junkf\<close>) are left out, and
    \<^verbatim>\<open>TableFSTestWrapper\<close> with them, which only serves to measure the database.
\<close>

section \<open>Descriptors\<close>

definition FDLIMIT :: nat where "FDLIMIT = 128"

record 'd Wrapper =
  wr_fs :: "'d TableFS"
  wr_flags :: "u32 list"
  wr_fh :: "nat option list"
  wr_paths :: "bytes list"
  wr_offsets :: "u64 list"
  wr_freefd :: "int list"

definition Wrapper_new :: "'d TableFS \<Rightarrow> u32 list \<Rightarrow> u64 list \<Rightarrow> 'd Wrapper" where
  "Wrapper_new fs flags offsets = \<lparr>wr_fs = fs, wr_flags = flags, wr_fh = replicate FDLIMIT None,
     wr_paths = replicate FDLIMIT [], wr_offsets = offsets, wr_freefd = replicate FDLIMIT 0\<rparr>"

definition GetFileDescriptor :: "'d Wrapper \<Rightarrow> 'd Wrapper \<times> int" where
  "GetFileDescriptor w =
     (case find (\<lambda>i. wr_freefd w ! i = 0) [0..<FDLIMIT] of
        Some i \<Rightarrow> (w\<lparr>wr_freefd := (wr_freefd w)[i := 1]\<rparr>, int i)
      | None \<Rightarrow> (w, -1))"

definition ReleaseFileDescriptor :: "'d Wrapper \<Rightarrow> nat \<Rightarrow> 'd Wrapper" where
  "ReleaseFileDescriptor w fd = w\<lparr>wr_freefd := (wr_freefd w)[fd := 0]\<rparr>"

definition descriptor :: "int \<Rightarrow> nat option" where
  "descriptor fd = (if 0 \<le> fd \<and> fd < int FDLIMIT then Some (nat fd) else None)"

section \<open>Files\<close>

definition Wrapper_Open :: "'d posix \<Rightarrow> 'd Wrapper \<Rightarrow> bytes \<Rightarrow> u32 \<Rightarrow> ('d Wrapper \<times> int) option" where
  "Wrapper_Open px w path flags =
     (let (w, fd) = GetFileDescriptor w
      in Option.bind (descriptor fd) (\<lambda>i.
         let w = w\<lparr>wr_paths := (wr_paths w)[i := path], wr_offsets := (wr_offsets w)[i := 0],
                   wr_flags := (wr_flags w)[i := flags]\<rparr>
         in Option.bind (TableFS_Open px (wr_fs w) path (wr_flags w ! i)) (\<lambda>(fs, ret, fh).
            let w = w\<lparr>wr_fs := fs, wr_fh := (case fh of None \<Rightarrow> wr_fh w | Some f \<Rightarrow> (wr_fh w)[i := Some f])\<rparr>
            in if ret \<noteq> 0 then Some (ReleaseFileDescriptor w i, -1) else Some (w, fd))))"

definition Wrapper_Seek :: "'d Wrapper \<Rightarrow> int \<Rightarrow> u64 \<Rightarrow> ('d Wrapper \<times> int) option" where
  "Wrapper_Seek w fd offset =
     map_option (\<lambda>i. (w\<lparr>wr_offsets := (wr_offsets w)[i := offset]\<rparr>, 0)) (descriptor fd)"

definition Wrapper_Write :: "'d posix \<Rightarrow> 'd Wrapper \<Rightarrow> int \<Rightarrow> bytes \<Rightarrow> ('d Wrapper \<times> int) option" where
  "Wrapper_Write px w fd buf =
     Option.bind (descriptor fd) (\<lambda>i.
     Option.bind (wr_fh w ! i) (\<lambda>f.
     Option.bind (TableFS_Write px (wr_fs w) f buf (wr_offsets w ! i) (wr_flags w ! i)) (\<lambda>(fs, ret).
     let w = w\<lparr>wr_fs := fs\<rparr>
     in if ret < 0 then Some (w, ret)
        else Some (w\<lparr>wr_offsets := (wr_offsets w)[i := wr_offsets w ! i + word_of_int ret]\<rparr>, ret))))"

definition Wrapper_Read :: "'d posix \<Rightarrow> 'd Wrapper \<Rightarrow> int \<Rightarrow> u64 \<Rightarrow> ('d Wrapper \<times> int \<times> bytes) option" where
  "Wrapper_Read px w fd sz =
     Option.bind (descriptor fd) (\<lambda>i.
     Option.bind (wr_fh w ! i) (\<lambda>f.
     Option.bind (TableFS_Read px (wr_fs w) f sz (wr_offsets w ! i)) (\<lambda>(fs, ret, buf).
     let w = w\<lparr>wr_fs := fs\<rparr>
     in if ret < 0 then Some (w, ret, buf)
        else Some (w\<lparr>wr_offsets := (wr_offsets w)[i := wr_offsets w ! i + word_of_int ret]\<rparr>, ret, buf))))"

definition Wrapper_Close :: "'d posix \<Rightarrow> 'd Wrapper \<Rightarrow> int \<Rightarrow> ('d Wrapper \<times> int) option" where
  "Wrapper_Close px w fd =
     Option.bind (descriptor fd) (\<lambda>i.
     Option.bind (wr_fh w ! i) (\<lambda>f.
     Option.bind (TableFS_Release px (wr_fs w) f) (\<lambda>(fs, ret).
     Some (ReleaseFileDescriptor (w\<lparr>wr_fs := fs\<rparr>) i, ret))))"

section \<open>Names and attributes\<close>

definition Wrapper_Stat :: "'d Wrapper \<Rightarrow> bytes \<Rightarrow> ('d Wrapper \<times> int \<times> tfs_stat_t option) option" where
  "Wrapper_Stat w path = map_option (\<lambda>(fs, ret, buf). (w\<lparr>wr_fs := fs\<rparr>, ret, buf)) (TableFS_GetAttr (wr_fs w) path)"

definition stat_result :: "'d Wrapper \<Rightarrow> bytes \<Rightarrow> ('d Wrapper \<times> int) option" where
  "stat_result w path = map_option (\<lambda>(w, ret, _). (w, ret)) (Wrapper_Stat w path)"

definition Wrapper_Mknod :: "'d posix \<Rightarrow> 'd Wrapper \<Rightarrow> bytes \<Rightarrow> u32 \<Rightarrow> u64 \<Rightarrow> bytes \<Rightarrow> ('d Wrapper \<times> int) option" where
  "Wrapper_Mknod px w path mode dev mem =
     Option.bind (stat_result w path) (\<lambda>(w, ret).
     if ret = 0 then Some (w, -1)
     else Option.bind (TableFS_MakeNode px (wr_fs w) path mode dev mem) (\<lambda>(fs, ret).
          stat_result (w\<lparr>wr_fs := fs\<rparr>) path))"

definition Wrapper_Mkdir :: "'d posix \<Rightarrow> 'd Wrapper \<Rightarrow> bytes \<Rightarrow> u32 \<Rightarrow> bytes \<Rightarrow> ('d Wrapper \<times> int) option" where
  "Wrapper_Mkdir px w path mode mem =
     Option.bind (stat_result w path) (\<lambda>(w, ret).
     if ret = 0 then Some (w, -1)
     else Option.bind (TableFS_MakeDir px (wr_fs w) path mode mem) (\<lambda>(fs, ret).
          stat_result (w\<lparr>wr_fs := fs\<rparr>) path))"

definition Wrapper_Utime :: "'d Wrapper \<Rightarrow> bytes \<Rightarrow> u64 \<Rightarrow> u64 \<Rightarrow> ('d Wrapper \<times> int) option" where
  "Wrapper_Utime w path actime modtime =
     map_option (\<lambda>(fs, ret). (w\<lparr>wr_fs := fs\<rparr>, ret)) (TableFS_UpdateTimens (wr_fs w) path actime modtime)"

definition Wrapper_Chmod :: "'d Wrapper \<Rightarrow> bytes \<Rightarrow> u32 \<Rightarrow> ('d Wrapper \<times> int) option" where
  "Wrapper_Chmod w path mode =
     Option.bind (stat_result w path) (\<lambda>(w, ret).
     Option.bind (TableFS_Chmod (wr_fs w) path mode) (\<lambda>(fs, ret).
     stat_result (w\<lparr>wr_fs := fs\<rparr>) path))"

definition Wrapper_Rename :: "'d Wrapper \<Rightarrow> bytes \<Rightarrow> bytes \<Rightarrow> ('d Wrapper \<times> int) option" where
  "Wrapper_Rename w old_path new_path =
     map_option (\<lambda>(fs, ret). (w\<lparr>wr_fs := fs\<rparr>, if ret \<noteq> 0 then -1 else 0)) (TableFS_Rename (wr_fs w) old_path new_path)"

definition Wrapper_Unlink :: "'d posix \<Rightarrow> 'd Wrapper \<Rightarrow> bytes \<Rightarrow> ('d Wrapper \<times> int) option" where
  "Wrapper_Unlink px w path =
     map_option (\<lambda>(fs, ret). (w\<lparr>wr_fs := fs\<rparr>, if ret \<noteq> 0 then -1 else 0)) (TableFS_Unlink px (wr_fs w) path)"

section \<open>Listing\<close>

definition fuse_filler_dir :: "(nat \<Rightarrow> int) \<Rightarrow> nat \<Rightarrow> bytes \<Rightarrow> nat \<times> int" where
  "fuse_filler_dir junk list_dir_count name = (list_dir_count + 1, junk list_dir_count)"

definition Wrapper_Listdir :: "(nat \<Rightarrow> int) \<Rightarrow> 'd Wrapper \<Rightarrow> bytes \<Rightarrow> ('d Wrapper \<times> int) option" where
  "Wrapper_Listdir junk w path =
     Option.bind (TableFS_OpenDir (wr_fs w) path) (\<lambda>(fs, ret, h).
     let w = w\<lparr>wr_fs := fs\<rparr>
     in if ret \<noteq> 0 then Some (w, -1)
        else Option.bind h (\<lambda>h.
             Option.bind (TableFS_ReadDir fs h (fuse_filler_dir junk) 0) (\<lambda>(list_dir_count, ret).
             Some (w, if ret \<noteq> 0 then -1 else int list_dir_count))))"

definition lsstat_filler :: "(nat \<Rightarrow> int) \<Rightarrow> bytes \<Rightarrow> ('d Wrapper option \<times> nat) \<Rightarrow> bytes \<Rightarrow> ('d Wrapper option \<times> nat) \<times> int" where
  "lsstat_filler junk path = (\<lambda>(w, n) name.
     ((Option.bind w (\<lambda>w. map_option fst (stat_result w (path @ [PATH_DELIMITER] @ name))), n + 1), junk n))"

definition Wrapper_Lsstat :: "(nat \<Rightarrow> int) \<Rightarrow> 'd Wrapper \<Rightarrow> bytes \<Rightarrow> ('d Wrapper \<times> int) option" where
  "Wrapper_Lsstat junk w path =
     Option.bind (TableFS_OpenDir (wr_fs w) path) (\<lambda>(fs, ret, h).
     let w = w\<lparr>wr_fs := fs\<rparr>
     in if ret \<noteq> 0 then Some (w, -1)
        else Option.bind h (\<lambda>h.
             Option.bind (TableFS_ReadDir fs h (lsstat_filler junk path) (Some w, 0)) (\<lambda>((w, lsstat_count), ret).
             Option.bind w (\<lambda>w. Some (w, if ret \<noteq> 0 then -1 else int lsstat_count)))))"

partial_function (option) scanfile_loop :: "'d posix \<Rightarrow> 'd Wrapper \<Rightarrow> int \<Rightarrow> int \<Rightarrow> int \<Rightarrow> 'd Wrapper option" where
  "scanfile_loop px w fd limit read_size =
     (if read_size < limit then
        Option.bind (Wrapper_Read px w fd 4096) (\<lambda>r.
        if fst (snd r) = 0 then Some (fst r)
        else scanfile_loop px (fst r) fd limit (to_int (read_size + fst (snd r))))
      else Some w)"

definition scanfile_filler ::
  "(nat \<Rightarrow> int) \<Rightarrow> tfs_stat_t \<Rightarrow> 'd posix \<Rightarrow> bytes \<Rightarrow> ('d Wrapper option \<times> nat) \<Rightarrow> bytes \<Rightarrow> ('d Wrapper option \<times> nat) \<times> int" where
  "scanfile_filler junk statbuf px path = (\<lambda>(w, n) name.
     let fpath = path @ [PATH_DELIMITER] @ name
     in ((Option.bind w (\<lambda>w.
          Option.bind (Wrapper_Stat w fpath) (\<lambda>(w, _, st).
          Option.bind (Wrapper_Open px w fpath 0) (\<lambda>(w, fd).
          Option.bind (scanfile_loop px w fd (sint (st_size (case st of None \<Rightarrow> statbuf | Some s \<Rightarrow> s))) 0) (\<lambda>w.
          map_option fst (Wrapper_Close px w fd))))), n + 1), junk n))"

definition Wrapper_Scanfile ::
  "(nat \<Rightarrow> int) \<Rightarrow> tfs_stat_t \<Rightarrow> 'd posix \<Rightarrow> 'd Wrapper \<Rightarrow> bytes \<Rightarrow> ('d Wrapper \<times> int) option" where
  "Wrapper_Scanfile junk statbuf px w path =
     Option.bind (TableFS_OpenDir (wr_fs w) path) (\<lambda>(fs, ret, h).
     let w = w\<lparr>wr_fs := fs\<rparr>
     in if ret \<noteq> 0 then Some (w, -1)
        else Option.bind h (\<lambda>h.
             Option.bind (TableFS_ReadDir fs h (scanfile_filler junk statbuf px path) (Some w, 0)) (\<lambda>((w, scanfile_count), ret).
             Option.bind w (\<lambda>w. Some (w, if ret \<noteq> 0 then -1 else int scanfile_count)))))"

section \<open>Lemmas\<close>

definition wrapper_ok :: "'d Wrapper \<Rightarrow> bool" where
  "wrapper_ok w \<longleftrightarrow> length (wr_flags w) = FDLIMIT \<and> length (wr_fh w) = FDLIMIT \<and> length (wr_paths w) = FDLIMIT \<and>
     length (wr_offsets w) = FDLIMIT \<and> length (wr_freefd w) = FDLIMIT"

definition lowest_free :: "'d Wrapper \<Rightarrow> nat \<Rightarrow> bool" where
  "lowest_free w i \<longleftrightarrow> i < FDLIMIT \<and> wr_freefd w ! i = 0 \<and> (\<forall>j<i. wr_freefd w ! j \<noteq> 0)"

lemma GetFileDescriptor_lowest:
  assumes "lowest_free w i"
  shows "GetFileDescriptor w = (w\<lparr>wr_freefd := (wr_freefd w)[i := 1]\<rparr>, int i)"
proof -
  have "find (\<lambda>i. wr_freefd w ! i = 0) [0..<FDLIMIT] = Some i"
    using assms by (auto simp: find_Some_iff lowest_free_def intro!: exI [of _ i])
  then show ?thesis by (simp add: GetFileDescriptor_def)
qed

lemma GetFileDescriptor_full:
  "(\<forall>i<FDLIMIT. wr_freefd w ! i \<noteq> 0) \<longleftrightarrow> GetFileDescriptor w = (w, -1)"
proof
  assume "\<forall>i<FDLIMIT. wr_freefd w ! i \<noteq> 0"
  then have "find (\<lambda>i. wr_freefd w ! i = 0) [0..<FDLIMIT] = None" by (auto simp: find_None_iff)
  then show "GetFileDescriptor w = (w, -1)" by (simp add: GetFileDescriptor_def)
next
  assume "GetFileDescriptor w = (w, -1)"
  then have "find (\<lambda>i. wr_freefd w ! i = 0) [0..<FDLIMIT] = None"
    by (auto simp: GetFileDescriptor_def split: option.splits)
  then show "\<forall>i<FDLIMIT. wr_freefd w ! i \<noteq> 0" by (auto simp: find_None_iff)
qed

lemma descriptor_int [simp]: "i < FDLIMIT \<Longrightarrow> descriptor (int i) = Some i"
  by (simp add: descriptor_def)

text \<open>An open descriptor: its entry of the tables, over an open handle of the file system.\<close>

definition open_fd :: "'d Wrapper \<Rightarrow> nat \<Rightarrow> nat \<Rightarrow> u64 \<Rightarrow> bool" where
  "open_fd w i f off \<longleftrightarrow> wrapper_ok w \<and> i < FDLIMIT \<and> wr_fh w ! i = Some f \<and> wr_offsets w ! i = off"

lemma Wrapper_Open_ok:
  assumes "wrapper_ok w" "lowest_free w i" "TableFS_Open px (wr_fs w) path flags = Some (fs', 0, Some f)"
  obtains w' where "Wrapper_Open px w path flags = Some (w', int i)" "wr_fs w' = fs'" "open_fd w' i f 0"
    "wr_freefd w' = (wr_freefd w)[i := 1]"
proof -
  have "i < FDLIMIT" using assms(2) by (simp add: lowest_free_def)
  then show ?thesis
    using assms(1,3) that by (simp add: Wrapper_Open_def GetFileDescriptor_lowest [OF assms(2)] open_fd_def wrapper_ok_def Let_def)
qed

lemma Wrapper_Write_ok:
  assumes "open_fd w i f off" "TableFS_Write px (wr_fs w) f buf off (wr_flags w ! i) = Some (fs', int (length buf))"
  obtains w' where "Wrapper_Write px w (int i) buf = Some (w', int (length buf))" "wr_fs w' = fs'"
    "open_fd w' i f (off + of_nat (length buf))" "wr_freefd w' = wr_freefd w"
  using assms that by (simp add: open_fd_def Wrapper_Write_def wrapper_ok_def Let_def)

lemma Wrapper_Read_ok:
  assumes "open_fd w i f off" "TableFS_Read px (wr_fs w) f sz off = Some (fs', int (length buf), buf)"
  obtains w' where "Wrapper_Read px w (int i) sz = Some (w', int (length buf), buf)" "wr_fs w' = fs'"
    "open_fd w' i f (off + of_nat (length buf))" "wr_freefd w' = wr_freefd w"
  using assms that by (simp add: open_fd_def Wrapper_Read_def wrapper_ok_def Let_def)

lemma Wrapper_Seek_ok:
  assumes "open_fd w i f off"
  obtains w' where "Wrapper_Seek w (int i) off' = Some (w', 0)" "wr_fs w' = wr_fs w" "open_fd w' i f off'"
    "wr_freefd w' = wr_freefd w"
  using assms that by (simp add: open_fd_def Wrapper_Seek_def wrapper_ok_def)

lemma Wrapper_Close_ok:
  assumes "open_fd w i f off" "TableFS_Release px (wr_fs w) f = Some (fs', 0)"
  obtains w' where "Wrapper_Close px w (int i) = Some (w', 0)" "wr_fs w' = fs'" "wrapper_ok w'"
    "wr_freefd w' = (wr_freefd w)[i := 0]"
  using assms that by (simp add: open_fd_def Wrapper_Close_def wrapper_ok_def ReleaseFileDescriptor_def)

text \<open>Two writes in a row write their concatenation.\<close>

lemma write_at_append:
  "write_at (write_at data off b1) (off + length b1) b2 = write_at data off (b1 @ b2)"
proof (rule nth_equalityI)
  show "length (write_at (write_at data off b1) (off + length b1) b2) = length (write_at data off (b1 @ b2))"
    by (simp add: length_write_at)
  show "write_at (write_at data off b1) (off + length b1) b2 ! i = write_at data off (b1 @ b2) ! i"
    if "i < length (write_at (write_at data off b1) (off + length b1) b2)" for i
    using that by (auto simp: nth_write_at length_write_at nth_append)
qed

section \<open>Properties\<close>

text \<open>C33: Reading and writing through a descriptor is sequential. \<^verbatim>\<open>Open\<close> of an inline file returns
  the lowest free descriptor; two writes land one after the other at the start of the file; after a
  \<^verbatim>\<open>Seek\<close> to 0 a read returns both; \<^verbatim>\<open>Close\<close> returns 0, frees exactly that descriptor, and the
  file then holds the data. With all 128 descriptors in use \<^verbatim>\<open>Open\<close> is undefined behaviour: it
  writes to the tables at -1.\<close>
theorem descriptor_io:
  fixes w :: "'d Wrapper"
  assumes "wrapper_ok w" "lowest_free w i"
    and "fs_ok (Suc (Suc n)) (wr_fs w) pin" "quiet_path (wr_fs w) pin path" "path_key (wr_fs w) path = Some (key, filename)"
    and "fs_view (wr_fs w) key = Some (mk_value hh name data)" "value_ok hh name" "has_blob hh = 0"
    and "int (length b1 + length b2) \<le> threshold (fs_state (wr_fs w))" "threshold (fs_state (wr_fs w)) < 2 ^ 31"
    and "257 + length name + max (length data) (length b1 + length b2) < 2 ^ 31"
  shows "(\<exists>w1 w2 w3 w4 w5 w6 now. Wrapper_Open px w path O_RDWR = Some (w1, int i) \<and>
      Wrapper_Write px w1 (int i) b1 = Some (w2, int (length b1)) \<and>
      Wrapper_Write px w2 (int i) b2 = Some (w3, int (length b2)) \<and>
      Wrapper_Seek w3 (int i) 0 = Some (w4, 0) \<and>
      Wrapper_Read px w4 (int i) (of_nat (length b1 + length b2)) = Some (w5, int (length (b1 @ b2)), b1 @ b2) \<and>
      Wrapper_Close px w5 (int i) = Some (w6, 0) \<and> wrapper_ok w6 \<and> wr_freefd w6 = wr_freefd w \<and>
      fs_view (wr_fs w6) = (fs_view (wr_fs w))(key \<mapsto>
        mk_value (touched (grown (grown hh (of_nat (length b1))) (of_nat (length b1 + length b2))) now)
          name (write_at data 0 (b1 @ b2)))) \<and>
    (\<forall>w' :: 'd Wrapper. wr_freefd w' = replicate FDLIMIT 1 \<longrightarrow> Wrapper_Open px w' path flags = None)"
proof -
  let ?fs = "wr_fs w" and ?n1 = "of_nat (length b1) :: u64" and ?n2 = "of_nat (length b1 + length b2) :: u64"
  obtain fs1 f fh p where O: "TableFS_Open px ?fs path O_RDWR = Some (fs1, 0, Some f)"
    "pin (fh_handle fh) = 0" "fs_ok (Suc (Suc n)) fs1 (pin(fh_handle fh := 1))" "fs_view fs1 = fs_view ?fs"
    "open_file fs1 (pin(fh_handle fh := 1)) f fh
       \<lparr>ih_key = key, ih_value = mk_value hh name data, ih_mode = open_mode O_RDWR, ih_pointer = Some p\<rparr>"
    "fs_state fs1 = fs_state ?fs" "ad_now (metadb fs1) = ad_now (metadb ?fs)" "quieter (fs_ic ?fs) (fs_ic fs1) pin"
    "fs_disk fs1 = fs_disk ?fs"
    by (rule Open_inline [OF assms(3-8)]) (rule that)
  let ?handle = "\<lparr>ih_key = key, ih_value = mk_value hh name data, ih_mode = open_mode O_RDWR, ih_pointer = Some p\<rparr>"
  let ?h1 = "grown hh ?n1" and ?d1 = "write_at data 0 b1" and ?d2 = "write_at data 0 (b1 @ b2)"
  let ?h2 = "grown ?h1 ?n2"
  let ?handle1 = "?handle\<lparr>ih_mode := INODE_WRITE, ih_value := mk_value ?h1 name ?d1\<rparr>"
  let ?handle2 = "?handle1\<lparr>ih_mode := INODE_WRITE, ih_value := mk_value ?h2 name ?d2\<rparr>"
  have lens: "length b1 < 2 ^ 31" "length b2 < 2 ^ 31" "length b1 + length b2 < 2 ^ 31" using assms(11) by auto
  have n: "unat ?n1 = length b1" "unat ?n2 = length b1 + length b2"
    using lens by (simp_all add: unat_of_nat take_bit_nat_eq_self del: of_nat_add)
  have v: "ih_value ?handle = mk_value hh name data" "ih_value ?handle1 = mk_value ?h1 name ?d1"
    "ih_value ?handle2 = mk_value ?h2 name ?d2" by simp_all
  have h1: "value_ok ?h1 name" "has_blob ?h1 = 0" using assms(7,8) by (simp_all add: value_ok_grown) (simp add: grown_def)
  have h2: "value_ok ?h2 name" "has_blob ?h2 = 0" "st_ino (fstat ?h2) = st_ino (fstat hh)"
    using h1 by (simp_all add: value_ok_grown) (simp_all add: grown_def)
  obtain w1 where w1: "Wrapper_Open px w path O_RDWR = Some (w1, int i)" "wr_fs w1 = fs1" "open_fd w1 i f 0"
    "wr_freefd w1 = (wr_freefd w)[i := 1]"
    by (rule Wrapper_Open_ok [OF assms(1,2) O(1)]) (rule that)
  have room1: "int (unat (0 :: u64) + length b1) \<le> threshold (fs_state fs1)" "threshold (fs_state fs1) < 2 ^ 31"
    "257 + length name + max (length data) (unat (0 :: u64) + length b1) < 2 ^ 32"
    using assms(9-11) O(6) by auto
  obtain fs2 where W1: "TableFS_Write px fs1 f b1 0 (wr_flags w1 ! i) = Some (fs2, int (length b1))"
    "fs_ok (Suc (Suc n)) fs2 (pin(fh_handle fh := 1))" "fs_view fs2 = fs_view fs1" "fs_state fs2 = fs_state fs1"
    "open_file fs2 (pin(fh_handle fh := 1)) f fh ?handle1"
    "metadb fs2 = metadb fs1" "\<And>g. g \<noteq> fh_handle fh \<Longrightarrow> handle_at fs2 g = handle_at fs1 g"
    by (rule Write_inline [OF O(3,5) v(1) assms(7,8) room1, unfolded add_0_left unat_0]) (rule that)
  obtain w2 where w2: "Wrapper_Write px w1 (int i) b1 = Some (w2, int (length b1))" "wr_fs w2 = fs2"
    "open_fd w2 i f (0 + ?n1)" "wr_freefd w2 = wr_freefd w1"
    by (rule Wrapper_Write_ok [OF w1(3), unfolded w1(2), OF W1(1)]) (rule that)
  have room2: "int (unat (0 + ?n1) + length b2) \<le> threshold (fs_state fs2)" "threshold (fs_state fs2) < 2 ^ 31"
    "257 + length name + max (length ?d1) (unat (0 + ?n1) + length b2) < 2 ^ 32"
    using assms(9-11) O(6) W1(4) n(1) by (auto simp: length_write_at)
  have e2: "0 + ?n1 + of_nat (length b2) = ?n2" "write_at ?d1 (unat (0 + ?n1)) b2 = ?d2"
    using write_at_append [of data 0 b1 b2] n(1) by simp_all
  obtain fs3 where W2: "TableFS_Write px fs2 f b2 (0 + ?n1) (wr_flags w2 ! i) = Some (fs3, int (length b2))"
    "fs_ok (Suc (Suc n)) fs3 (pin(fh_handle fh := 1))" "fs_view fs3 = fs_view fs2" "fs_state fs3 = fs_state fs2"
    "open_file fs3 (pin(fh_handle fh := 1)) f fh ?handle2"
    "metadb fs3 = metadb fs2" "\<And>g. g \<noteq> fh_handle fh \<Longrightarrow> handle_at fs3 g = handle_at fs2 g"
    by (rule Write_inline [OF W1(2,5) v(2) h1 room2, unfolded e2]) (rule that)
  obtain w3 where w3: "Wrapper_Write px w2 (int i) b2 = Some (w3, int (length b2))" "wr_fs w3 = fs3"
    "open_fd w3 i f (0 + ?n1 + of_nat (length b2))" "wr_freefd w3 = wr_freefd w2"
    by (rule Wrapper_Write_ok [OF w2(3), unfolded w2(2), OF W2(1)]) (rule that)
  obtain w4 where w4: "Wrapper_Seek w3 (int i) 0 = Some (w4, 0)" "wr_fs w4 = fs3" "open_fd w4 i f 0"
    "wr_freefd w4 = wr_freefd w3"
    by (rule Wrapper_Seek_ok [OF w3(3), of 0, unfolded w3(2)]) (rule that)
  have bounds: "unat (0 :: u64) < 2 ^ 62" "unat ?n2 < 2 ^ 62" "length ?d2 < 2 ^ 31"
    using lens n(2) assms(11) by (auto simp: length_write_at)
  have "take (unat ?n2) (drop (unat (0 :: u64)) ?d2) = b1 @ b2" unfolding n(2) by (simp add: write_at_def)
  then have R: "TableFS_Read px fs3 f ?n2 0 = Some (fs3, int (length (b1 @ b2)), b1 @ b2)"
    using Read_inline [OF W2(5) v(3) h2(1,2) bounds, of px] by simp
  obtain w5 where w5: "Wrapper_Read px w4 (int i) ?n2 = Some (w5, int (length (b1 @ b2)), b1 @ b2)" "wr_fs w5 = fs3"
    "open_fd w5 i f (0 + of_nat (length (b1 @ b2)))" "wr_freefd w5 = wr_freefd w4"
    by (rule Wrapper_Read_ok [OF w4(3), unfolded w4(2), OF R]) (rule that)
  have old: "ih_mode ?handle2 = INODE_WRITE" "fs_view fs3 (ih_key ?handle2) = Some (mk_value hh name data)"
    "st_ino (GetAttribute (mk_value hh name data)) = st_ino (fstat ?h2)"
    using W2(3) W1(3) O(4) assms(6,7) h2(3) by simp_all
  obtain fs4 where C: "TableFS_Release px fs3 f = Some (fs4, 0)" "fs_ok n fs4 pin"
    "fs_view fs4 = (fs_view fs3)(ih_key ?handle2 \<mapsto> mk_value (touched ?h2 (time_now fs3)) name ?d2)"
    "fs_fhs fs4 f = None" "fs_state fs4 = fs_state fs3"
    by (rule Release_inline [OF W2(2) O(2) W2(5) v(3) h2(1) old]) (rule that)
  obtain w6 where w6: "Wrapper_Close px w5 (int i) = Some (w6, 0)" "wr_fs w6 = fs4" "wrapper_ok w6"
    "wr_freefd w6 = (wr_freefd w5)[i := 0]"
    by (rule Wrapper_Close_ok [OF w5(3), unfolded w5(2), OF C(1)]) (rule that)
  have "wr_freefd w6 = (wr_freefd w)[i := 0]" using w6(4) w5(4) w4(4) w3(4) w2(4) w1(4) by simp
  moreover have "wr_freefd w ! i = 0" using assms(2) by (simp add: lowest_free_def)
  ultimately have free: "wr_freefd w6 = wr_freefd w" by (metis list_update_id)
  have view: "fs_view (wr_fs w6) = (fs_view ?fs)(key \<mapsto> mk_value (touched ?h2 (time_now fs3)) name ?d2)"
    using C(3) W2(3) W1(3) O(4) w6(2) by simp
  have full: "Wrapper_Open px w' path flags = None" if "wr_freefd w' = replicate FDLIMIT 1" for w' :: "'d Wrapper"
  proof -
    have "GetFileDescriptor w' = (w', -1)" using that GetFileDescriptor_full [of w'] by simp
    then show ?thesis by (simp add: Wrapper_Open_def descriptor_def)
  qed
  show ?thesis using w1(1) w2(1) w3(1) w4(1) w5(1) w6(1,3) free view full by blast
qed

theorem descriptor_io_witness:
  "\<exists>fs w1 w2 w3 w4 w5 w6. make_inode mem_px demo_fs demo_path 0x81A4 0 demo_mem = Some (fs, 0) \<and>
     Wrapper_Open mem_px (Wrapper_new fs (replicate FDLIMIT 0) (replicate FDLIMIT 0)) demo_path O_RDWR = Some (w1, 0) \<and>
     Wrapper_Write mem_px w1 0 [1, 2] = Some (w2, 2) \<and> Wrapper_Write mem_px w2 0 [3] = Some (w3, 1) \<and>
     Wrapper_Seek w3 0 0 = Some (w4, 0) \<and> Wrapper_Read mem_px w4 0 3 = Some (w5, 3, [1, 2, 3]) \<and>
     Wrapper_Close mem_px w5 0 = Some (w6, 0)"
proof -
  have n: "Suc (Suc 0) < 2 ^ 55" by simp
  obtain fs where F: "make_inode mem_px demo_fs demo_path 0x81A4 0 demo_mem = Some (fs, 0)"
    "fs_ok (Suc (Suc 0)) fs (\<lambda>_. 0)" "quiet_path fs (\<lambda>_. 0) demo_path"
    "fs_view fs demo_key = Some (mk_value (demo_header 0x81A4) [0x61] [])"
    "fs_lookup fs demo_path = Some (mk_value (demo_header 0x81A4) [0x61] [])"
    "threshold (fs_state fs) = 4096"
    by (rule demo_file [OF n]) (rule that)
  let ?w = "Wrapper_new fs (replicate FDLIMIT 0) (replicate FDLIMIT 0)"
  have w: "wrapper_ok ?w" "lowest_free ?w 0" "wr_fs ?w = fs"
    by (simp_all add: Wrapper_new_def wrapper_ok_def lowest_free_def FDLIMIT_def)
  have room: "int (length [1 :: byte, 2] + length [3 :: byte]) \<le> threshold (fs_state fs)" "threshold (fs_state fs) < 2 ^ 31"
    "257 + length [0x61 :: byte] + max (length ([] :: bytes)) (length [1 :: byte, 2] + length [3 :: byte]) < 2 ^ 31"
    using F(6) by simp_all
  note path = demo_path(2) [of fs]
  from descriptor_io [OF w(1,2), unfolded w(3), OF F(2,3) path F(4) demo_header_ok demo_header_size(2) room, of mem_px]
  show ?thesis using F(1) by fastforce
qed

end
