(* ===== verification/Crc32c.thy ===== *)
theory Crc32c
  imports Coding
begin

text \<open>
  The checksum of log records and table blocks (\<^verbatim>\<open>util/crc32c.cc\<close>, \<^verbatim>\<open>util/crc32c.h\<close>): CRC-32C
  with four tables of 256 words, up to four bytes a step.
  \<^item> The address of the data matters to the code (it first steps to a multiple of 4), so
    \<open>crc32c_Extend\<close> takes it as \<open>pval\<close>.
  \<^item> \<open>crc_byte\<close> is the definition of the checksum one bit at a time. The tables are proved to hold its
    values, so \<open>crc32c_Extend\<close> computes it whatever the address; and as every step is a bijection, the
    checksum of data with one byte changed is different.
\<close>

section \<open>The code\<close>

definition table0 :: "u32 list" where
  "table0 = [
    0x00000000, 0xF26B8303, 0xE13B70F7, 0x1350F3F4, 0xC79A971F, 0x35F1141C, 0x26A1E7E8, 0xD4CA64EB,
    0x8AD958CF, 0x78B2DBCC, 0x6BE22838, 0x9989AB3B, 0x4D43CFD0, 0xBF284CD3, 0xAC78BF27, 0x5E133C24,
    0x105EC76F, 0xE235446C, 0xF165B798, 0x030E349B, 0xD7C45070, 0x25AFD373, 0x36FF2087, 0xC494A384,
    0x9A879FA0, 0x68EC1CA3, 0x7BBCEF57, 0x89D76C54, 0x5D1D08BF, 0xAF768BBC, 0xBC267848, 0x4E4DFB4B,
    0x20BD8EDE, 0xD2D60DDD, 0xC186FE29, 0x33ED7D2A, 0xE72719C1, 0x154C9AC2, 0x061C6936, 0xF477EA35,
    0xAA64D611, 0x580F5512, 0x4B5FA6E6, 0xB93425E5, 0x6DFE410E, 0x9F95C20D, 0x8CC531F9, 0x7EAEB2FA,
    0x30E349B1, 0xC288CAB2, 0xD1D83946, 0x23B3BA45, 0xF779DEAE, 0x05125DAD, 0x1642AE59, 0xE4292D5A,
    0xBA3A117E, 0x4851927D, 0x5B016189, 0xA96AE28A, 0x7DA08661, 0x8FCB0562, 0x9C9BF696, 0x6EF07595,
    0x417B1DBC, 0xB3109EBF, 0xA0406D4B, 0x522BEE48, 0x86E18AA3, 0x748A09A0, 0x67DAFA54, 0x95B17957,
    0xCBA24573, 0x39C9C670, 0x2A993584, 0xD8F2B687, 0x0C38D26C, 0xFE53516F, 0xED03A29B, 0x1F682198,
    0x5125DAD3, 0xA34E59D0, 0xB01EAA24, 0x42752927, 0x96BF4DCC, 0x64D4CECF, 0x77843D3B, 0x85EFBE38,
    0xDBFC821C, 0x2997011F, 0x3AC7F2EB, 0xC8AC71E8, 0x1C661503, 0xEE0D9600, 0xFD5D65F4, 0x0F36E6F7,
    0x61C69362, 0x93AD1061, 0x80FDE395, 0x72966096, 0xA65C047D, 0x5437877E, 0x4767748A, 0xB50CF789,
    0xEB1FCBAD, 0x197448AE, 0x0A24BB5A, 0xF84F3859, 0x2C855CB2, 0xDEEEDFB1, 0xCDBE2C45, 0x3FD5AF46,
    0x7198540D, 0x83F3D70E, 0x90A324FA, 0x62C8A7F9, 0xB602C312, 0x44694011, 0x5739B3E5, 0xA55230E6,
    0xFB410CC2, 0x092A8FC1, 0x1A7A7C35, 0xE811FF36, 0x3CDB9BDD, 0xCEB018DE, 0xDDE0EB2A, 0x2F8B6829,
    0x82F63B78, 0x709DB87B, 0x63CD4B8F, 0x91A6C88C, 0x456CAC67, 0xB7072F64, 0xA457DC90, 0x563C5F93,
    0x082F63B7, 0xFA44E0B4, 0xE9141340, 0x1B7F9043, 0xCFB5F4A8, 0x3DDE77AB, 0x2E8E845F, 0xDCE5075C,
    0x92A8FC17, 0x60C37F14, 0x73938CE0, 0x81F80FE3, 0x55326B08, 0xA759E80B, 0xB4091BFF, 0x466298FC,
    0x1871A4D8, 0xEA1A27DB, 0xF94AD42F, 0x0B21572C, 0xDFEB33C7, 0x2D80B0C4, 0x3ED04330, 0xCCBBC033,
    0xA24BB5A6, 0x502036A5, 0x4370C551, 0xB11B4652, 0x65D122B9, 0x97BAA1BA, 0x84EA524E, 0x7681D14D,
    0x2892ED69, 0xDAF96E6A, 0xC9A99D9E, 0x3BC21E9D, 0xEF087A76, 0x1D63F975, 0x0E330A81, 0xFC588982,
    0xB21572C9, 0x407EF1CA, 0x532E023E, 0xA145813D, 0x758FE5D6, 0x87E466D5, 0x94B49521, 0x66DF1622,
    0x38CC2A06, 0xCAA7A905, 0xD9F75AF1, 0x2B9CD9F2, 0xFF56BD19, 0x0D3D3E1A, 0x1E6DCDEE, 0xEC064EED,
    0xC38D26C4, 0x31E6A5C7, 0x22B65633, 0xD0DDD530, 0x0417B1DB, 0xF67C32D8, 0xE52CC12C, 0x1747422F,
    0x49547E0B, 0xBB3FFD08, 0xA86F0EFC, 0x5A048DFF, 0x8ECEE914, 0x7CA56A17, 0x6FF599E3, 0x9D9E1AE0,
    0xD3D3E1AB, 0x21B862A8, 0x32E8915C, 0xC083125F, 0x144976B4, 0xE622F5B7, 0xF5720643, 0x07198540,
    0x590AB964, 0xAB613A67, 0xB831C993, 0x4A5A4A90, 0x9E902E7B, 0x6CFBAD78, 0x7FAB5E8C, 0x8DC0DD8F,
    0xE330A81A, 0x115B2B19, 0x020BD8ED, 0xF0605BEE, 0x24AA3F05, 0xD6C1BC06, 0xC5914FF2, 0x37FACCF1,
    0x69E9F0D5, 0x9B8273D6, 0x88D28022, 0x7AB90321, 0xAE7367CA, 0x5C18E4C9, 0x4F48173D, 0xBD23943E,
    0xF36E6F75, 0x0105EC76, 0x12551F82, 0xE03E9C81, 0x34F4F86A, 0xC69F7B69, 0xD5CF889D, 0x27A40B9E,
    0x79B737BA, 0x8BDCB4B9, 0x988C474D, 0x6AE7C44E, 0xBE2DA0A5, 0x4C4623A6, 0x5F16D052, 0xAD7D5351]"

definition table1 :: "u32 list" where
  "table1 = [
    0x00000000, 0x13A29877, 0x274530EE, 0x34E7A899, 0x4E8A61DC, 0x5D28F9AB, 0x69CF5132, 0x7A6DC945,
    0x9D14C3B8, 0x8EB65BCF, 0xBA51F356, 0xA9F36B21, 0xD39EA264, 0xC03C3A13, 0xF4DB928A, 0xE7790AFD,
    0x3FC5F181, 0x2C6769F6, 0x1880C16F, 0x0B225918, 0x714F905D, 0x62ED082A, 0x560AA0B3, 0x45A838C4,
    0xA2D13239, 0xB173AA4E, 0x859402D7, 0x96369AA0, 0xEC5B53E5, 0xFFF9CB92, 0xCB1E630B, 0xD8BCFB7C,
    0x7F8BE302, 0x6C297B75, 0x58CED3EC, 0x4B6C4B9B, 0x310182DE, 0x22A31AA9, 0x1644B230, 0x05E62A47,
    0xE29F20BA, 0xF13DB8CD, 0xC5DA1054, 0xD6788823, 0xAC154166, 0xBFB7D911, 0x8B507188, 0x98F2E9FF,
    0x404E1283, 0x53EC8AF4, 0x670B226D, 0x74A9BA1A, 0x0EC4735F, 0x1D66EB28, 0x298143B1, 0x3A23DBC6,
    0xDD5AD13B, 0xCEF8494C, 0xFA1FE1D5, 0xE9BD79A2, 0x93D0B0E7, 0x80722890, 0xB4958009, 0xA737187E,
    0xFF17C604, 0xECB55E73, 0xD852F6EA, 0xCBF06E9D, 0xB19DA7D8, 0xA23F3FAF, 0x96D89736, 0x857A0F41,
    0x620305BC, 0x71A19DCB, 0x45463552, 0x56E4AD25, 0x2C896460, 0x3F2BFC17, 0x0BCC548E, 0x186ECCF9,
    0xC0D23785, 0xD370AFF2, 0xE797076B, 0xF4359F1C, 0x8E585659, 0x9DFACE2E, 0xA91D66B7, 0xBABFFEC0,
    0x5DC6F43D, 0x4E646C4A, 0x7A83C4D3, 0x69215CA4, 0x134C95E1, 0x00EE0D96, 0x3409A50F, 0x27AB3D78,
    0x809C2506, 0x933EBD71, 0xA7D915E8, 0xB47B8D9F, 0xCE1644DA, 0xDDB4DCAD, 0xE9537434, 0xFAF1EC43,
    0x1D88E6BE, 0x0E2A7EC9, 0x3ACDD650, 0x296F4E27, 0x53028762, 0x40A01F15, 0x7447B78C, 0x67E52FFB,
    0xBF59D487, 0xACFB4CF0, 0x981CE469, 0x8BBE7C1E, 0xF1D3B55B, 0xE2712D2C, 0xD69685B5, 0xC5341DC2,
    0x224D173F, 0x31EF8F48, 0x050827D1, 0x16AABFA6, 0x6CC776E3, 0x7F65EE94, 0x4B82460D, 0x5820DE7A,
    0xFBC3FAF9, 0xE861628E, 0xDC86CA17, 0xCF245260, 0xB5499B25, 0xA6EB0352, 0x920CABCB, 0x81AE33BC,
    0x66D73941, 0x7575A136, 0x419209AF, 0x523091D8, 0x285D589D, 0x3BFFC0EA, 0x0F186873, 0x1CBAF004,
    0xC4060B78, 0xD7A4930F, 0xE3433B96, 0xF0E1A3E1, 0x8A8C6AA4, 0x992EF2D3, 0xADC95A4A, 0xBE6BC23D,
    0x5912C8C0, 0x4AB050B7, 0x7E57F82E, 0x6DF56059, 0x1798A91C, 0x043A316B, 0x30DD99F2, 0x237F0185,
    0x844819FB, 0x97EA818C, 0xA30D2915, 0xB0AFB162, 0xCAC27827, 0xD960E050, 0xED8748C9, 0xFE25D0BE,
    0x195CDA43, 0x0AFE4234, 0x3E19EAAD, 0x2DBB72DA, 0x57D6BB9F, 0x447423E8, 0x70938B71, 0x63311306,
    0xBB8DE87A, 0xA82F700D, 0x9CC8D894, 0x8F6A40E3, 0xF50789A6, 0xE6A511D1, 0xD242B948, 0xC1E0213F,
    0x26992BC2, 0x353BB3B5, 0x01DC1B2C, 0x127E835B, 0x68134A1E, 0x7BB1D269, 0x4F567AF0, 0x5CF4E287,
    0x04D43CFD, 0x1776A48A, 0x23910C13, 0x30339464, 0x4A5E5D21, 0x59FCC556, 0x6D1B6DCF, 0x7EB9F5B8,
    0x99C0FF45, 0x8A626732, 0xBE85CFAB, 0xAD2757DC, 0xD74A9E99, 0xC4E806EE, 0xF00FAE77, 0xE3AD3600,
    0x3B11CD7C, 0x28B3550B, 0x1C54FD92, 0x0FF665E5, 0x759BACA0, 0x663934D7, 0x52DE9C4E, 0x417C0439,
    0xA6050EC4, 0xB5A796B3, 0x81403E2A, 0x92E2A65D, 0xE88F6F18, 0xFB2DF76F, 0xCFCA5FF6, 0xDC68C781,
    0x7B5FDFFF, 0x68FD4788, 0x5C1AEF11, 0x4FB87766, 0x35D5BE23, 0x26772654, 0x12908ECD, 0x013216BA,
    0xE64B1C47, 0xF5E98430, 0xC10E2CA9, 0xD2ACB4DE, 0xA8C17D9B, 0xBB63E5EC, 0x8F844D75, 0x9C26D502,
    0x449A2E7E, 0x5738B609, 0x63DF1E90, 0x707D86E7, 0x0A104FA2, 0x19B2D7D5, 0x2D557F4C, 0x3EF7E73B,
    0xD98EEDC6, 0xCA2C75B1, 0xFECBDD28, 0xED69455F, 0x97048C1A, 0x84A6146D, 0xB041BCF4, 0xA3E32483]"

definition table2 :: "u32 list" where
  "table2 = [
    0x00000000, 0xA541927E, 0x4F6F520D, 0xEA2EC073, 0x9EDEA41A, 0x3B9F3664, 0xD1B1F617, 0x74F06469,
    0x38513EC5, 0x9D10ACBB, 0x773E6CC8, 0xD27FFEB6, 0xA68F9ADF, 0x03CE08A1, 0xE9E0C8D2, 0x4CA15AAC,
    0x70A27D8A, 0xD5E3EFF4, 0x3FCD2F87, 0x9A8CBDF9, 0xEE7CD990, 0x4B3D4BEE, 0xA1138B9D, 0x045219E3,
    0x48F3434F, 0xEDB2D131, 0x079C1142, 0xA2DD833C, 0xD62DE755, 0x736C752B, 0x9942B558, 0x3C032726,
    0xE144FB14, 0x4405696A, 0xAE2BA919, 0x0B6A3B67, 0x7F9A5F0E, 0xDADBCD70, 0x30F50D03, 0x95B49F7D,
    0xD915C5D1, 0x7C5457AF, 0x967A97DC, 0x333B05A2, 0x47CB61CB, 0xE28AF3B5, 0x08A433C6, 0xADE5A1B8,
    0x91E6869E, 0x34A714E0, 0xDE89D493, 0x7BC846ED, 0x0F382284, 0xAA79B0FA, 0x40577089, 0xE516E2F7,
    0xA9B7B85B, 0x0CF62A25, 0xE6D8EA56, 0x43997828, 0x37691C41, 0x92288E3F, 0x78064E4C, 0xDD47DC32,
    0xC76580D9, 0x622412A7, 0x880AD2D4, 0x2D4B40AA, 0x59BB24C3, 0xFCFAB6BD, 0x16D476CE, 0xB395E4B0,
    0xFF34BE1C, 0x5A752C62, 0xB05BEC11, 0x151A7E6F, 0x61EA1A06, 0xC4AB8878, 0x2E85480B, 0x8BC4DA75,
    0xB7C7FD53, 0x12866F2D, 0xF8A8AF5E, 0x5DE93D20, 0x29195949, 0x8C58CB37, 0x66760B44, 0xC337993A,
    0x8F96C396, 0x2AD751E8, 0xC0F9919B, 0x65B803E5, 0x1148678C, 0xB409F5F2, 0x5E273581, 0xFB66A7FF,
    0x26217BCD, 0x8360E9B3, 0x694E29C0, 0xCC0FBBBE, 0xB8FFDFD7, 0x1DBE4DA9, 0xF7908DDA, 0x52D11FA4,
    0x1E704508, 0xBB31D776, 0x511F1705, 0xF45E857B, 0x80AEE112, 0x25EF736C, 0xCFC1B31F, 0x6A802161,
    0x56830647, 0xF3C29439, 0x19EC544A, 0xBCADC634, 0xC85DA25D, 0x6D1C3023, 0x8732F050, 0x2273622E,
    0x6ED23882, 0xCB93AAFC, 0x21BD6A8F, 0x84FCF8F1, 0xF00C9C98, 0x554D0EE6, 0xBF63CE95, 0x1A225CEB,
    0x8B277743, 0x2E66E53D, 0xC448254E, 0x6109B730, 0x15F9D359, 0xB0B84127, 0x5A968154, 0xFFD7132A,
    0xB3764986, 0x1637DBF8, 0xFC191B8B, 0x595889F5, 0x2DA8ED9C, 0x88E97FE2, 0x62C7BF91, 0xC7862DEF,
    0xFB850AC9, 0x5EC498B7, 0xB4EA58C4, 0x11ABCABA, 0x655BAED3, 0xC01A3CAD, 0x2A34FCDE, 0x8F756EA0,
    0xC3D4340C, 0x6695A672, 0x8CBB6601, 0x29FAF47F, 0x5D0A9016, 0xF84B0268, 0x1265C21B, 0xB7245065,
    0x6A638C57, 0xCF221E29, 0x250CDE5A, 0x804D4C24, 0xF4BD284D, 0x51FCBA33, 0xBBD27A40, 0x1E93E83E,
    0x5232B292, 0xF77320EC, 0x1D5DE09F, 0xB81C72E1, 0xCCEC1688, 0x69AD84F6, 0x83834485, 0x26C2D6FB,
    0x1AC1F1DD, 0xBF8063A3, 0x55AEA3D0, 0xF0EF31AE, 0x841F55C7, 0x215EC7B9, 0xCB7007CA, 0x6E3195B4,
    0x2290CF18, 0x87D15D66, 0x6DFF9D15, 0xC8BE0F6B, 0xBC4E6B02, 0x190FF97C, 0xF321390F, 0x5660AB71,
    0x4C42F79A, 0xE90365E4, 0x032DA597, 0xA66C37E9, 0xD29C5380, 0x77DDC1FE, 0x9DF3018D, 0x38B293F3,
    0x7413C95F, 0xD1525B21, 0x3B7C9B52, 0x9E3D092C, 0xEACD6D45, 0x4F8CFF3B, 0xA5A23F48, 0x00E3AD36,
    0x3CE08A10, 0x99A1186E, 0x738FD81D, 0xD6CE4A63, 0xA23E2E0A, 0x077FBC74, 0xED517C07, 0x4810EE79,
    0x04B1B4D5, 0xA1F026AB, 0x4BDEE6D8, 0xEE9F74A6, 0x9A6F10CF, 0x3F2E82B1, 0xD50042C2, 0x7041D0BC,
    0xAD060C8E, 0x08479EF0, 0xE2695E83, 0x4728CCFD, 0x33D8A894, 0x96993AEA, 0x7CB7FA99, 0xD9F668E7,
    0x9557324B, 0x3016A035, 0xDA386046, 0x7F79F238, 0x0B899651, 0xAEC8042F, 0x44E6C45C, 0xE1A75622,
    0xDDA47104, 0x78E5E37A, 0x92CB2309, 0x378AB177, 0x437AD51E, 0xE63B4760, 0x0C158713, 0xA954156D,
    0xE5F54FC1, 0x40B4DDBF, 0xAA9A1DCC, 0x0FDB8FB2, 0x7B2BEBDB, 0xDE6A79A5, 0x3444B9D6, 0x91052BA8]"

definition table3 :: "u32 list" where
  "table3 = [
    0x00000000, 0xDD45AAB8, 0xBF672381, 0x62228939, 0x7B2231F3, 0xA6679B4B, 0xC4451272, 0x1900B8CA,
    0xF64463E6, 0x2B01C95E, 0x49234067, 0x9466EADF, 0x8D665215, 0x5023F8AD, 0x32017194, 0xEF44DB2C,
    0xE964B13D, 0x34211B85, 0x560392BC, 0x8B463804, 0x924680CE, 0x4F032A76, 0x2D21A34F, 0xF06409F7,
    0x1F20D2DB, 0xC2657863, 0xA047F15A, 0x7D025BE2, 0x6402E328, 0xB9474990, 0xDB65C0A9, 0x06206A11,
    0xD725148B, 0x0A60BE33, 0x6842370A, 0xB5079DB2, 0xAC072578, 0x71428FC0, 0x136006F9, 0xCE25AC41,
    0x2161776D, 0xFC24DDD5, 0x9E0654EC, 0x4343FE54, 0x5A43469E, 0x8706EC26, 0xE524651F, 0x3861CFA7,
    0x3E41A5B6, 0xE3040F0E, 0x81268637, 0x5C632C8F, 0x45639445, 0x98263EFD, 0xFA04B7C4, 0x27411D7C,
    0xC805C650, 0x15406CE8, 0x7762E5D1, 0xAA274F69, 0xB327F7A3, 0x6E625D1B, 0x0C40D422, 0xD1057E9A,
    0xABA65FE7, 0x76E3F55F, 0x14C17C66, 0xC984D6DE, 0xD0846E14, 0x0DC1C4AC, 0x6FE34D95, 0xB2A6E72D,
    0x5DE23C01, 0x80A796B9, 0xE2851F80, 0x3FC0B538, 0x26C00DF2, 0xFB85A74A, 0x99A72E73, 0x44E284CB,
    0x42C2EEDA, 0x9F874462, 0xFDA5CD5B, 0x20E067E3, 0x39E0DF29, 0xE4A57591, 0x8687FCA8, 0x5BC25610,
    0xB4868D3C, 0x69C32784, 0x0BE1AEBD, 0xD6A40405, 0xCFA4BCCF, 0x12E11677, 0x70C39F4E, 0xAD8635F6,
    0x7C834B6C, 0xA1C6E1D4, 0xC3E468ED, 0x1EA1C255, 0x07A17A9F, 0xDAE4D027, 0xB8C6591E, 0x6583F3A6,
    0x8AC7288A, 0x57828232, 0x35A00B0B, 0xE8E5A1B3, 0xF1E51979, 0x2CA0B3C1, 0x4E823AF8, 0x93C79040,
    0x95E7FA51, 0x48A250E9, 0x2A80D9D0, 0xF7C57368, 0xEEC5CBA2, 0x3380611A, 0x51A2E823, 0x8CE7429B,
    0x63A399B7, 0xBEE6330F, 0xDCC4BA36, 0x0181108E, 0x1881A844, 0xC5C402FC, 0xA7E68BC5, 0x7AA3217D,
    0x52A0C93F, 0x8FE56387, 0xEDC7EABE, 0x30824006, 0x2982F8CC, 0xF4C75274, 0x96E5DB4D, 0x4BA071F5,
    0xA4E4AAD9, 0x79A10061, 0x1B838958, 0xC6C623E0, 0xDFC69B2A, 0x02833192, 0x60A1B8AB, 0xBDE41213,
    0xBBC47802, 0x6681D2BA, 0x04A35B83, 0xD9E6F13B, 0xC0E649F1, 0x1DA3E349, 0x7F816A70, 0xA2C4C0C8,
    0x4D801BE4, 0x90C5B15C, 0xF2E73865, 0x2FA292DD, 0x36A22A17, 0xEBE780AF, 0x89C50996, 0x5480A32E,
    0x8585DDB4, 0x58C0770C, 0x3AE2FE35, 0xE7A7548D, 0xFEA7EC47, 0x23E246FF, 0x41C0CFC6, 0x9C85657E,
    0x73C1BE52, 0xAE8414EA, 0xCCA69DD3, 0x11E3376B, 0x08E38FA1, 0xD5A62519, 0xB784AC20, 0x6AC10698,
    0x6CE16C89, 0xB1A4C631, 0xD3864F08, 0x0EC3E5B0, 0x17C35D7A, 0xCA86F7C2, 0xA8A47EFB, 0x75E1D443,
    0x9AA50F6F, 0x47E0A5D7, 0x25C22CEE, 0xF8878656, 0xE1873E9C, 0x3CC29424, 0x5EE01D1D, 0x83A5B7A5,
    0xF90696D8, 0x24433C60, 0x4661B559, 0x9B241FE1, 0x8224A72B, 0x5F610D93, 0x3D4384AA, 0xE0062E12,
    0x0F42F53E, 0xD2075F86, 0xB025D6BF, 0x6D607C07, 0x7460C4CD, 0xA9256E75, 0xCB07E74C, 0x16424DF4,
    0x106227E5, 0xCD278D5D, 0xAF050464, 0x7240AEDC, 0x6B401616, 0xB605BCAE, 0xD4273597, 0x09629F2F,
    0xE6264403, 0x3B63EEBB, 0x59416782, 0x8404CD3A, 0x9D0475F0, 0x4041DF48, 0x22635671, 0xFF26FCC9,
    0x2E238253, 0xF36628EB, 0x9144A1D2, 0x4C010B6A, 0x5501B3A0, 0x88441918, 0xEA669021, 0x37233A99,
    0xD867E1B5, 0x05224B0D, 0x6700C234, 0xBA45688C, 0xA345D046, 0x7E007AFE, 0x1C22F3C7, 0xC167597F,
    0xC747336E, 0x1A0299D6, 0x782010EF, 0xA565BA57, 0xBC65029D, 0x6120A825, 0x0302211C, 0xDE478BA4,
    0x31035088, 0xEC46FA30, 0x8E647309, 0x5321D9B1, 0x4A21617B, 0x9764CBC3, 0xF54642FA, 0x2803E842]"


definition STEP1 :: "u32 \<Rightarrow> byte \<Rightarrow> u32" where
  "STEP1 l b = table0 ! unat ((l AND 0xFF) XOR ucast b) XOR drop_bit 8 l"

definition STEP4 :: "u32 \<Rightarrow> bytes \<Rightarrow> u32" where
  "STEP4 l p =
     (let c = l XOR DecodeFixed32 p
      in table3 ! unat (c AND 0xFF) XOR table2 ! unat (drop_bit 8 c AND 0xFF) XOR
         table1 ! unat (drop_bit 16 c AND 0xFF) XOR table0 ! unat (drop_bit 24 c))"

fun crc_16 :: "u32 \<Rightarrow> bytes \<Rightarrow> u32 \<times> bytes" where
  "crc_16 l p =
     (if 16 \<le> length p then
        crc_16 (STEP4 (STEP4 (STEP4 (STEP4 l p) (drop 4 p)) (drop 8 p)) (drop 12 p)) (drop 16 p)
      else (l, p))"

fun crc_4 :: "u32 \<Rightarrow> bytes \<Rightarrow> u32 \<times> bytes" where
  "crc_4 l p = (if 4 \<le> length p then crc_4 (STEP4 l p) (drop 4 p) else (l, p))"

declare crc_16.simps [simp del] crc_4.simps [simp del]

definition crc32c_Extend :: "u64 \<Rightarrow> u32 \<Rightarrow> bytes \<Rightarrow> u32" where
  "crc32c_Extend pval crc buf =
     (let l = crc XOR 0xFFFFFFFF;
          x = push_bit 2 (drop_bit 2 (pval + 3));
          e = pval + of_nat (length buf);
          k = (if x \<le> e then unat (x - pval) else 0);
          l = foldl STEP1 l (take k buf);
          (l, p) = crc_16 l (drop k buf);
          (l, p) = crc_4 l p
      in foldl STEP1 l p XOR 0xFFFFFFFF)"

definition crc32c_Value :: "u64 \<Rightarrow> bytes \<Rightarrow> u32" where
  "crc32c_Value pval buf = crc32c_Extend pval 0 buf"

definition kMaskDelta :: u32 where
  "kMaskDelta = 0xA282EAD8"

definition crc32c_Mask :: "u32 \<Rightarrow> u32" where
  "crc32c_Mask crc = (drop_bit 15 crc OR push_bit 17 crc) + kMaskDelta"

definition crc32c_Unmask :: "u32 \<Rightarrow> u32" where
  "crc32c_Unmask masked_crc =
     (let rot = masked_crc - kMaskDelta in drop_bit 17 rot OR push_bit 15 rot)"

section \<open>The checksum bit by bit\<close>

definition crc_bit :: "u32 \<Rightarrow> u32" where
  "crc_bit l = drop_bit 1 l XOR (if bit l 0 then 0x82F63B78 else 0)"

definition crc_byte :: "u32 \<Rightarrow> byte \<Rightarrow> u32" where
  "crc_byte l b = (crc_bit ^^ 8) (l XOR ucast b)"

definition crc32c :: "u32 \<Rightarrow> bytes \<Rightarrow> u32" where
  "crc32c crc buf = foldl crc_byte (crc XOR 0xFFFFFFFF) buf XOR 0xFFFFFFFF"

section \<open>The tables\<close>

text \<open>A table is spanned by its entries at the powers of two, as one step is linear.\<close>

definition span :: "'a :: semiring_bit_operations list \<Rightarrow> 'a list" where
  "span bs = foldl (\<lambda>T b. T @ map (\<lambda>x. b XOR x) T) [0] bs"

definition crc_orbit :: "u32 list" where
  "crc_orbit = [0x80, 0x40, 0x20, 0x10, 0x8, 0x4, 0x2, 0x1,
    0x82F63B78, 0x417B1DBC, 0x20BD8EDE, 0x105EC76F, 0x8AD958CF, 0xC79A971F, 0xE13B70F7, 0xF26B8303,
    0xFBC3FAF9, 0xFF17C604, 0x7F8BE302, 0x3FC5F181, 0x9D14C3B8, 0x4E8A61DC, 0x274530EE, 0x13A29877,
    0x8B277743, 0xC76580D9, 0xE144FB14, 0x70A27D8A, 0x38513EC5, 0x9EDEA41A, 0x4F6F520D, 0xA541927E,
    0x52A0C93F, 0xABA65FE7, 0xD725148B, 0xE964B13D, 0xF64463E6, 0x7B2231F3, 0xBF672381, 0xDD45AAB8]"

lemma crc_bit_xor: "crc_bit (x XOR y) = crc_bit x XOR crc_bit y"
  by (cases "bit x 0"; cases "bit y 0"; simp add: crc_bit_def bit_xor_iff drop_bit_xor ac_simps)

lemma crc_bits_xor: "(crc_bit ^^ m) (x XOR y) = (crc_bit ^^ m) x XOR (crc_bit ^^ m) y"
  by (induction m) (simp_all add: crc_bit_xor)

lemma crc_bits_shift:
  assumes "\<And>i. i < m \<Longrightarrow> \<not> bit y i"
  shows "(crc_bit ^^ m) y = drop_bit m y"
  using assms
proof (induction m)
  case (Suc m)
  have "\<not> bit (drop_bit m y) 0" using Suc.prems [of m] by (simp add: bit_drop_bit_eq)
  then show ?case using Suc by (simp add: crc_bit_def drop_bit_drop_bit)
qed simp

lemma span_snoc: "span (bs @ [b]) = span bs @ map (\<lambda>x. b XOR x) (span bs)"
  by (simp add: span_def)

lemma span_linear:
  fixes f :: "u32 \<Rightarrow> u32"
  assumes "\<And>x y. f (x XOR y) = f x XOR f y" "n \<le> 32"
  shows "span (map (\<lambda>k. f (2 ^ k)) [0..<n]) = map (\<lambda>i. f (of_nat i)) [0..<2 ^ n]"
  using assms(2)
proof (induction n)
  case 0
  have "f 0 = 0" using assms(1) [of 0 0] by simp
  then show ?case by (simp add: span_def)
next
  case (Suc n)
  have split: "of_nat (i + 2 ^ n) = (2 ^ n XOR of_nat i :: u32)" if "i < 2 ^ n" for i :: nat
  proof -
    have "\<not> bit i n" using that by (metis bit_take_bit_iff take_bit_nat_eq_self less_irrefl)
    then have "(2 ^ n AND of_nat i :: u32) = 0"
      by (intro bit_word_eqI) (auto simp: bit_and_iff bit_exp_iff bit_of_nat_iff)
    then have "(2 ^ n + of_nat i :: u32) = 2 ^ n XOR of_nat i" by (rule disjunctive_add_eq_xor)
    then show ?thesis by (simp add: add.commute)
  qed
  have "[0..<2 ^ Suc n] = [0..<2 ^ n] @ map (\<lambda>i. i + 2 ^ n) [0..<2 ^ n :: nat]"
    using upt_add_eq_append [of 0 "2 ^ n" "2 ^ n"] by (simp add: map_add_upt mult_2)
  then show ?case using Suc by (simp add: span_snoc split assms(1) del: of_nat_add)
qed

lemma span_table0: "table0 = map word_of_int (span [0xF26B8303, 0xE13B70F7, 0xC79A971F, 0x8AD958CF, 0x105EC76F, 0x20BD8EDE, 0x417B1DBC, 0x82F63B78])"
proof -
  have s: "span [0xF26B8303, 0xE13B70F7, 0xC79A971F, 0x8AD958CF, 0x105EC76F, 0x20BD8EDE, 0x417B1DBC, 0x82F63B78] = ([
    0x00000000, 0xF26B8303, 0xE13B70F7, 0x1350F3F4, 0xC79A971F, 0x35F1141C, 0x26A1E7E8, 0xD4CA64EB,
    0x8AD958CF, 0x78B2DBCC, 0x6BE22838, 0x9989AB3B, 0x4D43CFD0, 0xBF284CD3, 0xAC78BF27, 0x5E133C24,
    0x105EC76F, 0xE235446C, 0xF165B798, 0x030E349B, 0xD7C45070, 0x25AFD373, 0x36FF2087, 0xC494A384,
    0x9A879FA0, 0x68EC1CA3, 0x7BBCEF57, 0x89D76C54, 0x5D1D08BF, 0xAF768BBC, 0xBC267848, 0x4E4DFB4B,
    0x20BD8EDE, 0xD2D60DDD, 0xC186FE29, 0x33ED7D2A, 0xE72719C1, 0x154C9AC2, 0x061C6936, 0xF477EA35,
    0xAA64D611, 0x580F5512, 0x4B5FA6E6, 0xB93425E5, 0x6DFE410E, 0x9F95C20D, 0x8CC531F9, 0x7EAEB2FA,
    0x30E349B1, 0xC288CAB2, 0xD1D83946, 0x23B3BA45, 0xF779DEAE, 0x05125DAD, 0x1642AE59, 0xE4292D5A,
    0xBA3A117E, 0x4851927D, 0x5B016189, 0xA96AE28A, 0x7DA08661, 0x8FCB0562, 0x9C9BF696, 0x6EF07595,
    0x417B1DBC, 0xB3109EBF, 0xA0406D4B, 0x522BEE48, 0x86E18AA3, 0x748A09A0, 0x67DAFA54, 0x95B17957,
    0xCBA24573, 0x39C9C670, 0x2A993584, 0xD8F2B687, 0x0C38D26C, 0xFE53516F, 0xED03A29B, 0x1F682198,
    0x5125DAD3, 0xA34E59D0, 0xB01EAA24, 0x42752927, 0x96BF4DCC, 0x64D4CECF, 0x77843D3B, 0x85EFBE38,
    0xDBFC821C, 0x2997011F, 0x3AC7F2EB, 0xC8AC71E8, 0x1C661503, 0xEE0D9600, 0xFD5D65F4, 0x0F36E6F7,
    0x61C69362, 0x93AD1061, 0x80FDE395, 0x72966096, 0xA65C047D, 0x5437877E, 0x4767748A, 0xB50CF789,
    0xEB1FCBAD, 0x197448AE, 0x0A24BB5A, 0xF84F3859, 0x2C855CB2, 0xDEEEDFB1, 0xCDBE2C45, 0x3FD5AF46,
    0x7198540D, 0x83F3D70E, 0x90A324FA, 0x62C8A7F9, 0xB602C312, 0x44694011, 0x5739B3E5, 0xA55230E6,
    0xFB410CC2, 0x092A8FC1, 0x1A7A7C35, 0xE811FF36, 0x3CDB9BDD, 0xCEB018DE, 0xDDE0EB2A, 0x2F8B6829,
    0x82F63B78, 0x709DB87B, 0x63CD4B8F, 0x91A6C88C, 0x456CAC67, 0xB7072F64, 0xA457DC90, 0x563C5F93,
    0x082F63B7, 0xFA44E0B4, 0xE9141340, 0x1B7F9043, 0xCFB5F4A8, 0x3DDE77AB, 0x2E8E845F, 0xDCE5075C,
    0x92A8FC17, 0x60C37F14, 0x73938CE0, 0x81F80FE3, 0x55326B08, 0xA759E80B, 0xB4091BFF, 0x466298FC,
    0x1871A4D8, 0xEA1A27DB, 0xF94AD42F, 0x0B21572C, 0xDFEB33C7, 0x2D80B0C4, 0x3ED04330, 0xCCBBC033,
    0xA24BB5A6, 0x502036A5, 0x4370C551, 0xB11B4652, 0x65D122B9, 0x97BAA1BA, 0x84EA524E, 0x7681D14D,
    0x2892ED69, 0xDAF96E6A, 0xC9A99D9E, 0x3BC21E9D, 0xEF087A76, 0x1D63F975, 0x0E330A81, 0xFC588982,
    0xB21572C9, 0x407EF1CA, 0x532E023E, 0xA145813D, 0x758FE5D6, 0x87E466D5, 0x94B49521, 0x66DF1622,
    0x38CC2A06, 0xCAA7A905, 0xD9F75AF1, 0x2B9CD9F2, 0xFF56BD19, 0x0D3D3E1A, 0x1E6DCDEE, 0xEC064EED,
    0xC38D26C4, 0x31E6A5C7, 0x22B65633, 0xD0DDD530, 0x0417B1DB, 0xF67C32D8, 0xE52CC12C, 0x1747422F,
    0x49547E0B, 0xBB3FFD08, 0xA86F0EFC, 0x5A048DFF, 0x8ECEE914, 0x7CA56A17, 0x6FF599E3, 0x9D9E1AE0,
    0xD3D3E1AB, 0x21B862A8, 0x32E8915C, 0xC083125F, 0x144976B4, 0xE622F5B7, 0xF5720643, 0x07198540,
    0x590AB964, 0xAB613A67, 0xB831C993, 0x4A5A4A90, 0x9E902E7B, 0x6CFBAD78, 0x7FAB5E8C, 0x8DC0DD8F,
    0xE330A81A, 0x115B2B19, 0x020BD8ED, 0xF0605BEE, 0x24AA3F05, 0xD6C1BC06, 0xC5914FF2, 0x37FACCF1,
    0x69E9F0D5, 0x9B8273D6, 0x88D28022, 0x7AB90321, 0xAE7367CA, 0x5C18E4C9, 0x4F48173D, 0xBD23943E,
    0xF36E6F75, 0x0105EC76, 0x12551F82, 0xE03E9C81, 0x34F4F86A, 0xC69F7B69, 0xD5CF889D, 0x27A40B9E,
    0x79B737BA, 0x8BDCB4B9, 0x988C474D, 0x6AE7C44E, 0xBE2DA0A5, 0x4C4623A6, 0x5F16D052, 0xAD7D5351] :: int list)"
    by code_simp
  show ?thesis unfolding s table0_def by simp
qed

lemma span_table1: "table1 = map word_of_int (span [0x13A29877, 0x274530EE, 0x4E8A61DC, 0x9D14C3B8, 0x3FC5F181, 0x7F8BE302, 0xFF17C604, 0xFBC3FAF9])"
proof -
  have s: "span [0x13A29877, 0x274530EE, 0x4E8A61DC, 0x9D14C3B8, 0x3FC5F181, 0x7F8BE302, 0xFF17C604, 0xFBC3FAF9] = ([
    0x00000000, 0x13A29877, 0x274530EE, 0x34E7A899, 0x4E8A61DC, 0x5D28F9AB, 0x69CF5132, 0x7A6DC945,
    0x9D14C3B8, 0x8EB65BCF, 0xBA51F356, 0xA9F36B21, 0xD39EA264, 0xC03C3A13, 0xF4DB928A, 0xE7790AFD,
    0x3FC5F181, 0x2C6769F6, 0x1880C16F, 0x0B225918, 0x714F905D, 0x62ED082A, 0x560AA0B3, 0x45A838C4,
    0xA2D13239, 0xB173AA4E, 0x859402D7, 0x96369AA0, 0xEC5B53E5, 0xFFF9CB92, 0xCB1E630B, 0xD8BCFB7C,
    0x7F8BE302, 0x6C297B75, 0x58CED3EC, 0x4B6C4B9B, 0x310182DE, 0x22A31AA9, 0x1644B230, 0x05E62A47,
    0xE29F20BA, 0xF13DB8CD, 0xC5DA1054, 0xD6788823, 0xAC154166, 0xBFB7D911, 0x8B507188, 0x98F2E9FF,
    0x404E1283, 0x53EC8AF4, 0x670B226D, 0x74A9BA1A, 0x0EC4735F, 0x1D66EB28, 0x298143B1, 0x3A23DBC6,
    0xDD5AD13B, 0xCEF8494C, 0xFA1FE1D5, 0xE9BD79A2, 0x93D0B0E7, 0x80722890, 0xB4958009, 0xA737187E,
    0xFF17C604, 0xECB55E73, 0xD852F6EA, 0xCBF06E9D, 0xB19DA7D8, 0xA23F3FAF, 0x96D89736, 0x857A0F41,
    0x620305BC, 0x71A19DCB, 0x45463552, 0x56E4AD25, 0x2C896460, 0x3F2BFC17, 0x0BCC548E, 0x186ECCF9,
    0xC0D23785, 0xD370AFF2, 0xE797076B, 0xF4359F1C, 0x8E585659, 0x9DFACE2E, 0xA91D66B7, 0xBABFFEC0,
    0x5DC6F43D, 0x4E646C4A, 0x7A83C4D3, 0x69215CA4, 0x134C95E1, 0x00EE0D96, 0x3409A50F, 0x27AB3D78,
    0x809C2506, 0x933EBD71, 0xA7D915E8, 0xB47B8D9F, 0xCE1644DA, 0xDDB4DCAD, 0xE9537434, 0xFAF1EC43,
    0x1D88E6BE, 0x0E2A7EC9, 0x3ACDD650, 0x296F4E27, 0x53028762, 0x40A01F15, 0x7447B78C, 0x67E52FFB,
    0xBF59D487, 0xACFB4CF0, 0x981CE469, 0x8BBE7C1E, 0xF1D3B55B, 0xE2712D2C, 0xD69685B5, 0xC5341DC2,
    0x224D173F, 0x31EF8F48, 0x050827D1, 0x16AABFA6, 0x6CC776E3, 0x7F65EE94, 0x4B82460D, 0x5820DE7A,
    0xFBC3FAF9, 0xE861628E, 0xDC86CA17, 0xCF245260, 0xB5499B25, 0xA6EB0352, 0x920CABCB, 0x81AE33BC,
    0x66D73941, 0x7575A136, 0x419209AF, 0x523091D8, 0x285D589D, 0x3BFFC0EA, 0x0F186873, 0x1CBAF004,
    0xC4060B78, 0xD7A4930F, 0xE3433B96, 0xF0E1A3E1, 0x8A8C6AA4, 0x992EF2D3, 0xADC95A4A, 0xBE6BC23D,
    0x5912C8C0, 0x4AB050B7, 0x7E57F82E, 0x6DF56059, 0x1798A91C, 0x043A316B, 0x30DD99F2, 0x237F0185,
    0x844819FB, 0x97EA818C, 0xA30D2915, 0xB0AFB162, 0xCAC27827, 0xD960E050, 0xED8748C9, 0xFE25D0BE,
    0x195CDA43, 0x0AFE4234, 0x3E19EAAD, 0x2DBB72DA, 0x57D6BB9F, 0x447423E8, 0x70938B71, 0x63311306,
    0xBB8DE87A, 0xA82F700D, 0x9CC8D894, 0x8F6A40E3, 0xF50789A6, 0xE6A511D1, 0xD242B948, 0xC1E0213F,
    0x26992BC2, 0x353BB3B5, 0x01DC1B2C, 0x127E835B, 0x68134A1E, 0x7BB1D269, 0x4F567AF0, 0x5CF4E287,
    0x04D43CFD, 0x1776A48A, 0x23910C13, 0x30339464, 0x4A5E5D21, 0x59FCC556, 0x6D1B6DCF, 0x7EB9F5B8,
    0x99C0FF45, 0x8A626732, 0xBE85CFAB, 0xAD2757DC, 0xD74A9E99, 0xC4E806EE, 0xF00FAE77, 0xE3AD3600,
    0x3B11CD7C, 0x28B3550B, 0x1C54FD92, 0x0FF665E5, 0x759BACA0, 0x663934D7, 0x52DE9C4E, 0x417C0439,
    0xA6050EC4, 0xB5A796B3, 0x81403E2A, 0x92E2A65D, 0xE88F6F18, 0xFB2DF76F, 0xCFCA5FF6, 0xDC68C781,
    0x7B5FDFFF, 0x68FD4788, 0x5C1AEF11, 0x4FB87766, 0x35D5BE23, 0x26772654, 0x12908ECD, 0x013216BA,
    0xE64B1C47, 0xF5E98430, 0xC10E2CA9, 0xD2ACB4DE, 0xA8C17D9B, 0xBB63E5EC, 0x8F844D75, 0x9C26D502,
    0x449A2E7E, 0x5738B609, 0x63DF1E90, 0x707D86E7, 0x0A104FA2, 0x19B2D7D5, 0x2D557F4C, 0x3EF7E73B,
    0xD98EEDC6, 0xCA2C75B1, 0xFECBDD28, 0xED69455F, 0x97048C1A, 0x84A6146D, 0xB041BCF4, 0xA3E32483] :: int list)"
    by code_simp
  show ?thesis unfolding s table1_def by simp
qed

lemma span_table2: "table2 = map word_of_int (span [0xA541927E, 0x4F6F520D, 0x9EDEA41A, 0x38513EC5, 0x70A27D8A, 0xE144FB14, 0xC76580D9, 0x8B277743])"
proof -
  have s: "span [0xA541927E, 0x4F6F520D, 0x9EDEA41A, 0x38513EC5, 0x70A27D8A, 0xE144FB14, 0xC76580D9, 0x8B277743] = ([
    0x00000000, 0xA541927E, 0x4F6F520D, 0xEA2EC073, 0x9EDEA41A, 0x3B9F3664, 0xD1B1F617, 0x74F06469,
    0x38513EC5, 0x9D10ACBB, 0x773E6CC8, 0xD27FFEB6, 0xA68F9ADF, 0x03CE08A1, 0xE9E0C8D2, 0x4CA15AAC,
    0x70A27D8A, 0xD5E3EFF4, 0x3FCD2F87, 0x9A8CBDF9, 0xEE7CD990, 0x4B3D4BEE, 0xA1138B9D, 0x045219E3,
    0x48F3434F, 0xEDB2D131, 0x079C1142, 0xA2DD833C, 0xD62DE755, 0x736C752B, 0x9942B558, 0x3C032726,
    0xE144FB14, 0x4405696A, 0xAE2BA919, 0x0B6A3B67, 0x7F9A5F0E, 0xDADBCD70, 0x30F50D03, 0x95B49F7D,
    0xD915C5D1, 0x7C5457AF, 0x967A97DC, 0x333B05A2, 0x47CB61CB, 0xE28AF3B5, 0x08A433C6, 0xADE5A1B8,
    0x91E6869E, 0x34A714E0, 0xDE89D493, 0x7BC846ED, 0x0F382284, 0xAA79B0FA, 0x40577089, 0xE516E2F7,
    0xA9B7B85B, 0x0CF62A25, 0xE6D8EA56, 0x43997828, 0x37691C41, 0x92288E3F, 0x78064E4C, 0xDD47DC32,
    0xC76580D9, 0x622412A7, 0x880AD2D4, 0x2D4B40AA, 0x59BB24C3, 0xFCFAB6BD, 0x16D476CE, 0xB395E4B0,
    0xFF34BE1C, 0x5A752C62, 0xB05BEC11, 0x151A7E6F, 0x61EA1A06, 0xC4AB8878, 0x2E85480B, 0x8BC4DA75,
    0xB7C7FD53, 0x12866F2D, 0xF8A8AF5E, 0x5DE93D20, 0x29195949, 0x8C58CB37, 0x66760B44, 0xC337993A,
    0x8F96C396, 0x2AD751E8, 0xC0F9919B, 0x65B803E5, 0x1148678C, 0xB409F5F2, 0x5E273581, 0xFB66A7FF,
    0x26217BCD, 0x8360E9B3, 0x694E29C0, 0xCC0FBBBE, 0xB8FFDFD7, 0x1DBE4DA9, 0xF7908DDA, 0x52D11FA4,
    0x1E704508, 0xBB31D776, 0x511F1705, 0xF45E857B, 0x80AEE112, 0x25EF736C, 0xCFC1B31F, 0x6A802161,
    0x56830647, 0xF3C29439, 0x19EC544A, 0xBCADC634, 0xC85DA25D, 0x6D1C3023, 0x8732F050, 0x2273622E,
    0x6ED23882, 0xCB93AAFC, 0x21BD6A8F, 0x84FCF8F1, 0xF00C9C98, 0x554D0EE6, 0xBF63CE95, 0x1A225CEB,
    0x8B277743, 0x2E66E53D, 0xC448254E, 0x6109B730, 0x15F9D359, 0xB0B84127, 0x5A968154, 0xFFD7132A,
    0xB3764986, 0x1637DBF8, 0xFC191B8B, 0x595889F5, 0x2DA8ED9C, 0x88E97FE2, 0x62C7BF91, 0xC7862DEF,
    0xFB850AC9, 0x5EC498B7, 0xB4EA58C4, 0x11ABCABA, 0x655BAED3, 0xC01A3CAD, 0x2A34FCDE, 0x8F756EA0,
    0xC3D4340C, 0x6695A672, 0x8CBB6601, 0x29FAF47F, 0x5D0A9016, 0xF84B0268, 0x1265C21B, 0xB7245065,
    0x6A638C57, 0xCF221E29, 0x250CDE5A, 0x804D4C24, 0xF4BD284D, 0x51FCBA33, 0xBBD27A40, 0x1E93E83E,
    0x5232B292, 0xF77320EC, 0x1D5DE09F, 0xB81C72E1, 0xCCEC1688, 0x69AD84F6, 0x83834485, 0x26C2D6FB,
    0x1AC1F1DD, 0xBF8063A3, 0x55AEA3D0, 0xF0EF31AE, 0x841F55C7, 0x215EC7B9, 0xCB7007CA, 0x6E3195B4,
    0x2290CF18, 0x87D15D66, 0x6DFF9D15, 0xC8BE0F6B, 0xBC4E6B02, 0x190FF97C, 0xF321390F, 0x5660AB71,
    0x4C42F79A, 0xE90365E4, 0x032DA597, 0xA66C37E9, 0xD29C5380, 0x77DDC1FE, 0x9DF3018D, 0x38B293F3,
    0x7413C95F, 0xD1525B21, 0x3B7C9B52, 0x9E3D092C, 0xEACD6D45, 0x4F8CFF3B, 0xA5A23F48, 0x00E3AD36,
    0x3CE08A10, 0x99A1186E, 0x738FD81D, 0xD6CE4A63, 0xA23E2E0A, 0x077FBC74, 0xED517C07, 0x4810EE79,
    0x04B1B4D5, 0xA1F026AB, 0x4BDEE6D8, 0xEE9F74A6, 0x9A6F10CF, 0x3F2E82B1, 0xD50042C2, 0x7041D0BC,
    0xAD060C8E, 0x08479EF0, 0xE2695E83, 0x4728CCFD, 0x33D8A894, 0x96993AEA, 0x7CB7FA99, 0xD9F668E7,
    0x9557324B, 0x3016A035, 0xDA386046, 0x7F79F238, 0x0B899651, 0xAEC8042F, 0x44E6C45C, 0xE1A75622,
    0xDDA47104, 0x78E5E37A, 0x92CB2309, 0x378AB177, 0x437AD51E, 0xE63B4760, 0x0C158713, 0xA954156D,
    0xE5F54FC1, 0x40B4DDBF, 0xAA9A1DCC, 0x0FDB8FB2, 0x7B2BEBDB, 0xDE6A79A5, 0x3444B9D6, 0x91052BA8] :: int list)"
    by code_simp
  show ?thesis unfolding s table2_def by simp
qed

lemma span_table3: "table3 = map word_of_int (span [0xDD45AAB8, 0xBF672381, 0x7B2231F3, 0xF64463E6, 0xE964B13D, 0xD725148B, 0xABA65FE7, 0x52A0C93F])"
proof -
  have s: "span [0xDD45AAB8, 0xBF672381, 0x7B2231F3, 0xF64463E6, 0xE964B13D, 0xD725148B, 0xABA65FE7, 0x52A0C93F] = ([
    0x00000000, 0xDD45AAB8, 0xBF672381, 0x62228939, 0x7B2231F3, 0xA6679B4B, 0xC4451272, 0x1900B8CA,
    0xF64463E6, 0x2B01C95E, 0x49234067, 0x9466EADF, 0x8D665215, 0x5023F8AD, 0x32017194, 0xEF44DB2C,
    0xE964B13D, 0x34211B85, 0x560392BC, 0x8B463804, 0x924680CE, 0x4F032A76, 0x2D21A34F, 0xF06409F7,
    0x1F20D2DB, 0xC2657863, 0xA047F15A, 0x7D025BE2, 0x6402E328, 0xB9474990, 0xDB65C0A9, 0x06206A11,
    0xD725148B, 0x0A60BE33, 0x6842370A, 0xB5079DB2, 0xAC072578, 0x71428FC0, 0x136006F9, 0xCE25AC41,
    0x2161776D, 0xFC24DDD5, 0x9E0654EC, 0x4343FE54, 0x5A43469E, 0x8706EC26, 0xE524651F, 0x3861CFA7,
    0x3E41A5B6, 0xE3040F0E, 0x81268637, 0x5C632C8F, 0x45639445, 0x98263EFD, 0xFA04B7C4, 0x27411D7C,
    0xC805C650, 0x15406CE8, 0x7762E5D1, 0xAA274F69, 0xB327F7A3, 0x6E625D1B, 0x0C40D422, 0xD1057E9A,
    0xABA65FE7, 0x76E3F55F, 0x14C17C66, 0xC984D6DE, 0xD0846E14, 0x0DC1C4AC, 0x6FE34D95, 0xB2A6E72D,
    0x5DE23C01, 0x80A796B9, 0xE2851F80, 0x3FC0B538, 0x26C00DF2, 0xFB85A74A, 0x99A72E73, 0x44E284CB,
    0x42C2EEDA, 0x9F874462, 0xFDA5CD5B, 0x20E067E3, 0x39E0DF29, 0xE4A57591, 0x8687FCA8, 0x5BC25610,
    0xB4868D3C, 0x69C32784, 0x0BE1AEBD, 0xD6A40405, 0xCFA4BCCF, 0x12E11677, 0x70C39F4E, 0xAD8635F6,
    0x7C834B6C, 0xA1C6E1D4, 0xC3E468ED, 0x1EA1C255, 0x07A17A9F, 0xDAE4D027, 0xB8C6591E, 0x6583F3A6,
    0x8AC7288A, 0x57828232, 0x35A00B0B, 0xE8E5A1B3, 0xF1E51979, 0x2CA0B3C1, 0x4E823AF8, 0x93C79040,
    0x95E7FA51, 0x48A250E9, 0x2A80D9D0, 0xF7C57368, 0xEEC5CBA2, 0x3380611A, 0x51A2E823, 0x8CE7429B,
    0x63A399B7, 0xBEE6330F, 0xDCC4BA36, 0x0181108E, 0x1881A844, 0xC5C402FC, 0xA7E68BC5, 0x7AA3217D,
    0x52A0C93F, 0x8FE56387, 0xEDC7EABE, 0x30824006, 0x2982F8CC, 0xF4C75274, 0x96E5DB4D, 0x4BA071F5,
    0xA4E4AAD9, 0x79A10061, 0x1B838958, 0xC6C623E0, 0xDFC69B2A, 0x02833192, 0x60A1B8AB, 0xBDE41213,
    0xBBC47802, 0x6681D2BA, 0x04A35B83, 0xD9E6F13B, 0xC0E649F1, 0x1DA3E349, 0x7F816A70, 0xA2C4C0C8,
    0x4D801BE4, 0x90C5B15C, 0xF2E73865, 0x2FA292DD, 0x36A22A17, 0xEBE780AF, 0x89C50996, 0x5480A32E,
    0x8585DDB4, 0x58C0770C, 0x3AE2FE35, 0xE7A7548D, 0xFEA7EC47, 0x23E246FF, 0x41C0CFC6, 0x9C85657E,
    0x73C1BE52, 0xAE8414EA, 0xCCA69DD3, 0x11E3376B, 0x08E38FA1, 0xD5A62519, 0xB784AC20, 0x6AC10698,
    0x6CE16C89, 0xB1A4C631, 0xD3864F08, 0x0EC3E5B0, 0x17C35D7A, 0xCA86F7C2, 0xA8A47EFB, 0x75E1D443,
    0x9AA50F6F, 0x47E0A5D7, 0x25C22CEE, 0xF8878656, 0xE1873E9C, 0x3CC29424, 0x5EE01D1D, 0x83A5B7A5,
    0xF90696D8, 0x24433C60, 0x4661B559, 0x9B241FE1, 0x8224A72B, 0x5F610D93, 0x3D4384AA, 0xE0062E12,
    0x0F42F53E, 0xD2075F86, 0xB025D6BF, 0x6D607C07, 0x7460C4CD, 0xA9256E75, 0xCB07E74C, 0x16424DF4,
    0x106227E5, 0xCD278D5D, 0xAF050464, 0x7240AEDC, 0x6B401616, 0xB605BCAE, 0xD4273597, 0x09629F2F,
    0xE6264403, 0x3B63EEBB, 0x59416782, 0x8404CD3A, 0x9D0475F0, 0x4041DF48, 0x22635671, 0xFF26FCC9,
    0x2E238253, 0xF36628EB, 0x9144A1D2, 0x4C010B6A, 0x5501B3A0, 0x88441918, 0xEA669021, 0x37233A99,
    0xD867E1B5, 0x05224B0D, 0x6700C234, 0xBA45688C, 0xA345D046, 0x7E007AFE, 0x1C22F3C7, 0xC167597F,
    0xC747336E, 0x1A0299D6, 0x782010EF, 0xA565BA57, 0xBC65029D, 0x6120A825, 0x0302211C, 0xDE478BA4,
    0x31035088, 0xEC46FA30, 0x8E647309, 0x5321D9B1, 0x4A21617B, 0x9764CBC3, 0xF54642FA, 0x2803E842] :: int list)"
    by code_simp
  show ?thesis unfolding s table3_def by simp
qed

lemma crc_orbit_step: "map crc_bit (butlast crc_orbit) = tl crc_orbit"
  by (simp add: crc_orbit_def crc_bit_def)

lemma crc_orbit_nth: "j < 40 \<Longrightarrow> (crc_bit ^^ j) 0x80 = crc_orbit ! j"
proof (induction j)
  case 0
  then show ?case by (simp add: crc_orbit_def)
next
  case (Suc j)
  have l: "length crc_orbit = 40" by (simp add: crc_orbit_def)
  have "crc_bit (crc_orbit ! j) = map crc_bit (butlast crc_orbit) ! j"
    using Suc.prems l by (simp add: nth_butlast)
  also have "\<dots> = crc_orbit ! Suc j" using Suc.prems l by (simp add: crc_orbit_step nth_tl)
  finally show ?case using Suc by simp
qed

lemma crc_power: "m + 7 < 40 \<Longrightarrow> k < 8 \<Longrightarrow> (crc_bit ^^ m) (2 ^ k) = crc_orbit ! (m + 7 - k)"
proof -
  assume a: "m + 7 < 40" "k < 8"
  have "k \<in> {0, 1, 2, 3, 4, 5, 6, 7}" using a(2) by auto
  then have "(2 :: u32) ^ k = crc_orbit ! (7 - k)" by (elim insertE) (simp_all add: crc_orbit_def)
  then have "(2 :: u32) ^ k = (crc_bit ^^ (7 - k)) 0x80" by (simp add: crc_orbit_nth)
  then have "(crc_bit ^^ m) (2 ^ k) = (crc_bit ^^ (m + (7 - k))) 0x80" by (simp add: funpow_add)
  then show ?thesis using a crc_orbit_nth [of "m + (7 - k)"] by simp
qed

lemma table_entries:
  assumes "T = map word_of_int (span bs)" "m + 7 < 40"
    and "map word_of_int bs = map (\<lambda>k. crc_orbit ! (m + 7 - k)) [0..<8]"
  shows "T = map (\<lambda>i. (crc_bit ^^ m) (of_nat i)) [0..<256]"
proof -
  have hom: "map word_of_int (span bs) = span (map (word_of_int :: int \<Rightarrow> u32) bs)"
  proof (induction bs rule: rev_induct)
    case (snoc b bs)
    then show ?case by (simp add: span_snoc flip: snoc.IH) (simp add: of_int_xor_eq)
  qed (simp add: span_def)
  have "map word_of_int bs = map (\<lambda>k. (crc_bit ^^ m) (2 ^ k)) [0..<8]"
    unfolding assms(3) using assms(2) by (intro map_cong) (simp_all add: crc_power)
  then show ?thesis
    using span_linear [of "crc_bit ^^ m" 8, OF crc_bits_xor] by (simp add: assms(1) hom)
qed

lemma tables:
  "table0 = map (\<lambda>i. (crc_bit ^^ 8) (of_nat i)) [0..<256]"
  "table1 = map (\<lambda>i. (crc_bit ^^ 16) (of_nat i)) [0..<256]"
  "table2 = map (\<lambda>i. (crc_bit ^^ 24) (of_nat i)) [0..<256]"
  "table3 = map (\<lambda>i. (crc_bit ^^ 32) (of_nat i)) [0..<256]"
  by (rule table_entries [OF span_table0] table_entries [OF span_table1]
      table_entries [OF span_table2] table_entries [OF span_table3];
      simp add: upt_rec crc_orbit_def)+

section \<open>The steps\<close>

lemma table_nth:
  assumes "unat (w :: u32) < 256"
  shows "table0 ! unat w = (crc_bit ^^ 8) w" "table1 ! unat w = (crc_bit ^^ 16) w"
    "table2 ! unat w = (crc_bit ^^ 24) w" "table3 ! unat w = (crc_bit ^^ 32) w"
  using assms by (simp_all add: tables)

lemma low_byte: "unat ((w :: u32) AND 0xFF) < 256"
proof -
  have "w AND 0xFF = take_bit 8 w" by (simp add: take_bit_eq_mask mask_eq_exp_minus_1)
  then show ?thesis by (simp add: unsigned_take_bit_eq take_bit_nat_less_exp [of 8, simplified])
qed

lemma high_byte: "unat (drop_bit 24 (w :: u32)) < 256"
  using unat_u32_lt [of w] by (simp only: unat_drop) simp

lemma bit_255: "bit (0xFF :: int) n \<longleftrightarrow> n < 8"
proof -
  have "(0xFF :: int) = mask 8" by (simp add: mask_eq_exp_minus_1)
  then show ?thesis by (simp only: bit_mask_iff) simp
qed

lemma crc_byte_back: "m \<le> 24 \<Longrightarrow> (crc_bit ^^ m) (push_bit m (ucast (b :: byte))) = ucast b"
proof -
  assume "m \<le> 24"
  then have "drop_bit m (push_bit m (ucast b :: u32)) = ucast b"
    by (intro bit_word_eqI) (auto simp: bit_simps bit_255 dest: bit_imp_le_length)
  then show ?thesis by (subst crc_bits_shift) (simp_all add: bit_push_bit_iff)
qed

lemma STEP1_crc: "STEP1 l b = crc_byte l b"
proof -
  let ?x = "l XOR ucast b" and ?y = "drop_bit 8 l"
  have split: "?x = ((l AND 0xFF) XOR ucast b) XOR push_bit 8 ?y"
    by (intro bit_word_eqI) (auto simp: bit_simps bit_255 dest: bit_imp_le_length)
  have small: "(l AND 0xFF) XOR ucast b = ?x AND 0xFF"
    by (intro bit_word_eqI) (auto simp: bit_simps bit_255 dest: bit_imp_le_length)
  have "drop_bit 8 (push_bit 8 ?y) = ?y"
    by (intro bit_word_eqI) (auto simp: bit_simps bit_255 dest: bit_imp_le_length)
  then have "(crc_bit ^^ 8) (push_bit 8 ?y) = ?y"
    by (subst crc_bits_shift) (simp_all add: bit_push_bit_iff)
  then have "crc_byte l b = (crc_bit ^^ 8) ((l AND 0xFF) XOR ucast b) XOR ?y"
    unfolding crc_byte_def by (subst split) (simp only: crc_bits_xor)
  moreover have "table0 ! unat ((l AND 0xFF) XOR ucast b) = (crc_bit ^^ 8) ((l AND 0xFF) XOR ucast b)"
    unfolding small by (rule table_nth(1) [OF low_byte])
  ultimately show ?thesis by (simp add: STEP1_def)
qed

lemma crc_byte_next:
  "m \<le> 16 \<Longrightarrow> crc_byte ((crc_bit ^^ m) x) b = (crc_bit ^^ (m + 8)) (x XOR push_bit m (ucast b))"
  by (simp add: crc_byte_def crc_bits_xor crc_byte_back funpow_add add.commute [of m])

lemma crc_byte_last:
  "crc_byte ((crc_bit ^^ 24) x) b = (crc_bit ^^ 32) (x XOR push_bit 24 (ucast b))"
proof -
  have "crc_byte ((crc_bit ^^ 24) x) b = (crc_bit ^^ 8) ((crc_bit ^^ 24) (x XOR push_bit 24 (ucast b)))"
    by (simp add: crc_byte_def crc_bits_xor crc_byte_back)
  also have "\<dots> = (crc_bit ^^ (8 + 24)) (x XOR push_bit 24 (ucast b))" by (simp only: funpow_add comp_def)
  finally show ?thesis by simp
qed

lemma crc_four:
  "foldl crc_byte l [a, b, c, d] = (crc_bit ^^ 32) (l XOR DecodeFixed32 (a # b # c # d # p))"
proof -
  have d: "DecodeFixed32 (a # b # c # d # p) =
      ucast a XOR push_bit 8 (ucast b) XOR push_bit 16 (ucast c) XOR push_bit 24 (ucast d)"
    by (intro bit_word_eqI) (auto simp: DecodeFixed32_def bit_simps dest: bit_imp_le_length)
  have "crc_byte l a = (crc_bit ^^ 8) (l XOR ucast a)" by (simp add: crc_byte_def)
  then have "foldl crc_byte l [a, b, c] =
      (crc_bit ^^ 24) (l XOR ucast a XOR push_bit 8 (ucast b) XOR push_bit 16 (ucast c))"
    by (simp add: crc_byte_next xor.assoc del: funpow.simps)
  then show ?thesis by (simp add: crc_byte_last d xor.assoc del: funpow.simps)
qed

lemma crc_word:
  "(crc_bit ^^ 32) w = (crc_bit ^^ 32) (w AND 0xFF) XOR (crc_bit ^^ 24) (drop_bit 8 w AND 0xFF) XOR
     (crc_bit ^^ 16) (drop_bit 16 w AND 0xFF) XOR (crc_bit ^^ 8) (drop_bit 24 w)"
proof -
  have parts: "w = (w AND M) XOR push_bit 8 (drop_bit 8 w AND M) XOR push_bit 16 (drop_bit 16 w AND M) XOR
      push_bit 24 (drop_bit 24 w)" if "\<And>n. bit M n \<longleftrightarrow> n < 8" for M :: u32
    by (intro bit_word_eqI) (auto simp: bit_simps that)
  have split: "w = (w AND 0xFF) XOR push_bit 8 (drop_bit 8 w AND 0xFF) XOR push_bit 16 (drop_bit 16 w AND 0xFF) XOR
      push_bit 24 (drop_bit 24 w)"
    by (rule parts) (auto simp: bit_255)
  have unshift: "(crc_bit ^^ (k + m)) (push_bit m y) = (crc_bit ^^ k) y"
    if "\<And>n. bit y n \<Longrightarrow> n + m < 32" for k m and y :: u32
  proof -
    have "drop_bit m (push_bit m y) = y"
      by (intro bit_word_eqI) (auto simp: bit_drop_bit_eq bit_push_bit_iff add.commute [of m] dest: that)
    then show ?thesis by (simp add: funpow_add crc_bits_shift bit_push_bit_iff)
  qed
  have low: "bit (y AND 0xFF) n \<longleftrightarrow> bit y n \<and> n < 8" for y :: u32 and n
    by (auto simp: bit_and_iff bit_255)
  have "(crc_bit ^^ (24 + 8)) (push_bit 8 (drop_bit 8 w AND 0xFF)) = (crc_bit ^^ 24) (drop_bit 8 w AND 0xFF)"
    "(crc_bit ^^ (16 + 16)) (push_bit 16 (drop_bit 16 w AND 0xFF)) = (crc_bit ^^ 16) (drop_bit 16 w AND 0xFF)"
    "(crc_bit ^^ (8 + 24)) (push_bit 24 (drop_bit 24 w)) = (crc_bit ^^ 8) (drop_bit 24 w)"
    by (rule unshift; simp add: low; simp add: bit_drop_bit_eq; drule bit_imp_le_length; simp)+
  note shifts = this [unfolded arith_simps]
  show ?thesis by (subst split) (simp only: crc_bits_xor shifts)
qed

lemma STEP4_crc:
  assumes "4 \<le> length p"
  shows "STEP4 l p = foldl crc_byte l (take 4 p)"
proof -
  obtain a b c d q where p: "p = a # b # c # d # q"
    using assms by (auto simp: Suc_le_length_iff numeral_eq_Suc)
  let ?c = "l XOR DecodeFixed32 p"
  have "STEP4 l p = (crc_bit ^^ 32) ?c"
    unfolding STEP4_def Let_def table_nth [OF low_byte] table_nth [OF high_byte] by (rule crc_word [symmetric])
  then show ?thesis using crc_four [of l a b c d q] by (simp add: p)
qed

section \<open>The loops\<close>

lemma crc_16_crc: "crc_16 l p = (l', p') \<Longrightarrow> foldl crc_byte l p = foldl crc_byte l' p'"
proof (induction l p rule: crc_16.induct)
  case (1 l p)
  have "take 16 p = take 4 p @ take 4 (drop 4 p) @ take 4 (drop 8 p) @ take 4 (drop 12 p)"
    by (simp add: take_add [of 4 12, simplified] take_add [of 4 8, simplified] take_add [of 4 4, simplified])
  then have p: "p = take 4 p @ take 4 (drop 4 p) @ take 4 (drop 8 p) @ take 4 (drop 12 p) @ drop 16 p"
    by (metis append_take_drop_id append.assoc)
  show ?case
  proof (cases "16 \<le> length p")
    case True
    have "foldl crc_byte l p = foldl crc_byte l
        (take 4 p @ take 4 (drop 4 p) @ take 4 (drop 8 p) @ take 4 (drop 12 p) @ drop 16 p)"
      by (rule arg_cong [OF p])
    also have "\<dots> = foldl crc_byte (STEP4 (STEP4 (STEP4 (STEP4 l p) (drop 4 p)) (drop 8 p)) (drop 12 p)) (drop 16 p)"
      using True by (simp add: STEP4_crc)
    finally show ?thesis using 1 True by (simp add: crc_16.simps [of l p])
  qed (use 1(2) in \<open>simp add: crc_16.simps [of l p]\<close>)
qed

lemma crc_4_crc: "crc_4 l p = (l', p') \<Longrightarrow> foldl crc_byte l p = foldl crc_byte l' p'"
proof (induction l p rule: crc_4.induct)
  case (1 l p)
  show ?case
  proof (cases "4 \<le> length p")
    case True
    have "foldl crc_byte l p = foldl crc_byte l (take 4 p @ drop 4 p)" by simp
    also have "\<dots> = foldl crc_byte (STEP4 l p) (drop 4 p)"
      using True by (simp only: foldl_append STEP4_crc)
    finally show ?thesis using 1 True by (simp add: crc_4.simps [of l p])
  qed (use 1(2) in \<open>simp add: crc_4.simps [of l p]\<close>)
qed

lemma crc32c_Extend_crc: "crc32c_Extend pval crc buf = crc32c crc buf"
proof -
  have step: "STEP1 = crc_byte" by (intro ext) (rule STEP1_crc)
  have "\<exists>k. crc32c_Extend pval crc buf = (case crc_16 (foldl crc_byte (crc XOR 0xFFFFFFFF) (take k buf)) (drop k buf) of
      (l, p) \<Rightarrow> case crc_4 l p of (l, p) \<Rightarrow> foldl crc_byte l p XOR 0xFFFFFFFF)"
    unfolding crc32c_Extend_def Let_def step by (rule exI) (rule refl)
  then obtain k where k: "crc32c_Extend pval crc buf =
      (case crc_16 (foldl crc_byte (crc XOR 0xFFFFFFFF) (take k buf)) (drop k buf) of
      (l, p) \<Rightarrow> case crc_4 l p of (l, p) \<Rightarrow> foldl crc_byte l p XOR 0xFFFFFFFF)" by (rule exE)
  obtain l1 p1 where l1: "crc_16 (foldl crc_byte (crc XOR 0xFFFFFFFF) (take k buf)) (drop k buf) = (l1, p1)"
    by (rule prod.exhaust) (rule that)
  obtain l2 p2 where l2: "crc_4 l1 p1 = (l2, p2)" by (rule prod.exhaust) (rule that)
  have "foldl crc_byte (crc XOR 0xFFFFFFFF) buf =
      foldl crc_byte (foldl crc_byte (crc XOR 0xFFFFFFFF) (take k buf)) (drop k buf)"
    by (simp flip: foldl_append)
  then show ?thesis using crc_16_crc [OF l1] crc_4_crc [OF l2] k by (simp add: crc32c_def l1 l2)
qed

lemma crc32c_append: "crc32c (crc32c crc a) b = crc32c crc (a @ b)"
  by (simp add: crc32c_def xor.assoc)

section \<open>Injectivity\<close>

lemma xor_cancel: "(x :: u32) XOR z = y XOR z \<longleftrightarrow> x = y" "z XOR x = z XOR y \<longleftrightarrow> x = (y :: u32)"
proof -
  show r: "x XOR z = y XOR z \<longleftrightarrow> x = y" for x y z :: u32
  proof
    assume "x XOR z = y XOR z"
    then have "(x XOR z) XOR z = (y XOR z) XOR z" by (rule arg_cong)
    then show "x = y" by (simp add: xor.assoc)
  qed simp
  show "z XOR x = z XOR y \<longleftrightarrow> x = y" using r [of x z y] by (simp only: xor.commute)
qed

lemma crc_bit_inject: "crc_bit x = crc_bit y \<longleftrightarrow> x = y"
proof
  assume e: "crc_bit x = crc_bit y"
  have top: "bit (crc_bit z) 31 \<longleftrightarrow> bit z 0" for z
    using bit_imp_le_length [of z 32] by (auto simp: crc_bit_def bit_xor_iff bit_drop_bit_eq)
  then have odd: "bit x 0 = bit y 0" using e by metis
  then have "drop_bit 1 x = drop_bit 1 y" using e by (auto simp: crc_bit_def xor_cancel split: if_splits)
  then have "bit x (Suc n) = bit y (Suc n)" for n by (metis bit_drop_bit_eq comp_apply plus_1_eq_Suc)
  then show "x = y" using odd by (intro bit_word_eqI) (metis not0_implies_Suc)
qed simp

lemma crc_bits_inject: "(crc_bit ^^ m) x = (crc_bit ^^ m) y \<longleftrightarrow> x = y"
  by (induction m) (simp_all add: crc_bit_inject)

lemma crc_bytes_inject: "foldl crc_byte x p = foldl crc_byte y p \<longleftrightarrow> x = y"
  by (induction p arbitrary: x y) (simp_all add: crc_byte_def crc_bits_inject xor_cancel)

lemma ucast_inject_byte: "ucast (a :: byte) = (ucast b :: u32) \<longleftrightarrow> a = b"
proof
  assume e: "ucast a = (ucast b :: u32)"
  show "a = b"
  proof (rule bit_word_eqI)
    fix n assume "n < LENGTH(8)"
    then have "bit a n = bit (ucast a :: u32) n" "bit b n = bit (ucast b :: u32) n"
      by (simp_all add: bit_ucast_iff)
    then show "bit a n = bit b n" by (simp add: e)
  qed
qed simp

lemma crc_byte_inject: "crc_byte l a = crc_byte l b \<longleftrightarrow> a = b"
  unfolding crc_byte_def crc_bits_inject xor_cancel by (rule ucast_inject_byte)

lemma Unmask_Mask: "crc32c_Unmask (crc32c_Mask crc) = crc" and Mask_Unmask: "crc32c_Mask (crc32c_Unmask crc) = crc"
proof -
  have "drop_bit 17 r OR push_bit 15 r = crc" if "r = drop_bit 15 crc OR push_bit 17 crc" for r :: u32
    unfolding that by (intro bit_word_eqI) (auto simp: bit_simps dest: bit_imp_le_length, metis le_add_diff_inverse not_less)
  then show "crc32c_Unmask (crc32c_Mask crc) = crc" by (simp add: crc32c_Unmask_def crc32c_Mask_def)
  have "drop_bit 15 r OR push_bit 17 r = z" if "r = drop_bit 17 z OR push_bit 15 z" for r z :: u32
    unfolding that by (intro bit_word_eqI) (auto simp: bit_simps dest: bit_imp_le_length, metis le_add_diff_inverse not_less)
  then show "crc32c_Mask (crc32c_Unmask crc) = crc" by (simp add: crc32c_Unmask_def crc32c_Mask_def Let_def)
qed

section \<open>Properties\<close>

text \<open>C31: The table-driven checksum is CRC-32C: whatever the address of the data, it is the value of the
  bit-by-bit definition, so it can be computed piece by piece; the masked form that is stored is
  turned back; and data in which one byte is replaced has the same checksum only if the byte is the same.\<close>
theorem crc32c_checks:
  "crc32c_Extend pval crc buf = crc32c crc buf \<and>
   crc32c_Extend p2 (crc32c_Extend p1 crc buf) buf2 = crc32c_Extend p3 crc (buf @ buf2) \<and>
   crc32c_Unmask (crc32c_Mask crc) = crc \<and>
   (crc32c_Value p1 (buf @ [x] @ buf2) = crc32c_Value p2 (buf @ [y] @ buf2)) = (x = y)"
proof (intro conjI)
  show "(crc32c_Value p1 (buf @ [x] @ buf2) = crc32c_Value p2 (buf @ [y] @ buf2)) = (x = y)"
    by (simp add: crc32c_Value_def crc32c_Extend_crc crc32c_def xor_cancel crc_bytes_inject crc_byte_inject)
qed (simp_all add: crc32c_Extend_crc crc32c_append Unmask_Mask)

end
