(* ===== verification/Env_File.thy ===== *)
theory Env_File
  imports Prelude
begin

text \<open>
  The files of the environment (\<^verbatim>\<open>include/leveldb/env.h\<close>), which the log and the tables are written
  to and read from.
  \<^item> The record \<open>WritableFile\<close> holds the calls of \<^verbatim>\<open>leveldb::WritableFile\<close> over an abstract state
    \<open>'f\<close>; a call returns whether it succeeded.
  \<^item> A \<^verbatim>\<open>RandomAccessFile\<close> is its \<^verbatim>\<open>Read\<close>: a function of an offset and a length, \<open>None\<close> where reading
    fails. \<open>PosixRandomAccessFile_Read\<close> is that of a file with given contents.
\<close>

record 'f WritableFile =
  wf_Append :: "'f \<Rightarrow> bytes \<Rightarrow> 'f \<times> bool"
  wf_Flush :: "'f \<Rightarrow> 'f \<times> bool"

definition appends :: "'f WritableFile \<Rightarrow> ('f \<Rightarrow> bytes) \<Rightarrow> bool" where
  "appends env content \<longleftrightarrow>
     (\<forall>f b. \<exists>f'. wf_Append env f b = (f', True) \<and> content f' = content f @ b) \<and>
     (\<forall>f. \<exists>f'. wf_Flush env f = (f', True) \<and> content f' = content f)"

type_synonym RandomAccessFile = "u64 \<Rightarrow> nat \<Rightarrow> bytes option"

definition PosixRandomAccessFile_Read :: "bytes \<Rightarrow> RandomAccessFile" where
  "PosixRandomAccessFile_Read contents offset n = Some (take n (drop (unat offset) contents))"

end
