(* ===== verification/Log_Format.thy ===== *)
theory Log_Format
  imports Crc32c Properties Env_File
begin

text \<open>
  The write-ahead log (\<^verbatim>\<open>db/log_format.h\<close>, \<^verbatim>\<open>db/log_writer.cc\<close>,
  \<^verbatim>\<open>db/log_reader.cc\<close>): records cut into fragments that never cross a block of 32 KB, each with
  a checksum, a length and a type.
  \<^item> The file being written is a parameter, of the interface \<open>WritableFile\<close>.
  \<^item> The file being read is a \<^verbatim>\<open>PosixSequentialFile\<close> (\<^verbatim>\<open>util/env_posix.cc\<close>): the bytes not yet
    read, and whether reading on after them fails rather than reaching the end of the file.
  \<^item> The reporter is the list of the reports made to it, the last one first. Addresses given to the
    checksum are 0: it does not depend on them (\<open>crc32c_Extend_crc\<close>).
  \<^item> The reader loops end, because a call that does not report the end of the file takes at least a
    header from the bytes left.
\<close>

section \<open>Format and files\<close>

datatype RecordType = kZeroType | kFullType | kFirstType | kMiddleType | kLastType

fun record_code :: "RecordType \<Rightarrow> nat" where
  "record_code kZeroType = 0"
| "record_code kFullType = 1"
| "record_code kFirstType = 2"
| "record_code kMiddleType = 3"
| "record_code kLastType = 4"

definition kMaxRecordType :: nat where "kMaxRecordType = 4"
definition kBlockSize :: nat where "kBlockSize = 32768"
definition kHeaderSize :: nat where "kHeaderSize = 7"

record SequentialFile =
  sf_rest :: bytes
  sf_error :: bool

definition SequentialFile_Read :: "SequentialFile \<Rightarrow> nat \<Rightarrow> SequentialFile \<times> bytes \<times> bool" where
  "SequentialFile_Read f n =
     (let result = take n (sf_rest f)
      in (f\<lparr>sf_rest := drop n (sf_rest f)\<rparr>, result, \<not> (length result < n \<and> sf_error f)))"

definition SequentialFile_Skip :: "SequentialFile \<Rightarrow> u64 \<Rightarrow> SequentialFile \<times> bool" where
  "SequentialFile_Skip f n = (f\<lparr>sf_rest := drop (unat n) (sf_rest f)\<rparr>, True)"

section \<open>Writer\<close>

record 'f Writer =
  w_dest :: 'f
  w_block_offset :: nat
  w_type_crc :: "u32 list"

definition Writer_new :: "'f \<Rightarrow> 'f Writer" where
  "Writer_new dest = \<lparr>w_dest = dest, w_block_offset = 0,
     w_type_crc = map (\<lambda>i. crc32c_Value 0 [of_nat i]) [0..<kMaxRecordType + 1]\<rparr>"

definition EmitPhysicalRecord ::
  "'f WritableFile \<Rightarrow> 'f Writer \<Rightarrow> RecordType \<Rightarrow> bytes \<Rightarrow> 'f Writer \<times> bool" where
  "EmitPhysicalRecord env w t ptr =
     (let n = length ptr;
          crc = crc32c_Mask (crc32c_Extend 0 (w_type_crc w ! record_code t) ptr);
          buf = EncodeFixed32 crc @ [of_nat n AND 0xFF, of_nat (n div 256), of_nat (record_code t)];
          (f, ok) = wf_Append env (w_dest w) buf;
          (f, ok) = (if ok then
                       (let (f, ok) = wf_Append env f ptr
                        in if ok then wf_Flush env f else (f, ok))
                     else (f, ok))
      in (w\<lparr>w_dest := f, w_block_offset := w_block_offset w + kHeaderSize + n\<rparr>, ok))"

definition switch_block :: "'f WritableFile \<Rightarrow> 'f Writer \<Rightarrow> 'f Writer" where
  "switch_block env w =
     (let leftover = int kBlockSize - int (w_block_offset w)
      in if leftover < int kHeaderSize then
           (let f = (if leftover > 0 then fst (wf_Append env (w_dest w) (replicate (nat leftover) 0)) else w_dest w)
            in w\<lparr>w_dest := f, w_block_offset := 0\<rparr>)
         else w)"

definition fragment_type :: "bool \<Rightarrow> bool \<Rightarrow> RecordType" where
  "fragment_type first final =
     (if first \<and> final then kFullType else if first then kFirstType
      else if final then kLastType else kMiddleType)"

lemma block_offset_switch:
  "w_block_offset (switch_block env w) = (if kBlockSize < w_block_offset w + kHeaderSize then 0 else w_block_offset w)"
  by (auto simp: switch_block_def Let_def kBlockSize_def kHeaderSize_def)

lemma block_offset_Emit:
  "w_block_offset (fst (EmitPhysicalRecord env w t ptr)) = w_block_offset w + kHeaderSize + length ptr"
  by (simp add: EmitPhysicalRecord_def Let_def split: prod.split)

function AddRecord_loop :: "'f WritableFile \<Rightarrow> 'f Writer \<Rightarrow> bytes \<Rightarrow> bool \<Rightarrow> 'f Writer \<times> bool" where
  "AddRecord_loop env w ptr first =
     (let w = switch_block env w;
          avail = kBlockSize - w_block_offset w - kHeaderSize;
          fragment_length = min (length ptr) avail;
          type = fragment_type first (length ptr = fragment_length);
          (w, ok) = EmitPhysicalRecord env w type (take fragment_length ptr);
          ptr = drop fragment_length ptr
      in if ok \<and> ptr \<noteq> [] then AddRecord_loop env w ptr False else (w, ok))"
  by pat_completeness auto

termination
proof (relation "measures [\<lambda>(env, w, ptr, first). length ptr,
    \<lambda>(env, w, ptr, first). if w_block_offset (switch_block env w) + kHeaderSize = kBlockSize then 1 else 0]", goal_cases)
  case (2 env w ptr first w1 avail n t p w2 ok ptr')
  have "w2 = fst (EmitPhysicalRecord env w1 t (take n ptr))" using 2(5,6) by (metis fst_conv)
  then have "w_block_offset w2 = w_block_offset w1 + kHeaderSize + length (take n ptr)"
    by (simp add: block_offset_Emit)
  then show ?case
    using 2 by (auto simp: block_offset_switch kBlockSize_def kHeaderSize_def split: if_splits)
qed simp

declare AddRecord_loop.simps [simp del]

definition AddRecord :: "'f WritableFile \<Rightarrow> 'f Writer \<Rightarrow> bytes \<Rightarrow> 'f Writer \<times> bool" where
  "AddRecord env w data = AddRecord_loop env w data True"

section \<open>Reader\<close>

record Reader =
  r_file :: SequentialFile
  r_has_reporter :: bool
  r_reports :: "(u64 \<times> string) list"
  r_checksum :: bool
  r_buffer :: bytes
  r_eof :: bool
  r_last_record_offset :: u64
  r_end_of_buffer_offset :: u64
  r_initial_offset :: u64

definition Reader_new :: "SequentialFile \<Rightarrow> bool \<Rightarrow> bool \<Rightarrow> u64 \<Rightarrow> Reader" where
  "Reader_new file reporter checksum initial_offset =
     \<lparr>r_file = file, r_has_reporter = reporter, r_reports = [], r_checksum = checksum, r_buffer = [],
      r_eof = False, r_last_record_offset = 0, r_end_of_buffer_offset = 0, r_initial_offset = initial_offset\<rparr>"

definition ReportDrop :: "Reader \<Rightarrow> u64 \<Rightarrow> string \<Rightarrow> Reader" where
  "ReportDrop r n reason =
     (if r_has_reporter r \<and>
         r_initial_offset r \<le> r_end_of_buffer_offset r - of_nat (length (r_buffer r)) - n
      then r\<lparr>r_reports := (n, reason) # r_reports r\<rparr> else r)"

definition SkipToInitialBlock :: "Reader \<Rightarrow> Reader \<times> bool" where
  "SkipToInitialBlock r =
     (let offset_in_block = r_initial_offset r mod of_nat kBlockSize;
          block_start_location = r_initial_offset r - offset_in_block;
          block_start_location = (if offset_in_block > of_nat kBlockSize - 6
            then block_start_location + of_nat kBlockSize else block_start_location);
          r = r\<lparr>r_end_of_buffer_offset := block_start_location\<rparr>
      in if block_start_location > 0 then
           (let (f, ok) = SequentialFile_Skip (r_file r) block_start_location;
                r = r\<lparr>r_file := f\<rparr>
            in if ok then (r, True) else (ReportDrop r block_start_location ''skip'', False))
         else (r, True))"

definition kEof :: u32 where "kEof = 5"
definition kBadRecord :: u32 where "kBadRecord = 6"

definition ParseHeader :: "Reader \<Rightarrow> Reader \<times> u32 \<times> bytes option" where
  "ParseHeader r =
     (let header = r_buffer r;
          type = scast (header ! 6) :: u32;
          len = unat (header ! 4) + 256 * unat (header ! 5);
          cleared = r\<lparr>r_buffer := []\<rparr>
      in if length header < kHeaderSize + len then
           (ReportDrop cleared (of_nat (length header)) ''bad record length'', kBadRecord, None)
         else if type = 0 \<and> len = 0 then (cleared, kBadRecord, None)
         else if r_checksum r \<and>
             crc32c_Value 0 (take (1 + len) (drop 6 header)) \<noteq> crc32c_Unmask (DecodeFixed32 header) then
           (ReportDrop cleared (of_nat (length header)) ''checksum mismatch'', kBadRecord, None)
         else
           (let r = r\<lparr>r_buffer := drop (kHeaderSize + len) header\<rparr>
            in if r_end_of_buffer_offset r - of_nat (length (r_buffer r)) - of_nat kHeaderSize - of_nat len
                  < r_initial_offset r
               then (r, kBadRecord, Some [])
               else (r, type, Some (take len (drop kHeaderSize header)))))"

definition ReadBlock :: "Reader \<Rightarrow> Reader \<times> bool" where
  "ReadBlock r =
     (let (f, buffer, ok) = SequentialFile_Read (r_file r) kBlockSize;
          r = r\<lparr>r_file := f, r_buffer := buffer,
                r_end_of_buffer_offset := r_end_of_buffer_offset r + of_nat (length buffer)\<rparr>
      in if \<not> ok then ((ReportDrop (r\<lparr>r_buffer := []\<rparr>) (of_nat kBlockSize) ''read'')\<lparr>r_eof := True\<rparr>, False)
         else if length buffer < kBlockSize then (r\<lparr>r_eof := True\<rparr>, True)
         else (r, True))"

lemma ReadBlock_filled: "snd (ReadBlock r) \<Longrightarrow> r_eof (fst (ReadBlock r)) \<or> kHeaderSize \<le> length (r_buffer (fst (ReadBlock r)))"
  by (auto simp: ReadBlock_def SequentialFile_Read_def kBlockSize_def kHeaderSize_def Let_def split: if_splits)

function ReadPhysicalRecord :: "Reader \<Rightarrow> Reader \<times> u32 \<times> bytes option" where
  "ReadPhysicalRecord r =
     (if length (r_buffer r) < kHeaderSize then
        (if \<not> r_eof r then
           (if snd (ReadBlock r) then ReadPhysicalRecord (fst (ReadBlock r))
            else (fst (ReadBlock r), kEof, None))
         else if r_buffer r = [] then (r, kEof, None)
         else
           (ReportDrop (r\<lparr>r_buffer := []\<rparr>) (of_nat (length (r_buffer r)))
              ''truncated record at end of file'', kEof, None))
      else ParseHeader r)"
  by pat_completeness auto

termination
  by (relation "measure (\<lambda>r. if length (r_buffer r) < kHeaderSize \<and> \<not> r_eof r then 1 else 0)")
    (auto dest: ReadBlock_filled)

declare ReadPhysicalRecord.simps [simp del]

definition bytes_left :: "Reader \<Rightarrow> nat" where
  "bytes_left r = length (sf_rest (r_file r)) + length (r_buffer r)"

lemma ReportDrop_sel [simp]:
  "r_file (ReportDrop r n s) = r_file r" "r_buffer (ReportDrop r n s) = r_buffer r"
  "r_eof (ReportDrop r n s) = r_eof r" "r_checksum (ReportDrop r n s) = r_checksum r"
  "r_initial_offset (ReportDrop r n s) = r_initial_offset r"
  "r_last_record_offset (ReportDrop r n s) = r_last_record_offset r"
  "r_end_of_buffer_offset (ReportDrop r n s) = r_end_of_buffer_offset r"
  by (simp_all add: ReportDrop_def)

lemma ParseHeader_less:
  "kHeaderSize \<le> length (r_buffer r) \<Longrightarrow> bytes_left (fst (ParseHeader r)) < bytes_left r"
  by (auto simp: ParseHeader_def bytes_left_def Let_def kHeaderSize_def)

lemma ReadBlock_left: "length (r_buffer r) < kHeaderSize \<Longrightarrow> bytes_left (fst (ReadBlock r)) \<le> bytes_left r"
  by (auto simp: ReadBlock_def SequentialFile_Read_def bytes_left_def Let_def)

lemma ReadPhysicalRecord_less:
  "fst (snd (ReadPhysicalRecord r)) \<noteq> kEof \<Longrightarrow> bytes_left (fst (ReadPhysicalRecord r)) < bytes_left r"
proof (induction r rule: ReadPhysicalRecord.induct)
  case (1 r)
  show ?case
  proof (cases "length (r_buffer r) < kHeaderSize")
    case True
    then show ?thesis
      using 1 ReadBlock_left [OF True] by (auto simp: ReadPhysicalRecord.simps [of r] split: if_splits)
  next
    case False
    then show ?thesis using ParseHeader_less [of r] by (simp add: ReadPhysicalRecord.simps [of r])
  qed
qed

lemma ReportDrop_left [simp]: "bytes_left (ReportDrop r n s) = bytes_left r"
  by (simp add: bytes_left_def)

function ReadRecord_loop ::
  "Reader \<Rightarrow> bool \<Rightarrow> bytes \<Rightarrow> u64 \<Rightarrow> Reader \<times> bytes option" where
  "ReadRecord_loop r in_fragmented_record scratch prospective =
     (let physical_record_offset = r_end_of_buffer_offset r - of_nat (length (r_buffer r));
          res = ReadPhysicalRecord r;
          r = fst res; record_type = fst (snd res);
          fragment = (case snd (snd res) of Some f \<Rightarrow> f | None \<Rightarrow> []);
          size = (of_nat (length scratch) :: u64)
      in if record_type = of_nat (record_code kFullType) then
           ((if in_fragmented_record \<and> scratch \<noteq> []
             then ReportDrop r size ''partial record without end(1)'' else r)
               \<lparr>r_last_record_offset := physical_record_offset\<rparr>, Some fragment)
         else if record_type = of_nat (record_code kFirstType) then
           ReadRecord_loop
             (if in_fragmented_record \<and> scratch \<noteq> []
              then ReportDrop r size ''partial record without end(2)'' else r)
             True fragment physical_record_offset
         else if record_type = of_nat (record_code kMiddleType) then
           (if in_fragmented_record then ReadRecord_loop r True (scratch @ fragment) prospective
            else ReadRecord_loop (ReportDrop r (of_nat (length fragment)) ''missing start of fragmented record(1)'')
              False scratch prospective)
         else if record_type = of_nat (record_code kLastType) then
           (if in_fragmented_record
            then (r\<lparr>r_last_record_offset := prospective\<rparr>, Some (scratch @ fragment))
            else ReadRecord_loop (ReportDrop r (of_nat (length fragment)) ''missing start of fragmented record(2)'')
              False scratch prospective)
         else if record_type = kEof then
           (if in_fragmented_record then ReportDrop r size ''partial record without end(3)'' else r, None)
         else if record_type = kBadRecord then
           (if in_fragmented_record
            then ReadRecord_loop (ReportDrop r size ''error in middle of record'') False [] prospective
            else ReadRecord_loop r False scratch prospective)
         else
           ReadRecord_loop
             (ReportDrop r (of_nat (length fragment) + (if in_fragmented_record then size else 0)) (''unknown record type '' @ print_nat (unat record_type)))
             False [] prospective)"
  by pat_completeness auto
termination
  by (relation "measure (\<lambda>(r, f, s, p). bytes_left r)")
    (simp_all add: ReadPhysicalRecord_less kEof_def kBadRecord_def)

declare ReadRecord_loop.simps [simp del]

definition ReadRecord :: "Reader \<Rightarrow> Reader \<times> bytes option" where
  "ReadRecord r =
     (if r_last_record_offset r < r_initial_offset r then
        (let (r, ok) = SkipToInitialBlock r in if ok then ReadRecord_loop r False [] 0 else (r, None))
      else ReadRecord_loop r False [] 0)"

lemma last_record_left [simp]: "bytes_left (r\<lparr>r_last_record_offset := x\<rparr>) = bytes_left r"
  by (simp add: bytes_left_def)

lemma ReadRecord_loop_less:
  "ReadRecord_loop r f s p = (r', Some d) \<Longrightarrow> bytes_left r' < bytes_left r"
proof (induction "bytes_left r" arbitrary: r f s p rule: less_induct)
  case less
  let ?r = "fst (ReadPhysicalRecord r)" and ?t = "fst (snd (ReadPhysicalRecord r))"
  have IH: "bytes_left r' < bytes_left r"
    if "?t \<noteq> kEof" "ReadRecord_loop q f' s' p' = (r', Some d)" "bytes_left q = bytes_left ?r" for q f' s' p'
    using less(1) [OF _ that(2)] ReadPhysicalRecord_less [OF that(1)] that(3) by simp
  have eof: "?t \<noteq> kEof \<Longrightarrow> bytes_left ?r < bytes_left r" by (rule ReadPhysicalRecord_less)
  show ?case
    using less(2) unfolding ReadRecord_loop.simps [of r f s p] Let_def
    by (auto simp: kEof_def kBadRecord_def eof [unfolded kEof_def] split: if_splits dest!: IH [rotated])
qed

lemma SkipToInitialBlock_left: "bytes_left (fst (SkipToInitialBlock r)) \<le> bytes_left r"
  by (auto simp: SkipToInitialBlock_def SequentialFile_Skip_def Let_def bytes_left_def split: prod.split)

lemma ReadRecord_less: "ReadRecord r = (r', Some d) \<Longrightarrow> bytes_left r' < bytes_left r"
  using SkipToInitialBlock_left [of r]
  by (auto simp: ReadRecord_def dest!: ReadRecord_loop_less split: if_splits prod.splits)

function read_records :: "Reader \<Rightarrow> bytes list \<times> Reader" where
  "read_records r =
     (case ReadRecord r of
        (r, None) \<Rightarrow> ([], r)
      | (r, Some d) \<Rightarrow> (case read_records r of (ds, r) \<Rightarrow> (d # ds, r)))"
  by pat_completeness auto
termination
  by (relation "measure bytes_left") (auto dest: ReadRecord_less [OF sym])

declare read_records.simps [simp del]

section \<open>The layout of a log\<close>

definition physical :: "RecordType \<Rightarrow> bytes \<Rightarrow> bytes" where
  "physical t p = EncodeFixed32 (crc32c_Mask (crc32c 0 (of_nat (record_code t) # p))) @
     [of_nat (length p) AND 0xFF, of_nat (length p div 256), of_nat (record_code t)] @ p"

definition padding :: "nat \<Rightarrow> bytes" where
  "padding bo = (if kBlockSize < bo + kHeaderSize then replicate (kBlockSize - bo) 0 else [])"

definition start :: "nat \<Rightarrow> nat" where
  "start bo = (if kBlockSize < bo + kHeaderSize then 0 else bo)"

type_synonym fragment = "RecordType \<times> bytes"

fun layout :: "nat \<Rightarrow> fragment list \<Rightarrow> bytes" where
  "layout bo [] = []"
| "layout bo ((t, p) # fs) = padding bo @ physical t p @ layout (start bo + kHeaderSize + length p) fs"

fun after_offset :: "nat \<Rightarrow> fragment list \<Rightarrow> nat" where
  "after_offset bo [] = bo"
| "after_offset bo ((t, p) # fs) = after_offset (start bo + kHeaderSize + length p) fs"

fun fits :: "nat \<Rightarrow> fragment list \<Rightarrow> bool" where
  "fits bo [] \<longleftrightarrow> True"
| "fits bo ((t, p) # fs) \<longleftrightarrow> t \<noteq> kZeroType \<and> start bo + kHeaderSize + length p \<le> kBlockSize \<and>
     fits (start bo + kHeaderSize + length p) fs"

fun fragments_of :: "bool \<Rightarrow> bytes \<Rightarrow> fragment list \<Rightarrow> bool" where
  "fragments_of first data [] \<longleftrightarrow> False"
| "fragments_of first data [(t, p)] \<longleftrightarrow> t = fragment_type first True \<and> p = data"
| "fragments_of first data ((t, p) # fs) \<longleftrightarrow> t = fragment_type first False \<and> take (length p) data = p \<and>
     fragments_of False (drop (length p) data) fs"

lemma layout_append: "layout bo (fs @ gs) = layout bo fs @ layout (after_offset bo fs) gs"
  by (induction bo fs rule: layout.induct) simp_all

lemma after_append: "after_offset bo (fs @ gs) = after_offset (after_offset bo fs) gs"
  by (induction bo fs rule: layout.induct) simp_all

lemma fits_append: "fits bo (fs @ gs) \<longleftrightarrow> fits bo fs \<and> fits (after_offset bo fs) gs"
  by (induction bo fs rule: layout.induct) auto

lemma after_le: "fits bo fs \<Longrightarrow> bo \<le> kBlockSize \<Longrightarrow> after_offset bo fs \<le> kBlockSize"
  by (induction bo fs rule: layout.induct) auto

section \<open>The writer writes the layout\<close>

definition writer_ok :: "'f Writer \<Rightarrow> bool" where
  "writer_ok w \<longleftrightarrow> w_block_offset w \<le> kBlockSize \<and>
     w_type_crc w = map (\<lambda>i. crc32c 0 [of_nat i]) [0..<kMaxRecordType + 1]"

lemma Writer_new_ok: "writer_ok (Writer_new f)" "w_block_offset (Writer_new f) = 0" "w_dest (Writer_new f) = f"
  by (simp_all add: writer_ok_def Writer_new_def crc32c_Value_def crc32c_Extend_crc)

lemma type_crc: "writer_ok w \<Longrightarrow> w_type_crc w ! record_code t = crc32c 0 [of_nat (record_code t)]"
  by (cases t) (simp_all add: writer_ok_def kMaxRecordType_def)

lemma Emit_ok:
  assumes "appends env content" "writer_ok w"
  obtains f where "EmitPhysicalRecord env w t p =
      (w\<lparr>w_dest := f, w_block_offset := w_block_offset w + kHeaderSize + length p\<rparr>, True)"
    "content f = content (w_dest w) @ physical t p"
proof -
  let ?hdr = "EncodeFixed32 (crc32c_Mask (crc32c 0 (of_nat (record_code t) # p))) @
     [of_nat (length p) AND 0xFF, of_nat (length p div 256), of_nat (record_code t)]"
  obtain f1 where 1: "wf_Append env (w_dest w) ?hdr = (f1, True)" "content f1 = content (w_dest w) @ ?hdr"
    using assms(1) unfolding appends_def by blast
  obtain f2 where 2: "wf_Append env f1 p = (f2, True)" "content f2 = content f1 @ p"
    using assms(1) unfolding appends_def by blast
  obtain f3 where 3: "wf_Flush env f2 = (f3, True)" "content f3 = content f2"
    using assms(1) unfolding appends_def by blast
  have "crc32c_Extend 0 (w_type_crc w ! record_code t) p = crc32c 0 (of_nat (record_code t) # p)"
    using type_crc [OF assms(2), of t] crc32c_append [of 0 "[of_nat (record_code t)]" p] by (simp add: crc32c_Extend_crc)
  then show ?thesis
    using that [of f3] 1 2 3 by (simp add: EmitPhysicalRecord_def physical_def Let_def)
qed

lemma switch_ok:
  assumes "appends env content" "writer_ok w"
  obtains f where "switch_block env w = w\<lparr>w_dest := f, w_block_offset := start (w_block_offset w)\<rparr>"
    "content f = content (w_dest w) @ padding (w_block_offset w)"
proof -
  let ?p = "replicate (kBlockSize - w_block_offset w) 0"
  obtain f where f: "wf_Append env (w_dest w) ?p = (f, True)" "content f = content (w_dest w) @ ?p"
    using assms(1) unfolding appends_def by blast
  let ?bo = "w_block_offset w"
  have bo: "?bo \<le> kBlockSize" using assms(2) by (simp add: writer_ok_def)
  have n: "nat (int kBlockSize - int ?bo) = kBlockSize - ?bo" by simp
  have c1: "int kBlockSize - int ?bo < int kHeaderSize \<longleftrightarrow> kBlockSize < ?bo + kHeaderSize" by linarith
  have c2: "0 < int kBlockSize - int ?bo \<longleftrightarrow> ?bo < kBlockSize" by linarith
  show ?thesis
  proof (cases "kBlockSize < ?bo + kHeaderSize")
    case True
    show ?thesis
    proof (cases "?bo < kBlockSize")
      case less: True
      show ?thesis
        by (rule that [of f]) (use True less f in \<open>simp_all add: switch_block_def Let_def c1 c2 n start_def padding_def\<close>)
    next
      case False
      then show ?thesis
        by (intro that [of "w_dest w"]) (use True False in \<open>simp_all add: switch_block_def Let_def c1 c2 start_def padding_def\<close>)
    qed
  next
    case False
    then show ?thesis
      by (intro that [of "w_dest w"]) (simp_all add: switch_block_def Let_def c1 start_def padding_def)
  qed
qed

lemma start_room: "start bo + kHeaderSize \<le> kBlockSize"
  by (simp add: start_def kBlockSize_def kHeaderSize_def)

lemma AddRecord_loop_step:
  assumes "appends env content" "writer_ok w"
  obtains w2 n t where
    "n = min (length data) (kBlockSize - w_block_offset (switch_block env w) - kHeaderSize)"
    "t = fragment_type first (length data = n)"
    "EmitPhysicalRecord env (switch_block env w) t (take n data) = (w2, True)" "writer_ok w2"
    "w_block_offset w2 = start (w_block_offset w) + kHeaderSize + length (take n data)"
    "w_block_offset w2 \<le> kBlockSize"
    "content (w_dest w2) = content (w_dest w) @ padding (w_block_offset w) @ physical t (take n data)"
proof -
  let ?bo = "w_block_offset w"
  obtain f1 where S: "switch_block env w = w\<lparr>w_dest := f1, w_block_offset := start ?bo\<rparr>"
    "content f1 = content (w_dest w) @ padding ?bo"
    by (rule switch_ok [OF assms]) (rule that)
  define n where "n = min (length data) (kBlockSize - w_block_offset (switch_block env w) - kHeaderSize)"
  define t where "t = fragment_type first (length data = n)"
  have ok1: "writer_ok (switch_block env w)" using assms(2) start_room [of ?bo] by (simp add: S(1) writer_ok_def)
  obtain f2 where E: "EmitPhysicalRecord env (switch_block env w) t (take n data) =
      ((switch_block env w)\<lparr>w_dest := f2,
        w_block_offset := w_block_offset (switch_block env w) + kHeaderSize + length (take n data)\<rparr>, True)"
    "content f2 = content (w_dest (switch_block env w)) @ physical t (take n data)"
    by (rule Emit_ok [OF assms(1) ok1]) (rule that)
  have "n \<le> kBlockSize - start ?bo - kHeaderSize" by (simp add: n_def S(1))
  then have room: "start ?bo + kHeaderSize + length (take n data) \<le> kBlockSize"
    using start_room [of ?bo] by simp
  show ?thesis
    by (rule that [OF n_def t_def E(1)]) (use assms(2) room E(2) S(2) in \<open>simp_all add: writer_ok_def S(1)\<close>)
qed

lemma AddRecord_loop_ok:
  assumes "appends env content" "writer_ok w"
  shows "\<exists>w' fs. AddRecord_loop env w data first = (w', True) \<and> writer_ok w' \<and>
    fits (w_block_offset w) fs \<and> fragments_of first data fs \<and>
    content (w_dest w') = content (w_dest w) @ layout (w_block_offset w) fs \<and>
    w_block_offset w' = after_offset (w_block_offset w) fs"
  using assms
proof (induction env w data first rule: AddRecord_loop.induct)
  case (1 env w data first)
  obtain w2 n t where S: "n = min (length data) (kBlockSize - w_block_offset (switch_block env w) - kHeaderSize)"
    "t = fragment_type first (length data = n)"
    "EmitPhysicalRecord env (switch_block env w) t (take n data) = (w2, True)" "writer_ok w2"
    "w_block_offset w2 = start (w_block_offset w) + kHeaderSize + length (take n data)" "w_block_offset w2 \<le> kBlockSize"
    "content (w_dest w2) = content (w_dest w) @ padding (w_block_offset w) @ physical t (take n data)"
    by (rule AddRecord_loop_step [OF 1(2,3)]) (rule that)
  have t: "t \<noteq> kZeroType" by (simp add: S(2) fragment_type_def)
  have step: "AddRecord_loop env w data first =
      (if drop n data \<noteq> [] then AddRecord_loop env w2 (drop n data) False else (w2, True))"
    using S(3) unfolding S(2) by (simp only: AddRecord_loop.simps [of env w data first] Let_def flip: S(1)) simp
  show ?case
  proof (cases "drop n data = []")
    case True
    then have n: "n = length data" by (simp add: S(1))
    then have "fragments_of first data [(t, data)]" by (simp add: S(2))
    then show ?thesis
      using step True S(4-7) t n by (intro exI [of _ w2] exI [of _ "[(t, data)]"]) simp
  next
    case False
    have "\<exists>w' fs. AddRecord_loop env w2 (drop n data) False = (w', True) \<and> writer_ok w' \<and>
      fits (w_block_offset w2) fs \<and> fragments_of False (drop n data) fs \<and>
      content (w_dest w') = content (w_dest w2) @ layout (w_block_offset w2) fs \<and>
      w_block_offset w' = after_offset (w_block_offset w2) fs"
      by (rule 1(1) [OF refl refl S(1) S(2) refl S(3) [symmetric] refl _ 1(2) S(4)]) (use False in simp)
    then obtain w' fs where R: "AddRecord_loop env w2 (drop n data) False = (w', True)" "writer_ok w'"
      "fits (w_block_offset w2) fs" "fragments_of False (drop n data) fs"
      "content (w_dest w') = content (w_dest w2) @ layout (w_block_offset w2) fs"
      "w_block_offset w' = after_offset (w_block_offset w2) fs" by blast
    obtain f fs' where fs: "fs = f # fs'" using R(4) by (cases fs) auto
    have "length data \<noteq> n" "length (take n data) = n" using False by (auto simp: S(1))
    then have "fragments_of first data ((t, take n data) # fs)"
      using R(4) by (simp add: fs S(2))
    then show ?thesis
      using step False R S(5-7) t by (intro exI [of _ w'] exI [of _ "(t, take n data) # fs"]) simp
  qed
qed

section \<open>The reader reads the layout\<close>

text \<open>The reader is before the bytes \<open>s\<close>, which start at offset \<open>bo\<close> of a block and are the last of the
  file; and it has taken nothing from the next block.\<close>

definition reader_at :: "Reader \<Rightarrow> nat \<Rightarrow> bytes \<Rightarrow> bool" where
  "reader_at r bo s \<longleftrightarrow> r_initial_offset r = 0 \<and> \<not> sf_error (r_file r) \<and> bo \<le> kBlockSize \<and>
     (if r_eof r then s = r_buffer r \<and> bo + length s < kBlockSize
      else s = r_buffer r @ sf_rest (r_file r) \<and>
        (length (r_buffer r) = kBlockSize - bo \<or> r_buffer r = [] \<and> bo = 0))"

lemma reader_at_eof: "reader_at r bo s \<Longrightarrow> r_eof r \<Longrightarrow> s = r_buffer r \<and> bo + length s < kBlockSize"
  and reader_at_more: "reader_at r bo s \<Longrightarrow> \<not> r_eof r \<Longrightarrow> s = r_buffer r @ sf_rest (r_file r) \<and>
    (length (r_buffer r) = kBlockSize - bo \<or> r_buffer r = [] \<and> bo = 0)"
  unfolding reader_at_def by (auto split: if_splits)

lemma ReadBlock_ok:
  assumes "\<not> sf_error (r_file r)" "r_initial_offset r = 0" "\<not> r_eof r" "sf_rest (r_file r) = s"
  shows "snd (ReadBlock r)" "reader_at (fst (ReadBlock r)) 0 s"
    "r_buffer (fst (ReadBlock r)) = take kBlockSize s" "r_reports (fst (ReadBlock r)) = r_reports r"
    "r_eof (fst (ReadBlock r)) \<longleftrightarrow> length s < kBlockSize"
  using assms by (auto simp: ReadBlock_def SequentialFile_Read_def Let_def reader_at_def)

lemma start_0 [simp]: "start 0 = 0"
  by (simp add: start_def)

text \<open>With a header in front of it the reader parses one, from a buffer that holds all that is left of
  the block.\<close>

lemma reader_load:
  assumes at: "reader_at r bo (padding bo @ s)" and s: "kHeaderSize \<le> length s"
  obtains r1 where "ReadPhysicalRecord r = ParseHeader r1" "reader_at r1 (start bo) s"
    "r_buffer r1 = take (kBlockSize - start bo) s" "r_reports r1 = r_reports r"
proof (cases "kHeaderSize \<le> length (r_buffer r)")
  case True
  have "\<not> kBlockSize < bo + kHeaderSize"
  proof
    assume p: "kBlockSize < bo + kHeaderSize"
    then have "length (padding bo) = kBlockSize - bo" by (simp add: padding_def)
    then show False using at True p s by (auto simp: reader_at_def split: if_splits)
  qed
  then have pad: "padding bo = []" "start bo = bo" by (simp_all add: padding_def start_def)
  moreover have "r_buffer r = take (kBlockSize - bo) s"
    using at True by (auto simp: reader_at_def pad kHeaderSize_def split: if_splits)
  moreover have "ReadPhysicalRecord r = ParseHeader r" using True by (simp add: ReadPhysicalRecord.simps [of r])
  ultimately show ?thesis using that [of r] at by simp
next
  case False
  have ne: "\<not> r_eof r"
  proof
    assume "r_eof r"
    then have "length (r_buffer r) = length (padding bo @ s)" using at by (simp add: reader_at_def)
    then show False using s False by simp
  qed
  have "sf_rest (r_file r) = s \<and> start bo = 0"
  proof (cases "kBlockSize < bo + kHeaderSize")
    case True
    then have pad: "length (padding bo) = kBlockSize - bo" by (simp add: padding_def)
    have "length (r_buffer r) = kBlockSize - bo"
      using at ne True by (auto simp: reader_at_def kBlockSize_def kHeaderSize_def)
    moreover have "padding bo @ s = r_buffer r @ sf_rest (r_file r)" using at ne by (simp add: reader_at_def)
    ultimately have "sf_rest (r_file r) = s" using pad by (metis append_eq_append_conv)
    then show ?thesis using True by (simp add: start_def)
  next
    case room: False
    then have "r_buffer r = [] \<and> bo = 0" using at ne False by (auto simp: reader_at_def)
    then show ?thesis using at ne room by (simp add: reader_at_def padding_def)
  qed
  then have rest: "sf_rest (r_file r) = s" "start bo = 0" by simp_all
  have e: "\<not> sf_error (r_file r)" "r_initial_offset r = 0" using at by (simp_all add: reader_at_def)
  note B = ReadBlock_ok [OF e ne rest(1)]
  have "kHeaderSize \<le> length (r_buffer (fst (ReadBlock r)))"
    using B(3) s by (simp add: kBlockSize_def kHeaderSize_def)
  then have "ReadPhysicalRecord r = ParseHeader (fst (ReadBlock r))"
    using False ne B(1) by (simp add: ReadPhysicalRecord.simps [of r] ReadPhysicalRecord.simps [of "fst (ReadBlock r)"])
  then show ?thesis using that B(2-4) rest(2) by simp
qed

lemma physical_header:
  assumes "length p < 65536"
  shows "unat (physical t p ! 4) + 256 * unat (physical t p ! 5) = length p"
    "physical t p ! 6 = of_nat (record_code t)"
    "DecodeFixed32 (physical t p @ s) = crc32c_Mask (crc32c 0 (of_nat (record_code t) # p))"
    "drop 6 (physical t p) = of_nat (record_code t) # p" "length (physical t p) = kHeaderSize + length p"
proof -
  have n: "length p div 256 < 256" using assms by simp
  show "DecodeFixed32 (physical t p @ s) = crc32c_Mask (crc32c 0 (of_nat (record_code t) # p))"
    by (simp add: physical_def)
  show "physical t p ! 6 = of_nat (record_code t)" "drop 6 (physical t p) = of_nat (record_code t) # p"
    "length (physical t p) = kHeaderSize + length p"
    by (simp_all add: physical_def nth_append kHeaderSize_def)
  have "(0xFF :: byte) = -1" by simp
  then have "unat (of_nat (length p) AND 0xFF :: byte) = length p mod 256" by (simp only: bit.conj_one_right) (simp add: unat_of_nat)
  moreover have "unat (of_nat (length p div 256) :: byte) = length p div 256" using n by (simp add: unat_of_nat)
  ultimately show "unat (physical t p ! 4) + 256 * unat (physical t p ! 5) = length p"
    by (simp add: physical_def nth_append)
qed

lemma parse_physical:
  assumes at: "reader_at r bo (physical t p @ s)" and room: "bo + kHeaderSize + length p \<le> kBlockSize"
    and buf: "r_buffer r = take (kBlockSize - bo) (physical t p @ s)" and t: "t \<noteq> kZeroType"
  obtains r' where "ParseHeader r = (r', of_nat (record_code t), Some p)"
    "reader_at r' (bo + kHeaderSize + length p) s" "r_reports r' = r_reports r"
proof -
  let ?n = "kHeaderSize + length p"
  have p: "length p < 65536" using room by (simp add: kBlockSize_def)
  note H = physical_header [OF p]
  have len: "length (physical t p) = ?n" by (rule H(5))
  obtain q where q: "r_buffer r = physical t p @ q" "q = take (kBlockSize - bo - ?n) s"
    using buf room len by simp
  have byte: "r_buffer r ! i = physical t p ! i" if "i < 7" for i
    using that len by (simp add: q(1) nth_append kHeaderSize_def)
  have n: "unat (r_buffer r ! 4) + 256 * unat (r_buffer r ! 5) = length p" using H(1) by (simp add: byte)
  have ty: "scast (r_buffer r ! 6) = (of_nat (record_code t) :: u32)" "of_nat (record_code t) \<noteq> (0 :: u32)"
    using t H(2) [of t] by (cases t; simp add: byte)+
  have crc: "crc32c_Value 0 (take (1 + length p) (drop 6 (r_buffer r))) = crc32c_Unmask (DecodeFixed32 (r_buffer r))"
    using len by (simp add: q(1) H(3,4) crc32c_Value_def crc32c_Extend_crc Unmask_Mask kHeaderSize_def)
  have init: "r_initial_offset r = 0" using at by (simp add: reader_at_def)
  let ?r' = "r\<lparr>r_buffer := q\<rparr>"
  have "ParseHeader r = (?r', of_nat (record_code t), Some p)"
    unfolding ParseHeader_def Let_def n ty(1) using crc ty(2) init len
    by (simp add: q(1)) (simp add: physical_def kHeaderSize_def)
  moreover have "reader_at ?r' (bo + ?n) s"
    using at room q len by (auto simp: reader_at_def split: if_splits)
  ultimately show ?thesis using that [of ?r'] by (simp add: add.assoc)
qed

lemma read_fragment:
  assumes "reader_at r bo (padding bo @ physical t p @ s)" "start bo + kHeaderSize + length p \<le> kBlockSize" "t \<noteq> kZeroType"
  obtains r' where "ReadPhysicalRecord r = (r', of_nat (record_code t), Some p)"
    "reader_at r' (start bo + kHeaderSize + length p) s" "r_reports r' = r_reports r"
proof -
  have p: "length p < 65536" using assms(2) by (simp add: kBlockSize_def)
  have "kHeaderSize \<le> length (physical t p @ s)" by (simp add: physical_header(5) [OF p])
  then obtain r1 where L: "ReadPhysicalRecord r = ParseHeader r1" "reader_at r1 (start bo) (physical t p @ s)"
    "r_buffer r1 = take (kBlockSize - start bo) (physical t p @ s)" "r_reports r1 = r_reports r"
    by (rule reader_load [OF assms(1)]) (rule that)
  obtain r' where P: "ParseHeader r1 = (r', of_nat (record_code t), Some p)"
    "reader_at r' (start bo + kHeaderSize + length p) s" "r_reports r' = r_reports r1"
    by (rule parse_physical [OF L(2) assms(2) L(3) assms(3)]) (rule that)
  show ?thesis by (rule that [of r']) (use L P in simp_all)
qed

text \<open>A record is read back from its fragments.\<close>

lemma record_codes:
  "(of_nat (record_code t) :: u32) = of_nat (record_code t') \<longleftrightarrow> t = t'"
  "of_nat (record_code t) \<noteq> kEof" "of_nat (record_code t) \<noteq> kBadRecord"
proof -
  show "(of_nat (record_code t) :: u32) = of_nat (record_code t') \<longleftrightarrow> t = t'" by (cases t; cases t'; simp)
  show "of_nat (record_code t) \<noteq> kEof" "of_nat (record_code t) \<noteq> kBadRecord"
    by (cases t; simp add: kEof_def kBadRecord_def)+
qed

lemma ReadRecord_more:
  assumes "ReadPhysicalRecord r = (r1, of_nat (record_code t), Some p)" "t = fragment_type first False"
  obtains pro' where "ReadRecord_loop r (\<not> first) acc pro = ReadRecord_loop r1 True (if first then p else acc @ p) pro'"
proof (cases first)
  case True
  then show ?thesis
    using that assms by (subst (asm) ReadRecord_loop.simps)
      (auto simp: Let_def record_codes fragment_type_def simp del: record_code.simps)
next
  case False
  then show ?thesis
    using that assms by (subst (asm) ReadRecord_loop.simps)
      (auto simp: Let_def record_codes fragment_type_def simp del: record_code.simps)
qed

lemma ReadRecord_fragments:
  assumes "reader_at r bo (layout bo fs @ s)" "fits bo fs" "fragments_of first data fs"
  shows "\<exists>r'. ReadRecord_loop r (\<not> first) acc pro = (r', Some (if first then data else acc @ data)) \<and>
    reader_at r' (after_offset bo fs) s \<and> r_reports r' = r_reports r"
  using assms
proof (induction fs arbitrary: r bo first data acc pro)
  case (Cons f fs)
  obtain t p where f: "f = (t, p)" by (cases f)
  have at: "reader_at r bo (padding bo @ physical t p @ layout (start bo + kHeaderSize + length p) fs @ s)"
    and room: "start bo + kHeaderSize + length p \<le> kBlockSize" "t \<noteq> kZeroType"
    and rest: "fits (start bo + kHeaderSize + length p) fs"
    using Cons.prems by (simp_all add: f)
  obtain r1 where R: "ReadPhysicalRecord r = (r1, of_nat (record_code t), Some p)"
    "reader_at r1 (start bo + kHeaderSize + length p) (layout (start bo + kHeaderSize + length p) fs @ s)"
    "r_reports r1 = r_reports r"
    by (rule read_fragment [OF at room]) (rule that)
  have offset: "reader_at (r1\<lparr>r_last_record_offset := x\<rparr>) b u \<longleftrightarrow> reader_at r1 b u" for x b u
    by (simp add: reader_at_def)
  show ?case
  proof (cases fs)
    case Nil
    then have "t = fragment_type first True" "p = data" using Cons.prems(3) by (simp_all add: f)
    then show ?thesis
      using R Nil by (subst ReadRecord_loop.simps)
        (simp add: Let_def record_codes fragment_type_def f offset del: record_code.simps)
  next
    case (Cons g gs)
    then have t: "t = fragment_type first False" and p: "take (length p) data = p"
      and fr: "fragments_of False (drop (length p) data) fs" using Cons.prems(3) by (simp_all add: f)
    have d: "p @ drop (length p) data = data" using p by (metis append_take_drop_id)
    obtain pro' where "ReadRecord_loop r (\<not> first) acc pro =
        ReadRecord_loop r1 True (if first then p else acc @ p) pro'"
      by (rule ReadRecord_more [OF R(1) t]) (rule that)
    then show ?thesis
      using Cons.IH [OF R(2) rest fr, of "if first then p else acc @ p" pro'] R(3) d by (auto simp: f)
  qed
qed simp

section \<open>The end of the file\<close>

definition reader_end :: "Reader \<Rightarrow> bool" where
  "reader_end r \<longleftrightarrow> r_eof r \<and> r_buffer r = []"

lemma read_done: "reader_end r \<Longrightarrow> ReadPhysicalRecord r = (r, kEof, None)"
  by (simp add: reader_end_def ReadPhysicalRecord.simps [of r] kHeaderSize_def)

lemma read_end:
  assumes at: "reader_at r bo []"
  shows "\<exists>r'. ReadPhysicalRecord r = (r', kEof, None) \<and> r_reports r' = r_reports r"
proof (cases "r_eof r")
  case True
  then show ?thesis using at read_done [of r] by (auto simp: reader_at_def reader_end_def)
next
  case False
  have e: "\<not> sf_error (r_file r)" "r_initial_offset r = 0" "sf_rest (r_file r) = []" "r_buffer r = []"
    using at False by (simp_all add: reader_at_def)
  note B = ReadBlock_ok [OF e(1,2) False e(3)]
  have "reader_end (fst (ReadBlock r))" using B by (simp add: reader_end_def kBlockSize_def)
  then show ?thesis
    using False B(1,4) e(4) read_done by (simp add: ReadPhysicalRecord.simps [of r] kHeaderSize_def)
qed

text \<open>A result after which \<^verbatim>\<open>ReadRecord\<close> returns no record.\<close>

definition ends :: "Reader \<times> u32 \<times> bytes option \<Rightarrow> bool" where
  "ends res \<longleftrightarrow> fst (snd res) = kEof \<or> fst (snd res) = kBadRecord \<and> reader_end (fst res)"

lemma ends_ReadRecord:
  assumes "ends (ReadPhysicalRecord r)"
  shows "\<exists>r'. ReadRecord_loop r f acc pro = (r', None)"
proof -
  obtain r1 c x where R: "ReadPhysicalRecord r = (r1, c, x)" by (rule prod_cases3)
  have eof: "\<exists>r'. ReadRecord_loop q f acc pro = (r', None)" if "fst (snd (ReadPhysicalRecord q)) = kEof" for q f acc pro
    using that by (subst ReadRecord_loop.simps) (simp add: Let_def kEof_def)
  show ?thesis
  proof (cases "c = kEof")
    case True
    then show ?thesis using eof [of r] R by simp
  next
    case False
    then have c: "c = kBadRecord" "reader_end r1" using assms by (simp_all add: ends_def R)
    have "reader_end (ReportDrop r1 n s)" for n s using c(2) by (simp add: reader_end_def)
    then have "\<exists>r'. ReadRecord_loop (ReportDrop r1 n s) False acc pro = (r', None)"
      "\<exists>r'. ReadRecord_loop r1 False acc pro = (r', None)" for n s acc pro
      using c(2) by (intro eof; simp add: read_done)+
    then show ?thesis
      using R c(1) by (subst ReadRecord_loop.simps) (simp add: Let_def kBadRecord_def kEof_def)
  qed
qed

lemma cut_at_eof:
  assumes "r_eof r" "length (r_buffer r) < kHeaderSize \<or> r_buffer r = take j (physical t p)"
    and j: "j < length (physical t p)" and p: "length p < 65536"
  shows "ends (ReadPhysicalRecord r)"
proof (cases "length (r_buffer r) < kHeaderSize")
  case True
  then show ?thesis using assms(1) by (simp add: ReadPhysicalRecord.simps [of r] ends_def)
next
  case False
  then have b: "r_buffer r = take j (physical t p)" "kHeaderSize \<le> j" using assms(2) by auto
  then have byte: "r_buffer r ! i = physical t p ! i" if "i < 7" for i using that by (simp add: kHeaderSize_def)
  have n: "unat (r_buffer r ! 4) + 256 * unat (r_buffer r ! 5) = length p"
    using physical_header(1) [OF p] by (simp add: byte)
  have "length (r_buffer r) < kHeaderSize + length p" using b j by (simp add: physical_header(5) [OF p])
  then have "ParseHeader r = (ReportDrop (r\<lparr>r_buffer := []\<rparr>) (of_nat (length (r_buffer r))) ''bad record length'', kBadRecord, None)"
    unfolding ParseHeader_def Let_def n by simp
  then show ?thesis
    using False assms(1) by (simp add: ReadPhysicalRecord.simps [of r] ends_def reader_end_def)
qed

lemma read_cut:
  assumes at: "reader_at r bo (take k (padding bo @ physical t p))" and k: "k < length (padding bo @ physical t p)"
    and room: "start bo + kHeaderSize + length p \<le> kBlockSize"
  shows "ends (ReadPhysicalRecord r)"
proof -
  have p: "length p < 65536" using room by (simp add: kBlockSize_def)
  note len = physical_header(5) [OF p, of t]
  let ?s = "take k (padding bo @ physical t p)"
  have e: "\<not> sf_error (r_file r)" "r_initial_offset r = 0" "bo \<le> kBlockSize" using at by (simp_all add: reader_at_def)
  have block: "ends (ReadPhysicalRecord r)"
    if ne: "\<not> r_eof r" "length (r_buffer r) < kHeaderSize"
      and rest: "sf_rest (r_file r) = take j (physical t p)" "j < length (physical t p)" and "start bo = 0" for j
  proof -
    have l: "length (sf_rest (r_file r)) < kBlockSize" using rest room len that(5) by simp
    note B = ReadBlock_ok [OF e(1,2) ne(1) refl]
    have "ReadPhysicalRecord r = ReadPhysicalRecord (fst (ReadBlock r))"
      using ne B(1) by (simp add: ReadPhysicalRecord.simps [of r])
    moreover have "ends (ReadPhysicalRecord (fst (ReadBlock r)))"
    proof (rule cut_at_eof [OF _ _ rest(2) p])
      show "r_eof (fst (ReadBlock r))" using B(5) l by simp
      have "r_buffer (fst (ReadBlock r)) = sf_rest (r_file r)" using B(3) l by (simp only: take_all)
      then show "length (r_buffer (fst (ReadBlock r))) < kHeaderSize \<or>
          r_buffer (fst (ReadBlock r)) = take j (physical t p)" unfolding rest(1) by (rule disjI2)
    qed
    ultimately show ?thesis by simp
  qed
  show ?thesis
  proof (cases "kBlockSize < bo + kHeaderSize")
    case True
    then have pad: "length (padding bo) = kBlockSize - bo" "start bo = 0" by (simp_all add: padding_def start_def)
    show ?thesis
    proof (cases "r_eof r")
      case eof: True
      have "bo + length (r_buffer r) < kBlockSize" using reader_at_eof [OF at eof] by metis
      then have "length (r_buffer r) < kHeaderSize" using True by linarith
      then show ?thesis using eof cut_at_eof [of r 0 t p] len p by (simp add: kHeaderSize_def)
    next
      case False
      then have b: "length (r_buffer r) = kBlockSize - bo" "r_buffer r @ sf_rest (r_file r) = ?s"
        using reader_at_more [OF at False] True by (auto simp: kBlockSize_def kHeaderSize_def)
      then have "kBlockSize - bo \<le> k" by (metis length_append length_take le_add1 min.cobounded2 order_trans)
      then have "sf_rest (r_file r) = take (k - (kBlockSize - bo)) (physical t p)"
        using b pad(1) by (simp add: append_eq_append_conv)
      moreover have "length (r_buffer r) < kHeaderSize" using b(1) True by (simp add: kBlockSize_def kHeaderSize_def)
      moreover have "k - (kBlockSize - bo) < length (physical t p)"
        using k pad(1) len by (simp add: kHeaderSize_def)
      ultimately show ?thesis using block [of "k - (kBlockSize - bo)"] False pad(2) by blast
    qed
  next
    case False
    then have pad: "padding bo = []" "start bo = bo" by (simp_all add: padding_def start_def)
    have k': "k < length (physical t p)" using k pad by simp
    show ?thesis
    proof (cases "r_eof r")
      case True
      then have "r_buffer r = take k (physical t p)" using at pad by (simp add: reader_at_def)
      then show ?thesis using cut_at_eof [OF True _ k' p] by blast
    next
      case ne: False
      then have b: "r_buffer r @ sf_rest (r_file r) = take k (physical t p)" using at pad by (simp add: reader_at_def)
      have "length (r_buffer r) \<le> k" using b by (metis length_append length_take le_add1 min.cobounded2 order_trans)
      then have "r_buffer r = []" "bo = 0" using at ne k' room len pad(2) by (auto simp: reader_at_def)
      then show ?thesis using block [of k] ne b k' pad by (simp add: kHeaderSize_def)
    qed
  qed
qed

lemma ReadRecord_cut:
  assumes "reader_at r bo (take k (layout bo fs))" "k < length (layout bo fs)" "fits bo fs" "fragments_of first data fs"
  shows "\<exists>r'. ReadRecord_loop r (\<not> first) acc pro = (r', None)"
  using assms
proof (induction fs arbitrary: r bo first data acc pro k)
  case (Cons f fs)
  obtain t p where f: "f = (t, p)" by (cases f)
  let ?bo = "start bo + kHeaderSize + length p" and ?u = "padding bo @ physical t p"
  have room: "?bo \<le> kBlockSize" "t \<noteq> kZeroType" and rest: "fits ?bo fs" using Cons.prems(3) by (simp_all add: f)
  have lay: "layout bo (f # fs) = ?u @ layout ?bo fs" by (simp add: f)
  show ?case
  proof (cases "k < length ?u")
    case True
    then have "reader_at r bo (take k ?u)" using Cons.prems(1) by (simp add: lay)
    then show ?thesis by (intro ends_ReadRecord read_cut [OF _ True room(1)])
  next
    case False
    then have at: "reader_at r bo (padding bo @ physical t p @ take (k - length ?u) (layout ?bo fs))"
      using Cons.prems(1) by (simp add: lay)
    obtain r1 where R: "ReadPhysicalRecord r = (r1, of_nat (record_code t), Some p)"
      "reader_at r1 ?bo (take (k - length ?u) (layout ?bo fs))" "r_reports r1 = r_reports r"
      by (rule read_fragment [OF at room]) (rule that)
    have less: "k - length ?u < length (layout ?bo fs)" using Cons.prems(2) False by (simp add: lay)
    then obtain g gs where "fs = g # gs" by (cases fs) auto
    then have t: "t = fragment_type first False" and fr: "fragments_of False (drop (length p) data) fs"
      using Cons.prems(4) by (simp_all add: f)
    obtain pro' where "ReadRecord_loop r (\<not> first) acc pro =
        ReadRecord_loop r1 True (if first then p else acc @ p) pro'"
      by (rule ReadRecord_more [OF R(1) t]) (rule that)
    then show ?thesis
      using Cons.IH [OF R(2) less rest fr, of "if first then p else acc @ p" pro'] by simp
  qed
qed simp

section \<open>Whole logs\<close>

lemma ReadRecord_at: "reader_at r bo s \<Longrightarrow> ReadRecord r = ReadRecord_loop r False [] 0"
  by (simp add: ReadRecord_def reader_at_def)

lemma read_records_prefix:
  assumes "reader_at r bo (layout bo (concat fss) @ s)" "fits bo (concat fss)" "list_all2 (fragments_of True) ds fss"
  obtains r' where "reader_at r' (after_offset bo (concat fss)) s" "r_reports r' = r_reports r"
    "read_records r = (case read_records r' of (ds', r) \<Rightarrow> (ds @ ds', r))"
  using assms
proof (induction fss arbitrary: r bo ds thesis)
  case Nil
  then show ?case by (auto split: prod.splits)
next
  case (Cons fs fss)
  obtain d ds1 where ds: "ds = d # ds1" "fragments_of True d fs" "list_all2 (fragments_of True) ds1 fss"
    using Cons.prems(4) by (auto simp: list_all2_Cons2)
  have at: "reader_at r bo (layout bo fs @ layout (after_offset bo fs) (concat fss) @ s)"
    and fit: "fits bo fs" "fits (after_offset bo fs) (concat fss)"
    using Cons.prems(2,3) by (simp_all add: layout_append fits_append)
  obtain r1 where R: "ReadRecord_loop r False [] 0 = (r1, Some d)"
    "reader_at r1 (after_offset bo fs) (layout (after_offset bo fs) (concat fss) @ s)" "r_reports r1 = r_reports r"
    using ReadRecord_fragments [OF at fit(1) ds(2), of "[]" 0] by auto
  obtain r' where IH: "reader_at r' (after_offset (after_offset bo fs) (concat fss)) s" "r_reports r' = r_reports r1"
    "read_records r1 = (case read_records r' of (ds', r) \<Rightarrow> (ds1 @ ds', r))"
    by (rule Cons.IH [OF _ R(2) fit(2) ds(3)])
  have "read_records r = (case read_records r1 of (ds', r) \<Rightarrow> (d # ds', r))"
    by (subst read_records.simps) (simp add: ReadRecord_at [OF at] R(1))
  then show ?case
    using Cons.prems(1) [of r'] IH R(3) by (simp add: after_append ds(1) split: prod.splits)
qed

lemma read_records_end:
  assumes "reader_at r bo []"
  shows "\<exists>r'. read_records r = ([], r') \<and> r_reports r' = r_reports r"
proof -
  obtain r' where "ReadPhysicalRecord r = (r', kEof, None)" "r_reports r' = r_reports r"
    using read_end [OF assms] by blast
  then have "ReadRecord_loop r False [] 0 = (r', None)" by (subst ReadRecord_loop.simps) (simp add: Let_def kEof_def)
  then show ?thesis
    using \<open>r_reports r' = r_reports r\<close> by (subst read_records.simps) (simp add: ReadRecord_at [OF assms])
qed

lemma read_records_cut:
  assumes "reader_at r bo (take k (layout bo (concat fss)))" "fits bo (concat fss)" "list_all2 (fragments_of True) ds fss"
  shows "\<exists>m r'. read_records r = (take m ds, r')"
  using assms
proof (induction fss arbitrary: r bo ds k)
  case Nil
  then show ?case using read_records_end [of r bo] by auto
next
  case (Cons fs fss)
  obtain d ds1 where ds: "ds = d # ds1" "fragments_of True d fs" "list_all2 (fragments_of True) ds1 fss"
    using Cons.prems(3) by (auto simp: list_all2_Cons2)
  let ?bo = "after_offset bo fs"
  have fit: "fits bo fs" "fits ?bo (concat fss)" using Cons.prems(2) by (simp_all add: fits_append)
  show ?case
  proof (cases "k < length (layout bo fs)")
    case True
    then have at: "reader_at r bo (take k (layout bo fs))" using Cons.prems(1) by (simp add: layout_append)
    obtain r' where "ReadRecord_loop r False [] 0 = (r', None)"
      using ReadRecord_cut [OF at True fit(1) ds(2), of "[]" 0] by auto
    then have "read_records r = (take 0 ds, r')" by (subst read_records.simps) (simp add: ReadRecord_at [OF at])
    then show ?thesis by blast
  next
    case False
    then have at: "reader_at r bo (layout bo (concat [fs]) @ take (k - length (layout bo fs)) (layout ?bo (concat fss)))"
      using Cons.prems(1) by (simp add: layout_append)
    have fr: "list_all2 (fragments_of True) [d] [fs]" using ds(2) by simp
    obtain r1 where R: "reader_at r1 (after_offset bo (concat [fs])) (take (k - length (layout bo fs)) (layout ?bo (concat fss)))"
      "r_reports r1 = r_reports r" "read_records r = (case read_records r1 of (ds', r) \<Rightarrow> ([d] @ ds', r))"
      by (rule read_records_prefix [OF at _ fr]) (use fit(1) in simp, rule that)
    have "reader_at r1 ?bo (take (k - length (layout bo fs)) (layout ?bo (concat fss)))" using R(1) by simp
    from Cons.IH [OF this fit(2) ds(3)] obtain m r' where "read_records r1 = (take m ds1, r')" by blast
    then have "read_records r = (take (Suc m) ds, r')" using R(3) ds(1) by simp
    then show ?thesis by blast
  qed
qed

fun write_records :: "'f WritableFile \<Rightarrow> 'f Writer \<Rightarrow> bytes list \<Rightarrow> 'f Writer \<times> bool" where
  "write_records env w [] = (w, True)"
| "write_records env w (d # ds) =
     (case AddRecord env w d of (w, ok) \<Rightarrow> if ok then write_records env w ds else (w, False))"

lemma write_records_ok:
  assumes "appends env content" "writer_ok w"
  shows "\<exists>w' fss. write_records env w ds = (w', True) \<and> writer_ok w' \<and>
    fits (w_block_offset w) (concat fss) \<and> list_all2 (fragments_of True) ds fss \<and>
    content (w_dest w') = content (w_dest w) @ layout (w_block_offset w) (concat fss) \<and>
    w_block_offset w' = after_offset (w_block_offset w) (concat fss)"
  using assms(2)
proof (induction ds arbitrary: w)
  case Nil
  then show ?case by (intro exI [of _ w] exI [of _ "[]"]) simp
next
  case (Cons d ds)
  obtain w1 fs where A: "AddRecord_loop env w d True = (w1, True)" "writer_ok w1" "fits (w_block_offset w) fs"
    "fragments_of True d fs" "content (w_dest w1) = content (w_dest w) @ layout (w_block_offset w) fs"
    "w_block_offset w1 = after_offset (w_block_offset w) fs"
    using AddRecord_loop_ok [OF assms(1) Cons.prems, of d True] by blast
  obtain w' fss where R: "write_records env w1 ds = (w', True)" "writer_ok w'" "fits (w_block_offset w1) (concat fss)"
    "list_all2 (fragments_of True) ds fss"
    "content (w_dest w') = content (w_dest w1) @ layout (w_block_offset w1) (concat fss)"
    "w_block_offset w' = after_offset (w_block_offset w1) (concat fss)"
    using Cons.IH [OF A(2)] by blast
  show ?case
    using A R by (intro exI [of _ w'] exI [of _ "fs # fss"])
      (simp add: AddRecord_def fits_append layout_append after_append)
qed

definition open_log :: "bool \<Rightarrow> bytes \<Rightarrow> Reader" where
  "open_log checksum s = Reader_new \<lparr>sf_rest = s, sf_error = False\<rparr> True checksum 0"

lemma open_log_at: "reader_at (open_log checksum s) 0 s" "r_reports (open_log checksum s) = []"
  by (simp_all add: open_log_def Reader_new_def reader_at_def)

lemma log_prefix:
  assumes "appends env content" "content f = []"
  shows "\<exists>w1 w2 r. write_records env (Writer_new f) ds1 = (w1, True) \<and> write_records env w1 ds2 = (w2, True) \<and>
    read_records (open_log checksum (content (w_dest w2))) = (ds1 @ ds2, r) \<and> r_reports r = [] \<and>
    (\<forall>k. \<exists>m. fst (read_records (open_log checksum
       (take (length (content (w_dest w1)) + k) (content (w_dest w2))))) = ds1 @ take m ds2)"
proof -
  obtain w1 fss1 where W1: "write_records env (Writer_new f) ds1 = (w1, True)" "writer_ok w1"
    "fits 0 (concat fss1)" "list_all2 (fragments_of True) ds1 fss1"
    "content (w_dest w1) = layout 0 (concat fss1)" "w_block_offset w1 = after_offset 0 (concat fss1)"
    using write_records_ok [OF assms(1) Writer_new_ok(1) [of f], of ds1] assms(2) by (auto simp: Writer_new_ok)
  obtain w2 fss2 where W2: "write_records env w1 ds2 = (w2, True)" "writer_ok w2"
    "fits (w_block_offset w1) (concat fss2)" "list_all2 (fragments_of True) ds2 fss2"
    "content (w_dest w2) = content (w_dest w1) @ layout (w_block_offset w1) (concat fss2)"
    "w_block_offset w2 = after_offset (w_block_offset w1) (concat fss2)"
    using write_records_ok [OF assms(1) W1(2), of ds2] by blast
  have first: "\<exists>r'. reader_at r' (w_block_offset w1) s \<and> r_reports r' = [] \<and>
      read_records (open_log checksum (content (w_dest w1) @ s)) =
        (case read_records r' of (ds', r) \<Rightarrow> (ds1 @ ds', r))" for s
    by (rule read_records_prefix [OF open_log_at(1) [of checksum "layout 0 (concat fss1) @ s"] W1(3,4)])
      (auto simp: W1(5,6) open_log_at(2))
  obtain r' where R: "reader_at r' (w_block_offset w1) (layout (w_block_offset w1) (concat fss2) @ [])" "r_reports r' = []"
    "read_records (open_log checksum (content (w_dest w2))) = (case read_records r' of (ds', r) \<Rightarrow> (ds1 @ ds', r))"
    using first [of "layout (w_block_offset w1) (concat fss2)"] by (auto simp: W2(5))
  obtain r'' where R2: "reader_at r'' (w_block_offset w2) []" "r_reports r'' = r_reports r'"
    "read_records r' = (case read_records r'' of (ds', r) \<Rightarrow> (ds2 @ ds', r))"
    unfolding W2(6) by (rule read_records_prefix [OF R(1) W2(3,4)])
  obtain r where R3: "read_records r'' = ([], r)" "r_reports r = r_reports r''"
    using read_records_end [OF R2(1)] by blast
  have cut: "\<exists>m. fst (read_records (open_log checksum
      (take (length (content (w_dest w1)) + k) (content (w_dest w2))))) = ds1 @ take m ds2" for k
  proof -
    obtain q where Q: "reader_at q (w_block_offset w1) (take k (layout (w_block_offset w1) (concat fss2)))"
      "read_records (open_log checksum (content (w_dest w1) @ take k (layout (w_block_offset w1) (concat fss2)))) =
        (case read_records q of (ds', r) \<Rightarrow> (ds1 @ ds', r))" using first by blast
    obtain m x where "read_records q = (take m ds2, x)" using read_records_cut [OF Q(1) W2(3,4)] by blast
    then show ?thesis using Q(2) by (auto simp: W2(5))
  qed
  show ?thesis using W1(1) W2(1) R R2 R3 cut by simp
qed

section \<open>Properties\<close>

text \<open>C30: The log gives back what was written, and loses nothing but its tail. Records of any length
  written to a file that accepts the writes are read back in order, with no report of corruption,
  however they were cut into blocks. If the file is cut off anywhere after the first records (a crash
  while later ones are written), those are read back, followed by the first few of the others.\<close>
theorem log_roundtrip:
  assumes "appends env content" "content f = []"
  shows "\<exists>w1 w2 r. write_records env (Writer_new f) ds1 = (w1, True) \<and> write_records env w1 ds2 = (w2, True) \<and>
    read_records (open_log checksum (content (w_dest w2))) = (ds1 @ ds2, r) \<and> r_reports r = [] \<and>
    (\<forall>k. \<exists>m. fst (read_records (open_log checksum
       (take (length (content (w_dest w1)) + k) (content (w_dest w2))))) = ds1 @ take m ds2)"
  by (rule log_prefix [OF assms])

theorem log_roundtrip_witness:
  "\<exists>w r. write_records \<lparr>wf_Append = (\<lambda>f b. (f @ b, True)), wf_Flush = (\<lambda>f. (f, True))\<rparr> (Writer_new [])
       [[], replicate 40000 7, [1, 2]] = (w, True) \<and>
     read_records (open_log True (w_dest w)) = ([[], replicate 40000 7, [1, 2]], r) \<and> r_reports r = []"
proof -
  let ?env = "\<lparr>wf_Append = (\<lambda>f b. (f @ b, True)), wf_Flush = (\<lambda>f. (f, True))\<rparr> :: bytes WritableFile"
  have "appends ?env id" by (simp add: appends_def)
  from log_roundtrip [OF this, of "[]" "[[], replicate 40000 7, [1, 2]]" "[]" True]
  show ?thesis by (auto simp del: append_Nil2 replicate.simps) 
qed

end
