(* ===== verification/Recovery.thy ===== *)
theory Recovery
  imports Db_Impl Log_Format
begin

text \<open>
  Recovery from the log (\<^verbatim>\<open>DBImpl::RecoverLogFile\<close> of \<^verbatim>\<open>db/db_impl.cc\<close>): the batches read
  from a log file are applied to a memtable, which is written to a level-0 table when it is full and
  at the end.
  \<^item> \<open>Recovery\<close> is what the loop works on: the memtable, the tables added to the version edit (newest
    first), the largest sequence number, the status, and as in \<open>Db_Impl\<close> the outcomes of the file
    operations and of the tests whether the memtable is full.
  \<^item> \<open>recovered\<close> is the database that is opened with the result: the new tables in front of the old.
  \<^item> Opening the file and choosing the log files (\<^verbatim>\<open>DBImpl::Recover\<close>) are not modelled.
\<close>

section \<open>The code\<close>

record Recovery =
  rc_mem :: "MemTable option"
  rc_edit :: "Table list"
  rc_max_sequence :: u64
  rc_status :: bool
  rc_io :: "bool list"
  rc_full :: "bool list"

definition WriteLevel0Table :: "MemTable \<Rightarrow> Recovery \<Rightarrow> Recovery \<times> bool" where
  "WriteLevel0Table mem rc =
     (let s = (rc_io rc = [] \<or> hd (rc_io rc));
          rc = rc\<lparr>rc_io := tl (rc_io rc)\<rparr>
      in if s then
           (case BuildTable mem of
              None \<Rightarrow> (rc, True)
            | Some t \<Rightarrow> (rc\<lparr>rc_edit := t # rc_edit rc\<rparr>, True))
         else (rc, False))"

definition recover_record :: "bool \<Rightarrow> Recovery \<Rightarrow> bytes \<Rightarrow> Recovery \<times> bool" where
  "recover_record paranoid_checks rc data =
     (if length data < 12 then (rc\<lparr>rc_status := rc_status rc \<and> \<not> paranoid_checks\<rparr>, True)
      else
        (let mem = (case rc_mem rc of None \<Rightarrow> [] | Some m \<Rightarrow> m);
             (mem, st) = InsertInto data mem;
             rc = rc\<lparr>rc_mem := Some mem\<rparr>
         in if st \<noteq> Batch_OK \<and> paranoid_checks then (rc\<lparr>rc_status := False\<rparr>, False)
            else
              (let last_seq = Sequence data + scast (Count data) - 1;
                   rc = (if rc_max_sequence rc < last_seq then rc\<lparr>rc_max_sequence := last_seq\<rparr> else rc);
                   full = (rc_full rc \<noteq> [] \<and> hd (rc_full rc));
                   rc = rc\<lparr>rc_full := tl (rc_full rc)\<rparr>
               in if full then
                    (let (rc, s) = WriteLevel0Table mem rc
                     in if s then (rc\<lparr>rc_mem := None\<rparr>, True) else (rc\<lparr>rc_status := False\<rparr>, False))
                  else (rc, True))))"

function RecoverLogFile_loop :: "bool \<Rightarrow> Reader \<Rightarrow> Recovery \<Rightarrow> Recovery" where
  "RecoverLogFile_loop paranoid_checks reader rc =
     (let res = ReadRecord reader;
          rc = (if paranoid_checks \<and> length (r_reports reader) < length (r_reports (fst res))
                then rc\<lparr>rc_status := False\<rparr> else rc)
      in case snd res of
           None \<Rightarrow> rc
         | Some data \<Rightarrow>
             if \<not> rc_status rc then rc
             else
               (case recover_record paranoid_checks rc data of
                  (rc, True) \<Rightarrow> RecoverLogFile_loop paranoid_checks (fst res) rc
                | (rc, False) \<Rightarrow> rc))"
  by pat_completeness auto
termination
proof (relation "measure (\<lambda>(p, r, rc). bytes_left r)", goal_cases)
  case (2 p reader rc res rc' data)
  then show ?case using ReadRecord_less [of reader "fst res" data] by (simp add: prod_eq_iff)
qed simp

declare RecoverLogFile_loop.simps [simp del]

definition RecoverLogFile :: "bool \<Rightarrow> SequentialFile \<Rightarrow> Recovery \<Rightarrow> Recovery" where
  "RecoverLogFile paranoid_checks file rc =
     (let rc = RecoverLogFile_loop paranoid_checks (Reader_new file True True 0) rc
      in case rc_mem rc of
           None \<Rightarrow> rc
         | Some mem \<Rightarrow>
             if rc_status rc then
               (let (rc, s) = WriteLevel0Table mem rc in rc\<lparr>rc_status := s, rc_mem := None\<rparr>)
             else rc\<lparr>rc_mem := None\<rparr>)"

definition recovered :: "Recovery \<Rightarrow> Table list \<Rightarrow> DBImpl" where
  "recovered rc old = DBImpl_new\<lparr>db_mem := (case rc_mem rc of None \<Rightarrow> [] | Some m \<Rightarrow> m),
     db_level0 := rc_edit rc @ old, db_last_sequence := rc_max_sequence rc\<rparr>"

section \<open>Recovering a sequence of batches\<close>

fun recover_records :: "Recovery \<Rightarrow> bytes list \<Rightarrow> Recovery" where
  "recover_records rc [] = rc"
| "recover_records rc (d # ds) =
     (case recover_record False rc d of (rc, True) \<Rightarrow> recover_records rc ds | (rc, False) \<Rightarrow> rc)"

lemma RecoverLogFile_records:
  assumes "rc_status rc"
  shows "RecoverLogFile_loop False reader rc = recover_records rc (fst (read_records reader))"
  using assms
proof (induction reader arbitrary: rc rule: read_records.induct)
  case (1 reader)
  obtain r' x where R: "ReadRecord reader = (r', x)" by (cases "ReadRecord reader")
  show ?case
  proof (cases x)
    case None
    then show ?thesis using R by (simp add: RecoverLogFile_loop.simps [of _ reader] read_records.simps [of reader])
  next
    case (Some d)
    obtain rc' go where S: "recover_record False rc d = (rc', go)" by (cases "recover_record False rc d")
    have "rc_status rc'" if go
      using S 1(2) that by (auto simp: recover_record_def WriteLevel0Table_def Let_def split: prod.splits option.splits if_splits)
    then show ?thesis
      using R S Some 1(1) [OF R [symmetric] Some] 1(2)
      by (cases go) (auto simp: RecoverLogFile_loop.simps [of _ reader] read_records.simps [of reader] split: prod.splits)
  qed
qed

text \<open>Batches with consecutive sequence numbers, as \<^verbatim>\<open>DBImpl::Write\<close> logs them.\<close>

fun logged :: "u64 \<Rightarrow> bytes list \<Rightarrow> batch_op list list \<Rightarrow> bool" where
  "logged l [] opss \<longleftrightarrow> opss = []"
| "logged l (b # bs) opss \<longleftrightarrow> (\<exists>ops opss'. opss = ops # opss' \<and> batch_rep b (l + 1) ops \<and> length ops < 2 ^ 31 \<and>
     logged (l + of_nat (length ops)) bs opss')"

lemma WriteLevel0_ok:
  assumes "db_rep (recovered rc old) m None ts" "rc_mem rc = Some mem" "set (rc_io rc) \<subseteq> {True}"
  obtains rc' ts' where "WriteLevel0Table mem rc = (rc', True)"
    "db_rep (recovered (rc'\<lparr>rc_mem := None\<rparr>) old) [] None ts'"
    "contents (parts [] None ts') = contents (parts m None ts)" "set (rc_io rc') \<subseteq> {True}"
    "rc_max_sequence rc' = rc_max_sequence rc" "rc_status rc' = rc_status rc"
proof -
  have io: "rc_io rc = [] \<or> hd (rc_io rc)" "set (tl (rc_io rc)) \<subseteq> {True}"
    using assms(3) by (cases "rc_io rc"; auto)+
  have mem: "mem_rep mem m" and R: "list_all2 table_rep (rc_edit rc @ old) ts"
    "\<forall>es\<in>set (parts m None ts). \<forall>e\<in>set es. unat (e_seq e) \<le> unat (rc_max_sequence rc)"
    "sorted_wrt newer (parts m None ts)"
    using assms(1,2) by (simp_all add: db_rep_def recovered_def)
  show ?thesis
  proof (cases "BuildTable mem")
    case None
    then have "m = []" using BuildTable_rep(1) [OF mem] by simp
    then show ?thesis
      by (intro that [of "rc\<lparr>rc_io := tl (rc_io rc)\<rparr>" ts])
        (use None io R in \<open>auto simp: WriteLevel0Table_def db_rep_def recovered_def mem_rep_def parts_def DBImpl_new_def\<close>)
  next
    case (Some t)
    have "db_rep (recovered (rc\<lparr>rc_io := tl (rc_io rc), rc_edit := t # rc_edit rc, rc_mem := None\<rparr>) old) [] None (m # ts)"
      using R BuildTable_rep(2) [OF mem Some]
      by (auto simp: db_rep_def recovered_def mem_rep_def parts_def DBImpl_new_def newer_def)
    moreover have "contents (parts [] None (m # ts)) = contents (parts m None ts)"
      by (simp add: parts_def contents_Nil)
    ultimately show ?thesis
      by (intro that [of "rc\<lparr>rc_io := tl (rc_io rc), rc_edit := t # rc_edit rc\<rparr>" "m # ts"])
        (use Some io in \<open>simp_all add: WriteLevel0Table_def\<close>)
  qed
qed

lemma recover_record_ok:
  assumes rep: "db_rep (recovered rc old) m None ts" and io: "set (rc_io rc) \<subseteq> {True}"
    and b: "batch_rep b (rc_max_sequence rc + 1) ops" "length ops < 2 ^ 31"
    and room: "unat (rc_max_sequence rc) + length ops < 2 ^ 56"
  obtains rc' m' ts' where "recover_record False rc b = (rc', True)" "db_rep (recovered rc' old) m' None ts'"
    "contents (parts m' None ts') = apply_ops ops (contents (parts m None ts))" "set (rc_io rc') \<subseteq> {True}"
    "rc_max_sequence rc' = rc_max_sequence rc + of_nat (length ops)" "rc_status rc' = rc_status rc"
    "unat (rc_max_sequence rc') = unat (rc_max_sequence rc) + length ops"
proof -
  let ?l = "rc_max_sequence rc" and ?mem = "case rc_mem rc of None \<Rightarrow> [] | Some m \<Rightarrow> m"
  have keys: "\<forall>op\<in>set ops. op_ok op" using b(1) by (simp add: batch_rep_def)
  have l: "db_last_sequence (recovered rc old) = ?l" by (simp add: recovered_def)
  obtain m' where I: "db_rep ((recovered rc old)\<lparr>db_mem := Inserter (?l + 1) ops (db_mem (recovered rc old)),
      db_last_sequence := ?l + of_nat (length ops)\<rparr>) m' None ts"
    "contents (parts m' None ts) = apply_ops ops (contents (parts m None ts))"
    "unat (?l + of_nat (length ops)) = unat ?l + length ops"
    using Insert_rep [OF rep keys] room unfolding l by auto
  define rc1 where "rc1 = rc\<lparr>rc_mem := Some (Inserter (?l + 1) ops ?mem), rc_max_sequence := ?l + of_nat (length ops),
    rc_full := tl (rc_full rc)\<rparr>"
  have seq: "Sequence b + scast (Count b) - 1 = ?l + of_nat (length ops)"
    using InsertInto_rep(2) [OF b] Sequence_rep [OF b(1)] by simp
  have le: "?l < ?l + of_nat (length ops) \<longleftrightarrow> ops \<noteq> []" using I(3) by (auto simp: word_less_nat_alt)
  have len: "\<not> length b < 12" using b(1) by (simp add: batch_rep_def)
  have step: "recover_record False rc b = (if rc_full rc \<noteq> [] \<and> hd (rc_full rc)
      then (let (rc, s) = WriteLevel0Table (Inserter (?l + 1) ops ?mem) rc1
            in if s then (rc\<lparr>rc_mem := None\<rparr>, True) else (rc\<lparr>rc_status := False\<rparr>, False))
      else (rc1, True))"
    using len le by (auto simp: recover_record_def InsertInto_rep(1) [OF b] seq rc1_def Let_def)
  have rep1: "db_rep (recovered rc1 old) m' None ts"
    using I(1) by (simp add: recovered_def rc1_def db_rep_def)
  have io1: "set (rc_io rc1) \<subseteq> {True}" and mem1: "rc_mem rc1 = Some (Inserter (?l + 1) ops ?mem)"
    using io by (simp_all add: rc1_def)
  show ?thesis
  proof (cases "rc_full rc \<noteq> [] \<and> hd (rc_full rc)")
    case True
    obtain rc2 ts2 where W: "WriteLevel0Table (Inserter (?l + 1) ops ?mem) rc1 = (rc2, True)"
      "db_rep (recovered (rc2\<lparr>rc_mem := None\<rparr>) old) [] None ts2"
      "contents (parts [] None ts2) = contents (parts m' None ts)" "set (rc_io rc2) \<subseteq> {True}"
      "rc_max_sequence rc2 = rc_max_sequence rc1" "rc_status rc2 = rc_status rc1"
      by (rule WriteLevel0_ok [OF rep1 mem1 io1]) (rule that)
    have "recover_record False rc b = (rc2\<lparr>rc_mem := None\<rparr>, True)" using step True W(1) by simp
    then show ?thesis
      by (rule that [of "rc2\<lparr>rc_mem := None\<rparr>" "[]" ts2]) (use W I in \<open>simp_all add: rc1_def\<close>)
  next
    case False
    then have "recover_record False rc b = (rc1, True)" using step by (simp only: if_False)
    then show ?thesis
      by (rule that [of rc1 m' ts]) (use rep1 io1 I in \<open>simp_all add: rc1_def\<close>)
  qed
qed

lemma recover_records_ok:
  assumes "db_rep (recovered rc old) m None ts" "set (rc_io rc) \<subseteq> {True}" "rc_status rc"
    and "logged (rc_max_sequence rc) bs opss" "unat (rc_max_sequence rc) + length (concat opss) < 2 ^ 56"
  shows "\<exists>rc' m' ts'. recover_records rc bs = rc' \<and> db_rep (recovered rc' old) m' None ts' \<and>
    contents (parts m' None ts') = apply_ops (concat opss) (contents (parts m None ts)) \<and>
    set (rc_io rc') \<subseteq> {True} \<and> rc_status rc' \<and>
    unat (rc_max_sequence rc') = unat (rc_max_sequence rc) + length (concat opss)"
  using assms
proof (induction bs arbitrary: rc m ts opss)
  case Nil
  then show ?case by (auto simp: apply_ops_def)
next
  case (Cons b bs)
  obtain ops opss' where o: "opss = ops # opss'" "batch_rep b (rc_max_sequence rc + 1) ops" "length ops < 2 ^ 31"
    "logged (rc_max_sequence rc + of_nat (length ops)) bs opss'" using Cons.prems(4) by auto
  have room: "unat (rc_max_sequence rc) + length ops < 2 ^ 56" using Cons.prems(5) o(1) by simp
  obtain rc1 m1 ts1 where S: "recover_record False rc b = (rc1, True)" "db_rep (recovered rc1 old) m1 None ts1"
    "contents (parts m1 None ts1) = apply_ops ops (contents (parts m None ts))" "set (rc_io rc1) \<subseteq> {True}"
    "rc_max_sequence rc1 = rc_max_sequence rc + of_nat (length ops)" "rc_status rc1 = rc_status rc"
    "unat (rc_max_sequence rc1) = unat (rc_max_sequence rc) + length ops"
    by (rule recover_record_ok [OF Cons.prems(1,2) o(2,3) room]) (rule that)
  have "rc_status rc1" "logged (rc_max_sequence rc1) bs opss'" using S(5,6) Cons.prems(3) o(4) by simp_all
  moreover have "unat (rc_max_sequence rc1) + length (concat opss') < 2 ^ 56"
    using Cons.prems(5) o(1) S(7) by simp
  ultimately obtain rc' m' ts' where R: "recover_records rc1 bs = rc'" "db_rep (recovered rc' old) m' None ts'"
    "contents (parts m' None ts') = apply_ops (concat opss') (contents (parts m1 None ts1))"
    "set (rc_io rc') \<subseteq> {True}" "rc_status rc'"
    "unat (rc_max_sequence rc') = unat (rc_max_sequence rc1) + length (concat opss')"
    using Cons.IH [OF S(2,4)] by blast
  have "apply_ops (concat opss') (apply_ops ops c) = apply_ops (concat opss) c" for c
    by (simp add: o(1) apply_ops_def)
  then show ?case using R S(1,3,7) o(1) by (intro exI [of _ rc'] exI [of _ m'] exI [of _ ts']) simp
qed

lemma logged_take: "logged l bs opss \<Longrightarrow> logged l (take k bs) (take k opss)"
proof (induction bs arbitrary: l opss k)
  case (Cons b bs)
  then show ?case by (cases k) auto
qed simp

lemma length_logged: "logged l bs opss \<Longrightarrow> length opss = length bs"
  by (induction bs arbitrary: l opss) auto

text \<open>The database that starts the recovery: the tables on disk, and nothing in memory.\<close>

definition rc_start :: "u64 \<Rightarrow> Recovery" where
  "rc_start l = \<lparr>rc_mem = None, rc_edit = [], rc_max_sequence = l, rc_status = True, rc_io = [], rc_full = []\<rparr>"

lemma RecoverLogFile_ok:
  assumes rep: "db_rep (recovered rc old) [] None ts" and rc: "set (rc_io rc) \<subseteq> {True}" "rc_status rc" "rc_mem rc = None"
    and log: "logged (rc_max_sequence rc) bs opss" "unat (rc_max_sequence rc) + length (concat opss) < 2 ^ 56"
    and ds: "fst (read_records (Reader_new file True True 0)) = bs"
  shows "\<exists>rc'. RecoverLogFile False file rc = rc' \<and> rc_status rc' \<and>
    (\<exists>ts'. db_rep (recovered rc' old) [] None ts') \<and>
    (\<forall>key. length key + 8 < 2 ^ 32 \<longrightarrow> db_lookup (recovered rc' old) key =
       apply_ops (concat opss) (db_lookup (recovered rc old)) key)"
proof -
  obtain rc1 m1 ts1 where R: "recover_records rc bs = rc1" "db_rep (recovered rc1 old) m1 None ts1"
    "contents (parts m1 None ts1) = apply_ops (concat opss) (contents (parts [] None ts))"
    "set (rc_io rc1) \<subseteq> {True}" "rc_status rc1"
    "unat (rc_max_sequence rc1) = unat (rc_max_sequence rc) + length (concat opss)"
    using recover_records_ok [OF rep rc(1,2) log] by blast
  have L: "RecoverLogFile_loop False (Reader_new file True True 0) rc = rc1"
    using RecoverLogFile_records [OF rc(2)] R(1) ds by simp
  obtain rc' ts' where F: "RecoverLogFile False file rc = rc'" "rc_status rc'" "rc_max_sequence rc' = rc_max_sequence rc1"
    "db_rep (recovered rc' old) [] None ts'" "contents (parts [] None ts') = contents (parts m1 None ts1)"
  proof (cases "rc_mem rc1")
    case None
    then have "m1 = []" using R(2) by (simp add: db_rep_def recovered_def mem_rep_def)
    then show ?thesis using that [of rc1 ts1] R L None by (simp add: RecoverLogFile_def)
  next
    case (Some mem)
    obtain rc2 ts2 where W: "WriteLevel0Table mem rc1 = (rc2, True)"
      "db_rep (recovered (rc2\<lparr>rc_mem := None\<rparr>) old) [] None ts2"
      "contents (parts [] None ts2) = contents (parts m1 None ts1)" "set (rc_io rc2) \<subseteq> {True}"
      "rc_max_sequence rc2 = rc_max_sequence rc1" "rc_status rc2 = rc_status rc1"
      by (rule WriteLevel0_ok [OF R(2) Some R(4)]) (rule that)
    then show ?thesis
      using that [of "rc2\<lparr>rc_mem := None, rc_status := True\<rparr>" ts2] L Some R(5)
      by (simp add: RecoverLogFile_def recovered_def)
  qed
  have "db_lookup (recovered rc' old) key = apply_ops (concat opss) (db_lookup (recovered rc old)) key"
    if key: "length key + 8 < 2 ^ 32" for key
  proof -
    have last: "unat (db_last_sequence (recovered rc' old)) < 2 ^ 56" "unat (db_last_sequence (recovered rc old)) < 2 ^ 56"
      using F(3) R(6) log(2) by (simp_all add: recovered_def)
    have "db_lookup (recovered rc' old) key = apply_ops (concat opss) (contents (parts [] None ts)) key"
      using DBImpl_Get_rep [OF F(4) key last(1)] fun_cong [OF F(5), of key] R(3) by (simp add: contents_def [of "parts _ None ts'"])
    moreover have "contents (parts [] None ts) key = db_lookup (recovered rc old) key"
      using DBImpl_Get_rep [OF rep key last(2)] by (simp add: contents_def)
    ultimately show ?thesis using apply_ops_local [of "contents (parts [] None ts)" key "db_lookup (recovered rc old)"] by simp
  qed
  then show ?thesis using F by blast
qed

section \<open>Properties\<close>

text \<open>C29: After a crash the database holds the effect of a prefix of the writes, and no write that had
  reached the disk is lost. Batches with consecutive sequence numbers are logged; the file survives
  up to some byte after the first of them. Then recovery succeeds, and there is one number \<open>m\<close> such that
  \<^verbatim>\<open>Get\<close> on the recovered database returns, for every key, what applying those and the first \<open>m\<close> of the
  following batches, in order and each of them whole, to the tables on disk gives, however often the
  memtable filled up on the way.\<close>
theorem crash_recovery:
  assumes "appends env content" "content f = []"
    and "db_rep (recovered rc old) [] None ts" "set (rc_io rc) \<subseteq> {True}" "rc_status rc" "rc_mem rc = None"
    and "logged (rc_max_sequence rc) (bs1 @ bs2) opss" "unat (rc_max_sequence rc) + length (concat opss) < 2 ^ 56"
  shows "\<exists>w1 w2. write_records env (Writer_new f) bs1 = (w1, True) \<and> write_records env w1 bs2 = (w2, True) \<and>
    (\<forall>k. \<exists>m. let file = \<lparr>sf_rest = take (length (content (w_dest w1)) + k) (content (w_dest w2)), sf_error = False\<rparr>;
                 rc' = RecoverLogFile False file rc
             in rc_status rc' \<and> (\<forall>key. length key + 8 < 2 ^ 32 \<longrightarrow> DBImpl_Get (recovered rc' old) None key =
                  apply_ops (concat (take (length bs1 + m) opss)) (db_lookup (recovered rc old)) key))"
proof -
  obtain w1 w2 where W: "write_records env (Writer_new f) bs1 = (w1, True)" "write_records env w1 bs2 = (w2, True)"
    "\<And>k. \<exists>m. fst (read_records (open_log True
       (take (length (content (w_dest w1)) + k) (content (w_dest w2))))) = bs1 @ take m bs2"
    using log_prefix [OF assms(1,2), of bs1 bs2 True] by blast
  have "\<exists>m. let file = \<lparr>sf_rest = take (length (content (w_dest w1)) + k) (content (w_dest w2)), sf_error = False\<rparr>;
                 rc' = RecoverLogFile False file rc
             in rc_status rc' \<and> (\<forall>key. length key + 8 < 2 ^ 32 \<longrightarrow> DBImpl_Get (recovered rc' old) None key =
                  apply_ops (concat (take (length bs1 + m) opss)) (db_lookup (recovered rc old)) key)" for k
  proof -
    let ?file = "\<lparr>sf_rest = take (length (content (w_dest w1)) + k) (content (w_dest w2)), sf_error = False\<rparr>"
    obtain m where m: "fst (read_records (Reader_new ?file True True 0)) = take (length bs1 + m) (bs1 @ bs2)"
      using W(3) [of k] by (auto simp: open_log_def)
    have "length (concat (take n opss)) \<le> length (concat opss)" for n
      using arg_cong [OF append_take_drop_id [of n opss], of "\<lambda>x. length (concat x)"] by (simp del: append_take_drop_id)
    then have room: "unat (rc_max_sequence rc) + length (concat (take (length bs1 + m) opss)) < 2 ^ 56"
      using assms(8) by (meson add_left_mono le_less_trans)
    show ?thesis
      using RecoverLogFile_ok [OF assms(3-6) logged_take [OF assms(7)] room m]
      by (auto simp: db_lookup_def Let_def)
  qed
  then show ?thesis using W(1,2) by blast
qed

theorem crash_recovery_witness:
  "\<exists>w m. let b = SetSequence (WriteBatch_Put WriteBatch_Clear [1] [2]) 1 in
     write_records \<lparr>wf_Append = (\<lambda>f b. (f @ b, True)), wf_Flush = (\<lambda>f. (f, True))\<rparr> (Writer_new []) [b] = (w, True) \<and>
     DBImpl_Get (recovered (RecoverLogFile False \<lparr>sf_rest = take (length (w_dest w) + m) (w_dest w), sf_error = False\<rparr>
       (rc_start 0)) []) None [1] = Some [2]"
proof -
  let ?env = "\<lparr>wf_Append = (\<lambda>f b. (f @ b, True)), wf_Flush = (\<lambda>f. (f, True))\<rparr> :: bytes WritableFile"
  let ?b = "SetSequence (WriteBatch_Put WriteBatch_Clear [1] [2]) 1"
  have env: "appends ?env id" "id [] = []" by (simp_all add: appends_def)
  have rep: "db_rep (recovered (rc_start 0) []) [] None []"
    by (simp add: db_rep_def recovered_def rc_start_def DBImpl_new_def mem_rep_def parts_def)
  have "batch_rep ?b 1 [Batch_Put [1] [2]]"
    using SetSequence_rep [OF Put_rep [OF batch_Clear, of "[1]" "[2]"]] by simp
  then have log: "logged (rc_max_sequence (rc_start 0)) ([?b] @ []) [[Batch_Put [1] [2]]]"
    "unat (rc_max_sequence (rc_start 0)) + length (concat [[Batch_Put [1] [2]]]) < 2 ^ 56" by (simp_all add: rc_start_def)
  have rc: "set (rc_io (rc_start 0)) \<subseteq> {True}" "rc_status (rc_start 0)" "rc_mem (rc_start 0) = None"
    by (simp_all add: rc_start_def)
  obtain w1 where W: "write_records ?env (Writer_new []) [?b] = (w1, True)"
    "\<forall>k. \<exists>m. let file = \<lparr>sf_rest = take (length (w_dest w1) + k) (w_dest w1), sf_error = False\<rparr>;
                 rc' = RecoverLogFile False file (rc_start 0)
             in rc_status rc' \<and> (\<forall>key. length key + 8 < 2 ^ 32 \<longrightarrow> DBImpl_Get (recovered rc' []) None key =
                  apply_ops (concat (take (length [?b] + m) [[Batch_Put [1] [2]]])) (db_lookup (recovered (rc_start 0) [])) key)"
    using crash_recovery [OF env rep rc log] by auto
  obtain m where "\<forall>key. length key + 8 < 2 ^ 32 \<longrightarrow> DBImpl_Get (recovered (RecoverLogFile False
      \<lparr>sf_rest = take (length (w_dest w1) + 0) (w_dest w1), sf_error = False\<rparr> (rc_start 0)) []) None key =
        apply_ops (concat (take (length [?b] + m) [[Batch_Put [1] [2]]])) (db_lookup (recovered (rc_start 0) [])) key"
    using W(2) [THEN spec, of 0] unfolding Let_def by blast
  from this [THEN spec, of "[1]"] show ?thesis
    using W(1) by (intro exI [of _ w1] exI [of _ 0]) (simp add: Let_def apply_ops_def)
qed

end
