(* ===== verification/Skip_List.thy ===== *)
theory Skip_List
  imports Memtable "HOL-Library.Product_Lexorder"
begin

text \<open>
  The skip list of the memtable (\<^verbatim>\<open>db/skiplist.h\<close>) and the random number generator that
  chooses the heights of its towers (\<^verbatim>\<open>util/random.h\<close>).
  \<^item> A node lives at an address; its links are a list, one for each level of its tower, and a link
    is \<open>None\<close> for a null pointer. Following a link that a node does not have, or a null pointer, has
    no result (\<open>None\<close>).
  \<^item> The search loops are partial functions: on an arbitrary heap they may not end. They do on a list
    that satisfies \<open>sl_ok\<close>.
  \<^item> \<open>sl_ok sl ns\<close>: the nodes \<open>ns\<close> are in increasing order of their keys, and each level links those
    of them that are high enough. \<open>Insert\<close> keeps it.
  \<^item> With the comparator of the memtable the keys of the list are the list \<open>MemTable\<close> of the theory
    \<open>Memtable\<close>: \<open>Insert\<close> implements \<open>ordered_insert\<close>, and \<open>Seek\<close> finds the head of \<open>seek\<close>.
\<close>

section \<open>Random numbers\<close>

definition Random_new :: "u32 \<Rightarrow> u32" where
  "Random_new s = s AND 0x7fffffff"

definition Random_Next :: "u32 \<Rightarrow> u32" where
  "Random_Next seed =
     (let M = 2147483647 :: u32;
          A = 16807 :: u64;
          product = ucast seed * A;
          seed = ucast (drop_bit 31 product + (product AND ucast M)) :: u32
      in if seed > M then seed - M else seed)"

section \<open>Nodes\<close>

definition kMaxHeight :: nat where "kMaxHeight = 12"

record 'k Node =
  n_key :: 'k
  n_next :: "nat option list"

record 'k SkipList =
  sl_compare :: "'k \<Rightarrow> 'k \<Rightarrow> int"
  sl_nodes :: "nat \<Rightarrow> 'k Node option"
  sl_fresh :: nat
  sl_head :: nat
  sl_max_height :: nat
  sl_rnd :: u32

definition Node_Next :: "'k SkipList \<Rightarrow> nat \<Rightarrow> nat \<Rightarrow> nat option option" where
  "Node_Next sl x n =
     (case sl_nodes sl x of
        None \<Rightarrow> None
      | Some node \<Rightarrow> if n < length (n_next node) then Some (n_next node ! n) else None)"

definition Node_SetNext :: "'k SkipList \<Rightarrow> nat \<Rightarrow> nat \<Rightarrow> nat option \<Rightarrow> 'k SkipList" where
  "Node_SetNext sl x n y =
     sl\<lparr>sl_nodes := (sl_nodes sl)(x := map_option (\<lambda>node. node\<lparr>n_next := (n_next node)[n := y]\<rparr>) (sl_nodes sl x))\<rparr>"

definition NewNode :: "'k SkipList \<Rightarrow> 'k \<Rightarrow> nat \<Rightarrow> 'k SkipList \<times> nat" where
  "NewNode sl key height =
     (sl\<lparr>sl_nodes := (sl_nodes sl)(sl_fresh sl \<mapsto> \<lparr>n_key = key, n_next = replicate height None\<rparr>),
         sl_fresh := Suc (sl_fresh sl)\<rparr>, sl_fresh sl)"

definition SkipList_new :: "('k \<Rightarrow> 'k \<Rightarrow> int) \<Rightarrow> 'k \<Rightarrow> 'k SkipList" where
  "SkipList_new cmp any_key =
     fst (NewNode \<lparr>sl_compare = cmp, sl_nodes = Map.empty, sl_fresh = 0, sl_head = 0, sl_max_height = 1,
       sl_rnd = Random_new 0xdeadbeef\<rparr> any_key kMaxHeight)"

function RandomHeight_loop :: "u32 \<Rightarrow> nat \<Rightarrow> u32 \<times> nat" where
  "RandomHeight_loop rnd height =
     (if height < kMaxHeight then
        (let rnd = Random_Next rnd
         in if rnd mod 4 = 0 then RandomHeight_loop rnd (height + 1) else (rnd, height))
      else (rnd, height))"
  by pat_completeness auto
termination by (relation "measure (\<lambda>(r, h). kMaxHeight - h)") auto

declare RandomHeight_loop.simps [simp del]

definition RandomHeight :: "'k SkipList \<Rightarrow> 'k SkipList \<times> nat" where
  "RandomHeight sl = (let (rnd, height) = RandomHeight_loop (sl_rnd sl) 1 in (sl\<lparr>sl_rnd := rnd\<rparr>, height))"

section \<open>Search\<close>

definition node_compare :: "'k SkipList \<Rightarrow> nat option \<Rightarrow> 'k \<Rightarrow> int option" where
  "node_compare sl n key =
     (case n of None \<Rightarrow> None | Some n \<Rightarrow> map_option (\<lambda>node. sl_compare sl (n_key node) key) (sl_nodes sl n))"

definition KeyIsAfterNode :: "'k SkipList \<Rightarrow> 'k \<Rightarrow> nat option \<Rightarrow> bool option" where
  "KeyIsAfterNode sl key n =
     (if n = None then Some False else map_option (\<lambda>c. c < 0) (node_compare sl n key))"

partial_function (option) FindGreaterOrEqual_loop ::
  "'k SkipList \<Rightarrow> 'k \<Rightarrow> (nat \<Rightarrow> nat option) option \<Rightarrow> nat \<Rightarrow> nat \<Rightarrow> (nat option \<times> (nat \<Rightarrow> nat option) option) option"
where
  "FindGreaterOrEqual_loop sl key prev x level =
     Option.bind (Node_Next sl x level) (\<lambda>nxt.
     Option.bind (KeyIsAfterNode sl key nxt) (\<lambda>after.
       if after then FindGreaterOrEqual_loop sl key prev (the nxt) level
       else if level = 0 then Some (nxt, map_option (\<lambda>p. p(level \<mapsto> x)) prev)
       else FindGreaterOrEqual_loop sl key (map_option (\<lambda>p. p(level \<mapsto> x)) prev) x (level - 1)))"

definition FindGreaterOrEqual ::
  "'k SkipList \<Rightarrow> 'k \<Rightarrow> (nat \<Rightarrow> nat option) option \<Rightarrow> (nat option \<times> (nat \<Rightarrow> nat option) option) option" where
  "FindGreaterOrEqual sl key prev = FindGreaterOrEqual_loop sl key prev (sl_head sl) (sl_max_height sl - 1)"

partial_function (option) FindLessThan_loop :: "'k SkipList \<Rightarrow> 'k \<Rightarrow> nat \<Rightarrow> nat \<Rightarrow> nat option" where
  "FindLessThan_loop sl key x level =
     Option.bind (Node_Next sl x level) (\<lambda>nxt.
     Option.bind (if nxt = None then Some True else map_option (\<lambda>c. c \<ge> 0) (node_compare sl nxt key)) (\<lambda>stop.
       if stop then (if level = 0 then Some x else FindLessThan_loop sl key x (level - 1))
       else FindLessThan_loop sl key (the nxt) level))"

definition FindLessThan :: "'k SkipList \<Rightarrow> 'k \<Rightarrow> nat option" where
  "FindLessThan sl key = FindLessThan_loop sl key (sl_head sl) (sl_max_height sl - 1)"

partial_function (option) FindLast_loop :: "'k SkipList \<Rightarrow> nat \<Rightarrow> nat \<Rightarrow> nat option" where
  "FindLast_loop sl x level =
     Option.bind (Node_Next sl x level) (\<lambda>nxt.
       if nxt = None then (if level = 0 then Some x else FindLast_loop sl x (level - 1))
       else FindLast_loop sl (the nxt) level)"

definition FindLast :: "'k SkipList \<Rightarrow> nat option" where
  "FindLast sl = FindLast_loop sl (sl_head sl) (sl_max_height sl - 1)"

section \<open>Insertion\<close>

fun raise_prev :: "(nat \<Rightarrow> nat option) \<Rightarrow> nat \<Rightarrow> nat list \<Rightarrow> nat \<Rightarrow> nat option" where
  "raise_prev prev head [] = prev"
| "raise_prev prev head (i # is) = raise_prev (prev(i \<mapsto> head)) head is"

fun link_levels :: "'k SkipList \<Rightarrow> nat \<Rightarrow> (nat \<Rightarrow> nat option) \<Rightarrow> nat list \<Rightarrow> 'k SkipList option" where
  "link_levels sl x prev [] = Some sl"
| "link_levels sl x prev (i # is) =
     (case prev i of
        None \<Rightarrow> None
      | Some p \<Rightarrow>
          (case Node_Next sl p i of
             None \<Rightarrow> None
           | Some nxt \<Rightarrow> link_levels (Node_SetNext (Node_SetNext sl x i nxt) p i (Some x)) x prev is))"

definition SkipList_Insert :: "'k SkipList \<Rightarrow> 'k \<Rightarrow> 'k SkipList option" where
  "SkipList_Insert sl key =
     (case FindGreaterOrEqual sl key (Some Map.empty) of
        None \<Rightarrow> None
      | Some (x, None) \<Rightarrow> None
      | Some (x, Some prev) \<Rightarrow>
          (let (sl, height) = RandomHeight sl;
               (sl, prev) =
                 (if height > sl_max_height sl then
                    (sl\<lparr>sl_max_height := height\<rparr>, raise_prev prev (sl_head sl) [sl_max_height sl..<height])
                  else (sl, prev));
               (sl, x) = NewNode sl key height
           in link_levels sl x prev [0..<height]))"

definition SkipList_Contains :: "'k SkipList \<Rightarrow> 'k \<Rightarrow> bool option" where
  "SkipList_Contains sl key =
     (case FindGreaterOrEqual sl key None of
        None \<Rightarrow> None
      | Some (x, _) \<Rightarrow>
          if x = None then Some False
          else map_option (\<lambda>node. sl_compare sl key (n_key node) = 0) (sl_nodes sl (the x)))"

section \<open>Iterator\<close>

record 'k SkipList_Iterator =
  it_list :: "'k SkipList"
  it_node :: "nat option"

definition Iterator_new :: "'k SkipList \<Rightarrow> 'k SkipList_Iterator" where
  "Iterator_new list = \<lparr>it_list = list, it_node = None\<rparr>"

definition Iterator_Valid :: "'k SkipList_Iterator \<Rightarrow> bool" where
  "Iterator_Valid it \<longleftrightarrow> it_node it \<noteq> None"

definition Iterator_key :: "'k SkipList_Iterator \<Rightarrow> 'k option" where
  "Iterator_key it = Option.bind (it_node it) (\<lambda>n. map_option n_key (sl_nodes (it_list it) n))"

definition Iterator_Next :: "'k SkipList_Iterator \<Rightarrow> 'k SkipList_Iterator option" where
  "Iterator_Next it =
     Option.bind (it_node it) (\<lambda>n. map_option (\<lambda>y. it\<lparr>it_node := y\<rparr>) (Node_Next (it_list it) n 0))"

definition at_head :: "'k SkipList_Iterator \<Rightarrow> nat \<Rightarrow> 'k SkipList_Iterator" where
  "at_head it n = it\<lparr>it_node := (if n = sl_head (it_list it) then None else Some n)\<rparr>"

definition Iterator_Prev :: "'k SkipList_Iterator \<Rightarrow> 'k SkipList_Iterator option" where
  "Iterator_Prev it = Option.bind (Iterator_key it) (\<lambda>key. map_option (at_head it) (FindLessThan (it_list it) key))"

definition Iterator_Seek :: "'k SkipList_Iterator \<Rightarrow> 'k \<Rightarrow> 'k SkipList_Iterator option" where
  "Iterator_Seek it target =
     map_option (\<lambda>(x, _). it\<lparr>it_node := x\<rparr>) (FindGreaterOrEqual (it_list it) target None)"

definition Iterator_SeekToFirst :: "'k SkipList_Iterator \<Rightarrow> 'k SkipList_Iterator option" where
  "Iterator_SeekToFirst it = map_option (\<lambda>y. it\<lparr>it_node := y\<rparr>) (Node_Next (it_list it) (sl_head (it_list it)) 0)"

definition Iterator_SeekToLast :: "'k SkipList_Iterator \<Rightarrow> 'k SkipList_Iterator option" where
  "Iterator_SeekToLast it = map_option (at_head it) (FindLast (it_list it))"

section \<open>Well-formed lists\<close>

definition key_at :: "'k SkipList \<Rightarrow> nat \<Rightarrow> 'k" where
  "key_at sl n = n_key (the (sl_nodes sl n))"

definition height_at :: "'k SkipList \<Rightarrow> nat \<Rightarrow> nat" where
  "height_at sl n = length (n_next (the (sl_nodes sl n)))"

text \<open>The nodes of a list that have a link at a level.\<close>

definition level_nodes :: "'k SkipList \<Rightarrow> nat list \<Rightarrow> nat \<Rightarrow> nat list" where
  "level_nodes sl ns i = filter (\<lambda>n. i < height_at sl n) ns"

fun chain :: "'k SkipList \<Rightarrow> nat \<Rightarrow> nat \<Rightarrow> nat list \<Rightarrow> bool" where
  "chain sl i x [] \<longleftrightarrow> Node_Next sl x i = Some None"
| "chain sl i x (y # ys) \<longleftrightarrow> Node_Next sl x i = Some (Some y) \<and> chain sl i y ys"

definition sl_ok :: "'k SkipList \<Rightarrow> nat list \<Rightarrow> bool" where
  "sl_ok sl ns \<longleftrightarrow>
     0 < sl_max_height sl \<and> sl_max_height sl \<le> kMaxHeight \<and> distinct (sl_head sl # ns) \<and>
     (\<forall>n\<in>set (sl_head sl # ns). n < sl_fresh sl \<and> sl_nodes sl n \<noteq> None) \<and>
     height_at sl (sl_head sl) = kMaxHeight \<and>
     (\<forall>n\<in>set ns. 0 < height_at sl n \<and> height_at sl n \<le> sl_max_height sl) \<and>
     (\<forall>i<kMaxHeight. chain sl i (sl_head sl) (level_nodes sl ns i)) \<and>
     sorted_wrt (\<lambda>a b. sl_compare sl (key_at sl a) (key_at sl b) < 0) ns"

definition first :: "nat list \<Rightarrow> nat option" where
  "first xs = (case xs of [] \<Rightarrow> None | x # _ \<Rightarrow> Some x)"

definition sl_keys :: "'k SkipList \<Rightarrow> nat list \<Rightarrow> 'k list" where
  "sl_keys sl ns = map (key_at sl) ns"

lemma first_simps [simp]: "first [] = None" "first (x # xs) = Some x"
  by (simp_all add: first_def)

lemma chain_append: "chain sl i x (ys @ zs) \<Longrightarrow> chain sl i (last (x # ys)) zs"
  by (induction ys arbitrary: x) auto

lemma chain_first: "chain sl i x zs \<Longrightarrow> Node_Next sl x i = Some (first zs)"
  by (cases zs) auto

lemma chain_cong:
  "\<forall>y\<in>set (a # xs). Node_Next sl' y i = Node_Next sl y i \<Longrightarrow> chain sl' i a xs = chain sl i a xs"
  by (induction xs arbitrary: a) auto

lemma chain_insert:
  assumes "chain sl i a (xs @ ys)" "distinct (a # xs @ ys)"
    and "Node_Next sl' x i = Node_Next sl (last (a # xs)) i" "Node_Next sl' (last (a # xs)) i = Some (Some x)"
    and "\<forall>y\<in>set (a # xs @ ys) - {last (a # xs)}. Node_Next sl' y i = Node_Next sl y i"
  shows "chain sl' i a (xs @ x # ys)"
  using assms
proof (induction xs arbitrary: a)
  case Nil
  show ?case
  proof (cases ys)
    case (Cons y zs)
    then have "chain sl' i y zs = chain sl i y zs"
      using Nil by (intro chain_cong) auto
    then show ?thesis using Nil Cons by simp
  qed (use Nil in simp)
next
  case (Cons b xs)
  have "last (b # xs) \<in> set (b # xs)" by (rule last_in_set) simp
  then have "Node_Next sl' a i = Node_Next sl a i" using Cons.prems(2,5) by auto
  moreover have "chain sl' i b (xs @ x # ys)"
    using Cons.prems by (intro Cons.IH) auto
  ultimately show ?case using Cons.prems(1) by simp
qed

lemma takeWhile_filter:
  "sorted_wrt (\<lambda>a b. P b \<longrightarrow> P a) xs \<Longrightarrow> takeWhile P xs = filter P xs \<and> dropWhile P xs = filter (\<lambda>x. \<not> P x) xs"
  by (induction xs) (auto simp: filter_empty_conv intro: sym)

lemma filter_filter_commute: "filter P (filter Q xs) = filter Q (filter P xs)"
  by (simp add: conj_commute)

lemma Node_Next_cases:
  "sl_nodes sl x \<noteq> None \<Longrightarrow> Node_Next sl x i = (if i < height_at sl x then Some (n_next (the (sl_nodes sl x)) ! i) else None)"
  by (auto simp: Node_Next_def height_at_def)

lemma sl_chain: "sl_ok sl ns \<Longrightarrow> i < kMaxHeight \<Longrightarrow> level_nodes sl ns i = xs \<Longrightarrow> chain sl i (sl_head sl) xs"
  by (auto simp: sl_ok_def)

lemma FindLast_level:
  assumes ok: "sl_ok sl ns" and i: "i < kMaxHeight" and split: "level_nodes sl ns i = ys @ zs"
  shows "FindLast_loop sl (last (sl_head sl # ys)) i =
    (if i = 0 then Some (last (sl_head sl # level_nodes sl ns i))
     else FindLast_loop sl (last (sl_head sl # level_nodes sl ns i)) (i - 1))"
  using split
proof (induction zs arbitrary: ys)
  case Nil
  have "chain sl i (last (sl_head sl # ys)) []"
    by (intro chain_append sl_chain [OF ok i]) (use Nil in simp)
  then have "Node_Next sl (last (sl_head sl # ys)) i = Some None" by simp
  moreover have "ys = level_nodes sl ns i" using Nil by simp
  ultimately show ?case by (subst FindLast_loop.simps) (auto simp del: last.simps)
next
  case (Cons z zs)
  have "chain sl i (last (sl_head sl # ys)) (z # zs)"
    by (intro chain_append sl_chain [OF ok i] Cons.prems)
  then have "FindLast_loop sl (last (sl_head sl # ys)) i = FindLast_loop sl (last (sl_head sl # ys @ [z])) i"
    by (subst FindLast_loop.simps) simp
  then show ?case using Cons.IH [of "ys @ [z]"] Cons.prems by simp
qed

lemma FindLast_ok:
  assumes "sl_ok sl ns"
  shows "FindLast sl = Some (last (sl_head sl # ns))"
proof -
  have down: "FindLast_loop sl (last (sl_head sl # ys)) i = Some (last (sl_head sl # level_nodes sl ns 0))"
    if "i < kMaxHeight" "level_nodes sl ns i = ys @ zs" for i ys zs
    using that
  proof (induction i arbitrary: ys zs)
    case 0
    then show ?case using FindLast_level [OF assms 0] by simp
  next
    case (Suc i)
    let ?L = "level_nodes sl ns (Suc i)"
    have "\<exists>us vs. level_nodes sl ns i = us @ vs \<and> last (sl_head sl # us) = last (sl_head sl # ?L)"
    proof (cases "?L = []")
      case False
      then have "last ?L \<in> set ?L" by (rule last_in_set)
      then have "last ?L \<in> set (level_nodes sl ns i)" by (auto simp: level_nodes_def)
      then obtain us vs where "level_nodes sl ns i = us @ last ?L # vs" by (meson split_list)
      then show ?thesis using False by (intro exI [of _ "us @ [last ?L]"] exI [of _ vs]) simp
    qed (intro exI [of _ "[]"] exI [of _ "level_nodes sl ns i"], simp)
    then obtain us vs where "level_nodes sl ns i = us @ vs" "last (sl_head sl # us) = last (sl_head sl # ?L)"
      by blast
    then show ?case
      using FindLast_level [OF assms Suc.prems] Suc.IH [of us vs] Suc.prems(1) by (simp del: last.simps)
  qed
  have "level_nodes sl ns 0 = ns" "0 < sl_max_height sl" "sl_max_height sl - 1 < kMaxHeight"
    using assms by (auto simp: sl_ok_def level_nodes_def filter_id_conv)
  then show ?thesis using down [of "sl_max_height sl - 1" "[]"] by (simp add: FindLast_def)
qed

section \<open>Links\<close>

definition same_shape :: "'k SkipList \<Rightarrow> 'k SkipList \<Rightarrow> bool" where
  "same_shape sl' sl \<longleftrightarrow> sl_compare sl' = sl_compare sl \<and> sl_head sl' = sl_head sl \<and>
     sl_max_height sl' = sl_max_height sl \<and> sl_fresh sl' = sl_fresh sl \<and>
     dom (sl_nodes sl') = dom (sl_nodes sl) \<and>
     (\<forall>y\<in>dom (sl_nodes sl). key_at sl' y = key_at sl y \<and> height_at sl' y = height_at sl y)"

lemma SetNext_shape: "same_shape (Node_SetNext sl x n y) sl"
  by (auto simp: same_shape_def Node_SetNext_def key_at_def height_at_def dom_def)

lemma Next_SetNext:
  assumes "sl_nodes sl x \<noteq> None" "n < height_at sl x"
  shows "Node_Next (Node_SetNext sl x n y) a j = (if a = x \<and> j = n then Some y else Node_Next sl a j)"
  using assms by (auto simp: Node_Next_def Node_SetNext_def height_at_def split: option.splits)

lemma same_shape_trans: "same_shape a b \<Longrightarrow> same_shape b c \<Longrightarrow> same_shape a c"
  by (auto simp: same_shape_def)

lemma same_shapeD:
  assumes "same_shape sl' sl" "sl_nodes sl y \<noteq> None"
  shows "sl_nodes sl' y \<noteq> None" "height_at sl' y = height_at sl y" "key_at sl' y = key_at sl y"
  using assms by (auto simp: same_shape_def dom_def)

lemma link_levels_ok:
  assumes "distinct is" "sl_nodes sl x \<noteq> None" "\<forall>i\<in>set is. i < height_at sl x"
    and "\<forall>i\<in>set is. \<exists>p. prev i = Some p \<and> p \<noteq> x \<and> sl_nodes sl p \<noteq> None \<and> i < height_at sl p"
  shows "\<exists>sl'. link_levels sl x prev is = Some sl' \<and> same_shape sl' sl \<and>
    (\<forall>y j. Node_Next sl' y j = (if j \<in> set is \<and> y = x then Node_Next sl (the (prev j)) j
      else if j \<in> set is \<and> prev j = Some y then Some (Some x) else Node_Next sl y j))"
  using assms
proof (induction "is" arbitrary: sl)
  case Nil
  then show ?case by (simp add: same_shape_def)
next
  case (Cons i is')
  obtain p where p: "prev i = Some p" "p \<noteq> x" "sl_nodes sl p \<noteq> None" "i < height_at sl p" using Cons.prems(4) by auto
  then obtain nxt where nxt: "Node_Next sl p i = Some nxt" by (auto simp: Node_Next_cases)
  define sl1 where "sl1 = Node_SetNext sl x i nxt"
  define sl2 where "sl2 = Node_SetNext sl1 p i (Some x)"
  have s1: "same_shape sl1 sl" unfolding sl1_def by (rule SetNext_shape)
  have s2: "same_shape sl2 sl" unfolding sl2_def by (rule same_shape_trans [OF SetNext_shape s1])
  have "Node_Next sl1 y j = (if y = x \<and> j = i then Some nxt else Node_Next sl y j)" for y j
    unfolding sl1_def by (rule Next_SetNext) (use Cons.prems in auto)
  then have next2: "Node_Next sl2 y j = (if y = p \<and> j = i then Some (Some x) else if y = x \<and> j = i then Some nxt else Node_Next sl y j)" for y j
    unfolding sl2_def using same_shapeD [OF s1 p(3)] p(4) by (subst Next_SetNext) auto
  have "\<exists>sl'. link_levels sl2 x prev is' = Some sl' \<and> same_shape sl' sl2 \<and>
    (\<forall>y j. Node_Next sl' y j = (if j \<in> set is' \<and> y = x then Node_Next sl2 (the (prev j)) j
      else if j \<in> set is' \<and> prev j = Some y then Some (Some x) else Node_Next sl2 y j))"
  proof (rule Cons.IH)
    show "sl_nodes sl2 x \<noteq> None" "\<forall>i\<in>set is'. i < height_at sl2 x"
      using same_shapeD [OF s2 Cons.prems(2)] Cons.prems(3) by auto
    show "\<forall>i\<in>set is'. \<exists>p. prev i = Some p \<and> p \<noteq> x \<and> sl_nodes sl2 p \<noteq> None \<and> i < height_at sl2 p"
    proof
      fix j assume "j \<in> set is'"
      then obtain q where q: "prev j = Some q" "q \<noteq> x" "sl_nodes sl q \<noteq> None" "j < height_at sl q" using Cons.prems(4) by auto
      then show "\<exists>p. prev j = Some p \<and> p \<noteq> x \<and> sl_nodes sl2 p \<noteq> None \<and> j < height_at sl2 p"
        using same_shapeD [OF s2 q(3)] by auto
    qed
  qed (use Cons.prems in simp)
  then obtain sl' where R: "link_levels sl2 x prev is' = Some sl'" "same_shape sl' sl2"
    "\<And>y j. Node_Next sl' y j = (if j \<in> set is' \<and> y = x then Node_Next sl2 (the (prev j)) j
      else if j \<in> set is' \<and> prev j = Some y then Some (Some x) else Node_Next sl2 y j)" by blast
  have "link_levels sl x prev (i # is') = Some sl'"
    using R(1) p nxt by (simp add: sl1_def sl2_def)
  moreover have "i \<notin> set is'" using Cons.prems(1) by simp
  ultimately show ?case
    using same_shape_trans [OF R(2) s2] p nxt
    by (intro exI [of _ sl'] conjI allI) (auto simp: R(3) next2)
qed

lemma RandomHeight_bounds:
  assumes "RandomHeight sl = (sl', h)"
  shows "0 < h \<and> h \<le> kMaxHeight \<and> sl' = sl\<lparr>sl_rnd := sl_rnd sl'\<rparr>"
proof -
  have "h0 \<le> snd (RandomHeight_loop r h0) \<and> snd (RandomHeight_loop r h0) \<le> kMaxHeight" if "h0 \<le> kMaxHeight" for r h0
    using that
  proof (induction r h0 rule: RandomHeight_loop.induct)
    case (1 r h0)
    then show ?case by (subst (1 2) RandomHeight_loop.simps) (force simp: Let_def)
  qed
  from this [of 1 "sl_rnd sl"] show ?thesis
    using assms by (auto simp: RandomHeight_def kMaxHeight_def split: prod.splits)
qed

lemma raise_prev_eq: "raise_prev prev h is i = (if i \<in> set is then Some h else prev i)"
  by (induction "is" arbitrary: prev) auto

section \<open>Search\<close>

context key_order
begin

definition before :: "'k SkipList \<Rightarrow> 'k \<Rightarrow> nat \<Rightarrow> bool" where
  "before sl key n \<longleftrightarrow> rank (key_at sl n) < rank key"

definition pred_at :: "'k SkipList \<Rightarrow> nat list \<Rightarrow> 'k \<Rightarrow> nat \<Rightarrow> nat" where
  "pred_at sl ns key i = last (sl_head sl # takeWhile (before sl key) (level_nodes sl ns i))"

lemma sorted_before:
  assumes "sl_ok sl ns" "sl_compare sl = cmp"
  shows "sorted_wrt (\<lambda>a b. before sl key b \<longrightarrow> before sl key a) (level_nodes sl ns i)"
    and "sorted_wrt (\<lambda>a b. before sl key b \<longrightarrow> before sl key a) ns"
proof -
  show "sorted_wrt (\<lambda>a b. before sl key b \<longrightarrow> before sl key a) ns"
    using assms by (auto simp: sl_ok_def less before_def intro: sorted_wrt_mono_rel [rotated])
  then show "sorted_wrt (\<lambda>a b. before sl key b \<longrightarrow> before sl key a) (level_nodes sl ns i)"
    by (simp add: level_nodes_def sorted_wrt_filter)
qed

lemma after_node:
  assumes "sl_nodes sl n \<noteq> None" "sl_compare sl = cmp"
  shows "node_compare sl (Some n) key = Some (cmp (key_at sl n) key)"
  using assms by (auto simp: node_compare_def key_at_def)

lemma FindGreaterOrEqual_level:
  assumes ok: "sl_ok sl ns" "sl_compare sl = cmp" and i: "i < kMaxHeight"
    and split: "level_nodes sl ns i = ys @ zs" "\<forall>y\<in>set ys. before sl key y"
  shows "FindGreaterOrEqual_loop sl key prev (last (sl_head sl # ys)) i =
    (let prev = map_option (\<lambda>p. p(i \<mapsto> pred_at sl ns key i)) prev
     in if i = 0 then Some (first (dropWhile (before sl key) (level_nodes sl ns i)), prev)
        else FindGreaterOrEqual_loop sl key prev (pred_at sl ns key i) (i - 1))"
  using split
proof (induction zs arbitrary: ys)
  case Nil
  have "chain sl i (last (sl_head sl # ys)) []"
    by (intro chain_append sl_chain [OF ok(1) i]) (use Nil in simp)
  then have "Node_Next sl (last (sl_head sl # ys)) i = Some None" by simp
  moreover have "pred_at sl ns key i = last (sl_head sl # ys)" "dropWhile (before sl key) (level_nodes sl ns i) = []"
    using Nil by (simp_all add: pred_at_def takeWhile_eq_all_conv [THEN iffD2])
  ultimately show ?case
    by (subst FindGreaterOrEqual_loop.simps) (auto simp: KeyIsAfterNode_def Let_def simp del: last.simps dropWhile_eq_Nil_conv)
next
  case (Cons z zs)
  have "chain sl i (last (sl_head sl # ys)) (z # zs)"
    by (intro chain_append sl_chain [OF ok(1) i] Cons.prems(1))
  then have nxt: "Node_Next sl (last (sl_head sl # ys)) i = Some (Some z)" by simp
  have "z \<in> set ns" using Cons.prems(1) by (metis level_nodes_def filter_is_subset in_set_conv_decomp subsetD)
  then have after: "KeyIsAfterNode sl key (Some z) = Some (before sl key z)"
    using ok by (simp add: KeyIsAfterNode_def after_node sl_ok_def before_def less)
  show ?case
  proof (cases "before sl key z")
    case True
    have "FindGreaterOrEqual_loop sl key prev (last (sl_head sl # ys)) i =
        FindGreaterOrEqual_loop sl key prev (last (sl_head sl # ys @ [z])) i"
      by (subst FindGreaterOrEqual_loop.simps) (simp only: nxt after True bind.bind_lunit if_True option.sel last_snoc append_Cons [symmetric])
    then show ?thesis using Cons.IH [of "ys @ [z]"] Cons.prems True by simp
  next
    case False
    have "pred_at sl ns key i = last (sl_head sl # ys)" "dropWhile (before sl key) (level_nodes sl ns i) = z # zs"
      using Cons.prems False by (simp_all add: pred_at_def)
    then show ?thesis
      using nxt after False
      by (subst FindGreaterOrEqual_loop.simps) (auto simp: Let_def simp del: last.simps)
  qed
qed

text \<open>A search that goes down a level starts among the nodes before the key.\<close>

lemma pred_split:
  assumes ok: "sl_ok sl ns" "sl_compare sl = cmp" and i: "j \<le> i"
  obtains ys zs where "level_nodes sl ns j = ys @ zs" "\<forall>y\<in>set ys. before sl key y" "pred_at sl ns key i = last (sl_head sl # ys)"
proof (cases "takeWhile (before sl key) (level_nodes sl ns i) = []")
  case True
  then show ?thesis using that [of "[]" "level_nodes sl ns j"] by (simp add: pred_at_def)
next
  case False
  define x where "x = pred_at sl ns key i"
  have "x \<in> set (takeWhile (before sl key) (level_nodes sl ns i))"
    unfolding x_def pred_at_def using False last_in_set by auto
  then have x: "x \<in> set (level_nodes sl ns i)" "before sl key x" by (auto dest: set_takeWhileD)
  then have "x \<in> set (level_nodes sl ns j)" using i by (auto simp: level_nodes_def)
  then obtain us vs where u: "level_nodes sl ns j = us @ x # vs" by (meson split_list)
  have "\<forall>u\<in>set us. before sl key u"
    using sorted_before(1) [OF ok, of key j] x(2) by (simp add: u sorted_wrt_append)
  then show ?thesis by (intro that [of "us @ [x]" vs]) (use u x(2) in \<open>simp_all add: x_def [symmetric]\<close>)
qed

lemma FindGreaterOrEqual_down:
  assumes ok: "sl_ok sl ns" "sl_compare sl = cmp" and i: "i < kMaxHeight"
    and split: "level_nodes sl ns i = ys @ zs" "\<forall>y\<in>set ys. before sl key y"
  shows "FindGreaterOrEqual_loop sl key prev (last (sl_head sl # ys)) i =
    Some (first (dropWhile (before sl key) (level_nodes sl ns 0)),
      map_option (\<lambda>p j. if j \<le> i then Some (pred_at sl ns key j) else p j) prev)"
  using i split
proof (induction i arbitrary: ys zs prev)
  case 0
  have "(\<lambda>p. p(0 \<mapsto> pred_at sl ns key 0)) = (\<lambda>p j. if j \<le> 0 then Some (pred_at sl ns key j) else p j)"
    by (auto simp: fun_eq_iff)
  then show ?case
    using FindGreaterOrEqual_level [OF ok 0] by (simp only: Let_def if_True refl)
next
  case (Suc i)
  obtain ys' zs' where y: "level_nodes sl ns i = ys' @ zs'" "\<forall>y\<in>set ys'. before sl key y"
    "pred_at sl ns key (Suc i) = last (sl_head sl # ys')"
    by (rule pred_split [OF ok, of i "Suc i" key]) auto
  have "(\<lambda>p j. if j \<le> i then Some (pred_at sl ns key j) else (p(Suc i \<mapsto> pred_at sl ns key (Suc i))) j) =
      (\<lambda>p j. if j \<le> Suc i then Some (pred_at sl ns key j) else p j)"
    by (auto simp: fun_eq_iff le_Suc_eq)
  then have upd: "map_option (\<lambda>p j. if j \<le> i then Some (pred_at sl ns key j) else p j)
      (map_option (\<lambda>p. p(Suc i \<mapsto> pred_at sl ns key (Suc i))) prev) =
    map_option (\<lambda>p j. if j \<le> Suc i then Some (pred_at sl ns key j) else p j) prev"
    by (simp only: option.map_comp comp_def)
  show ?case
    unfolding FindGreaterOrEqual_level [OF ok Suc.prems] upd [symmetric] y(3)
    using Suc.IH [OF _ y(1,2)] Suc.prems(1) by (simp del: last.simps add: y(3))
qed

lemma level_0: "sl_ok sl ns \<Longrightarrow> level_nodes sl ns 0 = ns"
  by (auto simp: sl_ok_def level_nodes_def filter_id_conv)

lemma FindGreaterOrEqual_ok:
  assumes "sl_ok sl ns" "sl_compare sl = cmp"
  shows "FindGreaterOrEqual sl key prev =
    Some (first (dropWhile (before sl key) ns),
      map_option (\<lambda>p j. if j < sl_max_height sl then Some (pred_at sl ns key j) else p j) prev)"
proof -
  have "0 < sl_max_height sl" "sl_max_height sl - 1 < kMaxHeight" using assms(1) by (auto simp: sl_ok_def)
  then show ?thesis
    using FindGreaterOrEqual_down [OF assms, of "sl_max_height sl - 1" "[]"] level_0 [OF assms(1)]
    by (auto simp: FindGreaterOrEqual_def less_eq_Suc_le [symmetric] le_diff_conv2 Suc_le_eq intro!: map_option_cong split: if_splits)
qed


lemma pred_at_0: "sl_ok sl ns \<Longrightarrow> pred_at sl ns key 0 = last (sl_head sl # takeWhile (before sl key) ns)"
  by (simp add: pred_at_def level_0)

lemma FindLessThan_ok:
  assumes "sl_ok sl ns" "sl_compare sl = cmp"
  shows "FindLessThan sl key = Some (last (sl_head sl # takeWhile (before sl key) ns))"
proof -
  have less: "FindLessThan_loop sl key x i = (case p' of None \<Rightarrow> None | Some p' \<Rightarrow> p' 0)"
    if "FindGreaterOrEqual_loop sl key p x i = Some (r, p')" "p \<noteq> None" for p x i r p' and sl :: "'k SkipList"
    using that
  proof -
    have "p \<noteq> None \<longrightarrow> FindLessThan_loop sl key x i = (case p' of None \<Rightarrow> None | Some p' \<Rightarrow> p' 0)"
    proof (rule FindGreaterOrEqual_loop.raw_induct [where xa = "((((sl, key), p), x), i)" and y = "(r, p')" and
        P = "\<lambda>sl key p x i res. p \<noteq> None \<longrightarrow>
          FindLessThan_loop sl key x i = (case snd res of None \<Rightarrow> None | Some p' \<Rightarrow> p' 0)",
        unfolded prod.case snd_conv, OF _ that(1)], goal_cases)
      case (1 f sl key p x i res)
      obtain nxt after where n: "Node_Next sl x i = Some nxt" "KeyIsAfterNode sl key nxt = Some after"
        using 1(2) by (auto split: Option.bind_splits)
      have stop: "(if nxt = None then Some True else map_option (\<lambda>c. c \<ge> 0) (node_compare sl nxt key)) = Some (\<not> after)"
        using n(2) by (auto simp: KeyIsAfterNode_def split: if_splits)
      show ?case
        using 1(2) 1(1) [of sl key p "the nxt" i res] 1(1) [of sl key "map_option (\<lambda>p. p(i \<mapsto> x)) p" x "i - 1" res]
        by (subst FindLessThan_loop.simps) (auto simp: n stop split: if_splits)
    qed
    then show ?thesis using that(2) by blast
  qed
  show ?thesis
    using less [of sl "Some Map.empty"] FindGreaterOrEqual_ok [OF assms, of key "Some Map.empty"] pred_at_0 [OF assms(1)] assms(1)
    by (auto simp: FindLessThan_def FindGreaterOrEqual_def sl_ok_def)
qed


lemma pred_at_node:
  assumes ok: "sl_ok sl ns" and j: "j < kMaxHeight"
  shows "pred_at sl ns key j \<in> set (sl_head sl # ns) \<and> j < height_at sl (pred_at sl ns key j)"
proof (cases "takeWhile (before sl key) (level_nodes sl ns j) = []")
  case True
  then show ?thesis using ok j by (simp add: pred_at_def sl_ok_def)
next
  case False
  then have "last (takeWhile (before sl key) (level_nodes sl ns j)) \<in> set (level_nodes sl ns j)"
    by (metis last_in_set set_takeWhileD)
  then show ?thesis using False by (auto simp: pred_at_def level_nodes_def)
qed

text \<open>What the linking of a new node \<open>x\<close> of height \<open>h\<close> does to a list.\<close>

definition linked_in :: "'k SkipList \<Rightarrow> nat list \<Rightarrow> 'k \<Rightarrow> nat \<Rightarrow> nat \<Rightarrow> 'k SkipList \<Rightarrow> bool" where
  "linked_in sl ns key x h sl' \<longleftrightarrow>
     sl_head sl' = sl_head sl \<and> sl_max_height sl' = max h (sl_max_height sl) \<and> sl_fresh sl' = Suc x \<and> sl_compare sl' = cmp \<and>
     0 < h \<and> h \<le> kMaxHeight \<and> x = sl_fresh sl \<and> key_at sl' x = key \<and> height_at sl' x = h \<and> sl_nodes sl' x \<noteq> None \<and>
     (\<forall>n\<in>set (sl_head sl # ns). key_at sl' n = key_at sl n \<and> height_at sl' n = height_at sl n \<and> sl_nodes sl' n \<noteq> None) \<and>
     (\<forall>j<kMaxHeight. \<forall>y. Node_Next sl' y j =
        (if j < h \<and> y = x then Node_Next sl (pred_at sl ns key j) j
         else if j < h \<and> y = pred_at sl ns key j then Some (Some x)
         else if y = x then Node_Next sl' x j else Node_Next sl y j))"

lemma Insert_links:
  assumes ok: "sl_ok sl ns" "sl_compare sl = cmp"
  obtains sl' x h where "SkipList_Insert sl key = Some sl'" "linked_in sl ns key x h sl'"
proof -
  obtain sl1 h where H: "RandomHeight sl = (sl1, h)" by (cases "RandomHeight sl")
  from RandomHeight_bounds [OF H] have h: "0 < h" "h \<le> kMaxHeight" and s1: "sl1 = sl\<lparr>sl_rnd := sl_rnd sl1\<rparr>" by auto
  define M where "M = max h (sl_max_height sl)"
  define x where "x = sl_fresh sl"
  define sl3 where "sl3 = fst (NewNode (sl1\<lparr>sl_max_height := M\<rparr>) key h)"
  have s1': "sl_nodes sl1 = sl_nodes sl" "sl_fresh sl1 = sl_fresh sl" "sl_head sl1 = sl_head sl"
    "sl_max_height sl1 = sl_max_height sl" "sl_compare sl1 = cmp" by (subst s1, simp add: ok(2))+
  have s3: "sl_nodes sl3 = (sl_nodes sl)(x \<mapsto> \<lparr>n_key = key, n_next = replicate h None\<rparr>)" "sl_fresh sl3 = Suc x"
    "sl_head sl3 = sl_head sl" "sl_max_height sl3 = M" "sl_compare sl3 = cmp"
    by (simp_all add: sl3_def NewNode_def s1' x_def)
  have old: "\<forall>n\<in>set (sl_head sl # ns). n < x \<and> sl_nodes sl n \<noteq> None" and x: "x \<notin> set (sl_head sl # ns)"
    using ok(1) by (auto simp: sl_ok_def x_def)
  have at3: "key_at sl3 n = key_at sl n \<and> height_at sl3 n = height_at sl n" "Node_Next sl3 n i = Node_Next sl n i"
    if "n \<noteq> x" for n i
    using that by (simp_all add: key_at_def height_at_def Node_Next_def s3)
  have x3: "key_at sl3 x = key" "height_at sl3 x = h" by (simp_all add: key_at_def height_at_def s3)
  define prev where "prev = (\<lambda>j. if j < M then Some (pred_at sl ns key j) else None)"
  have high: "level_nodes sl ns j = []" if "sl_max_height sl \<le> j" for j
    using ok(1) that by (auto simp: level_nodes_def filter_empty_conv sl_ok_def)
  have prev_eq: "raise_prev (\<lambda>j. if j < sl_max_height sl then Some (pred_at sl ns key j) else None) (sl_head sl)
      [sl_max_height sl..<h] = prev"
    using high by (auto simp: raise_prev_eq prev_def M_def fun_eq_iff pred_at_def)
  have prev_eq': "(\<lambda>j. if j < sl_max_height sl then Some (pred_at sl ns key j) else None) = prev" if "\<not> sl_max_height sl < h"
    using that by (simp add: prev_def M_def max_def fun_eq_iff)
  have M: "(if sl_max_height sl < h then sl1\<lparr>sl_max_height := h\<rparr> else sl1) = sl1\<lparr>sl_max_height := M\<rparr>"
    using s1'(4) by (cases sl1) (simp add: M_def max_def)
  have "SkipList_Insert sl key = link_levels (fst (NewNode (if sl_max_height sl < h then sl1\<lparr>sl_max_height := h\<rparr> else sl1) key h))
      x prev [0..<h]"
    using FindGreaterOrEqual_ok [OF ok, of key "Some Map.empty"] prev_eq prev_eq'
    by (auto simp: SkipList_Insert_def H Let_def s1' NewNode_def x_def)
  then have ins: "SkipList_Insert sl key = link_levels sl3 x prev [0..<h]" by (simp only: M sl3_def)
  have pr: "prev j = Some (pred_at sl ns key j)" "pred_at sl ns key j \<noteq> x" "sl_nodes sl3 (pred_at sl ns key j) \<noteq> None"
    "j < height_at sl3 (pred_at sl ns key j)" if "j < h" for j
  proof -
    have "j < kMaxHeight" using that h by simp
    then have p: "pred_at sl ns key j \<in> set (sl_head sl # ns) \<and> j < height_at sl (pred_at sl ns key j)"
      using pred_at_node [OF ok(1)] by blast
    then show n: "pred_at sl ns key j \<noteq> x" using x by auto
    show "prev j = Some (pred_at sl ns key j)" using that by (simp add: prev_def M_def)
    show "sl_nodes sl3 (pred_at sl ns key j) \<noteq> None" "j < height_at sl3 (pred_at sl ns key j)"
      using n p old at3(1) by (auto simp: s3)
  qed
  have "\<forall>i\<in>set [0..<h]. \<exists>p. prev i = Some p \<and> p \<noteq> x \<and> sl_nodes sl3 p \<noteq> None \<and> i < height_at sl3 p"
    using pr by auto
  moreover have "sl_nodes sl3 x \<noteq> None" "\<forall>i\<in>set [0..<h]. i < height_at sl3 x" by (simp_all add: s3 x3)
  ultimately obtain sl' where R: "link_levels sl3 x prev [0..<h] = Some sl'" "same_shape sl' sl3"
    "\<And>y j. Node_Next sl' y j = (if j \<in> set [0..<h] \<and> y = x then Node_Next sl3 (the (prev j)) j
      else if j \<in> set [0..<h] \<and> prev j = Some y then Some (Some x) else Node_Next sl3 y j)"
    using link_levels_ok [OF distinct_upt] by blast
  have shape: "key_at sl' n = key_at sl n \<and> height_at sl' n = height_at sl n \<and> sl_nodes sl' n \<noteq> None"
    if "n \<in> set (sl_head sl # ns)" for n
  proof -
    have "sl_nodes sl3 n \<noteq> None" "n \<noteq> x" using that old x by (auto simp: s3)
    then show ?thesis using same_shapeD [OF R(2)] at3 by simp
  qed
  have "key_at sl' x = key" "height_at sl' x = h" "sl_nodes sl' x \<noteq> None"
    using same_shapeD [OF R(2), of x] x3 by (simp_all add: s3)
  moreover have "sl_head sl' = sl_head sl" "sl_max_height sl' = M" "sl_fresh sl' = Suc x" "sl_compare sl' = cmp"
    using R(2) s3 by (simp_all add: same_shape_def)
  moreover have "Node_Next sl' y j = (if j < h \<and> y = x then Node_Next sl (pred_at sl ns key j) j
         else if j < h \<and> y = pred_at sl ns key j then Some (Some x)
         else if y = x then Node_Next sl' x j else Node_Next sl y j)" for y j
    using pr [of j] at3(2) by (auto simp: R(3))
  ultimately have "linked_in sl ns key x h sl'"
    using h shape unfolding linked_in_def M_def x_def by blast
  then show ?thesis using that ins R(1) by simp
qed

text \<open>The nodes after the insertion of \<open>x\<close>, and their levels.\<close>

definition insert_node :: "'k SkipList \<Rightarrow> 'k \<Rightarrow> nat \<Rightarrow> nat list \<Rightarrow> nat list" where
  "insert_node sl key x ns = takeWhile (before sl key) ns @ x # dropWhile (before sl key) ns"

lemma insert_node_filter:
  assumes "sl_ok sl ns" "sl_compare sl = cmp"
  shows "insert_node sl key x ns = filter (before sl key) ns @ x # filter (\<lambda>n. \<not> before sl key n) ns"
  using takeWhile_filter [OF sorted_before(2) [OF assms]] by (simp add: insert_node_def)

lemma linked_in_level:
  assumes ok: "sl_ok sl ns" "sl_compare sl = cmp" and l: "linked_in sl ns key x h sl'"
  shows "level_nodes sl' (insert_node sl key x ns) j =
      (let L = level_nodes sl ns j in
       takeWhile (before sl key) L @ (if j < h then [x] else []) @ dropWhile (before sl key) L)"
proof -
  have f: "filter (\<lambda>n. j < height_at sl' n) (filter P ns) = filter P (filter (\<lambda>n. j < height_at sl n) ns)" for P
    using l by (auto simp: linked_in_def intro!: filter_cong)
  have "height_at sl' x = h" using l unfolding linked_in_def by blast
  then show ?thesis
    using takeWhile_filter [OF sorted_before(1) [OF ok, of key j]]
    unfolding insert_node_filter [OF ok] level_nodes_def filter_append
    by (simp add: Let_def f del: filter_filter)
qed

lemma linked_in_chain:
  assumes ok: "sl_ok sl ns" "sl_compare sl = cmp" and l: "linked_in sl ns key x h sl'" and j: "j < kMaxHeight"
  shows "chain sl' j (sl_head sl) (level_nodes sl' (insert_node sl key x ns) j)"
proof -
  have x: "x \<notin> set (sl_head sl # ns)" using ok(1) l by (auto simp: sl_ok_def linked_in_def)
  have R: "Node_Next sl' y j = (if j < h \<and> y = x then Node_Next sl (pred_at sl ns key j) j
         else if j < h \<and> y = pred_at sl ns key j then Some (Some x)
         else if y = x then Node_Next sl' x j else Node_Next sl y j)" for y
    using l j unfolding linked_in_def by blast
  define L where "L = level_nodes sl ns j"
  define A where "A = takeWhile (before sl key) L"
  define B where "B = dropWhile (before sl key) L"
  have L: "L = A @ B" "pred_at sl ns key j = last (sl_head sl # A)" by (simp_all add: A_def B_def pred_at_def L_def)
  have nodes: "set (sl_head sl # A @ B) \<subseteq> set (sl_head sl # ns)" "distinct (sl_head sl # A @ B)"
    unfolding L(1) [symmetric] using ok(1) by (auto simp: L_def level_nodes_def sl_ok_def)
  have old_chain: "chain sl j (sl_head sl) (A @ B)" unfolding L(1) [symmetric] L_def by (rule sl_chain [OF ok(1) j refl])
  have lvl: "level_nodes sl' (insert_node sl key x ns) j = A @ (if j < h then [x] else []) @ B"
    unfolding linked_in_level [OF ok l] Let_def A_def B_def L_def ..
  show ?thesis
  proof (cases "j < h")
    case True
    have lx: "last (sl_head sl # A) \<noteq> x" using pred_at_node [OF ok(1) j, of key] x unfolding L(2) by auto
    have "chain sl' j (sl_head sl) (A @ x # B)"
    proof (rule chain_insert [OF old_chain nodes(2)])
      show "Node_Next sl' x j = Node_Next sl (last (sl_head sl # A)) j"
        using R [of x] True unfolding L(2) by simp
      show "Node_Next sl' (last (sl_head sl # A)) j = Some (Some x)"
        using R [of "last (sl_head sl # A)"] True lx unfolding L(2) by (simp del: last.simps)
      show "\<forall>y\<in>set (sl_head sl # A @ B) - {last (sl_head sl # A)}. Node_Next sl' y j = Node_Next sl y j"
      proof
        fix y assume y: "y \<in> set (sl_head sl # A @ B) - {last (sl_head sl # A)}"
        then have "y \<noteq> x" "y \<noteq> last (sl_head sl # A)" using x nodes(1) by auto
        then show "Node_Next sl' y j = Node_Next sl y j" by (simp only: R [of y] L(2) if_False simp_thms)
      qed
    qed
    then show ?thesis using True lvl by simp
  next
    case False
    have "Node_Next sl' y j = Node_Next sl y j" if "y \<in> set (sl_head sl # A @ B)" for y
    proof -
      have "y \<noteq> x" using that x nodes(1) by auto
      then show ?thesis using False by (simp only: R [of y] if_False simp_thms)
    qed
    then have "chain sl' j (sl_head sl) (A @ B) = chain sl j (sl_head sl) (A @ B)" by (intro chain_cong) blast
    then show ?thesis using old_chain False lvl by simp
  qed
qed

lemma linked_in_sorted:
  assumes ok: "sl_ok sl ns" "sl_compare sl = cmp" and l: "linked_in sl ns key x h sl'"
    and fresh: "\<forall>n\<in>set ns. cmp (key_at sl n) key \<noteq> 0"
  shows "sorted_wrt (\<lambda>a b. cmp (key_at sl' a) (key_at sl' b) < 0) (insert_node sl key x ns)"
proof -
  let ?less = "\<lambda>a b. rank (key_at sl' a) < rank (key_at sl' b)"
  have keys: "\<forall>n\<in>set ns. key_at sl' n = key_at sl n" "key_at sl' x = key"
    using l unfolding linked_in_def by (blast intro: list.set_intros)+
  have "sorted_wrt (\<lambda>a b. rank (key_at sl a) < rank (key_at sl b)) ns" using ok by (simp add: sl_ok_def less)
  then have "sorted_wrt ?less ns"
    using keys by (auto elim: sorted_wrt_mono_rel [rotated])
  then have "sorted_wrt ?less (filter P ns)" for P by (rule sorted_wrt_filter)
  moreover have "rank (key_at sl' n) < rank key" if "n \<in> set (filter (before sl key) ns)" for n
    using that keys by (auto simp: before_def)
  moreover have "rank key < rank (key_at sl' n)" if "n \<in> set (filter (\<lambda>n. \<not> before sl key n) ns)" for n
  proof -
    have "rank (key_at sl n) \<noteq> rank key" using fresh that by (auto simp: same)
    then show ?thesis using that keys(1) by (auto simp: before_def)
  qed
  ultimately show ?thesis
    unfolding insert_node_filter [OF ok]
    by (auto simp: sorted_wrt_append less keys(2) intro: less_trans)
qed

lemma Insert_ok:
  assumes ok: "sl_ok sl ns" "sl_compare sl = cmp" and fresh: "\<forall>n\<in>set ns. cmp (key_at sl n) key \<noteq> 0"
  obtains sl' x where "SkipList_Insert sl key = Some sl'" "sl_ok sl' (insert_node sl key x ns)" "sl_compare sl' = cmp"
    "key_at sl' x = key" "\<forall>n\<in>set ns. key_at sl' n = key_at sl n"
proof -
  obtain sl' x h where I: "SkipList_Insert sl key = Some sl'" and l: "linked_in sl ns key x h sl'"
    by (rule Insert_links [OF ok]) (rule that)
  have sel: "sl_head sl' = sl_head sl" "sl_max_height sl' = max h (sl_max_height sl)" "sl_fresh sl' = Suc x"
    "sl_compare sl' = cmp" "0 < h" "h \<le> kMaxHeight" "x = sl_fresh sl"
    "key_at sl' x = key" "height_at sl' x = h" "sl_nodes sl' x \<noteq> None"
    and shape: "\<forall>n\<in>set (sl_head sl # ns). key_at sl' n = key_at sl n \<and> height_at sl' n = height_at sl n \<and> sl_nodes sl' n \<noteq> None"
    using l unfolding linked_in_def by blast+
  have set_ins: "set (insert_node sl key x ns) = insert x (set ns)" by (auto simp: insert_node_filter [OF ok])
  have x: "x \<notin> set ns" "sl_head sl \<noteq> x" using ok(1) sel(7) by (auto simp: sl_ok_def)
  have "sl_ok sl' (insert_node sl key x ns)"
    unfolding sl_ok_def sel(1-4)
  proof (intro conjI)
    show "0 < max h (sl_max_height sl)" "max h (sl_max_height sl) \<le> kMaxHeight" using ok(1) sel(5,6) by (auto simp: sl_ok_def)
    show "distinct (sl_head sl # insert_node sl key x ns)"
      using x ok(1) by (auto simp: insert_node_filter [OF ok] sl_ok_def)
    show "\<forall>n\<in>set (sl_head sl # insert_node sl key x ns). n < Suc x \<and> sl_nodes sl' n \<noteq> None"
    proof
      fix n assume "n \<in> set (sl_head sl # insert_node sl key x ns)"
      then have "n = x \<or> n \<in> set (sl_head sl # ns)" using set_ins by auto
      then show "n < Suc x \<and> sl_nodes sl' n \<noteq> None"
      proof
        assume n: "n \<in> set (sl_head sl # ns)"
        then have "n < sl_fresh sl" using ok(1) unfolding sl_ok_def by blast
        then show ?thesis using bspec [OF shape n] unfolding sel(7) by (blast intro: less_SucI)
      qed (use sel(10) in blast)
    qed
    show "height_at sl' (sl_head sl) = kMaxHeight" using shape ok(1) by (simp add: sl_ok_def)
    show "\<forall>n\<in>set (insert_node sl key x ns). 0 < height_at sl' n \<and> height_at sl' n \<le> max h (sl_max_height sl)"
      using shape sel(5,9) ok(1) set_ins by (auto simp: sl_ok_def le_max_iff_disj)
    show "\<forall>i<kMaxHeight. chain sl' i (sl_head sl) (level_nodes sl' (insert_node sl key x ns) i)"
      using linked_in_chain [OF ok l] by blast
    show "sorted_wrt (\<lambda>a b. cmp (key_at sl' a) (key_at sl' b) < 0) (insert_node sl key x ns)"
      by (rule linked_in_sorted [OF ok l fresh])
  qed
  then show ?thesis using that [of sl' x] I sel shape by simp
qed

text \<open>Insertion and search, on the keys of the list.\<close>

lemma Insert_keys:
  assumes ok: "sl_ok sl ns" "sl_compare sl = cmp" and fresh: "\<forall>k\<in>set (sl_keys sl ns). cmp k key \<noteq> 0"
  obtains sl' ns' where "SkipList_Insert sl key = Some sl'" "sl_ok sl' ns'" "sl_compare sl' = cmp"
    "sl_keys sl' ns' = takeWhile (\<lambda>k. cmp k key < 0) (sl_keys sl ns) @ key # dropWhile (\<lambda>k. cmp k key < 0) (sl_keys sl ns)"
proof -
  obtain sl' x where I: "SkipList_Insert sl key = Some sl'" "sl_ok sl' (insert_node sl key x ns)" "sl_compare sl' = cmp"
    "key_at sl' x = key" "\<forall>n\<in>set ns. key_at sl' n = key_at sl n"
    by (rule Insert_ok [OF ok, of key]) (use fresh in \<open>auto simp: sl_keys_def\<close>)
  have "map (key_at sl') (takeWhile P ns) = map (key_at sl) (takeWhile P ns)"
    "map (key_at sl') (dropWhile P ns) = map (key_at sl) (dropWhile P ns)" for P
    using I(5) by (auto dest: set_takeWhileD set_dropWhileD)
  moreover have "before sl key = (\<lambda>k. cmp k key < 0) \<circ> key_at sl" by (auto simp: before_def less)
  ultimately have "sl_keys sl' (insert_node sl key x ns) =
      takeWhile (\<lambda>k. cmp k key < 0) (sl_keys sl ns) @ key # dropWhile (\<lambda>k. cmp k key < 0) (sl_keys sl ns)"
    by (simp add: sl_keys_def insert_node_def I(4) takeWhile_map dropWhile_map)
  then show ?thesis using that I by blast
qed

lemma before_keys: "map (key_at sl) (dropWhile (before sl key) ns) = dropWhile (\<lambda>k. cmp k key < 0) (sl_keys sl ns)"
  "map (key_at sl) (takeWhile (before sl key) ns) = takeWhile (\<lambda>k. cmp k key < 0) (sl_keys sl ns)"
proof -
  have "before sl key = (\<lambda>k. cmp k key < 0) \<circ> key_at sl" by (auto simp: before_def less)
  then show "map (key_at sl) (dropWhile (before sl key) ns) = dropWhile (\<lambda>k. cmp k key < 0) (sl_keys sl ns)"
    "map (key_at sl) (takeWhile (before sl key) ns) = takeWhile (\<lambda>k. cmp k key < 0) (sl_keys sl ns)"
    by (simp_all add: sl_keys_def dropWhile_map takeWhile_map)
qed

lemma Contains_ok:
  assumes ok: "sl_ok sl ns" "sl_compare sl = cmp"
  shows "SkipList_Contains sl key = Some (\<exists>k\<in>set (sl_keys sl ns). cmp key k = 0)"
proof -
  have eq: "(\<exists>k\<in>set (sl_keys sl ns). cmp key k = 0) \<longleftrightarrow> (\<exists>n\<in>set (dropWhile (before sl key) ns). rank (key_at sl n) = rank key)"
  proof -
    have "n \<in> set (dropWhile (before sl key) ns)" if "n \<in> set ns" "rank (key_at sl n) = rank key" for n
      using that takeWhile_filter [OF sorted_before(2) [OF ok, of key]] by (simp add: before_def [of sl key n])
    moreover have "(\<exists>k\<in>set (sl_keys sl ns). cmp key k = 0) \<longleftrightarrow> (\<exists>n\<in>set ns. rank (key_at sl n) = rank key)"
      by (simp add: sl_keys_def same) metis
    ultimately show ?thesis by (meson set_dropWhileD)
  qed
  show ?thesis
  proof (cases "dropWhile (before sl key) ns")
    case Nil
    then show ?thesis
      using FindGreaterOrEqual_ok [OF ok, of key None] eq by (simp add: SkipList_Contains_def del: dropWhile_eq_Nil_conv)
  next
    case (Cons y ys)
    have "sorted_wrt (\<lambda>a b. rank (key_at sl a) < rank (key_at sl b)) ns" using ok by (simp add: sl_ok_def less)
    then have "sorted_wrt (\<lambda>a b. rank (key_at sl a) < rank (key_at sl b)) (dropWhile (before sl key) ns)"
      unfolding dropWhile_eq_drop by (rule sorted_wrt_drop)
    then have y: "y \<in> set ns" "\<not> before sl key y" "sorted_wrt (\<lambda>a b. rank (key_at sl a) < rank (key_at sl b)) (y # ys)"
      using Cons set_dropWhileD [of y "before sl key" ns] hd_dropWhile [of "before sl key" ns]
      by (simp_all del: sorted_wrt.simps)
    then have "(\<exists>n\<in>set (y # ys). rank (key_at sl n) = rank key) \<longleftrightarrow> rank key = rank (key_at sl y)"
      by (auto simp: before_def)
    moreover have "sl_nodes sl y \<noteq> None" using ok(1) y(1) by (simp add: sl_ok_def)
    ultimately show ?thesis
      using FindGreaterOrEqual_ok [OF ok, of key None] Cons eq
      by (auto simp: SkipList_Contains_def key_at_def same ok(2))
  qed
qed


lemma Prev_pred:
  assumes ok: "sl_ok sl ns" "sl_compare sl = cmp" and i: "i < length ns"
  shows "FindLessThan sl (key_at sl (ns ! i)) = Some (last (sl_head sl # take i ns))"
proof -
  have s: "sorted_wrt (\<lambda>a b. rank (key_at sl a) < rank (key_at sl b)) ns" using ok by (simp add: sl_ok_def less)
  have "takeWhile (before sl (key_at sl (ns ! i))) ns = take i ns"
  proof (rule takeWhile_eq_take_P_nth)
    fix j assume "j < i" "j < length ns"
    then show "before sl (key_at sl (ns ! i)) (ns ! j)"
      using sorted_wrt_nth_less [OF s _ i] by (simp add: before_def)
  qed (simp add: before_def)
  then show ?thesis using FindLessThan_ok [OF ok] by simp
qed

end

text \<open>An iterator on the \<open>i\<close>-th node of a list, or past its end.\<close>

definition positioned :: "'k SkipList_Iterator \<Rightarrow> 'k SkipList \<Rightarrow> nat list \<Rightarrow> nat \<Rightarrow> bool" where
  "positioned it sl ns i \<longleftrightarrow> it_list it = sl \<and> it_node it = first (drop i ns)"

lemma drop_case: "(case drop n xs of [] \<Rightarrow> None | k # _ \<Rightarrow> Some k) = (if n < length xs then Some (xs ! n) else None)"
  by (simp add: Cons_nth_drop_Suc [symmetric])

lemma first_drop: "first (drop i ns) = (if i < length ns then Some (ns ! i) else None)"
  unfolding first_def by (rule drop_case)

lemma positioned_key:
  assumes "sl_ok sl ns" "positioned it sl ns i"
  shows "Iterator_key it = (if i < length ns then Some (sl_keys sl ns ! i) else None)"
  using assms by (auto simp: Iterator_key_def positioned_def first_drop sl_ok_def key_at_def sl_keys_def dest!: nth_mem)

lemma chain_nth:
  assumes "sl_ok sl ns" "i < length ns"
  shows "Node_Next sl (ns ! i) 0 = Some (first (drop (Suc i) ns))"
proof -
  have "chain sl 0 (sl_head sl) (take (Suc i) ns @ drop (Suc i) ns)"
    by (rule sl_chain [OF assms(1)]) (use assms(1) in \<open>auto simp: kMaxHeight_def sl_ok_def level_nodes_def filter_id_conv\<close>)
  then have "chain sl 0 (last (sl_head sl # take (Suc i) ns)) (drop (Suc i) ns)" by (rule chain_append)
  then show ?thesis using assms(2) by (auto simp: take_Suc_conv_app_nth dest: chain_first)
qed

lemma positioned_Next:
  assumes "sl_ok sl ns" "positioned it sl ns i" "i < length ns"
  shows "\<exists>it'. Iterator_Next it = Some it' \<and> positioned it' sl ns (Suc i)"
  using chain_nth [OF assms(1,3)] assms by (auto simp: Iterator_Next_def positioned_def first_drop)

lemma positioned_First:
  assumes "sl_ok sl ns"
  shows "\<exists>it. Iterator_SeekToFirst (Iterator_new sl) = Some it \<and> positioned it sl ns 0"
proof -
  have "chain sl 0 (sl_head sl) ns"
    by (rule sl_chain [OF assms]) (use assms in \<open>auto simp: kMaxHeight_def sl_ok_def level_nodes_def filter_id_conv\<close>)
  then show ?thesis by (auto simp: Iterator_SeekToFirst_def Iterator_new_def positioned_def dest: chain_first)
qed

lemma positioned_Last:
  assumes "sl_ok sl ns"
  shows "\<exists>it. Iterator_SeekToLast (Iterator_new sl) = Some it \<and> positioned it sl ns (length ns - 1)"
proof (cases ns rule: rev_cases)
  case Nil
  then show ?thesis using FindLast_ok [OF assms] by (auto simp: Iterator_SeekToLast_def Iterator_new_def at_head_def positioned_def)
next
  case (snoc ms n)
  then have "n \<noteq> sl_head sl" using assms by (auto simp: sl_ok_def)
  then show ?thesis
    using FindLast_ok [OF assms] snoc by (auto simp: Iterator_SeekToLast_def Iterator_new_def at_head_def positioned_def)
qed

section \<open>The memtable's list\<close>

definition key_rank :: "bytes \<Rightarrow> bytes \<times> int" where
  "key_rank e = (ExtractUserKey (fst (mem_slice e)), - uint (ExtractTag (fst (mem_slice e))))"

interpretation mem: key_order KeyComparator key_rank
proof
  show "KeyComparator a b < 0 \<longleftrightarrow> key_rank a < key_rank b" for a b
    by (auto simp: KeyComparator_def InternalKey_Compare_neg key_rank_def word_less_def)
  show "KeyComparator a b = 0 \<longleftrightarrow> key_rank a = key_rank b" for a b
    by (auto simp: KeyComparator_def InternalKey_Compare_def key_rank_def Let_def word_uint_eq_iff word_less_def)
qed

lemma positioned_Seek:
  assumes "sl_ok sl ns" "sl_compare sl = KeyComparator"
  shows "\<exists>it. Iterator_Seek (Iterator_new sl) target = Some it \<and>
    positioned it sl ns (length (sl_keys sl ns) - length (seek (sl_keys sl ns) target))"
proof -
  have len: "length (seek (sl_keys sl ns) target) = length (dropWhile (mem.before sl target) ns)"
    using arg_cong [OF mem.before_keys(1) [of sl target ns], of length] by (simp add: seek_def)
  have "dropWhile (mem.before sl target) ns =
      drop (length (sl_keys sl ns) - length (seek (sl_keys sl ns) target)) ns"
    unfolding len using length_takeWhile_le [of "mem.before sl target" ns] by (simp add: sl_keys_def dropWhile_eq_drop)
  then show ?thesis
    using mem.FindGreaterOrEqual_ok [OF assms, of target None]
    by (simp add: Iterator_Seek_def Iterator_new_def positioned_def)
qed

lemma positioned_Prev:
  assumes "sl_ok sl ns" "sl_compare sl = KeyComparator" "positioned it sl ns i" "i < length ns"
  shows "\<exists>it'. Iterator_Prev it = Some it' \<and> positioned it' sl ns (if i = 0 then length ns else i - 1)"
proof -
  have k: "Iterator_key it = Some (key_at sl (ns ! i))"
    using positioned_key [OF assms(1,3)] assms(4) by (simp add: sl_keys_def)
  have F: "FindLessThan sl (key_at sl (ns ! i)) = Some (last (sl_head sl # take i ns))"
    by (rule mem.Prev_pred [OF assms(1,2,4)])
  have "last (sl_head sl # take i ns) = (if i = 0 then sl_head sl else ns ! (i - 1))"
    using assms(4) by (cases i) (auto simp: take_Suc_conv_app_nth)
  moreover have "ns ! (i - 1) \<in> set ns" using assms(4) by (intro nth_mem) simp
  then have "ns ! (i - 1) \<noteq> sl_head sl" using assms(1) unfolding sl_ok_def by auto
  ultimately show ?thesis
    using k F assms(3,4) by (auto simp: Iterator_Prev_def positioned_def at_head_def first_drop)
qed

lemma SkipList_new_ok: "sl_ok (SkipList_new cmp k) []" "sl_compare (SkipList_new cmp k) = cmp"
  by (auto simp: sl_ok_def SkipList_new_def NewNode_def kMaxHeight_def height_at_def level_nodes_def Node_Next_def)

section \<open>Properties\<close>

text \<open>C32: The skip list refines the ordered list that stands for it. Inserting a new entry into a
  well-formed list returns, whatever heights the random number generator chooses, and leaves a
  well-formed list with the entries of \<open>ordered_insert\<close>; then \<^verbatim>\<open>Contains\<close> finds exactly the
  entries of that list, \<^verbatim>\<open>Seek\<close> stops at the first entry not before the target (or at the end),
  and \<^verbatim>\<open>Next\<close> goes from there through all the following entries.\<close>
theorem skip_list_refines:
  assumes "sl_ok sl ns" "sl_compare sl = KeyComparator" "\<forall>k\<in>set (sl_keys sl ns). KeyComparator k e \<noteq> 0"
  shows "\<exists>sl' ns'. SkipList_Insert sl e = Some sl' \<and> sl_ok sl' ns' \<and> sl_compare sl' = KeyComparator \<and>
    sl_keys sl' ns' = ordered_insert (sl_keys sl ns) e \<and>
    SkipList_Contains sl' k = Some (\<exists>k'\<in>set (ordered_insert (sl_keys sl ns) e). KeyComparator k k' = 0) \<and>
    (\<exists>it. Iterator_Seek (Iterator_new sl') target = Some it \<and>
      (\<forall>n \<le> length (seek (sl_keys sl' ns') target). \<exists>it'.
         ((\<lambda>i. Option.bind i Iterator_Next) ^^ n) (Some it) = Some it' \<and>
         Iterator_key it' = (case drop n (seek (sl_keys sl' ns') target) of [] \<Rightarrow> None | k # _ \<Rightarrow> Some k)))"
proof -
  obtain sl' ns' where I: "SkipList_Insert sl e = Some sl'" "sl_ok sl' ns'" "sl_compare sl' = KeyComparator"
    "sl_keys sl' ns' = ordered_insert (sl_keys sl ns) e"
    by (rule mem.Insert_keys [OF assms]) (rule that, simp_all add: ordered_insert_def)
  let ?ks = "sl_keys sl' ns'" and ?rest = "seek (sl_keys sl' ns') target"
  obtain it where it: "Iterator_Seek (Iterator_new sl') target = Some it" "positioned it sl' ns' (length ?ks - length ?rest)"
    using positioned_Seek [OF I(2,3)] by blast
  have rest: "?rest = drop (length ?ks - length ?rest) ?ks" "length ?rest \<le> length ?ks" "length ?ks = length ns'"
    using length_takeWhile_le [of "\<lambda>x. KeyComparator x target < 0" ?ks]
    by (simp_all add: seek_def dropWhile_eq_drop length_dropWhile_le sl_keys_def)
  have iter: "\<exists>it'. ((\<lambda>i. Option.bind i Iterator_Next) ^^ n) (Some it) = Some it' \<and>
      positioned it' sl' ns' (length ?ks - length ?rest + n)" if "n \<le> length ?rest" for n
    using that
  proof (induction n)
    case (Suc n)
    then obtain it' where "((\<lambda>i. Option.bind i Iterator_Next) ^^ n) (Some it) = Some it'"
      "positioned it' sl' ns' (length ?ks - length ?rest + n)" by auto
    moreover have "length ?ks - length ?rest + n < length ns'" using Suc.prems rest(2,3) by linarith
    ultimately show ?case using positioned_Next [OF I(2)] by simp
  qed (use it(2) in simp)
  have at: "(if length ?ks - length ?rest + n < length ns' then Some (?ks ! (length ?ks - length ?rest + n)) else None) =
      (case drop n ?rest of [] \<Rightarrow> None | k # _ \<Rightarrow> Some k)" for n
  proof -
    have "drop n ?rest = drop (length ?ks - length ?rest + n) ?ks"
      by (subst rest(1)) (simp add: add.commute)
    then show ?thesis by (simp only: rest(3) drop_case)
  qed
  have "\<exists>it'. ((\<lambda>i. Option.bind i Iterator_Next) ^^ n) (Some it) = Some it' \<and>
      Iterator_key it' = (case drop n ?rest of [] \<Rightarrow> None | k # _ \<Rightarrow> Some k)" if "n \<le> length ?rest" for n
    using iter [OF that] positioned_key [OF I(2)] unfolding at [symmetric] by blast
  with I mem.Contains_ok [OF I(2,3), of k, unfolded I(4)] it(1) show ?thesis
    by (intro exI [of _ sl'] exI [of _ ns'] conjI exI [of _ it]) simp_all
qed

theorem skip_list_refines_witness:
  "\<exists>sl ns. SkipList_Insert (SkipList_new KeyComparator []) (mem_entry 1 kTypeValue [3] [4]) = Some sl \<and> sl_ok sl ns \<and>
     sl_keys sl ns = [mem_entry 1 kTypeValue [3] [4]]"
proof -
  have "\<forall>k\<in>set (sl_keys (SkipList_new KeyComparator []) []). KeyComparator k (mem_entry 1 kTypeValue [3] [4]) \<noteq> 0"
    by (simp add: sl_keys_def)
  from skip_list_refines [OF SkipList_new_ok this, of "[]" "[]"]
  have "\<exists>sl ns. SkipList_Insert (SkipList_new KeyComparator []) (mem_entry 1 kTypeValue [3] [4]) = Some sl \<and> sl_ok sl ns \<and>
      sl_keys sl ns = ordered_insert (sl_keys (SkipList_new KeyComparator []) []) (mem_entry 1 kTypeValue [3] [4])"
    by blast
  then show ?thesis by (simp only: sl_keys_def [of _ "[]"] ordered_insert_def list.map takeWhile.simps dropWhile.simps append_Nil)
qed

end
