(* ===== verification/Allocator.thy ===== *)
theory Allocator
  imports Prelude
begin

text \<open>
  The bump allocator (\<^verbatim>\<open>util/allocator.cpp\<close>). A block is known by its index in the vector
  \<^verbatim>\<open>blocks\<close> and has a size; an address is a block and an offset in it.
  \<^item> Whether the operating system gives and locks the \<open>i\<close>-th page is an argument (\<open>page_ok\<close>); where
    the code exits the result is \<open>None\<close>. \<^verbatim>\<open>new\<close> succeeds.
  \<^item> In locked mode the pages are used one after the other. When they are used up, a request gets a
    block of its own at the end of the vector, and the next request then takes that block for a fresh
    page: \<open>allocator_regions\<close> shows that regions are disjoint until then and overlap afterwards.
\<close>

section \<open>The code\<close>

definition MemoryPageSize :: nat where "MemoryPageSize = 128 * 1024 * 1024"

record Allocator =
  al_blocks :: "nat list"
  al_current :: nat
  al_remaining :: nat
  al_locked :: bool

definition Allocator_new :: "(nat \<Rightarrow> bool) \<Rightarrow> u64 \<Rightarrow> Allocator option" where
  "Allocator_new page_ok lock_size =
     (if lock_size > 0 then
        (let num_memory_pages = sint (ucast ((lock_size * 1024 * 1024 - 1) div of_nat MemoryPageSize + 1) :: u32)
         in if list_all page_ok [0..<nat num_memory_pages] then
              Some \<lparr>al_blocks = replicate (nat num_memory_pages) MemoryPageSize, al_current = 0,
                    al_remaining = MemoryPageSize, al_locked = True\<rparr>
            else None)
      else Some \<lparr>al_blocks = [], al_current = 0, al_remaining = 0, al_locked = False\<rparr>)"

definition Allocate :: "Allocator \<Rightarrow> nat \<Rightarrow> (Allocator \<times> nat \<times> nat) option" where
  "Allocate a n =
     (if n > MemoryPageSize then None
      else if al_locked a then
        (if al_remaining a < n \<and> \<not> al_current a + 1 < length (al_blocks a) then
           Some (a\<lparr>al_blocks := al_blocks a @ [n], al_remaining := 0\<rparr>, length (al_blocks a), 0)
         else
           (let a = (if al_remaining a < n then a\<lparr>al_current := al_current a + 1, al_remaining := MemoryPageSize\<rparr> else a)
            in if al_current a < length (al_blocks a) then
                 Some (a\<lparr>al_remaining := al_remaining a - n\<rparr>, al_current a, MemoryPageSize - al_remaining a)
               else None))
      else Some (a\<lparr>al_blocks := al_blocks a @ [n]\<rparr>, length (al_blocks a), 0))"

section \<open>Regions\<close>

text \<open>A region is a block, an offset and a size.\<close>

type_synonym region = "nat \<times> nat \<times> nat"

fun allocate_all :: "Allocator \<Rightarrow> nat list \<Rightarrow> (Allocator \<times> region list) option" where
  "allocate_all a [] = Some (a, [])"
| "allocate_all a (n # ns) =
     Option.bind (Allocate a n) (\<lambda>(a, b, off).
     map_option (\<lambda>(a, rs). (a, (b, off, n) # rs)) (allocate_all a ns))"

fun disjoint_regions :: "region \<Rightarrow> region \<Rightarrow> bool" where
  "disjoint_regions (b, off, n) (b', off', n') \<longleftrightarrow> b \<noteq> b' \<or> off + n \<le> off' \<or> off' + n' \<le> off"

fun inside :: "nat list \<Rightarrow> region \<Rightarrow> bool" where
  "inside blocks (b, off, n) \<longleftrightarrow> b < length blocks \<and> off + n \<le> blocks ! b"

text \<open>The locked pages that are in use, and the mark that everything given out lies before.\<close>

definition pages_ok :: "Allocator \<Rightarrow> bool" where
  "pages_ok a \<longleftrightarrow> al_locked a \<and> al_current a < length (al_blocks a) \<and> al_remaining a \<le> MemoryPageSize \<and>
     (\<forall>n\<in>set (al_blocks a). n = MemoryPageSize)"

fun beyond :: "Allocator \<Rightarrow> region \<Rightarrow> bool" where
  "beyond a (b, off, n) \<longleftrightarrow> al_current a < b \<or> al_current a = b \<and> MemoryPageSize - al_remaining a \<le> off"

lemma Allocate_page:
  assumes "pages_ok a" "Allocate a n = Some (a', b, off)" "length (al_blocks a') \<le> length (al_blocks a)"
  shows "pages_ok a' \<and> al_blocks a' = al_blocks a \<and> beyond a (b, off, n) \<and> inside (al_blocks a) (b, off, n) \<and>
    (\<forall>r. beyond a' r \<longrightarrow> beyond a r \<and> disjoint_regions (b, off, n) r)"
proof -
  define a1 where "a1 = (if al_remaining a < n then a\<lparr>al_current := al_current a + 1, al_remaining := MemoryPageSize\<rparr> else a)"
  have n: "n \<le> MemoryPageSize" and l: "al_locked a" using assms(1,2) by (auto simp: Allocate_def pages_ok_def split: if_splits)
  have more: "\<not> (al_remaining a < n \<and> \<not> al_current a + 1 < length (al_blocks a))"
  proof
    assume "al_remaining a < n \<and> \<not> al_current a + 1 < length (al_blocks a)"
    then have "al_blocks a' = al_blocks a @ [n]" using assms(2) n l by (auto simp: Allocate_def)
    then show False using assms(3) by simp
  qed
  have a': "a' = a1\<lparr>al_remaining := al_remaining a1 - n\<rparr>" "b = al_current a1" "off = MemoryPageSize - al_remaining a1"
    "al_current a1 < length (al_blocks a1)"
    using assms(2) n l more by (auto simp: Allocate_def Let_def a1_def [symmetric] split: if_splits)
  have a1: "pages_ok a1" "al_blocks a1 = al_blocks a" "n \<le> al_remaining a1" "\<And>r. beyond a1 r \<Longrightarrow> beyond a r"
  proof -
    show "pages_ok a1" "al_blocks a1 = al_blocks a" "n \<le> al_remaining a1"
      using assms(1) more n by (simp_all add: a1_def pages_ok_def)
    show "beyond a r" if "beyond a1 r" for r
      using that by (cases r, cases "al_remaining a < n") (auto simp: a1_def)
  qed
  have "pages_ok a'" using a1(1) by (auto simp: a'(1) pages_ok_def)
  moreover have "beyond a (b, off, n)" by (rule a1(4)) (simp add: a'(2,3))
  moreover have blk: "al_blocks a ! b = MemoryPageSize"
    using a1(1,2) a'(2,4) nth_mem [of b "al_blocks a"] by (auto simp: pages_ok_def)
  have "inside (al_blocks a) (b, off, n)"
    unfolding inside.simps blk using a1(1-3) a'(2-4) by (simp add: pages_ok_def)
  moreover have "beyond a r \<and> disjoint_regions (b, off, n) r" if "beyond a' r" for r
  proof -
    obtain b' off' n' where r: "r = (b', off', n')" by (cases r)
    have "al_remaining a1 \<le> MemoryPageSize" using a1(1) by (simp add: pages_ok_def)
    then have "beyond a1 r" "disjoint_regions (b, off, n) r" using that a1(3) by (auto simp: r a'(1-3))
    then show ?thesis using a1(4) by blast
  qed
  ultimately show ?thesis using a1(2) a'(1) by simp
qed

lemma Allocate_grows: "Allocate a n = Some (a', r) \<Longrightarrow> length (al_blocks a) \<le> length (al_blocks a')"
  by (auto simp: Allocate_def Let_def split: if_splits)

lemma allocate_all_grows: "allocate_all a ns = Some (a', rs) \<Longrightarrow> length (al_blocks a) \<le> length (al_blocks a')"
proof (induction ns arbitrary: a rs)
  case (Cons n ns)
  then obtain a1 b off rs1 where A: "Allocate a n = Some (a1, b, off)" "allocate_all a1 ns = Some (a', rs1)"
    by (auto split: Option.bind_splits)
  show ?case using Allocate_grows [OF A(1)] Cons.IH [OF A(2)] by simp
qed simp

lemma allocate_all_pages:
  assumes "pages_ok a" "allocate_all a ns = Some (a', rs)" "length (al_blocks a') = length (al_blocks a)"
  shows "sorted_wrt disjoint_regions rs \<and> (\<forall>r\<in>set rs. inside (al_blocks a) r \<and> beyond a r) \<and>
    pages_ok a' \<and> al_blocks a' = al_blocks a"
  using assms
proof (induction ns arbitrary: a rs)
  case (Cons n ns)
  then obtain a1 b off rs1 where A: "Allocate a n = Some (a1, b, off)" "allocate_all a1 ns = Some (a', rs1)"
    "rs = (b, off, n) # rs1" by (auto split: Option.bind_splits)
  have len: "length (al_blocks a1) \<le> length (al_blocks a)"
    using allocate_all_grows [OF A(2)] Cons.prems(3) by simp
  note P = Allocate_page [OF Cons.prems(1) A(1) len]
  have IH: "sorted_wrt disjoint_regions rs1 \<and> (\<forall>r\<in>set rs1. inside (al_blocks a1) r \<and> beyond a1 r) \<and>
      pages_ok a' \<and> al_blocks a' = al_blocks a1"
    using Cons.IH [OF _ A(2)] P Cons.prems(3) by simp
  have new: "beyond a (b, off, n)" "inside (al_blocks a) (b, off, n)" "al_blocks a1 = al_blocks a"
    "\<And>r. beyond a1 r \<Longrightarrow> beyond a r \<and> disjoint_regions (b, off, n) r" using P by blast+
  then have "\<forall>r\<in>set rs1. inside (al_blocks a) r \<and> beyond a r \<and> disjoint_regions (b, off, n) r"
    using IH by (metis new(3))
  then show ?case using new(1-3) IH unfolding A(3) by simp
qed simp

lemma allocate_all_unlocked:
  assumes "\<not> al_locked a" "allocate_all a ns = Some (a', rs)"
  shows "al_blocks a' = al_blocks a @ ns \<and>
    rs = map (\<lambda>i. (length (al_blocks a) + i, 0, ns ! i)) [0..<length ns]"
  using assms
proof (induction ns arbitrary: a rs)
  case (Cons n ns)
  then obtain a1 b off rs1 where A: "Allocate a n = Some (a1, b, off)" "allocate_all a1 ns = Some (a', rs1)"
    "rs = (b, off, n) # rs1" by (auto split: Option.bind_splits)
  have a1: "\<not> al_locked a1" "al_blocks a1 = al_blocks a @ [n]" "b = length (al_blocks a)" "off = 0"
    using A(1) Cons.prems(1) by (auto simp: Allocate_def split: if_splits)
  have "(length (al_blocks a), 0, n) # map (\<lambda>i. (length (al_blocks a1) + i, 0, ns ! i)) [0..<length ns] =
      map (\<lambda>i. (length (al_blocks a) + i, 0, (n # ns) ! i)) [0..<length (n # ns)]"
    unfolding length_Cons map_upt_Suc by (simp add: a1(2))
  then show ?case using Cons.IH [OF a1(1) A(2)] unfolding A(3) a1(2-4) by simp
qed simp

lemma Allocator_new_pages:
  "Allocator_new page_ok lock_size = Some a \<Longrightarrow> al_blocks a \<noteq> [] \<Longrightarrow> pages_ok a"
  by (auto simp: Allocator_new_def pages_ok_def Let_def split: if_splits)

section \<open>Properties\<close>

text \<open>Once a request got a block of its own, the next one is given the same address.\<close>

lemma Allocate_again:
  assumes "pages_ok a" "Allocate a n = Some (a1, b, off)" "length (al_blocks a) < length (al_blocks a1)" "0 < m" "m \<le> MemoryPageSize"
  shows "al_current a + 1 = b \<longrightarrow> (\<exists>a2. Allocate a1 m = Some (a2, b, off) \<and>
    \<not> disjoint_regions (b, off, n) (b, off, m) \<and> (inside (al_blocks a2) (b, off, m) \<longleftrightarrow> m \<le> n))"
  using assms
  by (auto simp: Allocate_def pages_ok_def Let_def nth_append split: if_splits)

lemma Allocate_fallback:
  assumes "pages_ok a" "Allocate a n = Some (a1, b, off)" "length (al_blocks a) < length (al_blocks a1)"
  shows "al_current a + 1 = b"
  using assms by (auto simp: Allocate_def pages_ok_def Let_def split: if_splits)

text \<open>C34: Memory that \<^verbatim>\<open>Allocate\<close> gives out does not overlap and lies inside its block, in any
  sequence of requests: without locking always, and with locked pages as long as no request needed a
  block of its own (the vector of blocks has not grown). But once a request of \<open>n\<close> bytes did, the
  next one, of any number \<open>m\<close> of bytes that is not 0, is given the very same address: the two regions overlap, and
  the second one is inside the block just if \<open>m\<close> is at most \<open>n\<close>.\<close>
theorem allocator_regions:
  assumes "Allocator_new page_ok lock_size = Some a" "allocate_all a ns = Some (a', rs)"
    and "al_locked a \<longrightarrow> al_blocks a \<noteq> [] \<and> length (al_blocks a') = length (al_blocks a)"
  shows "sorted_wrt disjoint_regions rs \<and> (\<forall>r\<in>set rs. inside (al_blocks a') r) \<and>
    (\<forall>n m a1 b off. al_locked a \<and> Allocate a' n = Some (a1, b, off) \<and> length (al_blocks a') < length (al_blocks a1) \<and>
        0 < m \<and> m \<le> MemoryPageSize \<longrightarrow>
      (\<exists>a2. Allocate a1 m = Some (a2, b, off) \<and> \<not> disjoint_regions (b, off, n) (b, off, m) \<and>
        (inside (al_blocks a2) (b, off, m) \<longleftrightarrow> m \<le> n)))"
proof (cases "al_locked a")
  case True
  then have a: "pages_ok a" using Allocator_new_pages [OF assms(1)] assms(3) by simp
  have len: "length (al_blocks a') = length (al_blocks a)" using assms(3) True by simp
  note P = allocate_all_pages [OF a assms(2) len]
  then have "sorted_wrt disjoint_regions rs \<and> (\<forall>r\<in>set rs. inside (al_blocks a') r)" by auto
  moreover have "\<exists>a2. Allocate a1 m = Some (a2, b, off) \<and> \<not> disjoint_regions (b, off, n) (b, off, m) \<and>
      (inside (al_blocks a2) (b, off, m) \<longleftrightarrow> m \<le> n)"
    if "Allocate a' n = Some (a1, b, off)" "length (al_blocks a') < length (al_blocks a1)" "0 < m" "m \<le> MemoryPageSize"
    for n m a1 b off
    using Allocate_fallback [OF _ that(1,2)] Allocate_again [OF _ that] P by blast
  ultimately show ?thesis by blast
next
  case False
  then have "al_blocks a = []" using assms(1) by (auto simp: Allocator_new_def Let_def split: if_splits)
  then have R: "al_blocks a' = ns" "rs = map (\<lambda>i. (i, 0, ns ! i)) [0..<length ns]"
    using allocate_all_unlocked [OF False assms(2)] by simp_all
  have "sorted_wrt disjoint_regions rs"
    unfolding R(2) sorted_wrt_map by (rule sorted_wrt_mono_rel [OF _ sorted_wrt_upt]) auto
  then show ?thesis using False R by auto
qed

theorem allocator_regions_witness:
  "\<exists>a a' rs. Allocator_new (\<lambda>_. True) 1 = Some a \<and> allocate_all a [5, 6] = Some (a', rs) \<and>
     rs = [(0, 0, 5), (0, 5, 6)] \<and> sorted_wrt disjoint_regions rs"
proof -
  let ?a = "\<lparr>al_blocks = [MemoryPageSize], al_current = 0, al_remaining = MemoryPageSize, al_locked = True\<rparr>"
  have new: "Allocator_new (\<lambda>_. True) 1 = Some ?a" by (simp add: Allocator_new_def MemoryPageSize_def)
  have all: "allocate_all ?a [5, 6] = Some (?a\<lparr>al_remaining := MemoryPageSize - 11\<rparr>, [(0, 0, 5), (0, 5, 6)])"
    by (simp add: Allocate_def MemoryPageSize_def Let_def)
  show ?thesis using new all allocator_regions [OF new all] by simp
qed

end
