(* ===== verification/Trace_Loader.thy ===== *)
theory Trace_Loader
  imports Allocator Properties
begin

text \<open>
  The trace loader of the benchmark (\<^verbatim>\<open>util/traceloader.cpp\<close>): a file that starts with the
  number of paths and the number of file paths, and has one line for each path, which ends with a
  separator, a character for the type and the newline.
  \<^item> The file is its contents; \<^verbatim>\<open>fgetc\<close> puts its result into a \<^verbatim>\<open>char\<close>, so a byte 255 looks like the
    end of the file.
  \<^item> A write outside the buffer of 4096 bytes is undefined behaviour and the result is \<open>None\<close>, as when
    the code exits. An entry of the arrays that was never written is \<open>None\<close>.
\<close>

section \<open>The code\<close>

record TraceLoader =
  tl_paths :: "string option list"
  tl_filetypes :: "char option list"
  tl_allocator :: Allocator
  tl_num_paths :: u64
  tl_num_dir_paths :: u64
  tl_num_file_paths :: u64

definition TraceLoader_new :: "Allocator \<Rightarrow> u64 \<Rightarrow> u64 \<Rightarrow> TraceLoader" where
  "TraceLoader_new allocator dirs files =
     \<lparr>tl_paths = [], tl_filetypes = [], tl_allocator = allocator, tl_num_paths = 0,
      tl_num_dir_paths = dirs, tl_num_file_paths = files\<rparr>"

definition scan_long :: "string \<Rightarrow> (int \<times> string) option" where
  "scan_long s =
     (let s = dropWhile isspace s;
          t = (if s \<noteq> [] \<and> (hd s = CHR ''-'' \<or> hd s = CHR ''+'') then tl s else s)
      in if takeWhile is_digit t = [] then None else Some (strtol s, dropWhile is_digit t))"

definition AddEntry :: "TraceLoader \<Rightarrow> string \<Rightarrow> nat \<Rightarrow> (TraceLoader \<times> string) option" where
  "AddEntry loader filename n =
     map_option (\<lambda>(a, new_path). (loader\<lparr>tl_allocator := a\<rparr>, filename)) (Allocate (tl_allocator loader) n)"

definition is_end :: "char \<Rightarrow> bool" where
  "is_end c \<longleftrightarrow> c = CHR 0x0A \<or> c = CHR 0xFF"

fun LoadTrace_loop :: "nat \<Rightarrow> nat \<Rightarrow> string \<Rightarrow> TraceLoader \<Rightarrow> TraceLoader option" where
  "LoadTrace_loop 0 i file loader = Some loader"
| "LoadTrace_loop (Suc n) i file loader =
     (let pathname = takeWhile (\<lambda>c. \<not> is_end c) file;
          rest = dropWhile (\<lambda>c. \<not> is_end c) file;
          len = length pathname + 1
      in if len > 4096 then None
         else if rest = [] \<or> hd rest = CHR 0xFF then Some loader
         else if len < 3 then None
         else
           (let target = takeWhile (\<lambda>c. c \<noteq> CHR 0x00) (take (len - 3) pathname);
                loader = loader\<lparr>tl_filetypes := (tl_filetypes loader)[i := Some (pathname ! (len - 2))]\<rparr>
            in Option.bind (AddEntry loader target (len + 1)) (\<lambda>(loader, path).
               LoadTrace_loop n (i + 1) (tl rest) (loader\<lparr>tl_paths := (tl_paths loader)[i := Some path]\<rparr>))))"

definition LoadTrace :: "TraceLoader \<Rightarrow> string option \<Rightarrow> TraceLoader option" where
  "LoadTrace loader file =
     (case file of
        None \<Rightarrow> Some loader
      | Some file \<Rightarrow>
          (case scan_long file of
             None \<Rightarrow> Some loader
           | Some (n, rest) \<Rightarrow>
               (let loader = loader\<lparr>tl_num_paths := word_of_int n\<rparr>
                in case scan_long rest of
                     None \<Rightarrow> Some loader
                   | Some (f, rest) \<Rightarrow>
                       (let loader = loader\<lparr>tl_num_file_paths := word_of_int f\<rparr>;
                            num_paths = tl_num_paths loader
                        in Option.bind (Allocate (tl_allocator loader) (unat (num_paths * 8))) (\<lambda>(a, paths).
                           Option.bind (Allocate a (unat num_paths)) (\<lambda>(a, filetypes).
                           map_option (\<lambda>loader. loader\<lparr>tl_num_dir_paths := num_paths - tl_num_file_paths loader\<rparr>)
                             (LoadTrace_loop (unat num_paths) 0 (dropWhile isspace rest)
                               (loader\<lparr>tl_allocator := a, tl_paths := replicate (unat num_paths) None,
                                  tl_filetypes := replicate (unat num_paths) None\<rparr>))))))))"

definition GetPath :: "TraceLoader \<Rightarrow> int \<Rightarrow> (string option \<times> char option) option" where
  "GetPath loader index =
     (if (word_of_int index :: u64) < tl_num_paths loader
      then Some (tl_paths loader ! nat index, tl_filetypes loader ! nat index) else None)"

definition GetDirPath :: "TraceLoader \<Rightarrow> int \<Rightarrow> string option option" where
  "GetDirPath loader dindex =
     (if dindex \<ge> 0 \<and> (word_of_int dindex :: u64) < tl_num_dir_paths loader
      then Some (tl_paths loader ! nat dindex) else None)"

definition GetFilePath :: "TraceLoader \<Rightarrow> int \<Rightarrow> string option option" where
  "GetFilePath loader findex =
     (if findex \<ge> 0 \<and> (word_of_int findex :: u64) < tl_num_file_paths loader
      then Some (tl_paths loader ! nat (findex + sint (ucast (tl_num_dir_paths loader) :: u32))) else None)"

section \<open>Loading lines\<close>

definition trace_line :: "string \<times> char \<Rightarrow> string" where
  "trace_line e = fst e @ [CHR '' '', snd e, CHR 0x0A]"

definition plain :: "string \<times> char \<Rightarrow> bool" where
  "plain e \<longleftrightarrow> length (fst e) < 4000 \<and> (\<forall>c\<in>set (fst e). \<not> is_end c \<and> c \<noteq> CHR 0x00) \<and> \<not> is_end (snd e)"

lemma LoadTrace_loop_lines:
  assumes "\<forall>e\<in>set es. plain e" "\<not> al_locked (tl_allocator loader)"
    and "i + length es \<le> length (tl_paths loader)" "length (tl_filetypes loader) = length (tl_paths loader)"
  shows "\<exists>loader'. LoadTrace_loop (length es) i (concat (map trace_line es) @ rest) loader = Some loader' \<and>
    tl_paths loader' = take i (tl_paths loader) @ map (Some \<circ> fst) es @ drop (i + length es) (tl_paths loader) \<and>
    tl_filetypes loader' = take i (tl_filetypes loader) @ map (Some \<circ> snd) es @ drop (i + length es) (tl_filetypes loader)"
  using assms
proof (induction es arbitrary: i loader)
  case (Cons e es)
  have e: "length (fst e) < 4000" "\<forall>c\<in>set (fst e). \<not> is_end c \<and> c \<noteq> CHR 0x00" "\<not> is_end (snd e)" "\<not> is_end (CHR '' '')"
    using Cons.prems(1) by (simp_all add: plain_def is_end_def)
  let ?file = "concat (map trace_line (e # es)) @ rest" and ?line = "fst e @ [CHR '' '', snd e]"
  have "?file = ?line @ CHR 0x0A # concat (map trace_line es) @ rest" by (simp add: trace_line_def)
  then have split: "takeWhile (\<lambda>c. \<not> is_end c) ?file = ?line"
    "dropWhile (\<lambda>c. \<not> is_end c) ?file = CHR 0x0A # concat (map trace_line es) @ rest"
    using e by (simp_all add: is_end_def)
  have target: "takeWhile (\<lambda>c. c \<noteq> CHR 0x00) (fst e) = fst e" using e(2) by (simp add: takeWhile_eq_all_conv)
  define a where "a = (tl_allocator loader)\<lparr>al_blocks := al_blocks (tl_allocator loader) @ [length ?line + 2]\<rparr>"
  define loader1 where "loader1 = loader\<lparr>tl_filetypes := (tl_filetypes loader)[i := Some (snd e)], tl_allocator := a,
      tl_paths := (tl_paths loader)[i := Some (fst e)]\<rparr>"
  have alloc: "Allocate (tl_allocator loader) (length ?line + 2) = Some (a, length (al_blocks (tl_allocator loader)), 0)"
    using Cons.prems(2) e(1) by (simp add: Allocate_def a_def MemoryPageSize_def)
  have step: "LoadTrace_loop (length (e # es)) i ?file loader = LoadTrace_loop (length es) (i + 1) (concat (map trace_line es) @ rest) loader1"
    using alloc e(1) unfolding list.size(4) add_Suc_right Nat.add_0_right LoadTrace_loop.simps split
    by (simp add: AddEntry_def Let_def loader1_def target nth_append)
  have "\<exists>loader'. LoadTrace_loop (length es) (i + 1) (concat (map trace_line es) @ rest) loader1 = Some loader' \<and>
    tl_paths loader' = take (i + 1) (tl_paths loader1) @ map (Some \<circ> fst) es @ drop (i + 1 + length es) (tl_paths loader1) \<and>
    tl_filetypes loader' = take (i + 1) (tl_filetypes loader1) @ map (Some \<circ> snd) es @ drop (i + 1 + length es) (tl_filetypes loader1)"
    using Cons.prems by (intro Cons.IH) (simp_all add: loader1_def a_def)
  then show ?case
    using Cons.prems(3,4) unfolding step by (auto simp: loader1_def take_Suc_conv_app_nth)
qed simp

end
