(* ===== verification/Table_Block.thy ===== *)
theory Table_Block
  imports Dbformat "HOL-Library.Product_Lexorder"
begin

text \<open>
  The blocks of a table (\<^verbatim>\<open>table/block_builder.cc\<close>, \<^verbatim>\<open>table/block.cc\<close>): entries whose keys
  share a prefix with the key before, restart points where nothing is shared, and at the end the
  array of the restart points.
  \<^item> The reader works on any bytes. A pointer into the block is an offset; \<^verbatim>\<open>value_\<close> is an offset and
    a length. Copying a key from past the end of the block has no result (\<open>None\<close>); a value that
    reaches past it is cut off there.
  \<^item> \<^verbatim>\<open>CorruptionError\<close> clears \<^verbatim>\<open>value_\<close>; the offset it then has is not used before the next seek.
  \<^item> On a corrupt block the search loops may not end, as the sum of two lengths in \<^verbatim>\<open>DecodeEntry\<close>
    wraps around; they are partial functions. On what \<^verbatim>\<open>BlockBuilder\<close> wrote they end.
  \<^item> The order of the keys is the argument \<open>cmp\<close>.
\<close>

section \<open>Builder\<close>

record BlockBuilder =
  bb_buffer :: bytes
  bb_restarts :: "u32 list"
  bb_counter :: nat
  bb_last_key :: bytes

definition BlockBuilder_new :: BlockBuilder where
  "BlockBuilder_new = \<lparr>bb_buffer = [], bb_restarts = [0], bb_counter = 0, bb_last_key = []\<rparr>"

definition BlockBuilder_Reset :: "BlockBuilder \<Rightarrow> BlockBuilder" where
  "BlockBuilder_Reset b = b\<lparr>bb_buffer := [], bb_restarts := [0], bb_counter := 0, bb_last_key := []\<rparr>"

definition CurrentSizeEstimate :: "BlockBuilder \<Rightarrow> nat" where
  "CurrentSizeEstimate b = length (bb_buffer b) + length (bb_restarts b) * 4 + 4"

definition BlockBuilder_Finish :: "BlockBuilder \<Rightarrow> BlockBuilder \<times> bytes" where
  "BlockBuilder_Finish b =
     (let buffer = foldl PutFixed32 (bb_buffer b) (bb_restarts b);
          buffer = PutFixed32 buffer (of_nat (length (bb_restarts b)))
      in (b\<lparr>bb_buffer := buffer\<rparr>, buffer))"

definition BlockBuilder_Add :: "nat \<Rightarrow> BlockBuilder \<Rightarrow> bytes \<Rightarrow> bytes \<Rightarrow> BlockBuilder" where
  "BlockBuilder_Add block_restart_interval b key v =
     (let (shared, b) =
            (if bb_counter b < block_restart_interval then (common_prefix (bb_last_key b) key, b)
             else (0, b\<lparr>bb_restarts := bb_restarts b @ [of_nat (length (bb_buffer b))], bb_counter := 0\<rparr>));
          non_shared = length key - shared;
          buffer = PutVarint32 (bb_buffer b) (of_nat shared);
          buffer = PutVarint32 buffer (of_nat non_shared);
          buffer = PutVarint32 buffer (of_nat (length v))
      in b\<lparr>bb_buffer := buffer @ drop shared key @ v,
           bb_last_key := take shared (bb_last_key b) @ drop shared key,
           bb_counter := bb_counter b + 1\<rparr>)"

section \<open>Reader\<close>

record Block =
  blk_data :: bytes
  blk_size :: u64
  blk_restart_offset :: u32

definition NumRestarts :: "bytes \<Rightarrow> u64 \<Rightarrow> u32" where
  "NumRestarts data sz = DecodeFixed32 (drop (unat (sz - 4)) data)"

definition Block_new :: "bytes \<Rightarrow> Block" where
  "Block_new contents =
     (let sz = of_nat (length contents) :: u64
      in if sz < 4 then \<lparr>blk_data = contents, blk_size = 0, blk_restart_offset = 0\<rparr>
         else
           (let restart_offset = ucast (sz - ucast (1 + NumRestarts contents sz) * 4) :: u32
            in \<lparr>blk_data = contents, blk_size = (if ucast restart_offset > sz - 4 then 0 else sz),
                blk_restart_offset = restart_offset\<rparr>))"

definition DecodeEntry :: "bytes \<Rightarrow> nat \<Rightarrow> nat \<Rightarrow> (u32 \<times> u32 \<times> u32 \<times> nat) option" where
  "DecodeEntry data p limit =
     (let s = take (limit - p) (drop p data)
      in if int limit - int p < 3 then None
         else
           (let shared = ucast (s ! 0) :: u32; non_shared = ucast (s ! 1) :: u32; value_length = ucast (s ! 2) :: u32
            in Option.bind
                 (if (shared OR non_shared OR value_length) < 128 then Some (shared, non_shared, value_length, drop 3 s)
                  else
                    Option.bind (GetVarint32Ptr s) (\<lambda>(shared, s).
                    Option.bind (GetVarint32Ptr s) (\<lambda>(non_shared, s).
                    map_option (\<lambda>(value_length, s). (shared, non_shared, value_length, s)) (GetVarint32Ptr s))))
                 (\<lambda>(shared, non_shared, value_length, s).
                    if (of_nat (length s) :: u32) < non_shared + value_length then None
                    else Some (shared, non_shared, value_length, limit - length s))))"

record Block_Iter =
  bi_data :: bytes
  bi_restarts :: u32
  bi_num_restarts :: u32
  bi_current :: u32
  bi_restart_index :: u32
  bi_key :: bytes
  bi_value :: "nat \<times> u32"
  bi_status :: bool

definition Block_Iter_new :: "bytes \<Rightarrow> u32 \<Rightarrow> u32 \<Rightarrow> Block_Iter" where
  "Block_Iter_new data restarts num_restarts =
     \<lparr>bi_data = data, bi_restarts = restarts, bi_num_restarts = num_restarts, bi_current = restarts,
      bi_restart_index = num_restarts, bi_key = [], bi_value = (0, 0), bi_status = True\<rparr>"

text \<open>\<open>None\<close> stands for the empty iterator, which \<^verbatim>\<open>NewEmptyIterator\<close> or with an error status
  \<^verbatim>\<open>NewErrorIterator\<close> returns.\<close>

definition Block_NewIterator :: "Block \<Rightarrow> Block_Iter option \<times> bool" where
  "Block_NewIterator b =
     (if blk_size b < 8 then (None, False)
      else
        (let num_restarts = NumRestarts (blk_data b) (blk_size b)
         in if num_restarts = 0 then (None, True)
            else (Some (Block_Iter_new (blk_data b) (blk_restart_offset b) num_restarts), True)))"

definition NextEntryOffset :: "Block_Iter \<Rightarrow> u32" where
  "NextEntryOffset it = of_nat (fst (bi_value it) + unat (snd (bi_value it)))"

definition GetRestartPoint :: "Block_Iter \<Rightarrow> u32 \<Rightarrow> u32" where
  "GetRestartPoint it index = DecodeFixed32 (drop (unat (bi_restarts it) + unat index * 4) (bi_data it))"

definition SeekToRestartPoint :: "Block_Iter \<Rightarrow> u32 \<Rightarrow> Block_Iter" where
  "SeekToRestartPoint it index =
     it\<lparr>bi_key := [], bi_restart_index := index, bi_value := (unat (GetRestartPoint it index), 0)\<rparr>"

definition Block_Valid :: "Block_Iter \<Rightarrow> bool" where
  "Block_Valid it \<longleftrightarrow> bi_current it < bi_restarts it"

definition Block_value :: "Block_Iter \<Rightarrow> bytes" where
  "Block_value it = take (unat (snd (bi_value it))) (drop (fst (bi_value it)) (bi_data it))"

definition CorruptionError :: "Block_Iter \<Rightarrow> Block_Iter" where
  "CorruptionError it = it\<lparr>bi_current := bi_restarts it, bi_restart_index := bi_num_restarts it,
     bi_status := False, bi_key := [], bi_value := (0, 0)\<rparr>"

lemma succ_measure:
  fixes i n :: u32
  assumes "i + 1 < n"
  shows "unat n - unat (2 + i) < unat n - unat (i + 1)"
proof -
  have "unat (i + 1) < unat n" "unat n < 2 ^ 32" using assms unat_u32_lt by (simp_all add: word_less_nat_alt)
  then have "unat (i + 1 + 1) = unat (i + 1) + 1" by (subst unat_add_lem [THEN iffD1]) simp_all
  moreover have "i + 1 + 1 = 2 + i" by simp
  ultimately show ?thesis using \<open>unat (i + 1) < unat n\<close> by simp
qed

function advance_restart :: "Block_Iter \<Rightarrow> Block_Iter" where
  "advance_restart it =
     (if bi_restart_index it + 1 < bi_num_restarts it \<and>
         GetRestartPoint it (bi_restart_index it + 1) < bi_current it
      then advance_restart (it\<lparr>bi_restart_index := bi_restart_index it + 1\<rparr>) else it)"
  by pat_completeness auto
termination
  by (relation "measure (\<lambda>it. unat (bi_num_restarts it) - unat (bi_restart_index it + 1))")
    (auto intro: succ_measure)

declare advance_restart.simps [simp del]

definition ParseNextKey :: "Block_Iter \<Rightarrow> (Block_Iter \<times> bool) option" where
  "ParseNextKey it =
     (let current = NextEntryOffset it;
          it = it\<lparr>bi_current := current\<rparr>
      in if unat current \<ge> unat (bi_restarts it) then
           Some (it\<lparr>bi_current := bi_restarts it, bi_restart_index := bi_num_restarts it\<rparr>, False)
         else
           (case DecodeEntry (bi_data it) (unat current) (unat (bi_restarts it)) of
              None \<Rightarrow> Some (CorruptionError it, False)
            | Some (shared, non_shared, value_length, p) \<Rightarrow>
                if length (bi_key it) < unat shared then Some (CorruptionError it, False)
                else if length (bi_data it) < p + unat non_shared then None
                else
                  Some (advance_restart (it\<lparr>bi_key := take (unat shared) (bi_key it) @
                            take (unat non_shared) (drop p (bi_data it)),
                          bi_value := (p + unat non_shared, value_length)\<rparr>), True)))"

definition Block_Next :: "Block_Iter \<Rightarrow> Block_Iter option" where
  "Block_Next it = map_option fst (ParseNextKey it)"

definition Block_SeekToFirst :: "Block_Iter \<Rightarrow> Block_Iter option" where
  "Block_SeekToFirst it = map_option fst (ParseNextKey (SeekToRestartPoint it 0))"

partial_function (option) Seek_binary ::
  "(bytes \<Rightarrow> bytes \<Rightarrow> int) \<Rightarrow> Block_Iter \<Rightarrow> bytes \<Rightarrow> u32 \<Rightarrow> u32 \<Rightarrow> u32 option option" where
  "Seek_binary cmp it target left right =
     (if left < right then
        (let mid = (left + right + 1) div 2;
             entry = DecodeEntry (bi_data it) (unat (GetRestartPoint it mid)) (unat (bi_restarts it));
             (shared, non_shared, value_length, key_ptr) = the entry
         in if entry = None \<or> shared \<noteq> 0 then Some None
            else if length (bi_data it) < key_ptr + unat non_shared then None
            else if cmp (take (unat non_shared) (drop key_ptr (bi_data it))) target < 0
            then Seek_binary cmp it target mid right
            else Seek_binary cmp it target left (mid - 1))
      else Some (Some left))"

partial_function (option) Seek_linear :: "(bytes \<Rightarrow> bytes \<Rightarrow> int) \<Rightarrow> Block_Iter \<Rightarrow> bytes \<Rightarrow> Block_Iter option" where
  "Seek_linear cmp it target =
     Option.bind (ParseNextKey it) (\<lambda>r.
       if \<not> snd r then Some (fst r)
       else if cmp (bi_key (fst r)) target \<ge> 0 then Some (fst r)
       else Seek_linear cmp (fst r) target)"

definition Block_Seek :: "(bytes \<Rightarrow> bytes \<Rightarrow> int) \<Rightarrow> Block_Iter \<Rightarrow> bytes \<Rightarrow> Block_Iter option" where
  "Block_Seek cmp it target =
     Option.bind (Seek_binary cmp it target 0 (bi_num_restarts it - 1)) (\<lambda>left.
       case left of
         None \<Rightarrow> Some (CorruptionError it)
       | Some left \<Rightarrow> Seek_linear cmp (SeekToRestartPoint it left) target)"

partial_function (option) skip_entries :: "Block_Iter \<Rightarrow> u32 \<Rightarrow> Block_Iter option" where
  "skip_entries it limit =
     Option.bind (ParseNextKey it) (\<lambda>r.
       if snd r \<and> NextEntryOffset (fst r) < limit then skip_entries (fst r) limit else Some (fst r))"

definition Block_SeekToLast :: "Block_Iter \<Rightarrow> Block_Iter option" where
  "Block_SeekToLast it = skip_entries (SeekToRestartPoint it (bi_num_restarts it - 1)) (bi_restarts it)"

function Prev_restart :: "Block_Iter \<Rightarrow> u32 \<Rightarrow> u32 \<Rightarrow> u32 option" where
  "Prev_restart it original index =
     (if GetRestartPoint it index \<ge> original then
        (if index = 0 then None else Prev_restart it original (index - 1))
      else Some index)"
  by pat_completeness auto
termination
  by (relation "measure (\<lambda>(it, original, index). unat index)") (auto simp: unat_minus_one unat_gt_0)

declare Prev_restart.simps [simp del]

definition Block_Prev :: "Block_Iter \<Rightarrow> Block_Iter option" where
  "Block_Prev it =
     (let original = bi_current it
      in case Prev_restart it original (bi_restart_index it) of
           None \<Rightarrow> Some (it\<lparr>bi_current := bi_restarts it, bi_restart_index := bi_num_restarts it\<rparr>)
         | Some index \<Rightarrow> skip_entries (SeekToRestartPoint it index) original)"

section \<open>The layout of a block\<close>

text \<open>An entry as it is stored: how much of the key is shared, the key, and the value.\<close>

type_synonym piece = "nat \<times> bytes \<times> bytes"

abbreviation p_shared :: "piece \<Rightarrow> nat" where "p_shared t \<equiv> fst t"
abbreviation p_key :: "piece \<Rightarrow> bytes" where "p_key t \<equiv> fst (snd t)"
abbreviation p_val :: "piece \<Rightarrow> bytes" where "p_val t \<equiv> snd (snd t)"

definition piece_header :: "piece \<Rightarrow> bytes" where
  "piece_header t = EncodeVarint32 (of_nat (p_shared t)) @ EncodeVarint32 (of_nat (length (p_key t) - p_shared t)) @
     EncodeVarint32 (of_nat (length (p_val t)))"

definition piece_bytes :: "piece \<Rightarrow> bytes" where
  "piece_bytes t = piece_header t @ drop (p_shared t) (p_key t) @ p_val t"

definition offset_of :: "piece list \<Rightarrow> nat \<Rightarrow> nat" where
  "offset_of ts i = length (concat (map piece_bytes (take i ts)))"

definition pieces_ok :: "piece list \<Rightarrow> bool" where
  "pieces_ok ts \<longleftrightarrow> (\<forall>i<length ts. p_shared (ts ! i) \<le> length (p_key (ts ! i)) \<and>
     (case i of 0 \<Rightarrow> p_shared (ts ! i) = 0
      | Suc j \<Rightarrow> p_shared (ts ! i) \<le> length (p_key (ts ! j)) \<and>
          take (p_shared (ts ! i)) (p_key (ts ! j)) = take (p_shared (ts ! i)) (p_key (ts ! i))))"

definition restarts_ok :: "piece list \<Rightarrow> nat list \<Rightarrow> bool" where
  "restarts_ok ts rs \<longleftrightarrow> rs \<noteq> [] \<and> hd rs = 0 \<and> sorted_wrt (<) rs \<and>
     (\<forall>r\<in>set rs. (r < length ts \<and> p_shared (ts ! r) = 0) \<or> (r = 0 \<and> ts = []))"

definition block_bytes :: "piece list \<Rightarrow> nat list \<Rightarrow> bytes" where
  "block_bytes ts rs = concat (map piece_bytes ts) @
     concat (map (\<lambda>r. EncodeFixed32 (of_nat (offset_of ts r))) rs) @ EncodeFixed32 (of_nat (length rs))"

lemma varint_byte:
  "EncodeVarint32 x = (if unat x < 128 then [ucast x] else of_nat (unat x mod 128 + 128) # varint (unat x div 128))"
  by (simp add: EncodeVarint32_varint varint.simps [of "unat x"])

lemma varint_pos: "0 < length (EncodeVarint32 x)"
  by (simp add: varint_byte)

lemma large_byte: "128 \<le> (ucast (of_nat (n mod 128 + 128) :: byte) :: u32)"
proof -
  have "n mod 128 + 128 < 256" by simp
  then have "(ucast (of_nat (n mod 128 + 128) :: byte) :: u32) = of_nat (n mod 128 + 128)" by (rule ucast_byte_of_nat)
  then show ?thesis by (simp add: word_le_nat_alt unat_of_nat take_bit_nat_eq_self del: of_nat_add)
qed

lemma or_less_128:
  fixes a b c :: u32
  assumes "(a OR b OR c) < 128"
  shows "a < 128" "b < 128" "c < 128"
proof -
  have "x \<le> x OR y" for x y :: u32
  proof -
    have "x = x AND (x OR y)" by (simp add: bit_eq_iff bit_simps) 
    then show ?thesis by (metis word_and_le1)
  qed
  then have "a \<le> a OR b OR c" "b \<le> b OR (c OR a)" "c \<le> c OR (a OR b)" by blast+
  then have "a \<le> a OR b OR c" "b \<le> a OR b OR c" "c \<le> a OR b OR c" by (simp_all add: or.commute or.left_commute)
  then show "a < 128" "b < 128" "c < 128" using assms by (meson le_less_trans)+
qed

text \<open>The fast path of \<^verbatim>\<open>DecodeEntry\<close> reads the same as the general one.\<close>

lemma small_first:
  assumes "(ucast ((EncodeVarint32 x @ r) ! 0) :: u32) < 128"
  shows "EncodeVarint32 x = [ucast x] \<and> unat x < 128"
  using assms large_byte [of "unat x"] by (auto simp: varint_byte not_le [symmetric] split: if_splits)

lemma DecodeEntry_varints:
  assumes "take (limit - p) (drop p data) = EncodeVarint32 x @ EncodeVarint32 y @ EncodeVarint32 z @ r"
    and "p \<le> limit" "limit \<le> length data" "unat y + unat z \<le> length r" "length r < 2 ^ 32"
  shows "DecodeEntry data p limit = Some (x, y, z, limit - length r)"
proof -
  let ?s = "EncodeVarint32 x @ EncodeVarint32 y @ EncodeVarint32 z @ r"
  have len: "limit - p = length ?s" using arg_cong [OF assms(1), of length] assms(2,3) by simp
  have three: "\<not> int limit - int p < 3"
    using len varint_pos [of x] varint_pos [of y] varint_pos [of z] assms(2)
    unfolding length_append by linarith
  have yz: "\<not> (of_nat (length r) :: u32) < y + z"
  proof -
    have "unat (y + z) = unat y + unat z" using assms(4,5) by (subst unat_add_lem [THEN iffD1]) simp_all
    then show ?thesis using assms(4,5) by (simp add: word_less_nat_alt unat_of_nat take_bit_nat_eq_self)
  qed
  let ?bytes = "(ucast (?s ! 0) :: u32) OR ucast (?s ! 1) OR ucast (?s ! 2)"
  show ?thesis
  proof (cases "?bytes < 128")
    case True
    note B = or_less_128 [OF True]
    have x: "EncodeVarint32 x = [ucast x]" "unat x < 128" using small_first [OF B(1)] by auto
    have "(ucast ((EncodeVarint32 y @ EncodeVarint32 z @ r) ! 0) :: u32) < 128" using B(2) by (simp add: x(1))
    then have y: "EncodeVarint32 y = [ucast y]" "unat y < 128" using small_first by blast+
    have "(ucast ((EncodeVarint32 z @ r) ! 0) :: u32) < 128" using B(3) by (simp add: x(1) y(1))
    then have z: "EncodeVarint32 z = [ucast z]" "unat z < 128" using small_first by blast+
    have wb: "(ucast (ucast w :: byte) :: u32) = w" if "unat w < 128" for w :: u32
      unfolding ucast_of_nat_unat [of w] using that by (subst ucast_byte_of_nat) simp_all
    show ?thesis
      using three yz True unfolding DecodeEntry_def Let_def assms(1)
      by (simp add: x y z wb)
  next
    case False
    then show ?thesis
      using three yz unfolding DecodeEntry_def Let_def assms(1)
      by (simp add: GetVarint32_EncodeVarint32 [unfolded GetVarint32_def])
  qed
qed

section \<open>Reading what was laid out\<close>

definition well_laid :: "piece list \<Rightarrow> nat list \<Rightarrow> bool" where
  "well_laid ts rs \<longleftrightarrow> pieces_ok ts \<and> restarts_ok ts rs \<and> length (block_bytes ts rs) < 2 ^ 32"

abbreviation end_of :: "piece list \<Rightarrow> nat" where "end_of ts \<equiv> offset_of ts (length ts)"

definition iter_ok :: "Block_Iter \<Rightarrow> piece list \<Rightarrow> nat list \<Rightarrow> bool" where
  "iter_ok it ts rs \<longleftrightarrow> well_laid ts rs \<and> bi_data it = block_bytes ts rs \<and>
     bi_restarts it = of_nat (end_of ts) \<and> bi_num_restarts it = of_nat (length rs)"

text \<open>The next entry to parse is the \<open>i\<close>-th.\<close>

definition before_entry :: "Block_Iter \<Rightarrow> piece list \<Rightarrow> nat list \<Rightarrow> nat \<Rightarrow> bool" where
  "before_entry it ts rs i \<longleftrightarrow> iter_ok it ts rs \<and> i \<le> length ts \<and>
     fst (bi_value it) + unat (snd (bi_value it)) = offset_of ts i \<and>
     (i < length ts \<longrightarrow> p_shared (ts ! i) \<le> length (bi_key it) \<and>
        take (p_shared (ts ! i)) (bi_key it) = take (p_shared (ts ! i)) (p_key (ts ! i))) \<and>
     (\<exists>j<length rs. bi_restart_index it = of_nat j \<and> rs ! j \<le> i)"

text \<open>The iterator is on the \<open>i\<close>-th entry; its restart index is the last one before it.\<close>

definition at_entry :: "Block_Iter \<Rightarrow> piece list \<Rightarrow> nat list \<Rightarrow> nat \<Rightarrow> bool" where
  "at_entry it ts rs i \<longleftrightarrow> iter_ok it ts rs \<and> i < length ts \<and> bi_current it = of_nat (offset_of ts i) \<and>
     bi_key it = p_key (ts ! i) \<and> Block_value it = p_val (ts ! i) \<and>
     fst (bi_value it) + unat (snd (bi_value it)) = offset_of ts (Suc i) \<and>
     (\<exists>j<length rs. bi_restart_index it = of_nat j \<and> rs ! j \<le> i \<and> (\<forall>j'<length rs. j < j' \<longrightarrow> i \<le> rs ! j'))"

lemma offset_Suc: "i < length ts \<Longrightarrow> offset_of ts (Suc i) = offset_of ts i + length (piece_bytes (ts ! i))"
  by (simp add: offset_of_def take_Suc_conv_app_nth)

lemma piece_pos: "0 < length (piece_bytes t)"
  using varint_pos by (simp add: piece_bytes_def piece_header_def)

lemma offset_mono: "i \<le> j \<Longrightarrow> offset_of ts i \<le> offset_of ts j"
proof (induction j)
  case (Suc j)
  show ?case
  proof (cases "i \<le> j")
    case True
    have "offset_of ts j \<le> offset_of ts (Suc j)"
      by (cases "j < length ts") (simp_all add: offset_Suc, simp add: offset_of_def)
    then show ?thesis using Suc.IH True by simp
  next
    case False
    then have "i = Suc j" using Suc.prems by simp
    then show ?thesis by simp
  qed
qed simp

lemma offset_less_iff: "i < length ts \<Longrightarrow> j \<le> length ts \<Longrightarrow> offset_of ts i < offset_of ts j \<longleftrightarrow> i < j"
proof
  assume i: "i < length ts" "j \<le> length ts"
  show "i < j" if "offset_of ts i < offset_of ts j"
    using offset_mono [of j i ts] that by (cases "i < j") simp_all
  show "offset_of ts i < offset_of ts j" if "i < j"
    using offset_Suc [OF i(1)] piece_pos [of "ts ! i"] offset_mono [of "Suc i" j ts] that by linarith
qed

lemma offset_end: "concat (map piece_bytes ts) = take (end_of ts) (block_bytes ts rs)"
  by (simp add: offset_of_def block_bytes_def)

lemma length_block: "length (block_bytes ts rs) = end_of ts + 4 * length rs + 4"
  by (simp add: block_bytes_def offset_of_def length_restarts)

lemma laid_words:
  assumes "well_laid ts rs"
  shows "unat (of_nat (offset_of ts i) :: u32) = offset_of ts i" "j \<le> length rs \<Longrightarrow> unat (of_nat j :: u32) = j"
proof -
  have "offset_of ts i \<le> end_of ts"
    by (cases "i \<le> length ts") (simp_all add: offset_mono, simp add: offset_of_def)
  then have "offset_of ts i < 2 ^ 32" using assms by (simp add: well_laid_def length_block)
  then show "unat (of_nat (offset_of ts i) :: u32) = offset_of ts i" by (simp add: unat_of_nat take_bit_nat_eq_self)
  have "length rs < 2 ^ 32" using assms by (simp add: well_laid_def length_block)
  then show "unat (of_nat j :: u32) = j" if "j \<le> length rs" using that by (simp add: unat_of_nat take_bit_nat_eq_self)
qed

lemma pieces_okD:
  assumes "pieces_ok ts"
  shows "0 < length ts \<Longrightarrow> p_shared (ts ! 0) = 0" "i < length ts \<Longrightarrow> p_shared (ts ! i) \<le> length (p_key (ts ! i))"
    "Suc i < length ts \<Longrightarrow> p_shared (ts ! Suc i) \<le> length (p_key (ts ! i)) \<and>
       take (p_shared (ts ! Suc i)) (p_key (ts ! i)) = take (p_shared (ts ! Suc i)) (p_key (ts ! Suc i))"
  using assms unfolding pieces_ok_def by fastforce+

lemma drop_add_append: "drop a xs = h @ y \<Longrightarrow> drop (a + length h) xs = y"
  by (metis add.commute append_eq_conv_conj drop_drop)

lemma key_length:
  assumes "pieces_ok ts" "i < length ts"
  shows "length (p_key (ts ! i)) \<le> offset_of ts (Suc i)"
  using assms(2)
proof (induction i)
  case 0
  then have "p_shared (ts ! 0) = 0" using pieces_okD(1) [OF assms(1)] by simp
  then show ?case using 0 by (simp add: offset_Suc piece_bytes_def)
next
  case (Suc i)
  let ?t = "ts ! Suc i"
  have "p_shared ?t \<le> length (p_key ?t)" "p_shared ?t \<le> length (p_key (ts ! i))"
    using pieces_okD(2,3) [OF assms(1)] Suc.prems by blast+
  moreover have "offset_of ts (Suc (Suc i)) \<ge> offset_of ts (Suc i) + (length (p_key ?t) - p_shared ?t)"
    unfolding offset_Suc [OF Suc.prems] by (simp add: piece_bytes_def)
  ultimately show ?case using Suc.IH Suc.prems by simp
qed

lemma RestartPoint_ok:
  assumes "iter_ok it ts rs" "j < length rs"
  shows "GetRestartPoint it (of_nat j) = of_nat (offset_of ts (rs ! j))"
proof -
  have w: "well_laid ts rs" using assms(1) by (simp add: iter_ok_def)
  have "drop (end_of ts + j * 4) (block_bytes ts rs) =
      drop (4 * j) (concat (map (\<lambda>r. EncodeFixed32 (of_nat (offset_of ts r))) rs) @ EncodeFixed32 (of_nat (length rs)))"
    by (simp add: block_bytes_def offset_of_def add.commute mult.commute drop_append)
  then show ?thesis
    using assms laid_words [OF w] drop_restarts [OF assms(2), of "\<lambda>r. of_nat (offset_of ts r)"]
    by (simp add: GetRestartPoint_def iter_ok_def)
qed

lemma drop_entry:
  assumes "i < length ts"
  shows "drop (offset_of ts i) (concat (map piece_bytes ts) @ z) =
    piece_bytes (ts ! i) @ drop (offset_of ts (Suc i)) (concat (map piece_bytes ts) @ z)"
proof -
  have "concat (map piece_bytes ts) = concat (map piece_bytes (take i ts)) @ piece_bytes (ts ! i) @
      concat (map piece_bytes (drop (Suc i) ts))"
    using assms by (subst id_take_nth_drop [of i ts]) simp_all
  then show ?thesis
    unfolding offset_Suc [OF assms] by (simp add: offset_of_def add.commute flip: drop_drop)
qed

lemma Decode_at:
  assumes "iter_ok it ts rs" "i < length ts"
  shows "DecodeEntry (bi_data it) (offset_of ts i) (end_of ts) =
      Some (of_nat (p_shared (ts ! i)), of_nat (length (p_key (ts ! i)) - p_shared (ts ! i)), of_nat (length (p_val (ts ! i))),
        offset_of ts i + length (piece_header (ts ! i)))"
    and "drop (offset_of ts i + length (piece_header (ts ! i))) (bi_data it) =
      drop (p_shared (ts ! i)) (p_key (ts ! i)) @ p_val (ts ! i) @ drop (offset_of ts (Suc i)) (bi_data it)"
    and "unat (of_nat (p_shared (ts ! i)) :: u32) = p_shared (ts ! i)"
    and "unat (of_nat (length (p_key (ts ! i)) - p_shared (ts ! i)) :: u32) = length (p_key (ts ! i)) - p_shared (ts ! i)"
    and "unat (of_nat (length (p_val (ts ! i))) :: u32) = length (p_val (ts ! i))"
proof -
  let ?t = "ts ! i" and ?data = "block_bytes ts rs"
  have w: "well_laid ts rs" and d: "bi_data it = ?data" using assms(1) by (simp_all add: iter_ok_def)
  have len: "length ?data < 2 ^ 32" "end_of ts \<le> length ?data" using w by (simp_all add: well_laid_def length_block)
  have ok: "p_shared ?t \<le> length (p_key ?t)" using w assms(2) pieces_okD(2) by (simp add: well_laid_def)
  have off: "offset_of ts (Suc i) = offset_of ts i + length (piece_header ?t) + (length (p_key ?t) - p_shared ?t) + length (p_val ?t)"
    unfolding offset_Suc [OF assms(2)] by (simp add: piece_bytes_def)
  have le: "offset_of ts (Suc i) \<le> end_of ts" using assms(2) by (intro offset_mono) simp
  have small: "length (p_key ?t) - p_shared ?t < 2 ^ 32" "length (p_val ?t) < 2 ^ 32"
    using off le len by linarith+
  then show n: "unat (of_nat (length (p_key ?t) - p_shared ?t) :: u32) = length (p_key ?t) - p_shared ?t"
    "unat (of_nat (length (p_val ?t)) :: u32) = length (p_val ?t)"
    by (simp_all add: unat_of_nat take_bit_nat_eq_self)
  have "length (p_key ?t) \<le> offset_of ts (Suc i)"
    using key_length [OF _ assms(2)] w by (simp add: well_laid_def)
  then have "p_shared ?t < 2 ^ 32" using ok le len by linarith
  then show "unat (of_nat (p_shared ?t) :: u32) = p_shared ?t" by (simp add: unat_of_nat take_bit_nat_eq_self)
  have D: "drop (offset_of ts i) (concat (map piece_bytes ts) @ z) =
      EncodeVarint32 (of_nat (p_shared ?t)) @ EncodeVarint32 (of_nat (length (p_key ?t) - p_shared ?t)) @
      EncodeVarint32 (of_nat (length (p_val ?t))) @ drop (p_shared ?t) (p_key ?t) @ p_val ?t @
      drop (offset_of ts (Suc i)) (concat (map piece_bytes ts) @ z)" for z
    using drop_entry [OF assms(2)] by (simp add: piece_bytes_def piece_header_def)
  show "drop (offset_of ts i + length (piece_header ?t)) (bi_data it) =
      drop (p_shared ?t) (p_key ?t) @ p_val ?t @ drop (offset_of ts (Suc i)) (bi_data it)"
    unfolding d block_bytes_def by (rule drop_add_append) (simp only: D piece_header_def append_assoc)
  let ?r = "drop (p_shared ?t) (p_key ?t) @ p_val ?t @ drop (offset_of ts (Suc i)) (concat (map piece_bytes ts))"
  have T: "take (end_of ts - offset_of ts i) (drop (offset_of ts i) ?data) =
      EncodeVarint32 (of_nat (p_shared ?t)) @ EncodeVarint32 (of_nat (length (p_key ?t) - p_shared ?t)) @
      EncodeVarint32 (of_nat (length (p_val ?t))) @ ?r"
    unfolding drop_take [symmetric] offset_end [symmetric] using D [of "[]"] by simp
  have r: "length ?r = end_of ts - (offset_of ts i + length (piece_header ?t))"
    using off le by (simp add: offset_of_def)
  have "DecodeEntry ?data (offset_of ts i) (end_of ts) = Some (of_nat (p_shared ?t),
      of_nat (length (p_key ?t) - p_shared ?t), of_nat (length (p_val ?t)), end_of ts - length ?r)"
    by (rule DecodeEntry_varints [OF T]) (use len le off r n in \<open>simp_all\<close>)
  then show "DecodeEntry (bi_data it) (offset_of ts i) (end_of ts) =
      Some (of_nat (p_shared ?t), of_nat (length (p_key ?t) - p_shared ?t), of_nat (length (p_val ?t)),
        offset_of ts i + length (piece_header ?t))"
    using r off le d by simp
qed

section \<open>Parsing\<close>

lemma iter_ok_update:
  assumes "iter_ok it ts rs" "bi_data it' = bi_data it" "bi_restarts it' = bi_restarts it" "bi_num_restarts it' = bi_num_restarts it"
  shows "iter_ok it' ts rs"
  using assms by (simp add: iter_ok_def)

lemma restarts_okD:
  assumes "well_laid ts rs"
  shows "rs \<noteq> []" "0 < length rs" "rs ! 0 = 0" "i < j \<Longrightarrow> j < length rs \<Longrightarrow> rs ! i < rs ! j"
    "j < length rs \<Longrightarrow> ts \<noteq> [] \<Longrightarrow> rs ! j < length ts \<and> p_shared (ts ! (rs ! j)) = 0"
    "j < length rs \<Longrightarrow> rs ! j \<le> length ts"
proof -
  have ok: "rs \<noteq> []" "hd rs = 0" "sorted_wrt (<) rs"
    "\<forall>r\<in>set rs. (r < length ts \<and> p_shared (ts ! r) = 0) \<or> (r = 0 \<and> ts = [])"
    using assms by (simp_all add: well_laid_def restarts_ok_def)
  show "rs \<noteq> []" "0 < length rs" "rs ! 0 = 0" "i < j \<Longrightarrow> j < length rs \<Longrightarrow> rs ! i < rs ! j"
    using ok by (auto simp: hd_conv_nth sorted_wrt_nth_less)
  show "j < length rs \<Longrightarrow> ts \<noteq> [] \<Longrightarrow> rs ! j < length ts \<and> p_shared (ts ! (rs ! j)) = 0"
    "j < length rs \<Longrightarrow> rs ! j \<le> length ts"
    using ok nth_mem [of j rs] by (auto intro: less_imp_le)
qed

lemma restart_less:
  assumes "iter_ok it ts rs" "j < length rs" "i < length ts"
  shows "GetRestartPoint it (of_nat j) < of_nat (offset_of ts i) \<longleftrightarrow> rs ! j < i"
proof -
  have w: "well_laid ts rs" using assms(1) by (simp add: iter_ok_def)
  have "ts \<noteq> []" using assms(3) by auto
  then have "rs ! j < length ts" using restarts_okD(5) [OF w assms(2)] by blast
  then show ?thesis
    using RestartPoint_ok [OF assms(1,2)] laid_words(1) [OF w] offset_less_iff [of "rs ! j" ts i] assms(3)
    by (simp add: word_less_nat_alt)
qed

lemma advance_restart_ok:
  assumes "iter_ok it ts rs" "i < length ts" "bi_current it = of_nat (offset_of ts i)"
    and "bi_restart_index it = of_nat j" "j < length rs" "rs ! j \<le> i"
  shows "\<exists>j'<length rs. rs ! j' \<le> i \<and> (\<forall>k<length rs. j' < k \<longrightarrow> i \<le> rs ! k) \<and>
    advance_restart it = it\<lparr>bi_restart_index := of_nat j'\<rparr>"
  using assms
proof (induction it arbitrary: j rule: advance_restart.induct)
  case (1 it)
  have w: "well_laid ts rs" using 1(2) by (simp add: iter_ok_def)
  have next_idx: "bi_restart_index it + 1 = of_nat (Suc j)" "bi_num_restarts it = of_nat (length rs)"
    using 1 by (simp_all add: iter_ok_def)
  have j: "bi_restart_index it + 1 < bi_num_restarts it \<longleftrightarrow> Suc j < length rs"
    unfolding next_idx using laid_words(2) [OF w] 1(6) by (simp add: word_less_nat_alt del: of_nat_Suc)
  show ?case
  proof (cases "Suc j < length rs \<and> rs ! Suc j < i")
    case True
    then have guard: "bi_restart_index it + 1 < bi_num_restarts it \<and> GetRestartPoint it (bi_restart_index it + 1) < bi_current it"
      using j restart_less [OF 1(2) _ 1(3), of "Suc j"] by (simp only: next_idx 1(4))
    obtain j' where "j' < length rs" "rs ! j' \<le> i" "\<forall>k<length rs. j' < k \<longrightarrow> i \<le> rs ! k"
      "advance_restart (it\<lparr>bi_restart_index := bi_restart_index it + 1\<rparr>) =
        (it\<lparr>bi_restart_index := bi_restart_index it + 1\<rparr>)\<lparr>bi_restart_index := of_nat j'\<rparr>"
      using 1(1) [OF guard, of "Suc j"] 1 True next_idx iter_ok_update [OF 1(2)] by auto
    then show ?thesis using guard by (subst advance_restart.simps) auto
  next
    case False
    have "\<not> (bi_restart_index it + 1 < bi_num_restarts it \<and> GetRestartPoint it (bi_restart_index it + 1) < bi_current it)"
      using False j restart_less [OF 1(2) _ 1(3), of "Suc j"] by (simp only: next_idx 1(4)) blast
    then have "advance_restart it = it" by (subst advance_restart.simps) (simp only: if_False)
    then have "advance_restart it = it\<lparr>bi_restart_index := of_nat j\<rparr>" using 1(5) by simp
    moreover have "i \<le> rs ! k" if "k < length rs" "j < k" for k
    proof (cases "k = Suc j")
      case True
      then show ?thesis using False that by simp
    next
      case neq: False
      then have "rs ! Suc j < rs ! k" using that by (intro restarts_okD(4) [OF w]) simp_all
      then show ?thesis using False that by simp
    qed
    ultimately show ?thesis using 1(6,7) by blast
  qed
qed

lemma Parse_entry:
  assumes "before_entry it ts rs i" "i < length ts"
  shows "\<exists>it'. ParseNextKey it = Some (it', True) \<and> at_entry it' ts rs i \<and> bi_status it' = bi_status it"
proof -
  let ?t = "ts ! i"
  have ok: "iter_ok it ts rs" and w: "well_laid ts rs" using assms(1) by (simp_all add: before_entry_def iter_ok_def)
  have e: "bi_restarts it = of_nat (end_of ts)" "bi_data it = block_bytes ts rs" using ok by (simp_all add: iter_ok_def)
  have cur: "NextEntryOffset it = of_nat (offset_of ts i)"
    using assms(1) by (simp add: NextEntryOffset_def before_entry_def)
  have lt: "offset_of ts i < end_of ts" using assms(2) by (simp add: offset_less_iff)
  note D = Decode_at [OF ok assms(2)]
  have key: "p_shared ?t \<le> length (bi_key it)" "take (p_shared ?t) (bi_key it) = take (p_shared ?t) (p_key ?t)"
    using assms by (simp_all add: before_entry_def)
  obtain j where j: "j < length rs" "bi_restart_index it = of_nat j" "rs ! j \<le> i"
    using assms(1) by (auto simp: before_entry_def)
  let ?p = "offset_of ts i + length (piece_header ?t)" and ?n = "length (p_key ?t) - p_shared ?t"
  define it1 where "it1 = it\<lparr>bi_current := of_nat (offset_of ts i), bi_key := p_key ?t, bi_value := (?p + ?n, of_nat (length (p_val ?t)))\<rparr>"
  have off: "?p + ?n + length (p_val ?t) = offset_of ts (Suc i)"
    unfolding offset_Suc [OF assms(2)] by (simp add: piece_bytes_def)
  have room: "?p + ?n \<le> length (bi_data it)"
    using off offset_mono [of "Suc i" "length ts" ts] assms(2) e(2) by (simp add: length_block)
  have key_eq: "take (p_shared ?t) (bi_key it) @ take ?n (drop ?p (bi_data it)) = p_key ?t"
    unfolding D(2) key(2) by simp
  have parse: "ParseNextKey it = Some (advance_restart it1, True)"
    using lt laid_words(1) [OF w] key(1) room
    by (simp add: ParseNextKey_def Let_def cur e(1) D(1,3-5) key_eq it1_def)
  have ok1: "iter_ok it1 ts rs" by (rule iter_ok_update [OF ok]) (simp_all add: it1_def)
  obtain j' where A: "j' < length rs" "rs ! j' \<le> i" "\<forall>k<length rs. j' < k \<longrightarrow> i \<le> rs ! k"
    "advance_restart it1 = it1\<lparr>bi_restart_index := of_nat j'\<rparr>"
    using advance_restart_ok [OF ok1 assms(2), of j] j by (auto simp: it1_def)
  have "take (length (p_val ?t)) (drop (?p + ?n) (bi_data it)) = p_val ?t"
    using arg_cong [OF D(2), of "drop ?n"] by (simp add: add.commute)
  then have "Block_value (advance_restart it1) = p_val ?t"
    unfolding A(4) by (simp add: Block_value_def it1_def D(5))
  moreover have "iter_ok (advance_restart it1) ts rs" by (rule iter_ok_update [OF ok1]) (simp_all add: A(4))
  ultimately have "at_entry (advance_restart it1) ts rs i"
    unfolding at_entry_def using assms(2) A off D(5) by (auto simp: A(4) it1_def)
  then show ?thesis using parse A(4) by (simp add: it1_def)
qed

lemma Parse_end:
  assumes "before_entry it ts rs (length ts)"
  shows "ParseNextKey it = Some (it\<lparr>bi_current := bi_restarts it, bi_restart_index := bi_num_restarts it\<rparr>, False)"
  using assms by (simp add: ParseNextKey_def before_entry_def NextEntryOffset_def iter_ok_def Let_def)

lemma at_before:
  assumes "at_entry it ts rs i"
  shows "before_entry it ts rs (Suc i)"
proof -
  have "pieces_ok ts" using assms by (simp add: at_entry_def iter_ok_def well_laid_def)
  then show ?thesis using assms pieces_okD(3) [of ts i] by (auto simp: at_entry_def before_entry_def le_Suc_eq)
qed

lemma SeekToRestartPoint_ok:
  assumes "iter_ok it ts rs" "j < length rs"
  shows "before_entry (SeekToRestartPoint it (of_nat j)) ts rs (rs ! j)"
proof -
  have w: "well_laid ts rs" using assms(1) by (simp add: iter_ok_def)
  have "iter_ok (SeekToRestartPoint it (of_nat j)) ts rs"
    by (rule iter_ok_update [OF assms(1)]) (simp_all add: SeekToRestartPoint_def)
  moreover have "p_shared (ts ! (rs ! j)) = 0" if "rs ! j < length ts"
  proof -
    have "ts \<noteq> []" using that by auto
    then show ?thesis using restarts_okD(5) [OF w assms(2)] by blast
  qed
  ultimately show ?thesis
    using RestartPoint_ok [OF assms] laid_words(1) [OF w] restarts_okD(6) [OF w assms(2)] assms(2)
    by (auto simp: before_entry_def SeekToRestartPoint_def)
qed

text \<open>Stepping from one entry to the next until the limit.\<close>

lemma skip_entries_ok:
  assumes "before_entry it ts rs i" "i < m" "m \<le> length ts"
  shows "\<exists>it'. skip_entries it (of_nat (offset_of ts m)) = Some it' \<and> at_entry it' ts rs (m - 1) \<and> bi_status it' = bi_status it"
  using assms
proof (induction "m - i" arbitrary: it i)
  case (Suc d)
  have i: "i < length ts" using Suc.prems by simp
  obtain it1 where P: "ParseNextKey it = Some (it1, True)" "at_entry it1 ts rs i" "bi_status it1 = bi_status it"
    using Parse_entry [OF Suc.prems(1) i] by blast
  have w: "well_laid ts rs" using P(2) by (simp add: at_entry_def iter_ok_def)
  have "NextEntryOffset it1 = of_nat (offset_of ts (Suc i))"
    using P(2) by (simp add: NextEntryOffset_def at_entry_def)
  then have c: "NextEntryOffset it1 < of_nat (offset_of ts m) \<longleftrightarrow> offset_of ts (Suc i) < offset_of ts m"
    using laid_words(1) [OF w] by (simp add: word_less_nat_alt)
  show ?case
  proof (cases "Suc i < m")
    case True
    then have "offset_of ts (Suc i) < offset_of ts m" using Suc.prems(3) by (subst offset_less_iff) simp_all
    moreover obtain it' where "skip_entries it1 (of_nat (offset_of ts m)) = Some it'" "at_entry it' ts rs (m - 1)"
      "bi_status it' = bi_status it1"
      using Suc.hyps(1) [of "Suc i" it1, OF _ at_before [OF P(2)] True Suc.prems(3)] Suc.hyps(2) by fastforce
    ultimately show ?thesis using P c by (subst skip_entries.simps) simp
  next
    case False
    then have "m = Suc i" using Suc.prems(2) by simp
    then show ?thesis using P c by (subst skip_entries.simps) simp
  qed
qed simp

lemma Block_SeekToFirst_ok:
  assumes "iter_ok it ts rs" "ts \<noteq> []"
  shows "\<exists>it'. Block_SeekToFirst it = Some it' \<and> at_entry it' ts rs 0 \<and> bi_status it' = bi_status it"
proof -
  have "well_laid ts rs" using assms(1) by (simp add: iter_ok_def)
  then have "before_entry (SeekToRestartPoint it 0) ts rs 0"
    using SeekToRestartPoint_ok [OF assms(1), of 0] restarts_okD(2,3) by fastforce
  from Parse_entry [OF this] assms(2) show ?thesis
    by (auto simp: Block_SeekToFirst_def SeekToRestartPoint_def)
qed

lemma Block_SeekToLast_ok:
  assumes "iter_ok it ts rs" "ts \<noteq> []"
  shows "\<exists>it'. Block_SeekToLast it = Some it' \<and> at_entry it' ts rs (length ts - 1) \<and> bi_status it' = bi_status it"
proof -
  have w: "well_laid ts rs" using assms(1) by (simp add: iter_ok_def)
  let ?j = "length rs - 1"
  have j: "?j < length rs" using restarts_okD(2) [OF w] by simp
  have "bi_num_restarts it - 1 = of_nat ?j" using j assms(1) by (simp add: iter_ok_def of_nat_diff)
  moreover have "rs ! ?j < length ts" using restarts_okD(5) [OF w j assms(2)] by simp
  ultimately show ?thesis
    using skip_entries_ok [OF SeekToRestartPoint_ok [OF assms(1) j], of "length ts"] assms(1)
    by (simp add: Block_SeekToLast_def iter_ok_def SeekToRestartPoint_def)
qed

lemma Block_Next_ok:
  assumes "at_entry it ts rs i"
  shows "Suc i < length ts \<Longrightarrow> \<exists>it'. Block_Next it = Some it' \<and> at_entry it' ts rs (Suc i) \<and> bi_status it' = bi_status it"
    and "Suc i = length ts \<Longrightarrow> \<exists>it'. Block_Next it = Some it' \<and> \<not> Block_Valid it' \<and> iter_ok it' ts rs \<and> bi_status it' = bi_status it"
proof -
  note B = at_before [OF assms]
  have ok: "iter_ok it ts rs" using assms by (simp add: at_entry_def)
  show "\<exists>it'. Block_Next it = Some it' \<and> at_entry it' ts rs (Suc i) \<and> bi_status it' = bi_status it" if "Suc i < length ts"
    using Parse_entry [OF B that] by (auto simp: Block_Next_def)
  show "\<exists>it'. Block_Next it = Some it' \<and> \<not> Block_Valid it' \<and> iter_ok it' ts rs \<and> bi_status it' = bi_status it"
    if "Suc i = length ts"
    using Parse_end [of it ts rs] B ok that iter_ok_update [OF ok] by (auto simp: Block_Next_def Block_Valid_def iter_ok_def)
qed

lemma Block_Valid_at: "at_entry it ts rs i \<Longrightarrow> Block_Valid it"
  using laid_words(1) [of ts rs] offset_less_iff [of i ts "length ts"]
  by (simp add: Block_Valid_def at_entry_def iter_ok_def word_less_nat_alt)

lemma Prev_restart_ok:
  assumes "iter_ok it ts rs" "i < length ts" "j < length rs"
  shows "case Prev_restart it (of_nat (offset_of ts i)) (of_nat j) of
      None \<Rightarrow> i = 0 | Some x \<Rightarrow> \<exists>j'<length rs. x = of_nat j' \<and> rs ! j' < i"
  using assms(3)
proof (induction j)
  case 0
  have "rs ! 0 = 0" using assms(1) restarts_okD(3) by (auto simp: iter_ok_def)
  then show ?case using restart_less [OF assms(1) 0 assms(2)] 0 by (subst Prev_restart.simps) (auto simp: not_less)
next
  case (Suc j)
  have w: "well_laid ts rs" using assms(1) by (simp add: iter_ok_def)
  have "unat (of_nat (Suc j) :: u32) = Suc j" using laid_words(2) [OF w, of "Suc j"] Suc.prems by (simp del: of_nat_Suc)
  then have nz: "(of_nat (Suc j) :: u32) \<noteq> 0" by (metis unat_0 nat.distinct(1))
  moreover have "(of_nat (Suc j) :: u32) - 1 = of_nat j" by simp
  ultimately show ?case
    using restart_less [OF assms(1) Suc.prems assms(2)] Suc
    by (subst Prev_restart.simps) (auto simp: not_less simp del: of_nat_Suc)
qed

lemma Block_Prev_ok:
  assumes "at_entry it ts rs i"
  shows "0 < i \<Longrightarrow> \<exists>it'. Block_Prev it = Some it' \<and> at_entry it' ts rs (i - 1) \<and> bi_status it' = bi_status it"
    and "i = 0 \<Longrightarrow> \<exists>it'. Block_Prev it = Some it' \<and> \<not> Block_Valid it'"
proof -
  have ok: "iter_ok it ts rs" and i: "i < length ts" and cur: "bi_current it = of_nat (offset_of ts i)"
    using assms by (simp_all add: at_entry_def)
  obtain j where j: "j < length rs" "bi_restart_index it = of_nat j" using assms by (auto simp: at_entry_def)
  note P = Prev_restart_ok [OF ok i j(1), folded cur j(2)]
  have w: "well_laid ts rs" using ok by (simp add: iter_ok_def)
  show "\<exists>it'. Block_Prev it = Some it' \<and> at_entry it' ts rs (i - 1) \<and> bi_status it' = bi_status it" if pos: "0 < i"
  proof -
    obtain j' where j': "Prev_restart it (bi_current it) (bi_restart_index it) = Some (of_nat j')" "j' < length rs" "rs ! j' < i"
      using P pos by (cases "Prev_restart it (bi_current it) (bi_restart_index it)") auto
    obtain it' where "skip_entries (SeekToRestartPoint it (of_nat j')) (of_nat (offset_of ts i)) = Some it'"
      "at_entry it' ts rs (i - 1)" "bi_status it' = bi_status (SeekToRestartPoint it (of_nat j'))"
      using skip_entries_ok [OF SeekToRestartPoint_ok [OF ok j'(2)] j'(3)] i by auto
    then show ?thesis using j'(1) cur by (simp add: Block_Prev_def SeekToRestartPoint_def)
  qed
  show "\<exists>it'. Block_Prev it = Some it' \<and> \<not> Block_Valid it'" if "i = 0"
  proof -
    have "Prev_restart it (bi_current it) (bi_restart_index it) = None"
      using P that by (cases "Prev_restart it (bi_current it) (bi_restart_index it)") auto
    then show ?thesis by (simp add: Block_Prev_def Block_Valid_def)
  qed
qed

section \<open>Seeking\<close>

lemma Seek_binary_step:
  assumes "left < right" "(left + right + 1) div 2 = mid" "\<not> length (bi_data it) < p + unat n"
    and "DecodeEntry (bi_data it) (unat (GetRestartPoint it mid)) (unat (bi_restarts it)) = Some (0, n, v, p)"
  shows "Seek_binary cmp it target left right =
    (if cmp (take (unat n) (drop p (bi_data it))) target < 0 then Seek_binary cmp it target mid right
     else Seek_binary cmp it target left (mid - 1))"
  using assms(1,3,4) by (subst Seek_binary.simps) (simp add: assms(2))

lemma seek_mid:
  fixes l r :: nat
  assumes "l < r" "r < 2 ^ 30"
  shows "unat ((of_nat l + of_nat r + 1 :: u32) div 2) = (l + r + 1) div 2"
proof -
  have "(of_nat l + of_nat r + 1 :: u32) = of_nat (l + r + 1)" by simp
  moreover have "unat (of_nat (l + r + 1) :: u32) = l + r + 1"
    using assms by (simp add: unat_of_nat take_bit_nat_eq_self del: of_nat_add of_nat_Suc)
  ultimately show ?thesis by (simp only: unat_div_distrib) simp
qed

text \<open>The contract of the reader with its comparator, on byte strings.\<close>

locale block_order = key_order cmp rank
  for cmp :: "bytes \<Rightarrow> bytes \<Rightarrow> int" and rank :: "bytes \<Rightarrow> 'r::linorder"
begin

lemma Seek_binary_ok:
  assumes "iter_ok it ts rs" "ts \<noteq> []" "l \<le> r" "r < length rs"
    and "l = 0 \<or> cmp (p_key (ts ! (rs ! l))) target < 0"
  shows "\<exists>j<length rs. Seek_binary cmp it target (of_nat l) (of_nat r) = Some (Some (of_nat j)) \<and>
    (j = 0 \<or> cmp (p_key (ts ! (rs ! j))) target < 0)"
  using assms(3-5)
proof (induction "r - l" arbitrary: l r rule: less_induct)
  case less
  have w: "well_laid ts rs" using assms(1) by (simp add: iter_ok_def)
  have small: "length rs < 2 ^ 30" using w by (simp add: well_laid_def length_block)
  have lr: "(of_nat l :: u32) < of_nat r \<longleftrightarrow> l < r"
    using laid_words(2) [OF w] less.prems by (simp add: word_less_nat_alt)
  show ?case
  proof (cases "l < r")
    case False
    then show ?thesis using less.prems lr by (subst Seek_binary.simps) auto
  next
    case True
    define m where "m = (l + r + 1) div 2"
    have m: "l < m" "m \<le> r" "m < length rs" using True less.prems by (simp_all add: m_def)
    have mw: "(of_nat l + of_nat r + 1 :: u32) div 2 = of_nat m"
      using seek_mid [OF True] small less.prems(2) m_def laid_words(2) [OF w, of m] m
      by (simp add: word_unat_eq_iff)
    let ?i = "rs ! m"
    have i: "?i < length ts" "p_shared (ts ! ?i) = 0" using restarts_okD(5) [OF w m(3) assms(2)] by simp_all
    note D = Decode_at [OF assms(1) i(1)]
    let ?p = "offset_of ts ?i + length (piece_header (ts ! ?i))"
    have "unat (GetRestartPoint it (of_nat m)) = offset_of ts ?i" "unat (bi_restarts it) = end_of ts"
      using RestartPoint_ok [OF assms(1) m(3)] laid_words(1) [OF w] assms(1) by (simp_all add: iter_ok_def)
    then have entry: "DecodeEntry (bi_data it) (unat (GetRestartPoint it (of_nat m))) (unat (bi_restarts it)) =
        Some (0, of_nat (length (p_key (ts ! ?i))), of_nat (length (p_val (ts ! ?i))), ?p)"
      using D(1) i(2) by simp
    have n: "unat (of_nat (length (p_key (ts ! ?i))) :: u32) = length (p_key (ts ! ?i))" using D(4) i(2) by simp
    have key: "take (length (p_key (ts ! ?i))) (drop ?p (bi_data it)) = p_key (ts ! ?i)" using D(2) i(2) by simp
    have "offset_of ts (Suc ?i) = ?p + length (p_key (ts ! ?i)) + length (p_val (ts ! ?i))"
      unfolding offset_Suc [OF i(1)] using i(2) by (simp add: piece_bytes_def)
    then have room: "\<not> length (bi_data it) < ?p + length (p_key (ts ! ?i))"
      using offset_mono [of "Suc ?i" "length ts" ts] i(1) assms(1) by (simp add: iter_ok_def length_block)
    have step: "Seek_binary cmp it target (of_nat l) (of_nat r) =
        (if cmp (p_key (ts ! ?i)) target < 0 then Seek_binary cmp it target (of_nat m) (of_nat r)
         else Seek_binary cmp it target (of_nat l) (of_nat m - 1))"
      using Seek_binary_step [OF _ mw _ entry] True lr room unfolding n key by blast
    have m1: "(of_nat m :: u32) - 1 = of_nat (m - 1)" using m(1) by (simp add: of_nat_diff)
    show ?thesis
    proof (cases "cmp (p_key (ts ! ?i)) target < 0")
      case c: True
      have "r - m < r - l" using m by simp
      from less.hyps [OF this m(2) less.prems(2) disjI2 [OF c]] show ?thesis using step c by simp
    next
      case c: False
      have "m - 1 - l < r - l" "l \<le> m - 1" "m - 1 < length rs" using m by simp_all
      from less.hyps [OF this less.prems(3)] show ?thesis using step c m1 by simp
    qed
  qed
qed

lemma Seek_linear_ok:
  assumes "before_entry it ts rs i" "i \<le> k" "k \<le> length ts" "\<forall>m<k. cmp (p_key (ts ! m)) target < 0"
    and "k < length ts \<Longrightarrow> \<not> cmp (p_key (ts ! k)) target < 0"
  shows "\<exists>it'. Seek_linear cmp it target = Some it' \<and> bi_status it' = bi_status it \<and>
    (if k < length ts then at_entry it' ts rs k else \<not> Block_Valid it' \<and> iter_ok it' ts rs)"
  using assms(1,2)
proof (induction "k - i" arbitrary: it i)
  case 0
  then have k: "k = i" using assms by simp
  show ?case
  proof (cases "i < length ts")
    case True
    then obtain it1 where P: "ParseNextKey it = Some (it1, True)" "at_entry it1 ts rs i" "bi_status it1 = bi_status it"
      using Parse_entry [OF 0(2)] by blast
    moreover have "bi_key it1 = p_key (ts ! i)" using P(2) by (simp add: at_entry_def)
    ultimately show ?thesis using assms(5) True k by (subst Seek_linear.simps) simp
  next
    case False
    then have "i = length ts" using 0(2) by (simp add: before_entry_def)
    moreover have "iter_ok it ts rs" using 0(2) by (simp add: before_entry_def)
    ultimately show ?thesis
      using Parse_end [of it ts rs] 0(2) k iter_ok_update [of it ts rs]
      by (subst Seek_linear.simps) (simp add: Block_Valid_def)
  qed
next
  case (Suc d)
  then have i: "i < length ts" "i < k" using assms(3) by simp_all
  obtain it1 where P: "ParseNextKey it = Some (it1, True)" "at_entry it1 ts rs i" "bi_status it1 = bi_status it"
    using Parse_entry [OF Suc.prems(1) i(1)] by blast
  moreover have "bi_key it1 = p_key (ts ! i)" using P(2) by (simp add: at_entry_def)
  moreover have "cmp (p_key (ts ! i)) target < 0" using assms(4) i(2) by blast
  moreover have "\<exists>it'. Seek_linear cmp it1 target = Some it' \<and> bi_status it' = bi_status it1 \<and>
      (if k < length ts then at_entry it' ts rs k else \<not> Block_Valid it' \<and> iter_ok it' ts rs)"
    using Suc.hyps(1) [of "Suc i" it1, OF _ at_before [OF P(2)]] Suc.hyps(2) i(2) by fastforce
  ultimately show ?case by (subst Seek_linear.simps) simp
qed

text \<open>A search ends on the first key that is not less than the target.\<close>

lemma Block_Seek_ok:
  assumes "iter_ok it ts rs" "ts \<noteq> []" "sorted_wrt (\<lambda>s t. cmp (p_key s) (p_key t) < 0) ts"
    and "k \<le> length ts" "\<forall>m<k. cmp (p_key (ts ! m)) target < 0"
    and "k < length ts \<Longrightarrow> \<not> cmp (p_key (ts ! k)) target < 0"
  shows "\<exists>it'. Block_Seek cmp it target = Some it' \<and> bi_status it' = bi_status it \<and>
    (if k < length ts then at_entry it' ts rs k else \<not> Block_Valid it' \<and> iter_ok it' ts rs)"
proof -
  have w: "well_laid ts rs" using assms(1) by (simp add: iter_ok_def)
  have n: "bi_num_restarts it - 1 = of_nat (length rs - 1)"
    using of_nat_diff [of 1 "length rs", where ?'a = u32] restarts_okD(2) [OF w] assms(1) by (simp add: iter_ok_def Suc_le_eq)
  obtain j where j: "j < length rs" "Seek_binary cmp it target 0 (of_nat (length rs - 1)) = Some (Some (of_nat j))"
    "j = 0 \<or> cmp (p_key (ts ! (rs ! j))) target < 0"
    using Seek_binary_ok [OF assms(1,2), of 0 "length rs - 1" target] restarts_okD(2) [OF w] by auto
  have "rs ! j \<le> k"
  proof (cases "j = 0")
    case True
    then show ?thesis using restarts_okD(3) [OF w] by simp
  next
    case False
    then have lt: "cmp (p_key (ts ! (rs ! j))) target < 0" using j(3) by blast
    have r: "rs ! j < length ts" using restarts_okD(5) [OF w j(1) assms(2)] by simp
    show ?thesis
    proof (rule ccontr)
      assume "\<not> rs ! j \<le> k"
      then have k: "k < rs ! j" by simp
      then have "cmp (p_key (ts ! k)) (p_key (ts ! (rs ! j))) < 0"
        using assms(3) r by (simp add: sorted_wrt_iff_nth_less)
      from cmp_trans [OF this lt] show False using assms(6) k r by simp
    qed
  qed
  from Seek_linear_ok [OF SeekToRestartPoint_ok [OF assms(1) j(1)] this assms(4-6)]
  show ?thesis using j(2) by (simp add: Block_Seek_def n SeekToRestartPoint_def)
qed

end

definition ikey_rank :: "bytes \<Rightarrow> bytes \<times> int" where
  "ikey_rank k = (ExtractUserKey k, - uint (ExtractTag k))"

interpretation ikey: block_order InternalKey_Compare ikey_rank
proof
  show "InternalKey_Compare a b < 0 \<longleftrightarrow> ikey_rank a < ikey_rank b" for a b
    by (auto simp: InternalKey_Compare_neg ikey_rank_def word_less_def)
  show "InternalKey_Compare a b = 0 \<longleftrightarrow> ikey_rank a = ikey_rank b" for a b
    by (auto simp: InternalKey_Compare_def ikey_rank_def Let_def word_uint_eq_iff word_less_def)
qed

section \<open>What the builder writes\<close>

lemma common_prefix_take: "take (common_prefix a b) a = take (common_prefix a b) b"
  by (induction a b rule: common_prefix.induct) auto

lemma common_prefix_le: "common_prefix a b \<le> length a" "common_prefix a b \<le> length b"
  by (induction a b rule: common_prefix.induct) auto

lemma offset_snoc: "i \<le> length ts \<Longrightarrow> offset_of (ts @ [t]) i = offset_of ts i"
  by (simp add: offset_of_def)

lemma pieces_ok_snoc:
  assumes "pieces_ok ts" "p_shared t \<le> length (p_key t)" "p_shared t \<le> length (if ts = [] then [] else p_key (last ts))"
    and "take (p_shared t) (if ts = [] then [] else p_key (last ts)) = take (p_shared t) (p_key t)"
  shows "pieces_ok (ts @ [t])"
  unfolding pieces_ok_def
proof (intro allI impI)
  fix i assume "i < length (ts @ [t])"
  then consider "i < length ts" | "i = length ts" by fastforce
  then show "p_shared ((ts @ [t]) ! i) \<le> length (p_key ((ts @ [t]) ! i)) \<and>
     (case i of 0 \<Rightarrow> p_shared ((ts @ [t]) ! i) = 0
      | Suc j \<Rightarrow> p_shared ((ts @ [t]) ! i) \<le> length (p_key ((ts @ [t]) ! j)) \<and>
          take (p_shared ((ts @ [t]) ! i)) (p_key ((ts @ [t]) ! j)) = take (p_shared ((ts @ [t]) ! i)) (p_key ((ts @ [t]) ! i)))"
  proof cases
    case 1
    then show ?thesis using pieces_okD [OF assms(1)] by (cases i) (auto simp: nth_append)
  next
    case 2
    show ?thesis
    proof (cases ts rule: rev_cases)
      case Nil
      then show ?thesis using assms(2-4) 2 by simp
    next
      case (snoc us u)
      then have "i = Suc (length us)" "(ts @ [t]) ! length us = u" "(ts @ [t]) ! Suc (length us) = t" using 2 by (simp_all add: nth_append)
      then show ?thesis using assms(2-4) unfolding snoc by (simp del: append_assoc)
    qed
  qed
qed

definition builder_ok :: "BlockBuilder \<Rightarrow> piece list \<Rightarrow> nat list \<Rightarrow> bool" where
  "builder_ok b ts rs \<longleftrightarrow> bb_buffer b = concat (map piece_bytes ts) \<and>
     bb_restarts b = map (\<lambda>r. of_nat (offset_of ts r)) rs \<and> pieces_ok ts \<and> restarts_ok ts rs \<and>
     bb_last_key b = (if ts = [] then [] else p_key (last ts)) \<and> (ts = [] \<longrightarrow> bb_counter b = 0)"

lemma builder_ok_new: "builder_ok BlockBuilder_new [] [0]" "builder_ok (BlockBuilder_Reset b) [] [0]"
  by (simp_all add: builder_ok_def BlockBuilder_new_def BlockBuilder_Reset_def pieces_ok_def restarts_ok_def offset_of_def)

lemma builder_ok_Add:
  assumes "builder_ok b ts rs" "0 < interval"
  shows "\<exists>n rs'. builder_ok (BlockBuilder_Add interval b key v) (ts @ [(n, key, v)]) rs'"
proof -
  have b: "bb_buffer b = concat (map piece_bytes ts)" "bb_restarts b = map (\<lambda>r. of_nat (offset_of ts r)) rs"
    "pieces_ok ts" "restarts_ok ts rs" "bb_last_key b = (if ts = [] then [] else p_key (last ts))" "ts = [] \<longrightarrow> bb_counter b = 0"
    using assms(1) by (simp_all add: builder_ok_def)
  have rs: "\<forall>r\<in>set rs. r \<le> length ts" "rs \<noteq> []" "hd rs = 0" using b(4) by (auto simp: restarts_ok_def)
  have keep: "map (\<lambda>r. of_nat (offset_of (ts @ [t]) r) :: u32) rs = bb_restarts b" for t
    unfolding b(2) using rs(1) by (intro map_cong) (simp_all add: offset_snoc)
  show ?thesis
  proof (cases "bb_counter b < interval")
    case True
    define n where "n = common_prefix (bb_last_key b) key"
    have n: "n \<le> length key" "n \<le> length (bb_last_key b)" "take n (bb_last_key b) = take n key"
      unfolding n_def by (rule common_prefix_le common_prefix_take)+
    have "restarts_ok (ts @ [(n, key, v)]) rs"
      using b(4) n(2) b(5) by (cases "ts = []") (fastforce simp: restarts_ok_def nth_append)+
    moreover have "pieces_ok (ts @ [(n, key, v)])"
      using b(3) n unfolding b(5) by (intro pieces_ok_snoc) simp_all
    ultimately have "builder_ok (BlockBuilder_Add interval b key v) (ts @ [(n, key, v)]) rs"
      using True n(3) keep b(1)
      by (simp add: builder_ok_def BlockBuilder_Add_def n_def [symmetric] piece_bytes_def piece_header_def PutVarint32_def)
    then show ?thesis by blast
  next
    case False
    then have ts: "ts \<noteq> []" using b(6) assms(2) by auto
    then have "\<forall>r\<in>set rs. r < length ts \<and> p_shared (ts ! r) = 0" using b(4) by (auto simp: restarts_ok_def)
    then have "restarts_ok (ts @ [(0, key, v)]) (rs @ [length ts])"
      using b(4) by (auto simp: restarts_ok_def sorted_wrt_append nth_append)
    moreover have "pieces_ok (ts @ [(0, key, v)])" using b(3) by (intro pieces_ok_snoc) simp_all
    moreover have "offset_of (ts @ [(0, key, v)]) (length ts) = length (bb_buffer b)" by (simp add: offset_of_def b(1))
    ultimately have "builder_ok (BlockBuilder_Add interval b key v) (ts @ [(0, key, v)]) (rs @ [length ts])"
      using False keep b(1)
      by (simp add: builder_ok_def BlockBuilder_Add_def piece_bytes_def piece_header_def PutVarint32_def)
    then show ?thesis by blast
  qed
qed

abbreviation Add_all :: "nat \<Rightarrow> BlockBuilder \<Rightarrow> (bytes \<times> bytes) list \<Rightarrow> BlockBuilder" where
  "Add_all interval b kvs \<equiv> foldl (\<lambda>b (k, v). BlockBuilder_Add interval b k v) b kvs"

lemma builder_ok_Add_all:
  assumes "builder_ok b ts rs" "0 < interval"
  shows "\<exists>ts' rs'. builder_ok (Add_all interval b kvs) ts' rs' \<and> map snd ts' = map snd ts @ kvs"
  using assms(1)
proof (induction kvs arbitrary: b ts rs)
  case Nil
  then show ?case by auto
next
  case (Cons kv kvs)
  obtain n rs1 where "builder_ok (BlockBuilder_Add interval b (fst kv) (snd kv)) (ts @ [(n, kv)]) rs1"
    using builder_ok_Add [OF Cons.prems assms(2), of "fst kv" "snd kv"] by auto
  from Cons.IH [OF this] show ?case by (auto simp: case_prod_beta)
qed

lemma Finish_ok:
  assumes "builder_ok b ts rs"
  shows "snd (BlockBuilder_Finish b) = block_bytes ts rs"
proof -
  have "foldl PutFixed32 z rs = z @ concat (map EncodeFixed32 rs)" for z rs
    by (induction rs arbitrary: z) (simp_all add: PutFixed32_def)
  then show ?thesis
    using assms by (simp add: builder_ok_def BlockBuilder_Finish_def Let_def block_bytes_def PutFixed32_def comp_def)
qed

lemma ucast_u32_of_nat: "n < 2 ^ 32 \<Longrightarrow> (ucast (of_nat n :: u32) :: u64) = of_nat n"
proof -
  assume "n < 2 ^ 32"
  then have "unat (of_nat n :: u32) = n" by (simp add: unat_of_nat take_bit_nat_eq_self)
  then show ?thesis by (metis of_nat_unat)
qed

lemma ucast_u64_of_nat: "n < 2 ^ 64 \<Longrightarrow> (ucast (of_nat n :: u64) :: u32) = of_nat n"
proof -
  assume "n < 2 ^ 64"
  then have "unat (of_nat n :: u64) = n" by (simp add: unat_of_nat take_bit_nat_eq_self)
  then show ?thesis by (metis of_nat_unat)
qed

lemma Block_opens:
  assumes "well_laid ts rs"
  shows "\<exists>it. Block_NewIterator (Block_new (block_bytes ts rs)) = (Some it, True) \<and> iter_ok it ts rs \<and> bi_status it"
proof -
  let ?c = "block_bytes ts rs" and ?n = "end_of ts + 4 * length rs + 4"
  have r: "0 < length rs" using restarts_okD(2) [OF assms] .
  have lt: "?n < 2 ^ 32" using assms by (simp add: well_laid_def length_block)
  have sz: "unat (of_nat ?n :: u64) = ?n" using lt by (simp add: unat_of_nat take_bit_nat_eq_self del: of_nat_add of_nat_mult)
  have sz4: "unat ((of_nat ?n :: u64) - 4) = end_of ts + 4 * length rs"
    using sz by (subst unat_sub) (simp_all add: word_le_nat_alt del: of_nat_add of_nat_mult)
  from this have num: "NumRestarts ?c (of_nat ?n) = of_nat (length rs)"
    by (simp add: NumRestarts_def block_bytes_def offset_of_def drop_append length_restarts del: of_nat_add of_nat_mult)
  have "(of_nat ?n :: u64) - ucast (1 + of_nat (length rs) :: u32) * 4 = of_nat (end_of ts)"
  proof -
    have "(1 + of_nat (length rs) :: u32) = of_nat (length rs + 1)" by simp
    moreover have "(ucast (of_nat (length rs + 1) :: u32) :: u64) = of_nat (length rs + 1)"
      using lt by (intro ucast_u32_of_nat) simp
    ultimately show ?thesis by (simp add: algebra_simps)
  qed
  moreover have "(ucast (of_nat (end_of ts) :: u64) :: u32) = of_nat (end_of ts)" using lt by (intro ucast_u64_of_nat) simp
  moreover have ge: "8 \<le> ?n" using r by linarith
  have "\<not> (of_nat ?n :: u64) < 8" "\<not> (of_nat ?n :: u64) < 4"
    using sz ge by (simp_all add: word_less_nat_alt del: of_nat_add of_nat_mult)
  moreover have "\<not> (ucast (of_nat (end_of ts) :: u32) :: u64) > of_nat ?n - 4"
  proof -
    have "(ucast (of_nat (end_of ts) :: u32) :: u64) = of_nat (end_of ts)" using lt by (intro ucast_u32_of_nat) simp
    moreover have "unat (of_nat (end_of ts) :: u64) = end_of ts" using lt by (simp add: unat_of_nat take_bit_nat_eq_self)
    ultimately show ?thesis using sz4 by (simp add: word_less_nat_alt not_less)
  qed
  moreover have "length ?c = ?n" by (rule length_block)
  moreover have "(of_nat (length rs) :: u32) \<noteq> 0"
    using laid_words(2) [OF assms, of "length rs"] r by auto
  ultimately have "Block_NewIterator (Block_new ?c) = (Some (Block_Iter_new ?c (of_nat (end_of ts)) (of_nat (length rs))), True)"
    using num by (simp add: Block_new_def Block_NewIterator_def Let_def del: of_nat_add of_nat_mult)
  then show ?thesis using assms by (simp add: iter_ok_def Block_Iter_new_def)
qed

section \<open>A block read back\<close>

text \<open>The entries from a position on, at most \<open>n\<close> of them, and those before it.\<close>

fun entries_from :: "nat \<Rightarrow> Block_Iter \<Rightarrow> (bytes \<times> bytes) list option" where
  "entries_from 0 it = (if Block_Valid it then None else Some [])"
| "entries_from (Suc n) it =
     (if Block_Valid it
      then Option.bind (Block_Next it) (\<lambda>it'. map_option ((#) (bi_key it, Block_value it)) (entries_from n it'))
      else Some [])"

fun entries_back :: "nat \<Rightarrow> Block_Iter \<Rightarrow> (bytes \<times> bytes) list option" where
  "entries_back 0 it = (if Block_Valid it then None else Some [])"
| "entries_back (Suc n) it =
     (if Block_Valid it
      then Option.bind (Block_Prev it) (\<lambda>it'. map_option ((#) (bi_key it, Block_value it)) (entries_back n it'))
      else Some [])"

lemma entries_from_ok:
  assumes "at_entry it ts rs i" "length ts \<le> n + i"
  shows "entries_from n it = Some (map snd (drop i ts))"
  using assms
proof (induction n arbitrary: it i)
  case 0
  then show ?case by (simp add: at_entry_def)
next
  case (Suc n)
  have i: "i < length ts" and kv: "bi_key it = p_key (ts ! i)" "Block_value it = p_val (ts ! i)"
    using Suc.prems(1) by (simp_all add: at_entry_def)
  have d: "map snd (drop i ts) = (bi_key it, Block_value it) # map snd (drop (Suc i) ts)"
    using i kv by (simp add: Cons_nth_drop_Suc [symmetric])
  consider "Suc i < length ts" | "Suc i = length ts" using i by linarith
  then show ?case
  proof cases
    case 1
    obtain it' where N: "Block_Next it = Some it'" "at_entry it' ts rs (Suc i)" using Block_Next_ok(1) [OF Suc.prems(1) 1] by blast
    then show ?thesis using Suc.IH [OF N(2)] Suc.prems(2) d Block_Valid_at [OF Suc.prems(1)] by simp
  next
    case 2
    obtain it' where N: "Block_Next it = Some it'" "\<not> Block_Valid it'" using Block_Next_ok(2) [OF Suc.prems(1) 2] by blast
    then have "entries_from n it' = Some []" by (cases n) simp_all
    then show ?thesis using N d 2 Block_Valid_at [OF Suc.prems(1)] by simp
  qed
qed

lemma entries_back_ok:
  assumes "at_entry it ts rs i" "i < n"
  shows "entries_back n it = Some (rev (map snd (take (Suc i) ts)))"
  using assms
proof (induction n arbitrary: it i)
  case (Suc n)
  have i: "i < length ts" and kv: "bi_key it = p_key (ts ! i)" "Block_value it = p_val (ts ! i)"
    using Suc.prems(1) by (simp_all add: at_entry_def)
  have d: "rev (map snd (take (Suc i) ts)) = (bi_key it, Block_value it) # rev (map snd (take i ts))"
    using i kv by (simp add: take_Suc_conv_app_nth)
  show ?case
  proof (cases "i = 0")
    case False
    then obtain it' where N: "Block_Prev it = Some it'" "at_entry it' ts rs (i - 1)" using Block_Prev_ok(1) [OF Suc.prems(1)] by blast
    have "entries_back n it' = Some (rev (map snd (take i ts)))" using Suc.IH [OF N(2)] False Suc.prems(2) by simp
    then show ?thesis using N(1) d Block_Valid_at [OF Suc.prems(1)] by simp
  next
    case True
    then obtain it' where N: "Block_Prev it = Some it'" "\<not> Block_Valid it'" using Block_Prev_ok(2) [OF Suc.prems(1)] by blast
    then have "entries_back n it' = Some []" by (cases n) simp_all
    then show ?thesis using N(1) d True Block_Valid_at [OF Suc.prems(1)] by simp
  qed
qed simp

text \<open>C35: The block that the builder finishes after entries were added opens as a block, and iterates
  to exactly these entries, forward from the first and backward from the last, for every restart
  interval. Where the keys ascend in the order of internal keys, a search ends, and from where it
  ends on there are the entries whose keys are not less than the target.\<close>
theorem block_reads_back:
  assumes "0 < interval" "kvs \<noteq> []" "length (snd (BlockBuilder_Finish (Add_all interval BlockBuilder_new kvs))) < 2 ^ 32"
  shows "\<exists>it. Block_NewIterator (Block_new (snd (BlockBuilder_Finish (Add_all interval BlockBuilder_new kvs)))) = (Some it, True) \<and>
    Option.bind (Block_SeekToFirst it) (entries_from (length kvs)) = Some kvs \<and>
    Option.bind (Block_SeekToLast it) (entries_back (length kvs)) = Some (rev kvs) \<and>
    (sorted_wrt (\<lambda>a b. InternalKey_Compare (fst a) (fst b) < 0) kvs \<longrightarrow>
       Option.bind (Block_Seek InternalKey_Compare it target) (entries_from (length kvs)) =
         Some (dropWhile (\<lambda>kv. InternalKey_Compare (fst kv) target < 0) kvs))"
proof -
  obtain ts rs where B: "builder_ok (Add_all interval BlockBuilder_new kvs) ts rs" "map snd ts = kvs"
    using builder_ok_Add_all [OF builder_ok_new(1) assms(1), of kvs] by auto
  have len: "length ts = length kvs" "ts \<noteq> []" using B(2) assms(2) by auto
  have "well_laid ts rs" using B(1) assms(3) unfolding Finish_ok [OF B(1)] by (simp add: well_laid_def builder_ok_def)
  from Block_opens [OF this] obtain it
    where it: "Block_NewIterator (Block_new (block_bytes ts rs)) = (Some it, True)" "iter_ok it ts rs" by blast
  obtain it1 where F: "Block_SeekToFirst it = Some it1" "at_entry it1 ts rs 0" using Block_SeekToFirst_ok [OF it(2) len(2)] by blast
  obtain it2 where L: "Block_SeekToLast it = Some it2" "at_entry it2 ts rs (length ts - 1)"
    using Block_SeekToLast_ok [OF it(2) len(2)] by blast
  have seek: "Option.bind (Block_Seek InternalKey_Compare it target) (entries_from (length kvs)) =
      Some (dropWhile (\<lambda>kv. InternalKey_Compare (fst kv) target < 0) kvs)"
    if "sorted_wrt (\<lambda>a b. InternalKey_Compare (fst a) (fst b) < 0) kvs"
  proof -
    let ?P = "\<lambda>t. InternalKey_Compare (p_key t) target < 0"
    let ?k = "length (takeWhile ?P ts)"
    have s: "sorted_wrt (\<lambda>s t. InternalKey_Compare (p_key s) (p_key t) < 0) ts"
      using that unfolding B(2) [symmetric] by (simp add: sorted_wrt_map)
    have k: "?k \<le> length ts" "\<forall>m<?k. ?P (ts ! m)" "?k < length ts \<Longrightarrow> \<not> ?P (ts ! ?k)"
      using length_takeWhile_le set_takeWhileD nth_length_takeWhile by (fastforce simp: takeWhile_nth dest: nth_mem)+
    have d: "map snd (drop ?k ts) = dropWhile (\<lambda>kv. InternalKey_Compare (fst kv) target < 0) kvs"
      unfolding B(2) [symmetric] dropWhile_eq_drop [symmetric] by (simp add: dropWhile_map comp_def)
    obtain it' where S: "Block_Seek InternalKey_Compare it target = Some it'"
      "if ?k < length ts then at_entry it' ts rs ?k else \<not> Block_Valid it' \<and> iter_ok it' ts rs"
      using ikey.Block_Seek_ok [OF it(2) len(2) s k] by blast
    show ?thesis
    proof (cases "?k < length ts")
      case True
      then show ?thesis using S entries_from_ok [of it' ts rs ?k "length kvs"] d len(1) by simp
    next
      case False
      then have "entries_from (length kvs) it' = Some []" using S(2) by (cases "length kvs") simp_all
      then show ?thesis using S(1) d False by simp
    qed
  qed
  show ?thesis
    unfolding Finish_ok [OF B(1)] using it(1) F L seek entries_from_ok [OF F(2), of "length kvs"]
      entries_back_ok [OF L(2), of "length kvs"] len B(2) assms(2) by auto
qed

theorem block_reads_back_witness:
  defines "kvs \<equiv> [([1, 2, 3], [5]), ([1, 2, 4], [])]"
  shows "\<exists>it. Block_NewIterator (Block_new (snd (BlockBuilder_Finish (Add_all 2 BlockBuilder_new kvs)))) = (Some it, True) \<and>
    Option.bind (Block_SeekToFirst it) (entries_from (length kvs)) = Some kvs"
proof -
  have "length (snd (BlockBuilder_Finish (Add_all 2 BlockBuilder_new kvs))) < 2 ^ 32"
    by (simp add: kvs_def BlockBuilder_Add_def BlockBuilder_Finish_def BlockBuilder_new_def Let_def PutVarint32_def
        PutFixed32_def EncodeVarint32_def)
  from block_reads_back [of 2 kvs, OF _ _ this] show ?thesis by (auto simp: kvs_def)
qed

end
