(* ===== verification/Filter_Block.thy ===== *)
theory Filter_Block
  imports Dbformat Hashing
begin

text \<open>
  Filters that spare reads of table blocks: the Bloom filter policy (\<^verbatim>\<open>util/bloom.cc\<close>), its wrapper for
  internal keys (\<^verbatim>\<open>db/dbformat.cc\<close>) and the filter block of a table (\<^verbatim>\<open>table/filter_block.cc\<close>), with one
  filter for every 2048 bytes of block offsets.
  \<^item> \<open>bits_per_key\<close> is a natural number; the product with 0.69, which the code computes in floating
    point, is rounded down as a fraction. For all results up to the bound 30 this is the same.
  \<^item> The filter policy of the block is given by the functions \<open>create\<close> and \<open>may_match\<close>.
  \<^item> The counter \<^verbatim>\<open>num_filter_hit\<close> is left out.
  The locale \<open>filter_policy\<close> is what the filter block relies on: no key of the filter is denied.
\<close>

unbundle bit_operations_syntax

section \<open>Bloom filters\<close>

definition BloomHash :: "bytes \<Rightarrow> u32" where
  "BloomHash key = Hash key 0xbc9f1d34"

record BloomFilterPolicy =
  bf_bits_per_key :: u64
  bf_k :: u64

definition BloomFilterPolicy_new :: "nat \<Rightarrow> BloomFilterPolicy" where
  "BloomFilterPolicy_new bits_per_key =
     (let k = bits_per_key * 69 div 100;
          k = (if k < 1 then 1 else k);
          k = (if k > 30 then 30 else k)
      in \<lparr>bf_bits_per_key = of_nat bits_per_key, bf_k = of_nat k\<rparr>)"

definition rotate_right_17 :: "u32 \<Rightarrow> u32" where
  "rotate_right_17 h = drop_bit 17 h OR push_bit 15 h"

fun set_probes :: "nat \<Rightarrow> u64 \<Rightarrow> u32 \<Rightarrow> u32 \<Rightarrow> bytes \<Rightarrow> bytes" where
  "set_probes 0 bits h delta array = array"
| "set_probes (Suc j) bits h delta array =
     (let bitpos = ucast (ucast h mod bits) :: u32;
          i = unat (bitpos div 8)
      in set_probes j bits (h + delta) delta (array[i := array ! i OR push_bit (unat (bitpos mod 8)) 1]))"

definition Bloom_CreateFilter :: "BloomFilterPolicy \<Rightarrow> bytes list \<Rightarrow> bytes \<Rightarrow> bytes" where
  "Bloom_CreateFilter p keys dst =
     (let bits = of_nat (length keys) * bf_bits_per_key p;
          bits = (if bits < 64 then 64 else bits);
          num_bytes = (bits + 7) div 8;
          bits = num_bytes * 8;
          array = foldl (\<lambda>array key. let h = BloomHash key in set_probes (unat (bf_k p)) bits h (rotate_right_17 h) array)
            (replicate (unat num_bytes) 0) keys
      in dst @ array @ [ucast (bf_k p)])"

fun check_probes :: "nat \<Rightarrow> u64 \<Rightarrow> u32 \<Rightarrow> u32 \<Rightarrow> bytes \<Rightarrow> bool" where
  "check_probes 0 bits h delta array = True"
| "check_probes (Suc j) bits h delta array =
     (let bitpos = ucast (ucast h mod bits) :: u32
      in if array ! unat (bitpos div 8) AND push_bit (unat (bitpos mod 8)) 1 = 0 then False
         else check_probes j bits (h + delta) delta array)"

definition Bloom_KeyMayMatch :: "bytes \<Rightarrow> bytes \<Rightarrow> bool" where
  "Bloom_KeyMayMatch key bloom_filter =
     (let len = length bloom_filter
      in if len < 2 then False
         else
           (let bits = (of_nat len - 1) * 8 :: u64;
                k = scast (bloom_filter ! (len - 1)) :: u64
            in if k > 30 then True
               else (let h = BloomHash key in check_probes (unat k) bits h (rotate_right_17 h) bloom_filter)))"

definition InternalFilter_CreateFilter :: "(bytes list \<Rightarrow> bytes \<Rightarrow> bytes) \<Rightarrow> bytes list \<Rightarrow> bytes \<Rightarrow> bytes" where
  "InternalFilter_CreateFilter user_create keys dst = user_create (map ExtractUserKey keys) dst"

definition InternalFilter_KeyMayMatch :: "(bytes \<Rightarrow> bytes \<Rightarrow> bool) \<Rightarrow> bytes \<Rightarrow> bytes \<Rightarrow> bool" where
  "InternalFilter_KeyMayMatch user_may_match key f = user_may_match (ExtractUserKey key) f"

section \<open>The filter block\<close>

definition kFilterBaseLg :: nat where "kFilterBaseLg = 11"

definition kFilterBase :: u64 where "kFilterBase = push_bit kFilterBaseLg 1"

record FilterBlockBuilder =
  fb_keys :: bytes
  fb_start :: "nat list"
  fb_result :: bytes
  fb_filter_offsets :: "u32 list"

definition FilterBlockBuilder_new :: FilterBlockBuilder where
  "FilterBlockBuilder_new = \<lparr>fb_keys = [], fb_start = [], fb_result = [], fb_filter_offsets = []\<rparr>"

definition GenerateFilter :: "(bytes list \<Rightarrow> bytes \<Rightarrow> bytes) \<Rightarrow> FilterBlockBuilder \<Rightarrow> FilterBlockBuilder" where
  "GenerateFilter create b =
     (let num_keys = length (fb_start b)
      in if num_keys = 0 then b\<lparr>fb_filter_offsets := fb_filter_offsets b @ [of_nat (length (fb_result b))]\<rparr>
         else
           (let start = fb_start b @ [length (fb_keys b)];
                tmp_keys = map (\<lambda>i. take (start ! (i + 1) - start ! i) (drop (start ! i) (fb_keys b))) [0..<num_keys]
            in b\<lparr>fb_filter_offsets := fb_filter_offsets b @ [of_nat (length (fb_result b))],
                 fb_result := create tmp_keys (fb_result b), fb_keys := [], fb_start := []\<rparr>))"

lemma length_GenerateFilter [simp]:
  "length (fb_filter_offsets (GenerateFilter create b)) = Suc (length (fb_filter_offsets b))"
  by (simp add: GenerateFilter_def Let_def)

function generate_until :: "(bytes list \<Rightarrow> bytes \<Rightarrow> bytes) \<Rightarrow> nat \<Rightarrow> FilterBlockBuilder \<Rightarrow> FilterBlockBuilder" where
  "generate_until create filter_index b =
     (if filter_index > length (fb_filter_offsets b) then generate_until create filter_index (GenerateFilter create b) else b)"
  by pat_completeness auto
termination
  by (relation "measure (\<lambda>(create, filter_index, b). filter_index - length (fb_filter_offsets b))") auto

declare generate_until.simps [simp del]

definition StartBlock :: "(bytes list \<Rightarrow> bytes \<Rightarrow> bytes) \<Rightarrow> FilterBlockBuilder \<Rightarrow> u64 \<Rightarrow> FilterBlockBuilder" where
  "StartBlock create b block_offset = generate_until create (unat (block_offset div kFilterBase)) b"

definition AddKey :: "FilterBlockBuilder \<Rightarrow> bytes \<Rightarrow> FilterBlockBuilder" where
  "AddKey b key = b\<lparr>fb_start := fb_start b @ [length (fb_keys b)], fb_keys := fb_keys b @ key\<rparr>"

definition FilterBlock_Finish :: "(bytes list \<Rightarrow> bytes \<Rightarrow> bytes) \<Rightarrow> FilterBlockBuilder \<Rightarrow> bytes" where
  "FilterBlock_Finish create b =
     (let b = (if fb_start b \<noteq> [] then GenerateFilter create b else b);
          array_offset = of_nat (length (fb_result b)) :: u32;
          result = foldl PutFixed32 (fb_result b) (fb_filter_offsets b);
          result = PutFixed32 result array_offset
      in result @ [of_nat kFilterBaseLg])"

record FilterBlockReader =
  fr_data :: bytes
  fr_offset :: nat
  fr_num :: nat
  fr_base_lg :: u64

definition FilterBlockReader_new :: "bytes \<Rightarrow> FilterBlockReader" where
  "FilterBlockReader_new contents =
     (let n = length contents
      in if n < 5 then \<lparr>fr_data = [], fr_offset = 0, fr_num = 0, fr_base_lg = 0\<rparr>
         else
           (let base_lg = scast (contents ! (n - 1));
                last_word = DecodeFixed32 (drop (n - 5) contents)
            in if unat last_word > n - 5 then \<lparr>fr_data = [], fr_offset = 0, fr_num = 0, fr_base_lg = base_lg\<rparr>
               else \<lparr>fr_data = contents, fr_offset = unat last_word, fr_num = (n - 5 - unat last_word) div 4,
                      fr_base_lg = base_lg\<rparr>))"

definition FilterBlock_KeyMayMatch :: "(bytes \<Rightarrow> bytes \<Rightarrow> bool) \<Rightarrow> FilterBlockReader \<Rightarrow> u64 \<Rightarrow> bytes \<Rightarrow> bool" where
  "FilterBlock_KeyMayMatch may_match r block_offset key =
     (let index = unat (drop_bit (unat (fr_base_lg r)) block_offset)
      in if index < fr_num r then
           (let start = DecodeFixed32 (drop (fr_offset r + index * 4) (fr_data r));
                limit = DecodeFixed32 (drop (fr_offset r + index * 4 + 4) (fr_data r))
            in if start \<le> limit \<and> unat limit \<le> fr_offset r
               then may_match key (take (unat (limit - start)) (drop (unat start) (fr_data r)))
               else if start = limit then False
               else True)
         else True)"

section \<open>A Bloom filter denies none of its keys\<close>

definition bits_le :: "bytes \<Rightarrow> bytes \<Rightarrow> bool" where
  "bits_le a a' \<longleftrightarrow> length a' = length a \<and> (\<forall>i<length a. \<forall>n. bit (a ! i) n \<longrightarrow> bit (a' ! i) n)"

lemma bits_le_refl [simp]: "bits_le a a"
  by (simp add: bits_le_def)

lemma bits_le_trans: "bits_le a b \<Longrightarrow> bits_le b c \<Longrightarrow> bits_le a c"
  by (simp add: bits_le_def)

lemma bits_le_set: "bits_le a (a[i := a ! i OR x])"
  by (cases "i < length a") (auto simp: bits_le_def nth_list_update bit_simps list_update_beyond)

lemma set_probes_le: "bits_le a (set_probes j bits h delta a)"
proof (induction j arbitrary: h a)
  case (Suc j)
  then show ?case using bits_le_set bits_le_trans by (fastforce simp: Let_def)
qed simp

lemma probe_index:
  fixes h :: u32 and bits :: u64
  assumes "unat bits = 8 * len" "0 < len"
  shows "unat ((ucast (ucast h mod bits) :: u32) div 8) < len" "unat ((ucast (ucast h mod bits) :: u32) mod 8) < 8"
proof -
  have "unat (ucast h mod bits :: u64) < 8 * len" using assms by (simp add: unat_mod)
  moreover have "unat (ucast (ucast h mod bits :: u64) :: u32) \<le> unat (ucast h mod bits :: u64)"
    by (simp add: unsigned_ucast_eq take_bit_nat_less_eq_self)
  ultimately have "unat (ucast (ucast h mod bits :: u64) :: u32) < 8 * len" by linarith
  then show "unat ((ucast (ucast h mod bits) :: u32) div 8) < len" by (simp add: unat_div less_mult_imp_div_less mult.commute)
  show "unat ((ucast (ucast h mod bits) :: u32) mod 8) < 8" by (simp add: unat_mod)
qed

lemma check_probes_mono:
  assumes "check_probes j bits h delta (a @ z)" "bits_le a a'" "unat bits = 8 * length a" "0 < length a"
  shows "check_probes j bits h delta (a' @ z')"
  using assms(1)
proof (induction j arbitrary: h)
  case (Suc j)
  note I = probe_index(1) [OF assms(3,4), of h]
  have "length a' = length a" using assms(2) by (simp add: bits_le_def)
  then show ?case
    using Suc assms(2) I by (auto simp: Let_def nth_append bits_le_def bit_iff_and_push_bit_not_eq_0 split: if_splits)
qed simp

lemma check_set_probes:
  assumes "unat bits = 8 * length a" "0 < length a"
  shows "check_probes j bits h delta (set_probes j bits h delta a @ z)"
  using assms
proof (induction j arbitrary: h a)
  case (Suc j)
  let ?p = "ucast (ucast h mod bits) :: u32"
  let ?i = "unat (?p div 8)" and ?n = "unat (?p mod 8)"
  note I = probe_index [OF Suc.prems, of h]
  let ?a = "a[?i := a ! ?i OR push_bit ?n 1]"
  have "bit (?a ! ?i) ?n" using I by (simp add: bit_simps)
  moreover have le: "bits_le ?a (set_probes j bits (h + delta) delta ?a)" by (rule set_probes_le)
  ultimately have "bit ((set_probes j bits (h + delta) delta ?a @ z) ! ?i) ?n"
    using I(1) unfolding bits_le_def by (simp add: nth_append)
  moreover have "check_probes j bits (h + delta) delta (set_probes j bits (h + delta) delta ?a @ z)"
    using Suc.IH [of ?a "h + delta"] Suc.prems by simp
  ultimately show ?case by (simp add: Let_def bit_iff_and_push_bit_not_eq_0)
qed simp

lemma small_scast:
  assumes "m \<le> 30"
  shows "(scast (ucast (of_nat m :: u64) :: byte) :: u64) = of_nat m"
proof -
  have "unat (of_nat m :: u64) = m" using assms by (simp add: unat_of_nat take_bit_nat_eq_self)
  then have u: "(ucast (of_nat m :: u64) :: byte) = of_nat m" by (metis of_nat_unat)
  have "sint (of_nat m :: byte) = int m"
    using assms by (simp add: sint_uint unsigned_of_nat take_bit_nat_eq_self signed_take_bit_int_eq_self)
  then show ?thesis unfolding u by (metis of_int_of_nat_eq of_int_sint)
qed

lemma word_of_unat: "unat (w :: 'a :: len word) = m \<Longrightarrow> w = of_nat m"
  by auto

lemma round_bits:
  fixes b :: u64
  assumes "unat b = m" "m + 7 < 2 ^ 64"
  shows "unat ((b + 7) div 8) = (m + 7) div 8" "(b + 7) div 8 * 8 = of_nat ((m + 7) div 8 * 8)"
    "unat ((b + 7) div 8 * 8) = 8 * ((m + 7) div 8)"
proof -
  have "b + 7 = of_nat (m + 7)" using word_of_unat [OF assms(1)] by simp
  then have "unat (b + 7) = m + 7" using assms(2) by (simp add: unat_of_nat take_bit_nat_eq_self del: of_nat_add)
  then show len: "unat ((b + 7) div 8) = (m + 7) div 8" by (simp add: unat_div)
  then have "(b + 7) div 8 = of_nat ((m + 7) div 8)" by (rule word_of_unat)
  then show bits: "(b + 7) div 8 * 8 = of_nat ((m + 7) div 8 * 8)" by (simp only: of_nat_mult of_nat_numeral)
  show "unat ((b + 7) div 8 * 8) = 8 * ((m + 7) div 8)"
    unfolding bits using assms(2) by (simp add: unat_of_nat take_bit_nat_eq_self del: of_nat_mult)
qed

lemma Bloom_filter_bits:
  assumes "length keys * n + 7 < 2 ^ 64"
  shows "\<exists>len (bits :: u64). 0 < len \<and> unat bits = 8 * len \<and> (of_nat len * 8 :: u64) = bits \<and>
    Bloom_CreateFilter (BloomFilterPolicy_new n) keys dst = dst @
      foldl (\<lambda>array key. set_probes (unat (bf_k (BloomFilterPolicy_new n))) bits (BloomHash key)
          (rotate_right_17 (BloomHash key)) array) (replicate len 0) keys @
      [ucast (bf_k (BloomFilterPolicy_new n))]"
proof -
  define b0 :: u64 where "b0 = of_nat (length keys) * bf_bits_per_key (BloomFilterPolicy_new n)"
  define b where "b = (if b0 < 64 then 64 else b0)"
  have "b0 = of_nat (length keys * n)" by (simp add: b0_def BloomFilterPolicy_new_def Let_def)
  then have "unat b0 = length keys * n"
    using assms by (simp add: unat_of_nat take_bit_nat_eq_self del: of_nat_mult)
  then have b: "unat b = max 64 (length keys * n)" by (simp add: b_def word_less_nat_alt max_def)
  have "max 64 (length keys * n) + 7 < 2 ^ 64" using assms by simp
  note R = round_bits [OF b this]
  have "Bloom_CreateFilter (BloomFilterPolicy_new n) keys dst = dst @
      foldl (\<lambda>array key. set_probes (unat (bf_k (BloomFilterPolicy_new n))) ((b + 7) div 8 * 8) (BloomHash key)
          (rotate_right_17 (BloomHash key)) array) (replicate (unat ((b + 7) div 8)) 0) keys @
      [ucast (bf_k (BloomFilterPolicy_new n))]"
    unfolding Bloom_CreateFilter_def Let_def b_def b0_def by (rule refl)
  moreover have "0 < (max 64 (length keys * n) + 7) div 8" by simp
  moreover have "(of_nat ((max 64 (length keys * n) + 7) div 8) * 8 :: u64) = (b + 7) div 8 * 8"
    unfolding R(2) by (simp only: of_nat_mult of_nat_numeral)
  ultimately show ?thesis
    by (intro exI [of _ "(max 64 (length keys * n) + 7) div 8"] exI [of _ "(b + 7) div 8 * 8"] conjI)
      (simp_all only: R(1,3))
qed

lemma Bloom_probes:
  assumes "k \<in> set keys" "0 < length a" "unat bits = 8 * length a"
  shows "check_probes j bits (BloomHash k) (rotate_right_17 (BloomHash k))
    (foldl (\<lambda>array key. set_probes j bits (BloomHash key) (rotate_right_17 (BloomHash key)) array) a keys @ z)"
proof -
  let ?f = "\<lambda>array key. set_probes j bits (BloomHash key) (rotate_right_17 (BloomHash key)) array"
  have le: "bits_le a (foldl ?f a ks)" for a ks
    by (induction ks arbitrary: a) (auto intro: bits_le_trans [OF set_probes_le])
  obtain xs ys where keys: "keys = xs @ k # ys" using split_list [OF assms(1)] by blast
  have len: "length (foldl ?f a xs) = length a" using le [of a xs] by (simp add: bits_le_def)
  let ?a = "foldl ?f a xs"
  have fa: "length (?f ?a k) = length a" using set_probes_le [of ?a j bits] len by (simp add: bits_le_def)
  have "check_probes j bits (BloomHash k) (rotate_right_17 (BloomHash k)) (?f ?a k @ z)"
    using check_set_probes [of bits ?a] assms(2,3) len by simp
  then have "check_probes j bits (BloomHash k) (rotate_right_17 (BloomHash k)) (foldl ?f (?f ?a k) ys @ z)"
    by (rule check_probes_mono [OF _ le]) (use fa assms(2,3) in simp_all)
  then show ?thesis by (simp add: keys)
qed

lemma bloom_k: "\<exists>m. 1 \<le> m \<and> m \<le> 30 \<and> bf_k (BloomFilterPolicy_new n) = of_nat m"
  by (rule exI [of _ "max 1 (min 30 (n * 69 div 100))"]) (auto simp: BloomFilterPolicy_new_def Let_def)

lemma Bloom_no_false_negative:
  assumes "k \<in> set keys" "length keys * n + 7 < 2 ^ 64"
  shows "Bloom_KeyMayMatch k (Bloom_CreateFilter (BloomFilterPolicy_new n) keys [])"
proof -
  let ?k = "bf_k (BloomFilterPolicy_new n)"
  obtain m where m: "m \<le> 30" "?k = of_nat m" using bloom_k by blast
  obtain len and bits :: u64 where L: "0 < len" "unat bits = 8 * len" "of_nat len * 8 = bits"
    and F: "Bloom_CreateFilter (BloomFilterPolicy_new n) keys [] =
      foldl (\<lambda>array key. set_probes (unat ?k) bits (BloomHash key)
          (rotate_right_17 (BloomHash key)) array) (replicate len 0) keys @ [ucast ?k]" (is "_ = ?a @ _")
    using Bloom_filter_bits [OF assms(2), of "[]"] by auto
  have "bits_le (replicate len 0) ?a"
  proof -
    have "bits_le a (foldl (\<lambda>array key. set_probes (unat ?k) bits (BloomHash key) (rotate_right_17 (BloomHash key)) array) a ks)"
      for a ks by (induction ks arbitrary: a) (auto intro: bits_le_trans [OF set_probes_le])
    then show ?thesis .
  qed
  then have len: "length ?a = len" by (simp add: bits_le_def)
  have "(of_nat (length (?a @ [ucast ?k])) - 1) * 8 = bits" using len L(3) by simp
  moreover have "(scast ((?a @ [ucast ?k]) ! (length (?a @ [ucast ?k]) - 1)) :: u64) = ?k"
    using small_scast [OF m(1)] m(2) by simp
  moreover have "check_probes (unat ?k) bits (BloomHash k) (rotate_right_17 (BloomHash k)) (?a @ [ucast ?k])"
    using Bloom_probes [OF assms(1), of "replicate len 0" bits] L by simp
  moreover have "\<not> length (?a @ [ucast ?k]) < 2" using len L(1) by simp
  ultimately show ?thesis unfolding F Bloom_KeyMayMatch_def Let_def by simp
qed

lemma Bloom_create_append: "Bloom_CreateFilter p keys dst = dst @ Bloom_CreateFilter p keys []"
  by (simp add: Bloom_CreateFilter_def Let_def)

section \<open>The contract of a filter policy\<close>

locale filter_policy =
  fixes create :: "bytes list \<Rightarrow> bytes \<Rightarrow> bytes" and may_match :: "bytes \<Rightarrow> bytes \<Rightarrow> bool" and max_keys :: nat
  assumes create_append: "create keys dst = dst @ create keys []"
    and no_false_negative: "k \<in> set keys \<Longrightarrow> length keys \<le> max_keys \<Longrightarrow> may_match k (create keys [])"
begin

lemma internal_policy: "filter_policy (InternalFilter_CreateFilter create) (InternalFilter_KeyMayMatch may_match) max_keys"
proof
  show "InternalFilter_CreateFilter create keys dst = dst @ InternalFilter_CreateFilter create keys []" for keys dst
    unfolding InternalFilter_CreateFilter_def by (rule create_append)
  show "InternalFilter_KeyMayMatch may_match k (InternalFilter_CreateFilter create keys [])"
    if "k \<in> set keys" "length keys \<le> max_keys" for k keys
    unfolding InternalFilter_CreateFilter_def InternalFilter_KeyMayMatch_def using that by (intro no_false_negative) simp_all
qed

text \<open>The state of the builder: the keys of the filters made, and the keys since the last one.\<close>

definition filter_bytes :: "bytes list \<Rightarrow> bytes" where
  "filter_bytes keys = (if keys = [] then [] else create keys [])"

definition fb_ok :: "FilterBlockBuilder \<Rightarrow> bytes list list \<Rightarrow> bytes list \<Rightarrow> bool" where
  "fb_ok b fs pend \<longleftrightarrow> fb_keys b = concat pend \<and>
     fb_start b = map (\<lambda>i. length (concat (take i pend))) [0..<length pend] \<and>
     fb_result b = concat (map filter_bytes fs) \<and>
     fb_filter_offsets b = map (\<lambda>i. of_nat (length (concat (map filter_bytes (take i fs))))) [0..<length fs]"

lemma fb_ok_new: "fb_ok FilterBlockBuilder_new [] []"
  by (simp add: fb_ok_def FilterBlockBuilder_new_def)

lemma fb_ok_AddKey: "fb_ok b fs pend \<Longrightarrow> fb_ok (AddKey b k) fs (pend @ [k])"
  by (simp add: fb_ok_def AddKey_def)

lemma fb_ok_Generate:
  assumes "fb_ok b fs pend"
  shows "fb_ok (GenerateFilter create b) (fs @ [pend]) []"
proof -
  have b: "fb_keys b = concat pend" "fb_start b = map (\<lambda>i. length (concat (take i pend))) [0..<length pend]"
    "fb_result b = concat (map filter_bytes fs)"
    "fb_filter_offsets b = map (\<lambda>i. of_nat (length (concat (map filter_bytes (take i fs))))) [0..<length fs]"
    using assms by (simp_all add: fb_ok_def)
  show ?thesis
  proof (cases "pend = []")
    case True
    then show ?thesis using b by (simp add: fb_ok_def GenerateFilter_def filter_bytes_def)
  next
    case False
    let ?start = "fb_start b @ [length (fb_keys b)]"
    have start: "?start ! i = length (concat (take i pend))" if "i \<le> length pend" for i
      using that by (cases "i = length pend") (simp_all add: b nth_append)
    have key: "take (?start ! Suc i - ?start ! i) (drop (?start ! i) (fb_keys b)) = pend ! i" if i: "i < length pend" for i
    proof -
      have "concat pend = concat (take i pend) @ pend ! i @ concat (drop (Suc i) pend)"
        by (subst id_take_nth_drop [OF i]) simp
      moreover have "?start ! Suc i = ?start ! i + length (pend ! i)" "?start ! i = length (concat (take i pend))"
        using i by (simp_all add: start take_Suc_conv_app_nth)
      ultimately show ?thesis by (simp add: b)
    qed
    have n: "length (fb_start b) = length pend" by (simp add: b)
    have "map (\<lambda>i. take (?start ! (i + 1) - ?start ! i) (drop (?start ! i) (fb_keys b))) [0..<length (fb_start b)] = pend"
      unfolding n by (rule nth_equalityI) (use key in simp_all)
    then have "GenerateFilter create b = b\<lparr>fb_filter_offsets := fb_filter_offsets b @ [of_nat (length (fb_result b))],
        fb_result := create pend (fb_result b), fb_keys := [], fb_start := []\<rparr>"
      using False n by (simp only: GenerateFilter_def Let_def) simp
    then show ?thesis
      using b create_append [of pend "fb_result b"] False by (simp add: fb_ok_def filter_bytes_def)
  qed
qed

lemma fb_ok_until:
  assumes "fb_ok b fs pend"
  shows "\<exists>fs' pend'. fb_ok (generate_until create idx b) fs' pend' \<and>
    (if length fs < idx then length fs' = idx \<and> pend' = [] \<and> fs' ! length fs = pend \<and> take (length fs) fs' = fs \<and>
       (\<forall>f\<in>set fs'. f \<in> set fs \<or> f = pend \<or> f = []) else fs' = fs \<and> pend' = pend)"
  using assms
proof (induction "idx - length fs" arbitrary: b fs pend)
  case 0
  moreover have "length (fb_filter_offsets b) = length fs" using 0 by (simp add: fb_ok_def)
  ultimately show ?case by (subst generate_until.simps) auto
next
  case (Suc n)
  have l: "length (fb_filter_offsets b) = length fs" using Suc.prems by (simp add: fb_ok_def)
  have "n = idx - length (fs @ [pend])" using Suc.hyps(2) by simp
  from Suc.hyps(1) [OF this fb_ok_Generate [OF Suc.prems]]
  obtain fs' pend' where I: "fb_ok (generate_until create idx (GenerateFilter create b)) fs' pend'"
    "if length (fs @ [pend]) < idx then length fs' = idx \<and> pend' = [] \<and> fs' ! length (fs @ [pend]) = [] \<and>
       take (length (fs @ [pend])) fs' = fs @ [pend] \<and> (\<forall>f\<in>set fs'. f \<in> set (fs @ [pend]) \<or> f = [] \<or> f = [])
     else fs' = fs @ [pend] \<and> pend' = []" by blast
  have "fs' ! length fs = pend \<and> take (length fs) fs' = fs"
  proof (cases "length (fs @ [pend]) < idx")
    case True
    then have t: "take (Suc (length fs)) fs' = fs @ [pend]" using I(2) by simp
    then have "take (length fs) (take (Suc (length fs)) fs') = fs" "take (Suc (length fs)) fs' ! length fs = pend" by simp_all
    then show ?thesis by (simp add: min_def)
  qed (use I(2) in simp)
  moreover have "length fs' = idx \<and> pend' = [] \<and> (\<forall>f\<in>set fs'. f \<in> set fs \<or> f = pend \<or> f = [])"
    using I(2) Suc.hyps(2) by (auto split: if_splits)
  ultimately show ?case using I(1) Suc.hyps(2) l by (subst generate_until.simps) auto
qed

abbreviation add_block :: "FilterBlockBuilder \<Rightarrow> u64 \<times> bytes list \<Rightarrow> FilterBlockBuilder" where
  "add_block b blk \<equiv> foldl AddKey (StartBlock create b (fst blk)) (snd blk)"

text \<open>Every key is in the filter of the offset of its block, or still waits for it.\<close>

definition key_placed :: "bytes list list \<Rightarrow> bytes list \<Rightarrow> u64 \<Rightarrow> bytes \<Rightarrow> bool" where
  "key_placed fs pend off k \<longleftrightarrow>
     (let i = unat (off div kFilterBase)
      in i < length fs \<and> k \<in> set (fs ! i) \<or> i = length fs \<and> k \<in> set pend)"

definition small_filters :: "bytes list list \<Rightarrow> bytes list \<Rightarrow> nat \<Rightarrow> bool" where
  "small_filters fs pend n \<longleftrightarrow> (\<forall>f\<in>set fs. length f \<le> n) \<and> length pend \<le> n"

lemma fb_ok_add_block:
  assumes "fb_ok b fs pend" "length fs \<le> unat (off div kFilterBase)" "small_filters fs pend n"
  shows "\<exists>fs' pend'. fb_ok (add_block b (off, keys)) fs' pend' \<and> length fs' = unat (off div kFilterBase) \<and>
    small_filters fs' pend' (n + length keys) \<and> (\<forall>k\<in>set keys. key_placed fs' pend' off k) \<and>
    (\<forall>off' k. key_placed fs pend off' k \<longrightarrow> key_placed fs' pend' off' k)"
proof -
  have add: "fb_ok b fs pend \<Longrightarrow> fb_ok (foldl AddKey b keys) fs (pend @ keys)" for b fs pend
    by (induction keys arbitrary: b pend) (simp, use fb_ok_AddKey in fastforce)
  let ?i = "unat (off div kFilterBase)"
  obtain fs' pend' where S: "fb_ok (StartBlock create b off) fs' pend'"
    "if length fs < ?i then length fs' = ?i \<and> pend' = [] \<and> fs' ! length fs = pend \<and> take (length fs) fs' = fs \<and>
       (\<forall>f\<in>set fs'. f \<in> set fs \<or> f = pend \<or> f = []) else fs' = fs \<and> pend' = pend"
    using fb_ok_until [OF assms(1), of ?i] unfolding StartBlock_def by blast
  have len: "length fs' = ?i" using S(2) assms(2) by (simp split: if_splits)
  have keep: "key_placed fs' (pend' @ keys) off' k" if "key_placed fs pend off' k" for off' k
  proof (cases "length fs < ?i")
    case True
    have "fs' ! i = fs ! i" if "i < length fs" for i using True S(2) that by (metis nth_take)
    then show ?thesis using that True S(2) by (auto simp: key_placed_def Let_def)
  next
    case False
    then show ?thesis using that S(2) by (auto simp: key_placed_def Let_def)
  qed
  have "small_filters fs' (pend' @ keys) (n + length keys)"
    using S(2) assms(3) by (fastforce simp: small_filters_def split: if_splits)
  moreover have "key_placed fs' (pend' @ keys) off k" if "k \<in> set keys" for k
    using len that by (simp add: key_placed_def Let_def)
  ultimately show ?thesis
    using add [OF S(1)] len keep by (intro exI [of _ fs'] exI [of _ "pend' @ keys"]) simp
qed

lemma fb_ok_blocks:
  assumes "fb_ok b fs pend" "\<forall>blk\<in>set blocks. length fs \<le> unat (fst blk div kFilterBase)" "small_filters fs pend n"
    and "sorted (map fst blocks)"
  shows "\<exists>fs' pend'. fb_ok (foldl add_block b blocks) fs' pend' \<and>
    small_filters fs' pend' (n + length (concat (map snd blocks))) \<and>
    (\<forall>(off, keys)\<in>set blocks. \<forall>k\<in>set keys. key_placed fs' pend' off k) \<and>
    (\<forall>off' k. key_placed fs pend off' k \<longrightarrow> key_placed fs' pend' off' k)"
  using assms
proof (induction blocks arbitrary: b fs pend n)
  case Nil
  then show ?case by auto
next
  case (Cons blk blocks)
  obtain off keys where blk: "blk = (off, keys)" by fastforce
  obtain fs1 pend1 where A: "fb_ok (add_block b (off, keys)) fs1 pend1" "length fs1 = unat (off div kFilterBase)"
    "small_filters fs1 pend1 (n + length keys)" "\<forall>k\<in>set keys. key_placed fs1 pend1 off k"
    "\<forall>off' k. key_placed fs pend off' k \<longrightarrow> key_placed fs1 pend1 off' k"
    using fb_ok_add_block [OF Cons.prems(1) _ Cons.prems(3), of off keys] Cons.prems(2) blk by auto
  have "\<forall>blk\<in>set blocks. length fs1 \<le> unat (fst blk div kFilterBase)"
    using Cons.prems(4) by (auto simp: blk A(2) unat_div word_le_nat_alt intro!: div_le_mono)
  from Cons.IH [OF A(1) this A(3)] Cons.prems(4) obtain fs2 pend2 where
    B: "fb_ok (foldl add_block (add_block b (off, keys)) blocks) fs2 pend2"
    "small_filters fs2 pend2 (n + length keys + length (concat (map snd blocks)))"
    "\<forall>(off, keys)\<in>set blocks. \<forall>k\<in>set keys. key_placed fs2 pend2 off k"
    "\<forall>off' k. key_placed fs1 pend1 off' k \<longrightarrow> key_placed fs2 pend2 off' k" by auto
  show ?case
    using B A(4,5) by (intro exI [of _ fs2] exI [of _ pend2]) (auto simp: blk add.assoc)
qed

lemma fb_ok_finish:
  assumes "fb_ok b fs pend" "small_filters fs pend n"
  defines "res \<equiv> \<lambda>fs. concat (map filter_bytes fs)"
  shows "\<exists>fs'. FilterBlock_Finish create b = res fs' @
      concat (map (\<lambda>i. EncodeFixed32 (of_nat (length (res (take i fs'))))) [0..<length fs']) @
      EncodeFixed32 (of_nat (length (res fs'))) @ [11] \<and>
    (\<forall>f\<in>set fs'. length f \<le> n) \<and>
    (\<forall>off k. key_placed fs pend off k \<longrightarrow> unat (off div kFilterBase) < length fs' \<and> k \<in> set (fs' ! unat (off div kFilterBase)))"
proof -
  define fs' where "fs' = (if pend = [] then fs else fs @ [pend])"
  let ?b = "if fb_start b \<noteq> [] then GenerateFilter create b else b"
  have "fb_start b \<noteq> [] \<longleftrightarrow> pend \<noteq> []" using assms(1) by (simp add: fb_ok_def)
  then have "fb_ok ?b fs' []" using fb_ok_Generate [OF assms(1)] assms(1) by (cases "pend = []") (simp_all add: fs'_def)
  moreover have "foldl PutFixed32 z ws = z @ concat (map EncodeFixed32 ws)" for z ws
    by (induction ws arbitrary: z) (simp_all add: PutFixed32_def)
  ultimately have "FilterBlock_Finish create b = res fs' @
      concat (map (\<lambda>i. EncodeFixed32 (of_nat (length (res (take i fs'))))) [0..<length fs']) @
      EncodeFixed32 (of_nat (length (res fs'))) @ [11]"
    unfolding FilterBlock_Finish_def Let_def
    by (simp add: fb_ok_def PutFixed32_def comp_def kFilterBaseLg_def res_def)
  moreover have "\<forall>f\<in>set fs'. length f \<le> n" using assms(2) by (auto simp: fs'_def small_filters_def)
  moreover have "unat (off div kFilterBase) < length fs' \<and> k \<in> set (fs' ! unat (off div kFilterBase))"
    if "key_placed fs pend off k" for off k
    using that by (auto simp: key_placed_def Let_def fs'_def nth_append)
  ultimately show ?thesis by blast
qed

lemma read_filter:
  fixes fs :: "bytes list list"
  defines "res \<equiv> \<lambda>fs. concat (map filter_bytes fs)"
  defines "contents \<equiv> res fs @ concat (map (\<lambda>i. EncodeFixed32 (of_nat (length (res (take i fs))))) [0..<length fs]) @
      EncodeFixed32 (of_nat (length (res fs))) @ [11]"
  assumes "length contents < 2 ^ 32" "unat (off div kFilterBase) < length fs" "k \<in> set (fs ! unat (off div kFilterBase))"
    and "\<forall>f\<in>set fs. length f \<le> max_keys"
  shows "FilterBlock_KeyMayMatch may_match (FilterBlockReader_new contents) off k"
proof -
  let ?i = "unat (off div kFilterBase)"
  let ?start = "\<lambda>i. length (res (take i fs))"
  have n: "length contents = length (res fs) + 4 * length fs + 5"
    by (simp add: contents_def length_restarts)
  have lim: "?start i \<le> length (res fs)" for i
    unfolding res_def by (subst (2) append_take_drop_id [of i fs, symmetric], unfold map_append concat_append) simp
  have w: "unat (of_nat (?start i) :: u32) = ?start i" for i
    using lim [of i] assms(3) n by (simp add: unat_of_nat take_bit_nat_eq_self)
  have word_at: "DecodeFixed32 (drop (length (res fs) + 4 * j) contents) = of_nat (?start j)" if "j \<le> length fs" for j
  proof (cases "j = length fs")
    case True
    then show ?thesis by (simp add: contents_def length_restarts)
  next
    case False
    then have j: "j < length [0..<length fs]" using that by simp
    have "drop (length (res fs) + 4 * j) contents = drop (4 * j)
        (concat (map (\<lambda>i. EncodeFixed32 (of_nat (?start i))) [0..<length fs]) @
          EncodeFixed32 (of_nat (length (res fs))) @ [11])" by (simp add: contents_def)
    with drop_restarts [OF j, of "\<lambda>i. of_nat (?start i)" "EncodeFixed32 (of_nat (length (res fs))) @ [11]"] that False
    show ?thesis by simp
  qed
  have last: "DecodeFixed32 (drop (length contents - 5) contents) = of_nat (length (res fs))"
    using word_at [of "length fs"] n by simp
  have u: "unat (of_nat (length (res fs)) :: u32) = length (res fs)" using w [of "length fs"] by simp
  have "contents ! (length contents - 1) = 11" by (simp add: contents_def nth_append)
  then have R: "FilterBlockReader_new contents =
      \<lparr>fr_data = contents, fr_offset = length (res fs), fr_num = length fs, fr_base_lg = 11\<rparr>"
    using last n u by (simp add: FilterBlockReader_new_def Let_def)
  have idx: "unat (drop_bit 11 off) = ?i"
    by (simp add: kFilterBase_def kFilterBaseLg_def unat_div drop_bit_eq_div unat_drop_bit_eq)
  have key: "fs ! ?i \<noteq> []" using assms(5) by auto
  have len: "?start (Suc ?i) = ?start ?i + length (create (fs ! ?i) [])"
    using assms(4) key by (simp add: res_def take_Suc_conv_app_nth filter_bytes_def)
  have "res fs = res (take ?i fs) @ create (fs ! ?i) [] @ res (drop (Suc ?i) fs)"
    unfolding res_def using key by (subst id_take_nth_drop [OF assms(4)]) (simp add: filter_bytes_def)
  then have slice: "take (length (create (fs ! ?i) [])) (drop (?start ?i) contents) = create (fs ! ?i) []"
    by (simp add: contents_def)
  have le: "(of_nat (?start ?i) :: u32) \<le> of_nat (?start (Suc ?i))"
    unfolding word_le_nat_alt w using len by simp
  have diff: "unat (of_nat (?start (Suc ?i)) - of_nat (?start ?i) :: u32) = length (create (fs ! ?i) [])"
    unfolding unat_sub [OF le] w using len by simp
  have "may_match k (create (fs ! ?i) [])" using no_false_negative assms(4-6) by simp
  moreover have "DecodeFixed32 (drop (length (res fs) + ?i * 4) contents) = of_nat (?start ?i)"
    "DecodeFixed32 (drop (length (res fs) + ?i * 4 + 4) contents) = of_nat (?start (Suc ?i))"
    using word_at [of ?i] word_at [of "Suc ?i"] assms(4) by (simp_all add: algebra_simps)
  ultimately show ?thesis
    using assms(4) le diff slice lim [of "Suc ?i"] w idx unfolding R FilterBlock_KeyMayMatch_def Let_def by simp
qed

lemma filter_block_ok:
  assumes "sorted (map fst blocks)" "length (concat (map snd blocks)) \<le> max_keys"
    and "length (FilterBlock_Finish create (foldl add_block FilterBlockBuilder_new blocks)) < 2 ^ 32"
    and "(off, keys) \<in> set blocks" "k \<in> set keys"
  shows "FilterBlock_KeyMayMatch may_match
    (FilterBlockReader_new (FilterBlock_Finish create (foldl add_block FilterBlockBuilder_new blocks))) off k"
proof -
  obtain fs pend where B: "fb_ok (foldl add_block FilterBlockBuilder_new blocks) fs pend"
    "small_filters fs pend (length (concat (map snd blocks)))"
    "\<forall>(off, keys)\<in>set blocks. \<forall>k\<in>set keys. key_placed fs pend off k"
    using fb_ok_blocks [OF fb_ok_new _ _ assms(1), of 0] by (auto simp: small_filters_def)
  obtain fs' where F: "FilterBlock_Finish create (foldl add_block FilterBlockBuilder_new blocks) =
      concat (map filter_bytes fs') @
      concat (map (\<lambda>i. EncodeFixed32 (of_nat (length (concat (map filter_bytes (take i fs')))))) [0..<length fs']) @
      EncodeFixed32 (of_nat (length (concat (map filter_bytes fs')))) @ [11]"
    "\<forall>f\<in>set fs'. length f \<le> length (concat (map snd blocks))"
    "unat (off div kFilterBase) < length fs'" "k \<in> set (fs' ! unat (off div kFilterBase))"
    using fb_ok_finish [OF B(1,2)] B(3) assms(4,5) by blast
  show ?thesis
    unfolding F(1) by (rule read_filter [OF _ F(3,4)]) (use assms(2,3) F(1,2) in fastforce)+
qed

end

interpretation bloom: filter_policy "Bloom_CreateFilter (BloomFilterPolicy_new n)" Bloom_KeyMayMatch "(2 ^ 64 - 8) div Suc n"
  for n
proof
  show "Bloom_CreateFilter (BloomFilterPolicy_new n) keys dst = dst @ Bloom_CreateFilter (BloomFilterPolicy_new n) keys []" for keys dst
    by (rule Bloom_create_append)
  show "Bloom_KeyMayMatch k (Bloom_CreateFilter (BloomFilterPolicy_new n) keys [])"
    if "k \<in> set keys" "length keys \<le> (2 ^ 64 - 8) div Suc n" for k keys
  proof (rule Bloom_no_false_negative [OF that(1)])
    have "length keys * Suc n \<le> 2 ^ 64 - 8"
      using that(2) by (meson div_le_mono le_trans mult_le_mono1 div_times_less_eq_dividend)
    then show "length keys * n + 7 < 2 ^ 64" by simp
  qed
qed

interpretation internal: filter_policy "InternalFilter_CreateFilter (Bloom_CreateFilter (BloomFilterPolicy_new n))"
  "InternalFilter_KeyMayMatch Bloom_KeyMayMatch" "(2 ^ 64 - 8) div Suc n" for n
  by (rule bloom.internal_policy)

text \<open>C36: A filter block with Bloom filters for the keys of the blocks of a table, added in the order of
  their offsets, never denies a key: read back, it answers for every key of the block at an offset
  that the key may be there, for every number of bits per key.\<close>
theorem filter_never_denies:
  fixes blocks :: "(u64 \<times> bytes list) list"
  defines "create \<equiv> \<lambda>bits_per_key. InternalFilter_CreateFilter (Bloom_CreateFilter (BloomFilterPolicy_new bits_per_key))"
  defines "contents \<equiv> \<lambda>bits_per_key. FilterBlock_Finish (create bits_per_key)
      (foldl (\<lambda>b (off, keys). foldl AddKey (StartBlock (create bits_per_key) b off) keys) FilterBlockBuilder_new blocks)"
  assumes "sorted (map fst blocks)" "(off, keys) \<in> set blocks" "k \<in> set keys"
    and "length (concat (map snd blocks)) \<le> (2 ^ 64 - 8) div Suc bits_per_key" "length (contents bits_per_key) < 2 ^ 32"
  shows "FilterBlock_KeyMayMatch (InternalFilter_KeyMayMatch Bloom_KeyMayMatch)
    (FilterBlockReader_new (contents bits_per_key)) off k"
  using internal.filter_block_ok [OF assms(3,6) _ assms(4,5)] assms(7) unfolding contents_def create_def case_prod_beta by blast

theorem filter_never_denies_witness:
  defines "create \<equiv> InternalFilter_CreateFilter (Bloom_CreateFilter (BloomFilterPolicy_new 10))"
  defines "blocks \<equiv> [(0, [InternalKey [1] 5 kTypeValue]), (5000, [InternalKey [2] 6 kTypeValue])]"
  shows "FilterBlock_KeyMayMatch (InternalFilter_KeyMayMatch Bloom_KeyMayMatch)
    (FilterBlockReader_new (FilterBlock_Finish create
      (foldl (\<lambda>b (off, keys). foldl AddKey (StartBlock create b off) keys) FilterBlockBuilder_new blocks)))
    5000 (InternalKey [2] 6 kTypeValue)"
proof -
  have len: "length (set_probes j bits h delta a) = length a" for j bits h delta a
    using set_probes_le [of a j bits h delta] by (simp add: bits_le_def)
  have "length (FilterBlock_Finish create
      (foldl (\<lambda>b (off, keys). foldl AddKey (StartBlock create b off) keys) FilterBlockBuilder_new blocks)) < 2 ^ 32"
    by (simp add: blocks_def create_def FilterBlock_Finish_def FilterBlockBuilder_new_def StartBlock_def kFilterBase_def
        kFilterBaseLg_def generate_until.simps AddKey_def GenerateFilter_def Let_def PutFixed32_def
        InternalFilter_CreateFilter_def Bloom_CreateFilter_def BloomFilterPolicy_new_def len)
  then show ?thesis
    using filter_never_denies [of blocks 5000 "[InternalKey [2] 6 kTypeValue]" "InternalKey [2] 6 kTypeValue" 10]
    unfolding create_def by (simp add: blocks_def)
qed

end
