(* ===== verification/Version_Edit.thy ===== *)
theory Version_Edit
  imports Dbformat "HOL-Library.Product_Lexorder"
begin

text \<open>
  The records of the manifest (\<^verbatim>\<open>db/version_edit.cc\<close>, \<^verbatim>\<open>db/version_edit.h\<close>): which table files a
  change of the version adds and removes, and the counters it sets.
  \<^item> An \<^verbatim>\<open>InternalKey\<close> is its encoded bytes; a level is an \<open>int\<close>.
  \<^item> \<^verbatim>\<open>DecodeFrom\<close> returns the edit and the message of its corruption status, if any. A field that
    cannot be read leaves the edit as it was.
\<close>

section \<open>Edits\<close>

record FileMetaData =
  fm_refs :: int
  fm_allowed_seeks :: int
  fm_number :: u64
  fm_file_size :: u64
  fm_smallest :: bytes
  fm_largest :: bytes

definition FileMetaData_new :: "u64 \<Rightarrow> u64 \<Rightarrow> bytes \<Rightarrow> bytes \<Rightarrow> FileMetaData" where
  "FileMetaData_new number file_size smallest largest =
     \<lparr>fm_refs = 0, fm_allowed_seeks = 2 ^ 30, fm_number = number, fm_file_size = file_size,
      fm_smallest = smallest, fm_largest = largest\<rparr>"

record VersionEdit =
  ve_comparator :: bytes
  ve_log_number :: u64
  ve_prev_log_number :: u64
  ve_next_file_number :: u64
  ve_last_sequence :: u64
  ve_has_comparator :: bool
  ve_has_log_number :: bool
  ve_has_prev_log_number :: bool
  ve_has_next_file_number :: bool
  ve_has_last_sequence :: bool
  ve_compact_pointers :: "(int \<times> bytes) list"
  ve_deleted_files :: "(int \<times> u64) set"
  ve_new_files :: "(int \<times> FileMetaData) list"

definition VersionEdit_Clear :: "VersionEdit \<Rightarrow> VersionEdit" where
  "VersionEdit_Clear e = e\<lparr>ve_comparator := [], ve_log_number := 0, ve_prev_log_number := 0, ve_next_file_number := 0,
     ve_last_sequence := 0, ve_has_comparator := False, ve_has_log_number := False, ve_has_prev_log_number := False,
     ve_has_next_file_number := False, ve_has_last_sequence := False, ve_deleted_files := {}, ve_new_files := []\<rparr>"

definition VersionEdit_new :: VersionEdit where
  "VersionEdit_new = \<lparr>ve_comparator = [], ve_log_number = 0, ve_prev_log_number = 0, ve_next_file_number = 0,
     ve_last_sequence = 0, ve_has_comparator = False, ve_has_log_number = False, ve_has_prev_log_number = False,
     ve_has_next_file_number = False, ve_has_last_sequence = False, ve_compact_pointers = [], ve_deleted_files = {},
     ve_new_files = []\<rparr>"

definition SetComparatorName :: "VersionEdit \<Rightarrow> bytes \<Rightarrow> VersionEdit" where
  "SetComparatorName e name = e\<lparr>ve_has_comparator := True, ve_comparator := name\<rparr>"

definition SetLogNumber :: "VersionEdit \<Rightarrow> u64 \<Rightarrow> VersionEdit" where
  "SetLogNumber e num = e\<lparr>ve_has_log_number := True, ve_log_number := num\<rparr>"

definition SetPrevLogNumber :: "VersionEdit \<Rightarrow> u64 \<Rightarrow> VersionEdit" where
  "SetPrevLogNumber e num = e\<lparr>ve_has_prev_log_number := True, ve_prev_log_number := num\<rparr>"

definition SetNextFile :: "VersionEdit \<Rightarrow> u64 \<Rightarrow> VersionEdit" where
  "SetNextFile e num = e\<lparr>ve_has_next_file_number := True, ve_next_file_number := num\<rparr>"

definition SetLastSequence :: "VersionEdit \<Rightarrow> u64 \<Rightarrow> VersionEdit" where
  "SetLastSequence e seq = e\<lparr>ve_has_last_sequence := True, ve_last_sequence := seq\<rparr>"

definition SetCompactPointer :: "VersionEdit \<Rightarrow> int \<Rightarrow> bytes \<Rightarrow> VersionEdit" where
  "SetCompactPointer e level key = e\<lparr>ve_compact_pointers := ve_compact_pointers e @ [(level, key)]\<rparr>"

definition AddFile :: "VersionEdit \<Rightarrow> int \<Rightarrow> u64 \<Rightarrow> u64 \<Rightarrow> bytes \<Rightarrow> bytes \<Rightarrow> VersionEdit" where
  "AddFile e level num file_size smallest largest =
     e\<lparr>ve_new_files := ve_new_files e @ [(level, FileMetaData_new num file_size smallest largest)]\<rparr>"

definition VersionEdit_DeleteFile :: "VersionEdit \<Rightarrow> int \<Rightarrow> u64 \<Rightarrow> VersionEdit" where
  "VersionEdit_DeleteFile e level num = e\<lparr>ve_deleted_files := insert (level, num) (ve_deleted_files e)\<rparr>"

section \<open>Encoding\<close>

datatype Tag = kComparator | kLogNumber | kNextFileNumber | kLastSequence | kCompactPointer | kDeletedFile
  | kNewFile | kPrevLogNumber

definition tag_code :: "Tag \<Rightarrow> u32" where
  "tag_code t = (case t of kComparator \<Rightarrow> 1 | kLogNumber \<Rightarrow> 2 | kNextFileNumber \<Rightarrow> 3 | kLastSequence \<Rightarrow> 4
     | kCompactPointer \<Rightarrow> 5 | kDeletedFile \<Rightarrow> 6 | kNewFile \<Rightarrow> 7 | kPrevLogNumber \<Rightarrow> 9)"

definition encode_pointer :: "bytes \<Rightarrow> int \<times> bytes \<Rightarrow> bytes" where
  "encode_pointer dst p =
     (let dst = PutVarint32 dst (tag_code kCompactPointer);
          dst = PutVarint32 dst (of_int (fst p))
      in PutLengthPrefixedSlice dst (snd p))"

definition encode_deleted :: "bytes \<Rightarrow> int \<times> u64 \<Rightarrow> bytes" where
  "encode_deleted dst d =
     (let dst = PutVarint32 dst (tag_code kDeletedFile);
          dst = PutVarint32 dst (of_int (fst d))
      in PutVarint64 dst (snd d))"

definition encode_new_file :: "bytes \<Rightarrow> int \<times> FileMetaData \<Rightarrow> bytes" where
  "encode_new_file dst nf =
     (let f = snd nf;
          dst = PutVarint32 dst (tag_code kNewFile);
          dst = PutVarint32 dst (of_int (fst nf));
          dst = PutVarint64 dst (fm_number f);
          dst = PutVarint64 dst (fm_file_size f);
          dst = PutLengthPrefixedSlice dst (fm_smallest f)
      in PutLengthPrefixedSlice dst (fm_largest f))"

definition VersionEdit_EncodeTo :: "VersionEdit \<Rightarrow> bytes \<Rightarrow> bytes" where
  "VersionEdit_EncodeTo e dst =
     (let dst = (if ve_has_comparator e
                 then PutLengthPrefixedSlice (PutVarint32 dst (tag_code kComparator)) (ve_comparator e) else dst);
          dst = (if ve_has_log_number e then PutVarint64 (PutVarint32 dst (tag_code kLogNumber)) (ve_log_number e) else dst);
          dst = (if ve_has_prev_log_number e
                 then PutVarint64 (PutVarint32 dst (tag_code kPrevLogNumber)) (ve_prev_log_number e) else dst);
          dst = (if ve_has_next_file_number e
                 then PutVarint64 (PutVarint32 dst (tag_code kNextFileNumber)) (ve_next_file_number e) else dst);
          dst = (if ve_has_last_sequence e
                 then PutVarint64 (PutVarint32 dst (tag_code kLastSequence)) (ve_last_sequence e) else dst);
          dst = foldl encode_pointer dst (ve_compact_pointers e);
          dst = foldl encode_deleted dst (sorted_list_of_set (ve_deleted_files e))
      in foldl encode_new_file dst (ve_new_files e))"

section \<open>Decoding\<close>

definition kNumLevels :: nat where "kNumLevels = 7"

definition GetInternalKey :: "bytes \<Rightarrow> (bytes \<times> bytes) option" where
  "GetInternalKey input = GetLengthPrefixedSlice input"

definition GetLevel :: "bytes \<Rightarrow> (int \<times> bytes) option" where
  "GetLevel input =
     (case GetVarint32 input of
        None \<Rightarrow> None
      | Some (v, input) \<Rightarrow> if unat v < kNumLevels then Some (uint v, input) else None)"

definition or_message :: "string \<Rightarrow> 'a option \<Rightarrow> string + 'a" where
  "or_message msg r = (case r of None \<Rightarrow> Inl msg | Some x \<Rightarrow> Inr x)"

definition decode_field :: "VersionEdit \<Rightarrow> u32 \<Rightarrow> bytes \<Rightarrow> string + (VersionEdit \<times> bytes)" where
  "decode_field e tag input =
     (if tag = tag_code kComparator then
        or_message ''comparator name''
          (map_option (\<lambda>(str, input). (e\<lparr>ve_comparator := str, ve_has_comparator := True\<rparr>, input))
            (GetLengthPrefixedSlice input))
      else if tag = tag_code kLogNumber then
        or_message ''log number''
          (map_option (\<lambda>(n, input). (e\<lparr>ve_log_number := n, ve_has_log_number := True\<rparr>, input)) (GetVarint64 input))
      else if tag = tag_code kPrevLogNumber then
        or_message ''previous log number''
          (map_option (\<lambda>(n, input). (e\<lparr>ve_prev_log_number := n, ve_has_prev_log_number := True\<rparr>, input))
            (GetVarint64 input))
      else if tag = tag_code kNextFileNumber then
        or_message ''next file number''
          (map_option (\<lambda>(n, input). (e\<lparr>ve_next_file_number := n, ve_has_next_file_number := True\<rparr>, input))
            (GetVarint64 input))
      else if tag = tag_code kLastSequence then
        or_message ''last sequence number''
          (map_option (\<lambda>(n, input). (e\<lparr>ve_last_sequence := n, ve_has_last_sequence := True\<rparr>, input)) (GetVarint64 input))
      else if tag = tag_code kCompactPointer then
        or_message ''compaction pointer''
          (Option.bind (GetLevel input) (\<lambda>(level, input).
           map_option (\<lambda>(key, input). (e\<lparr>ve_compact_pointers := ve_compact_pointers e @ [(level, key)]\<rparr>, input))
             (GetInternalKey input)))
      else if tag = tag_code kDeletedFile then
        or_message ''deleted file''
          (Option.bind (GetLevel input) (\<lambda>(level, input).
           map_option (\<lambda>(n, input). (e\<lparr>ve_deleted_files := insert (level, n) (ve_deleted_files e)\<rparr>, input))
             (GetVarint64 input)))
      else if tag = tag_code kNewFile then
        or_message ''new-file entry''
          (Option.bind (GetLevel input) (\<lambda>(level, input).
           Option.bind (GetVarint64 input) (\<lambda>(n, input).
           Option.bind (GetVarint64 input) (\<lambda>(file_size, input).
           Option.bind (GetInternalKey input) (\<lambda>(smallest, input).
           map_option (\<lambda>(largest, input).
             (e\<lparr>ve_new_files := ve_new_files e @ [(level, FileMetaData_new n file_size smallest largest)]\<rparr>, input))
             (GetInternalKey input))))))
      else Inl ''unknown tag'')"

lemma GetVarint64_loop_shorter: "GetVarint64Ptr_loop s r p = Some (v, q) \<Longrightarrow> length q < length p"
  by (induction s r p rule: GetVarint64Ptr_loop.induct) (auto split: if_splits)

lemma GetVarint64_shorter: "GetVarint64 p = Some (v, q) \<Longrightarrow> length q < length p"
  unfolding GetVarint64_def GetVarint64Ptr_def by (rule GetVarint64_loop_shorter)

lemma GetVarint32_shorter: "GetVarint32 p = Some (v, q) \<Longrightarrow> length q < length p"
  using GetVarint32_suffix by fastforce

lemma GetLevel_shorter: "GetLevel p = Some (v, q) \<Longrightarrow> length q < length p"
  by (auto simp: GetLevel_def dest: GetVarint32_shorter split: option.splits if_splits)

lemma decode_field_shorter:
  assumes "decode_field e tag p = Inr (e', q)"
  shows "length q \<le> length p"
  using assms
  by (auto simp: decode_field_def or_message_def GetInternalKey_def bind_eq_Some_conv split: if_splits option.splits
      dest!: GetVarint64_shorter GetLevel_shorter GetLengthPrefixedSlice_shorter)

lemma decode_step_shorter:
  "GetVarint32 p = Some (tag, q) \<Longrightarrow> decode_field e tag q = Inr (e', r) \<Longrightarrow> length r < length p"
  using GetVarint32_shorter decode_field_shorter by fastforce

function DecodeFrom_loop :: "VersionEdit \<Rightarrow> bytes \<Rightarrow> VersionEdit \<times> string option" where
  "DecodeFrom_loop e input =
     (case GetVarint32 input of
        None \<Rightarrow> (e, if input \<noteq> [] then Some ''invalid tag'' else None)
      | Some (tag, rest) \<Rightarrow>
          (case decode_field e tag rest of
             Inl msg \<Rightarrow> (e, Some msg)
           | Inr (e, rest) \<Rightarrow> DecodeFrom_loop e rest))"
  by pat_completeness auto
termination
  by (relation "measure (\<lambda>(e, input). length input)") (auto intro: decode_step_shorter)

declare DecodeFrom_loop.simps [simp del]

definition VersionEdit_DecodeFrom :: "VersionEdit \<Rightarrow> bytes \<Rightarrow> VersionEdit \<times> string option" where
  "VersionEdit_DecodeFrom e src = DecodeFrom_loop (VersionEdit_Clear e) src"

section \<open>Reading back what was encoded\<close>

definition level_ok :: "int \<Rightarrow> bool" where
  "level_ok l \<longleftrightarrow> 0 \<le> l \<and> l < 7"

definition file_ok :: "FileMetaData \<Rightarrow> bool" where
  "file_ok f \<longleftrightarrow> fm_refs f = 0 \<and> fm_allowed_seeks f = 2 ^ 30 \<and> length (fm_smallest f) < 2 ^ 32 \<and> length (fm_largest f) < 2 ^ 32"

text \<open>What \<^verbatim>\<open>Clear\<close> and the setters give: a number that is not set is 0, levels are levels of the tree.\<close>

definition edit_ok :: "VersionEdit \<Rightarrow> bool" where
  "edit_ok e \<longleftrightarrow> (\<not> ve_has_comparator e \<longrightarrow> ve_comparator e = []) \<and> (\<not> ve_has_log_number e \<longrightarrow> ve_log_number e = 0) \<and>
     (\<not> ve_has_prev_log_number e \<longrightarrow> ve_prev_log_number e = 0) \<and> (\<not> ve_has_next_file_number e \<longrightarrow> ve_next_file_number e = 0) \<and>
     (\<not> ve_has_last_sequence e \<longrightarrow> ve_last_sequence e = 0) \<and> length (ve_comparator e) < 2 ^ 32 \<and>
     (\<forall>(l, k)\<in>set (ve_compact_pointers e). level_ok l \<and> length k < 2 ^ 32) \<and>
     finite (ve_deleted_files e) \<and> (\<forall>(l, n)\<in>ve_deleted_files e. level_ok l) \<and>
     (\<forall>(l, f)\<in>set (ve_new_files e). level_ok l \<and> file_ok f)"

lemma GetLevel_level:
  assumes "level_ok l"
  shows "GetLevel (EncodeVarint32 (of_int l) @ rest) = Some (l, rest)"
proof -
  have "l mod 2 ^ 32 = l" using assms by (simp add: level_ok_def)
  then have "uint (of_int l :: u32) = l" by (simp add: uint_word_of_int)
  moreover from this have "unat (of_int l :: u32) = nat l" by (simp add: unat_eq_nat_uint)
  ultimately show ?thesis using assms by (auto simp: GetLevel_def level_ok_def kNumLevels_def nat_less_iff)
qed

lemma GetSlice_append:
  "length v < 2 ^ 32 \<Longrightarrow> GetLengthPrefixedSlice (EncodeVarint32 (of_nat (length v)) @ v @ rest) = Some (v, rest)"
  using GetLengthPrefixedSlice_Put [of v rest] by (simp add: PutLengthPrefixedSlice_def PutVarint32_def)

lemma loop_field:
  assumes "decode_field e tag input = Inr (e', rest)"
  shows "DecodeFrom_loop e (EncodeVarint32 tag @ input) = DecodeFrom_loop e' rest"
  using assms by (subst DecodeFrom_loop.simps) simp

text \<open>The fields that are written only where they are set.\<close>

lemma loop_scalar:
  "length name < 2 ^ 32 \<Longrightarrow> DecodeFrom_loop e ((if c then EncodeVarint32 (tag_code kComparator) @
       EncodeVarint32 (of_nat (length name)) @ name else []) @ rest) =
     DecodeFrom_loop (if c then e\<lparr>ve_comparator := name, ve_has_comparator := True\<rparr> else e) rest"
  "DecodeFrom_loop e ((if c then EncodeVarint32 (tag_code kLogNumber) @ EncodeVarint64 n else []) @ rest) =
     DecodeFrom_loop (if c then e\<lparr>ve_log_number := n, ve_has_log_number := True\<rparr> else e) rest"
  "DecodeFrom_loop e ((if c then EncodeVarint32 (tag_code kPrevLogNumber) @ EncodeVarint64 n else []) @ rest) =
     DecodeFrom_loop (if c then e\<lparr>ve_prev_log_number := n, ve_has_prev_log_number := True\<rparr> else e) rest"
  "DecodeFrom_loop e ((if c then EncodeVarint32 (tag_code kNextFileNumber) @ EncodeVarint64 n else []) @ rest) =
     DecodeFrom_loop (if c then e\<lparr>ve_next_file_number := n, ve_has_next_file_number := True\<rparr> else e) rest"
  "DecodeFrom_loop e ((if c then EncodeVarint32 (tag_code kLastSequence) @ EncodeVarint64 n else []) @ rest) =
     DecodeFrom_loop (if c then e\<lparr>ve_last_sequence := n, ve_has_last_sequence := True\<rparr> else e) rest"
  by (cases c; simp; rule loop_field; simp add: decode_field_def tag_code_def or_message_def GetSlice_append)+

lemma encode_simps:
  "encode_pointer dst (l, k) = dst @ EncodeVarint32 (tag_code kCompactPointer) @ EncodeVarint32 (of_int l) @
     EncodeVarint32 (of_nat (length k)) @ k"
  "encode_deleted dst (l, n) = dst @ EncodeVarint32 (tag_code kDeletedFile) @ EncodeVarint32 (of_int l) @ EncodeVarint64 n"
  "encode_new_file dst (l, f) = dst @ EncodeVarint32 (tag_code kNewFile) @ EncodeVarint32 (of_int l) @
     EncodeVarint64 (fm_number f) @ EncodeVarint64 (fm_file_size f) @
     EncodeVarint32 (of_nat (length (fm_smallest f))) @ fm_smallest f @
     EncodeVarint32 (of_nat (length (fm_largest f))) @ fm_largest f"
  by (simp_all add: encode_pointer_def encode_deleted_def encode_new_file_def Let_def PutVarint32_def PutVarint64_def
      PutLengthPrefixedSlice_def)

lemma encode_append:
  "foldl encode_pointer dst ps = dst @ foldl encode_pointer [] ps"
  "foldl encode_deleted dst ds = dst @ foldl encode_deleted [] ds"
  "foldl encode_new_file dst fs = dst @ foldl encode_new_file [] fs"
proof -
  have foldl_append: "foldl g dst xs = dst @ foldl g [] xs" if "\<And>dst x. g dst x = dst @ g [] x"
    for g :: "bytes \<Rightarrow> 'x \<Rightarrow> bytes" and dst xs
  proof (induction xs arbitrary: dst)
    case (Cons x xs)
    show ?case using Cons [of "g dst x"] Cons [of "g [] x"] that [of dst x] by simp
  qed simp
  show "foldl encode_pointer dst ps = dst @ foldl encode_pointer [] ps" for dst ps
    by (rule foldl_append) (metis encode_simps(1) append_Nil surj_pair)
  show "foldl encode_deleted dst ds = dst @ foldl encode_deleted [] ds" for dst ds
    by (rule foldl_append) (metis encode_simps(2) append_Nil surj_pair)
  show "foldl encode_new_file dst fs = dst @ foldl encode_new_file [] fs" for dst fs
    by (rule foldl_append) (metis encode_simps(3) append_Nil surj_pair)
qed

lemma loop_pointers:
  assumes "\<forall>(l, k)\<in>set ps. level_ok l \<and> length k < 2 ^ 32"
  shows "DecodeFrom_loop e (foldl encode_pointer [] ps @ rest) =
    DecodeFrom_loop (e\<lparr>ve_compact_pointers := ve_compact_pointers e @ ps\<rparr>) rest"
  using assms
proof (induction ps arbitrary: e)
  case (Cons p ps)
  obtain l k where p: "p = (l, k)" "level_ok l" "length k < 2 ^ 32" using Cons.prems by auto
  have "decode_field e (tag_code kCompactPointer) (EncodeVarint32 (of_int l) @ EncodeVarint32 (of_nat (length k)) @ k @ z) =
      Inr (e\<lparr>ve_compact_pointers := ve_compact_pointers e @ [(l, k)]\<rparr>, z)" for z
    using p by (simp add: decode_field_def tag_code_def or_message_def GetLevel_level GetInternalKey_def GetSlice_append)
  from loop_field [OF this] Cons.IH [of "e\<lparr>ve_compact_pointers := ve_compact_pointers e @ [(l, k)]\<rparr>"] Cons.prems
  show ?case unfolding foldl_Cons encode_append(1) [of "encode_pointer [] p"] by (simp add: p(1) encode_simps(1))
qed simp

lemma loop_deleted:
  assumes "\<forall>(l, n)\<in>set ds. level_ok l"
  shows "DecodeFrom_loop e (foldl encode_deleted [] ds @ rest) =
    DecodeFrom_loop (e\<lparr>ve_deleted_files := ve_deleted_files e \<union> set ds\<rparr>) rest"
  using assms
proof (induction ds arbitrary: e)
  case (Cons d ds)
  obtain l n where d: "d = (l, n)" "level_ok l" using Cons.prems by auto
  have "decode_field e (tag_code kDeletedFile) (EncodeVarint32 (of_int l) @ EncodeVarint64 n @ z) =
      Inr (e\<lparr>ve_deleted_files := insert (l, n) (ve_deleted_files e)\<rparr>, z)" for z
    using d by (simp add: decode_field_def tag_code_def or_message_def GetLevel_level)
  from loop_field [OF this] Cons.IH [of "e\<lparr>ve_deleted_files := insert (l, n) (ve_deleted_files e)\<rparr>"] Cons.prems
  show ?case unfolding foldl_Cons encode_append(2) [of "encode_deleted [] d"] by (simp add: d(1) encode_simps(2))
qed simp

lemma loop_new_files:
  assumes "\<forall>(l, f)\<in>set fs. level_ok l \<and> file_ok f"
  shows "DecodeFrom_loop e (foldl encode_new_file [] fs @ rest) =
    DecodeFrom_loop (e\<lparr>ve_new_files := ve_new_files e @ fs\<rparr>) rest"
  using assms
proof (induction fs arbitrary: e)
  case (Cons nf fs)
  obtain l f where f: "nf = (l, f)" "level_ok l" "file_ok f" using Cons.prems by auto
  have len: "length (fm_smallest f) < 2 ^ 32" "length (fm_largest f) < 2 ^ 32" using f(3) by (simp_all add: file_ok_def)
  have same: "FileMetaData_new (fm_number f) (fm_file_size f) (fm_smallest f) (fm_largest f) = f"
    using f(3) by (simp add: FileMetaData_new_def file_ok_def)
  have "decode_field e (tag_code kNewFile) (EncodeVarint32 (of_int l) @ EncodeVarint64 (fm_number f) @
        EncodeVarint64 (fm_file_size f) @ EncodeVarint32 (of_nat (length (fm_smallest f))) @ fm_smallest f @
        EncodeVarint32 (of_nat (length (fm_largest f))) @ fm_largest f @ z) =
      Inr (e\<lparr>ve_new_files := ve_new_files e @ [(l, f)]\<rparr>, z)" for z
    using f(2) len same
    by (simp add: decode_field_def tag_code_def or_message_def GetLevel_level GetInternalKey_def GetSlice_append)
  from loop_field [OF this] Cons.IH [of "e\<lparr>ve_new_files := ve_new_files e @ [(l, f)]\<rparr>"] Cons.prems
  show ?case unfolding foldl_Cons encode_append(3) [of "encode_new_file [] nf"] by (simp add: f(1) encode_simps(3))
qed simp

section \<open>Properties\<close>

text \<open>C37: A manifest record is read back as the edit it was written from, for every set of files added and
  deleted and every counter, into any edit; only the compaction pointers are added to those that the
  edit had before, as \<^verbatim>\<open>Clear\<close> does not remove them.\<close>
theorem version_edit_roundtrip:
  assumes "edit_ok e"
  shows "VersionEdit_DecodeFrom e0 (VersionEdit_EncodeTo e []) =
    (e\<lparr>ve_compact_pointers := ve_compact_pointers e0 @ ve_compact_pointers e\<rparr>, None)"
proof -
  let ?opt = "\<lambda>c bs. if c then bs else [] :: bytes"
  have E: "VersionEdit_EncodeTo e [] =
      ?opt (ve_has_comparator e) (EncodeVarint32 (tag_code kComparator) @ EncodeVarint32 (of_nat (length (ve_comparator e))) @ ve_comparator e) @
      ?opt (ve_has_log_number e) (EncodeVarint32 (tag_code kLogNumber) @ EncodeVarint64 (ve_log_number e)) @
      ?opt (ve_has_prev_log_number e) (EncodeVarint32 (tag_code kPrevLogNumber) @ EncodeVarint64 (ve_prev_log_number e)) @
      ?opt (ve_has_next_file_number e) (EncodeVarint32 (tag_code kNextFileNumber) @ EncodeVarint64 (ve_next_file_number e)) @
      ?opt (ve_has_last_sequence e) (EncodeVarint32 (tag_code kLastSequence) @ EncodeVarint64 (ve_last_sequence e)) @
      foldl encode_pointer [] (ve_compact_pointers e) @ foldl encode_deleted [] (sorted_list_of_set (ve_deleted_files e)) @
      foldl encode_new_file [] (ve_new_files e) @ []"
    unfolding VersionEdit_EncodeTo_def Let_def
    by (subst encode_append(3), subst encode_append(2), subst encode_append(1))
      (simp add: PutVarint32_def PutVarint64_def PutLengthPrefixedSlice_def)
  have ok: "length (ve_comparator e) < 2 ^ 32" "finite (ve_deleted_files e)"
    "\<forall>(l, k)\<in>set (ve_compact_pointers e). level_ok l \<and> length k < 2 ^ 32"
    "\<forall>(l, n)\<in>set (sorted_list_of_set (ve_deleted_files e)). level_ok l"
    "\<forall>(l, f)\<in>set (ve_new_files e). level_ok l \<and> file_ok f"
    using assms by (simp_all add: edit_ok_def)
  have stop: "DecodeFrom_loop a [] = (a, None)" for a
    by (subst DecodeFrom_loop.simps) (simp add: GetVarint32_def GetVarint32Ptr_def GetVarint32PtrFallback_def)
  show ?thesis
    unfolding VersionEdit_DecodeFrom_def E loop_scalar(1) [OF ok(1)] loop_scalar(2-5) loop_pointers [OF ok(3)]
      loop_deleted [OF ok(4)] loop_new_files [OF ok(5)] stop
    by (intro prod_eqI VersionEdit.equality) (use assms in \<open>simp_all add: VersionEdit_Clear_def edit_ok_def\<close>)
qed

theorem version_edit_roundtrip_witness:
  defines "e \<equiv> AddFile (VersionEdit_DeleteFile (SetLastSequence (SetComparatorName VersionEdit_new [99]) 17) 1 4) 0 7 1234
      (InternalKey [1] 5 kTypeValue) (InternalKey [2] 6 kTypeValue)"
  shows "VersionEdit_DecodeFrom VersionEdit_new (VersionEdit_EncodeTo e []) = (e, None)"
proof -
  have "edit_ok e"
    by (simp add: e_def edit_ok_def AddFile_def VersionEdit_DeleteFile_def SetLastSequence_def SetComparatorName_def
        VersionEdit_new_def level_ok_def file_ok_def FileMetaData_new_def InternalKey_simps)
  from version_edit_roundtrip [OF this, of VersionEdit_new] show ?thesis
    by (simp add: VersionEdit_new_def e_def AddFile_def VersionEdit_DeleteFile_def SetLastSequence_def SetComparatorName_def)
qed

end
