(* ===== verification/Table_Format.thy ===== *)
theory Table_Format
  imports Table_Block Crc32c Env_File
begin

text \<open>
  How a table file holds its blocks (\<^verbatim>\<open>table/format.cc\<close>, \<^verbatim>\<open>table/format.h\<close>, and the writing of a raw block
  in \<^verbatim>\<open>table/table_builder.cc\<close>): every block is followed by its type and a masked checksum, a block
  handle says where a block lies, and the footer has the handles of the two root blocks.
  \<^item> Snappy is a parameter: the compression and decompression functions, \<open>None\<close> where they fail.
  \<^item> An error is the text of its status. The size in a handle is added to the size of the trailer
    without wrapping around, which differs from the code for sizes of \<open>2 ^ 64 - 5\<close> and more.
  \<^item> Whether the contents may be cached or are to be freed is left out.
\<close>

section \<open>Handles and the footer\<close>

record BlockHandle =
  bh_offset :: u64
  bh_size :: u64

definition BlockHandle_new :: BlockHandle where
  "BlockHandle_new = \<lparr>bh_offset = NOT 0, bh_size = NOT 0\<rparr>"

definition BlockHandle_EncodeTo :: "BlockHandle \<Rightarrow> bytes \<Rightarrow> bytes" where
  "BlockHandle_EncodeTo h dst = PutVarint64 (PutVarint64 dst (bh_offset h)) (bh_size h)"

definition BlockHandle_DecodeFrom :: "bytes \<Rightarrow> string + (BlockHandle \<times> bytes)" where
  "BlockHandle_DecodeFrom input =
     (case Option.bind (GetVarint64 input) (\<lambda>(offset, input).
             map_option (\<lambda>(sz, input). (\<lparr>bh_offset = offset, bh_size = sz\<rparr>, input)) (GetVarint64 input)) of
        Some r \<Rightarrow> Inr r
      | None \<Rightarrow> Inl ''bad block handle'')"

definition kMaxEncodedLength :: nat where "kMaxEncodedLength = 10 + 10"
definition kEncodedLength :: nat where "kEncodedLength = 2 * kMaxEncodedLength + 8"
definition kTableMagicNumber :: u64 where "kTableMagicNumber = 0xdb4775248b80fb57"
definition kBlockTrailerSize :: nat where "kBlockTrailerSize = 5"

record Footer =
  ft_metaindex_handle :: BlockHandle
  ft_index_handle :: BlockHandle

definition Footer_EncodeTo :: "Footer \<Rightarrow> bytes \<Rightarrow> bytes" where
  "Footer_EncodeTo f dst =
     (let dst = BlockHandle_EncodeTo (ft_metaindex_handle f) dst;
          dst = BlockHandle_EncodeTo (ft_index_handle f) dst;
          dst = str_resize dst (2 * kMaxEncodedLength);
          dst = PutFixed32 dst (ucast (kTableMagicNumber AND 0xffffffff))
      in PutFixed32 dst (ucast (drop_bit 32 kTableMagicNumber)))"

definition Footer_DecodeFrom :: "bytes \<Rightarrow> string + (Footer \<times> bytes)" where
  "Footer_DecodeFrom input =
     (let magic_ptr = drop (kEncodedLength - 8) input;
          magic_lo = DecodeFixed32 magic_ptr;
          magic_hi = DecodeFixed32 (drop 4 magic_ptr);
          magic = push_bit 32 (ucast magic_hi) OR ucast magic_lo :: u64
      in if magic \<noteq> kTableMagicNumber then Inl ''not an sstable (bad magic number)''
         else
           (case BlockHandle_DecodeFrom input of
              Inl msg \<Rightarrow> Inl msg
            | Inr (metaindex, rest) \<Rightarrow>
                (case BlockHandle_DecodeFrom rest of
                   Inl msg \<Rightarrow> Inl msg
                 | Inr (index, rest) \<Rightarrow>
                     Inr (\<lparr>ft_metaindex_handle = metaindex, ft_index_handle = index\<rparr>, drop kEncodedLength input))))"

section \<open>Blocks in a file\<close>

datatype CompressionType = kNoCompression | kSnappyCompression

definition compression_code :: "CompressionType \<Rightarrow> byte" where
  "compression_code t = (case t of kNoCompression \<Rightarrow> 0 | kSnappyCompression \<Rightarrow> 1)"

record Snappy =
  sn_compress :: "bytes \<Rightarrow> bytes option"
  sn_uncompress :: "bytes \<Rightarrow> bytes option"

definition block_trailer :: "bytes \<Rightarrow> CompressionType \<Rightarrow> bytes" where
  "block_trailer block_contents t =
     (let trailer0 = compression_code t;
          crc = crc32c_Value 0 block_contents;
          crc = crc32c_Extend 0 crc [trailer0]
      in trailer0 # EncodeFixed32 (crc32c_Mask crc))"

definition Format_ReadBlock :: "Snappy \<Rightarrow> RandomAccessFile \<Rightarrow> bool \<Rightarrow> BlockHandle \<Rightarrow> string + bytes" where
  "Format_ReadBlock snappy file verify_checksums handle =
     (let n = unat (bh_size handle)
      in case file (bh_offset handle) (n + kBlockTrailerSize) of
           None \<Rightarrow> Inl ''IO error''
         | Some data \<Rightarrow>
             if length data \<noteq> n + kBlockTrailerSize then Inl ''truncated block read''
             else if verify_checksums \<and> crc32c_Value 0 (take (n + 1) data) \<noteq> crc32c_Unmask (DecodeFixed32 (drop (n + 1) data))
             then Inl ''block checksum mismatch''
             else if data ! n = compression_code kNoCompression then Inr (take n data)
             else if data ! n = compression_code kSnappyCompression then
               (case sn_uncompress snappy (take n data) of
                  None \<Rightarrow> Inl ''corrupted compressed block contents''
                | Some raw \<Rightarrow> Inr raw)
             else Inl ''bad block type'')"

section \<open>Reading back\<close>

lemma BlockHandle_decode [simp]: "BlockHandle_DecodeFrom (BlockHandle_EncodeTo h [] @ rest) = Inr (h, rest)"
  by (simp add: BlockHandle_DecodeFrom_def BlockHandle_EncodeTo_def PutVarint64_def)

lemma BlockHandle_encode_append: "BlockHandle_EncodeTo h dst = dst @ BlockHandle_EncodeTo h []"
  by (simp add: BlockHandle_EncodeTo_def PutVarint64_def)

lemma length_BlockHandle: "length (BlockHandle_EncodeTo h []) \<le> kMaxEncodedLength"
  using length_EncodeVarint64_le [of "bh_offset h"] length_EncodeVarint64_le [of "bh_size h"]
  by (simp add: BlockHandle_EncodeTo_def PutVarint64_def kMaxEncodedLength_def)

lemma Footer_roundtrip:
  "length (Footer_EncodeTo f []) = kEncodedLength" "Footer_DecodeFrom (Footer_EncodeTo f []) = Inr (f, [])"
proof -
  let ?hs = "BlockHandle_EncodeTo (ft_metaindex_handle f) [] @ BlockHandle_EncodeTo (ft_index_handle f) []"
  let ?lo = "ucast (kTableMagicNumber AND 0xffffffff) :: u32" and ?hi = "ucast (drop_bit 32 kTableMagicNumber) :: u32"
  have len: "length ?hs \<le> 40"
    using length_BlockHandle [of "ft_metaindex_handle f"] length_BlockHandle [of "ft_index_handle f"]
    by (simp add: kMaxEncodedLength_def)
  then have E: "Footer_EncodeTo f [] = ?hs @ replicate (40 - length ?hs) 0 @ EncodeFixed32 ?lo @ EncodeFixed32 ?hi"
    unfolding Footer_EncodeTo_def Let_def
    by (simp add: BlockHandle_encode_append [of _ "BlockHandle_EncodeTo _ _"] str_resize_def PutFixed32_def kMaxEncodedLength_def)
  show l: "length (Footer_EncodeTo f []) = kEncodedLength"
    unfolding E using len by (simp add: kEncodedLength_def kMaxEncodedLength_def)
  have "drop 40 (Footer_EncodeTo f []) = EncodeFixed32 ?lo @ EncodeFixed32 ?hi" unfolding E using len by simp
  moreover have "push_bit 32 (ucast ?hi) OR ucast ?lo = kTableMagicNumber" by (simp add: kTableMagicNumber_def)
  ultimately show "Footer_DecodeFrom (Footer_EncodeTo f []) = Inr (f, [])"
    using len unfolding Footer_DecodeFrom_def Let_def
    by (simp add: kEncodedLength_def kMaxEncodedLength_def) (simp add: E kEncodedLength_def kMaxEncodedLength_def)
qed

text \<open>The raw block \<open>raw\<close> is stored in the file where the handle says.\<close>

definition block_at :: "Snappy \<Rightarrow> bytes \<Rightarrow> BlockHandle \<Rightarrow> bytes \<Rightarrow> bool" where
  "block_at snappy content h raw \<longleftrightarrow>
     (\<exists>stored t. (case t of kNoCompression \<Rightarrow> stored = raw | kSnappyCompression \<Rightarrow> sn_uncompress snappy stored = Some raw) \<and>
        unat (bh_size h) = length stored \<and> unat (bh_offset h) + length stored + kBlockTrailerSize \<le> length content \<and>
        take (length stored + kBlockTrailerSize) (drop (unat (bh_offset h)) content) = stored @ block_trailer stored t)"

lemma length_trailer [simp]: "length (block_trailer c t) = kBlockTrailerSize"
  by (simp add: block_trailer_def Let_def kBlockTrailerSize_def)

lemma block_at_append:
  assumes "block_at snappy content h raw"
  shows "block_at snappy (content @ rest) h raw"
  using assms unfolding block_at_def by (elim exE conjE) (intro exI conjI; assumption?; simp)

lemma Format_ReadBlock_at:
  assumes "block_at snappy content h raw"
    and "\<And>off n. unat off + n \<le> length content \<Longrightarrow> file off n = Some (take n (drop (unat off) content))"
  shows "Format_ReadBlock snappy file verify h = Inr raw"
proof -
  obtain stored t where S: "case t of kNoCompression \<Rightarrow> stored = raw | kSnappyCompression \<Rightarrow> sn_uncompress snappy stored = Some raw"
    "unat (bh_size h) = length stored" "unat (bh_offset h) + (length stored + kBlockTrailerSize) \<le> length content"
    "take (length stored + kBlockTrailerSize) (drop (unat (bh_offset h)) content) = stored @ block_trailer stored t"
    using assms(1) unfolding block_at_def add.assoc by blast
  have read: "file (bh_offset h) (length stored + kBlockTrailerSize) = Some (stored @ block_trailer stored t)"
    using assms(2) [OF S(3)] S(4) by simp
  let ?data = "stored @ block_trailer stored t"
  have t: "?data ! length stored = compression_code t"
    "take (length stored + 1) ?data = stored @ [compression_code t]"
    "drop (length stored + 1) ?data = EncodeFixed32 (crc32c_Mask (crc32c 0 (stored @ [compression_code t])))"
    by (simp_all add: block_trailer_def Let_def crc32c_Value_def crc32c_Extend_crc crc32c_append)
  have "\<not> (verify \<and> crc32c_Value 0 (take (length stored + 1) ?data) \<noteq>
      crc32c_Unmask (DecodeFixed32 (drop (length stored + 1) ?data)))"
    unfolding t(2,3) by (simp add: crc32c_Value_def crc32c_Extend_crc Unmask_Mask)
  moreover have "take (length stored) ?data = stored" by simp
  moreover have "length ?data = length stored + kBlockTrailerSize" by simp
  ultimately show ?thesis
    using read t(1) S(1) unfolding Format_ReadBlock_def Let_def S(2)
    by (cases t) (simp_all add: compression_code_def del: append_assoc)
qed

end
