(* ===== verification/Table_Builder.thy ===== *)
theory Table_Builder
  imports Table_Format Filter_Block
begin

text \<open>
  The builder of a table file (\<^verbatim>\<open>table/table_builder.cc\<close>): data blocks, a filter block, the metaindex
  block that names it, an index block with one entry for each data block, and the footer.
  \<^item> The state of the builder holds the file, of the interface \<open>WritableFile\<close>; a status is whether
    it is OK.
  \<^item> The options hold the functions of the comparator and of the filter policy. \<^verbatim>\<open>ChangeOptions\<close> is left
    out: the options of a table do not change.
\<close>

section \<open>Options and state\<close>

record FilterPolicy =
  fp_name :: bytes
  fp_create :: "bytes list \<Rightarrow> bytes \<Rightarrow> bytes"
  fp_may_match :: "bytes \<Rightarrow> bytes \<Rightarrow> bool"

record TableOptions =
  to_compare :: "bytes \<Rightarrow> bytes \<Rightarrow> int"
  to_separator :: "bytes \<Rightarrow> bytes \<Rightarrow> bytes"
  to_successor :: "bytes \<Rightarrow> bytes"
  to_block_size :: nat
  to_block_restart_interval :: nat
  to_compression :: CompressionType
  to_snappy :: Snappy
  to_filter_policy :: "FilterPolicy option"

record 'f TableBuilder =
  tb_file :: 'f
  tb_offset :: u64
  tb_status :: bool
  tb_data_block :: BlockBuilder
  tb_index_block :: BlockBuilder
  tb_last_key :: bytes
  tb_num_entries :: nat
  tb_closed :: bool
  tb_filter_block :: "FilterBlockBuilder option"
  tb_pending_index_entry :: bool
  tb_pending_handle :: BlockHandle

definition TableBuilder_new :: "TableOptions \<Rightarrow> 'f \<Rightarrow> 'f TableBuilder" where
  "TableBuilder_new opts f =
     \<lparr>tb_file = f, tb_offset = 0, tb_status = True, tb_data_block = BlockBuilder_new, tb_index_block = BlockBuilder_new,
      tb_last_key = [], tb_num_entries = 0, tb_closed = False,
      tb_filter_block = map_option (\<lambda>p. StartBlock (fp_create p) FilterBlockBuilder_new 0) (to_filter_policy opts),
      tb_pending_index_entry = False, tb_pending_handle = BlockHandle_new\<rparr>"

section \<open>Operations\<close>

definition WriteRawBlock ::
  "'f WritableFile \<Rightarrow> 'f TableBuilder \<Rightarrow> bytes \<Rightarrow> CompressionType \<Rightarrow> 'f TableBuilder \<times> BlockHandle" where
  "WriteRawBlock env r block_contents t =
     (let handle = \<lparr>bh_offset = tb_offset r, bh_size = of_nat (length block_contents)\<rparr>;
          (f, s) = wf_Append env (tb_file r) block_contents
      in if s then
           (let (f, s) = wf_Append env f (block_trailer block_contents t)
            in (r\<lparr>tb_file := f, tb_status := s,
                  tb_offset := (if s then tb_offset r + of_nat (length block_contents + kBlockTrailerSize) else tb_offset r)\<rparr>,
                handle))
         else (r\<lparr>tb_file := f, tb_status := s\<rparr>, handle))"

definition compress_block :: "TableOptions \<Rightarrow> bytes \<Rightarrow> bytes \<times> CompressionType" where
  "compress_block opts raw =
     (case to_compression opts of
        kNoCompression \<Rightarrow> (raw, kNoCompression)
      | kSnappyCompression \<Rightarrow>
          (case sn_compress (to_snappy opts) raw of
             Some compressed \<Rightarrow>
               if length compressed < length raw - length raw div 8 then (compressed, kSnappyCompression)
               else (raw, kNoCompression)
           | None \<Rightarrow> (raw, kNoCompression)))"

definition WriteBlock ::
  "'f WritableFile \<Rightarrow> TableOptions \<Rightarrow> 'f TableBuilder \<Rightarrow> BlockBuilder \<Rightarrow> 'f TableBuilder \<times> BlockBuilder \<times> BlockHandle"
where
  "WriteBlock env opts r block =
     (let (block, raw) = BlockBuilder_Finish block;
          (block_contents, t) = compress_block opts raw;
          (r, handle) = WriteRawBlock env r block_contents t
      in (r, BlockBuilder_Reset block, handle))"

definition TableBuilder_Flush :: "'f WritableFile \<Rightarrow> TableOptions \<Rightarrow> 'f TableBuilder \<Rightarrow> 'f TableBuilder" where
  "TableBuilder_Flush env opts r =
     (if \<not> tb_status r then r
      else if bb_buffer (tb_data_block r) = [] then r
      else
        (let (r, block, handle) = WriteBlock env opts r (tb_data_block r);
             r = r\<lparr>tb_data_block := block, tb_pending_handle := handle\<rparr>;
             r = (if tb_status r
                  then (let (f, s) = wf_Flush env (tb_file r)
                        in r\<lparr>tb_pending_index_entry := True, tb_file := f, tb_status := s\<rparr>)
                  else r)
         in r\<lparr>tb_filter_block :=
               (case to_filter_policy opts of
                  Some p \<Rightarrow> map_option (\<lambda>b. StartBlock (fp_create p) b (tb_offset r)) (tb_filter_block r)
                | None \<Rightarrow> tb_filter_block r)\<rparr>))"

definition add_index_entry :: "'f TableBuilder \<Rightarrow> bytes \<Rightarrow> 'f TableBuilder" where
  "add_index_entry r last_key =
     r\<lparr>tb_last_key := last_key,
       tb_index_block := BlockBuilder_Add 1 (tb_index_block r) last_key (BlockHandle_EncodeTo (tb_pending_handle r) []),
       tb_pending_index_entry := False\<rparr>"

definition TableBuilder_Add ::
  "'f WritableFile \<Rightarrow> TableOptions \<Rightarrow> 'f TableBuilder \<Rightarrow> bytes \<Rightarrow> bytes \<Rightarrow> 'f TableBuilder" where
  "TableBuilder_Add env opts r key v =
     (if \<not> tb_status r then r
      else
        (let r = (if tb_pending_index_entry r then add_index_entry r (to_separator opts (tb_last_key r) key) else r);
             r = r\<lparr>tb_filter_block := map_option (\<lambda>b. AddKey b key) (tb_filter_block r), tb_last_key := key,
                   tb_num_entries := tb_num_entries r + 1,
                   tb_data_block := BlockBuilder_Add (to_block_restart_interval opts) (tb_data_block r) key v\<rparr>
         in if CurrentSizeEstimate (tb_data_block r) \<ge> to_block_size opts then TableBuilder_Flush env opts r else r))"

definition filter_key :: "bytes \<Rightarrow> bytes" where
  "filter_key name = map (\<lambda>c. of_char c) ''filter.'' @ name"

definition write_filter_block :: "'f WritableFile \<Rightarrow> TableOptions \<Rightarrow> 'f TableBuilder \<Rightarrow> 'f TableBuilder \<times> BlockHandle" where
  "write_filter_block env opts r =
     (case (tb_filter_block r, to_filter_policy opts) of
        (Some b, Some p) \<Rightarrow>
          if tb_status r then WriteRawBlock env r (FilterBlock_Finish (fp_create p) b) kNoCompression
          else (r, BlockHandle_new)
      | _ \<Rightarrow> (r, BlockHandle_new))"

definition metaindex_block :: "TableOptions \<Rightarrow> BlockHandle \<Rightarrow> BlockBuilder" where
  "metaindex_block opts filter_block_handle =
     (case to_filter_policy opts of
        Some p \<Rightarrow> BlockBuilder_Add (to_block_restart_interval opts) BlockBuilder_new (filter_key (fp_name p))
          (BlockHandle_EncodeTo filter_block_handle [])
      | None \<Rightarrow> BlockBuilder_new)"

definition TableBuilder_Finish :: "'f WritableFile \<Rightarrow> TableOptions \<Rightarrow> 'f TableBuilder \<Rightarrow> 'f TableBuilder \<times> bool" where
  "TableBuilder_Finish env opts r =
     (let r = (TableBuilder_Flush env opts r)\<lparr>tb_closed := True\<rparr>;
          (r, filter_block_handle) = write_filter_block env opts r;
          (r, metaindex_block_handle) =
            (if tb_status r
             then (let (r, _, h) = WriteBlock env opts r (metaindex_block opts filter_block_handle) in (r, h))
             else (r, BlockHandle_new));
          (r, index_block_handle) =
            (if tb_status r then
               (let r = (if tb_pending_index_entry r then add_index_entry r (to_successor opts (tb_last_key r)) else r);
                    (r, block, h) = WriteBlock env opts r (tb_index_block r)
                in (r\<lparr>tb_index_block := block\<rparr>, h))
             else (r, BlockHandle_new));
          r = (if tb_status r then
                 (let footer_encoding = Footer_EncodeTo
                        \<lparr>ft_metaindex_handle = metaindex_block_handle, ft_index_handle = index_block_handle\<rparr> [];
                      (f, s) = wf_Append env (tb_file r) footer_encoding
                  in r\<lparr>tb_file := f, tb_status := s,
                       tb_offset := (if s then tb_offset r + of_nat (length footer_encoding) else tb_offset r)\<rparr>)
               else r)
      in (r, tb_status r))"

definition Abandon :: "'f TableBuilder \<Rightarrow> 'f TableBuilder" where
  "Abandon r = r\<lparr>tb_closed := True\<rparr>"

definition NumEntries :: "'f TableBuilder \<Rightarrow> nat" where
  "NumEntries r = tb_num_entries r"

definition FileSize :: "'f TableBuilder \<Rightarrow> u64" where
  "FileSize r = tb_offset r"

section \<open>Sizes\<close>

lemma length_Add: "length (bb_buffer (BlockBuilder_Add n b k v)) \<le> length (bb_buffer b) + 15 + length k + length v"
  "length (bb_restarts (BlockBuilder_Add n b k v)) \<le> length (bb_restarts b) + 1"
proof -
  have "length (EncodeVarint32 x @ EncodeVarint32 y @ EncodeVarint32 z) \<le> 15" for x y z
    using length_EncodeVarint32_le [of x] length_EncodeVarint32_le [of y] length_EncodeVarint32_le [of z] by simp
  note le = this [unfolded length_append]
  show "length (bb_buffer (BlockBuilder_Add n b k v)) \<le> length (bb_buffer b) + 15 + length k + length v"
    using le [of "of_nat (common_prefix (bb_last_key b) k)" "of_nat (length k - common_prefix (bb_last_key b) k)" "of_nat (length v)"]
      le [of 0 "of_nat (length k)" "of_nat (length v)"]
    by (auto simp: BlockBuilder_Add_def PutVarint32_def)
  show "length (bb_restarts (BlockBuilder_Add n b k v)) \<le> length (bb_restarts b) + 1"
    by (simp add: BlockBuilder_Add_def split: prod.split)
qed

lemma length_Finish: "length (snd (BlockBuilder_Finish b)) = CurrentSizeEstimate b"
proof -
  have "length (foldl PutFixed32 z rs) = length z + 4 * length rs" for z rs
    by (induction rs arbitrary: z) (simp_all add: PutFixed32_def)
  then show ?thesis by (simp add: BlockBuilder_Finish_def Let_def CurrentSizeEstimate_def PutFixed32_def)
qed

lemma length_Add_all:
  "CurrentSizeEstimate (Add_all n b kvs) \<le> CurrentSizeEstimate b + (\<Sum>(k, v)\<leftarrow>kvs. length k + length v + 19)"
proof (induction kvs arbitrary: b)
  case (Cons kv kvs)
  obtain k v where kv: "kv = (k, v)" by fastforce
  have "CurrentSizeEstimate (BlockBuilder_Add n b k v) \<le> CurrentSizeEstimate b + (length k + length v + 19)"
    using length_Add [of n b k v] by (simp add: CurrentSizeEstimate_def)
  then show ?case using Cons [of "BlockBuilder_Add n b k v"] by (simp add: kv)
qed simp

section \<open>What the builder keeps\<close>

text \<open>A raw block is stored at an offset of the file.\<close>

definition stored_at :: "Snappy \<Rightarrow> bytes \<Rightarrow> nat \<times> nat \<Rightarrow> bytes \<Rightarrow> bool" where
  "stored_at snappy content ol raw \<longleftrightarrow>
     (\<exists>stored t. (case t of kNoCompression \<Rightarrow> stored = raw | kSnappyCompression \<Rightarrow> sn_uncompress snappy stored = Some raw) \<and>
        snd ol = length stored \<and> fst ol + length stored + kBlockTrailerSize \<le> length content \<and>
        take (length stored + kBlockTrailerSize) (drop (fst ol) content) = stored @ block_trailer stored t)"

abbreviation handle_of :: "nat \<times> nat \<Rightarrow> BlockHandle" where
  "handle_of ol \<equiv> \<lparr>bh_offset = of_nat (fst ol), bh_size = of_nat (snd ol)\<rparr>"

lemma stored_at_append: "stored_at snappy content ol raw \<Longrightarrow> stored_at snappy (content @ rest) ol raw"
  unfolding stored_at_def by (elim exE conjE) (intro exI conjI; assumption?; simp)

text \<open>A raw block that is stored without compression.\<close>

definition stored_raw :: "Snappy \<Rightarrow> bytes \<Rightarrow> nat \<times> nat \<Rightarrow> bytes \<Rightarrow> bool" where
  "stored_raw snappy content ol raw \<longleftrightarrow> stored_at snappy content ol raw \<and> length raw \<le> length content"

lemma stored_raw_append: "stored_raw snappy content ol raw \<Longrightarrow> stored_raw snappy (content @ rest) ol raw"
  by (simp add: stored_raw_def stored_at_append)

lemma stored_block_at:
  assumes "stored_at snappy content ol raw" "length content < 2 ^ 64"
  shows "block_at snappy content (handle_of ol) raw"
proof -
  have "fst ol < 2 ^ 64" "snd ol < 2 ^ 64" using assms by (auto simp: stored_at_def)
  then have "unat (of_nat (fst ol) :: u64) = fst ol" "unat (of_nat (snd ol) :: u64) = snd ol"
    by (simp_all add: unat_of_nat take_bit_nat_eq_self)
  then show ?thesis using assms(1) unfolding stored_at_def block_at_def by (elim exE conjE) (intro exI conjI; assumption?; simp)
qed

definition snappy_ok :: "Snappy \<Rightarrow> bool" where
  "snappy_ok s \<longleftrightarrow> (\<forall>raw c. sn_compress s raw = Some c \<longrightarrow> sn_uncompress s c = Some raw)"

definition file_at :: "('f \<Rightarrow> bytes) \<Rightarrow> 'f TableBuilder \<Rightarrow> bool" where
  "file_at content r \<longleftrightarrow> tb_status r \<and> tb_offset r = of_nat (length (content (tb_file r)))"

lemma WriteRawBlock_ok:
  assumes "appends env content" "file_at content r"
    and "case t of kNoCompression \<Rightarrow> c = raw | kSnappyCompression \<Rightarrow> sn_uncompress snappy c = Some raw"
  shows "\<exists>f. WriteRawBlock env r c t = (r\<lparr>tb_file := f, tb_offset := of_nat (length (content f))\<rparr>,
      handle_of (length (content (tb_file r)), length c)) \<and>
    content f = content (tb_file r) @ c @ block_trailer c t \<and>
    stored_at snappy (content f) (length (content (tb_file r)), length c) raw"
proof -
  obtain f1 where f1: "wf_Append env (tb_file r) c = (f1, True)" "content f1 = content (tb_file r) @ c"
    using assms(1) unfolding appends_def by blast
  obtain f2 where f2: "wf_Append env f1 (block_trailer c t) = (f2, True)" "content f2 = content f1 @ block_trailer c t"
    using assms(1) unfolding appends_def by blast
  have "stored_at snappy (content f2) (length (content (tb_file r)), length c) raw"
    unfolding stored_at_def using assms(3) f1(2) f2(2) by (intro exI [of _ c] exI [of _ t]) simp
  moreover have "r\<lparr>tb_status := True\<rparr> = r" using assms(2) by (simp add: file_at_def)
  then have "r\<lparr>tb_file := f2, tb_status := True, tb_offset := z\<rparr> = r\<lparr>tb_file := f2, tb_offset := z\<rparr>" for z
    by (cases r) simp
  ultimately show ?thesis
    using f1 f2 assms(2) by (intro exI [of _ f2]) (simp add: WriteRawBlock_def file_at_def)
qed

lemma compress_block_ok:
  assumes "snappy_ok (to_snappy opts)" "compress_block opts raw = (c, t)"
  shows "case t of kNoCompression \<Rightarrow> c = raw | kSnappyCompression \<Rightarrow> sn_uncompress (to_snappy opts) c = Some raw"
  using assms by (auto simp: compress_block_def snappy_ok_def split: CompressionType.splits option.splits if_splits)

lemma Reset_new: "BlockBuilder_Reset b = BlockBuilder_new"
  by (simp add: BlockBuilder_Reset_def BlockBuilder_new_def)

lemma WriteBlock_ok:
  assumes "appends env content" "file_at content r" "snappy_ok (to_snappy opts)"
  shows "\<exists>f z n. WriteBlock env opts r b = (r\<lparr>tb_file := f, tb_offset := of_nat (length (content f))\<rparr>, BlockBuilder_new,
      handle_of (length (content (tb_file r)), n)) \<and> content f = content (tb_file r) @ z \<and>
    stored_at (to_snappy opts) (content f) (length (content (tb_file r)), n) (snd (BlockBuilder_Finish b))"
proof -
  obtain c t where ct: "compress_block opts (snd (BlockBuilder_Finish b)) = (c, t)" by fastforce
  obtain f where "WriteRawBlock env r c t = (r\<lparr>tb_file := f, tb_offset := of_nat (length (content f))\<rparr>,
      handle_of (length (content (tb_file r)), length c))" "content f = content (tb_file r) @ c @ block_trailer c t"
    "stored_at (to_snappy opts) (content f) (length (content (tb_file r)), length c) (snd (BlockBuilder_Finish b))"
    using WriteRawBlock_ok [OF assms(1,2) compress_block_ok [OF assms(3) ct]] by blast
  then show ?thesis
    using ct by (intro exI [of _ f] exI [of _ "c @ block_trailer c t"] exI [of _ "length c"])
      (simp add: WriteBlock_def case_prod_beta Reset_new)
qed

text \<open>The contents of a table: an index entry with the place of its block, and the entries of the block.\<close>

record Part =
  pt_sep :: bytes
  pt_place :: "nat \<times> nat"
  pt_kvs :: "(bytes \<times> bytes) list"

definition index_kvs :: "Part list \<Rightarrow> (bytes \<times> bytes) list" where
  "index_kvs ps = map (\<lambda>p. (pt_sep p, BlockHandle_EncodeTo (handle_of (pt_place p)) [])) ps"

definition data_bytes :: "TableOptions \<Rightarrow> (bytes \<times> bytes) list \<Rightarrow> bytes" where
  "data_bytes opts kvs = snd (BlockBuilder_Finish (Add_all (to_block_restart_interval opts) BlockBuilder_new kvs))"

definition part_stored :: "TableOptions \<Rightarrow> bytes \<Rightarrow> Part \<Rightarrow> bool" where
  "part_stored opts content p \<longleftrightarrow> pt_kvs p \<noteq> [] \<and>
     stored_at (to_snappy opts) content (pt_place p) (data_bytes opts (pt_kvs p))"

definition filter_blocks :: "Part list \<Rightarrow> (u64 \<times> bytes list) list" where
  "filter_blocks ps = map (\<lambda>p. (of_nat (fst (pt_place p)), map fst (pt_kvs p))) ps"

abbreviation add_filter_block ::
  "(bytes list \<Rightarrow> bytes \<Rightarrow> bytes) \<Rightarrow> FilterBlockBuilder \<Rightarrow> u64 \<times> bytes list \<Rightarrow> FilterBlockBuilder" where
  "add_filter_block create b blk \<equiv> foldl AddKey (StartBlock create b (fst blk)) (snd blk)"

definition filter_state :: "TableOptions \<Rightarrow> (u64 \<times> bytes list) list \<Rightarrow> FilterBlockBuilder option" where
  "filter_state opts blks = map_option (\<lambda>p. foldl (add_filter_block (fp_create p)) FilterBlockBuilder_new blks) (to_filter_policy opts)"

text \<open>The parts written, the part whose index entry is pending (its separator is not chosen yet), and the
  entries of the data block being built.\<close>

definition tb_ok ::
  "('f \<Rightarrow> bytes) \<Rightarrow> TableOptions \<Rightarrow> 'f TableBuilder \<Rightarrow> Part list \<Rightarrow> Part list \<Rightarrow> (bytes \<times> bytes) list \<Rightarrow> bool"
where
  "tb_ok content opts r ps pend cur \<longleftrightarrow>
     file_at content r \<and> tb_index_block r = Add_all 1 BlockBuilder_new (index_kvs ps) \<and>
     tb_data_block r = Add_all (to_block_restart_interval opts) BlockBuilder_new cur \<and>
     (\<forall>p\<in>set (ps @ pend). part_stored opts (content (tb_file r)) p) \<and>
     sorted_wrt (<) (map (\<lambda>p. fst (pt_place p)) (ps @ pend)) \<and>
     tb_filter_block r = filter_state opts (filter_blocks (ps @ pend) @ [(tb_offset r, map fst cur)]) \<and>
     (case pend of [] \<Rightarrow> \<not> tb_pending_index_entry r \<and> (cur = [] \<longrightarrow> ps = []) \<and> (cur \<noteq> [] \<longrightarrow> tb_last_key r = fst (last cur))
      | p # q \<Rightarrow> q = [] \<and> cur = [] \<and> tb_pending_index_entry r \<and> tb_pending_handle r = handle_of (pt_place p) \<and>
          tb_last_key r = fst (last (pt_kvs p)))"

lemma tb_ok_new:
  assumes "content f = []"
  shows "tb_ok content opts (TableBuilder_new opts f) [] [] []"
  using assms by (cases "to_filter_policy opts")
    (simp_all add: tb_ok_def TableBuilder_new_def file_at_def index_kvs_def filter_blocks_def filter_state_def)

lemma Add_all_empty: "0 < n \<Longrightarrow> bb_buffer (Add_all n BlockBuilder_new kvs) = [] \<longleftrightarrow> kvs = []"
proof -
  assume n: "0 < n"
  obtain ts rs where B: "builder_ok (Add_all n BlockBuilder_new kvs) ts rs" "map snd ts = kvs"
    using builder_ok_Add_all [OF builder_ok_new(1) n, of kvs] by auto
  then have "bb_buffer (Add_all n BlockBuilder_new kvs) = concat (map piece_bytes ts)" by (simp add: builder_ok_def)
  moreover have "piece_bytes t \<noteq> []" for t using piece_pos [of t] by (rule contrapos_pn) simp
  ultimately show ?thesis using B(2) by (cases ts) auto
qed

lemma Flush_ok:
  assumes "tb_ok content opts r ps [] cur" "appends env content" "snappy_ok (to_snappy opts)" "0 < to_block_restart_interval opts"
    and "cur \<noteq> []"
  shows "\<exists>z n. tb_ok content opts (TableBuilder_Flush env opts r) ps
      [\<lparr>pt_sep = [], pt_place = (length (content (tb_file r)), n), pt_kvs = cur\<rparr>] [] \<and>
    content (tb_file (TableBuilder_Flush env opts r)) = content (tb_file r) @ z"
proof -
  have r: "file_at content r" "tb_data_block r = Add_all (to_block_restart_interval opts) BlockBuilder_new cur"
    "\<forall>p\<in>set ps. part_stored opts (content (tb_file r)) p" "sorted_wrt (<) (map (\<lambda>p. fst (pt_place p)) ps)"
    "tb_filter_block r = filter_state opts (filter_blocks ps @ [(tb_offset r, map fst cur)])"
    "tb_index_block r = Add_all 1 BlockBuilder_new (index_kvs ps)" "tb_last_key r = fst (last cur)"
    using assms(1,5) by (simp_all add: tb_ok_def)
  obtain f z n where W: "WriteBlock env opts r (tb_data_block r) =
      (r\<lparr>tb_file := f, tb_offset := of_nat (length (content f))\<rparr>, BlockBuilder_new, handle_of (length (content (tb_file r)), n))"
    "content f = content (tb_file r) @ z"
    "stored_at (to_snappy opts) (content f) (length (content (tb_file r)), n) (data_bytes opts cur)"
    using WriteBlock_ok [OF assms(2) r(1) assms(3), of "tb_data_block r"] unfolding r(2) data_bytes_def by blast
  obtain f' where f': "wf_Flush env f = (f', True)" "content f' = content f" using assms(2) unfolding appends_def by blast
  have st: "tb_status r" using r(1) by (simp add: file_at_def)
  have ne: "bb_buffer (tb_data_block r) \<noteq> []" unfolding r(2) using Add_all_empty [OF assms(4)] assms(5) by simp
  let ?r = "r\<lparr>tb_file := f', tb_offset := of_nat (length (content f)), tb_data_block := BlockBuilder_new,
      tb_pending_handle := handle_of (length (content (tb_file r)), n), tb_pending_index_entry := True,
      tb_filter_block := filter_state opts (filter_blocks ps @ [(tb_offset r, map fst cur), (of_nat (length (content f)), [])])\<rparr>"
  have fl: "TableBuilder_Flush env opts r = ?r"
    using st ne W(1) f'(1) r(5)
    by (cases "to_filter_policy opts") (simp_all add: TableBuilder_Flush_def filter_state_def)
  have "fst (pt_place p) < length (content (tb_file r))" if "p \<in> set ps" for p
    using r(3) that by (auto simp: part_stored_def stored_at_def kBlockTrailerSize_def)
  moreover have "part_stored opts (content f) p" if "p \<in> set ps" for p
    using r(3) that W(2) stored_at_append by (fastforce simp: part_stored_def)
  ultimately have "tb_ok content opts ?r ps [\<lparr>pt_sep = [], pt_place = (length (content (tb_file r)), n), pt_kvs = cur\<rparr>] []"
    using r(1,4,6,7) W(3) f'(2) st assms(5)
    by (simp add: tb_ok_def file_at_def part_stored_def sorted_wrt_append filter_blocks_def)
  then show ?thesis unfolding fl using f'(2) W(2) by auto
qed

text \<open>Adding an entry gives the pending part its separator.\<close>

lemma Add_ok:
  fixes key v :: bytes
  assumes "tb_ok content opts r ps pend cur" "appends env content" "snappy_ok (to_snappy opts)" "0 < to_block_restart_interval opts"
  defines "sep \<equiv> to_separator opts (tb_last_key r) key"
  shows "\<exists>z ps' pend' cur'. ps' = ps @ map (\<lambda>p. p\<lparr>pt_sep := sep\<rparr>) pend \<and>
    (pend' = [] \<and> cur' = cur @ [(key, v)] \<or> cur' = [] \<and> (\<exists>ol. pend' = [\<lparr>pt_sep = [], pt_place = ol, pt_kvs = cur @ [(key, v)]\<rparr>])) \<and>
    tb_ok content opts (TableBuilder_Add env opts r key v) ps' pend' cur' \<and>
    content (tb_file (TableBuilder_Add env opts r key v)) = content (tb_file r) @ z"
proof -
  let ?r1 = "if tb_pending_index_entry r then add_index_entry r sep else r"
  let ?r2 = "?r1\<lparr>tb_filter_block := map_option (\<lambda>b. AddKey b key) (tb_filter_block ?r1), tb_last_key := key,
      tb_num_entries := tb_num_entries ?r1 + 1,
      tb_data_block := BlockBuilder_Add (to_block_restart_interval opts) (tb_data_block ?r1) key v\<rparr>"
  let ?ps = "ps @ map (\<lambda>p. p\<lparr>pt_sep := sep\<rparr>) pend"
  have st: "tb_status r" using assms(1) by (simp add: tb_ok_def file_at_def)
  have ok2: "tb_ok content opts ?r2 ?ps [] (cur @ [(key, v)])"
  proof (cases pend)
    case Nil
    then show ?thesis
      using assms(1) by (cases "to_filter_policy opts") (simp_all add: tb_ok_def file_at_def filter_state_def)
  next
    case (Cons p q)
    have q: "pend = [p]" "cur = []" using assms(1) Cons by (simp_all add: tb_ok_def)
    show ?thesis
      using assms(1) unfolding q by (cases "to_filter_policy opts")
        (simp_all add: tb_ok_def file_at_def filter_state_def add_index_entry_def index_kvs_def filter_blocks_def part_stored_def)
  qed
  have same: "tb_file ?r2 = tb_file r" by (simp add: add_index_entry_def)
  have add: "TableBuilder_Add env opts r key v =
      (if CurrentSizeEstimate (tb_data_block ?r2) \<ge> to_block_size opts then TableBuilder_Flush env opts ?r2 else ?r2)"
    using st unfolding TableBuilder_Add_def Let_def sep_def by simp
  show ?thesis
  proof (cases "CurrentSizeEstimate (tb_data_block ?r2) \<ge> to_block_size opts")
    case True
    obtain z n where F: "tb_ok content opts (TableBuilder_Flush env opts ?r2) ?ps
        [\<lparr>pt_sep = [], pt_place = (length (content (tb_file ?r2)), n), pt_kvs = cur @ [(key, v)]\<rparr>] []"
      "content (tb_file (TableBuilder_Flush env opts ?r2)) = content (tb_file ?r2) @ z"
      using Flush_ok [OF ok2 assms(2-4)] by blast
    have "TableBuilder_Add env opts r key v = TableBuilder_Flush env opts ?r2" using add True by (simp only: if_True)
    then show ?thesis using F same by (intro exI conjI) (rule refl, rule disjI2, auto)
  next
    case False
    have "TableBuilder_Add env opts r key v = ?r2" using add False by (simp only: if_False)
    then show ?thesis using ok2 same by (intro exI [of _ "[]"] exI conjI) (rule refl, rule disjI1, auto)
  qed
qed

section \<open>What the builder leaves behind\<close>

text \<open>A table file with the given parts: the footer at its end leads to all blocks.\<close>

definition table_file :: "TableOptions \<Rightarrow> bytes \<Rightarrow> Part list \<Rightarrow> bool" where
  "table_file opts content ps \<longleftrightarrow> (\<forall>p\<in>set ps. part_stored opts content p) \<and> sorted_wrt (<) (map (\<lambda>p. fst (pt_place p)) ps) \<and>
     (\<exists>body flt meta idx off. content = body @ Footer_EncodeTo \<lparr>ft_metaindex_handle = handle_of meta, ft_index_handle = handle_of idx\<rparr> [] \<and>
        stored_at (to_snappy opts) content idx (snd (BlockBuilder_Finish (Add_all 1 BlockBuilder_new (index_kvs ps)))) \<and>
        stored_at (to_snappy opts) content meta (snd (BlockBuilder_Finish (metaindex_block opts (handle_of flt)))) \<and>
        (\<forall>p\<in>set ps. fst (pt_place p) \<le> off) \<and> off \<le> length content \<and>
        (\<forall>fp. to_filter_policy opts = Some fp \<longrightarrow> stored_raw (to_snappy opts) content flt
           (FilterBlock_Finish (fp_create fp)
             (foldl (add_filter_block (fp_create fp)) FilterBlockBuilder_new (filter_blocks ps @ [(of_nat off, [])])))))"

lemma Finish_flush:
  assumes "tb_ok content opts r ps pend cur" "appends env content" "snappy_ok (to_snappy opts)" "0 < to_block_restart_interval opts"
  shows "\<exists>pend'. tb_ok content opts (TableBuilder_Flush env opts r) ps pend' [] \<and>
    concat (map pt_kvs pend') = concat (map pt_kvs pend) @ cur"
proof (cases "cur = []")
  case True
  then have "bb_buffer (tb_data_block r) = []" using assms(1) by (simp add: tb_ok_def BlockBuilder_new_def)
  then have "TableBuilder_Flush env opts r = r" by (simp add: TableBuilder_Flush_def)
  then show ?thesis using assms(1) True by auto
next
  case False
  then have "pend = []" using assms(1) by (auto simp: tb_ok_def split: list.splits)
  then show ?thesis using Flush_ok [OF _ assms(2-4) False, of r ps] assms(1) by fastforce
qed

lemma write_filter_ok:
  assumes "tb_ok content opts r ps pend []" "appends env content"
  shows "\<exists>f flt z. write_filter_block env opts r = (r\<lparr>tb_file := f, tb_offset := of_nat (length (content f))\<rparr>, handle_of flt) \<and>
    content f = content (tb_file r) @ z \<and>
    (\<forall>fp. to_filter_policy opts = Some fp \<longrightarrow> stored_raw (to_snappy opts) (content f) flt
       (FilterBlock_Finish (fp_create fp) (the (tb_filter_block r))))"
proof (cases "to_filter_policy opts")
  case None
  have "r = r\<lparr>tb_file := tb_file r, tb_offset := of_nat (length (content (tb_file r)))\<rparr>"
    using assms(1) by (simp add: tb_ok_def file_at_def)
  moreover have "BlockHandle_new = handle_of (2 ^ 64 - 1, 2 ^ 64 - 1)" by (simp add: BlockHandle_new_def)
  ultimately show ?thesis
    using None by (intro exI [of _ "tb_file r"] exI [of _ "(2 ^ 64 - 1, 2 ^ 64 - 1)"] exI [of _ "[]"])
      (simp add: write_filter_block_def split: option.split)
next
  case (Some fp)
  obtain b where b: "tb_filter_block r = Some b" using assms(1) Some by (simp add: tb_ok_def filter_state_def)
  let ?c = "FilterBlock_Finish (fp_create fp) b"
  have "file_at content r" using assms(1) by (simp add: tb_ok_def)
  from WriteRawBlock_ok [OF assms(2) this, where t = kNoCompression and c = ?c and raw = ?c and snappy = "to_snappy opts"]
  obtain f where "WriteRawBlock env r ?c kNoCompression = (r\<lparr>tb_file := f, tb_offset := of_nat (length (content f))\<rparr>,
      handle_of (length (content (tb_file r)), length ?c))"
    "content f = content (tb_file r) @ ?c @ block_trailer ?c kNoCompression"
    "stored_at (to_snappy opts) (content f) (length (content (tb_file r)), length ?c) ?c"
    unfolding CompressionType.case(1) by blast
  then show ?thesis
    using Some b \<open>file_at content r\<close>
    by (intro exI [of _ f] exI [of _ "(length (content (tb_file r)), length ?c)"] exI [of _ "?c @ block_trailer ?c kNoCompression"])
      (simp add: write_filter_block_def file_at_def stored_raw_def)
qed

lemma part_stored_sep [simp]: "part_stored opts c (p\<lparr>pt_sep := s\<rparr>) = part_stored opts c p"
  by (simp add: part_stored_def)

lemma part_stored_append: "part_stored opts c p \<Longrightarrow> part_stored opts (c @ rest) p"
  using stored_at_append by (fastforce simp: part_stored_def)

lemma part_stored_le: "part_stored opts c p \<Longrightarrow> fst (pt_place p) \<le> length c"
  by (auto simp: part_stored_def stored_at_def)

lemma Footer_ok:
  assumes "appends env content" "file_at content r"
  shows "\<exists>f. wf_Append env (tb_file r) z = (f, True) \<and> content f = content (tb_file r) @ z"
  using assms unfolding appends_def by blast

text \<open>After the last block the pending part gets the short successor of its last key as separator.\<close>

lemma TableFinish_ok:
  assumes "tb_ok content opts r0 ps pend []" "appends env content" "snappy_ok (to_snappy opts)"
    and "TableBuilder_Flush env opts r = r0"
  shows "\<exists>r'. TableBuilder_Finish env opts r = (r', True) \<and>
    table_file opts (content (tb_file r')) (ps @ map (\<lambda>p. p\<lparr>pt_sep := to_successor opts (tb_last_key r0)\<rparr>) pend)"
proof -
  let ?ps = "ps @ map (\<lambda>p. p\<lparr>pt_sep := to_successor opts (tb_last_key r0)\<rparr>) pend"
  define r1 where "r1 = r0\<lparr>tb_closed := True\<rparr>"
  have r1: "tb_ok content opts r1 ps pend []" "tb_last_key r1 = tb_last_key r0"
    using assms(1) by (auto simp: r1_def tb_ok_def file_at_def split: list.splits)
  obtain f2 flt z2 where F: "write_filter_block env opts r1 = (r1\<lparr>tb_file := f2, tb_offset := of_nat (length (content f2))\<rparr>, handle_of flt)"
    "content f2 = content (tb_file r1) @ z2"
    "\<forall>fp. to_filter_policy opts = Some fp \<longrightarrow> stored_raw (to_snappy opts) (content f2) flt
       (FilterBlock_Finish (fp_create fp) (the (tb_filter_block r1)))"
    using write_filter_ok [OF r1(1) assms(2)] by blast
  define r2 where "r2 = r1\<lparr>tb_file := f2, tb_offset := of_nat (length (content f2))\<rparr>"
  have st2: "file_at content r2" using r1(1) by (simp add: r2_def tb_ok_def file_at_def)
  obtain f3 n3 z3 where M: "WriteBlock env opts r2 (metaindex_block opts (handle_of flt)) =
      (r2\<lparr>tb_file := f3, tb_offset := of_nat (length (content f3))\<rparr>, BlockBuilder_new, handle_of (length (content (tb_file r2)), n3))"
    "content f3 = content (tb_file r2) @ z3"
    "stored_at (to_snappy opts) (content f3) (length (content (tb_file r2)), n3) (snd (BlockBuilder_Finish (metaindex_block opts (handle_of flt))))"
    using WriteBlock_ok [OF assms(2) st2 assms(3)] by blast
  define r3 where "r3 = r2\<lparr>tb_file := f3, tb_offset := of_nat (length (content f3))\<rparr>"
  define r4 where "r4 = (if tb_pending_index_entry r3 then add_index_entry r3 (to_successor opts (tb_last_key r3)) else r3)"
  have same: "tb_file r4 = f3" "tb_pending_index_entry r3 = tb_pending_index_entry r0" "tb_last_key r3 = tb_last_key r0"
    "tb_pending_handle r3 = tb_pending_handle r0" "tb_index_block r3 = tb_index_block r0"
    by (simp_all add: r4_def r3_def r2_def r1_def add_index_entry_def)
  have st4: "file_at content r4" using st2 by (simp add: r4_def r3_def r2_def file_at_def add_index_entry_def)
  have idx: "tb_index_block r4 = Add_all 1 BlockBuilder_new (index_kvs ?ps)"
  proof (cases pend)
    case Nil
    then show ?thesis using assms(1) same by (simp add: r4_def tb_ok_def)
  next
    case (Cons p q)
    then have "q = []" using assms(1) by (simp add: tb_ok_def)
    then show ?thesis using assms(1) same Cons by (simp add: r4_def tb_ok_def add_index_entry_def index_kvs_def)
  qed
  obtain f5 n5 z5 where X: "WriteBlock env opts r4 (tb_index_block r4) =
      (r4\<lparr>tb_file := f5, tb_offset := of_nat (length (content f5))\<rparr>, BlockBuilder_new, handle_of (length (content (tb_file r4)), n5))"
    "content f5 = content (tb_file r4) @ z5"
    "stored_at (to_snappy opts) (content f5) (length (content (tb_file r4)), n5) (snd (BlockBuilder_Finish (tb_index_block r4)))"
    using WriteBlock_ok [OF assms(2) st4 assms(3)] by blast
  define r5 where "r5 = r4\<lparr>tb_file := f5, tb_offset := of_nat (length (content f5)), tb_index_block := BlockBuilder_new\<rparr>"
  have st5: "file_at content r5" using st4 by (simp add: r5_def file_at_def)
  let ?meta = "(length (content (tb_file r2)), n3)" and ?idx = "(length (content (tb_file r4)), n5)"
  let ?footer = "Footer_EncodeTo \<lparr>ft_metaindex_handle = handle_of ?meta, ft_index_handle = handle_of ?idx\<rparr> []"
  obtain f6 where L: "wf_Append env (tb_file r5) ?footer = (f6, True)" "content f6 = content (tb_file r5) @ ?footer"
    using Footer_ok [OF assms(2) st5] by blast
  have st: "tb_status r2" "tb_status r3" "tb_status r5" using st2 st5 by (simp_all add: file_at_def r3_def)
  have fin: "TableBuilder_Finish env opts r =
      (r5\<lparr>tb_file := f6, tb_status := True, tb_offset := tb_offset r5 + of_nat (length ?footer)\<rparr>, True)"
    unfolding TableBuilder_Finish_def Let_def assms(4) r1_def [symmetric] F(1) r2_def [symmetric] prod.case if_P [OF st(1)] M(1)
      r3_def [symmetric] if_P [OF st(2)] r4_def [symmetric] X(1) r5_def [symmetric]
    using st(3) L(1) by (simp add: r5_def X(1))
  have whole: "content f6 = content (tb_file r0) @ z2 @ z3 @ z5 @ ?footer"
    using L(2) X(2) M(2) F(2) same(1) by (simp add: r5_def r2_def r1_def)
  have base: "\<forall>p\<in>set ps \<union> set pend. part_stored opts (content (tb_file r0)) p"
    "sorted_wrt (<) (map (\<lambda>p. fst (pt_place p)) (ps @ pend))" using assms(1) by (simp_all add: tb_ok_def ball_Un)
  then have parts: "\<forall>p\<in>set ?ps. part_stored opts (content f6) p" "sorted_wrt (<) (map (\<lambda>p. fst (pt_place p)) ?ps)"
    "\<forall>p\<in>set ?ps. fst (pt_place p) \<le> length (content (tb_file r0))"
    unfolding whole by (auto simp: comp_def intro: part_stored_append part_stored_le [of opts])
  have "filter_blocks ?ps = filter_blocks (ps @ pend)" by (simp add: filter_blocks_def comp_def)
  then have flt: "tb_filter_block r1 = filter_state opts (filter_blocks ?ps @ [(of_nat (length (content (tb_file r0))), [])])"
    using assms(1) by (simp add: tb_ok_def r1_def file_at_def)
  have c5: "content (tb_file r5) = content f2 @ z3 @ z5" "content (tb_file r5) = content f3 @ z5" "content (tb_file r5) = content f5"
    using X(2) M(2) same(1) by (simp_all add: r5_def r2_def)
  have at_idx: "stored_at (to_snappy opts) (content f6) ?idx (snd (BlockBuilder_Finish (Add_all 1 BlockBuilder_new (index_kvs ?ps))))"
    using stored_at_append [OF X(3)] unfolding L(2) c5(3) idx .
  have at_meta: "stored_at (to_snappy opts) (content f6) ?meta (snd (BlockBuilder_Finish (metaindex_block opts (handle_of flt))))"
    using stored_at_append [OF M(3)] unfolding L(2) c5(2) append_assoc .
  have at_flt: "stored_raw (to_snappy opts) (content f6) flt (FilterBlock_Finish (fp_create fp)
      (foldl (add_filter_block (fp_create fp)) FilterBlockBuilder_new
        (filter_blocks ?ps @ [(of_nat (length (content (tb_file r0))), [])])))" if "to_filter_policy opts = Some fp" for fp
  proof -
    have "stored_raw (to_snappy opts) (content f2) flt (FilterBlock_Finish (fp_create fp) (the (tb_filter_block r1)))"
      using F(3) that by blast
    moreover have "the (tb_filter_block r1) = foldl (add_filter_block (fp_create fp)) FilterBlockBuilder_new
        (filter_blocks ?ps @ [(of_nat (length (content (tb_file r0))), [])])"
      using that unfolding flt filter_state_def by (simp only: option.map option.sel)
    ultimately show ?thesis unfolding L(2) c5(1) append_assoc by (intro stored_raw_append) (simp only:)
  qed
  have le: "length (content (tb_file r0)) \<le> length (content f6)" unfolding whole by simp
  have "table_file opts (content f6) ?ps"
    unfolding table_file_def
    by (intro conjI parts exI [of _ "content (tb_file r5)"] exI [of _ flt] exI [of _ ?meta] exI [of _ ?idx]
        exI [of _ "length (content (tb_file r0))"] at_idx at_meta L(2) le allI impI at_flt)
  then show ?thesis using fin by (simp add: r5_def)
qed

section \<open>The order of a table\<close>

locale table_order = block_order cmp rank
  for cmp :: "bytes \<Rightarrow> bytes \<Rightarrow> int" and rank :: "bytes \<Rightarrow> 'r::linorder" +
  fixes sep :: "bytes \<Rightarrow> bytes \<Rightarrow> bytes" and succ :: "bytes \<Rightarrow> bytes" and user :: "bytes \<Rightarrow> 'u::linorder"
  assumes sep_ge: "rank a < rank b \<Longrightarrow> rank a \<le> rank (sep a b)"
    and sep_less: "rank a < rank b \<Longrightarrow> rank (sep a b) < rank b"
    and sep_gap: "rank a < rank b \<Longrightarrow> rank a < rank k \<Longrightarrow> rank k \<le> rank (sep a b) \<Longrightarrow> user k < user b"
    and user_mono: "rank a \<le> rank b \<Longrightarrow> user a \<le> user b"
    and succ_ge: "rank a \<le> rank (succ a)"
    and sep_length: "length (sep a b) \<le> length a" "length (succ a) \<le> length a"
begin

definition ascending :: "(bytes \<times> bytes) list \<Rightarrow> bool" where
  "ascending kvs \<longleftrightarrow> sorted_wrt (\<lambda>a b. rank (fst a) < rank (fst b)) kvs"

definition covers :: "Part \<Rightarrow> bool" where
  "covers p \<longleftrightarrow> pt_kvs p \<noteq> [] \<and> (\<forall>kv\<in>set (pt_kvs p). rank (fst kv) \<le> rank (pt_sep p)) \<and>
     length (pt_sep p) \<le> length (fst (last (pt_kvs p)))"

definition below :: "Part \<Rightarrow> (bytes \<times> bytes) list \<Rightarrow> bool" where
  "below p kvs \<longleftrightarrow> (\<forall>kv\<in>set kvs. rank (pt_sep p) < rank (fst kv) \<and>
     (\<forall>k. rank (fst (last (pt_kvs p))) < rank k \<longrightarrow> rank k \<le> rank (pt_sep p) \<longrightarrow> user k < user (fst kv)))"

lemma below_mono:
  assumes "below p kvs" "kv \<in> set kvs" "rank (fst kv) \<le> rank (fst x)"
  shows "below p [x]"
  using assms user_mono [OF assms(3)] unfolding below_def by (fastforce intro: less_le_trans)

definition parts_ok :: "Part list \<Rightarrow> (bytes \<times> bytes) list \<Rightarrow> bool" where
  "parts_ok ps later \<longleftrightarrow> (\<forall>p\<in>set ps. covers p \<and> below p later) \<and> sorted_wrt (\<lambda>p q. below p (pt_kvs q)) ps"

lemma ascending_last:
  assumes "ascending kvs" "kvs \<noteq> []" "kv \<in> set kvs"
  shows "rank (fst kv) \<le> rank (fst (last kvs))"
proof -
  obtain xs x where "kvs = xs @ [x]" using assms(2) by (cases kvs rule: rev_cases) auto
  then show ?thesis using assms by (auto simp: ascending_def sorted_wrt_append less_imp_le)
qed

text \<open>A part that gets a separator between its last key and all later keys.\<close>

lemma covers_sep:
  assumes "ascending (pt_kvs p)" "pt_kvs p \<noteq> []" "rank (fst (last (pt_kvs p))) \<le> rank s" "length s \<le> length (fst (last (pt_kvs p)))"
  shows "covers (p\<lparr>pt_sep := s\<rparr>)"
  using assms ascending_last [OF assms(1,2)] order_trans unfolding covers_def by fastforce

lemma table_entries_ok:
  assumes "ascending kvs" "appends env content" "snappy_ok (to_snappy opts)" "0 < to_block_restart_interval opts" "content f = []"
    and "to_separator opts = sep"
  shows "\<exists>ps pend cur. tb_ok content opts (foldl (\<lambda>r (k, v). TableBuilder_Add env opts r k v) (TableBuilder_new opts f) kvs) ps pend cur \<and>
    parts_ok ps (concat (map pt_kvs pend) @ cur) \<and> concat (map pt_kvs (ps @ pend)) @ cur = kvs"
  using assms(1)
proof (induction kvs rule: rev_induct)
  case Nil
  then show ?case using tb_ok_new [of content f opts] assms(5)
    by (intro exI [of _ "[]"]) (simp add: parts_ok_def)
next
  case (snoc kv kvs)
  obtain k v where kv: "kv = (k, v)" by fastforce
  let ?r = "foldl (\<lambda>r (k, v). TableBuilder_Add env opts r k v) (TableBuilder_new opts f) kvs"
  have asc: "ascending kvs" "\<And>a. a \<in> set kvs \<Longrightarrow> rank (fst a) < rank k"
    using snoc.prems by (auto simp: ascending_def sorted_wrt_append kv)
  obtain ps pend cur where I: "tb_ok content opts ?r ps pend cur" "parts_ok ps (concat (map pt_kvs pend) @ cur)"
    "concat (map pt_kvs (ps @ pend)) @ cur = kvs" using snoc.IH [OF asc(1)] by blast
  let ?s = "to_separator opts (tb_last_key ?r) k"
  let ?ps = "ps @ map (\<lambda>p. p\<lparr>pt_sep := ?s\<rparr>) pend"
  obtain z pend' cur' where A: "pend' = [] \<and> cur' = cur @ [(k, v)] \<or>
      cur' = [] \<and> (\<exists>ol. pend' = [\<lparr>pt_sep = [], pt_place = ol, pt_kvs = cur @ [(k, v)]\<rparr>])"
    "tb_ok content opts (TableBuilder_Add env opts ?r k v) ?ps pend' cur'"
    using Add_ok [OF I(1) assms(2-4), of k v] by blast
  have later: "concat (map pt_kvs pend') @ cur' = cur @ [(k, v)]" using A(1) by auto
  have "parts_ok ?ps (cur @ [(k, v)])"
  proof (cases pend)
    case Nil
    have "ps = []" if "cur = []" using I(1) that Nil by (simp add: tb_ok_def)
    moreover have "below p [(k, v)]" if p: "p \<in> set ps" "cur \<noteq> []" for p
    proof (rule below_mono)
      show "below p cur" using I(2) p(1) Nil by (simp add: parts_ok_def)
      show "last cur \<in> set cur" "rank (fst (last cur)) \<le> rank (fst (k, v))"
        using asc(2) [of "last cur"] I(3) p(2) by auto
    qed
    ultimately show ?thesis using I(2) Nil by (cases "cur = []") (auto simp: parts_ok_def below_def)
  next
    case (Cons p q)
    have q: "pend = [p]" "cur = []" "tb_last_key ?r = fst (last (pt_kvs p))" "pt_kvs p \<noteq> []"
      using I(1) Cons by (simp_all add: tb_ok_def part_stored_def)
    have p: "ascending (pt_kvs p)" "rank (fst (last (pt_kvs p))) < rank k"
      using asc(1) asc(2) [of "last (pt_kvs p)"] I(3) q(4) unfolding q by (auto simp: ascending_def sorted_wrt_append)
    have s: "rank (fst (last (pt_kvs p))) \<le> rank ?s" "rank ?s < rank k" "length ?s \<le> length (fst (last (pt_kvs p)))"
      using sep_ge [OF p(2)] sep_less [OF p(2)] sep_length(1) by (simp_all add: q(3) assms(6))
    have "below x [(k, v)]" if "x \<in> set ps" for x
    proof (rule below_mono)
      show "below x (pt_kvs p)" using I(2) that q by (simp add: parts_ok_def)
      show "last (pt_kvs p) \<in> set (pt_kvs p)" "rank (fst (last (pt_kvs p))) \<le> rank (fst (k, v))" using q(4) p(2) by auto
    qed
    moreover have "below (p\<lparr>pt_sep := ?s\<rparr>) [(k, v)]"
      using s(2) sep_gap [OF p(2)] by (simp add: below_def q(3) assms(6))
    ultimately show ?thesis
      using I(2) covers_sep [OF p(1) q(4) s(1,3)] unfolding q by (auto simp: parts_ok_def below_def sorted_wrt_append)
  qed
  moreover have "concat (map pt_kvs (?ps @ pend')) @ cur' = kvs @ [kv]"
    using later I(3) A(1) by (auto simp: kv comp_def)
  moreover have "foldl (\<lambda>r (k, v). TableBuilder_Add env opts r k v) (TableBuilder_new opts f) (kvs @ [kv]) =
      TableBuilder_Add env opts ?r k v" by (simp add: kv)
  ultimately show ?case
    using A(2) unfolding later [symmetric] by (intro exI [of _ ?ps] exI [of _ pend'] exI [of _ cur']) simp
qed

lemma table_built:
  assumes "ascending kvs" "appends env content" "snappy_ok (to_snappy opts)" "0 < to_block_restart_interval opts" "content f = []"
    and "to_separator opts = sep" "to_successor opts = succ"
  shows "\<exists>r ps. TableBuilder_Finish env opts (foldl (\<lambda>r (k, v). TableBuilder_Add env opts r k v) (TableBuilder_new opts f) kvs) = (r, True) \<and>
    table_file opts (content (tb_file r)) ps \<and> parts_ok ps [] \<and> concat (map pt_kvs ps) = kvs"
proof -
  let ?r = "foldl (\<lambda>r (k, v). TableBuilder_Add env opts r k v) (TableBuilder_new opts f) kvs"
  obtain ps pend cur where I: "tb_ok content opts ?r ps pend cur" "parts_ok ps (concat (map pt_kvs pend) @ cur)"
    "concat (map pt_kvs (ps @ pend)) @ cur = kvs" using table_entries_ok [OF assms(1-6)] by blast
  obtain pend' where F: "tb_ok content opts (TableBuilder_Flush env opts ?r) ps pend' []"
    "concat (map pt_kvs pend') = concat (map pt_kvs pend) @ cur" using Finish_flush [OF I(1) assms(2-4)] by blast
  let ?s = "to_successor opts (tb_last_key (TableBuilder_Flush env opts ?r))"
  let ?ps = "ps @ map (\<lambda>p. p\<lparr>pt_sep := ?s\<rparr>) pend'"
  have parts: "parts_ok ?ps []"
  proof (cases pend')
    case Nil
    then show ?thesis using I(2) by (simp add: parts_ok_def below_def)
  next
    case (Cons p q)
    have q: "pend' = [p]" "tb_last_key (TableBuilder_Flush env opts ?r) = fst (last (pt_kvs p))" "pt_kvs p \<noteq> []"
      using F(1) Cons by (simp_all add: tb_ok_def part_stored_def)
    have later: "concat (map pt_kvs pend) @ cur = pt_kvs p" using F(2) q(1) by simp
    have "ascending (pt_kvs p)" using assms(1) I(3) later by (auto simp: ascending_def sorted_wrt_append)
    then have "covers (p\<lparr>pt_sep := ?s\<rparr>)"
      using succ_ge sep_length(2) q by (intro covers_sep) (simp_all add: assms(7))
    then show ?thesis using I(2) unfolding later q(1) by (auto simp: parts_ok_def below_def sorted_wrt_append)
  qed
  have "concat (map pt_kvs ?ps) = kvs" using I(3) F(2) by (simp add: comp_def)
  then show ?thesis using TableFinish_ok [OF F(1) assms(2,3) refl] parts by blast
qed

lemma parts_index:
  assumes "parts_ok ps []"
  shows "ascending (index_kvs ps)" "ascending (concat (map pt_kvs ps)) \<Longrightarrow> i < length ps \<Longrightarrow> ascending (pt_kvs (ps ! i))"
proof -
  have "sorted_wrt (\<lambda>p q. rank (pt_sep p) < rank (pt_sep q)) ps"
  proof (rule sorted_wrt_mono_rel [rotated])
    show "sorted_wrt (\<lambda>p q. below p (pt_kvs q)) ps" using assms by (simp add: parts_ok_def)
    show "rank (pt_sep p) < rank (pt_sep q)" if "p \<in> set ps" "q \<in> set ps" "below p (pt_kvs q)" for p q
    proof -
      have "covers q" using assms that(2) by (simp add: parts_ok_def)
      then obtain kv where "kv \<in> set (pt_kvs q)" "rank (fst kv) \<le> rank (pt_sep q)"
        by (cases "pt_kvs q") (auto simp: covers_def)
      then show ?thesis using that(3) unfolding below_def by fastforce
    qed
  qed
  then show "ascending (index_kvs ps)" by (simp add: ascending_def index_kvs_def sorted_wrt_map)
  show "ascending (pt_kvs (ps ! i))" if "ascending (concat (map pt_kvs ps))" "i < length ps"
  proof -
    have "concat (map pt_kvs ps) = concat (map pt_kvs (take i ps)) @ pt_kvs (ps ! i) @ concat (map pt_kvs (drop (Suc i) ps))"
      using that(2) by (subst id_take_nth_drop [of i ps]) simp_all
    then show ?thesis using that(1) by (simp add: ascending_def sorted_wrt_append)
  qed
qed

end

lemma separator_user:
  assumes "length tmp < length (ExtractUserKey a)"
  shows "length (PutFixed64 tmp t) \<le> length a" "ExtractUserKey (PutFixed64 tmp t) = tmp"
  using assms by (simp_all add: ExtractUserKey_def PutFixed64_def)

interpretation itable: table_order InternalKey_Compare ikey_rank Internal_FindShortestSeparator Internal_FindShortSuccessor
  ExtractUserKey
proof
  fix a b k :: bytes
  let ?sep = "Internal_FindShortestSeparator a b" and ?user = ExtractUserKey
  have user: "ikey_rank x < ikey_rank y" if "?user x < ?user y" for x y using that by (simp add: ikey_rank_def)
  have sep: "?sep = a \<or> length ?sep \<le> length a \<and> ?user ?sep = FindShortestSeparator (?user a) (?user b) \<and> ?user a < ?user ?sep"
    using separator_user by (auto simp: Internal_FindShortestSeparator_def Let_def)
  have suc: "Internal_FindShortSuccessor a = a \<or>
      length (Internal_FindShortSuccessor a) \<le> length a \<and> ?user a < ?user (Internal_FindShortSuccessor a)"
    using separator_user by (auto simp: Internal_FindShortSuccessor_def Let_def)
  show "length ?sep \<le> length a" "length (Internal_FindShortSuccessor a) \<le> length a" using sep suc by auto
  show "ikey_rank a \<le> ikey_rank (Internal_FindShortSuccessor a)" using suc user by (metis less_imp_le order_refl)
  show "?user a \<le> ?user b" if "ikey_rank a \<le> ikey_rank b" using that by (auto simp: ikey_rank_def)
  assume ab: "ikey_rank a < ikey_rank b"
  show "ikey_rank a \<le> ikey_rank ?sep" using sep user by (metis less_imp_le order_refl)
  have less: "?user ?sep < ?user b" if "?sep \<noteq> a"
  proof -
    have "?user a \<le> ?user b" using ab by (auto simp: ikey_rank_def)
    moreover have "FindShortestSeparator x x = x" for x
    proof -
      have "common_prefix x x = length x" by (induction x) simp_all
      then show ?thesis by (simp add: FindShortestSeparator_def)
    qed
    ultimately have "?user a < ?user b" using that sep by (cases "?user a = ?user b") auto
    then show ?thesis using FindShortestSeparator_between [of "?user a" "?user b"] that sep by auto
  qed
  then show "ikey_rank ?sep < ikey_rank b" using ab user by (cases "?sep = a") auto
  show "?user k < ?user b" if "ikey_rank a < ikey_rank k" "ikey_rank k \<le> ikey_rank ?sep"
  proof -
    have "?sep \<noteq> a" using that by auto
    moreover have "?user k \<le> ?user ?sep" using that(2) by (auto simp: ikey_rank_def)
    ultimately show ?thesis using less by (meson le_less_trans)
  qed
qed

end
