(* ===== verification/Table_Reader.thy ===== *)
theory Table_Reader
  imports Table_Builder
begin

text \<open>
  Reading a table file (\<^verbatim>\<open>table/table.cc\<close>) and iterating over it with an iterator over its index block
  and one over the current data block (\<^verbatim>\<open>table/two_level_iterator.cc\<close>).
  \<^item> An iterator of a block is a block iterator or the empty iterator of \<^verbatim>\<open>table/iterator.cc\<close>, with
    the status it was made with. \<open>None\<close> as a result stands for a read outside of what was given
    (\<open>Table_Block\<close>) or an endless loop; the theorems show that there is a result.
  \<^item> The block cache is left out: blocks are read from the file.
  \<^item> The cached validity and key of \<^verbatim>\<open>IteratorWrapper\<close> are those of its iterator.
\<close>

section \<open>Iterators of blocks\<close>

type_synonym BIter = "Block_Iter option \<times> bool"

definition BIter_Valid :: "BIter \<Rightarrow> bool" where
  "BIter_Valid b = (case fst b of None \<Rightarrow> False | Some it \<Rightarrow> Block_Valid it)"

definition BIter_status :: "BIter \<Rightarrow> bool" where
  "BIter_status b = (case fst b of None \<Rightarrow> snd b | Some it \<Rightarrow> bi_status it)"

definition BIter_key :: "BIter \<Rightarrow> bytes" where
  "BIter_key b = (case fst b of None \<Rightarrow> [] | Some it \<Rightarrow> bi_key it)"

definition BIter_value :: "BIter \<Rightarrow> bytes" where
  "BIter_value b = (case fst b of None \<Rightarrow> [] | Some it \<Rightarrow> Block_value it)"

definition BIter_move :: "(Block_Iter \<Rightarrow> Block_Iter option) \<Rightarrow> BIter \<Rightarrow> BIter option" where
  "BIter_move move b = (case fst b of None \<Rightarrow> Some b | Some it \<Rightarrow> map_option (\<lambda>it. (Some it, snd b)) (move it))"

section \<open>Opening a table\<close>

record TableRep =
  tr_file :: RandomAccessFile
  tr_filter :: "FilterBlockReader option"
  tr_metaindex_handle :: BlockHandle
  tr_index_block :: Block

definition Table_ReadFilter :: "TableOptions \<Rightarrow> TableRep \<Rightarrow> bytes \<Rightarrow> TableRep" where
  "Table_ReadFilter opts rep filter_handle_value =
     (case BlockHandle_DecodeFrom filter_handle_value of
        Inl msg \<Rightarrow> rep
      | Inr (filter_handle, v) \<Rightarrow>
          (case Format_ReadBlock (to_snappy opts) (tr_file rep) False filter_handle of
             Inl msg \<Rightarrow> rep
           | Inr data \<Rightarrow> rep\<lparr>tr_filter := Some (FilterBlockReader_new data)\<rparr>))"

definition Table_ReadMeta :: "TableOptions \<Rightarrow> TableRep \<Rightarrow> Footer \<Rightarrow> TableRep option" where
  "Table_ReadMeta opts rep footer =
     (case to_filter_policy opts of
        None \<Rightarrow> Some rep
      | Some policy \<Rightarrow>
          (case Format_ReadBlock (to_snappy opts) (tr_file rep) False (ft_metaindex_handle footer) of
             Inl msg \<Rightarrow> Some rep
           | Inr contents \<Rightarrow>
               (let key = filter_key (fp_name policy)
                in map_option
                     (\<lambda>iter. if BIter_Valid iter \<and> BIter_key iter = key then Table_ReadFilter opts rep (BIter_value iter) else rep)
                     (BIter_move (\<lambda>it. Block_Seek Slice_compare it key) (Block_NewIterator (Block_new contents))))))"

definition Table_Open :: "TableOptions \<Rightarrow> RandomAccessFile \<Rightarrow> nat \<Rightarrow> (string + TableRep) option" where
  "Table_Open opts file sz =
     (if sz < kEncodedLength then Some (Inl ''file is too short to be an sstable'')
      else
        (case file (of_nat (sz - kEncodedLength)) kEncodedLength of
           None \<Rightarrow> Some (Inl ''IO error'')
         | Some footer_input \<Rightarrow>
             if length footer_input < kEncodedLength then None
             else
               (case Footer_DecodeFrom footer_input of
                  Inl msg \<Rightarrow> Some (Inl msg)
                | Inr (footer, rest) \<Rightarrow>
                    (case Format_ReadBlock (to_snappy opts) file False (ft_index_handle footer) of
                       Inl msg \<Rightarrow> Some (Inl msg)
                     | Inr contents \<Rightarrow>
                         map_option Inr (Table_ReadMeta opts
                           \<lparr>tr_file = file, tr_filter = None, tr_metaindex_handle = ft_metaindex_handle footer,
                             tr_index_block = Block_new contents\<rparr> footer)))))"

section \<open>Lookups\<close>

definition Table_BlockReader :: "TableOptions \<Rightarrow> TableRep \<Rightarrow> bool \<Rightarrow> bytes \<Rightarrow> BIter" where
  "Table_BlockReader opts table verify index_value =
     (case BlockHandle_DecodeFrom index_value of
        Inl msg \<Rightarrow> (None, False)
      | Inr (handle, input) \<Rightarrow>
          (case Format_ReadBlock (to_snappy opts) (tr_file table) verify handle of
             Inl msg \<Rightarrow> (None, False)
           | Inr contents \<Rightarrow> Block_NewIterator (Block_new contents)))"

text \<open>The result of \<^verbatim>\<open>InternalGet\<close>: what the saver is called with, if it is, \<^verbatim>\<open>filtered\<close>, and the status.\<close>

definition filter_denies :: "TableOptions \<Rightarrow> TableRep \<Rightarrow> bytes \<Rightarrow> bytes \<Rightarrow> bool" where
  "filter_denies opts table handle_value k =
     (case (tr_filter table, to_filter_policy opts, BlockHandle_DecodeFrom handle_value) of
        (Some filter_block, Some policy, Inr (handle, rest)) \<Rightarrow>
          \<not> FilterBlock_KeyMayMatch (fp_may_match policy) filter_block (bh_offset handle) k
      | _ \<Rightarrow> False)"

definition Table_InternalGet ::
  "TableOptions \<Rightarrow> TableRep \<Rightarrow> bool \<Rightarrow> bytes \<Rightarrow> bool \<Rightarrow> ((bytes \<times> bytes) option \<times> bool \<times> bool) option" where
  "Table_InternalGet opts table verify k filtered =
     Option.bind (BIter_move (\<lambda>it. Block_Seek (to_compare opts) it k) (Block_NewIterator (tr_index_block table))) (\<lambda>iiter.
       if BIter_Valid iiter then
         if filter_denies opts table (BIter_value iiter) k then Some (None, True, BIter_status iiter)
         else
           map_option (\<lambda>block_iter.
               (if BIter_Valid block_iter then Some (BIter_key block_iter, BIter_value block_iter) else None, False,
                BIter_status block_iter \<and> BIter_status iiter))
             (BIter_move (\<lambda>it. Block_Seek (to_compare opts) it k)
               (Table_BlockReader opts table verify (BIter_value iiter)))
       else Some (None, filtered, BIter_status iiter))"

definition ApproximateOffsetOf :: "TableOptions \<Rightarrow> TableRep \<Rightarrow> bytes \<Rightarrow> u64 option" where
  "ApproximateOffsetOf opts table key =
     map_option (\<lambda>index_iter.
         if BIter_Valid index_iter then
           (case BlockHandle_DecodeFrom (BIter_value index_iter) of
              Inr (handle, input) \<Rightarrow> bh_offset handle
            | Inl msg \<Rightarrow> bh_offset (tr_metaindex_handle table))
         else bh_offset (tr_metaindex_handle table))
       (BIter_move (\<lambda>it. Block_Seek (to_compare opts) it key) (Block_NewIterator (tr_index_block table)))"

section \<open>The two-level iterator\<close>

record TwoLevelIterator =
  tl_status :: bool
  tl_index_iter :: BIter
  tl_data_iter :: "BIter option"
  tl_data_block_handle :: bytes

definition Table_NewIterator :: "TableRep \<Rightarrow> TwoLevelIterator" where
  "Table_NewIterator table =
     \<lparr>tl_status = True, tl_index_iter = Block_NewIterator (tr_index_block table), tl_data_iter = None,
      tl_data_block_handle = []\<rparr>"

definition TwoLevel_Valid :: "TwoLevelIterator \<Rightarrow> bool" where
  "TwoLevel_Valid t = (case tl_data_iter t of None \<Rightarrow> False | Some d \<Rightarrow> BIter_Valid d)"

definition TwoLevel_status :: "TwoLevelIterator \<Rightarrow> bool" where
  "TwoLevel_status t =
     (if \<not> BIter_status (tl_index_iter t) then False
      else if (case tl_data_iter t of None \<Rightarrow> False | Some d \<Rightarrow> \<not> BIter_status d) then False
      else tl_status t)"

definition SetDataIterator :: "TwoLevelIterator \<Rightarrow> BIter option \<Rightarrow> TwoLevelIterator" where
  "SetDataIterator t data_iter =
     t\<lparr>tl_status := (case tl_data_iter t of None \<Rightarrow> tl_status t | Some d \<Rightarrow> tl_status t \<and> BIter_status d),
       tl_data_iter := data_iter\<rparr>"

text \<open>The function that makes the iterator of a data block is an argument, as in the code.\<close>

definition InitDataBlock :: "(bytes \<Rightarrow> BIter) \<Rightarrow> TwoLevelIterator \<Rightarrow> TwoLevelIterator" where
  "InitDataBlock block_function t =
     (if \<not> BIter_Valid (tl_index_iter t) then SetDataIterator t None
      else
        (let handle = BIter_value (tl_index_iter t)
         in if tl_data_iter t \<noteq> None \<and> Slice_compare handle (tl_data_block_handle t) = 0 then t
            else SetDataIterator (t\<lparr>tl_data_block_handle := handle\<rparr>) (Some (block_function handle))))"

definition move_data :: "(Block_Iter \<Rightarrow> Block_Iter option) \<Rightarrow> TwoLevelIterator \<Rightarrow> TwoLevelIterator option" where
  "move_data move t =
     (case tl_data_iter t of
        None \<Rightarrow> Some t
      | Some d \<Rightarrow> map_option (\<lambda>d. t\<lparr>tl_data_iter := Some d\<rparr>) (BIter_move move d))"

definition move_index :: "(Block_Iter \<Rightarrow> Block_Iter option) \<Rightarrow> TwoLevelIterator \<Rightarrow> TwoLevelIterator option" where
  "move_index move t = map_option (\<lambda>b. t\<lparr>tl_index_iter := b\<rparr>) (BIter_move move (tl_index_iter t))"

partial_function (option) SkipEmptyDataBlocksForward :: "(bytes \<Rightarrow> BIter) \<Rightarrow> TwoLevelIterator \<Rightarrow> TwoLevelIterator option" where
  "SkipEmptyDataBlocksForward block_function t =
     (if TwoLevel_Valid t then Some t
      else if \<not> BIter_Valid (tl_index_iter t) then Some (SetDataIterator t None)
      else
        Option.bind (move_index Block_Next t) (\<lambda>t.
        Option.bind (move_data Block_SeekToFirst (InitDataBlock block_function t)) (\<lambda>t.
          SkipEmptyDataBlocksForward block_function t)))"

partial_function (option) SkipEmptyDataBlocksBackward :: "(bytes \<Rightarrow> BIter) \<Rightarrow> TwoLevelIterator \<Rightarrow> TwoLevelIterator option" where
  "SkipEmptyDataBlocksBackward block_function t =
     (if TwoLevel_Valid t then Some t
      else if \<not> BIter_Valid (tl_index_iter t) then Some (SetDataIterator t None)
      else
        Option.bind (move_index Block_Prev t) (\<lambda>t.
        Option.bind (move_data Block_SeekToLast (InitDataBlock block_function t)) (\<lambda>t.
          SkipEmptyDataBlocksBackward block_function t)))"

definition TwoLevel_Seek ::
  "(bytes \<Rightarrow> BIter) \<Rightarrow> (bytes \<Rightarrow> bytes \<Rightarrow> int) \<Rightarrow> TwoLevelIterator \<Rightarrow> bytes \<Rightarrow> TwoLevelIterator option" where
  "TwoLevel_Seek block_function cmp t target =
     Option.bind (move_index (\<lambda>it. Block_Seek cmp it target) t) (\<lambda>t.
     Option.bind (move_data (\<lambda>it. Block_Seek cmp it target) (InitDataBlock block_function t)) (\<lambda>t.
       SkipEmptyDataBlocksForward block_function t))"

definition TwoLevel_SeekToFirst :: "(bytes \<Rightarrow> BIter) \<Rightarrow> TwoLevelIterator \<Rightarrow> TwoLevelIterator option" where
  "TwoLevel_SeekToFirst block_function t =
     Option.bind (move_index Block_SeekToFirst t) (\<lambda>t.
     Option.bind (move_data Block_SeekToFirst (InitDataBlock block_function t)) (\<lambda>t.
       SkipEmptyDataBlocksForward block_function t))"

definition TwoLevel_SeekToLast :: "(bytes \<Rightarrow> BIter) \<Rightarrow> TwoLevelIterator \<Rightarrow> TwoLevelIterator option" where
  "TwoLevel_SeekToLast block_function t =
     Option.bind (move_index Block_SeekToLast t) (\<lambda>t.
     Option.bind (move_data Block_SeekToLast (InitDataBlock block_function t)) (\<lambda>t.
       SkipEmptyDataBlocksBackward block_function t))"

definition TwoLevel_Next :: "(bytes \<Rightarrow> BIter) \<Rightarrow> TwoLevelIterator \<Rightarrow> TwoLevelIterator option" where
  "TwoLevel_Next block_function t =
     Option.bind (move_data Block_Next t) (\<lambda>t. SkipEmptyDataBlocksForward block_function t)"

definition TwoLevel_Prev :: "(bytes \<Rightarrow> BIter) \<Rightarrow> TwoLevelIterator \<Rightarrow> TwoLevelIterator option" where
  "TwoLevel_Prev block_function t =
     Option.bind (move_data Block_Prev t) (\<lambda>t. SkipEmptyDataBlocksBackward block_function t)"

section \<open>Positions of a block iterator\<close>

definition over :: "(bytes \<times> bytes) list \<Rightarrow> BIter \<Rightarrow> bool" where
  "over kvs b \<longleftrightarrow> (\<exists>it ts rs. b = (Some it, True) \<and> map snd ts = kvs \<and> bi_status it \<and> iter_ok it ts rs)"

definition biter_at :: "(bytes \<times> bytes) list \<Rightarrow> BIter \<Rightarrow> nat \<Rightarrow> bool" where
  "biter_at kvs b i \<longleftrightarrow> (\<exists>it ts rs. b = (Some it, True) \<and> map snd ts = kvs \<and> bi_status it \<and> iter_ok it ts rs \<and>
     (if i < length kvs then at_entry it ts rs i else i = length kvs \<and> \<not> Block_Valid it))"

lemma biter_at_over: "biter_at kvs b i \<Longrightarrow> over kvs b"
  by (auto simp: biter_at_def over_def)

lemma biter_at_facts:
  assumes "biter_at kvs b i"
  shows "BIter_Valid b \<longleftrightarrow> i < length kvs" "BIter_status b" "i \<le> length kvs"
    "i < length kvs \<Longrightarrow> (BIter_key b, BIter_value b) = kvs ! i"
proof -
  obtain it ts rs where b: "b = (Some it, True)" "map snd ts = kvs" "bi_status it"
    "if i < length kvs then at_entry it ts rs i else i = length kvs \<and> \<not> Block_Valid it"
    using assms by (auto simp: biter_at_def)
  show "BIter_status b" using b by (simp add: BIter_status_def)
  show "BIter_Valid b \<longleftrightarrow> i < length kvs" using b(4) Block_Valid_at by (auto simp: BIter_Valid_def b(1) split: if_splits)
  show "i \<le> length kvs" using b(4) by (auto split: if_splits)
  show "(BIter_key b, BIter_value b) = kvs ! i" if "i < length kvs"
    using b(4) that unfolding b(2) [symmetric] by (simp add: BIter_key_def BIter_value_def b(1) at_entry_def)
qed

lemma over_opens:
  assumes "0 < n" "length (snd (BlockBuilder_Finish (Add_all n BlockBuilder_new kvs))) < 2 ^ 32"
  shows "over kvs (Block_NewIterator (Block_new (snd (BlockBuilder_Finish (Add_all n BlockBuilder_new kvs)))))"
proof -
  obtain ts rs where B: "builder_ok (Add_all n BlockBuilder_new kvs) ts rs" "map snd ts = kvs"
    using builder_ok_Add_all [OF builder_ok_new(1) assms(1), of kvs] by auto
  have "well_laid ts rs" using B(1) assms(2) unfolding Finish_ok [OF B(1)] by (simp add: well_laid_def builder_ok_def)
  from Block_opens [OF this] B(2) show ?thesis unfolding Finish_ok [OF B(1)] over_def by auto
qed

lemma over_SeekToFirst:
  assumes "over kvs b" "kvs \<noteq> []"
  shows "\<exists>b'. BIter_move Block_SeekToFirst b = Some b' \<and> biter_at kvs b' 0"
proof -
  obtain it ts rs where b: "b = (Some it, True)" "map snd ts = kvs" "bi_status it" "iter_ok it ts rs"
    using assms(1) by (auto simp: over_def)
  have "ts \<noteq> []" using b(2) assms(2) by auto
  then obtain it' where "Block_SeekToFirst it = Some it'" "at_entry it' ts rs 0" "bi_status it' = bi_status it"
    using Block_SeekToFirst_ok [OF b(4)] by blast
  then show ?thesis using b assms(2) by (auto simp: BIter_move_def biter_at_def at_entry_def)
qed

lemma at_Next:
  assumes "biter_at kvs b i" "i < length kvs"
  shows "\<exists>b'. BIter_move Block_Next b = Some b' \<and> biter_at kvs b' (Suc i)"
proof -
  obtain it ts rs where b: "b = (Some it, True)" "map snd ts = kvs" "bi_status it" "at_entry it ts rs i"
    using assms by (auto simp: biter_at_def)
  have len: "length ts = length kvs" using b(2) by auto
  show ?thesis
  proof (cases "Suc i < length kvs")
    case True
    obtain it' where "Block_Next it = Some it'" "at_entry it' ts rs (Suc i)" "bi_status it' = bi_status it"
      using Block_Next_ok(1) [OF b(4)] True len by auto
    then show ?thesis using b True by (auto simp: BIter_move_def biter_at_def at_entry_def)
  next
    case False
    then have "Suc i = length ts" using assms(2) len by simp
    then obtain it' where "Block_Next it = Some it'" "\<not> Block_Valid it'" "iter_ok it' ts rs" "bi_status it' = bi_status it"
      using Block_Next_ok(2) [OF b(4)] by auto
    then show ?thesis using b False len assms(2) by (auto simp: BIter_move_def biter_at_def)
  qed
qed

context block_order
begin

lemma over_Seek:
  assumes "over kvs b" "sorted_wrt (\<lambda>a b. rank (fst a) < rank (fst b)) kvs" "kvs \<noteq> []"
  shows "\<exists>b'. BIter_move (\<lambda>it. Block_Seek cmp it k) b = Some b' \<and>
    biter_at kvs b' (length (takeWhile (\<lambda>kv. rank (fst kv) < rank k) kvs))"
proof -
  obtain it ts rs where b: "b = (Some it, True)" "map snd ts = kvs" "bi_status it" "iter_ok it ts rs"
    using assms(1) by (auto simp: over_def)
  let ?P = "\<lambda>t. rank (p_key t) < rank k"
  let ?n = "length (takeWhile ?P ts)"
  have n: "length (takeWhile (\<lambda>kv. rank (fst kv) < rank k) kvs) = ?n" "length ts = length kvs"
    unfolding b(2) [symmetric] by (simp_all add: takeWhile_map comp_def)
  have ts: "ts \<noteq> []" using b(2) assms(3) by auto
  have s: "sorted_wrt (\<lambda>s t. cmp (p_key s) (p_key t) < 0) ts"
    using assms(2) unfolding b(2) [symmetric] by (simp add: sorted_wrt_map less)
  have w: "?n \<le> length ts" "\<forall>m<?n. cmp (p_key (ts ! m)) k < 0" "?n < length ts \<Longrightarrow> \<not> cmp (p_key (ts ! ?n)) k < 0"
    using length_takeWhile_le set_takeWhileD nth_length_takeWhile by (fastforce simp: takeWhile_nth less dest: nth_mem)+
  obtain it' where S: "Block_Seek cmp it k = Some it'" "bi_status it' = bi_status it"
    "if ?n < length ts then at_entry it' ts rs ?n else \<not> Block_Valid it' \<and> iter_ok it' ts rs"
    using Block_Seek_ok [OF b(4) ts s w] by blast
  have "iter_ok it' ts rs" using S(3) by (auto simp: at_entry_def split: if_splits)
  then show ?thesis
    using S b w(1) unfolding n(1) BIter_move_def biter_at_def n(2) [symmetric]
    by (auto intro!: exI [of _ ts] exI [of _ rs] split: if_splits)
qed

end

section \<open>A readable table\<close>

abbreviation enc :: "Part \<Rightarrow> bytes" where
  "enc p \<equiv> BlockHandle_EncodeTo (handle_of (pt_place p)) []"

text \<open>The index block and all data blocks are read, and the filter denies no key of a block.\<close>

definition readable :: "TableOptions \<Rightarrow> TableRep \<Rightarrow> Part list \<Rightarrow> bool" where
  "readable opts rep ps \<longleftrightarrow> over (index_kvs ps) (Block_NewIterator (tr_index_block rep)) \<and>
     (\<forall>p\<in>set ps. pt_kvs p \<noteq> [] \<and> (\<forall>verify. over (pt_kvs p) (Table_BlockReader opts rep verify (enc p))) \<and>
        (\<forall>kv\<in>set (pt_kvs p). \<not> filter_denies opts rep (enc p) (fst kv))) \<and>
     distinct (map enc ps)"

definition first_of :: "'a list \<Rightarrow> 'a option" where
  "first_of xs = (case xs of [] \<Rightarrow> None | x # _ \<Rightarrow> Some x)"

text \<open>What a lookup makes of an entry: nothing, unless it is one of the user key.\<close>

definition own :: "(bytes \<Rightarrow> 'u) \<Rightarrow> bytes \<Rightarrow> (bytes \<times> bytes) option \<Rightarrow> (bytes \<times> bytes) option" where
  "own user k r = (case r of Some (k', v) \<Rightarrow> if user k' = user k then r else None | None \<Rightarrow> None)"

lemma own_None [simp]: "own user k None = None"
  by (simp add: own_def)

lemma own_none: "(\<And>kv. kv \<in> set xs \<Longrightarrow> user (fst kv) \<noteq> user k) \<Longrightarrow> own user k (first_of xs) = None"
proof (cases xs)
  case (Cons kv kvs)
  moreover assume "\<And>kv. kv \<in> set xs \<Longrightarrow> user (fst kv) \<noteq> user k"
  ultimately have "user (fst kv) \<noteq> user k" by simp
  then show ?thesis by (simp add: Cons own_def first_of_def case_prod_beta)
qed (simp add: own_def first_of_def)

lemma index_nth: "i < length ps \<Longrightarrow> index_kvs ps ! i = (pt_sep (ps ! i), enc (ps ! i))"
  by (simp add: index_kvs_def)

lemma dropWhile_same: "(\<And>x. x \<in> set xs \<Longrightarrow> \<not> P x) \<Longrightarrow> dropWhile P xs = xs"
  by (cases xs) simp_all

lemma length_index [simp]: "length (index_kvs ps) = length ps"
  by (simp add: index_kvs_def)

lemma index_at:
  assumes "biter_at (index_kvs ps) b i"
  shows "BIter_Valid b \<longleftrightarrow> i < length ps" "i < length ps \<Longrightarrow> BIter_value b = enc (ps ! i)" "i \<le> length ps"
  using biter_at_facts [OF assms] index_nth [of i ps] by simp_all

context table_order
begin

lemma drop_parts:
  fixes k :: bytes
  assumes "parts_ok ps []"
  defines "n \<equiv> length (takeWhile (\<lambda>p. rank (pt_sep p) < rank k) ps)"
  shows "dropWhile (\<lambda>kv. rank (fst kv) < rank k) (concat (map pt_kvs ps)) =
    (if n < length ps then dropWhile (\<lambda>kv. rank (fst kv) < rank k) (pt_kvs (ps ! n)) @ concat (map pt_kvs (drop (Suc n) ps)) else [])"
  using assms(1) unfolding n_def
proof (induction ps)
  case (Cons p ps)
  let ?P = "\<lambda>kv. rank (fst kv) < rank k"
  have p: "covers p" "\<forall>q\<in>set ps. below p (pt_kvs q)" "parts_ok ps []" using Cons.prems by (simp_all add: parts_ok_def)
  show ?case
  proof (cases "rank (pt_sep p) < rank k")
    case True
    then have "\<forall>kv\<in>set (pt_kvs p). ?P kv" using p(1) by (fastforce simp: covers_def)
    then show ?thesis using Cons.IH [OF p(3)] True by (simp add: dropWhile_append2)
  next
    case False
    have "\<not> ?P kv" if "kv \<in> set (concat (map pt_kvs ps))" for kv
      using p(2) that False by (fastforce simp: below_def)
    then have "dropWhile ?P (concat (map pt_kvs ps)) = concat (map pt_kvs ps)" by (rule dropWhile_same)
    then show ?thesis using False
      by (cases "\<forall>kv\<in>set (pt_kvs p). ?P kv") (auto simp: dropWhile_append1 dropWhile_append2 dropWhile_eq_Nil_conv)
  qed
qed simp

lemma InternalGet_ok:
  assumes "readable opts rep ps" "parts_ok ps []" "ascending (concat (map pt_kvs ps))" "ps \<noteq> []" "to_compare opts = cmp"
    and "\<And>h k k'. user k = user k' \<Longrightarrow> filter_denies opts rep h k = filter_denies opts rep h k'"
  shows "\<exists>r f. Table_InternalGet opts rep verify k filtered = Some (r, f, True) \<and>
    (\<forall>x. r = Some x \<longrightarrow> x \<in> set (concat (map pt_kvs ps))) \<and>
    own user k r = own user k (first_of (dropWhile (\<lambda>kv. rank (fst kv) < rank k) (concat (map pt_kvs ps))))"
proof -
  let ?P = "\<lambda>kv. rank (fst kv) < rank k" and ?all = "concat (map pt_kvs ps)"
  let ?n = "length (takeWhile (\<lambda>p. rank (pt_sep p) < rank k) ps)"
  have idx: "over (index_kvs ps) (Block_NewIterator (tr_index_block rep))" using assms(1) by (simp add: readable_def)
  have n: "length (takeWhile (\<lambda>kv. rank (fst kv) < rank k) (index_kvs ps)) = ?n"
    by (simp add: index_kvs_def takeWhile_map comp_def)
  have "index_kvs ps \<noteq> []" using assms(4) by (simp add: index_kvs_def)
  from over_Seek [OF idx _ this, of k] obtain b where
    b: "BIter_move (\<lambda>it. Block_Seek cmp it k) (Block_NewIterator (tr_index_block rep)) = Some b" "biter_at (index_kvs ps) b ?n"
    using parts_index(1) [OF assms(2)] unfolding n ascending_def by blast
  note B = index_at [OF b(2)] and st = biter_at_facts(2) [OF b(2)]
  note D = drop_parts [OF assms(2), of k]
  show ?thesis
  proof (cases "?n < length ps")
    case False
    then have "Table_InternalGet opts rep verify k filtered = Some (None, filtered, True)"
      using b(1) B(1) st by (simp add: Table_InternalGet_def assms(5))
    moreover have "dropWhile ?P ?all = []" unfolding D using False by (simp only: if_False)
    ultimately show ?thesis by (simp only: first_of_def list.case option.inject prod.inject) blast
  next
    case True
    let ?p = "ps ! ?n" and ?rest = "concat (map pt_kvs (drop (Suc ?n) ps))"
    have p: "?p \<in> set ps" using True by simp
    have cov: "covers ?p" using assms(2) p by (simp add: parts_ok_def)
    have asc: "ascending (pt_kvs ?p)" using parts_index(2) [OF assms(2,3) True] .
    have sep: "rank k \<le> rank (pt_sep ?p)" using nth_length_takeWhile [OF True] by simp
    have next_user: "user k < user (fst kv)" if all: "\<forall>kv\<in>set (pt_kvs ?p). ?P kv" and kv: "kv \<in> set ?rest" for kv
    proof -
      obtain q where q: "q \<in> set (drop (Suc ?n) ps)" "kv \<in> set (pt_kvs q)" using kv by auto
      have "below ?p (pt_kvs q)"
      proof -
        have "sorted_wrt (\<lambda>p q. below p (pt_kvs q)) (?p # drop (Suc ?n) ps)"
          using assms(2) sorted_wrt_drop [of _ ps ?n] True by (simp add: parts_ok_def Cons_nth_drop_Suc)
        then show ?thesis using q(1) by simp
      qed
      moreover have "rank (fst (last (pt_kvs ?p))) < rank k" using all cov by (simp add: covers_def)
      ultimately show ?thesis using sep q(2) by (simp add: below_def)
    qed
    have later: "own user k (first_of (dropWhile ?P ?all)) = own user k (first_of (dropWhile ?P (pt_kvs ?p)))"
    proof (cases "dropWhile ?P (pt_kvs ?p)")
      case Nil
      then have "\<forall>kv\<in>set (pt_kvs ?p). ?P kv" by (simp add: dropWhile_eq_Nil_conv)
      then have "own user k (first_of ?rest) = None"
        using next_user by (intro own_none) (metis less_irrefl)
      moreover have "dropWhile ?P ?all = ?rest" unfolding D Nil using True by simp
      ultimately show ?thesis unfolding Nil by (simp add: own_def first_of_def)
    qed (use D True in \<open>simp add: first_of_def\<close>)
    have val: "BIter_value b = enc ?p" "BIter_Valid b" using B(1,2) True by simp_all
    show ?thesis
    proof (cases "filter_denies opts rep (enc ?p) k")
      case True
      have "own user k (first_of (dropWhile ?P (pt_kvs ?p))) = None"
      proof (cases "dropWhile ?P (pt_kvs ?p)")
        case (Cons kv kvs)
        then have "kv \<in> set (pt_kvs ?p)" by (metis list.set_intros(1) set_dropWhileD)
        then have "\<not> filter_denies opts rep (enc ?p) (fst kv)" using assms(1) p by (simp add: readable_def)
        then have "user (fst kv) \<noteq> user k" using True assms(6) [of "fst kv" k "enc ?p"] by blast
        then show ?thesis unfolding Cons by (simp add: own_def first_of_def case_prod_beta)
      next
        case Nil
        show ?thesis unfolding Nil by (simp add: own_def first_of_def)
      qed
      moreover have "Table_InternalGet opts rep verify k filtered = Some (None, True, True)"
        using b(1) val st True by (simp add: Table_InternalGet_def assms(5))
      ultimately show ?thesis using later by (intro exI [of _ None] exI [of _ True]) simp
    next
      case False
      have "over (pt_kvs ?p) (Table_BlockReader opts rep verify (enc ?p))" "pt_kvs ?p \<noteq> []"
        using assms(1) p by (simp_all add: readable_def)
      from over_Seek [OF this(1) asc [unfolded ascending_def] this(2), of k] obtain d where
        d: "BIter_move (\<lambda>it. Block_Seek cmp it k) (Table_BlockReader opts rep verify (enc ?p)) = Some d"
        "biter_at (pt_kvs ?p) d (length (takeWhile ?P (pt_kvs ?p)))" by blast
      note F = biter_at_facts [OF d(2)]
      have "(if BIter_Valid d then Some (BIter_key d, BIter_value d) else None) = first_of (dropWhile ?P (pt_kvs ?p))"
        using F(1,4) by (cases "dropWhile ?P (pt_kvs ?p)")
          (auto simp: first_of_def dropWhile_eq_drop dest: arg_cong [of _ _ length] hd_drop_conv_nth)
      then have "Table_InternalGet opts rep verify k filtered = Some (first_of (dropWhile ?P (pt_kvs ?p)), False, True)"
        using b(1) d(1) val st False F(2) by (simp add: Table_InternalGet_def assms(5))
      moreover have "\<forall>x. first_of (dropWhile ?P (pt_kvs ?p)) = Some x \<longrightarrow> x \<in> set ?all"
      proof safe
        fix k v assume "first_of (dropWhile ?P (pt_kvs ?p)) = Some (k, v)"
        then have "(k, v) \<in> set (dropWhile ?P (pt_kvs ?p))" by (auto simp: first_of_def split: list.splits)
        then show "(k, v) \<in> set ?all" using p by (auto dest: set_dropWhileD)
      qed
      ultimately show ?thesis using later by (intro exI [of _ "first_of (dropWhile ?P (pt_kvs ?p))"] exI [of _ False]) simp
    qed
  qed
qed

end

section \<open>Positions of the two-level iterator\<close>

text \<open>The iterator is before the end of the table, with the entries still to come, or at its end.\<close>

definition tl_over :: "Part list \<Rightarrow> TwoLevelIterator \<Rightarrow> bool" where
  "tl_over ps t \<longleftrightarrow> over (index_kvs ps) (tl_index_iter t) \<and> tl_status t \<and>
     (case tl_data_iter t of None \<Rightarrow> True
      | Some d \<Rightarrow> \<exists>p\<in>set ps. tl_data_block_handle t = enc p \<and> over (pt_kvs p) d)"

lemma tl_over_index: "tl_over ps t \<Longrightarrow> over (index_kvs ps) b \<Longrightarrow> tl_over ps (t\<lparr>tl_index_iter := b\<rparr>)"
  by (auto simp: tl_over_def split: option.splits)

inductive tl_rest :: "Part list \<Rightarrow> TwoLevelIterator \<Rightarrow> (bytes \<times> bytes) list \<Rightarrow> bool" for ps t where
  on: "\<lbrakk>i < length ps; biter_at (index_kvs ps) (tl_index_iter t) i; tl_status t; tl_data_block_handle t = enc (ps ! i);
      tl_data_iter t = Some d; biter_at (pt_kvs (ps ! i)) d j; j < length (pt_kvs (ps ! i))\<rbrakk> \<Longrightarrow>
    tl_rest ps t (drop j (pt_kvs (ps ! i)) @ concat (map pt_kvs (drop (Suc i) ps)))"
| past: "\<lbrakk>biter_at (index_kvs ps) (tl_index_iter t) (length ps); tl_status t; tl_data_iter t = None\<rbrakk> \<Longrightarrow> tl_rest ps t []"

inductive_cases tl_restE: "tl_rest ps t xs"

lemma tl_rest_facts:
  assumes "tl_rest ps t xs"
  shows "TwoLevel_Valid t \<longleftrightarrow> xs \<noteq> []" "TwoLevel_status t" "tl_over ps t"
    "xs \<noteq> [] \<Longrightarrow> (BIter_key (the (tl_data_iter t)), BIter_value (the (tl_data_iter t))) = hd xs"
  using assms
proof -
  show "TwoLevel_Valid t \<longleftrightarrow> xs \<noteq> []" "TwoLevel_status t"
    "xs \<noteq> [] \<Longrightarrow> (BIter_key (the (tl_data_iter t)), BIter_value (the (tl_data_iter t))) = hd xs"
    using assms by (auto elim!: tl_restE simp: TwoLevel_Valid_def TwoLevel_status_def biter_at_facts hd_append hd_drop_conv_nth)
  show "tl_over ps t" using assms by (rule tl_restE) (auto simp: tl_over_def intro: biter_at_over nth_mem)
qed

text \<open>Setting up the data block of the current index entry.\<close>

lemma Init_ok:
  fixes verify :: bool
  assumes "tl_over ps t" "readable opts rep ps" "biter_at (index_kvs ps) (tl_index_iter t) i"
  defines "t' \<equiv> InitDataBlock (Table_BlockReader opts rep verify) t"
  shows "tl_index_iter t' = tl_index_iter t" "tl_status t'"
    "i < length ps \<Longrightarrow> \<exists>d. tl_data_iter t' = Some d \<and> over (pt_kvs (ps ! i)) d \<and> tl_data_block_handle t' = enc (ps ! i)"
    "i = length ps \<Longrightarrow> tl_data_iter t' = None"
proof -
  have status: "BIter_status d" if "over kvs d" for kvs d using that by (auto simp: over_def BIter_status_def)
  note B = index_at [OF assms(3)]
  have dst: "distinct (map enc ps)" using assms(2) by (simp add: readable_def)
  show "tl_index_iter t' = tl_index_iter t" by (simp add: t'_def InitDataBlock_def SetDataIterator_def Let_def)
  show "tl_status t'"
    using assms(1) status by (auto simp: t'_def InitDataBlock_def SetDataIterator_def Let_def tl_over_def split: option.splits)
  show "tl_data_iter t' = None" if "i = length ps" using B(1) that by (simp add: t'_def InitDataBlock_def SetDataIterator_def)
  show "\<exists>d. tl_data_iter t' = Some d \<and> over (pt_kvs (ps ! i)) d \<and> tl_data_block_handle t' = enc (ps ! i)" if i: "i < length ps"
  proof (cases "tl_data_iter t \<noteq> None \<and> enc (ps ! i) = tl_data_block_handle t")
    case True
    then obtain d p where d: "tl_data_iter t = Some d" "p \<in> set ps" "enc (ps ! i) = enc p" "over (pt_kvs p) d"
      using assms(1) by (auto simp: tl_over_def)
    have "inj_on enc (set ps)" using dst by (simp add: distinct_map)
    from inj_onD [OF this d(3) nth_mem [OF i] d(2)] have "over (pt_kvs (ps ! i)) d" using d(4) by (simp only:)
    moreover have "t' = t" using True B(1,2) i unfolding t'_def InitDataBlock_def Let_def by simp
    ultimately show ?thesis using True d(1) by simp
  next
    case False
    then have "t' = SetDataIterator (t\<lparr>tl_data_block_handle := enc (ps ! i)\<rparr>)
        (Some (Table_BlockReader opts rep verify (enc (ps ! i))))"
      using B(1,2) i unfolding t'_def InitDataBlock_def Let_def by auto
    moreover have "over (pt_kvs (ps ! i)) (Table_BlockReader opts rep verify (enc (ps ! i)))"
      using assms(2) i by (simp add: readable_def)
    ultimately show ?thesis by (simp add: SetDataIterator_def)
  qed
qed

lemma at_rest:
  assumes "i < length ps" "biter_at (index_kvs ps) (tl_index_iter t) i" "tl_status t" "tl_data_block_handle t = enc (ps ! i)"
    and "tl_data_iter t = Some d" "biter_at (pt_kvs (ps ! i)) d j" "readable opts rep ps"
  shows "\<exists>t'. SkipEmptyDataBlocksForward (Table_BlockReader opts rep verify) t = Some t' \<and>
    tl_rest ps t' (drop j (pt_kvs (ps ! i)) @ concat (map pt_kvs (drop (Suc i) ps)))"
proof -
  let ?bf = "Table_BlockReader opts rep verify"
  note F = biter_at_facts [OF assms(6)]
  have V: "TwoLevel_Valid t \<longleftrightarrow> j < length (pt_kvs (ps ! i))" using F(1) assms(5) by (simp add: TwoLevel_Valid_def)
  show ?thesis
  proof (cases "j < length (pt_kvs (ps ! i))")
    case True
    then show ?thesis using V tl_rest.on [OF assms(1-6)] by (subst SkipEmptyDataBlocksForward.simps) simp
  next
    case False
    obtain b where b: "BIter_move Block_Next (tl_index_iter t) = Some b" "biter_at (index_kvs ps) b (Suc i)"
      using at_Next [OF assms(2)] assms(1) by auto
    let ?t = "t\<lparr>tl_index_iter := b\<rparr>"
    have step: "SkipEmptyDataBlocksForward ?bf t =
        Option.bind (move_data Block_SeekToFirst (InitDataBlock ?bf ?t)) (SkipEmptyDataBlocksForward ?bf)"
      using False V index_at(1) [OF assms(2)] assms(1) b(1) by (subst SkipEmptyDataBlocksForward.simps) (simp add: move_index_def)
    have over: "tl_over ps ?t"
      using assms(1,3-6) b(2) by (auto simp: tl_over_def intro: biter_at_over nth_mem)
    have at: "biter_at (index_kvs ps) (tl_index_iter ?t) (Suc i)" using b(2) by simp
    note I = Init_ok [OF over assms(7) at, of verify]
    show ?thesis
    proof (cases "Suc i < length ps")
      case True
      obtain d' where d': "tl_data_iter (InitDataBlock ?bf ?t) = Some d'" "over (pt_kvs (ps ! Suc i)) d'"
        "tl_data_block_handle (InitDataBlock ?bf ?t) = enc (ps ! Suc i)" using I(3) [OF True] by blast
      have ne: "pt_kvs (ps ! Suc i) \<noteq> []" using assms(7) True by (simp add: readable_def)
      obtain d0 where d0: "BIter_move Block_SeekToFirst d' = Some d0" "biter_at (pt_kvs (ps ! Suc i)) d0 0"
        using over_SeekToFirst [OF d'(2) ne] by blast
      let ?t' = "(InitDataBlock ?bf ?t)\<lparr>tl_data_iter := Some d0\<rparr>"
      have "tl_rest ps ?t' (drop 0 (pt_kvs (ps ! Suc i)) @ concat (map pt_kvs (drop (Suc (Suc i)) ps)))"
        by (rule tl_rest.on) (use True at I(1,2) d'(3) d0(2) ne in simp_all)
      moreover have "SkipEmptyDataBlocksForward ?bf ?t' = Some ?t'"
        using biter_at_facts(1) [OF d0(2)] ne by (subst SkipEmptyDataBlocksForward.simps) (simp add: TwoLevel_Valid_def)
      moreover have "concat (map pt_kvs (drop (Suc i) ps)) = pt_kvs (ps ! Suc i) @ concat (map pt_kvs (drop (Suc (Suc i)) ps))"
        using True by (simp add: Cons_nth_drop_Suc [symmetric])
      ultimately show ?thesis using False step d'(1) d0(1) by (simp add: move_data_def)
    next
      case last: False
      then have e: "Suc i = length ps" using assms(1) by simp
      have none: "tl_data_iter (InitDataBlock ?bf ?t) = None" using I(4) [OF e] .
      have idx: "biter_at (index_kvs ps) (tl_index_iter (InitDataBlock ?bf ?t)) (length ps)" using at I(1) e by simp
      let ?t' = "SetDataIterator (InitDataBlock ?bf ?t) None"
      have "SkipEmptyDataBlocksForward ?bf (InitDataBlock ?bf ?t) = Some ?t'"
        using none index_at(1) [OF idx] by (subst SkipEmptyDataBlocksForward.simps) (simp add: TwoLevel_Valid_def)
      moreover have "tl_rest ps ?t' []" by (rule tl_rest.past) (use idx I(2) none in \<open>simp_all add: SetDataIterator_def\<close>)
      ultimately show ?thesis using False step none e by (simp add: move_data_def)
    qed
  qed
qed

lemma Next_rest:
  assumes "tl_rest ps t (x # xs)" "readable opts rep ps"
  shows "\<exists>t'. TwoLevel_Next (Table_BlockReader opts rep verify) t = Some t' \<and> tl_rest ps t' xs"
  using assms(1)
proof (rule tl_restE)
  fix i d j assume on: "x # xs = drop j (pt_kvs (ps ! i)) @ concat (map pt_kvs (drop (Suc i) ps))" "i < length ps"
    "biter_at (index_kvs ps) (tl_index_iter t) i" "tl_status t" "tl_data_block_handle t = enc (ps ! i)"
    "tl_data_iter t = Some d" "biter_at (pt_kvs (ps ! i)) d j" "j < length (pt_kvs (ps ! i))"
  obtain d' where d': "BIter_move Block_Next d = Some d'" "biter_at (pt_kvs (ps ! i)) d' (Suc j)"
    using at_Next [OF on(7,8)] by blast
  have "xs = drop (Suc j) (pt_kvs (ps ! i)) @ concat (map pt_kvs (drop (Suc i) ps))"
    using on(1,8) by (simp add: Cons_nth_drop_Suc [symmetric])
  then show ?thesis
    using at_rest [of i ps "t\<lparr>tl_data_iter := Some d'\<rparr>" d' "Suc j" opts rep verify] on(2-6) d' assms(2)
    by (simp add: TwoLevel_Next_def move_data_def)
qed simp

lemma SeekToFirst_rest:
  assumes "tl_over ps t" "readable opts rep ps" "ps \<noteq> []"
  shows "\<exists>t'. TwoLevel_SeekToFirst (Table_BlockReader opts rep verify) t = Some t' \<and> tl_rest ps t' (concat (map pt_kvs ps))"
proof -
  let ?bf = "Table_BlockReader opts rep verify"
  have "index_kvs ps \<noteq> []" "0 < length ps" using assms(3) by (simp_all add: index_kvs_def)
  then obtain b where b: "BIter_move Block_SeekToFirst (tl_index_iter t) = Some b" "biter_at (index_kvs ps) b 0"
    using over_SeekToFirst [of "index_kvs ps" "tl_index_iter t"] assms(1) by (auto simp: tl_over_def)
  let ?t = "t\<lparr>tl_index_iter := b\<rparr>"
  have over: "tl_over ps ?t" by (rule tl_over_index [OF assms(1) biter_at_over [OF b(2)]])
  have at: "biter_at (index_kvs ps) (tl_index_iter ?t) 0" using b(2) by simp
  note I = Init_ok [OF over assms(2) at, of verify]
  obtain d where d: "tl_data_iter (InitDataBlock ?bf ?t) = Some d" "over (pt_kvs (ps ! 0)) d"
    "tl_data_block_handle (InitDataBlock ?bf ?t) = enc (ps ! 0)" using I(3) \<open>0 < length ps\<close> by blast
  have ne: "pt_kvs (ps ! 0) \<noteq> []" using assms(2) \<open>0 < length ps\<close> by (simp add: readable_def)
  obtain d0 where d0: "BIter_move Block_SeekToFirst d = Some d0" "biter_at (pt_kvs (ps ! 0)) d0 0"
    using over_SeekToFirst [OF d(2) ne] by blast
  have "concat (map pt_kvs ps) = drop 0 (pt_kvs (ps ! 0)) @ concat (map pt_kvs (drop (Suc 0) ps))"
    using assms(3) by (cases ps) simp_all
  then show ?thesis
    using at_rest [of 0 ps "(InitDataBlock ?bf ?t)\<lparr>tl_data_iter := Some d0\<rparr>" d0 0 opts rep verify] at I(1,2) b(1) d(1,3) d0 assms(2,3)
    by (simp add: TwoLevel_SeekToFirst_def move_index_def move_data_def)
qed

context table_order
begin

lemma Seek_rest:
  assumes "tl_over ps t" "readable opts rep ps" "ps \<noteq> []" "parts_ok ps []" "ascending (concat (map pt_kvs ps))"
  shows "\<exists>t'. TwoLevel_Seek (Table_BlockReader opts rep verify) cmp t k = Some t' \<and>
    tl_rest ps t' (dropWhile (\<lambda>kv. rank (fst kv) < rank k) (concat (map pt_kvs ps)))"
proof -
  let ?bf = "Table_BlockReader opts rep verify" and ?P = "\<lambda>kv. rank (fst kv) < rank k"
  let ?n = "length (takeWhile (\<lambda>p. rank (pt_sep p) < rank k) ps)"
  have n: "length (takeWhile ?P (index_kvs ps)) = ?n" by (simp add: index_kvs_def takeWhile_map comp_def)
  have "index_kvs ps \<noteq> []" using assms(3) by (simp add: index_kvs_def)
  from over_Seek [OF _ parts_index(1) [OF assms(4), unfolded ascending_def] this, of "tl_index_iter t" k]
  obtain b where b: "BIter_move (\<lambda>it. Block_Seek cmp it k) (tl_index_iter t) = Some b" "biter_at (index_kvs ps) b ?n"
    using assms(1) unfolding n tl_over_def by blast
  let ?t = "t\<lparr>tl_index_iter := b\<rparr>"
  have over: "tl_over ps ?t" by (rule tl_over_index [OF assms(1) biter_at_over [OF b(2)]])
  have at: "biter_at (index_kvs ps) (tl_index_iter ?t) ?n" using b(2) by simp
  note I = Init_ok [OF over assms(2) at, of verify] and D = drop_parts [OF assms(4), of k]
  have start: "move_index (\<lambda>it. Block_Seek cmp it k) t = Some ?t" using b(1) by (simp add: move_index_def)
  show ?thesis
  proof (cases "?n < length ps")
    case True
    obtain d where d: "tl_data_iter (InitDataBlock ?bf ?t) = Some d" "over (pt_kvs (ps ! ?n)) d"
      "tl_data_block_handle (InitDataBlock ?bf ?t) = enc (ps ! ?n)" using I(3) [OF True] by blast
    have ne: "pt_kvs (ps ! ?n) \<noteq> []" using assms(2) True by (simp add: readable_def)
    obtain d0 where d0: "BIter_move (\<lambda>it. Block_Seek cmp it k) d = Some d0"
      "biter_at (pt_kvs (ps ! ?n)) d0 (length (takeWhile ?P (pt_kvs (ps ! ?n))))"
      using over_Seek [OF d(2) parts_index(2) [OF assms(4,5) True, unfolded ascending_def] ne] by blast
    let ?t' = "(InitDataBlock ?bf ?t)\<lparr>tl_data_iter := Some d0\<rparr>"
    obtain t' where "SkipEmptyDataBlocksForward ?bf ?t' = Some t'"
      "tl_rest ps t' (drop (length (takeWhile ?P (pt_kvs (ps ! ?n)))) (pt_kvs (ps ! ?n)) @ concat (map pt_kvs (drop (Suc ?n) ps)))"
      using at_rest [of ?n ps ?t' d0 _ opts rep verify, OF True _ _ _ _ d0(2) assms(2)] at I(1,2) d(3) by auto
    moreover have "move_data (\<lambda>it. Block_Seek cmp it k) (InitDataBlock ?bf ?t) = Some ?t'"
      using d(1) d0(1) by (simp add: move_data_def)
    ultimately show ?thesis
      unfolding D TwoLevel_Seek_def start bind.bind_lunit using True by (simp add: dropWhile_eq_drop)
  next
    case False
    then have e: "?n = length ps" using index_at(3) [OF b(2)] by simp
    have none: "tl_data_iter (InitDataBlock ?bf ?t) = None" using I(4) [OF e] .
    have idx: "biter_at (index_kvs ps) (tl_index_iter (InitDataBlock ?bf ?t)) (length ps)" using at I(1) e by simp
    let ?t' = "SetDataIterator (InitDataBlock ?bf ?t) None"
    have "SkipEmptyDataBlocksForward ?bf (InitDataBlock ?bf ?t) = Some ?t'"
      using none index_at(1) [OF idx] by (subst SkipEmptyDataBlocksForward.simps) (simp add: TwoLevel_Valid_def)
    moreover have "tl_rest ps ?t' []" by (rule tl_rest.past) (use idx I(2) none in \<open>simp_all add: SetDataIterator_def\<close>)
    ultimately show ?thesis
      unfolding D TwoLevel_Seek_def start bind.bind_lunit using False none by (simp add: move_data_def)
  qed
qed

end

text \<open>The entries from where the iterator is.\<close>

fun tl_entries :: "nat \<Rightarrow> (bytes \<Rightarrow> BIter) \<Rightarrow> TwoLevelIterator \<Rightarrow> (bytes \<times> bytes) list option" where
  "tl_entries 0 bf t = (if TwoLevel_Valid t then None else Some [])"
| "tl_entries (Suc n) bf t =
     (if TwoLevel_Valid t
      then Option.bind (TwoLevel_Next bf t)
        (\<lambda>t'. map_option ((#) (BIter_key (the (tl_data_iter t)), BIter_value (the (tl_data_iter t)))) (tl_entries n bf t'))
      else Some [])"

lemma tl_entries_ok:
  assumes "tl_rest ps t xs" "readable opts rep ps" "length xs \<le> n"
  shows "tl_entries n (Table_BlockReader opts rep verify) t = Some xs"
  using assms(1,3)
proof (induction n arbitrary: t xs)
  case (Suc n)
  note F = tl_rest_facts [OF Suc.prems(1)]
  show ?case
  proof (cases xs)
    case (Cons x ys)
    obtain t' where N: "TwoLevel_Next (Table_BlockReader opts rep verify) t = Some t'" "tl_rest ps t' ys"
      using Next_rest [OF Suc.prems(1) [unfolded Cons] assms(2)] by blast
    then show ?thesis using Suc.IH [OF N(2)] Suc.prems(2) F(1,4) Cons by simp
  qed (use F(1) in simp)
qed (use tl_rest_facts(1) in simp)

section \<open>Opening what the builder wrote\<close>

interpretation bytewise: block_order Slice_compare "\<lambda>k. k"
  by standard simp_all

lemma enc_inj:
  assumes "enc p = enc q" "fst (pt_place p) < 2 ^ 64" "fst (pt_place q) < 2 ^ 64"
  shows "fst (pt_place p) = fst (pt_place q)"
proof -
  have "handle_of (pt_place p) = handle_of (pt_place q)"
    using BlockHandle_decode [of "handle_of (pt_place p)" "[]"] BlockHandle_decode [of "handle_of (pt_place q)" "[]"] assms(1) by simp
  then have "unat (of_nat (fst (pt_place p)) :: u64) = unat (of_nat (fst (pt_place q)) :: u64)" by simp
  then show ?thesis using assms(2,3) by (simp add: unat_of_nat take_bit_nat_eq_self)
qed

lemma length_enc: "length (enc p) \<le> 20"
  using length_BlockHandle [of "handle_of (pt_place p)"] by (simp add: kMaxEncodedLength_def)

lemma length_data_bytes: "length (data_bytes opts kvs) \<le> 8 + (\<Sum>(k, v)\<leftarrow>kvs. length k + length v + 19)"
  using length_Add_all [of "to_block_restart_interval opts" BlockBuilder_new kvs]
  by (simp add: data_bytes_def length_Finish CurrentSizeEstimate_def BlockBuilder_new_def)

text \<open>A file on which reading works.\<close>

definition reads :: "RandomAccessFile \<Rightarrow> bytes \<Rightarrow> bool" where
  "reads file content \<longleftrightarrow> (\<forall>off n. unat off + n \<le> length content \<longrightarrow> file off n = Some (take n (drop (unat off) content)))"

lemma read_stored:
  assumes "reads file content" "stored_at snappy content ol raw" "length content < 2 ^ 64"
  shows "Format_ReadBlock snappy file verify (handle_of ol) = Inr raw"
  by (rule Format_ReadBlock_at [OF stored_block_at [OF assms(2,3)]]) (use assms(1) in \<open>simp add: reads_def\<close>)

lemma metaindex_seek:
  assumes "to_filter_policy opts = Some fp" "length (fp_name fp) < 2 ^ 31" "0 < to_block_restart_interval opts"
  shows "\<exists>b. BIter_move (\<lambda>it. Block_Seek Slice_compare it (filter_key (fp_name fp)))
      (Block_NewIterator (Block_new (snd (BlockBuilder_Finish (metaindex_block opts h))))) = Some b \<and>
    BIter_Valid b \<and> BIter_key b = filter_key (fp_name fp) \<and> BIter_value b = BlockHandle_EncodeTo h []"
proof -
  let ?key = "filter_key (fp_name fp)" and ?kvs = "[(filter_key (fp_name fp), BlockHandle_EncodeTo h [])]"
  have m: "metaindex_block opts h = Add_all (to_block_restart_interval opts) BlockBuilder_new ?kvs"
    using assms(1) by (simp add: metaindex_block_def)
  have "length ?key + length (BlockHandle_EncodeTo h []) \<le> 2 ^ 31 + 27"
    using length_BlockHandle [of h] assms(2) by (simp add: filter_key_def kMaxEncodedLength_def)
  then have "length (snd (BlockBuilder_Finish (metaindex_block opts h))) < 2 ^ 32"
    using length_data_bytes [of opts ?kvs] unfolding m data_bytes_def by simp
  then have "over ?kvs (Block_NewIterator (Block_new (snd (BlockBuilder_Finish (metaindex_block opts h)))))"
    unfolding m by (intro over_opens assms(3))
  from bytewise.over_Seek [OF this, of ?key] obtain b where
    "BIter_move (\<lambda>it. Block_Seek Slice_compare it ?key) (Block_NewIterator (Block_new (snd (BlockBuilder_Finish (metaindex_block opts h))))) = Some b"
    "biter_at ?kvs b 0" by auto
  then show ?thesis using biter_at_facts [of ?kvs b 0] by auto
qed

lemma sum_parts:
  assumes "\<forall>p\<in>set ps. pt_kvs p \<noteq> [] \<and> length (pt_sep p) \<le> length (fst (last (pt_kvs p)))"
  shows "(\<Sum>p\<leftarrow>ps. length (pt_sep p) + 39) \<le> (\<Sum>(k, v)\<leftarrow>concat (map pt_kvs ps). length k + length v + 64)"
  using assms
proof (induction ps)
  case (Cons p ps)
  obtain xs k v where x: "pt_kvs p = xs @ [(k, v)]" using Cons.prems by (cases "pt_kvs p" rule: rev_cases) auto
  then have "length (pt_sep p) + 39 \<le> (\<Sum>(k, v)\<leftarrow>pt_kvs p. length k + length v + 64)" using Cons.prems by simp
  moreover have "(\<Sum>p\<leftarrow>ps. length (pt_sep p) + 39) \<le> (\<Sum>(k, v)\<leftarrow>concat (map pt_kvs ps). length k + length v + 64)"
    using Cons by simp
  ultimately show ?case unfolding list.map sum_list.Cons concat.simps map_append sum_list_append by (rule add_mono)
qed simp

definition filter_law :: "TableOptions \<Rightarrow> nat \<Rightarrow> bool" where
  "filter_law opts n \<longleftrightarrow> (\<forall>fp. to_filter_policy opts = Some fp \<longrightarrow> length (fp_name fp) < 2 ^ 31 \<and>
     (\<exists>m\<ge>n. filter_policy (fp_create fp) (fp_may_match fp) m))"

lemma filter_of_table:
  assumes "filter_policy create may_match m" "length (concat (map pt_kvs ps)) \<le> m"
    and "sorted_wrt (<) (map (\<lambda>p. fst (pt_place p)) ps)" "\<forall>p\<in>set ps. fst (pt_place p) \<le> off" "off < 2 ^ 64"
    and "length (FilterBlock_Finish create (foldl (add_filter_block create) FilterBlockBuilder_new (filter_blocks ps @ [(of_nat off, [])]))) < 2 ^ 32"
    and "p \<in> set ps" "kv \<in> set (pt_kvs p)"
  shows "FilterBlock_KeyMayMatch may_match (FilterBlockReader_new (FilterBlock_Finish create
      (foldl (add_filter_block create) FilterBlockBuilder_new (filter_blocks ps @ [(of_nat off, [])])))) (of_nat (fst (pt_place p))) (fst kv)"
proof (rule filter_policy.filter_block_ok [OF assms(1)])
  let ?blks = "filter_blocks ps @ [(of_nat off, [])]"
  have mono: "(of_nat a :: u64) \<le> of_nat b" if "a \<le> b" "b \<le> off" for a b
  proof -
    have "unat (of_nat a :: u64) = a" "unat (of_nat b :: u64) = b" using that assms(5) by (simp_all add: unat_of_nat take_bit_nat_eq_self)
    then show ?thesis using that(1) by (simp add: word_le_nat_alt)
  qed
  have "sorted_wrt (\<lambda>p q. fst (pt_place p) < fst (pt_place q)) ps" using assms(3) by (simp add: sorted_wrt_map)
  then have "sorted_wrt (\<lambda>p q. (of_nat (fst (pt_place p)) :: u64) \<le> of_nat (fst (pt_place q))) ps"
    by (rule sorted_wrt_mono_rel [rotated]) (use assms(4) mono in \<open>simp add: less_imp_le\<close>)
  then show "sorted (map fst ?blks)"
    using assms(4) mono by (simp add: filter_blocks_def sorted_append comp_def sorted_wrt_map)
  show "length (concat (map snd ?blks)) \<le> m"
    using assms(2) by (simp add: filter_blocks_def length_concat comp_def)
  show "(of_nat (fst (pt_place p)), map fst (pt_kvs p)) \<in> set ?blks" using assms(7) by (auto simp: filter_blocks_def)
  show "fst kv \<in> set (map fst (pt_kvs p))" using assms(8) by simp
qed (use assms(6) in simp)

lemma open_ok:
  assumes "table_file opts content ps" "reads file content" "length content < 2 ^ 32" "0 < to_block_restart_interval opts"
    and "\<forall>p\<in>set ps. pt_kvs p \<noteq> [] \<and> length (pt_sep p) \<le> length (fst (last (pt_kvs p)))"
    and "(\<Sum>(k, v)\<leftarrow>concat (map pt_kvs ps). length k + length v + 64) < 2 ^ 31"
    and "filter_law opts (length (concat (map pt_kvs ps)))"
  shows "\<exists>rep. Table_Open opts file (length content) = Some (Inr rep) \<and> readable opts rep ps"
proof -
  let ?index = "snd (BlockBuilder_Finish (Add_all 1 BlockBuilder_new (index_kvs ps)))"
  obtain body flt meta idx off where T: "\<forall>p\<in>set ps. part_stored opts content p" "sorted_wrt (<) (map (\<lambda>p. fst (pt_place p)) ps)"
    "content = body @ Footer_EncodeTo \<lparr>ft_metaindex_handle = handle_of meta, ft_index_handle = handle_of idx\<rparr> []"
    "stored_at (to_snappy opts) content idx ?index"
    "stored_at (to_snappy opts) content meta (snd (BlockBuilder_Finish (metaindex_block opts (handle_of flt))))"
    "\<forall>p\<in>set ps. fst (pt_place p) \<le> off" "off \<le> length content"
    "\<forall>fp. to_filter_policy opts = Some fp \<longrightarrow> stored_raw (to_snappy opts) content flt (FilterBlock_Finish (fp_create fp)
       (foldl (add_filter_block (fp_create fp)) FilterBlockBuilder_new (filter_blocks ps @ [(of_nat off, [])])))"
    using assms(1) unfolding table_file_def by blast
  let ?footer = "\<lparr>ft_metaindex_handle = handle_of meta, ft_index_handle = handle_of idx\<rparr>"
  have len64: "length content < 2 ^ 64" using assms(3) by simp
  note read = read_stored [OF assms(2) _ len64]
  have body: "length content = length body + kEncodedLength" using T(3) Footer_roundtrip(1) by simp
  have "unat (of_nat (length body) :: u64) = length body" using body len64 by (simp add: unat_of_nat take_bit_nat_eq_self)
  then have footer: "file (of_nat (length content - kEncodedLength)) kEncodedLength = Some (Footer_EncodeTo ?footer [])"
    using assms(2) body T(3) Footer_roundtrip(1) by (simp add: reads_def)
  let ?rep = "\<lparr>tr_file = file, tr_filter = None, tr_metaindex_handle = handle_of meta, tr_index_block = Block_new ?index\<rparr>"
  have opened: "Table_Open opts file (length content) = map_option Inr (Table_ReadMeta opts ?rep ?footer)"
    using body footer Footer_roundtrip [of ?footer] read [OF T(4)] by (simp add: Table_Open_def)
  obtain rep where rep: "Table_ReadMeta opts ?rep ?footer = Some rep" "tr_file rep = file" "tr_index_block rep = Block_new ?index"
    and flt: "\<forall>fp. to_filter_policy opts = Some fp \<longrightarrow> tr_filter rep = Some (FilterBlockReader_new (FilterBlock_Finish (fp_create fp)
       (foldl (add_filter_block (fp_create fp)) FilterBlockBuilder_new (filter_blocks ps @ [(of_nat off, [])]))))"
  proof (cases "to_filter_policy opts")
    case None
    then show ?thesis using that [of ?rep] by (simp add: Table_ReadMeta_def)
  next
    case (Some fp)
    have F: "stored_at (to_snappy opts) content flt (FilterBlock_Finish (fp_create fp)
       (foldl (add_filter_block (fp_create fp)) FilterBlockBuilder_new (filter_blocks ps @ [(of_nat off, [])])))"
      using T(8) Some unfolding stored_raw_def by blast
    have name: "length (fp_name fp) < 2 ^ 31" using assms(7) Some by (simp add: filter_law_def)
    obtain b where b: "BIter_move (\<lambda>it. Block_Seek Slice_compare it (filter_key (fp_name fp)))
        (Block_NewIterator (Block_new (snd (BlockBuilder_Finish (metaindex_block opts (handle_of flt)))))) = Some b"
      "BIter_Valid b" "BIter_key b = filter_key (fp_name fp)" "BIter_value b = BlockHandle_EncodeTo (handle_of flt) []"
      using metaindex_seek [OF Some name assms(4), of "handle_of flt"] by blast
    have dec: "BlockHandle_DecodeFrom (BlockHandle_EncodeTo (handle_of flt) []) = Inr (handle_of flt, [])"
      using BlockHandle_decode [of "handle_of flt" "[]"] by simp
    show ?thesis
      by (rule that [of "?rep\<lparr>tr_filter := Some (FilterBlockReader_new (FilterBlock_Finish (fp_create fp)
         (foldl (add_filter_block (fp_create fp)) FilterBlockBuilder_new (filter_blocks ps @ [(of_nat off, [])]))))\<rparr>"])
        (use Some b dec read [OF T(5)] read [OF F] in \<open>simp_all add: Table_ReadMeta_def Table_ReadFilter_def\<close>)
  qed
  have place: "fst (pt_place p) < 2 ^ 64" if "p \<in> set ps" for p using T(6,7) that len64 by (meson le_less_trans)
  have "length ?index \<le> 8 + (\<Sum>(k, v)\<leftarrow>index_kvs ps. length k + length v + 19)"
    using length_Add_all [of 1 BlockBuilder_new "index_kvs ps"] by (simp add: length_Finish CurrentSizeEstimate_def BlockBuilder_new_def)
  also have "(\<Sum>(k, v)\<leftarrow>index_kvs ps. length k + length v + 19) \<le> (\<Sum>p\<leftarrow>ps. length (pt_sep p) + 39)"
    using length_enc by (auto simp: index_kvs_def comp_def intro!: sum_list_mono)
  finally have "length ?index < 2 ^ 32" using sum_parts [OF assms(5)] assms(6) by simp
  then have idx_over: "over (index_kvs ps) (Block_NewIterator (tr_index_block rep))" unfolding rep(3) by (intro over_opens) simp
  have data: "over (pt_kvs p) (Table_BlockReader opts rep verify (enc p))" if p: "p \<in> set ps" for p verify
  proof -
    have "stored_at (to_snappy opts) content (pt_place p) (data_bytes opts (pt_kvs p))" using T(1) p by (simp add: part_stored_def)
    then have "Table_BlockReader opts rep verify (enc p) = Block_NewIterator (Block_new (data_bytes opts (pt_kvs p)))"
      using BlockHandle_decode [of "handle_of (pt_place p)" "[]"] read by (simp add: Table_BlockReader_def rep(2))
    moreover have "(\<Sum>(k, v)\<leftarrow>pt_kvs p. length k + length v + 19) \<le> (\<Sum>(k, v)\<leftarrow>concat (map pt_kvs ps). length k + length v + 64)"
    proof -
      obtain xs ys where "ps = xs @ p # ys" using split_list [OF p] by blast
      moreover have "(\<Sum>(k, v)\<leftarrow>pt_kvs p. length k + length v + 19) \<le> (\<Sum>(k, v)\<leftarrow>pt_kvs p. length k + length v + 64)"
        by (auto intro!: sum_list_mono)
      ultimately show ?thesis by simp
    qed
    then have "length (data_bytes opts (pt_kvs p)) \<le> 8 + (\<Sum>(k, v)\<leftarrow>concat (map pt_kvs ps). length k + length v + 64)"
      using length_data_bytes [of opts "pt_kvs p"] by linarith
    then have "length (data_bytes opts (pt_kvs p)) < 2 ^ 32" using assms(6) by simp
    ultimately show ?thesis using over_opens [OF assms(4)] unfolding data_bytes_def by metis
  qed
  have "\<not> filter_denies opts rep (enc p) (fst kv)" if p: "p \<in> set ps" "kv \<in> set (pt_kvs p)" for p kv
  proof (cases "to_filter_policy opts")
    case (Some fp)
    obtain m where m: "m \<ge> length (concat (map pt_kvs ps))" "filter_policy (fp_create fp) (fp_may_match fp) m"
      using assms(7) Some unfolding filter_law_def by blast
    have small: "length (FilterBlock_Finish (fp_create fp)
        (foldl (add_filter_block (fp_create fp)) FilterBlockBuilder_new (filter_blocks ps @ [(of_nat off, [])]))) < 2 ^ 32"
      using T(8) Some assms(3) unfolding stored_raw_def by (meson le_less_trans)
    have "off < 2 ^ 64" using T(7) len64 by simp
    from filter_of_table [OF m(2,1) T(2,6) this small p]
    show ?thesis using Some flt BlockHandle_decode [of "handle_of (pt_place p)" "[]"] by (simp add: filter_denies_def)
  qed (simp add: filter_denies_def split: option.split)
  moreover have "distinct (map enc ps)"
  proof -
    have "distinct (map (\<lambda>p. fst (pt_place p)) ps)" using T(2) strict_sorted_iff by blast
    then have "inj_on (\<lambda>p. fst (pt_place p)) (set ps)" "distinct ps" by (simp_all add: distinct_map)
    then show ?thesis unfolding distinct_map inj_on_def using enc_inj place by metis
  qed
  ultimately have "readable opts rep ps" using idx_over data assms(5) by (simp add: readable_def)
  then show ?thesis using opened rep(1) by simp
qed

section \<open>Tables of the database\<close>

definition ClipToRange :: "nat \<Rightarrow> nat \<Rightarrow> nat \<Rightarrow> nat" where
  "ClipToRange x minvalue maxvalue =
     (let x = if x > maxvalue then maxvalue else x in if x < minvalue then minvalue else x)"

definition NewBloomFilterPolicy :: "nat \<Rightarrow> FilterPolicy" where
  "NewBloomFilterPolicy bits_per_key =
     \<lparr>fp_name = map of_char ''leveldb.BuiltinBloomFilter'',
      fp_create = Bloom_CreateFilter (BloomFilterPolicy_new bits_per_key), fp_may_match = Bloom_KeyMayMatch\<rparr>"

text \<open>The filter policy and the options of the tables of a database, from those that the user gave.\<close>

definition InternalFilterPolicy :: "FilterPolicy \<Rightarrow> FilterPolicy" where
  "InternalFilterPolicy p =
     \<lparr>fp_name = fp_name p, fp_create = InternalFilter_CreateFilter (fp_create p),
      fp_may_match = InternalFilter_KeyMayMatch (fp_may_match p)\<rparr>"

definition SanitizeTableOptions :: "TableOptions \<Rightarrow> TableOptions" where
  "SanitizeTableOptions src =
     src\<lparr>to_compare := InternalKey_Compare, to_separator := Internal_FindShortestSeparator,
       to_successor := Internal_FindShortSuccessor, to_filter_policy := map_option InternalFilterPolicy (to_filter_policy src),
       to_block_size := ClipToRange (to_block_size src) (2 ^ 10) (4 * 2 ^ 20)\<rparr>"

lemma Sanitize_law:
  assumes "to_filter_policy src = map_option NewBloomFilterPolicy bloom" "\<forall>n. bloom = Some n \<longrightarrow> keys \<le> (2 ^ 64 - 8) div Suc n"
  shows "filter_law (SanitizeTableOptions src) keys"
proof (cases bloom)
  case (Some n)
  let ?fp = "InternalFilterPolicy (NewBloomFilterPolicy n)"
  have "to_filter_policy (SanitizeTableOptions src) = Some ?fp" using assms(1) Some by (simp add: SanitizeTableOptions_def)
  moreover have "length (fp_name ?fp) < 2 ^ 31" by (simp add: InternalFilterPolicy_def NewBloomFilterPolicy_def)
  moreover have "filter_policy (fp_create ?fp) (fp_may_match ?fp) ((2 ^ 64 - 8) div Suc n)"
    using internal.filter_policy_axioms by (simp add: InternalFilterPolicy_def NewBloomFilterPolicy_def)
  moreover have "keys \<le> (2 ^ 64 - 8) div Suc n" using assms(2) Some by blast
  ultimately show ?thesis unfolding filter_law_def by (metis option.inject)
qed (use assms in \<open>simp add: filter_law_def SanitizeTableOptions_def\<close>)

lemma Sanitize_user:
  assumes "ExtractUserKey k = ExtractUserKey k'" "to_filter_policy src = map_option NewBloomFilterPolicy bloom"
  shows "filter_denies (SanitizeTableOptions src) rep h k = filter_denies (SanitizeTableOptions src) rep h k'"
  using assms by (simp add: filter_denies_def SanitizeTableOptions_def InternalFilterPolicy_def InternalFilter_KeyMayMatch_def
      FilterBlock_KeyMayMatch_def split: option.splits sum.splits)

lemma tl_over_new: "readable opts rep ps \<Longrightarrow> tl_over ps (Table_NewIterator rep)"
  by (simp add: tl_over_def readable_def Table_NewIterator_def)

abbreviation key_before :: "bytes \<Rightarrow> bytes \<times> bytes \<Rightarrow> bool" where
  "key_before k \<equiv> \<lambda>kv. InternalKey_Compare (fst kv) k < 0"

lemma iterate_ok:
  fixes verify :: bool and opts :: TableOptions and rep :: TableRep and ps :: "Part list"
  assumes "readable opts rep ps" "ps \<noteq> []" "itable.parts_ok ps []" "itable.ascending (concat (map pt_kvs ps))"
  defines "bf \<equiv> Table_BlockReader opts rep verify" and "n \<equiv> length (concat (map pt_kvs ps))"
  shows "Option.bind (TwoLevel_SeekToFirst bf (Table_NewIterator rep)) (tl_entries n bf) = Some (concat (map pt_kvs ps))"
    "Option.bind (TwoLevel_Seek bf InternalKey_Compare (Table_NewIterator rep) k) (tl_entries n bf) =
       Some (dropWhile (key_before k) (concat (map pt_kvs ps)))"
proof -
  note over = tl_over_new [OF assms(1)]
  obtain t where "TwoLevel_SeekToFirst bf (Table_NewIterator rep) = Some t" "tl_rest ps t (concat (map pt_kvs ps))"
    using SeekToFirst_rest [OF over assms(1,2)] unfolding bf_def by blast
  then show "Option.bind (TwoLevel_SeekToFirst bf (Table_NewIterator rep)) (tl_entries n bf) = Some (concat (map pt_kvs ps))"
    using tl_entries_ok [OF _ assms(1), of t _ n verify] by (simp add: bf_def n_def)
  obtain t where "TwoLevel_Seek bf InternalKey_Compare (Table_NewIterator rep) k = Some t"
    "tl_rest ps t (dropWhile (key_before k) (concat (map pt_kvs ps)))"
    using itable.Seek_rest [OF over assms(1-4)] unfolding bf_def ikey.less by blast
  then show "Option.bind (TwoLevel_Seek bf InternalKey_Compare (Table_NewIterator rep) k) (tl_entries n bf) =
       Some (dropWhile (key_before k) (concat (map pt_kvs ps)))"
    using tl_entries_ok [OF _ assms(1), of t _ n verify] length_dropWhile_le [of "key_before k" "concat (map pt_kvs ps)"]
    by (simp add: bf_def n_def)
qed

text \<open>The length of the table of the witness.\<close>

lemma length_small_table:
  fixes env :: "bytes WritableFile" and kvs :: "(bytes \<times> bytes) list" and opts :: TableOptions
  defines "env \<equiv> \<lparr>wf_Append = \<lambda>f d. (f @ d, True), wf_Flush = \<lambda>f. (f, True)\<rparr>"
  defines "opts \<equiv> \<lparr>to_compare = InternalKey_Compare, to_separator = Internal_FindShortestSeparator,
    to_successor = Internal_FindShortSuccessor, to_block_size = 4096, to_block_restart_interval = 16,
    to_compression = kNoCompression, to_snappy = \<lparr>sn_compress = \<lambda>raw. None, sn_uncompress = \<lambda>c. None\<rparr>, to_filter_policy = None\<rparr>"
  defines "kvs \<equiv> [(InternalKey [1] 5 kTypeValue, [7]), (InternalKey [2] 6 kTypeValue, [8, 9])]"
  defines "built \<equiv> TableBuilder_Finish env opts (foldl (\<lambda>r (k, v). TableBuilder_Add env opts r k v) (TableBuilder_new opts []) kvs)"
  shows "length (tb_file (fst built)) \<le> 600"
proof -
  let ?k1 = "InternalKey [1] 5 kTypeValue" and ?k2 = "InternalKey [2] 6 kTypeValue"
  have k: "length ?k1 = 9" "length ?k2 = 9" by (simp_all add: InternalKey_def AppendInternalKey_def PutFixed64_def)
  let ?b = "\<lambda>kvs. Add_all 16 BlockBuilder_new kvs"
  have small: "CurrentSizeEstimate (?b [(?k1, [7])]) < 4096" "CurrentSizeEstimate (?b kvs) \<le> 200"
    using length_Add_all [of 16 BlockBuilder_new "[(?k1, [7])]"] length_Add_all [of 16 BlockBuilder_new kvs] k
    by (simp_all add: kvs_def CurrentSizeEstimate_def BlockBuilder_new_def)
  define r where "r = foldl (\<lambda>r (k, v). TableBuilder_Add env opts r k v) (TableBuilder_new opts []) kvs"
  have r: "r = (TableBuilder_new opts [])\<lparr>tb_last_key := ?k2, tb_num_entries := 2, tb_data_block := ?b kvs\<rparr>"
    using small by (simp add: r_def kvs_def opts_def TableBuilder_new_def TableBuilder_Add_def)
  have ne: "bb_buffer (?b kvs) \<noteq> []" using Add_all_empty [of 16 kvs] by (metis kvs_def list.distinct(1) zero_less_numeral)
  let ?i = "\<lambda>h. BlockBuilder_Add 1 BlockBuilder_new (Internal_FindShortSuccessor ?k2) (BlockHandle_EncodeTo h [])"
  have idx: "CurrentSizeEstimate (?i h) \<le> 200" for h
    using length_Add_all [of 1 BlockBuilder_new "[(Internal_FindShortSuccessor ?k2, BlockHandle_EncodeTo h [])]"]
      length_BlockHandle [of h] itable.sep_length(2) [of ?k2] k
    by (simp add: BlockBuilder_new_def kMaxEncodedLength_def CurrentSizeEstimate_def)
  have new: "CurrentSizeEstimate BlockBuilder_new = 8" by (simp add: BlockBuilder_new_def CurrentSizeEstimate_def)
  have footer: "length (Footer_EncodeTo ft []) = 48" for ft
    using Footer_roundtrip(1) by (simp add: kEncodedLength_def kMaxEncodedLength_def)
  show ?thesis
    unfolding built_def r_def [symmetric] r using idx [of "\<lparr>bh_offset = 0, bh_size = of_nat (CurrentSizeEstimate (?b kvs))\<rparr>"] small(2) ne new
    by (simp add: TableBuilder_new_def TableBuilder_Finish_def TableBuilder_Flush_def WriteBlock_def case_prod_beta Let_def
        compress_block_def opts_def WriteRawBlock_def env_def write_filter_block_def metaindex_block_def add_index_entry_def footer length_Finish kBlockTrailerSize_def)
qed

text \<open>What the builder wrote opens, and all its parts are readable.\<close>

lemma built_table:
  fixes kvs :: "(bytes \<times> bytes) list" and env :: "'f WritableFile" and src :: TableOptions and f :: 'f
  defines "opts \<equiv> SanitizeTableOptions src"
  defines "built \<equiv> TableBuilder_Finish env opts (foldl (\<lambda>r (k, v). TableBuilder_Add env opts r k v) (TableBuilder_new opts f) kvs)"
  assumes "appends env content" "content f = []"
    and "snappy_ok (to_snappy src)" "0 < to_block_restart_interval src"
    and "to_filter_policy src = map_option NewBloomFilterPolicy bloom" "\<forall>n. bloom = Some n \<longrightarrow> length kvs \<le> (2 ^ 64 - 8) div Suc n"
    and "kvs \<noteq> []" "sorted_wrt (\<lambda>a b. InternalKey_Compare (fst a) (fst b) < 0) kvs"
    and "(\<Sum>(k, v)\<leftarrow>kvs. length k + length v + 64) < 2 ^ 31" "length (content (tb_file (fst built))) < 2 ^ 32"
  defines "contents \<equiv> content (tb_file (fst built))"
  shows "snd built \<and> (\<exists>rep ps. Table_Open opts (PosixRandomAccessFile_Read contents) (length contents) = Some (Inr rep) \<and>
    readable opts rep ps \<and> itable.parts_ok ps [] \<and> concat (map pt_kvs ps) = kvs \<and> ps \<noteq> [])"
proof -
  have o: "to_snappy opts = to_snappy src" "to_block_restart_interval opts = to_block_restart_interval src"
    "to_compare opts = InternalKey_Compare" "to_separator opts = Internal_FindShortestSeparator"
    "to_successor opts = Internal_FindShortSuccessor" by (simp_all add: opts_def SanitizeTableOptions_def)
  have int: "0 < to_block_restart_interval opts" using assms(6) o(2) by simp
  have asc: "itable.ascending kvs" using assms(10) by (simp add: itable.ascending_def ikey.less)
  obtain r ps where B: "built = (r, True)" "table_file opts (content (tb_file r)) ps" "itable.parts_ok ps []"
    "concat (map pt_kvs ps) = kvs"
    using itable.table_built [OF asc assms(3) _ _ assms(4), of opts] assms(5,6) o unfolding built_def by auto
  have c: "contents = content (tb_file r)" by (simp add: contents_def B(1))
  have reads: "reads (PosixRandomAccessFile_Read contents) contents" by (simp add: reads_def PosixRandomAccessFile_Read_def)
  have parts: "\<forall>p\<in>set ps. pt_kvs p \<noteq> [] \<and> length (pt_sep p) \<le> length (fst (last (pt_kvs p)))"
    using B(3) by (simp add: itable.parts_ok_def itable.covers_def)
  obtain rep where R: "Table_Open opts (PosixRandomAccessFile_Read contents) (length contents) = Some (Inr rep)"
    "readable opts rep ps"
    using open_ok [OF B(2) [folded c] reads _ int parts] Sanitize_law [OF assms(7,8)] assms(11,12)
    unfolding B(4) contents_def opts_def by blast
  have ne: "ps \<noteq> []" using B(4) assms(9) by auto
  show ?thesis
    using B(1,3,4) R ne by (intro conjI exI [of _ rep] exI [of _ ps]) simp_all
qed

text \<open>C38: A table file reads back. The builder, with the options of a database, succeeds on entries
  in the order of internal keys; opening the file succeeds; a lookup finds for every internal key
  the first entry at or after it, if it is one of the same user key, and nothing of that user key if
  there is none, the filter never hiding an entry; and the two-level iterator yields all entries
  from the first on and those from a key on, through all data blocks.\<close>
theorem table_reads_back:
  fixes kvs :: "(bytes \<times> bytes) list" and env :: "'f WritableFile" and src :: TableOptions and f :: 'f
  defines "opts \<equiv> SanitizeTableOptions src"
  defines "built \<equiv> TableBuilder_Finish env opts (foldl (\<lambda>r (k, v). TableBuilder_Add env opts r k v) (TableBuilder_new opts f) kvs)"
  assumes "appends env content" "content f = []"
    and "snappy_ok (to_snappy src)" "0 < to_block_restart_interval src"
    and "to_filter_policy src = map_option NewBloomFilterPolicy bloom" "\<forall>n. bloom = Some n \<longrightarrow> length kvs \<le> (2 ^ 64 - 8) div Suc n"
    and "kvs \<noteq> []" "sorted_wrt (\<lambda>a b. InternalKey_Compare (fst a) (fst b) < 0) kvs"
    and "(\<Sum>(k, v)\<leftarrow>kvs. length k + length v + 64) < 2 ^ 31" "length (content (tb_file (fst built))) < 2 ^ 32"
  defines "contents \<equiv> content (tb_file (fst built))"
  shows "snd built \<and>
    (\<exists>rep. Table_Open opts (PosixRandomAccessFile_Read contents) (length contents) = Some (Inr rep) \<and>
      (\<forall>k verify filtered. \<exists>found fl. Table_InternalGet opts rep verify k filtered = Some (found, fl, True) \<and>
         own ExtractUserKey k found = own ExtractUserKey k (first_of (dropWhile (key_before k) kvs))) \<and>
      (\<forall>verify. let bf = Table_BlockReader opts rep verify; it = Table_NewIterator rep
         in Option.bind (TwoLevel_SeekToFirst bf it) (tl_entries (length kvs) bf) = Some kvs \<and>
            (\<forall>k. Option.bind (TwoLevel_Seek bf InternalKey_Compare it k) (tl_entries (length kvs) bf) =
               Some (dropWhile (key_before k) kvs))))"
proof -
  have asc: "itable.ascending kvs" using assms(10) by (simp add: itable.ascending_def ikey.less)
  have o: "to_compare opts = InternalKey_Compare" by (simp add: opts_def SanitizeTableOptions_def)
  obtain rep ps where B: "snd built" "Table_Open opts (PosixRandomAccessFile_Read contents) (length contents) = Some (Inr rep)"
    "readable opts rep ps" "itable.parts_ok ps []" "concat (map pt_kvs ps) = kvs" "ps \<noteq> []"
    using built_table [OF assms(3-10) assms(11,12) [unfolded built_def opts_def]] unfolding built_def contents_def opts_def by blast
  note get = itable.InternalGet_ok [OF B(3,4) asc [folded B(5)] B(6) o Sanitize_user [OF _ assms(7), folded opts_def]]
    and iter = iterate_ok [OF B(3,6,4) asc [folded B(5)]]
  show ?thesis
    using B(1,2) get iter unfolding B(5) ikey.less [symmetric] Let_def by (intro conjI exI [of _ rep]) (simp_all add: ikey.less, blast)
qed

theorem table_reads_back_witness:
  fixes env :: "bytes WritableFile" and kvs :: "(bytes \<times> bytes) list"
  defines "env \<equiv> \<lparr>wf_Append = \<lambda>f d. (f @ d, True), wf_Flush = \<lambda>f. (f, True)\<rparr>"
  defines "src \<equiv> \<lparr>to_compare = Slice_compare, to_separator = FindShortestSeparator, to_successor = FindShortSuccessor,
    to_block_size = 4096, to_block_restart_interval = 16, to_compression = kNoCompression,
    to_snappy = \<lparr>sn_compress = \<lambda>raw. None, sn_uncompress = \<lambda>c. None\<rparr>, to_filter_policy = None\<rparr>"
  defines "kvs \<equiv> [(InternalKey [1] 5 kTypeValue, [7]), (InternalKey [2] 6 kTypeValue, [8, 9])]"
  defines "built \<equiv> TableBuilder_Finish env (SanitizeTableOptions src)
    (foldl (\<lambda>r (k, v). TableBuilder_Add env (SanitizeTableOptions src) r k v) (TableBuilder_new (SanitizeTableOptions src) []) kvs)"
  shows "snd built \<and> (\<exists>rep. Table_Open (SanitizeTableOptions src) (PosixRandomAccessFile_Read (tb_file (fst built)))
    (length (tb_file (fst built))) = Some (Inr rep))"
proof -
  have o: "SanitizeTableOptions src = \<lparr>to_compare = InternalKey_Compare, to_separator = Internal_FindShortestSeparator,
    to_successor = Internal_FindShortSuccessor, to_block_size = 4096, to_block_restart_interval = 16,
    to_compression = kNoCompression, to_snappy = \<lparr>sn_compress = \<lambda>raw. None, sn_uncompress = \<lambda>c. None\<rparr>, to_filter_policy = None\<rparr>"
    by (simp add: SanitizeTableOptions_def src_def ClipToRange_def)
  have "length (tb_file (fst built)) \<le> 600"
    unfolding built_def o env_def kvs_def by (rule length_small_table)
  then have "length (tb_file (fst built)) < 2 ^ 32" by simp
  moreover have "appends env (\<lambda>f. f)" by (simp add: appends_def env_def)
  moreover have "snappy_ok (to_snappy src)" "0 < to_block_restart_interval src"
    "to_filter_policy src = map_option NewBloomFilterPolicy None" by (simp_all add: snappy_ok_def src_def)
  moreover have "kvs \<noteq> []" "sorted_wrt (\<lambda>a b. InternalKey_Compare (fst a) (fst b) < 0) kvs"
    "(\<Sum>(k, v)\<leftarrow>kvs. length k + length v + 64) < 2 ^ 31"
    by (simp_all add: kvs_def InternalKey_Compare_neg InternalKey_def AppendInternalKey_def PutFixed64_def ExtractUserKey_def)
  ultimately show ?thesis
    using table_reads_back [of env "\<lambda>f. f" "[]" src None kvs] unfolding built_def by blast
qed

end
