(* ===== verification/Fs_Steps.thy ===== *)
theory Fs_Steps
  imports Fs_Mount
begin

text \<open>
  Sequences of operations of the file system, as FUSE makes them.
  \<^item> \<open>fs_op\<close> is an operation that leaves no file open; \<open>run_op\<close> runs the function of
    \<^verbatim>\<open>fs/tablefs.cpp\<close>, for \<open>OpWriteFile\<close> the functions that open, write and release. \<^verbatim>\<open>Fsync\<close> and the reading
    of directories are not among them.
  \<^item> \<open>fuse_ok fs op\<close> is what the kernel guarantees: absolute paths, a free name where an entry is
    made, an existing entry that is renamed to another one; and lengths that fit the 32 bits of the
    header. A write or a truncation is one that stays in the inode.
  \<^item> \<open>fs_steps px fs k fs'\<close>: \<open>fs'\<close> is reached by \<open>k\<close> operations.
  \<^item> \<open>sane n fs\<close> is the invariant: that of \<open>Fs_Meta\<close>, with every entry having an inode number of
    its own that was given out before.
\<close>

section \<open>Operations\<close>

datatype fs_op =
    OpMakeNode bytes u32 u64 bytes
  | OpMakeDir bytes u32 bytes
  | OpSymlink bytes bytes bytes
  | OpUnlink bytes
  | OpRemoveDir bytes
  | OpRename bytes bytes
  | OpChmod bytes u32
  | OpChown bytes u32 u32
  | OpUpdateTimens bytes u64 u64
  | OpGetAttr bytes
  | OpAccess bytes u32
  | OpReadlink bytes u64
  | OpTruncate bytes u64 int bytes u64
  | OpWriteFile bytes u64 bytes

fun run_op :: "'d posix \<Rightarrow> fs_op \<Rightarrow> 'd TableFS \<Rightarrow> ('d TableFS \<times> int) option" where
  "run_op px (OpMakeNode path mode dev mem) fs = TableFS_MakeNode px fs path mode dev mem"
| "run_op px (OpMakeDir path mode mem) fs = TableFS_MakeDir px fs path mode mem"
| "run_op px (OpSymlink target path mem) fs = TableFS_Symlink px fs target path mem"
| "run_op px (OpUnlink path) fs = TableFS_Unlink px fs path"
| "run_op px (OpRemoveDir path) fs = TableFS_RemoveDir fs path"
| "run_op px (OpRename old new) fs = TableFS_Rename fs old new"
| "run_op px (OpChmod path mode) fs = TableFS_Chmod fs path mode"
| "run_op px (OpChown path uid gid) fs = TableFS_Chown fs path uid gid"
| "run_op px (OpUpdateTimens path t0 t1) fs = TableFS_UpdateTimens fs path t0 t1"
| "run_op px (OpGetAttr path) fs = map_option (\<lambda>(fs, ret, st). (fs, ret)) (TableFS_GetAttr fs path)"
| "run_op px (OpAccess path amode) fs = Some (TableFS_Access fs path amode)"
| "run_op px (OpReadlink path sz) fs = map_option (\<lambda>(fs, ret, target). (fs, ret)) (TableFS_Readlink fs path sz)"
| "run_op px (OpTruncate path new_size fd garbage stale) fs = TableFS_Truncate px fs path new_size fd garbage stale"
| "run_op px (OpWriteFile path off buf) fs =
     Option.bind (TableFS_Open px fs path O_RDWR) (\<lambda>(fs, ret, f).
     case f of
       None \<Rightarrow> Some (fs, ret)
     | Some f \<Rightarrow> Option.bind (TableFS_Write px fs f buf off O_RDWR) (\<lambda>(fs, ret). TableFS_Release px fs f))"

text \<open>A name that can be made, with \<open>n\<close> bytes of data.\<close>

definition creatable :: "'d TableFS \<Rightarrow> bytes \<Rightarrow> bytes \<Rightarrow> nat \<Rightarrow> bool" where
  "creatable fs path mem n \<longleftrightarrow> abs_path path \<and>
     (case path_key fs path of
        Some (key, filename) \<Rightarrow> fs_view fs key = None \<and> 257 + length filename \<le> length mem \<and> 257 + length filename + n < 2 ^ 32
      | None \<Rightarrow> False)"

definition renamable :: "'d TableFS \<Rightarrow> bytes \<Rightarrow> bytes \<Rightarrow> bool" where
  "renamable fs old_path new_path \<longleftrightarrow> abs_path old_path \<and> abs_path new_path \<and>
     (case path_key fs old_path of
        None \<Rightarrow> False
      | Some (old, old_name) \<Rightarrow>
          (case path_key fs new_path of
             None \<Rightarrow> False
           | Some (new, filename) \<Rightarrow> old \<noteq> new \<and>
               (case fs_view fs old of None \<Rightarrow> False | Some v \<Rightarrow> 258 + length filename + length v < 2 ^ 32)))"

text \<open>A write that stays in the inode.\<close>

definition writable :: "'d TableFS \<Rightarrow> bytes \<Rightarrow> u64 \<Rightarrow> bytes \<Rightarrow> bool" where
  "writable fs path off buf \<longleftrightarrow> abs_path path \<and>
     (case fs_lookup fs path of
        None \<Rightarrow> False
      | Some v \<Rightarrow> has_blob (GetInodeHeader v) = 0 \<and> int (unat off + length buf) \<le> threshold (fs_state fs) \<and>
          threshold (fs_state fs) < 2 ^ 31 \<and> length v + unat off + length buf < 2 ^ 31)"

text \<open>A size that keeps the data in the inode; \<^verbatim>\<open>Truncate\<close> of a path without entry is allowed.\<close>

definition resizable :: "'d TableFS \<Rightarrow> bytes \<Rightarrow> u64 \<Rightarrow> bool" where
  "resizable fs path new_size \<longleftrightarrow> abs_path path \<and>
     (case fs_lookup fs path of
        None \<Rightarrow> True
      | Some v \<Rightarrow> has_blob (GetInodeHeader v) = 0 \<and> sint new_size \<le> threshold (fs_state fs) \<and>
          length v + unat new_size < 2 ^ 32)"

fun fuse_ok :: "'d TableFS \<Rightarrow> fs_op \<Rightarrow> bool" where
  "fuse_ok fs (OpMakeNode path mode dev mem) \<longleftrightarrow> creatable fs path mem 0"
| "fuse_ok fs (OpMakeDir path mode mem) \<longleftrightarrow> creatable fs path mem 0"
| "fuse_ok fs (OpSymlink target path mem) \<longleftrightarrow> creatable fs path mem (length target)"
| "fuse_ok fs (OpRename old new) \<longleftrightarrow> renamable fs old new"
| "fuse_ok fs (OpUnlink path) \<longleftrightarrow> abs_path path"
| "fuse_ok fs (OpRemoveDir path) \<longleftrightarrow> abs_path path"
| "fuse_ok fs (OpChmod path mode) \<longleftrightarrow> abs_path path"
| "fuse_ok fs (OpChown path uid gid) \<longleftrightarrow> abs_path path"
| "fuse_ok fs (OpUpdateTimens path t0 t1) \<longleftrightarrow> abs_path path"
| "fuse_ok fs (OpGetAttr path) \<longleftrightarrow> abs_path path"
| "fuse_ok fs (OpAccess path amode) \<longleftrightarrow> True"
| "fuse_ok fs (OpReadlink path sz) \<longleftrightarrow> abs_path path \<and> 0 < unat sz \<and> unat sz < 2 ^ 62"
| "fuse_ok fs (OpTruncate path new_size fd garbage stale) \<longleftrightarrow> resizable fs path new_size"
| "fuse_ok fs (OpWriteFile path off buf) \<longleftrightarrow> writable fs path off buf"

inductive fs_steps :: "'d posix \<Rightarrow> 'd TableFS \<Rightarrow> nat \<Rightarrow> 'd TableFS \<Rightarrow> bool" for px fs0 where
  start: "fs_steps px fs0 0 fs0"
| step: "\<lbrakk>fs_steps px fs0 k fs; fuse_ok fs op; run_op px op fs = Some (fs', ret)\<rbrakk> \<Longrightarrow> fs_steps px fs0 (Suc k) fs'"

section \<open>Inode numbers\<close>

definition numbered :: "(tfs_meta_key_t \<rightharpoonup> u64) \<Rightarrow> nat \<Rightarrow> bool" where
  "numbered m c \<longleftrightarrow> (\<forall>a b i. m a = Some i \<longrightarrow> m b = Some i \<longrightarrow> a = b) \<and> (\<forall>a i. m a = Some i \<longrightarrow> unat i \<le> c)"

lemma numbered_new:
  assumes "numbered m c" "unat i = Suc c"
  shows "numbered (m(key \<mapsto> i)) (Suc c)"
  using assms by (fastforce simp: numbered_def split: if_splits)

lemma numbered_delete: "numbered m c \<Longrightarrow> numbered (m(key := None)) c"
  by (auto simp: numbered_def)

lemma numbered_move: "numbered m c \<Longrightarrow> m old = Some i \<Longrightarrow> numbered (m(old := None, new \<mapsto> i)) c"
  by (fastforce simp: numbered_def split: if_splits)

section \<open>Paths on disk\<close>

lemma length_print_nat: "n < 10 ^ Suc k \<Longrightarrow> length (print_nat n) \<le> Suc k"
proof (induction k arbitrary: n)
  case 0
  then show ?case by (simp add: print_nat.simps)
next
  case (Suc k)
  have "n div 10 < 10 ^ Suc k" using Suc.prems by (simp add: less_mult_imp_div_less)
  from Suc.IH [OF this] show ?case by (subst print_nat.simps) simp
qed

lemma length_print_int: "\<bar>i\<bar> \<le> 2 ^ 31 \<Longrightarrow> length (print_int i) \<le> 11"
  using length_print_nat [of "nat \<bar>i\<bar>" 9] by (auto simp: print_int_def nat_less_iff)

lemma int_of_inode_bound: "\<bar>int_of_inode i\<bar> \<le> 2 ^ 31"
  using sint_ge [of "ucast i :: u32"] sint_lt [of "ucast i :: u32"] by (simp add: int_of_inode_def)

lemma disk_path_total:
  assumes "length (datadir st) \<le> 60"
  shows "GetDiskFilePath st i \<noteq> None" "State_NewInode px st d \<noteq> None"
proof -
  let ?p = "\<lambda>j. drop_bit NUM_FILES_IN_DATADIR_BITS (int_of_inode j)"
  have "\<bar>?p j\<bar> \<le> 2 ^ 31" for j
    using int_of_inode_bound [of j] by (simp add: drop_bit_eq_div NUM_FILES_IN_DATADIR_BITS_def)
  then have p: "length (print_int (?p j)) \<le> 11" for j by (rule length_print_int)
  have "\<bar>int_of_inode i smod int NUM_FILES_IN_DATADIR\<bar> \<le> 2 ^ 31"
    using int_of_inode_bound [of i] by (auto simp: smod_int_alt_def NUM_FILES_IN_DATADIR_def abs_mult)
  then have "length (print_int (int_of_inode i smod int NUM_FILES_IN_DATADIR)) \<le> 11"
    by (intro length_print_int)
  then show "GetDiskFilePath st i \<noteq> None" using p [of i] assms by (simp add: GetDiskFilePath_def Let_def)
  show "State_NewInode px st d \<noteq> None" using p [of "max_inode_num st + 1"] assms by (simp add: State_NewInode_def Let_def)
qed

section \<open>The invariant\<close>

definition inodes :: "'d TableFS \<Rightarrow> tfs_meta_key_t \<rightharpoonup> u64" where
  "inodes fs key = map_option (\<lambda>v. st_ino (GetAttribute v)) (fs_view fs key)"

definition sane :: "nat \<Rightarrow> 'd TableFS \<Rightarrow> bool" where
  "sane n fs \<longleftrightarrow> fs_ok n fs (\<lambda>_. 0) \<and> numbered (inodes fs) (unat (max_inode_num (fs_state fs))) \<and>
     unat (max_inode_num (fs_state fs)) + n < 2 ^ 31 \<and> length (datadir (fs_state fs)) \<le> 60"

lemma sane_less: "sane m fs \<Longrightarrow> n \<le> m \<Longrightarrow> sane n fs"
  by (auto simp: sane_def intro: fs_ok_less)

lemma sane_ok: "sane m fs \<Longrightarrow> n \<le> m \<Longrightarrow> fs_ok n fs (\<lambda>_. 0)"
  by (auto simp: sane_def intro: fs_ok_less)

lemma inodes_update: "fs_view fs' = (fs_view fs)(key \<mapsto> v) \<Longrightarrow> inodes fs' = (inodes fs)(key \<mapsto> st_ino (GetAttribute v))"
  by (auto simp: inodes_def)

lemma inodes_without:
  assumes "fs_view fs' = without (fs_view fs) r"
  shows "inodes fs' = (case r of None \<Rightarrow> inodes fs | Some (key, name) \<Rightarrow> (inodes fs)(key := None))"
  using assms by (auto simp: inodes_def without_def fun_eq_iff split: option.split)

text \<open>An operation that keeps the state keeps the invariant if it keeps the numbers.\<close>

lemma sane_same:
  assumes "sane m fs" "fs_ok k fs' (\<lambda>_. 0)" "n \<le> m" "n \<le> k" "fs_state fs' = fs_state fs"
    and "numbered (inodes fs') (unat (max_inode_num (fs_state fs)))"
  shows "sane n fs'"
  using assms fs_ok_less by (auto simp: sane_def)

section \<open>Operations keep the state\<close>

lemma GetAttr_state:
  assumes "fs_ok n fs pin" "abs_path path" "TableFS_GetAttr fs path = Some (fs', r)"
  shows "fs_state fs' = fs_state fs"
proof -
  obtain dc e where "PathLookup fs path = Some (fs\<lparr>fs_dcache := dc, fs_errno := e\<rparr>, map_option fst (path_key fs path))"
    by (rule PathLookup_ok [OF assms(1,2)]) (rule that)
  then show ?thesis
    using assms(3) by (auto simp: TableFS_GetAttr_def Let_def bind_eq_Some_conv split: option.splits)
qed

lemma update_state:
  assumes "fs_ok n fs pin" "abs_path path" "update_attribute fs path f = Some (fs', r)"
  shows "fs_state fs' = fs_state fs"
proof -
  obtain dc e where "PathLookup fs path = Some (fs\<lparr>fs_dcache := dc, fs_errno := e\<rparr>, map_option fst (path_key fs path))"
    by (rule PathLookup_ok [OF assms(1,2)]) (rule that)
  then show ?thesis
    using assms(3) by (auto simp: update_attribute_def Let_def bind_eq_Some_conv split: option.splits)
qed

lemma RemoveDir_state:
  assumes "fs_ok n fs pin" "abs_path path" "TableFS_RemoveDir fs path = Some (fs', r)"
  shows "fs_state fs' = fs_state fs"
proof -
  obtain dc e where "PathLookup fs path = Some (fs\<lparr>fs_dcache := dc, fs_errno := e\<rparr>, map_option fst (path_key fs path))"
    by (rule PathLookup_ok [OF assms(1,2)]) (rule that)
  then show ?thesis
    using assms(3) by (auto simp: TableFS_RemoveDir_def dcache_Evict_def Let_def bind_eq_Some_conv split: option.splits)
qed

lemma Unlink_state:
  assumes "fs_ok n fs pin" "abs_path path" "TableFS_Unlink px fs path = Some (fs', r)"
  shows "fs_state fs' = fs_state fs"
proof -
  obtain dc e where "PathLookup fs path = Some (fs\<lparr>fs_dcache := dc, fs_errno := e\<rparr>, map_option fst (path_key fs path))"
    by (rule PathLookup_ok [OF assms(1,2)]) (rule that)
  then show ?thesis
    using assms(3) by (auto simp: TableFS_Unlink_def dcache_Evict_def Let_def bind_eq_Some_conv split: option.splits if_splits)
qed

section \<open>Every operation returns and keeps the invariant\<close>

lemma create_sane:
  assumes "sane (n + 4) fs" "creatable fs path mem k"
    and run: "\<And>key filename st inum d. free_name fs (\<lambda>_. 0) path key filename \<Longrightarrow>
      State_NewInode px (fs_state fs) (fs_disk fs) = Some ((st, inum), d) \<Longrightarrow>
      257 + length filename \<le> length mem \<Longrightarrow> 257 + length filename + k < 2 ^ 32 \<Longrightarrow>
      \<exists>fs'. r = Some (fs', 0) \<and> fs_ok n fs' (\<lambda>_. 0) \<and> fs_state fs' = st \<and>
        (\<exists>v. fs_view fs' = (fs_view fs)(key \<mapsto> v) \<and> st_ino (GetAttribute v) = inum)"
  shows "\<exists>fs'. r = Some (fs', 0) \<and> sane n fs'"
proof -
  obtain key filename where p: "path_key fs path = Some (key, filename)" "fs_view fs key = None" "abs_path path"
    "257 + length filename \<le> length mem" "257 + length filename + k < 2 ^ 32"
    using assms(2) by (auto simp: creatable_def split: option.splits)
  have "length (datadir (fs_state fs)) \<le> 60" using assms(1) by (simp add: sane_def)
  then obtain st inum d where N: "State_NewInode px (fs_state fs) (fs_disk fs) = Some ((st, inum), d)"
    using disk_path_total(2) by fast
  have "free_name fs (\<lambda>_. 0) path key filename"
    using p quiet_path_unpinned by (simp add: free_name_def)
  from run [OF this N p(4,5)] obtain fs' v where R: "r = Some (fs', 0)" "fs_ok n fs' (\<lambda>_. 0)" "fs_state fs' = st"
    "fs_view fs' = (fs_view fs)(key \<mapsto> v)" "st_ino (GetAttribute v) = inum" by blast
  let ?m = "max_inode_num (fs_state fs)"
  have st: "max_inode_num st = ?m + 1" "inum = ?m + 1" "datadir st = datadir (fs_state fs)"
    using N by (auto simp: State_NewInode_def Let_def split: if_splits)
  have "unat ?m + 1 < 2 ^ 64" using assms(1) by (simp add: sane_def)
  then have "unat (?m + 1) = Suc (unat ?m)" by (simp add: unat_word_ariths)
  then have "sane n fs'"
    using assms(1) R numbered_new [of "inodes fs" "unat ?m" inum key] inodes_update [OF R(4)] st by (simp add: sane_def)
  then show ?thesis using R(1) by blast
qed

lemma remove_sane:
  assumes "sane (n + 4) fs" "fs_ok n fs' (\<lambda>_. 0)" "fs_state fs' = fs_state fs" "fs_view fs' = without (fs_view fs) r"
  shows "sane n fs'"
  by (rule sane_same [OF assms(1,2) _ _ assms(3)])
    (use assms(1) inodes_without [OF assms(4)] numbered_delete in \<open>auto simp: sane_def split: option.split\<close>)

lemma update_sane:
  assumes "sane (n + 4) fs" "abs_path path" "\<And>s. stat_ok s \<Longrightarrow> stat_ok (g s) \<and> st_ino (g s) = st_ino s"
  shows "\<exists>fs' r. update_attribute fs path g = Some (fs', r) \<and> sane n fs' \<and> (r = 0 \<or> r = - ENOENT)"
proof -
  have ok: "fs_ok (Suc (Suc (n + 2))) fs (\<lambda>_. 0)" by (rule sane_ok [OF assms(1)]) simp
  obtain fs' where U: "update_attribute fs path g = Some (fs', if fs_lookup fs path = None then - ENOENT else 0)"
    "fs_ok (Suc (n + 2)) fs' (\<lambda>_. 0)"
    "fs_view fs' = (case path_key fs path of
        None \<Rightarrow> fs_view fs
      | Some (key, _) \<Rightarrow> (fs_view fs)(key := map_option (\<lambda>v. UpdateAttribute v (g (GetAttribute v))) (fs_view fs key)))"
    using update_attribute_ok [OF ok quiet_path_unpinned [OF assms(2)] assms(3)] by blast
  have ino: "st_ino (GetAttribute (UpdateAttribute v (g (GetAttribute v)))) = st_ino (GetAttribute v)"
    if v: "fs_view fs key = Some v" for key v
  proof -
    obtain h name data where v: "value_ok h name" "v = mk_value h name data" using fs_value(2) [OF ok v] by blast
    then have s: "stat_ok (fstat h)" by (simp add: value_ok_def header_ok_def)
    have "value_ok (h\<lparr>fstat := g (fstat h)\<rparr>) name" using v(1) assms(3) [OF s] by (simp add: value_ok_def header_ok_def)
    then show ?thesis using v assms(3) [OF s] by (simp add: UpdateAttribute_mk)
  qed
  have "inodes fs' = inodes fs"
  proof (rule ext)
    show "inodes fs' key = inodes fs key" for key
      using ino [of key] U(3) by (cases "fs_view fs key") (auto simp: inodes_def split: option.splits)
  qed
  then have "sane n fs'"
    using sane_same [OF assms(1) U(2) _ _ update_state [OF ok assms(2) U(1)], of n] assms(1) by (simp add: sane_def)
  then show ?thesis using U(1) by auto
qed

lemma rename_sane:
  assumes "sane (n + 4) fs" "renamable fs old_path new_path"
  shows "\<exists>fs'. TableFS_Rename fs old_path new_path = Some (fs', 0) \<and> sane n fs'"
proof -
  have a: "abs_path old_path" "abs_path new_path" using assms(2) by (simp_all add: renamable_def)
  obtain old old_name new filename where k: "path_key fs old_path = Some (old, old_name)"
    "path_key fs new_path = Some (new, filename)"
    using assms(2) unfolding renamable_def by (auto split: option.splits)
  obtain v where p: "fs_view fs old = Some v" "old \<noteq> new" "258 + length filename + length v < 2 ^ 32"
    using assms(2) k by (auto simp: renamable_def split: option.splits)
  have ok: "fs_ok (n + 4) fs (\<lambda>_. 0)" using assms(1) by (simp add: sane_def)
  obtain h name data where v: "value_ok h name" "v = mk_value h name data" using fs_value(2) [OF ok p(1)] by blast
  have len: "258 + length filename + length data < 2 ^ 32" "length name < 2 ^ 32 - 1"
    using p(3) length_mk_value [OF v(1), of data] v(2) by simp_all
  obtain fs' where R: "TableFS_Rename fs old_path new_path = Some (fs', 0)" "fs_ok n fs' (\<lambda>_. 0)" "fs_state fs' = fs_state fs"
    "fs_view fs' = (fs_view fs)(old := None, new \<mapsto> mk_value (h\<lparr>namelen := of_nat (length filename)\<rparr>) filename data)"
    using Rename_ok [OF ok a [THEN quiet_path_unpinned] k(1) p(1) [unfolded v(2)] k(2) p(2) v(1) len] by blast
  have f: "length filename < 2 ^ 32" using len(1) by simp
  have "value_ok (h\<lparr>namelen := of_nat (length filename)\<rparr>) filename"
    using InitInodeValue_rename_mk(2) [OF v(1) len(2) f] .
  then have "inodes fs' = (inodes fs)(old := None, new \<mapsto> st_ino (fstat h))"
    by (auto simp: inodes_def R(4) fun_eq_iff)
  moreover have "inodes fs old = Some (st_ino (fstat h))" using p(1) v by (simp add: inodes_def)
  ultimately have "numbered (inodes fs') (unat (max_inode_num (fs_state fs)))"
    using assms(1) numbered_move by (simp add: sane_def)
  then show ?thesis using sane_same [OF assms(1) R(2) _ _ R(3)] R(1) by auto
qed

lemma make_sane:
  assumes "sane (n + 4) fs" "creatable fs path mem 0"
  shows "\<exists>fs'. make_inode px fs path mode dev mem = Some (fs', 0) \<and> sane n fs'"
proof (rule create_sane [OF assms])
  have ok: "fs_ok (Suc n) fs (\<lambda>_. 0)" by (rule sane_ok [OF assms(1)]) simp
  fix key filename st inum d
  let ?v = "mk_value (init_header mem inum mode dev filename (fs_owner fs) (time_now fs)) filename []"
  assume a: "free_name fs (\<lambda>_. 0) path key filename" "State_NewInode px (fs_state fs) (fs_disk fs) = Some ((st, inum), d)"
    "257 + length filename \<le> length mem" "257 + length filename + 0 < 2 ^ 32"
  then have "length filename < 2 ^ 32" "257 + length filename < 2 ^ 32" by simp_all
  moreover from this obtain fs' where "make_inode px fs path mode dev mem = Some (fs', 0)" "fs_ok n fs' (\<lambda>_. 0)" "fs_state fs' = st"
    "fs_view fs' = (fs_view fs)(key \<mapsto> ?v)" using make_inode_ok [OF ok a(1-3), of mode dev] by blast
  ultimately show "\<exists>fs'. make_inode px fs path mode dev mem = Some (fs', 0) \<and> fs_ok n fs' (\<lambda>_. 0) \<and> fs_state fs' = st \<and>
      (\<exists>v. fs_view fs' = (fs_view fs)(key \<mapsto> v) \<and> st_ino (GetAttribute v) = inum)"
    using a(3) by (intro exI [of _ fs'] exI [of _ ?v] conjI) (simp_all add: GetAttribute_init InitStat_def Let_def)
qed

lemma symlink_sane:
  assumes "sane (n + 4) fs" "creatable fs path mem (length target)"
  shows "\<exists>fs'. TableFS_Symlink px fs target path mem = Some (fs', 0) \<and> sane n fs'"
proof (rule create_sane [OF assms])
  have ok: "fs_ok (Suc n) fs (\<lambda>_. 0)" by (rule sane_ok [OF assms(1)]) simp
  fix key filename st inum d
  let ?v = "mk_value (init_header mem inum S_IFLNK 0 filename (fs_owner fs) (time_now fs)) filename target"
  assume a: "free_name fs (\<lambda>_. 0) path key filename" "State_NewInode px (fs_state fs) (fs_disk fs) = Some ((st, inum), d)"
    "257 + length filename \<le> length mem" "257 + length filename + length target < 2 ^ 32"
  then have "length filename < 2 ^ 32" by simp
  moreover obtain fs' where "TableFS_Symlink px fs target path mem = Some (fs', 0)" "fs_ok n fs' (\<lambda>_. 0)" "fs_state fs' = st"
    "fs_view fs' = (fs_view fs)(key \<mapsto> ?v)" using Symlink_ok [OF ok a] by blast
  ultimately show "\<exists>fs'. TableFS_Symlink px fs target path mem = Some (fs', 0) \<and> fs_ok n fs' (\<lambda>_. 0) \<and> fs_state fs' = st \<and>
      (\<exists>v. fs_view fs' = (fs_view fs)(key \<mapsto> v) \<and> st_ino (GetAttribute v) = inum)"
    using a(3) by (intro exI [of _ fs'] exI [of _ ?v] conjI) (simp_all add: GetAttribute_init InitStat_def Let_def)
qed

lemma unlink_sane:
  assumes "sane (n + 4) fs" "abs_path path"
  shows "\<exists>fs' r. TableFS_Unlink px fs path = Some (fs', r) \<and> sane n fs' \<and> (r = 0 \<or> r = - ENOENT)"
proof -
  have ok: "fs_ok (Suc (Suc n)) fs (\<lambda>_. 0)" by (rule sane_ok [OF assms(1)]) simp
  have "disk_file fs v \<noteq> Some None" for v
    using disk_path_total(1) assms(1) by (auto simp: disk_file_def Let_def sane_def)
  then obtain fs' where U: "TableFS_Unlink px fs path = Some (fs', if fs_lookup fs path = None then - ENOENT else 0)"
    "fs_ok n fs' (\<lambda>_. 0)" "fs_view fs' = without (fs_view fs) (path_key fs path)"
    using Unlink_ok [OF ok quiet_path_unpinned [OF assms(2)]] by blast
  then show ?thesis using remove_sane [OF assms(1) U(2) Unlink_state [OF ok assms(2) U(1)] U(3)] by auto
qed

lemma rmdir_sane:
  assumes "sane (n + 4) fs" "abs_path path"
  shows "\<exists>fs' r. TableFS_RemoveDir fs path = Some (fs', r) \<and> sane n fs' \<and> (r = 0 \<or> r = - ENOENT)"
proof -
  have ok: "fs_ok (Suc (Suc n)) fs (\<lambda>_. 0)" by (rule sane_ok [OF assms(1)]) simp
  obtain fs' where U: "TableFS_RemoveDir fs path = Some (fs', if fs_lookup fs path = None then - ENOENT else 0)"
    "fs_ok n fs' (\<lambda>_. 0)" "fs_view fs' = without (fs_view fs) (path_key fs path)"
    using RemoveDir_ok [OF ok quiet_path_unpinned [OF assms(2)]] by blast
  then show ?thesis using remove_sane [OF assms(1) U(2) RemoveDir_state [OF ok assms(2) U(1)] U(3)] by auto
qed

lemma getattr_sane:
  assumes "sane (n + 4) fs" "abs_path path"
  shows "\<exists>fs' r st. TableFS_GetAttr fs path = Some (fs', r, st) \<and> sane n fs' \<and> (r = 0 \<or> r = - ENOENT)"
proof -
  have ok: "fs_ok (Suc n) fs (\<lambda>_. 0)" by (rule sane_ok [OF assms(1)]) simp
  obtain fs' where G: "TableFS_GetAttr fs path =
      Some (fs', case fs_lookup fs path of None \<Rightarrow> (- ENOENT, None) | Some v \<Rightarrow> (0, Some (GetAttribute v)))"
    "fs_ok (Suc n) fs' (\<lambda>_. 0)" "fs_view fs' = fs_view fs" using GetAttr_ok [OF ok quiet_path_unpinned [OF assms(2)]] by blast
  have "inodes fs' = inodes fs" using G(3) by (simp add: inodes_def fun_eq_iff)
  then have "sane n fs'"
    using sane_same [OF assms(1) G(2) _ _ GetAttr_state [OF ok assms(2) G(1)], of n] assms(1) by (simp add: sane_def)
  then show ?thesis using G(1) by (auto split: option.split)
qed

lemma readlink_sane:
  assumes "sane (n + 4) fs" "abs_path path" "0 < unat sz" "unat sz < 2 ^ 62"
  shows "\<exists>fs' r t. TableFS_Readlink fs path sz = Some (fs', r, t) \<and> sane n fs' \<and> (r = 0 \<or> r = - ENOENT)"
proof -
  have ok: "fs_ok n fs (\<lambda>_. 0)" by (rule sane_ok [OF assms(1)]) simp
  have same: "sane n fs'" if "fs_ok n fs' (\<lambda>_. 0)" "fs_view fs' = fs_view fs" "fs_state fs' = fs_state fs" for fs'
  proof -
    have "inodes fs' = inodes fs" using that(2) by (simp add: inodes_def fun_eq_iff)
    then show ?thesis using sane_same [OF assms(1) that(1) _ _ that(3), of n] assms(1) by (simp add: sane_def)
  qed
  obtain dc e where P:
    "PathLookup fs path = Some (fs\<lparr>fs_dcache := dc, fs_errno := e\<rparr>, map_option fst (path_key fs path))"
    "fs_ok n (fs\<lparr>fs_dcache := dc\<rparr>) (\<lambda>_. 0)" "path_key fs path = None \<Longrightarrow> e = ENOENT"
    by (rule PathLookup_ok [OF ok assms(2)]) (rule that)
  have kept: "sane n (fs\<lparr>fs_dcache := dc, fs_errno := e'\<rparr>)" for e'
    by (rule same) (use P(2) in simp_all)
  show ?thesis
  proof (cases "path_key fs path")
    case None
    then show ?thesis using P(1,3) kept by (simp add: TableFS_Readlink_def FSError_def)
  next
    case (Some kn)
    obtain key filename where k: "kn = (key, filename)" by (cases kn)
    have "Adaptor_Get (metadb fs) (ToSlice key) =
        (case fs_view fs key of None \<Rightarrow> (-1, NotFound_string) | Some v \<Rightarrow> (1, v))"
      using Adaptor_Get_eq [OF fs_okD(4) [OF ok], of "ToSlice key"] by (simp add: fs_view_def)
    then show ?thesis
      using P(1) kept Some k by (cases "fs_view fs key") (simp_all add: TableFS_Readlink_def FSError_def)
  qed
qed

text \<open>The header after a truncation that stays in the inode. The size is compared with what the old header holds
  after the value was resized, so it may be left as it was.\<close>

lemma truncate_sane:
  assumes "sane (n + 4) fs" "resizable fs path new_size"
  shows "\<exists>fs' r. TableFS_Truncate px fs path new_size fd garbage stale = Some (fs', r) \<and> sane n fs' \<and> (r = 0 \<or> r = - ENOENT)"
proof -
  have ok: "fs_ok (Suc (Suc n)) fs (\<lambda>_. 0)" by (rule sane_ok [OF assms(1)]) simp
  have same: "sane n fs'" if "fs_ok m fs' (\<lambda>_. 0)" "n \<le> m" "inodes fs' = inodes fs" "fs_state fs' = fs_state fs" for fs' m
    using sane_same [OF assms(1) that(1) _ that(2,4)] that(3) assms(1) by (simp add: sane_def)
  have q: "quiet_path fs (\<lambda>_. 0) path" using assms(2) by (intro quiet_path_unpinned) (simp add: resizable_def)
  show ?thesis using ok q
  proof (cases rule: lookup_path)
    case (unresolved dc)
    have "sane n (fs\<lparr>fs_dcache := dc, fs_errno := ENOENT\<rparr>)"
      by (rule same [of "Suc (Suc n)"]) (use unresolved(3) in \<open>simp_all add: inodes_def fs_view_def metadb_def fun_eq_iff\<close>)
    then show ?thesis using unresolved(1) by (simp add: TableFS_Truncate_def FSError_def)
  next
    case (missing dc e key name)
    let ?fs = "fs\<lparr>fs_dcache := dc, fs_errno := e\<rparr>"
    have ok1: "fs_ok (Suc (Suc n)) ?fs (\<lambda>_. 0)" using missing(3) by simp
    obtain ic' where M: "InodeCache_Get (fs_ic fs) key INODE_WRITE = Some (ic', None)" "ic_ok (Suc (Suc n)) ic' (\<lambda>_. 0) {}"
      "ic_metadb ic' = ic_metadb (fs_ic fs)"
      by (rule missing_quiet [OF fs_okD(1) [OF ok] missing(5,7)]) (rule that)
    have "fs_ok (Suc (Suc n)) (set_ic ?fs ic') (\<lambda>_. 0)" "fs_view (set_ic ?fs ic') = fs_view fs"
      using fs_ok_ic_same [OF ok1 M(2)] M(3) by simp_all
    then have "sane n (set_ic ?fs ic')"
      by (intro same [of "Suc (Suc n)"]) (simp_all add: inodes_def fun_eq_iff)
    then show ?thesis using missing(1) M(1) by (simp add: TableFS_Truncate_def)
  next
    case (found dc e key name v)
    let ?fs = "fs\<lparr>fs_dcache := dc, fs_errno := e\<rparr>"
    have ok1: "fs_ok (Suc (Suc n)) ?fs (\<lambda>_. 0)" using found(3) by simp
    obtain h name' data where v: "value_ok h name'" "v = mk_value h name' data"
      using fs_value(2) [OF ok found(6)] by blast
    have "fs_lookup fs path = Some v" using found by (simp add: fs_lookup_def)
    then have r: "has_blob h = 0" "sint new_size \<le> threshold (fs_state fs)" "length v + unat new_size < 2 ^ 32"
      using assms(2) v by (simp_all add: resizable_def)
    let ?data = "str_resize data (unat new_size)"
    let ?t = "mk_value h name' ?data"
    have t: "TruncateInlineData v new_size = ?t" using TruncateInlineData_mk [OF v(1), of new_size data] r(3) v(2) by simp
    let ?seen = "if length ?t \<le> length v then st_size (fstat h) else stale"
    let ?h = "if new_size \<noteq> ?seen then h\<lparr>fstat := (fstat h)\<lparr>st_size := new_size\<rparr>, has_blob := 0\<rparr> else h"
    let ?v = "mk_value ?h name' ?data"
    have h': "value_ok ?h name'" using v(1) by (simp add: value_ok_def header_ok_def stat_ok_def)
    have len: "length ?v < 2 ^ 32" using r(3) unfolding length_mk_value [OF h'] unfolding v(2) length_mk_value [OF v(1)] by simp
    obtain ic1 a p ic2 ic3 where U: "InodeCache_Get (fs_ic fs) key INODE_WRITE = Some (ic1, Some a)"
      "ic_handles ic1 a = Some \<lparr>ih_key = key, ih_value = v, ih_mode = INODE_WRITE, ih_pointer = Some p\<rparr>"
      "InodeCache_WriteBack (set_value ic1 a ?v) a = Some ic2" "InodeCache_Release ic2 a = Some ic3"
      "ic_ok (Suc n) ic3 (\<lambda>_. 0) {}" "ad_lookup (ic_metadb ic3) = (ad_lookup (ic_metadb (fs_ic fs)))(ToSlice key \<mapsto> ?v)"
      by (rule update_quiet [OF fs_okD(1) [OF ok] found(5,7) len]) (rule that)
    have view: "ad_lookup (ic_metadb ic3) (ToSlice k) = ((fs_view fs)(key \<mapsto> ?v)) k" for k
      by (simp add: U(6) fs_view_def metadb_def)
    have wf: "well_formed ((fs_view fs)(key \<mapsto> ?v))" by (rule well_formed_update [OF fs_ok_wf [OF ok] h' refl])
    have ga: "st_ino (GetAttribute ?v) = st_ino (GetAttribute v)"
      unfolding GetAttribute_mk [OF h'] unfolding v(2) GetAttribute_mk [OF v(1)] by simp
    then have ino: "map_option (\<lambda>v. st_ino (GetAttribute v)) (((fs_view fs)(key \<mapsto> ?v)) k) =
        map_option (\<lambda>v. st_ino (GetAttribute v)) (fs_view ?fs k)" for k using found(6) by simp
    have F: "fs_ok (Suc n) (set_ic ?fs ic3) (\<lambda>_. 0)" "fs_view (set_ic ?fs ic3) = (fs_view fs)(key \<mapsto> ?v)"
      by (rule fs_ok_ic [OF ok1 U(5), where view = "(fs_view fs)(key \<mapsto> ?v)"]; (rule view wf ino))+
    have "sane n (set_ic ?fs ic3)"
      by (rule same [OF F(1)]) (use ga found(6) in \<open>auto simp: inodes_def F(2) fun_eq_iff\<close>)
    moreover have "TableFS_Truncate px fs path new_size fd garbage stale = Some (set_ic ?fs ic3, 0)"
    proof -
      let ?g = "h\<lparr>fstat := (fstat h)\<lparr>st_size := new_size\<rparr>, has_blob := 0\<rparr>"
      have tt: "set_value (set_value ic1 a ?t) a w = set_value ic1 a w" for w
        using U(2) by (simp add: set_value_def)
      have "header_ok ?g" using v(1) by (simp add: value_ok_def header_ok_def stat_ok_def)
      then have hd: "UpdateInodeHeader ?t ?g = mk_value ?g name' ?data" by (rule UpdateInodeHeader_mk [OF v(1)])
      have gh: "GetInodeHeader v = h" "GetInodeHeader ?t = h" using v by simp_all
      have w: "InodeCache_WriteBack (if new_size \<noteq> ?seen then set_value (set_value ic1 a ?t) a (UpdateInodeHeader ?t ?g)
          else set_value ic1 a ?t) a = Some ic2"
        using U(3) unfolding tt hd by (cases "new_size \<noteq> ?seen") simp_all
      show ?thesis
        using found(1) U(1,2,4) r(1,2) w
        by (cases "new_size \<noteq> ?seen")
          (simp_all add: TableFS_Truncate_def Let_def handle_at_def gh t cong: if_cong split del: if_split)
    qed
    ultimately show ?thesis by blast
  qed
qed

lemma write_sane:
  assumes "sane (n + 4) fs" "writable fs path off buf"
  shows "\<exists>fs'. run_op px (OpWriteFile path off buf) fs = Some (fs', 0) \<and> sane n fs'"
proof -
  have ok: "fs_ok (Suc (Suc n)) fs (\<lambda>_. 0)" by (rule sane_ok [OF assms(1)]) simp
  have a: "abs_path path" using assms(2) by (simp add: writable_def)
  obtain key filename v where k: "path_key fs path = Some (key, filename)" "fs_view fs key = Some v" "has_blob (GetInodeHeader v) = 0"
    and th: "int (unat off + length buf) \<le> threshold (fs_state fs)" "threshold (fs_state fs) < 2 ^ 31"
    and len: "length v + unat off + length buf < 2 ^ 31"
    using assms(2) by (auto simp: writable_def fs_lookup_def bind_eq_Some_conv split: option.splits)
  obtain hh name data where v: "value_ok hh name" "v = mk_value hh name data" using fs_value(2) [OF ok k(2)] by blast
  have b: "has_blob hh = 0" using k(3) v by simp
  obtain fs1 f fh p where O: "TableFS_Open px fs path O_RDWR = Some (fs1, 0, Some f)"
    "fs_ok (Suc (Suc n)) fs1 ((\<lambda>_. 0)(fh_handle fh := 1))" "fs_view fs1 = fs_view fs"
    "open_file fs1 ((\<lambda>_. 0)(fh_handle fh := 1)) f fh
       \<lparr>ih_key = key, ih_value = mk_value hh name data, ih_mode = open_mode O_RDWR, ih_pointer = Some p\<rparr>"
    "fs_state fs1 = fs_state fs"
    by (rule Open_inline [OF ok quiet_path_unpinned [OF a] k(1) k(2) [unfolded v(2)] v(1) b]) (rule that)
  let ?handle = "\<lparr>ih_key = key, ih_value = mk_value hh name data, ih_mode = open_mode O_RDWR, ih_pointer = Some p\<rparr>"
  let ?hh = "grown hh (off + of_nat (length buf))" and ?data = "write_at data (unat off) buf"
  let ?handle2 = "?handle\<lparr>ih_mode := INODE_WRITE, ih_value := mk_value ?hh name ?data\<rparr>"
  have w: "ih_value ?handle = mk_value hh name data" by simp
  have l: "257 + length name + max (length data) (unat off + length buf) < 2 ^ 32"
    using len length_mk_value [OF v(1), of data] v(2) by simp
  obtain fs2 where W: "TableFS_Write px fs1 f buf off O_RDWR = Some (fs2, int (length buf))"
    "fs_ok (Suc (Suc n)) fs2 ((\<lambda>_. 0)(fh_handle fh := 1))" "fs_view fs2 = fs_view fs1" "fs_state fs2 = fs_state fs1"
    "open_file fs2 ((\<lambda>_. 0)(fh_handle fh := 1)) f fh ?handle2"
    by (rule Write_inline [OF O(2,4) w v(1) b th [folded O(5)] l]) (rule that)
  have v2: "ih_value ?handle2 = mk_value ?hh name ?data" "ih_mode ?handle2 = INODE_WRITE" by simp_all
  have hh: "value_ok ?hh name" "st_ino (fstat ?hh) = st_ino (fstat hh)" using v(1) by (simp add: value_ok_grown) (simp add: grown_def)
  have old: "fs_view fs2 (ih_key ?handle2) = Some (mk_value hh name data)"
    "st_ino (GetAttribute (mk_value hh name data)) = st_ino (fstat ?hh)"
    using W(3) O(3) k(2) v hh(2) by simp_all
  obtain fs3 where C: "TableFS_Release px fs2 f = Some (fs3, 0)" "fs_ok n fs3 (\<lambda>_. 0)"
    "fs_view fs3 = (fs_view fs2)(ih_key ?handle2 \<mapsto> mk_value (touched ?hh (time_now fs2)) name ?data)"
    "fs_state fs3 = fs_state fs2"
    by (rule Release_inline [OF W(2) refl W(5) v2(1) hh(1) v2(2) old]) (rule that)
  have "st_ino (GetAttribute (mk_value (touched ?hh (time_now fs2)) name ?data)) = st_ino (fstat hh)"
    using value_ok_touched [OF hh(1)] hh(2) by (simp add: touched_def)
  then have "inodes fs3 = inodes fs"
    using k(2) v by (auto simp: fun_eq_iff inodes_def C(3) W(3) O(3))
  then have "sane n fs3"
    using sane_same [OF assms(1) C(2), of n] C(4) W(4) O(5) assms(1) by (simp add: sane_def)
  then show ?thesis using O(1) W(1) C(1) by simp
qed

lemma op_sane:
  assumes "sane (n + 4) fs" "fuse_ok fs op"
  shows "\<exists>fs' r. run_op px op fs = Some (fs', r) \<and> sane n fs' \<and> (r = 0 \<or> r = - ENOENT)"
proof (cases op)
  case (OpMakeNode path mode dev mem)
  then show ?thesis using make_sane [OF assms(1), of path mem px] assms(2) by (fastforce simp: TableFS_MakeNode_def)
next
  case (OpMakeDir path mode mem)
  then show ?thesis using make_sane [OF assms(1), of path mem px] assms(2) by (fastforce simp: TableFS_MakeDir_def)
next
  case (OpSymlink target path mem)
  then show ?thesis using symlink_sane [OF assms(1), of path mem target px] assms(2) by fastforce
next
  case (OpUnlink path)
  then show ?thesis using unlink_sane [OF assms(1), of path px] assms(2) by simp
next
  case (OpRemoveDir path)
  then show ?thesis using rmdir_sane [OF assms(1), of path] assms(2) by simp
next
  case (OpRename old new)
  then show ?thesis using rename_sane [OF assms(1), of old new] assms(2) by fastforce
next
  case (OpGetAttr path)
  then show ?thesis using getattr_sane [OF assms(1), of path] assms(2) by fastforce
next
  case (OpAccess path amode)
  have "sane n fs" by (rule sane_less [OF assms(1)]) simp
  then show ?thesis using OpAccess by (simp add: TableFS_Access_def)
next
  case (OpReadlink path sz)
  then show ?thesis using readlink_sane [OF assms(1), of path sz] assms(2) by fastforce
next
  case (OpTruncate path new_size fd garbage stale)
  then show ?thesis using truncate_sane [OF assms(1), of path new_size px fd garbage stale] assms(2) by simp
next
  case (OpWriteFile path off buf)
  then show ?thesis using write_sane [OF assms(1), of path off buf px] assms(2) by fastforce
next
  case (OpChmod path mode)
  then show ?thesis using update_sane [OF assms(1), of path] assms(2) by (simp add: TableFS_Chmod_def stat_ok_def)
next
  case (OpChown path uid gid)
  then show ?thesis using update_sane [OF assms(1), of path] assms(2) by (simp add: TableFS_Chown_def stat_ok_def)
next
  case (OpUpdateTimens path t0 t1)
  then show ?thesis using update_sane [OF assms(1), of path] assms(2) by (simp add: TableFS_UpdateTimens_def stat_ok_def)
qed

section \<open>Reachable states\<close>

lemma steps_sane: "fs_steps px fs0 k fs \<Longrightarrow> k \<le> K \<Longrightarrow> sane (4 * K) fs0 \<Longrightarrow> sane (4 * (K - k)) fs"
proof (induction rule: fs_steps.induct)
  case (step k fs op fs' ret)
  have e: "4 * (K - k) = 4 * (K - Suc k) + 4" using step.prems(1) by simp
  have "sane (4 * (K - Suc k) + 4) fs" using step.IH step.prems unfolding e by simp
  from op_sane [OF this step.hyps(2), of px] show ?case using step.hyps(3) by auto
qed simp

lemma sane_Init:
  assumes "ad_ok (Suc n) (metadb fs)" "State_IsEmpty (fs_state fs)" "fs_view fs = Map.empty" "257 \<le> length mem"
    and "length (datadir (fs_state fs)) \<le> 60" "n < 2 ^ 31"
  shows "sane n (TableFS_Init px fs mem)"
proof -
  note I = Init_empty [OF assms(1-4), of px]
  have st: "fs_state (TableFS_Init px fs mem) = fs_state fs"
    by (simp add: TableFS_Init_def Let_def split: option.split prod.split)
  have "inodes (TableFS_Init px fs mem) = [root_key \<mapsto> 0]"
    using assms(4) by (auto simp: inodes_def I(2) fun_eq_iff root_value_attr InitStat_def Let_def ROOT_INODE_ID_def)
  moreover have "unat (max_inode_num (fs_state fs)) = 0" using assms(2) by (simp add: State_IsEmpty_def)
  ultimately show ?thesis using I(1) assms(5,6) by (simp add: sane_def st numbered_def)
qed

text \<open>C39: No sequence of the operations \<open>fs_op\<close> goes wrong: those that make, remove, rename and truncate entries,
  read and change attributes, read links, and write to a small file between an open and a release. They are called
  as \<open>fuse_ok\<close> says, and the data stays in the inodes. In every state that is reached by \<open>k\<close> of them from an empty, freshly
  mounted file system, with \<open>k\<close> below a bound \<open>K\<close>, the invariant holds, every
  entry has an inode number of its own that was given out before and so a disk file of its own;
  and each further one of these operations returns, with 0 or \<^verbatim>\<open>-ENOENT\<close>, and leads to such a state again. The
  bound \<open>K\<close> comes from the sequence numbers of the database, four for an operation, and the 31 bits of the
  inode numbers that \<^verbatim>\<open>GetDiskFilePath\<close> prints. Files on disk, files held open, \<^verbatim>\<open>Fsync\<close> and the reading of
  directories are outside this property.\<close>
theorem reachable_states:
  fixes px :: "'d posix" and new :: "'d TableFS"
  assumes "ad_ok (Suc (4 * K)) (metadb new)" "State_IsEmpty (fs_state new)" "fs_view new = Map.empty"
    and "257 \<le> length mem" "length (datadir (fs_state new)) \<le> 60" "4 * K < 2 ^ 31"
    and "fs_steps px (TableFS_Init px new mem) k fs" "k < K"
  shows "fs_ok (4 * (K - k)) fs (\<lambda>_. 0) \<and>
    (\<forall>key v. fs_view fs key = Some v \<longrightarrow> st_ino (GetAttribute v) \<le> max_inode_num (fs_state fs)) \<and>
    (\<forall>a b v w. fs_view fs a = Some v \<longrightarrow> fs_view fs b = Some w \<longrightarrow> a \<noteq> b \<longrightarrow>
       GetDiskFilePath (fs_state fs) (st_ino (GetAttribute v)) \<noteq> GetDiskFilePath (fs_state fs) (st_ino (GetAttribute w))) \<and>
    (\<forall>op. fuse_ok fs op \<longrightarrow> (\<exists>fs' ret. run_op px op fs = Some (fs', ret) \<and> (ret = 0 \<or> ret = - ENOENT) \<and>
       fs_steps px (TableFS_Init px new mem) (Suc k) fs'))"
proof -
  have s: "sane (4 * (K - k)) fs" using steps_sane [OF assms(7)] sane_Init [OF assms(1-6)] assms(8) by simp
  then have N: "numbered (inodes fs) (unat (max_inode_num (fs_state fs)))" "unat (max_inode_num (fs_state fs)) < 2 ^ 31"
    by (simp_all add: sane_def)
  have le: "unat (st_ino (GetAttribute v)) \<le> unat (max_inode_num (fs_state fs))" if "fs_view fs key = Some v" for key v
  proof -
    have "inodes fs key = Some (st_ino (GetAttribute v))" using that by (simp add: inodes_def)
    then show ?thesis using N(1) unfolding numbered_def by blast
  qed
  have files: "GetDiskFilePath (fs_state fs) (st_ino (GetAttribute v)) \<noteq> GetDiskFilePath (fs_state fs) (st_ino (GetAttribute w))"
    if ab: "fs_view fs a = Some v" "fs_view fs b = Some w" "a \<noteq> b" for a b v w
  proof
    assume same: "GetDiskFilePath (fs_state fs) (st_ino (GetAttribute v)) = GetDiskFilePath (fs_state fs) (st_ino (GetAttribute w))"
    obtain p where "GetDiskFilePath (fs_state fs) (st_ino (GetAttribute v)) = Some p"
      using disk_path_total(1) s unfolding sane_def by blast
    then have p: "GetDiskFilePath (fs_state fs) (st_ino (GetAttribute v)) = Some p"
      "GetDiskFilePath (fs_state fs) (st_ino (GetAttribute w)) = Some p" using same by simp_all
    have "st_ino (GetAttribute v) = st_ino (GetAttribute w)"
      by (rule disk_path_inject [OF p le_less_trans [OF le [OF ab(1)] N(2)] le_less_trans [OF le [OF ab(2)] N(2)]])
    then show False using N(1) ab by (auto simp: numbered_def inodes_def)
  qed
  have e: "4 * (K - k) = 4 * (K - Suc k) + 4" using assms(8) by simp
  have "\<exists>fs' ret. run_op px op fs = Some (fs', ret) \<and> (ret = 0 \<or> ret = - ENOENT) \<and>
      fs_steps px (TableFS_Init px new mem) (Suc k) fs'" if "fuse_ok fs op" for op
    using op_sane [OF s [unfolded e] that, of px] fs_steps.step [OF assms(7) that] by blast
  moreover have "fs_ok (4 * (K - k)) fs (\<lambda>_. 0)" using s by (simp add: sane_def)
  ultimately show ?thesis using le files by (simp add: word_le_nat_alt)
qed

theorem reachable_states_witness:
  "\<exists>fs1 fs2 r1 r2. run_op mem_px (OpMakeDir demo_path 0x1ED demo_mem) demo_fs = Some (fs1, r1) \<and>
     run_op mem_px (OpRemoveDir demo_path) fs1 = Some (fs2, r2) \<and> fs_steps mem_px demo_fs 2 fs2"
proof -
  have ad: "ad_ok (Suc (4 * 2)) (metadb demo_new)"
    using DBImpl_new_ok(1) [of "Suc (4 * 2)"] by (simp add: demo_new_def metadb_def InodeCache_new_def demo_ad_def ad_ok_def)
  have e: "State_IsEmpty (fs_state demo_new)" "length (datadir (fs_state demo_new)) \<le> 60"
    "fs_view demo_new = Map.empty"
    using DBImpl_new_ok(2)
    by (simp_all add: demo_new_def State_IsEmpty_def State_new_def fs_view_def metadb_def InodeCache_new_def
        ad_lookup_def demo_ad_def fun_eq_iff)
  note R = reachable_states [OF ad e(1,3) _ e(2), of "replicate 300 0" mem_px, folded demo_fs_def]
  have step: "\<exists>fs' r. run_op mem_px op fs = Some (fs', r) \<and> fs_steps mem_px demo_fs (Suc k) fs'"
    if "fs_steps mem_px demo_fs k fs" "k < 2" "fuse_ok fs op" for k fs op
    using R [OF _ _ that(1,2)] that(3) by (simp only: length_replicate) auto
  have "fuse_ok demo_fs (OpMakeDir demo_path 0x1ED demo_mem)"
    using demo_free demo_mem by (auto simp: creatable_def free_name_def demo_path)
  moreover have "(0 :: nat) < 2" by simp
  ultimately obtain fs1 r1 where 1: "run_op mem_px (OpMakeDir demo_path 0x1ED demo_mem) demo_fs = Some (fs1, r1)"
    "fs_steps mem_px demo_fs (Suc 0) fs1" using step [OF fs_steps.start] by blast
  have "fuse_ok fs1 (OpRemoveDir demo_path)" by (simp add: demo_path)
  moreover have "Suc 0 < 2" by simp
  ultimately obtain fs2 r2 where "run_op mem_px (OpRemoveDir demo_path) fs1 = Some (fs2, r2)" "fs_steps mem_px demo_fs (Suc (Suc 0)) fs2"
    using step [OF 1(2)] by blast
  then show ?thesis using 1(1) unfolding numeral_2_eq_2 by blast
qed

end
