(* ===== verification/Log_Damage.thy ===== *)
theory Log_Damage
  imports Log_Format
begin

text \<open>
  What the reader of \<^verbatim>\<open>db/log_reader.cc\<close> makes of a damaged log, of any bytes at all: it ends, and
  with checksums on it returns only records whose fragments are in the file as the writer writes them.
  \<^item> \<open>unread r\<close> are the bytes the reader has not consumed.
  \<^item> \<open>found fs s rest\<close>: the fragments are in \<open>s\<close> one after the other, with anything in between, and
    \<open>rest\<close> is what follows.
\<close>

section \<open>Fragments in a file\<close>

definition unread :: "Reader \<Rightarrow> bytes" where
  "unread r = r_buffer r @ sf_rest (r_file r)"

fun found :: "fragment list \<Rightarrow> bytes \<Rightarrow> bytes \<Rightarrow> bool" where
  "found [] s rest \<longleftrightarrow> (\<exists>pre. s = pre @ rest)"
| "found ((t, p) # fs) s rest \<longleftrightarrow> (\<exists>pre mid. s = pre @ physical t p @ mid \<and> found fs mid rest)"

lemma found_after: "found fs s rest \<Longrightarrow> s' = pre @ s \<Longrightarrow> found fs s' rest"
  by (cases fs) (auto, metis append_assoc)

lemma found_append: "found fs s mid \<Longrightarrow> found gs mid rest \<Longrightarrow> found (fs @ gs) s rest"
proof (induction fs s mid rule: found.induct)
  case (1 s mid)
  then show ?case using found_after by auto
qed auto

lemma length_physical: "length (physical t p) = kHeaderSize + length p"
  by (simp add: physical_def kHeaderSize_def)

lemma found_length: "found fs s rest \<Longrightarrow> (\<Sum>(t, p)\<leftarrow>fs. kHeaderSize + length p) + length rest \<le> length s"
proof (induction fs s rest rule: found.induct)
  case (2 t p fs s rest)
  then obtain pre mid where "s = pre @ physical t p @ mid" "found fs mid rest" by auto
  then show ?case using 2(1) [of mid] by (simp add: length_physical)
qed auto

text \<open>The fragments of a record: one, or a first, middle ones and a last.\<close>

definition started :: "fragment list \<Rightarrow> bool" where
  "started fs \<longleftrightarrow> (\<exists>p ps. fs = (kFirstType, p) # map (Pair kMiddleType) ps)"

definition whole :: "fragment list \<Rightarrow> bool" where
  "whole fs \<longleftrightarrow> (\<exists>p. fs = [(kFullType, p)]) \<or> (\<exists>gs p. started gs \<and> fs = gs @ [(kLastType, p)])"

section \<open>One physical record\<close>

text \<open>A fragment that is returned was in the file, unless its type is none of the writer's.\<close>

definition physical_read :: "Reader \<Rightarrow> Reader \<times> u32 \<times> bytes option \<Rightarrow> bool" where
  "physical_read r res \<longleftrightarrow> r_checksum (fst res) \<and> r_initial_offset (fst res) = 0 \<and>
     found [] (unread r) (unread (fst res)) \<and>
     (\<forall>t. t \<noteq> kZeroType \<longrightarrow> fst (snd res) = of_nat (record_code t) \<longrightarrow>
        (\<exists>p. snd (snd res) = Some p \<and> found [(t, p)] (unread r) (unread (fst res))))"

lemma codes: "of_nat (record_code t) \<noteq> kEof" "of_nat (record_code t) \<noteq> kBadRecord"
  by (cases t; simp add: kEof_def kBadRecord_def)+

lemma ReportDrop_unread [simp]: "unread (ReportDrop r n s) = unread r"
  by (simp add: unread_def)

lemma found_suffix [simp]: "found [] (a @ b) b" "found [] a a"
  by auto

lemma header_bytes:
  assumes "kHeaderSize + len \<le> length h" "len = unat (h ! 4) + 256 * unat (h ! 5)"
    and "scast (h ! 6) = (of_nat (record_code t) :: u32)"
    and "crc32c_Value 0 (take (1 + len) (drop 6 h)) = crc32c_Unmask (DecodeFixed32 h)"
  shows "take (kHeaderSize + len) h = physical t (take len (drop kHeaderSize h))"
proof -
  let ?p = "take len (drop kHeaderSize h)"
  have l: "length ?p = len" "7 \<le> length h" using assms(1) by (simp_all add: kHeaderSize_def)
  have h6: "h ! 6 = of_nat (record_code t)"
  proof -
    have "ucast (scast (h ! 6) :: u32) = h ! 6" by (intro bit_word_eqI) (auto simp: bit_simps)
    then show ?thesis using assms(3) by (cases t) simp_all
  qed
  have b: "(256 :: byte) = 0" "(0xFF :: byte) = -1" by simp_all
  have "of_nat len = h ! 4" unfolding assms(2) by (simp add: b(1))
  then have h4: "of_nat len AND 0xFF = h ! 4" unfolding b(2) bit.conj_one_right .
  have "unat (h ! 4) < 2 ^ LENGTH(8)" by (rule unsigned_less)
  then have h5: "of_nat (len div 256) = h ! 5" unfolding assms(2) by simp
  have "h = take 4 h @ drop 4 h" by simp
  then have "h = EncodeFixed32 (DecodeFixed32 (take 4 h)) @ drop 4 h"
    using EncodeFixed32_DecodeFixed32 [of "take 4 h"] l(2) by simp
  then have d: "DecodeFixed32 (take 4 h) = DecodeFixed32 h" by (metis DecodeFixed32_append)
  have rest: "drop 4 h = h ! 4 # h ! 5 # h ! 6 # drop 7 h"
    using Cons_nth_drop_Suc [of 4 h] Cons_nth_drop_Suc [of 5 h] Cons_nth_drop_Suc [of 6 h] l(2) by simp
  have "drop 6 h = h ! 6 # drop 7 h" using l(2) Cons_nth_drop_Suc [of 6 h] by simp
  then have "take (1 + len) (drop 6 h) = h ! 6 # ?p" by (simp add: kHeaderSize_def)
  then have "crc32c_Unmask (DecodeFixed32 h) = crc32c 0 (of_nat (record_code t) # ?p)"
    using assms(4) by (simp add: crc32c_Value_def crc32c_Extend_crc h6)
  then have "DecodeFixed32 h = crc32c_Mask (crc32c 0 (of_nat (record_code t) # ?p))" using Mask_Unmask by metis
  then have "take 4 h = EncodeFixed32 (crc32c_Mask (crc32c 0 (of_nat (record_code t) # ?p)))"
    using EncodeFixed32_DecodeFixed32 [of "take 4 h"] l(2) d by simp
  moreover have "take (7 + len) h = take 4 h @ take (3 + len) (drop 4 h)" by (simp flip: take_add)
  ultimately show ?thesis
    unfolding physical_def l(1) h4 h5 by (simp add: rest h6 kHeaderSize_def numeral_3_eq_3)
qed

lemma ParseHeader_read:
  assumes "r_checksum r" "r_initial_offset r = 0" "kHeaderSize \<le> length (r_buffer r)"
  shows "physical_read r (ParseHeader r)"
proof -
  let ?h = "r_buffer r"
  define len where "len = unat (?h ! 4) + 256 * unat (?h ! 5)"
  let ?q = "r\<lparr>r_buffer := []\<rparr>" and ?r = "r\<lparr>r_buffer := drop (kHeaderSize + len) ?h\<rparr>"
  have bad: "physical_read r (q, kBadRecord, x)" if "r_checksum q" "r_initial_offset q = 0" "unread q = sf_rest (r_file r)" for q x
    using that codes(2) [symmetric] by (simp add: physical_read_def unread_def)
  have good: "physical_read r (?r, scast (?h ! 6), Some (take len (drop kHeaderSize ?h)))"
    if ok: "kHeaderSize + len \<le> length ?h"
      "crc32c_Value 0 (take (1 + len) (drop 6 ?h)) = crc32c_Unmask (DecodeFixed32 ?h)"
  proof -
    have split: "unread r = take (kHeaderSize + len) ?h @ unread ?r" by (simp add: unread_def)
    have "\<exists>pre mid. unread r = pre @ physical t (take len (drop kHeaderSize ?h)) @ mid \<and> (\<exists>pre. mid = pre @ unread ?r)"
      if "scast (?h ! 6) = (of_nat (record_code t) :: u32)" for t
      using split unfolding header_bytes [OF ok(1) len_def that ok(2)] by (metis append_Nil)
    moreover have "\<exists>pre. unread r = pre @ unread ?r" using split by blast
    ultimately show ?thesis using assms(1,2) by (simp add: physical_read_def)
  qed
  show ?thesis
    using bad [of ?q] bad [of "ReportDrop ?q n s" for n s] good assms(1,2)
    unfolding ParseHeader_def Let_def len_def [symmetric]
    by (auto simp: unread_def not_less)
qed

lemma ReadBlock_unread:
  "found [] (unread r) (unread (fst (ReadBlock r)))" "r_checksum (fst (ReadBlock r)) = r_checksum r"
  "r_initial_offset (fst (ReadBlock r)) = r_initial_offset r"
  by (auto simp: ReadBlock_def SequentialFile_Read_def unread_def Let_def)

lemma physical_read_after: "physical_read q res \<Longrightarrow> found [] (unread r) (unread q) \<Longrightarrow> physical_read r res"
  unfolding physical_read_def using found_append [of "[]" "unread r" "unread q"] by (metis append_Nil)

lemma ReadPhysicalRecord_read:
  "r_checksum r \<Longrightarrow> r_initial_offset r = 0 \<Longrightarrow> physical_read r (ReadPhysicalRecord r)"
proof (induction r rule: ReadPhysicalRecord.induct)
  case (1 r)
  have eof: "physical_read r (q, kEof, None)" if "r_checksum q" "r_initial_offset q = 0" "found [] (unread r) (unread q)" for q
    using that codes(1) [symmetric] by (simp add: physical_read_def)
  show ?case
  proof (cases "length (r_buffer r) < kHeaderSize")
    case False
    then show ?thesis using ParseHeader_read [OF 1(2,3)] by (simp add: ReadPhysicalRecord.simps [of r])
  next
    case True
    have cleared: "found [] (unread r) (unread (r\<lparr>r_buffer := []\<rparr>))" by (auto simp: unread_def)
    note B = ReadBlock_unread [of r]
    have "physical_read r (ReadPhysicalRecord (fst (ReadBlock r)))" if "\<not> r_eof r" "snd (ReadBlock r)"
      using 1(1) [OF True that] 1(2,3) B physical_read_after by metis
    then show ?thesis
      using True 1(2,3) eof [OF _ _ B(1)] eof [of r] eof [of "ReportDrop (r\<lparr>r_buffer := []\<rparr>) n z" for n z] B(2,3) cleared
      unfolding ReadPhysicalRecord.simps [of r] by (simp del: found.simps)
  qed
qed

section \<open>One record\<close>

lemma found_skip: "found fs s rest \<Longrightarrow> found [] s rest"
proof (induction fs s rest rule: found.induct)
  case (2 t p fs s rest)
  then obtain pre mid where "s = pre @ physical t p @ mid" "found [] mid rest" by auto
  then show ?case using found_after [of "[]" mid rest s "pre @ physical t p"] by simp
qed simp

lemma started_middle: "started fs \<Longrightarrow> started (fs @ [(kMiddleType, p)])"
proof -
  assume "started fs"
  then obtain p0 ps where "fs = (kFirstType, p0) # map (Pair kMiddleType) ps" by (auto simp: started_def)
  then show ?thesis unfolding started_def by (intro exI [of _ p0] exI [of _ "ps @ [p]"]) simp
qed

definition record_found :: "bytes \<Rightarrow> Reader \<Rightarrow> bytes \<Rightarrow> bool" where
  "record_found s r d \<longleftrightarrow> r_checksum r \<and> r_initial_offset r = 0 \<and>
     (\<exists>fs. whole fs \<and> d = concat (map snd fs) \<and> found fs s (unread r))"

lemma record_foundI:
  assumes "whole fs" "d = concat (map snd fs)" "found fs s (unread q)" "unread r = unread q" "r_checksum r" "r_initial_offset r = 0"
  shows "record_found s r d"
  using assms unfolding record_found_def by auto

lemma ReadRecord_loop_found:
  assumes "ReadRecord_loop r in_fragmented scratch prospective = (r', Some d)" "r_checksum r" "r_initial_offset r = 0"
    and "found acc s (unread r)" "in_fragmented \<Longrightarrow> started acc \<and> scratch = concat (map snd acc)"
  shows "record_found s r' d"
  using assms
proof (induction "bytes_left r" arbitrary: r in_fragmented scratch prospective acc rule: less_induct)
  case less
  obtain q t x where P: "ReadPhysicalRecord r = (q, t, x)" by (cases "ReadPhysicalRecord r") auto
  note R = ReadPhysicalRecord_read [OF less.prems(2,3), unfolded P]
  have q: "r_checksum q" "r_initial_offset q = 0" "found [] (unread r) (unread q)" using R by (simp_all add: physical_read_def)
  have s: "found [] s (unread q)" using found_append [OF found_skip [OF less.prems(4)] q(3)] by simp
  have frag: "\<exists>p. x = Some p \<and> found (gs @ [(ty, p)]) s (unread q)"
    if ty: "t = of_nat (record_code ty)" "ty \<noteq> kZeroType" "found gs s (unread r)" for ty gs
  proof -
    obtain p where "x = Some p" "found [(ty, p)] (unread r) (unread q)"
      using R ty(1,2) unfolding physical_read_def fst_conv snd_conv by blast
    then show ?thesis using found_append [OF ty(3)] by blast
  qed
  have IH: "record_found s r' d"
    if "t \<noteq> kEof" "ReadRecord_loop q' f z o' = (r', Some d)" "unread q' = unread q" "bytes_left q' = bytes_left q"
      "r_checksum q' = r_checksum q" "r_initial_offset q' = r_initial_offset q" "found acc' s (unread q)"
      "f \<Longrightarrow> started acc' \<and> z = concat (map snd acc')" for q' f z o' acc'
    using less.hyps [OF _ that(2)] ReadPhysicalRecord_less [of r] that q(1,2) by (simp add: P)
  have again: "record_found s r' d" if "t \<noteq> kEof" "ReadRecord_loop (ReportDrop q n z) False scratch' o' = (r', Some d)"
    for n z scratch' o'
    using IH [OF that(1,2), of "[]"] s by simp
  have resume: "record_found s r' d" if "t \<noteq> kEof" "ReadRecord_loop q False scratch' o' = (r', Some d)" for scratch' o'
    using IH [OF that, of "[]"] s by simp
  note E = less.prems(1) [unfolded ReadRecord_loop.simps [of r] Let_def P fst_conv snd_conv]
  consider (full) "t = of_nat (record_code kFullType)" | (first) "t = of_nat (record_code kFirstType)"
    | (middle) "t = of_nat (record_code kMiddleType)" | (last) "t = of_nat (record_code kLastType)" | (eof) "t = kEof"
    | (other) "t \<noteq> kEof" "\<And>ty. ty \<noteq> kZeroType \<Longrightarrow> t \<noteq> of_nat (record_code ty)"
    by (metis (full_types) RecordType.exhaust)
  then show ?case
  proof cases
    case full
    then obtain p where "x = Some p" "found [(kFullType, p)] s (unread q)"
      using frag [OF full _ found_skip [OF less.prems(4)]] by auto
    then show ?thesis using E full q(1,2)
      by (intro record_foundI [of "[(kFullType, p)]" d s q]) (auto simp: whole_def unread_def simp del: found.simps split: if_splits)
  next
    case first
    then obtain p where p: "x = Some p" "found [(kFirstType, p)] s (unread q)"
      using frag [OF first _ found_skip [OF less.prems(4)]] by auto
    have "ReadRecord_loop (if in_fragmented \<and> scratch \<noteq> []
        then ReportDrop q (of_nat (length scratch)) ''partial record without end(2)'' else q) True p
        (r_end_of_buffer_offset r - of_nat (length (r_buffer r))) = (r', Some d)"
      using E first p(1) by simp
    from IH [OF _ this, of "[(kFirstType, p)]"] show ?thesis
      using first p(2) by (simp add: started_def kEof_def bytes_left_def del: found.simps)
  next
    case middle
    show ?thesis
    proof (cases in_fragmented)
      case True
      obtain p where p: "x = Some p" "found (acc @ [(kMiddleType, p)]) s (unread q)"
        using frag [OF middle _ less.prems(4)] by auto
      show ?thesis
        by (rule IH [of q True "scratch @ p" prospective "acc @ [(kMiddleType, p)]"])
          (use E True middle p less.prems(5) started_middle in \<open>auto simp: kEof_def\<close>)
    next
      case False
      have "t \<noteq> kEof" using middle by (simp add: kEof_def)
      from again [OF this] show ?thesis using E False middle by auto
    qed
  next
    case last
    show ?thesis
    proof (cases in_fragmented)
      case True
      obtain p where p: "x = Some p" "found (acc @ [(kLastType, p)]) s (unread q)"
        using frag [OF last _ less.prems(4)] by auto
      have "whole (acc @ [(kLastType, p)])" using less.prems(5) True by (auto simp: whole_def)
      then show ?thesis using E True last p less.prems(5) q(1,2)
        by (intro record_foundI [of "acc @ [(kLastType, p)]" d s q]) (auto simp: unread_def simp del: found.simps)
    next
      case False
      have "t \<noteq> kEof" using last by (simp add: kEof_def)
      from again [OF this] show ?thesis using E False last by auto
    qed
  next
    case eof
    then show ?thesis using E by (simp add: kEof_def kBadRecord_def)
  next
    case other
    have ne: "t \<noteq> of_nat (record_code kFullType)" "t \<noteq> of_nat (record_code kFirstType)"
      "t \<noteq> of_nat (record_code kMiddleType)" "t \<noteq> of_nat (record_code kLastType)" by (rule other(2), simp)+
    show ?thesis
      using E unfolding if_not_P [OF ne(1)] if_not_P [OF ne(2)] if_not_P [OF ne(3)] if_not_P [OF ne(4)] if_not_P [OF other(1)]
      using again [OF other(1)] resume [OF other(1)] by (auto split: if_splits)
  qed
qed

section \<open>All records\<close>

lemma ReadRecord_found:
  assumes "ReadRecord r = (r', Some d)" "r_checksum r" "r_initial_offset r = 0"
  shows "record_found (unread r) r' d"
proof -
  have "ReadRecord_loop r False [] 0 = (r', Some d)" using assms(1,3) by (simp add: ReadRecord_def)
  from ReadRecord_loop_found [OF this assms(2,3), of "[]"] show ?thesis by simp
qed

abbreviation record_of :: "bytes \<Rightarrow> fragment list \<Rightarrow> bool" where
  "record_of d fs \<equiv> whole fs \<and> d = concat (map snd fs)"

lemma read_records_found:
  "r_checksum r \<Longrightarrow> r_initial_offset r = 0 \<Longrightarrow>
     \<exists>fss rest. list_all2 record_of (fst (read_records r)) fss \<and> found (concat fss) (unread r) rest"
proof (induction r rule: read_records.induct)
  case (1 r)
  show ?case
  proof (cases "ReadRecord r")
    case (Pair r' x)
    show ?thesis
    proof (cases x)
      case None
      then show ?thesis
        using Pair by (intro exI [of _ "[]"] exI [of _ "unread r"]) (simp add: read_records.simps [of r])
    next
      case (Some d)
      have F: "record_found (unread r) r' d" using ReadRecord_found 1(2,3) Pair Some by simp
      then obtain fs where fs: "whole fs" "d = concat (map snd fs)" "found fs (unread r) (unread r')"
        by (auto simp: record_found_def)
      obtain fss rest where I: "list_all2 record_of (fst (read_records r')) fss" "found (concat fss) (unread r') rest"
        using 1(1) [OF Pair [symmetric] Some] F by (auto simp: record_found_def)
      have "fst (read_records r) = d # fst (read_records r')"
        using Pair Some by (simp add: read_records.simps [of r] split: prod.split)
      then show ?thesis using fs I found_append [OF fs(3) I(2)]
        by (intro exI [of _ "fs # fss"] exI [of _ rest]) simp
    qed
  qed
qed

lemma whole_length: "whole fs \<Longrightarrow> kHeaderSize + length (concat (map snd fs)) \<le> (\<Sum>(t, p)\<leftarrow>fs. kHeaderSize + length p)"
proof (induction fs)
  case (Cons f fs)
  have "length (concat (map snd gs)) \<le> (\<Sum>(t, p)\<leftarrow>gs. kHeaderSize + length p)" for gs :: "fragment list"
    by (induction gs) auto
  from this [of fs] show ?case by (cases f) simp
qed (simp add: whole_def)

lemma records_length:
  "list_all2 record_of ds fss \<Longrightarrow> (\<Sum>d\<leftarrow>ds. kHeaderSize + length d) \<le> (\<Sum>(t, p)\<leftarrow>concat fss. kHeaderSize + length p)"
proof (induction ds fss rule: list_all2_induct)
  case (Cons d ds fs fss)
  then show ?case using whole_length [of fs] by simp
qed simp

section \<open>Property\<close>

text \<open>C40: The reader makes no records up. Whatever bytes a log file holds, reading it ends, and with
  checksums on (as recovery has them) every record that it returns consists of a full fragment, or a
  first, middle ones and a last, that are in the file byte by byte as the writer writes them, with
  their checksum; all fragments of all records are there in this order and do not overlap. So the
  records and their headers are not longer than the file.\<close>
theorem damaged_log:
  defines "records \<equiv> \<lambda>s. fst (read_records (open_log True s))"
  shows "(\<exists>fss rest. list_all2 (\<lambda>d fs. whole fs \<and> d = concat (map snd fs)) (records s) fss \<and> found (concat fss) s rest) \<and>
    (\<Sum>d\<leftarrow>records s. kHeaderSize + length d) \<le> length s"
proof -
  have r: "r_checksum (open_log True s)" "r_initial_offset (open_log True s) = 0" "unread (open_log True s) = s"
    by (simp_all add: open_log_def Reader_new_def unread_def)
  obtain fss rest where F: "list_all2 record_of (records s) fss" "found (concat fss) s rest"
    using read_records_found [OF r(1,2)] r(3) unfolding records_def by auto
  have "(\<Sum>d\<leftarrow>records s. kHeaderSize + length d) \<le> length s"
    using records_length [OF F(1)] found_length [OF F(2)] by linarith
  then show ?thesis using F by blast
qed

end
