(* ===== verification/Write_Queue.thy ===== *)
theory Write_Queue
  imports Db_Impl
begin

text \<open>
  The queue of concurrent writers of \<^verbatim>\<open>DBImpl::Write\<close> and group commit (\<^verbatim>\<open>db/db_impl.cc\<close>). The threads
  take turns where \<^verbatim>\<open>mutex_\<close> is released, so a step is what a thread does between two such places:
  \<^item> \<open>ws_arrive\<close>: a thread puts its writer at the back of the queue;
  \<^item> \<open>ws_step\<close>: a thread looks whether its writer is done or in front and otherwise waits; the one in
    front makes room, forms a group, writes it, takes the group off the queue and wakes
    its writers and the next in front.
  A writer is named by a number, its address. The model has the runs of the code and more: other
  threads may also come between arriving and looking, and between making room and forming the group.
  A wakeup without a signal is left out: it only looks again. While \<^verbatim>\<open>MakeRoomForWrite\<close> waits, other threads can only arrive, so it is one step.
\<close>

section \<open>Writers\<close>

datatype Place =
    At_check
  | Waiting
  | Have_room bool
  | Writing WriteBatch nat
  | Returned bool

record DBWriter =
  wr_batch :: "WriteBatch option"
  wr_options :: WriteOptions
  wr_done :: bool
  wr_status :: bool
  wr_at :: Place

record WriteState =
  ws_db :: DBImpl
  ws_writers :: "nat list"
  ws_writer :: "nat \<rightharpoonup> DBWriter"

abbreviation writer :: "WriteState \<Rightarrow> nat \<Rightarrow> DBWriter" where
  "writer s i \<equiv> the (ws_writer s i)"

definition CV_Signal :: "DBWriter \<Rightarrow> DBWriter" where
  "CV_Signal w = (if wr_at w = Waiting then w\<lparr>wr_at := At_check\<rparr> else w)"

section \<open>Group commit\<close>

fun batch_group_loop ::
  "(nat \<Rightarrow> DBWriter) \<Rightarrow> nat \<Rightarrow> nat \<Rightarrow> nat \<Rightarrow> WriteBatch \<Rightarrow> bool \<Rightarrow> nat \<Rightarrow> nat list \<Rightarrow> WriteBatch \<times> nat" where
  "batch_group_loop wr first max_size sz result own last_writer [] = (result, last_writer)"
| "batch_group_loop wr first max_size sz result own last_writer (w # iter) =
     (if wo_sync (wr_options (wr w)) \<and> \<not> wo_sync (wr_options (wr first)) then (result, last_writer)
      else
        (case wr_batch (wr w) of
           None \<Rightarrow> batch_group_loop wr first max_size sz result own w iter
         | Some b \<Rightarrow>
             let sz = sz + length b
             in if sz > max_size then (result, last_writer)
                else
                  (let result = (if own then WriteBatch_Append WriteBatch_Clear result else result)
                   in batch_group_loop wr first max_size sz (WriteBatch_Append result b) False w iter)))"

definition BuildBatchGroup :: "(nat \<Rightarrow> DBWriter) \<Rightarrow> nat list \<Rightarrow> WriteBatch \<times> nat" where
  "BuildBatchGroup wr writers =
     (let first = hd writers;
          result = the (wr_batch (wr first));
          sz = length result;
          max_size = (if sz \<le> 128 * 2 ^ 10 then sz + 128 * 2 ^ 10 else 2 ^ 20)
      in batch_group_loop wr first max_size sz result True first (tl writers))"

definition commit_group :: "DBImpl \<Rightarrow> WriteOptions \<Rightarrow> WriteBatch \<Rightarrow> DBImpl \<times> bool" where
  "commit_group db options updates =
     (let last_sequence = db_last_sequence db;
          updates = SetSequence updates (last_sequence + 1);
          last_sequence = last_sequence + scast (Count updates);
          (db, status) = log_batch db options updates;
          (db, status) =
            (if status then
               (let (mem, st) = InsertInto updates (db_mem db)
                in (db\<lparr>db_mem := mem\<rparr>, st = Batch_OK))
             else (db, status))
      in (db\<lparr>db_last_sequence := last_sequence\<rparr>, status))"

fun pop_writers :: "nat \<Rightarrow> nat \<Rightarrow> bool \<Rightarrow> (nat \<rightharpoonup> DBWriter) \<Rightarrow> nat list \<Rightarrow> (nat \<rightharpoonup> DBWriter) \<times> nat list" where
  "pop_writers w last_writer status m [] = (m, [])"
| "pop_writers w last_writer status m (ready # writers) =
     (let m = (if ready \<noteq> w then m(ready \<mapsto> CV_Signal ((the (m ready))\<lparr>wr_status := status, wr_done := True\<rparr>)) else m)
      in if ready = last_writer then (m, writers) else pop_writers w last_writer status m writers)"

definition leave :: "WriteState \<Rightarrow> nat \<Rightarrow> nat \<Rightarrow> bool \<Rightarrow> WriteState" where
  "leave s w last_writer status =
     (let (m, writers) = pop_writers w last_writer status (ws_writer s) (ws_writers s);
          m = (case writers of [] \<Rightarrow> m | front # _ \<Rightarrow> m(front \<mapsto> CV_Signal (the (m front))))
      in s\<lparr>ws_writers := writers, ws_writer := m(w \<mapsto> (the (m w))\<lparr>wr_at := Returned status\<rparr>)\<rparr>)"

section \<open>Steps of the threads\<close>

definition ws_new :: "DBImpl \<Rightarrow> WriteState" where
  "ws_new db = \<lparr>ws_db = db, ws_writers = [], ws_writer = Map.empty\<rparr>"

definition ws_arrive :: "WriteState \<Rightarrow> nat \<Rightarrow> WriteOptions \<Rightarrow> WriteBatch option \<Rightarrow> WriteState" where
  "ws_arrive s i options my_batch =
     s\<lparr>ws_writers := ws_writers s @ [i],
       ws_writer := (ws_writer s)(i \<mapsto>
         \<lparr>wr_batch = my_batch, wr_options = options, wr_done = False, wr_status = True, wr_at = At_check\<rparr>)\<rparr>"

definition at_place :: "WriteState \<Rightarrow> nat \<Rightarrow> Place \<Rightarrow> WriteState" where
  "at_place s i p = s\<lparr>ws_writer := (ws_writer s)(i \<mapsto> (writer s i)\<lparr>wr_at := p\<rparr>)\<rparr>"

text \<open>What a thread does next; \<open>None\<close>: it waits or has returned.\<close>

definition thread_step :: "WriteState \<Rightarrow> nat \<Rightarrow> WriteState option" where
  "thread_step s i =
     (case ws_writer s i of
        None \<Rightarrow> None
      | Some w \<Rightarrow>
          (case wr_at w of
             At_check \<Rightarrow>
               Some (if wr_done w then at_place s i (Returned (wr_status w))
                     else if hd (ws_writers s) \<noteq> i then at_place s i Waiting
                     else
                       (let (db, status) = MakeRoomForWrite (ws_db s) (wr_batch w = None)
                        in at_place (s\<lparr>ws_db := db\<rparr>) i (Have_room status)))
           | Have_room status \<Rightarrow>
               Some (if status \<and> wr_batch w \<noteq> None then
                       (let (updates, last_writer) = BuildBatchGroup (writer s) (ws_writers s)
                        in at_place s i (Writing updates last_writer))
                     else leave s i i status)
           | Writing updates last_writer \<Rightarrow>
               (let (db, status) = commit_group (ws_db s) (wr_options w) updates
                in Some (leave (s\<lparr>ws_db := db\<rparr>) i last_writer status))
           | Waiting \<Rightarrow> None
           | Returned status \<Rightarrow> None))"

inductive ws_step :: "WriteState \<Rightarrow> WriteState \<Rightarrow> bool" where
  "thread_step s i = Some s' \<Longrightarrow> ws_step s s'"

type_synonym request = "nat \<times> WriteOptions \<times> WriteBatch option"

inductive ws_run :: "DBImpl \<Rightarrow> request list \<Rightarrow> WriteState \<Rightarrow> bool" for db0 where
  start: "ws_run db0 [] (ws_new db0)"
| arrive: "\<lbrakk>ws_run db0 rs s; ws_writer s i = None\<rbrakk> \<Longrightarrow> ws_run db0 (rs @ [(i, options, batch)]) (ws_arrive s i options batch)"
| step: "\<lbrakk>ws_run db0 rs s; ws_step s s'\<rbrakk> \<Longrightarrow> ws_run db0 rs s'"

section \<open>Writing a group\<close>

lemma Write_commit: "DBImpl_Write db options b =
    (case MakeRoomForWrite db False of (db, False) \<Rightarrow> (db, False) | (db, True) \<Rightarrow> commit_group db options b)"
  unfolding DBImpl_Write_def by (auto simp: commit_group_def split: prod.split bool.split)

lemma full_irrelevant:
  "db_ok n (db\<lparr>db_full := x\<rparr>) = db_ok n db" "db_lookup (db\<lparr>db_full := x\<rparr>) = db_lookup db"
  by (simp add: db_ok_def db_rep_def) (auto simp: db_lookup_def DBImpl_Get_def Let_def fun_eq_iff split: option.split)

lemma commit_full: "commit_group (db\<lparr>db_full := x\<rparr>) options b =
    (case commit_group db options b of (db, s) \<Rightarrow> (db\<lparr>db_full := x\<rparr>, s))"
  by (auto simp: commit_group_def Let_def log_batch_def io_def split: prod.splits bool.splits)

lemma commit_ok:
  assumes "db_ok (n + length ops) db" "batch_rep b s ops" "length ops < 2 ^ 31"
  shows "\<exists>db'. commit_group db options b = (db', True) \<and> db_ok n db' \<and> db_lookup db' = apply_ops ops (db_lookup db)"
proof -
  let ?db = "db\<lparr>db_full := []\<rparr>"
  have "db_ok (n + length ops) ?db" using assms(1) by (simp add: full_irrelevant)
  then obtain db' where W: "DBImpl_Write ?db options b = (db', True)" "db_ok n db'" "db_lookup db' = apply_ops ops (db_lookup ?db)"
    using DBImpl_Write_ok [OF _ assms(2,3)] batch_rep_ops [OF assms(2)] by blast
  have "\<not> db_bg_error ?db" using assms(1) by (auto simp: db_ok_def)
  then have "MakeRoomForWrite ?db False = (?db, True)" by (subst MakeRoomForWrite.simps) simp
  then have "commit_group ?db options b = (db', True)" using W(1) by (simp add: Write_commit)
  then obtain db2 where "commit_group db options b = (db2, True)" "db' = db2\<lparr>db_full := []\<rparr>"
    unfolding commit_full by (auto split: prod.splits)
  then show ?thesis using W(2,3) by (simp add: full_irrelevant)
qed

lemma room_ok:
  assumes "db_ok n db"
  shows "\<exists>db'. MakeRoomForWrite db force = (db', True) \<and> db_ok n db' \<and> db_lookup db' = db_lookup db"
proof -
  obtain m i ts where R: "db_rep db m i ts" and h: "healthy db" and room: "unat (db_last_sequence db) + n < 2 ^ 56"
    using assms by (auto simp: db_ok_def healthy_def)
  obtain db' m' i' ts' where M: "MakeRoomForWrite db force = (db', True)" "db_rep db' m' i' ts'" "healthy db'"
    "db_last_sequence db' = db_last_sequence db" "contents (parts m' i' ts') = contents (parts m i ts)"
    using MakeRoomForWrite_ok [OF R h, of force] by blast
  have "db_lookup db' key = db_lookup db key" for key
  proof (cases "length key + 8 < 2 ^ 32")
    case True
    then show ?thesis
      using DBImpl_Get_rep [OF R True] DBImpl_Get_rep [OF M(2) True] M(4,5) room by (simp add: contents_def fun_eq_iff)
  qed (simp add: db_lookup_def)
  moreover have "db_ok n db'" using M room unfolding db_ok_def healthy_def by auto
  ultimately show ?thesis using M(1) by blast
qed

text \<open>Only the leader's options decide whether the group is logged, whatever its members asked for.\<close>

lemma group_without_log: "\<not> wo_writeahead options \<Longrightarrow> db_log (fst (commit_group db options updates)) = db_log db"
  by (simp add: commit_group_def log_batch_def Let_def split: prod.split)

section \<open>Forming a group\<close>

definition ops_of :: "WriteBatch option \<Rightarrow> batch_op list" where
  "ops_of b = (case b of None \<Rightarrow> [] | Some b \<Rightarrow> fst (Iterate b))"

definition batch_ok :: "WriteBatch option \<Rightarrow> bool" where
  "batch_ok b \<longleftrightarrow> (\<forall>c. b = Some c \<longrightarrow> (\<exists>s ops. batch_rep c s ops \<and> length ops < 2 ^ 31))"

lemma batch_okD: "batch_ok (Some b) \<Longrightarrow> \<exists>s. batch_rep b s (ops_of (Some b))"
  using Iterate_rep by (fastforce simp: batch_ok_def ops_of_def)

abbreviation group_ops :: "(nat \<Rightarrow> DBWriter) \<Rightarrow> nat list \<Rightarrow> batch_op list" where
  "group_ops wr ws \<equiv> concat (map (\<lambda>i. ops_of (wr_batch (wr i))) ws)"

text \<open>The group is a beginning of the queue, and its batch holds the operations of all its writers.\<close>

lemma batch_group_loop_ok:
  assumes "batch_rep result s ops" "\<forall>i\<in>set iter. batch_ok (wr_batch (wr i))"
  shows "\<exists>j s'. j \<le> length iter \<and>
    snd (batch_group_loop wr first max_size sz result own last_writer iter) = (last_writer # iter) ! j \<and>
    batch_rep (fst (batch_group_loop wr first max_size sz result own last_writer iter)) s' (ops @ group_ops wr (take j iter))"
  using assms
proof (induction iter arbitrary: sz result own last_writer s ops)
  case Nil
  then show ?case by auto
next
  case (Cons w iter)
  let ?g = "batch_group_loop wr first max_size sz result own last_writer (w # iter)"
  have stop: "\<exists>j s'. j \<le> length (w # iter) \<and> snd (result, last_writer) = (last_writer # w # iter) ! j \<and>
      batch_rep (fst (result, last_writer)) s' (ops @ group_ops wr (take j (w # iter)))"
    using Cons.prems(1) by (intro exI [of _ 0] exI [of _ s]) simp
  have more: "\<exists>j s'. j \<le> length (w # iter) \<and> snd g = (last_writer # w # iter) ! j \<and>
      batch_rep (fst g) s' (ops @ group_ops wr (take j (w # iter)))"
    if g: "g = batch_group_loop wr first max_size sz' result' own' w iter" "batch_rep result' s' (ops @ ops_of (wr_batch (wr w)))"
    for g sz' result' own' s'
  proof -
    obtain j s'' where j: "j \<le> length iter" "snd g = (w # iter) ! j"
      "batch_rep (fst g) s'' ((ops @ ops_of (wr_batch (wr w))) @ group_ops wr (take j iter))"
      using Cons.IH [OF g(2), of sz' own' w] Cons.prems(2) unfolding g(1) by auto
    then show ?thesis by (intro exI [of _ "Suc j"] exI [of _ s'']) simp
  qed
  show ?case
  proof (cases "wo_sync (wr_options (wr w)) \<and> \<not> wo_sync (wr_options (wr first))")
    case True
    then show ?thesis using stop by simp
  next
    case False
    show ?thesis
    proof (cases "wr_batch (wr w)")
      case None
      have "?g = batch_group_loop wr first max_size sz result own w iter"
        by (simp only: batch_group_loop.simps if_not_P [OF False] None option.case)
      from more [OF this] show ?thesis using Cons.prems(1) None by (simp add: ops_of_def)
    next
      case (Some b)
      have "batch_ok (Some b)" using Cons.prems(2) by (simp flip: Some)
      then obtain sb where b: "batch_rep b sb (ops_of (Some b))" using batch_okD by blast
      let ?result = "if own then WriteBatch_Append WriteBatch_Clear result else result"
      have "\<exists>s'. batch_rep ?result s' ops"
        using Cons.prems(1) Append_rep [OF batch_Clear Cons.prems(1)] by auto
      then obtain s' where "batch_rep (WriteBatch_Append ?result b) s' (ops @ ops_of (Some b))" using Append_rep b by blast
      moreover have "?g = (if sz + length b > max_size then (result, last_writer)
          else batch_group_loop wr first max_size (sz + length b) (WriteBatch_Append ?result b) False w iter)"
        by (simp only: batch_group_loop.simps if_not_P [OF False] Some option.case Let_def)
      ultimately show ?thesis using stop more [OF refl] Some by (auto split: if_splits)
    qed
  qed
qed

lemma BuildBatchGroup_ok:
  assumes "wr_batch (wr first) = Some b" "\<forall>i\<in>set (first # ws). batch_ok (wr_batch (wr i))"
  shows "\<exists>j s. j \<le> length ws \<and> snd (BuildBatchGroup wr (first # ws)) = (first # ws) ! j \<and>
    batch_rep (fst (BuildBatchGroup wr (first # ws))) s (group_ops wr (take (Suc j) (first # ws)))"
proof -
  have "batch_ok (wr_batch (wr first))" using assms(2) by simp
  then obtain s where "batch_rep b s (ops_of (Some b))" using batch_okD unfolding assms(1) by blast
  moreover have "\<forall>i\<in>set ws. batch_ok (wr_batch (wr i))" using assms(2) by simp
  ultimately show ?thesis
    unfolding BuildBatchGroup_def Let_def
    using batch_group_loop_ok [of b s "ops_of (Some b)" ws wr] assms(1) by simp
qed

section \<open>Leaving the queue\<close>

lemma pop_writers_ok:
  assumes "j < length ws" "distinct ws"
  shows "pop_writers w (ws ! j) status m ws = ((\<lambda>x. if x \<in> set (take (Suc j) ws) \<and> x \<noteq> w
      then Some (CV_Signal ((the (m x))\<lparr>wr_status := status, wr_done := True\<rparr>)) else m x), drop (Suc j) ws)"
  using assms
proof (induction ws arbitrary: j m)
  case (Cons r ws)
  show ?case
  proof (cases j)
    case 0
    then show ?thesis by (auto simp: fun_eq_iff)
  next
    case (Suc j')
    have "r \<noteq> ws ! j'" "j' < length ws" "distinct ws" "r \<notin> set (take (Suc j') ws)"
      using Cons.prems Suc by (auto dest: in_set_takeD)
    then show ?thesis using Cons.IH [of j'] Suc by (auto simp: fun_eq_iff Let_def)
  qed
qed simp

lemma leave_ok:
  assumes "j < length ws" "distinct ws" "ws = ws_writers s" "ws_writer s w \<noteq> None" "w = hd ws"
  shows "ws_writers (leave s w (ws ! j) status) = drop (Suc j) ws" "ws_db (leave s w (ws ! j) status) = ws_db s"
    "ws_writer (leave s w (ws ! j) status) x =
      (if x = w then Some ((writer s w)\<lparr>wr_at := Returned status\<rparr>)
       else if x \<in> set (take (Suc j) ws) then Some (CV_Signal ((writer s x)\<lparr>wr_status := status, wr_done := True\<rparr>))
       else if drop (Suc j) ws \<noteq> [] \<and> x = hd (drop (Suc j) ws) then Some (CV_Signal (writer s x))
       else ws_writer s x)"
proof -
  note P = pop_writers_ok [OF assms(1,2), of w status "ws_writer s"]
  show "ws_writers (leave s w (ws ! j) status) = drop (Suc j) ws" "ws_db (leave s w (ws ! j) status) = ws_db s"
    using P by (simp_all add: leave_def assms(3) Let_def)
  have w: "w \<in> set (take (Suc j) ws)" using assms(1,5) by (cases ws) simp_all
  have out: "x \<notin> set (take (Suc j) ws)" if "x \<in> set (drop (Suc j) ws)" for x
    using assms(2) that by (metis append_take_drop_id distinct_append disjoint_iff)
  show "ws_writer (leave s w (ws ! j) status) x =
      (if x = w then Some ((writer s w)\<lparr>wr_at := Returned status\<rparr>)
       else if x \<in> set (take (Suc j) ws) then Some (CV_Signal ((writer s x)\<lparr>wr_status := status, wr_done := True\<rparr>))
       else if drop (Suc j) ws \<noteq> [] \<and> x = hd (drop (Suc j) ws) then Some (CV_Signal (writer s x))
       else ws_writer s x)"
  proof (cases "drop (Suc j) ws")
    case Nil
    then show ?thesis unfolding leave_def assms(3) [symmetric] P by simp
  next
    case (Cons f fs)
    then have "f \<notin> set (take (Suc j) ws)" using out by simp
    then show ?thesis using w unfolding leave_def assms(3) [symmetric] P Cons by auto
  qed
qed

section \<open>The invariant\<close>

definition rs_ops :: "request list \<Rightarrow> batch_op list" where
  "rs_ops rs = concat (map (\<lambda>(i, options, b). ops_of b) rs)"

definition gone_ok :: "DBWriter \<Rightarrow> bool" where
  "gone_ok w \<longleftrightarrow> wr_at w = Returned True \<or> wr_at w = At_check \<and> wr_done w \<and> wr_status w"

definition behind_ok :: "DBWriter \<Rightarrow> bool" where
  "behind_ok w \<longleftrightarrow> \<not> wr_done w \<and> (wr_at w = At_check \<or> wr_at w = Waiting)"

definition front_ok :: "(nat \<Rightarrow> DBWriter) \<Rightarrow> nat list \<Rightarrow> bool" where
  "front_ok wr ws \<longleftrightarrow> \<not> wr_done (wr (hd ws)) \<and>
     (case wr_at (wr (hd ws)) of
        At_check \<Rightarrow> True
      | Have_room status \<Rightarrow> status
      | Writing updates last_writer \<Rightarrow>
          \<exists>j s. j < length ws \<and> last_writer = ws ! j \<and> batch_rep updates s (group_ops wr (take (Suc j) ws))
      | _ \<Rightarrow> False)"

text \<open>The first \<open>k\<close> writers that arrived have been served, the others are in the queue.\<close>

definition queue_inv :: "request list \<Rightarrow> WriteState \<Rightarrow> nat \<Rightarrow> bool" where
  "queue_inv rs s k \<longleftrightarrow> k \<le> length rs \<and> distinct (map fst rs) \<and> dom (ws_writer s) = set (map fst rs) \<and>
     ws_writers s = map fst (drop k rs) \<and>
     (\<forall>(i, options, b)\<in>set rs. wr_batch (writer s i) = b \<and> wr_options (writer s i) = options) \<and>
     (\<forall>i\<in>set (map fst (take k rs)). gone_ok (writer s i)) \<and>
     (\<forall>i\<in>set (tl (ws_writers s)). behind_ok (writer s i)) \<and>
     (ws_writers s \<noteq> [] \<longrightarrow> front_ok (writer s) (ws_writers s))"

definition db_inv :: "DBImpl \<Rightarrow> nat \<Rightarrow> request list \<Rightarrow> DBImpl \<Rightarrow> nat \<Rightarrow> bool" where
  "db_inv db0 n rs db k \<longleftrightarrow> db_ok (n - length (rs_ops (take k rs))) db \<and>
     db_lookup db = apply_ops (rs_ops (take k rs)) (db_lookup db0)"

lemma group_ops_rs:
  assumes "\<forall>(i, options, b)\<in>set rs. wr_batch (wr i) = b \<and> wr_options (wr i) = options" "set xs \<subseteq> set rs"
  shows "group_ops wr (map fst xs) = rs_ops xs"
  using assms(2)
proof (induction xs)
  case (Cons x xs)
  obtain i options b where x: "x = (i, options, b)" by (cases x)
  then have "wr_batch (wr i) = b" using assms(1) Cons.prems by auto
  then show ?case using Cons x by (simp add: rs_ops_def)
qed (simp add: rs_ops_def)

lemma CV_Signal_sel [simp]:
  "wr_batch (CV_Signal w) = wr_batch w" "wr_options (CV_Signal w) = wr_options w" "wr_done (CV_Signal w) = wr_done w"
  "wr_status (CV_Signal w) = wr_status w"
  by (simp_all add: CV_Signal_def)

lemma signal_behind:
  assumes "behind_ok w"
  shows "wr_at (CV_Signal w) = At_check" "gone_ok (CV_Signal (w\<lparr>wr_status := True, wr_done := True\<rparr>))"
  using assms by (auto simp: behind_ok_def CV_Signal_def gone_ok_def)

lemma leave_inv:
  assumes I: "queue_inv rs s k" and j: "k + j < length rs"
  shows "queue_inv rs (leave s (hd (ws_writers s)) (ws_writers s ! j) True) (k + Suc j)"
proof -
  define ws where "ws = ws_writers s"
  define f where "f = hd ws"
  let ?s = "leave s f (ws ! j) True"
  have Q: "distinct (map fst rs)" "dom (ws_writer s) = set (map fst rs)" "ws = map fst (drop k rs)"
    "\<forall>(i, options, b)\<in>set rs. wr_batch (writer s i) = b \<and> wr_options (writer s i) = options"
    "\<forall>i\<in>set (map fst (take k rs)). gone_ok (writer s i)" "\<forall>i\<in>set (tl ws). behind_ok (writer s i)"
    using I by (simp_all add: queue_inv_def ws_def)
  have ws: "distinct ws" "j < length ws" "set ws \<subseteq> dom (ws_writer s)"
    using Q(1,2) j by (auto simp: Q(3) distinct_drop drop_map [symmetric] dest: in_set_dropD)
  obtain us where us: "ws = f # us" using ws(2) by (cases ws) (simp_all add: f_def)
  have dom: "ws_writer s f \<noteq> None" using ws(3) us by auto
  note L = leave_ok [OF ws(2,1) ws_def dom f_def, of True]
  have hd_us: "hd (drop j us) \<in> set us" if "j < length us" using that by (simp add: hd_drop_conv_nth)
  have early: "i \<notin> set ws" if "i \<in> set (map fst (take k rs))" for i
    using Q(1) that unfolding Q(3) by (metis append_take_drop_id map_append distinct_append disjoint_iff)
  have split: "set (take (Suc j) ws) \<inter> set (drop (Suc j) ws) = {}"
    using ws(1) by (metis append_take_drop_id distinct_append)
  have batch: "wr_batch (writer ?s i) = wr_batch (writer s i) \<and> wr_options (writer ?s i) = wr_options (writer s i)" for i
    by (simp add: L(3))
  have gone: "gone_ok (writer ?s i)" if i: "i \<in> set (map fst (take (k + Suc j) rs))" for i
  proof -
    have "take (k + Suc j) rs = take k rs @ take (Suc j) (drop k rs)" by (rule take_add)
    then consider "i \<in> set (map fst (take k rs))" | "i \<in> set (take (Suc j) ws)"
      using i unfolding Q(3) take_map by auto
    then show ?thesis
    proof cases
      case 1
      then have "i \<notin> set ws" by (rule early)
      then have "i \<noteq> f" "i \<notin> set (take (Suc j) ws)" "drop (Suc j) ws \<noteq> [] \<Longrightarrow> i \<noteq> hd (drop (Suc j) ws)"
        using us hd_us by (auto dest: in_set_takeD)
      then have "writer ?s i = writer s i" by (auto simp: L(3))
      then show ?thesis using Q(5) 1 by (simp only:)
    next
      case 2
      show ?thesis
      proof (cases "i = f")
        case False
        then have "writer ?s i = CV_Signal ((writer s i)\<lparr>wr_status := True, wr_done := True\<rparr>)" using 2 by (simp add: L(3))
        moreover have "i \<in> set us" using 2 us False by (auto dest: in_set_takeD)
        ultimately show ?thesis using signal_behind(2) Q(6) us by simp
      qed (simp add: L(3) gone_ok_def)
    qed
  qed
  have behind: "behind_ok (writer ?s i)" if i: "i \<in> set (tl (drop (Suc j) ws))" for i
  proof -
    have d: "i \<in> set (drop (Suc j) ws)" "i \<noteq> hd (drop (Suc j) ws)"
      using i distinct_drop [OF ws(1), of "Suc j"] by (cases "drop (Suc j) ws"; simp; fastforce)+
    then have "i \<notin> set (take (Suc j) ws)" using split by blast
    moreover have "i \<noteq> f" using calculation us by auto
    moreover have "behind_ok (writer s i)" using Q(6) us d(1) by (auto dest: in_set_dropD)
    ultimately show ?thesis using d(2) by (simp add: L(3))
  qed
  have front: "front_ok (writer ?s) (drop (Suc j) ws)" if ne: "drop (Suc j) ws \<noteq> []"
  proof -
    let ?h = "hd (drop (Suc j) ws)"
    have h: "?h \<in> set (drop (Suc j) ws)" using ne by (rule hd_in_set)
    then have t: "?h \<notin> set (take (Suc j) ws)" using split by blast
    then have "?h \<noteq> f" using us by auto
    moreover have "behind_ok (writer s ?h)" using Q(6) us h by (auto dest: in_set_dropD)
    ultimately show ?thesis using t ne signal_behind(1) by (simp add: front_ok_def L(3) behind_ok_def)
  qed
  have "dom (ws_writer ?s) = set (map fst rs)"
  proof -
    have "ws_writer ?s x = None \<longleftrightarrow> ws_writer s x = None" for x
    proof -
      have "x \<in> set ws" if "x = f \<or> x \<in> set (take (Suc j) ws) \<or> drop (Suc j) ws \<noteq> [] \<and> x = hd (drop (Suc j) ws)"
        using that us hd_us by (auto dest: in_set_takeD)
      moreover have "x \<in> set ws \<Longrightarrow> ws_writer s x \<noteq> None" using ws(3) by auto
      ultimately show ?thesis unfolding L(3) by auto
    qed
    then have "dom (ws_writer ?s) = dom (ws_writer s)" by (auto simp: dom_def)
    then show ?thesis using Q(2) by simp
  qed
  moreover have "drop (Suc j) ws = map fst (drop (k + Suc j) rs)" by (simp add: Q(3) drop_map add.commute)
  ultimately show ?thesis
    using j Q(1,4) gone behind front batch unfolding queue_inv_def f_def [symmetric] ws_def [symmetric] L(1)
    by (simp add: case_prod_beta)
qed

lemma arrive_inv:
  assumes I: "queue_inv rs s k" and new: "ws_writer s i = None"
  shows "queue_inv (rs @ [(i, options, b)]) (ws_arrive s i options b) k"
proof -
  have Q: "k \<le> length rs" "distinct (map fst rs)" "dom (ws_writer s) = set (map fst rs)" "ws_writers s = map fst (drop k rs)"
    "\<forall>(i, options, b)\<in>set rs. wr_batch (writer s i) = b \<and> wr_options (writer s i) = options"
    "\<forall>i\<in>set (map fst (take k rs)). gone_ok (writer s i)" "\<forall>i\<in>set (tl (ws_writers s)). behind_ok (writer s i)"
    using I by (simp_all add: queue_inv_def)
  let ?s = "ws_arrive s i options b"
  have i: "i \<notin> set (map fst rs)" using new Q(3) by blast
  have same: "writer ?s x = writer s x" if "x \<in> set (map fst rs)" for x using that i by (auto simp: ws_arrive_def)
  have old: "set (ws_writers s) \<subseteq> set (map fst rs)" "set (map fst (take k rs)) \<subseteq> set (map fst rs)"
    unfolding Q(4) by (auto dest: in_set_dropD in_set_takeD)
  then have here: "writer ?s x = writer s x" if "x \<in> set (ws_writers s)" for x using that same by blast
  have wi: "behind_ok (writer ?s i)" "wr_at (writer ?s i) = At_check" "\<not> wr_done (writer ?s i)"
    by (simp_all add: ws_arrive_def behind_ok_def)
  have q: "ws_writers ?s = ws_writers s @ [i]" by (simp add: ws_arrive_def)
  have "front_ok (writer ?s) (ws_writers s @ [i])"
  proof (cases "ws_writers s")
    case Nil
    then show ?thesis using wi by (simp add: front_ok_def)
  next
    case (Cons f us)
    then have f: "front_ok (writer s) (ws_writers s)" "writer ?s f = writer s f"
      using I same old(1) by (auto simp: queue_inv_def)
    have "group_ops (writer ?s) (take m (ws_writers s)) = group_ops (writer s) (take m (ws_writers s))" for m
      using here by (intro arg_cong [where f = concat] map_cong) (auto dest!: in_set_takeD)
    then have group: "group_ops (writer ?s) (take (Suc j) (ws_writers s @ [i])) = group_ops (writer s) (take (Suc j) (ws_writers s))"
      if "j < length (ws_writers s)" for j using that by simp
    have "\<exists>j sb. j < length (ws_writers s @ [i]) \<and> l = (ws_writers s @ [i]) ! j \<and>
        batch_rep u sb (group_ops (writer ?s) (take (Suc j) (ws_writers s @ [i])))"
      if "j < length (ws_writers s)" "l = ws_writers s ! j" "batch_rep u sb (group_ops (writer s) (take (Suc j) (ws_writers s)))"
      for u l j sb
      using that group [OF that(1)] by (intro exI [of _ j] exI [of _ sb]) (simp add: nth_append)
    note longer = this
    have h: "hd (ws_writers s @ [i]) = f" "hd (ws_writers s) = f" using Cons by simp_all
    show ?thesis
    proof (cases "wr_at (writer s f)")
      case (Writing u l)
      then obtain j sb where "j < length (ws_writers s)" "l = ws_writers s ! j"
        "batch_rep u sb (group_ops (writer s) (take (Suc j) (ws_writers s)))"
        using f(1) unfolding front_ok_def h(2) by auto
      note E = longer [OF this]
      show ?thesis
        using f E Writing unfolding front_ok_def h by (simp only: Place.case simp_thms)
    qed (use f h in \<open>simp_all add: front_ok_def\<close>)
  qed
  moreover have "behind_ok (writer ?s x)" if "x \<in> set (tl (ws_writers s @ [i]))" for x
  proof -
    have "x = i \<or> x \<in> set (tl (ws_writers s)) \<and> x \<in> set (ws_writers s)" using that by (cases "ws_writers s") auto
    then show ?thesis using wi(1) Q(7) here by auto
  qed
  moreover have "gone_ok (writer ?s x)" if "x \<in> set (map fst (take k rs))" for x
  proof -
    have "writer ?s x = writer s x" using that same old(2) by blast
    then show ?thesis using that Q(6) by (simp only:)
  qed
  moreover have "wr_batch (writer ?s x) = c \<and> wr_options (writer ?s x) = opt" if "(x, opt, c) \<in> set rs" for x opt c
    using that Q(5) same [of x] by force
  moreover have "wr_batch (writer ?s i) = b" "wr_options (writer ?s i) = options" by (simp_all add: ws_arrive_def)
  moreover have "dom (ws_writer ?s) = set (map fst (rs @ [(i, options, b)]))" using Q(3) by (simp add: ws_arrive_def)
  ultimately show ?thesis
    unfolding queue_inv_def q using Q(1,2,4) i by (auto simp: case_prod_beta)
qed

text \<open>A step that only moves one thread.\<close>

lemma at_place_sel [simp]:
  "ws_writers (at_place s i p) = ws_writers s" "ws_db (at_place s i p) = ws_db s"
  "writer (at_place s i p) x = (if x = i then (writer s i)\<lparr>wr_at := p\<rparr> else writer s x)"
  "dom (ws_writer (at_place s i p)) = insert i (dom (ws_writer s))"
  by (simp_all add: at_place_def)

lemma group_ops_place: "group_ops (writer (at_place s i p)) ws = group_ops (writer s) ws"
  by (intro arg_cong [where f = concat] map_cong) simp_all

lemma place_inv:
  assumes I: "queue_inv rs s k" and i: "i \<in> dom (ws_writer s)"
    and gone: "i \<in> set (map fst (take k rs)) \<Longrightarrow> gone_ok ((writer s i)\<lparr>wr_at := p\<rparr>)"
    and behind: "i \<in> set (tl (ws_writers s)) \<Longrightarrow> behind_ok ((writer s i)\<lparr>wr_at := p\<rparr>)"
    and front: "ws_writers s \<noteq> [] \<Longrightarrow> i = hd (ws_writers s) \<Longrightarrow> front_ok (writer (at_place s i p)) (ws_writers s)"
  shows "queue_inv rs (at_place s i p) k"
proof -
  have "front_ok (writer (at_place s i p)) (ws_writers s)" if "ws_writers s \<noteq> []" "i \<noteq> hd (ws_writers s)"
  proof -
    have "ws_writers s \<noteq> [] \<longrightarrow> front_ok (writer s) (ws_writers s)" using I unfolding queue_inv_def by blast
    then show ?thesis using that(1) unfolding front_ok_def group_ops_place using that(2) by simp
  qed
  moreover have "insert i (dom (ws_writer s)) = dom (ws_writer s)" using i by blast
  ultimately show ?thesis
    using I gone behind front unfolding queue_inv_def at_place_sel by (auto simp: case_prod_beta simp del: at_place_sel(3)) 
qed

section \<open>Every step keeps the invariant\<close>

lemma queue_inv_db [simp]: "queue_inv rs (s\<lparr>ws_db := db\<rparr>) k = queue_inv rs s k"
  by (simp add: queue_inv_def)

lemma rs_ops_append [simp]: "rs_ops (xs @ ys) = rs_ops xs @ rs_ops ys"
  by (simp add: rs_ops_def)

lemma rs_ops_take: "length (rs_ops (take m rs)) \<le> length (rs_ops rs)"
  by (metis append_take_drop_id length_append le_add1 rs_ops_append)

lemma apply_ops_append: "apply_ops (xs @ ys) m = apply_ops ys (apply_ops xs m)"
  by (simp add: apply_ops_def)

text \<open>The members of the group, as requests.\<close>

lemma group_requests:
  assumes "queue_inv rs s k"
  shows "group_ops (writer s) (take m (ws_writers s)) = rs_ops (take m (drop k rs))"
    "rs_ops (take (k + m) rs) = rs_ops (take k rs) @ group_ops (writer s) (take m (ws_writers s))"
proof -
  have Q: "\<forall>(i, options, b)\<in>set rs. wr_batch (writer s i) = b \<and> wr_options (writer s i) = options"
    "ws_writers s = map fst (drop k rs)" using assms by (simp_all add: queue_inv_def)
  show g: "group_ops (writer s) (take m (ws_writers s)) = rs_ops (take m (drop k rs))"
    unfolding Q(2) take_map by (rule group_ops_rs [OF Q(1)]) (auto dest!: in_set_takeD in_set_dropD)
  show "rs_ops (take (k + m) rs) = rs_ops (take k rs) @ group_ops (writer s) (take m (ws_writers s))"
    unfolding g by (simp add: take_add)
qed

definition served :: "DBImpl \<Rightarrow> nat \<Rightarrow> request list \<Rightarrow> WriteState \<Rightarrow> bool" where
  "served db0 n rs s \<longleftrightarrow> (\<exists>k. queue_inv rs s k \<and> db_inv db0 n rs (ws_db s) k)"

lemma front_apart:
  assumes "queue_inv rs s k" "ws_writers s = f # us"
  shows "f \<in> dom (ws_writer s)" "f \<notin> set (map fst (take k rs))" "f \<notin> set us" "\<not> wr_done (writer s f)"
    "front_ok (writer s) (f # us)" "k + length us < length rs"
proof -
  have Q: "map fst (drop k rs) = f # us" "distinct (map fst rs)" "dom (ws_writer s) = set (map fst rs)"
    using assms by (simp_all add: queue_inv_def)
  have "map fst rs = map fst (take k rs) @ f # us" unfolding Q(1) [symmetric] by (simp flip: map_append)
  then show "f \<in> dom (ws_writer s)" "f \<notin> set (map fst (take k rs))" "f \<notin> set us" using Q(2,3) by auto
  have "ws_writers s \<noteq> [] \<longrightarrow> front_ok (writer s) (ws_writers s)" using assms(1) unfolding queue_inv_def by blast
  then show "front_ok (writer s) (f # us)" using assms(2) by simp
  then show "\<not> wr_done (writer s f)" by (simp add: front_ok_def)
  show "k + length us < length rs" using arg_cong [OF Q(1), of length] by simp
qed

lemma front_place:
  assumes "queue_inv rs s k" "ws_writers s = f # us" "front_ok (writer (at_place s f p)) (f # us)"
  shows "queue_inv rs (at_place s f p) k"
proof (rule place_inv [OF assms(1) front_apart(1) [OF assms(1,2)]])
  show "gone_ok ((writer s f)\<lparr>wr_at := p\<rparr>)" if "f \<in> set (map fst (take k rs))"
    using that front_apart(2) [OF assms(1,2)] by blast
  show "behind_ok ((writer s f)\<lparr>wr_at := p\<rparr>)" if "f \<in> set (tl (ws_writers s))"
    using that front_apart(3) [OF assms(1,2)] assms(2) by simp
  show "front_ok (writer (at_place s f p)) (ws_writers s)" unfolding assms(2) by (rule assms(3))
qed

lemma leave_served:
  assumes I: "queue_inv rs s k" "db_inv db0 n rs (ws_db s) k" and f: "ws_writers s = f # us" "j \<le> length us"
    and db: "db_ok (n - length (rs_ops (take (k + Suc j) rs))) db"
      "db_lookup db = apply_ops (group_ops (writer s) (take (Suc j) (f # us))) (db_lookup (ws_db s))"
  shows "served db0 n rs (leave (s\<lparr>ws_db := db\<rparr>) f ((f # us) ! j) True)"
proof -
  let ?s = "s\<lparr>ws_db := db\<rparr>"
  have i: "queue_inv rs ?s k" using I(1) by simp
  have "k + j < length rs" using front_apart(6) [OF I(1) f(1)] f(2) by simp
  from leave_inv [OF i this] have "queue_inv rs (leave ?s f ((f # us) ! j) True) (k + Suc j)" by (simp add: f(1))
  moreover have "ws_db (leave ?s f ((f # us) ! j) True) = db" by (simp add: leave_def Let_def split: prod.split)
  moreover have "rs_ops (take (k + Suc j) rs) = rs_ops (take k rs) @ group_ops (writer s) (take (Suc j) (f # us))"
    using group_requests(2) [OF I(1), of "Suc j"] unfolding f(1) .
  ultimately show ?thesis
    using I(2) db unfolding served_def db_inv_def by (intro exI [of _ "k + Suc j"]) (simp add: apply_ops_append)
qed

lemma front_step:
  assumes I: "queue_inv rs s k" "db_inv db0 n rs (ws_db s) k"
    and ok: "\<forall>(i, options, b)\<in>set rs. batch_ok b" "length (rs_ops rs) < 2 ^ 31" "length (rs_ops rs) \<le> n"
    and f: "ws_writers s = f # us" "thread_step s f = Some s'"
  shows "served db0 n rs s'"
proof -
  note F = front_apart [OF I(1) f(1)]
  obtain w where w: "ws_writer s f = Some w" using F(1) by blast
  have batches: "\<forall>i\<in>set (f # us). batch_ok (wr_batch (writer s i))"
    using I(1) ok(1) unfolding f(1) [symmetric] by (fastforce simp: queue_inv_def dest!: in_set_dropD)
  have total: "length (rs_ops (take m rs)) \<le> n" for m using rs_ops_take [of m rs] ok(3) by (rule le_trans)
  show ?thesis
  proof (cases "wr_at w")
    case At_check
    obtain db where db: "MakeRoomForWrite (ws_db s) (wr_batch w = None) = (db, True)" "db_inv db0 n rs db k"
      using room_ok [of "n - length (rs_ops (take k rs))" "ws_db s"] I(2) unfolding db_inv_def by metis
    have "s' = at_place (s\<lparr>ws_db := db\<rparr>) f (Have_room True)"
      using f w At_check F(4) db(1) by (simp add: thread_step_def)
    moreover have "queue_inv rs (at_place (s\<lparr>ws_db := db\<rparr>) f (Have_room True)) k"
      using I(1) f(1) F(4) by (intro front_place) (simp_all add: front_ok_def)
    ultimately show ?thesis using db(2) unfolding served_def by (metis at_place_sel(2) WriteState.select_convs(1) WriteState.surjective WriteState.update_convs(1))
  next
    case (Have_room status)
    then have st: "status" using F(5) w by (simp add: front_ok_def)
    show ?thesis
    proof (cases "wr_batch w")
      case None
      then have "s' = leave (s\<lparr>ws_db := ws_db s\<rparr>) f ((f # us) ! 0) True" using f w Have_room st by (simp add: thread_step_def)
      moreover have "group_ops (writer s) (take (Suc 0) (f # us)) = []" using None w by (simp add: ops_of_def)
      ultimately show ?thesis
        using leave_served [OF I f(1), of 0 "ws_db s"] I(2) group_requests(2) [OF I(1), of "Suc 0"]
        unfolding db_inv_def f(1) by (simp add: apply_ops_def)
    next
      case (Some b)
      obtain j sb where G: "j \<le> length us" "snd (BuildBatchGroup (writer s) (f # us)) = (f # us) ! j"
        "batch_rep (fst (BuildBatchGroup (writer s) (f # us))) sb (group_ops (writer s) (take (Suc j) (f # us)))"
        using BuildBatchGroup_ok [of "writer s" f b us] Some w batches by auto
      let ?p = "Writing (fst (BuildBatchGroup (writer s) (f # us))) ((f # us) ! j)"
      have "s' = at_place s f ?p" using f w Have_room st Some G(2) by (simp add: thread_step_def case_prod_beta)
      moreover have "queue_inv rs (at_place s f ?p) k"
      proof (rule front_place [OF I(1) f(1)])
        show "front_ok (writer (at_place s f ?p)) (f # us)"
          unfolding front_ok_def group_ops_place using F(4) G(1,3) by (simp del: take_Suc_Cons nth_Cons_Suc) (auto simp: less_Suc_eq_le)
      qed
      ultimately show ?thesis using I(2) unfolding served_def by auto
    qed
  next
    case (Writing updates last_writer)
    obtain j sb where G: "j < length (f # us)" "last_writer = (f # us) ! j"
      "batch_rep updates sb (group_ops (writer s) (take (Suc j) (f # us)))"
      using F(5) w Writing unfolding front_ok_def by auto
    let ?ops = "group_ops (writer s) (take (Suc j) (f # us))"
    have all: "rs_ops (take (k + Suc j) rs) = rs_ops (take k rs) @ ?ops"
      using group_requests(2) [OF I(1), of "Suc j"] unfolding f(1) .
    then have len: "length ?ops < 2 ^ 31" "n - length (rs_ops (take (k + Suc j) rs)) + length ?ops = n - length (rs_ops (take k rs))"
      using total [of "k + Suc j"] rs_ops_take [of "k + Suc j" rs] ok(2) by simp_all
    obtain db where db: "commit_group (ws_db s) (wr_options w) updates = (db, True)"
      "db_ok (n - length (rs_ops (take (k + Suc j) rs))) db" "db_lookup db = apply_ops ?ops (db_lookup (ws_db s))"
      using commit_ok [OF _ G(3) len(1), of "n - length (rs_ops (take (k + Suc j) rs))" "ws_db s"] I(2)
      unfolding len(2) db_inv_def by blast
    have "s' = leave (s\<lparr>ws_db := db\<rparr>) f ((f # us) ! j) True" using f w Writing db(1) G(2) by (simp add: thread_step_def)
    then show ?thesis using leave_served [OF I f(1) _ db(2,3)] G(1) by simp
  qed (use F(5) w in \<open>simp_all add: front_ok_def\<close>)
qed

lemma step_served:
  assumes S: "served db0 n rs s" and ok: "\<forall>(i, options, b)\<in>set rs. batch_ok b" "length (rs_ops rs) < 2 ^ 31" "length (rs_ops rs) \<le> n"
    and st: "ws_step s s'"
  shows "served db0 n rs s'"
proof -
  obtain k where I: "queue_inv rs s k" "db_inv db0 n rs (ws_db s) k" using S by (auto simp: served_def)
  obtain i where i: "thread_step s i = Some s'" using st by (cases rule: ws_step.cases)
  then obtain w where w: "ws_writer s i = Some w" by (auto simp: thread_step_def split: option.splits)
  have Q: "map fst rs = map fst (take k rs) @ ws_writers s" "dom (ws_writer s) = set (map fst rs)" "distinct (map fst rs)"
    "\<forall>i\<in>set (map fst (take k rs)). gone_ok (writer s i)" "\<forall>i\<in>set (tl (ws_writers s)). behind_ok (writer s i)"
    using I(1) by (simp_all add: queue_inv_def flip: map_append)
  have "i \<in> set (map fst rs)" using w Q(2) by blast
  then consider (gone) "i \<in> set (map fst (take k rs))" | (front) us where "ws_writers s = i # us"
    | (behind) f us where "ws_writers s = f # us" "i \<in> set us"
    using Q(1) by (cases "ws_writers s") auto
  then show ?thesis
  proof cases
    case gone
    then have g: "gone_ok w" "i \<notin> set (ws_writers s)" using Q(1,3,4) w by auto
    have t: "i \<notin> set (tl (ws_writers s))" using g(2) by (cases "ws_writers s") simp_all
    have s': "s' = at_place s i (Returned True)" using g(1) i w by (auto simp: thread_step_def gone_ok_def)
    have "queue_inv rs s' k"
      unfolding s' by (rule place_inv [OF I(1)]) (use w g(2) t in \<open>auto simp: gone_ok_def\<close>)
    then show ?thesis using I(2) s' unfolding served_def by auto
  next
    case front
    then show ?thesis using front_step [OF I ok _ i] by blast
  next
    case behind
    then have b: "behind_ok w" "i \<notin> set (map fst (take k rs))" "i \<noteq> f" using Q(1,3,5) w by auto
    then have s': "s' = at_place s i Waiting" using i w behind by (auto simp: thread_step_def behind_ok_def)
    have "queue_inv rs s' k"
      unfolding s' by (rule place_inv [OF I(1)]) (use w b behind in \<open>auto simp: behind_ok_def\<close>)
    then show ?thesis using I(2) s' unfolding served_def by auto
  qed
qed

lemma run_served:
  assumes "ws_run db0 rs s" "db_ok n db0" "\<forall>(i, options, b)\<in>set rs. batch_ok b" "length (rs_ops rs) < 2 ^ 31" "length (rs_ops rs) \<le> n"
  shows "served db0 n rs s"
  using assms
proof (induction rule: ws_run.induct)
  case start
  then show ?case
    unfolding served_def by (intro exI [of _ 0]) (simp add: queue_inv_def db_inv_def ws_new_def rs_ops_def apply_ops_def)
next
  case (arrive rs s i options b)
  have "served db0 n rs s" using arrive by simp
  then obtain k where I: "queue_inv rs s k" "db_inv db0 n rs (ws_db s) k" by (auto simp: served_def)
  have "k \<le> length rs" using I(1) by (simp add: queue_inv_def)
  then have "db_inv db0 n (rs @ [(i, options, b)]) (ws_db s) k" using I(2) by (simp add: db_inv_def)
  then show ?case
    using arrive_inv [OF I(1) arrive.hyps(2)] unfolding served_def by (intro exI [of _ k]) (simp add: ws_arrive_def)
next
  case (step rs s s')
  then show ?case using step_served by blast
qed

section \<open>No writer is stuck\<close>

lemma not_stuck:
  assumes S: "served db0 n rs s" and stuck: "\<nexists>s'. ws_step s s'"
  shows "ws_writers s = []" "\<forall>i\<in>dom (ws_writer s). wr_at (writer s i) = Returned True"
    "db_lookup (ws_db s) = apply_ops (rs_ops rs) (db_lookup db0)"
proof -
  obtain k where I: "queue_inv rs s k" "db_inv db0 n rs (ws_db s) k" using S by (auto simp: served_def)
  have none: "thread_step s i = None" for i using stuck ws_step.intros by (cases "thread_step s i") auto
  show e: "ws_writers s = []"
  proof (rule ccontr)
    assume "ws_writers s \<noteq> []"
    then obtain f us where f: "ws_writers s = f # us" by (cases "ws_writers s") auto
    note F = front_apart [OF I(1) f]
    obtain w where w: "ws_writer s f = Some w" using F(1) by blast
    have "thread_step s f \<noteq> None"
      using F(5) w by (auto simp: thread_step_def front_ok_def split: Place.splits prod.splits)
    then show False by (simp add: none)
  qed
  have k: "k = length rs" using I(1) e by (simp add: queue_inv_def)
  show "\<forall>i\<in>dom (ws_writer s). wr_at (writer s i) = Returned True"
  proof
    fix i assume i: "i \<in> dom (ws_writer s)"
    then obtain w where w: "ws_writer s i = Some w" by blast
    have "gone_ok (writer s i)" using I(1) i k by (auto simp: queue_inv_def)
    then show "wr_at (writer s i) = Returned True" using none [of i] w by (auto simp: gone_ok_def thread_step_def)
  qed
  show "db_lookup (ws_db s) = apply_ops (rs_ops rs) (db_lookup db0)" using I(2) k by (simp add: db_inv_def)
qed

text \<open>How far a writer is from returning.\<close>

definition to_go :: "WriteState \<Rightarrow> nat \<Rightarrow> nat" where
  "to_go s i =
     (case wr_at (writer s i) of
        At_check \<Rightarrow> if wr_done (writer s i) then 1 else if ws_writers s \<noteq> [] \<and> hd (ws_writers s) = i then 3 else 5
      | Waiting \<Rightarrow> 4
      | Have_room status \<Rightarrow> 2
      | Writing updates last_writer \<Rightarrow> 1
      | Returned status \<Rightarrow> 0)"

definition ws_measure :: "WriteState \<Rightarrow> nat" where
  "ws_measure s = (\<Sum>i\<in>dom (ws_writer s). to_go s i)"

lemma measure_decreases:
  assumes "finite (dom (ws_writer s))" "dom (ws_writer s') = dom (ws_writer s)" "f \<in> dom (ws_writer s)"
    and "to_go s' f < to_go s f" "\<And>i. i \<in> dom (ws_writer s) \<Longrightarrow> i \<noteq> f \<Longrightarrow> to_go s' i \<le> to_go s i"
  shows "ws_measure s' < ws_measure s"
  unfolding ws_measure_def assms(2) by (rule sum_strict_mono_ex1) (use assms in fastforce)+

lemma to_go_place: "i \<noteq> f \<Longrightarrow> to_go (at_place s f p) i = to_go s i"
  by (simp add: to_go_def)

lemma to_go_leave:
  fixes status :: bool
  assumes I: "queue_inv rs s k" and f: "ws_writers s = f # us" "j \<le> length us"
  defines "s' \<equiv> leave s f ((f # us) ! j) status"
  shows "to_go s' f = 0" "i \<in> dom (ws_writer s) \<Longrightarrow> i \<noteq> f \<Longrightarrow> to_go s' i \<le> to_go s i"
proof -
  note F = front_apart [OF I f(1)]
  have Q: "distinct (f # us)" "\<forall>i\<in>set us. behind_ok (writer s i)" "dom (ws_writer s) = set (map fst rs)"
    using I f(1) distinct_drop [of "map fst rs" k] by (auto simp: queue_inv_def drop_map)
  have j: "j < length (f # us)" using f(2) by simp
  note L = leave_ok [OF j Q(1) f(1) [symmetric] _ _, of f status, folded s'_def]
  have L3: "ws_writer s' x =
      (if x = f then Some ((writer s f)\<lparr>wr_at := Returned status\<rparr>)
       else if x \<in> set (take (Suc j) (f # us)) then Some (CV_Signal ((writer s x)\<lparr>wr_status := status, wr_done := True\<rparr>))
       else if drop (Suc j) (f # us) \<noteq> [] \<and> x = hd (drop (Suc j) (f # us)) then Some (CV_Signal (writer s x))
       else ws_writer s x)" for x
    using F(1) by (intro L(3)) auto
  have L1: "ws_writers s' = drop j us" using F(1) L(1) by auto
  show "to_go s' f = 0" by (simp add: to_go_def L3)
  show "to_go s' i \<le> to_go s i" if "i \<in> dom (ws_writer s)" "i \<noteq> f"
  proof -
    consider (taken) "i \<in> set (take (Suc j) (f # us))" | (head) "i \<notin> set (take (Suc j) (f # us))" "drop j us \<noteq> []" "i = hd (drop j us)"
      | (other) "i \<notin> set (take (Suc j) (f # us))" "\<not> (drop j us \<noteq> [] \<and> i = hd (drop j us))" by blast
    then show ?thesis
    proof cases
      case taken
      then have "behind_ok (writer s i)" using Q(2) that(2) by (auto dest: in_set_takeD)
      then show ?thesis using taken that(2)
        by (auto simp: to_go_def L3 behind_ok_def f(1) CV_Signal_def)
    next
      case head
      then have "i \<in> set us" using hd_in_set in_set_dropD by metis
      then have "behind_ok (writer s i)" using Q(2) by blast
      then show ?thesis using head that(2) signal_behind(1) [of "writer s i"]
        by (auto simp: to_go_def L3 L1 behind_ok_def f(1))
    next
      case other
      have "writer s' i = writer s i" unfolding L3 using other that(2) by (auto simp del: drop_eq_Nil)
      then show ?thesis using other(2) that(2) by (auto simp: to_go_def L1 f(1) split: Place.split)
    qed
  qed
qed

lemma to_go_db [simp]: "to_go (s\<lparr>ws_db := db\<rparr>) i = to_go s i"
  by (simp add: to_go_def)

lemma front_to_go:
  assumes I: "queue_inv rs s k" and f: "ws_writers s = f # us" and st: "thread_step s f = Some s'"
  shows "to_go s' f < to_go s f \<and> (\<forall>i\<in>dom (ws_writer s). i \<noteq> f \<longrightarrow> to_go s' i \<le> to_go s i)"
proof -
  note F = front_apart [OF I f]
  obtain w where w: "ws_writer s f = Some w" using F(1) by blast
  have leaves: ?thesis if "s' = leave (s\<lparr>ws_db := db\<rparr>) f ((f # us) ! j) status" "j \<le> length us" "0 < to_go s f" for db j status
  proof -
    have I': "queue_inv rs (s\<lparr>ws_db := db\<rparr>) k" "ws_writers (s\<lparr>ws_db := db\<rparr>) = f # us" using I f by simp_all
    show ?thesis using to_go_leave [OF I' that(2), where status = status] that(1,3) by simp
  qed
  have moves: ?thesis if "s' = at_place (s\<lparr>ws_db := db\<rparr>) f p" "to_go s' f < to_go s f" for db p
    using that by (simp add: to_go_place)
  show ?thesis
  proof (cases "wr_at w")
    case At_check
    then obtain db status where "s' = at_place (s\<lparr>ws_db := db\<rparr>) f (Have_room status)"
      using st w f F(4) by (auto simp: thread_step_def split: prod.splits)
    then show ?thesis using At_check w f F(4) by (intro moves) (simp_all add: to_go_def)
  next
    case (Have_room status)
    show ?thesis
    proof (cases "status \<and> wr_batch w \<noteq> None")
      case True
      then obtain u l where s': "s' = at_place (s\<lparr>ws_db := ws_db s\<rparr>) f (Writing u l)"
        using st w f Have_room by (auto simp: thread_step_def split: prod.splits)
      then show ?thesis using Have_room w s' by (intro moves [OF s']) (simp_all add: to_go_def)
    next
      case False
      then have s': "s' = leave (s\<lparr>ws_db := ws_db s\<rparr>) f ((f # us) ! 0) status"
        using st w f Have_room by (auto simp: thread_step_def)
      then show ?thesis using Have_room w by (intro leaves [OF s']) (simp_all add: to_go_def)
    qed
  next
    case (Writing u l)
    then obtain j where "j < length (f # us)" "l = (f # us) ! j"
      using F(5) w unfolding front_ok_def by auto
    then have j: "j \<le> length us" "l = (f # us) ! j" by simp_all
    obtain db status where "s' = leave (s\<lparr>ws_db := db\<rparr>) f l status"
      using st w Writing by (auto simp: thread_step_def split: prod.splits)
    then show ?thesis using leaves [of db j status] j Writing w by (simp add: to_go_def)
  qed (use st w in \<open>simp_all add: thread_step_def\<close>)
qed

lemma step_measure:
  assumes S: "served db0 n rs s" and st: "ws_step s s'" and S': "served db0 n rs s'"
  shows "ws_measure s' < ws_measure s"
proof -
  obtain k where I: "queue_inv rs s k" using S by (auto simp: served_def)
  obtain k' where I': "queue_inv rs s' k'" using S' by (auto simp: served_def)
  have dom: "finite (dom (ws_writer s))" "dom (ws_writer s') = dom (ws_writer s)"
    using I I' by (simp_all add: queue_inv_def)
  obtain i where i: "thread_step s i = Some s'" using st by (cases rule: ws_step.cases)
  then obtain w where w: "ws_writer s i = Some w" by (auto simp: thread_step_def split: option.splits)
  have Q: "map fst rs = map fst (take k rs) @ ws_writers s" "dom (ws_writer s) = set (map fst rs)" "distinct (map fst rs)"
    "\<forall>i\<in>set (map fst (take k rs)). gone_ok (writer s i)" "\<forall>i\<in>set (tl (ws_writers s)). behind_ok (writer s i)"
    using I by (simp_all add: queue_inv_def flip: map_append)
  have m: ?thesis if "to_go s' i < to_go s i" "\<forall>x\<in>dom (ws_writer s). x \<noteq> i \<longrightarrow> to_go s' x \<le> to_go s x"
    using measure_decreases [OF dom _ that(1)] w that(2) by blast
  have "i \<in> set (map fst rs)" using w Q(2) by blast
  then consider (gone) "i \<in> set (map fst (take k rs))" | (front) us where "ws_writers s = i # us"
    | (behind) f us where "ws_writers s = f # us" "i \<in> set us"
    using Q(1) by (cases "ws_writers s") auto
  then show ?thesis
  proof cases
    case gone
    then have "gone_ok w" using Q(4) w by auto
    then have "s' = at_place s i (Returned True)" "to_go s i = 1"
      using i w by (auto simp: thread_step_def gone_ok_def to_go_def)
    then show ?thesis by (intro m) (simp_all add: to_go_place, simp add: to_go_def)
  next
    case front
    then show ?thesis using front_to_go [OF I _ i] m by blast
  next
    case behind
    then have b: "behind_ok w" "i \<noteq> f" using Q(1,3,5) w by auto
    then have "s' = at_place s i Waiting" "to_go s i = 5"
      using i w behind by (auto simp: thread_step_def behind_ok_def to_go_def)
    then show ?thesis by (intro m) (simp_all add: to_go_place, simp add: to_go_def)
  qed
qed

lemma steps_bounded:
  assumes "served db0 n rs s" "\<forall>(i, options, b)\<in>set rs. batch_ok b" "length (rs_ops rs) < 2 ^ 31" "length (rs_ops rs) \<le> n"
    and "(ws_step ^^ m) s s'"
  shows "served db0 n rs s' \<and> m + ws_measure s' \<le> ws_measure s"
  using assms(5)
proof (induction m arbitrary: s')
  case 0
  then show ?case using assms(1) by simp
next
  case (Suc m)
  then obtain t where t: "(ws_step ^^ m) s t" "ws_step t s'" by auto
  then have "served db0 n rs t" "m + ws_measure t \<le> ws_measure s" using Suc.IH by blast+
  moreover have "served db0 n rs s'" using step_served [OF calculation(1) assms(2,3,4) t(2)] .
  moreover have "ws_measure s' < ws_measure t" using step_measure [OF calculation(1) t(2) calculation(3)] .
  ultimately show ?case by simp
qed

lemma measure_le:
  assumes "served db0 n rs s"
  shows "ws_measure s \<le> 5 * length rs"
proof -
  obtain k where "queue_inv rs s k" using assms by (auto simp: served_def)
  then have "card (dom (ws_writer s)) \<le> length rs"
    by (metis (no_types, lifting) card_length length_map queue_inv_def)
  moreover have "ws_measure s \<le> card (dom (ws_writer s)) * 5"
    unfolding ws_measure_def
    by (rule order_trans [OF sum_bounded_above [of _ _ 5]]) (simp_all add: to_go_def split: Place.split)
  ultimately show ?thesis by simp
qed

text \<open>What a writer that has returned may rely on.\<close>

lemma returned_written:
  assumes "served db0 n rs s"
  shows "\<exists>m. db_lookup (ws_db s) = apply_ops (rs_ops (take m rs)) (db_lookup db0) \<and>
    (\<forall>i status. i \<in> dom (ws_writer s) \<and> wr_at (writer s i) = Returned status \<longrightarrow> status \<and> i \<in> set (map fst (take m rs)))"
proof -
  obtain k where I: "queue_inv rs s k" "db_inv db0 n rs (ws_db s) k" using assms by (auto simp: served_def)
  have Q: "map fst rs = map fst (take k rs) @ ws_writers s" "dom (ws_writer s) = set (map fst rs)"
    "\<forall>i\<in>set (map fst (take k rs)). gone_ok (writer s i)" "\<forall>i\<in>set (tl (ws_writers s)). behind_ok (writer s i)"
    using I(1) by (simp_all add: queue_inv_def flip: map_append)
  have "status \<and> i \<in> set (map fst (take k rs))" if i: "i \<in> dom (ws_writer s)" "wr_at (writer s i) = Returned status" for i status
  proof (cases "i \<in> set (map fst (take k rs))")
    case True
    then show ?thesis using Q(3) i(2) by (auto simp: gone_ok_def)
  next
    case False
    then obtain f us where f: "ws_writers s = f # us" "i = f \<or> i \<in> set us"
      using i(1) Q(1,2) by (cases "ws_writers s") auto
    then show ?thesis
      using front_apart(5) [OF I(1) f(1)] Q(4) i(2) by (auto simp: front_ok_def behind_ok_def)
  qed
  then show ?thesis using I(2) unfolding db_inv_def by blast
qed

definition two_writes :: "request list" where
  "two_writes = [(0, \<lparr>wo_sync = False, wo_writeahead = True\<rparr>, Some (WriteBatch_Put WriteBatch_Clear [1] [2])),
     (1, \<lparr>wo_sync = False, wo_writeahead = True\<rparr>, Some (WriteBatch_Delete WriteBatch_Clear [1]))]"

lemma two_writes_ok:
  "\<forall>(i, options, b)\<in>set two_writes. batch_ok b" "rs_ops two_writes = [Batch_Put [1] [2], Batch_Delete [1]]"
proof -
  have P: "batch_rep (WriteBatch_Put WriteBatch_Clear [1] [2]) 0 [Batch_Put [1] [2]]"
    using Put_rep [OF batch_Clear, of "[1]" "[2]"] by simp
  have D: "batch_rep (WriteBatch_Delete WriteBatch_Clear [1]) 0 [Batch_Delete [1]]"
    using Delete_rep [OF batch_Clear, of "[1]"] by simp
  have "batch_ok (Some (WriteBatch_Put WriteBatch_Clear [1] [2]))" "batch_ok (Some (WriteBatch_Delete WriteBatch_Clear [1]))"
    using P D unfolding batch_ok_def by fastforce+
  then show "\<forall>(i, options, b)\<in>set two_writes. batch_ok b" by (simp add: two_writes_def)
  show "rs_ops two_writes = [Batch_Put [1] [2], Batch_Delete [1]]"
    using Iterate_rep [OF P] Iterate_rep [OF D] by (simp add: two_writes_def rs_ops_def ops_of_def)
qed

lemma two_writes_run: "\<exists>s. ws_run DBImpl_new two_writes s"
proof -
  let ?s = "ws_new DBImpl_new"
  have "ws_run DBImpl_new [] ?s" by (rule ws_run.start)
  then have one: "ws_run DBImpl_new ([] @ [(0, options, b)]) (ws_arrive ?s 0 options b)" for options b
    by (rule ws_run.arrive) (simp add: ws_new_def)
  have "ws_run DBImpl_new (([] @ [(0, options, b)]) @ [(1, options', b')]) (ws_arrive (ws_arrive ?s 0 options b) 1 options' b')"
    for options b options' b' by (rule ws_run.arrive [OF one]) (simp add: ws_new_def ws_arrive_def)
  then show ?thesis unfolding two_writes_def append_Cons append_Nil by blast
qed

section \<open>The properties of the queue\<close>

text \<open>C19: group commit is atomic and in order. In every state threads calling \<^verbatim>\<open>DBImpl::Write\<close> can
  reach, the database answers lookups as after the batches of the first \<open>m\<close> of them in the order they joined
  the queue, and every call that has returned is among these and returned OK.\<close>

lemma group_commit:
  assumes "ws_run db0 rs s" "db_ok (length (rs_ops rs)) db0" "\<forall>(i, options, b)\<in>set rs. batch_ok b" "length (rs_ops rs) < 2 ^ 31"
  shows "\<exists>m. db_lookup (ws_db s) = apply_ops (rs_ops (take m rs)) (db_lookup db0) \<and>
    (\<forall>i status. i \<in> dom (ws_writer s) \<and> wr_at (writer s i) = Returned status \<longrightarrow> status \<and> i \<in> set (map fst (take m rs)))"
  using returned_written [OF run_served [OF assms le_refl]] .

lemma group_commit_witness:
  "\<exists>s m. ws_run DBImpl_new two_writes s \<and>
    db_lookup (ws_db s) = apply_ops (rs_ops (take m two_writes)) Map.empty"
proof -
  obtain s where s: "ws_run DBImpl_new two_writes s" using two_writes_run by blast
  have "db_ok (length (rs_ops two_writes)) DBImpl_new" by (rule DBImpl_new_ok(1)) (simp add: two_writes_ok(2))
  from group_commit [OF s this two_writes_ok(1)] show ?thesis using s by (auto simp: two_writes_ok(2) DBImpl_new_ok(2))
qed

text \<open>C18: no writer waits for ever. From every state the threads can reach, they take at most five steps
  per call before none can move; then the queue is empty, every call has returned OK and
  the database holds all their batches, in the order they joined.\<close>

lemma writers_return:
  assumes "ws_run db0 rs s" "db_ok (length (rs_ops rs)) db0" "\<forall>(i, options, b)\<in>set rs. batch_ok b" "length (rs_ops rs) < 2 ^ 31"
  shows "(\<forall>m s'. (ws_step ^^ m) s s' \<longrightarrow> m \<le> 5 * length rs) \<and>
    (\<forall>s'. rtranclp ws_step s s' \<and> (\<nexists>t. ws_step s' t) \<longrightarrow>
       ws_writers s' = [] \<and> (\<forall>i\<in>dom (ws_writer s'). wr_at (writer s' i) = Returned True) \<and>
       db_lookup (ws_db s') = apply_ops (rs_ops rs) (db_lookup db0))"
proof -
  have S: "served db0 (length (rs_ops rs)) rs s" using run_served [OF assms le_refl] .
  note B = steps_bounded [OF S assms(3,4) le_refl]
  have "m \<le> 5 * length rs" if "(ws_step ^^ m) s s'" for m s' using B [OF that] measure_le [OF S] by simp
  moreover have "served db0 (length (rs_ops rs)) rs s'" if "rtranclp ws_step s s'" for s'
    using B that by (auto simp: rtranclp_power)
  ultimately show ?thesis using not_stuck by blast
qed

lemma writers_return_witness:
  "\<exists>s. ws_run DBImpl_new two_writes s \<and> (\<forall>m s'. (ws_step ^^ m) s s' \<longrightarrow> m \<le> 10) \<and>
    (\<forall>s'. rtranclp ws_step s s' \<and> (\<nexists>t. ws_step s' t) \<longrightarrow> db_lookup (ws_db s') [1] = None)"
proof -
  obtain s where s: "ws_run DBImpl_new two_writes s" using two_writes_run by blast
  have "db_ok (length (rs_ops two_writes)) DBImpl_new" by (rule DBImpl_new_ok(1)) (simp add: two_writes_ok(2))
  note R = writers_return [OF s this two_writes_ok(1)]
  have "5 * length two_writes = 10" by (simp add: two_writes_def)
  moreover have "apply_ops (rs_ops two_writes) (db_lookup DBImpl_new) [1] = None"
    by (simp add: two_writes_ok(2) apply_ops_def)
  ultimately show ?thesis using s R by (intro exI [of _ s]) (simp add: two_writes_ok(2))
qed

end
