(* ===== verification/Version_Set.thy ===== *)
theory Version_Set
  imports Complex_Main Db_Iter Version_Edit Table_Reader
begin

text \<open>
  The tables of a version and reading from them (\<^verbatim>\<open>db/version_set.cc\<close>): the files of each level, binary
  search in a level, overlap with a range of keys, and \<^verbatim>\<open>Version::Get\<close>.
  \<^item> A \<^verbatim>\<open>FileMetaData*\<close> is its value: the counter of seeks is only read through the current version, and the reference
    counts, which decide when memory is freed, are left out. So are the list of versions and iterators
    over them.
  \<^item> Indices into a level are natural numbers: a level has fewer than \<open>2 ^ 31\<close> files. Scores are
    rational numbers, where the code rounds to \<^verbatim>\<open>double\<close>.
  \<^item> The table cache is an argument of \<open>Version_Get_in\<close>, and what it promises the locale \<open>table_source\<close>.
  \<^item> \<open>es\<close> gives the entries in the file of a number. \<open>version_ok\<close> is the invariant of the levels: the files of a level above 0
    have disjoint ranges of user keys in ascending order, newer level-0 files have higher numbers and newer entries, and
    for each user key a level has newer entries than the levels below it.
\<close>

section \<open>Versions\<close>

record Version =
  v_files :: "nat \<Rightarrow> FileMetaData list"
  v_file_to_compact :: "FileMetaData option"
  v_file_to_compact_level :: int
  v_compaction_score :: rat
  v_compaction_level :: int

definition Version_new :: Version where
  "Version_new = \<lparr>v_files = (\<lambda>_. []), v_file_to_compact = None, v_file_to_compact_level = -1,
     v_compaction_score = -1, v_compaction_level = -1\<rparr>"

record SizeSpec =
  kTargetFileSize :: int
  kNumFilesLevel0 :: rat
  kLevelFilesFactor :: rat

definition kMaxGrandParentOverlapBytes :: "SizeSpec \<Rightarrow> int" where
  "kMaxGrandParentOverlapBytes sp = 10 * kTargetFileSize sp"

definition kExpandedCompactionByteSizeLimit :: "SizeSpec \<Rightarrow> int" where
  "kExpandedCompactionByteSizeLimit sp = 25 * kTargetFileSize sp"

definition MaxBytesForLevel :: "SizeSpec \<Rightarrow> nat \<Rightarrow> rat" where
  "MaxBytesForLevel sp level =
     ((\<lambda>result. result * kLevelFilesFactor sp) ^^ (level - 1)) (kNumFilesLevel0 sp * of_int (kTargetFileSize sp) / 2)"

definition MaxFileSizeForLevel :: "SizeSpec \<Rightarrow> nat \<Rightarrow> u64" where
  "MaxFileSizeForLevel sp level = of_int (kTargetFileSize sp)"

definition TotalFileSize :: "FileMetaData list \<Rightarrow> int" where
  "TotalFileSize files = sint (fold (\<lambda>f sum. sum + fm_file_size f) files 0)"

definition kMaxMemCompactLevel :: nat where "kMaxMemCompactLevel = 2"

abbreviation lo :: "FileMetaData \<Rightarrow> bytes" where "lo f \<equiv> ExtractUserKey (fm_smallest f)"
abbreviation hi :: "FileMetaData \<Rightarrow> bytes" where "hi f \<equiv> ExtractUserKey (fm_largest f)"

section \<open>Finding files\<close>

function FindFile_loop :: "FileMetaData list \<Rightarrow> bytes \<Rightarrow> nat \<Rightarrow> nat \<Rightarrow> nat" where
  "FindFile_loop files key left right =
     (if left < right then
        (let mid = (left + right) div 2
         in if InternalKey_Compare (fm_largest (files ! mid)) key < 0 then FindFile_loop files key (mid + 1) right
            else FindFile_loop files key left mid)
      else right)"
  by pat_completeness auto
termination by (relation "measure (\<lambda>(files, key, left, right). right - left)") auto

declare FindFile_loop.simps [simp del]

definition FindFile :: "FileMetaData list \<Rightarrow> bytes \<Rightarrow> nat" where
  "FindFile files key = FindFile_loop files key 0 (length files)"

definition AfterFile :: "bytes option \<Rightarrow> FileMetaData \<Rightarrow> bool" where
  "AfterFile user_key f = (case user_key of None \<Rightarrow> False | Some k \<Rightarrow> Slice_compare k (hi f) > 0)"

definition BeforeFile :: "bytes option \<Rightarrow> FileMetaData \<Rightarrow> bool" where
  "BeforeFile user_key f = (case user_key of None \<Rightarrow> False | Some k \<Rightarrow> Slice_compare k (lo f) < 0)"

definition SomeFileOverlapsRange :: "bool \<Rightarrow> FileMetaData list \<Rightarrow> bytes option \<Rightarrow> bytes option \<Rightarrow> bool" where
  "SomeFileOverlapsRange disjoint_sorted_files files smallest_user_key largest_user_key =
     (if \<not> disjoint_sorted_files then
        list_ex (\<lambda>f. \<not> (AfterFile smallest_user_key f \<or> BeforeFile largest_user_key f)) files
      else
        (let index = (case smallest_user_key of
               None \<Rightarrow> 0
             | Some k \<Rightarrow> FindFile files (InternalKey k kMaxSequenceNumber kValueTypeForSeek))
         in if index \<ge> length files then False else \<not> BeforeFile largest_user_key (files ! index)))"

definition OverlapInLevel :: "Version \<Rightarrow> nat \<Rightarrow> bytes option \<Rightarrow> bytes option \<Rightarrow> bool" where
  "OverlapInLevel v level smallest_user_key largest_user_key =
     SomeFileOverlapsRange (level > 0) (v_files v level) smallest_user_key largest_user_key"

text \<open>The range grows with the files of level 0 it overlaps, and the search starts again.\<close>

definition outside :: "bytes option \<Rightarrow> bytes option \<Rightarrow> FileMetaData set \<Rightarrow> nat" where
  "outside user_begin user_end F =
     card {f \<in> F. \<exists>b. user_begin = Some b \<and> lo f < b} + card {f \<in> F. \<exists>e. user_end = Some e \<and> e < hi f}"

lemma card_psubset: "finite B \<Longrightarrow> A \<subseteq> B \<Longrightarrow> x \<in> B \<Longrightarrow> x \<notin> A \<Longrightarrow> card A < card B"
  by (rule psubset_card_mono) auto

lemma outside_begin:
  assumes "f \<in> set files" "lo f < b"
  shows "outside (Some (lo f)) e (set files) < outside (Some b) e (set files)"
proof -
  have "card {g \<in> set files. lo g < lo f} < card {g \<in> set files. lo g < b}"
    using assms by (intro card_psubset [of _ _ f]) (auto intro: less_trans)
  then show ?thesis by (simp add: outside_def)
qed

lemma outside_end:
  assumes "f \<in> set files" "e < hi f"
  shows "outside b (Some (hi f)) (set files) < outside b (Some e) (set files)"
proof -
  have "card {g \<in> set files. hi f < hi g} < card {g \<in> set files. e < hi g}"
    using assms by (intro card_psubset [of _ _ f]) (auto intro: less_trans)
  then show ?thesis by (simp add: outside_def)
qed

function GetOverlappingInputs_loop ::
  "nat \<Rightarrow> FileMetaData list \<Rightarrow> bytes option \<Rightarrow> bytes option \<Rightarrow> nat \<Rightarrow> FileMetaData list \<Rightarrow> FileMetaData list" where
  "GetOverlappingInputs_loop level files user_begin user_end i inputs =
     (if i < length files then
        (let f = files ! i
         in if (case user_begin of None \<Rightarrow> False | Some b \<Rightarrow> Slice_compare (hi f) b < 0) then
              GetOverlappingInputs_loop level files user_begin user_end (i + 1) inputs
            else if (case user_end of None \<Rightarrow> False | Some e \<Rightarrow> Slice_compare (lo f) e > 0) then
              GetOverlappingInputs_loop level files user_begin user_end (i + 1) inputs
            else if level = 0 \<and> (case user_begin of None \<Rightarrow> False | Some b \<Rightarrow> Slice_compare (lo f) b < 0) then
              GetOverlappingInputs_loop level files (Some (lo f)) user_end 0 []
            else if level = 0 \<and> (case user_end of None \<Rightarrow> False | Some e \<Rightarrow> Slice_compare (hi f) e > 0) then
              GetOverlappingInputs_loop level files user_begin (Some (hi f)) 0 []
            else GetOverlappingInputs_loop level files user_begin user_end (i + 1) (inputs @ [f]))
      else inputs)"
  by pat_completeness auto
termination
proof (relation "measures [\<lambda>(level, files, b, e, i, inputs). outside b e (set files), \<lambda>(level, files, b, e, i, inputs). length files - i]",
    goal_cases)
  case (4 level files b e i inputs f)
  then show ?case using outside_begin [of f files] by (auto split: option.splits)
next
  case (5 level files b e i inputs f)
  then show ?case using outside_end [of f files] by (auto split: option.splits)
qed auto

declare GetOverlappingInputs_loop.simps [simp del]

definition GetOverlappingInputs :: "Version \<Rightarrow> nat \<Rightarrow> bytes option \<Rightarrow> bytes option \<Rightarrow> FileMetaData list" where
  "GetOverlappingInputs v level begin_key end_key =
     GetOverlappingInputs_loop level (v_files v level) (map_option ExtractUserKey begin_key)
       (map_option ExtractUserKey end_key) 0 []"

function PickLevel_loop :: "SizeSpec \<Rightarrow> Version \<Rightarrow> bytes \<Rightarrow> bytes \<Rightarrow> nat \<Rightarrow> nat" where
  "PickLevel_loop sp v smallest_user_key largest_user_key level =
     (if level < kMaxMemCompactLevel then
        (if OverlapInLevel v (level + 1) (Some smallest_user_key) (Some largest_user_key) then level
         else
           (let start = InternalKey smallest_user_key kMaxSequenceNumber kValueTypeForSeek;
                limit = InternalKey largest_user_key 0 kTypeDeletion;
                sum = TotalFileSize (GetOverlappingInputs v (level + 2) (Some start) (Some limit))
            in if sum > kMaxGrandParentOverlapBytes sp then level
               else PickLevel_loop sp v smallest_user_key largest_user_key (level + 1)))
      else level)"
  by pat_completeness auto
termination by (relation "measure (\<lambda>(sp, v, s, l, level). kMaxMemCompactLevel - level)") auto

declare PickLevel_loop.simps [simp del]

definition PickLevelForMemTableOutput :: "SizeSpec \<Rightarrow> Version \<Rightarrow> bytes \<Rightarrow> bytes \<Rightarrow> nat" where
  "PickLevelForMemTableOutput sp v smallest_user_key largest_user_key =
     (if \<not> OverlapInLevel v 0 (Some smallest_user_key) (Some largest_user_key)
      then PickLevel_loop sp v smallest_user_key largest_user_key 0 else 0)"

section \<open>Reading\<close>

type_synonym 'c table_get = "'c \<Rightarrow> u64 \<Rightarrow> u64 \<Rightarrow> bytes \<Rightarrow> ('c \<times> (bytes \<times> bytes) option \<times> bool \<times> bool) option"

datatype GetResult = Get_Found bytes | Get_NotFound | Get_Corruption | Get_Error

record GetStats =
  gs_seek_file :: "FileMetaData option"
  gs_seek_file_level :: int
  gs_num_seek_file :: nat

fun Get_files ::
  "'c table_get \<Rightarrow> bytes \<Rightarrow> bytes \<Rightarrow> nat \<Rightarrow> FileMetaData list \<Rightarrow> 'c \<Rightarrow> GetStats \<Rightarrow> (FileMetaData \<times> nat) option \<Rightarrow>
     ('c \<times> GetStats \<times> (FileMetaData \<times> nat) option \<times> GetResult option) option" where
  "Get_files tget ikey user_key level [] tc stats last_file_read = Some (tc, stats, last_file_read, None)"
| "Get_files tget ikey user_key level (f # files) tc stats last_file_read =
     (let stats = (case last_file_read of
            Some (g, l) \<Rightarrow> if gs_seek_file stats = None
              then stats\<lparr>gs_seek_file := Some g, gs_seek_file_level := int l\<rparr> else stats
          | None \<Rightarrow> stats);
          last_file_read = Some (f, level)
      in Option.bind (tget tc (fm_number f) (fm_file_size f) ikey) (\<lambda>(tc, found, filtered, ok).
           if \<not> ok then Some (tc, stats, last_file_read, Some Get_Error)
           else
             (let stats = (if filtered then stats\<lparr>gs_num_seek_file := gs_num_seek_file stats + 1\<rparr> else stats)
              in case (case found of None \<Rightarrow> kNotFound | Some (k, v) \<Rightarrow> SaveValue user_key k v) of
                   kNotFound \<Rightarrow> Get_files tget ikey user_key level files tc stats last_file_read
                 | kFound v \<Rightarrow> Some (tc, stats, last_file_read, Some (Get_Found v))
                 | kDeleted \<Rightarrow> Some (tc, stats, last_file_read, Some Get_NotFound)
                 | kCorrupt \<Rightarrow> Some (tc, stats, last_file_read, Some Get_Corruption))))"

text \<open>The files of a level to search; \<open>None\<close>: go on with the next level.\<close>

definition NewestFirst :: "FileMetaData list \<Rightarrow> FileMetaData list" where
  "NewestFirst files = sort_key (\<lambda>f. - uint (fm_number f)) files"

definition files_to_search :: "Version \<Rightarrow> nat \<Rightarrow> bytes \<Rightarrow> bytes \<Rightarrow> FileMetaData list option" where
  "files_to_search v level ikey user_key =
     (let files = v_files v level
      in if files = [] then None
         else if level = 0 then
           (let tmp = filter (\<lambda>f. Slice_compare user_key (lo f) \<ge> 0 \<and> Slice_compare user_key (hi f) \<le> 0) files
            in if tmp = [] then None else Some (NewestFirst tmp))
         else
           (let index = FindFile files ikey
            in if index \<ge> length files then Some []
               else if Slice_compare user_key (lo (files ! index)) < 0 then Some []
               else Some [files ! index]))"

fun Get_levels ::
  "'c table_get \<Rightarrow> Version \<Rightarrow> bytes \<Rightarrow> bytes \<Rightarrow> nat list \<Rightarrow> 'c \<Rightarrow> GetStats \<Rightarrow> (FileMetaData \<times> nat) option \<Rightarrow>
     ('c \<times> GetStats \<times> GetResult) option" where
  "Get_levels tget v ikey user_key [] tc stats last_file_read = Some (tc, stats, Get_NotFound)"
| "Get_levels tget v ikey user_key (level # levels) tc stats last_file_read =
     (case files_to_search v level ikey user_key of
        None \<Rightarrow> Get_levels tget v ikey user_key levels tc stats last_file_read
      | Some files \<Rightarrow>
          Option.bind (Get_files tget ikey user_key level files tc (stats\<lparr>gs_num_seek_file := 0\<rparr>) last_file_read)
            (\<lambda>(tc, stats, last_file_read, r).
              case r of
                None \<Rightarrow> Get_levels tget v ikey user_key levels tc stats last_file_read
              | Some r \<Rightarrow> Some (tc, stats, r)))"

definition Version_Get_in ::
  "'c table_get \<Rightarrow> 'c \<Rightarrow> Version \<Rightarrow> bytes \<Rightarrow> u64 \<Rightarrow> GetStats \<Rightarrow> ('c \<times> GetStats \<times> GetResult) option" where
  "Version_Get_in tget tc v key snapshot stats =
     Get_levels tget v (LookupKey_internal key snapshot) key [0..<kNumLevels] tc
       (stats\<lparr>gs_seek_file := None, gs_seek_file_level := -1\<rparr>) None"

definition UpdateStats :: "Version \<Rightarrow> GetStats \<Rightarrow> Version \<times> bool" where
  "UpdateStats v stats =
     (case gs_seek_file stats of
        None \<Rightarrow> (v, False)
      | Some f \<Rightarrow>
          (let f = f\<lparr>fm_allowed_seeks := fm_allowed_seeks f - 1\<rparr>;
               v = v\<lparr>v_files := (\<lambda>level. map (\<lambda>g. if fm_number g = fm_number f then f else g) (v_files v level))\<rparr>
           in if fm_allowed_seeks f \<le> 0 \<and> v_file_to_compact v = None
              then (v\<lparr>v_file_to_compact := Some f, v_file_to_compact_level := gs_seek_file_level stats\<rparr>, True)
              else (v, False)))"

section \<open>The invariant of the levels\<close>

definition entry_before :: "entry \<Rightarrow> entry \<Rightarrow> bool" where
  "entry_before a b \<longleftrightarrow> e_key a < e_key b \<or> e_key a = e_key b \<and> unat (e_seq b) < unat (e_seq a)"

definition file_rep :: "(u64 \<Rightarrow> entry list) \<Rightarrow> FileMetaData \<Rightarrow> bool" where
  "file_rep es f \<longleftrightarrow> es (fm_number f) \<noteq> [] \<and> sorted_wrt entry_before (es (fm_number f)) \<and>
     (\<forall>e\<in>set (es (fm_number f)). entry_ok e) \<and>
     fm_smallest f = fst (kv (hd (es (fm_number f)))) \<and> fm_largest f = fst (kv (last (es (fm_number f))))"

definition level_sorted :: "FileMetaData list \<Rightarrow> bool" where
  "level_sorted files \<longleftrightarrow> sorted_wrt (\<lambda>f g. hi f < lo g) files"

definition newer_keys :: "entry list \<Rightarrow> entry list \<Rightarrow> bool" where
  "newer_keys xs ys \<longleftrightarrow> (\<forall>x\<in>set xs. \<forall>y\<in>set ys. e_key x = e_key y \<longrightarrow> unat (e_seq y) < unat (e_seq x))"

definition version_ok :: "(u64 \<Rightarrow> entry list) \<Rightarrow> Version \<Rightarrow> bool" where
  "version_ok es v \<longleftrightarrow>
     (\<forall>l<kNumLevels. \<forall>f\<in>set (v_files v l). file_rep es f) \<and>
     (\<forall>l<kNumLevels. 0 < l \<longrightarrow> level_sorted (v_files v l)) \<and>
     distinct (map fm_number (v_files v 0)) \<and>
     (\<forall>f\<in>set (v_files v 0). \<forall>g\<in>set (v_files v 0). fm_number g < fm_number f \<longrightarrow>
        newer_keys (es (fm_number f)) (es (fm_number g))) \<and>
     (\<forall>a b. a < b \<and> b < kNumLevels \<longrightarrow>
        (\<forall>f\<in>set (v_files v a). \<forall>g\<in>set (v_files v b). newer_keys (es (fm_number f)) (es (fm_number g))))"

lemma file_range:
  assumes "file_rep es f" "e \<in> set (es (fm_number f))"
  shows "lo f \<le> e_key e" "e_key e \<le> hi f"
proof -
  have F: "es (fm_number f) \<noteq> []" "sorted_wrt entry_before (es (fm_number f))"
    "fm_smallest f = fst (kv (hd (es (fm_number f))))" "fm_largest f = fst (kv (last (es (fm_number f))))"
    using assms(1) by (simp_all add: file_rep_def)
  have "sorted_wrt (\<lambda>a b. e_key a \<le> e_key b) (es (fm_number f))"
    by (rule sorted_wrt_mono_rel [OF _ F(2)]) (auto simp: entry_before_def)
  then have s: "sorted (map e_key (es (fm_number f)))" by (simp add: sorted_wrt_map)
  obtain i where i: "i < length (es (fm_number f))" "es (fm_number f) ! i = e" using assms(2) by (auto simp: in_set_conv_nth)
  show "lo f \<le> e_key e" "e_key e \<le> hi f"
    using sorted_nth_mono [OF s, of 0 i] sorted_nth_mono [OF s, of i "length (es (fm_number f)) - 1"] i F(1)
    by (simp_all add: F(3,4) kv_def InternalKey_simps hd_conv_nth last_conv_nth)
qed

lemma file_lo_hi:
  assumes "file_rep es f"
  shows "lo f \<le> hi f"
proof -
  have "hd (es (fm_number f)) \<in> set (es (fm_number f))" using assms by (simp add: file_rep_def)
  from file_range [OF assms this] show ?thesis by simp
qed

section \<open>Binary search\<close>

lemma FindFile_loop_ok:
  assumes "\<And>i j. i < j \<Longrightarrow> j < length files \<Longrightarrow> InternalKey_Compare (fm_largest (files ! j)) key < 0 \<Longrightarrow>
      InternalKey_Compare (fm_largest (files ! i)) key < 0"
    and "left \<le> length (takeWhile (\<lambda>f. InternalKey_Compare (fm_largest f) key < 0) files)"
    and "length (takeWhile (\<lambda>f. InternalKey_Compare (fm_largest f) key < 0) files) \<le> right" "right \<le> length files"
  shows "FindFile_loop files key left right = length (takeWhile (\<lambda>f. InternalKey_Compare (fm_largest f) key < 0) files)"
  using assms
proof (induction files key left right rule: FindFile_loop.induct)
  case (1 files key left right)
  note mono = "1.prems"(1)
  let ?P = "\<lambda>f. InternalKey_Compare (fm_largest f) key < 0"
  let ?n = "length (takeWhile ?P files)" and ?mid = "(left + right) div 2"
  show ?case
  proof (cases "left < right")
    case True
    then have mid: "?mid < length files" "left \<le> ?mid" "?mid < right" using "1.prems" by auto
    have P: "?P (files ! ?mid) \<longleftrightarrow> ?mid < ?n"
    proof
      assume p: "?P (files ! ?mid)"
      show "?mid < ?n"
      proof (rule ccontr)
        assume "\<not> ?mid < ?n"
        then have n: "?n \<le> ?mid" "?n < length files" using mid(1) by auto
        have "?P (files ! ?n)" using p mono [of ?n ?mid] n mid(1) by (cases "?n = ?mid") simp_all
        then show False using nth_length_takeWhile [OF n(2)] by blast
      qed
    next
      assume m: "?mid < ?n"
      then have "takeWhile ?P files ! ?mid = files ! ?mid" by (rule takeWhile_nth)
      then show "?P (files ! ?mid)" using nth_mem [OF m] set_takeWhileD [of _ ?P files] by metis
    qed
    have "FindFile_loop files key left right =
        (if ?P (files ! ?mid) then FindFile_loop files key (?mid + 1) right else FindFile_loop files key left ?mid)"
      using True by (subst FindFile_loop.simps) (simp add: Let_def)
    then show ?thesis
      using "1.IH"(1) [OF True refl _ mono] "1.IH"(2) [OF True refl _ mono] P mid "1.prems"(2-) by (cases "?P (files ! ?mid)") simp_all
  next
    case False
    then show ?thesis using "1.prems" by (subst FindFile_loop.simps) simp
  qed
qed

lemma level_largest:
  assumes "level_sorted files" "\<forall>f\<in>set files. lo f \<le> hi f" "i < j" "j < length files"
  shows "hi (files ! i) < hi (files ! j)" "hi (files ! i) < lo (files ! j)"
proof -
  show "hi (files ! i) < lo (files ! j)" using assms(1) sorted_wrt_nth_less [OF _ assms(3,4)] unfolding level_sorted_def by fast
  then show "hi (files ! i) < hi (files ! j)" using assms(2,4) by (meson less_le_trans nth_mem)
qed

lemma FindFile_takeWhile:
  assumes "level_sorted files" "\<forall>f\<in>set files. lo f \<le> hi f"
  shows "FindFile files key = length (takeWhile (\<lambda>f. InternalKey_Compare (fm_largest f) key < 0) files)"
  unfolding FindFile_def
proof (rule FindFile_loop_ok)
  fix i j assume ij: "i < j" "j < length files" and P: "InternalKey_Compare (fm_largest (files ! j)) key < 0"
  have "hi (files ! i) < hi (files ! j)" using level_largest [OF assms ij] by simp
  then show "InternalKey_Compare (fm_largest (files ! i)) key < 0" using P unfolding InternalKey_Compare_neg by auto
qed (simp_all add: length_takeWhile_le)

lemma FindFile_at:
  assumes "level_sorted files" "\<forall>f\<in>set files. lo f \<le> hi f" "i < length files"
    and "\<not> InternalKey_Compare (fm_largest (files ! i)) key < 0" "\<And>j. j < i \<Longrightarrow> InternalKey_Compare (fm_largest (files ! j)) key < 0"
  shows "FindFile files key = i"
proof -
  have "takeWhile (\<lambda>f. InternalKey_Compare (fm_largest f) key < 0) files = take i files"
    by (rule takeWhile_eq_take_P_nth) (use assms(3-) in auto)
  then show ?thesis unfolding FindFile_takeWhile [OF assms(1,2)] using assms(3) by simp
qed

section \<open>Overlap\<close>

definition overlaps :: "bytes option \<Rightarrow> bytes option \<Rightarrow> FileMetaData \<Rightarrow> bool" where
  "overlaps b e f \<longleftrightarrow> (\<forall>k. b = Some k \<longrightarrow> k \<le> hi f) \<and> (\<forall>k. e = Some k \<longrightarrow> lo f \<le> k)"

lemma Slice_compare_positive: "Slice_compare a b > 0 \<longleftrightarrow> b < a"
  by (rule Slice_compare_pos)

lemma AfterFile_iff: "AfterFile b f \<longleftrightarrow> (\<exists>k. b = Some k \<and> hi f < k)"
  by (simp add: AfterFile_def Slice_compare_positive split: option.split)

lemma BeforeFile_iff: "BeforeFile e f \<longleftrightarrow> (\<exists>k. e = Some k \<and> k < lo f)"
  by (simp add: BeforeFile_def split: option.split)

lemma overlaps_iff: "overlaps b e f \<longleftrightarrow> \<not> AfterFile b f \<and> \<not> BeforeFile e f"
  by (auto simp: overlaps_def AfterFile_iff BeforeFile_iff not_less)

text \<open>The earliest internal key of a user key comes before every key of it in a file.\<close>

lemma seek_first:
  assumes "file_rep es f"
  shows "InternalKey_Compare (fm_largest f) (InternalKey k kMaxSequenceNumber kValueTypeForSeek) < 0 \<longleftrightarrow> hi f < k"
proof -
  let ?e = "last (es (fm_number f))"
  have e: "entry_ok ?e" "fm_largest f = fst (kv ?e)" using assms by (auto simp: file_rep_def)
  have "\<not> PackSequenceAndType kMaxSequenceNumber kValueTypeForSeek < PackSequenceAndType (e_seq ?e) (e_type ?e)"
    by (rule tag_seek_le) (use e(1) in \<open>simp_all add: entry_ok_def kMaxSequenceNumber_def\<close>)
  then show ?thesis by (auto simp: InternalKey_Compare_neg e(2) kv_def InternalKey_simps)
qed

lemma SomeFileOverlapsRange_ok:
  assumes "\<forall>f\<in>set files. file_rep es f" "disjoint \<Longrightarrow> level_sorted files"
  shows "SomeFileOverlapsRange disjoint files b e \<longleftrightarrow> (\<exists>f\<in>set files. overlaps b e f)"
proof (cases disjoint)
  case False
  then show ?thesis by (simp add: SomeFileOverlapsRange_def list_ex_iff overlaps_iff)
next
  case True
  define n where "n = length (takeWhile (\<lambda>f. AfterFile b f) files)"
  have lh: "\<forall>f\<in>set files. lo f \<le> hi f" using assms(1) file_lo_hi by blast
  have idx: "(case b of None \<Rightarrow> 0 | Some k \<Rightarrow> FindFile files (InternalKey k kMaxSequenceNumber kValueTypeForSeek)) = n"
  proof (cases b)
    case None
    then show ?thesis by (cases files) (simp_all add: n_def AfterFile_iff)
  next
    case (Some k)
    have "takeWhile (\<lambda>f. InternalKey_Compare (fm_largest f) (InternalKey k kMaxSequenceNumber kValueTypeForSeek) < 0) files =
        takeWhile (\<lambda>f. AfterFile b f) files"
      by (rule takeWhile_cong) (use assms(1) seek_first Some in \<open>auto simp: AfterFile_iff\<close>)
    then show ?thesis by (simp add: Some n_def FindFile_takeWhile [OF assms(2) [OF True] lh])
  qed
  have before: "AfterFile b (files ! i)" if "i < n" for i
    using that nth_mem [of i "takeWhile (\<lambda>f. AfterFile b f) files"] takeWhile_nth [of i "\<lambda>f. AfterFile b f" files]
    by (auto simp: n_def dest: set_takeWhileD)
  have n: "n \<le> length files" by (simp add: n_def length_takeWhile_le)
  show ?thesis
  proof (cases "n < length files")
    case False
    have "AfterFile b f" if "f \<in> set files" for f
      using that False before by (metis in_set_conv_nth less_le_trans not_less)
    then show ?thesis using True False by (auto simp: SomeFileOverlapsRange_def idx overlaps_iff)
  next
    case inside: True
    have "\<not> AfterFile b (files ! n)" using nth_length_takeWhile [of "\<lambda>f. AfterFile b f" files] inside by (simp add: n_def)
    moreover have "BeforeFile e f" if f: "f \<in> set files" "BeforeFile e (files ! n)" "\<not> AfterFile b f" for f
    proof -
      obtain i where i: "i < length files" "f = files ! i" using f(1) by (auto simp: in_set_conv_nth)
      then have "n \<le> i" using before f(3) by (meson not_less)
      moreover have "lo (files ! n) < lo f" if "n < i"
      proof -
        have "hi (files ! n) < lo f" using level_largest(2) [OF assms(2) [OF True] lh that i(1)] i(2) by simp
        moreover have "lo (files ! n) \<le> hi (files ! n)" using lh inside by simp
        ultimately show ?thesis by simp
      qed
      ultimately have "lo (files ! n) \<le> lo f" using i(2) by (cases "n = i") auto
      then show ?thesis using f(2) by (auto simp: BeforeFile_iff)
    qed
    ultimately have "(\<exists>f\<in>set files. overlaps b e f) \<longleftrightarrow> \<not> BeforeFile e (files ! n)"
      using inside unfolding overlaps_iff by (meson nth_mem)
    then show ?thesis using True inside by (simp add: SomeFileOverlapsRange_def idx)
  qed
qed

section \<open>The files that overlap a range\<close>

text \<open>Above level 0 these are the files that overlap the range. In level 0 the range has grown so that it holds
  every file it overlaps.\<close>

lemma GetOverlappingInputs_loop_sorted:
  assumes "0 < level"
  shows "GetOverlappingInputs_loop level files b e i inputs = inputs @ filter (overlaps b e) (drop i files)"
proof (induction "length files - i" arbitrary: i inputs)
  case 0
  then show ?case by (subst GetOverlappingInputs_loop.simps) simp
next
  case (Suc n)
  then have i: "i < length files" by simp
  then have d: "drop i files = files ! i # drop (Suc i) files" by (simp add: Cons_nth_drop_Suc)
  have IH: "GetOverlappingInputs_loop level files b e (Suc i) inputs' = inputs' @ filter (overlaps b e) (drop (Suc i) files)" for inputs'
    using Suc by simp
  have "GetOverlappingInputs_loop level files b e i inputs =
      GetOverlappingInputs_loop level files b e (Suc i) (if overlaps b e (files ! i) then inputs @ [files ! i] else inputs)"
    using i assms by (subst GetOverlappingInputs_loop.simps)
      (auto simp: Let_def overlaps_def Slice_compare_positive split: option.splits)
  then show ?case by (simp add: IH d)
qed

lemma GetOverlappingInputs_sorted:
  assumes "0 < level"
  shows "GetOverlappingInputs v level b e =
    filter (overlaps (map_option ExtractUserKey b) (map_option ExtractUserKey e)) (v_files v level)"
  by (simp add: GetOverlappingInputs_def GetOverlappingInputs_loop_sorted [OF assms])

definition wider :: "bytes option \<Rightarrow> bytes option \<Rightarrow> bytes option \<Rightarrow> bytes option \<Rightarrow> bool" where
  "wider b' e' b e \<longleftrightarrow> (b' = None \<longleftrightarrow> b = None) \<and> (e' = None \<longleftrightarrow> e = None) \<and>
     (\<forall>x y. b' = Some x \<and> b = Some y \<longrightarrow> x \<le> y) \<and> (\<forall>x y. e' = Some x \<and> e = Some y \<longrightarrow> y \<le> x)"

definition inside_range :: "bytes option \<Rightarrow> bytes option \<Rightarrow> FileMetaData \<Rightarrow> bool" where
  "inside_range b e f \<longleftrightarrow> (\<forall>k. b = Some k \<longrightarrow> k \<le> lo f) \<and> (\<forall>k. e = Some k \<longrightarrow> hi f \<le> k)"

lemma wider_trans: "wider b2 e2 b1 e1 \<Longrightarrow> wider b1 e1 b e \<Longrightarrow> wider b2 e2 b e"
  unfolding wider_def by (cases b; cases b1; cases b2; cases e; cases e1; cases e2; auto)

lemma GetOverlappingInputs_loop_0:
  assumes "level = 0" "inputs = filter (overlaps b e) (take i files)" "\<forall>f\<in>set inputs. inside_range b e f" "i \<le> length files"
  shows "\<exists>b' e'. wider b' e' b e \<and> GetOverlappingInputs_loop level files b e i inputs = filter (overlaps b' e') files \<and>
    (\<forall>f\<in>set (filter (overlaps b' e') files). inside_range b' e' f)"
  using assms
proof (induction level files b e i inputs rule: GetOverlappingInputs_loop.induct)
  case (1 level files b e i inputs)
  let ?f = "files ! i"
  define goal where "goal g b e \<longleftrightarrow> (\<exists>b' e'. wider b' e' b e \<and> g = filter (overlaps b' e') files \<and>
    (\<forall>f\<in>set (filter (overlaps b' e') files). inside_range b' e' f))" for g b e
  have "goal (GetOverlappingInputs_loop level files b e i inputs) b e"
  proof (cases "i < length files")
    case False
    then have "GetOverlappingInputs_loop level files b e i inputs = filter (overlaps b e) files"
      using "1.prems" by (subst GetOverlappingInputs_loop.simps) simp
    moreover have "wider b e b e" by (auto simp: wider_def)
    ultimately show ?thesis using "1.prems" False unfolding goal_def by (intro exI [of _ b] exI [of _ e]) simp
  next
    case True
    have t: "take (i + 1) files = take i files @ [?f]" using True by (simp add: take_Suc_conv_app_nth)
    have widen: "goal g b0 e0 \<Longrightarrow> wider b0 e0 b e \<Longrightarrow> goal g b e" for g b0 e0
      unfolding goal_def using wider_trans by blast
    have c: "(case b of None \<Rightarrow> False | Some b \<Rightarrow> Slice_compare (hi ?f) b < 0) \<longleftrightarrow> AfterFile b ?f"
      "(case e of None \<Rightarrow> False | Some e \<Rightarrow> Slice_compare (lo ?f) e > 0) \<longleftrightarrow> BeforeFile e ?f"
      "(case b of None \<Rightarrow> False | Some b \<Rightarrow> Slice_compare (lo ?f) b < 0) \<longleftrightarrow> (\<exists>k. b = Some k \<and> lo ?f < k)"
      "(case e of None \<Rightarrow> False | Some e \<Rightarrow> Slice_compare (hi ?f) e > 0) \<longleftrightarrow> (\<exists>k. e = Some k \<and> k < hi ?f)"
      by (simp_all add: AfterFile_iff BeforeFile_iff Slice_compare_positive split: option.split)
    note hyps = "1.IH" [OF True refl, unfolded c, folded goal_def]
    note step = GetOverlappingInputs_loop.simps [of level files b e i inputs, unfolded Let_def c]
    consider (skip) "\<not> overlaps b e ?f" | (left) k where "overlaps b e ?f" "b = Some k" "lo ?f < k"
      | (right) k where "overlaps b e ?f" "\<not> (\<exists>k. b = Some k \<and> lo ?f < k)" "e = Some k" "k < hi ?f"
      | (inside) "overlaps b e ?f" "inside_range b e ?f"
      unfolding inside_range_def by (meson not_less)
    then show ?thesis
    proof cases
      case skip
      have p: "level = 0" "inputs = filter (overlaps b e) (take (i + 1) files)" "\<forall>f\<in>set inputs. inside_range b e f" "i + 1 \<le> length files"
        using "1.prems" True skip t by auto
      show ?thesis
        using hyps(1) [OF _ p] hyps(2) [OF _ _ p] skip True unfolding step overlaps_iff by (cases "AfterFile b ?f") simp_all
    next
      case left
      have p: "level = 0" "[] = filter (overlaps (Some (lo ?f)) e) (take 0 files)" "\<forall>f\<in>set []. inside_range (Some (lo ?f)) e f" "0 \<le> length files"
        using "1.prems"(1) by simp_all
      have "goal (GetOverlappingInputs_loop level files (Some (lo ?f)) e 0 []) (Some (lo ?f)) e"
        by (rule hyps(3) [OF _ _ _ p]) (use left "1.prems"(1) in \<open>auto simp: overlaps_iff\<close>)
      then have "goal (GetOverlappingInputs_loop level files (Some (lo ?f)) e 0 []) b e"
        by (rule widen) (use left in \<open>auto simp: wider_def\<close>)
      then show ?thesis using left "1.prems"(1) True unfolding step overlaps_iff by simp
    next
      case right
      have p: "level = 0" "[] = filter (overlaps b (Some (hi ?f))) (take 0 files)" "\<forall>f\<in>set []. inside_range b (Some (hi ?f)) f" "0 \<le> length files"
        using "1.prems"(1) by simp_all
      have "goal (GetOverlappingInputs_loop level files b (Some (hi ?f)) 0 []) b (Some (hi ?f))"
        by (rule hyps(4) [OF _ _ _ _ p]) (use right "1.prems"(1) in \<open>auto simp: overlaps_iff\<close>)
      then have "goal (GetOverlappingInputs_loop level files b (Some (hi ?f)) 0 []) b e"
        by (rule widen) (use right in \<open>auto simp: wider_def\<close>)
      then show ?thesis using right "1.prems"(1) True unfolding step overlaps_iff by auto
    next
      case inside
      have p: "level = 0" "inputs @ [?f] = filter (overlaps b e) (take (i + 1) files)" "\<forall>f\<in>set (inputs @ [?f]). inside_range b e f" "i + 1 \<le> length files"
        using "1.prems" True inside t by auto
      have no: "\<not> (\<exists>k. b = Some k \<and> lo ?f < k)" "\<not> (\<exists>k. e = Some k \<and> k < hi ?f)"
        using inside(2) by (auto simp: inside_range_def not_less)
      have "goal (GetOverlappingInputs_loop level files b e (i + 1) (inputs @ [?f])) b e"
        by (rule hyps(5) [OF _ _ _ _ p]) (use inside(1) no in \<open>auto simp: overlaps_iff\<close>)
      then show ?thesis using inside(1) no True unfolding step overlaps_iff by auto
    qed
  qed
  then show ?case unfolding goal_def .
qed

lemma GetOverlappingInputs_0:
  obtains b' e' where "wider b' e' (map_option ExtractUserKey b) (map_option ExtractUserKey e)"
    "GetOverlappingInputs v 0 b e = filter (overlaps b' e') (v_files v 0)"
    "\<forall>f\<in>set (GetOverlappingInputs v 0 b e). inside_range b' e' f"
  using GetOverlappingInputs_loop_0 [of 0 "[]" "map_option ExtractUserKey b" "map_option ExtractUserKey e" 0 "v_files v 0"]
  by (auto simp: GetOverlappingInputs_def)

end
