(* ===== verification/Version_Read.thy ===== *)
theory Version_Read
  imports Version_Set
begin

text \<open>
  \<^verbatim>\<open>Version::Get\<close> returns the newest entry of a key that a snapshot sees, whichever file of whichever
  level it is in. What is needed of the table cache is the locale \<open>table_source\<close>.
\<close>

section \<open>What a lookup in a table finds\<close>

definition visible_at :: "u64 \<Rightarrow> entry list \<Rightarrow> bytes \<Rightarrow> entry option" where
  "visible_at s es key = find (\<lambda>e. e_key e = key \<and> unat (e_seq e) \<le> unat s) es"

fun first_visible :: "u64 \<Rightarrow> entry list list \<Rightarrow> bytes \<Rightarrow> entry option" where
  "first_visible s [] key = None"
| "first_visible s (es # ess) key =
     (case visible_at s es key of Some e \<Rightarrow> Some e | None \<Rightarrow> first_visible s ess key)"

lemma first_visible_append:
  "first_visible s (xs @ ys) key = (case first_visible s xs key of Some e \<Rightarrow> Some e | None \<Rightarrow> first_visible s ys key)"
  by (induction xs) (auto split: option.split)

lemma visible_at_None: "visible_at s es key = None \<longleftrightarrow> (\<forall>e\<in>set es. e_key e = key \<longrightarrow> \<not> unat (e_seq e) \<le> unat s)"
  by (auto simp: visible_at_def find_None_iff)

lemma first_visible_None: "first_visible s ess key = None \<longleftrightarrow> (\<forall>es\<in>set ess. visible_at s es key = None)"
  by (induction ess) (auto split: option.split)

lemma entry_before_less: "entry_before a b \<Longrightarrow> entry_ok a \<Longrightarrow> entry_less a b"
  unfolding entry_before_def by (auto simp: entry_ok_def intro: seq_less) (simp add: entry_less_def)

lemma sorted_before_less: "sorted_wrt entry_before es \<Longrightarrow> \<forall>e\<in>set es. entry_ok e \<Longrightarrow> sorted_wrt entry_less es"
  by (induction es) (auto intro: entry_before_less)

text \<open>The first entry not before the key of a lookup is the one it sees, if it is one of its user key.\<close>

lemma kv_before_seek:
  assumes "entry_ok e" "unat s < 2 ^ 56"
  shows "InternalKey_Compare (fst (kv e)) (LookupKey_internal key s) < 0 \<longleftrightarrow>
    e_key e < key \<or> e_key e = key \<and> unat s < unat (e_seq e)"
proof -
  have "PackSequenceAndType s kValueTypeForSeek < PackSequenceAndType (e_seq e) (e_type e) \<longleftrightarrow> unat s < unat (e_seq e)"
    using assms by (cases "e_type e")
      (simp_all add: entry_ok_def word_less_nat_alt unat_PackSequenceAndType unat_type_code kValueTypeForSeek_def, presburger)
  then show ?thesis by (auto simp: InternalKey_Compare_neg kv_def InternalKey_simps LookupKey_internal_def)
qed

lemma table_lookup:
  assumes "sorted_wrt entry_before es" "\<forall>e\<in>set es. entry_ok e" "unat s < 2 ^ 56"
  shows "own ExtractUserKey (LookupKey_internal key s)
      (first_of (dropWhile (\<lambda>kv. InternalKey_Compare (fst kv) (LookupKey_internal key s) < 0) (map kv es))) =
    map_option kv (visible_at s es key)"
  using assms(1,2)
proof (induction es)
  case Nil
  then show ?case by (simp add: visible_at_def own_def first_of_def)
next
  case (Cons e es)
  let ?k = "LookupKey_internal key s"
  have ku: "ExtractUserKey ?k = key" "ExtractUserKey (fst (kv x)) = e_key x" for x
    by (simp_all add: LookupKey_internal_def InternalKey_simps kv_def)
  show ?case
  proof (cases "InternalKey_Compare (fst (kv e)) ?k < 0")
    case True
    then have "\<not> (e_key e = key \<and> unat (e_seq e) \<le> unat s)" using kv_before_seek [of e s key] Cons.prems(2) assms(3) by auto
    then show ?thesis using Cons True by (auto simp: visible_at_def)
  next
    case False
    then have n: "\<not> (e_key e < key \<or> e_key e = key \<and> unat s < unat (e_seq e))"
      using kv_before_seek [of e s key] Cons.prems(2) assms(3) by auto
    show ?thesis
    proof (cases "e_key e = key")
      case True
      then show ?thesis using False n ku by (simp add: visible_at_def own_def first_of_def kv_def InternalKey_simps)
    next
      case no: False
      then have "key < e_key e" using n by auto
      moreover have "e_key e \<le> e_key x" if "x \<in> set es" for x using Cons.prems(1) that by (auto simp: entry_before_def)
      ultimately have "visible_at s (e # es) key = None" using no unfolding visible_at_None by fastforce
      then show ?thesis using False no ku by (simp add: own_def first_of_def kv_def)
    qed
  qed
qed

section \<open>What the table cache promises\<close>

locale table_source =
  fixes tget :: "'c table_get" and tc_ok :: "'c \<Rightarrow> bool" and stored :: "FileMetaData \<Rightarrow> entry list \<Rightarrow> bool"
  assumes lookup: "\<lbrakk>tc_ok tc; stored f es; sorted_wrt entry_before es; \<forall>e\<in>set es. entry_ok e\<rbrakk> \<Longrightarrow>
      \<exists>tc' r filtered. tget tc (fm_number f) (fm_file_size f) k = Some (tc', r, filtered, True) \<and> tc_ok tc' \<and>
        (\<forall>x. r = Some x \<longrightarrow> x \<in> set (map kv es)) \<and>
        own ExtractUserKey k r = own ExtractUserKey k (first_of (dropWhile (\<lambda>kv. InternalKey_Compare (fst kv) k < 0) (map kv es)))"
begin

lemma lookup_state:
  assumes "tc_ok tc" "stored f es" "sorted_wrt entry_before es" "\<forall>e\<in>set es. entry_ok e" "unat s < 2 ^ 56"
  obtains tc' r filtered where "tget tc (fm_number f) (fm_file_size f) (LookupKey_internal key s) = Some (tc', r, filtered, True)" "tc_ok tc'"
    "(case r of None \<Rightarrow> kNotFound | Some (k, v) \<Rightarrow> SaveValue key k v) =
      (case visible_at s es key of None \<Rightarrow> kNotFound
       | Some e \<Rightarrow> (case entry_value e of Some v \<Rightarrow> kFound v | None \<Rightarrow> kDeleted))"
proof -
  let ?k = "LookupKey_internal key s"
  obtain tc' r filtered where R: "tget tc (fm_number f) (fm_file_size f) ?k = Some (tc', r, filtered, True)" "tc_ok tc'"
      "\<forall>x. r = Some x \<longrightarrow> x \<in> set (map kv es)" "own ExtractUserKey ?k r = map_option kv (visible_at s es key)"
    using lookup [OF assms(1-4), of ?k] unfolding table_lookup [OF assms(3-5)] by blast
  have u: "ExtractUserKey ?k = key" by (simp add: LookupKey_internal_def InternalKey_simps)
  have "(case r of None \<Rightarrow> kNotFound | Some (k, v) \<Rightarrow> SaveValue key k v) =
      (case visible_at s es key of None \<Rightarrow> kNotFound
       | Some e \<Rightarrow> (case entry_value e of Some v \<Rightarrow> kFound v | None \<Rightarrow> kDeleted))"
  proof (cases r)
    case None
    then have "visible_at s es key = None" using R(4) by simp
    then show ?thesis using None by simp
  next
    case (Some x)
    then obtain e where e: "e \<in> set es" "x = kv e" using R(3) by auto
    have "unat (e_seq e) < 2 ^ 56" using assms(4) e(1) by (auto simp: entry_ok_def)
    then have save: "SaveValue key (fst (kv e)) (snd (kv e)) =
        (if e_key e = key then (case entry_value e of Some v \<Rightarrow> kFound v | None \<Rightarrow> kDeleted) else kNotFound)"
      by (cases "e_type e") (simp_all add: SaveValue_def kv_def Parse_InternalKey entry_value_def)
    have eq: "(if e_key e = key then Some (kv e) else None) = map_option kv (visible_at s es key)"
      using R(4) unfolding Some e(2) by (simp add: own_def kv_def u InternalKey_simps split: if_splits)
    show ?thesis
    proof (cases "e_key e = key")
      case True
      then obtain e' where v: "visible_at s es key = Some e'" "kv e' = kv e"
        using eq by (cases "visible_at s es key") auto
      have "entry_ok e'" "e_key e' = key" using v(1) assms(4) by (auto simp: visible_at_def find_Some_iff)
      then have "SaveValue key (fst (kv e')) (snd (kv e')) = (case entry_value e' of Some v \<Rightarrow> kFound v | None \<Rightarrow> kDeleted)"
        by (cases "e_type e'") (simp_all add: SaveValue_def kv_def Parse_InternalKey entry_value_def entry_ok_def)
      then show ?thesis using Some e(2) v by (simp add: case_prod_beta)
    next
      case False
      then have "visible_at s es key = None"
        using eq by (cases "visible_at s es key") auto
      then show ?thesis using Some e(2) save False by (simp add: case_prod_beta)
    qed
  qed
  with R(1,2) show thesis by (rule that)
qed

end

section \<open>The files that matter\<close>

definition result_of :: "entry option \<Rightarrow> GetResult" where
  "result_of e = (case Option.bind e entry_value of None \<Rightarrow> Get_NotFound | Some v \<Rightarrow> Get_Found v)"

definition level_runs :: "(u64 \<Rightarrow> entry list) \<Rightarrow> Version \<Rightarrow> nat \<Rightarrow> entry list list" where
  "level_runs es v l = map (\<lambda>f. es (fm_number f)) (if l = 0 then NewestFirst (v_files v 0) else v_files v l)"

definition version_runs :: "(u64 \<Rightarrow> entry list) \<Rightarrow> Version \<Rightarrow> entry list list" where
  "version_runs es v = concat (map (level_runs es v) [0..<kNumLevels])"

lemma outside_file:
  assumes "file_rep es f" "key < lo f \<or> hi f < key"
  shows "visible_at s (es (fm_number f)) key = None"
proof -
  have "e_key e \<noteq> key" if "e \<in> set (es (fm_number f))" for e
    using file_range [OF assms(1) that] assms(2) by auto
  then show ?thesis by (auto simp: visible_at_None)
qed

lemma first_visible_filter:
  assumes "\<forall>f\<in>set files. \<not> P f \<longrightarrow> visible_at s (es (fm_number f)) key = None"
  shows "first_visible s (map (\<lambda>f. es (fm_number f)) (filter P files)) key = first_visible s (map (\<lambda>f. es (fm_number f)) files) key"
  using assms by (induction files) (auto split: option.split)

lemma first_visible_only:
  assumes "i < length files" "\<And>j. j < length files \<Longrightarrow> j \<noteq> i \<Longrightarrow> visible_at s (es (fm_number (files ! j))) key = None"
  shows "first_visible s (map (\<lambda>f. es (fm_number f)) files) key = visible_at s (es (fm_number (files ! i))) key"
proof -
  have f: "files = take i files @ files ! i # drop (Suc i) files" using assms(1) by (rule id_take_nth_drop)
  have "first_visible s (map (\<lambda>f. es (fm_number f)) (take i files)) key = None"
    using assms by (auto simp: first_visible_None in_set_conv_nth)
  moreover have "first_visible s (map (\<lambda>f. es (fm_number f)) (drop (Suc i) files)) key = None"
    using assms by (auto simp: first_visible_None in_set_conv_nth)
  ultimately have "first_visible s (map (\<lambda>f. es (fm_number f)) (take i files @ files ! i # drop (Suc i) files)) key =
      visible_at s (es (fm_number (files ! i))) key"
    by (simp add: first_visible_append split: option.split)
  then show ?thesis using f by simp
qed

text \<open>A file of a sorted level that holds something visible is the one the search ends on.\<close>

lemma sorted_level_file:
  assumes "level_sorted files" "\<forall>f\<in>set files. file_rep es f" "unat s < 2 ^ 56"
    and i: "i < length files" "visible_at s (es (fm_number (files ! i))) key \<noteq> None"
  shows "FindFile files (LookupKey_internal key s) = i" "lo (files ! i) \<le> key"
proof -
  have rep: "file_rep es (files ! i)" and lh: "\<forall>f\<in>set files. lo f \<le> hi f"
    using assms(2) i(1) file_lo_hi by auto
  obtain e where e: "e \<in> set (es (fm_number (files ! i)))" "e_key e = key" "unat (e_seq e) \<le> unat s"
    using i(2) by (auto simp: visible_at_None)
  show "lo (files ! i) \<le> key" using file_range(1) [OF rep e(1)] e(2) by simp
  let ?l = "last (es (fm_number (files ! i)))"
  have R: "es (fm_number (files ! i)) \<noteq> []" "sorted_wrt entry_before (es (fm_number (files ! i)))" "entry_ok ?l"
    "fm_largest (files ! i) = fst (kv ?l)" using rep by (auto simp: file_rep_def)
  have "e = ?l \<or> entry_before e ?l"
  proof -
    obtain j where j: "j < length (es (fm_number (files ! i)))" "es (fm_number (files ! i)) ! j = e"
      using e(1) by (auto simp: in_set_conv_nth)
    show ?thesis
      using sorted_wrt_nth_less [OF R(2), of j "length (es (fm_number (files ! i))) - 1"] j R(1)
      by (cases "j = length (es (fm_number (files ! i))) - 1") (auto simp: last_conv_nth)
  qed
  then have "key < e_key ?l \<or> key = e_key ?l \<and> unat (e_seq ?l) \<le> unat s"
    using e(2,3) unfolding entry_before_def by (elim disjE) simp_all
  then have "\<not> InternalKey_Compare (fm_largest (files ! i)) (LookupKey_internal key s) < 0"
    unfolding R(4) kv_before_seek [OF R(3) assms(3)] by (elim disjE conjE) (auto dest: less_asym)
  moreover have "InternalKey_Compare (fm_largest (files ! j)) (LookupKey_internal key s) < 0" if "j < i" for j
  proof -
    have "hi (files ! j) < lo (files ! i)" using level_largest(2) [OF assms(1) lh that i(1)] .
    then have "hi (files ! j) < key" using file_range(1) [OF rep e(1)] e(2) by auto
    then show ?thesis by (simp add: InternalKey_Compare_neg LookupKey_internal_def InternalKey_simps)
  qed
  ultimately show "FindFile files (LookupKey_internal key s) = i" by (rule FindFile_at [OF assms(1) lh i(1)])
qed

lemma files_to_search_ok:
  assumes "version_ok es v" "l < kNumLevels" "unat s < 2 ^ 56"
  shows "case files_to_search v l (LookupKey_internal key s) key of
      None \<Rightarrow> first_visible s (level_runs es v l) key = None
    | Some fs \<Rightarrow> set fs \<subseteq> set (v_files v l) \<and>
        first_visible s (map (\<lambda>f. es (fm_number f)) fs) key = first_visible s (level_runs es v l) key"
proof -
  have rep: "\<forall>f\<in>set (v_files v l). file_rep es f" and srt: "0 < l \<Longrightarrow> level_sorted (v_files v l)"
    using assms(1,2) by (simp_all add: version_ok_def)
  let ?P = "\<lambda>f. Slice_compare key (lo f) \<ge> 0 \<and> Slice_compare key (hi f) \<le> 0"
  show ?thesis
  proof (cases "l = 0")
    case True
    have out: "visible_at s (es (fm_number f)) key = None" if "f \<in> set (v_files v 0)" "\<not> ?P f" for f
    proof (rule outside_file)
      show "file_rep es f" using rep that(1) True by simp
      show "key < lo f \<or> hi f < key" using that(2) Slice_compare_neg [of key "lo f"] Slice_compare_positive [of key "hi f"] by linarith
    qed
    have "first_visible s (map (\<lambda>f. es (fm_number f)) (NewestFirst (filter ?P (v_files v 0)))) key =
        first_visible s (level_runs es v l) key"
      unfolding NewestFirst_def filter_sort [symmetric] level_runs_def True if_P [OF refl]
      by (rule first_visible_filter) (use out in simp)
    moreover have "set (NewestFirst (filter ?P (v_files v 0))) \<subseteq> set (v_files v 0)" by (auto simp: NewestFirst_def)
    moreover have "first_visible s (map (\<lambda>f. es (fm_number f)) (NewestFirst [])) key = None" by (simp add: NewestFirst_def)
    ultimately show ?thesis using True unfolding files_to_search_def Let_def
      by (auto simp: level_runs_def NewestFirst_def)
  next
    case False
    let ?files = "v_files v l" and ?idx = "FindFile (v_files v l) (LookupKey_internal key s)"
    have s: "level_sorted ?files" using srt False by simp
    note at = sorted_level_file [OF s rep assms(3)]
    have runs: "level_runs es v l = map (\<lambda>f. es (fm_number f)) ?files" using False by (simp add: level_runs_def)
    have none: "first_visible s (level_runs es v l) key = None" if "\<not> (?idx < length ?files \<and> lo (?files ! ?idx) \<le> key)"
      unfolding runs first_visible_None
    proof
      fix xs assume "xs \<in> set (map (\<lambda>f. es (fm_number f)) ?files)"
      then obtain i where i: "i < length ?files" "xs = es (fm_number (?files ! i))" by (auto simp: in_set_conv_nth)
      show "visible_at s xs key = None"
        using at [OF i(1), of key] that i by (cases "visible_at s (es (fm_number (?files ! i))) key") auto
    qed
    have some: "first_visible s (level_runs es v l) key = visible_at s (es (fm_number (?files ! ?idx))) key"
      if "?idx < length ?files" unfolding runs by (rule first_visible_only [OF that]) (use at in blast)
    show ?thesis
      using none some False Slice_compare_neg [of key "lo (?files ! ?idx)"] runs
      by (auto simp: files_to_search_def Let_def not_le split: option.split)
  qed
qed

context table_source
begin

lemma Get_files_ok:
  assumes "tc_ok tc" "\<forall>f\<in>set files. stored f (es (fm_number f)) \<and> file_rep es f" "unat s < 2 ^ 56"
  shows "\<exists>tc' stats' last'. tc_ok tc' \<and> Get_files tget (LookupKey_internal key s) key level files tc stats last_file =
    Some (tc', stats', last', map_option (\<lambda>e. result_of (Some e)) (first_visible s (map (\<lambda>f. es (fm_number f)) files) key))"
  using assms(1,2)
proof (induction files arbitrary: tc stats last_file)
  case (Cons f files)
  have f: "sorted_wrt entry_before (es (fm_number f))" "\<forall>e\<in>set (es (fm_number f)). entry_ok e" "stored f (es (fm_number f))"
    using Cons.prems(2) by (simp_all add: file_rep_def)
  obtain tc' r filtered where L: "tget tc (fm_number f) (fm_file_size f) (LookupKey_internal key s) = Some (tc', r, filtered, True)" "tc_ok tc'"
    "(case r of None \<Rightarrow> kNotFound | Some (k, v) \<Rightarrow> SaveValue key k v) =
      (case visible_at s (es (fm_number f)) key of None \<Rightarrow> kNotFound
       | Some e \<Rightarrow> (case entry_value e of Some v \<Rightarrow> kFound v | None \<Rightarrow> kDeleted))"
    using lookup_state [OF Cons.prems(1) f(3,1,2) assms(3)] by blast
  show ?case
  proof (cases "visible_at s (es (fm_number f)) key")
    case None
    then show ?thesis
      using Cons.IH [OF L(2)] Cons.prems(2) L(1,3) by (simp add: Let_def)
  next
    case (Some e)
    then show ?thesis
      using L by (cases "entry_value e") (auto simp: Let_def result_of_def)
  qed
qed simp

lemma Get_levels_ok:
  assumes "tc_ok tc" "version_ok es v" "unat s < 2 ^ 56" "\<forall>l\<in>set levels. l < kNumLevels"
    and "\<forall>l\<in>set levels. \<forall>f\<in>set (v_files v l). stored f (es (fm_number f))"
  shows "\<exists>tc' stats'. tc_ok tc' \<and> Get_levels tget v (LookupKey_internal key s) key levels tc stats last_file =
    Some (tc', stats', result_of (first_visible s (concat (map (level_runs es v) levels)) key))"
  using assms(1,4,5)
proof (induction levels arbitrary: tc stats last_file)
  case (Cons l levels)
  have rep: "\<forall>f\<in>set (v_files v l). file_rep es f" using assms(2) Cons.prems(2) by (auto simp: version_ok_def)
  have S: "case files_to_search v l (LookupKey_internal key s) key of
      None \<Rightarrow> first_visible s (level_runs es v l) key = None
    | Some fs \<Rightarrow> set fs \<subseteq> set (v_files v l) \<and>
        first_visible s (map (\<lambda>f. es (fm_number f)) fs) key = first_visible s (level_runs es v l) key"
    by (rule files_to_search_ok [OF assms(2) _ assms(3)]) (use Cons.prems(2) in simp)
  have IH: "\<exists>tc' stats'. tc_ok tc' \<and> Get_levels tget v (LookupKey_internal key s) key levels tc stats last_file =
      Some (tc', stats', result_of (first_visible s (concat (map (level_runs es v) levels)) key))" if "tc_ok tc" for tc stats last_file
    using Cons.IH [OF that] Cons.prems by simp
  show ?case
  proof (cases "files_to_search v l (LookupKey_internal key s) key")
    case None
    then show ?thesis using IH [OF Cons.prems(1)] S by (simp add: first_visible_append)
  next
    case (Some fs)
    then have fs: "set fs \<subseteq> set (v_files v l)"
      "first_visible s (map (\<lambda>f. es (fm_number f)) fs) key = first_visible s (level_runs es v l) key" using S by simp_all
    have "\<forall>f\<in>set fs. stored f (es (fm_number f)) \<and> file_rep es f" using fs(1) rep Cons.prems(3) by auto
    then obtain tc' stats' last' where G: "tc_ok tc'"
      "Get_files tget (LookupKey_internal key s) key l fs tc (stats\<lparr>gs_num_seek_file := 0\<rparr>) last_file =
        Some (tc', stats', last', map_option (\<lambda>e. result_of (Some e)) (first_visible s (level_runs es v l) key))"
      using Get_files_ok [OF Cons.prems(1) _ assms(3)] unfolding fs(2) [symmetric] by blast
    show ?thesis
      using IH [OF G(1), of stats' last'] G Some by (cases "first_visible s (level_runs es v l) key") (simp_all add: first_visible_append)
  qed
qed (simp add: result_of_def)

lemma Version_Get_ok:
  assumes "tc_ok tc" "version_ok es v" "unat s < 2 ^ 56" "\<forall>l<kNumLevels. \<forall>f\<in>set (v_files v l). stored f (es (fm_number f))"
  shows "\<exists>tc' stats'. tc_ok tc' \<and> Version_Get_in tget tc v key s stats =
    Some (tc', stats', result_of (first_visible s (version_runs es v) key))"
  unfolding Version_Get_in_def version_runs_def by (rule Get_levels_ok [OF assms(1-3)]) (use assms(4) in auto)

end

section \<open>The newest entry\<close>

definition version_entries :: "(u64 \<Rightarrow> entry list) \<Rightarrow> Version \<Rightarrow> entry set" where
  "version_entries es v = (\<Union>l<kNumLevels. \<Union>f\<in>set (v_files v l). set (es (fm_number f)))"

definition newest_visible :: "entry set \<Rightarrow> u64 \<Rightarrow> bytes \<Rightarrow> entry \<Rightarrow> bool" where
  "newest_visible E s key e \<longleftrightarrow> e \<in> E \<and> e_key e = key \<and> unat (e_seq e) \<le> unat s \<and>
     (\<forall>x\<in>E. e_key x = key \<and> unat (e_seq x) \<le> unat s \<longrightarrow> x = e \<or> unat (e_seq x) < unat (e_seq e))"

lemma newest_unique:
  assumes "newest_visible E s key a" "newest_visible E s key b"
  shows "a = b"
proof -
  have "b = a \<or> unat (e_seq b) < unat (e_seq a)" "a = b \<or> unat (e_seq a) < unat (e_seq b)"
    using assms by (simp_all add: newest_visible_def)
  then show ?thesis by (elim disjE) simp_all
qed

lemma visible_at_newest:
  assumes "sorted_wrt entry_before es"
  shows "visible_at s es key = Some e \<longleftrightarrow> newest_visible (set es) s key e"
  using assms
proof (induction es)
  case (Cons x es)
  have "newest_visible (set (x # es)) s key e \<longleftrightarrow> x = e" if x: "e_key x = key \<and> unat (e_seq x) \<le> unat s"
  proof
    assume "newest_visible (set (x # es)) s key e"
    then have e: "e = x \<or> unat (e_seq x) < unat (e_seq e)" "e \<in> set (x # es)" "e_key e = key"
      using x by (auto simp: newest_visible_def)
    then show "x = e" using Cons.prems x by (auto simp: entry_before_def)
  next
    assume "x = e"
    then show "newest_visible (set (x # es)) s key e" using Cons.prems x by (fastforce simp: newest_visible_def entry_before_def)
  qed
  then show ?case using Cons by (auto simp: visible_at_def newest_visible_def)
qed (simp add: visible_at_def newest_visible_def)

lemma first_visible_newest:
  assumes "sorted_wrt newer_keys ess" "\<forall>es\<in>set ess. sorted_wrt entry_before es"
  shows "first_visible s ess key = Some e \<longleftrightarrow> newest_visible (\<Union> (set ` set ess)) s key e"
  using assms
proof (induction ess)
  case Nil
  then show ?case by (simp add: newest_visible_def)
next
  case (Cons es ess)
  have IH: "first_visible s ess key = Some e \<longleftrightarrow> newest_visible (\<Union> (set ` set ess)) s key e" using Cons by simp
  have srt: "sorted_wrt entry_before es" using Cons.prems(2) by simp
  show ?case
  proof (cases "visible_at s es key")
    case None
    then have "newest_visible (set es \<union> \<Union> (set ` set ess)) s key e \<longleftrightarrow> newest_visible (\<Union> (set ` set ess)) s key e"
      unfolding visible_at_None newest_visible_def by blast
    then show ?thesis using None IH by simp
  next
    case (Some x)
    then have x: "newest_visible (set es) s key x" using visible_at_newest [OF srt] by blast
    have old: "unat (e_seq y) < unat (e_seq x)" if "y \<in> \<Union> (set ` set ess)" "e_key y = key" for y
      using that x Cons.prems(1) by (fastforce simp: newer_keys_def newest_visible_def)
    have "newest_visible (set es \<union> \<Union> (set ` set ess)) s key x"
      using x old unfolding newest_visible_def by blast
    then show ?thesis using Some newest_unique by fastforce
  qed
qed

lemma level_runs_sorted:
  assumes "version_ok es v" "l < kNumLevels"
  shows "sorted_wrt newer_keys (level_runs es v l)"
proof -
  have rep: "\<forall>f\<in>set (v_files v l). file_rep es f" using assms by (simp add: version_ok_def)
  show ?thesis
  proof (cases "l = 0")
    case True
    let ?fs = "NewestFirst (v_files v 0)"
    have s: "set ?fs = set (v_files v 0)" by (simp add: NewestFirst_def)
    have d: "distinct (map fm_number (v_files v 0))"
      and n: "\<And>f g. f \<in> set (v_files v 0) \<Longrightarrow> g \<in> set (v_files v 0) \<Longrightarrow> fm_number g < fm_number f \<Longrightarrow> newer_keys (es (fm_number f)) (es (fm_number g))"
      using assms(1) by (simp_all add: version_ok_def)
    have d': "distinct (map fm_number ?fs)" using d by (simp add: distinct_map NewestFirst_def)
    have "sorted (map (\<lambda>f. - uint (fm_number f)) ?fs)" by (simp add: NewestFirst_def)
    then have "sorted_wrt (\<lambda>f g. fm_number g \<le> fm_number f) ?fs" by (simp add: sorted_wrt_map word_le_def)
    moreover have "sorted_wrt (\<lambda>f g. fm_number f \<noteq> fm_number g) ?fs" using d' by (auto simp: sorted_wrt_iff_nth_less distinct_conv_nth)
    ultimately have "sorted_wrt (\<lambda>f g. fm_number g < fm_number f) ?fs" unfolding sorted_wrt_iff_nth_less by (metis order.not_eq_order_implies_strict)
    then have "sorted_wrt (\<lambda>f g. newer_keys (es (fm_number f)) (es (fm_number g))) ?fs"
      by (rule sorted_wrt_mono_rel [rotated]) (use n s in auto)
    then show ?thesis using True by (simp add: level_runs_def sorted_wrt_map)
  next
    case False
    then have "level_sorted (v_files v l)" using assms by (simp add: version_ok_def)
    then have "sorted_wrt (\<lambda>f g. newer_keys (es (fm_number f)) (es (fm_number g))) (v_files v l)"
      unfolding level_sorted_def
    proof (rule sorted_wrt_mono_rel [rotated])
      fix f g assume fg: "f \<in> set (v_files v l)" "g \<in> set (v_files v l)" "hi f < lo g"
      have "e_key x < e_key y" if "x \<in> set (es (fm_number f))" "y \<in> set (es (fm_number g))" for x y
        using file_range(2) [of es f x] file_range(1) [of es g y] rep fg that by fastforce
      then show "newer_keys (es (fm_number f)) (es (fm_number g))" by (fastforce simp: newer_keys_def)
    qed
    then show ?thesis using False by (simp add: level_runs_def sorted_wrt_map)
  qed
qed

lemma set_level_runs: "set (level_runs es v l) = (\<lambda>f. es (fm_number f)) ` set (v_files v l)"
  by (simp add: level_runs_def NewestFirst_def)

lemma version_runs_sorted:
  assumes "version_ok es v"
  shows "sorted_wrt newer_keys (version_runs es v)"
proof -
  have "sorted_wrt newer_keys (concat (map (level_runs es v) ls))" if "sorted_wrt (<) ls" "\<forall>l\<in>set ls. l < kNumLevels" for ls
    using that
  proof (induction ls)
    case (Cons l ls)
    have "newer_keys x y" if xy: "x \<in> set (level_runs es v l)" "y \<in> set (concat (map (level_runs es v) ls))" for x y
    proof -
      obtain l' where l': "l' \<in> set ls" "y \<in> set (level_runs es v l')" using xy(2) by auto
      then have "l < l'" "l' < kNumLevels" using Cons.prems by auto
      then show ?thesis using assms xy(1) l'(2) unfolding version_ok_def set_level_runs by blast
    qed
    then show ?case using Cons level_runs_sorted [OF assms, of l] by (simp add: sorted_wrt_append)
  qed simp
  then show ?thesis by (simp add: version_runs_def)
qed

lemma runs_entries: "\<Union> (set ` set (version_runs es v)) = version_entries es v"
  by (auto simp: version_runs_def version_entries_def set_level_runs)

lemma version_runs_newest:
  assumes "version_ok es v"
  shows "first_visible s (version_runs es v) key = Some e \<longleftrightarrow> newest_visible (version_entries es v) s key e"
proof -
  have "\<forall>r\<in>set (version_runs es v). sorted_wrt entry_before r"
    using assms by (auto simp: version_runs_def set_level_runs version_ok_def file_rep_def)
  from first_visible_newest [OF version_runs_sorted [OF assms] this] show ?thesis unfolding runs_entries .
qed

text \<open>So what a read of a version gives is decided by the set of its entries.\<close>

definition reads_as :: "entry set \<Rightarrow> u64 \<Rightarrow> bytes \<Rightarrow> bytes option \<Rightarrow> bool" where
  "reads_as E s key r \<longleftrightarrow> (\<exists>e. newest_visible E s key e \<and> entry_value e = r) \<or> r = None \<and> (\<forall>e. \<not> newest_visible E s key e)"

lemma version_runs_reads:
  assumes "version_ok es v"
  shows "reads_as (version_entries es v) s key (Option.bind (first_visible s (version_runs es v) key) entry_value)"
proof (cases "first_visible s (version_runs es v) key")
  case None
  then have "\<not> newest_visible (version_entries es v) s key e" for e using version_runs_newest [OF assms, of s key e] by simp
  then show ?thesis using None by (simp add: reads_as_def)
next
  case (Some e)
  then have "newest_visible (version_entries es v) s key e" using version_runs_newest [OF assms] by blast
  then show ?thesis using Some unfolding reads_as_def by auto
qed

lemma reads_as_unique: "reads_as E s key r \<Longrightarrow> reads_as E s key r' \<Longrightarrow> r = r'"
  unfolding reads_as_def using newest_unique by fast

end
