(* ===== verification/Table_Cache.thy ===== *)
theory Table_Cache
  imports Version_Read Cache_Contract
begin

text \<open>
  The cache of open tables (\<^verbatim>\<open>db/table_cache.cc\<close>) over the LRU cache and the reader of table files, and reading a
  version through it.
  \<^item> \<open>file\<close> gives the random access file of a number, if it can be opened; a file is not
    changed once it is written. A cached value is the open table, its file included; the deleter frees both.
  \<^item> Where \<^verbatim>\<open>FindTable\<close> returns the status of a failed open, the model returns no handle: the callers only ask
    whether it is OK.
  \<^item> The result of a lookup is the new cache, what the saver is called with, \<^verbatim>\<open>filtered\<close> and the status.
  \<^item> The promise of the locale \<open>table_source\<close> is met by a cache in which every entry is the table that opening its file
    again would give.
\<close>

section \<open>The code\<close>

type_synonym TableCache = "TableRep ShardedLRUCache"

definition FindTable ::
  "TableOptions \<Rightarrow> (u64 \<Rightarrow> RandomAccessFile option) \<Rightarrow> TableCache \<Rightarrow> u64 \<Rightarrow> u64 \<Rightarrow> (TableCache \<times> hid option) option" where
  "FindTable opts file tc file_number file_size =
     (let key = EncodeFixed64 file_number
      in Option.bind (Cache_Lookup tc key) (\<lambda>(tc, handle).
           case handle of
             Some h \<Rightarrow> Some (tc, Some h)
           | None \<Rightarrow>
               (case file file_number of
                  None \<Rightarrow> Some (tc, None)
                | Some f \<Rightarrow>
                    Option.bind (Table_Open opts f (unat file_size)) (\<lambda>r.
                      case r of
                        Inl msg \<Rightarrow> Some (tc, None)
                      | Inr table \<Rightarrow> map_option (\<lambda>(tc, h, d). (tc, Some h)) (Cache_Insert tc key table 1)))))"

definition TableCache_Get ::
  "TableOptions \<Rightarrow> (u64 \<Rightarrow> RandomAccessFile option) \<Rightarrow> bool \<Rightarrow> TableCache table_get" where
  "TableCache_Get opts file verify tc file_number file_size k =
     Option.bind (FindTable opts file tc file_number file_size) (\<lambda>(tc, handle).
       case handle of
         None \<Rightarrow> Some (tc, None, False, False)
       | Some h \<Rightarrow>
           Option.bind (Cache_Value tc h) (\<lambda>t.
           Option.bind (Table_InternalGet opts t verify k False) (\<lambda>(found, filtered, ok).
             map_option (\<lambda>(tc, d). (tc, found, filtered, ok)) (Cache_Release tc h))))"

text \<open>The iterator keeps its handle until \<^verbatim>\<open>UnrefEntry\<close> releases it; \<open>None\<close> is the iterator over an error.\<close>

definition TableCache_NewIterator ::
  "TableOptions \<Rightarrow> (u64 \<Rightarrow> RandomAccessFile option) \<Rightarrow> TableCache \<Rightarrow> u64 \<Rightarrow> u64 \<Rightarrow>
     (TableCache \<times> (hid \<times> TwoLevelIterator) option) option" where
  "TableCache_NewIterator opts file tc file_number file_size =
     Option.bind (FindTable opts file tc file_number file_size) (\<lambda>(tc, handle).
       case handle of
         None \<Rightarrow> Some (tc, None)
       | Some h \<Rightarrow> map_option (\<lambda>t. (tc, Some (h, Table_NewIterator t))) (Cache_Value tc h))"

definition UnrefEntry :: "TableCache \<Rightarrow> hid \<Rightarrow> TableCache option" where
  "UnrefEntry tc h = map_option fst (Cache_Release tc h)"

definition TableCache_Evict :: "TableCache \<Rightarrow> u64 \<Rightarrow> TableCache option" where
  "TableCache_Evict tc file_number = map_option fst (Cache_Erase tc (EncodeFixed64 file_number))"

section \<open>The invariant\<close>

definition opens :: "TableOptions \<Rightarrow> (u64 \<Rightarrow> RandomAccessFile option) \<Rightarrow> (u64 \<Rightarrow> u64) \<Rightarrow> u64 \<Rightarrow> TableRep \<Rightarrow> bool" where
  "opens opts file sizes n t \<longleftrightarrow> (\<exists>f. file n = Some f \<and> Table_Open opts f (unat (sizes n)) = Some (Inr t))"

definition tables_ok :: "TableOptions \<Rightarrow> (u64 \<Rightarrow> RandomAccessFile option) \<Rightarrow> (u64 \<Rightarrow> u64) \<Rightarrow> TableCache \<Rightarrow> bool" where
  "tables_ok opts file sizes tc \<longleftrightarrow>
     (\<forall>h key t. cache_entry tc h = Some (key, t) \<longrightarrow> (\<exists>n. key = EncodeFixed64 n \<and> opens opts file sizes n t))"

text \<open>The 32-bit reference counts have room for one more reference.\<close>

definition few_refs :: "(hid \<Rightarrow> nat) \<Rightarrow> bool" where
  "few_refs pin \<longleftrightarrow> (\<forall>e. pin e + 2 < 2 ^ 32)"

definition tc_ok :: "TableOptions \<Rightarrow> (u64 \<Rightarrow> RandomAccessFile option) \<Rightarrow> (u64 \<Rightarrow> u64) \<Rightarrow> TableCache \<Rightarrow> bool" where
  "tc_ok opts file sizes tc \<longleftrightarrow> (\<exists>pin. cache_ok tc pin \<and> few_refs pin) \<and> tables_ok opts file sizes tc"

lemma tables_ok_sub: "tables_ok opts file sizes tc \<Longrightarrow> cache_entry tc' \<subseteq>\<^sub>m cache_entry tc \<Longrightarrow> tables_ok opts file sizes tc'"
  unfolding tables_ok_def map_le_def by (metis domI)

lemma Cache_Value_entry: "cache_entry tc h = Some (key, t) \<Longrightarrow> Cache_Value tc h = Some t"
  by (auto simp: cache_entry_def entry_of_def Cache_Value_def split: option.splits)

text \<open>\<^verbatim>\<open>FindTable\<close> pins a handle whose value is the table of the file, whether it was cached or not.\<close>

lemma FindTable_ok:
  assumes "cache_ok tc pin" "few_refs pin" "tables_ok opts file sizes tc" "opens opts file sizes n t"
  obtains tc' h pin' where "FindTable opts file tc n (sizes n) = Some (tc', Some h)" "cache_ok tc' pin'" "0 < pin' h"
    "cache_entry tc' h = Some (EncodeFixed64 n, t)" "tables_ok opts file sizes tc'" "few_refs (pin'(h := pin' h - 1))"
proof -
  obtain f where f: "file n = Some f" "Table_Open opts f (unat (sizes n)) = Some (Inr t)" using assms(4) by (auto simp: opens_def)
  obtain tc1 where L: "Cache_Lookup tc (EncodeFixed64 n) = Some (tc1, cached tc (EncodeFixed64 n))"
    "cached tc1 = cached tc" "cache_entry tc1 = cache_entry tc"
    "cache_ok tc1 (case cached tc (EncodeFixed64 n) of None \<Rightarrow> pin | Some e \<Rightarrow> pin(e := Suc (pin e)))"
    using lru.lookup_ok [OF assms(1)] assms(2) unfolding few_refs_def by blast
  show thesis
  proof (cases "cached tc (EncodeFixed64 n)")
    case None
    then have ok: "cache_ok tc1 pin" using L(4) by simp
    obtain tc2 h d where I: "Cache_Insert tc1 (EncodeFixed64 n) t 1 = Some (tc2, h, d)" using lru.insert_ok [OF ok order_refl] by blast
    note P = lru.insert_pinned [OF ok I]
    have "tables_ok opts file sizes tc2"
    proof -
      have sub: "cache_entry tc2 \<subseteq>\<^sub>m (cache_entry tc)(h \<mapsto> (EncodeFixed64 n, t))" using P(6) L(3) by (simp add: drops_def)
      show ?thesis
        unfolding tables_ok_def
      proof (intro allI impI)
        fix x key u assume x: "cache_entry tc2 x = Some (key, u)"
        then have "((cache_entry tc)(h \<mapsto> (EncodeFixed64 n, t))) x = Some (key, u)" using sub unfolding map_le_def by (metis domI)
        then show "\<exists>n. key = EncodeFixed64 n \<and> opens opts file sizes n u"
          using assms(3,4) unfolding tables_ok_def by (cases "x = h") auto
      qed
    qed
    then show ?thesis
      using L(1) None f I P(1,2) assms(2) by (intro that [of tc2 h "pin(h := 1)"]) (simp_all add: FindTable_def few_refs_def)
  next
    case (Some h)
    obtain u where u: "cache_entry tc h = Some (EncodeFixed64 n, u)" using lru.look_entry [OF assms(1) Some] by blast
    then have "opens opts file sizes n u" using assms(3) unfolding tables_ok_def by fastforce
    then have "u = t" using assms(4) by (auto simp: opens_def)
    then show ?thesis
      using L Some u assms(2,3) by (intro that [of tc1 h "pin(h := Suc (pin h))"]) (simp_all add: FindTable_def tables_ok_def)
  qed
qed

section \<open>Lookups through the cache\<close>

text \<open>The file of a number holds these entries, in a table written with the options of the database.\<close>

definition table_stored ::
  "TableOptions \<Rightarrow> (u64 \<Rightarrow> RandomAccessFile option) \<Rightarrow> (u64 \<Rightarrow> u64) \<Rightarrow> FileMetaData \<Rightarrow> entry list \<Rightarrow> bool" where
  "table_stored src file sizes f es \<longleftrightarrow>
     (\<exists>bloom. to_filter_policy src = map_option NewBloomFilterPolicy bloom) \<and> fm_file_size f = sizes (fm_number f) \<and>
     (\<exists>t ps. opens (SanitizeTableOptions src) file sizes (fm_number f) t \<and> readable (SanitizeTableOptions src) t ps \<and>
        itable.parts_ok ps [] \<and> ps \<noteq> [] \<and> concat (map pt_kvs ps) = map kv es)"

lemma kv_ascending:
  assumes "sorted_wrt entry_before es" "\<forall>e\<in>set es. entry_ok e"
  shows "sorted_wrt (\<lambda>a b. InternalKey_Compare (fst a) (fst b) < 0) (map kv es)"
  using sorted_before_less [OF assms] key_less_kv by (simp add: sorted_wrt_map key_less_def)

interpretation tcache: table_source "TableCache_Get (SanitizeTableOptions src) file verify"
  "tc_ok (SanitizeTableOptions src) file sizes" "table_stored src file sizes"
proof
  fix tc f es k
  assume tc: "tc_ok (SanitizeTableOptions src) file sizes tc" and st: "table_stored src file sizes f es"
    and es: "sorted_wrt entry_before es" "\<forall>e\<in>set es. entry_ok e"
  let ?opts = "SanitizeTableOptions src" and ?n = "fm_number f"
  obtain pin where pin: "cache_ok tc pin" "few_refs pin" "tables_ok ?opts file sizes tc" using tc by (auto simp: tc_ok_def)
  obtain bloom t ps where S: "to_filter_policy src = map_option NewBloomFilterPolicy bloom" "fm_file_size f = sizes ?n"
    "opens ?opts file sizes ?n t" "readable ?opts t ps" "itable.parts_ok ps []" "ps \<noteq> []" "concat (map pt_kvs ps) = map kv es"
    using st by (auto simp: table_stored_def)
  obtain tc1 h pin1 where F: "FindTable ?opts file tc ?n (sizes ?n) = Some (tc1, Some h)" "cache_ok tc1 pin1" "0 < pin1 h"
    "cache_entry tc1 h = Some (EncodeFixed64 ?n, t)" "tables_ok ?opts file sizes tc1" "few_refs (pin1(h := pin1 h - 1))"
    by (rule FindTable_ok [OF pin S(3)])
  have asc: "itable.ascending (concat (map pt_kvs ps))"
    using kv_ascending [OF es] by (simp add: S(7) itable.ascending_def ikey.less)
  have cmp: "to_compare ?opts = InternalKey_Compare" by (simp add: SanitizeTableOptions_def)
  obtain r fl where G: "Table_InternalGet ?opts t verify k False = Some (r, fl, True)" "\<forall>x. r = Some x \<longrightarrow> x \<in> set (map kv es)"
    "own ExtractUserKey k r = own ExtractUserKey k (first_of (dropWhile (\<lambda>kv. InternalKey_Compare (fst kv) k < 0) (map kv es)))"
    using itable.InternalGet_ok [OF S(4,5) asc S(6) cmp Sanitize_user [OF _ S(1)]] unfolding S(7) ikey.less by metis
  obtain tc2 d where R: "Cache_Release tc1 h = Some (tc2, d)" "cache_ok tc2 (pin1(h := pin1 h - 1))" "drops (cache_entry tc1) (cache_entry tc2) d"
    using lru.release_ok [OF F(2,3)] by blast
  have "tables_ok ?opts file sizes tc2" using tables_ok_sub [OF F(5)] R(3) by (simp add: drops_def)
  then have "tc_ok ?opts file sizes tc2" using R(2) F(6) by (auto simp: tc_ok_def)
  moreover have "TableCache_Get ?opts file verify tc ?n (fm_file_size f) k = Some (tc2, r, fl, True)"
    using F(1) Cache_Value_entry [OF F(4)] G(1) R(1) by (simp add: TableCache_Get_def S(2))
  ultimately show "\<exists>tc' r filtered. TableCache_Get ?opts file verify tc (fm_number f) (fm_file_size f) k = Some (tc', r, filtered, True) \<and>
      tc_ok ?opts file sizes tc' \<and> (\<forall>x. r = Some x \<longrightarrow> x \<in> set (map kv es)) \<and>
      own ExtractUserKey k r = own ExtractUserKey k (first_of (dropWhile (\<lambda>kv. InternalKey_Compare (fst kv) k < 0) (map kv es)))"
    using G(2,3) by blast
qed

lemma tc_ok_new: "capacity < 2 ^ 31 \<Longrightarrow> tc_ok opts file sizes (NewLRUCache capacity)"
  using NewLRUCache_ok(1) [of capacity, where 'v = TableRep] NewLRUCache_ok(3) [of capacity, where 'v = TableRep]
  by (auto simp: tc_ok_def tables_ok_def few_refs_def intro!: exI [of _ "\<lambda>_. 0"])

text \<open>What the builder writes is stored, once its file can be opened.\<close>

lemma built_stored:
  fixes es :: "entry list" and env :: "'f WritableFile" and src :: TableOptions and f0 :: 'f
  defines "opts \<equiv> SanitizeTableOptions src"
  defines "built \<equiv> TableBuilder_Finish env opts (foldl (\<lambda>r (k, v). TableBuilder_Add env opts r k v) (TableBuilder_new opts f0) (map kv es))"
  assumes "appends env content" "content f0 = []"
    and "snappy_ok (to_snappy src)" "0 < to_block_restart_interval src"
    and "to_filter_policy src = map_option NewBloomFilterPolicy bloom" "\<forall>n. bloom = Some n \<longrightarrow> length es \<le> (2 ^ 64 - 8) div Suc n"
    and "es \<noteq> []" "sorted_wrt entry_before es" "\<forall>e\<in>set es. entry_ok e"
    and "(\<Sum>(k, v)\<leftarrow>map kv es. length k + length v + 64) < 2 ^ 31" "length (content (tb_file (fst built))) < 2 ^ 32"
    and "file (fm_number f) = Some (PosixRandomAccessFile_Read (content (tb_file (fst built))))"
    and "fm_file_size f = of_nat (length (content (tb_file (fst built))))" "sizes (fm_number f) = fm_file_size f"
  shows "table_stored src file sizes f es"
proof -
  have ne: "map kv es \<noteq> []" "\<forall>n. bloom = Some n \<longrightarrow> length (map kv es) \<le> (2 ^ 64 - 8) div Suc n" using assms(8,9) by simp_all
  obtain t ps where T: "Table_Open opts (PosixRandomAccessFile_Read (content (tb_file (fst built)))) (length (content (tb_file (fst built)))) = Some (Inr t)"
    "readable opts t ps" "itable.parts_ok ps []" "concat (map pt_kvs ps) = map kv es" "ps \<noteq> []"
    using built_table [OF assms(3-7) ne(2,1) kv_ascending [OF assms(10,11)] assms(12,13) [unfolded built_def opts_def]]
    unfolding built_def opts_def by blast
  have "unat (sizes (fm_number f)) = length (content (tb_file (fst built)))"
    using assms(13,15,16) by (simp add: unat_of_nat)
  then show ?thesis
    using T assms(7,14,16) unfolding table_stored_def opens_def opts_def by auto
qed

section \<open>Reading a version\<close>

text \<open>C20: \<^verbatim>\<open>Version::Get\<close>, through the table cache and the table files, returns the value of the newest entry of
  the key that the snapshot sees, in whichever file of whichever level it is, and \<^verbatim>\<open>NotFound\<close> if there is
  none or it is a deletion; the cache stays right.\<close>

theorem version_get:
  assumes "version_ok es v" "\<forall>l<kNumLevels. \<forall>f\<in>set (v_files v l). table_stored src file sizes f (es (fm_number f))"
    and "tc_ok (SanitizeTableOptions src) file sizes tc" "unat snapshot < 2 ^ 56"
  shows "\<exists>tc' stats' r. Version_Get_in (TableCache_Get (SanitizeTableOptions src) file verify) tc v key snapshot stats = Some (tc', stats', r) \<and>
    tc_ok (SanitizeTableOptions src) file sizes tc' \<and>
    (\<forall>val. r = Get_Found val \<longleftrightarrow> (\<exists>e. newest_visible (version_entries es v) snapshot key e \<and> entry_value e = Some val)) \<and>
    (r = Get_NotFound \<longleftrightarrow> (\<forall>e. newest_visible (version_entries es v) snapshot key e \<longrightarrow> entry_value e = None))"
proof -
  let ?e = "first_visible snapshot (version_runs es v) key"
  obtain tc' stats' where G: "tc_ok (SanitizeTableOptions src) file sizes tc'"
    "Version_Get_in (TableCache_Get (SanitizeTableOptions src) file verify) tc v key snapshot stats = Some (tc', stats', result_of ?e)"
    using tcache.Version_Get_ok [OF assms(3,1,4,2)] by blast
  note N = version_runs_newest [OF assms(1), of snapshot key]
  show ?thesis
  proof (cases ?e)
    case None
    then have "\<not> newest_visible (version_entries es v) snapshot key e" for e using N [of e] by simp
    then show ?thesis using G None by (simp add: result_of_def)
  next
    case (Some e)
    then have "newest_visible (version_entries es v) snapshot key x \<longleftrightarrow> x = e" for x using N [of x] by auto
    then show ?thesis using G Some by (cases "entry_value e") (auto simp: result_of_def)
  qed
qed

theorem version_get_witness:
  fixes env :: "bytes WritableFile" and es :: "entry list"
  defines "env \<equiv> \<lparr>wf_Append = \<lambda>f d. (f @ d, True), wf_Flush = \<lambda>f. (f, True)\<rparr>"
  defines "src \<equiv> \<lparr>to_compare = Slice_compare, to_separator = FindShortestSeparator, to_successor = FindShortSuccessor,
    to_block_size = 4096, to_block_restart_interval = 16, to_compression = kNoCompression,
    to_snappy = \<lparr>sn_compress = \<lambda>raw. None, sn_uncompress = \<lambda>c. None\<rparr>, to_filter_policy = None\<rparr>"
  defines "es \<equiv> [\<lparr>e_key = [1], e_seq = 5, e_type = kTypeValue, e_val = [7]\<rparr>, \<lparr>e_key = [2], e_seq = 6, e_type = kTypeValue, e_val = [8, 9]\<rparr>]"
  defines "data \<equiv> tb_file (fst (TableBuilder_Finish env (SanitizeTableOptions src)
    (foldl (\<lambda>r (k, v). TableBuilder_Add env (SanitizeTableOptions src) r k v) (TableBuilder_new (SanitizeTableOptions src) []) (map kv es))))"
  defines "f \<equiv> FileMetaData_new 3 (of_nat (length data)) (fst (kv (hd es))) (fst (kv (last es)))"
  defines "v \<equiv> Version_new\<lparr>v_files := (\<lambda>_. [])(1 := [f])\<rparr>"
  shows "\<exists>tc' stats'. Version_Get_in (TableCache_Get (SanitizeTableOptions src) (\<lambda>n. Some (PosixRandomAccessFile_Read data)) True)
    (NewLRUCache 100) v [2] 9 \<lparr>gs_seek_file = None, gs_seek_file_level = -1, gs_num_seek_file = 0\<rparr> =
    Some (tc', stats', Get_Found [8, 9])"
proof -
  have o: "SanitizeTableOptions src = \<lparr>to_compare = InternalKey_Compare, to_separator = Internal_FindShortestSeparator,
    to_successor = Internal_FindShortSuccessor, to_block_size = 4096, to_block_restart_interval = 16,
    to_compression = kNoCompression, to_snappy = \<lparr>sn_compress = \<lambda>raw. None, sn_uncompress = \<lambda>c. None\<rparr>, to_filter_policy = None\<rparr>"
    by (simp add: SanitizeTableOptions_def src_def ClipToRange_def)
  have kvs: "map kv es = [(InternalKey [1] 5 kTypeValue, [7]), (InternalKey [2] 6 kTypeValue, [8, 9])]" by (simp add: es_def kv_def)
  have len: "length data \<le> 600"
    unfolding data_def o env_def kvs by (rule length_small_table)
  have sorted: "sorted_wrt entry_before es" "\<forall>e\<in>set es. entry_ok e" by (simp_all add: es_def entry_before_def entry_ok_def)
  have H: "appends env (\<lambda>f. f)" "snappy_ok (to_snappy src)" "0 < to_block_restart_interval src"
    "to_filter_policy src = map_option NewBloomFilterPolicy None" "es \<noteq> []"
    by (simp_all add: appends_def env_def snappy_ok_def src_def es_def)
  have D: "(\<Sum>(k, v)\<leftarrow>map kv es. length k + length v + 64) < 2 ^ 31" "length data < 2 ^ 32"
    "fm_file_size f = of_nat (length data)"
    using len unfolding kvs by (simp_all add: InternalKey_def AppendInternalKey_def PutFixed64_def f_def FileMetaData_new_def)
  note B = built_stored [OF H(1) refl H(2-4) _ H(5) sorted D(1) D(2) [unfolded data_def], folded data_def]
  have "table_stored src (\<lambda>n. Some (PosixRandomAccessFile_Read data)) (\<lambda>n. of_nat (length data)) f es"
    by (rule B) (simp_all add: D(3))
  then have stored: "\<forall>l<kNumLevels. \<forall>g\<in>set (v_files v l). table_stored src (\<lambda>n. Some (PosixRandomAccessFile_Read data))
      (\<lambda>n. of_nat (length data)) g ((\<lambda>_. es) (fm_number g))" by (simp add: v_def)
  have "version_ok (\<lambda>_. es) v"
    using sorted by (simp add: version_ok_def v_def Version_new_def file_rep_def f_def FileMetaData_new_def es_def level_sorted_def)
  from version_get [OF this stored tc_ok_new [of 100], of 9 True "[2]" "\<lparr>gs_seek_file = None, gs_seek_file_level = -1, gs_num_seek_file = 0\<rparr>"]
  obtain tc' stats' r where R: "Version_Get_in (TableCache_Get (SanitizeTableOptions src) (\<lambda>n. Some (PosixRandomAccessFile_Read data)) True)
      (NewLRUCache 100) v [2] 9 \<lparr>gs_seek_file = None, gs_seek_file_level = -1, gs_num_seek_file = 0\<rparr> = Some (tc', stats', r)"
    "r = Get_Found [8, 9] \<longleftrightarrow> (\<exists>e. newest_visible (version_entries (\<lambda>_. es) v) 9 [2] e \<and> entry_value e = Some [8, 9])" by auto
  have "version_entries (\<lambda>_. es) v = set es" by (auto simp: version_entries_def v_def kNumLevels_def)
  then have "newest_visible (version_entries (\<lambda>_. es) v) 9 [2] (es ! 1)" by (simp add: newest_visible_def es_def)
  moreover have "entry_value (es ! 1) = Some [8, 9]" by (simp add: es_def entry_value_def)
  ultimately show ?thesis using R by blast
qed

end
