(* ===== verification/Version_Builder.thy ===== *)
theory Version_Builder
  imports Version_Read
begin

text \<open>
  \<^verbatim>\<open>VersionSet::Builder\<close> (\<^verbatim>\<open>db/version_set.cc\<close>): a version and the edits to it make the next version. The files added
  to a level are an ordered set, the \<^verbatim>\<open>std::set\<close> of the code, kept as the list of its elements. Both lists are
  merged by smallest key, and the deleted files left out.
  \<^item> \<open>Builder_Apply\<close> also returns the compaction pointers of the \<^verbatim>\<open>VersionSet\<close>, which \<^verbatim>\<open>Apply\<close> sets.
  \<^item> Reference counts are left out, with the destructors, which only count down; so are the assertions of a debug build
    that the files of a level do not overlap.
  \<^item> \<open>apply_edit\<close> is the part of \<^verbatim>\<open>LogAndApply\<close> that makes the new version. Its level holds exactly the files of the old
    one that were not deleted and the new ones, in order; and the edit of a flush keeps the invariant \<open>version_ok\<close>
    under which \<open>Version_Read\<close> and \<open>Table_Cache\<close> read a version.
\<close>

section \<open>The code\<close>

definition BySmallestKey :: "FileMetaData \<Rightarrow> FileMetaData \<Rightarrow> bool" where
  "BySmallestKey f1 f2 =
     (let r = InternalKey_Compare (fm_smallest f1) (fm_smallest f2)
      in if r \<noteq> 0 then r < 0 else fm_number f1 < fm_number f2)"

fun FileSet_insert :: "FileMetaData \<Rightarrow> FileMetaData list \<Rightarrow> FileMetaData list" where
  "FileSet_insert f [] = [f]"
| "FileSet_insert f (g # gs) =
     (if BySmallestKey f g then f # g # gs else if BySmallestKey g f then g # FileSet_insert f gs else g # gs)"

record LevelState =
  deleted_files :: "u64 set"
  added_files :: "FileMetaData list"

record Builder =
  bd_base :: Version
  bd_levels :: "nat \<Rightarrow> LevelState"

definition Builder_new :: "Version \<Rightarrow> Builder" where
  "Builder_new base = \<lparr>bd_base = base, bd_levels = (\<lambda>_. \<lparr>deleted_files = {}, added_files = []\<rparr>)\<rparr>"

definition seeks_allowed :: "u64 \<Rightarrow> int" where
  "seeks_allowed file_size = (let n = sint (ucast (file_size div 16384) :: u32) in if n < 100 then 100 else n)"

definition Apply_new_file :: "int \<times> FileMetaData \<Rightarrow> (nat \<Rightarrow> LevelState) \<Rightarrow> nat \<Rightarrow> LevelState" where
  "Apply_new_file nf levels =
     (let level = nat (fst nf);
          f = (snd nf)\<lparr>fm_refs := 1, fm_allowed_seeks := seeks_allowed (fm_file_size (snd nf))\<rparr>;
          st = levels level
      in levels(level := \<lparr>deleted_files = deleted_files st - {fm_number f}, added_files = FileSet_insert f (added_files st)\<rparr>))"

definition Builder_Apply :: "Builder \<Rightarrow> (nat \<Rightarrow> bytes) \<Rightarrow> VersionEdit \<Rightarrow> Builder \<times> (nat \<Rightarrow> bytes)" where
  "Builder_Apply b compact_pointer edit =
     (let compact_pointer = fold (\<lambda>(level, key) p. p(nat level := key)) (ve_compact_pointers edit) compact_pointer;
          levels = (\<lambda>level. (bd_levels b level)\<lparr>deleted_files := deleted_files (bd_levels b level) \<union>
            snd ` Set.filter (\<lambda>d. fst d = int level) (ve_deleted_files edit)\<rparr>);
          levels = fold Apply_new_file (ve_new_files edit) levels
      in (b\<lparr>bd_levels := levels\<rparr>, compact_pointer))"

definition MaybeAddFile :: "LevelState \<Rightarrow> FileMetaData list \<Rightarrow> FileMetaData \<Rightarrow> FileMetaData list" where
  "MaybeAddFile st files f = (if fm_number f \<in> deleted_files st then files else files @ [f])"

fun SaveTo_level :: "LevelState \<Rightarrow> FileMetaData list \<Rightarrow> FileMetaData list \<Rightarrow> FileMetaData list \<Rightarrow> FileMetaData list" where
  "SaveTo_level st base_iter [] files = foldl (MaybeAddFile st) files base_iter"
| "SaveTo_level st base_iter (added_iter # added) files =
     (let before = takeWhile (\<lambda>f. \<not> BySmallestKey added_iter f) base_iter;
          files = foldl (MaybeAddFile st) files before;
          files = MaybeAddFile st files added_iter
      in SaveTo_level st (drop (length before) base_iter) added files)"

definition Builder_SaveTo :: "Builder \<Rightarrow> Version \<Rightarrow> Version" where
  "Builder_SaveTo b v = v\<lparr>v_files := (\<lambda>level. if level < kNumLevels
     then SaveTo_level (bd_levels b level) (v_files (bd_base b) level) (added_files (bd_levels b level)) (v_files v level)
     else v_files v level)\<rparr>"

section \<open>The order of the files\<close>

lemma BySmallestKey_iff: "BySmallestKey f g \<longleftrightarrow> lo f < lo g \<or> lo f = lo g \<and>
    (ExtractTag (fm_smallest g) < ExtractTag (fm_smallest f) \<or>
     ExtractTag (fm_smallest f) = ExtractTag (fm_smallest g) \<and> fm_number f < fm_number g)"
  by (auto simp: BySmallestKey_def Let_def InternalKey_Compare_def split: if_splits)

lemma BySmallestKey_trans: "BySmallestKey f g \<Longrightarrow> BySmallestKey g h \<Longrightarrow> BySmallestKey f h"
  unfolding BySmallestKey_iff by auto

lemma BySmallestKey_irrefl [simp]: "\<not> BySmallestKey f f"
  by (simp add: BySmallestKey_iff)

lemma BySmallestKey_total: "fm_number f \<noteq> fm_number g \<Longrightarrow> BySmallestKey f g \<or> BySmallestKey g f"
  unfolding BySmallestKey_iff by auto

lemma FileSet_insert_ok:
  assumes "sorted_wrt BySmallestKey fs" "\<forall>g\<in>set fs. fm_number g \<noteq> fm_number f"
  shows "sorted_wrt BySmallestKey (FileSet_insert f fs) \<and> set (FileSet_insert f fs) = insert f (set fs)"
  using assms
proof (induction fs)
  case (Cons g gs)
  have IH: "sorted_wrt BySmallestKey (FileSet_insert f gs) \<and> set (FileSet_insert f gs) = insert f (set gs)" using Cons by simp
  have "BySmallestKey f g \<or> BySmallestKey g f" using BySmallestKey_total [of f g] Cons.prems(2) by auto
  then show ?case using IH Cons.prems(1) by (auto intro: BySmallestKey_trans)
qed simp

lemma foldl_MaybeAdd: "foldl (MaybeAddFile st) files fs = files @ filter (\<lambda>f. fm_number f \<notin> deleted_files st) fs"
  by (induction fs arbitrary: files) (simp_all add: MaybeAddFile_def)

lemma sorted_wrt_filter_rel: "sorted_wrt P xs \<Longrightarrow> sorted_wrt P (filter Q xs)"
  by (induction xs) auto

text \<open>A level of the next version: the files that are not deleted, in order.\<close>

lemma SaveTo_level_ok:
  assumes "sorted_wrt BySmallestKey base" "sorted_wrt BySmallestKey added" "\<forall>a\<in>set added. \<forall>b\<in>set base. fm_number a \<noteq> fm_number b"
  shows "\<exists>fs. SaveTo_level st base added files = files @ fs \<and> sorted_wrt BySmallestKey fs \<and>
    set fs = {f \<in> set base \<union> set added. fm_number f \<notin> deleted_files st}"
  using assms
proof (induction added arbitrary: base files)
  case Nil
  then show ?case by (auto simp: foldl_MaybeAdd intro!: sorted_wrt_filter_rel)
next
  case (Cons a added)
  let ?keep = "\<lambda>f. fm_number f \<notin> deleted_files st" and ?P = "\<lambda>f. \<not> BySmallestKey a f"
  let ?before = "takeWhile ?P base" and ?rest = "dropWhile ?P base"
  have split: "base = ?before @ ?rest" by simp
  have d: "drop (length ?before) base = ?rest" by (simp add: dropWhile_eq_drop)
  have srt: "sorted_wrt BySmallestKey ?before" "sorted_wrt BySmallestKey ?rest" "\<forall>x\<in>set ?before. \<forall>y\<in>set ?rest. BySmallestKey x y"
    using Cons.prems(1) unfolding split [symmetric] by (metis sorted_wrt_append split)+
  have less: "BySmallestKey b a" if "b \<in> set ?before" for b
  proof -
    have "\<not> BySmallestKey a b" "b \<in> set base" using that by (auto dest: set_takeWhileD)
    then show ?thesis using BySmallestKey_total [of a b] Cons.prems(3) by auto
  qed
  have more: "BySmallestKey a b" if "b \<in> set ?rest" for b
  proof (cases ?rest)
    case (Cons r rs)
    then have "BySmallestKey a r" using hd_dropWhile [of ?P base] by simp
    then show ?thesis using that srt(2) BySmallestKey_trans unfolding Cons by auto
  next
    case Nil
    then show ?thesis using that by (simp only: list.set empty_iff)
  qed
  have "\<forall>x\<in>set added. \<forall>b\<in>set ?rest. fm_number x \<noteq> fm_number b"
    using Cons.prems(3) by (auto dest: set_dropWhileD)
  moreover have "sorted_wrt BySmallestKey added" using Cons.prems(2) by simp
  ultimately obtain fs where fs: "SaveTo_level st ?rest added (files @ filter ?keep ?before @ filter ?keep [a]) =
      (files @ filter ?keep ?before @ filter ?keep [a]) @ fs" "sorted_wrt BySmallestKey fs"
      "set fs = {f \<in> set ?rest \<union> set added. ?keep f}" using Cons.IH [OF srt(2)] by blast
  have "SaveTo_level st base (a # added) files = SaveTo_level st ?rest added (files @ filter ?keep ?before @ filter ?keep [a])"
    unfolding SaveTo_level.simps Let_def d foldl_MaybeAdd MaybeAddFile_def by simp
  then have res: "SaveTo_level st base (a # added) files = files @ filter ?keep ?before @ filter ?keep [a] @ fs"
    unfolding fs(1) by simp
  have after: "BySmallestKey x y" if "x = a \<or> x \<in> set ?before" "y \<in> set fs" for x y
  proof -
    have "y \<in> set ?rest \<or> y \<in> set added" using that(2) unfolding fs(3) by blast
    moreover have "\<forall>y\<in>set added. BySmallestKey a y" using Cons.prems(2) by simp
    ultimately have "BySmallestKey a y" using more by blast
    then show ?thesis using that(1) less [of x] BySmallestKey_trans [of x a y] by (elim disjE) simp_all
  qed
  have "sorted_wrt BySmallestKey (filter ?keep ?before)" by (rule sorted_wrt_filter_rel [OF srt(1)])
  then have "sorted_wrt BySmallestKey (filter ?keep ?before @ filter ?keep [a] @ fs)"
    using less after fs(2) unfolding sorted_wrt_append by auto
  moreover have "set base = set ?before \<union> set ?rest" by (metis set_append split)
  then have "set (filter ?keep ?before @ filter ?keep [a] @ fs) = {f \<in> set base \<union> set (a # added). ?keep f}"
    unfolding set_append fs(3) by auto
  ultimately show ?case unfolding res by blast
qed

lemma sorted_wrt_distinct_irrefl: "sorted_wrt P xs \<Longrightarrow> (\<And>x. \<not> P x x) \<Longrightarrow> distinct xs"
  by (induction xs) auto

section \<open>Applying an edit\<close>

definition fresh_file :: "FileMetaData \<Rightarrow> FileMetaData" where
  "fresh_file f = f\<lparr>fm_refs := 1, fm_allowed_seeks := seeks_allowed (fm_file_size f)\<rparr>"

definition new_at :: "(int \<times> FileMetaData) list \<Rightarrow> nat \<Rightarrow> FileMetaData list" where
  "new_at nfs l = map (\<lambda>nf. fresh_file (snd nf)) (filter (\<lambda>nf. nat (fst nf) = l) nfs)"

lemma fresh_sel [simp]: "fm_number (fresh_file f) = fm_number f" "fm_smallest (fresh_file f) = fm_smallest f"
  "fm_largest (fresh_file f) = fm_largest f" "fm_file_size (fresh_file f) = fm_file_size f"
  by (simp_all add: fresh_file_def)

lemma Apply_new_files_ok:
  assumes "sorted_wrt BySmallestKey (added_files (levels l))" "distinct (map fm_number (new_at nfs l))"
    and "\<forall>f\<in>set (added_files (levels l)). \<forall>g\<in>set (new_at nfs l). fm_number f \<noteq> fm_number g"
  shows "sorted_wrt BySmallestKey (added_files (fold Apply_new_file nfs levels l)) \<and>
    set (added_files (fold Apply_new_file nfs levels l)) = set (added_files (levels l)) \<union> set (new_at nfs l) \<and>
    deleted_files (fold Apply_new_file nfs levels l) = deleted_files (levels l) - fm_number ` set (new_at nfs l)"
  using assms
proof (induction nfs arbitrary: levels)
  case (Cons nf nfs)
  let ?levels = "Apply_new_file nf levels"
  show ?case
  proof (cases "nat (fst nf) = l")
    case True
    let ?f = "fresh_file (snd nf)"
    have n: "new_at (nf # nfs) l = ?f # new_at nfs l" using True by (simp add: new_at_def)
    have l: "?levels l = \<lparr>deleted_files = deleted_files (levels l) - {fm_number ?f}, added_files = FileSet_insert ?f (added_files (levels l))\<rparr>"
      using True by (simp add: Apply_new_file_def Let_def fresh_file_def)
    have ins: "sorted_wrt BySmallestKey (FileSet_insert ?f (added_files (levels l))) \<and>
        set (FileSet_insert ?f (added_files (levels l))) = insert ?f (set (added_files (levels l)))"
      using Cons.prems(1,3) unfolding n by (intro FileSet_insert_ok) auto
    have "distinct (map fm_number (new_at nfs l))" "fm_number ?f \<notin> fm_number ` set (new_at nfs l)"
      using Cons.prems(2) unfolding n by simp_all
    moreover have "\<forall>f\<in>set (added_files (?levels l)). \<forall>g\<in>set (new_at nfs l). fm_number f \<noteq> fm_number g"
      using calculation(2) ins Cons.prems(3) unfolding n l by auto
    ultimately show ?thesis
      using Cons.IH [of ?levels] ins unfolding n l by auto
  next
    case False
    then have "?levels l = levels l" "new_at (nf # nfs) l = new_at nfs l"
      by (simp_all add: Apply_new_file_def Let_def new_at_def)
    then show ?thesis using Cons.IH [of ?levels] Cons.prems by simp
  qed
qed (simp add: new_at_def)

text \<open>The version after an edit: level by level, the files that were not deleted and the new ones, in order.\<close>

definition edited :: "Version \<Rightarrow> VersionEdit \<Rightarrow> nat \<Rightarrow> FileMetaData set" where
  "edited v edit l = {f \<in> set (v_files v l). (int l, fm_number f) \<notin> ve_deleted_files edit} \<union> set (new_at (ve_new_files edit) l)"

definition edit_fits :: "Version \<Rightarrow> VersionEdit \<Rightarrow> bool" where
  "edit_fits v edit \<longleftrightarrow> (\<forall>l<kNumLevels. distinct (map fm_number (new_at (ve_new_files edit) l)) \<and>
     (\<forall>f\<in>set (v_files v l). \<forall>g\<in>set (new_at (ve_new_files edit) l). fm_number f \<noteq> fm_number g))"

definition levels_ordered :: "Version \<Rightarrow> bool" where
  "levels_ordered v \<longleftrightarrow> (\<forall>l<kNumLevels. sorted_wrt BySmallestKey (v_files v l))"

definition apply_edit :: "Version \<Rightarrow> (nat \<Rightarrow> bytes) \<Rightarrow> VersionEdit \<Rightarrow> Version \<times> (nat \<Rightarrow> bytes)" where
  "apply_edit v compact_pointer edit =
     (let (b, compact_pointer) = Builder_Apply (Builder_new v) compact_pointer edit
      in (Builder_SaveTo b Version_new, compact_pointer))"

lemma apply_edit_level:
  assumes "levels_ordered v" "edit_fits v edit" "l < kNumLevels"
  shows "sorted_wrt BySmallestKey (v_files (fst (apply_edit v p edit)) l)" "set (v_files (fst (apply_edit v p edit)) l) = edited v edit l"
proof -
  let ?levels = "\<lambda>level. \<lparr>deleted_files = {} \<union> snd ` Set.filter (\<lambda>d. fst d = int level) (ve_deleted_files edit), added_files = []\<rparr>"
  let ?st = "fold Apply_new_file (ve_new_files edit) ?levels l"
  have dist: "distinct (map fm_number (new_at (ve_new_files edit) l))"
    "\<forall>f\<in>set (v_files v l). \<forall>g\<in>set (new_at (ve_new_files edit) l). fm_number f \<noteq> fm_number g"
    using assms(2,3) by (simp_all add: edit_fits_def)
  have st: "sorted_wrt BySmallestKey (added_files ?st)" "set (added_files ?st) = set (new_at (ve_new_files edit) l)"
    "deleted_files ?st = snd ` Set.filter (\<lambda>d. fst d = int l) (ve_deleted_files edit) - fm_number ` set (new_at (ve_new_files edit) l)"
    using Apply_new_files_ok [of ?levels l "ve_new_files edit"] dist(1) by simp_all
  have v: "v_files (fst (apply_edit v p edit)) l = SaveTo_level ?st (v_files v l) (added_files ?st) []"
    using assms(3) by (simp add: apply_edit_def Builder_Apply_def Builder_new_def Builder_SaveTo_def Let_def Version_new_def)
  have base: "sorted_wrt BySmallestKey (v_files v l)" using assms(1,3) by (simp add: levels_ordered_def)
  obtain fs where "SaveTo_level ?st (v_files v l) (added_files ?st) [] = [] @ fs" "sorted_wrt BySmallestKey fs"
    "set fs = {f \<in> set (v_files v l) \<union> set (added_files ?st). fm_number f \<notin> deleted_files ?st}"
    using SaveTo_level_ok [OF base st(1), of ?st "[]"] st(2) dist(2) by fastforce
  moreover have "fm_number f \<in> deleted_files ?st \<longleftrightarrow> (int l, fm_number f) \<in> ve_deleted_files edit" if "f \<in> set (v_files v l)" for f
    using dist(2) that unfolding st(3) by (auto simp: image_iff)
  moreover have "fm_number f \<notin> deleted_files ?st" if "f \<in> set (new_at (ve_new_files edit) l)" for f
    using that unfolding st(3) by blast
  ultimately show "sorted_wrt BySmallestKey (v_files (fst (apply_edit v p edit)) l)" "set (v_files (fst (apply_edit v p edit)) l) = edited v edit l"
    unfolding v edited_def st(2) by auto
qed

lemma apply_edit_ordered:
  assumes "levels_ordered v" "edit_fits v edit"
  shows "levels_ordered (fst (apply_edit v p edit))"
  using apply_edit_level(1) [OF assms] by (simp add: levels_ordered_def)

text \<open>Files in order whose ranges do not meet are a sorted level.\<close>

lemma ordered_level_sorted:
  assumes "sorted_wrt BySmallestKey fs" "\<forall>f\<in>set fs. lo f \<le> hi f"
    and "\<forall>f\<in>set fs. \<forall>g\<in>set fs. f = g \<or> hi f < lo g \<or> hi g < lo f"
  shows "level_sorted fs"
  unfolding level_sorted_def
proof (rule sorted_wrt_mono_rel [OF _ assms(1)])
  fix f g assume fg: "f \<in> set fs" "g \<in> set fs" "BySmallestKey f g"
  then have "f \<noteq> g" "lo f \<le> lo g" by (auto simp: BySmallestKey_iff)
  then show "hi f < lo g" using assms(2,3) fg(1,2) by (meson leD le_less_trans less_imp_le order_trans)
qed

text \<open>A memtable that was flushed becomes a file of level 0: the version is as before with the entries of that file,
  which are newer than all others of their keys.\<close>

lemma flush_version_ok:
  assumes v: "version_ok es v" "levels_ordered v" and f: "file_rep es f"
    and fresh: "\<forall>l<kNumLevels. \<forall>g\<in>set (v_files v l). fm_number g < fm_number f \<and> newer_keys (es (fm_number f)) (es (fm_number g))"
    and edit: "ve_new_files edit = [(0, f)]" "ve_deleted_files edit = {}"
  shows "version_ok es (fst (apply_edit v p edit))" "levels_ordered (fst (apply_edit v p edit))"
    and "version_entries es (fst (apply_edit v p edit)) = set (es (fm_number f)) \<union> version_entries es v"
proof -
  let ?v = "fst (apply_edit v p edit)"
  have new: "new_at (ve_new_files edit) l = (if l = 0 then [fresh_file f] else [])" for l
    by (simp add: new_at_def edit(1))
  have fits: "edit_fits v edit" using fresh by (fastforce simp: edit_fits_def new)
  show ord: "levels_ordered ?v" by (rule apply_edit_ordered [OF v(2) fits])
  have files: "set (v_files ?v l) = (if l = 0 then {fresh_file f} else {}) \<union> set (v_files v l)" if "l < kNumLevels" for l
    using apply_edit_level(2) [OF v(2) fits that] by (auto simp: edited_def new edit(2))
  have k: "0 < kNumLevels" by (simp add: kNumLevels_def)
  have V: "\<And>l g. l < kNumLevels \<Longrightarrow> g \<in> set (v_files v l) \<Longrightarrow> file_rep es g"
    "\<And>l. 0 < l \<Longrightarrow> l < kNumLevels \<Longrightarrow> level_sorted (v_files v l)" "distinct (map fm_number (v_files v 0))"
    "\<And>g h. g \<in> set (v_files v 0) \<Longrightarrow> h \<in> set (v_files v 0) \<Longrightarrow> fm_number h < fm_number g \<Longrightarrow> newer_keys (es (fm_number g)) (es (fm_number h))"
    "\<And>a b g h. a < b \<Longrightarrow> b < kNumLevels \<Longrightarrow> g \<in> set (v_files v a) \<Longrightarrow> h \<in> set (v_files v b) \<Longrightarrow> newer_keys (es (fm_number g)) (es (fm_number h))"
    using v(1) unfolding version_ok_def by blast+
  have rep: "file_rep es (fresh_file f)" using f by (simp add: file_rep_def)
  have "level_sorted (v_files ?v l)" if l: "0 < l" "l < kNumLevels" for l
  proof (rule ordered_level_sorted)
    show "sorted_wrt BySmallestKey (v_files ?v l)" using ord l(2) by (simp add: levels_ordered_def)
    show "\<forall>g\<in>set (v_files ?v l). lo g \<le> hi g" using V(1) [OF l(2)] files [OF l(2)] l(1) file_lo_hi by auto
    show "\<forall>g\<in>set (v_files ?v l). \<forall>h\<in>set (v_files ?v l). g = h \<or> hi g < lo h \<or> hi h < lo g"
    proof (intro ballI)
      fix g h assume "g \<in> set (v_files ?v l)" "h \<in> set (v_files ?v l)"
      then obtain i j where "i < length (v_files v l)" "v_files v l ! i = g" "j < length (v_files v l)" "v_files v l ! j = h"
        using files [OF l(2)] l(1) by (auto simp: in_set_conv_nth)
      then show "g = h \<or> hi g < lo h \<or> hi h < lo g"
        using sorted_wrt_nth_less [OF V(2) [OF l, unfolded level_sorted_def], of i j]
          sorted_wrt_nth_less [OF V(2) [OF l, unfolded level_sorted_def], of j i] by (cases i j rule: linorder_cases) auto
    qed
  qed
  moreover have "distinct (map fm_number (v_files ?v 0))"
  proof -
    have "distinct (v_files ?v 0)"
      using ord k by (intro sorted_wrt_distinct_irrefl [of BySmallestKey]) (simp_all add: levels_ordered_def)
    moreover have "inj_on fm_number (set (v_files ?v 0))"
    proof (rule inj_onI)
      have old: "inj_on fm_number (set (v_files v 0))" using V(3) by (simp add: distinct_map)
      have less: "fm_number x < fm_number f" if "x \<in> set (v_files v 0)" for x using fresh k that by blast
      fix g h assume g: "g \<in> set (v_files ?v 0)" and h: "h \<in> set (v_files ?v 0)" and eq: "fm_number g = fm_number h"
      have "g = fresh_file f \<or> g \<in> set (v_files v 0)" "h = fresh_file f \<or> h \<in> set (v_files v 0)"
        using g h unfolding files [OF k] by auto
      then show "g = h" using eq less [of g] less [of h] inj_onD [OF old eq] by (elim disjE) simp_all
    qed
    ultimately show ?thesis by (simp add: distinct_map)
  qed
  moreover have "\<forall>l<kNumLevels. \<forall>g\<in>set (v_files ?v l). file_rep es g" using files V(1) rep by auto
  moreover have "newer_keys (es (fm_number g)) (es (fm_number h))"
    if "g \<in> set (v_files ?v 0)" "h \<in> set (v_files ?v 0)" "fm_number h < fm_number g" for g h
  proof -
    have g: "g = fresh_file f \<or> g \<in> set (v_files v 0)" and h: "h = fresh_file f \<or> h \<in> set (v_files v 0)"
      using that(1,2) unfolding files [OF k] by auto
    have f: "fm_number x < fm_number f" "newer_keys (es (fm_number f)) (es (fm_number x))" if "x \<in> set (v_files v 0)" for x
      using fresh k that by blast+
    have "fm_number g \<le> fm_number f" using g f(1) [of g] by (elim disjE) simp_all
    then have "h \<noteq> fresh_file f" using that(3) by (intro notI) simp
    then have old: "h \<in> set (v_files v 0)" using h by (elim disjE) simp_all
    show ?thesis using g
    proof
      assume "g = fresh_file f"
      then show ?thesis using f(2) [OF old] by simp
    qed (use V(4) [OF _ old that(3)] in blast)
  qed
  moreover have "newer_keys (es (fm_number g)) (es (fm_number h))"
    if "a < b" "b < kNumLevels" "g \<in> set (v_files ?v a)" "h \<in> set (v_files ?v b)" for a b g h
  proof -
    have h: "h \<in> set (v_files v b)" using that(1,2,4) files [of b] by simp
    have "g = fresh_file f \<or> g \<in> set (v_files v a)" using that(1-3) files [of a] by (auto split: if_splits)
    then show ?thesis
    proof
      assume "g = fresh_file f"
      then show ?thesis using fresh that(2) h by simp
    qed (use V(5) [OF that(1,2) _ h] in blast)
  qed
  ultimately show "version_ok es ?v" unfolding version_ok_def by blast
  have "version_entries es ?v = (\<Union>l<kNumLevels. (if l = 0 then set (es (fm_number f)) else {}) \<union> (\<Union>g\<in>set (v_files v l). set (es (fm_number g))))"
    unfolding version_entries_def by (intro SUP_cong refl) (use files in auto)
  also have "\<dots> = set (es (fm_number f)) \<union> version_entries es v" using k by (auto simp: version_entries_def split: if_splits)
  finally show "version_entries es ?v = set (es (fm_number f)) \<union> version_entries es v" .
qed

end
