(* ===== verification/Spec2Isabelle.thy ===== *)
theory Spec2Isabelle
  imports Fs_Wrapper Crc32c Recovery Skip_List Trace_Loader Table_Block Filter_Block Version_Edit Table_Builder Table_Reader Fs_Steps Log_Damage Write_Queue Version_Read Table_Cache Version_Builder
begin

text \<open>
  TableFS: a file system that keeps its metadata and its small files in LevelDB.

  The program. The kernel calls the operations of \<^verbatim>\<open>TableFS\<close> (\<^verbatim>\<open>src/src/fs/tablefs.cpp\<close>) through FUSE.
  An operation walks the path with the directory entry cache (\<^verbatim>\<open>dcache.cpp\<close>), reads and changes
  the value of the inode through the inode cache (\<^verbatim>\<open>icache.cpp\<close>), and so through the adaptor
  (\<^verbatim>\<open>leveldb_adaptor.cpp\<close>) in LevelDB (\<^verbatim>\<open>src/lib/leveldb\<close>, which the repository builds from source).
  The key of an entry is its directory's inode number and the hash of its name; the value is a
  header with the \<^verbatim>\<open>struct stat\<close>, the name, and the data of a file up to the threshold; the data of a larger file is in a
  file of its own (\<^verbatim>\<open>GetDiskFilePath\<close>). Both caches are the sharded LRU cache of LevelDB or lists with a map.

  Theories, from the bottom.
  \<^item> \<open>Prelude\<close>: machine integers, byte strings, collections of rules. \<open>Coding\<close>, \<open>Hashing\<close>, \<open>Crc32c\<close>:
    \<^verbatim>\<open>util/coding\<close>, \<^verbatim>\<open>util/hash.cc\<close> and \<^verbatim>\<open>myhash.cpp\<close>, \<^verbatim>\<open>util/crc32c.cc\<close>.
  \<^item> \<open>Handle_Table\<close>, \<open>Lru_Cache\<close>, \<open>Cache_Contract\<close>: \<^verbatim>\<open>util/cache.cc\<close>, a heap of reference-counted handles, the
    hash table, the shards; the contract \<open>ref_cache\<close> is all the clients use.
  \<^item> \<open>Dbformat\<close>, \<open>Memtable\<close>, \<open>Skip_List\<close>, \<open>Write_Batch\<close>: internal keys and comparators, the memtable as an ordered
    list, the skip list that refines it, batches.
  \<^item> \<open>Db_Impl\<close>, \<open>Write_Queue\<close>, \<open>Db_Iter\<close>: \<^verbatim>\<open>db/db_impl.cc\<close>, \<^verbatim>\<open>db/db_iter.cc\<close>, \<^verbatim>\<open>table/merger.cc\<close>: the write
    path, its queue of concurrent writers with group commit, flushes, reads, iterators. The contract \<open>kv_store\<close> says that
    the engine is a map.
  \<^item> \<open>Env_File\<close>, \<open>Log_Format\<close>, \<open>Log_Damage\<close>, \<open>Recovery\<close>: files, the write-ahead log, what a damaged log can
    yield, and recovery of the memtable from it.
  \<^item> \<open>Table_Block\<close>, \<open>Table_Format\<close>, \<open>Filter_Block\<close>, \<open>Table_Builder\<close>, \<open>Table_Reader\<close>: table files byte by byte, with
    prefix compression, restart points, Bloom filters, the index and the two-level iterator.
  \<^item> \<open>Version_Edit\<close>, \<open>Version_Set\<close>, \<open>Version_Read\<close>, \<open>Version_Builder\<close>, \<open>Table_Cache\<close>: records of the manifest; the files of
    the levels, how a read finds them and how an edit makes the next version (\<^verbatim>\<open>db/version_set.cc\<close>); and \<^verbatim>\<open>Version::Get\<close> down
    to the bytes of the table files through the cache of open tables (\<^verbatim>\<open>db/table_cache.cc\<close>).
  \<^item> \<open>Properties\<close>: \<^verbatim>\<open>util/properties.cpp\<close>. \<open>Adaptor\<close>: the adaptor.
  \<^item> \<open>Inode\<close>, \<open>Dentry_Cache\<close>, \<open>Inode_Cache\<close>, \<open>State\<close>: inode values at their 256-byte layout, the two caches, the
    inode counter and \<^verbatim>\<open>root.dat\<close> (\<^verbatim>\<open>tfs_state.cpp\<close>).
  \<^item> \<open>Path_Lookup\<close>, \<open>TableFs\<close>, \<open>Fs_Files\<close>: the whole state and every operation of \<^verbatim>\<open>tablefs.cpp\<close>. \<open>Fs_Meta\<close>, \<open>Fs_Names\<close>,
    \<open>Fs_Open\<close>, \<open>Fs_Dir\<close>, \<open>Fs_Blob\<close>, \<open>Fs_Mount\<close>: what they do to the view \<open>fs_view\<close>, the map from keys to inode values
    that the inode cache and the database make up together. \<open>Fs_Steps\<close>: sequences of operations.
  \<^item> \<open>Fs_Wrapper\<close>, \<open>Allocator\<close>, \<open>Trace_Loader\<close>: file descriptors over the file system and the tools of the benchmark.
  This theory states the properties of the file system as a whole.

  How effects are modelled. Every operation returns the new state. Undefined behaviour (a handle that is gone, a
  C string without end) is \<open>None\<close>, and the theorems prove that it does not occur. Error codes are the
  integers the code returns. Files of the system are an argument (\<open>posix\<close>) whose laws \<open>posix_files\<close> are those of POSIX,
  with the instance \<open>mem_px\<close>. The clock, the results of system calls and whether a memtable is full
  are lists in the state. Integers whose range matters are words.

  What the lemmas show. Each component has an invariant that every operation keeps (\<open>ht_ok\<close>, \<open>lru_inv\<close>, \<open>cache_ok\<close>, \<open>sl_ok\<close>,
  \<open>mem_rep\<close>, \<open>db_rep\<close>, \<open>dc_ok\<close>, \<open>ic_ok\<close>, \<open>fs_ok\<close>, \<open>queue_inv\<close>) and an abstraction over which its operations are
  stated: a map for the caches and the database, a set of ordered entries for tables, \<open>fs_view\<close> for the file system. The
  properties of this theory rest on the contracts, through their interpretations on the models.

  Bounds. \<open>db_ok n\<close> and \<open>fs_ok n\<close> say that \<open>n\<close> more entries may be written before the 56-bit sequence numbers run
  out; an operation of the file system writes at most one or two. Keys and values are shorter than \<open>2 ^ 32\<close> bytes, the
  range of their length prefixes. References to a cached entry are counted in 32 bits. Loops are proved to end; where the code could run for ever on some input (the two-level
  iterator over a damaged index) the model is a partial function and the theorems prove that it returns.

  Not modelled. The metrics monitor and its sockets, log messages, option parsing and the registration with FUSE do I/O
  only. The locks of \<^verbatim>\<open>inodemutex.cpp\<close> have empty bodies. The C files beside the C++ files are an unfinished port of them.
  Of LevelDB, compactions between levels, the write triggers that wait for them, snapshots, the list of versions and opening
  a database from its manifest are left out. \<open>Db_Impl\<close> keeps all tables in level 0, as lists of entries; the reads of a version with
  all levels, from the bytes of its files, are those of \<open>Table_Cache\<close>.
\<close>

section \<open>Properties of the file system\<close>

text \<open>C3: A file made by \<^verbatim>\<open>MakeNode\<close> under a free name is there: \<^verbatim>\<open>MakeNode\<close> returns 0, and
  \<^verbatim>\<open>GetAttr\<close> of the same path returns a regular file with the next inode number, the given mode
  and device, size 0 and the current time. Every other entry of the file system is unchanged, and
  the invariant is kept.\<close>

theorem make_then_stat:
  fixes fs :: "'d TableFS"
  assumes "fs_ok (Suc (Suc n)) fs pin" "free_name fs pin path key filename"
    and "State_NewInode px (fs_state fs) (fs_disk fs) = Some ((st, inum), d)"
    and "257 + length filename \<le> length mem" "257 + length filename < 2 ^ 32"
  shows "\<exists>fs1 fs2 v. TableFS_MakeNode px fs path mode dev mem = Some (fs1, 0) \<and>
    TableFS_GetAttr fs1 path = Some (fs2, 0, Some (InitStat (fstat (decode_header mem)) inum (mode OR S_IFREG) dev
      (fs_owner fs) (time_now fs))) \<and>
    fs_view fs2 = (fs_view fs)(key \<mapsto> v) \<and> fs_ok (Suc n) fs2 pin \<and> fs_state fs1 = st"
proof -
  obtain fs1 where M: "TableFS_MakeNode px fs path mode dev mem = Some (fs1, 0)" "fs_ok (Suc n) fs1 pin"
    "quieter (fs_ic fs) (fs_ic fs1) pin" "fs_state fs1 = st"
    and view: "fs_view fs1 = (fs_view fs)(key \<mapsto>
      mk_value (init_header mem inum (mode OR S_IFREG) dev filename (fs_owner fs) (time_now fs)) filename [])"
    using make_inode_ok [OF assms, of "mode OR S_IFREG" dev] by (auto simp: TableFS_MakeNode_def)
  note L = created_lookup [OF assms(2) view]
  obtain fs2 where "TableFS_GetAttr fs1 path = Some (fs2, case fs_lookup fs1 path of
      None \<Rightarrow> (- ENOENT, None) | Some v \<Rightarrow> (0, Some (GetAttribute v)))" "fs_ok (Suc n) fs2 pin" "fs_view fs2 = fs_view fs1"
    using GetAttr_ok [OF M(2) quiet_pathI [OF assms(2) M(3) L(1)]] by blast
  then show ?thesis using L(2) M view assms(4,5) by (auto simp: GetAttribute_init)
qed

theorem make_then_stat_witness:
  "\<exists>fs1 fs2 st. TableFS_MakeNode mem_px demo_fs demo_path 0x1A4 0 demo_mem = Some (fs1, 0) \<and>
     TableFS_GetAttr fs1 demo_path = Some (fs2, 0, Some st) \<and> st_ino st = 1 \<and> st_mode st = 0x81A4 \<and> st_size st = 0"
  using make_then_stat [OF demo_ok demo_free demo_NewInode, of 0 demo_mem "0x1A4" 0]
  by (auto simp: demo_mem InitStat_def S_IFREG_def Let_def)

text \<open>C4: \<^verbatim>\<open>Unlink\<close> removes the file: it returns 0 when the path has an entry and \<^verbatim>\<open>-ENOENT\<close>
  when it has none, afterwards \<^verbatim>\<open>GetAttr\<close> of the path is \<^verbatim>\<open>-ENOENT\<close>, no other entry has
  changed, and the file on disk is unlinked exactly when the size is above the threshold.\<close>

theorem unlink_then_missing:
  fixes fs :: "'d TableFS"
  assumes "fs_ok (Suc (Suc (Suc n))) fs pin" "quiet_path fs pin path" "path_key fs path = Some (key, filename)"
    and "\<And>v. fs_lookup fs path = Some v \<Longrightarrow> disk_file fs v \<noteq> Some None"
  shows "\<exists>fs1 fs2. TableFS_Unlink px fs path = Some (fs1, if fs_view fs key = None then - ENOENT else 0) \<and>
    TableFS_GetAttr fs1 path = Some (fs2, - ENOENT, None) \<and>
    fs_view fs2 = (fs_view fs)(key := None) \<and> fs_ok (Suc n) fs2 pin \<and>
    fs_disk fs1 = (case fs_view fs key of None \<Rightarrow> fs_disk fs | Some v \<Rightarrow> remove_disk px fs v)"
proof -
  have look: "fs_lookup fs path = fs_view fs key" using assms(3) by (simp add: fs_lookup_def)
  obtain fs1 where U: "TableFS_Unlink px fs path = Some (fs1, if fs_lookup fs path = None then - ENOENT else 0)"
    "fs_ok (Suc n) fs1 pin" "quieter (fs_ic fs) (fs_ic fs1) pin"
    "fs_view fs1 = without (fs_view fs) (path_key fs path)"
    "fs_disk fs1 = (case fs_lookup fs path of None \<Rightarrow> fs_disk fs | Some v \<Rightarrow> remove_disk px fs v)"
    using Unlink_ok [OF assms(1,2,4)] by blast
  have "quiet_path fs1 pin path" by (rule quiet_path_without [OF assms(2) U(3,4)])
  then obtain fs2 where "TableFS_GetAttr fs1 path = Some (fs2, case fs_lookup fs1 path of
      None \<Rightarrow> (- ENOENT, None) | Some v \<Rightarrow> (0, Some (GetAttribute v)))" "fs_ok (Suc n) fs2 pin" "fs_view fs2 = fs_view fs1"
    using GetAttr_ok [OF U(2)] by blast
  then show ?thesis using U lookup_without [OF U(4)] look assms(3) by (auto simp: without_def)
qed

theorem unlink_then_missing_witness:
  "\<exists>fs fs1 fs2. make_inode mem_px demo_fs demo_path 0x81A4 0 demo_mem = Some (fs, 0) \<and>
     TableFS_Unlink mem_px fs demo_path = Some (fs1, 0) \<and> TableFS_GetAttr fs1 demo_path = Some (fs2, - ENOENT, None)"
proof -
  have n: "(Suc (Suc (Suc 0))) < 2 ^ 55" by simp
  obtain fs where F: "make_inode mem_px demo_fs demo_path 0x81A4 0 demo_mem = Some (fs, 0)"
    "fs_ok (Suc (Suc (Suc 0))) fs (\<lambda>_. 0)" "quiet_path fs (\<lambda>_. 0) demo_path"
    "fs_view fs demo_key = Some (mk_value (demo_header 0x81A4) [0x61] [])"
    "fs_lookup fs demo_path = Some (mk_value (demo_header 0x81A4) [0x61] [])"
    "threshold (fs_state fs) = 4096"
    by (rule demo_file [OF n]) (rule that)
  have "disk_file fs v \<noteq> Some None" if "fs_lookup fs demo_path = Some v" for v
    using that F(5,6) by (auto simp: disk_file_def demo_header_ok demo_header_size Let_def)
  then show ?thesis using unlink_then_missing [OF F(2,3) demo_path(2), of mem_px] F(1,4) by auto
qed

text \<open>C5: \<^verbatim>\<open>Rename\<close> to another key moves the entry: it returns 0, the old path's entry is gone,
  the new one has the same attributes and the same data under the new name, whatever was there
  before, and nothing else changes; the invariant is kept.\<close>

theorem rename_moves:
  fixes fs :: "'d TableFS"
  assumes "fs_ok (n + 4) fs pin" "quiet_path fs pin old_path" "quiet_path fs pin new_path"
    and "path_key fs old_path = Some (old, old_name)" "fs_view fs old = Some (mk_value h name data)"
    and "path_key fs new_path = Some (new, filename)" "old \<noteq> new"
    and "value_ok h name" "258 + length filename + length data < 2 ^ 32" "length name < 2 ^ 32 - 1"
  shows "\<exists>fs' v. TableFS_Rename fs old_path new_path = Some (fs', 0) \<and> fs_ok n fs' pin \<and>
    fs_view fs' = (fs_view fs)(old := None, new \<mapsto> v) \<and>
    GetAttribute v = fstat h \<and> has_blob (GetInodeHeader v) = has_blob h \<and>
    drop (257 + length filename) v = data \<and> (0 \<notin> set filename \<longrightarrow> entry_name v = filename)"
proof -
  obtain fs' where R: "TableFS_Rename fs old_path new_path = Some (fs', 0)" "fs_ok n fs' pin"
    "fs_view fs' = (fs_view fs)(old := None,
      new \<mapsto> mk_value (h\<lparr>namelen := of_nat (length filename)\<rparr>) filename data)"
    using Rename_ok [OF assms] by blast
  have "length filename < 2 ^ 32" using assms(9) by simp
  note v = InitInodeValue_rename_mk(2) [OF assms(8,10) this]
  show ?thesis
    using R entry_name_mk [OF v] drop_mk_value [OF v, of 0 data] GetAttribute_mk [OF v] GetInodeHeader_mk [OF v]
    by (intro exI [of _ fs'] exI [of _ "mk_value (h\<lparr>namelen := of_nat (length filename)\<rparr>) filename data"]
        conjI R) simp_all
qed

theorem rename_moves_witness:
  "\<exists>fs fs' v. make_inode mem_px demo_fs demo_path 0x81A4 0 demo_mem = Some (fs, 0) \<and>
     TableFS_Rename fs demo_path [0x2F, 0x62] = Some (fs', 0) \<and> fs_view fs' demo_key = None \<and>
     fs_view fs' (BuildMetaKey_path [0x62] ROOT_INODE_ID) = Some v \<and> GetAttribute v = fstat (demo_header 0x81A4) \<and>
     entry_name v = [0x62]"
proof -
  have n: "(0 :: nat) + 4 < 2 ^ 55" by simp
  obtain fs where F: "make_inode mem_px demo_fs demo_path 0x81A4 0 demo_mem = Some (fs, 0)"
    "fs_ok (0 + 4) fs (\<lambda>_. 0)" "quiet_path fs (\<lambda>_. 0) demo_path"
    "fs_view fs demo_key = Some (mk_value (demo_header 0x81A4) [0x61] [])"
    "fs_lookup fs demo_path = Some (mk_value (demo_header 0x81A4) [0x61] [])"
    "threshold (fs_state fs) = 4096"
    by (rule demo_file [OF n]) (rule that)
  have "quiet_path fs (\<lambda>_. 0) [0x2F, 0x62]" using quiet_path_unpinned [OF demo_other(3)] by blast
  from rename_moves [OF F(2,3) this demo_path(2) F(4) demo_other(1,2) demo_header_ok] show ?thesis
    using F(1) demo_other(2) by auto
qed

text \<open>C1: Data written to an open inline file is read back through the same handle, and is in the
  database after \<^verbatim>\<open>Release\<close>: every byte written, zeros in a hole before it, the old bytes
  elsewhere; the size is the larger of the old size and the end of the write, only the access and
  modification times change besides, and no other entry does.\<close>

theorem write_read_release:
  fixes fs :: "'d TableFS"
  assumes "fs_ok (Suc (Suc n)) fs pin" "quiet_path fs pin path" "path_key fs path = Some (key, filename)"
    and "fs_view fs key = Some (mk_value hh name data)" "value_ok hh name" "has_blob hh = 0"
    and "int (unat off + length buf) \<le> threshold (fs_state fs)" "threshold (fs_state fs) < 2 ^ 31"
    and "257 + length name + max (length data) (unat off + length buf) < 2 ^ 31" "unat sz < 2 ^ 62" "unat roff < 2 ^ 62"
  shows "\<exists>fs1 f fs2 fs3 now. TableFS_Open px fs path O_RDWR = Some (fs1, 0, Some f) \<and>
    TableFS_Write px fs1 f buf off flags = Some (fs2, int (length buf)) \<and>
    (let r = take (unat sz) (drop (unat roff) (write_at data (unat off) buf))
     in TableFS_Read px fs2 f sz roff = Some (fs2, int (length r), r)) \<and>
    TableFS_Release px fs2 f = Some (fs3, 0) \<and> fs_ok n fs3 pin \<and>
    fs_view fs3 = (fs_view fs)(key \<mapsto>
      mk_value (touched (grown hh (off + of_nat (length buf))) now) name (write_at data (unat off) buf))"
proof -
  obtain fs1 f fh p where O: "TableFS_Open px fs path O_RDWR = Some (fs1, 0, Some f)"
    "pin (fh_handle fh) = 0" "fs_ok (Suc (Suc n)) fs1 (pin(fh_handle fh := 1))" "fs_view fs1 = fs_view fs"
    "open_file fs1 (pin(fh_handle fh := 1)) f fh
       \<lparr>ih_key = key, ih_value = mk_value hh name data, ih_mode = open_mode O_RDWR, ih_pointer = Some p\<rparr>"
    "fs_state fs1 = fs_state fs" "ad_now (metadb fs1) = ad_now (metadb fs)" "quieter (fs_ic fs) (fs_ic fs1) pin"
    "fs_disk fs1 = fs_disk fs"
    by (rule Open_inline [OF assms(1-6)]) (rule that)
  let ?handle = "\<lparr>ih_key = key, ih_value = mk_value hh name data, ih_mode = open_mode O_RDWR, ih_pointer = Some p\<rparr>"
  let ?hh = "grown hh (off + of_nat (length buf))" and ?data = "write_at data (unat off) buf"
  let ?handle2 = "?handle\<lparr>ih_mode := INODE_WRITE, ih_value := mk_value ?hh name ?data\<rparr>"
  have v: "ih_value ?handle = mk_value hh name data" by simp
  have len: "257 + length name + max (length data) (unat off + length buf) < 2 ^ 32" using assms(9) by simp
  have st: "int (unat off + length buf) \<le> threshold (fs_state fs1)" "threshold (fs_state fs1) < 2 ^ 31"
    unfolding O(6) by (rule assms(7,8))+
  obtain fs2 where W: "TableFS_Write px fs1 f buf off flags = Some (fs2, int (length buf))"
    "fs_ok (Suc (Suc n)) fs2 (pin(fh_handle fh := 1))" "fs_view fs2 = fs_view fs1" "fs_state fs2 = fs_state fs1"
    "open_file fs2 (pin(fh_handle fh := 1)) f fh ?handle2"
    "metadb fs2 = metadb fs1" "\<And>g. g \<noteq> fh_handle fh \<Longrightarrow> handle_at fs2 g = handle_at fs1 g"
    by (rule Write_inline [OF O(3,5) v assms(5,6) st len]) (rule that)
  have v2: "ih_value ?handle2 = mk_value ?hh name ?data" "ih_mode ?handle2 = INODE_WRITE" by simp_all
  have hh: "value_ok ?hh name" "has_blob ?hh = 0" "st_ino (fstat ?hh) = st_ino (fstat hh)"
    using assms(5,6) by (simp_all add: value_ok_grown) (simp_all add: grown_def)
  have ld: "length ?data < 2 ^ 31" using assms(9) by (simp add: length_write_at max_def split: if_splits)
  note R = Read_inline [OF W(5) v2(1) hh(1,2) assms(11,10) ld, of px]
  have old: "fs_view fs2 (ih_key ?handle2) = Some (mk_value hh name data)"
    "st_ino (GetAttribute (mk_value hh name data)) = st_ino (fstat ?hh)"
    using W(3) O(4) assms(4,5) hh(3) by simp_all
  obtain fs3 where C: "TableFS_Release px fs2 f = Some (fs3, 0)" "fs_ok n fs3 pin"
    "fs_view fs3 = (fs_view fs2)(ih_key ?handle2 \<mapsto> mk_value (touched ?hh (time_now fs2)) name ?data)"
    "fs_fhs fs3 f = None" "fs_state fs3 = fs_state fs2"
    by (rule Release_inline [OF W(2) O(2) W(5) v2(1) hh(1) v2(2) old]) (rule that)
  then show ?thesis using O(1,4) W(1,3) R by (auto simp: Let_def)
qed

theorem write_read_release_witness:
  "\<exists>fs fs1 f fs2 fs3 v. make_inode mem_px demo_fs demo_path 0x81A4 0 demo_mem = Some (fs, 0) \<and>
     TableFS_Open mem_px fs demo_path O_RDWR = Some (fs1, 0, Some f) \<and>
     TableFS_Write mem_px fs1 f [7, 8] 3 2 = Some (fs2, 2) \<and>
     TableFS_Read mem_px fs2 f 10 1 = Some (fs2, 4, [0, 0, 7, 8]) \<and>
     TableFS_Release mem_px fs2 f = Some (fs3, 0) \<and>
     fs_view fs3 demo_key = Some v \<and> st_size (GetAttribute v) = 5 \<and> GetInlineData v 0 10 = [0, 0, 0, 7, 8]"
proof -
  have n: "Suc (Suc 0) < 2 ^ 55" by simp
  obtain fs where F: "make_inode mem_px demo_fs demo_path 0x81A4 0 demo_mem = Some (fs, 0)"
    "fs_ok (Suc (Suc 0)) fs (\<lambda>_. 0)" "quiet_path fs (\<lambda>_. 0) demo_path"
    "fs_view fs demo_key = Some (mk_value (demo_header 0x81A4) [0x61] [])"
    "fs_lookup fs demo_path = Some (mk_value (demo_header 0x81A4) [0x61] [])"
    "threshold (fs_state fs) = 4096"
    by (rule demo_file [OF n]) (rule that)
  let ?g = "grown (demo_header 0x81A4) 5"
  have zeros: "replicate 2 0 = [0, 0 :: byte]" "replicate 3 0 = [0, 0, 0 :: byte]"
    by (simp_all add: numeral_eq_Suc)
  have "value_ok (touched ?g now) [0x61]" "st_size (fstat (touched ?g now)) = 5" for now
    by (intro value_ok_touched value_ok_grown demo_header_ok)
      (simp add: touched_def grown_def demo_header_size)
  then show ?thesis
    using write_read_release [OF F(2,3) demo_path(2) F(4) demo_header_ok demo_header_size(2), of 3 "[7, 8]" 10 1 mem_px 2]
      F(1,6)
    by (auto simp: write_at_def GetInlineData_mk Let_def zeros)
qed

text \<open>C6: \<^verbatim>\<open>Chmod\<close>, \<^verbatim>\<open>Chown\<close> and \<^verbatim>\<open>UpdateTimens\<close> on an existing path return 0, and the
  attributes stored for it are the old ones with exactly the fields of the call replaced; data,
  name and every other entry are unchanged. On a missing path they return \<^verbatim>\<open>-ENOENT\<close> and change
  nothing.\<close>

theorem attribute_updates:
  fixes fs :: "'d TableFS"
  assumes "fs_ok (Suc (Suc n)) fs pin" "quiet_path fs pin path" "path_key fs path = Some (key, filename)"
  defines "after \<equiv> \<lambda>g. (fs_view fs)(key := map_option (\<lambda>v. UpdateAttribute v (g (GetAttribute v))) (fs_view fs key))"
    and "code \<equiv> if fs_view fs key = None then - ENOENT else 0"
  shows "(\<exists>fs'. TableFS_Chmod fs path mode = Some (fs', code) \<and> fs_ok (Suc n) fs' pin \<and>
      fs_view fs' = after (\<lambda>v. v\<lparr>st_mode := mode\<rparr>)) \<and>
    (\<exists>fs'. TableFS_Chown fs path uid gid = Some (fs', code) \<and> fs_ok (Suc n) fs' pin \<and>
      fs_view fs' = after (\<lambda>v. v\<lparr>st_uid := uid, st_gid := gid\<rparr>)) \<and>
    (\<exists>fs'. TableFS_UpdateTimens fs path t0 t1 = Some (fs', code) \<and> fs_ok (Suc n) fs' pin \<and>
      fs_view fs' = after (\<lambda>v. v\<lparr>st_atim_sec := t0, st_mtim_sec := t1\<rparr>))"
proof -
  have look: "fs_lookup fs path = fs_view fs key" using assms(3) by (simp add: fs_lookup_def)
  have U: "\<exists>fs'. update_attribute fs path g = Some (fs', code) \<and> fs_ok (Suc n) fs' pin \<and> fs_view fs' = after g"
    if "\<And>s. stat_ok s \<Longrightarrow> stat_ok (g s) \<and> st_ino (g s) = st_ino s" for g
    using update_attribute_ok [OF assms(1,2) that] assms(3) by (auto simp: look code_def after_def)
  show ?thesis
    unfolding TableFS_Chmod_def TableFS_Chown_def TableFS_UpdateTimens_def
    by (intro conjI U) (simp_all add: stat_ok_def)
qed

theorem attribute_updates_witness:
  "\<exists>fs fs' v. make_inode mem_px demo_fs demo_path 0x81A4 0 demo_mem = Some (fs, 0) \<and>
     TableFS_Chmod fs demo_path 0x8180 = Some (fs', 0) \<and> fs_view fs' demo_key = Some v \<and>
     st_mode (GetAttribute v) = 0x8180 \<and> st_ino (GetAttribute v) = 1"
proof -
  have n: "Suc (Suc 0) < 2 ^ 55" by simp
  obtain fs where F: "make_inode mem_px demo_fs demo_path 0x81A4 0 demo_mem = Some (fs, 0)"
    "fs_ok (Suc (Suc 0)) fs (\<lambda>_. 0)" "quiet_path fs (\<lambda>_. 0) demo_path"
    "fs_view fs demo_key = Some (mk_value (demo_header 0x81A4) [0x61] [])"
    "fs_lookup fs demo_path = Some (mk_value (demo_header 0x81A4) [0x61] [])"
    "threshold (fs_state fs) = 4096"
    by (rule demo_file [OF n]) (rule that)
  let ?s = "(fstat (demo_header 0x81A4))\<lparr>st_mode := 0x8180\<rparr>"
  have s: "stat_ok ?s" using demo_header_ok [of "0x81A4"] by (simp add: value_ok_def header_ok_def stat_ok_def)
  then have "value_ok ((demo_header 0x81A4)\<lparr>fstat := ?s\<rparr>) [0x61]"
    using demo_header_ok [of "0x81A4"] by (simp add: value_ok_def header_ok_def)
  then show ?thesis
    using attribute_updates [OF F(2,3) demo_path(2), of "0x8180", THEN conjunct1] F(1,4) s
    by (auto simp: demo_header_ok UpdateAttribute_mk demo_header_size)
qed

text \<open>C7: \<^verbatim>\<open>ReadDir\<close> lists \<^verbatim>\<open>.\<close> and \<^verbatim>\<open>..\<close> and then the names of the entries of the directory, each exactly once, in the
  bytewise order of their keys, which store inode number and hash with the low byte first; and nothing of other
  directories. No entry is left out, except in the root: there the scan starts at the key of hash 1, which comes after
  the keys whose hash has a low byte of 0, so that exactly these entries of the root are not listed. The database
  is to hold only keys of inodes: \<^verbatim>\<open>Fsync\<close> puts another one.\<close>

theorem readdir_complete:
  fixes fs :: "'d TableFS"
  assumes "fs_ok n fs pin" "only_inodes fs"
    and "handle_at fs ph = Some handle" "st_ino (GetAttribute (ih_value handle)) = d"
  shows "\<exists>keys. TableFS_ReadDir fs ph listing [] =
      Some ([dot, dotdot] @ map (\<lambda>key. entry_name (the (fs_view fs key))) keys, 0) \<and>
    distinct keys \<and> sorted_wrt (\<lambda>a b. ToSlice a < ToSlice b) keys \<and>
    set keys = {key. fs_view fs key \<noteq> None \<and> inode_id key = d \<and>
      (d = ROOT_INODE_ID \<longrightarrow> (ucast (hash_id key) :: byte) \<noteq> 0)}"
proof -
  obtain keys where K: "TableFS_ReadDir fs ph listing [] =
      Some ([dot, dotdot] @ map (\<lambda>key. entry_name (the (fs_view fs key))) keys, 0)"
    "set keys = dir_entries fs d" "sorted_wrt (\<lambda>a b. ToSlice a < ToSlice b) keys"
    by (rule ReadDir_lists [OF assms]) (rule that)
  have "distinct keys"
    using K(3) by (induction keys) auto
  moreover have "ToSlice (dir_start d) \<le> ToSlice key \<longleftrightarrow> (d = ROOT_INODE_ID \<longrightarrow> (ucast (hash_id key) :: byte) \<noteq> 0)"
    if "inode_id key = d" for key
    using dir_start_least [OF that] root_start_iff [of key] that by (cases "d = ROOT_INODE_ID") auto
  then have "dir_entries fs d = {key. fs_view fs key \<noteq> None \<and> inode_id key = d \<and>
      (d = ROOT_INODE_ID \<longrightarrow> (ucast (hash_id key) :: byte) \<noteq> 0)}"
    unfolding dir_entries_def by blast
  ultimately show ?thesis using K by blast
qed

theorem readdir_complete_witness:
  "\<exists>fs h. TableFS_OpenDir demo_fs [0x2F] = Some (fs, 0, Some h) \<and>
     TableFS_ReadDir fs h listing [] = Some ([dot, dotdot, []], 0)"
proof -
  have k: "path_key demo_fs [0x2F] = Some (root_key, [PATH_DELIMITER])"
    by (simp add: path_key_def resolve.simps root_key_def)
  have r: "fs_view demo_fs root_key = Some (root_value mem_px demo_new (replicate 300 0))" by (simp add: demo_view)
  have q: "quiet_path demo_fs (\<lambda>_. 0) [0x2F]"
    by (rule demo_quiet) (simp add: abs_path_def PATH_DELIMITER_def)
  have ok: "fs_ok 0 demo_fs (\<lambda>_. 0)" by (rule demo_ok) simp
  obtain fs h p where O: "TableFS_OpenDir demo_fs [0x2F] = Some (fs, 0, Some h)" "(\<lambda>_. 0 :: nat) h = 0"
    "fs_ok 0 fs ((\<lambda>_. 0)(h := 1))"
    "handle_at fs h = Some \<lparr>ih_key = root_key, ih_value = root_value mem_px demo_new (replicate 300 0),
       ih_mode = INODE_READ, ih_pointer = Some p\<rparr>"
    "fs_view fs = fs_view demo_fs" "metadb fs = metadb demo_fs"
    by (rule OpenDir_ok [OF ok q k r]) (rule that)
  have only: "only_inodes fs" using demo_only O(6) by (simp add: only_inodes_def)
  have ino: "st_ino (GetAttribute (ih_value \<lparr>ih_key = root_key, ih_value = root_value mem_px demo_new (replicate 300 0),
       ih_mode = INODE_READ, ih_pointer = Some p\<rparr>)) = ROOT_INODE_ID"
    by (simp add: root_value_attr InitStat_def Let_def)
  obtain keys where K: "TableFS_ReadDir fs h listing [] =
      Some ([dot, dotdot] @ map (\<lambda>key. entry_name (the (fs_view fs key))) keys, 0)" "distinct keys"
    "set keys = {key. fs_view fs key \<noteq> None \<and> inode_id key = ROOT_INODE_ID \<and>
      (ROOT_INODE_ID = ROOT_INODE_ID \<longrightarrow> (ucast (hash_id key) :: byte) \<noteq> 0)}"
    using readdir_complete [OF O(3) only O(4) ino] by blast
  have "(ucast (hash_id root_key) :: byte) \<noteq> 0"
    by (simp add: root_key_def BuildMetaKey_path_def BuildMetaKey_def ROOT_INODE_ID_def murmur64_def
        murmur_m_def murmur_tail_def Let_def)
  then have "set keys = {root_key}"
    unfolding K(3) O(5) demo_view by (auto simp: root_key_def BuildMetaKey_path_def BuildMetaKey_def split: if_splits)
  then have "keys = [root_key]" using K(2) distinct_singleton by metis
  then show ?thesis using O(1,5) K(1) r by (simp add: root_value_name)
qed

text \<open>C8: A symbolic link made under a free name reads back as its target: \<^verbatim>\<open>Symlink\<close> returns 0,
  \<^verbatim>\<open>Readlink\<close> with a buffer of \<open>sz\<close> bytes returns the first \<open>sz - 1\<close> bytes of the target and a
  NUL, and \<^verbatim>\<open>GetAttr\<close> of the link has the type of a link.\<close>

theorem symlink_roundtrip:
  fixes fs :: "'d TableFS"
  assumes "fs_ok (Suc n) fs pin" "free_name fs pin path key filename"
    and "State_NewInode px (fs_state fs) (fs_disk fs) = Some ((st, inum), d)"
    and "257 + length filename \<le> length mem" "257 + length filename + length target < 2 ^ 32"
    and "0 < unat sz" "unat sz < 2 ^ 62"
  shows "\<exists>fs1 fs2 v. TableFS_Symlink px fs target path mem = Some (fs1, 0) \<and>
    TableFS_Readlink fs1 path sz = Some (fs2, 0, Some (take (unat sz - 1) target @ [0])) \<and>
    fs_lookup fs2 path = Some v \<and> st_mode (GetAttribute v) = S_IFLNK \<and> st_ino (GetAttribute v) = inum \<and>
    fs_view fs2 = (fs_view fs)(key \<mapsto> v) \<and> fs_ok n fs2 pin"
proof -
  let ?h = "init_header mem inum S_IFLNK 0 filename (fs_owner fs) (time_now fs)"
  obtain fs1 where S: "TableFS_Symlink px fs target path mem = Some (fs1, 0)" "fs_ok n fs1 pin"
    "fs_view fs1 = (fs_view fs)(key \<mapsto> mk_value ?h filename target)"
    using Symlink_ok [OF assms(1-5)] by blast
  note L = created_lookup [OF assms(2) S(3)]
  have fl: "length filename < 2 ^ 32" using assms(5) by simp
  have h: "value_ok ?h filename" by (rule InitInodeValue_mk(2) [OF assms(4) fl])
  have p: "abs_path path" using assms(2) by (simp add: free_name_def quiet_path_def)
  obtain fs2 where R: "TableFS_Readlink fs1 path sz = Some (fs2, 0, Some (take (unat sz - 1) target @ [0]))"
    "fs_ok n fs2 pin" "fs_view fs2 = fs_view fs1"
    using Readlink_ok [OF S(2) p L(2) h assms(6,7)] by blast
  have "fs_lookup fs2 path = Some (mk_value ?h filename target)"
    using L(2) path_key_view [OF R(3)] R(3) by (simp add: fs_lookup_def)
  then show ?thesis
    using S(1,3) R GetAttribute_init [OF assms(4) fl] by (auto simp: InitStat_def Let_def)
qed

theorem symlink_roundtrip_witness:
  "\<exists>fs1 fs2. TableFS_Symlink mem_px demo_fs [0x2F, 0x78] demo_path demo_mem = Some (fs1, 0) \<and>
     TableFS_Readlink fs1 demo_path 100 = Some (fs2, 0, Some [0x2F, 0x78, 0])"
  using symlink_roundtrip [OF demo_ok demo_free demo_NewInode, of 0 demo_mem "[0x2F, 0x78]" 100]
  by (auto simp: demo_mem)

text \<open>C9: Mounting establishes the invariant. With a fresh database and an inode counter of 0,
  \<^verbatim>\<open>Init\<close> creates exactly the entry of the root, an inode with number 0 and the mode of
  \<^verbatim>\<open>/tmp/\<close>, at the key the path \<^verbatim>\<open>/\<close> resolves to; with a counter that is not 0 it leaves the
  database as it is. Every path is then free of open handles.\<close>

theorem mount:
  fixes fs :: "'d TableFS" and px :: "'d posix"
  assumes "ad_ok (Suc n) (metadb fs)" "well_formed (fs_view fs)" "257 \<le> length mem"
    and "State_IsEmpty (fs_state fs) \<Longrightarrow> fs_view fs = Map.empty"
  defines "fs' \<equiv> TableFS_Init px fs mem"
  shows "fs_ok n fs' (\<lambda>_. 0) \<and> path_key fs' [0x2F] = Some (BuildMetaKey_path [] ROOT_INODE_ID, [0x2F]) \<and>
    (if State_IsEmpty (fs_state fs)
     then dom (fs_view fs') = {BuildMetaKey_path [] ROOT_INODE_ID} \<and>
       (\<exists>v. fs_lookup fs' [0x2F] = Some v \<and> st_ino (GetAttribute v) = 0 \<and>
         st_mode (GetAttribute v) = st_mode (px_lstat px ''/tmp/'' (fs_disk fs)))
     else fs_view fs' = fs_view fs)"
proof -
  have k: "path_key fs' [0x2F] = Some (BuildMetaKey_path [] ROOT_INODE_ID, [0x2F])"
    by (simp add: path_key_def resolve.simps PATH_DELIMITER_def)
  show ?thesis
  proof (cases "State_IsEmpty (fs_state fs)")
    case True
    note I = Init_empty [OF assms(1) True assms(4) [OF True] assms(3), of px]
    show ?thesis
      using True k I(1,2) assms(3)
      by (simp add: fs'_def fs_lookup_def root_key_def root_value_attr InitStat_def ROOT_INODE_ID_def Let_def)
  next
    case False
    have "ad_ok n (metadb fs)" using assms(1) ad.ok_less by fastforce
    then show ?thesis using Init_again [OF _ False assms(2), of n px mem] k False by (simp add: fs'_def)
  qed
qed

theorem mount_witness:
  "fs_ok 9 (TableFS_Init mem_px demo_new demo_mem) (\<lambda>_. 0) \<and>
   dom (fs_view (TableFS_Init mem_px demo_new demo_mem)) = {BuildMetaKey_path [] ROOT_INODE_ID}"
proof -
  have ok: "ad_ok (Suc 9) (metadb demo_new)"
    using DBImpl_new_ok(1) [of "Suc 9"] by (simp add: demo_new_def metadb_def InodeCache_new_def demo_ad_def ad_ok_def)
  have e: "fs_view demo_new = Map.empty"
    using DBImpl_new_ok(2) by (simp add: demo_new_def fs_view_def metadb_def InodeCache_new_def ad_lookup_def
        demo_ad_def fun_eq_iff)
  have "State_IsEmpty (fs_state demo_new)" by (simp add: demo_new_def State_IsEmpty_def State_new_def)
  then show ?thesis
    using mount [OF ok, of demo_mem mem_px] e demo_mem by (simp add: well_formed_def)
qed

text \<open>C10: \<^verbatim>\<open>RemoveDir\<close> does not look whether the directory is empty: on an existing path it
  returns 0 and removes the entry, and every other key, in particular those of the directory's
  children, stays in the database, where no path leads to it any more.\<close>

theorem rmdir_keeps_children:
  fixes fs :: "'d TableFS"
  assumes "fs_ok (Suc (Suc n)) fs pin" "quiet_path fs pin path" "path_key fs path = Some (key, filename)"
    and "fs_view fs key = Some v" "inode_id child = st_ino (GetAttribute v)" "fs_view fs child = Some w" "child \<noteq> key"
  shows "\<exists>fs'. TableFS_RemoveDir fs path = Some (fs', 0) \<and> fs_ok n fs' pin \<and> fs_lookup fs' path = None \<and>
    fs_view fs' child = Some w \<and> fs_view fs' = (fs_view fs)(key := None)"
proof -
  have look: "fs_lookup fs path = Some v" using assms(3,4) by (simp add: fs_lookup_def)
  obtain fs' where R: "TableFS_RemoveDir fs path = Some (fs', 0)" "fs_ok n fs' pin"
    "fs_view fs' = without (fs_view fs) (path_key fs path)"
    using RemoveDir_ok [OF assms(1,2)] look by auto
  then show ?thesis using lookup_without [OF R(3)] assms(3,6,7) by (auto simp: without_def)
qed

theorem rmdir_keeps_children_witness:
  "\<exists>fs fs' w. make_inode mem_px demo_fs demo_path 0x81A4 0 demo_mem = Some (fs, 0) \<and>
     TableFS_RemoveDir fs [0x2F] = Some (fs', 0) \<and> fs_lookup fs' [0x2F] = None \<and> fs_view fs' demo_key = Some w"
proof -
  have n: "Suc (Suc 0) < 2 ^ 55" by simp
  obtain fs where F: "make_inode mem_px demo_fs demo_path 0x81A4 0 demo_mem = Some (fs, 0)"
    "fs_ok (Suc (Suc 0)) fs (\<lambda>_. 0)" "quiet_path fs (\<lambda>_. 0) demo_path"
    "fs_view fs demo_key = Some (mk_value (demo_header 0x81A4) [0x61] [])"
    "fs_lookup fs demo_path = Some (mk_value (demo_header 0x81A4) [0x61] [])"
    "threshold (fs_state fs) = 4096"
    by (rule demo_file [OF n]) (rule that)
  let ?r = "root_value mem_px demo_new (replicate 300 0)"
  have ne: "demo_key \<noteq> root_key" using demo_free by (auto simp: free_name_def demo_view)
  then have r: "fs_view fs root_key = Some ?r" by (simp add: demo_file_view [OF F(1)] demo_view)
  have k: "path_key fs [0x2F] = Some (root_key, [PATH_DELIMITER])"
    by (simp add: path_key_def resolve.simps root_key_def)
  have q: "quiet_path fs (\<lambda>_. 0) [0x2F]"
    by (rule quiet_path_unpinned) (simp add: abs_path_def PATH_DELIMITER_def)
  have i: "inode_id demo_key = st_ino (GetAttribute ?r)"
    by (simp add: root_value_attr InitStat_def Let_def demo_key_def BuildMetaKey_path_def BuildMetaKey_def)
  show ?thesis using rmdir_keeps_children [OF F(2) q k r i F(4) ne] F(1) by blast
qed

section \<open>Properties\<close>

text \<open>C2: A file that outgrows the threshold moves to disk without losing a byte. When the operating
  system does not fail, a write that ends past the threshold moves the data the inode value held into
  the file of the inode on disk and completes there: a read through the handle sees the written
  bytes, zeros in a hole, the old bytes elsewhere; \<^verbatim>\<open>Release\<close> leaves in the database the entry
  with the new size, marked as having a file, with no inline data, and changes no other entry and no
  other file.\<close>
theorem large_file:
  fixes fs :: "'d TableFS"
  assumes "posix_files px files fds"
    and "fs_ok (Suc (Suc n)) fs pin" "quiet_path fs pin path" "path_key fs path = Some (key, filename)"
    and "fs_view fs key = Some (mk_value hh name data)" "value_ok hh name" "has_blob hh = 0"
    and "st_size (fstat hh) = of_nat (length data)" "length data < 2 ^ 31"
    and "GetDiskFilePath (fs_state fs) (st_ino (fstat hh)) = Some p" "files (fs_disk fs) p = None"
    and "threshold (fs_state fs) < int (unat off + length buf)" "0 \<le> threshold (fs_state fs)"
    and "buf \<noteq> []" "unat off + length buf < 2 ^ 31"
  shows "\<exists>fs1 f fs2 fs3 fs4 now. TableFS_Open px fs path O_RDWR = Some (fs1, 0, Some f) \<and>
    TableFS_Write px fs1 f buf off O_RDWR = Some (fs2, int (length buf)) \<and>
    (let r = take (unat sz) (drop (unat roff) (write_at data (unat off) buf))
     in TableFS_Read px fs2 f sz roff = Some (fs3, int (length r), r)) \<and>
    TableFS_Release px fs3 f = Some (fs4, 0) \<and> fs_ok n fs4 pin \<and>
    fs_view fs4 = (fs_view fs)(key \<mapsto> mk_value (touched (blob_header hh (off + of_nat (length buf))) now) name []) \<and>
    files (fs_disk fs4) = (files (fs_disk fs))(p \<mapsto> write_at data (unat off) buf)"
proof -
  obtain fs1 f fh q where O: "TableFS_Open px fs path O_RDWR = Some (fs1, 0, Some f)"
    "pin (fh_handle fh) = 0" "fs_ok (Suc (Suc n)) fs1 (pin(fh_handle fh := 1))" "fs_view fs1 = fs_view fs"
    "open_file fs1 (pin(fh_handle fh := 1)) f fh
       \<lparr>ih_key = key, ih_value = mk_value hh name data, ih_mode = open_mode O_RDWR, ih_pointer = Some q\<rparr>"
    "fs_state fs1 = fs_state fs" "ad_now (metadb fs1) = ad_now (metadb fs)" "quieter (fs_ic fs) (fs_ic fs1) pin"
    "fs_disk fs1 = fs_disk fs"
    by (rule Open_inline [OF assms(2-7)]) (rule that)
  let ?handle = "\<lparr>ih_key = key, ih_value = mk_value hh name data, ih_mode = open_mode O_RDWR, ih_pointer = Some q\<rparr>"
  have v: "ih_value ?handle = mk_value hh name data" "fs_view fs1 (ih_key ?handle) = Some (mk_value hh name data)"
    using assms(5) O(4) by simp_all
  have st: "GetDiskFilePath (fs_state fs1) (st_ino (fstat hh)) = Some p" "files (fs_disk fs1) p = None"
    "threshold (fs_state fs1) < int (unat off + length buf)" "0 \<le> threshold (fs_state fs1)"
    using assms(10-13) by (simp_all only: O(6,9))
  show ?thesis
    by (rule Write_Read_Release_blob [OF assms(1) O(3,2,5) v(1) assms(6,7) v(2) assms(8,9) st assms(14,15), of sz roff])
      (use O(1,4,9) in \<open>auto simp: Let_def\<close>)
qed

theorem large_file_witness:
  "\<exists>fs fs1 f fs2 fs3 fs4 v. make_inode mem_px demo_fs demo_path 0x81A4 0 demo_mem = Some (fs, 0) \<and>
     TableFS_Open mem_px fs demo_path O_RDWR = Some (fs1, 0, Some f) \<and>
     TableFS_Write mem_px fs1 f [7, 8] 4095 O_RDWR = Some (fs2, 2) \<and>
     TableFS_Read mem_px fs2 f 2 4095 = Some (fs3, 2, [7, 8]) \<and>
     TableFS_Release mem_px fs3 f = Some (fs4, 0) \<and>
     fs_view fs4 demo_key = Some v \<and> st_size (GetAttribute v) = 4097 \<and>
     md_files (fs_disk fs4) ''/d/0/1'' = Some (replicate 4095 0 @ [7, 8])"
proof -
  have n: "Suc (Suc 0) < 2 ^ 55" by simp
  obtain fs where F: "make_inode mem_px demo_fs demo_path 0x81A4 0 demo_mem = Some (fs, 0)"
    "fs_ok (Suc (Suc 0)) fs (\<lambda>_. 0)" "quiet_path fs (\<lambda>_. 0) demo_path"
    "fs_view fs demo_key = Some (mk_value (demo_header 0x81A4) [0x61] [])"
    "fs_lookup fs demo_path = Some (mk_value (demo_header 0x81A4) [0x61] [])"
    "threshold (fs_state fs) = 4096" 
    by (rule demo_file [OF n]) (rule that)
  have digits: "print_nat 0 = ''0''" "print_nat (Suc 0) = ''1''" by code_simp+
  have "(1 :: int) smod 16384 = 1" by (simp add: signed_modulo_int_def signed_divide_int_def)
  then have st: "GetDiskFilePath (fs_state fs) (st_ino (fstat (demo_header 0x81A4))) = Some ''/d/0/1''"
    "md_files (fs_disk fs) ''/d/0/1'' = None" "threshold (fs_state fs) < int (unat (4095 :: u64) + length [7, 8 :: byte])"
    "0 \<le> threshold (fs_state fs)"
    using demo_file_state [OF F(1)] unfolding demo_header_size
    by (simp_all add: demo_header_size mem_empty_def GetDiskFilePath_def int_of_inode_def NUM_FILES_IN_DATADIR_BITS_def
        NUM_FILES_IN_DATADIR_def print_int_def digits State_new_def)
  have w: "write_at [] (unat (4095 :: u64)) [7, 8] = replicate 4095 0 @ [7, 8 :: byte]"
    by (simp add: write_at_def)
  have r: "take 2 (drop 4095 (replicate 4095 0 @ [7, 8 :: byte])) = [7, 8]" by simp
  have hh: "value_ok (touched (blob_header (demo_header 0x81A4) 4097) now) [0x61]" for now
    by (intro value_ok_touched value_ok_blob demo_header_ok)
  have sz: "st_size (fstat (demo_header 0x81A4)) = of_nat (length ([] :: bytes))" "length ([] :: bytes) < 2 ^ 31"
    "[7, 8 :: byte] \<noteq> []" "unat (4095 :: u64) + length [7, 8 :: byte] < 2 ^ 31"
    by (simp_all add: demo_header_size)
  from large_file [OF mem_px_files F(2,3) demo_path(2) F(4) demo_header_ok demo_header_size(2) sz(1,2) st sz(3,4), of 2 4095]
  obtain fs1 f fs2 fs3 fs4 now where L: "TableFS_Open mem_px fs demo_path O_RDWR = Some (fs1, 0, Some f)"
    "TableFS_Write mem_px fs1 f [7, 8] 4095 O_RDWR = Some (fs2, 2)" "TableFS_Read mem_px fs2 f 2 4095 = Some (fs3, 2, [7, 8])"
    "TableFS_Release mem_px fs3 f = Some (fs4, 0)"
    "fs_view fs4 = (fs_view fs)(demo_key \<mapsto> mk_value (touched (blob_header (demo_header 0x81A4) 4097) now) [0x61] [])"
    "md_files (fs_disk fs4) = (md_files (fs_disk fs))(''/d/0/1'' \<mapsto> replicate 4095 0 @ [7, 8])"
    unfolding w by (auto simp: r Let_def)
  have h4: "st_size (fstat (touched (blob_header (demo_header 0x81A4) 4097) now)) = 4097"
    by (simp add: touched_def blob_header_def)
  show ?thesis
    by (intro exI conjI, rule F(1), rule L(1), rule L(2), rule L(3), rule L(4), simp add: L(5))
      (simp_all add: L(6) hh h4)
qed

end
